(* ===== verification/Prelude.thy ===== *)
theory Prelude
  imports Main "HOL-Library.Word"
begin

text \<open>
  Shared vocabulary of the development: the machine types of
  \<^verbatim>\<open>include/sigscheme/scmint.h\<close> on an LP64 platform, the facts about words that the
  byte level components use, and the collections that carry the component proofs.

  \<^item> \<open>byte\<close> is \<^verbatim>\<open>uchar\<close>/\<^verbatim>\<open>scm_byte_t\<close>, \<open>ichar\<close> is \<^verbatim>\<open>scm_ichar_t\<close> (a signed 32 bit integer, so
    the code's comparisons are \<open>\<le>s\<close>), \<open>uintobj\<close> is \<^verbatim>\<open>scm_uintobj_t\<close> (64 bits);
  \<^item> \<open>codec_defs\<close> collects the character predicates and the bit level helpers of
    \<^verbatim>\<open>encoding.c\<close>; \<open>store_simps\<close> the equations of heap access; \<open>num_defs\<close> those of the
    fixnum operations.
\<close>

unbundle bit_operations_syntax

named_theorems codec_defs
named_theorems store_simps
named_theorems num_defs

type_synonym byte = "8 word"
type_synonym ichar = "32 word"
type_synonym uintobj = "64 word"

section \<open>Words, bit by bit\<close>

text \<open>A bounded quantifier over bit positions is unfolded to its instances, so that equations
  between masks and shifts are decided by evaluation of single bits.\<close>

lemma all_less_8:
  "(\<forall>n<8. P n) = (P 0 \<and> P 1 \<and> P 2 \<and> P 3 \<and> P 4 \<and> P 5 \<and> P 6 \<and> P (7::nat))"
  by (simp add: eval_nat_numeral All_less_Suc conj_ac)

lemma all_less_32:
  "(\<forall>n<32. P n) =
     (P 0 \<and> P 1 \<and> P 2 \<and> P 3 \<and> P 4 \<and> P 5 \<and> P 6 \<and> P (7::nat) \<and>
      P 8 \<and> P 9 \<and> P 10 \<and> P 11 \<and> P 12 \<and> P 13 \<and> P 14 \<and> P 15 \<and>
      P 16 \<and> P 17 \<and> P 18 \<and> P 19 \<and> P 20 \<and> P 21 \<and> P 22 \<and> P 23 \<and>
      P 24 \<and> P 25 \<and> P 26 \<and> P 27 \<and> P 28 \<and> P 29 \<and> P 30 \<and> P 31)"
  by (simp add: eval_nat_numeral All_less_Suc conj_ac)

lemma word8_eqI:
  fixes a b :: "8 word"
  assumes "\<forall>n<8. bit a n = bit b n"
  shows "a = b"
  using assms by (intro bit_word_eqI) simp

lemma word32_eqI:
  fixes a b :: "32 word"
  assumes "\<forall>n<32. bit a n = bit b n"
  shows "a = b"
  using assms by (intro bit_word_eqI) simp

lemma word32_eq_iff:
  fixes a b :: "32 word"
  shows "a = b \<longleftrightarrow> (\<forall>n<32. bit a n = bit b n)"
  by (auto intro: word32_eqI)

lemma take_bit_of_lt:
  fixes c :: "'a::len word"
  assumes "unat c < 2 ^ k"
  shows "take_bit k c = c"
proof (rule word_unat_eq_iff [THEN iffD2])
  show "unat (take_bit k c) = unat c"
    using assms by (simp add: unsigned_take_bit_eq take_bit_nat_eq_self)
qed

lemma high_bits_clear:
  fixes c :: "'a::len word"
  assumes "unat c < 2 ^ k" and "k \<le> n"
  shows "\<not> bit c n"
  using take_bit_of_lt [OF assms(1)] assms(2) by (metis bit_take_bit_iff not_less)

text \<open>Signed comparison with a small constant, read as natural numbers.\<close>

lemma uint_of_nonneg_sint:
  fixes c :: "'a::len word"
  assumes "0 \<le> sint c"
  shows "sint c = uint c"
proof -
  have "sint c < 2 ^ (LENGTH('a) - 1)" by (rule sint_lt)
  also have "\<dots> \<le> 2 ^ LENGTH('a)" by (rule power_increasing) simp_all
  finally have "take_bit LENGTH('a) (sint c) = sint c"
    using assms by (simp add: take_bit_int_eq_self_iff)
  moreover have "take_bit LENGTH('a) (sint c) = uint c"
    by (simp add: sint_uint take_bit_signed_take_bit take_bit_int_eq_self)
  ultimately show ?thesis by simp
qed

lemma sless_eq_unat:
  fixes c k :: "'a::len word"
  assumes "0 \<le>s c" and "0 \<le>s k"
  shows "c \<le>s k \<longleftrightarrow> unat c \<le> unat k"
  using assms by (simp add: word_sle_eq uint_of_nonneg_sint word_le_def [symmetric] word_le_nat_alt)

end
