(* ===== verification/Encoding.thy ===== *)
theory Encoding
  imports Prelude
begin

text \<open>
  The character codecs of \<^verbatim>\<open>src/encoding.c\<close> in their default, strict form
  (\<^verbatim>\<open>SCM_STRICT_ENCODING_CHECK\<close>, no stateful encoding).

  \<^item> A \<^verbatim>\<open>ScmMultibyteString\<close> (pointer and size) is the list of the bytes it spans;
    \<^verbatim>\<open>SCM_MBS_SKIP_CHAR\<close> drops the scanned bytes. The scan functions are also given on a memory and a
    size, so that it can be stated that they look at no byte beyond the string.
  \<^item> A codec is a record with the function table of \<^verbatim>\<open>ScmCharCodecVTbl\<close>; the six tables of
    the source are constants.
  \<^item> \<^verbatim>\<open>int2str\<close> returns the bytes written before the terminating NUL, \<open>None\<close> for \<^verbatim>\<open>NULL\<close>.

  The contract that the string procedures rely on is the locale \<open>char_codec\<close>: every scan makes
  progress within the buffer, and an encoded character is scanned and decoded back whatever
  follows it. All six tables satisfy it, each on its own set of characters.
\<close>

section \<open>Data types\<close>

datatype mbcflag = MBCFLAG_NONE | MBCFLAG_ERROR | MBCFLAG_INCOMPLETE

record mbcinfo =
  mbc_size :: nat
  mbc_flag :: mbcflag

datatype ccs = CCS_UNKNOWN | CCS_UNICODE | CCS_ISO8859_1 | CCS_JIS

record codec_vtbl =
  statefulp :: bool
  encoding :: string
  codec_ccs :: ccs
  char_len :: "ichar \<Rightarrow> nat"
  scan_char :: "byte list \<Rightarrow> mbcinfo"
  str2int :: "byte list \<Rightarrow> nat \<Rightarrow> ichar"
  int2str :: "ichar \<Rightarrow> byte list option"

definition SCM_ICHAR_EOF :: ichar where
  "SCM_ICHAR_EOF = - 1"

text \<open>The exits of the scan functions.\<close>

definition RETURN :: "nat \<Rightarrow> mbcinfo" where
  "RETURN n = \<lparr>mbc_size = n, mbc_flag = MBCFLAG_NONE\<rparr>"

definition RETURN_ERROR :: mbcinfo where
  "RETURN_ERROR = \<lparr>mbc_size = 1, mbc_flag = MBCFLAG_ERROR\<rparr>"

definition RETURN_INCOMPLETE :: "nat \<Rightarrow> mbcinfo" where
  "RETURN_INCOMPLETE n = \<lparr>mbc_size = n, mbc_flag = MBCFLAG_INCOMPLETE\<rparr>"

section \<open>Operations on multibyte strings\<close>

partial_function (option) mb_strlen_loop :: "codec_vtbl \<Rightarrow> byte list \<Rightarrow> nat \<Rightarrow> nat option" where
  "mb_strlen_loop codec mbs len =
     (if mbs = [] then Some len
      else mb_strlen_loop codec (drop (mbc_size (scan_char codec mbs)) mbs) (Suc len))"

definition scm_mb_strlen :: "codec_vtbl \<Rightarrow> byte list \<Rightarrow> nat option" where
  "scm_mb_strlen codec mbs = mb_strlen_loop codec mbs 0"

text \<open>\<open>skip_chars n\<close> is the loop \<^verbatim>\<open>while (n--)\<close> of \<open>scm_mb_substring\<close>, returning the rest of the
  string and the number of bytes skipped.\<close>

fun skip_chars :: "codec_vtbl \<Rightarrow> nat \<Rightarrow> byte list \<Rightarrow> nat" where
  "skip_chars codec 0 mbs = 0"
| "skip_chars codec (Suc n) mbs =
     (let k = mbc_size (scan_char codec mbs) in k + skip_chars codec n (drop k mbs))"

definition scm_mb_substring :: "codec_vtbl \<Rightarrow> byte list \<Rightarrow> nat \<Rightarrow> nat \<Rightarrow> byte list" where
  "scm_mb_substring codec mbs i len =
     (let ret = drop (skip_chars codec i mbs) mbs in take (skip_chars codec len ret) ret)"

definition scm_charcodec_read_char :: "codec_vtbl \<Rightarrow> byte list \<Rightarrow> string + (ichar \<times> byte list)" where
  "scm_charcodec_read_char codec mbs =
     (let mbc = scan_char codec mbs in
      if mbc_flag mbc = MBCFLAG_ERROR \<or> mbc_flag mbc = MBCFLAG_INCOMPLETE
      then Inl ''scm_charcodec_read_char: invalid char sequence''
      else let ch = str2int codec mbs (mbc_size mbc) in
        if ch = SCM_ICHAR_EOF then Inl ''scm_charcodec_read_char: invalid char sequence''
        else Inr (ch, drop (mbc_size mbc) mbs))"

section \<open>Character classes\<close>

definition IN_CL :: "byte \<Rightarrow> bool" where [codec_defs]: "IN_CL c \<longleftrightarrow> c < 0x20"
definition IN_CR :: "byte \<Rightarrow> bool" where [codec_defs]: "IN_CR c \<longleftrightarrow> 0x80 \<le> c \<and> c \<le> 0x9F"
definition IN_GL94 :: "byte \<Rightarrow> bool" where [codec_defs]: "IN_GL94 c \<longleftrightarrow> 0x21 \<le> c \<and> c \<le> 0x7E"
definition IN_GL96 :: "byte \<Rightarrow> bool" where [codec_defs]: "IN_GL96 c \<longleftrightarrow> 0x20 \<le> c \<and> c \<le> 0x7F"
definition IN_GR94 :: "byte \<Rightarrow> bool" where [codec_defs]: "IN_GR94 c \<longleftrightarrow> 0xA1 \<le> c \<and> c \<le> 0xFE"
definition IN_GR96 :: "byte \<Rightarrow> bool" where [codec_defs]: "IN_GR96 c \<longleftrightarrow> 0xA0 \<le> c"
definition IS_ASCII_byte :: "byte \<Rightarrow> bool" where [codec_defs]: "IS_ASCII_byte c \<longleftrightarrow> c \<le> 0x7F"
definition IS_GR_SPC_OR_DEL :: "byte \<Rightarrow> bool" where
  [codec_defs]: "IS_GR_SPC_OR_DEL c \<longleftrightarrow> c = 0xA0 \<or> c = 0xFF"

definition SS2 :: byte where [codec_defs]: "SS2 = 0x8E"
definition SS3 :: byte where [codec_defs]: "SS3 = 0x8F"

text \<open>Tests on a code point, a signed 32 bit integer.\<close>

definition IS_1BYTE :: "ichar \<Rightarrow> bool" where "IS_1BYTE e \<longleftrightarrow> e \<le>s 0x7F"
definition IS_2BYTES :: "ichar \<Rightarrow> bool" where "IS_2BYTES e \<longleftrightarrow> e \<le>s 0xFFFF"
definition IS_3BYTES :: "ichar \<Rightarrow> bool" where
  "IS_3BYTES e \<longleftrightarrow> e \<le>s (push_bit 16 (ucast SS3) OR 0xFFFF)"

abbreviation uchar :: "ichar \<Rightarrow> byte" where
  "uchar ch \<equiv> ucast ch"

section \<open>EUC-JP\<close>

definition eucjp_scan :: "byte list \<Rightarrow> nat \<Rightarrow> mbcinfo" where
  "eucjp_scan str sz =
     (if sz = 0 then RETURN 0
      else if IN_CL (str ! 0) \<or> IN_GL96 (str ! 0) then RETURN 1
      else if IN_GR94 (str ! 0) \<or> str ! 0 = SS2 then
        (if sz < 2 then RETURN_INCOMPLETE 1
         else if \<not> IN_GR96 (str ! 1) then RETURN_ERROR
         else RETURN 2)
      else if str ! 0 = SS3 then
        (if sz < 2 then RETURN_INCOMPLETE sz
         else if IS_GR_SPC_OR_DEL (str ! 1) then RETURN 2
         else if \<not> IN_GR94 (str ! 1) then RETURN_ERROR
         else if sz < 3 then RETURN_INCOMPLETE sz
         else if \<not> IN_GR94 (str ! 2) then RETURN_ERROR
         else RETURN 3)
      else RETURN_ERROR)"

definition eucjp_scan_char :: "byte list \<Rightarrow> mbcinfo" where
  "eucjp_scan_char str = eucjp_scan str (length str)"

definition eucjp_str2int :: "byte list \<Rightarrow> nat \<Rightarrow> ichar" where
  "eucjp_str2int src len =
     (if len = 1 then ucast (src ! 0)
      else if len = 2 then push_bit 8 (ucast (src ! 0)) OR ucast (src ! 1)
      else if len = 3 then
        push_bit 16 (ucast (src ! 0)) OR push_bit 8 (ucast (src ! 1)) OR ucast (src ! 2)
      else SCM_ICHAR_EOF)"

definition eucjp_int2str :: "ichar \<Rightarrow> byte list option" where
  "eucjp_int2str ch =
     (if IS_1BYTE ch then Some [uchar ch]
      else if IS_2BYTES ch then
        (let s0 = uchar (drop_bit 8 ch); s1 = uchar (ch AND 0xFF) in
         if (\<not> IN_GR94 s0 \<and> s0 \<noteq> SS2) \<or> \<not> IN_GR96 s1 then None
         else Some [uchar (drop_bit 8 ch), uchar (ch AND 0xFF)])
      else if IS_3BYTES ch then
        (let s0 = uchar (drop_bit 16 ch); s1 = uchar (drop_bit 8 ch AND 0xFF);
             s2 = uchar (ch AND 0xFF) in
         if s0 \<noteq> SS3 \<or> \<not> IN_GR94 s1 \<or> \<not> IN_GR94 s2 then None
         else Some [uchar (drop_bit 16 ch), uchar (drop_bit 8 ch AND 0xFF), uchar (ch AND 0xFF)])
      else None)"

text \<open>The \<^verbatim>\<open>char_len\<close> entries encode into a buffer and measure it.\<close>

definition encoded_len :: "(ichar \<Rightarrow> byte list option) \<Rightarrow> ichar \<Rightarrow> nat" where
  "encoded_len enc ch = (case enc ch of Some bs \<Rightarrow> length bs | None \<Rightarrow> 0)"

definition eucjp_char_len :: "ichar \<Rightarrow> nat" where
  "eucjp_char_len ch = encoded_len eucjp_int2str ch"

section \<open>EUC-CN and EUC-KR\<close>

definition dbc_str2int :: "byte list \<Rightarrow> nat \<Rightarrow> ichar" where
  "dbc_str2int src len =
     (if len = 1 then ucast (src ! 0)
      else if len = 2 then push_bit 8 (ucast (src ! 0)) OR ucast (src ! 1)
      else SCM_ICHAR_EOF)"

definition euc_int2str :: "ichar \<Rightarrow> byte list option" where
  "euc_int2str ch =
     (if IS_1BYTE ch then Some [uchar ch]
      else if IS_2BYTES ch then
        (let s0 = uchar (drop_bit 8 ch); s1 = uchar (ch AND 0xFF) in
         if \<not> IN_GR94 s0 \<or> \<not> IN_GR96 s1 then None
         else Some [uchar (drop_bit 8 ch), uchar (ch AND 0xFF)])
      else None)"

definition euc_char_len :: "ichar \<Rightarrow> nat" where
  "euc_char_len ch = encoded_len euc_int2str ch"

definition euccn_scan :: "byte list \<Rightarrow> nat \<Rightarrow> mbcinfo" where
  "euccn_scan str sz =
     (if sz = 0 then RETURN 0
      else if IS_ASCII_byte (str ! 0) then RETURN 1
      else if IN_GR94 (str ! 0) then
        (if sz < 2 then RETURN_INCOMPLETE sz
         else if \<not> IN_GR96 (str ! 1) then RETURN_ERROR
         else RETURN 2)
      else RETURN_ERROR)"

definition euccn_scan_char :: "byte list \<Rightarrow> mbcinfo" where
  "euccn_scan_char str = euccn_scan str (length str)"

definition euckr_scan :: "byte list \<Rightarrow> nat \<Rightarrow> mbcinfo" where
  "euckr_scan str sz =
     (if sz = 0 then RETURN 0
      else if IS_ASCII_byte (str ! 0) then RETURN 1
      else if IN_GR94 (str ! 0) then
        (if sz < 2 then RETURN_INCOMPLETE sz
         else if \<not> IN_GR96 (str ! 1) then RETURN_ERROR
         else RETURN 2)
      else RETURN_ERROR)"

definition euckr_scan_char :: "byte list \<Rightarrow> mbcinfo" where
  "euckr_scan_char str = euckr_scan str (length str)"

section \<open>UTF-8\<close>

definition IN_OCT_BMP :: "ichar \<Rightarrow> bool" where "IN_OCT_BMP u \<longleftrightarrow> u \<le>s 0x7FF"
definition IN_BMP :: "ichar \<Rightarrow> bool" where "IN_BMP u \<longleftrightarrow> u \<le>s 0xFFFF"
definition IN_SMP :: "ichar \<Rightarrow> bool" where "IN_SMP u \<longleftrightarrow> u \<le>s 0x10FFFF \<and> \<not> IN_BMP u"

definition LEN_CODE :: "nat \<Rightarrow> ichar" where
  "LEN_CODE n = push_bit (8 - n) (push_bit n 1 - 1)"

definition MASK :: "nat \<Rightarrow> ichar" where
  "MASK n = drop_bit 1 (LEN_CODE n) OR 0x80"

definition IS_LEN :: "byte \<Rightarrow> nat \<Rightarrow> bool" where
  "IS_LEN c n \<longleftrightarrow> MASK n AND ucast c = LEN_CODE n"

definition IS_TRAILING :: "byte \<Rightarrow> bool" where
  "IS_TRAILING c \<longleftrightarrow> IS_LEN c 1"

definition LEADING_VAL :: "ichar \<Rightarrow> nat \<Rightarrow> ichar" where
  "LEADING_VAL u n = drop_bit (6 * (n - 1)) u"

definition TRAILING_VAL :: "ichar \<Rightarrow> nat \<Rightarrow> ichar" where
  "TRAILING_VAL u i = NOT (MASK 1) AND drop_bit (6 * i) u"

text \<open>The loop that checks the trailing bytes \<open>i, \<dots>, len - 1\<close>.\<close>

fun utf8_scan_trailing :: "byte list \<Rightarrow> nat \<Rightarrow> nat \<Rightarrow> nat \<Rightarrow> nat \<Rightarrow> mbcinfo" where
  "utf8_scan_trailing str sz len i 0 = RETURN len"
| "utf8_scan_trailing str sz len i (Suc k) =
     (if sz \<le> i then RETURN_INCOMPLETE sz
      else if \<not> IS_TRAILING (str ! i) then RETURN_ERROR
      else utf8_scan_trailing str sz len (Suc i) k)"

definition utf8_scan :: "byte list \<Rightarrow> nat \<Rightarrow> mbcinfo" where
  "utf8_scan str sz =
     (if sz = 0 then RETURN 0
      else if IS_ASCII_byte (str ! 0) then RETURN 1
      else if IS_LEN (str ! 0) 2 then utf8_scan_trailing str sz 2 1 1
      else if IS_LEN (str ! 0) 3 then utf8_scan_trailing str sz 3 1 2
      else if IS_LEN (str ! 0) 4 then utf8_scan_trailing str sz 4 1 3
      else RETURN_ERROR)"

definition utf8_scan_char :: "byte list \<Rightarrow> mbcinfo" where
  "utf8_scan_char str = utf8_scan str (length str)"

definition utf8_str2int :: "byte list \<Rightarrow> nat \<Rightarrow> ichar" where
  "utf8_str2int src len =
     (if len = 1 then ucast (src ! 0)
      else if len = 2 then
        push_bit 6 (NOT (MASK 2) AND ucast (src ! 0)) OR (NOT (MASK 1) AND ucast (src ! 1))
      else if len = 3 then
        push_bit 12 (NOT (MASK 3) AND ucast (src ! 0)) OR
        push_bit 6 (NOT (MASK 1) AND ucast (src ! 1)) OR (NOT (MASK 1) AND ucast (src ! 2))
      else if len = 4 then
        push_bit 18 (NOT (MASK 4) AND ucast (src ! 0)) OR
        push_bit 12 (NOT (MASK 1) AND ucast (src ! 1)) OR
        push_bit 6 (NOT (MASK 1) AND ucast (src ! 2)) OR (NOT (MASK 1) AND ucast (src ! 3))
      else SCM_ICHAR_EOF)"

definition utf8_int2str :: "ichar \<Rightarrow> byte list option" where
  "utf8_int2str ch =
     (if IS_1BYTE ch then Some [uchar ch]
      else if IN_OCT_BMP ch then
        Some [uchar (LEN_CODE 2 OR LEADING_VAL ch 2), uchar (LEN_CODE 1 OR TRAILING_VAL ch 0)]
      else if IN_BMP ch then
        Some [uchar (LEN_CODE 3 OR LEADING_VAL ch 3), uchar (LEN_CODE 1 OR TRAILING_VAL ch 1),
              uchar (LEN_CODE 1 OR TRAILING_VAL ch 0)]
      else if IN_SMP ch then
        Some [uchar (LEN_CODE 4 OR LEADING_VAL ch 4), uchar (LEN_CODE 1 OR TRAILING_VAL ch 2),
              uchar (LEN_CODE 1 OR TRAILING_VAL ch 1), uchar (LEN_CODE 1 OR TRAILING_VAL ch 0)]
      else None)"

definition utf8_char_len :: "ichar \<Rightarrow> nat" where
  "utf8_char_len ch = encoded_len utf8_int2str ch"

section \<open>Shift JIS\<close>

definition IS_KANA :: "byte \<Rightarrow> bool" where [codec_defs]: "IS_KANA c \<longleftrightarrow> 0xA1 \<le> c \<and> c \<le> 0xDF"

definition IS_LEAD :: "byte \<Rightarrow> bool" where
  [codec_defs]: "IS_LEAD c \<longleftrightarrow> 0x81 \<le> c \<and> \<not> IS_KANA c \<and> c \<le> 0xFC \<and> c \<noteq> 0xA0"

definition IS_TRAIL :: "byte \<Rightarrow> bool" where
  [codec_defs]: "IS_TRAIL c \<longleftrightarrow> 0x40 \<le> c \<and> c \<le> 0xFC \<and> c \<noteq> 0x7E"

definition sjis_scan :: "byte list \<Rightarrow> nat \<Rightarrow> mbcinfo" where
  "sjis_scan str sz =
     (if sz = 0 then RETURN 0
      else if IS_LEAD (str ! 0) then
        (if sz < 2 then RETURN_INCOMPLETE sz
         else if \<not> IS_TRAIL (str ! 1) then RETURN_ERROR
         else RETURN 2)
      else RETURN 1)"

definition sjis_scan_char :: "byte list \<Rightarrow> mbcinfo" where
  "sjis_scan_char str = sjis_scan str (length str)"

definition sjis_int2str :: "ichar \<Rightarrow> byte list option" where
  "sjis_int2str ch =
     (if signed_drop_bit 16 ch \<noteq> 0 then None
      else let high = uchar (drop_bit 8 ch); low = uchar (ch AND 0xFF) in
        if IS_LEAD high then (if \<not> IS_TRAIL high then None else Some [high, low])
        else Some [low])"

definition sjis_char_len :: "ichar \<Rightarrow> nat" where
  "sjis_char_len ch = encoded_len sjis_int2str ch"

section \<open>Single byte encodings\<close>

definition unibyte_scan :: "byte list \<Rightarrow> nat \<Rightarrow> mbcinfo" where
  "unibyte_scan str sz = (if sz \<noteq> 0 then RETURN 1 else RETURN 0)"

definition unibyte_scan_char :: "byte list \<Rightarrow> mbcinfo" where
  "unibyte_scan_char str = unibyte_scan str (length str)"

definition unibyte_str2int :: "byte list \<Rightarrow> nat \<Rightarrow> ichar" where
  "unibyte_str2int src len = (if len \<noteq> 1 then SCM_ICHAR_EOF else ucast (src ! 0))"

definition unibyte_int2str :: "ichar \<Rightarrow> byte list option" where
  "unibyte_int2str ch = (if ch AND NOT 0xFF \<noteq> 0 then None else Some [uchar ch])"

definition unibyte_char_len :: "ichar \<Rightarrow> nat" where
  "unibyte_char_len ch = (if 0 <s ch \<and> ch \<le>s 0xFF then 1 else 0)"

section \<open>The codec tables\<close>

definition utf8_codec_vtbl :: codec_vtbl where
  "utf8_codec_vtbl = \<lparr>statefulp = False, encoding = ''UTF-8'', codec_ccs = CCS_UNICODE,
     char_len = utf8_char_len, scan_char = utf8_scan_char, str2int = utf8_str2int,
     int2str = utf8_int2str\<rparr>"

definition eucjp_codec_vtbl :: codec_vtbl where
  "eucjp_codec_vtbl = \<lparr>statefulp = False, encoding = ''EUC-JP'', codec_ccs = CCS_JIS,
     char_len = eucjp_char_len, scan_char = eucjp_scan_char, str2int = eucjp_str2int,
     int2str = eucjp_int2str\<rparr>"

definition euccn_codec_vtbl :: codec_vtbl where
  "euccn_codec_vtbl = \<lparr>statefulp = False, encoding = ''EUC-CN'', codec_ccs = CCS_UNKNOWN,
     char_len = euc_char_len, scan_char = euccn_scan_char, str2int = dbc_str2int,
     int2str = euc_int2str\<rparr>"

definition euckr_codec_vtbl :: codec_vtbl where
  "euckr_codec_vtbl = \<lparr>statefulp = False, encoding = ''EUC-KR'', codec_ccs = CCS_UNKNOWN,
     char_len = euc_char_len, scan_char = euckr_scan_char, str2int = dbc_str2int,
     int2str = euc_int2str\<rparr>"

definition sjis_codec_vtbl :: codec_vtbl where
  "sjis_codec_vtbl = \<lparr>statefulp = False, encoding = ''Shift_JIS'', codec_ccs = CCS_JIS,
     char_len = sjis_char_len, scan_char = sjis_scan_char, str2int = dbc_str2int,
     int2str = sjis_int2str\<rparr>"

definition unibyte_codec_vtbl :: codec_vtbl where
  "unibyte_codec_vtbl = \<lparr>statefulp = False, encoding = ''ISO-8859-1'', codec_ccs = CCS_ISO8859_1,
     char_len = unibyte_char_len, scan_char = unibyte_scan_char, str2int = unibyte_str2int,
     int2str = unibyte_int2str\<rparr>"

lemmas vtbl_defs = utf8_codec_vtbl_def eucjp_codec_vtbl_def euccn_codec_vtbl_def
  euckr_codec_vtbl_def sjis_codec_vtbl_def unibyte_codec_vtbl_def

definition available_codecs :: "codec_vtbl list" where
  "available_codecs = [utf8_codec_vtbl, eucjp_codec_vtbl, euccn_codec_vtbl, euckr_codec_vtbl,
     sjis_codec_vtbl, unibyte_codec_vtbl]"

definition scm_mb_find_codec :: "string \<Rightarrow> codec_vtbl option" where
  "scm_mb_find_codec enc = find (\<lambda>codec. encoding codec = enc) available_codecs"

section \<open>The codec contract\<close>

definition encode_str :: "codec_vtbl \<Rightarrow> ichar list \<Rightarrow> byte list" where
  "encode_str codec cs =
     concat (map (\<lambda>c. case int2str codec c of Some bs \<Rightarrow> bs | None \<Rightarrow> []) cs)"

lemma encode_str_Nil [simp]: "encode_str codec [] = []"
  by (simp add: encode_str_def)

lemma encode_str_Cons:
  "encode_str codec (c # cs) =
     (case int2str codec c of Some bs \<Rightarrow> bs | None \<Rightarrow> []) @ encode_str codec cs"
  by (simp add: encode_str_def)

lemma encode_str_append: "encode_str codec (cs @ ds) = encode_str codec cs @ encode_str codec ds"
  by (simp add: encode_str_def)

lemma mbc_RETURN [simp]:
  "mbc_size (RETURN n) = n" "mbc_flag (RETURN n) = MBCFLAG_NONE"
  "mbc_size RETURN_ERROR = 1" "mbc_flag RETURN_ERROR = MBCFLAG_ERROR"
  "mbc_size (RETURN_INCOMPLETE n) = n" "mbc_flag (RETURN_INCOMPLETE n) = MBCFLAG_INCOMPLETE"
  by (simp_all add: RETURN_def RETURN_ERROR_def RETURN_INCOMPLETE_def)

locale char_scanner =
  fixes codec :: codec_vtbl
  assumes scan_empty: "mbc_size (scan_char codec []) = 0"
    and scan_progress: "s \<noteq> [] \<Longrightarrow> 0 < mbc_size (scan_char codec s)"
    and scan_within: "mbc_size (scan_char codec s) \<le> length s"
begin

lemma strlen_loop_total:
  "\<exists>n. mb_strlen_loop codec s k = Some (k + n) \<and> n \<le> length s \<and> (s \<noteq> [] \<longrightarrow> 0 < n)"
proof (induction "length s" arbitrary: s k rule: less_induct)
  case less
  show ?case
  proof (cases "s = []")
    case True
    then show ?thesis by (simp add: mb_strlen_loop.simps)
  next
    case False
    let ?t = "drop (mbc_size (scan_char codec s)) s"
    have lt: "length ?t < length s"
      using False scan_progress [OF False] scan_within [of s] by (cases s) auto
    from less [OF lt, of "Suc k"] obtain n
      where n: "mb_strlen_loop codec ?t (Suc k) = Some (Suc k + n)" "n \<le> length ?t" by blast
    have "mb_strlen_loop codec s k = Some (k + Suc n)"
      using False n(1) by (simp add: mb_strlen_loop.simps [of codec s])
    moreover have "Suc n \<le> length s" using n(2) lt by linarith
    ultimately show ?thesis by blast
  qed
qed

lemma strlen_total: "\<exists>n. scm_mb_strlen codec s = Some n \<and> n \<le> length s"
  using strlen_loop_total [of s 0] by (auto simp: scm_mb_strlen_def)

lemma skip_chars_within: "skip_chars codec n s \<le> length s"
proof (induction n arbitrary: s)
  case (Suc n)
  have "skip_chars codec n (drop (mbc_size (scan_char codec s)) s)
          \<le> length s - mbc_size (scan_char codec s)"
    using Suc.IH [of "drop (mbc_size (scan_char codec s)) s"] by simp
  then show ?case
    using scan_within [of s] by (simp add: Let_def)
qed simp

lemma substring_within: "length (scm_mb_substring codec s i len) \<le> length s - skip_chars codec i s"
  by (simp add: scm_mb_substring_def Let_def)

lemma skip_chars_empty: "skip_chars codec n [] = 0"
  using skip_chars_within [of n "[]"] by simp

end

locale char_codec = char_scanner +
  fixes valid :: "ichar \<Rightarrow> bool"
  assumes encodable: "valid c \<Longrightarrow> \<exists>bs. int2str codec c = Some bs \<and> bs \<noteq> [] \<and>
      (\<forall>rest. scan_char codec (bs @ rest) = RETURN (length bs) \<and>
              str2int codec (bs @ rest) (length bs) = c)"
    and valid_not_eof: "valid c \<Longrightarrow> c \<noteq> SCM_ICHAR_EOF"
begin

lemma encodableE:
  assumes "valid c"
  obtains bs where "int2str codec c = Some bs" "bs \<noteq> []"
    "\<And>rest. scan_char codec (bs @ rest) = RETURN (length bs)"
    "\<And>rest. str2int codec (bs @ rest) (length bs) = c"
  using encodable [OF assms] by blast

lemma read_char_encoded:
  assumes "valid c"
  shows "scm_charcodec_read_char codec (encode_str codec (c # cs) @ rest)
           = Inr (c, encode_str codec cs @ rest)"
  using assms valid_not_eof [OF assms]
  by (elim encodableE) (simp add: scm_charcodec_read_char_def encode_str_Cons)

lemma strlen_loop_encoded:
  assumes "\<forall>c \<in> set cs. valid c"
  shows "mb_strlen_loop codec (encode_str codec cs @ s) k
           = mb_strlen_loop codec s (k + length cs)"
  using assms
proof (induction cs arbitrary: k)
  case (Cons c cs)
  then have "valid c" by simp
  then show ?case
  proof (elim encodableE)
    fix bs
    assume bs: "int2str codec c = Some bs" "bs \<noteq> []"
      "\<And>rest. scan_char codec (bs @ rest) = RETURN (length bs)"
    have "mb_strlen_loop codec (encode_str codec (c # cs) @ s) k
            = mb_strlen_loop codec (encode_str codec cs @ s) (Suc k)"
      using bs by (simp add: encode_str_Cons mb_strlen_loop.simps [of codec "bs @ _"])
    then show ?thesis
      using Cons.IH [of "Suc k"] Cons.prems by simp
  qed
qed simp

lemma strlen_encoded:
  assumes "\<forall>c \<in> set cs. valid c"
  shows "scm_mb_strlen codec (encode_str codec cs) = Some (length cs)"
  using strlen_loop_encoded [OF assms, of "[]" 0]
  by (simp add: scm_mb_strlen_def mb_strlen_loop.simps)

lemma skip_chars_encoded:
  assumes "\<forall>c \<in> set cs. valid c"
  shows "skip_chars codec n (encode_str codec cs) = length (encode_str codec (take n cs))"
  using assms
proof (induction n arbitrary: cs)
  case (Suc n)
  show ?case
  proof (cases cs)
    case Nil
    then show ?thesis using skip_chars_empty [of "Suc n"] by simp
  next
    case (Cons c ds)
    with Suc.prems have "valid c" by simp
    then show ?thesis
    proof (elim encodableE)
      fix bs
      assume "int2str codec c = Some bs"
        "\<And>rest. scan_char codec (bs @ rest) = RETURN (length bs)"
      then show ?thesis
        using Suc.IH [of ds] Suc.prems Cons by (simp add: encode_str_Cons)
    qed
  qed
qed simp

lemma drop_encoded:
  assumes "\<forall>c \<in> set cs. valid c"
  shows "drop (skip_chars codec n (encode_str codec cs)) (encode_str codec cs)
           = encode_str codec (drop n cs)"
proof -
  have "encode_str codec cs = encode_str codec (take n cs) @ encode_str codec (drop n cs)"
    by (simp flip: encode_str_append)
  then show ?thesis
    unfolding skip_chars_encoded [OF assms] by (metis append_eq_conv_conj)
qed

lemma substring_encoded:
  assumes "\<forall>c \<in> set cs. valid c"
  shows "scm_mb_substring codec (encode_str codec cs) i len
           = encode_str codec (take len (drop i cs))"
proof -
  let ?ds = "drop i cs"
  have ds: "\<forall>c \<in> set ?ds. valid c" using assms in_set_dropD by fastforce
  have "encode_str codec ?ds
          = encode_str codec (take len ?ds) @ encode_str codec (drop len ?ds)"
    by (simp only: append_take_drop_id flip: encode_str_append)
  then show ?thesis
    unfolding scm_mb_substring_def Let_def drop_encoded [OF assms] skip_chars_encoded [OF ds]
    by (metis append_eq_conv_conj)
qed

end

section \<open>The tables satisfy the contract: scanning\<close>

lemma utf8_scan_trailing_bounds:
  assumes "i + k = len" and "1 \<le> i" and "i \<le> length s" and "s \<noteq> []"
  shows "0 < mbc_size (utf8_scan_trailing s (length s) len i k) \<and>
         mbc_size (utf8_scan_trailing s (length s) len i k) \<le> length s"
  using assms
proof (induction k arbitrary: i)
  case (Suc k)
  then show ?case by (cases s) auto
qed simp

lemma utf8_scan_bounds:
  "s \<noteq> [] \<Longrightarrow> 0 < mbc_size (utf8_scan_char s) \<and> mbc_size (utf8_scan_char s) \<le> length s"
  using utf8_scan_trailing_bounds [of 1 1 2 s] utf8_scan_trailing_bounds [of 1 2 3 s]
    utf8_scan_trailing_bounds [of 1 3 4 s]
  by (cases s) (simp_all add: utf8_scan_char_def utf8_scan_def)

lemma eucjp_scan_bounds:
  "s \<noteq> [] \<Longrightarrow> 0 < mbc_size (eucjp_scan_char s) \<and> mbc_size (eucjp_scan_char s) \<le> length s"
  by (cases s) (auto simp: eucjp_scan_char_def eucjp_scan_def Let_def Suc_le_eq)

lemma euc_scan_bounds:
  "s \<noteq> [] \<Longrightarrow> 0 < mbc_size (euccn_scan_char s) \<and> mbc_size (euccn_scan_char s) \<le> length s"
  by (cases s) (auto simp: euccn_scan_char_def euccn_scan_def Let_def Suc_le_eq)

lemma euckr_is_euccn: "euckr_scan_char = euccn_scan_char"
  by (rule ext) (simp add: euckr_scan_char_def euckr_scan_def euccn_scan_char_def euccn_scan_def)

lemma sjis_scan_bounds:
  "s \<noteq> [] \<Longrightarrow> 0 < mbc_size (sjis_scan_char s) \<and> mbc_size (sjis_scan_char s) \<le> length s"
  by (cases s) (auto simp: sjis_scan_char_def sjis_scan_def Let_def Suc_le_eq)

lemma unibyte_scan_bounds:
  "s \<noteq> [] \<Longrightarrow> 0 < mbc_size (unibyte_scan_char s) \<and> mbc_size (unibyte_scan_char s) \<le> length s"
  by (cases s) (auto simp: unibyte_scan_char_def unibyte_scan_def)

lemma scan_nil [simp]:
  "utf8_scan_char [] = RETURN 0" "eucjp_scan_char [] = RETURN 0" "euccn_scan_char [] = RETURN 0"
  "sjis_scan_char [] = RETURN 0" "unibyte_scan_char [] = RETURN 0"
  by (simp_all add: utf8_scan_char_def utf8_scan_def eucjp_scan_char_def eucjp_scan_def euccn_scan_char_def euccn_scan_def
      sjis_scan_char_def sjis_scan_def unibyte_scan_char_def unibyte_scan_def)

lemma char_scannerI:
  assumes "\<And>s. s \<noteq> [] \<Longrightarrow> 0 < mbc_size (scan_char codec s) \<and> mbc_size (scan_char codec s) \<le> length s"
    and "scan_char codec [] = RETURN 0"
  shows "char_scanner codec"
proof
  fix s
  show "mbc_size (scan_char codec s) \<le> length s"
    using assms by (cases "s = []") auto
qed (use assms in auto)

section \<open>The tables satisfy the contract: encoding\<close>

text \<open>A code point read as a natural number, for the range tests.\<close>

lemma nonneg_consts:
  "0 \<le>s (0x7F :: ichar)" "0 \<le>s (0xFFFF :: ichar)" "0 \<le>s (0x8FFFFF :: ichar)"
  "0 \<le>s (0x7FF :: ichar)" "0 \<le>s (0x10FFFF :: ichar)" "0 \<le>s (0xFF :: ichar)"
  by (simp_all add: word_sle_eq)

lemma range_tests:
  assumes "0 \<le>s c"
  shows "IS_1BYTE c \<longleftrightarrow> unat c \<le> 0x7F" "IS_2BYTES c \<longleftrightarrow> unat c \<le> 0xFFFF"
    "IS_3BYTES c \<longleftrightarrow> unat c \<le> 0x8FFFFF"
    "IN_OCT_BMP c \<longleftrightarrow> unat c \<le> 0x7FF" "IN_BMP c \<longleftrightarrow> unat c \<le> 0xFFFF"
    "IN_SMP c \<longleftrightarrow> unat c \<le> 0x10FFFF \<and> 0xFFFF < unat c"
  using assms nonneg_consts
  by (auto simp: IS_1BYTE_def IS_2BYTES_def IS_3BYTES_def IN_OCT_BMP_def IN_BMP_def IN_SMP_def
      SS3_def sless_eq_unat)

lemma IS_ASCII_byte_bit: "IS_ASCII_byte b \<longleftrightarrow> \<not> bit b 7"
proof -
  have "uint b < 256" "0 \<le> uint b" using unsigned_less [of b] by simp_all
  then have "odd (uint b div 128) \<longleftrightarrow> 128 \<le> uint b" by presburger
  moreover have "bit b 7 \<longleftrightarrow> bit (uint b) 7" by (simp add: bit_uint_iff)
  moreover have "bit (uint b) 7 \<longleftrightarrow> odd (uint b div 128)" unfolding bit_iff_odd by simp
  ultimately show ?thesis
    by (auto simp: IS_ASCII_byte_def word_le_def)
qed

lemma LEN_CODE_MASK:
  "LEN_CODE 1 = 0x80" "LEN_CODE (Suc 0) = 0x80" "LEN_CODE 2 = 0xC0" "LEN_CODE 3 = 0xE0"
  "LEN_CODE 4 = 0xF0" "MASK 1 = 0xC0" "MASK (Suc 0) = 0xC0" "MASK 2 = 0xE0" "MASK 3 = 0xF0"
  "MASK 4 = 0xF8"
  by (simp_all add: LEN_CODE_def MASK_def)

lemmas utf8_bits = LEN_CODE_MASK LEADING_VAL_def TRAILING_VAL_def

lemma trailing_byte: "IS_TRAILING (uchar (LEN_CODE 1 OR TRAILING_VAL c i))"
  unfolding IS_TRAILING_def IS_LEN_def
  by (rule word32_eqI) (simp add: all_less_32 utf8_bits bit_simps)

text \<open>The leading bytes of the two, three and four byte forms; \<open>IS_LEN\<close> holds for exactly one
  length.\<close>

lemma IS_LEN_excl:
  "IS_LEN b 2 \<Longrightarrow> \<not> IS_LEN b 3" "IS_LEN b 2 \<Longrightarrow> \<not> IS_LEN b 4" "IS_LEN b 3 \<Longrightarrow> \<not> IS_LEN b 4"
  "IS_LEN b 3 \<Longrightarrow> \<not> IS_LEN b 2" "IS_LEN b 4 \<Longrightarrow> \<not> IS_LEN b 2" "IS_LEN b 4 \<Longrightarrow> \<not> IS_LEN b 3"
  by (auto simp: IS_LEN_def word32_eq_iff all_less_32 LEN_CODE_MASK bit_simps)

lemma utf8_lead2:
  assumes "unat c < 2 ^ 11"
  shows "IS_LEN (uchar (LEN_CODE 2 OR LEADING_VAL c 2)) 2"
  unfolding IS_LEN_def using high_bits_clear [OF assms]
  by (intro word32_eqI) (simp add: all_less_32 utf8_bits bit_simps)

lemma utf8_lead3:
  assumes "unat c < 2 ^ 16"
  shows "IS_LEN (uchar (LEN_CODE 3 OR LEADING_VAL c 3)) 3"
  unfolding IS_LEN_def using high_bits_clear [OF assms]
  by (intro word32_eqI) (simp add: all_less_32 utf8_bits bit_simps)

lemma utf8_lead4:
  assumes "unat c < 2 ^ 21"
  shows "IS_LEN (uchar (LEN_CODE 4 OR LEADING_VAL c 4)) 4"
  unfolding IS_LEN_def using high_bits_clear [OF assms]
  by (intro word32_eqI) (simp add: all_less_32 utf8_bits bit_simps)

lemma utf8_lead_not_ascii:
  "\<not> IS_ASCII_byte (uchar (LEN_CODE 2 OR x))" "\<not> IS_ASCII_byte (uchar (LEN_CODE 3 OR x))"
  "\<not> IS_ASCII_byte (uchar (LEN_CODE 4 OR x))"
  by (simp_all add: IS_ASCII_byte_bit LEN_CODE_MASK bit_simps)

lemma utf8_join2:
  assumes "unat c < 2 ^ 11"
  shows "push_bit 6 (NOT (MASK 2) AND ucast (uchar (LEN_CODE 2 OR LEADING_VAL c 2))) OR
         (NOT (MASK 1) AND ucast (uchar (LEN_CODE 1 OR TRAILING_VAL c 0))) = c"
  using high_bits_clear [OF assms]
  by (intro word32_eqI) (simp add: all_less_32 utf8_bits bit_simps)

lemma utf8_join3:
  assumes "unat c < 2 ^ 16"
  shows "push_bit 12 (NOT (MASK 3) AND ucast (uchar (LEN_CODE 3 OR LEADING_VAL c 3))) OR
         push_bit 6 (NOT (MASK 1) AND ucast (uchar (LEN_CODE 1 OR TRAILING_VAL c 1))) OR
         (NOT (MASK 1) AND ucast (uchar (LEN_CODE 1 OR TRAILING_VAL c 0))) = c"
  using high_bits_clear [OF assms]
  by (intro word32_eqI) (simp add: all_less_32 utf8_bits bit_simps)

lemma utf8_join4:
  assumes "unat c < 2 ^ 21"
  shows "push_bit 18 (NOT (MASK 4) AND ucast (uchar (LEN_CODE 4 OR LEADING_VAL c 4))) OR
         push_bit 12 (NOT (MASK 1) AND ucast (uchar (LEN_CODE 1 OR TRAILING_VAL c 2))) OR
         push_bit 6 (NOT (MASK 1) AND ucast (uchar (LEN_CODE 1 OR TRAILING_VAL c 1))) OR
         (NOT (MASK 1) AND ucast (uchar (LEN_CODE 1 OR TRAILING_VAL c 0))) = c"
  using high_bits_clear [OF assms]
  by (intro word32_eqI) (simp add: all_less_32 utf8_bits bit_simps)

definition encodes_as :: "codec_vtbl \<Rightarrow> ichar \<Rightarrow> byte list \<Rightarrow> bool" where
  "encodes_as codec c bs \<longleftrightarrow> int2str codec c = Some bs \<and> bs \<noteq> [] \<and>
     (\<forall>rest. scan_char codec (bs @ rest) = RETURN (length bs) \<and>
             str2int codec (bs @ rest) (length bs) = c)"

lemma ascii_byte:
  assumes "unat c \<le> 0x7F"
  shows "IS_ASCII_byte (uchar c)" "(ucast (uchar c) :: ichar) = c"
proof -
  have c: "unat c < 2 ^ 7" using assms by simp
  show "IS_ASCII_byte (uchar c)"
    using high_bits_clear [OF c, of 7] by (simp add: IS_ASCII_byte_bit bit_simps)
  show "(ucast (uchar c) :: ichar) = c"
    using high_bits_clear [OF c] by (intro word32_eqI) (simp add: all_less_32 bit_simps)
qed

lemma scan_trailing_full:
  "utf8_scan_trailing (a # b # r) (Suc (Suc n)) 2 1 1 = (if IS_TRAILING b then RETURN 2 else RETURN_ERROR)"
  "utf8_scan_trailing (a # b # c # r) (Suc (Suc (Suc n))) 3 1 2 =
     (if IS_TRAILING b \<and> IS_TRAILING c then RETURN 3 else RETURN_ERROR)"
  "utf8_scan_trailing (a # b # c # d # r) (Suc (Suc (Suc (Suc n)))) 4 1 3 =
     (if IS_TRAILING b \<and> IS_TRAILING c \<and> IS_TRAILING d then RETURN 4 else RETURN_ERROR)"
  by (simp_all add: eval_nat_numeral)

lemma nth_small:
  "(a # b # r) ! 1 = b" "(a # b # c # r) ! 2 = c" "(a # b # c # d # r) ! 3 = d"
  by simp_all

lemma utf8_str2int_list:
  "utf8_str2int (a # b # r) 2 =
     push_bit 6 (NOT (MASK 2) AND ucast a) OR (NOT (MASK 1) AND ucast b)"
  "utf8_str2int (a # b # c # r) 3 =
     push_bit 12 (NOT (MASK 3) AND ucast a) OR push_bit 6 (NOT (MASK 1) AND ucast b) OR
     (NOT (MASK 1) AND ucast c)"
  "utf8_str2int (a # b # c # d # r) 4 =
     push_bit 18 (NOT (MASK 4) AND ucast a) OR push_bit 12 (NOT (MASK 1) AND ucast b) OR
     push_bit 6 (NOT (MASK 1) AND ucast c) OR (NOT (MASK 1) AND ucast d)"
  by (simp_all only: utf8_str2int_def nth_Cons_0 nth_small if_True if_False numeral_eq_iff
      numeral_eq_one_iff one_eq_numeral_iff num.distinct num.inject simp_thms)

lemma utf8_scan_list:
  "IS_LEN a 2 \<Longrightarrow> \<not> IS_ASCII_byte a \<Longrightarrow> IS_TRAILING b \<Longrightarrow> utf8_scan_char (a # b # r) = RETURN 2"
  "IS_LEN a 3 \<Longrightarrow> \<not> IS_ASCII_byte a \<Longrightarrow> IS_TRAILING b \<Longrightarrow> IS_TRAILING c \<Longrightarrow>
     utf8_scan_char (a # b # c # r) = RETURN 3"
  "IS_LEN a 4 \<Longrightarrow> \<not> IS_ASCII_byte a \<Longrightarrow> IS_TRAILING b \<Longrightarrow> IS_TRAILING c \<Longrightarrow> IS_TRAILING d \<Longrightarrow>
     utf8_scan_char (a # b # c # d # r) = RETURN 4"
  by (auto simp: utf8_scan_char_def utf8_scan_def scan_trailing_full dest: IS_LEN_excl simp del: One_nat_def)

lemma encodes_asI:
  assumes "int2str codec c = Some bs" "bs \<noteq> []" "length bs = n"
    and "\<And>rest. scan_char codec (bs @ rest) = RETURN n"
    and "\<And>rest. str2int codec (bs @ rest) n = c"
  shows "\<exists>bs. encodes_as codec c bs"
  using assms by (auto simp: encodes_as_def)

lemma utf8_encodes:
  assumes "0 \<le>s c" and "unat c \<le> 0x10FFFF"
  shows "\<exists>bs. encodes_as utf8_codec_vtbl c bs"
proof -
  note tests = range_tests [OF assms(1)]
  consider (one) "unat c \<le> 0x7F" | (two) "0x7F < unat c" "unat c \<le> 0x7FF"
    | (three) "0x7FF < unat c" "unat c \<le> 0xFFFF" | (four) "0xFFFF < unat c"
    by linarith
  then show ?thesis
  proof cases
    case one
    then show ?thesis
      by (intro exI [of _ "[uchar c]"])
        (simp add: encodes_as_def utf8_codec_vtbl_def utf8_int2str_def tests utf8_scan_char_def utf8_scan_def
          utf8_str2int_def ascii_byte)
  next
    case two
    then have c: "unat c < 2 ^ 11" by simp
    show ?thesis
    proof (rule encodes_asI)
      show "int2str utf8_codec_vtbl c =
        Some [uchar (LEN_CODE 2 OR LEADING_VAL c 2), uchar (LEN_CODE 1 OR TRAILING_VAL c 0)]"
        using two by (simp add: utf8_codec_vtbl_def utf8_int2str_def tests)
      show "str2int utf8_codec_vtbl ([uchar (LEN_CODE 2 OR LEADING_VAL c 2),
              uchar (LEN_CODE 1 OR TRAILING_VAL c 0)] @ rest) 2 = c" for rest
        using utf8_join2 [OF c]
        by (simp only: utf8_codec_vtbl_def codec_vtbl.simps append_Cons utf8_str2int_list)
    qed (simp_all add: utf8_codec_vtbl_def utf8_scan_list utf8_lead2 [OF c]
        utf8_lead_not_ascii trailing_byte del: One_nat_def)
  next
    case three
    then have c: "unat c < 2 ^ 16" by simp
    show ?thesis
    proof (rule encodes_asI)
      show "int2str utf8_codec_vtbl c =
        Some [uchar (LEN_CODE 3 OR LEADING_VAL c 3), uchar (LEN_CODE 1 OR TRAILING_VAL c 1),
              uchar (LEN_CODE 1 OR TRAILING_VAL c 0)]"
        using three by (simp add: utf8_codec_vtbl_def utf8_int2str_def tests)
      show "str2int utf8_codec_vtbl ([uchar (LEN_CODE 3 OR LEADING_VAL c 3), uchar (LEN_CODE 1 OR TRAILING_VAL c 1),
              uchar (LEN_CODE 1 OR TRAILING_VAL c 0)] @ rest) 3 = c" for rest
        using utf8_join3 [OF c]
        by (simp only: utf8_codec_vtbl_def codec_vtbl.simps append_Cons utf8_str2int_list)
    qed (simp_all add: utf8_codec_vtbl_def utf8_scan_list utf8_lead3 [OF c]
        utf8_lead_not_ascii trailing_byte del: One_nat_def)
  next
    case four
    then have c: "unat c < 2 ^ 21" using assms(2) by simp
    show ?thesis
    proof (rule encodes_asI)
      show "int2str utf8_codec_vtbl c =
        Some [uchar (LEN_CODE 4 OR LEADING_VAL c 4), uchar (LEN_CODE 1 OR TRAILING_VAL c 2),
              uchar (LEN_CODE 1 OR TRAILING_VAL c 1), uchar (LEN_CODE 1 OR TRAILING_VAL c 0)]"
        using four assms(2) by (simp add: utf8_codec_vtbl_def utf8_int2str_def tests)
      show "str2int utf8_codec_vtbl ([uchar (LEN_CODE 4 OR LEADING_VAL c 4), uchar (LEN_CODE 1 OR TRAILING_VAL c 2),
              uchar (LEN_CODE 1 OR TRAILING_VAL c 1), uchar (LEN_CODE 1 OR TRAILING_VAL c 0)] @ rest) 4 = c" for rest
        using utf8_join4 [OF c]
        by (simp only: utf8_codec_vtbl_def codec_vtbl.simps append_Cons utf8_str2int_list)
    qed (simp_all add: utf8_codec_vtbl_def utf8_scan_list utf8_lead4 [OF c]
        utf8_lead_not_ascii trailing_byte del: One_nat_def)
  qed
qed

text \<open>Splitting a code point of two or three bytes into its bytes and joining it again.\<close>

lemma dbc_join:
  assumes "unat c < 2 ^ 16"
  shows "push_bit 8 (ucast (uchar (drop_bit 8 c))) OR ucast (uchar (c AND 0xFF)) = c"
  using high_bits_clear [OF assms]
  by (intro word32_eqI) (simp add: all_less_32 bit_simps)

lemma tbc_join:
  assumes "unat c < 2 ^ 24"
  shows "push_bit 16 (ucast (uchar (drop_bit 16 c))) OR
         push_bit 8 (ucast (uchar (drop_bit 8 c AND 0xFF))) OR ucast (uchar (c AND 0xFF)) = c"
  using high_bits_clear [OF assms]
  by (intro word32_eqI) (simp add: all_less_32 bit_simps)

lemma GR_facts:
  "IN_GR94 b \<Longrightarrow> \<not> IN_CL b \<and> \<not> IN_GL96 b \<and> \<not> IS_ASCII_byte b"
  "\<not> IN_CL SS2" "\<not> IN_GL96 SS2" "\<not> IN_CL SS3" "\<not> IN_GL96 SS3" "\<not> IN_GR94 SS3" "SS3 \<noteq> SS2"
  "IN_GR94 b \<Longrightarrow> \<not> IS_GR_SPC_OR_DEL b"
  by (auto simp: codec_defs word_le_nat_alt word_less_nat_alt)

lemma ascii_regions: "IS_ASCII_byte b \<longleftrightarrow> IN_CL b \<or> IN_GL96 b"
  by (auto simp: codec_defs word_le_nat_alt word_less_nat_alt)

lemma eucjp_encodes:
  assumes "0 \<le>s c" and "eucjp_int2str c \<noteq> None"
  shows "\<exists>bs. encodes_as eucjp_codec_vtbl c bs"
proof -
  note tests = range_tests [OF assms(1)]
  consider (one) "unat c \<le> 0x7F" | (two) "0x7F < unat c" "unat c \<le> 0xFFFF"
    | (three) "0xFFFF < unat c" "unat c \<le> 0x8FFFFF"
    using assms tests by (auto simp: eucjp_int2str_def split: if_splits)
  then show ?thesis
  proof cases
    case one
    then have "IN_CL (uchar c) \<or> IN_GL96 (uchar c)"
      using ascii_byte(1) ascii_regions by blast
    with one show ?thesis
      by (intro exI [of _ "[uchar c]"])
        (simp add: encodes_as_def eucjp_codec_vtbl_def eucjp_int2str_def tests eucjp_scan_char_def eucjp_scan_def
          eucjp_str2int_def ascii_byte)
  next
    case two
    let ?h = "uchar (drop_bit 8 c)" and ?l = "uchar (c AND 0xFF)"
    have ok: "IN_GR94 ?h \<or> ?h = SS2" "IN_GR96 ?l"
      using assms(2) two by (auto simp: eucjp_int2str_def tests Let_def split: if_splits)
    show ?thesis
    proof (rule encodes_asI)
      show "int2str eucjp_codec_vtbl c = Some [?h, ?l]"
        using two ok by (auto simp: eucjp_codec_vtbl_def eucjp_int2str_def tests Let_def)
      show "scan_char eucjp_codec_vtbl ([?h, ?l] @ rest) = RETURN 2" for rest
        using ok GR_facts by (auto simp: eucjp_codec_vtbl_def eucjp_scan_char_def eucjp_scan_def Let_def)
      show "str2int eucjp_codec_vtbl ([?h, ?l] @ rest) 2 = c" for rest
        using dbc_join [of c] two by (simp add: eucjp_codec_vtbl_def eucjp_str2int_def)
    qed simp_all
  next
    case three
    let ?h = "uchar (drop_bit 16 c)" and ?m = "uchar (drop_bit 8 c AND 0xFF)"
      and ?l = "uchar (c AND 0xFF)"
    have ok: "?h = SS3" "IN_GR94 ?m" "IN_GR94 ?l"
      using assms(2) three by (auto simp: eucjp_int2str_def tests Let_def split: if_splits)
    show ?thesis
    proof (rule encodes_asI)
      show "int2str eucjp_codec_vtbl c = Some [?h, ?m, ?l]"
        using three ok by (auto simp: eucjp_codec_vtbl_def eucjp_int2str_def tests Let_def)
      show "scan_char eucjp_codec_vtbl ([?h, ?m, ?l] @ rest) = RETURN 3" for rest
        using ok GR_facts by (auto simp: eucjp_codec_vtbl_def eucjp_scan_char_def eucjp_scan_def Let_def)
      show "str2int eucjp_codec_vtbl ([?h, ?m, ?l] @ rest) 3 = c" for rest
        using tbc_join [of c] three by (simp add: eucjp_codec_vtbl_def eucjp_str2int_def)
    qed simp_all
  qed
qed

lemma euc_encodes:
  assumes "0 \<le>s c" and "euc_int2str c \<noteq> None"
    and codec: "int2str codec = euc_int2str" "scan_char codec = euccn_scan_char"
      "str2int codec = dbc_str2int"
  shows "\<exists>bs. encodes_as codec c bs"
proof -
  note tests = range_tests [OF assms(1)]
  consider (one) "unat c \<le> 0x7F" | (two) "0x7F < unat c" "unat c \<le> 0xFFFF"
    using assms tests by (auto simp: euc_int2str_def split: if_splits)
  then show ?thesis
  proof cases
    case one
    then show ?thesis
      by (intro exI [of _ "[uchar c]"])
        (simp add: encodes_as_def codec euc_int2str_def tests euccn_scan_char_def euccn_scan_def
          dbc_str2int_def ascii_byte)
  next
    case two
    let ?h = "uchar (drop_bit 8 c)" and ?l = "uchar (c AND 0xFF)"
    have ok: "IN_GR94 ?h" "IN_GR96 ?l"
      using assms(2) two by (auto simp: euc_int2str_def tests Let_def split: if_splits)
    show ?thesis
    proof (rule encodes_asI)
      show "int2str codec c = Some [?h, ?l]"
        using two ok by (auto simp: codec euc_int2str_def tests Let_def)
      show "scan_char codec ([?h, ?l] @ rest) = RETURN 2" for rest
        using ok GR_facts by (auto simp: codec euccn_scan_char_def euccn_scan_def Let_def)
      show "str2int codec ([?h, ?l] @ rest) 2 = c" for rest
        using dbc_join [of c] two by (simp add: codec dbc_str2int_def)
    qed simp_all
  qed
qed

text \<open>The characters that Shift JIS really encodes: a single byte that does not lead a pair, or
  a lead byte with a trail byte.\<close>

definition sjis_valid :: "ichar \<Rightarrow> bool" where
  "sjis_valid c \<longleftrightarrow>
     (unat c < 2 ^ 8 \<and> \<not> IS_LEAD (uchar c)) \<or>
     (unat c < 2 ^ 16 \<and> IS_LEAD (uchar (drop_bit 8 c)) \<and> IS_TRAIL (uchar (c AND 0xFF)))"

lemma sjis_high_zero:
  fixes c :: ichar
  assumes "unat c < 2 ^ 16"
  shows "signed_drop_bit 16 c = 0"
  using high_bits_clear [OF assms]
  by (intro word32_eqI) (simp add: all_less_32 bit_simps)

lemma byte_join:
  assumes "unat c < 2 ^ 8"
  shows "(ucast (uchar c) :: ichar) = c" "uchar (c AND 0xFF) = uchar c" "uchar (drop_bit 8 c) = 0"
proof -
  note high = high_bits_clear [OF assms]
  show "(ucast (uchar c) :: ichar) = c"
    using high by (intro word32_eqI) (simp add: all_less_32 bit_simps)
  show "uchar (c AND 0xFF) = uchar c" "uchar (drop_bit 8 c) = 0"
    using high by (intro word8_eqI; simp add: all_less_8 bit_simps)+
qed

lemma sjis_encodes:
  assumes "sjis_valid c"
  shows "\<exists>bs. encodes_as sjis_codec_vtbl c bs"
proof -
  consider (one) "unat c < 2 ^ 8" "\<not> IS_LEAD (uchar c)"
    | (two) "unat c < 2 ^ 16" "IS_LEAD (uchar (drop_bit 8 c))" "IS_TRAIL (uchar (c AND 0xFF))"
    using assms by (auto simp: sjis_valid_def)
  then show ?thesis
  proof cases
    case one
    have z: "signed_drop_bit 16 c = 0" using one(1) by (intro sjis_high_zero) simp
    have nl: "\<not> IS_LEAD 0" by (simp add: codec_defs)
    show ?thesis
    proof (rule encodes_asI [where n = 1])
      show "int2str sjis_codec_vtbl c = Some [uchar c]"
        by (simp add: sjis_codec_vtbl_def sjis_int2str_def z byte_join [OF one(1)] nl)
    qed (simp_all add: sjis_codec_vtbl_def sjis_scan_char_def sjis_scan_def dbc_str2int_def
        byte_join [OF one(1)] one(2))
  next
    case two
    let ?h = "uchar (drop_bit 8 c)" and ?l = "uchar (c AND 0xFF)"
    have tr: "IS_LEAD b \<Longrightarrow> IS_TRAIL b" for b
      by (auto simp: codec_defs word_le_nat_alt)
    show ?thesis
    proof (rule encodes_asI)
      show "int2str sjis_codec_vtbl c = Some [?h, ?l]"
        using two tr by (simp add: sjis_codec_vtbl_def sjis_int2str_def sjis_high_zero)
      show "str2int sjis_codec_vtbl ([?h, ?l] @ rest) 2 = c" for rest
        using dbc_join [OF two(1)] by (simp add: sjis_codec_vtbl_def dbc_str2int_def)
    qed (simp_all add: sjis_codec_vtbl_def sjis_scan_char_def sjis_scan_def two)
  qed
qed

lemma unibyte_encodes:
  assumes "unat c < 2 ^ 8"
  shows "\<exists>bs. encodes_as unibyte_codec_vtbl c bs"
proof (rule encodes_asI [where n = 1])
  have "c AND NOT 0xFF = 0"
    using high_bits_clear [OF assms] by (intro word32_eqI) (simp add: all_less_32 bit_simps)
  then show "int2str unibyte_codec_vtbl c = Some [uchar c]"
    by (simp add: unibyte_codec_vtbl_def unibyte_int2str_def)
qed (simp_all add: unibyte_codec_vtbl_def unibyte_scan_char_def unibyte_scan_def unibyte_str2int_def
    byte_join [OF assms])

section \<open>Interpretations\<close>

lemma char_codecI:
  assumes "char_scanner codec" and "\<And>c. valid c \<Longrightarrow> \<exists>bs. encodes_as codec c bs"
    and "\<And>c. valid c \<Longrightarrow> 0 \<le>s c"
  shows "char_codec codec valid"
proof -
  have eof: "valid c \<Longrightarrow> c \<noteq> SCM_ICHAR_EOF" for c
    using assms(3) [of c] by (auto simp: SCM_ICHAR_EOF_def word_sle_eq)
  show ?thesis
    using assms(1,2) eof
    by (auto simp: char_codec_def char_codec_axioms_def encodes_as_def)
qed

definition utf8_valid :: "ichar \<Rightarrow> bool" where
  "utf8_valid c \<longleftrightarrow> 0 \<le>s c \<and> c \<le>s 0x10FFFF"

definition eucjp_valid :: "ichar \<Rightarrow> bool" where
  "eucjp_valid c \<longleftrightarrow> 0 \<le>s c \<and> eucjp_int2str c \<noteq> None"

definition euc_valid :: "ichar \<Rightarrow> bool" where
  "euc_valid c \<longleftrightarrow> 0 \<le>s c \<and> euc_int2str c \<noteq> None"

definition unibyte_valid :: "ichar \<Rightarrow> bool" where
  "unibyte_valid c \<longleftrightarrow> 0 \<le>s c \<and> c \<le>s 0xFF"

lemma nonneg_of_small:
  fixes c :: ichar
  assumes "unat c < 2 ^ 31"
  shows "0 \<le>s c"
proof -
  have "\<not> bit c 31" using high_bits_clear [OF assms] by simp
  then have "0 \<le> sint c"
    by (simp add: sint_uint signed_take_bit_eq_if_positive bit_uint_iff)
  then show ?thesis by (simp add: word_sle_eq)
qed

interpretation utf8: char_codec utf8_codec_vtbl utf8_valid
proof (rule char_codecI)
  show "char_scanner utf8_codec_vtbl"
    by (rule char_scannerI) (simp_all add: utf8_codec_vtbl_def utf8_scan_bounds)
  show "\<exists>bs. encodes_as utf8_codec_vtbl c bs" if "utf8_valid c" for c
    using that sless_eq_unat [of c "0x10FFFF"] nonneg_consts
    by (intro utf8_encodes) (simp_all add: utf8_valid_def)
qed (simp add: utf8_valid_def)

interpretation eucjp: char_codec eucjp_codec_vtbl eucjp_valid
proof (rule char_codecI)
  show "char_scanner eucjp_codec_vtbl"
    by (rule char_scannerI) (simp_all add: eucjp_codec_vtbl_def eucjp_scan_bounds)
qed (simp_all add: eucjp_valid_def eucjp_encodes)

interpretation euccn: char_codec euccn_codec_vtbl euc_valid
proof (rule char_codecI)
  show "char_scanner euccn_codec_vtbl"
    by (rule char_scannerI) (simp_all add: euccn_codec_vtbl_def euc_scan_bounds)
qed (simp_all add: euc_valid_def euc_encodes euccn_codec_vtbl_def)

interpretation euckr: char_codec euckr_codec_vtbl euc_valid
proof (rule char_codecI)
  show "char_scanner euckr_codec_vtbl"
    by (rule char_scannerI) (simp_all add: euckr_codec_vtbl_def euckr_is_euccn euc_scan_bounds)
qed (simp_all add: euc_valid_def euc_encodes euckr_codec_vtbl_def euckr_is_euccn)

interpretation sjis: char_codec sjis_codec_vtbl sjis_valid
proof (rule char_codecI)
  show "char_scanner sjis_codec_vtbl"
    by (rule char_scannerI) (simp_all add: sjis_codec_vtbl_def sjis_scan_bounds)
  show "0 \<le>s c" if "sjis_valid c" for c
    using that by (intro nonneg_of_small) (auto simp: sjis_valid_def)
qed (simp add: sjis_encodes)

interpretation unibyte: char_codec unibyte_codec_vtbl unibyte_valid
proof (rule char_codecI)
  show "char_scanner unibyte_codec_vtbl"
    by (rule char_scannerI) (simp_all add: unibyte_codec_vtbl_def unibyte_scan_bounds)
  show "\<exists>bs. encodes_as unibyte_codec_vtbl c bs" if "unibyte_valid c" for c
    using that sless_eq_unat [of c "0xFF"] nonneg_consts
    by (intro unibyte_encodes) (simp add: unibyte_valid_def)
qed (simp add: unibyte_valid_def)

section \<open>Properties of the codec tables\<close>

text \<open>The valid characters of a codec, by its table.\<close>

definition codec_domains :: "(codec_vtbl \<times> (ichar \<Rightarrow> bool)) list" where
  "codec_domains = [(utf8_codec_vtbl, utf8_valid), (eucjp_codec_vtbl, eucjp_valid),
     (euccn_codec_vtbl, euc_valid), (euckr_codec_vtbl, euc_valid), (sjis_codec_vtbl, sjis_valid),
     (unibyte_codec_vtbl, unibyte_valid)]"

lemma codec_domainsD:
  assumes "(codec, valid) \<in> set codec_domains"
  shows "char_codec codec valid"
  using assms utf8.char_codec_axioms eucjp.char_codec_axioms euccn.char_codec_axioms
    euckr.char_codec_axioms sjis.char_codec_axioms unibyte.char_codec_axioms
  unfolding codec_domains_def by auto

lemma available_scanner:
  assumes "codec \<in> set available_codecs"
  shows "char_scanner codec"
  using assms utf8.char_scanner_axioms eucjp.char_scanner_axioms euccn.char_scanner_axioms
    euckr.char_scanner_axioms sjis.char_scanner_axioms unibyte.char_scanner_axioms
  unfolding available_codecs_def by auto

text \<open>The scanners in memory: the bytes from the pointer on, of which the first \<open>size\<close> belong to the string.\<close>

definition memory_scanners :: "(codec_vtbl \<times> (byte list \<Rightarrow> nat \<Rightarrow> mbcinfo)) list" where
  "memory_scanners = [(utf8_codec_vtbl, utf8_scan), (eucjp_codec_vtbl, eucjp_scan), (euccn_codec_vtbl, euccn_scan),
     (euckr_codec_vtbl, euckr_scan), (sjis_codec_vtbl, sjis_scan), (unibyte_codec_vtbl, unibyte_scan)]"

lemma utf8_trailing_in_string:
  "utf8_scan_trailing (s @ beyond) (length s) len i k = utf8_scan_trailing s (length s) len i k"
  by (induction k arbitrary: i) (simp_all add: nth_append)

lemma scan_in_string:
  assumes "(codec, scan) \<in> set memory_scanners"
  shows "scan (s @ beyond) (length s) = scan_char codec s"
proof -
  have "utf8_scan (s @ beyond) (length s) = utf8_scan_char s"
    by (simp add: utf8_scan_char_def utf8_scan_def utf8_trailing_in_string nth_append)
  moreover have "eucjp_scan (s @ beyond) (length s) = eucjp_scan_char s"
    by (simp add: eucjp_scan_char_def eucjp_scan_def nth_append)
  moreover have "euccn_scan (s @ beyond) (length s) = euccn_scan_char s"
    by (simp add: euccn_scan_char_def euccn_scan_def nth_append)
  moreover have "euckr_scan (s @ beyond) (length s) = euckr_scan_char s"
    by (simp add: euckr_scan_char_def euckr_scan_def nth_append)
  moreover have "sjis_scan (s @ beyond) (length s) = sjis_scan_char s"
    by (simp add: sjis_scan_char_def sjis_scan_def nth_append)
  moreover have "unibyte_scan (s @ beyond) (length s) = unibyte_scan_char s"
    by (simp add: unibyte_scan_char_def unibyte_scan_def)
  ultimately show ?thesis using assms unfolding memory_scanners_def vtbl_defs by auto
qed

lemma decode_in_string:
  assumes "(codec, scan) \<in> set memory_scanners" "n \<le> length s"
  shows "str2int codec (s @ beyond) n = str2int codec s n"
  using assms
  by (auto simp: memory_scanners_def vtbl_defs utf8_str2int_def eucjp_str2int_def dbc_str2int_def unibyte_str2int_def
      nth_append)

text \<open>C17: With every codec and on every byte string, valid or not, scanning and decoding a character look at no
  byte beyond the string: in a memory where any bytes follow it, the results are the same. Each scan moves on
  and stays within the string, so the length loop returns, with at most the number of bytes, and the loop of
  \<^verbatim>\<open>scm_mb_substring\<close> stays inside the string for every index and length.\<close>

theorem codecs_scan_within_string:
  assumes "(codec, scan) \<in> set memory_scanners"
  shows "scan (s @ beyond) (length s) = scan_char codec s \<and>
    str2int codec (s @ beyond) (mbc_size (scan_char codec s)) = str2int codec s (mbc_size (scan_char codec s)) \<and>
    (\<exists>n. scm_mb_strlen codec s = Some n \<and> n \<le> length s \<and> (s \<noteq> [] \<longrightarrow> 0 < n)) \<and>
    skip_chars codec i s \<le> length s \<and>
    skip_chars codec i s + length (scm_mb_substring codec s i len) \<le> length s"
proof -
  have "codec \<in> set available_codecs"
    using assms by (auto simp: memory_scanners_def available_codecs_def)
  note sc = available_scanner [OF this]
  have "skip_chars codec i s \<le> length s" by (rule char_scanner.skip_chars_within [OF sc])
  moreover have "mbc_size (scan_char codec s) \<le> length s" by (rule char_scanner.scan_within [OF sc])
  ultimately show ?thesis
    using char_scanner.strlen_loop_total [OF sc, of s 0] char_scanner.substring_within [OF sc, of s i len]
      scan_in_string [OF assms] decode_in_string [OF assms]
    by (auto simp: scm_mb_strlen_def)
qed

theorem codecs_scan_within_string_witness:
  "sjis_scan ([0x81] @ [0x40, 0x41]) 1 = scan_char sjis_codec_vtbl [0x81] \<and>
   (\<exists>n. scm_mb_strlen sjis_codec_vtbl [0x81] = Some n \<and> n \<le> 1)"
  using codecs_scan_within_string [of sjis_codec_vtbl sjis_scan "[0x81]" "[0x40, 0x41]" 0 0]
  by (auto simp: memory_scanners_def)

text \<open>C12: Decoding inverts encoding in each of the six codecs: on the encoding of a list of valid
  characters the length is the number of characters, a substring is the encoding of that slice of
  the list, and reading a character gives the first one and the encoding of the rest.\<close>

theorem codecs_roundtrip:
  assumes "(codec, valid) \<in> set codec_domains" "\<forall>c \<in> set cs. valid c"
  shows "scm_mb_strlen codec (encode_str codec cs) = Some (length cs) \<and>
    scm_mb_substring codec (encode_str codec cs) i len = encode_str codec (take len (drop i cs)) \<and>
    (cs \<noteq> [] \<longrightarrow> scm_charcodec_read_char codec (encode_str codec cs) =
       Inr (hd cs, encode_str codec (tl cs)))"
proof -
  note cc = codec_domainsD [OF assms(1)]
  have "cs \<noteq> [] \<longrightarrow> scm_charcodec_read_char codec (encode_str codec cs) = Inr (hd cs, encode_str codec (tl cs))"
    using char_codec.read_char_encoded [OF cc, of "hd cs" "tl cs" "[]"] assms(2) by (cases cs) auto
  then show ?thesis
    using char_codec.strlen_encoded [OF cc assms(2)] char_codec.substring_encoded [OF cc assms(2)]
    by blast
qed

theorem codecs_roundtrip_witness:
  "scm_mb_substring utf8_codec_vtbl (encode_str utf8_codec_vtbl [0x41, 0x3042, 0x1F600]) 1 1 =
     encode_str utf8_codec_vtbl [0x3042] \<and> encode_str utf8_codec_vtbl [0x3042] = [0xE3, 0x81, 0x82]"
proof
  have "\<forall>c \<in> set [0x41, 0x3042, 0x1F600]. utf8_valid c" by (simp add: utf8_valid_def word_sle_eq)
  from codecs_roundtrip [OF _ this, of utf8_codec_vtbl 1 1]
  show "scm_mb_substring utf8_codec_vtbl (encode_str utf8_codec_vtbl [0x41, 0x3042, 0x1F600]) 1 1 =
     encode_str utf8_codec_vtbl [0x3042]"
    by (simp add: codec_domains_def)
  show "encode_str utf8_codec_vtbl [0x3042] = [0xE3, 0x81, 0x82]"
    by (simp add: encode_str_def utf8_codec_vtbl_def utf8_int2str_def IS_1BYTE_def IN_OCT_BMP_def
        IN_BMP_def word_sle_eq LEN_CODE_def MASK_def LEADING_VAL_def TRAILING_VAL_def)
qed

lemma RETURN_eq [simp]:
  "RETURN m = RETURN n \<longleftrightarrow> m = n" "RETURN_ERROR \<noteq> RETURN n" "RETURN_INCOMPLETE m \<noteq> RETURN n"
  by (auto simp: RETURN_def RETURN_ERROR_def RETURN_INCOMPLETE_def)

lemma scan_trailing_size: "utf8_scan_trailing str sz len i k = RETURN n \<Longrightarrow> n = len"
  by (induction k arbitrary: i) (auto split: if_splits)

lemma scan_trailing_prefix:
  assumes "utf8_scan_trailing (p @ s) (length (p @ s)) len i k = RETURN n" "i + k = len" "i \<le> length p"
    "length p < n"
  shows "utf8_scan_trailing p (length p) len i k = RETURN_INCOMPLETE (length p)"
  using assms
proof (induction k arbitrary: i)
  case (Suc k)
  show ?case
  proof (cases "length p = i")
    case False
    then have "i < length p" using Suc.prems by simp
    then show ?thesis
      using Suc.prems Suc.IH [of "Suc i"] by (auto simp: nth_append split: if_splits)
  qed simp
qed simp

text \<open>The UTF-8 scanner never takes a cut character for another one: a non-empty proper prefix
  of a character is reported incomplete with all its bytes, so that a port which reads byte by byte
  goes on reading.\<close>

theorem utf8_scan_prefix_incomplete:
  assumes "utf8_scan_char (p @ s) = RETURN n" "p \<noteq> []" "length p < n"
  shows "utf8_scan_char p = RETURN_INCOMPLETE (length p)"
proof -
  obtain b q where p: "p = b # q" using assms(2) by (cases p) auto
  have at0: "(p @ s) ! 0 = b" "p ! 0 = b" by (simp_all add: p)
  have na: "\<not> IS_ASCII_byte b"
    using assms(1,3) p by (auto simp: utf8_scan_char_def utf8_scan_def)
  consider (two) "IS_LEN b 2" | (three) "\<not> IS_LEN b 2" "IS_LEN b 3"
    | (four) "\<not> IS_LEN b 2" "\<not> IS_LEN b 3" "IS_LEN b 4"
    | (none) "\<not> IS_LEN b 2" "\<not> IS_LEN b 3" "\<not> IS_LEN b 4" by blast
  then show ?thesis
  proof cases
    case two
    then show ?thesis
      using assms na at0 scan_trailing_prefix [of p s 2 1 1 n] p by (simp add: utf8_scan_char_def utf8_scan_def)
  next
    case three
    then show ?thesis
      using assms na at0 scan_trailing_prefix [of p s 3 1 2 n] p by (simp add: utf8_scan_char_def utf8_scan_def)
  next
    case four
    then show ?thesis
      using assms na at0 scan_trailing_prefix [of p s 4 1 3 n] p by (simp add: utf8_scan_char_def utf8_scan_def)
  next
    case none
    then show ?thesis using assms na at0 p by (simp add: utf8_scan_char_def utf8_scan_def)
  qed
qed

theorem utf8_scan_prefix_incomplete_witness:
  "utf8_scan_char [0xE3, 0x81] = RETURN_INCOMPLETE 2"
proof -
  have "utf8_scan_char ([0xE3, 0x81] @ [0x82]) = RETURN 3"
    using utf8_scan_list(2) [of "0xE3" "0x81" "0x82" "[]"]
    by (simp add: IS_ASCII_byte_def IS_LEN_def IS_TRAILING_def LEN_CODE_MASK)
  from utf8_scan_prefix_incomplete [OF this] show ?thesis by simp
qed

section \<open>Where a codec departs from its encoding\<close>

text \<open>The trail byte test of Shift JIS excludes 0x7E, a trail byte, and accepts 0x7F, which is none.\<close>

lemma sjis_trail_0x7E:
  "mbc_flag (sjis_scan_char [0x81, 0x7E]) = MBCFLAG_ERROR \<and> sjis_scan_char [0x81, 0x7F] = RETURN 2"
  by (simp add: sjis_scan_char_def sjis_scan_def codec_defs)

text \<open>The encoder tests the high byte instead of the low one, and drops a high byte that is no lead
  byte.\<close>

lemma sjis_int2str_unchecked:
  "sjis_int2str 0x8120 = Some [0x81, 0x20] \<and> mbc_flag (sjis_scan_char [0x81, 0x20]) = MBCFLAG_ERROR \<and>
   sjis_int2str 0x4142 = Some [0x42]"
  by (simp add: sjis_int2str_def sjis_scan_char_def sjis_scan_def codec_defs)

text \<open>The UTF-8 scanner accepts the overlong form of the null character, and decodes it to 0.\<close>

lemma utf8_accepts_overlong:
  "utf8_scan_char [0xC0, 0x80] = RETURN 2 \<and> utf8_str2int [0xC0, 0x80] 2 = 0"
  using utf8_scan_list(1) [of "0xC0" "0x80" "[]"]
  by (simp add: utf8_str2int_list IS_ASCII_byte_def IS_LEN_def IS_TRAILING_def LEN_CODE_MASK)

end
