(* ===== verification/Store.thy ===== *)
theory Store
  imports Prelude
begin

text \<open>
  Scheme objects and the cells they refer to, at the level of the storage abstraction layer
  (\<^verbatim>\<open>include/sigscheme/sigscheme.h\<close> over \<^verbatim>\<open>storage-compact.h\<close>), and the object allocators
  of \<^verbatim>\<open>src/storage.c\<close>.

  \<^item> \<open>obj\<close> is \<^verbatim>\<open>ScmObj\<close>: an immediate value or a tagged pointer. The tag is the primary tag of
    storage-compact; theory \<open>Compact\<close> gives the bit patterns.
  \<^item> \<open>cell\<close> is the content of a \<^verbatim>\<open>ScmCell\<close>. Pairs and closures share one shape; they differ in
    the pointer's tag only, as in the source.
  \<^item> \<open>heap\<close> maps addresses to cells. \<open>alloc\<close> takes the next unused address; theory \<open>GC\<close> models
    the allocator with its free list and shows that both keep the allocator's contract.

  Reading through a pointer whose cell is not of the expected kind is undefined in C; the
  accessors return \<open>SCM_INVALID\<close> there and \<open>heap_ok\<close> is the invariant that excludes it.
\<close>

section \<open>Objects, cells, errors\<close>

datatype ptag = PTAG_CONS | PTAG_CLOSURE | PTAG_MISC

datatype obj =
    SCM_NULL | SCM_INVALID | SCM_UNBOUND | SCM_FALSE | SCM_TRUE | SCM_EOF | SCM_UNDEF
  | IntObj int
  | CharObj int
  | Ptr ptag nat

datatype cell =
    PairCell obj obj
  | SymbolCell obj string
  | StringCell "byte list" int bool
  | VectorCell "obj list" bool
  | BytevectorCell "byte list" bool
  | ValuePacketCell obj
  | FuncCell nat nat
  | PortCell nat nat
  | ContinuationCell nat int
  | CPointerCell nat
  | CFuncPointerCell nat
  | SubpatCell obj int
  | FarsymbolCell obj int
  | HmacroCell obj int
  | FreeCell obj

text \<open>An error has a message, and an object or a list that is consed from objects for the error.\<close>

datatype scm_error = Err string | ErrObj string obj | ErrObjs string "obj list"

type_synonym 'a res = "scm_error + 'a"

record heap =
  mem :: "nat \<Rightarrow> cell option"
  brk :: nat

definition empty_heap :: heap where
  "empty_heap = \<lparr>mem = Map.empty, brk = 0\<rparr>"

text \<open>The fixnum range of storage-compact on a 64 bit platform: four tag bits.\<close>

definition SCM_INT_MAX :: int where [num_defs]: "SCM_INT_MAX = 2 ^ 59 - 1"
definition SCM_INT_MIN :: int where [num_defs]: "SCM_INT_MIN = - (2 ^ 59)"
definition SCM_INT_T_MIN :: int where [num_defs]: "SCM_INT_T_MIN = - (2 ^ 63)"

definition MAKE_BOOL :: "bool \<Rightarrow> obj" where
  "MAKE_BOOL b = (if b then SCM_TRUE else SCM_FALSE)"

section \<open>Type predicates and accessors\<close>

fun CONSP :: "obj \<Rightarrow> bool" where
  "CONSP (Ptr PTAG_CONS _) = True"
| "CONSP _ = False"

fun CLOSUREP :: "obj \<Rightarrow> bool" where
  "CLOSUREP (Ptr PTAG_CLOSURE _) = True"
| "CLOSUREP _ = False"

fun INTP :: "obj \<Rightarrow> bool" where
  "INTP (IntObj _) = True"
| "INTP _ = False"

fun CHARP :: "obj \<Rightarrow> bool" where
  "CHARP (CharObj _) = True"
| "CHARP _ = False"

definition NULLP :: "obj \<Rightarrow> bool" where [simp]: "NULLP o' \<longleftrightarrow> o' = SCM_NULL"

definition VALIDP :: "obj \<Rightarrow> bool" where [simp]: "VALIDP o' \<longleftrightarrow> o' \<noteq> SCM_INVALID"

fun SCM_INT_VALUE :: "obj \<Rightarrow> int" where
  "SCM_INT_VALUE (IntObj i) = i"
| "SCM_INT_VALUE _ = 0"

fun misc_cell :: "heap \<Rightarrow> obj \<Rightarrow> cell option" where
  "misc_cell h (Ptr PTAG_MISC a) = mem h a"
| "misc_cell h _ = None"

fun SYMBOLP :: "heap \<Rightarrow> obj \<Rightarrow> bool" where
  "SYMBOLP h x = (case misc_cell h x of Some (SymbolCell _ _) \<Rightarrow> True | _ \<Rightarrow> False)"

fun VECTORP :: "heap \<Rightarrow> obj \<Rightarrow> bool" where
  "VECTORP h x = (case misc_cell h x of Some (VectorCell _ _) \<Rightarrow> True | _ \<Rightarrow> False)"

fun BYTEVECTORP :: "heap \<Rightarrow> obj \<Rightarrow> bool" where
  "BYTEVECTORP h x = (case misc_cell h x of Some (BytevectorCell _ _) \<Rightarrow> True | _ \<Rightarrow> False)"

fun FARSYMBOLP :: "heap \<Rightarrow> obj \<Rightarrow> bool" where
  "FARSYMBOLP h x = (case misc_cell h x of Some (FarsymbolCell _ _) \<Rightarrow> True | _ \<Rightarrow> False)"

definition IDENTIFIERP :: "heap \<Rightarrow> obj \<Rightarrow> bool" where
  "IDENTIFIERP h x \<longleftrightarrow> SYMBOLP h x \<or> FARSYMBOLP h x"

fun pair_at :: "heap \<Rightarrow> nat \<Rightarrow> obj \<times> obj" where
  "pair_at h a = (case mem h a of Some (PairCell x y) \<Rightarrow> (x, y) | _ \<Rightarrow> (SCM_INVALID, SCM_INVALID))"

fun CAR :: "heap \<Rightarrow> obj \<Rightarrow> obj" where
  "CAR h (Ptr PTAG_CONS a) = fst (pair_at h a)"
| "CAR h _ = SCM_INVALID"

fun CDR :: "heap \<Rightarrow> obj \<Rightarrow> obj" where
  "CDR h (Ptr PTAG_CONS a) = snd (pair_at h a)"
| "CDR h _ = SCM_INVALID"

definition set_pair :: "heap \<Rightarrow> nat \<Rightarrow> obj \<Rightarrow> obj \<Rightarrow> heap" where
  "set_pair h a x y = h\<lparr>mem := (mem h)(a \<mapsto> PairCell x y)\<rparr>"

fun SET_CAR :: "heap \<Rightarrow> obj \<Rightarrow> obj \<Rightarrow> heap" where
  "SET_CAR h (Ptr PTAG_CONS a) x = set_pair h a x (snd (pair_at h a))"
| "SET_CAR h _ x = h"

fun SET_CDR :: "heap \<Rightarrow> obj \<Rightarrow> obj \<Rightarrow> heap" where
  "SET_CDR h (Ptr PTAG_CONS a) y = set_pair h a (fst (pair_at h a)) y"
| "SET_CDR h _ y = h"

section \<open>References\<close>

text \<open>A \<^verbatim>\<open>ScmRef\<close> is the address of a slot: the car or cdr of a cell, or a C variable
  (\<^verbatim>\<open>SCM_REF_OFF_HEAP\<close>).\<close>

datatype ref = RefOffHeap | RefCar nat | RefCdr nat

fun REF_CAR :: "obj \<Rightarrow> ref" where
  "REF_CAR (Ptr PTAG_CONS a) = RefCar a"
| "REF_CAR _ = RefOffHeap"

fun REF_CDR :: "obj \<Rightarrow> ref" where
  "REF_CDR (Ptr PTAG_CONS a) = RefCdr a"
| "REF_CDR _ = RefOffHeap"

text \<open>\<open>DEREF\<close> and \<open>SCM_SET\<close> take the value of the off-heap variable along.\<close>

fun DEREF :: "heap \<Rightarrow> obj \<Rightarrow> ref \<Rightarrow> obj" where
  "DEREF h out RefOffHeap = out"
| "DEREF h out (RefCar a) = fst (pair_at h a)"
| "DEREF h out (RefCdr a) = snd (pair_at h a)"

fun SCM_SET :: "heap \<Rightarrow> obj \<Rightarrow> ref \<Rightarrow> obj \<Rightarrow> heap \<times> obj" where
  "SCM_SET h out RefOffHeap v = (h, v)"
| "SCM_SET h out (RefCar a) v = (set_pair h a v (snd (pair_at h a)), out)"
| "SCM_SET h out (RefCdr a) v = (set_pair h a (fst (pair_at h a)) v, out)"

section \<open>Allocation\<close>

definition alloc :: "heap \<Rightarrow> cell \<Rightarrow> nat \<times> heap" where
  "alloc h c = (brk h, h\<lparr>mem := (mem h)(brk h \<mapsto> c), brk := Suc (brk h)\<rparr>)"

definition alloc_ptr :: "ptag \<Rightarrow> heap \<Rightarrow> cell \<Rightarrow> obj \<times> heap" where
  "alloc_ptr t h c = (let (a, h') = alloc h c in (Ptr t a, h'))"

definition scm_make_cons :: "heap \<Rightarrow> obj \<Rightarrow> obj \<Rightarrow> obj \<times> heap" where
  "scm_make_cons h kar kdr = alloc_ptr PTAG_CONS h (PairCell kar kdr)"

definition scm_make_symbol :: "heap \<Rightarrow> string \<Rightarrow> obj \<Rightarrow> obj \<times> heap" where
  "scm_make_symbol h name val = alloc_ptr PTAG_MISC h (SymbolCell val name)"

definition scm_make_closure :: "heap \<Rightarrow> obj \<Rightarrow> obj \<Rightarrow> obj \<times> heap" where
  "scm_make_closure h exp env = alloc_ptr PTAG_CLOSURE h (PairCell exp env)"

definition scm_make_vector :: "heap \<Rightarrow> obj list \<Rightarrow> obj \<times> heap" where
  "scm_make_vector h vec = alloc_ptr PTAG_MISC h (VectorCell vec True)"

definition scm_make_immutable_vector :: "heap \<Rightarrow> obj list \<Rightarrow> obj \<times> heap" where
  "scm_make_immutable_vector h vec = alloc_ptr PTAG_MISC h (VectorCell vec False)"

definition scm_make_bytevector :: "heap \<Rightarrow> byte list \<Rightarrow> obj \<times> heap" where
  "scm_make_bytevector h vec = alloc_ptr PTAG_MISC h (BytevectorCell vec True)"

definition scm_make_func :: "heap \<Rightarrow> nat \<Rightarrow> nat \<Rightarrow> obj \<times> heap" where
  "scm_make_func h type func = alloc_ptr PTAG_MISC h (FuncCell type func)"

text \<open>Port flags: the live bits mirror the direction bits.\<close>

definition SCM_PORTFLAG_OUTPUT :: nat where "SCM_PORTFLAG_OUTPUT = 1"
definition SCM_PORTFLAG_INPUT :: nat where "SCM_PORTFLAG_INPUT = 2"
definition SCM_PORTFLAG_LIVE_OUTPUT :: nat where "SCM_PORTFLAG_LIVE_OUTPUT = 4"
definition SCM_PORTFLAG_LIVE_INPUT :: nat where "SCM_PORTFLAG_LIVE_INPUT = 8"

definition scm_make_port :: "heap \<Rightarrow> nat \<Rightarrow> nat \<Rightarrow> obj \<times> heap" where
  "scm_make_port h cport flag =
     (let flag = (if flag AND SCM_PORTFLAG_INPUT \<noteq> 0 then flag OR SCM_PORTFLAG_LIVE_INPUT else flag);
          flag = (if flag AND SCM_PORTFLAG_OUTPUT \<noteq> 0 then flag OR SCM_PORTFLAG_LIVE_OUTPUT else flag)
      in alloc_ptr PTAG_MISC h (PortCell cport flag))"

definition scm_make_continuation :: "heap \<Rightarrow> obj \<times> heap" where
  "scm_make_continuation h = alloc_ptr PTAG_MISC h (ContinuationCell 0 0)"

definition scm_make_value_packet :: "heap \<Rightarrow> obj \<Rightarrow> obj \<times> heap" where
  "scm_make_value_packet h vals = alloc_ptr PTAG_MISC h (ValuePacketCell vals)"

definition scm_make_cpointer :: "heap \<Rightarrow> nat \<Rightarrow> obj \<times> heap" where
  "scm_make_cpointer h ptr = alloc_ptr PTAG_MISC h (CPointerCell ptr)"

definition scm_make_cfunc_pointer :: "heap \<Rightarrow> nat \<Rightarrow> obj \<times> heap" where
  "scm_make_cfunc_pointer h ptr = alloc_ptr PTAG_MISC h (CFuncPointerCell ptr)"

definition scm_make_subpat :: "heap \<Rightarrow> obj \<Rightarrow> int \<Rightarrow> obj \<times> heap" where
  "scm_make_subpat h x meta = alloc_ptr PTAG_MISC h (SubpatCell x meta)"

text \<open>\<open>scm_macro_bad_scope\<close> is the error of a far symbol that is wrapped in a shallower
  environment than its own.\<close>

fun SCM_FARSYMBOL_ENV :: "heap \<Rightarrow> obj \<Rightarrow> int" where
  "SCM_FARSYMBOL_ENV h x = (case misc_cell h x of Some (FarsymbolCell _ e) \<Rightarrow> e | _ \<Rightarrow> 0)"

fun SCM_FARSYMBOL_SYM :: "heap \<Rightarrow> obj \<Rightarrow> obj" where
  "SCM_FARSYMBOL_SYM h x = (case misc_cell h x of Some (FarsymbolCell s _) \<Rightarrow> s | _ \<Rightarrow> SCM_INVALID)"

definition scm_make_farsymbol :: "heap \<Rightarrow> obj \<Rightarrow> int \<Rightarrow> (obj \<times> heap) res" where
  "scm_make_farsymbol h x env =
     (if FARSYMBOLP h x \<and> env < SCM_FARSYMBOL_ENV h x
      then Inl (ErrObj ''Identifier found in wrong context'' x)
      else Inr (alloc_ptr PTAG_MISC h (FarsymbolCell x env)))"

section \<open>Type codes\<close>

datatype obj_type =
    ScmInt | ScmCons | ScmChar | ScmSymbol | ScmString | ScmFunc | ScmClosure | ScmVector
  | ScmBytevector | ScmPort | ScmContinuation | ScmConstant | ScmValuePacket | ScmFreeCell
  | ScmCPointer | ScmCFuncPointer | ScmMacro | ScmFarsymbol | ScmSubpat

text \<open>\<open>None\<close> is the error for a pointer whose cell has no known type.\<close>

fun cell_type :: "cell \<Rightarrow> obj_type option" where
  "cell_type (SymbolCell _ _) = Some ScmSymbol"
| "cell_type (StringCell _ _ _) = Some ScmString"
| "cell_type (VectorCell _ _) = Some ScmVector"
| "cell_type (BytevectorCell _ _) = Some ScmBytevector"
| "cell_type (ValuePacketCell _) = Some ScmValuePacket"
| "cell_type (FuncCell _ _) = Some ScmFunc"
| "cell_type (PortCell _ _) = Some ScmPort"
| "cell_type (ContinuationCell _ _) = Some ScmContinuation"
| "cell_type (CPointerCell _) = Some ScmCPointer"
| "cell_type (CFuncPointerCell _) = Some ScmCFuncPointer"
| "cell_type (HmacroCell _ _) = Some ScmMacro"
| "cell_type (FarsymbolCell _ _) = Some ScmFarsymbol"
| "cell_type (SubpatCell _ _) = Some ScmSubpat"
| "cell_type (FreeCell _) = Some ScmFreeCell"
| "cell_type (PairCell _ _) = None"

fun scm_type :: "heap \<Rightarrow> obj \<Rightarrow> obj_type option" where
  "scm_type h (Ptr PTAG_CONS a) = Some ScmCons"
| "scm_type h (Ptr PTAG_CLOSURE a) = Some ScmClosure"
| "scm_type h (Ptr PTAG_MISC a) = (case mem h a of Some c \<Rightarrow> cell_type c | None \<Rightarrow> None)"
| "scm_type h (IntObj _) = Some ScmInt"
| "scm_type h (CharObj _) = Some ScmChar"
| "scm_type h _ = Some ScmConstant"

section \<open>Heap extension\<close>

text \<open>\<open>heap_le\<close>: every cell of the first heap is still there, unchanged. Allocation extends the
  heap; the invariant \<open>brk_ok\<close> says that addresses from \<open>brk\<close> on are unused.\<close>

definition heap_le :: "heap \<Rightarrow> heap \<Rightarrow> bool" where
  "heap_le h h' \<longleftrightarrow> (\<forall>a c. mem h a = Some c \<longrightarrow> mem h' a = Some c) \<and> brk h \<le> brk h'"

definition brk_ok :: "heap \<Rightarrow> bool" where
  "brk_ok h \<longleftrightarrow> (\<forall>a. brk h \<le> a \<longrightarrow> mem h a = None)"

lemma heap_le_refl [simp, intro]: "heap_le h h"
  by (simp add: heap_le_def)

lemma heap_le_trans [trans]: "heap_le h h' \<Longrightarrow> heap_le h' h'' \<Longrightarrow> heap_le h h''"
  by (auto simp: heap_le_def)

lemma heap_leD: "heap_le h h' \<Longrightarrow> mem h a = Some c \<Longrightarrow> mem h' a = Some c"
  by (simp add: heap_le_def)

lemma brk_ok_empty [simp]: "brk_ok empty_heap"
  by (simp add: brk_ok_def empty_heap_def)

lemma finite_dom_mem: "brk_ok h \<Longrightarrow> finite (dom (mem h))"
  by (rule finite_subset [of _ "{..< brk h}"]) (auto simp: brk_ok_def dom_def not_le [symmetric])

lemma alloc_extends: "brk_ok h \<Longrightarrow> alloc h c = (a, h') \<Longrightarrow> heap_le h h' \<and> brk_ok h'"
  by (auto simp: alloc_def brk_ok_def heap_le_def)

lemma alloc_fresh: "brk_ok h \<Longrightarrow> alloc h c = (a, h') \<Longrightarrow> mem h a = None \<and> mem h' a = Some c"
  by (auto simp: alloc_def brk_ok_def)

lemma make_cons_simps [store_simps]:
  "scm_make_cons h x y =
     (Ptr PTAG_CONS (brk h), h\<lparr>mem := (mem h)(brk h \<mapsto> PairCell x y), brk := Suc (brk h)\<rparr>)"
  by (simp add: scm_make_cons_def alloc_ptr_def alloc_def)

lemma make_cons_extends:
  "brk_ok h \<Longrightarrow> scm_make_cons h x y = (p, h') \<Longrightarrow> heap_le h h' \<and> brk_ok h'"
  by (auto simp: make_cons_simps brk_ok_def heap_le_def)

lemma make_cons_reads:
  "scm_make_cons h x y = (p, h') \<Longrightarrow> CONSP p \<and> CAR h' p = x \<and> CDR h' p = y"
  by (auto simp: make_cons_simps)

lemma CONSP_iff: "CONSP x \<longleftrightarrow> (\<exists>a. x = Ptr PTAG_CONS a)"
  by (cases x rule: CONSP.cases) auto

lemma CONSP_E:
  assumes "CONSP x"
  obtains a where "x = Ptr PTAG_CONS a"
  using assms by (auto simp: CONSP_iff)

lemma consts_not_CONSP [simp]: "CONSP x \<Longrightarrow> x \<noteq> SCM_NULL" "CONSP x \<Longrightarrow> x \<noteq> SCM_INVALID"
  by auto

text \<open>A pair is present at an object.\<close>

definition has_pair :: "heap \<Rightarrow> obj \<Rightarrow> bool" where
  "has_pair h x \<longleftrightarrow> (\<exists>a y z. x = Ptr PTAG_CONS a \<and> mem h a = Some (PairCell y z))"

lemma has_pair_CONSP: "has_pair h x \<Longrightarrow> CONSP x"
  by (auto simp: has_pair_def)

lemma has_pair_le:
  "has_pair h x \<Longrightarrow> heap_le h h' \<Longrightarrow> has_pair h' x \<and> CAR h' x = CAR h x \<and> CDR h' x = CDR h x"
  by (auto simp: has_pair_def dest: heap_leD)

lemma not_has_pair: "\<not> has_pair h x \<Longrightarrow> CAR h x = SCM_INVALID \<and> CDR h x = SCM_INVALID"
  by (cases x rule: CONSP.cases) (auto simp: has_pair_def split: option.splits cell.splits)

section \<open>Well-formed heaps\<close>

text \<open>Every tagged pointer refers to a cell of the kind its tag says, and integers are in range.\<close>

fun misc_cellp :: "cell \<Rightarrow> bool" where
  "misc_cellp (PairCell _ _) = False"
| "misc_cellp (FreeCell _) = False"
| "misc_cellp _ = True"

fun obj_ok :: "heap \<Rightarrow> obj \<Rightarrow> bool" where
  "obj_ok h (Ptr PTAG_MISC a) = (case mem h a of Some c \<Rightarrow> misc_cellp c | None \<Rightarrow> False)"
| "obj_ok h (Ptr _ a) = (case mem h a of Some (PairCell _ _) \<Rightarrow> True | _ \<Rightarrow> False)"
| "obj_ok h (IntObj i) = (SCM_INT_MIN \<le> i \<and> i \<le> SCM_INT_MAX)"
| "obj_ok h _ = True"

fun cell_objs :: "cell \<Rightarrow> obj list" where
  "cell_objs (PairCell x y) = [x, y]"
| "cell_objs (SymbolCell v _) = [v]"
| "cell_objs (VectorCell xs _) = xs"
| "cell_objs (ValuePacketCell x) = [x]"
| "cell_objs (SubpatCell x _) = [x]"
| "cell_objs (FarsymbolCell x _) = [x]"
| "cell_objs (HmacroCell x _) = [x]"
| "cell_objs _ = []"

definition heap_ok :: "heap \<Rightarrow> bool" where
  "heap_ok h \<longleftrightarrow> brk_ok h \<and>
     (\<forall>a c. mem h a = Some c \<longrightarrow> (\<forall>x \<in> set (cell_objs c). obj_ok h x))"

lemma obj_ok_CONSP: "obj_ok h x \<Longrightarrow> CONSP x \<Longrightarrow> has_pair h x"
  by (auto simp: CONSP_iff has_pair_def split: option.splits cell.splits)

lemma obj_ok_le: "obj_ok h x \<Longrightarrow> heap_le h h' \<Longrightarrow> obj_ok h' x"
  by (cases "(h, x)" rule: obj_ok.cases)
    (auto split: option.splits cell.splits dest: heap_leD)

lemma heap_ok_brk: "heap_ok h \<Longrightarrow> brk_ok h"
  by (simp add: heap_ok_def)

lemma heap_ok_empty [simp]: "heap_ok empty_heap"
  by (simp add: heap_ok_def empty_heap_def brk_ok_def)

lemma heap_ok_reads:
  assumes "heap_ok h" and "has_pair h x"
  shows "obj_ok h (CAR h x)" "obj_ok h (CDR h x)"
  using assms by (force simp: heap_ok_def has_pair_def)+

lemma heap_ok_alloc:
  assumes "heap_ok h" and "\<forall>x \<in> set (cell_objs c). obj_ok h x" and "alloc h c = (a, h')"
  shows "heap_ok h'"
proof -
  from assms have le: "heap_le h h'" "brk_ok h'"
    using alloc_extends heap_ok_brk by blast+
  show ?thesis
    unfolding heap_ok_def
  proof (intro conjI allI impI ballI)
    show "brk_ok h'" by (rule le)
    fix b d x assume "mem h' b = Some d" "x \<in> set (cell_objs d)"
    moreover have "d = c \<or> mem h b = Some d"
      using \<open>mem h' b = Some d\<close> assms(3) by (auto simp: alloc_def split: if_splits)
    ultimately have "obj_ok h x" using assms by (auto simp: heap_ok_def)
    then show "obj_ok h' x" using le(1) by (rule obj_ok_le)
  qed
qed

lemma heap_ok_cons:
  assumes "heap_ok h" "obj_ok h x" "obj_ok h y" "scm_make_cons h x y = (p, h')"
  shows "heap_ok h'" "obj_ok h' p"
proof -
  obtain a where a: "alloc h (PairCell x y) = (a, h')" "p = Ptr PTAG_CONS a"
    using assms(4) by (auto simp: scm_make_cons_def alloc_ptr_def split: prod.splits)
  show "heap_ok h'" using assms a by (intro heap_ok_alloc [OF _ _ a(1)]) auto
  show "obj_ok h' p" using alloc_fresh [OF _ a(1)] assms a by (simp add: heap_ok_brk)
qed

section \<open>Reachability and the contract of an allocator\<close>

text \<open>\<open>reach m R a\<close>: the cell \<open>a\<close> of the memory \<open>m\<close> is reached from the objects \<open>R\<close>.\<close>

inductive reach :: "(nat \<Rightarrow> cell option) \<Rightarrow> obj set \<Rightarrow> nat \<Rightarrow> bool" for m R where
  root: "Ptr t a \<in> R \<Longrightarrow> m a = Some c \<Longrightarrow> reach m R a"
| child: "reach m R a \<Longrightarrow> m a = Some c \<Longrightarrow> Ptr t b \<in> set (cell_objs c) \<Longrightarrow> m b = Some d \<Longrightarrow> reach m R b"

lemma reach_Some: "reach m R a \<Longrightarrow> \<exists>c. m a = Some c"
  by (induction rule: reach.induct) auto

lemma reach_mono: "reach m R a \<Longrightarrow> R \<subseteq> S \<Longrightarrow> reach m S a"
  by (induction rule: reach.induct) (auto intro: reach.intros)

lemma reach_union: "reach m (R \<union> S) a \<longleftrightarrow> reach m R a \<or> reach m S a"
proof
  show "reach m (R \<union> S) a \<Longrightarrow> reach m R a \<or> reach m S a"
    by (induction rule: reach.induct) (auto intro: reach.intros)
qed (auto intro: reach_mono)

text \<open>Reachability sees reachable cells only.\<close>

lemma reach_agree:
  assumes "reach m R a" "\<And>b. reach m R b \<Longrightarrow> m' b = m b"
  shows "reach m' R a"
  using assms(1)
proof (induction rule: reach.induct)
  case (root t a c)
  then show ?case using assms(2) [of a] reach.root [of t a R m] reach.root [of t a R m'] by auto
next
  case (child a c t b d)
  have "reach m R b" by (rule reach.child [OF child(1,2,3,4)])
  then have "m' b = Some d" "m' a = Some c" using assms(2) child by auto
  then show ?case using child(5,3) by (auto intro: reach.child)
qed

text \<open>A pointer's tag says whether its cell is a pair (or closure) or a miscellaneous one.\<close>

fun freecellp :: "cell \<Rightarrow> bool" where
  "freecellp (FreeCell _) = True"
| "freecellp _ = False"

fun cell_miscp :: "cell \<Rightarrow> bool" where
  "cell_miscp (PairCell _ _) = False"
| "cell_miscp _ = True"

definition TAG_CONSISTENTP :: "ptag \<Rightarrow> cell \<Rightarrow> bool" where
  "TAG_CONSISTENTP t c \<longleftrightarrow> (t \<noteq> PTAG_MISC) \<noteq> cell_miscp c"

fun ptr_ok :: "(nat \<Rightarrow> cell option) \<Rightarrow> obj \<Rightarrow> bool" where
  "ptr_ok m (Ptr t a) \<longleftrightarrow> (\<exists>c. m a = Some c \<and> TAG_CONSISTENTP t c)"
| "ptr_ok m _ = True"

definition contents_ok :: "(nat \<Rightarrow> cell option) \<Rightarrow> bool" where
  "contents_ok m \<longleftrightarrow> (\<forall>a c. m a = Some c \<longrightarrow> (\<forall>x \<in> set (cell_objs c). ptr_ok m x))"

text \<open>\<open>list_at m x vs t\<close>: in the memory \<open>m\<close> the list at \<open>x\<close> has the elements \<open>vs\<close> and ends in \<open>t\<close>.\<close>

primrec list_at :: "(nat \<Rightarrow> cell option) \<Rightarrow> obj \<Rightarrow> obj list \<Rightarrow> obj \<Rightarrow> bool" where
  "list_at m x [] t \<longleftrightarrow> x = t"
| "list_at m x (v # vs) t \<longleftrightarrow> (\<exists>a y. x = Ptr PTAG_CONS a \<and> m a = Some (PairCell v y) \<and> list_at m y vs t)"

lemma list_at_agree:
  assumes "list_at m x vs t" "\<And>b. reach m R b \<Longrightarrow> m' b = m b"
    and "x \<in> R \<or> (\<exists>a c. reach m R a \<and> m a = Some c \<and> x \<in> set (cell_objs c))"
  shows "list_at m' x vs t"
  using assms(1,3)
proof (induction vs arbitrary: x)
  case (Cons v vs)
  then obtain a y where a: "x = Ptr PTAG_CONS a" "m a = Some (PairCell v y)" "list_at m y vs t" by auto
  have r: "reach m R a" using Cons.prems(2) a by (auto intro: reach.intros)
  have "y \<in> set (cell_objs (PairCell v y))" by simp
  then have "list_at m' y vs t" using Cons.IH [OF a(3)] r a(2) by blast
  then show ?case using a assms(2) [OF r] by auto
qed simp

text \<open>What the users of an allocator rely on: a new cell is none that is reached from the \<open>live\<close>
  objects, it holds what was stored, and whatever is reached from them keeps its content, whether
  the allocator collects garbage or not. The stored objects have to be live themselves.\<close>

locale cell_allocator =
  fixes inv :: "'s \<Rightarrow> bool" and content :: "'s \<Rightarrow> nat \<Rightarrow> cell option"
    and new :: "obj list \<Rightarrow> cell \<Rightarrow> 's \<Rightarrow> (nat \<times> 's) option"
  assumes new_spec: "inv s \<Longrightarrow> \<forall>x \<in> set live. ptr_ok (content s) x \<Longrightarrow> set (cell_objs c) \<subseteq> set live \<Longrightarrow>
      \<not> freecellp c \<Longrightarrow> new live c s = Some (a, s') \<Longrightarrow>
      inv s' \<and> content s' a = Some c \<and> \<not> reach (content s) (set live) a \<and>
      (\<forall>b. reach (content s) (set live) b \<longrightarrow> content s' b = content s b)"
begin

lemma live_ptr_ok:
  assumes "inv s" "\<forall>x \<in> set live. ptr_ok (content s) x" "set (cell_objs c) \<subseteq> set live"
    "\<not> freecellp c" "new live c s = Some (a, s')"
  shows "\<forall>x \<in> set live. ptr_ok (content s') x"
proof
  fix x assume x: "x \<in> set live"
  show "ptr_ok (content s') x"
  proof (cases x)
    case (Ptr t b)
    then obtain d where "content s b = Some d" "TAG_CONSISTENTP t d"
      using assms(2) [rule_format, OF x] by auto
    moreover from this have "reach (content s) (set live) b" using x Ptr by (auto intro: reach.root)
    ultimately show ?thesis using new_spec [OF assms] Ptr by auto
  qed simp_all
qed

end

section \<open>The store allocates\<close>

text \<open>The heap of this theory never collects, so it keeps the contract for any live objects.\<close>

definition store_new :: "obj list \<Rightarrow> cell \<Rightarrow> heap \<Rightarrow> (nat \<times> heap) option" where
  "store_new live c h = Some (alloc h c)"

interpretation store: cell_allocator brk_ok mem store_new
proof
  fix h live c a h'
  assume b: "brk_ok h" and n: "store_new live c h = Some (a, h')"
  then have "alloc h c = (a, h')" by (simp add: store_new_def)
  note ext = alloc_extends [OF b this] and fresh = alloc_fresh [OF b this]
  show "brk_ok h' \<and> mem h' a = Some c \<and> \<not> reach (mem h) (set live) a \<and>
      (\<forall>b. reach (mem h) (set live) b \<longrightarrow> mem h' b = mem h b)"
    using ext fresh by (auto dest!: reach_Some dest: heap_leD)
qed

end
