(* ===== verification/Lists.thy ===== *)
theory Lists
  imports Store
begin

text \<open>
  The list procedures of \<^verbatim>\<open>src/list.c\<close> on the heap of theory \<open>Store\<close>.

  The loops walk a list through its cdrs, so on a circular list some of them do not return: they
  are \<^verbatim>\<open>partial_function\<close>s in the option monad and \<open>None\<close> is divergence. \<open>scm_length\<close> detects
  cycles with two pointers; it is shown to return on every finite heap and to classify the list.
  The relation \<open>chain h x xs t\<close> says that the pairs from \<open>x\<close> hold the elements \<open>xs\<close> and end in
  \<open>t\<close>.
\<close>

section \<open>Chains of pairs\<close>

fun chain :: "heap \<Rightarrow> obj \<Rightarrow> obj list \<Rightarrow> obj \<Rightarrow> bool" where
  "chain h x [] t \<longleftrightarrow> x = t"
| "chain h x (v # vs) t \<longleftrightarrow> has_pair h x \<and> CAR h x = v \<and> chain h (CDR h x) vs t"

lemma chain_append: "chain h x (us @ vs) t \<longleftrightarrow> (\<exists>y. chain h x us y \<and> chain h y vs t)"
  by (induction us arbitrary: x) auto

lemma chain_le: "chain h x vs t \<Longrightarrow> heap_le h h' \<Longrightarrow> chain h' x vs t"
  by (induction vs arbitrary: x) (auto dest: has_pair_le)

lemma chain_cdr_power: "chain h x vs t \<Longrightarrow> (CDR h ^^ length vs) x = t"
  by (induction vs arbitrary: x) (auto simp: funpow_swap1)

lemma chain_CONSP: "chain h x vs t \<Longrightarrow> i < length vs \<Longrightarrow> CONSP ((CDR h ^^ i) x)"
proof (induction vs arbitrary: x i)
  case (Cons v vs)
  then show ?case
    by (cases i) (auto simp: funpow_swap1 has_pair_CONSP)
qed simp

lemma chain_unique:
  "chain h x us t \<Longrightarrow> chain h x vs s \<Longrightarrow> \<not> CONSP t \<Longrightarrow> \<not> CONSP s \<Longrightarrow> us = vs \<and> t = s"
proof (induction us arbitrary: x vs)
  case Nil
  then show ?case by (cases vs) (auto dest: has_pair_CONSP)
next
  case (Cons u us)
  then show ?case by (cases vs) (auto dest: has_pair_CONSP)
qed

section \<open>Pairs\<close>

definition scm_p_pairp :: "obj \<Rightarrow> obj" where
  "scm_p_pairp x = MAKE_BOOL (CONSP x)"

definition scm_p_cons :: "heap \<Rightarrow> obj \<Rightarrow> obj \<Rightarrow> obj \<times> heap" where
  "scm_p_cons h x y = scm_make_cons h x y"

definition scm_p_car :: "heap \<Rightarrow> obj \<Rightarrow> obj res" where
  "scm_p_car h x = (if CONSP x then Inr (CAR h x) else Inl (ErrObj ''pair required but got'' x))"

definition scm_p_cdr :: "heap \<Rightarrow> obj \<Rightarrow> obj res" where
  "scm_p_cdr h x = (if CONSP x then Inr (CDR h x) else Inl (ErrObj ''pair required but got'' x))"

definition scm_p_set_carx :: "heap \<Rightarrow> obj \<Rightarrow> obj \<Rightarrow> (obj \<times> heap) res" where
  "scm_p_set_carx h pair x =
     (if CONSP pair then Inr (SCM_UNDEF, SET_CAR h pair x)
      else Inl (ErrObj ''pair required but got'' pair))"

definition scm_p_set_cdrx :: "heap \<Rightarrow> obj \<Rightarrow> obj \<Rightarrow> (obj \<times> heap) res" where
  "scm_p_set_cdrx h pair x =
     (if CONSP pair then Inr (SCM_UNDEF, SET_CDR h pair x)
      else Inl (ErrObj ''pair required but got'' pair))"

definition and_then :: "'a res \<Rightarrow> ('a \<Rightarrow> 'b res) \<Rightarrow> 'b res" where
  "and_then r f = (case r of Inl e \<Rightarrow> Inl e | Inr x \<Rightarrow> f x)"

text \<open>\<open>run_then\<close> sequences steps that may not return and may fail.\<close>

definition run_then :: "'a res option \<Rightarrow> ('a \<Rightarrow> 'b res option) \<Rightarrow> 'b res option" where
  "run_then m f = Option.bind m (\<lambda>r. case r of Inl e \<Rightarrow> Some (Inl e) | Inr x \<Rightarrow> f x)"

lemma run_then_simps [simp]:
  "run_then (Some (Inr x)) f = f x" "run_then (Some (Inl e)) f = Some (Inl e)" "run_then None f = None"
  by (simp_all add: run_then_def)

lemma run_then_mono [partial_function_mono]:
  assumes "mono_option m" "\<And>y. mono_option (\<lambda>f. g y f)"
  shows "mono_option (\<lambda>f. run_then (m f) (\<lambda>y. g y f))"
  unfolding run_then_def
proof (intro bind_mono assms(1))
  fix r :: "scm_error + 'c"
  show "mono_option (\<lambda>f. case r of Inl e \<Rightarrow> Some (Inl e) | Inr x \<Rightarrow> g x f)"
    by (cases r) (simp_all add: assms(2) option.const_mono)
qed

definition scm_p_caar :: "heap \<Rightarrow> obj \<Rightarrow> obj res" where
  "scm_p_caar h x = and_then (scm_p_car h x) (scm_p_car h)"

definition scm_p_cadr :: "heap \<Rightarrow> obj \<Rightarrow> obj res" where
  "scm_p_cadr h x = and_then (scm_p_cdr h x) (scm_p_car h)"

definition scm_p_cdar :: "heap \<Rightarrow> obj \<Rightarrow> obj res" where
  "scm_p_cdar h x = and_then (scm_p_car h x) (scm_p_cdr h)"

definition scm_p_cddr :: "heap \<Rightarrow> obj \<Rightarrow> obj res" where
  "scm_p_cddr h x = and_then (scm_p_cdr h x) (scm_p_cdr h)"

definition scm_p_caddr :: "heap \<Rightarrow> obj \<Rightarrow> obj res" where
  "scm_p_caddr h x = and_then (and_then (scm_p_cdr h x) (scm_p_cdr h)) (scm_p_car h)"

definition scm_p_cdddr :: "heap \<Rightarrow> obj \<Rightarrow> obj res" where
  "scm_p_cdddr h x = and_then (and_then (scm_p_cdr h x) (scm_p_cdr h)) (scm_p_cdr h)"

definition scm_p_nullp :: "obj \<Rightarrow> obj" where
  "scm_p_nullp x = MAKE_BOOL (NULLP x)"

definition scm_p_list :: "obj \<Rightarrow> obj" where
  "scm_p_list args = args"

section \<open>List length\<close>

text \<open>The encodings of a length: proper lists are non-negative, dotted ones \<^verbatim>\<open>~len\<close>, circular
  lists and errors the least \<^verbatim>\<open>scm_int_t\<close>.\<close>

definition SCM_LISTLEN_ENCODE_DOTTED :: "int \<Rightarrow> int" where "SCM_LISTLEN_ENCODE_DOTTED len = NOT len"
definition SCM_LISTLEN_ENCODE_CIRCULAR :: "int \<Rightarrow> int" where
  "SCM_LISTLEN_ENCODE_CIRCULAR len = SCM_INT_T_MIN"
definition SCM_LISTLEN_ENCODE_ERROR :: "int \<Rightarrow> int" where
  "SCM_LISTLEN_ENCODE_ERROR len = SCM_LISTLEN_ENCODE_CIRCULAR len"
definition SCM_LISTLEN_PROPERP :: "int \<Rightarrow> bool" where "SCM_LISTLEN_PROPERP len \<longleftrightarrow> 0 \<le> len"
definition SCM_LISTLEN_CIRCULARP :: "int \<Rightarrow> bool" where
  "SCM_LISTLEN_CIRCULARP len \<longleftrightarrow> len = SCM_INT_T_MIN"
definition SCM_LISTLEN_ERRORP :: "int \<Rightarrow> bool" where
  "SCM_LISTLEN_ERRORP len \<longleftrightarrow> SCM_LISTLEN_CIRCULARP len"
definition SCM_LISTLEN_DOTTEDP :: "int \<Rightarrow> bool" where
  "SCM_LISTLEN_DOTTEDP len \<longleftrightarrow> len < 0 \<and> \<not> SCM_LISTLEN_CIRCULARP len"
definition SCM_LISTLEN_DOTTED :: "int \<Rightarrow> int" where "SCM_LISTLEN_DOTTED len = NOT len"

lemmas listlen_defs = SCM_LISTLEN_ENCODE_DOTTED_def SCM_LISTLEN_ENCODE_CIRCULAR_def
  SCM_LISTLEN_ENCODE_ERROR_def SCM_LISTLEN_PROPERP_def SCM_LISTLEN_CIRCULARP_def
  SCM_LISTLEN_ERRORP_def SCM_LISTLEN_DOTTEDP_def SCM_LISTLEN_DOTTED_def SCM_INT_T_MIN_def

partial_function (option) finite_length_loop :: "heap \<Rightarrow> obj \<Rightarrow> int \<Rightarrow> int option" where
  "finite_length_loop h lst len =
     (if CONSP lst then finite_length_loop h (CDR h lst) (len + 1)
      else if NULLP lst then Some len
      else Some (SCM_LISTLEN_ENCODE_DOTTED len))"

definition scm_finite_length :: "heap \<Rightarrow> obj \<Rightarrow> int option" where
  "scm_finite_length h lst = finite_length_loop h lst 0"

partial_function (option) length_loop :: "heap \<Rightarrow> obj \<Rightarrow> obj \<Rightarrow> int \<Rightarrow> int option" where
  "length_loop h lst slow len =
     (if NULLP lst then Some len
      else if \<not> CONSP lst then Some (SCM_LISTLEN_ENCODE_DOTTED len)
      else if len \<noteq> 0 \<and> lst = slow then Some (SCM_LISTLEN_ENCODE_CIRCULAR len)
      else let lst = CDR h lst; len = len + 1 in
        if NULLP lst then Some len
        else if \<not> CONSP lst then Some (SCM_LISTLEN_ENCODE_DOTTED len)
        else if lst = slow then Some (SCM_LISTLEN_ENCODE_CIRCULAR len)
        else length_loop h (CDR h lst) (CDR h slow) (len + 1))"

definition scm_length :: "heap \<Rightarrow> obj \<Rightarrow> int option" where
  "scm_length h lst = length_loop h lst lst 0"

text \<open>\<open>write_ss\<close> is \<^verbatim>\<open>SCM_WRITE_SS_ENABLEDP()\<close>: whether shared structure can be written, which
  selects the error of a circular list.\<close>

definition scm_p_length :: "bool \<Rightarrow> heap \<Rightarrow> obj \<Rightarrow> obj res option" where
  "scm_p_length write_ss h x =
     map_option (\<lambda>len.
       if \<not> SCM_LISTLEN_PROPERP len then
         (if SCM_LISTLEN_CIRCULARP len \<and> \<not> write_ss
          then Inl (Err ''proper list required but got a circular list'')
          else Inl (ErrObj ''proper list required but got'' x))
       else Inr (IntObj len)) (scm_length h x)"

definition scm_p_listp :: "heap \<Rightarrow> obj \<Rightarrow> obj option" where
  "scm_p_listp h x =
     (if NULLP x then Some SCM_TRUE
      else if \<not> CONSP x then Some SCM_FALSE
      else map_option (\<lambda>len. MAKE_BOOL (SCM_LISTLEN_PROPERP len)) (scm_length h x))"

section \<open>Append and reverse\<close>

text \<open>\<^verbatim>\<open>SCM_QUEUE_ADD\<close>: store a fresh one element list at the queue's slot and move the queue to
  its cdr. The state is the heap, the off-heap variable and the queue.\<close>

definition queue_add :: "heap \<Rightarrow> obj \<Rightarrow> ref \<Rightarrow> obj \<Rightarrow> heap \<times> obj \<times> ref" where
  "queue_add h out q dat =
     (let (p, h1) = scm_make_cons h dat SCM_NULL; (h2, out2) = SCM_SET h1 out q p
      in (h2, out2, REF_CDR (DEREF h2 out2 q)))"

partial_function (option) append_elems ::
    "heap \<Rightarrow> obj \<Rightarrow> ref \<Rightarrow> obj \<Rightarrow> (heap \<times> obj \<times> ref \<times> obj) option" where
  "append_elems h out q lst =
     (if CONSP lst then
        (let elm = CAR h lst; lst = CDR h lst
         in case queue_add h out q elm of (h', out', q') \<Rightarrow> append_elems h' out' q' lst)
      else Some (h, out, q, lst))"

partial_function (option) append_loop ::
    "heap \<Rightarrow> obj \<Rightarrow> ref \<Rightarrow> obj \<Rightarrow> (obj \<times> heap) res option" where
  "append_loop h out q args =
     (let lst = CAR h args; rest = CDR h args in
      if CONSP rest then
        Option.bind (append_elems h out q lst) (\<lambda>(h', out', q', term).
          if NULLP term then append_loop h' out' q' rest
          else Some (Inl (ErrObj ''proper list required but got'' rest)))
      else case SCM_SET h out q lst of (h', out') \<Rightarrow> Some (Inr (out', h')))"

definition scm_p_append :: "heap \<Rightarrow> obj \<Rightarrow> (obj \<times> heap) res option" where
  "scm_p_append h args =
     (if NULLP args then Some (Inr (SCM_NULL, h)) else append_loop h SCM_NULL RefOffHeap args)"

partial_function (option) reverse_loop ::
    "heap \<Rightarrow> obj \<Rightarrow> obj \<Rightarrow> (heap \<times> obj \<times> obj) option" where
  "reverse_loop h ret rest =
     (if CONSP rest then
        (case scm_make_cons h (CAR h rest) ret of (p, h') \<Rightarrow> reverse_loop h' p (CDR h rest))
      else Some (h, ret, rest))"

definition scm_p_reverse :: "heap \<Rightarrow> obj \<Rightarrow> (obj \<times> heap) res option" where
  "scm_p_reverse h lst =
     map_option (\<lambda>(h', ret, rest).
       if NULLP rest then Inr (ret, h') else Inl (ErrObj ''proper list required but got'' lst))
       (reverse_loop h SCM_NULL lst)"

section \<open>Access by position\<close>

partial_function (option) scm_list_tail :: "heap \<Rightarrow> obj \<Rightarrow> int \<Rightarrow> obj option" where
  "scm_list_tail h lst k =
     (if k = 0 then Some lst
      else if \<not> CONSP lst then Some SCM_INVALID
      else scm_list_tail h (CDR h lst) (k - 1))"

definition scm_p_list_tail :: "heap \<Rightarrow> obj \<Rightarrow> obj \<Rightarrow> obj res option" where
  "scm_p_list_tail h lst k =
     (if \<not> INTP k then Some (Inl (ErrObj ''integer required but got'' k))
      else map_option (\<lambda>ret. if VALIDP ret then Inr ret else Inl (ErrObj ''out of range'' k))
        (scm_list_tail h lst (SCM_INT_VALUE k)))"

definition scm_p_list_ref :: "heap \<Rightarrow> obj \<Rightarrow> obj \<Rightarrow> obj res option" where
  "scm_p_list_ref h lst k =
     (if \<not> INTP k then Some (Inl (ErrObj ''integer required but got'' k))
      else map_option (\<lambda>tail.
          if \<not> VALIDP tail \<or> \<not> CONSP tail then Inl (ErrObj ''out of range'' k)
          else Inr (CAR h tail))
        (scm_list_tail h lst (SCM_INT_VALUE k)))"

section \<open>Membership and association\<close>

text \<open>\<^verbatim>\<open>MEMBER_BODY\<close> and \<^verbatim>\<open>ASSOC_BODY\<close>, with the comparison as an argument. In the default
  configuration numbers and characters are immediate, so \<open>memv\<close> and \<open>assv\<close> compare with \<^verbatim>\<open>EQ\<close>
  too.\<close>

partial_function (option) member_loop ::
    "(obj \<Rightarrow> obj \<Rightarrow> bool) \<Rightarrow> heap \<Rightarrow> obj \<Rightarrow> obj \<Rightarrow> obj \<Rightarrow> obj res option" where
  "member_loop cmp h x lst rest =
     (if CONSP rest then
        (if cmp x (CAR h rest) then Some (Inr rest) else member_loop cmp h x lst (CDR h rest))
      else if NULLP rest then Some (Inr SCM_FALSE)
      else Some (Inl (ErrObj ''proper list required but got'' lst)))"

partial_function (option) assoc_loop ::
    "(obj \<Rightarrow> obj \<Rightarrow> bool) \<Rightarrow> heap \<Rightarrow> obj \<Rightarrow> obj \<Rightarrow> obj \<Rightarrow> obj res option" where
  "assoc_loop cmp h x alist rest =
     (if CONSP rest then
        (let pair = CAR h rest in
         if \<not> CONSP pair then Some (Inl (ErrObj ''pair required but got'' pair))
         else if cmp (CAR h pair) x then Some (Inr pair)
         else assoc_loop cmp h x alist (CDR h rest))
      else if NULLP rest then Some (Inr SCM_FALSE)
      else Some (Inl (ErrObj ''proper list required but got'' alist)))"

definition scm_p_memq :: "heap \<Rightarrow> obj \<Rightarrow> obj \<Rightarrow> obj res option" where
  "scm_p_memq h x lst = member_loop (=) h x lst lst"

definition scm_p_memv :: "heap \<Rightarrow> obj \<Rightarrow> obj \<Rightarrow> obj res option" where
  "scm_p_memv h x lst = member_loop (=) h x lst lst"

definition scm_p_assq :: "heap \<Rightarrow> obj \<Rightarrow> obj \<Rightarrow> obj res option" where
  "scm_p_assq h x alist = assoc_loop (=) h x alist alist"

definition scm_p_assv :: "heap \<Rightarrow> obj \<Rightarrow> obj \<Rightarrow> obj res option" where
  "scm_p_assv h x alist = assoc_loop (=) h x alist alist"

section \<open>Length: proper and dotted lists\<close>

lemma finite_length_loop_chain:
  "chain h x vs t \<Longrightarrow> \<not> CONSP t \<Longrightarrow>
     finite_length_loop h x len =
       Some (if NULLP t then len + int (length vs)
             else SCM_LISTLEN_ENCODE_DOTTED (len + int (length vs)))"
proof (induction vs arbitrary: x len)
  case Nil
  then show ?case by (simp add: finite_length_loop.simps [of h t])
next
  case (Cons v vs)
  then show ?case
    using Cons.IH [of "CDR h x" "len + 1"] has_pair_CONSP [of h x]
    by (simp add: finite_length_loop.simps [of h x] add.assoc)
qed

text \<open>The chain of a terminated list never meets itself again.\<close>

lemma chain_no_meet:
  assumes "chain h x vs t" "\<not> CONSP t" "j \<le> length vs" "i < j"
  shows "(CDR h ^^ i) x \<noteq> (CDR h ^^ j) x"
proof
  assume eq: "(CDR h ^^ i) x = (CDR h ^^ j) x"
  let ?d = "length vs - j"
  have "(CDR h ^^ (?d + i)) x = (CDR h ^^ (?d + j)) x"
    by (simp add: funpow_add eq)
  also have "\<dots> = t" using chain_cdr_power [OF assms(1)] assms(3) by simp
  finally have "(CDR h ^^ (?d + i)) x = t" .
  moreover have "?d + i < length vs" using assms(3,4) by linarith
  ultimately show False using chain_CONSP [OF assms(1)] assms(2) by metis
qed

lemma length_loop_chain:
  assumes "chain h x vs t" "\<not> CONSP t" "2 * j \<le> length vs"
  shows "length_loop h ((CDR h ^^ (2 * j)) x) ((CDR h ^^ j) x) (int (2 * j)) =
           Some (if NULLP t then int (length vs) else SCM_LISTLEN_ENCODE_DOTTED (int (length vs)))"
  using assms(3)
proof (induction "length vs - 2 * j" arbitrary: j rule: less_induct)
  case less
  let ?f = "CDR h"
  note fin = chain_cdr_power [OF assms(1)]
  note unf = length_loop.simps [of h "(?f ^^ (2 * j)) x"]
  have step: "?f ((?f ^^ n) x) = (?f ^^ Suc n) x" for n by simp
  show ?case
  proof (cases "2 * j = length vs")
    case True
    then have "(?f ^^ (2 * j)) x = t" using fin by simp
    then show ?thesis
      using True assms(2) length_loop.simps [of h t] by (simp add: int_ops)
  next
    case False
    with less.prems have lt: "2 * j < length vs" by linarith
    have c0: "CONSP ((?f ^^ (2 * j)) x)" using chain_CONSP [OF assms(1) lt] .
    have ne0: "j \<noteq> 0 \<Longrightarrow> (?f ^^ (2 * j)) x \<noteq> (?f ^^ j) x"
      using chain_no_meet [OF assms(1,2), of "2 * j" j] lt by auto
    have ne1: "(?f ^^ Suc (2 * j)) x \<noteq> (?f ^^ j) x"
      using chain_no_meet [OF assms(1,2), of "Suc (2 * j)" j] lt by auto
    show ?thesis
    proof (cases "Suc (2 * j) = length vs")
      case True
      then have "(?f ^^ Suc (2 * j)) x = t" using fin by simp
      moreover have "int (length vs) = int (2 * j) + 1" using True by linarith
      ultimately show ?thesis
        using c0 ne0 assms(2) by (auto simp: unf Let_def step simp del: funpow.simps of_nat_mult)
    next
      case False
      with lt have lt1: "Suc (2 * j) < length vs" by linarith
      have c1: "CONSP ((?f ^^ Suc (2 * j)) x)" using chain_CONSP [OF assms(1) lt1] .
      have "length_loop h ((?f ^^ (2 * j)) x) ((?f ^^ j) x) (int (2 * j)) =
            length_loop h ((?f ^^ (2 * Suc j)) x) ((?f ^^ Suc j) x) (int (2 * Suc j))"
        using c0 c1 ne0 ne1 by (auto simp: unf Let_def step add.commute simp del: funpow.simps)
      also have "\<dots> = Some (if NULLP t then int (length vs)
                              else SCM_LISTLEN_ENCODE_DOTTED (int (length vs)))"
        using less.hyps [of "Suc j"] lt1 by simp
      finally show ?thesis .
    qed
  qed
qed

lemma scm_length_chain:
  "chain h x vs t \<Longrightarrow> \<not> CONSP t \<Longrightarrow>
     scm_length h x = Some (if NULLP t then int (length vs)
                            else SCM_LISTLEN_ENCODE_DOTTED (int (length vs)))"
  using length_loop_chain [of h x vs t 0] by (simp add: scm_length_def)

section \<open>Length: circular lists\<close>

definition circular :: "heap \<Rightarrow> obj \<Rightarrow> bool" where
  "circular h x \<longleftrightarrow> (\<forall>n. CONSP ((CDR h ^^ n) x))"

lemma CONSP_next_has_pair: "CONSP (CDR h x) \<Longrightarrow> has_pair h x"
  using not_has_pair [of h x] by (cases "has_pair h x") auto

text \<open>In a well-formed heap every object heads a chain that ends, or a circular list.\<close>

lemma cdr_power_ok:
  assumes "heap_ok h" "obj_ok h x" "\<And>i. i < n \<Longrightarrow> CONSP ((CDR h ^^ i) x)"
  shows "obj_ok h ((CDR h ^^ n) x)"
  using assms(3)
proof (induction n)
  case (Suc n)
  then have "has_pair h ((CDR h ^^ n) x)" using obj_ok_CONSP by simp
  then show ?case using heap_ok_reads(2) [OF assms(1)] by simp
qed (simp add: assms(2))

lemma chain_of_cdr_power:
  assumes "\<And>i. i < n \<Longrightarrow> has_pair h ((CDR h ^^ i) x)"
  shows "\<exists>vs. length vs = n \<and> chain h x vs ((CDR h ^^ n) x)"
  using assms
proof (induction n)
  case (Suc n)
  then obtain vs where "length vs = n" "chain h x vs ((CDR h ^^ n) x)" by auto
  moreover have "has_pair h ((CDR h ^^ n) x)" using Suc.prems by simp
  ultimately show ?case
    by (intro exI [of _ "vs @ [CAR h ((CDR h ^^ n) x)]"]) (auto simp: chain_append)
qed simp

lemma chain_or_circular:
  assumes "heap_ok h" "obj_ok h x"
  shows "circular h x \<or> (\<exists>vs t. chain h x vs t \<and> \<not> CONSP t)"
proof (cases "circular h x")
  case False
  then have ex: "\<exists>n. \<not> CONSP ((CDR h ^^ n) x)" by (simp add: circular_def)
  define n where "n = (LEAST n. \<not> CONSP ((CDR h ^^ n) x))"
  have n: "\<not> CONSP ((CDR h ^^ n) x)" and lt: "\<And>i. i < n \<Longrightarrow> CONSP ((CDR h ^^ i) x)"
    using LeastI_ex [OF ex] not_less_Least unfolding n_def by blast+
  have "has_pair h ((CDR h ^^ i) x)" if "i < n" for i
    using that lt cdr_power_ok [OF assms, of i] by (intro obj_ok_CONSP) auto
  then show ?thesis using chain_of_cdr_power [of n h x] n by blast
qed simp

lemma circular_meets:
  assumes "brk_ok h" "circular h x"
  shows "\<exists>k>0. (CDR h ^^ (2 * k)) x = (CDR h ^^ k) x"
proof -
  let ?f = "CDR h"
  have "(?f ^^ n) x \<in> Ptr PTAG_CONS ` dom (mem h)" for n
  proof -
    have "CONSP (?f ((?f ^^ n) x))" using assms(2) unfolding circular_def by (metis funpow.simps(2) o_apply)
    then have "has_pair h ((?f ^^ n) x)" by (rule CONSP_next_has_pair)
    then show ?thesis by (auto simp: has_pair_def)
  qed
  then have "range (\<lambda>n. (?f ^^ n) x) \<subseteq> Ptr PTAG_CONS ` dom (mem h)" by blast
  then have "finite (range (\<lambda>n. (?f ^^ n) x))"
    using finite_dom_mem [OF assms(1)] by (meson finite_imageI finite_subset)
  then have "\<not> inj (\<lambda>n. (?f ^^ n) x)" using finite_imageD infinite_UNIV_nat by blast
  then obtain i j where ij: "i < j" "(?f ^^ i) x = (?f ^^ j) x"
    unfolding inj_def by (metis linorder_neqE_nat)
  let ?p = "j - i"
  have per: "(?f ^^ (n + ?p)) x = (?f ^^ n) x" if "i \<le> n" for n
  proof -
    have "n + ?p = (n - i) + j" "n = (n - i) + i" using that ij by auto
    then show ?thesis using ij(2) by (metis funpow_add o_apply)
  qed
  have mult: "(?f ^^ (n + m * ?p)) x = (?f ^^ n) x" if "i \<le> n" for n m
  proof (induction m)
    case (Suc m)
    have eq: "n + Suc m * ?p = (n + m * ?p) + ?p" by simp
    show ?case unfolding eq using per [of "n + m * ?p"] that Suc by simp
  qed simp
  let ?k = "Suc i * ?p"
  have pos: "1 \<le> ?p" using ij(1) by simp
  have k: "i \<le> ?k" using le_trans [OF _ mult_le_mono2 [OF pos, of "Suc i"]] by simp
  have k0: "0 < ?k" using ij(1) by simp
  have "(?f ^^ (2 * ?k)) x = (?f ^^ ?k) x"
    using mult [OF k, of "Suc i"] by (simp only: mult_2)
  then show ?thesis using k0 by blast
qed

lemma length_loop_circular:
  assumes "circular h x" "0 < k" "(CDR h ^^ (2 * k)) x = (CDR h ^^ k) x" "j \<le> k"
  shows "length_loop h ((CDR h ^^ (2 * j)) x) ((CDR h ^^ j) x) (int (2 * j)) = Some SCM_INT_T_MIN"
  using assms(4)
proof (induction "k - j" arbitrary: j)
  case 0
  then have "j = k" by simp
  then show ?case
    using assms(1-3) unfolding circular_def
    by (subst length_loop.simps) (auto simp: SCM_LISTLEN_ENCODE_CIRCULAR_def)
next
  case (Suc d)
  let ?f = "CDR h"
  note unf = length_loop.simps [of h "(?f ^^ (2 * j)) x"]
  have step: "?f ((?f ^^ n) x) = (?f ^^ Suc n) x" for n by simp
  have c: "CONSP ((?f ^^ n) x)" "(?f ^^ n) x \<noteq> SCM_NULL" for n
    using assms(1) consts_not_CONSP(1) unfolding circular_def by blast+
  have next_j: "length_loop h ((?f ^^ (2 * Suc j)) x) ((?f ^^ Suc j) x) (int (2 * Suc j)) =
      Some SCM_INT_T_MIN"
    using Suc by (intro Suc.hyps(1)) auto
  show ?case
  proof (cases "(j \<noteq> 0 \<and> (?f ^^ (2 * j)) x = (?f ^^ j) x) \<or> (?f ^^ Suc (2 * j)) x = (?f ^^ j) x")
    case True
    then show ?thesis
      using c by (auto simp: unf Let_def step SCM_LISTLEN_ENCODE_CIRCULAR_def simp del: funpow.simps)
  next
    case False
    then have "length_loop h ((?f ^^ (2 * j)) x) ((?f ^^ j) x) (int (2 * j)) =
        length_loop h ((?f ^^ (2 * Suc j)) x) ((?f ^^ Suc j) x) (int (2 * Suc j))"
      using c by (auto simp: unf Let_def step add.commute simp del: funpow.simps)
    then show ?thesis using next_j by simp
  qed
qed

lemma scm_length_circular:
  assumes "brk_ok h" "circular h x"
  shows "scm_length h x = Some SCM_INT_T_MIN"
proof -
  obtain k where "0 < k" "(CDR h ^^ (2 * k)) x = (CDR h ^^ k) x"
    using circular_meets [OF assms] by blast
  then show ?thesis
    using length_loop_circular [OF assms(2), of k 0] by (simp add: scm_length_def)
qed

text \<open>A list that ends is no longer than the heap is large.\<close>

lemma chain_length_le:
  assumes "chain h x vs t" "\<not> CONSP t" "brk_ok h"
  shows "length vs \<le> brk h"
proof -
  let ?f = "\<lambda>i. (CDR h ^^ i) x"
  have inj: "inj_on ?f {..<length vs}"
  proof (rule linorder_inj_onI)
    fix i j assume "i < j" "j \<in> {..<length vs}"
    then show "?f i \<noteq> ?f j" using chain_no_meet [OF assms(1,2), of j i] by simp
  qed auto
  have "has_pair h (?f i)" if "i < length vs" for i
  proof -
    have "chain h x (take i vs @ vs ! i # drop (Suc i) vs) t" using assms(1) that by (simp add: id_take_nth_drop [symmetric])
    then show ?thesis using that chain_cdr_power [of h x "take i vs"] by (auto simp: chain_append)
  qed
  moreover have "y \<in> Ptr PTAG_CONS ` {..<brk h}" if hp: "has_pair h y" for y
  proof -
    obtain a c where "y = Ptr PTAG_CONS a" "mem h a = Some c"
      using hp unfolding has_pair_def by blast
    moreover from this have "\<not> brk h \<le> a" using assms(3) by (auto simp: brk_ok_def)
    ultimately show ?thesis by simp
  qed
  ultimately have "?f ` {..<length vs} \<subseteq> Ptr PTAG_CONS ` {..<brk h}" by blast
  then have "card (?f ` {..<length vs}) \<le> card (Ptr PTAG_CONS ` {..<brk h})"
    by (intro card_mono) auto
  also have "\<dots> \<le> brk h" using card_image_le [of "{..<brk h}"] by simp
  finally show ?thesis by (simp add: card_image [OF inj])
qed

lemma circular_not_chain: "circular h x \<Longrightarrow> chain h x vs t \<Longrightarrow> CONSP t"
  unfolding circular_def using chain_cdr_power by metis

section \<open>The queue of append\<close>

text \<open>\<open>lseg h x ps t\<close>: from \<open>x\<close> to \<open>t\<close> there are pairs at the addresses \<open>map fst ps\<close> that hold the
  elements \<open>map snd ps\<close>. \<open>slot ps\<close> is the queue behind them.\<close>

fun lseg :: "heap \<Rightarrow> obj \<Rightarrow> (nat \<times> obj) list \<Rightarrow> obj \<Rightarrow> bool" where
  "lseg h x [] t \<longleftrightarrow> x = t"
| "lseg h x ((a, v) # ps) t \<longleftrightarrow>
     x = Ptr PTAG_CONS a \<and> (\<exists>y. mem h a = Some (PairCell v y) \<and> lseg h y ps t)"

definition slot :: "(nat \<times> obj) list \<Rightarrow> ref" where
  "slot ps = (if ps = [] then RefOffHeap else RefCdr (fst (last ps)))"

lemma lseg_chain: "lseg h x ps t \<Longrightarrow> chain h x (map snd ps) t"
  by (induction h x ps t rule: lseg.induct) (auto simp: has_pair_def)

lemma lseg_cong: "\<forall>a \<in> fst ` set ps. mem h' a = mem h a \<Longrightarrow> lseg h' x ps t = lseg h x ps t"
  by (induction ps arbitrary: x) auto

lemma lseg_append: "lseg h x (ps @ qs) t \<longleftrightarrow> (\<exists>y. lseg h x ps y \<and> lseg h y qs t)"
proof (induction ps arbitrary: x)
  case (Cons p ps)
  obtain a v where "p = (a, v)" by (cases p)
  then show ?case by (simp add: Cons.IH) blast
qed simp

lemma DEREF_slot: "lseg h out ps t \<Longrightarrow> DEREF h out (slot ps) = t"
  by (cases ps rule: rev_cases) (auto simp: slot_def lseg_append)

lemma SCM_SET_slot:
  assumes "lseg h out ps t" "distinct (map fst ps)" "SCM_SET h out (slot ps) t' = (h', out')"
  shows "lseg h' out' ps t' \<and> brk h' = brk h \<and> (\<forall>a. a \<notin> fst ` set ps \<longrightarrow> mem h' a = mem h a) \<and>
    dom (mem h') = dom (mem h)"
proof (cases ps rule: rev_cases)
  case Nil
  then show ?thesis using assms by (auto simp: slot_def)
next
  case (snoc qs p)
  obtain a v where p: "p = (a, v)" by (cases p)
  have m: "mem h a = Some (PairCell v t)" using assms(1) snoc p by (auto simp: lseg_append)
  have h': "h' = set_pair h a v t'" "out' = out"
    using assms(3) snoc p m by (auto simp: slot_def)
  have "lseg h' out qs y = lseg h out qs y" for y
    using assms(2) snoc p h' by (intro lseg_cong) (auto simp: set_pair_def)
  then show ?thesis
    using assms(1) snoc p h' m by (auto simp: lseg_append set_pair_def)
qed

text \<open>The invariant of the append loop: only cells that are newer than \<open>h0\<close> have been written.\<close>

definition queue_inv :: "heap \<Rightarrow> heap \<Rightarrow> obj \<Rightarrow> (nat \<times> obj) list \<Rightarrow> bool" where
  "queue_inv h0 h out ps \<longleftrightarrow> heap_le h0 h \<and> brk_ok h0 \<and> brk_ok h \<and> lseg h out ps SCM_NULL \<and>
     distinct (map fst ps) \<and> (\<forall>a \<in> fst ` set ps. brk h0 \<le> a \<and> a < brk h)"

lemma queue_set:
  assumes "queue_inv h0 h out ps" "SCM_SET h out (slot ps) t' = (h', out')"
  shows "lseg h' out' ps t' \<and> brk h' = brk h \<and> heap_le h0 h' \<and> brk_ok h'"
proof -
  have *: "lseg h' out' ps t'" "brk h' = brk h" "\<forall>a. a \<notin> fst ` set ps \<longrightarrow> mem h' a = mem h a"
      "dom (mem h') = dom (mem h)"
    using SCM_SET_slot [OF _ _ assms(2), of SCM_NULL] assms(1) unfolding queue_inv_def by blast+
  have "heap_le h0 h'"
    unfolding heap_le_def
  proof (intro conjI allI impI)
    fix a c assume m: "mem h0 a = Some c"
    then have "a < brk h0" using assms(1) by (fastforce simp: queue_inv_def brk_ok_def not_le [symmetric])
    then have "a \<notin> fst ` set ps" using assms(1) by (fastforce simp: queue_inv_def)
    then show "mem h' a = Some c" using * m assms(1) by (auto simp: queue_inv_def dest: heap_leD)
  qed (use * assms(1) in \<open>auto simp: queue_inv_def heap_le_def\<close>)
  moreover have "brk_ok h'" using * assms(1) unfolding queue_inv_def brk_ok_def by (metis domIff)
  ultimately show ?thesis using * by blast
qed

lemma queue_add_inv:
  assumes inv: "queue_inv h0 h out ps" and add: "queue_add h out (slot ps) dat = (h2, out2, q2)"
  shows "q2 = slot (ps @ [(brk h, dat)]) \<and> queue_inv h0 h2 out2 (ps @ [(brk h, dat)])"
proof -
  define h1 where "h1 = snd (scm_make_cons h dat SCM_NULL)"
  let ?p = "Ptr PTAG_CONS (brk h)"
  have mk: "scm_make_cons h dat SCM_NULL = (?p, h1)" by (simp add: h1_def make_cons_simps)
  have le: "heap_le h h1" "brk_ok h1" "brk h1 = Suc (brk h)" "mem h1 (brk h) = Some (PairCell dat SCM_NULL)"
    using make_cons_extends [OF _ mk] inv by (auto simp: queue_inv_def h1_def make_cons_simps)
  have "lseg h1 out ps SCM_NULL = lseg h out ps SCM_NULL"
    using inv by (intro lseg_cong) (auto simp: queue_inv_def h1_def make_cons_simps)
  then have inv1: "queue_inv h0 h1 out ps"
    using inv le unfolding queue_inv_def by (fastforce intro: heap_le_trans)
  obtain out2' where set: "SCM_SET h1 out (slot ps) ?p = (h2, out2)" "out2' = out2"
    using add by (auto simp: queue_add_def mk split: prod.splits)
  have s: "lseg h2 out2 ps ?p" "brk h2 = brk h1" "heap_le h0 h2" "brk_ok h2"
    using queue_set [OF inv1 set(1)] by auto
  have fresh: "brk h \<notin> fst ` set ps" using inv by (auto simp: queue_inv_def)
  then have "mem h2 (brk h) = mem h1 (brk h)"
    using SCM_SET_slot [OF _ _ set(1), of SCM_NULL] inv1 unfolding queue_inv_def by blast
  then have "lseg h2 out2 (ps @ [(brk h, dat)]) SCM_NULL" using s(1) le(4) by (auto simp: lseg_append)
  moreover have "q2 = slot (ps @ [(brk h, dat)])"
    using add DEREF_slot [OF s(1)] set by (auto simp: queue_add_def mk slot_def)
  ultimately show ?thesis
    using inv s le fresh unfolding queue_inv_def heap_le_def by (auto simp: less_Suc_eq)
qed

lemma append_elems_chain:
  assumes "queue_inv h0 h out ps" "chain h0 lst vs t" "\<not> CONSP t"
  shows "\<exists>h' out' ps'. append_elems h out (slot ps) lst = Some (h', out', slot ps', t) \<and>
    queue_inv h0 h' out' ps' \<and> map snd ps' = map snd ps @ vs"
  using assms
proof (induction vs arbitrary: h out ps lst)
  case Nil
  then show ?case by (subst append_elems.simps) auto
next
  case (Cons v vs)
  obtain h2 out2 q2 where add: "queue_add h out (slot ps) v = (h2, out2, q2)" by (metis prod_cases3)
  note q = queue_add_inv [OF Cons.prems(1) add]
  have lst: "CONSP lst \<and> CAR h lst = v \<and> CDR h0 lst = CDR h lst"
    using Cons.prems has_pair_le [of h0 lst h] has_pair_CONSP [of h0 lst] by (auto simp: queue_inv_def)
  then have "append_elems h out (slot ps) lst = append_elems h2 out2 q2 (CDR h lst)"
    by (subst append_elems.simps) (simp add: add)
  then show ?case
    using Cons.IH [of h2 out2 "ps @ [(brk h, v)]" "CDR h lst"] q Cons.prems lst by auto
qed

lemma append_loop_chain:
  assumes "queue_inv h0 h out ps" "chain h0 args (ls @ [z]) t" "\<not> CONSP t"
    "list_all2 (\<lambda>x vs. chain h0 x vs SCM_NULL) ls vss"
  shows "\<exists>h' out' ps'. append_loop h out (slot ps) args = Some (Inr (out', h')) \<and>
    heap_le h0 h' \<and> brk_ok h' \<and> lseg h' out' ps' z \<and> map snd ps' = map snd ps @ concat vss \<and>
    distinct (map fst ps') \<and> (\<forall>a \<in> fst ` set ps'. brk h0 \<le> a)"
  using assms(1,2,4)
proof (induction ls arbitrary: h out ps args vss)
  case Nil
  obtain h' out' where set: "SCM_SET h out (slot ps) z = (h', out')" by (cases "SCM_SET h out (slot ps) z")
  have "CAR h args = z \<and> CDR h args = t"
    using Nil has_pair_le [of h0 args h] by (auto simp: queue_inv_def)
  then have "append_loop h out (slot ps) args = Some (Inr (out', h'))"
    using assms(3) set by (subst append_loop.simps) simp
  moreover have "distinct (map fst ps)" "\<forall>a \<in> fst ` set ps. brk h0 \<le> a"
    using Nil(1) unfolding queue_inv_def by blast+
  moreover have "vss = []" using Nil(3) by simp
  ultimately show ?case using queue_set [OF Nil(1) set] by (intro exI [of _ h'] exI [of _ out'] exI [of _ ps]) simp
next
  case (Cons l ls)
  obtain us uss where vss: "vss = us # uss" "chain h0 l us SCM_NULL"
      "list_all2 (\<lambda>x vs. chain h0 x vs SCM_NULL) ls uss"
    using Cons.prems(3) by (auto simp: list_all2_Cons1)
  obtain h2 out2 ps2 where el: "append_elems h out (slot ps) l = Some (h2, out2, slot ps2, SCM_NULL)"
      "queue_inv h0 h2 out2 ps2" "map snd ps2 = map snd ps @ us"
    using append_elems_chain [OF Cons.prems(1) vss(2)] by auto
  have a: "CAR h args = l" "CDR h args = CDR h0 args" "has_pair h0 (CDR h0 args)"
    using Cons.prems(1,2) has_pair_le [of h0 args h] by (cases ls; auto simp: queue_inv_def)+
  have "append_loop h out (slot ps) args = append_loop h2 out2 (slot ps2) (CDR h0 args)"
    using a el(1) has_pair_CONSP [OF a(3)] by (subst append_loop.simps) simp
  then show ?case
    using Cons.IH [OF el(2), of "CDR h0 args" uss] Cons.prems(2) vss el(3) by auto
qed

section \<open>Reversal, positions, membership\<close>

lemma reverse_loop_chain:
  assumes "chain h0 x vs t" "\<not> CONSP t" "heap_le h0 h" "brk_ok h" "chain h ret us SCM_NULL"
  shows "\<exists>h' r. reverse_loop h ret x = Some (h', r, t) \<and> heap_le h0 h' \<and> brk_ok h' \<and>
    chain h' r (rev vs @ us) SCM_NULL"
  using assms
proof (induction vs arbitrary: x h ret us)
  case Nil
  then show ?case by (subst reverse_loop.simps) auto
next
  case (Cons v vs)
  obtain p h1 where mk: "scm_make_cons h v ret = (p, h1)" by (cases "scm_make_cons h v ret")
  have le: "heap_le h h1" "brk_ok h1" using make_cons_extends [OF _ mk] Cons.prems by auto
  have "has_pair h1 p \<and> CAR h1 p = v \<and> CDR h1 p = ret" using mk by (auto simp: make_cons_simps has_pair_def)
  then have c: "chain h1 p (v # us) SCM_NULL" using chain_le [OF Cons.prems(5) le(1)] by simp
  have x: "CONSP x" "CAR h x = v" "CDR h x = CDR h0 x" "chain h0 (CDR h0 x) vs t"
    using Cons.prems has_pair_le [of h0 x h] has_pair_CONSP [of h0 x] by auto
  have "reverse_loop h ret x = reverse_loop h1 p (CDR h0 x)"
    using x mk by (subst reverse_loop.simps) simp
  then show ?case
    using Cons.IH [OF x(4) Cons.prems(2) heap_le_trans [OF Cons.prems(3) le(1)] le(2) c] by simp
qed

lemma circular_le:
  assumes "circular h x" "heap_le h h'"
  shows "circular h' x \<and> CDR h' x = CDR h x"
proof -
  have n: "CONSP ((CDR h ^^ n) x)" for n using assms(1) by (simp add: circular_def)
  have hp: "has_pair h ((CDR h ^^ n) x)" for n using CONSP_next_has_pair n [of "Suc n"] by simp
  have eq: "(CDR h' ^^ n) x = (CDR h ^^ n) x" for n
  proof (induction n)
    case (Suc n)
    then show ?case using has_pair_le [OF hp [of n] assms(2)] by simp
  qed simp
  show ?thesis using n eq has_pair_le [OF hp [of 0] assms(2)] by (simp add: circular_def)
qed

lemma circular_cdr: "circular h x \<Longrightarrow> circular h (CDR h x)"
  unfolding circular_def by (metis funpow.simps(2) funpow_swap1 o_apply)

lemma reverse_loop_circular:
  assumes "reverse_loop h ret x = Some r" "brk_ok h"
  shows "\<not> circular h x"
proof -
  have "brk_ok h \<longrightarrow> \<not> circular h x"
  proof (rule reverse_loop.raw_induct [of "\<lambda>h ret x r. brk_ok h \<longrightarrow> \<not> circular h x", OF _ assms(1)],
      intro impI notI)
    fix rec h ret x r
    assume IH: "\<And>h ret x r. rec h ret x = Some r \<Longrightarrow> brk_ok h \<longrightarrow> \<not> circular h x"
      and r: "(if CONSP x then case scm_make_cons h (CAR h x) ret of (p, h') \<Rightarrow> rec h' p (CDR h x)
            else Some (h, ret, x)) = Some r"
      and b: "brk_ok h" and c: "circular h x"
    have "CONSP x" using c unfolding circular_def by (metis funpow_0)
    obtain p h1 where mk: "scm_make_cons h (CAR h x) ret = (p, h1)"
      by (cases "scm_make_cons h (CAR h x) ret")
    have le: "heap_le h h1" "brk_ok h1" using make_cons_extends [OF b mk] by auto
    have "circular h1 (CDR h x)" using circular_le [OF circular_cdr [OF c] le(1)] by simp
    moreover have "rec h1 p (CDR h x) = Some r" using r \<open>CONSP x\<close> mk by simp
    ultimately show False using IH le(2) by blast
  qed
  then show ?thesis using assms(2) by blast
qed

lemma list_tail_chain:
  assumes "chain h x vs t" "\<not> CONSP t"
  shows "scm_list_tail h x k =
    Some (if 0 \<le> k \<and> k \<le> int (length vs) then (CDR h ^^ nat k) x else SCM_INVALID)"
  using assms
proof (induction vs arbitrary: x k)
  case Nil
  then show ?case by (subst scm_list_tail.simps) auto
next
  case (Cons v vs)
  have "CONSP x" using Cons.prems(1) has_pair_CONSP by auto
  moreover have "(CDR h ^^ nat (k - 1)) (CDR h x) = (CDR h ^^ nat k) x" if "0 < k"
  proof -
    have "nat k = Suc (nat (k - 1))" using that by simp
    then show ?thesis by (simp add: funpow_swap1)
  qed
  ultimately show ?case
    using Cons.IH [of "CDR h x" "k - 1"] Cons.prems by (subst scm_list_tail.simps) auto
qed

lemma chain_drop: "chain h x vs t \<Longrightarrow> n \<le> length vs \<Longrightarrow> chain h ((CDR h ^^ n) x) (drop n vs) t"
proof (induction vs arbitrary: x n)
  case (Cons v vs)
  then show ?case by (cases n) (auto simp: funpow_swap1)
qed simp

lemma chain_CAR_nth: "chain h x vs t \<Longrightarrow> n < length vs \<Longrightarrow> CAR h ((CDR h ^^ n) x) = vs ! n"
  using chain_drop [of h x vs t n] by (auto simp: Cons_nth_drop_Suc [symmetric])

lemma member_loop_chain:
  assumes "chain h x vs t" "\<not> CONSP t"
  shows "member_loop cmp h y lst x =
    Some (let n = length (takeWhile (\<lambda>v. \<not> cmp y v) vs) in
      if n < length vs then Inr ((CDR h ^^ n) x)
      else if t = SCM_NULL then Inr SCM_FALSE
      else Inl (ErrObj ''proper list required but got'' lst))"
  using assms
proof (induction vs arbitrary: x)
  case Nil
  then show ?case by (subst member_loop.simps) auto
next
  case (Cons v vs)
  then show ?case
    using Cons.IH [of "CDR h x"] has_pair_CONSP [of h x]
    by (subst member_loop.simps) (auto simp: Let_def funpow_swap1)
qed

lemma assoc_loop_chain:
  assumes "chain h x vs t" "\<not> CONSP t"
  shows "assoc_loop cmp h y lst x =
    Some (case dropWhile (\<lambda>v. CONSP v \<and> \<not> cmp (CAR h v) y) vs of
        v # _ \<Rightarrow> if CONSP v then Inr v else Inl (ErrObj ''pair required but got'' v)
      | [] \<Rightarrow> if t = SCM_NULL then Inr SCM_FALSE
              else Inl (ErrObj ''proper list required but got'' lst))"
  using assms
proof (induction vs arbitrary: x)
  case Nil
  then show ?case by (subst assoc_loop.simps) auto
next
  case (Cons v vs)
  then show ?case
    using Cons.IH [of "CDR h x"] has_pair_CONSP [of h x]
    by (subst assoc_loop.simps) (auto simp: Let_def)
qed

section \<open>The properties of the list procedures\<close>

text \<open>The heap of the examples: the list \<^verbatim>\<open>(1 2)\<close> at 0 and the list of it and itself at 2.\<close>

definition abc_heap :: heap where
  "abc_heap = \<lparr>mem = [0 \<mapsto> PairCell (IntObj 1) (Ptr PTAG_CONS 1), 1 \<mapsto> PairCell (IntObj 2) SCM_NULL,
     2 \<mapsto> PairCell (Ptr PTAG_CONS 0) (Ptr PTAG_CONS 3), 3 \<mapsto> PairCell (Ptr PTAG_CONS 0) SCM_NULL], brk = 4\<rparr>"

lemma abc_heap_ok: "heap_ok abc_heap"
  by (auto simp: heap_ok_def brk_ok_def abc_heap_def num_defs split: if_splits)

lemma abc_lists:
  "chain abc_heap (Ptr PTAG_CONS 0) [IntObj 1, IntObj 2] SCM_NULL"
  "chain abc_heap (Ptr PTAG_CONS 2) [Ptr PTAG_CONS 0, Ptr PTAG_CONS 0] SCM_NULL"
  by (simp_all add: abc_heap_def has_pair_def)

text \<open>C11: \<^verbatim>\<open>scm_length\<close> returns on every object of a well-formed heap, and its code classifies the
  list: a non-negative code is the length of a proper list, a dotted code the number of pairs
  before a non-null end, and the least \<^verbatim>\<open>scm_int_t\<close> a list whose cdrs never end.\<close>

theorem scm_length_classifies:
  assumes "heap_ok h" "obj_ok h x" "brk h < 2 ^ 60"
  shows "\<exists>n. scm_length h x = Some n \<and>
    (SCM_LISTLEN_PROPERP n \<longleftrightarrow> (\<exists>vs. chain h x vs SCM_NULL)) \<and>
    (SCM_LISTLEN_DOTTEDP n \<longleftrightarrow> (\<exists>vs t. chain h x vs t \<and> \<not> CONSP t \<and> t \<noteq> SCM_NULL)) \<and>
    (SCM_LISTLEN_CIRCULARP n \<longleftrightarrow> circular h x) \<and>
    (\<forall>vs t. chain h x vs t \<longrightarrow> \<not> CONSP t \<longrightarrow>
       (if t = SCM_NULL then n else SCM_LISTLEN_DOTTED n) = int (length vs))"
  using chain_or_circular [OF assms(1,2)]
proof (elim disjE exE conjE)
  assume c: "circular h x"
  then show ?thesis
    using scm_length_circular [OF heap_ok_brk [OF assms(1)] c] circular_not_chain [OF c]
    by (intro exI [of _ SCM_INT_T_MIN]) (fastforce simp: listlen_defs)
next
  fix vs t assume vs: "chain h x vs t" "\<not> CONSP t"
  have "length vs < 2 ^ 60"
    using chain_length_le [OF vs heap_ok_brk [OF assms(1)]] assms(3) by linarith
  then have len: "int (length vs) < 2 ^ 60" by (simp add: of_nat_less_numeral_power_cancel_iff)
  have uniq: "us = vs \<and> s = t" if "chain h x us s" "\<not> CONSP s" for us s
    using chain_unique [OF vs(1) that(1) vs(2) that(2)] by simp
  have nc: "\<not> circular h x" using vs circular_not_chain by blast
  have proper: "(\<exists>us. chain h x us SCM_NULL) \<longleftrightarrow> t = SCM_NULL" using uniq [of _ SCM_NULL] vs by auto
  have dotted: "(\<exists>us s. chain h x us s \<and> \<not> CONSP s \<and> s \<noteq> SCM_NULL) \<longleftrightarrow> t \<noteq> SCM_NULL"
    using uniq vs by blast
  show ?thesis
    unfolding proper dotted using scm_length_chain [OF vs] len nc uniq
    by (auto simp: listlen_defs not_int_def)
qed

theorem scm_length_classifies_witness:
  "\<exists>n. scm_length abc_heap (Ptr PTAG_CONS 0) = Some n \<and> n = 2"
proof -
  have "obj_ok abc_heap (Ptr PTAG_CONS 0)" "brk abc_heap < 2 ^ 60" by (simp_all add: abc_heap_def)
  from scm_length_classifies [OF abc_heap_ok this] obtain n
    where "scm_length abc_heap (Ptr PTAG_CONS 0) = Some n"
      and "\<forall>vs t. chain abc_heap (Ptr PTAG_CONS 0) vs t \<longrightarrow> \<not> CONSP t \<longrightarrow>
        (if t = SCM_NULL then n else SCM_LISTLEN_DOTTED n) = int (length vs)" by blast
  then show ?thesis using abc_lists(1) by fastforce
qed

text \<open>C18: \<^verbatim>\<open>append\<close> of proper lists and a last object returns a list of all their elements in
  pairs that are all new and distinct, one for each element, and that end in the last object itself. So the
  lists before the last object are copied, whatever the last object is, and every cell that existed
  before is unchanged.\<close>

theorem scm_p_append_correct:
  assumes "brk_ok h" "chain h args (ls @ [z]) SCM_NULL"
    "list_all2 (\<lambda>x vs. chain h x vs SCM_NULL) ls vss"
  shows "\<exists>r h' ps. scm_p_append h args = Some (Inr (r, h')) \<and> heap_le h h' \<and> brk_ok h' \<and>
    chain h' r (concat vss) z \<and> lseg h' r ps z \<and> map snd ps = concat vss \<and> distinct (map fst ps) \<and>
    (\<forall>a \<in> fst ` set ps. mem h a = None)"
proof -
  have "queue_inv h h SCM_NULL []" using assms(1) by (simp add: queue_inv_def)
  from append_loop_chain [OF this assms(2) _ assms(3)]
  obtain h' r ps where *: "append_loop h SCM_NULL RefOffHeap args = Some (Inr (r, h'))"
      "heap_le h h'" "brk_ok h'" "lseg h' r ps z" "map snd ps = concat vss" "distinct (map fst ps)"
      and new: "\<forall>a \<in> fst ` set ps. brk h \<le> a"
    by (auto simp: slot_def)
  have "\<forall>a \<in> fst ` set ps. mem h a = None"
    using new assms(1) unfolding brk_ok_def by (meson domIff not_le)
  moreover have "args \<noteq> SCM_NULL" using assms(2) by (cases ls) (auto dest: has_pair_CONSP)
  ultimately show ?thesis using * lseg_chain [OF *(4)] by (auto simp: scm_p_append_def)
qed

theorem scm_p_append_correct_witness:
  "\<exists>r h' ps. scm_p_append abc_heap (Ptr PTAG_CONS 2) = Some (Inr (r, h')) \<and> heap_le abc_heap h' \<and> brk_ok h' \<and>
    chain h' r [IntObj 1, IntObj 2] (Ptr PTAG_CONS 0) \<and> lseg h' r ps (Ptr PTAG_CONS 0) \<and>
    map snd ps = [IntObj 1, IntObj 2] \<and> distinct (map fst ps) \<and> (\<forall>a \<in> fst ` set ps. mem abc_heap a = None)"
proof -
  have "chain abc_heap (Ptr PTAG_CONS 2) ([Ptr PTAG_CONS 0] @ [Ptr PTAG_CONS 0]) SCM_NULL"
    "list_all2 (\<lambda>x vs. chain abc_heap x vs SCM_NULL) [Ptr PTAG_CONS 0] [[IntObj 1, IntObj 2]]"
    using abc_lists by (simp_all del: chain.simps)
  from scm_p_append_correct [OF heap_ok_brk [OF abc_heap_ok] this] show ?thesis
    by (simp only: concat.simps append_Nil2)
qed

text \<open>\<^verbatim>\<open>reverse\<close> of a list of a well-formed heap: a proper list gives a fresh list of its elements
  in reverse order with the original intact, a dotted list the error that names it, and a
  circular list no result (the loop has no cycle check).\<close>

theorem scm_p_reverse_cases:
  assumes "heap_ok h" "obj_ok h x"
  shows "case scm_p_reverse h x of
      None \<Rightarrow> circular h x
    | Some (Inl e) \<Rightarrow> e = ErrObj ''proper list required but got'' x \<and>
        (\<exists>vs t. chain h x vs t \<and> \<not> CONSP t \<and> t \<noteq> SCM_NULL)
    | Some (Inr (r, h')) \<Rightarrow> heap_le h h' \<and>
        (\<exists>vs. chain h x vs SCM_NULL \<and> chain h' r (rev vs) SCM_NULL)"
  using chain_or_circular [OF assms]
proof (elim disjE exE conjE)
  assume c: "circular h x"
  then have "reverse_loop h SCM_NULL x = None"
    using reverse_loop_circular [of h SCM_NULL x] heap_ok_brk [OF assms(1)]
    by (cases "reverse_loop h SCM_NULL x") auto
  then show ?thesis using c by (simp add: scm_p_reverse_def)
next
  fix vs t assume vs: "chain h x vs t" "\<not> CONSP t"
  obtain h' r where r: "reverse_loop h SCM_NULL x = Some (h', r, t)" "heap_le h h'"
      "chain h' r (rev vs) SCM_NULL"
    using reverse_loop_chain [OF vs heap_le_refl heap_ok_brk [OF assms(1)], of SCM_NULL "[]"] by auto
  show ?thesis
    using r vs by (cases "t = SCM_NULL") (auto simp: scm_p_reverse_def)
qed

theorem scm_p_reverse_cases_witness:
  "case scm_p_reverse abc_heap (Ptr PTAG_CONS 0) of
      None \<Rightarrow> circular abc_heap (Ptr PTAG_CONS 0)
    | Some (Inl e) \<Rightarrow> e = ErrObj ''proper list required but got'' (Ptr PTAG_CONS 0) \<and>
        (\<exists>vs t. chain abc_heap (Ptr PTAG_CONS 0) vs t \<and> \<not> CONSP t \<and> t \<noteq> SCM_NULL)
    | Some (Inr (r, h')) \<Rightarrow> heap_le abc_heap h' \<and>
        (\<exists>vs. chain abc_heap (Ptr PTAG_CONS 0) vs SCM_NULL \<and> chain h' r (rev vs) SCM_NULL)"
  by (rule scm_p_reverse_cases [OF abc_heap_ok]) (simp add: abc_heap_def)

text \<open>\<^verbatim>\<open>list-ref\<close> on a list that ends returns the element at the index, and the range error for
  an index that is negative or not below the length, dotted lists included.\<close>

theorem scm_p_list_ref_correct:
  assumes "chain h x vs t" "\<not> CONSP t"
  shows "scm_p_list_ref h x (IntObj k) =
    Some (if 0 \<le> k \<and> k < int (length vs) then Inr (vs ! nat k) else Inl (ErrObj ''out of range'' (IntObj k)))"
proof -
  have end_t: "(CDR h ^^ length vs) x = t" by (rule chain_cdr_power [OF assms(1)])
  show ?thesis
  proof (cases "0 \<le> k \<and> k < int (length vs)")
    case True
    then have n: "nat k < length vs" by linarith
    then show ?thesis
      using True chain_CAR_nth [OF assms(1) n] chain_CONSP [OF assms(1) n]
      by (auto simp: scm_p_list_ref_def list_tail_chain [OF assms])
  next
    case False
    then have "k < 0 \<or> int (length vs) < k \<or> nat k = length vs" by linarith
    then show ?thesis
      using False assms(2) end_t by (auto simp: scm_p_list_ref_def list_tail_chain [OF assms])
  qed
qed

theorem scm_p_list_ref_correct_witness:
  "scm_p_list_ref abc_heap (Ptr PTAG_CONS 0) (IntObj 1) = Some (Inr (IntObj 2))"
  using scm_p_list_ref_correct [OF abc_lists(1), of 1] by simp

text \<open>\<^verbatim>\<open>memq\<close> on a list that ends returns the first tail whose car is the object; without one,
  \<^verbatim>\<open>#f\<close> for a proper list and the error that names the list for a dotted one. The end of the list
  is not looked at when the object is found.\<close>

theorem scm_p_memq_correct:
  assumes "chain h x vs t" "\<not> CONSP t"
  shows "scm_p_memq h y x =
    Some (let n = length (takeWhile (\<lambda>v. y \<noteq> v) vs) in
      if y \<in> set vs then Inr ((CDR h ^^ n) x)
      else if t = SCM_NULL then Inr SCM_FALSE
      else Inl (ErrObj ''proper list required but got'' x))"
proof -
  have "length (takeWhile (\<lambda>v. y \<noteq> v) vs) < length vs \<longleftrightarrow> y \<in> set vs" by (induction vs) auto
  then show ?thesis by (simp add: scm_p_memq_def member_loop_chain [OF assms] Let_def)
qed

theorem scm_p_memq_correct_witness:
  "scm_p_memq abc_heap (IntObj 2) (Ptr PTAG_CONS 0) = Some (Inr (Ptr PTAG_CONS 1))"
  using scm_p_memq_correct [OF abc_lists(1), of "IntObj 2"] by (simp add: abc_heap_def)

text \<open>\<^verbatim>\<open>assq\<close> on a list that ends returns the first element pair whose car is the key. An element
  before it that is no pair is an error, one behind it is not looked at, and the end of the list
  matters only when no pair matches.\<close>

theorem scm_p_assq_correct:
  assumes "chain h x vs t" "\<not> CONSP t"
  shows "scm_p_assq h y x =
    Some (case dropWhile (\<lambda>v. CONSP v \<and> CAR h v \<noteq> y) vs of
        v # _ \<Rightarrow> if CONSP v then Inr v else Inl (ErrObj ''pair required but got'' v)
      | [] \<Rightarrow> if t = SCM_NULL then Inr SCM_FALSE
              else Inl (ErrObj ''proper list required but got'' x))"
  unfolding scm_p_assq_def by (rule assoc_loop_chain [OF assms])

theorem scm_p_assq_correct_witness:
  "scm_p_assq abc_heap (IntObj 1) (Ptr PTAG_CONS 2) = Some (Inr (Ptr PTAG_CONS 0))"
  using scm_p_assq_correct [OF abc_lists(2), of "IntObj 1"] by (simp add: abc_heap_def)

end
