(* ===== verification/GC.thy ===== *)
theory GC
  imports Store "HOL-Library.Multiset"
begin

text \<open>
  The heap allocator and the conservative mark and sweep collector of \<^verbatim>\<open>src/storage-gc.c\<close> with
  storage-compact.

  \<^item> \<open>gc_state\<close> holds the file's static variables and the cells of the heaps. An address is the
    value of a pointer without its tag bits, so a cell's address is a multiple of
    \<open>sizeof_ScmCell\<close>, and \<open>Ptr t a\<close> is the word \<open>a | t\<close>. The mark bit of a cell is kept apart from
    its content.
  \<^item> Code outside the file is a parameter: \<open>malloc\<close> is \<^verbatim>\<open>scm_malloc_aligned\<close>, \<open>stack\<close> the words of the
    registers and the stack that libgcroots passes to \<open>gc_mark_locations_n\<close>, \<open>vars\<close> the contents
    of the C variables that are protected, and \<open>symbol_hash\<close> the buckets of the symbol table.
  \<^item> The recursion of \<^verbatim>\<open>mark_obj\<close> is written with an explicit stack; \<open>mark_obj_cons\<close> and its
    neighbours recover the recursive equations of the source.
\<close>

section \<open>State\<close>

definition sizeof_ScmCell :: nat where [simp]: "sizeof_ScmCell = 16"

record gc_state =
  heap_size :: nat
  heap_alloc_threshold :: nat
  n_heaps_max :: nat
  heaps :: "nat list"
  heaps_lowest :: nat
  heaps_highest :: nat
  freelist :: obj
  protected_vars :: "nat option list"
  n_empty_protected_vars :: nat
  vector_elements :: "obj list"
  cells :: "nat \<Rightarrow> cell"
  marked :: "nat \<Rightarrow> bool"
  finalized :: "cell list"

definition heap_cells :: "gc_state \<Rightarrow> nat \<Rightarrow> nat list" where
  "heap_cells st base = map (\<lambda>i. base + sizeof_ScmCell * i) [0..<heap_size st]"

definition cell_addrs :: "gc_state \<Rightarrow> nat list" where
  "cell_addrs st = concat (map (heap_cells st) (heaps st))"

fun FREECELL_NEXT :: "cell \<Rightarrow> obj" where
  "FREECELL_NEXT (FreeCell next) = next"
| "FREECELL_NEXT _ = SCM_INVALID"

definition RECLAIM_CELL :: "gc_state \<Rightarrow> nat \<Rightarrow> obj \<Rightarrow> obj \<times> gc_state" where
  "RECLAIM_CELL st a next = (Ptr PTAG_MISC a, st\<lparr>cells := (cells st)(a := FreeCell next)\<rparr>)"

section \<open>Marking\<close>

definition MARK :: "gc_state \<Rightarrow> nat \<Rightarrow> gc_state" where
  "MARK st a = st\<lparr>marked := (marked st)(a := True)\<rparr>"

text \<open>The objects that a cell refers to, as the switch of \<^verbatim>\<open>mark_obj\<close> visits them.\<close>

fun mark_children :: "ptag \<Rightarrow> cell \<Rightarrow> obj list" where
  "mark_children PTAG_CONS (PairCell x y) = [x, y]"
| "mark_children PTAG_CLOSURE (PairCell x y) = [x, y]"
| "mark_children PTAG_MISC (SymbolCell v _) = [v]"
| "mark_children PTAG_MISC (SubpatCell x _) = [x]"
| "mark_children PTAG_MISC (HmacroCell x _) = [x]"
| "mark_children PTAG_MISC (FarsymbolCell x _) = [x]"
| "mark_children PTAG_MISC (VectorCell xs _) = xs"
| "mark_children PTAG_MISC (ValuePacketCell v) = [v]"
| "mark_children _ _ = []"

lemma heap_cells_update [simp]:
  "heap_cells (st\<lparr>marked := m\<rparr>) = heap_cells st" "heap_cells (st\<lparr>cells := c\<rparr>) = heap_cells st"
  "heap_cells (st\<lparr>freelist := f\<rparr>) = heap_cells st" "heap_cells (st\<lparr>finalized := z\<rparr>) = heap_cells st"
  "heap_cells (st\<lparr>heaps := hs\<rparr>) = heap_cells st" "heap_cells (st\<lparr>heaps_highest := n\<rparr>) = heap_cells st"
  "heap_cells (st\<lparr>heaps_lowest := n\<rparr>) = heap_cells st"
  "heap_cells (st\<lparr>vector_elements := v\<rparr>) = heap_cells st"
  by (rule ext; simp add: heap_cells_def)+

lemma cell_addrs_update [simp]:
  "cell_addrs (st\<lparr>marked := m\<rparr>) = cell_addrs st" "cell_addrs (st\<lparr>cells := c\<rparr>) = cell_addrs st"
  "cell_addrs (st\<lparr>freelist := f\<rparr>) = cell_addrs st" "cell_addrs (st\<lparr>finalized := z\<rparr>) = cell_addrs st"
  "cell_addrs (st\<lparr>heaps_highest := n\<rparr>) = cell_addrs st" "cell_addrs (st\<lparr>heaps_lowest := n\<rparr>) = cell_addrs st"
  "cell_addrs (st\<lparr>vector_elements := v\<rparr>) = cell_addrs st"
  by (simp_all add: cell_addrs_def)

lemma addrs_MARK [simp]: "cell_addrs (MARK st a) = cell_addrs st" "cells (MARK st a) = cells st"
  "marked (MARK st a) = (marked st)(a := True)"
  by (simp_all add: MARK_def)

definition unmarked_cells :: "gc_state \<Rightarrow> nat set" where
  "unmarked_cells st = {a \<in> set (cell_addrs st). \<not> marked st a}"

lemma unmarked_MARK:
  "a \<in> set (cell_addrs st) \<Longrightarrow> \<not> marked st a \<Longrightarrow>
     card (unmarked_cells (MARK st a)) < card (unmarked_cells st)"
  by (rule psubset_card_mono) (auto simp: unmarked_cells_def)

text \<open>Marking a pointer that is outside the heaps is undefined in the source; the model skips it.\<close>

function mark_objs :: "gc_state \<Rightarrow> obj list \<Rightarrow> gc_state" where
  "mark_objs st [] = st"
| "mark_objs st (x # xs) =
     (case x of
        Ptr t a \<Rightarrow>
          if marked st a \<or> a \<notin> set (cell_addrs st) then mark_objs st xs
          else mark_objs (MARK st a) (mark_children t (cells st a) @ xs)
      | _ \<Rightarrow> mark_objs st xs)"
  by pat_completeness auto

termination
  by (relation "measures [\<lambda>(st, xs). card (unmarked_cells st), \<lambda>(st, xs). length xs]")
    (auto intro: unmarked_MARK)

definition mark_obj :: "gc_state \<Rightarrow> obj \<Rightarrow> gc_state" where
  "mark_obj st x = mark_objs st [x]"

fun within_heapp :: "gc_state \<Rightarrow> obj \<Rightarrow> bool" where
  "within_heapp st (Ptr t a) =
     (if a mod sizeof_ScmCell \<noteq> 0 \<or> a < heaps_lowest st \<or> heaps_highest st \<le> a then False
      else case find (\<lambda>b. b \<le> a \<and> a < b + sizeof_ScmCell * heap_size st) (heaps st) of
             Some b \<Rightarrow> TAG_CONSISTENTP t (cells st a)
           | None \<Rightarrow> False)"
| "within_heapp st _ = False"

definition gc_mark_locations_n :: "gc_state \<Rightarrow> obj list \<Rightarrow> gc_state" where
  "gc_mark_locations_n st ws =
     fold (\<lambda>w st. if within_heapp st w then mark_obj st w else st) ws st"

definition gc_mark_definite_locations_n :: "gc_state \<Rightarrow> obj list \<Rightarrow> gc_state" where
  "gc_mark_definite_locations_n st ws = fold (\<lambda>w st. mark_obj st w) ws st"

definition gc_mark_protected_var :: "gc_state \<Rightarrow> (nat \<Rightarrow> obj) \<Rightarrow> gc_state" where
  "gc_mark_protected_var st vars =
     fold (\<lambda>slot st. case slot of Some var \<Rightarrow> mark_obj st (vars var) | None \<Rightarrow> st)
       (protected_vars st) st"

definition gc_mark_global_vars :: "gc_state \<Rightarrow> (nat \<Rightarrow> obj) \<Rightarrow> obj list \<Rightarrow> gc_state" where
  "gc_mark_global_vars st vars symbol_hash =
     (let st = gc_mark_protected_var st vars;
          st = gc_mark_definite_locations_n st (vector_elements st)
      in gc_mark_definite_locations_n st symbol_hash)"

definition gc_mark :: "gc_state \<Rightarrow> obj list \<Rightarrow> (nat \<Rightarrow> obj) \<Rightarrow> obj list \<Rightarrow> gc_state" where
  "gc_mark st stack vars symbol_hash =
     gc_mark_global_vars (gc_mark_locations_n st stack) vars symbol_hash"

section \<open>Sweeping and growing\<close>

text \<open>\<open>finalized\<close> logs the cells whose resources \<^verbatim>\<open>free_cell\<close> released.\<close>

fun needs_fin :: "cell \<Rightarrow> bool" where
  "needs_fin (SymbolCell _ _) = True"
| "needs_fin (StringCell _ _ _) = True"
| "needs_fin (VectorCell _ _) = True"
| "needs_fin (BytevectorCell _ _) = True"
| "needs_fin (PortCell _ _) = True"
| "needs_fin (ContinuationCell _ _) = True"
| "needs_fin _ = False"

definition free_cell :: "gc_state \<Rightarrow> nat \<Rightarrow> gc_state" where
  "free_cell st a =
     (if needs_fin (cells st a) then st\<lparr>finalized := finalized st @ [cells st a]\<rparr> else st)"

definition sweep_cell :: "nat \<Rightarrow> gc_state \<times> obj \<times> nat \<Rightarrow> gc_state \<times> obj \<times> nat" where
  "sweep_cell a = (\<lambda>(st, new_freelist, n_collected).
     if marked st a then (st\<lparr>marked := (marked st)(a := False)\<rparr>, new_freelist, n_collected)
     else if \<not> freecellp (cells st a) then
       (let st = free_cell st a; (new_freelist, st) = RECLAIM_CELL st a new_freelist
        in (st, new_freelist, Suc n_collected))
     else (st, new_freelist, n_collected))"

definition sweep_heap :: "nat \<Rightarrow> gc_state \<times> obj \<times> nat \<Rightarrow> gc_state \<times> obj \<times> nat" where
  "sweep_heap base = (\<lambda>(st, new_freelist, sum_collected).
     let (st', new_freelist', n_collected) = fold sweep_cell (heap_cells st base) (st, new_freelist, 0)
     in (st', new_freelist', sum_collected + n_collected))"

definition gc_sweep :: "gc_state \<Rightarrow> gc_state \<times> nat" where
  "gc_sweep st =
     (let (st', new_freelist, sum_collected) = fold sweep_heap (heaps st) (st, freelist st, 0)
      in (st'\<lparr>freelist := new_freelist\<rparr>, sum_collected))"

definition link_cell :: "nat \<Rightarrow> gc_state \<times> obj \<Rightarrow> gc_state \<times> obj" where
  "link_cell a = (\<lambda>(st, next). let (next', st') = RECLAIM_CELL st a next in (st', next'))"

definition add_heap :: "(gc_state \<Rightarrow> nat) \<Rightarrow> gc_state \<Rightarrow> gc_state res" where
  "add_heap malloc st =
     (if n_heaps_max st \<le> length (heaps st) then Inl (Err ''heap exhausted'')
      else let heap = malloc st; top = heap + sizeof_ScmCell * heap_size st;
        st = st\<lparr>heaps := heaps st @ [heap]\<rparr>;
        st = (if heaps_highest st < top then st\<lparr>heaps_highest := top\<rparr> else st);
        st = (if heap < heaps_lowest st then st\<lparr>heaps_lowest := heap\<rparr> else st);
        (st', next) = fold link_cell (rev (heap_cells st heap)) (st, freelist st)
      in Inr (st'\<lparr>freelist := next\<rparr>))"

definition gc_mark_and_sweep ::
    "(gc_state \<Rightarrow> nat) \<Rightarrow> gc_state \<Rightarrow> obj list \<Rightarrow> (nat \<Rightarrow> obj) \<Rightarrow> obj list \<Rightarrow> gc_state res" where
  "gc_mark_and_sweep malloc st stack vars symbol_hash =
     (let (st', n_collected) = gc_sweep (gc_mark st stack vars symbol_hash)
      in if n_collected < heap_alloc_threshold st' then add_heap malloc st' else Inr st')"

text \<open>The assertion that the free list is not empty fails when the collection freed nothing and the
  threshold is 0.\<close>

definition scm_alloc_cell ::
    "(gc_state \<Rightarrow> nat) \<Rightarrow> gc_state \<Rightarrow> obj list \<Rightarrow> (nat \<Rightarrow> obj) \<Rightarrow> obj list \<Rightarrow> (nat \<times> gc_state) res" where
  "scm_alloc_cell malloc st stack vars symbol_hash =
     (case (if freelist st = SCM_NULL then gc_mark_and_sweep malloc st stack vars symbol_hash
            else Inr st) of
        Inl e \<Rightarrow> Inl e
      | Inr st' \<Rightarrow>
          (case freelist st' of
             Ptr _ a \<Rightarrow> Inr (a, st'\<lparr>freelist := FREECELL_NEXT (cells st' a)\<rparr>)
           | _ \<Rightarrow> Inl (Err ''SCM_FREECELLP(l_freelist)'')))"

definition scm_alloc_vector_cell ::
    "(gc_state \<Rightarrow> nat) \<Rightarrow> gc_state \<Rightarrow> obj list \<Rightarrow> (nat \<Rightarrow> obj) \<Rightarrow> obj list \<Rightarrow> obj list \<Rightarrow>
     (nat \<times> gc_state) res" where
  "scm_alloc_vector_cell malloc st stack vars symbol_hash elements =
     (case scm_alloc_cell malloc (st\<lparr>vector_elements := elements\<rparr>) stack vars symbol_hash of
        Inl e \<Rightarrow> Inl e
      | Inr (a, st') \<Rightarrow> Inr (a, st'\<lparr>vector_elements := []\<rparr>))"

text \<open>An allocator of \<^verbatim>\<open>storage.c\<close>: a cell from the free list, initialised with its content. The
  content's objects are on the stack.\<close>

definition scm_new_cell ::
    "(gc_state \<Rightarrow> nat) \<Rightarrow> gc_state \<Rightarrow> obj list \<Rightarrow> (nat \<Rightarrow> obj) \<Rightarrow> obj list \<Rightarrow> cell \<Rightarrow> (nat \<times> gc_state) res" where
  "scm_new_cell malloc st stack vars symbol_hash c =
     (case scm_alloc_cell malloc st stack vars symbol_hash of
        Inl e \<Rightarrow> Inl e
      | Inr (a, st') \<Rightarrow> Inr (a, st'\<lparr>cells := (cells st')(a := c)\<rparr>))"

fun add_heaps :: "(gc_state \<Rightarrow> nat) \<Rightarrow> nat \<Rightarrow> gc_state \<Rightarrow> gc_state res" where
  "add_heaps malloc 0 st = Inr st"
| "add_heaps malloc (Suc n) st =
     (case add_heap malloc st of Inl e \<Rightarrow> Inl e | Inr st' \<Rightarrow> add_heaps malloc n st')"

definition scm_prealloc_heaps :: "(gc_state \<Rightarrow> nat) \<Rightarrow> gc_state \<Rightarrow> nat \<Rightarrow> gc_state res" where
  "scm_prealloc_heaps malloc st n =
     (let n = (if n = 0 then length (heaps st) + 1 else n)
      in if n_heaps_max st < n then Inl (Err ''heap number exceeded maxmum number'')
         else add_heaps malloc (n - length (heaps st)) st)"

text \<open>\<open>uintptr_max\<close> is the initial lower bound of the enclosure.\<close>

definition uintptr_max :: nat where "uintptr_max = 2 ^ 64 - 1"

definition initialize_heap ::
    "(gc_state \<Rightarrow> nat) \<Rightarrow> nat \<Rightarrow> nat \<Rightarrow> nat \<Rightarrow> nat \<Rightarrow> gc_state res" where
  "initialize_heap malloc conf_heap_size conf_threshold conf_n_heaps_max conf_n_heaps_init =
     (let st = \<lparr>heap_size = conf_heap_size, heap_alloc_threshold = conf_threshold,
        n_heaps_max = conf_n_heaps_max, heaps = [], heaps_lowest = uintptr_max, heaps_highest = 0,
        freelist = SCM_NULL, protected_vars = [], n_empty_protected_vars = 0, vector_elements = [],
        cells = (\<lambda>_. FreeCell SCM_NULL), marked = (\<lambda>_. False), finalized = []\<rparr>
      in if SCM_INT_MAX < int ((conf_n_heaps_max * conf_heap_size) mod 2 ^ 64) \<or>
            SCM_INT_MAX < int ((conf_n_heaps_init * conf_heap_size) mod 2 ^ 64)
         then Inl (Err ''too large heap size specified'')
         else scm_prealloc_heaps malloc st conf_n_heaps_init)"

section \<open>Protected variables\<close>

fun locate_protected_var :: "nat option list \<Rightarrow> nat option \<Rightarrow> nat option" where
  "locate_protected_var [] var = None"
| "locate_protected_var (slot # slots) var =
     (if slot = var then Some 0 else map_option Suc (locate_protected_var slots var))"

definition scm_gc_protect :: "gc_state \<Rightarrow> nat \<Rightarrow> gc_state" where
  "scm_gc_protect st var =
     (if n_empty_protected_vars st \<noteq> 0 then
        (case locate_protected_var (protected_vars st) None of
           Some i \<Rightarrow> st\<lparr>protected_vars := (protected_vars st)[i := Some var],
                       n_empty_protected_vars := n_empty_protected_vars st - 1\<rparr>
         | None \<Rightarrow> st)
      else st\<lparr>protected_vars := protected_vars st @ [Some var]\<rparr>)"

definition scm_gc_unprotect :: "gc_state \<Rightarrow> nat \<Rightarrow> gc_state" where
  "scm_gc_unprotect st var =
     (case locate_protected_var (protected_vars st) (Some var) of
        Some i \<Rightarrow> st\<lparr>protected_vars := (protected_vars st)[i := None],
                    n_empty_protected_vars := Suc (n_empty_protected_vars st)\<rparr>
      | None \<Rightarrow> st)"

text \<open>\<open>in_context\<close> is \<open>scm_gc_protected_contextp()\<close>, \<open>on_stack\<close> the answer of libgcroots for the
  object.\<close>

definition scm_gc_protectedp ::
    "gc_state \<Rightarrow> bool \<Rightarrow> bool \<Rightarrow> obj list \<Rightarrow> (nat \<Rightarrow> obj) \<Rightarrow> obj list \<Rightarrow> obj \<Rightarrow> bool \<times> gc_state" where
  "scm_gc_protectedp st in_context on_stack stack vars symbol_hash x =
     (case x of
        Ptr t a \<Rightarrow>
          if on_stack then (True, st)
          else if \<exists>slot \<in> set (protected_vars st). \<exists>var. slot = Some var \<and> vars var = x then (True, st)
          else let st' = (if in_context then gc_mark st stack vars symbol_hash
                          else gc_mark_global_vars st vars symbol_hash);
                   st'' = fst (gc_sweep st')
               in (\<not> freecellp (cells st'' a), st'')
      | _ \<Rightarrow> (True, st))"

definition finalize_heap :: "gc_state \<Rightarrow> gc_state" where
  "finalize_heap st = (fold (\<lambda>a st. free_cell st a) (cell_addrs st) st)\<lparr>heaps := []\<rparr>"

section \<open>Reachability\<close>

text \<open>\<open>content\<close> is what the program can see: the cells that are in use.\<close>

definition content :: "gc_state \<Rightarrow> nat \<Rightarrow> cell option" where
  "content st a = (if a \<in> set (cell_addrs st) \<and> \<not> freecellp (cells st a) then Some (cells st a) else None)"

fun word_ok :: "gc_state \<Rightarrow> obj \<Rightarrow> bool" where
  "word_ok st (Ptr t a) \<longleftrightarrow> a \<in> set (cell_addrs st) \<and> TAG_CONSISTENTP t (cells st a)"
| "word_ok st _ = True"

lemma ptr_ok_word_ok: "ptr_ok (content st) x \<Longrightarrow> word_ok st x"
  by (cases x) (auto simp: content_def split: if_splits)

lemma mark_children_objs: "TAG_CONSISTENTP t c \<Longrightarrow> mark_children t c = cell_objs c"
  by (cases t; cases c) (auto simp: TAG_CONSISTENTP_def)

section \<open>Marking visits exactly the reachable cells\<close>

lemma mark_objs_only_marks: "\<exists>m. mark_objs st xs = st\<lparr>marked := m\<rparr>"
proof (induction st xs rule: mark_objs.induct)
  case (1 st)
  then show ?case by (intro exI [of _ "marked st"]) simp
next
  case (2 st x xs)
  then show ?case by (cases x) (auto simp: MARK_def)
qed

lemma mark_objs_frame [simp]:
  "cell_addrs (mark_objs st xs) = cell_addrs st" "cells (mark_objs st xs) = cells st"
  using mark_objs_only_marks [of st xs] by auto

lemma mark_objs_append: "mark_objs st (xs @ ys) = mark_objs (mark_objs st xs) ys"
  by (induction st xs rule: mark_objs.induct) (auto split: obj.split)

lemma mark_objs_Cons: "mark_objs st (x # xs) = mark_objs (mark_obj st x) xs"
  using mark_objs_append [of st "[x]" xs] by (simp add: mark_obj_def)

lemma fold_mark: "fold (\<lambda>w st. mark_obj st w) ws st = mark_objs st ws"
proof (induction ws arbitrary: st)
  case (Cons w ws)
  then show ?case using mark_objs_append [of st "[w]" ws] by (simp add: mark_obj_def)
qed simp

text \<open>The recursive equations of \<^verbatim>\<open>mark_obj\<close> in the source.\<close>

lemma mark_obj_cons:
  assumes "cells st a = PairCell x y" "t \<noteq> PTAG_MISC" "a \<in> set (cell_addrs st)"
  shows "mark_obj st (Ptr t a) =
    (if marked st a then st else mark_obj (mark_obj (MARK st a) x) y)"
  using assms mark_objs_append [of "MARK st a" "[x]" "[y]"]
  by (cases t) (auto simp: mark_obj_def)

lemma mark_obj_vector:
  assumes "cells st a = VectorCell xs m" "a \<in> set (cell_addrs st)"
  shows "mark_obj st (Ptr PTAG_MISC a) =
    (if marked st a then st else fold (\<lambda>w st. mark_obj st w) xs (MARK st a))"
proof -
  have "mark_obj st (Ptr PTAG_MISC a) = (if marked st a then st else mark_objs (MARK st a) xs)"
    using assms by (simp add: mark_obj_def)
  then show ?thesis by (simp only: fold_mark)
qed

lemma mark_obj_symbol:
  assumes "cells st a = SymbolCell v n" "a \<in> set (cell_addrs st)"
  shows "mark_obj st (Ptr PTAG_MISC a) = (if marked st a then st else mark_obj (MARK st a) v)"
  using assms by (auto simp: mark_obj_def)

lemma mark_objs_skip:
  "(\<And>t a. x = Ptr t a \<Longrightarrow> marked st a \<or> a \<notin> set (cell_addrs st)) \<Longrightarrow>
     mark_objs st (x # xs) = mark_objs st xs"
  by (cases x) auto

lemma mark_objs_mark:
  "a \<in> set (cell_addrs st) \<Longrightarrow> \<not> marked st a \<Longrightarrow>
     mark_objs st (Ptr t a # xs) = mark_objs (MARK st a) (mark_children t (cells st a) @ xs)"
  by simp

declare mark_objs.simps(2) [simp del]

lemma mark_objs_induct [case_names Nil Skip Mark]:
  assumes "\<And>st. P st []"
    and "\<And>st x xs. (\<And>t a. x = Ptr t a \<Longrightarrow> marked st a \<or> a \<notin> set (cell_addrs st)) \<Longrightarrow>
      P st xs \<Longrightarrow> P st (x # xs)"
    and "\<And>st t a xs. a \<in> set (cell_addrs st) \<Longrightarrow> \<not> marked st a \<Longrightarrow>
      P (MARK st a) (mark_children t (cells st a) @ xs) \<Longrightarrow> P st (Ptr t a # xs)"
  shows "P st xs"
proof (induction st xs rule: mark_objs.induct)
  case (2 st x xs)
  show ?case
  proof (cases "\<exists>t a. x = Ptr t a \<and> \<not> (marked st a \<or> a \<notin> set (cell_addrs st))")
    case True
    then obtain t a where x: "x = Ptr t a" "\<not> (marked st a \<or> a \<notin> set (cell_addrs st))" by blast
    show ?thesis unfolding x(1) using x(2) "2.IH"(11) [OF x] by (intro assms(3)) auto
  next
    case False
    have "P st xs"
    proof (cases x)
      case (Ptr t a)
      then show ?thesis using False "2.IH"(10) [OF Ptr] by blast
    qed (use "2.IH" in auto)
    then show ?thesis using False by (intro assms(2)) auto
  qed
qed (rule assms(1))

lemma word_ok_MARK [simp]: "word_ok (MARK st a) x = word_ok st x"
  by (cases x) auto

definition memory_ok :: "gc_state \<Rightarrow> bool" where
  "memory_ok st \<longleftrightarrow> (\<forall>a \<in> set (cell_addrs st). \<forall>x \<in> set (cell_objs (cells st a)). word_ok st x)"

lemma memory_ok_MARK [simp]: "memory_ok (MARK st a) = memory_ok st"
  by (simp add: memory_ok_def)

text \<open>\<open>grey st xs\<close>: what marked cells refer to is marked or waits in \<open>xs\<close>.\<close>

definition grey :: "gc_state \<Rightarrow> obj list \<Rightarrow> bool" where
  "grey st xs \<longleftrightarrow> (\<forall>a t b. marked st a \<longrightarrow> Ptr t b \<in> set (cell_objs (cells st a)) \<longrightarrow>
     marked st b \<or> (\<exists>t. Ptr t b \<in> set xs))"

lemma grey_skip: "grey st (x # xs) \<Longrightarrow> (\<And>t a. x = Ptr t a \<Longrightarrow> marked st a) \<Longrightarrow> grey st xs"
  unfolding grey_def by (metis set_ConsD)

lemma grey_mark:
  assumes "grey st (Ptr t a # xs)" "set (cell_objs (cells st a)) \<subseteq> set ys"
  shows "grey (MARK st a) (ys @ xs)"
  unfolding grey_def
proof (intro allI impI)
  fix b u c assume b: "marked (MARK st a) b" "Ptr u c \<in> set (cell_objs (cells (MARK st a) b))"
  show "marked (MARK st a) c \<or> (\<exists>t. Ptr t c \<in> set (ys @ xs))"
  proof (cases "b = a")
    case True
    then show ?thesis using b(2) assms(2) by auto
  next
    case False
    then have "marked st c \<or> (\<exists>v. Ptr v c \<in> set (Ptr t a # xs))"
      using assms(1) b unfolding grey_def by auto
    then show ?thesis by auto
  qed
qed

lemma marks_grow: "marked st b \<Longrightarrow> marked (mark_objs st xs) b"
proof (induction st xs rule: mark_objs_induct)
  case (Skip st x xs)
  then show ?case by (simp add: mark_objs_skip [OF Skip.hyps])
next
  case (Mark st t a xs)
  then show ?case by (simp add: mark_objs_mark)
qed simp

lemma mark_objs_complete:
  assumes "\<forall>x \<in> set xs. word_ok st x" "memory_ok st" "grey st xs"
  shows "grey (mark_objs st xs) [] \<and> (\<forall>t a. Ptr t a \<in> set xs \<longrightarrow> marked (mark_objs st xs) a)"
  using assms
proof (induction st xs rule: mark_objs_induct)
  case (Skip st x xs)
  have m: "marked st a" if "x = Ptr t a" for t a using Skip.hyps [OF that] Skip.prems(1) that by auto
  then have "grey st xs" using grey_skip [OF Skip.prems(3)] by blast
  then show ?case
    using Skip.IH Skip.prems(1,2) m marks_grow [of st _ xs]
    by (auto simp: mark_objs_skip [OF Skip.hyps])
next
  case (Mark st t a xs)
  let ?ys = "mark_children t (cells st a)"
  have ch: "?ys = cell_objs (cells st a)" using Mark.prems(1) by (intro mark_children_objs) auto
  have "\<forall>x \<in> set ?ys. word_ok st x" using Mark.prems(2) Mark.hyps(1) ch by (simp add: memory_ok_def)
  moreover have "grey (MARK st a) (?ys @ xs)" using Mark.prems(3) ch by (intro grey_mark) auto
  ultimately have "grey (mark_objs (MARK st a) (?ys @ xs)) [] \<and>
      (\<forall>t b. Ptr t b \<in> set (?ys @ xs) \<longrightarrow> marked (mark_objs (MARK st a) (?ys @ xs)) b)"
    using Mark.IH Mark.prems(1,2) by auto
  moreover have "marked (mark_objs (MARK st a) (?ys @ xs)) a" by (intro marks_grow) simp
  ultimately show ?case
    by (auto simp: mark_objs_mark [OF Mark.hyps])
qed simp

lemma mark_objs_sound:
  assumes "\<forall>x \<in> set xs. word_ok st x" "memory_ok st"
    and "\<forall>t a. Ptr t a \<in> set xs \<longrightarrow> P a" "\<forall>a. marked st a \<longrightarrow> P a"
    and "\<forall>a t c. P a \<longrightarrow> Ptr t c \<in> set (cell_objs (cells st a)) \<longrightarrow> P c"
  shows "marked (mark_objs st xs) b \<longrightarrow> P b"
  using assms
proof (induction st xs rule: mark_objs_induct)
  case (Skip st x xs)
  then show ?case by (simp add: mark_objs_skip [OF Skip.hyps])
next
  case (Mark st t a xs)
  let ?ys = "mark_children t (cells st a)"
  have ch: "?ys = cell_objs (cells st a)" using Mark.prems(1) by (intro mark_children_objs) auto
  have P: "P a" using Mark.prems(3) by auto
  have "\<forall>x \<in> set ?ys. word_ok st x" using Mark.prems(2) Mark.hyps(1) ch by (simp add: memory_ok_def)
  then have "\<forall>x \<in> set (?ys @ xs). word_ok (MARK st a) x" using Mark.prems(1) by auto
  moreover have "\<forall>u c. Ptr u c \<in> set (?ys @ xs) \<longrightarrow> P c"
  proof (intro allI impI)
    fix u c assume "Ptr u c \<in> set (?ys @ xs)"
    then consider "Ptr u c \<in> set (cell_objs (cells st a))" | "Ptr u c \<in> set (Ptr t a # xs)"
      using ch by auto
    then show "P c" using Mark.prems(3,5) P by cases blast+
  qed
  moreover have "\<forall>c. marked (MARK st a) c \<longrightarrow> P c" using Mark.prems(4) P by auto
  ultimately have "marked (mark_objs (MARK st a) (?ys @ xs)) b \<longrightarrow> P b"
    using Mark.prems(2,5) by (intro Mark.IH) simp_all
  then show ?case by (simp only: mark_objs_mark [OF Mark.hyps])
qed simp

text \<open>All marking loops are one call of \<open>mark_objs\<close>.\<close>

definition gc_global_roots :: "gc_state \<Rightarrow> (nat \<Rightarrow> obj) \<Rightarrow> obj list \<Rightarrow> obj list" where
  "gc_global_roots st vars symbol_hash =
     map vars (List.map_filter id (protected_vars st)) @ vector_elements st @ symbol_hash"

definition gc_roots :: "gc_state \<Rightarrow> obj list \<Rightarrow> (nat \<Rightarrow> obj) \<Rightarrow> obj list \<Rightarrow> obj list" where
  "gc_roots st stack vars symbol_hash =
     filter (within_heapp st) stack @ gc_global_roots st vars symbol_hash"

lemma within_heapp_marked [simp]: "within_heapp (st\<lparr>marked := m\<rparr>) w = within_heapp st w"
  by (cases w) (auto split: option.splits)

lemma mark_objs_fields [simp]:
  "protected_vars (mark_objs st xs) = protected_vars st"
  "vector_elements (mark_objs st xs) = vector_elements st"
  "heaps (mark_objs st xs) = heaps st" "freelist (mark_objs st xs) = freelist st"
  "heap_size (mark_objs st xs) = heap_size st"
  "heap_alloc_threshold (mark_objs st xs) = heap_alloc_threshold st"
  "n_heaps_max (mark_objs st xs) = n_heaps_max st" "finalized (mark_objs st xs) = finalized st"
  "heaps_lowest (mark_objs st xs) = heaps_lowest st" "heaps_highest (mark_objs st xs) = heaps_highest st"
  "n_empty_protected_vars (mark_objs st xs) = n_empty_protected_vars st"
  "within_heapp (mark_objs st xs) w = within_heapp st w"
  using mark_objs_only_marks [of st xs] by auto

lemma mark_locations_eq: "gc_mark_locations_n st ws = mark_objs st (filter (within_heapp st) ws)"
proof -
  have "fold (\<lambda>w st. if within_heapp st w then mark_obj st w else st) ws (mark_objs st xs) =
      mark_objs st (xs @ filter (within_heapp st) ws)" for xs
  proof (induction ws arbitrary: xs)
    case (Cons w ws)
    then show ?case using Cons.IH [of "xs @ [w]"] by (simp add: mark_obj_def mark_objs_append)
  qed simp
  from this [of "[]"] show ?thesis by (simp add: gc_mark_locations_n_def)
qed

lemma mark_protected_eq:
  "gc_mark_protected_var st vars = mark_objs st (map vars (List.map_filter id (protected_vars st)))"
proof -
  have "fold (\<lambda>slot st. case slot of Some var \<Rightarrow> mark_obj st (vars var) | None \<Rightarrow> st) slots st =
      mark_objs st (map vars (List.map_filter id slots))" for slots
  proof (induction slots arbitrary: st)
    case (Cons slot slots)
    then show ?case
      by (cases slot) (simp_all add: map_filter_simps mark_objs_Cons)
  qed (simp add: map_filter_simps)
  then show ?thesis by (simp add: gc_mark_protected_var_def)
qed

lemma mark_globals_eq:
  "gc_mark_global_vars st vars symbol_hash = mark_objs st (gc_global_roots st vars symbol_hash)"
  by (simp add: gc_mark_global_vars_def gc_global_roots_def gc_mark_definite_locations_n_def
      mark_protected_eq mark_objs_append Let_def fold_mark)

lemma gc_mark_eq: "gc_mark st stack vars symbol_hash = mark_objs st (gc_roots st stack vars symbol_hash)"
  by (simp add: gc_mark_def gc_roots_def mark_locations_eq mark_globals_eq mark_objs_append
      gc_global_roots_def)

text \<open>From no marks, marking reaches a cell in use exactly when the program can reach it.\<close>

lemma mark_objs_exact:
  assumes "\<forall>x \<in> set xs. word_ok st x" "contents_ok (content st)" "\<forall>a. \<not> marked st a"
  shows "content st a \<noteq> None \<Longrightarrow> marked (mark_objs st xs) a \<longleftrightarrow> reach (content st) (set xs) a"
proof -
  have mem: "memory_ok st"
    unfolding memory_ok_def
  proof (intro ballI)
    fix a x assume a: "a \<in> set (cell_addrs st)" "x \<in> set (cell_objs (cells st a))"
    then have "\<not> freecellp (cells st a)" by (cases "cells st a") auto
    then have "content st a = Some (cells st a)" using a by (simp add: content_def)
    then show "word_ok st x"
      using a assms(2) unfolding contents_ok_def by (intro ptr_ok_word_ok) blast
  qed
  have grey: "grey st xs" using assms(3) by (simp add: grey_def)
  note complete = mark_objs_complete [OF assms(1) mem grey]
  let ?P = "\<lambda>b. b \<in> set (cell_addrs st) \<and> (content st b \<noteq> None \<longrightarrow> reach (content st) (set xs) b)"
  have roots: "?P b" if "Ptr t b \<in> set xs" for t b
    using that assms(1) by (auto intro: reach.root)
  have step: "?P d" if b: "?P b" "Ptr t d \<in> set (cell_objs (cells st b))" for b t d
  proof -
    have "\<not> freecellp (cells st b)" using b(2) by (cases "cells st b") auto
    then have cb: "content st b = Some (cells st b)" using b(1) by (simp add: content_def)
    then have "ptr_ok (content st) (Ptr t d)" using assms(2) b(2) unfolding contents_ok_def by blast
    then obtain e where e: "content st d = Some e" by auto
    moreover have "d \<in> set (cell_addrs st)" using e by (auto simp: content_def split: if_splits)
    ultimately show ?thesis using reach.child [OF _ cb b(2) e] b(1) cb by auto
  qed
  assume c: "content st a \<noteq> None"
  show ?thesis
  proof
    assume m: "marked (mark_objs st xs) a"
    have "marked (mark_objs st xs) a \<longrightarrow> ?P a"
      using assms(3) roots step by (intro mark_objs_sound [OF assms(1) mem]) blast+
    then show "reach (content st) (set xs) a" using m c by blast
  next
    assume "reach (content st) (set xs) a"
    then show "marked (mark_objs st xs) a"
    proof (induction rule: reach.induct)
      case (root t a c)
      then show ?case using complete by blast
    next
      case (child a c t b d)
      then have "Ptr t b \<in> set (cell_objs (cells st a))" by (auto simp: content_def split: if_splits)
      then show ?case using complete child.IH unfolding grey_def by (metis mark_objs_frame(2) empty_iff empty_set)
    qed
  qed
qed

section \<open>Sweeping\<close>

text \<open>\<open>fchain c x as\<close>: the free list from \<open>x\<close> runs through the cells \<open>as\<close>.\<close>

fun fchain :: "(nat \<Rightarrow> cell) \<Rightarrow> obj \<Rightarrow> nat list \<Rightarrow> bool" where
  "fchain c x [] \<longleftrightarrow> x = SCM_NULL"
| "fchain c x (a # as) \<longleftrightarrow> x = Ptr PTAG_MISC a \<and> (\<exists>n. c a = FreeCell n \<and> fchain c n as)"

lemma fchain_cong: "\<forall>a \<in> set as. c' a = c a \<Longrightarrow> fchain c' x as = fchain c x as"
  by (induction as arbitrary: x) auto

lemma fchain_free: "fchain c x as \<Longrightarrow> a \<in> set as \<Longrightarrow> freecellp (c a)"
  by (induction as arbitrary: x) auto

definition garbage :: "gc_state \<Rightarrow> nat list" where
  "garbage st = filter (\<lambda>a. \<not> marked st a \<and> \<not> freecellp (cells st a)) (cell_addrs st)"

lemma sweep_cells:
  assumes "distinct as" "fchain (cells st) f fs"
    "ss = filter (\<lambda>a. \<not> marked st a \<and> \<not> freecellp (cells st a)) as"
  shows "\<exists>m' c' f'. fold sweep_cell as (st, f, n) =
      (st\<lparr>marked := m', cells := c', finalized := finalized st @ filter needs_fin (map (cells st) ss)\<rparr>,
       f', n + length ss) \<and>
    fchain c' f' (rev ss @ fs) \<and> (\<forall>a. a \<notin> set ss \<longrightarrow> c' a = cells st a) \<and>
    (\<forall>a. m' a \<longleftrightarrow> marked st a \<and> a \<notin> set as)"
  using assms
proof (induction as arbitrary: st f n fs ss)
  case Nil
  then show ?case by (auto intro!: exI [of _ "marked st"] exI [of _ "cells st"])
next
  case (Cons a as)
  let ?as = "filter (\<lambda>a. \<not> marked st a \<and> \<not> freecellp (cells st a)) as"
  have distinct_as: "distinct as" using Cons.prems(1) by simp
  consider (mk) "marked st a" | (free) "\<not> marked st a" "freecellp (cells st a)"
    | (sweep) "\<not> marked st a" "\<not> freecellp (cells st a)" by blast
  then show ?case
  proof cases
    case mk
    let ?st = "st\<lparr>marked := (marked st)(a := False)\<rparr>"
    have ss: "ss = filter (\<lambda>b. \<not> marked ?st b \<and> \<not> freecellp (cells ?st b)) as"
      using Cons.prems(1,3) mk by (auto intro: filter_cong)
    have step: "sweep_cell a (st, f, n) = (?st, f, n)" using mk by (simp add: sweep_cell_def)
    obtain m' c' f' where IH: "fold sweep_cell as (?st, f, n) =
        (?st\<lparr>marked := m', cells := c', finalized := finalized ?st @ filter needs_fin (map (cells ?st) ss)\<rparr>,
         f', n + length ss)"
      "fchain c' f' (rev ss @ fs)" "\<forall>b. b \<notin> set ss \<longrightarrow> c' b = cells ?st b"
      "\<forall>b. m' b \<longleftrightarrow> marked ?st b \<and> b \<notin> set as"
      using Cons.IH [OF _ _ ss, of f fs n] Cons.prems(1,2) by auto
    show ?thesis
    proof (intro exI conjI)
      show "fold sweep_cell (a # as) (st, f, n) =
        (st\<lparr>marked := m', cells := c', finalized := finalized st @ filter needs_fin (map (cells st) ss)\<rparr>,
         f', n + length ss)"
        using IH(1) by (simp add: step)
      show "fchain c' f' (rev ss @ fs)" by (rule IH(2))
      show "\<forall>b. b \<notin> set ss \<longrightarrow> c' b = cells st b" using IH(3) by simp
      show "\<forall>b. m' b \<longleftrightarrow> marked st b \<and> b \<notin> set (a # as)" using IH(4) by auto
    qed
  next
    case free
    have step: "sweep_cell a (st, f, n) = (st, f, n)" using free by (simp add: sweep_cell_def)
    have ss: "ss = ?as" using Cons.prems(3) free by simp
    obtain m' c' f' where IH: "fold sweep_cell as (st, f, n) =
        (st\<lparr>marked := m', cells := c', finalized := finalized st @ filter needs_fin (map (cells st) ss)\<rparr>,
         f', n + length ss)"
      "fchain c' f' (rev ss @ fs)" "\<forall>b. b \<notin> set ss \<longrightarrow> c' b = cells st b"
      "\<forall>b. m' b \<longleftrightarrow> marked st b \<and> b \<notin> set as"
      using Cons.IH [OF _ Cons.prems(2) ss, of n] Cons.prems(1) by auto
    have m: "\<forall>b. m' b \<longleftrightarrow> marked st b \<and> b \<notin> set (a # as)" using IH(4) free(1) by auto
    have "fold sweep_cell (a # as) (st, f, n) =
        (st\<lparr>marked := m', cells := c', finalized := finalized st @ filter needs_fin (map (cells st) ss)\<rparr>,
         f', n + length ss)" using IH(1) by (simp add: step)
    then show ?thesis using IH(2,3) m by blast
  next
    case sweep
    let ?st = "(free_cell st a)\<lparr>cells := (cells st)(a := FreeCell f)\<rparr>"
    have fc: "cells (free_cell st a) = cells st" "marked (free_cell st a) = marked st"
      by (simp_all add: free_cell_def)
    have step: "sweep_cell a (st, f, n) = (?st, Ptr PTAG_MISC a, Suc n)"
      using sweep by (simp add: sweep_cell_def RECLAIM_CELL_def fc)
    have ss: "ss = a # ?as" using Cons.prems(3) sweep by simp
    have ss2: "?as = filter (\<lambda>b. \<not> marked ?st b \<and> \<not> freecellp (cells ?st b)) as"
      using Cons.prems(1) by (auto simp: fc intro: filter_cong)
    have "a \<notin> set fs" using fchain_free [OF Cons.prems(2)] sweep(2) by blast
    then have ch: "fchain (cells ?st) (Ptr PTAG_MISC a) (a # fs)"
      using Cons.prems(2) fchain_cong [of fs "(cells st)(a := FreeCell f)" "cells st" f] by auto
    have mp: "map (cells ?st) ?as = map (cells st) ?as" using Cons.prems(1) by auto
    have fin: "finalized ?st = finalized st @ filter needs_fin [cells st a]" by (simp add: free_cell_def)
    obtain m' c' f' where IH: "fold sweep_cell as (?st, Ptr PTAG_MISC a, Suc n) =
        (?st\<lparr>marked := m', cells := c', finalized := finalized ?st @ filter needs_fin (map (cells ?st) ?as)\<rparr>,
         f', Suc n + length ?as)"
      "fchain c' f' (rev ?as @ a # fs)" "\<forall>b. b \<notin> set ?as \<longrightarrow> c' b = cells ?st b"
      "\<forall>b. m' b \<longleftrightarrow> marked ?st b \<and> b \<notin> set as"
      using Cons.IH [OF distinct_as ch ss2, of "Suc n"] by blast
    show ?thesis
    proof (intro exI conjI)
      show "fold sweep_cell (a # as) (st, f, n) =
        (st\<lparr>marked := m', cells := c', finalized := finalized st @ filter needs_fin (map (cells st) ss)\<rparr>,
         f', n + length ss)"
        using IH(1) unfolding mp fin by (simp add: step ss free_cell_def)
      show "fchain c' f' (rev ss @ fs)" using IH(2) by (simp add: ss)
      show "\<forall>b. b \<notin> set ss \<longrightarrow> c' b = cells st b" using IH(3) by (auto simp: ss)
      show "\<forall>b. m' b \<longleftrightarrow> marked st b \<and> b \<notin> set (a # as)" using IH(4) sweep(1) by (auto simp: fc)
    qed
  qed
qed

lemma sweep_cell_size: "heap_size (fst (fold sweep_cell as (st, f, n))) = heap_size st"
proof (induction as arbitrary: st f n)
  case (Cons a as)
  have "heap_size (fst (sweep_cell a (st, f, n))) = heap_size st"
    by (simp add: sweep_cell_def RECLAIM_CELL_def free_cell_def)
  then show ?case using Cons.IH by (cases "sweep_cell a (st, f, n)") auto
qed simp

lemma sweep_count:
  "fold sweep_cell as (st, f, k + n) = (case fold sweep_cell as (st, f, n) of (st', f', n') \<Rightarrow> (st', f', k + n'))"
proof (induction as arbitrary: st f n)
  case (Cons a as)
  have "sweep_cell a (st, f, k + n) = (case sweep_cell a (st, f, n) of (st', f', n') \<Rightarrow> (st', f', k + n'))"
    by (simp add: sweep_cell_def split: prod.splits)
  then show ?case using Cons.IH by (auto split: prod.splits)
qed simp

lemma sweep_heaps:
  "fold sweep_heap hs (st, f, n) = fold sweep_cell (concat (map (heap_cells st) hs)) (st, f, n)"
proof (induction hs arbitrary: st f n)
  case (Cons h hs)
  obtain st' f' n' where s: "fold sweep_cell (heap_cells st h) (st, f, 0) = (st', f', n')"
    by (metis prod_cases3)
  have "heap_cells st' = heap_cells st"
    using sweep_cell_size [of "heap_cells st h" st f 0] s by (intro ext) (simp add: heap_cells_def)
  then show ?case
    using Cons.IH [of st' f' "n + n'"] sweep_count [of "heap_cells st h" st f n 0] s
    by (simp add: sweep_heap_def)
qed simp

lemma gc_sweep_eq:
  assumes "distinct (cell_addrs st)" "fchain (cells st) (freelist st) fs"
  shows "\<exists>m' c' f'. gc_sweep st =
      (st\<lparr>marked := m', cells := c', freelist := f',
         finalized := finalized st @ filter needs_fin (map (cells st) (garbage st))\<rparr>, length (garbage st)) \<and>
    fchain c' f' (rev (garbage st) @ fs) \<and> (\<forall>a. a \<notin> set (garbage st) \<longrightarrow> c' a = cells st a) \<and>
    (\<forall>a. m' a \<longleftrightarrow> marked st a \<and> a \<notin> set (cell_addrs st))"
proof -
  obtain m' c' f' where s: "fold sweep_cell (cell_addrs st) (st, freelist st, 0) =
      (st\<lparr>marked := m', cells := c',
         finalized := finalized st @ filter needs_fin (map (cells st) (garbage st))\<rparr>, f', length (garbage st))"
    and *: "fchain c' f' (rev (garbage st) @ fs)" "\<forall>a. a \<notin> set (garbage st) \<longrightarrow> c' a = cells st a"
      "\<forall>a. m' a \<longleftrightarrow> marked st a \<and> a \<notin> set (cell_addrs st)"
    using sweep_cells [OF assms, of "garbage st" 0] by (auto simp: garbage_def)
  have "gc_sweep st = (st\<lparr>marked := m', cells := c', freelist := f',
         finalized := finalized st @ filter needs_fin (map (cells st) (garbage st))\<rparr>, length (garbage st))"
    using s by (simp add: gc_sweep_def sweep_heaps flip: cell_addrs_def)
  then show ?thesis using * by blast
qed

section \<open>The invariant\<close>

definition heaps_ok :: "gc_state \<Rightarrow> bool" where
  "heaps_ok st \<longleftrightarrow> distinct (cell_addrs st) \<and>
     (\<forall>b \<in> set (heaps st). b mod sizeof_ScmCell = 0 \<and> heaps_lowest st \<le> b \<and>
        b + sizeof_ScmCell * heap_size st \<le> heaps_highest st)"

definition freelist_ok :: "gc_state \<Rightarrow> bool" where
  "freelist_ok st \<longleftrightarrow> (\<exists>fs. fchain (cells st) (freelist st) fs \<and> distinct fs \<and>
     set fs = {a \<in> set (cell_addrs st). freecellp (cells st a)})"

definition gc_inv :: "gc_state \<Rightarrow> bool" where
  "gc_inv st \<longleftrightarrow> heaps_ok st \<and> freelist_ok st \<and> (\<forall>a. \<not> marked st a) \<and> contents_ok (content st)"

lemma cell_addrs_iff:
  "a \<in> set (cell_addrs st) \<longleftrightarrow>
     (\<exists>b \<in> set (heaps st). \<exists>i < heap_size st. a = b + sizeof_ScmCell * i)"
proof -
  have "a \<in> set (heap_cells st b) \<longleftrightarrow> (\<exists>i < heap_size st. a = b + sizeof_ScmCell * i)" for b
    by (auto simp: heap_cells_def image_iff)
  then show ?thesis by (auto simp: cell_addrs_def)
qed

lemma within_heapp_iff:
  assumes "heaps_ok st"
  shows "within_heapp st (Ptr t a) \<longleftrightarrow> a \<in> set (cell_addrs st) \<and> TAG_CONSISTENTP t (cells st a)"
proof
  assume w: "within_heapp st (Ptr t a)"
  let ?in = "\<lambda>b. b \<le> a \<and> a < b + sizeof_ScmCell * heap_size st"
  from w have al: "a mod sizeof_ScmCell = 0" by (auto split: if_splits)
  from w obtain b where f: "find ?in (heaps st) = Some b" and t: "TAG_CONSISTENTP t (cells st a)"
    by (auto split: if_splits option.splits)
  have b: "b \<in> set (heaps st)" "?in b" using f by (auto simp: find_Some_iff)
  have "b mod sizeof_ScmCell = 0" using assms b(1) by (auto simp: heaps_ok_def)
  then obtain k where "a = b + sizeof_ScmCell * k"
    using al b(2) by (metis dvd_diff_nat dvd_imp_mod_0 le_add_diff_inverse mod_0_imp_dvd dvd_def)
  moreover from this have "k < heap_size st" using b(2) by simp
  ultimately show "a \<in> set (cell_addrs st) \<and> TAG_CONSISTENTP t (cells st a)"
    using b(1) t cell_addrs_iff by blast
next
  assume a: "a \<in> set (cell_addrs st) \<and> TAG_CONSISTENTP t (cells st a)"
  then obtain b i where b: "b \<in> set (heaps st)" "i < heap_size st" "a = b + sizeof_ScmCell * i"
    using cell_addrs_iff by blast
  have h: "b mod sizeof_ScmCell = 0" "heaps_lowest st \<le> b"
      "b + sizeof_ScmCell * heap_size st \<le> heaps_highest st"
    using assms b(1) by (auto simp: heaps_ok_def)
  have "find (\<lambda>b. b \<le> a \<and> a < b + sizeof_ScmCell * heap_size st) (heaps st) \<noteq> None"
  proof -
    have "b \<le> a \<and> a < b + sizeof_ScmCell * heap_size st" using b(2,3) by simp
    then show ?thesis using b(1) unfolding find_None_iff by blast
  qed
  moreover have "16 dvd a" using h(1) b(3) by auto
  ultimately show "within_heapp st (Ptr t a)" using a b h by auto
qed

lemma roots_word_ok:
  assumes "heaps_ok st" "\<forall>x \<in> set (gc_global_roots st vars symbol_hash). ptr_ok (content st) x"
  shows "\<forall>x \<in> set (gc_roots st stack vars symbol_hash). word_ok st x"
proof
  fix x assume "x \<in> set (gc_roots st stack vars symbol_hash)"
  then consider "within_heapp st x" | "x \<in> set (gc_global_roots st vars symbol_hash)"
    by (auto simp: gc_roots_def)
  then show "word_ok st x"
  proof cases
    case 1
    then show ?thesis using within_heapp_iff [OF assms(1)] by (cases x) auto
  next
    case 2
    then show ?thesis using assms(2) ptr_ok_word_ok by blast
  qed
qed

lemma mark_objs_addrs: "marked (mark_objs st xs) a \<Longrightarrow> marked st a \<or> a \<in> set (cell_addrs st)"
proof (induction st xs rule: mark_objs_induct)
  case (Skip st x xs)
  then show ?case by (simp add: mark_objs_skip [OF Skip.hyps])
next
  case (Mark st t b xs)
  then show ?case by (auto simp: mark_objs_mark [OF Mark.hyps] split: if_splits)
qed simp

text \<open>A collection from given roots: marks with \<open>mark_objs\<close>, then sweeps.\<close>

lemma sweep_after_mark:
  assumes inv: "gc_inv st" and ok: "\<forall>x \<in> set xs. word_ok st x"
    and sw: "gc_sweep (mark_objs st xs) = (st', n)"
  shows "gc_inv st'"
    and "content st' = (\<lambda>a. if reach (content st) (set xs) a then content st a else None)"
    and "n = card {a. content st a \<noteq> None \<and> \<not> reach (content st) (set xs) a}"
    and "\<exists>m c f z. st' = st\<lparr>marked := m, cells := c, freelist := f, finalized := z\<rparr>"
    and "freelist st = SCM_NULL \<Longrightarrow> freelist st' = SCM_NULL \<longleftrightarrow> n = 0"
proof -
  let ?m = "mark_objs st xs" and ?R = "reach (content st) (set xs)"
  from inv obtain fs where fs: "fchain (cells st) (freelist st) fs" "distinct fs"
      "set fs = {a \<in> set (cell_addrs st). freecellp (cells st a)}"
    by (auto simp: gc_inv_def freelist_ok_def)
  have um: "\<forall>a. \<not> marked st a" and dist: "distinct (cell_addrs st)" and cok: "contents_ok (content st)"
    using inv by (auto simp: gc_inv_def heaps_ok_def)
  have mk: "marked ?m a \<longleftrightarrow> ?R a" if "content st a \<noteq> None" for a
    using mark_objs_exact [OF ok cok um that] .
  let ?g = "garbage ?m"
  obtain m' c' f' where s: "gc_sweep ?m = (?m\<lparr>marked := m', cells := c', freelist := f',
         finalized := finalized st @ filter needs_fin (map (cells st) ?g)\<rparr>, length ?g)"
    and ch: "fchain c' f' (rev ?g @ fs)" and same: "\<forall>a. a \<notin> set ?g \<longrightarrow> c' a = cells st a"
    and m': "\<forall>a. m' a \<longleftrightarrow> marked ?m a \<and> a \<notin> set (cell_addrs st)"
    using gc_sweep_eq [of ?m fs] dist fs(1) by auto
  have g: "set ?g = {a. content st a \<noteq> None \<and> \<not> ?R a}"
  proof -
    have "a \<in> set ?g \<longleftrightarrow> content st a \<noteq> None \<and> \<not> marked ?m a" for a
      by (auto simp: garbage_def content_def)
    then show ?thesis using mk by blast
  qed
  have st': "st' = ?m\<lparr>marked := m', cells := c', freelist := f',
      finalized := finalized st @ filter needs_fin (map (cells st) ?g)\<rparr>" and n: "n = length ?g"
    using sw s by auto
  have addrs: "cell_addrs st' = cell_addrs st" by (simp add: st')
  have cells': "cells st' = c'" by (simp add: st')
  show "freelist st' = SCM_NULL \<longleftrightarrow> n = 0" if "freelist st = SCM_NULL"
  proof -
    have "fs = []" using fs(1) that by (cases fs) auto
    then show ?thesis using ch by (cases "rev ?g") (auto simp: st' n)
  qed
  have free_g: "a \<in> set ?g \<Longrightarrow> freecellp (c' a)" for a using fchain_free [OF ch] by simp
  show content': "content st' = (\<lambda>a. if ?R a then content st a else None)"
  proof
    fix a
    show "content st' a = (if ?R a then content st a else None)"
    proof (cases "a \<in> set ?g")
      case True
      then show ?thesis using g free_g by (auto simp: content_def addrs cells')
    next
      case False
      then have "content st' a = content st a" using same by (simp add: content_def addrs cells')
      then show ?thesis using False g by auto
    qed
  qed
  have "distinct ?g" using dist by (simp add: garbage_def)
  then show "n = card {a. content st a \<noteq> None \<and> \<not> ?R a}"
    using distinct_card [of ?g] unfolding n g [symmetric] by simp
  show "\<exists>m c f z. st' = st\<lparr>marked := m, cells := c, freelist := f, finalized := z\<rparr>"
  proof -
    obtain m where m: "?m = st\<lparr>marked := m\<rparr>" using mark_objs_only_marks by blast
    have "st' = st\<lparr>marked := m', cells := c', freelist := f',
      finalized := finalized st @ filter needs_fin (map (cells st) ?g)\<rparr>"
      unfolding st' by (simp add: m)
    then show ?thesis by blast
  qed
  have "heaps_ok st'" using inv by (simp add: gc_inv_def heaps_ok_def addrs) (simp add: st')
  moreover have "freelist_ok st'"
    unfolding freelist_ok_def
  proof (intro exI conjI)
    show "fchain (cells st') (freelist st') (rev ?g @ fs)" using ch by (simp add: st')
    show "distinct (rev ?g @ fs)" using \<open>distinct ?g\<close> fs(2,3) by (auto simp: garbage_def)
    have "a \<in> set (cell_addrs st) \<and> freecellp (c' a) \<longleftrightarrow> a \<in> set ?g \<or> a \<in> set fs" for a
      using same free_g fs(3) by (cases "a \<in> set ?g") (auto simp: garbage_def)
    then show "set (rev ?g @ fs) = {a \<in> set (cell_addrs st'). freecellp (cells st' a)}"
      by (auto simp: addrs cells')
  qed
  moreover have "\<forall>a. \<not> marked st' a"
    using m' mark_objs_addrs [of st xs] um by (auto simp: st')
  moreover have "contents_ok (content st')"
    unfolding contents_ok_def
  proof (intro allI impI ballI)
    fix a c x assume a: "content st' a = Some c" "x \<in> set (cell_objs c)"
    then have a': "?R a" "content st a = Some c" unfolding content' by (auto split: if_splits)
    show "ptr_ok (content st') x"
    proof (cases x)
      case (Ptr t b)
      have "ptr_ok (content st) x" using cok a' a(2) unfolding contents_ok_def by blast
      then obtain d where "content st b = Some d" "TAG_CONSISTENTP t d" using Ptr by auto
      moreover from this have "?R b" using reach.child [OF a'(1,2)] a(2) Ptr by blast
      ultimately show ?thesis using Ptr by (simp add: content')
    qed simp_all
  qed
  ultimately show "gc_inv st'" by (simp add: gc_inv_def)
qed

section \<open>Growing the heap\<close>

text \<open>What \<^verbatim>\<open>scm_malloc_aligned\<close> documents: an aligned block that overlaps no block in use.\<close>

definition fresh_block :: "gc_state \<Rightarrow> nat \<Rightarrow> bool" where
  "fresh_block st b \<longleftrightarrow> b mod sizeof_ScmCell = 0 \<and>
     (\<forall>h \<in> set (heaps st). b + sizeof_ScmCell * heap_size st \<le> h \<or> h + sizeof_ScmCell * heap_size st \<le> b)"

definition malloc_ok :: "(gc_state \<Rightarrow> nat) \<Rightarrow> bool" where
  "malloc_ok malloc \<longleftrightarrow> (\<forall>st. fresh_block st (malloc st))"

lemma link_cells:
  assumes "distinct as" "set as \<inter> set fs = {}" "fchain (cells st) f fs"
  shows "\<exists>c' f'. fold link_cell (rev as) (st, f) = (st\<lparr>cells := c'\<rparr>, f') \<and> fchain c' f' (as @ fs) \<and>
    (\<forall>a. a \<notin> set as \<longrightarrow> c' a = cells st a)"
  using assms(1,2)
proof (induction as)
  case Nil
  then show ?case using assms(3) by (intro exI [of _ "cells st"] exI [of _ f]) simp
next
  case (Cons a as)
  then obtain c' f' where IH: "fold link_cell (rev as) (st, f) = (st\<lparr>cells := c'\<rparr>, f')"
      "fchain c' f' (as @ fs)" "\<forall>b. b \<notin> set as \<longrightarrow> c' b = cells st b" by auto
  have "fold link_cell (rev (a # as)) (st, f) = (st\<lparr>cells := c'(a := FreeCell f')\<rparr>, Ptr PTAG_MISC a)"
    using IH(1) by (simp add: link_cell_def RECLAIM_CELL_def)
  moreover have "fchain (c'(a := FreeCell f')) f' (as @ fs)"
    using IH(2) Cons.prems fchain_cong [of "as @ fs" "c'(a := FreeCell f')" c' f'] by auto
  ultimately show ?case using IH(3) by auto
qed

lemma add_heap_ok:
  assumes inv: "gc_inv st" and fresh: "fresh_block st (malloc st)" and ok: "add_heap malloc st = Inr st'"
  shows "gc_inv st' \<and> content st' = content st \<and> n_heaps_max st' = n_heaps_max st \<and>
    protected_vars st' = protected_vars st \<and> vector_elements st' = vector_elements st \<and>
    heaps st' = heaps st @ [malloc st] \<and> heap_size st' = heap_size st \<and>
    (0 < heap_size st \<longrightarrow> freelist st' \<noteq> SCM_NULL)"
proof -
  let ?h = "malloc st" and ?top = "malloc st + sizeof_ScmCell * heap_size st"
  define st1 where "st1 = (let st = st\<lparr>heaps := heaps st @ [?h]\<rparr>;
      st = (if heaps_highest st < ?top then st\<lparr>heaps_highest := ?top\<rparr> else st)
    in if ?h < heaps_lowest st then st\<lparr>heaps_lowest := ?h\<rparr> else st)"
  have st1: "heaps st1 = heaps st @ [?h]" "heap_size st1 = heap_size st" "marked st1 = marked st"
      "n_heaps_max st1 = n_heaps_max st" "protected_vars st1 = protected_vars st"
      "vector_elements st1 = vector_elements st" "heaps_lowest st1 = min (heaps_lowest st) ?h"
      "heaps_highest st1 = max (heaps_highest st) ?top"
    by (simp_all add: st1_def Let_def)
  obtain fs where fs: "fchain (cells st) (freelist st) fs" "distinct fs"
      "set fs = {a \<in> set (cell_addrs st). freecellp (cells st a)}"
    using inv by (auto simp: gc_inv_def freelist_ok_def)
  let ?as = "heap_cells st ?h"
  have hc: "heap_cells st1 = heap_cells st" by (intro ext) (simp add: heap_cells_def st1)
  have addrs1: "cell_addrs st1 = cell_addrs st @ ?as" by (simp add: cell_addrs_def hc st1)
  have disj: "set ?as \<inter> set (cell_addrs st) = {}"
  proof (rule equals0I)
    fix a assume "a \<in> set ?as \<inter> set (cell_addrs st)"
    then obtain b i j where "b \<in> set (heaps st)" "i < heap_size st" "j < heap_size st"
        "a = b + 16 * i" "a = ?h + 16 * j" by (auto simp: cell_addrs_iff) (auto simp: heap_cells_def)
    then show False using fresh by (fastforce simp: fresh_block_def)
  qed
  have dist: "distinct ?as" by (simp add: heap_cells_def distinct_map inj_on_def)
  have disj2: "set ?as \<inter> set fs = {}" using disj fs(3) by blast
  have cells1: "cells st1 = cells st" "freelist st1 = freelist st" by (simp_all add: st1_def Let_def)
  obtain c' f' where link: "fold link_cell (rev ?as) (st1, freelist st) = (st1\<lparr>cells := c'\<rparr>, f')"
      "fchain c' f' (?as @ fs)" "\<forall>a. a \<notin> set ?as \<longrightarrow> c' a = cells st a"
    using link_cells [OF dist disj2, of st1 "freelist st"] fs(1) unfolding cells1 by blast
  have st': "st' = st1\<lparr>cells := c', freelist := f'\<rparr>"
  proof -
    have "add_heap malloc st = (case fold link_cell (rev (heap_cells st1 ?h)) (st1, freelist st1) of
        (st', next) \<Rightarrow> Inr (st'\<lparr>freelist := next\<rparr>))"
      using ok by (auto simp: add_heap_def st1_def Let_def split: if_splits)
    then show ?thesis using ok link(1) by (simp add: hc cells1)
  qed
  have addrs: "cell_addrs st' = cell_addrs st @ ?as" by (simp add: st' addrs1)
  have cells': "cells st' = c'" by (simp add: st')
  have free_new: "a \<in> set ?as \<Longrightarrow> freecellp (c' a)" for a using fchain_free [OF link(2)] by simp
  have content: "content st' = content st"
  proof
    fix a show "content st' a = content st a"
      using link(3) free_new disj by (cases "a \<in> set ?as") (auto simp: content_def addrs cells')
  qed
  have "heaps_ok st'"
    using inv dist disj fresh
    by (auto simp: heaps_ok_def gc_inv_def addrs fresh_block_def) (auto simp: st' st1)
  moreover have "freelist_ok st'"
    unfolding freelist_ok_def
  proof (intro exI conjI)
    show "fchain (cells st') (freelist st') (?as @ fs)" using link(2) by (simp add: st')
    show "distinct (?as @ fs)" using dist fs(2) disj2 by simp
    show "set (?as @ fs) = {a \<in> set (cell_addrs st'). freecellp (cells st' a)}"
      using free_new link(3) fs(3) disj by (auto simp: addrs cells')
  qed
  moreover have "\<forall>a. \<not> marked st' a" using inv by (simp add: st' st1 gc_inv_def)
  ultimately have "gc_inv st'" using inv by (simp add: gc_inv_def content)
  moreover have "0 < heap_size st \<longrightarrow> f' \<noteq> SCM_NULL"
    using link(2) by (cases "heap_size st") (auto simp: heap_cells_def upt_rec)
  ultimately show ?thesis by (simp add: content) (simp add: st' st1)
qed

section \<open>Allocation\<close>

lemma new_from_freelist:
  assumes inv: "gc_inv st" and f: "freelist st = Ptr t a"
    and c: "\<not> freecellp c" "\<forall>x \<in> set (cell_objs c). ptr_ok (content st) x"
    and st': "st' = st\<lparr>freelist := FREECELL_NEXT (cells st a), cells := (cells st)(a := c)\<rparr>"
  shows "gc_inv st' \<and> content st' = (content st)(a \<mapsto> c) \<and> content st a = None"
proof -
  obtain fs where fs: "fchain (cells st) (freelist st) fs" "distinct fs"
      "set fs = {a \<in> set (cell_addrs st). freecellp (cells st a)}"
    using inv by (auto simp: gc_inv_def freelist_ok_def)
  obtain gs n where gs: "fs = a # gs" "cells st a = FreeCell n" "fchain (cells st) n gs"
    using fs(1) f by (cases fs) auto
  have a: "a \<in> set (cell_addrs st)" using fs(3) gs(1) by auto
  have addrs: "cell_addrs st' = cell_addrs st" and cells': "cells st' = (cells st)(a := c)"
    and free': "freelist st' = n" by (simp_all add: st' gs(2))
  have content: "content st' = (content st)(a \<mapsto> c)"
    using a c(1) by (auto simp: content_def addrs cells')
  have none: "content st a = None" using gs(2) by (simp add: content_def)
  have le: "content st b = Some d \<Longrightarrow> content st' b = Some d" for b d using none by (auto simp: content)
  have ok: "ptr_ok (content st) x \<Longrightarrow> ptr_ok (content st') x" for x by (cases x) (auto dest: le)
  have "contents_ok (content st')"
    unfolding contents_ok_def
  proof (intro allI impI ballI)
    fix b d x assume "content st' b = Some d" "x \<in> set (cell_objs d)"
    then have "ptr_ok (content st) x"
      using c(2) inv by (auto simp: content gc_inv_def contents_ok_def split: if_splits)
    then show "ptr_ok (content st') x" by (rule ok)
  qed
  moreover have "heaps_ok st'" using inv by (simp add: gc_inv_def heaps_ok_def addrs) (simp add: st')
  moreover have "freelist_ok st'"
    unfolding freelist_ok_def
  proof (intro exI conjI)
    show "fchain (cells st') (freelist st') gs"
      using gs(1,3) fs(2) fchain_cong [of gs "cells st'" "cells st"] by (simp add: free' cells')
    show "distinct gs" using fs(2) gs(1) by simp
    show "set gs = {a \<in> set (cell_addrs st'). freecellp (cells st' a)}"
      using fs(2,3) gs(1) c(1) by (auto simp: addrs cells')
  qed
  moreover have "\<forall>b. \<not> marked st' b" using inv by (simp add: st' gc_inv_def)
  ultimately show ?thesis using content none by (simp add: gc_inv_def)
qed

text \<open>The collection that an allocation runs, as far as the allocation's caller can tell.\<close>

lemma mark_and_sweep_spec:
  assumes inv: "gc_inv st" and malloc: "malloc_ok malloc"
    and ok: "\<forall>x \<in> set (gc_global_roots st vars symbol_hash). ptr_ok (content st) x"
    and run: "gc_mark_and_sweep malloc st stack vars symbol_hash = Inr st'"
  shows "gc_inv st' \<and> content st' =
      (\<lambda>a. if reach (content st) (set (gc_roots st stack vars symbol_hash)) a then content st a else None) \<and>
    protected_vars st' = protected_vars st \<and> vector_elements st' = vector_elements st"
proof -
  let ?R = "gc_roots st stack vars symbol_hash"
  have rok: "\<forall>x \<in> set ?R. word_ok st x"
    using inv ok by (intro roots_word_ok) (auto simp: gc_inv_def)
  obtain st1 n where sw: "gc_sweep (mark_objs st ?R) = (st1, n)" by (cases "gc_sweep (mark_objs st ?R)")
  note sm = sweep_after_mark [OF inv rok sw]
  obtain m c f z where st1: "st1 = st\<lparr>marked := m, cells := c, freelist := f, finalized := z\<rparr>"
    using sm(4) by blast
  have run1: "(if n < heap_alloc_threshold st1 then add_heap malloc st1 else Inr st1) = Inr st'"
    using run sw by (simp add: gc_mark_and_sweep_def gc_mark_eq)
  have fields: "protected_vars st1 = protected_vars st \<and> vector_elements st1 = vector_elements st"
    by (simp add: st1)
  show ?thesis
  proof (cases "n < heap_alloc_threshold st1")
    case True
    then have "add_heap malloc st1 = Inr st'" using run1 by simp
    from add_heap_ok [OF sm(1) _ this] show ?thesis
      using malloc sm(2) fields by (auto simp: malloc_ok_def)
  next
    case False
    then show ?thesis using run1 sm(1,2) fields by simp
  qed
qed

definition reclaimed :: "gc_state \<Rightarrow> obj list \<Rightarrow> (nat \<Rightarrow> obj) \<Rightarrow> obj list \<Rightarrow> nat" where
  "reclaimed st stack vars symbol_hash =
     card {a. content st a \<noteq> None \<and> \<not> reach (content st) (set (gc_roots st stack vars symbol_hash)) a}"

lemma stack_in_roots:
  assumes "heaps_ok st" "x = Ptr t a" "x \<in> set stack" "ptr_ok (content st) x"
  shows "x \<in> set (gc_roots st stack vars symbol_hash)"
  using assms within_heapp_iff [OF assms(1), of t a]
  by (auto simp: gc_roots_def content_def split: if_splits)

lemma new_cell_spec:
  assumes inv: "gc_inv st" and malloc: "malloc_ok malloc"
    and ok: "\<forall>x \<in> set (gc_global_roots st vars symbol_hash). ptr_ok (content st) x"
    and c: "\<not> freecellp c" "\<forall>x \<in> set (cell_objs c). ptr_ok (content st) x \<and> ((\<exists>t b. x = Ptr t b) \<longrightarrow> x \<in> set stack)"
    and run: "scm_new_cell malloc st stack vars symbol_hash c = Inr (a, st')"
  defines "R \<equiv> set (gc_roots st stack vars symbol_hash)"
  shows "gc_inv st' \<and> content st' a = Some c \<and> \<not> reach (content st) R a \<and>
    (\<forall>b. reach (content st) R b \<longrightarrow> content st' b = content st b) \<and>
    (\<forall>b. b \<noteq> a \<longrightarrow> content st' b = content st b \<or> content st' b = None) \<and>
    protected_vars st' = protected_vars st \<and> vector_elements st' = vector_elements st"
proof -
  define r where "r = (if freelist st = SCM_NULL then gc_mark_and_sweep malloc st stack vars symbol_hash
      else Inr st)"
  obtain st0 where al: "scm_alloc_cell malloc st stack vars symbol_hash = Inr (a, st0)"
      "st' = st0\<lparr>cells := (cells st0)(a := c)\<rparr>"
    using run by (auto simp: scm_new_cell_def split: sum.splits)
  obtain st1 where r: "r = Inr st1"
    using al(1) by (cases r) (auto simp: scm_alloc_cell_def simp flip: r_def)
  obtain t where t: "freelist st1 = Ptr t a" "st0 = st1\<lparr>freelist := FREECELL_NEXT (cells st1 a)\<rparr>"
    using al(1) r unfolding scm_alloc_cell_def r_def [symmetric] by (cases "freelist st1") auto
  have ms: "freelist st = SCM_NULL \<Longrightarrow> gc_mark_and_sweep malloc st stack vars symbol_hash = Inr st1"
    using r by (simp add: r_def)
  have s: "gc_inv st1 \<and> (\<forall>b. reach (content st) R b \<longrightarrow> content st1 b = content st b) \<and>
      (\<forall>b. content st1 b = content st b \<or> content st1 b = None) \<and>
      protected_vars st1 = protected_vars st \<and> vector_elements st1 = vector_elements st"
  proof (cases "freelist st = SCM_NULL")
    case True
    then show ?thesis using mark_and_sweep_spec [OF inv malloc ok ms] by (simp add: R_def)
  next
    case False
    then show ?thesis using inv r by (simp add: r_def)
  qed
  have "ptr_ok (content st1) x" if x: "x \<in> set (cell_objs c)" for x
  proof (cases x)
    case (Ptr u b)
    have xs: "x \<in> set stack" "ptr_ok (content st) x" using c(2) x Ptr by auto
    then obtain d where d: "content st b = Some d" "TAG_CONSISTENTP u d" using Ptr by auto
    have "x \<in> R" unfolding R_def using inv xs Ptr by (intro stack_in_roots) (auto simp: gc_inv_def)
    then have "reach (content st) R b" using d Ptr by (auto intro: reach.root)
    then show ?thesis using s d Ptr by auto
  qed simp_all
  then have "gc_inv st' \<and> content st' = (content st1)(a \<mapsto> c) \<and> content st1 a = None"
    using s c(1) t al(2) by (intro new_from_freelist) auto
  moreover have "protected_vars st' = protected_vars st1 \<and> vector_elements st' = vector_elements st1"
    by (simp add: al(2) t(2))
  moreover have "\<not> reach (content st) R a" if none: "content st1 a = None"
  proof
    assume r: "reach (content st) R a"
    then obtain d where "content st a = Some d" using reach_Some by blast
    then show False using s r none by force
  qed
  ultimately show ?thesis using s by auto
qed

section \<open>The collector keeps the allocator's contract\<close>

definition rt_inv :: "(nat \<Rightarrow> obj) \<Rightarrow> obj list \<Rightarrow> gc_state \<Rightarrow> bool" where
  "rt_inv vars symbol_hash st \<longleftrightarrow>
     gc_inv st \<and> (\<forall>x \<in> set (gc_global_roots st vars symbol_hash). ptr_ok (content st) x)"

definition rt_new ::
    "(gc_state \<Rightarrow> nat) \<Rightarrow> (nat \<Rightarrow> obj) \<Rightarrow> obj list \<Rightarrow> obj list \<Rightarrow> cell \<Rightarrow> gc_state \<Rightarrow> (nat \<times> gc_state) option" where
  "rt_new malloc vars symbol_hash live c st =
     (case scm_new_cell malloc st live vars symbol_hash c of Inr r \<Rightarrow> Some r | Inl _ \<Rightarrow> None)"

text \<open>The runtime that is fixed while a client allocates: the system allocator, the protected C
  variables and the symbol table.\<close>

locale gc_runtime =
  fixes malloc :: "gc_state \<Rightarrow> nat" and vars :: "nat \<Rightarrow> obj" and symbol_hash :: "obj list"
  assumes malloc: "malloc_ok malloc"
begin

lemma rt_new_spec:
  assumes inv: "rt_inv vars symbol_hash st" and live: "\<forall>x \<in> set live. ptr_ok (content st) x"
    and c: "set (cell_objs c) \<subseteq> set live" "\<not> freecellp c" and new: "rt_new malloc vars symbol_hash live c st = Some (a, st')"
  shows "rt_inv vars symbol_hash st' \<and> content st' a = Some c \<and> \<not> reach (content st) (set live) a \<and>
    (\<forall>b. reach (content st) (set live) b \<longrightarrow> content st' b = content st b)"
proof -
  let ?R = "set (gc_roots st live vars symbol_hash)"
  have run: "scm_new_cell malloc st live vars symbol_hash c = Inr (a, st')"
    using new by (auto simp: rt_new_def split: sum.splits)
  have inv': "gc_inv st" "\<forall>x \<in> set (gc_global_roots st vars symbol_hash). ptr_ok (content st) x"
    using inv by (auto simp: rt_inv_def)
  have spec: "gc_inv st' \<and> content st' a = Some c \<and> \<not> reach (content st) ?R a \<and>
    (\<forall>b. reach (content st) ?R b \<longrightarrow> content st' b = content st b) \<and>
    (\<forall>b. b \<noteq> a \<longrightarrow> content st' b = content st b \<or> content st' b = None) \<and>
    protected_vars st' = protected_vars st \<and> vector_elements st' = vector_elements st"
  proof (rule new_cell_spec [OF inv'(1) malloc inv'(2) c(2) _ run])
    show "\<forall>x \<in> set (cell_objs c). ptr_ok (content st) x \<and> ((\<exists>t b. x = Ptr t b) \<longrightarrow> x \<in> set live)" using c(1) live by blast
  qed
  have sub: "reach (content st) ?R b" if "reach (content st) (set live) b" for b
    using that
  proof (induction rule: reach.induct)
    case (root t a d)
    then have "ptr_ok (content st) (Ptr t a)" using live by blast
    then have "Ptr t a \<in> ?R"
      using root(1) inv'(1) by (intro stack_in_roots) (auto simp: gc_inv_def)
    then show ?case using root(2) by (rule reach.root)
  qed (rule reach.child)
  have globals: "gc_global_roots st' vars symbol_hash = gc_global_roots st vars symbol_hash"
    using spec by (simp add: gc_global_roots_def)
  have "ptr_ok (content st') x" if x: "x \<in> set (gc_global_roots st vars symbol_hash)" for x
  proof (cases x)
    case (Ptr t b)
    have "ptr_ok (content st) x" using inv'(2) x by blast
    then obtain d where d: "content st b = Some d" "TAG_CONSISTENTP t d" using Ptr by auto
    then have "reach (content st) ?R b" using x Ptr by (auto intro: reach.root simp: gc_roots_def)
    then show ?thesis using spec d Ptr by auto
  qed simp_all
  then show ?thesis using spec sub globals by (auto simp: rt_inv_def)
qed

end

sublocale gc_runtime \<subseteq> rt: cell_allocator "rt_inv vars symbol_hash" content "rt_new malloc vars symbol_hash"
  by unfold_locales (rule rt_new_spec)

section \<open>A procedure over the collector\<close>

text \<open>\<^verbatim>\<open>scm_p_reverse\<close> of \<^verbatim>\<open>src/list.c\<close> with the allocator of this theory: every \<^verbatim>\<open>CONS\<close> may collect.
  The words of its own frame are the element, the result and the rest of the list, which \<^verbatim>\<open>FOR_EACH\<close> has
  advanced; \<open>stack\<close> is the stack below. The list itself need not be on it.\<close>

definition gc_pair :: "gc_state \<Rightarrow> obj \<Rightarrow> obj \<times> obj" where
  "gc_pair st x =
     (case x of Ptr t a \<Rightarrow> (case cells st a of PairCell u v \<Rightarrow> (u, v) | _ \<Rightarrow> (SCM_INVALID, SCM_INVALID))
      | _ \<Rightarrow> (SCM_INVALID, SCM_INVALID))"

partial_function (option) gc_reverse_loop ::
    "(gc_state \<Rightarrow> nat) \<Rightarrow> (nat \<Rightarrow> obj) \<Rightarrow> obj list \<Rightarrow> obj list \<Rightarrow> obj \<Rightarrow> obj \<Rightarrow> gc_state \<Rightarrow>
     (obj \<times> obj \<times> gc_state) res option" where
  "gc_reverse_loop malloc vars symbol_hash stack ret rest st =
     (if CONSP rest then
        (let (elm, rest) = gc_pair st rest in
         case scm_new_cell malloc st (elm # ret # rest # stack) vars symbol_hash (PairCell elm ret) of
           Inl e \<Rightarrow> Some (Inl e)
         | Inr (a, st) \<Rightarrow> gc_reverse_loop malloc vars symbol_hash stack (Ptr PTAG_CONS a) rest st)
      else Some (Inr (ret, rest, st)))"

definition gc_reverse ::
    "(gc_state \<Rightarrow> nat) \<Rightarrow> (nat \<Rightarrow> obj) \<Rightarrow> obj list \<Rightarrow> obj list \<Rightarrow> obj \<Rightarrow> gc_state \<Rightarrow> (obj \<times> gc_state) res option" where
  "gc_reverse malloc vars symbol_hash stack lst st =
     map_option (\<lambda>r. case r of Inl e \<Rightarrow> Inl e
       | Inr (ret, rest, st') \<Rightarrow>
           if NULLP rest then Inr (ret, st') else Inl (ErrObj ''proper list required but got'' lst))
       (gc_reverse_loop malloc vars symbol_hash stack SCM_NULL lst st)"

definition heap_exhausted :: "scm_error set" where
  "heap_exhausted = {Err ''heap exhausted'', Err ''SCM_FREECELLP(l_freelist)''}"

lemma new_cell_error: "scm_new_cell malloc st stack vars symbol_hash c = Inl e \<Longrightarrow> e \<in> heap_exhausted"
  by (auto simp: scm_new_cell_def scm_alloc_cell_def gc_mark_and_sweep_def add_heap_def Let_def heap_exhausted_def
      split: sum.splits if_splits prod.splits obj.splits)

context gc_runtime
begin

text \<open>What the loop has after a step: the new pair, and the rest and the stack as they were.\<close>

lemma reverse_step:
  assumes inv: "rt_inv vars symbol_hash st" and ok: "\<forall>x \<in> set (ret # rest # stack). ptr_ok (content st) x"
    and rest: "list_at (content st) rest (v # vs) t" and ret: "list_at (content st) ret us SCM_NULL"
    and new: "scm_new_cell malloc st (v # ret # snd (gc_pair st rest) # stack) vars symbol_hash (PairCell v ret) = Inr (a, st')"
  shows "gc_pair st rest = (v, snd (gc_pair st rest)) \<and> CONSP rest \<and> rt_inv vars symbol_hash st' \<and>
    (\<forall>x \<in> set (Ptr PTAG_CONS a # snd (gc_pair st rest) # stack). ptr_ok (content st') x) \<and>
    list_at (content st') (snd (gc_pair st rest)) vs t \<and> list_at (content st') (Ptr PTAG_CONS a) (v # us) SCM_NULL \<and>
    (\<forall>b. reach (content st) (set stack) b \<longrightarrow> content st' b = content st b)"
proof -
  obtain b y where b: "rest = Ptr PTAG_CONS b" "content st b = Some (PairCell v y)" "list_at (content st) y vs t"
    using rest by auto
  have pair: "gc_pair st rest = (v, y)"
    using b(1,2) by (simp add: gc_pair_def content_def split: if_splits)
  have "\<forall>x \<in> set (cell_objs (PairCell v y)). ptr_ok (content st) x"
    using inv b(2) unfolding rt_inv_def gc_inv_def contents_ok_def by blast
  then have live: "\<forall>x \<in> set (v # ret # y # stack). ptr_ok (content st) x" using ok by simp
  have n: "rt_new malloc vars symbol_hash (v # ret # y # stack) (PairCell v ret) st = Some (a, st')"
    using new by (simp add: rt_new_def pair)
  note spec = rt_new_spec [OF inv live _ _ n]
  have keep: "content st' c = content st c" if "reach (content st) (set (v # ret # y # stack)) c" for c
    using spec that by simp
  have cell: "rt_inv vars symbol_hash st'" "content st' a = Some (PairCell v ret)" using spec by simp_all
  have "\<forall>x \<in> set (v # ret # y # stack). ptr_ok (content st') x"
    by (rule rt.live_ptr_ok [OF inv live _ _ n]) simp_all
  moreover have "list_at (content st') y vs t" by (rule list_at_agree [OF b(3) keep]) auto
  moreover have "list_at (content st') ret us SCM_NULL" by (rule list_at_agree [OF ret keep]) auto
  moreover have "content st' c = content st c" if "reach (content st) (set stack) c" for c
    by (rule keep, rule reach_mono [OF that]) auto
  ultimately show ?thesis using cell pair b(1) by (auto simp: TAG_CONSISTENTP_def)
qed

lemma reverse_loop_spec:
  assumes "rt_inv vars symbol_hash st" "\<forall>x \<in> set (ret # rest # stack). ptr_ok (content st) x"
    "list_at (content st) rest vs t" "\<not> CONSP t" "list_at (content st) ret us SCM_NULL"
  shows "\<exists>r. gc_reverse_loop malloc vars symbol_hash stack ret rest st = Some r \<and>
    (case r of Inl e \<Rightarrow> e \<in> heap_exhausted
     | Inr (y, u, st') \<Rightarrow> u = t \<and> list_at (content st') y (rev vs @ us) SCM_NULL \<and> rt_inv vars symbol_hash st' \<and>
         (\<forall>b. reach (content st) (set stack) b \<longrightarrow> content st' b = content st b))"
  using assms
proof (induction vs arbitrary: ret rest us st)
  case Nil
  then show ?case by (subst gc_reverse_loop.simps) simp
next
  case (Cons v vs)
  obtain y where y: "gc_pair st rest = (v, y)" "CONSP rest"
    using Cons.prems(3) by (auto simp: gc_pair_def content_def split: if_splits)
  have run: "gc_reverse_loop malloc vars symbol_hash stack ret rest st =
      (case scm_new_cell malloc st (v # ret # y # stack) vars symbol_hash (PairCell v ret) of
         Inl e \<Rightarrow> Some (Inl e)
       | Inr (a, st) \<Rightarrow> gc_reverse_loop malloc vars symbol_hash stack (Ptr PTAG_CONS a) y st)"
    using y by (subst gc_reverse_loop.simps) simp
  show ?case
  proof (cases "scm_new_cell malloc st (v # ret # y # stack) vars symbol_hash (PairCell v ret)")
    case (Inl e)
    then show ?thesis using run new_cell_error [OF Inl] by simp
  next
    case (Inr p)
    obtain a st' where p: "p = (a, st')" by (cases p)
    have "scm_new_cell malloc st (v # ret # snd (gc_pair st rest) # stack) vars symbol_hash (PairCell v ret) = Inr (a, st')"
      using Inr p y by simp
    note step = reverse_step [OF Cons.prems(1,2,3,5) this, unfolded y(1) snd_conv]
    have frame: "content st' b = content st b" "reach (content st') (set stack) b"
      if "reach (content st) (set stack) b" for b
      using step that reach_agree [OF that, of "content st'"] by blast+
    obtain r where r: "gc_reverse_loop malloc vars symbol_hash stack (Ptr PTAG_CONS a) y st' = Some r"
      "case r of Inl e \<Rightarrow> e \<in> heap_exhausted
       | Inr (y, u, st2) \<Rightarrow> u = t \<and> list_at (content st2) y (rev vs @ (v # us)) SCM_NULL \<and> rt_inv vars symbol_hash st2 \<and>
           (\<forall>b. reach (content st') (set stack) b \<longrightarrow> content st2 b = content st' b)"
      using Cons.IH [of st' "Ptr PTAG_CONS a" y "v # us"] step Cons.prems(4) by blast
    then show ?thesis using frame by (auto simp: run Inr p split: sum.splits)
  qed
qed

end

text \<open>An aligned allocator that stays above all blocks in use.\<close>

definition bump_malloc :: "gc_state \<Rightarrow> nat" where
  "bump_malloc st =
     sizeof_ScmCell * (1 + sum_list (map (\<lambda>h. h + sizeof_ScmCell * heap_size st) (heaps st)))"

lemma bump_malloc_ok: "malloc_ok bump_malloc"
  unfolding malloc_ok_def fresh_block_def
proof (intro allI conjI ballI)
  fix st :: gc_state and h assume h: "h \<in> set (heaps st)"
  let ?f = "\<lambda>h. h + sizeof_ScmCell * heap_size st"
  have "?f h \<le> sum_list (map ?f (heaps st))" using h by (intro member_le_sum_list) auto
  then show "bump_malloc st + sizeof_ScmCell * heap_size st \<le> h \<or> ?f h \<le> bump_malloc st"
    by (simp add: bump_malloc_def)
qed (simp add: bump_malloc_def)

interpretation bump: gc_runtime bump_malloc "\<lambda>_. SCM_NULL" "[]"
  by unfold_locales (rule bump_malloc_ok)

section \<open>Protected variables\<close>

definition slots_ok :: "gc_state \<Rightarrow> bool" where
  "slots_ok st \<longleftrightarrow> n_empty_protected_vars st = count (mset (protected_vars st)) None"

lemma locate_Some: "locate_protected_var slots v = Some i \<Longrightarrow> i < length slots \<and> slots ! i = v"
  by (induction slots arbitrary: i) (auto split: if_splits)

lemma locate_None: "locate_protected_var slots v = None \<longleftrightarrow> v \<notin> set slots"
  by (induction slots) auto

lemma count_slots_update:
  "i < length slots \<Longrightarrow> count (mset (slots[i := v])) w =
     (count (mset slots) w - (if slots ! i = w then 1 else 0)) + (if v = w then 1 else 0)"
  by (simp add: mset_update)

text \<open>C21: \<^verbatim>\<open>scm_gc_protect\<close> registers one more slot for the variable and no other, reusing an empty
  slot when there is one; \<^verbatim>\<open>scm_gc_unprotect\<close> takes one such slot away and does nothing when there is
  none. The count of empty slots stays exact.\<close>

theorem protect_unprotect_count:
  assumes "slots_ok st"
  shows "slots_ok (scm_gc_protect st var) \<and> slots_ok (scm_gc_unprotect st var) \<and>
    (\<forall>w. count (mset (protected_vars (scm_gc_protect st var))) (Some w) =
       count (mset (protected_vars st)) (Some w) + (if w = var then 1 else 0)) \<and>
    (\<forall>w. count (mset (protected_vars (scm_gc_unprotect st var))) (Some w) =
       count (mset (protected_vars st)) (Some w) - (if w = var then 1 else 0)) \<and>
    length (protected_vars (scm_gc_protect st var)) =
      length (protected_vars st) + (if None \<in> set (protected_vars st) then 0 else 1)"
proof -
  let ?s = "protected_vars st"
  have none: "n_empty_protected_vars st \<noteq> 0 \<longleftrightarrow> None \<in> set ?s"
    using assms by (simp add: slots_ok_def count_eq_zero_iff)
  have p: "slots_ok (scm_gc_protect st var) \<and>
    (\<forall>w. count (mset (protected_vars (scm_gc_protect st var))) (Some w) =
       count (mset ?s) (Some w) + (if w = var then 1 else 0)) \<and>
    length (protected_vars (scm_gc_protect st var)) = length ?s + (if None \<in> set ?s then 0 else 1)"
  proof (cases "None \<in> set ?s")
    case True
    then obtain i where i: "locate_protected_var ?s None = Some i"
      using locate_None [of ?s None] by (cases "locate_protected_var ?s None") auto
    note ii = locate_Some [OF i]
    show ?thesis
      using True none i ii assms
      by (auto simp: scm_gc_protect_def slots_ok_def count_slots_update)
  next
    case False
    then have "count (mset ?s) None = 0" by (simp add: count_eq_zero_iff)
    then show ?thesis using False none assms by (auto simp: scm_gc_protect_def slots_ok_def)
  qed
  have u: "slots_ok (scm_gc_unprotect st var) \<and>
    (\<forall>w. count (mset (protected_vars (scm_gc_unprotect st var))) (Some w) =
       count (mset ?s) (Some w) - (if w = var then 1 else 0))"
  proof (cases "locate_protected_var ?s (Some var)")
    case None
    then have "count (mset ?s) (Some var) = 0" using locate_None by (metis count_eq_zero_iff set_mset_mset)
    then have "count (mset ?s) (Some w) - (if w = var then 1 else 0) = count (mset ?s) (Some w)" for w
      by (cases "w = var") (simp_all del: count_eq_zero_iff count_mset_0_iff)
    then show ?thesis using None assms by (simp add: scm_gc_unprotect_def)
  next
    case (Some i)
    then show ?thesis
      using locate_Some [OF Some] assms
      by (auto simp: scm_gc_unprotect_def slots_ok_def count_slots_update)
  qed
  show ?thesis using p u by blast
qed

theorem protect_unprotect_count_witness:
  "count (mset (protected_vars (scm_gc_protect
     (gc_state.make 2 1 1 [] 0 0 SCM_NULL [None, Some 8] 1 [] (\<lambda>_. FreeCell SCM_NULL) (\<lambda>_. False) []) 8))) (Some 8) = 2"
  using protect_unprotect_count
    [of "gc_state.make 2 1 1 [] 0 0 SCM_NULL [None, Some 8] 1 [] (\<lambda>_. FreeCell SCM_NULL) (\<lambda>_. False) []" 8]
  by (simp add: slots_ok_def gc_state.make_def)

section \<open>The properties of the collector\<close>

lemma initialize_heap_spec:
  assumes "malloc_ok malloc" "initialize_heap malloc hs thr nmax ninit = Inr st"
  shows "gc_inv st \<and> content st = Map.empty \<and> length (heaps st) = max 1 ninit \<and> heap_size st = hs \<and>
    n_heaps_max st = nmax \<and> protected_vars st = [] \<and> vector_elements st = []"
proof -
  have add: "gc_inv st' \<and> content st' = content st \<and> length (heaps st') = length (heaps st) + n \<and>
      heap_size st' = heap_size st \<and> n_heaps_max st' = n_heaps_max st \<and>
      protected_vars st' = protected_vars st \<and> vector_elements st' = vector_elements st"
    if "gc_inv st" "add_heaps malloc n st = Inr st'" for n st st'
    using that
  proof (induction n arbitrary: st)
    case (Suc n)
    obtain st1 where st1: "add_heap malloc st = Inr st1" "add_heaps malloc n st1 = Inr st'"
      using Suc.prems(2) by (auto split: sum.splits)
    have "fresh_block st (malloc st)" using assms(1) by (simp add: malloc_ok_def)
    from add_heap_ok [OF Suc.prems(1) this st1(1)] show ?case using Suc.IH [OF _ st1(2)] by simp
  qed simp
  define st0 where "st0 = \<lparr>heap_size = hs, heap_alloc_threshold = thr,
        n_heaps_max = nmax, heaps = [], heaps_lowest = uintptr_max, heaps_highest = 0,
        freelist = SCM_NULL, protected_vars = [], n_empty_protected_vars = 0, vector_elements = [],
        cells = (\<lambda>_. FreeCell SCM_NULL), marked = (\<lambda>_. False), finalized = []\<rparr>"
  have a0: "cell_addrs st0 = []" by (simp add: cell_addrs_def st0_def)
  then have c0: "content st0 = Map.empty" by (auto simp: content_def)
  have "fchain (cells st0) (freelist st0) []" by (simp add: st0_def)
  then have "freelist_ok st0" unfolding freelist_ok_def by (intro exI [of _ "[]"]) (simp add: a0)
  then have inv: "gc_inv st0"
    by (simp add: gc_inv_def heaps_ok_def a0 c0 contents_ok_def) (simp add: st0_def)
  have "\<exists>n. n = max 1 ninit \<and> add_heaps malloc n st0 = Inr st"
    using assms(2)
    by (auto simp: initialize_heap_def scm_prealloc_heaps_def Let_def st0_def split: if_splits)
  then obtain n where n: "n = max 1 ninit" "add_heaps malloc n st0 = Inr st" by blast
  from add [OF inv n(2)] c0 n(1) show ?thesis by (simp add: st0_def)
qed

text \<open>The state of the examples: one heap of two cells, taken by the lists \<^verbatim>\<open>(1)\<close> at 16 and \<^verbatim>\<open>(2)\<close> at
  32. The stack of the examples refers to the first.\<close>

definition small_gc :: "(nat \<times> gc_state) res" where
  "small_gc =
     (case initialize_heap bump_malloc 2 1 1 1 of
        Inl e \<Rightarrow> Inl e
      | Inr st0 \<Rightarrow>
          (case scm_new_cell bump_malloc st0 [] (\<lambda>_. SCM_NULL) [] (PairCell (IntObj 1) SCM_NULL) of
             Inl e \<Rightarrow> Inl e
           | Inr (_, st1) \<Rightarrow> scm_new_cell bump_malloc st1 [] (\<lambda>_. SCM_NULL) [] (PairCell (IntObj 2) SCM_NULL)))"

definition small_st :: gc_state where
  "small_st = \<lparr>heap_size = 2, heap_alloc_threshold = 1, n_heaps_max = 1, heaps = [16],
     heaps_lowest = 16, heaps_highest = 48, freelist = SCM_NULL, protected_vars = [],
     n_empty_protected_vars = 0, vector_elements = [],
     cells = (\<lambda>_. FreeCell SCM_NULL)(16 := PairCell (IntObj 1) SCM_NULL, 32 := PairCell (IntObj 2) SCM_NULL),
     marked = (\<lambda>_. False), finalized = []\<rparr>"

lemma small_gc_runs: "small_gc = Inr (32, small_st)"
  by (simp add: small_gc_def initialize_heap_def scm_prealloc_heaps_def add_heap_def Let_def
      bump_malloc_def heap_cells_def link_cell_def RECLAIM_CELL_def scm_new_cell_def
      scm_alloc_cell_def small_st_def num_defs uintptr_max_def upt_rec)

lemma small_addrs: "cell_addrs small_st = [16, 32]"
  by (simp add: cell_addrs_def heap_cells_def small_st_def upt_rec)

lemma small_content:
  "content small_st = [16 \<mapsto> PairCell (IntObj 1) SCM_NULL, 32 \<mapsto> PairCell (IntObj 2) SCM_NULL]"
  by (rule ext) (simp add: content_def small_addrs, simp add: small_st_def)

lemma small_inv: "gc_inv small_st"
  unfolding gc_inv_def
proof (intro conjI)
  show "heaps_ok small_st" by (simp add: heaps_ok_def small_addrs) (simp add: small_st_def)
  have "fchain (cells small_st) (freelist small_st) []" by (simp add: small_st_def)
  then show "freelist_ok small_st"
    unfolding freelist_ok_def by (intro exI [of _ "[]"]) (simp add: small_addrs, auto simp: small_st_def)
  show "\<forall>a. \<not> marked small_st a" by (simp add: small_st_def)
  show "contents_ok (content small_st)" by (simp add: contents_ok_def small_content)
qed

lemma small_globals [simp]: "gc_global_roots small_st (\<lambda>_. SCM_NULL) [] = []"
  by (simp add: gc_global_roots_def small_st_def map_filter_simps)

lemma small_roots: "gc_roots small_st [Ptr PTAG_CONS 16] (\<lambda>_. SCM_NULL) [] = [Ptr PTAG_CONS 16]"
  by (simp add: gc_roots_def) (simp add: small_st_def TAG_CONSISTENTP_def)

lemma small_reach: "reach (content small_st) {Ptr PTAG_CONS 16} a \<longleftrightarrow> a = 16"
proof
  show "reach (content small_st) {Ptr PTAG_CONS 16} a \<Longrightarrow> a = 16"
    by (induction rule: reach.induct) (auto simp: small_content)
  show "a = 16 \<Longrightarrow> reach (content small_st) {Ptr PTAG_CONS 16} a"
    by (auto simp: small_content intro: reach.root [of PTAG_CONS])
qed

lemma small_reclaimed: "reclaimed small_st [Ptr PTAG_CONS 16] (\<lambda>_. SCM_NULL) [] = 1"
proof -
  have "{a. content small_st a \<noteq> None \<and> a \<noteq> 16} = {32}" by (auto simp: small_content split: if_splits)
  then show ?thesis by (simp add: reclaimed_def small_roots small_reach)
qed

lemma small_mark:
  assumes "gc_roots small_st stack (\<lambda>_. SCM_NULL) [] = [Ptr PTAG_CONS 16]"
  shows "gc_mark small_st stack (\<lambda>_. SCM_NULL) [] = MARK small_st 16"
  unfolding gc_mark_eq assms
  by (simp add: mark_objs.simps(2) small_addrs) (simp add: small_st_def mark_objs.simps(2))

lemma small_sweep:
  "gc_sweep (MARK small_st 16) =
     (small_st\<lparr>cells := (cells small_st)(32 := FreeCell SCM_NULL), freelist := Ptr PTAG_MISC 32\<rparr>, 1)"
proof -
  have "heap_cells (MARK small_st 16) 16 = [16, 32]"
    by (simp add: MARK_def) (simp add: heap_cells_def small_st_def upt_rec)
  moreover have "heaps (MARK small_st 16) = [16]" by (simp add: MARK_def small_st_def)
  ultimately show ?thesis
    by (simp add: gc_sweep_def sweep_heap_def sweep_cell_def RECLAIM_CELL_def free_cell_def)
      (simp add: MARK_def small_st_def fun_eq_iff)
qed

lemma small_alloc_cell:
  assumes "gc_roots small_st stack (\<lambda>_. SCM_NULL) [] = [Ptr PTAG_CONS 16]"
  shows "scm_new_cell bump_malloc small_st stack (\<lambda>_. SCM_NULL) [] c =
    Inr (32, small_st\<lparr>cells := (cells small_st)(32 := c)\<rparr>)"
proof -
  have "freelist small_st = SCM_NULL" "heap_alloc_threshold small_st = 1" by (simp_all add: small_st_def)
  then have "gc_mark_and_sweep bump_malloc small_st stack (\<lambda>_. SCM_NULL) [] =
      Inr (small_st\<lparr>cells := (cells small_st)(32 := FreeCell SCM_NULL), freelist := Ptr PTAG_MISC 32\<rparr>)"
    by (simp add: gc_mark_and_sweep_def small_mark [OF assms] small_sweep)
  then show ?thesis
    by (simp add: scm_new_cell_def scm_alloc_cell_def \<open>freelist small_st = SCM_NULL\<close>)
qed

lemmas small_alloc = small_alloc_cell [where c = "PairCell (Ptr PTAG_CONS 16) SCM_NULL"]

text \<open>C4: A collection is safe and complete for its roots (stack words that pass \<^verbatim>\<open>within_heapp\<close>,
  protected variables, vector elements, symbol table): exactly the cells that the roots reach keep
  their content, every other cell in use becomes free, the returned count is the number of cells
  reclaimed, and the state invariant (free list exact and duplicate free, no mark left, no
  dangling pointer) holds again.\<close>

theorem gc_collect_exact:
  assumes "gc_inv st" "\<forall>x \<in> set (gc_global_roots st vars symbol_hash). ptr_ok (content st) x"
  shows "gc_inv (fst (gc_sweep (gc_mark st stack vars symbol_hash))) \<and>
    content (fst (gc_sweep (gc_mark st stack vars symbol_hash))) =
      (\<lambda>a. if reach (content st) (set (gc_roots st stack vars symbol_hash)) a then content st a else None) \<and>
    snd (gc_sweep (gc_mark st stack vars symbol_hash)) = reclaimed st stack vars symbol_hash"
proof -
  let ?R = "gc_roots st stack vars symbol_hash"
  have ok: "\<forall>x \<in> set ?R. word_ok st x" using assms by (intro roots_word_ok) (auto simp: gc_inv_def)
  obtain st' n where sw: "gc_sweep (mark_objs st ?R) = (st', n)" by (cases "gc_sweep (mark_objs st ?R)")
  show ?thesis
    using sweep_after_mark(1,2,3) [OF assms(1) ok sw] by (simp add: gc_mark_eq sw reclaimed_def)
qed

theorem gc_collect_exact_witness:
  "content (fst (gc_sweep (gc_mark small_st [Ptr PTAG_CONS 16] (\<lambda>_. SCM_NULL) []))) 16 =
     Some (PairCell (IntObj 1) SCM_NULL) \<and>
   content (fst (gc_sweep (gc_mark small_st [Ptr PTAG_CONS 16] (\<lambda>_. SCM_NULL) []))) 32 = None"
proof -
  have "content small_st 16 = Some (PairCell (IntObj 1) SCM_NULL)" by (simp add: small_content)
  then show ?thesis
    using gc_collect_exact [OF small_inv, of "\<lambda>_. SCM_NULL" "[]" "[Ptr PTAG_CONS 16]"]
    by (simp add: small_roots small_reach)
qed

text \<open>C5: Allocating a cell never takes or changes a cell that the roots reach, whether or not the
  allocation collects: the cell was free or garbage, it holds the stored content, every reached
  cell is unchanged, and a cell that is not the new one is unchanged or was reclaimed. The objects
  of the content are safe because they are on the stack.\<close>

theorem scm_new_cell_safe:
  assumes "gc_inv st" "malloc_ok malloc"
    "\<forall>x \<in> set (gc_global_roots st vars symbol_hash). ptr_ok (content st) x"
    "\<not> freecellp c" "\<forall>x \<in> set (cell_objs c). ptr_ok (content st) x \<and> ((\<exists>t b. x = Ptr t b) \<longrightarrow> x \<in> set stack)"
    "scm_new_cell malloc st stack vars symbol_hash c = Inr (a, st')"
  shows "gc_inv st' \<and> content st' a = Some c \<and>
    \<not> reach (content st) (set (gc_roots st stack vars symbol_hash)) a \<and>
    (\<forall>b. reach (content st) (set (gc_roots st stack vars symbol_hash)) b \<longrightarrow> content st' b = content st b) \<and>
    (\<forall>b. b \<noteq> a \<longrightarrow> content st' b = content st b \<or> content st' b = None)"
  using new_cell_spec [OF assms] by (elim conjE, intro conjI)

theorem scm_new_cell_safe_witness:
  "\<exists>a st'. scm_new_cell bump_malloc small_st [Ptr PTAG_CONS 16] (\<lambda>_. SCM_NULL) []
       (PairCell (Ptr PTAG_CONS 16) SCM_NULL) = Inr (a, st') \<and>
     content st' a = Some (PairCell (Ptr PTAG_CONS 16) SCM_NULL)"
proof -
  have ok: "\<forall>x \<in> set (cell_objs (PairCell (Ptr PTAG_CONS 16) SCM_NULL)).
      ptr_ok (content small_st) x \<and> ((\<exists>t b. x = Ptr t b) \<longrightarrow> x \<in> set [Ptr PTAG_CONS 16])"
    by (simp add: small_content TAG_CONSISTENTP_def)
  from scm_new_cell_safe [OF small_inv bump_malloc_ok _ _ ok small_alloc [OF small_roots]]
  show ?thesis using small_alloc [OF small_roots] by auto
qed

text \<open>\<^verbatim>\<open>scm_init_gc\<close> starts from a state that keeps the invariant: the requested number of heaps,
  at least one, all of them free.\<close>

theorem initialize_heap_ok:
  assumes "malloc_ok malloc" "initialize_heap malloc hs thr nmax ninit = Inr st"
  shows "gc_inv st \<and> content st = Map.empty \<and> length (heaps st) = max 1 ninit \<and>
    heap_size st = hs \<and> n_heaps_max st = nmax"
  using initialize_heap_spec [OF assms] by blast

theorem initialize_heap_ok_witness:
  "\<exists>st. initialize_heap bump_malloc 2 1 1 1 = Inr st \<and> gc_inv st"
proof -
  obtain st where "initialize_heap bump_malloc 2 1 1 1 = Inr st"
    using small_gc_runs by (auto simp: small_gc_def split: sum.splits)
  then show ?thesis using initialize_heap_ok [OF bump_malloc_ok] by blast
qed

text \<open>C19: An allocation fails only when no cell is free and the collection it runs reclaims fewer cells
  than the threshold while no further heap is allowed, or reclaims none with a threshold of 0. So
  it fails even though some cells were reclaimed when these are fewer than the threshold.\<close>

theorem scm_alloc_cell_error_iff:
  assumes "gc_inv st" "malloc_ok malloc" "0 < heap_size st"
    "\<forall>x \<in> set (gc_global_roots st vars symbol_hash). ptr_ok (content st) x"
  shows "(\<exists>e. scm_alloc_cell malloc st stack vars symbol_hash = Inl e) \<longleftrightarrow>
    freelist st = SCM_NULL \<and>
    (reclaimed st stack vars symbol_hash < heap_alloc_threshold st \<and> n_heaps_max st \<le> length (heaps st) \<or>
     reclaimed st stack vars symbol_hash = 0 \<and> heap_alloc_threshold st = 0)"
proof (cases "freelist st = SCM_NULL")
  case False
  moreover have "\<exists>t a. freelist st = Ptr t a"
  proof -
    obtain fs where "fchain (cells st) (freelist st) fs"
      using assms(1) by (auto simp: gc_inv_def freelist_ok_def)
    then show ?thesis using False by (cases fs) auto
  qed
  ultimately show ?thesis by (auto simp: scm_alloc_cell_def)
next
  case True
  let ?R = "gc_roots st stack vars symbol_hash"
  have ok: "\<forall>x \<in> set ?R. word_ok st x" using assms(1,4) by (intro roots_word_ok) (auto simp: gc_inv_def)
  obtain st1 n where sw: "gc_sweep (mark_objs st ?R) = (st1, n)" by (cases "gc_sweep (mark_objs st ?R)")
  note sm = sweep_after_mark [OF assms(1) ok sw]
  have n: "n = reclaimed st stack vars symbol_hash" using sm(3) by (simp add: reclaimed_def)
  obtain m c f z where st1: "st1 = st\<lparr>marked := m, cells := c, freelist := f, finalized := z\<rparr>"
    using sm(4) by blast
  have fields: "heap_alloc_threshold st1 = heap_alloc_threshold st" "n_heaps_max st1 = n_heaps_max st"
      "heaps st1 = heaps st" "heap_size st1 = heap_size st" by (simp_all add: st1)
  have ptr: "\<exists>t a. freelist st' = Ptr t a" if inv: "gc_inv st'" "freelist st' \<noteq> SCM_NULL" for st'
  proof -
    obtain fs where "fchain (cells st') (freelist st') fs"
      using inv(1) by (auto simp: gc_inv_def freelist_ok_def)
    then show ?thesis using inv(2) by (cases fs) auto
  qed
  have ms: "gc_mark_and_sweep malloc st stack vars symbol_hash =
      (if n < heap_alloc_threshold st then add_heap malloc st1 else Inr st1)"
    by (simp add: gc_mark_and_sweep_def gc_mark_eq sw fields)
  show ?thesis
  proof (cases "n < heap_alloc_threshold st")
    case lt: True
    show ?thesis
    proof (cases "add_heap malloc st1")
      case (Inl e)
      then have "n_heaps_max st \<le> length (heaps st)"
        by (auto simp: add_heap_def fields Let_def split: if_splits prod.splits)
      then show ?thesis using True lt ms Inl n by (simp add: scm_alloc_cell_def)
    next
      case (Inr st2)
      have "fresh_block st1 (malloc st1)" using assms(2) by (simp add: malloc_ok_def)
      from add_heap_ok [OF sm(1) this Inr] have "gc_inv st2" "freelist st2 \<noteq> SCM_NULL"
        using assms(3) fields by auto
      then obtain t a where "freelist st2 = Ptr t a" using ptr by blast
      moreover have "\<not> n_heaps_max st \<le> length (heaps st)"
        using Inr by (auto simp: add_heap_def fields split: if_splits)
      ultimately show ?thesis using True lt ms Inr n by (simp add: scm_alloc_cell_def)
    qed
  next
    case ge: False
    show ?thesis
    proof (cases "freelist st1 = SCM_NULL")
      case f: True
      then have "n = 0" using sm(5) [OF True] by simp
      then show ?thesis using True ge ms f n by (simp add: scm_alloc_cell_def)
    next
      case f: False
      then obtain t a where "freelist st1 = Ptr t a" using ptr sm(1) by blast
      moreover have "n \<noteq> 0" using sm(5) [OF True] f by simp
      ultimately show ?thesis using True ge ms n by (simp add: scm_alloc_cell_def)
    qed
  qed
qed

theorem scm_alloc_cell_error_iff_witness:
  "\<not> (\<exists>e. scm_alloc_cell bump_malloc small_st [Ptr PTAG_CONS 16] (\<lambda>_. SCM_NULL) [] = Inl e)"
proof -
  have "0 < heap_size small_st" by (simp add: small_st_def)
  moreover have "\<forall>x \<in> set (gc_global_roots small_st (\<lambda>_. SCM_NULL) []). ptr_ok (content small_st) x" by simp
  ultimately have iff: "(\<exists>e. scm_alloc_cell bump_malloc small_st [Ptr PTAG_CONS 16] (\<lambda>_. SCM_NULL) [] = Inl e) \<longleftrightarrow>
      freelist small_st = SCM_NULL \<and>
      (reclaimed small_st [Ptr PTAG_CONS 16] (\<lambda>_. SCM_NULL) [] < heap_alloc_threshold small_st \<and>
         n_heaps_max small_st \<le> length (heaps small_st) \<or>
       reclaimed small_st [Ptr PTAG_CONS 16] (\<lambda>_. SCM_NULL) [] = 0 \<and> heap_alloc_threshold small_st = 0)"
    by (rule scm_alloc_cell_error_iff [OF small_inv bump_malloc_ok])
  have "heap_alloc_threshold small_st = 1" by (simp add: small_st_def)
  then show ?thesis unfolding iff by (simp add: small_reclaimed)
qed

text \<open>C20: \<^verbatim>\<open>scm_gc_protectedp\<close> on a pointer to a cell in use answers whether the pointer is on the
  stack, is held by a protected variable, or its cell is reached from the roots that are marked
  (the stack counts only inside a protected context); the collection it runs keeps the
  invariant.\<close>

theorem scm_gc_protectedp_correct:
  assumes "gc_inv st" "content st a \<noteq> None"
    "\<forall>x \<in> set (gc_global_roots st vars symbol_hash). ptr_ok (content st) x"
  shows "(fst (scm_gc_protectedp st in_context on_stack stack vars symbol_hash (Ptr t a)) \<longleftrightarrow>
      on_stack \<or> (\<exists>v. Some v \<in> set (protected_vars st) \<and> vars v = Ptr t a) \<or>
      reach (content st) (set (if in_context then gc_roots st stack vars symbol_hash
                               else gc_global_roots st vars symbol_hash)) a) \<and>
    gc_inv (snd (scm_gc_protectedp st in_context on_stack stack vars symbol_hash (Ptr t a)))"
proof -
  let ?R = "if in_context then gc_roots st stack vars symbol_hash else gc_global_roots st vars symbol_hash"
  let ?v = "\<exists>slot \<in> set (protected_vars st). \<exists>var. slot = Some var \<and> vars var = Ptr t a"
  have ok: "\<forall>x \<in> set ?R. word_ok st x"
    using roots_word_ok [of st vars symbol_hash stack] assms(1,3) ptr_ok_word_ok by (auto simp: gc_inv_def)
  obtain st' n where sw: "gc_sweep (mark_objs st ?R) = (st', n)" by (cases "gc_sweep (mark_objs st ?R)")
  note sm = sweep_after_mark [OF assms(1) ok sw]
  have mk: "(if in_context then gc_mark st stack vars symbol_hash
      else gc_mark_global_vars st vars symbol_hash) = mark_objs st ?R"
    by (simp add: gc_mark_eq mark_globals_eq)
  have "a \<in> set (cell_addrs st)" using assms(2) by (simp add: content_def split: if_splits)
  moreover have "cell_addrs st' = cell_addrs st" using sm(4) by auto
  ultimately have free: "\<not> freecellp (cells st' a) \<longleftrightarrow> content st' a \<noteq> None" by (simp add: content_def)
  have res: "scm_gc_protectedp st in_context on_stack stack vars symbol_hash (Ptr t a) =
      (if on_stack \<or> ?v then (True, st) else (\<not> freecellp (cells st' a), st'))"
    unfolding scm_gc_protectedp_def mk by (cases ?v) (auto simp: sw)
  show ?thesis
    unfolding res free using sm(1,2) assms(1,2) by auto
qed

theorem scm_gc_protectedp_correct_witness:
  "fst (scm_gc_protectedp small_st True False [Ptr PTAG_CONS 16] (\<lambda>_. SCM_NULL) [] (Ptr PTAG_CONS 16))"
proof -
  have "content small_st 16 \<noteq> None" by (simp add: small_content)
  then show ?thesis
    using scm_gc_protectedp_correct [OF small_inv, of 16 "\<lambda>_. SCM_NULL" "[]" True False "[Ptr PTAG_CONS 16]" PTAG_CONS]
    by (simp add: small_roots small_reach)
qed

text \<open>C6: \<^verbatim>\<open>reverse\<close> is right however often the allocator collects in between: on a proper list it returns,
  with a list of the elements in reverse order, or with the error that the heap is exhausted. Neither the
  list nor the result has to be held by the caller; everything that the caller's stack reaches is unchanged.\<close>

theorem gc_reverse_correct:
  assumes "malloc_ok malloc" "rt_inv vars symbol_hash st" "\<forall>x \<in> set (lst # stack). ptr_ok (content st) x"
    "list_at (content st) lst vs SCM_NULL"
  shows "\<exists>r. gc_reverse malloc vars symbol_hash stack lst st = Some r \<and>
    (case r of Inl e \<Rightarrow> e \<in> heap_exhausted
     | Inr (y, st') \<Rightarrow> list_at (content st') y (rev vs) SCM_NULL \<and> rt_inv vars symbol_hash st' \<and>
         (\<forall>b. reach (content st) (set stack) b \<longrightarrow> content st' b = content st b))"
proof -
  have "\<forall>x \<in> set (SCM_NULL # lst # stack). ptr_ok (content st) x" using assms(3) by simp
  note loop = gc_runtime.reverse_loop_spec [OF gc_runtime.intro [OF assms(1)] assms(2) this assms(4), where us = "[]"]
  have "\<not> CONSP SCM_NULL" "list_at (content st) SCM_NULL [] SCM_NULL" by simp_all
  from loop [OF this, unfolded append_Nil2]
  obtain r where r: "gc_reverse_loop malloc vars symbol_hash stack SCM_NULL lst st = Some r"
    "case r of Inl e \<Rightarrow> e \<in> heap_exhausted
     | Inr (y, u, st') \<Rightarrow> u = SCM_NULL \<and> list_at (content st') y (rev vs) SCM_NULL \<and> rt_inv vars symbol_hash st' \<and>
         (\<forall>b. reach (content st) (set stack) b \<longrightarrow> content st' b = content st b)" by blast
  show ?thesis
  proof (cases r)
    case (Inl e)
    then show ?thesis using r by (simp add: gc_reverse_def)
  next
    case (Inr p)
    obtain y u st' where "p = (y, u, st')" by (cases p)
    then show ?thesis using r Inr by (simp add: gc_reverse_def)
  qed
qed

text \<open>The heap of the example is full; \<^verbatim>\<open>(reverse '(1))\<close> has to collect the pair at 32 for its result.\<close>

theorem gc_reverse_correct_witness:
  "\<exists>y st'. gc_reverse bump_malloc (\<lambda>_. SCM_NULL) [] [Ptr PTAG_CONS 16] (Ptr PTAG_CONS 16) small_st = Some (Inr (y, st')) \<and>
     list_at (content st') y [IntObj 1] SCM_NULL \<and> content st' 16 = Some (PairCell (IntObj 1) SCM_NULL)"
proof -
  have roots: "gc_roots small_st [IntObj 1, SCM_NULL, SCM_NULL, Ptr PTAG_CONS 16] (\<lambda>_. SCM_NULL) [] = [Ptr PTAG_CONS 16]"
    by (simp add: gc_roots_def) (simp add: small_st_def TAG_CONSISTENTP_def)
  have pair: "gc_pair small_st (Ptr PTAG_CONS 16) = (IntObj 1, SCM_NULL)" by (simp add: gc_pair_def small_st_def)
  have "rt_inv (\<lambda>_. SCM_NULL) [] small_st" by (simp add: rt_inv_def small_inv)
  moreover have "\<forall>x \<in> set [Ptr PTAG_CONS 16, Ptr PTAG_CONS 16]. ptr_ok (content small_st) x"
    by (simp add: small_content TAG_CONSISTENTP_def)
  moreover have "list_at (content small_st) (Ptr PTAG_CONS 16) [IntObj 1] SCM_NULL" by (simp add: small_content)
  moreover have run: "gc_reverse bump_malloc (\<lambda>_. SCM_NULL) [] [Ptr PTAG_CONS 16] (Ptr PTAG_CONS 16) small_st =
      Some (Inr (Ptr PTAG_CONS 32, small_st\<lparr>cells := (cells small_st)(32 := PairCell (IntObj 1) SCM_NULL)\<rparr>))"
    by (simp add: gc_reverse_def gc_reverse_loop.simps pair small_alloc_cell [OF roots])
  ultimately have "list_at (content (small_st\<lparr>cells := (cells small_st)(32 := PairCell (IntObj 1) SCM_NULL)\<rparr>)) (Ptr PTAG_CONS 32)
      [IntObj 1] SCM_NULL \<and> (\<forall>b. reach (content small_st) (set [Ptr PTAG_CONS 16]) b \<longrightarrow>
        content (small_st\<lparr>cells := (cells small_st)(32 := PairCell (IntObj 1) SCM_NULL)\<rparr>) b = content small_st b)"
    using gc_reverse_correct [OF bump_malloc_ok, of "\<lambda>_. SCM_NULL" "[]" small_st "Ptr PTAG_CONS 16" "[Ptr PTAG_CONS 16]" "[IntObj 1]"]
    unfolding run by simp
  moreover have "reach (content small_st) (set [Ptr PTAG_CONS 16]) 16" by (simp add: small_reach)
  moreover have "content small_st 16 = Some (PairCell (IntObj 1) SCM_NULL)" by (simp add: small_content)
  ultimately show ?thesis using run by metis
qed

end
