(* ===== verification/Compact.thy ===== *)
theory Compact
  imports Store
begin

text \<open>
  The bit patterns of \<^verbatim>\<open>include/sigscheme/storage-compact.h\<close> on a 64 bit platform: tags of an
  object, immediate values, and the two words of a cell. The macros are translated with their
  names; \<open>ccell\<close> is \<^verbatim>\<open>ScmCell\<close>. The word of an object of theory \<open>Store\<close> is \<open>obj_word\<close>, and the
  type predicates and values on words agree with those on objects.
\<close>

section \<open>Masks and tags\<close>

definition SCM_MAKE_MASK :: "nat \<Rightarrow> nat \<Rightarrow> uintobj" where
  "SCM_MAKE_MASK offset width = push_bit (offset + width) 1 - push_bit offset 1"

definition SCM_ARSHIFT :: "uintobj \<Rightarrow> nat \<Rightarrow> uintobj" where
  "SCM_ARSHIFT x n = signed_drop_bit n x"

definition SCM_GCBIT_OFFSET :: nat where [simp]: "SCM_GCBIT_OFFSET = 0"
definition SCM_GCBIT_WIDTH :: nat where [simp]: "SCM_GCBIT_WIDTH = 1"
definition SCM_GCBIT_MASK :: uintobj where
  "SCM_GCBIT_MASK = SCM_MAKE_MASK SCM_GCBIT_OFFSET SCM_GCBIT_WIDTH"
definition SCM_GCBIT :: "uintobj \<Rightarrow> uintobj" where "SCM_GCBIT o' = o' AND SCM_GCBIT_MASK"
definition SCM_GCBIT_MARKED :: uintobj where "SCM_GCBIT_MARKED = 1"
definition SCM_GCBIT_UNMARKED :: uintobj where "SCM_GCBIT_UNMARKED = 0"

definition SCM_PTAG_OFFSET :: nat where [simp]: "SCM_PTAG_OFFSET = SCM_GCBIT_WIDTH + SCM_GCBIT_OFFSET"
definition SCM_PTAG_WIDTH :: nat where [simp]: "SCM_PTAG_WIDTH = 2"
definition SCM_PTAG_MASK :: uintobj where
  "SCM_PTAG_MASK = SCM_MAKE_MASK SCM_PTAG_OFFSET SCM_PTAG_WIDTH"
definition SCM_MAKE_PTAG :: "uintobj \<Rightarrow> uintobj" where "SCM_MAKE_PTAG i = push_bit SCM_PTAG_OFFSET i"
definition SCM_PTAG :: "uintobj \<Rightarrow> uintobj" where "SCM_PTAG o' = o' AND SCM_PTAG_MASK"
definition SCM_PTAG_SET :: "uintobj \<Rightarrow> uintobj \<Rightarrow> uintobj" where
  "SCM_PTAG_SET o' tag = (o' AND NOT SCM_PTAG_MASK) OR tag"

definition SCM_DROP_PTAG :: "uintobj \<Rightarrow> uintobj" where "SCM_DROP_PTAG o' = o' AND NOT SCM_PTAG_MASK"
definition SCM_DROP_GCBIT :: "uintobj \<Rightarrow> uintobj" where "SCM_DROP_GCBIT o' = o' AND NOT SCM_GCBIT_MASK"
definition SCM_DROP_TAG :: "uintobj \<Rightarrow> uintobj" where
  "SCM_DROP_TAG o' = o' AND NOT (SCM_GCBIT_MASK OR SCM_PTAG_MASK)"
definition SCM_UNTAGGEDP :: "uintobj \<Rightarrow> bool" where
  "SCM_UNTAGGEDP o' \<longleftrightarrow> o' AND (SCM_GCBIT_MASK OR SCM_PTAG_MASK) = 0"

definition SCM_PTAG_CONS :: uintobj where "SCM_PTAG_CONS = SCM_MAKE_PTAG 0"
definition SCM_PTAG_CLOSURE :: uintobj where "SCM_PTAG_CLOSURE = SCM_MAKE_PTAG 1"
definition SCM_PTAG_MISC :: uintobj where "SCM_PTAG_MISC = SCM_MAKE_PTAG 2"
definition SCM_PTAG_IMM :: uintobj where "SCM_PTAG_IMM = SCM_MAKE_PTAG 3"

definition SCM_SAL_CONSP :: "uintobj \<Rightarrow> bool" where "SCM_SAL_CONSP o' \<longleftrightarrow> SCM_PTAG o' = SCM_PTAG_CONS"
definition SCM_SAL_CLOSUREP :: "uintobj \<Rightarrow> bool" where
  "SCM_SAL_CLOSUREP o' \<longleftrightarrow> SCM_PTAG o' = SCM_PTAG_CLOSURE"
definition SCM_MISCP :: "uintobj \<Rightarrow> bool" where "SCM_MISCP o' \<longleftrightarrow> SCM_PTAG o' = SCM_PTAG_MISC"
definition SCM_IMMP :: "uintobj \<Rightarrow> bool" where "SCM_IMMP o' \<longleftrightarrow> SCM_PTAG o' = SCM_PTAG_IMM"
definition SCM_SYMMETRICP :: "uintobj \<Rightarrow> bool" where
  "SCM_SYMMETRICP o' \<longleftrightarrow> SCM_PTAG o' AND SCM_MAKE_PTAG 2 = 0"

section \<open>Immediate values\<close>

definition SCM_IMMID_OFFSET :: nat where [simp]: "SCM_IMMID_OFFSET = SCM_PTAG_OFFSET + SCM_PTAG_WIDTH"
definition SCM_MAKE_IMMID :: "uintobj \<Rightarrow> uintobj" where "SCM_MAKE_IMMID val = push_bit SCM_IMMID_OFFSET val"
definition SCM_MAKE_ITAG :: "uintobj \<Rightarrow> uintobj" where "SCM_MAKE_ITAG i = i OR SCM_PTAG_IMM"
definition SCM_MAKE_ITAG_MASK :: "nat \<Rightarrow> uintobj" where
  "SCM_MAKE_ITAG_MASK id_w = SCM_MAKE_MASK SCM_PTAG_OFFSET (id_w + SCM_PTAG_WIDTH)"
definition SCM_MAKE_VAL_OFFSET :: "nat \<Rightarrow> nat" where [simp]: "SCM_MAKE_VAL_OFFSET id_w = SCM_IMMID_OFFSET + id_w"

definition SCM_ITAG_INT :: uintobj where "SCM_ITAG_INT = SCM_MAKE_ITAG (SCM_MAKE_IMMID 0)"
definition SCM_ITAG_MASK_INT :: uintobj where "SCM_ITAG_MASK_INT = SCM_MAKE_ITAG_MASK 1"
definition SCM_INT_VAL_OFFSET :: nat where [simp]: "SCM_INT_VAL_OFFSET = SCM_IMMID_OFFSET + 1"
definition SCM_SAL_INTP :: "uintobj \<Rightarrow> bool" where
  "SCM_SAL_INTP o' \<longleftrightarrow> o' AND SCM_ITAG_MASK_INT = SCM_ITAG_INT"
definition SCM_SAL_MAKE_INT :: "uintobj \<Rightarrow> uintobj" where
  "SCM_SAL_MAKE_INT i = push_bit SCM_INT_VAL_OFFSET i OR SCM_ITAG_INT"
definition SCM_SAL_INT_VALUE :: "uintobj \<Rightarrow> uintobj" where
  "SCM_SAL_INT_VALUE o' = SCM_ARSHIFT o' SCM_INT_VAL_OFFSET"

definition SCM_ITAG_CHAR :: uintobj where "SCM_ITAG_CHAR = SCM_MAKE_ITAG (SCM_MAKE_IMMID 1)"
definition SCM_ITAG_MASK_CHAR :: uintobj where "SCM_ITAG_MASK_CHAR = SCM_MAKE_ITAG_MASK 2"
definition SCM_CHAR_VAL_OFFSET :: nat where [simp]: "SCM_CHAR_VAL_OFFSET = SCM_IMMID_OFFSET + 2"
definition SCM_SAL_CHARP :: "uintobj \<Rightarrow> bool" where
  "SCM_SAL_CHARP o' \<longleftrightarrow> o' AND SCM_ITAG_MASK_CHAR = SCM_ITAG_CHAR"
definition SCM_SAL_MAKE_CHAR :: "ichar \<Rightarrow> uintobj" where
  "SCM_SAL_MAKE_CHAR c = push_bit SCM_CHAR_VAL_OFFSET (scast c) OR SCM_ITAG_CHAR"
definition SCM_SAL_CHAR_VALUE :: "uintobj \<Rightarrow> ichar" where
  "SCM_SAL_CHAR_VALUE o' = ucast (drop_bit SCM_CHAR_VAL_OFFSET o')"

definition SCM_ITAG_CONST :: uintobj where "SCM_ITAG_CONST = SCM_MAKE_ITAG (SCM_MAKE_IMMID 3)"
definition SCM_ITAG_MASK_CONST :: uintobj where "SCM_ITAG_MASK_CONST = SCM_MAKE_ITAG_MASK 2"
definition SCM_CONST_VAL_OFFSET :: nat where [simp]: "SCM_CONST_VAL_OFFSET = SCM_MAKE_VAL_OFFSET 2"
definition SCM_MAKE_CONST :: "uintobj \<Rightarrow> uintobj" where
  "SCM_MAKE_CONST i = push_bit SCM_CONST_VAL_OFFSET i OR SCM_ITAG_CONST"
definition SCM_SAL_CONSTANTP :: "uintobj \<Rightarrow> bool" where
  "SCM_SAL_CONSTANTP o' \<longleftrightarrow> o' AND SCM_ITAG_MASK_CONST = SCM_ITAG_CONST"

definition SCM_SAL_NULL :: uintobj where "SCM_SAL_NULL = SCM_MAKE_CONST 0"
definition SCM_SAL_INVALID :: uintobj where "SCM_SAL_INVALID = SCM_MAKE_CONST 1"
definition SCM_SAL_UNBOUND :: uintobj where "SCM_SAL_UNBOUND = SCM_MAKE_CONST 2"
definition SCM_SAL_FALSE :: uintobj where "SCM_SAL_FALSE = SCM_MAKE_CONST 3"
definition SCM_SAL_TRUE :: uintobj where "SCM_SAL_TRUE = SCM_MAKE_CONST 4"
definition SCM_SAL_EOF :: uintobj where "SCM_SAL_EOF = SCM_MAKE_CONST 5"
definition SCM_SAL_UNDEF :: uintobj where "SCM_SAL_UNDEF = SCM_MAKE_CONST 6"

lemmas const_defs = SCM_SAL_NULL_def SCM_SAL_INVALID_def SCM_SAL_UNBOUND_def SCM_SAL_FALSE_def
  SCM_SAL_TRUE_def SCM_SAL_EOF_def SCM_SAL_UNDEF_def

section \<open>Cells\<close>

record ccell =
  obj_x :: uintobj
  obj_y :: uintobj

definition SCM_MISC_Y_GCBIT :: uintobj where "SCM_MISC_Y_GCBIT = SCM_GCBIT_MARKED"
definition SCM_CELL_MISCP :: "ccell \<Rightarrow> bool" where
  "SCM_CELL_MISCP c \<longleftrightarrow> SCM_GCBIT (obj_y c) = SCM_MISC_Y_GCBIT"
definition SCM_ISAL_CELL_MARKEDP :: "ccell \<Rightarrow> bool" where
  "SCM_ISAL_CELL_MARKEDP c \<longleftrightarrow> SCM_GCBIT (obj_x c) = SCM_GCBIT_MARKED"
definition SCM_ISAL_MARK :: "ccell \<Rightarrow> ccell" where
  "SCM_ISAL_MARK c = c\<lparr>obj_x := SCM_DROP_GCBIT (obj_x c) OR SCM_GCBIT_MARKED\<rparr>"
definition SCM_ISAL_CELL_UNMARK :: "ccell \<Rightarrow> ccell" where
  "SCM_ISAL_CELL_UNMARK c = c\<lparr>obj_x := SCM_DROP_GCBIT (obj_x c) OR SCM_GCBIT_UNMARKED\<rparr>"

definition SCM_MTAG_WIDTH :: "nat \<Rightarrow> nat" where
  "SCM_MTAG_WIDTH lv = (if lv = 1 then SCM_GCBIT_WIDTH + 2
     else if lv = 2 then SCM_GCBIT_WIDTH + 2 + 3 else SCM_GCBIT_WIDTH + 2 + 3 + 2)"
definition SCM_MTAG_MASK :: "nat \<Rightarrow> uintobj" where
  "SCM_MTAG_MASK lv = SCM_MAKE_MASK SCM_GCBIT_OFFSET (SCM_MTAG_WIDTH lv)"
definition SCM_MTAG :: "ccell \<Rightarrow> nat \<Rightarrow> uintobj" where "SCM_MTAG c lv = obj_y c AND SCM_MTAG_MASK lv"
definition SCM_MTAG_SET :: "ccell \<Rightarrow> nat \<Rightarrow> uintobj \<Rightarrow> ccell" where
  "SCM_MTAG_SET c lv t = c\<lparr>obj_y := (obj_y c AND NOT (SCM_MTAG_MASK lv)) OR t\<rparr>"

definition SCM_MAKE_MTAG_L1 :: "uintobj \<Rightarrow> uintobj" where
  "SCM_MAKE_MTAG_L1 t = push_bit (SCM_GCBIT_OFFSET + SCM_GCBIT_WIDTH) t OR SCM_MISC_Y_GCBIT"
definition SCM_MAKE_MTAG_L2 :: "uintobj \<Rightarrow> uintobj \<Rightarrow> uintobj" where
  "SCM_MAKE_MTAG_L2 t2 t1 = push_bit (SCM_GCBIT_OFFSET + SCM_MTAG_WIDTH 1) t2 OR SCM_MAKE_MTAG_L1 t1"
definition SCM_MAKE_MTAG_L3 :: "uintobj \<Rightarrow> uintobj \<Rightarrow> uintobj \<Rightarrow> uintobj" where
  "SCM_MAKE_MTAG_L3 t3 t2 t1 = push_bit (SCM_GCBIT_OFFSET + SCM_MTAG_WIDTH 2) t3 OR SCM_MAKE_MTAG_L2 t2 t1"

text \<open>The parameters that \<^verbatim>\<open>SCM_MISC_DECLARE_TYPE\<close> derives for a type: level, tag, unused bits and
  alignment of the value in \<^verbatim>\<open>obj_x\<close>, signedness of the one in \<^verbatim>\<open>obj_y\<close>.\<close>

record misc_type =
  misc_lv :: nat
  misc_tag :: uintobj
  misc_x_unused_bits :: nat
  misc_xalign :: nat
  misc_y_signed :: bool

definition XSPILL :: "misc_type \<Rightarrow> nat" where "XSPILL t = SCM_GCBIT_WIDTH - misc_xalign t"
definition XDIRECTP :: "misc_type \<Rightarrow> bool" where "XDIRECTP t \<longleftrightarrow> XSPILL t = 0"
definition XSHIFTP :: "misc_type \<Rightarrow> bool" where
  "XSHIFTP t \<longleftrightarrow> \<not> XDIRECTP t \<and> XSPILL t < misc_x_unused_bits t"
definition XSPLITP :: "misc_type \<Rightarrow> bool" where "XSPLITP t \<longleftrightarrow> \<not> (XDIRECTP t \<or> XSHIFTP t)"

definition SCM_MISC_RSHIFT_Y :: "misc_type \<Rightarrow> uintobj \<Rightarrow> nat \<Rightarrow> uintobj" where
  "SCM_MISC_RSHIFT_Y t y n = (if misc_y_signed t then SCM_ARSHIFT y n else drop_bit n y)"
definition SCM_MISC_ENCODE_Y :: "misc_type \<Rightarrow> uintobj \<Rightarrow> uintobj" where
  "SCM_MISC_ENCODE_Y t y = push_bit (SCM_MTAG_WIDTH (misc_lv t)) y OR misc_tag t"

definition SCM_MISC_X_SPLITX :: "ccell \<Rightarrow> nat \<Rightarrow> nat \<Rightarrow> uintobj" where
  "SCM_MISC_X_SPLITX c lv b = obj_x c OR (drop_bit (SCM_MTAG_WIDTH lv) (obj_y c) AND SCM_MAKE_MASK 0 b)"
definition SCM_MISC_SET_X_SPLITX :: "ccell \<Rightarrow> uintobj \<Rightarrow> nat \<Rightarrow> nat \<Rightarrow> ccell" where
  "SCM_MISC_SET_X_SPLITX c x lv b =
     c\<lparr>obj_x := x AND NOT (SCM_MAKE_MASK 0 b),
       obj_y := (obj_y c AND NOT (SCM_MAKE_MASK (SCM_MTAG_WIDTH lv) b)) OR
                push_bit (SCM_MTAG_WIDTH lv) (x AND SCM_MAKE_MASK 0 b)\<rparr>"
definition SCM_MISC_Y_SPLITX :: "ccell \<Rightarrow> misc_type \<Rightarrow> nat \<Rightarrow> nat \<Rightarrow> uintobj" where
  "SCM_MISC_Y_SPLITX c t lv b = SCM_MISC_RSHIFT_Y t (obj_y c) (SCM_MTAG_WIDTH lv + b)"
definition SCM_MISC_SET_Y_SPLITX :: "ccell \<Rightarrow> uintobj \<Rightarrow> nat \<Rightarrow> nat \<Rightarrow> ccell" where
  "SCM_MISC_SET_Y_SPLITX c y lv b =
     c\<lparr>obj_y := (obj_y c AND (SCM_MTAG_MASK lv OR SCM_MAKE_MASK (SCM_MTAG_WIDTH lv) b)) OR
               push_bit (SCM_MTAG_WIDTH lv + b) y\<rparr>"
definition SCM_MISC_INIT_SPLITX :: "uintobj \<Rightarrow> uintobj \<Rightarrow> nat \<Rightarrow> uintobj \<Rightarrow> nat \<Rightarrow> ccell" where
  "SCM_MISC_INIT_SPLITX x y lv tag b =
     \<lparr>obj_x = x AND NOT (SCM_MAKE_MASK 0 b),
      obj_y = push_bit (SCM_MTAG_WIDTH lv) (push_bit b y OR (x AND SCM_MAKE_MASK 0 b)) OR tag\<rparr>"

definition SCM_MISC_INIT :: "misc_type \<Rightarrow> uintobj \<Rightarrow> uintobj \<Rightarrow> ccell" where
  "SCM_MISC_INIT t x y =
     (if XDIRECTP t then \<lparr>obj_x = x, obj_y = SCM_MISC_ENCODE_Y t y\<rparr>
      else if XSHIFTP t then \<lparr>obj_x = push_bit (XSPILL t) x, obj_y = SCM_MISC_ENCODE_Y t y\<rparr>
      else SCM_MISC_INIT_SPLITX x y (misc_lv t) (misc_tag t) (XSPILL t))"
definition SCM_MISC_X :: "misc_type \<Rightarrow> ccell \<Rightarrow> uintobj" where
  "SCM_MISC_X t c =
     (if XDIRECTP t then obj_x c
      else if XSHIFTP t then drop_bit (XSPILL t) (obj_x c)
      else SCM_MISC_X_SPLITX c (misc_lv t) (XSPILL t))"
definition SCM_MISC_SET_X :: "misc_type \<Rightarrow> ccell \<Rightarrow> uintobj \<Rightarrow> ccell" where
  "SCM_MISC_SET_X t c x =
     (if XDIRECTP t then c\<lparr>obj_x := x\<rparr>
      else if XSHIFTP t then c\<lparr>obj_x := push_bit (XSPILL t) x\<rparr>
      else SCM_MISC_SET_X_SPLITX c x (misc_lv t) (XSPILL t))"
definition SCM_MISC_Y :: "misc_type \<Rightarrow> ccell \<Rightarrow> uintobj" where
  "SCM_MISC_Y t c =
     (if XSPLITP t then SCM_MISC_Y_SPLITX c t (misc_lv t) (XSPILL t)
      else SCM_MISC_RSHIFT_Y t (obj_y c) (SCM_MTAG_WIDTH (misc_lv t)))"
definition SCM_MISC_SET_Y :: "misc_type \<Rightarrow> ccell \<Rightarrow> uintobj \<Rightarrow> ccell" where
  "SCM_MISC_SET_Y t c y =
     (if XSPLITP t then SCM_MISC_SET_Y_SPLITX c y (misc_lv t) (XSPILL t)
      else c\<lparr>obj_y := push_bit (SCM_MTAG_WIDTH (misc_lv t)) y OR misc_tag t\<rparr>)"
definition SCM_MISC_CELL_TYPEP :: "ccell \<Rightarrow> misc_type \<Rightarrow> bool" where
  "SCM_MISC_CELL_TYPEP c t \<longleftrightarrow> SCM_MTAG c (misc_lv t) = misc_tag t"

section \<open>The types\<close>

definition misc_SYMBOL :: misc_type where
  "misc_SYMBOL = \<lparr>misc_lv = 1, misc_tag = SCM_MAKE_MTAG_L1 0, misc_x_unused_bits = 0, misc_xalign = 1, misc_y_signed = False\<rparr>"
definition misc_STRING :: misc_type where
  "misc_STRING = \<lparr>misc_lv = 1, misc_tag = SCM_MAKE_MTAG_L1 1, misc_x_unused_bits = 0, misc_xalign = 1, misc_y_signed = True\<rparr>"
definition misc_VECTOR :: misc_type where
  "misc_VECTOR = \<lparr>misc_lv = 1, misc_tag = SCM_MAKE_MTAG_L1 2, misc_x_unused_bits = 0, misc_xalign = 1, misc_y_signed = True\<rparr>"
definition misc_BYTEVECTOR :: misc_type where
  "misc_BYTEVECTOR = \<lparr>misc_lv = 2, misc_tag = SCM_MAKE_MTAG_L2 6 3, misc_x_unused_bits = 0, misc_xalign = 1, misc_y_signed = True\<rparr>"
definition misc_VALUEPACKET :: misc_type where
  "misc_VALUEPACKET = \<lparr>misc_lv = 2, misc_tag = SCM_MAKE_MTAG_L2 0 3, misc_x_unused_bits = 0, misc_xalign = 1, misc_y_signed = True\<rparr>"
definition misc_FUNC :: misc_type where
  "misc_FUNC = \<lparr>misc_lv = 2, misc_tag = SCM_MAKE_MTAG_L2 1 3, misc_x_unused_bits = 0, misc_xalign = 0, misc_y_signed = False\<rparr>"
definition misc_PORT :: misc_type where
  "misc_PORT = \<lparr>misc_lv = 2, misc_tag = SCM_MAKE_MTAG_L2 2 3, misc_x_unused_bits = 0, misc_xalign = 1, misc_y_signed = False\<rparr>"
definition misc_CONTINUATION :: misc_type where
  "misc_CONTINUATION = \<lparr>misc_lv = 2, misc_tag = SCM_MAKE_MTAG_L2 3 3, misc_x_unused_bits = 0, misc_xalign = 1, misc_y_signed = True\<rparr>"
definition misc_C_POINTER :: misc_type where
  "misc_C_POINTER = \<lparr>misc_lv = 3, misc_tag = SCM_MAKE_MTAG_L3 0 4 3, misc_x_unused_bits = 0, misc_xalign = 0, misc_y_signed = True\<rparr>"
definition misc_C_FUNCPOINTER :: misc_type where
  "misc_C_FUNCPOINTER = \<lparr>misc_lv = 3, misc_tag = SCM_MAKE_MTAG_L3 1 4 3, misc_x_unused_bits = 0, misc_xalign = 0, misc_y_signed = True\<rparr>"
definition misc_SUBPAT :: misc_type where
  "misc_SUBPAT = \<lparr>misc_lv = 3, misc_tag = SCM_MAKE_MTAG_L3 0 5 3, misc_x_unused_bits = 0, misc_xalign = 1, misc_y_signed = True\<rparr>"
definition misc_HMACRO :: misc_type where
  "misc_HMACRO = \<lparr>misc_lv = 3, misc_tag = SCM_MAKE_MTAG_L3 1 5 3, misc_x_unused_bits = 0, misc_xalign = 1, misc_y_signed = True\<rparr>"
definition misc_FARSYMBOL :: misc_type where
  "misc_FARSYMBOL = \<lparr>misc_lv = 3, misc_tag = SCM_MAKE_MTAG_L3 2 5 3, misc_x_unused_bits = 0, misc_xalign = 1, misc_y_signed = True\<rparr>"

definition misc_types :: "misc_type list" where
  "misc_types = [misc_SYMBOL, misc_STRING, misc_VECTOR, misc_BYTEVECTOR, misc_VALUEPACKET, misc_FUNC,
     misc_PORT, misc_CONTINUATION, misc_C_POINTER, misc_C_FUNCPOINTER, misc_SUBPAT, misc_HMACRO,
     misc_FARSYMBOL]"

lemmas misc_type_defs = misc_SYMBOL_def misc_STRING_def misc_VECTOR_def misc_BYTEVECTOR_def
  misc_VALUEPACKET_def misc_FUNC_def misc_PORT_def misc_CONTINUATION_def misc_C_POINTER_def
  misc_C_FUNCPOINTER_def misc_SUBPAT_def misc_HMACRO_def misc_FARSYMBOL_def

definition SCM_MTAG_FREECELL :: uintobj where "SCM_MTAG_FREECELL = SCM_MAKE_MTAG_L2 7 3"
definition SCM_ISAL_CELL_FREECELLP :: "ccell \<Rightarrow> bool" where
  "SCM_ISAL_CELL_FREECELLP c \<longleftrightarrow> obj_y c = SCM_MTAG_FREECELL"
definition SCM_ISAL_CELL_RECLAIM_CELL :: "uintobj \<Rightarrow> ccell" where
  "SCM_ISAL_CELL_RECLAIM_CELL next = \<lparr>obj_x = next, obj_y = SCM_MTAG_FREECELL\<rparr>"

text \<open>Strings keep a mutability bit below the length; vectors and bytevectors do the same.\<close>

definition SCM_STRING_MUTABILITY :: "ccell \<Rightarrow> uintobj" where
  "SCM_STRING_MUTABILITY c = SCM_MISC_Y misc_STRING c AND 1"
definition SCM_SAL_STRING_MUTABLEP :: "ccell \<Rightarrow> bool" where
  "SCM_SAL_STRING_MUTABLEP c \<longleftrightarrow> SCM_STRING_MUTABILITY c \<noteq> 0"
definition SCM_SAL_STRING_SET_MUTABLE :: "ccell \<Rightarrow> ccell" where
  "SCM_SAL_STRING_SET_MUTABLE c = SCM_MISC_SET_Y misc_STRING c (SCM_MISC_Y misc_STRING c OR 1)"
definition SCM_SAL_STRING_SET_IMMUTABLE :: "ccell \<Rightarrow> ccell" where
  "SCM_SAL_STRING_SET_IMMUTABLE c = SCM_MISC_SET_Y misc_STRING c (SCM_MISC_Y misc_STRING c AND NOT 1)"
definition SCM_SAL_STRING_STR :: "ccell \<Rightarrow> uintobj" where "SCM_SAL_STRING_STR c = SCM_MISC_X misc_STRING c"
definition SCM_SAL_STRING_LEN :: "ccell \<Rightarrow> uintobj" where
  "SCM_SAL_STRING_LEN c = SCM_ARSHIFT (SCM_MISC_Y misc_STRING c) 1"
definition SCM_SAL_STRING_SET_STR :: "ccell \<Rightarrow> uintobj \<Rightarrow> ccell" where
  "SCM_SAL_STRING_SET_STR c s = SCM_MISC_SET_X misc_STRING c s"
definition SCM_SAL_STRING_SET_LEN :: "ccell \<Rightarrow> uintobj \<Rightarrow> ccell" where
  "SCM_SAL_STRING_SET_LEN c l = SCM_MISC_SET_Y misc_STRING c (push_bit 1 l OR SCM_STRING_MUTABILITY c)"
definition SCM_ISAL_STRING_INIT :: "uintobj \<Rightarrow> uintobj \<Rightarrow> bool \<Rightarrow> ccell" where
  "SCM_ISAL_STRING_INIT s l mut = SCM_MISC_INIT misc_STRING s (push_bit 1 l OR (if mut then 1 else 0))"

section \<open>Single bits\<close>

lemma bit_MAKE_MASK [simp]: "bit (SCM_MAKE_MASK off w) n \<longleftrightarrow> off \<le> n \<and> n < off + w \<and> n < 64"
proof -
  have "SCM_MAKE_MASK off w = push_bit off (mask w)"
    by (simp add: SCM_MAKE_MASK_def mask_eq_exp_minus_1 push_bit_eq_mult power_add algebra_simps)
  then show ?thesis by (auto simp: bit_simps)
qed

lemma bit_1_word [simp]: "bit (1 :: uintobj) n \<longleftrightarrow> n = 0"
  by (simp add: bit_1_iff)

lemma bit_small_numeral [simp]:
  "bit (2 :: uintobj) n \<longleftrightarrow> n = 1" "bit (3 :: uintobj) n \<longleftrightarrow> n = 0 \<or> n = 1"
  "bit (4 :: uintobj) n \<longleftrightarrow> n = 2" "bit (5 :: uintobj) n \<longleftrightarrow> n = 0 \<or> n = 2"
  "bit (6 :: uintobj) n \<longleftrightarrow> n = 1 \<or> n = 2" "bit (7 :: uintobj) n \<longleftrightarrow> n = 0 \<or> n = 1 \<or> n = 2"
proof -
  have k: "k = push_bit 1 1 \<Longrightarrow> bit k n \<longleftrightarrow> n = 1" for k :: uintobj by (auto simp: bit_simps)
  have two: "(2 :: uintobj) = push_bit 1 1" "(4 :: uintobj) = push_bit 2 1" by simp_all
  have or: "(3 :: uintobj) = push_bit 1 1 OR 1" "(5 :: uintobj) = push_bit 2 1 OR 1"
    "(6 :: uintobj) = push_bit 2 1 OR push_bit 1 1" "(7 :: uintobj) = (push_bit 2 1 OR push_bit 1 1) OR 1"
    by simp_all
  show "bit (2 :: uintobj) n \<longleftrightarrow> n = 1" "bit (3 :: uintobj) n \<longleftrightarrow> n = 0 \<or> n = 1"
    "bit (4 :: uintobj) n \<longleftrightarrow> n = 2" "bit (5 :: uintobj) n \<longleftrightarrow> n = 0 \<or> n = 2"
    "bit (6 :: uintobj) n \<longleftrightarrow> n = 1 \<or> n = 2" "bit (7 :: uintobj) n \<longleftrightarrow> n = 0 \<or> n = 1 \<or> n = 2"
    unfolding two or bit_or_iff bit_push_bit_iff by auto
qed

lemmas imm_defs = SCM_ITAG_INT_def SCM_ITAG_MASK_INT_def SCM_ITAG_CHAR_def SCM_ITAG_MASK_CHAR_def
  SCM_ITAG_CONST_def SCM_ITAG_MASK_CONST_def SCM_MAKE_ITAG_def SCM_MAKE_ITAG_MASK_def
  SCM_MAKE_IMMID_def SCM_PTAG_IMM_def SCM_MAKE_PTAG_def SCM_MAKE_CONST_def SCM_PTAG_def SCM_PTAG_MASK_def
  SCM_PTAG_CONS_def SCM_PTAG_CLOSURE_def SCM_PTAG_MISC_def

lemmas bit_ops = bit_or_iff bit_and_iff bit_not_iff bit_push_bit_iff bit_drop_bit_eq
  bit_signed_drop_bit_iff bit_signed_take_bit_iff bit_unsigned_iff bit_signed_iff

text \<open>The value of a fixnum: 60 bits of the integer survive.\<close>

lemma int_value_bits: "SCM_SAL_INT_VALUE (SCM_SAL_MAKE_INT i) = signed_take_bit 59 i"
proof (rule bit_word_eqI)
  fix n :: nat assume "n < LENGTH(64)"
  moreover have "\<not> 60 \<le> n \<Longrightarrow> 59 \<le> n \<Longrightarrow> n = 59" by simp
  ultimately show "bit (SCM_SAL_INT_VALUE (SCM_SAL_MAKE_INT i)) n \<longleftrightarrow> bit (signed_take_bit 59 i) n"
    unfolding SCM_SAL_INT_VALUE_def SCM_SAL_MAKE_INT_def SCM_ARSHIFT_def imm_defs bit_ops
    by (cases "n = 59") (auto simp: min_def)
qed

lemma char_value: "SCM_SAL_CHAR_VALUE (SCM_SAL_MAKE_CHAR c) = c"
  by (rule bit_word_eqI, unfold SCM_SAL_CHAR_VALUE_def SCM_SAL_MAKE_CHAR_def imm_defs bit_ops)
    (auto simp: bit_ops)

lemma bit_sint_min:
  fixes i :: uintobj
  shows "bit (sint i) m \<longleftrightarrow> bit i (min m 63)"
proof (cases "m < 64")
  case True
  then have "min m 63 = m" by simp
  then show ?thesis using True by (simp add: bit_sint_iff)
next
  case False
  then have "\<not> bit i m" by (auto dest: bit_imp_le_length)
  then show ?thesis using False by (simp add: bit_sint_iff)
qed

lemma take_bit_sint_59:
  fixes i :: uintobj
  shows "signed_take_bit 59 i = i \<longleftrightarrow> SCM_INT_MIN \<le> sint i \<and> sint i \<le> SCM_INT_MAX"
proof -
  have "signed_take_bit 59 i = i \<longleftrightarrow> signed_take_bit 59 (sint i) = sint i"
  proof
    assume eq: "signed_take_bit 59 i = i"
    have b: "bit i n \<longleftrightarrow> bit i (min n 59)" if "n < 64" for n
      using arg_cong [OF eq, of "\<lambda>w. bit w n"] that by (simp add: bit_ops min.commute)
    have hi: "bit i 63 \<longleftrightarrow> bit i 59" using b [of 63] by simp
    show "signed_take_bit 59 (sint i) = sint i"
    proof (rule bit_eqI)
      fix n
      show "bit (signed_take_bit 59 (sint i)) n \<longleftrightarrow> bit (sint i) n"
      proof (cases "n < 64")
        case True
        then have "min (min 59 n) 63 = min n 59" "min n 63 = n" by auto
        then show ?thesis using b [OF True] by (simp add: bit_signed_take_bit_iff bit_sint_min)
      next
        case False
        then have "min 59 n = 59" "min n 63 = 63" by auto
        then show ?thesis using hi by (simp add: bit_signed_take_bit_iff bit_sint_min)
      qed
    qed
  next
    assume eq: "signed_take_bit 59 (sint i) = sint i"
    have b: "bit (sint i) n \<longleftrightarrow> bit (sint i) (min n 59)" for n
      using arg_cong [OF eq, of "\<lambda>k. bit k n"] by (simp add: bit_signed_take_bit_iff min.commute)
    show "signed_take_bit 59 i = i"
    proof (rule bit_word_eqI)
      fix n assume n: "n < LENGTH(64)"
      then have "min (min n 59) 63 = min 59 n" "min n 63 = n" by auto
      then show "bit (signed_take_bit 59 i) n \<longleftrightarrow> bit i n"
        using b [of n] n by (simp add: bit_signed_take_bit_iff bit_sint_min)
    qed
  qed
  also have "\<dots> \<longleftrightarrow> - (2 ^ 59) \<le> sint i \<and> sint i < 2 ^ 59"
    by (simp add: signed_take_bit_int_eq_self_iff)
  also have "\<dots> \<longleftrightarrow> SCM_INT_MIN \<le> sint i \<and> sint i \<le> SCM_INT_MAX" by (auto simp: num_defs)
  finally show ?thesis .
qed

section \<open>Every word has one type\<close>

lemma low_bits:
  "SCM_SAL_CONSP w \<longleftrightarrow> \<not> bit w 1 \<and> \<not> bit w 2" "SCM_SAL_CLOSUREP w \<longleftrightarrow> bit w 1 \<and> \<not> bit w 2"
  "SCM_MISCP w \<longleftrightarrow> \<not> bit w 1 \<and> bit w 2" "SCM_IMMP w \<longleftrightarrow> bit w 1 \<and> bit w 2"
  "SCM_SAL_INTP w \<longleftrightarrow> bit w 1 \<and> bit w 2 \<and> \<not> bit w 3"
  "SCM_SAL_CHARP w \<longleftrightarrow> bit w 1 \<and> bit w 2 \<and> bit w 3 \<and> \<not> bit w 4"
  "SCM_SAL_CONSTANTP w \<longleftrightarrow> bit w 1 \<and> bit w 2 \<and> bit w 3 \<and> bit w 4"
  unfolding SCM_SAL_CONSP_def SCM_SAL_CLOSUREP_def SCM_MISCP_def SCM_IMMP_def SCM_SAL_INTP_def
    SCM_SAL_CHARP_def SCM_SAL_CONSTANTP_def bit_eq_iff [where ?'a = "64 word"] imm_defs bit_ops
  by (auto simp: less_Suc_eq numeral_eq_Suc)

section \<open>Miscellaneous cells\<close>

abbreviation tag_width :: "misc_type \<Rightarrow> nat" where "tag_width t \<equiv> SCM_MTAG_WIDTH (misc_lv t)"

definition misc_wf :: "misc_type \<Rightarrow> bool" where
  "misc_wf t \<longleftrightarrow> misc_x_unused_bits t = 0 \<and> bit (misc_tag t) 0 \<and>
     take_bit (tag_width t) (misc_tag t) = misc_tag t"

lemma tag_width_bounds: "0 < SCM_MTAG_WIDTH lv" "SCM_MTAG_WIDTH lv \<le> 8"
  by (simp_all add: SCM_MTAG_WIDTH_def)

lemma tag_bits: "misc_wf t \<Longrightarrow> bit (misc_tag t) n \<Longrightarrow> n < tag_width t"
  unfolding misc_wf_def by (metis bit_take_bit_iff)

lemmas mtag_defs = SCM_MAKE_MTAG_L1_def SCM_MAKE_MTAG_L2_def SCM_MAKE_MTAG_L3_def
  SCM_MISC_Y_GCBIT_def SCM_GCBIT_MARKED_def SCM_MTAG_WIDTH_def

lemma misc_types_wf: "t \<in> set misc_types \<Longrightarrow> misc_wf t"
  unfolding misc_types_def misc_wf_def by (auto simp: misc_type_defs mtag_defs take_bit_eq_mask mask_eq_exp_minus_1)

text \<open>Values that a type can store: a pointer aligned as declared, a number that the bits of
  \<^verbatim>\<open>obj_y\<close> above the tag can hold.\<close>

definition x_fits :: "misc_type \<Rightarrow> uintobj \<Rightarrow> bool" where
  "x_fits t x \<longleftrightarrow> (misc_xalign t \<noteq> 0 \<longrightarrow> \<not> bit x 0)"

definition y_fits :: "misc_type \<Rightarrow> uintobj \<Rightarrow> bool" where
  "y_fits t y \<longleftrightarrow>
     (if misc_y_signed t then signed_take_bit (63 - (tag_width t + XSPILL t)) y = y
      else take_bit (64 - (tag_width t + XSPILL t)) y = y)"

lemma misc_modes:
  assumes "misc_wf t"
  shows "XDIRECTP t \<longleftrightarrow> misc_xalign t \<noteq> 0" "\<not> XSHIFTP t" "XSPLITP t \<longleftrightarrow> misc_xalign t = 0"
    "XSPILL t = (if misc_xalign t = 0 then 1 else 0)"
  using assms by (auto simp: misc_wf_def XDIRECTP_def XSHIFTP_def XSPLITP_def XSPILL_def)

lemmas misc_ops = SCM_MISC_INIT_def SCM_MISC_X_def SCM_MISC_Y_def SCM_MISC_SET_X_def SCM_MISC_SET_Y_def
  SCM_MISC_INIT_SPLITX_def SCM_MISC_X_SPLITX_def SCM_MISC_SET_X_SPLITX_def SCM_MISC_Y_SPLITX_def
  SCM_MISC_SET_Y_SPLITX_def SCM_MISC_ENCODE_Y_def SCM_MISC_RSHIFT_Y_def SCM_ARSHIFT_def

text \<open>A cell of a type, bit by bit: its tag sits in the low bits of \<^verbatim>\<open>obj_y\<close>.\<close>

lemma CELL_TYPEP_bits:
  "SCM_MISC_CELL_TYPEP c t \<longleftrightarrow>
     (\<forall>n < 64. (n < tag_width t \<and> bit (obj_y c) n) = bit (misc_tag t) n)"
  unfolding SCM_MISC_CELL_TYPEP_def SCM_MTAG_def SCM_MTAG_MASK_def bit_eq_iff [where ?'a = "64 word"] bit_and_iff
  by auto

text \<open>The operations on cells in the two modes that occur, and bit by bit.\<close>

lemma direct_ops:
  assumes "misc_wf t" "misc_xalign t \<noteq> 0"
  shows "SCM_MISC_X t c = obj_x c"
    "obj_x (SCM_MISC_INIT t x y) = x"
    "obj_y (SCM_MISC_INIT t x y) = push_bit (tag_width t) y OR misc_tag t"
    "SCM_MISC_SET_X t c x = c\<lparr>obj_x := x\<rparr>"
    "SCM_MISC_SET_Y t c y = c\<lparr>obj_y := push_bit (tag_width t) y OR misc_tag t\<rparr>"
    "SCM_MISC_Y t c = SCM_MISC_RSHIFT_Y t (obj_y c) (tag_width t)"
  using misc_modes [OF assms(1)] assms(2) by (simp_all add: misc_ops)

lemma split_ops:
  assumes "misc_wf t" "misc_xalign t = 0"
  shows "SCM_MISC_X t c = obj_x c OR (drop_bit (tag_width t) (obj_y c) AND SCM_MAKE_MASK 0 1)"
    "obj_x (SCM_MISC_INIT t x y) = x AND NOT (SCM_MAKE_MASK 0 1)"
    "obj_y (SCM_MISC_INIT t x y) =
       push_bit (tag_width t) (push_bit 1 y OR (x AND SCM_MAKE_MASK 0 1)) OR misc_tag t"
    "obj_x (SCM_MISC_SET_X t c x) = x AND NOT (SCM_MAKE_MASK 0 1)"
    "obj_y (SCM_MISC_SET_X t c x) = (obj_y c AND NOT (SCM_MAKE_MASK (tag_width t) 1)) OR
       push_bit (tag_width t) (x AND SCM_MAKE_MASK 0 1)"
    "obj_y (SCM_MISC_SET_Y t c y) =
       (obj_y c AND (SCM_MTAG_MASK (misc_lv t) OR SCM_MAKE_MASK (tag_width t) 1)) OR push_bit (tag_width t + 1) y"
    "SCM_MISC_Y t c = SCM_MISC_RSHIFT_Y t (obj_y c) (tag_width t + 1)"
  using misc_modes [OF assms(1)] assms(2) by (simp_all add: misc_ops)

lemmas word_bits = bit_or_iff bit_and_iff bit_not_iff bit_push_bit_iff bit_drop_bit_eq bit_MAKE_MASK o_def

lemma bit_X:
  assumes "misc_wf t"
  shows "bit (SCM_MISC_X t c) n \<longleftrightarrow>
    bit (obj_x c) n \<or> (misc_xalign t = 0 \<and> n = 0 \<and> bit (obj_y c) (tag_width t))"
proof (cases "misc_xalign t = 0")
  case True
  show ?thesis unfolding split_ops [OF assms True] word_bits using True by auto
qed (simp add: direct_ops [OF assms])

lemma bit_x_INIT:
  assumes "misc_wf t"
  shows "bit (obj_x (SCM_MISC_INIT t x y)) n \<longleftrightarrow> bit x n \<and> (misc_xalign t = 0 \<longrightarrow> n \<noteq> 0)"
proof (cases "misc_xalign t = 0")
  case True
  show ?thesis unfolding split_ops [OF assms True] word_bits using True by (auto dest: bit_imp_le_length)
qed (simp add: direct_ops [OF assms])

lemma bit_y_INIT:
  assumes "misc_wf t"
  shows "bit (obj_y (SCM_MISC_INIT t x y)) n \<longleftrightarrow> n < 64 \<and>
    (bit (misc_tag t) n \<or>
     (if misc_xalign t = 0 then tag_width t < n \<and> bit y (n - tag_width t - 1) \<or> n = tag_width t \<and> bit x 0
      else tag_width t \<le> n \<and> bit y (n - tag_width t)))"
proof (cases "misc_xalign t = 0")
  case True
  show ?thesis unfolding split_ops [OF assms True] word_bits using True by (auto dest: bit_imp_le_length)
next
  case False
  show ?thesis unfolding direct_ops [OF assms False] word_bits using False by (auto dest: bit_imp_le_length)
qed

lemma bit_x_SET_X:
  assumes "misc_wf t"
  shows "bit (obj_x (SCM_MISC_SET_X t c x)) n \<longleftrightarrow> bit x n \<and> (misc_xalign t = 0 \<longrightarrow> n \<noteq> 0)"
proof (cases "misc_xalign t = 0")
  case True
  show ?thesis unfolding split_ops [OF assms True] word_bits using True by (auto dest: bit_imp_le_length)
qed (simp add: direct_ops [OF assms])

lemma bit_y_SET_X:
  assumes "misc_wf t"
  shows "bit (obj_y (SCM_MISC_SET_X t c x)) n \<longleftrightarrow>
    (if misc_xalign t = 0 \<and> n = tag_width t then bit x 0 else bit (obj_y c) n)"
proof (cases "misc_xalign t = 0")
  case True
  show ?thesis
    unfolding split_ops [OF assms True] word_bits
    using True tag_width_bounds [of "misc_lv t"] by (auto dest: bit_imp_le_length)
qed (simp add: direct_ops [OF assms])

lemma bit_y_SET_Y:
  assumes "misc_wf t"
  shows "bit (obj_y (SCM_MISC_SET_Y t c y)) n \<longleftrightarrow> n < 64 \<and>
    (if misc_xalign t = 0 then n \<le> tag_width t \<and> bit (obj_y c) n \<or> tag_width t < n \<and> bit y (n - tag_width t - 1)
     else bit (misc_tag t) n \<or> tag_width t \<le> n \<and> bit y (n - tag_width t))"
proof (cases "misc_xalign t = 0")
  case True
  show ?thesis
    unfolding split_ops [OF assms True] SCM_MTAG_MASK_def word_bits
    using True tag_width_bounds [of "misc_lv t"] by (auto dest: bit_imp_le_length)
next
  case False
  have y: "obj_y (SCM_MISC_SET_Y t c y) = push_bit (tag_width t) y OR misc_tag t"
    by (simp add: direct_ops [OF assms False])
  show ?thesis
    unfolding y word_bits using False by (auto dest: bit_imp_le_length)
qed

lemma x_SET_Y: "obj_x (SCM_MISC_SET_Y t c y) = obj_x c"
  by (simp add: misc_ops)

lemma bit_RSHIFT:
  assumes "k < 64"
  shows "bit (SCM_MISC_RSHIFT_Y t w k) n \<longleftrightarrow> n < 64 \<and>
    bit w (if misc_y_signed t \<and> 64 - k \<le> n then 63 else k + n)"
  using assms unfolding SCM_MISC_RSHIFT_Y_def SCM_ARSHIFT_def
  by (auto simp: bit_signed_drop_bit_iff bit_drop_bit_eq dest: bit_imp_le_length)

lemma bit_Y:
  assumes "misc_wf t"
  shows "bit (SCM_MISC_Y t c) n \<longleftrightarrow> n < 64 \<and>
    bit (obj_y c) (if misc_y_signed t \<and> 64 - (tag_width t + XSPILL t) \<le> n then 63
                   else tag_width t + XSPILL t + n)"
proof (cases "misc_xalign t = 0")
  case True
  have "tag_width t + 1 < 64" using tag_width_bounds(2) [of "misc_lv t"] by simp
  then show ?thesis
    unfolding split_ops [OF assms True] using True misc_modes [OF assms] by (simp only: bit_RSHIFT) simp
next
  case False
  have "tag_width t < 64" using tag_width_bounds(2) [of "misc_lv t"] by simp
  then show ?thesis
    unfolding direct_ops [OF assms False] using False misc_modes [OF assms] by (simp only: bit_RSHIFT) simp
qed

section \<open>Reading back what was stored\<close>

lemma INIT_typep: "misc_wf t \<Longrightarrow> SCM_MISC_CELL_TYPEP (SCM_MISC_INIT t x y) t"
  using tag_bits [of t] unfolding CELL_TYPEP_bits by (auto simp: bit_y_INIT)

lemma SET_typep:
  assumes "misc_wf t" "SCM_MISC_CELL_TYPEP c t"
  shows "SCM_MISC_CELL_TYPEP (SCM_MISC_SET_X t c x) t" "SCM_MISC_CELL_TYPEP (SCM_MISC_SET_Y t c y) t"
  using tag_bits [OF assms(1)] assms(2) unfolding CELL_TYPEP_bits
  by (auto simp: bit_y_SET_X [OF assms(1)] bit_y_SET_Y [OF assms(1)] less_imp_le split: if_splits)

lemma y_fits_bits:
  assumes "y_fits t y" "misc_wf t" "n < 64"
  shows "bit y n \<longleftrightarrow> (if 63 - (tag_width t + XSPILL t) < n
    then misc_y_signed t \<and> bit y (63 - (tag_width t + XSPILL t)) else bit y n)"
proof (cases "misc_y_signed t")
  case True
  let ?k = "63 - (tag_width t + XSPILL t)"
  have "signed_take_bit ?k y = y" using assms(1) True by (simp add: y_fits_def)
  then have "bit y n \<longleftrightarrow> bit (signed_take_bit ?k y) n" by simp
  then show ?thesis using True assms(3) by (simp add: bit_signed_take_bit_iff min_def not_le)
next
  case False
  let ?k = "64 - (tag_width t + XSPILL t)"
  have "take_bit ?k y = y" using assms(1) False by (simp add: y_fits_def)
  then have "bit y n \<longleftrightarrow> bit (take_bit ?k y) n" by simp
  moreover have "tag_width t + XSPILL t \<le> 9"
    using misc_modes [OF assms(2)] tag_width_bounds [of "misc_lv t"] by simp
  ultimately show ?thesis using False by (auto simp: bit_take_bit_iff)
qed

lemma X_INIT: "misc_wf t \<Longrightarrow> x_fits t x \<Longrightarrow> SCM_MISC_X t (SCM_MISC_INIT t x y) = x"
  by (rule bit_word_eqI)
    (use tag_bits [of t "tag_width t"] tag_width_bounds [of "misc_lv t"] in
     \<open>auto simp: bit_X bit_x_INIT bit_y_INIT x_fits_def intro!: gr0I\<close>)

lemma X_SET_X: "misc_wf t \<Longrightarrow> SCM_MISC_X t (SCM_MISC_SET_X t c x) = x"
  by (rule bit_word_eqI) (auto simp: bit_X bit_x_SET_X bit_y_SET_X intro!: gr0I)

lemma X_SET_Y: "misc_wf t \<Longrightarrow> SCM_MISC_X t (SCM_MISC_SET_Y t c y) = SCM_MISC_X t c"
  by (rule bit_word_eqI)
    (use tag_width_bounds [of "misc_lv t"] in \<open>auto simp: bit_X x_SET_Y bit_y_SET_Y\<close>)

lemma Y_SET_X: "misc_wf t \<Longrightarrow> SCM_MISC_Y t (SCM_MISC_SET_X t c x) = SCM_MISC_Y t c"
  by (rule bit_word_eqI)
    (use tag_width_bounds [of "misc_lv t"] misc_modes [of t] in \<open>auto simp: bit_Y bit_y_SET_X\<close>)

lemma Y_of_bits:
  assumes wf: "misc_wf t" and fits: "y_fits t y"
    and y: "\<And>n. tag_width t + XSPILL t \<le> n \<Longrightarrow> n < 64 \<Longrightarrow>
      bit (obj_y c) n \<longleftrightarrow> bit y (n - (tag_width t + XSPILL t))"
  shows "SCM_MISC_Y t c = y"
proof (rule bit_word_eqI)
  fix n :: nat assume "n < LENGTH(64)"
  then have n: "n < 64" by simp
  let ?k = "tag_width t + XSPILL t"
  have k: "?k \<le> 9" using misc_modes [OF wf] tag_width_bounds [of "misc_lv t"] by simp
  show "bit (SCM_MISC_Y t c) n \<longleftrightarrow> bit y n"
  proof (cases "64 - ?k \<le> n")
    case True
    then have "63 - ?k < n" using k by simp
    moreover have "bit (obj_y c) 63 \<longleftrightarrow> bit y (63 - ?k)" using y [of 63] k by simp
    moreover have "\<not> bit (obj_y c) (?k + n)" using True by (auto dest: bit_imp_le_length)
    ultimately show ?thesis
      using y_fits_bits [OF fits wf n] True n by (simp add: bit_Y [OF wf])
  next
    case False
    then show ?thesis using y [of "?k + n"] n by (simp add: bit_Y [OF wf])
  qed
qed

lemma Y_INIT: "misc_wf t \<Longrightarrow> y_fits t y \<Longrightarrow> SCM_MISC_Y t (SCM_MISC_INIT t x y) = y"
  using tag_bits [of t] misc_modes [of t] by (intro Y_of_bits) (force simp: bit_y_INIT)+

lemma Y_SET_Y: "misc_wf t \<Longrightarrow> y_fits t y \<Longrightarrow> SCM_MISC_Y t (SCM_MISC_SET_Y t c y) = y"
  using tag_bits [of t] misc_modes [of t] by (intro Y_of_bits) (force simp: bit_y_SET_Y)+

section \<open>Types exclude each other\<close>

lemma mtag_masks: "SCM_MTAG_MASK 1 = 7" "SCM_MTAG_MASK (Suc 0) = 7" "SCM_MTAG_MASK 2 = 63" "SCM_MTAG_MASK 3 = 255"
  by (simp_all add: SCM_MTAG_MASK_def SCM_MTAG_WIDTH_def SCM_MAKE_MASK_def)

lemma mtag_values:
  "map (\<lambda>t. (misc_lv t, misc_tag t)) misc_types =
     [(1, 1), (1, 3), (1, 5), (2, 55), (2, 7), (2, 15), (2, 23), (2, 31), (3, 39), (3, 103), (3, 47), (3, 111), (3, 175)]"
  by (simp add: misc_types_def misc_type_defs mtag_defs)

definition tags_meet :: "nat \<times> uintobj \<Rightarrow> nat \<times> uintobj \<Rightarrow> bool" where
  "tags_meet a b \<longleftrightarrow> (let m = SCM_MTAG_MASK (if fst a \<le> fst b then fst a else fst b) in snd a AND m = snd b AND m)"

lemma tags_apart: "sorted_wrt (\<lambda>a b. \<not> tags_meet a b) (map (\<lambda>t. (misc_lv t, misc_tag t)) misc_types)"
  unfolding mtag_values by (simp add: tags_meet_def mtag_masks)

lemma tags_meet_table:
  assumes "i < length misc_types" "j < length misc_types"
    "tags_meet (misc_lv (misc_types ! i), misc_tag (misc_types ! i))
       (misc_lv (misc_types ! j), misc_tag (misc_types ! j))"
  shows "i = j"
proof (rule ccontr)
  have apart: "k < l \<Longrightarrow> l < length misc_types \<Longrightarrow>
      \<not> tags_meet (misc_lv (misc_types ! k), misc_tag (misc_types ! k))
         (misc_lv (misc_types ! l), misc_tag (misc_types ! l))" for k l
    using tags_apart by (simp add: sorted_wrt_iff_nth_less)
  have sym: "tags_meet a b = tags_meet b a" for a b
    by (auto simp: tags_meet_def Let_def)
  assume "i \<noteq> j"
  then show False using apart [of i j] apart [of j i] assms sym by (metis nat_neq_iff)
qed

lemma misc_types_exclusive:
  assumes "t \<in> set misc_types" "u \<in> set misc_types" "t \<noteq> u"
  shows "\<not> (SCM_MISC_CELL_TYPEP c t \<and> SCM_MISC_CELL_TYPEP c u)"
proof
  assume c: "SCM_MISC_CELL_TYPEP c t \<and> SCM_MISC_CELL_TYPEP c u"
  obtain i j where ij: "i < length misc_types" "j < length misc_types" "t = misc_types ! i" "u = misc_types ! j"
    using assms(1,2) by (auto simp: in_set_conv_nth)
  define m where "m = (if misc_lv t \<le> misc_lv u then misc_lv t else misc_lv u)"
  have "misc_tag v AND SCM_MTAG_MASK m = obj_y c AND SCM_MTAG_MASK m"
    if "SCM_MISC_CELL_TYPEP c v" "m \<le> misc_lv v" for v
  proof -
    have "SCM_MTAG_WIDTH m \<le> tag_width v" if "1 \<le> m" using that \<open>m \<le> misc_lv v\<close> by (auto simp: SCM_MTAG_WIDTH_def)
    moreover have "1 \<le> m" using assms(1,2) unfolding m_def misc_types_def by (auto simp: misc_type_defs)
    ultimately show ?thesis
      using that(1) unfolding SCM_MISC_CELL_TYPEP_def SCM_MTAG_def
      by (auto intro!: bit_word_eqI simp: SCM_MTAG_MASK_def bit_and_iff bit_eq_iff)
  qed
  then have "tags_meet (misc_lv t, misc_tag t) (misc_lv u, misc_tag u)"
    using c by (auto simp: tags_meet_def m_def Let_def)
  then have "i = j" using tags_meet_table [of i j] ij by simp
  then show False using ij assms(3) by simp
qed

lemma not_freecell:
  assumes "t \<in> set misc_types" "SCM_MISC_CELL_TYPEP c t"
  shows "\<not> SCM_ISAL_CELL_FREECELLP c"
proof
  assume "SCM_ISAL_CELL_FREECELLP c"
  then have "obj_y c = SCM_MTAG_FREECELL" by (simp add: SCM_ISAL_CELL_FREECELLP_def)
  then have "SCM_MTAG_FREECELL AND SCM_MTAG_MASK (misc_lv t) = misc_tag t"
    using assms(2) by (simp add: SCM_MISC_CELL_TYPEP_def SCM_MTAG_def)
  then show False using assms(1) unfolding misc_types_def SCM_MTAG_FREECELL_def
    by (auto simp: misc_type_defs mtag_defs SCM_MTAG_MASK_def SCM_MAKE_MASK_def)
qed

lemma GCBIT_bit: "SCM_GCBIT w = (if bit w 0 then 1 else 0)"
  by (rule bit_word_eqI) (auto simp: SCM_GCBIT_def SCM_GCBIT_MASK_def bit_and_iff intro!: gr0I)

lemma mark_bits:
  "SCM_ISAL_CELL_MARKEDP c \<longleftrightarrow> bit (obj_x c) 0" "SCM_CELL_MISCP c \<longleftrightarrow> bit (obj_y c) 0"
  "bit (obj_x (SCM_ISAL_MARK c)) n \<longleftrightarrow> n = 0 \<or> bit (obj_x c) n"
  "bit (obj_x (SCM_ISAL_CELL_UNMARK c)) n \<longleftrightarrow> n \<noteq> 0 \<and> bit (obj_x c) n"
  "obj_y (SCM_ISAL_MARK c) = obj_y c" "obj_y (SCM_ISAL_CELL_UNMARK c) = obj_y c"
  by (auto simp: SCM_ISAL_CELL_MARKEDP_def SCM_CELL_MISCP_def SCM_MISC_Y_GCBIT_def SCM_GCBIT_MARKED_def
      SCM_GCBIT_UNMARKED_def GCBIT_bit SCM_ISAL_MARK_def SCM_ISAL_CELL_UNMARK_def SCM_DROP_GCBIT_def
      SCM_GCBIT_MASK_def bit_or_iff bit_and_iff bit_not_iff dest: bit_imp_le_length)

lemma UNMARK_MARK: "SCM_ISAL_CELL_UNMARK (SCM_ISAL_MARK c) = SCM_ISAL_CELL_UNMARK c"
  and UNMARK_id: "\<not> SCM_ISAL_CELL_MARKEDP c \<Longrightarrow> SCM_ISAL_CELL_UNMARK c = c"
proof -
  have eqI: "obj_y a = obj_y b \<Longrightarrow> (\<And>n. bit (obj_x a) n = bit (obj_x b) n) \<Longrightarrow> a = b" for a b :: ccell
    by (cases a, cases b) (auto simp: bit_eq_iff)
  show "SCM_ISAL_CELL_UNMARK (SCM_ISAL_MARK c) = SCM_ISAL_CELL_UNMARK c"
    by (rule eqI) (auto simp: mark_bits)
  show "\<not> SCM_ISAL_CELL_MARKEDP c \<Longrightarrow> SCM_ISAL_CELL_UNMARK c = c"
    by (rule eqI) (auto simp: mark_bits intro!: gr0I)
qed

lemma INIT_unmarked:
  assumes "misc_wf t" "x_fits t x"
  shows "\<not> SCM_ISAL_CELL_MARKEDP (SCM_MISC_INIT t x y)"
  using assms by (auto simp: mark_bits bit_x_INIT x_fits_def)

lemma TYPEP_miscp: "misc_wf t \<Longrightarrow> SCM_MISC_CELL_TYPEP c t \<Longrightarrow> SCM_CELL_MISCP c"
  using tag_width_bounds(1) [of "misc_lv t"] unfolding mark_bits CELL_TYPEP_bits misc_wf_def
  by (auto dest: spec [of _ 0])

section \<open>Properties of the cell layout\<close>

text \<open>C22: a fixnum word decodes to the integer it was made of exactly when that integer is in the
  range \<^verbatim>\<open>SCM_INT_MIN\<close>..\<^verbatim>\<open>SCM_INT_MAX\<close>; outside it the top bits are silently lost. The word is a
  fixnum and of no other immediate type.\<close>

theorem fixnum_roundtrip:
  "(SCM_SAL_INT_VALUE (SCM_SAL_MAKE_INT i) = i) = (SCM_INT_MIN \<le> sint i \<and> sint i \<le> SCM_INT_MAX) \<and>
   SCM_SAL_INTP (SCM_SAL_MAKE_INT i) \<and> SCM_IMMP (SCM_SAL_MAKE_INT i) \<and>
   \<not> SCM_SAL_CHARP (SCM_SAL_MAKE_INT i) \<and> \<not> SCM_SAL_CONSTANTP (SCM_SAL_MAKE_INT i)"
proof -
  have "bit (SCM_SAL_MAKE_INT i) 1" "bit (SCM_SAL_MAKE_INT i) 2" "\<not> bit (SCM_SAL_MAKE_INT i) 3"
    unfolding SCM_SAL_MAKE_INT_def imm_defs bit_ops by auto
  then show ?thesis by (simp add: low_bits int_value_bits take_bit_sint_59)
qed

text \<open>for each of the thirteen types of miscellaneous cells, and all values the type can store:
  an initialised cell gives back both values, carries its own type tag and no other type's, is
  not a free cell, is recognised as a miscellaneous cell by the collector and is unmarked.\<close>

theorem misc_cell_init:
  assumes "t \<in> set misc_types" "x_fits t x" "y_fits t y"
  shows "SCM_MISC_X t (SCM_MISC_INIT t x y) = x \<and> SCM_MISC_Y t (SCM_MISC_INIT t x y) = y \<and>
    (\<forall>u \<in> set misc_types. SCM_MISC_CELL_TYPEP (SCM_MISC_INIT t x y) u = (u = t)) \<and>
    \<not> SCM_ISAL_CELL_FREECELLP (SCM_MISC_INIT t x y) \<and> SCM_CELL_MISCP (SCM_MISC_INIT t x y) \<and>
    \<not> SCM_ISAL_CELL_MARKEDP (SCM_MISC_INIT t x y)"
proof -
  note wf = misc_types_wf [OF assms(1)]
  note ty = INIT_typep [OF wf, of x y]
  have "SCM_MISC_CELL_TYPEP (SCM_MISC_INIT t x y) u = (u = t)" if "u \<in> set misc_types" for u
    using misc_types_exclusive [OF assms(1) that] ty by blast
  then show ?thesis
    using X_INIT [OF wf assms(2)] Y_INIT [OF wf assms(3)] not_freecell [OF assms(1) ty]
      TYPEP_miscp [OF wf ty] INIT_unmarked [OF wf assms(2)] by blast
qed

lemma misc_cell_init_witness:
  "SCM_MISC_X misc_FUNC (SCM_MISC_INIT misc_FUNC 0x7f01 5) = 0x7f01 \<and>
   SCM_MISC_Y misc_FUNC (SCM_MISC_INIT misc_FUNC 0x7f01 5) = 5"
  using misc_cell_init [of misc_FUNC "0x7f01" 5]
  by (simp add: misc_types_def x_fits_def y_fits_def misc_FUNC_def XSPILL_def SCM_MTAG_WIDTH_def
      take_bit_eq_mask mask_eq_exp_minus_1)

text \<open>writing one field of a miscellaneous cell gives that value back, keeps the other field and
  the type, whatever the cell held before.\<close>

theorem misc_cell_set:
  assumes "t \<in> set misc_types" "SCM_MISC_CELL_TYPEP c t" "y_fits t y"
  shows "SCM_MISC_X t (SCM_MISC_SET_X t c x) = x \<and> SCM_MISC_Y t (SCM_MISC_SET_X t c x) = SCM_MISC_Y t c \<and>
    SCM_MISC_Y t (SCM_MISC_SET_Y t c y) = y \<and> SCM_MISC_X t (SCM_MISC_SET_Y t c y) = SCM_MISC_X t c \<and>
    SCM_MISC_CELL_TYPEP (SCM_MISC_SET_X t c x) t \<and> SCM_MISC_CELL_TYPEP (SCM_MISC_SET_Y t c y) t"
  using misc_types_wf [OF assms(1)] assms(2,3)
  by (simp add: X_SET_X X_SET_Y Y_SET_X Y_SET_Y SET_typep)

lemma misc_cell_set_witness:
  "SCM_MISC_Y misc_VECTOR (SCM_MISC_SET_Y misc_VECTOR (SCM_MISC_INIT misc_VECTOR 64 2) 7) = 7"
proof -
  have t: "misc_VECTOR \<in> set misc_types" by (simp add: misc_types_def)
  have f: "y_fits misc_VECTOR 7"
    by (simp add: y_fits_def misc_VECTOR_def XSPILL_def SCM_MTAG_WIDTH_def signed_take_bit_eq_if_positive
        take_bit_eq_mask mask_eq_exp_minus_1)
  show ?thesis
    using misc_cell_set [OF t INIT_typep [OF misc_types_wf [OF t], of 64 2] f, of 0] by blast
qed

text \<open>the mark bit shares \<^verbatim>\<open>obj_x\<close> with the payload. Marking changes neither the type of a cell
  nor its second field, and unmarking gives back the very cell that was marked, so a collection is
  invisible to the owner of a live cell.\<close>

theorem mark_transparent:
  assumes "\<not> SCM_ISAL_CELL_MARKEDP c"
  shows "SCM_ISAL_CELL_MARKEDP (SCM_ISAL_MARK c) \<and> SCM_ISAL_CELL_UNMARK (SCM_ISAL_MARK c) = c \<and>
    SCM_CELL_MISCP (SCM_ISAL_MARK c) = SCM_CELL_MISCP c \<and>
    SCM_MISC_CELL_TYPEP (SCM_ISAL_MARK c) t = SCM_MISC_CELL_TYPEP c t \<and>
    SCM_MISC_Y t (SCM_ISAL_MARK c) = SCM_MISC_Y t c"
proof -
  have "SCM_MISC_Y t (SCM_ISAL_MARK c) = SCM_MISC_Y t c"
    by (simp add: SCM_MISC_Y_def SCM_MISC_Y_SPLITX_def mark_bits)
  then show ?thesis
    using UNMARK_id [OF assms] by (simp add: UNMARK_MARK mark_bits CELL_TYPEP_bits)
qed

lemma mark_transparent_witness:
  "SCM_ISAL_CELL_UNMARK (SCM_ISAL_MARK (SCM_MISC_INIT misc_STRING 32 10)) = SCM_MISC_INIT misc_STRING 32 10"
proof -
  have "\<not> SCM_ISAL_CELL_MARKEDP (SCM_MISC_INIT misc_STRING 32 10)"
    by (rule INIT_unmarked) (auto intro: misc_types_wf simp: misc_types_def x_fits_def bit_numeral_rec)
  from mark_transparent [OF this] show ?thesis by blast
qed

definition string_len_fits :: "uintobj \<Rightarrow> bool" where
  "string_len_fits l \<longleftrightarrow> signed_take_bit 59 l = l"

lemma string_type: "misc_STRING \<in> set misc_types" "misc_wf misc_STRING"
  by (auto intro: misc_types_wf simp: misc_types_def)

lemma string_y_fits:
  assumes "string_len_fits l" "k = 0 \<or> k = 1"
  shows "y_fits misc_STRING (push_bit 1 l OR k)"
proof -
  have l: "bit l n = bit l (min n 59)" if "n < 64" for n
    using arg_cong [OF assms(1) [unfolded string_len_fits_def], of "\<lambda>w. bit w n"] that
    by (simp add: bit_signed_take_bit_iff min.commute)
  have "signed_take_bit 60 (push_bit 1 l OR k) = push_bit 1 l OR k"
  proof (rule bit_word_eqI)
    fix n :: nat assume "n < LENGTH(64)"
    then have n: "n < 64" by simp
    have m: "min 60 n < 64" "min (min 60 n - 1) 59 = min (n - 1) 59" using n by auto
    have k: "bit k (min 60 n) = bit k n" using assms(2) by (auto simp: min_def)
    show "bit (signed_take_bit 60 (push_bit 1 l OR k)) n = bit (push_bit 1 l OR k) n"
    proof (cases "n = 0")
      case True
      then show ?thesis using assms(2) by (auto simp: bit_ops)
    next
      case False
      then have "bit l (min 60 n - 1) = bit l (n - 1)" using l [of "min 60 n - 1"] l [of "n - 1"] n m by auto
      then show ?thesis using False n m k unfolding bit_ops by auto
    qed
  qed
  then show ?thesis by (simp add: y_fits_def misc_STRING_def XSPILL_def SCM_MTAG_WIDTH_def)
qed

lemma len_of_shifted:
  assumes "string_len_fits l" "k = 0 \<or> k = 1"
  shows "SCM_ARSHIFT (push_bit 1 l OR k) 1 = l" "(push_bit 1 l OR k) AND 1 = k"
proof -
  have l: "bit l n = bit l (min n 59)" if "n < 64" for n
    using arg_cong [OF assms(1) [unfolded string_len_fits_def], of "\<lambda>w. bit w n"] that
    by (simp add: bit_signed_take_bit_iff min.commute)
  show "SCM_ARSHIFT (push_bit 1 l OR k) 1 = l"
  proof (rule bit_word_eqI)
    fix n :: nat assume "n < LENGTH(64)"
    then have n: "n < 64" by simp
    have "bit l 62 = bit l 63" using l [of 62] l [of 63] by simp
    moreover have "n = 63" if "63 \<le> n" using that n by simp
    ultimately show "bit (SCM_ARSHIFT (push_bit 1 l OR k) 1) n = bit l n"
      using assms(2) n unfolding SCM_ARSHIFT_def bit_ops
      by (cases "n = 63") (auto simp: bit_ops)
  qed
  show "(push_bit 1 l OR k) AND 1 = k"
  proof (rule bit_word_eqI)
    fix n :: nat
    show "bit ((push_bit 1 l OR k) AND 1) n = bit k n"
      using assms(2) unfolding bit_ops by (cases "n = 0") auto
  qed
qed

text \<open>a string cell stores pointer, length and mutability in two words. For every pointer aligned to
  two bytes and every length of 59 bits: initialisation gives all three back, setting the length
  keeps pointer and mutability, and changing the mutability keeps pointer and length.\<close>

theorem string_cell_fields:
  fixes s l l' :: uintobj and mut :: bool
  assumes "\<not> bit s 0" "string_len_fits l" "string_len_fits l'"
  defines "c \<equiv> SCM_ISAL_STRING_INIT s l mut"
  shows "SCM_SAL_STRING_STR c = s \<and> SCM_SAL_STRING_LEN c = l \<and> SCM_SAL_STRING_MUTABLEP c = mut \<and>
    SCM_SAL_STRING_STR (SCM_SAL_STRING_SET_LEN c l') = s \<and>
    SCM_SAL_STRING_LEN (SCM_SAL_STRING_SET_LEN c l') = l' \<and>
    SCM_SAL_STRING_MUTABLEP (SCM_SAL_STRING_SET_LEN c l') = mut \<and>
    SCM_SAL_STRING_LEN (SCM_SAL_STRING_SET_IMMUTABLE c) = l \<and>
    \<not> SCM_SAL_STRING_MUTABLEP (SCM_SAL_STRING_SET_IMMUTABLE c) \<and>
    SCM_SAL_STRING_LEN (SCM_SAL_STRING_SET_MUTABLE c) = l \<and>
    SCM_SAL_STRING_MUTABLEP (SCM_SAL_STRING_SET_MUTABLE c)"
proof -
  let ?k = "if mut then 1 else 0 :: uintobj"
  have k: "?k = 0 \<or> ?k = 1" by simp
  note wf = string_type(2)
  have x: "x_fits misc_STRING s" using assms(1) by (simp add: x_fits_def)
  have Y: "SCM_MISC_Y misc_STRING c = push_bit 1 l OR ?k" and X: "SCM_MISC_X misc_STRING c = s"
    using Y_INIT [OF wf string_y_fits [OF assms(2) k]] X_INIT [OF wf x]
    by (simp_all only: c_def SCM_ISAL_STRING_INIT_def)
  note accs = SCM_SAL_STRING_STR_def SCM_SAL_STRING_LEN_def SCM_SAL_STRING_MUTABLEP_def SCM_STRING_MUTABILITY_def
    SCM_SAL_STRING_SET_LEN_def SCM_SAL_STRING_SET_IMMUTABLE_def SCM_SAL_STRING_SET_MUTABLE_def
  have imm: "(push_bit 1 l OR ?k) AND NOT 1 = push_bit 1 l OR 0" "(push_bit 1 l OR ?k) OR 1 = push_bit 1 l OR 1"
    unfolding bit_eq_iff [where ?'a = "64 word"] bit_ops by auto
  have set: "SCM_MISC_Y misc_STRING (SCM_MISC_SET_Y misc_STRING c (push_bit 1 m OR j)) = push_bit 1 m OR j"
    if "string_len_fits m" "j = 0 \<or> j = 1" for m j
    by (rule Y_SET_Y [OF wf string_y_fits [OF that]])
  have m: "(push_bit 1 l OR ?k) AND 1 = ?k" by (rule len_of_shifted(2) [OF assms(2) k])
  show ?thesis
    unfolding accs Y X m imm X_SET_Y [OF wf] set [OF assms(3) k] set [OF assms(2), of 0, simplified]
      set [OF assms(2), of 1, simplified] len_of_shifted [OF assms(2) k] len_of_shifted [OF assms(3) k]
    using set [OF assms(2), of 0] set [OF assms(2), of 1] len_of_shifted [OF assms(2), of 0] len_of_shifted [OF assms(2), of 1]
    by simp
qed

lemma string_cell_fields_witness:
  "SCM_SAL_STRING_LEN (SCM_SAL_STRING_SET_LEN (SCM_ISAL_STRING_INIT 4096 5 True) 3) = 3"
  using string_cell_fields [of 4096 5 3 True]
  by (simp add: string_len_fits_def signed_take_bit_eq_if_positive take_bit_eq_mask mask_eq_exp_minus_1 bit_numeral_rec)

section \<open>Objects as words\<close>

text \<open>\<open>loc\<close> gives the address of a cell; cells are aligned to 8 bytes, so the tag bits are free.\<close>

definition ptag_word :: "ptag \<Rightarrow> uintobj" where
  "ptag_word t = (case t of PTAG_CONS \<Rightarrow> SCM_PTAG_CONS | PTAG_CLOSURE \<Rightarrow> SCM_PTAG_CLOSURE | PTAG_MISC \<Rightarrow> SCM_PTAG_MISC)"

fun obj_word :: "(nat \<Rightarrow> uintobj) \<Rightarrow> obj \<Rightarrow> uintobj" where
  "obj_word loc SCM_NULL = SCM_SAL_NULL"
| "obj_word loc SCM_INVALID = SCM_SAL_INVALID"
| "obj_word loc SCM_UNBOUND = SCM_SAL_UNBOUND"
| "obj_word loc SCM_FALSE = SCM_SAL_FALSE"
| "obj_word loc SCM_TRUE = SCM_SAL_TRUE"
| "obj_word loc SCM_EOF = SCM_SAL_EOF"
| "obj_word loc SCM_UNDEF = SCM_SAL_UNDEF"
| "obj_word loc (IntObj i) = SCM_SAL_MAKE_INT (word_of_int i)"
| "obj_word loc (CharObj c) = SCM_SAL_MAKE_CHAR (word_of_int c)"
| "obj_word loc (Ptr t a) = SCM_PTAG_SET (loc a) (ptag_word t)"

definition aligned :: "(nat \<Rightarrow> uintobj) \<Rightarrow> bool" where
  "aligned loc \<longleftrightarrow> (\<forall>a n. n < 3 \<longrightarrow> \<not> bit (loc a) n)"

text \<open>Objects that a word can hold: integers and characters in range, cells among the addresses \<open>A\<close>.\<close>

fun in_range :: "nat set \<Rightarrow> obj \<Rightarrow> bool" where
  "in_range A (IntObj i) \<longleftrightarrow> SCM_INT_MIN \<le> i \<and> i \<le> SCM_INT_MAX"
| "in_range A (CharObj c) \<longleftrightarrow> - (2 ^ 31) \<le> c \<and> c < 2 ^ 31"
| "in_range A (Ptr t a) \<longleftrightarrow> a \<in> A"
| "in_range A _ \<longleftrightarrow> True"

fun constp :: "obj \<Rightarrow> bool" where
  "constp (IntObj i) = False" | "constp (CharObj c) = False" | "constp (Ptr t a) = False" | "constp _ = True"

lemma bit_ptag_word:
  "bit (ptag_word t) n \<longleftrightarrow> (t = PTAG_CLOSURE \<and> n = 1) \<or> (t = PTAG_MISC \<and> n = 2)"
proof -
  have "bit (SCM_MAKE_PTAG 0) n = False" "bit (SCM_MAKE_PTAG 1) n = (n = 1)" "bit (SCM_MAKE_PTAG 2) n = (n = 2)"
    unfolding SCM_MAKE_PTAG_def bit_push_bit_iff bit_1_word bit_small_numeral by auto
  then show ?thesis
    by (cases t) (simp_all add: ptag_word_def SCM_PTAG_CONS_def SCM_PTAG_CLOSURE_def SCM_PTAG_MISC_def)
qed

lemma obj_word_low_bits:
  assumes "aligned loc"
  shows "obj_word loc (Ptr t a) = loc a OR ptag_word t"
    "bit (obj_word loc (Ptr t a)) 1 = (t = PTAG_CLOSURE)" "bit (obj_word loc (Ptr t a)) 2 = (t = PTAG_MISC)"
    "bit (obj_word loc (IntObj i)) 1" "bit (obj_word loc (IntObj i)) 2" "\<not> bit (obj_word loc (IntObj i)) 3"
    "bit (obj_word loc (CharObj c)) 1" "bit (obj_word loc (CharObj c)) 2" "bit (obj_word loc (CharObj c)) 3"
    "\<not> bit (obj_word loc (CharObj c)) 4"
proof -
  note tag = bit_ptag_word [of t]
  have clear: "n < 3 \<Longrightarrow> \<not> bit (loc a) n" for n using assms by (simp add: aligned_def)
  show p: "obj_word loc (Ptr t a) = loc a OR ptag_word t"
    by (rule bit_word_eqI)
      (use clear in \<open>auto simp: SCM_PTAG_SET_def SCM_PTAG_MASK_def bit_ops\<close>)
  show "bit (obj_word loc (Ptr t a)) 1 = (t = PTAG_CLOSURE)" "bit (obj_word loc (Ptr t a)) 2 = (t = PTAG_MISC)"
    unfolding p bit_or_iff tag using clear by auto
  show "bit (obj_word loc (IntObj i)) 1" "bit (obj_word loc (IntObj i)) 2" "\<not> bit (obj_word loc (IntObj i)) 3"
    unfolding obj_word.simps SCM_SAL_MAKE_INT_def imm_defs bit_ops by auto
  show "bit (obj_word loc (CharObj c)) 1" "bit (obj_word loc (CharObj c)) 2" "bit (obj_word loc (CharObj c)) 3"
    "\<not> bit (obj_word loc (CharObj c)) 4"
    unfolding obj_word.simps SCM_SAL_MAKE_CHAR_def imm_defs bit_ops by auto
qed

lemma const_low_bits:
  assumes "constp x"
  shows "bit (obj_word loc x) 1" "bit (obj_word loc x) 2" "bit (obj_word loc x) 3" "bit (obj_word loc x) 4"
proof -
  have "bit (SCM_MAKE_CONST i) 1" "bit (SCM_MAKE_CONST i) 2" "bit (SCM_MAKE_CONST i) 3" "bit (SCM_MAKE_CONST i) 4" for i
    unfolding imm_defs bit_ops by auto
  then show "bit (obj_word loc x) 1" "bit (obj_word loc x) 2" "bit (obj_word loc x) 3" "bit (obj_word loc x) 4"
    using assms by (cases x; simp add: const_defs)+
qed

lemma obj_word_cases:
  obtains (const) "constp x" | (int) i where "x = IntObj i" | (char) c where "x = CharObj c"
    | (ptr) t a where "x = Ptr t a"
  by (cases x) auto

text \<open>the words of the objects of the heap model have the types the objects have: the primary tag
  tests and the immediate tests of storage-compact, applied to the word, answer exactly as the
  predicates of the model do, for every object and every placement of the cells at multiples of 8.\<close>

theorem obj_word_types:
  assumes "aligned loc"
  shows "SCM_SAL_CONSP (obj_word loc x) = CONSP x \<and> SCM_SAL_CLOSUREP (obj_word loc x) = CLOSUREP x \<and>
    SCM_MISCP (obj_word loc x) = (\<exists>a. x = Ptr PTAG_MISC a) \<and> SCM_SAL_INTP (obj_word loc x) = INTP x \<and>
    SCM_SAL_CHARP (obj_word loc x) = CHARP x \<and> SCM_SAL_CONSTANTP (obj_word loc x) = constp x"
proof (cases x rule: obj_word_cases)
  case const
  then show ?thesis using const_low_bits [OF const, of loc] unfolding low_bits by (cases x) auto
next
  case (int i)
  then show ?thesis using obj_word_low_bits(4-6) [OF assms, of i] unfolding low_bits by simp
next
  case (char c)
  then show ?thesis using obj_word_low_bits(7-10) [OF assms, of c] unfolding low_bits by simp
next
  case (ptr t a)
  then show ?thesis using obj_word_low_bits(2,3) [OF assms, of t a] unfolding low_bits by (cases t) auto
qed

definition loc16 :: "nat \<Rightarrow> uintobj" where "loc16 a = push_bit 4 (word_of_nat a)"

lemma aligned_loc16: "aligned loc16"
  unfolding aligned_def loc16_def bit_push_bit_iff by auto

lemma obj_word_types_witness:
  "SCM_SAL_CONSP (obj_word loc16 (Ptr PTAG_CONS 3)) \<and> SCM_SAL_INTP (obj_word loc16 (IntObj (-5)))"
  using obj_word_types [OF aligned_loc16, of "Ptr PTAG_CONS 3"]
    obj_word_types [OF aligned_loc16, of "IntObj (-5)"] by simp

lemma int_decode:
  "SCM_INT_MIN \<le> i \<Longrightarrow> i \<le> SCM_INT_MAX \<Longrightarrow> sint (SCM_SAL_INT_VALUE (obj_word loc (IntObj i))) = i"
proof -
  assume r: "SCM_INT_MIN \<le> i" "i \<le> SCM_INT_MAX"
  then have i: "sint (word_of_int i :: uintobj) = i"
    by (simp add: num_defs signed_of_int signed_take_bit_int_eq_self)
  with r have "signed_take_bit 59 (word_of_int i :: uintobj) = word_of_int i"
    by (simp add: take_bit_sint_59)
  then show ?thesis using i by (simp add: int_value_bits)
qed

lemma char_decode:
  "- (2 ^ 31) \<le> c \<Longrightarrow> c < 2 ^ 31 \<Longrightarrow> sint (SCM_SAL_CHAR_VALUE (obj_word loc (CharObj c))) = c"
  by (simp add: char_value signed_of_int signed_take_bit_int_eq_self)

lemma const_inj: "constp x \<Longrightarrow> constp y \<Longrightarrow> obj_word loc x = obj_word loc y \<Longrightarrow> x = y"
  by (cases x; cases y; simp add: const_defs SCM_MAKE_CONST_def SCM_ITAG_CONST_def SCM_MAKE_ITAG_def
      SCM_MAKE_IMMID_def SCM_PTAG_IMM_def SCM_MAKE_PTAG_def)

lemma ptr_word_decode:
  assumes "aligned loc"
  shows "SCM_DROP_PTAG (obj_word loc (Ptr t a)) = loc a"
proof -
  note tag = bit_ptag_word [of t]
  have clear: "n < 3 \<Longrightarrow> \<not> bit (loc a) n" for n using assms by (simp add: aligned_def)
  show ?thesis
    unfolding obj_word_low_bits(1) [OF assms] SCM_DROP_PTAG_def SCM_PTAG_MASK_def
    by (rule bit_word_eqI) (use clear tag in \<open>auto simp: bit_ops\<close>)
qed

lemma INTP_iff: "INTP x \<longleftrightarrow> (\<exists>i. x = IntObj i)"
  by (cases x) auto

lemma CLOSUREP_iff: "CLOSUREP x \<longleftrightarrow> (\<exists>a. x = Ptr PTAG_CLOSURE a)"
  by (cases x rule: CLOSUREP.cases) auto

lemma CHARP_iff: "CHARP x \<longleftrightarrow> (\<exists>c. x = CharObj c)"
  by (cases x) auto

text \<open>C23: words identify objects: for integers in the fixnum range, 32 bit characters and cells with
  distinct aligned addresses, two objects have the same word only when they are equal. So \<^verbatim>\<open>EQ\<close>,
  which compares words, is equality of objects of the heap model.\<close>

theorem obj_word_inj:
  assumes "aligned loc" "inj_on loc A" "in_range A x" "in_range A y"
  shows "(obj_word loc x = obj_word loc y) = (x = y)"
proof
  assume eq: "obj_word loc x = obj_word loc y"
  note tx = obj_word_types [OF assms(1), of x] and ty = obj_word_types [OF assms(1), of y, folded eq]
  have same: "CONSP x = CONSP y" "CLOSUREP x = CLOSUREP y" "(\<exists>a. x = Ptr PTAG_MISC a) = (\<exists>a. y = Ptr PTAG_MISC a)"
    "INTP x = INTP y" "CHARP x = CHARP y" "constp x = constp y"
    using tx ty by blast+
  show "x = y"
  proof (cases x rule: obj_word_cases)
    case const
    then show ?thesis using const_inj eq same by blast
  next
    case (int i)
    then obtain j where j: "y = IntObj j" using same(4) by (auto simp: INTP_iff)
    have "i = j"
      using int_decode [of i loc] int_decode [of j loc] assms(3,4) eq unfolding int j in_range.simps by metis
    then show ?thesis using int j by simp
  next
    case (char c)
    then obtain d where d: "y = CharObj d" using same(5) by (auto simp: CHARP_iff)
    have "c = d"
      using char_decode [of c loc] char_decode [of d loc] assms(3,4) eq unfolding char d in_range.simps by metis
    then show ?thesis using char d by simp
  next
    case (ptr t a)
    have "\<exists>b. y = Ptr t b"
      using same(1-3) ptr by (cases t) (auto simp: CONSP_iff CLOSUREP_iff)
    then obtain b where u: "y = Ptr t b" ..
    have "loc a = loc b" using ptr_word_decode [OF assms(1)] eq ptr u by metis
    then have "a = b" using assms(2-4) ptr u by (simp add: inj_on_eq_iff)
    then show ?thesis using ptr u by simp
  qed
qed simp

lemma obj_word_inj_witness:
  "obj_word loc16 (Ptr PTAG_CONS 1) \<noteq> obj_word loc16 (Ptr PTAG_CONS 2)"
proof -
  have "inj_on loc16 {1, 2}" by (simp add: loc16_def)
  from obj_word_inj [OF aligned_loc16 this, of "Ptr PTAG_CONS 1" "Ptr PTAG_CONS 2"] show ?thesis by simp
qed

end
