(* ===== verification/Numbers.thy ===== *)
theory Numbers
  imports Lists "HOL-Library.Signed_Division"
begin

text \<open>
  Integer arithmetic: \<^verbatim>\<open>src/number.c\<close> in the configuration without reals, the reduction loop of
  \<^verbatim>\<open>src/eval.c\<close> that calls its operators, and the bitwise operations of
  \<^verbatim>\<open>src/module-srfi60.c\<close>.

  A \<^verbatim>\<open>scm_int_t\<close> is an \<open>int\<close>. \<open>fits\<close> is the fixnum range; every operation checks before it
  computes, so its operands and result stay far inside the 64 bits of \<^verbatim>\<open>scm_int_t\<close> and C's arithmetic
  agrees with that of \<open>int\<close>. C's division truncates: it is \<^verbatim>\<open>sdiv\<close>, and \<^verbatim>\<open>%\<close> is \<^verbatim>\<open>smod\<close>.

  The reduction operators share two contracts, stated as the locales \<open>accumulator\<close> and
  \<open>comparator\<close>; what \<^verbatim>\<open>reduce\<close> computes with an operator is proved once in each and interpreted
  for the operators of the source.
\<close>

section \<open>Checked integer operations\<close>

definition fits :: "int \<Rightarrow> bool" where
  "fits i \<longleftrightarrow> SCM_INT_MIN \<le> i \<and> i \<le> SCM_INT_MAX"

definition fixnum_overflow :: scm_error where "fixnum_overflow = Err ''fixnum overflow''"
definition div_by_zero :: scm_error where "div_by_zero = Err ''division by zero''"
definition integer_required :: "obj \<Rightarrow> scm_error" where
  "integer_required x = ErrObj ''integer required but got'' x"

definition scm_int_multiply :: "int \<Rightarrow> int \<Rightarrow> int res" where
  "scm_int_multiply n1 n2 =
     (if (if n1 > 0
          then (if n2 > 0 then n1 > SCM_INT_MAX sdiv n2 else n2 < SCM_INT_MIN sdiv n1)
          else (if n2 > 0 then n1 < SCM_INT_MIN sdiv n2 else n2 < 0 \<and> n1 < SCM_INT_MAX sdiv n2))
      then Inl fixnum_overflow
      else Inr (n1 * n2))"

definition scm_int_quotient :: "int \<Rightarrow> int \<Rightarrow> int res" where
  "scm_int_quotient n1 n2 =
     (if n2 = 0 then Inl div_by_zero
      else if n1 = SCM_INT_MIN \<and> n2 = -1 then Inl fixnum_overflow
      else Inr (n1 sdiv n2))"

definition scm_int_remainder :: "int \<Rightarrow> int \<Rightarrow> int res" where
  "scm_int_remainder n1 n2 =
     (if n2 = 0 then Inl div_by_zero
      else if n2 = -1 then Inr 0
      else Inr (n1 smod n2))"

definition scm_int_modulo :: "int \<Rightarrow> int \<Rightarrow> int res" where
  "scm_int_modulo n1 n2 =
     and_then (scm_int_remainder n1 n2) (\<lambda>rem.
       Inr (if rem \<noteq> 0 \<and> (rem < 0) \<noteq> (n2 < 0) then rem + n2 else rem))"

definition ENSURE_INT :: "obj \<Rightarrow> unit res" where
  "ENSURE_INT x = (if INTP x then Inr () else Inl (integer_required x))"

definition compare_numbers :: "obj \<Rightarrow> obj \<Rightarrow> int res" where
  "compare_numbers x y =
     (if \<not> INTP x then Inl (integer_required x)
      else if \<not> INTP y then Inl (integer_required y)
      else Inr ((if SCM_INT_VALUE x > SCM_INT_VALUE y then 1 else 0) -
                (if SCM_INT_VALUE x < SCM_INT_VALUE y then 1 else 0)))"

definition MAKE_INT :: "int \<Rightarrow> obj res" where "MAKE_INT i = Inr (IntObj i)"

definition scm_integer_divide :: "obj \<Rightarrow> obj \<Rightarrow> char \<Rightarrow> obj res" where
  "scm_integer_divide n1 n2 op =
     (if \<not> INTP n1 then Inl (integer_required n1)
      else if \<not> INTP n2 then Inl (integer_required n2)
      else let i1 = SCM_INT_VALUE n1; i2 = SCM_INT_VALUE n2 in
        if op = CHR ''q'' then and_then (scm_int_quotient i1 i2) MAKE_INT
        else if op = CHR ''r'' then and_then (scm_int_remainder i1 i2) MAKE_INT
        else if op = CHR ''m'' then and_then (scm_int_modulo i1 i2) MAKE_INT
        else and_then (scm_int_quotient i1 i2) (\<lambda>q.
             and_then (scm_int_remainder i1 i2) (\<lambda>r.
               MAKE_INT (if r \<noteq> 0 \<and> (r < 0) \<noteq> (i2 < 0) then q - 1 else q))))"

section \<open>Reduction operators\<close>

datatype red_state = SCM_REDUCE_0 | SCM_REDUCE_1 | SCM_REDUCE_PARTWAY | SCM_REDUCE_LAST | SCM_REDUCE_STOP

text \<open>An operator returns its value and the state it leaves behind.\<close>

type_synonym reduction_operator = "obj \<Rightarrow> obj \<Rightarrow> red_state \<Rightarrow> (obj \<times> red_state) res"

definition int_result :: "red_state \<Rightarrow> int \<Rightarrow> (obj \<times> red_state) res" where
  "int_result state i = Inr (IntObj i, state)"

definition scm_p_add :: reduction_operator where
  "scm_p_add left right state =
     (case state of
        SCM_REDUCE_0 \<Rightarrow> int_result state 0
      | SCM_REDUCE_STOP \<Rightarrow> Inl (Err ''not reached'')
      | _ \<Rightarrow>
        and_then (if state = SCM_REDUCE_1 then Inr 0
                  else and_then (ENSURE_INT left) (\<lambda>_. Inr (SCM_INT_VALUE left))) (\<lambda>l.
        and_then (ENSURE_INT right) (\<lambda>_.
        let r = SCM_INT_VALUE right in
        if (if r > 0 then l > SCM_INT_MAX - r else l < SCM_INT_MIN - r)
        then Inl fixnum_overflow
        else int_result state (l + r))))"

definition scm_p_multiply :: reduction_operator where
  "scm_p_multiply left right state =
     (case state of
        SCM_REDUCE_0 \<Rightarrow> int_result state 1
      | SCM_REDUCE_STOP \<Rightarrow> Inl (Err ''not reached'')
      | _ \<Rightarrow>
        and_then (if state = SCM_REDUCE_1 then Inr 1
                  else and_then (ENSURE_INT left) (\<lambda>_. Inr (SCM_INT_VALUE left))) (\<lambda>result.
        and_then (ENSURE_INT right) (\<lambda>_.
        and_then (scm_int_multiply result (SCM_INT_VALUE right)) (int_result state))))"

definition scm_p_subtract :: reduction_operator where
  "scm_p_subtract left right state =
     (case state of
        SCM_REDUCE_0 \<Rightarrow> Inl (Err ''at least 1 argument required'')
      | SCM_REDUCE_STOP \<Rightarrow> Inl (Err ''not reached'')
      | _ \<Rightarrow>
        and_then (if state = SCM_REDUCE_1 then Inr 0
                  else and_then (ENSURE_INT left) (\<lambda>_. Inr (SCM_INT_VALUE left))) (\<lambda>l.
        and_then (ENSURE_INT right) (\<lambda>_.
        let r = SCM_INT_VALUE right in
        if (if r < 0 then l > SCM_INT_MAX + r else l < SCM_INT_MIN + r)
        then Inl fixnum_overflow
        else int_result state (l - r))))"

definition scm_p_divide :: reduction_operator where
  "scm_p_divide left right state =
     (case state of
        SCM_REDUCE_0 \<Rightarrow> Inl (Err ''at least 1 argument required'')
      | SCM_REDUCE_STOP \<Rightarrow> Inl (Err ''not reached'')
      | _ \<Rightarrow>
        and_then (if state = SCM_REDUCE_1 then Inr 1
                  else and_then (ENSURE_INT left) (\<lambda>_. Inr (SCM_INT_VALUE left))) (\<lambda>result.
        and_then (ENSURE_INT right) (\<lambda>_.
        and_then (scm_int_quotient result (SCM_INT_VALUE right)) (int_result state))))"

section \<open>Predicates and comparison\<close>

definition NUMBERP :: "obj \<Rightarrow> bool" where "NUMBERP = INTP"

definition scm_p_numberp :: "obj \<Rightarrow> obj" where "scm_p_numberp x = MAKE_BOOL (NUMBERP x)"
definition scm_p_integerp :: "obj \<Rightarrow> obj" where "scm_p_integerp x = MAKE_BOOL (INTP x)"
definition scm_p_complexp :: "obj \<Rightarrow> obj" where "scm_p_complexp x = MAKE_BOOL (NUMBERP x)"
definition scm_p_realp :: "obj \<Rightarrow> obj" where "scm_p_realp x = MAKE_BOOL (NUMBERP x)"
definition scm_p_rationalp :: "obj \<Rightarrow> obj" where "scm_p_rationalp x = MAKE_BOOL (INTP x)"

definition ENSURE_NUMBER :: "obj \<Rightarrow> unit res" where
  "ENSURE_NUMBER x = (if NUMBERP x then Inr () else Inl (ErrObj ''number required but got'' x))"

definition scm_p_exactp :: "obj \<Rightarrow> obj res" where
  "scm_p_exactp z = and_then (ENSURE_NUMBER z) (\<lambda>_. Inr (MAKE_BOOL (INTP z)))"
definition scm_p_inexactp :: "obj \<Rightarrow> obj res" where
  "scm_p_inexactp z = and_then (ENSURE_NUMBER z) (\<lambda>_. Inr (MAKE_BOOL (\<not> INTP z)))"

definition COMPARATOR_BODY :: "(int \<Rightarrow> bool) \<Rightarrow> reduction_operator" where
  "COMPARATOR_BODY cmp_op left right state =
     (case state of
        SCM_REDUCE_0 \<Rightarrow> Inl (Err ''at least 2 arguments required'')
      | SCM_REDUCE_1 \<Rightarrow> Inl (Err ''at least 2 arguments required'')
      | SCM_REDUCE_STOP \<Rightarrow> Inl (Err ''not reached'')
      | _ \<Rightarrow> and_then (compare_numbers left right) (\<lambda>cmp.
          if cmp_op cmp then Inr (if state = SCM_REDUCE_LAST then SCM_TRUE else right, state)
          else Inr (SCM_FALSE, SCM_REDUCE_STOP)))"

definition scm_p_equal :: reduction_operator where "scm_p_equal = COMPARATOR_BODY (\<lambda>cmp. cmp = 0)"
definition scm_p_less :: reduction_operator where "scm_p_less = COMPARATOR_BODY (\<lambda>cmp. cmp < 0)"
definition scm_p_less_equal :: reduction_operator where "scm_p_less_equal = COMPARATOR_BODY (\<lambda>cmp. cmp \<le> 0)"
definition scm_p_greater :: reduction_operator where "scm_p_greater = COMPARATOR_BODY (\<lambda>cmp. cmp > 0)"
definition scm_p_greater_equal :: reduction_operator where
  "scm_p_greater_equal = COMPARATOR_BODY (\<lambda>cmp. cmp \<ge> 0)"

definition scm_p_zerop :: "obj \<Rightarrow> obj res" where
  "scm_p_zerop n = and_then (ENSURE_INT n) (\<lambda>_. Inr (MAKE_BOOL (SCM_INT_VALUE n = 0)))"
definition scm_p_positivep :: "obj \<Rightarrow> obj res" where
  "scm_p_positivep n = and_then (ENSURE_INT n) (\<lambda>_. Inr (MAKE_BOOL (SCM_INT_VALUE n > 0)))"
definition scm_p_negativep :: "obj \<Rightarrow> obj res" where
  "scm_p_negativep n = and_then (ENSURE_INT n) (\<lambda>_. Inr (MAKE_BOOL (SCM_INT_VALUE n < 0)))"
definition scm_p_oddp :: "obj \<Rightarrow> obj res" where
  "scm_p_oddp n = and_then (ENSURE_INT n) (\<lambda>_. Inr (MAKE_BOOL (SCM_INT_VALUE n AND 1 \<noteq> 0)))"
definition scm_p_evenp :: "obj \<Rightarrow> obj res" where
  "scm_p_evenp n = and_then (ENSURE_INT n) (\<lambda>_. Inr (MAKE_BOOL (SCM_INT_VALUE n AND 1 = 0)))"

definition scm_p_max :: reduction_operator where
  "scm_p_max left right state =
     (if state = SCM_REDUCE_0 then Inl (Err ''at least 1 argument required'')
      else and_then (compare_numbers left right) (\<lambda>cmp. Inr (if cmp > 0 then left else right, state)))"

definition scm_p_min :: reduction_operator where
  "scm_p_min left right state =
     (if state = SCM_REDUCE_0 then Inl (Err ''at least 1 argument required'')
      else and_then (compare_numbers left right) (\<lambda>cmp. Inr (if cmp < 0 then left else right, state)))"

definition scm_p_abs :: "obj \<Rightarrow> obj res" where
  "scm_p_abs n = and_then (ENSURE_INT n) (\<lambda>_.
     let i = SCM_INT_VALUE n in
     if i = SCM_INT_MIN then Inl fixnum_overflow
     else if i < 0 then MAKE_INT (- i) else Inr n)"

definition scm_p_quotient :: "obj \<Rightarrow> obj \<Rightarrow> obj res" where
  "scm_p_quotient n1 n2 = scm_integer_divide n1 n2 CHR ''q''"
definition scm_p_modulo :: "obj \<Rightarrow> obj \<Rightarrow> obj res" where
  "scm_p_modulo n1 n2 = scm_integer_divide n1 n2 CHR ''m''"
definition scm_p_remainder :: "obj \<Rightarrow> obj \<Rightarrow> obj res" where
  "scm_p_remainder n1 n2 = scm_integer_divide n1 n2 CHR ''r''"

section \<open>Loops\<close>

function expt_loop :: "int \<Rightarrow> int \<Rightarrow> int \<Rightarrow> int res" where
  "expt_loop result base expo =
     (if expo > 0 then
        and_then (if expo smod 2 = 1 then scm_int_multiply result base else Inr result) (\<lambda>result.
        let expo = expo sdiv 2 in
        if expo > 0 then and_then (scm_int_multiply base base) (\<lambda>base. expt_loop result base expo)
        else expt_loop result base expo)
      else Inr result)"
  by pat_completeness auto
termination
  by (relation "measure (\<lambda>(_, _, expo). nat expo)") (auto simp: signed_divide_int_def)

definition scm_p_expt :: "obj \<Rightarrow> obj \<Rightarrow> obj res" where
  "scm_p_expt base' expo' =
     and_then (ENSURE_INT base') (\<lambda>_. and_then (ENSURE_INT expo') (\<lambda>_.
     let base = SCM_INT_VALUE base'; expo = SCM_INT_VALUE expo' in
     if expo < 0 then Inl (Err ''negative exponent'')
     else and_then (expt_loop 1 base expo) MAKE_INT))"

lemma smod_less: "x \<noteq> 0 \<Longrightarrow> \<bar>y smod x\<bar> < \<bar>x :: int\<bar>"
  by (simp add: signed_modulo_int_def abs_mult)

function gcd_loop :: "int \<Rightarrow> int \<Rightarrow> int res" where
  "gcd_loop x y =
     (if x \<noteq> 0 then (case scm_int_remainder y x of Inl e \<Rightarrow> Inl e | Inr r \<Rightarrow> gcd_loop r x)
      else if y = SCM_INT_MIN then Inl fixnum_overflow
      else Inr (if y \<ge> 0 then y else - y))"
  by pat_completeness auto
termination
  by (relation "measure (\<lambda>(x, _). nat \<bar>x\<bar>)")
    (auto simp: scm_int_remainder_def smod_less split: if_splits)

definition scm_p_gcd :: reduction_operator where
  "scm_p_gcd left right state =
     (case state of
        SCM_REDUCE_0 \<Rightarrow> int_result state 0
      | SCM_REDUCE_STOP \<Rightarrow> Inl (Err ''not reached'')
      | _ \<Rightarrow>
        and_then (if state = SCM_REDUCE_1 then Inr 0
                  else and_then (ENSURE_INT left) (\<lambda>_. Inr (SCM_INT_VALUE left))) (\<lambda>result.
        and_then (ENSURE_INT right) (\<lambda>_.
        and_then (gcd_loop result (SCM_INT_VALUE right)) (int_result state))))"

definition lcm_finish :: "red_state \<Rightarrow> int \<Rightarrow> (obj \<times> red_state) res" where
  "lcm_finish state result =
     (if result = SCM_INT_MIN then Inl fixnum_overflow
      else int_result state (if result < 0 then - result else result))"

definition scm_p_lcm :: reduction_operator where
  "scm_p_lcm left right state =
     (case state of
        SCM_REDUCE_0 \<Rightarrow> lcm_finish state 1
      | SCM_REDUCE_STOP \<Rightarrow> Inl (Err ''not reached'')
      | _ \<Rightarrow>
        and_then (if state = SCM_REDUCE_1 then Inr 1
                  else and_then (ENSURE_INT left) (\<lambda>_. Inr (SCM_INT_VALUE left))) (\<lambda>result.
        and_then (ENSURE_INT right) (\<lambda>_.
        let r = SCM_INT_VALUE right in
        and_then (if result = 0 \<or> r = 0 then Inr 0
                  else and_then (gcd_loop result r) (\<lambda>g. scm_int_multiply result (r sdiv g)))
          (lcm_finish state))))"

section \<open>Exact integers as rationals\<close>

definition scm_p_numerator :: "obj \<Rightarrow> obj res" where
  "scm_p_numerator q = and_then (ENSURE_INT q) (\<lambda>_. Inr q)"
definition scm_p_denominator :: "obj \<Rightarrow> obj res" where
  "scm_p_denominator q = and_then (ENSURE_INT q) (\<lambda>_. MAKE_INT 1)"
definition scm_p_floor :: "obj \<Rightarrow> obj res" where "scm_p_floor x = and_then (ENSURE_INT x) (\<lambda>_. Inr x)"
definition scm_p_ceiling :: "obj \<Rightarrow> obj res" where "scm_p_ceiling x = and_then (ENSURE_INT x) (\<lambda>_. Inr x)"
definition scm_p_truncate :: "obj \<Rightarrow> obj res" where "scm_p_truncate x = and_then (ENSURE_INT x) (\<lambda>_. Inr x)"
definition scm_p_round :: "obj \<Rightarrow> obj res" where "scm_p_round x = and_then (ENSURE_INT x) (\<lambda>_. Inr x)"

definition scm_exact :: "obj \<Rightarrow> obj res" where
  "scm_exact z = (if \<not> INTP z then Inl (ErrObj ''number required but got'' z) else Inr z)"
definition scm_inexact :: "obj \<Rightarrow> obj res" where
  "scm_inexact z =
     (if \<not> INTP z then Inl (ErrObj ''number required but got'' z)
      else Inl (ErrObj ''inexact numbers are not supported'' z))"
definition scm_p_inexact2exact :: "obj \<Rightarrow> obj res" where "scm_p_inexact2exact z = scm_exact z"
definition scm_p_exact2inexact :: "obj \<Rightarrow> obj res" where "scm_p_exact2inexact z = scm_inexact z"

section \<open>Bitwise operations\<close>

definition BITWISE_OPERATION_BODY :: "(int \<Rightarrow> int \<Rightarrow> int) \<Rightarrow> int \<Rightarrow> reduction_operator" where
  "BITWISE_OPERATION_BODY op ridentity left right state =
     (case state of
        SCM_REDUCE_0 \<Rightarrow> int_result state ridentity
      | SCM_REDUCE_1 \<Rightarrow> and_then (ENSURE_INT right) (\<lambda>_. Inr (right, state))
      | SCM_REDUCE_STOP \<Rightarrow> Inl (Err ''not reached'')
      | _ \<Rightarrow> and_then (ENSURE_INT left) (\<lambda>_. and_then (ENSURE_INT right) (\<lambda>_.
               int_result state (op (SCM_INT_VALUE left) (SCM_INT_VALUE right)))))"

definition scm_p_srfi60_logand :: reduction_operator where
  "scm_p_srfi60_logand = BITWISE_OPERATION_BODY (AND) (-1)"
definition scm_p_srfi60_logior :: reduction_operator where
  "scm_p_srfi60_logior = BITWISE_OPERATION_BODY (OR) 0"
definition scm_p_srfi60_logxor :: reduction_operator where
  "scm_p_srfi60_logxor = BITWISE_OPERATION_BODY (XOR) 0"

definition scm_p_srfi60_lognot :: "obj \<Rightarrow> obj res" where
  "scm_p_srfi60_lognot n = and_then (ENSURE_INT n) (\<lambda>_. MAKE_INT (NOT (SCM_INT_VALUE n)))"

definition scm_p_srfi60_bitwise_if :: "obj \<Rightarrow> obj \<Rightarrow> obj \<Rightarrow> obj res" where
  "scm_p_srfi60_bitwise_if mask' n0 n1 =
     and_then (ENSURE_INT mask') (\<lambda>_. and_then (ENSURE_INT n0) (\<lambda>_. and_then (ENSURE_INT n1) (\<lambda>_.
     let c_mask = SCM_INT_VALUE mask' in
     MAKE_INT ((c_mask AND SCM_INT_VALUE n0) OR (NOT c_mask AND SCM_INT_VALUE n1)))))"

definition scm_p_srfi60_logtest :: "obj \<Rightarrow> obj \<Rightarrow> obj res" where
  "scm_p_srfi60_logtest j k =
     and_then (ENSURE_INT j) (\<lambda>_. and_then (ENSURE_INT k) (\<lambda>_.
     Inr (MAKE_BOOL (SCM_INT_VALUE j AND SCM_INT_VALUE k \<noteq> 0))))"

section \<open>The reduction loop\<close>

text \<open>The evaluator is a parameter: \<open>ev h x\<close> evaluates \<open>x\<close> in the environment of the call, with
  \<open>None\<close> for divergence. It is used when the operands come unevaluated (\<^verbatim>\<open>need_eval\<close>).\<close>

type_synonym operand_evaluator = "heap \<Rightarrow> obj \<Rightarrow> (obj \<times> heap) res option"

definition eval_operand :: "operand_evaluator \<Rightarrow> bool \<Rightarrow> operand_evaluator" where
  "eval_operand ev need_eval h x = (if need_eval then ev h x else Some (Inr (x, h)))"

definition NO_MORE_ARG :: "obj \<Rightarrow> bool res" where
  "NO_MORE_ARG args =
     (if CONSP args then Inr False
      else if NULLP args then Inr True
      else Inl (ErrObj ''improper argument list terminator'' args))"

partial_function (option) reduce_loop ::
    "operand_evaluator \<Rightarrow> bool \<Rightarrow> reduction_operator \<Rightarrow> heap \<Rightarrow> obj \<Rightarrow> obj \<Rightarrow> (obj \<times> heap) res option" where
  "reduce_loop ev need_eval func h left args =
     (let right = CAR h args; args = CDR h args in
      if CONSP args then
        Option.bind (eval_operand ev need_eval h right) (\<lambda>er. case er of
          Inl e \<Rightarrow> Some (Inl e)
        | Inr (right, h) \<Rightarrow>
            (case func left right SCM_REDUCE_PARTWAY of
               Inl e \<Rightarrow> Some (Inl e)
             | Inr (left, state) \<Rightarrow>
                 if state = SCM_REDUCE_STOP then Some (Inr (left, h))
                 else reduce_loop ev need_eval func h left args))
      else if \<not> NULLP args then Some (Inl (ErrObj ''improper argument list terminator'' args))
      else
        Option.bind (eval_operand ev need_eval h right) (\<lambda>er. case er of
          Inl e \<Rightarrow> Some (Inl e)
        | Inr (right, h) \<Rightarrow>
            (case func left right SCM_REDUCE_LAST of
               Inl e \<Rightarrow> Some (Inl e)
             | Inr (left, state) \<Rightarrow> Some (Inr (left, h)))))"

definition reduce ::
    "operand_evaluator \<Rightarrow> bool \<Rightarrow> reduction_operator \<Rightarrow> heap \<Rightarrow> obj \<Rightarrow> (obj \<times> heap) res option" where
  "reduce ev need_eval func h args =
     (case NO_MORE_ARG args of
        Inl e \<Rightarrow> Some (Inl e)
      | Inr True \<Rightarrow> Some (map_sum id (\<lambda>(v, _). (v, h)) (func SCM_INVALID SCM_INVALID SCM_REDUCE_0))
      | Inr False \<Rightarrow>
          (let left = CAR h args; args = CDR h args in
           Option.bind (eval_operand ev need_eval h left) (\<lambda>er. case er of
             Inl e \<Rightarrow> Some (Inl e)
           | Inr (left, h) \<Rightarrow>
              (case NO_MORE_ARG args of
                 Inl e \<Rightarrow> Some (Inl e)
               | Inr True \<Rightarrow> Some (map_sum id (\<lambda>(v, _). (v, h)) (func left left SCM_REDUCE_1))
               | Inr False \<Rightarrow> reduce_loop ev need_eval func h left args))))"

section \<open>Arithmetic facts\<close>

lemma and_then_simps [simp]:
  "and_then (Inl e) f = Inl e" "and_then (Inr x) f = f x"
  by (simp_all add: and_then_def)

lemma fits_bounds: "fits i \<longleftrightarrow> - (2 ^ 59) \<le> i \<and> i < 2 ^ 59"
  by (auto simp: fits_def num_defs)

lemma fits_small [simp]: "fits 0" "fits 1" "fits (-1)"
  by (simp_all add: fits_bounds)

lemma sdiv_pos: "0 \<le> a \<Longrightarrow> 0 < b \<Longrightarrow> a sdiv b = a div (b :: int)"
  by (auto simp: signed_divide_int_def sgn_if)

lemma sdiv_neg: "a sdiv (- b) = - (a sdiv (b :: int))" "(- a) sdiv b = - (a sdiv b)"
  by (simp_all add: signed_divide_int_def)

lemma smod_neg: "a smod (- b) = a smod (b :: int)" "(- a) smod b = - (a smod b)"
  by (simp_all add: signed_modulo_int_def sgn_minus)

lemma sdiv_smod_pos: "0 \<le> a \<Longrightarrow> 0 < b \<Longrightarrow> a smod b = a mod (b :: int)"
  by (auto simp: signed_modulo_int_def sgn_if)

text \<open>The remainder has the sign of the dividend.\<close>

lemma smod_cases:
  assumes "(b :: int) \<noteq> 0"
  shows "0 \<le> a \<Longrightarrow> a smod b = a mod \<bar>b\<bar>" "a < 0 \<Longrightarrow> a smod b = - ((- a) mod \<bar>b\<bar>)"
  using assms by (auto simp: signed_modulo_int_def sgn_if)

text \<open>The overflow test of the multiplication is exact.\<close>

lemma mult_limit:
  assumes "0 < (b :: int)"
  shows "(m div b < a) \<longleftrightarrow> m < a * b"
proof -
  have "a \<le> m div b \<longleftrightarrow> a * b \<le> m"
  proof
    assume "a \<le> m div b"
    then have "a * b \<le> m div b * b" using assms by (simp add: mult_right_mono)
    also have "\<dots> \<le> m" using assms by (metis div_mult_mod_eq le_add_same_cancel1 pos_mod_sign)
    finally show "a * b \<le> m" .
  next
    assume "a * b \<le> m"
    then have "a * b div b \<le> m div b" using assms by (intro zdiv_mono1)
    then show "a \<le> m div b" using assms by simp
  qed
  then show ?thesis by linarith
qed

lemma scm_int_multiply_exact:
  "scm_int_multiply n1 n2 = (if fits (n1 * n2) then Inr (n1 * n2) else Inl fixnum_overflow)"
proof -
  let ?M = "2 ^ 59 :: int"
  have pos: "(?M - 1) sdiv b = (?M - 1) div b" "- ?M sdiv b = - (?M div b)" "?M sdiv b = ?M div b" if "0 < b" for b
    using sdiv_pos [OF _ that, of "?M - 1"] sdiv_pos [OF _ that, of ?M] by (simp_all add: sdiv_neg)
  consider (pp) "0 < n1" "0 < n2" | (pn) "0 < n1" "n2 \<le> 0" | (np) "n1 \<le> 0" "0 < n2" | (nn) "n1 \<le> 0" "n2 < 0"
    | (nz) "n1 \<le> 0" "n2 = 0"
    by linarith
  then have "(if n1 > 0 then (if n2 > 0 then n1 > SCM_INT_MAX sdiv n2 else n2 < SCM_INT_MIN sdiv n1)
     else (if n2 > 0 then n1 < SCM_INT_MIN sdiv n2 else n2 < 0 \<and> n1 < SCM_INT_MAX sdiv n2)) \<longleftrightarrow> \<not> fits (n1 * n2)"
  proof cases
    case pp
    then have "0 < n1 * n2" by simp
    then have "- ?M \<le> n1 * n2" by simp
    moreover have "?M - 1 < n1 * n2 \<longleftrightarrow> \<not> n1 * n2 < ?M" by linarith
    ultimately show ?thesis
      using pp mult_limit [of n2 "?M - 1" n1] pos(1) [of n2] by (simp add: fits_bounds SCM_INT_MAX_def)
  next
    case pn
    then have "n1 * n2 \<le> 0" by (simp add: mult_nonneg_nonpos)
    moreover have "n2 < - (?M div n1) \<longleftrightarrow> ?M div n1 < - n2" by linarith
    moreover have "?M < - n2 * n1 \<longleftrightarrow> n1 * n2 < - ?M" 
      unfolding mult_minus_left mult.commute [of n2 n1] by linarith
    ultimately show ?thesis
      using pn mult_limit [of n1 "?M" "- n2"] pos(2) [of n1] by (simp add: not_le fits_bounds SCM_INT_MIN_def)
  next
    case np
    then have "n1 * n2 \<le> 0" by (simp add: mult_nonpos_nonneg)
    moreover have "n1 < - (?M div n2) \<longleftrightarrow> ?M div n2 < - n1" by linarith
    moreover have "?M < - n1 * n2 \<longleftrightarrow> n1 * n2 < - ?M" unfolding mult_minus_left by linarith
    ultimately show ?thesis
      using np mult_limit [of n2 "?M" "- n1"] pos(2) [of n2] by (simp add: not_le fits_bounds SCM_INT_MIN_def)
  next
    case nn
    then have "0 \<le> n1 * n2" by (simp add: mult_nonpos_nonpos)
    moreover have "(?M - 1) sdiv n2 = - ((?M - 1) div (- n2))" using pos(1) [of "- n2"] nn sdiv_neg(1) [of "?M - 1" "- n2"] by simp
    moreover have "n1 < - ((?M - 1) div - n2) \<longleftrightarrow> (?M - 1) div - n2 < - n1" by linarith
    moreover have "?M - 1 < - n1 * - n2 \<longleftrightarrow> \<not> n1 * n2 < ?M" by auto
    ultimately show ?thesis
      using nn mult_limit [of "- n2" "?M - 1" "- n1"] by (simp add: fits_bounds SCM_INT_MAX_def)
  next
    case nz
    then show ?thesis by (simp add: fits_bounds)
  qed
  then show ?thesis by (simp add: scm_int_multiply_def)
qed

lemma floor_mod_of_smod:
  assumes "(b :: int) \<noteq> 0"
  shows "(if a smod b \<noteq> 0 \<and> (a smod b < 0) \<noteq> (b < 0) then a smod b + b else a smod b) = a mod b"
    "(if a smod b \<noteq> 0 \<and> (a smod b < 0) \<noteq> (b < 0) then a sdiv b - 1 else a sdiv b) = a div b"
proof -
  let ?r = "if a smod b \<noteq> 0 \<and> (a smod b < 0) \<noteq> (b < 0) then a smod b + b else a smod b"
  let ?q = "if a smod b \<noteq> 0 \<and> (a smod b < 0) \<noteq> (b < 0) then a sdiv b - 1 else a sdiv b"
  have eq: "a = b * (a sdiv b) + a smod b"
    by (simp add: mult_sdiv_smod_eq)
  have lt: "\<bar>a smod b\<bar> < \<bar>b\<bar>" using smod_less [OF assms] .
  have "a = b * ?q + ?r" using eq by (auto simp: algebra_simps)
  moreover have "(0 < b \<longrightarrow> 0 \<le> ?r \<and> ?r < b) \<and> (b < 0 \<longrightarrow> b < ?r \<and> ?r \<le> 0)" using lt assms by auto
  ultimately have "?r = a mod b \<and> ?q = a div b"
  proof (cases "0 < b")
    case True
    then show ?thesis
      using \<open>a = b * ?q + ?r\<close> \<open>(0 < b \<longrightarrow> 0 \<le> ?r \<and> ?r < b) \<and> (b < 0 \<longrightarrow> b < ?r \<and> ?r \<le> 0)\<close>
        int_div_pos_eq [of a b ?q ?r] int_mod_pos_eq [of a b ?q ?r] by presburger
  next
    case False
    then have "b < 0" using assms by simp
    then show ?thesis
      using \<open>a = b * ?q + ?r\<close> \<open>(0 < b \<longrightarrow> 0 \<le> ?r \<and> ?r < b) \<and> (b < 0 \<longrightarrow> b < ?r \<and> ?r \<le> 0)\<close>
        int_div_neg_eq [of a b ?q ?r] int_mod_neg_eq [of a b ?q ?r] by presburger
  qed
  then show "?r = a mod b" "?q = a div b" by simp_all
qed

section \<open>The loops compute\<close>

text \<open>\<open>checked n\<close>: the exact result, or the overflow error when it is no fixnum.\<close>

definition checked :: "int \<Rightarrow> int res" where
  "checked n = (if fits n then Inr n else Inl fixnum_overflow)"

lemma multiply_checked: "scm_int_multiply a b = checked (a * b)"
  by (simp add: scm_int_multiply_exact checked_def)

lemma fits_abs: "fits n \<Longrightarrow> \<bar>n\<bar> \<le> 2 ^ 59" "\<bar>n\<bar> < 2 ^ 59 \<Longrightarrow> fits n"
  by (auto simp: fits_bounds)

lemma square_not_limit: "(x :: int) * x \<noteq> 2 ^ 59"
proof -
  define y where "y = \<bar>x\<bar>"
  have "0 \<le> y" by (simp add: y_def)
  have "y * y \<noteq> 2 ^ 59"
  proof (cases "y \<le> 759250124")
    case True
    then have "y * y \<le> 759250124 * 759250124" using \<open>0 \<le> y\<close> by (intro mult_mono) auto
    then show ?thesis by simp
  next
    case False
    then have "759250125 * 759250125 \<le> y * y" by (intro mult_mono) auto
    then show ?thesis by simp
  qed
  then show ?thesis by (simp add: y_def)
qed

text \<open>A factor that is no fixnum makes the whole product no fixnum: nothing overflows on the way to
  a representable power.\<close>

lemma unfit_factor:
  assumes "\<not> fits p" "p \<noteq> - (2 ^ 59)" "q \<noteq> 0" "p = 2 ^ 59 \<Longrightarrow> q = 1 \<or> 2 \<le> \<bar>q\<bar>"
  shows "\<not> fits (p * q)"
proof -
  have "2 ^ 59 \<le> \<bar>p\<bar>" using assms(1) fits_abs(2) by force
  show ?thesis
  proof (cases "\<bar>p\<bar> = 2 ^ 59")
    case True
    then have "p = 2 ^ 59" using assms(2) by (auto simp: abs_if split: if_splits)
    then show ?thesis
    proof -
      consider "q = 1" | "2 \<le> \<bar>q\<bar>" using assms(4) \<open>p = 2 ^ 59\<close> by blast
      then show ?thesis
      proof cases
        case 1
        then show ?thesis using \<open>p = 2 ^ 59\<close> by (simp add: fits_bounds)
      next
        case 2
        then have "2 ^ 60 \<le> \<bar>p * q\<bar>" using \<open>p = 2 ^ 59\<close> by (simp add: abs_mult)
        then show ?thesis using fits_abs(1) [of "p * q"] by auto
      qed
    qed
  next
    case False
    then have "2 ^ 59 < \<bar>p\<bar>" using \<open>2 ^ 59 \<le> \<bar>p\<bar>\<close> by simp
    moreover have "\<bar>p\<bar> * 1 \<le> \<bar>p\<bar> * \<bar>q\<bar>" using assms(3) by (intro mult_left_mono) auto
    ultimately have "2 ^ 59 < \<bar>p * q\<bar>" by (simp add: abs_mult)
    then show ?thesis using fits_abs(1) by force
  qed
qed

lemma pow_square: "(b :: int) ^ nat e = (if e mod 2 = 1 then b else 1) * (b * b) ^ nat (e div 2)" if "0 \<le> e"
proof -
  have "nat e = nat (e mod 2) + 2 * nat (e div 2)" using that by (simp add: nat_mod_distrib nat_div_distrib)
  then have "b ^ nat e = b ^ nat (e mod 2) * (b * b) ^ nat (e div 2)"
    by (metis power_add power_mult power2_eq_square)
  moreover have "e mod 2 = 0 \<or> e mod 2 = 1" by auto
  ultimately show ?thesis by auto
qed

lemma pow_ge: "2 \<le> \<bar>b :: int\<bar> \<Longrightarrow> 0 < n \<Longrightarrow> \<bar>b\<bar> \<le> \<bar>b ^ n\<bar>"
  using self_le_power [of "\<bar>b\<bar>" n] by (simp add: power_abs)

declare expt_loop.simps [simp del]

lemma expt_loop_correct:
  assumes "0 \<le> expo" "fits result" "result \<noteq> 0 \<or> base = 0"
  shows "expt_loop result base expo = checked (result * base ^ nat expo)"
  using assms
proof (induction result base expo rule: expt_loop.induct)
  case (1 result base expo)
  show ?case
  proof (cases "0 < expo")
    case False
    then show ?thesis using "1.prems" by (simp add: expt_loop.simps checked_def)
  next
    case True
    let ?p = "result * (if expo mod 2 = 1 then base else 1)"
    let ?e = "expo div 2" let ?n = "nat (expo div 2)"
    have e: "expo smod 2 = expo mod 2" "expo sdiv 2 = ?e" "0 \<le> ?e"
      using True by (simp_all add: sdiv_smod_pos sdiv_pos)
    have total: "result * base ^ nat expo = ?p * (base * base) ^ ?n"
      using True pow_square [of expo base] by (simp add: mult.assoc)
    have first: "(if expo smod 2 = 1 then scm_int_multiply result base else Inr result) = checked ?p"
      using "1.prems"(2) by (simp add: e multiply_checked checked_def)
    have step: "expt_loop result base expo = and_then (checked ?p) (\<lambda>result.
        if ?e > 0 then and_then (checked (base * base)) (\<lambda>base. expt_loop result base ?e)
        else expt_loop result base ?e)"
      using True unfolding expt_loop.simps [of result base expo] first [symmetric]
      by (simp add: e multiply_checked cong: if_cong)
    have psq: "base * base = 0 \<or> base * base = 1 \<or> 4 \<le> base * base"
    proof -
      consider "\<bar>base\<bar> = 0" | "\<bar>base\<bar> = 1" | "2 \<le> \<bar>base\<bar>" by linarith
      then show ?thesis
      proof cases
        case 2
        then show ?thesis by (metis abs_mult_self_eq mult_1)
      next
        case 3
        then have "2 * 2 \<le> \<bar>base\<bar> * \<bar>base\<bar>" by (intro mult_mono) auto
        then show ?thesis by simp
      qed simp
    qed
    show ?thesis
    proof (cases "fits ?p")
      case False
      have p0: "?p \<noteq> 0" "?p \<noteq> - (2 ^ 59)" using False by (auto simp: fits_bounds)
      then have "base \<noteq> 0" using "1.prems"(2) False by (auto split: if_splits)
      then have "(base * base) ^ ?n = 1 \<or> 2 \<le> \<bar>(base * base) ^ ?n\<bar>"
        using psq pow_ge [of "base * base" ?n] by (cases "?n = 0") auto
      then have "\<not> fits (?p * (base * base) ^ ?n)"
        by (rule unfit_factor [OF False p0(2), rotated]) (simp add: \<open>base \<noteq> 0\<close>)
      then show ?thesis unfolding total using step False by (simp add: checked_def)
    next
      case fit: True
      show ?thesis
      proof (cases "0 < ?e")
        case False
        then have "?e = 0" using e(3) by simp
        then show ?thesis unfolding total using step fit by (simp add: checked_def expt_loop.simps)
      next
        case e0: True
        then have n0: "0 < ?n" by simp
        show ?thesis
        proof (cases "fits (base * base)")
          case False
          have b0: "base * base \<noteq> 0" using False by auto
          then have p0: "?p \<noteq> 0" using "1.prems"(3) by (auto split: if_splits)
          have ge: "2 ^ 59 < base * base"
            using False square_not_limit [of base] zero_le_square [of base]
            by (auto simp: fits_bounds not_less le_less)
          have "base * base \<le> \<bar>(base * base) ^ ?n\<bar>"
            using pow_ge [of "base * base" ?n] ge n0 by simp
          also have "\<dots> \<le> \<bar>?p\<bar> * \<bar>(base * base) ^ ?n\<bar>"
            using mult_right_mono [of 1 "\<bar>?p\<bar>" "\<bar>(base * base) ^ ?n\<bar>"] zero_less_abs_iff [THEN iffD2, OF p0]
            by (simp only: mult_1 abs_ge_zero int_one_le_iff_zero_less)
          finally have "2 ^ 59 < \<bar>?p * (base * base) ^ ?n\<bar>" using ge by (simp add: abs_mult)
          then have "\<not> fits (?p * (base * base) ^ ?n)" using fits_abs(1) by force
          then show ?thesis unfolding total using step fit e0 False by (simp add: checked_def)
        next
          case True
          have "?p \<noteq> 0 \<or> base * base = 0" using "1.prems"(3) by (auto split: if_splits)
          then have "expt_loop ?p (base * base) ?e = checked (?p * (base * base) ^ ?n)"
            using "1.IH"(1) [of ?e ?p "base * base"] \<open>0 < expo\<close> first e0 e fit True
            by (simp add: checked_def multiply_checked split: if_splits)
          then show ?thesis unfolding total using step fit e0 True by (simp add: checked_def)
        qed
      qed
    qed
  qed
qed

lemma gcd_smod: "gcd (y smod x) x = gcd x (y :: int)" if "x \<noteq> 0"
proof -
  have "\<bar>y smod x\<bar> = \<bar>y\<bar> mod \<bar>x\<bar>"
    using that by (cases "0 \<le> y") (simp_all add: smod_cases)
  then have "gcd (y smod x) x = gcd (\<bar>y\<bar> mod \<bar>x\<bar>) \<bar>x\<bar>"
    by (metis gcd_abs1_int gcd_abs2_int)
  also have "\<dots> = gcd x y" by (metis abs_gcd_int gcd.commute gcd_abs1_int gcd_abs2_int gcd_red_int)
  finally show ?thesis .
qed

declare gcd_loop.simps [simp del]

lemma gcd_loop_correct: "fits x \<Longrightarrow> fits y \<Longrightarrow> gcd_loop x y = checked (gcd x y)"
proof (induction x y rule: gcd_loop.induct)
  case (1 x y)
  show ?case
  proof (cases "x = 0")
    case True
    then show ?thesis
      using "1.prems" by (auto simp: gcd_loop.simps checked_def fits_bounds SCM_INT_MIN_def)
  next
    case False
    let ?r = "y smod x"
    have r: "scm_int_remainder y x = Inr ?r"
      using False by (auto simp: scm_int_remainder_def signed_modulo_int_def)
    have "fits ?r"
      using smod_less [OF False, of y] fits_abs(1) [OF "1.prems"(1)] by (intro fits_abs(2)) linarith
    then have "gcd_loop ?r x = checked (gcd ?r x)" using "1.IH" [OF False r] "1.prems" by blast
    then show ?thesis using False by (subst gcd_loop.simps) (simp add: r gcd_smod)
  qed
qed

lemma sdiv_dvd: "0 < d \<Longrightarrow> d dvd b \<Longrightarrow> b sdiv d = b div (d :: int)"
  by (elim dvdE) (simp add: signed_divide_int_def abs_mult sgn_mult mult_sgn_abs)

lemma lcm_step:
  assumes "fits a" "fits b" "a \<noteq> 0" "b \<noteq> 0"
  shows "and_then (and_then (gcd_loop a b) (\<lambda>g. scm_int_multiply a (b sdiv g))) (lcm_finish s) =
    and_then (checked (lcm a b)) (int_result s)"
proof -
  define g where "g = gcd a b"
  define p where "p = a * (b div g)"
  define l where "l = lcm a b"
  have g0: "0 < g" using assms(3) by (simp add: g_def)
  have q: "b sdiv g = b div g" using g0 by (simp add: sdiv_dvd g_def)
  have p: "\<bar>p\<bar> = l" 
    unfolding p_def l_def g_def lcm_gcd div_mult_swap [OF gcd_dvd2] by simp
  have gl: "g \<le> l"
    unfolding g_def l_def
    by (rule zdvd_imp_le [OF dvd_trans [OF gcd_dvd1 dvd_lcm1]]) (use assms(3,4) in \<open>simp add: lcm_pos_int\<close>)
  have lhs: "and_then (and_then (gcd_loop a b) (\<lambda>g. scm_int_multiply a (b sdiv g))) (lcm_finish s) =
      and_then (and_then (checked g) (\<lambda>g. checked (a * (b sdiv g)))) (lcm_finish s)"
    by (simp only: gcd_loop_correct [OF assms(1,2)] g_def multiply_checked)
  show ?thesis
  proof (cases "fits g")
    case False
    then have "\<not> fits l" using g0 gl by (auto simp: fits_bounds)
    then show ?thesis unfolding lhs l_def [symmetric] using False by (simp add: checked_def)
  next
    case fg: True
    have lhs': "and_then (and_then (checked g) (\<lambda>g. checked (a * (b sdiv g)))) (lcm_finish s) =
        and_then (checked p) (lcm_finish s)"
      using fg q by (simp add: checked_def p_def)
    have l: "fits l \<longleftrightarrow> fits p \<and> p \<noteq> SCM_INT_MIN"
      using p unfolding fits_bounds SCM_INT_MIN_def by linarith
    show ?thesis
      unfolding lhs lhs' l_def [symmetric]
      using l p by (cases "fits p"; cases "p < 0") (auto simp: checked_def lcm_finish_def)
  qed
qed

section \<open>What reduce computes\<close>

text \<open>\<open>checked_fold f a xs\<close> folds with an overflow check after every step.\<close>

fun checked_fold :: "(int \<Rightarrow> int \<Rightarrow> int) \<Rightarrow> int \<Rightarrow> int list \<Rightarrow> int res" where
  "checked_fold f a [] = Inr a"
| "checked_fold f a (x # xs) = and_then (checked (f a x)) (\<lambda>c. checked_fold f c xs)"

definition args_ints :: "heap \<Rightarrow> obj \<Rightarrow> int list \<Rightarrow> bool" where
  "args_ints h args xs \<longleftrightarrow> chain h args (map IntObj xs) SCM_NULL \<and> list_all fits xs"

declare reduce_loop.simps [code]

lemma reduce_loop_last:
  assumes "has_pair h args" "CDR h args = SCM_NULL"
  shows "reduce_loop ev False func h left args =
    Some (map_sum id (\<lambda>(v, _). (v, h)) (func left (CAR h args) SCM_REDUCE_LAST))"
  using assms by (subst reduce_loop.simps) (auto simp: eval_operand_def split: sum.splits)

lemma reduce_loop_more:
  assumes "has_pair h args" "has_pair h (CDR h args)"
  shows "reduce_loop ev False func h left args =
    (case func left (CAR h args) SCM_REDUCE_PARTWAY of
       Inl e \<Rightarrow> Some (Inl e)
     | Inr (v, state) \<Rightarrow> if state = SCM_REDUCE_STOP then Some (Inr (v, h))
         else reduce_loop ev False func h v (CDR h args))"
  using assms by (subst reduce_loop.simps) (auto simp: eval_operand_def dest: has_pair_CONSP split: sum.splits)

lemma reduce_many:
  assumes "has_pair h args" "has_pair h (CDR h args)"
  shows "reduce ev False func h args = reduce_loop ev False func h (CAR h args) (CDR h args)"
  using assms by (simp add: reduce_def NO_MORE_ARG_def eval_operand_def has_pair_CONSP)

lemma reduce_none: "reduce ev need func h SCM_NULL =
    Some (map_sum id (\<lambda>(v, _). (v, h)) (func SCM_INVALID SCM_INVALID SCM_REDUCE_0))"
  by (simp add: reduce_def NO_MORE_ARG_def)

lemma reduce_one:
  assumes "has_pair h args" "CDR h args = SCM_NULL"
  shows "reduce ev False func h args =
    Some (map_sum id (\<lambda>(v, _). (v, h)) (func (CAR h args) (CAR h args) SCM_REDUCE_1))"
  using assms by (simp add: reduce_def NO_MORE_ARG_def eval_operand_def has_pair_CONSP Let_def)

text \<open>The contract of an operator that accumulates: on two fixnums it computes \<open>f\<close> or reports
  overflow, on every step of the reduction alike.\<close>

locale accumulator =
  fixes func :: reduction_operator and f :: "int \<Rightarrow> int \<Rightarrow> int"
  assumes step: "fits a \<Longrightarrow> fits b \<Longrightarrow> s = SCM_REDUCE_PARTWAY \<or> s = SCM_REDUCE_LAST \<Longrightarrow>
    func (IntObj a) (IntObj b) s = and_then (checked (f a b)) (int_result s)"
begin

lemma loop:
  assumes "args_ints h args (x # xs)" "fits a"
  shows "reduce_loop ev False func h (IntObj a) args =
    Some (map_sum id (\<lambda>i. (IntObj i, h)) (checked_fold f a (x # xs)))"
  using assms
proof (induction xs arbitrary: args a x)
  case Nil
  then show ?case by (auto simp: args_ints_def reduce_loop_last step checked_def int_result_def)
next
  case (Cons y ys)
  then have "args_ints h (CDR h args) (y # ys)" by (simp add: args_ints_def)
  then have "fits (f a x) \<Longrightarrow> reduce_loop ev False func h (IntObj (f a x)) (CDR h args) =
      Some (map_sum id (\<lambda>i. (IntObj i, h)) (checked_fold f (f a x) (y # ys)))"
    using Cons.IH by blast
  then show ?case
    using Cons.prems by (auto simp: args_ints_def reduce_loop_more step checked_def int_result_def id_def)
qed

lemma reduce_fold:
  assumes "args_ints h args (x # y # xs)"
  shows "reduce ev False func h args = Some (map_sum id (\<lambda>i. (IntObj i, h)) (checked_fold f x (y # xs)))"
proof -
  have "args_ints h (CDR h args) (y # xs)" "fits x" using assms by (auto simp: args_ints_def)
  from loop [OF this] show ?thesis using assms by (simp add: args_ints_def reduce_many)
qed

end

text \<open>The contract of a comparison: it passes the right operand on while the relation holds and
  stops the reduction when it does not.\<close>

locale comparator =
  fixes func :: reduction_operator and rel :: "int \<Rightarrow> int \<Rightarrow> bool"
  assumes step: "s = SCM_REDUCE_PARTWAY \<or> s = SCM_REDUCE_LAST \<Longrightarrow>
    func (IntObj a) (IntObj b) s =
      Inr (if rel a b then (if s = SCM_REDUCE_LAST then SCM_TRUE else IntObj b, s) else (SCM_FALSE, SCM_REDUCE_STOP))"
begin

lemma loop:
  assumes "chain h args (map IntObj (x # xs)) SCM_NULL"
  shows "reduce_loop ev False func h (IntObj a) args =
    Some (Inr (MAKE_BOOL (successively rel (a # x # xs)), h))"
  using assms
proof (induction xs arbitrary: args a x)
  case Nil
  then show ?case by (auto simp: reduce_loop_last step MAKE_BOOL_def)
next
  case (Cons y ys)
  then have "reduce_loop ev False func h (IntObj x) (CDR h args) =
      Some (Inr (MAKE_BOOL (successively rel (x # y # ys)), h))"
    by (intro Cons.IH) simp
  then show ?case using Cons.prems by (auto simp: reduce_loop_more step MAKE_BOOL_def)
qed

lemma reduce_chain:
  assumes "chain h args (map IntObj (x # y # xs)) SCM_NULL"
  shows "reduce ev False func h args = Some (Inr (MAKE_BOOL (successively rel (x # y # xs)), h))"
proof -
  have "chain h (CDR h args) (map IntObj (y # xs)) SCM_NULL" using assms by simp
  from loop [OF this, of ev x] show ?thesis using assms by (simp add: reduce_many)
qed

end

section \<open>The operators keep their contracts\<close>

lemma fits_signed_take: "fits i \<longleftrightarrow> signed_take_bit 59 i = i"
  by (simp add: fits_bounds signed_take_bit_int_eq_self_iff)

lemma fits_bitwise:
  assumes "fits a" "fits b"
  shows "fits (a AND b)" "fits (a OR b)" "fits (a XOR b)" "fits (NOT a)"
proof -
  have "bit i n = bit i (min 59 n)" if "fits i" for i n
    using arg_cong [OF that [unfolded fits_signed_take], of "\<lambda>k. bit k n"] by (simp add: bit_signed_take_bit_iff)
  from this [OF assms(1)] this [OF assms(2)]
  show "fits (a AND b)" "fits (a OR b)" "fits (a XOR b)"
    unfolding fits_signed_take bit_eq_iff bit_signed_take_bit_iff bit_simps by metis+
  show "fits (NOT a)" using assms(1) by (simp add: fits_bounds not_int_def)
qed

lemma ENSURE_INT_simps [simp]: "ENSURE_INT (IntObj i) = Inr ()"
  by (simp add: ENSURE_INT_def)

lemma compare_numbers_int [simp]:
  "compare_numbers (IntObj a) (IntObj b) = Inr ((if a > b then 1 else 0) - (if a < b then 1 else 0))"
  by (simp add: compare_numbers_def)

lemma add_step:
  assumes "fits a" "fits b"
  shows "(if (if b > 0 then a > SCM_INT_MAX - b else a < SCM_INT_MIN - b) then Inl fixnum_overflow
    else int_result s (a + b)) = and_then (checked (a + b)) (int_result s)"
  using assms by (auto simp: fits_bounds checked_def num_defs)

lemma subtract_step:
  assumes "fits a" "fits b"
  shows "(if (if b < 0 then a > SCM_INT_MAX + b else a < SCM_INT_MIN + b) then Inl fixnum_overflow
    else int_result s (a - b)) = and_then (checked (a - b)) (int_result s)"
  using assms by (auto simp: fits_bounds checked_def num_defs)

interpretation add: accumulator scm_p_add "(+)"
  by unfold_locales (auto simp: scm_p_add_def Let_def add_step)

interpretation subtract: accumulator scm_p_subtract "(-)"
  by unfold_locales (auto simp: scm_p_subtract_def Let_def subtract_step)

interpretation multiply: accumulator scm_p_multiply "(*)"
  by unfold_locales (auto simp: scm_p_multiply_def multiply_checked)

interpretation gcd: accumulator scm_p_gcd "gcd"
  by unfold_locales (auto simp: scm_p_gcd_def gcd_loop_correct)

lemma lcm_zero: "fits a \<Longrightarrow> a = 0 \<or> b = 0 \<Longrightarrow> lcm_finish s 0 = and_then (checked (lcm a b)) (int_result s)"
  by (auto simp: lcm_finish_def checked_def num_defs)

lemma lcm_operator:
  assumes "fits a" "fits b"
  shows "and_then (if a = 0 \<or> b = 0 then Inr 0 else and_then (gcd_loop a b) (\<lambda>g. scm_int_multiply a (b sdiv g)))
    (lcm_finish s) = and_then (checked (lcm a b)) (int_result s)"
  using lcm_zero [OF assms(1), of b s] lcm_step [OF assms, of s] by (cases "a = 0 \<or> b = 0") simp_all

interpretation lcm: accumulator scm_p_lcm "lcm"
  by unfold_locales (elim disjE; simp add: scm_p_lcm_def Let_def lcm_operator del: if_splits cong: if_cong)

interpretation logand: accumulator scm_p_srfi60_logand "(AND)"
  by unfold_locales (auto simp: scm_p_srfi60_logand_def BITWISE_OPERATION_BODY_def checked_def fits_bitwise)

interpretation logior: accumulator scm_p_srfi60_logior "(OR)"
  by unfold_locales (auto simp: scm_p_srfi60_logior_def BITWISE_OPERATION_BODY_def checked_def fits_bitwise)

interpretation logxor: accumulator scm_p_srfi60_logxor "(XOR)"
  by unfold_locales (auto simp: scm_p_srfi60_logxor_def BITWISE_OPERATION_BODY_def checked_def fits_bitwise)

interpretation max: accumulator scm_p_max "max"
  by unfold_locales (auto simp: scm_p_max_def checked_def max_def int_result_def)

interpretation min: accumulator scm_p_min "min"
  by unfold_locales (auto simp: scm_p_min_def checked_def min_def int_result_def)

interpretation equal: comparator scm_p_equal "(=)"
  by unfold_locales (auto simp: scm_p_equal_def COMPARATOR_BODY_def)

interpretation less: comparator scm_p_less "(<)"
  by unfold_locales (auto simp: scm_p_less_def COMPARATOR_BODY_def)

interpretation less_eq: comparator scm_p_less_equal "(\<le>)"
  by unfold_locales (auto simp: scm_p_less_equal_def COMPARATOR_BODY_def)

interpretation greater: comparator scm_p_greater "(>)"
  by unfold_locales (auto simp: scm_p_greater_def COMPARATOR_BODY_def)

interpretation greater_eq: comparator scm_p_greater_equal "(\<ge>)"
  by unfold_locales (auto simp: scm_p_greater_equal_def COMPARATOR_BODY_def)

section \<open>Folds without overflow\<close>

lemma checked_fold_total:
  assumes "\<And>a b. fits a \<Longrightarrow> fits b \<Longrightarrow> fits (f a b)" "fits a" "list_all fits xs"
  shows "checked_fold f a xs = Inr (foldl f a xs) \<and> fits (foldl f a xs)"
  using assms(2,3) by (induction xs arbitrary: a) (auto simp: checked_def assms(1))

lemma checked_fold_Inr:
  "checked_fold f a xs = Inr r \<Longrightarrow> fits a \<Longrightarrow> r = foldl f a xs \<and> fits r"
  by (induction xs arbitrary: a) (auto simp: checked_def split: if_splits)

lemma checked_fold_iff:
  "fits a \<Longrightarrow> checked_fold f a xs =
    (if \<forall>n \<le> length xs. fits (foldl f a (take n xs)) then Inr (foldl f a xs) else Inl fixnum_overflow)"
proof (induction xs arbitrary: a)
  case (Cons x xs)
  have all: "(\<forall>n \<le> length (x # xs). fits (foldl f a (take n (x # xs)))) \<longleftrightarrow>
      fits (f a x) \<and> (\<forall>n \<le> length xs. fits (foldl f (f a x) (take n xs)))"
    (is "?l \<longleftrightarrow> ?r")
  proof
    assume l: ?l
    have "fits (foldl f (f a x) (take n xs))" if "n \<le> length xs" for n
      using l [rule_format, of "Suc n"] that by simp
    moreover from this [of 0] have "fits (f a x)" by simp
    ultimately show ?r by blast
  next
    assume r: ?r
    show ?l
    proof (intro allI impI)
      fix n assume "n \<le> length (x # xs)"
      then show "fits (foldl f a (take n (x # xs)))" using r Cons.prems by (cases n) auto
    qed
  qed
  show ?case
    unfolding all using Cons.IH [of "f a x"] by (simp add: checked_def)
qed simp

lemma foldl_sum: "foldl (+) (a :: int) xs = a + sum_list xs"
  by (induction xs arbitrary: a) auto

lemma foldl_prod: "foldl (*) (a :: int) xs = a * prod_list xs"
  by (induction xs arbitrary: a) auto

lemma div_bounds:
  assumes "0 < (b :: int)"
  shows "(0 \<le> a \<longrightarrow> 0 \<le> a div b \<and> a div b \<le> a \<and> (2 \<le> b \<longrightarrow> 2 * (a div b) \<le> a)) \<and>
    (a < 0 \<longrightarrow> a \<le> a div b \<and> a div b < 0)"
proof -
  let ?q = "a div b"
  have eq: "a = b * ?q + a mod b" and m: "0 \<le> a mod b" "a mod b < b" using assms by simp_all
  have nonneg: "0 \<le> ?q" if "0 \<le> a" using that assms by (simp add: pos_imp_zdiv_nonneg_iff)
  have "c * ?q \<le> b * ?q" if "0 \<le> ?q" "c \<le> b" for c using that by (simp add: mult_right_mono)
  from this [of 1] this [of 2] have pos: "0 \<le> ?q \<Longrightarrow> ?q \<le> a" "0 \<le> ?q \<Longrightarrow> 2 \<le> b \<Longrightarrow> 2 * ?q \<le> a"
    using assms eq m by linarith+
  have neg: "?q < 0" if "a < 0" using that assms by (simp add: pos_imp_zdiv_neg_iff)
  have "a \<le> ?q" if "a < 0"
  proof -
    have "b * (?q + 1) \<le> ?q + 1" using neg [OF that] assms mult_right_mono_neg [of 1 b "?q + 1"] by simp
    moreover have "b * (?q + 1) = b * ?q + b" by (simp add: distrib_left)
    ultimately show ?thesis using eq m by linarith
  qed
  then show ?thesis using nonneg pos neg by blast
qed

section \<open>Properties of the arithmetic\<close>

text \<open>C25: the four divisions on fixnums. Division by zero is an error; the only quotient that overflows is
  the least fixnum divided by -1; quotient and remainder truncate toward zero, modulo and floored
  quotient round down, so that the modulo has the sign of the divisor. All results are fixnums.\<close>

theorem integer_divisions:
  assumes "fits a" "fits b"
  shows "scm_p_quotient (IntObj a) (IntObj b) =
      (if b = 0 then Inl div_by_zero else if a = SCM_INT_MIN \<and> b = -1 then Inl fixnum_overflow
       else Inr (IntObj (sgn a * sgn b * (\<bar>a\<bar> div \<bar>b\<bar>)))) \<and>
    scm_p_remainder (IntObj a) (IntObj b) = (if b = 0 then Inl div_by_zero else Inr (IntObj (sgn a * (\<bar>a\<bar> mod \<bar>b\<bar>)))) \<and>
    scm_p_modulo (IntObj a) (IntObj b) = (if b = 0 then Inl div_by_zero else Inr (IntObj (a mod b))) \<and>
    scm_integer_divide (IntObj a) (IntObj b) CHR ''f'' =
      (if b = 0 then Inl div_by_zero else if a = SCM_INT_MIN \<and> b = -1 then Inl fixnum_overflow
       else Inr (IntObj (a div b))) \<and>
    (b \<noteq> 0 \<longrightarrow> fits (a mod b) \<and> (a = SCM_INT_MIN \<and> b = -1 \<or> fits (a div b)))"
proof -
  have rem: "scm_int_remainder a b = (if b = 0 then Inl div_by_zero else Inr (a smod b))"
    by (auto simp: scm_int_remainder_def signed_modulo_int_def)
  have m: "fits (a mod b)" if "b \<noteq> 0"
    using that assms pos_mod_bound [of b a] pos_mod_sign [of b a] neg_mod_bound [of b a] neg_mod_sign [of b a]
    unfolding fits_bounds by linarith
  have d: "fits (a div b)" if "b \<noteq> 0" "\<not> (a = SCM_INT_MIN \<and> b = -1)"
  proof (cases "0 < b")
    case True
    then show ?thesis using div_bounds [OF True, of a] assms(1) unfolding fits_bounds by linarith
  next
    case False
    then have b: "0 < - b" "a div b = - a div - b" using that(1) by simp_all
    show ?thesis
    proof (cases "b = -1")
      case True
      then show ?thesis using that(2) assms(1) by (auto simp: fits_bounds SCM_INT_MIN_def)
    next
      case False
      then have "2 \<le> - b" using b(1) by simp
      then show ?thesis
        using div_bounds [OF b(1), of "- a"] assms(1) unfolding b(2) fits_bounds by linarith
    qed
  qed
  show ?thesis
    using m d floor_mod_of_smod [of b a]
    by (auto simp: scm_p_quotient_def scm_p_remainder_def scm_p_modulo_def scm_integer_divide_def rem
        scm_int_quotient_def scm_int_modulo_def MAKE_INT_def Let_def signed_divide_int_def signed_modulo_int_def)
qed

lemma integer_divisions_witness:
  "scm_p_modulo (IntObj (-7)) (IntObj 2) = Inr (IntObj 1) \<and> scm_p_remainder (IntObj (-7)) (IntObj 2) = Inr (IntObj (-1))"
  using integer_divisions [of "-7" 2] by (simp add: fits_bounds)

text \<open>C26: \<^verbatim>\<open>expt\<close> on fixnums with a non-negative exponent is exact exponentiation: repeated squaring
  returns the power whenever the power is a fixnum, with no false overflow on the way, and
  reports overflow otherwise.\<close>

theorem scm_p_expt_correct:
  assumes "fits b" "0 \<le> e"
  shows "scm_p_expt (IntObj b) (IntObj e) =
    (if fits (b ^ nat e) then Inr (IntObj (b ^ nat e)) else Inl fixnum_overflow)"
  using expt_loop_correct [OF assms(2), of 1 b] assms
  by (simp add: scm_p_expt_def Let_def checked_def MAKE_INT_def)

lemma scm_p_expt_correct_witness:
  "scm_p_expt (IntObj (-2)) (IntObj 59) = Inr (IntObj SCM_INT_MIN) \<and>
   scm_p_expt (IntObj 2) (IntObj 59) = Inl fixnum_overflow"
  using scm_p_expt_correct [of "-2" 59] scm_p_expt_correct [of 2 59] by (simp add: fits_bounds num_defs)

text \<open>C27: \<^verbatim>\<open>gcd\<close> and \<^verbatim>\<open>lcm\<close> of two fixnums end and give the greatest common divisor and the least common
  multiple, as non-negative fixnums, or report overflow when the result is none.\<close>

theorem scm_p_gcd_lcm_correct:
  assumes "fits a" "fits b" "s = SCM_REDUCE_PARTWAY \<or> s = SCM_REDUCE_LAST"
  shows "scm_p_gcd (IntObj a) (IntObj b) s = (if fits (gcd a b) then Inr (IntObj (gcd a b), s) else Inl fixnum_overflow) \<and>
    scm_p_lcm (IntObj a) (IntObj b) s = (if fits (lcm a b) then Inr (IntObj (lcm a b), s) else Inl fixnum_overflow)"
  using gcd.step [OF assms] lcm.step [OF assms] by (simp add: checked_def int_result_def)

lemma scm_p_gcd_lcm_correct_witness:
  "scm_p_gcd (IntObj 12) (IntObj (-18)) SCM_REDUCE_LAST = Inr (IntObj 6, SCM_REDUCE_LAST) \<and>
   scm_p_lcm (IntObj 4) (IntObj 6) SCM_REDUCE_LAST = Inr (IntObj 12, SCM_REDUCE_LAST)"
  using scm_p_gcd_lcm_correct [of 12 "-18" SCM_REDUCE_LAST] scm_p_gcd_lcm_correct [of 4 6 SCM_REDUCE_LAST]
  by (simp add: fits_bounds lcm_int_def gcd_int_def lcm_nat_def gcd_nat.simps)

lemma reduce_fold_iff:
  assumes "accumulator func f" "args_ints h args (x # y # xs)"
    and "\<And>n. foldl f x (take n (y # xs)) = g (take (Suc n) (x # y # xs))" "fits (g [])"
  shows "reduce ev False func h args =
    Some (if \<forall>n \<le> length (x # y # xs). fits (g (take n (x # y # xs))) then Inr (IntObj (g (x # y # xs)), h)
          else Inl fixnum_overflow)"
proof -
  have "fits x" using assms(2) by (simp add: args_ints_def)
  have all: "(\<forall>n \<le> length (y # xs). fits (foldl f x (take n (y # xs)))) \<longleftrightarrow>
      (\<forall>n \<le> length (x # y # xs). fits (g (take n (x # y # xs))))" (is "?l \<longleftrightarrow> ?r")
  proof
    assume l: ?l
    show ?r
    proof (intro allI impI)
      fix n assume "n \<le> length (x # y # xs)"
      then show "fits (g (take n (x # y # xs)))"
        using l [rule_format, of "n - 1"] assms(3) [of "n - 1"] assms(4) by (cases n) auto
    qed
  next
    assume r: ?r
    show ?l
    proof (intro allI impI)
      fix n assume "n \<le> length (y # xs)"
      then show "fits (foldl f x (take n (y # xs)))" using r [rule_format, of "Suc n"] assms(3) [of n] by simp
    qed
  qed
  have total: "foldl f x (y # xs) = g (x # y # xs)" using assms(3) [of "length (y # xs)"] by simp
  show ?thesis
    unfolding accumulator.reduce_fold [OF assms(1,2)] checked_fold_iff [OF \<open>fits x\<close>] all total by simp
qed

text \<open>C24: the n-ary sum, product and difference over a list of at least two fixnums: the exact result when
  every prefix of the operands has a result in the fixnum range, the overflow error otherwise.
  Overflow is never silent, and the order of evaluation is from the left.\<close>

theorem reduce_arithmetic:
  assumes "args_ints h args (x # y # xs)"
  shows "reduce ev False scm_p_add h args =
      Some (if \<forall>n \<le> length (x # y # xs). fits (sum_list (take n (x # y # xs)))
            then Inr (IntObj (sum_list (x # y # xs)), h) else Inl fixnum_overflow) \<and>
    reduce ev False scm_p_multiply h args =
      Some (if \<forall>n \<le> length (x # y # xs). fits (prod_list (take n (x # y # xs)))
            then Inr (IntObj (prod_list (x # y # xs)), h) else Inl fixnum_overflow) \<and>
    reduce ev False scm_p_subtract h args =
      Some (if \<forall>n \<le> length (y # xs). fits (x - sum_list (take n (y # xs)))
            then Inr (IntObj (x - sum_list (y # xs)), h) else Inl fixnum_overflow)"
proof -
  have "fits x" using assms by (simp add: args_ints_def)
  have sub: "foldl (-) a zs = a - sum_list zs" for a :: int and zs by (induction zs arbitrary: a) auto
  have "reduce ev False scm_p_subtract h args =
      Some (if \<forall>n \<le> length (y # xs). fits (x - sum_list (take n (y # xs)))
            then Inr (IntObj (x - sum_list (y # xs)), h) else Inl fixnum_overflow)"
    unfolding subtract.reduce_fold [OF assms] checked_fold_iff [OF \<open>fits x\<close>] sub by simp
  moreover note reduce_fold_iff [OF add.accumulator_axioms assms, where g = sum_list, of ev]
    reduce_fold_iff [OF multiply.accumulator_axioms assms, where g = prod_list, of ev]
  ultimately show ?thesis by (simp add: foldl_sum foldl_prod)
qed

text \<open>Two inputs for the examples: a heap that holds one list of integers, and an evaluator for
  operands that evaluate to themselves.\<close>

definition self_eval :: operand_evaluator where "self_eval h x = Some (Inr (x, h))"

definition int_list_heap :: "int list \<Rightarrow> heap" where
  "int_list_heap xs = \<lparr>mem = (\<lambda>a. if a < length xs then
      Some (PairCell (IntObj (xs ! a)) (if Suc a < length xs then Ptr PTAG_CONS (Suc a) else SCM_NULL)) else None),
    brk = length xs\<rparr>"

lemma reduce_arithmetic_witness:
  "reduce self_eval False scm_p_add (int_list_heap [1, 2, 3]) (Ptr PTAG_CONS 0) = Some (Inr (IntObj 6, int_list_heap [1, 2, 3]))"
proof -
  have a: "args_ints (int_list_heap [1, 2, 3]) (Ptr PTAG_CONS 0) [1, 2, 3]"
    by (simp add: args_ints_def fits_bounds has_pair_def int_list_heap_def)
  have "\<forall>n \<le> length [1, 2, 3 :: int]. fits (sum_list (take n [1, 2, 3]))"
    by (simp add: le_Suc_eq fits_bounds)
  then show ?thesis using reduce_arithmetic [OF a, of self_eval] by simp
qed

text \<open>C28: the five comparisons over a list of at least two integers say whether every neighbouring pair is
  related, which for these relations is whether the whole list is ordered so.\<close>

theorem reduce_comparisons:
  assumes "chain h args (map IntObj (x # y # xs)) SCM_NULL"
  shows "reduce ev False scm_p_less h args = Some (Inr (MAKE_BOOL (sorted_wrt (<) (x # y # xs)), h)) \<and>
    reduce ev False scm_p_less_equal h args = Some (Inr (MAKE_BOOL (sorted_wrt (\<le>) (x # y # xs)), h)) \<and>
    reduce ev False scm_p_greater h args = Some (Inr (MAKE_BOOL (sorted_wrt (>) (x # y # xs)), h)) \<and>
    reduce ev False scm_p_greater_equal h args = Some (Inr (MAKE_BOOL (sorted_wrt (\<ge>) (x # y # xs)), h)) \<and>
    reduce ev False scm_p_equal h args = Some (Inr (MAKE_BOOL (\<forall>z \<in> set (y # xs). z = x), h))"
proof -
  have eq: "successively (=) (a # zs) \<longleftrightarrow> (\<forall>z \<in> set zs. z = a)" for a :: int and zs
    by (induction zs arbitrary: a) auto
  have tr: "transp ((<) :: int \<Rightarrow> _)" "transp ((\<le>) :: int \<Rightarrow> _)" "transp ((>) :: int \<Rightarrow> _)" "transp ((\<ge>) :: int \<Rightarrow> _)"
    by (auto simp: transp_def)
  show ?thesis
    unfolding less.reduce_chain [OF assms] less_eq.reduce_chain [OF assms] greater.reduce_chain [OF assms]
      greater_eq.reduce_chain [OF assms] equal.reduce_chain [OF assms] eq
      successively_conv_sorted_wrt [OF tr(1)] successively_conv_sorted_wrt [OF tr(2)]
      successively_conv_sorted_wrt [OF tr(3)] successively_conv_sorted_wrt [OF tr(4)]
    by blast
qed

lemma reduce_comparisons_witness:
  "reduce self_eval False scm_p_less (int_list_heap [1, 5, 3]) (Ptr PTAG_CONS 0) = Some (Inr (SCM_FALSE, int_list_heap [1, 5, 3]))"
  using reduce_comparisons [of "int_list_heap [1, 5, 3]" "Ptr PTAG_CONS 0" 1 5 "[3]" self_eval]
  by (simp add: has_pair_def int_list_heap_def MAKE_BOOL_def)

text \<open>the bitwise operations work on every bit of the two's complement representation and never leave
  the fixnum range, also over a whole argument list.\<close>

theorem bitwise_operations:
  assumes "args_ints h args (x # y # xs)" "fits m"
  shows "(\<exists>r. reduce ev False scm_p_srfi60_logand h args = Some (Inr (IntObj r, h)) \<and> fits r \<and>
      (\<forall>n. bit r n = (\<forall>z \<in> set (x # y # xs). bit z n))) \<and>
    (\<exists>r. reduce ev False scm_p_srfi60_logior h args = Some (Inr (IntObj r, h)) \<and> fits r \<and>
      (\<forall>n. bit r n = (\<exists>z \<in> set (x # y # xs). bit z n))) \<and>
    (\<exists>r. scm_p_srfi60_bitwise_if (IntObj m) (IntObj x) (IntObj y) = Inr (IntObj r) \<and> fits r \<and>
      (\<forall>n. bit r n = (if bit m n then bit x n else bit y n))) \<and>
    (\<exists>r. scm_p_srfi60_lognot (IntObj x) = Inr (IntObj r) \<and> fits r \<and> r = - x - 1)"
proof -
  have f: "fits x" "fits y" "list_all fits (y # xs)" using assms(1) by (auto simp: args_ints_def)
  have andl: "bit (foldl (AND) (a :: int) zs) n \<longleftrightarrow> bit a n \<and> (\<forall>z \<in> set zs. bit z n)" for a zs n
    by (induction zs arbitrary: a) (auto simp: bit_and_iff)
  have orl: "bit (foldl (OR) (a :: int) zs) n \<longleftrightarrow> bit a n \<or> (\<exists>z \<in> set zs. bit z n)" for a zs n
    by (induction zs arbitrary: a) (auto simp: bit_or_iff)
  have "reduce ev False scm_p_srfi60_logand h args = Some (Inr (IntObj (foldl (AND) x (y # xs)), h)) \<and>
      fits (foldl (AND) x (y # xs)) \<and> (\<forall>n. bit (foldl (AND) x (y # xs)) n = (\<forall>z \<in> set (x # y # xs). bit z n))"
    using logand.reduce_fold [OF assms(1), of ev] checked_fold_total [where f = "(AND)", OF fits_bitwise(1) f(1,3)]
    unfolding andl by simp
  moreover have "reduce ev False scm_p_srfi60_logior h args = Some (Inr (IntObj (foldl (OR) x (y # xs)), h)) \<and>
      fits (foldl (OR) x (y # xs)) \<and> (\<forall>n. bit (foldl (OR) x (y # xs)) n = (\<exists>z \<in> set (x # y # xs). bit z n))"
    using logior.reduce_fold [OF assms(1), of ev] checked_fold_total [where f = "(OR)", OF fits_bitwise(2) f(1,3)]
    unfolding orl by simp
  moreover have "scm_p_srfi60_bitwise_if (IntObj m) (IntObj x) (IntObj y) = Inr (IntObj ((m AND x) OR (NOT m AND y))) \<and>
      fits ((m AND x) OR (NOT m AND y)) \<and>
      (\<forall>n. bit ((m AND x) OR (NOT m AND y)) n = (if bit m n then bit x n else bit y n))"
    using assms(2) f
    by (simp add: scm_p_srfi60_bitwise_if_def MAKE_INT_def Let_def fits_bitwise bit_or_iff bit_and_iff bit_not_iff)
  moreover have "scm_p_srfi60_lognot (IntObj x) = Inr (IntObj (- x - 1))" "fits (- x - 1)"
    using f by (simp_all add: scm_p_srfi60_lognot_def MAKE_INT_def not_int_def fits_bounds)
  ultimately show ?thesis by blast
qed

lemma bitwise_operations_witness:
  "\<exists>r. reduce self_eval False scm_p_srfi60_logand (int_list_heap [6, 3]) (Ptr PTAG_CONS 0) = Some (Inr (IntObj r, int_list_heap [6, 3])) \<and> fits r"
proof -
  have "args_ints (int_list_heap [6, 3]) (Ptr PTAG_CONS 0) [6, 3]"
    by (simp add: args_ints_def fits_bounds has_pair_def int_list_heap_def)
  from bitwise_operations [OF this, of 0 self_eval] show ?thesis by auto
qed

end
