(* ===== verification/Strings.thy ===== *)
theory Strings
  imports Numbers Encoding
begin

text \<open>
  Strings: the constructors of \<^verbatim>\<open>src/storage.c\<close>, \<^verbatim>\<open>src/string.c\<close> and \<^verbatim>\<open>src/string-procedure.c\<close>, over the
  character codecs of theory \<open>Encoding\<close>.

  A string cell holds the bytes before the terminating null, the length in characters and the
  mutability. The current codec (\<^verbatim>\<open>scm_current_char_codec\<close>) is an argument. A procedure returns
  \<open>None\<close> only where the source does not return, writes through a null pointer or writes beyond a buffer.

  \<open>string_is\<close> relates a string object to the list of its characters: the operations are shown to
  implement the operations on lists of characters, for every codec. The codec contract that this
  needs, \<open>string_codec\<close>, extends \<open>char_codec\<close>: no null byte in the code of a character, no shift state,
  no negative character.

  The case insensitive comparisons need the folding tables of \<^verbatim>\<open>unicode-table.c\<close> and are not
  modelled.
\<close>

section \<open>String cells\<close>

fun STRINGP :: "heap \<Rightarrow> obj \<Rightarrow> bool" where
  "STRINGP h x = (case misc_cell h x of Some (StringCell _ _ _) \<Rightarrow> True | _ \<Rightarrow> False)"

definition STRING_STR :: "heap \<Rightarrow> obj \<Rightarrow> byte list" where
  "STRING_STR h x = (case misc_cell h x of Some (StringCell str _ _) \<Rightarrow> str | _ \<Rightarrow> [])"

definition STRING_LEN :: "heap \<Rightarrow> obj \<Rightarrow> int" where
  "STRING_LEN h x = (case misc_cell h x of Some (StringCell _ len _) \<Rightarrow> len | _ \<Rightarrow> 0)"

definition STRING_MUTABLEP :: "heap \<Rightarrow> obj \<Rightarrow> bool" where
  "STRING_MUTABLEP h x = (case misc_cell h x of Some (StringCell _ _ mut) \<Rightarrow> mut | _ \<Rightarrow> False)"

fun put_cell :: "heap \<Rightarrow> obj \<Rightarrow> cell \<Rightarrow> heap" where
  "put_cell h (Ptr PTAG_MISC a) c = h\<lparr>mem := (mem h)(a \<mapsto> c)\<rparr>"
| "put_cell h _ c = h"

text \<open>A C string ends at its first null byte.\<close>

definition c_str :: "byte list \<Rightarrow> byte list" where
  "c_str bs = takeWhile (\<lambda>b. b \<noteq> 0) bs"

definition STRING_SET_STR :: "heap \<Rightarrow> obj \<Rightarrow> byte list \<Rightarrow> heap" where
  "STRING_SET_STR h x str = put_cell h x (StringCell (c_str str) (STRING_LEN h x) (STRING_MUTABLEP h x))"

definition STRING_SET_LEN :: "heap \<Rightarrow> obj \<Rightarrow> int \<Rightarrow> heap" where
  "STRING_SET_LEN h x len = put_cell h x (StringCell (STRING_STR h x) len (STRING_MUTABLEP h x))"

definition STRLEN_UNKNOWN :: int where "STRLEN_UNKNOWN = -1"

definition scm_mb_bare_c_strlen :: "codec_vtbl \<Rightarrow> byte list \<Rightarrow> nat option" where
  "scm_mb_bare_c_strlen codec s = scm_mb_strlen codec s"

definition scm_make_string_internal ::
    "codec_vtbl \<Rightarrow> heap \<Rightarrow> byte list \<Rightarrow> int \<Rightarrow> bool \<Rightarrow> (obj \<times> heap) option" where
  "scm_make_string_internal codec h str len immutablep =
     Option.bind (if len = STRLEN_UNKNOWN then map_option int (scm_mb_bare_c_strlen codec (c_str str)) else Some len)
       (\<lambda>len. Some (alloc_ptr PTAG_MISC h (StringCell (c_str str) len (\<not> immutablep))))"

definition scm_make_immutable_string :: "codec_vtbl \<Rightarrow> heap \<Rightarrow> byte list \<Rightarrow> int \<Rightarrow> (obj \<times> heap) option" where
  "scm_make_immutable_string codec h str len = scm_make_string_internal codec h str len True"
definition scm_make_immutable_string_copying ::
    "codec_vtbl \<Rightarrow> heap \<Rightarrow> byte list \<Rightarrow> int \<Rightarrow> (obj \<times> heap) option" where
  "scm_make_immutable_string_copying codec h str len = scm_make_string_internal codec h str len True"
definition scm_make_string :: "codec_vtbl \<Rightarrow> heap \<Rightarrow> byte list \<Rightarrow> int \<Rightarrow> (obj \<times> heap) option" where
  "scm_make_string codec h str len = scm_make_string_internal codec h str len False"
definition scm_make_string_copying :: "codec_vtbl \<Rightarrow> heap \<Rightarrow> byte list \<Rightarrow> int \<Rightarrow> (obj \<times> heap) option" where
  "scm_make_string_copying codec h str len = scm_make_string_internal codec h str len False"

section \<open>Checks\<close>

definition ENSURE_STRING :: "heap \<Rightarrow> obj \<Rightarrow> unit res" where
  "ENSURE_STRING h x = (if STRINGP h x then Inr () else Inl (ErrObj ''string required but got'' x))"
definition ENSURE_MUTABLE_STRING :: "heap \<Rightarrow> obj \<Rightarrow> unit res" where
  "ENSURE_MUTABLE_STRING h x =
     (if STRING_MUTABLEP h x then Inr () else Inl (ErrObj ''attempted to modify immutable string'' x))"
definition ENSURE_CHAR :: "obj \<Rightarrow> unit res" where
  "ENSURE_CHAR x = (if CHARP x then Inr () else Inl (ErrObj ''character required but got'' x))"
definition ENSURE_STATELESS_CODEC :: "codec_vtbl \<Rightarrow> unit res" where
  "ENSURE_STATELESS_CODEC codec =
     (if statefulp codec then Inl (Err ''stateless character codec required'') else Inr ())"

fun CHAR_VALUE :: "obj \<Rightarrow> ichar" where
  "CHAR_VALUE (CharObj c) = word_of_int c"
| "CHAR_VALUE _ = 0"

definition MAKE_CHAR :: "ichar \<Rightarrow> obj" where "MAKE_CHAR c = CharObj (sint c)"

definition null_in_string :: scm_error where
  "null_in_string = Err ''null character in a middle of string is not enabled''"
definition invalid_char :: "codec_vtbl \<Rightarrow> scm_error" where
  "invalid_char codec = Err ''invalid char for encoding''"

text \<open>\<open>check r f\<close> goes on with \<open>f\<close> after a check, in the monad of results that may be missing.\<close>

definition check :: "unit res \<Rightarrow> (unit \<Rightarrow> 'a res option) \<Rightarrow> 'a res option" where
  "check r f = (case r of Inl e \<Rightarrow> Some (Inl e) | Inr u \<Rightarrow> f u)"

section \<open>Procedures of string.c\<close>

definition scm_p_stringp :: "heap \<Rightarrow> obj \<Rightarrow> obj" where
  "scm_p_stringp h x = MAKE_BOOL (STRINGP h x)"

definition scm_p_string_length :: "heap \<Rightarrow> obj \<Rightarrow> obj res" where
  "scm_p_string_length h str = and_then (ENSURE_STRING h str) (\<lambda>_. Inr (IntObj (STRING_LEN h str)))"

definition STRING_EQUALP :: "heap \<Rightarrow> obj \<Rightarrow> obj \<Rightarrow> bool" where
  "STRING_EQUALP h str1 str2 \<longleftrightarrow>
     str1 = str2 \<or> STRING_LEN h str1 = STRING_LEN h str2 \<and> STRING_STR h str1 = STRING_STR h str2"

definition scm_p_stringequalp :: "heap \<Rightarrow> obj \<Rightarrow> obj \<Rightarrow> obj res" where
  "scm_p_stringequalp h str1 str2 =
     and_then (ENSURE_STRING h str1) (\<lambda>_. and_then (ENSURE_STRING h str2) (\<lambda>_.
       Inr (MAKE_BOOL (STRING_EQUALP h str1 str2))))"

text \<open>The counting loop of \<^verbatim>\<open>string-append\<close> checks every argument before the copying loop runs.\<close>

partial_function (option) append_count :: "heap \<Rightarrow> obj \<Rightarrow> int \<Rightarrow> int res option" where
  "append_count h rest mb_len =
     (if CONSP rest then
        (case ENSURE_STRING h (CAR h rest) of
           Inl e \<Rightarrow> Some (Inl e)
         | Inr _ \<Rightarrow> append_count h (CDR h rest) (mb_len + STRING_LEN h (CAR h rest)))
      else Some (Inr mb_len))"

partial_function (option) append_copy :: "heap \<Rightarrow> obj \<Rightarrow> byte list \<Rightarrow> byte list option" where
  "append_copy h args dst =
     (if CONSP args then append_copy h (CDR h args) (dst @ STRING_STR h (CAR h args))
      else Some dst)"

definition scm_p_string_append :: "codec_vtbl \<Rightarrow> heap \<Rightarrow> obj \<Rightarrow> (obj \<times> heap) res option" where
  "scm_p_string_append codec h args =
     (if NULLP args then map_option Inr (scm_make_string_copying codec h [] 0)
      else Option.bind (append_count h args 0) (\<lambda>r. case r of
          Inl e \<Rightarrow> Some (Inl e)
        | Inr mb_len \<Rightarrow> Option.bind (append_copy h args []) (\<lambda>new_str.
            map_option Inr (scm_make_string codec h new_str mb_len))))"

definition scm_p_string_copy :: "codec_vtbl \<Rightarrow> heap \<Rightarrow> obj \<Rightarrow> (obj \<times> heap) res option" where
  "scm_p_string_copy codec h str =
     check (ENSURE_STRING h str) (\<lambda>_.
       map_option Inr (scm_make_string_copying codec h (STRING_STR h str) (STRING_LEN h str)))"

section \<open>Procedures of string-procedure.c\<close>

definition ENSURE_NO_MORE_ARG :: "obj \<Rightarrow> unit res" where
  "ENSURE_NO_MORE_ARG args = and_then (NO_MORE_ARG args) (\<lambda>b.
     if b then Inr () else Inl (ErrObj ''superfluous argument(s)'' args))"

definition scm_p_make_string :: "codec_vtbl \<Rightarrow> heap \<Rightarrow> obj \<Rightarrow> obj \<Rightarrow> (obj \<times> heap) res option" where
  "scm_p_make_string codec h length' args =
     check (ENSURE_STATELESS_CODEC codec) (\<lambda>_.
     check (ENSURE_INT length') (\<lambda>_.
     let len = SCM_INT_VALUE length' in
     if len = 0 then map_option Inr (scm_make_string_copying codec h [] 0)
     else if len < 0 then Some (Inl (ErrObj ''length must be a non-negative integer'' length'))
     else
       (let filler = CAR h args;
            filler_res = (if NULLP args then Inr 63
              else and_then (ENSURE_NO_MORE_ARG (CDR h args)) (\<lambda>_.
                   and_then (ENSURE_CHAR filler) (\<lambda>_. Inr (CHAR_VALUE filler))))
        in case filler_res of
             Inl e \<Rightarrow> Some (Inl e)
           | Inr filler_val \<Rightarrow>
               if filler_val = 0 then Some (Inl null_in_string)
               else (case int2str codec filler_val of
                   None \<Rightarrow> Some (Inl (invalid_char codec))
                 | Some ch_buf \<Rightarrow>
                     map_option Inr (scm_make_string codec h (concat (replicate (nat len) ch_buf)) len)))))"

text \<open>\<^verbatim>\<open>scm_mb_strref\<close>: the string from the indexed character on, and the size of that character.\<close>

definition scm_mb_strref :: "codec_vtbl \<Rightarrow> byte list \<Rightarrow> nat \<Rightarrow> byte list \<times> nat" where
  "scm_mb_strref codec mbs i =
     (let rest = drop (skip_chars codec i mbs) mbs in (rest, skip_chars codec 1 rest))"

definition scm_p_string_ref :: "codec_vtbl \<Rightarrow> heap \<Rightarrow> obj \<Rightarrow> obj \<Rightarrow> obj res" where
  "scm_p_string_ref codec h str k =
     and_then (ENSURE_STRING h str) (\<lambda>_. and_then (ENSURE_INT k) (\<lambda>_.
     let idx = SCM_INT_VALUE k in
     if idx < 0 \<or> STRING_LEN h str \<le> idx then Inl (ErrObj ''index out of range'' k)
     else let (mbs, size) = scm_mb_strref codec (STRING_STR h str) (nat idx);
              ch = str2int codec mbs size
          in if ch = SCM_ICHAR_EOF then Inl (Err ''invalid char sequence'') else Inr (MAKE_CHAR ch)))"

definition scm_p_string_setx :: "codec_vtbl \<Rightarrow> heap \<Rightarrow> obj \<Rightarrow> obj \<Rightarrow> obj \<Rightarrow> (obj \<times> heap) res" where
  "scm_p_string_setx codec h str k ch =
     and_then (ENSURE_STATELESS_CODEC codec) (\<lambda>_. and_then (ENSURE_STRING h str) (\<lambda>_.
     and_then (ENSURE_MUTABLE_STRING h str) (\<lambda>_. and_then (ENSURE_INT k) (\<lambda>_.
     and_then (ENSURE_CHAR ch) (\<lambda>_.
     if CHAR_VALUE ch = 0 then Inl null_in_string
     else let idx = SCM_INT_VALUE k; c_str = STRING_STR h str in
       if idx < 0 \<or> STRING_LEN h str \<le> idx then Inl (ErrObj ''index out of range'' k)
       else let (mbs_ch, orig_ch_len) = scm_mb_strref codec c_str (nat idx);
                prefix_len = length c_str - length mbs_ch
            in case int2str codec (CHAR_VALUE ch) of
                 None \<Rightarrow> Inl (invalid_char codec)
               | Some ch_buf \<Rightarrow>
                   let suffix = drop (prefix_len + orig_ch_len) c_str;
                       new_str = take prefix_len c_str @ ch_buf @ suffix
                   in Inr (SCM_UNDEF, STRING_SET_STR h str new_str))))))"

text \<open>\<^verbatim>\<open>string_cmp\<close> without case folding.\<close>

definition NEXT_CHAR :: "codec_vtbl \<Rightarrow> byte list \<Rightarrow> (ichar \<times> byte list) res" where
  "NEXT_CHAR codec mbs =
     (if mbs = [] then Inr (SCM_ICHAR_EOF, mbs)
      else map_sum Err id (scm_charcodec_read_char codec mbs))"

partial_function (option) string_cmp_loop :: "codec_vtbl \<Rightarrow> byte list \<Rightarrow> byte list \<Rightarrow> int res option" where
  "string_cmp_loop codec mbs1 mbs2 =
     (case NEXT_CHAR codec mbs1 of Inl e \<Rightarrow> Some (Inl e) | Inr (c1, mbs1) \<Rightarrow>
      (case NEXT_CHAR codec mbs2 of Inl e \<Rightarrow> Some (Inl e) | Inr (c2, mbs2) \<Rightarrow>
        if c1 \<noteq> c2 then Some (Inr (if c1 <s c2 then -1 else 1))
        else if c1 = SCM_ICHAR_EOF then Some (Inr 0)
        else string_cmp_loop codec mbs1 mbs2))"

definition string_cmp :: "codec_vtbl \<Rightarrow> heap \<Rightarrow> obj \<Rightarrow> obj \<Rightarrow> int res option" where
  "string_cmp codec h str1 str2 =
     check (ENSURE_STRING h str1) (\<lambda>_. check (ENSURE_STRING h str2) (\<lambda>_.
       string_cmp_loop codec (STRING_STR h str1) (STRING_STR h str2)))"

definition scm_p_string_greaterp :: "codec_vtbl \<Rightarrow> heap \<Rightarrow> obj \<Rightarrow> obj \<Rightarrow> obj res option" where
  "scm_p_string_greaterp codec h str1 str2 =
     map_option (map_sum id (\<lambda>cmp. MAKE_BOOL (cmp > 0))) (string_cmp codec h str1 str2)"
definition scm_p_string_lessp :: "codec_vtbl \<Rightarrow> heap \<Rightarrow> obj \<Rightarrow> obj \<Rightarrow> obj res option" where
  "scm_p_string_lessp codec h str1 str2 =
     map_option (map_sum id (\<lambda>cmp. MAKE_BOOL (cmp < 0))) (string_cmp codec h str1 str2)"
definition scm_p_string_greater_equalp :: "codec_vtbl \<Rightarrow> heap \<Rightarrow> obj \<Rightarrow> obj \<Rightarrow> obj res option" where
  "scm_p_string_greater_equalp codec h str1 str2 =
     map_option (map_sum id (\<lambda>cmp. MAKE_BOOL (cmp \<ge> 0))) (string_cmp codec h str1 str2)"
definition scm_p_string_less_equalp :: "codec_vtbl \<Rightarrow> heap \<Rightarrow> obj \<Rightarrow> obj \<Rightarrow> obj res option" where
  "scm_p_string_less_equalp codec h str1 str2 =
     map_option (map_sum id (\<lambda>cmp. MAKE_BOOL (cmp \<le> 0))) (string_cmp codec h str1 str2)"

definition scm_p_substring :: "codec_vtbl \<Rightarrow> heap \<Rightarrow> obj \<Rightarrow> obj \<Rightarrow> obj \<Rightarrow> (obj \<times> heap) res option" where
  "scm_p_substring codec h str start end' =
     check (ENSURE_STRING h str) (\<lambda>_. check (ENSURE_INT start) (\<lambda>_. check (ENSURE_INT end') (\<lambda>_.
     let c_start = SCM_INT_VALUE start; c_end = SCM_INT_VALUE end'; len = STRING_LEN h str in
     if c_start < 0 \<or> len < c_start then Some (Inl (ErrObj ''start index out of range'' start))
     else if c_end < 0 \<or> len < c_end then Some (Inl (ErrObj ''end index out of range'' end'))
     else if c_start > c_end then Some (Inl (ErrObjs ''start index exceeded end index'' [start, end']))
     else let sub_len = c_end - c_start;
              mbs = scm_mb_substring codec (STRING_STR h str) (nat c_start) (nat sub_len)
          in map_option Inr (scm_make_string codec h mbs sub_len))))"

text \<open>The loop of \<^verbatim>\<open>string->list\<close> counts \<^verbatim>\<open>mb_len\<close> down to zero and stops at the end of the bytes. A
  negative length would count on; the invariant of strings excludes it.\<close>

partial_function (option) string2list_loop ::
    "codec_vtbl \<Rightarrow> heap \<Rightarrow> obj \<Rightarrow> ref \<Rightarrow> byte list \<Rightarrow> int \<Rightarrow> (obj \<times> heap) res option" where
  "string2list_loop codec h out q mbs mb_len =
     (if mb_len = 0 \<or> mbs = [] then Some (Inr (out, h))
      else case scm_charcodec_read_char codec mbs of
          Inl e \<Rightarrow> Some (Inl (Err e))
        | Inr (ch, mbs) \<Rightarrow>
            (case queue_add h out q (MAKE_CHAR ch) of (h, out, q) \<Rightarrow>
               string2list_loop codec h out q mbs (mb_len - 1)))"

definition scm_p_string2list :: "codec_vtbl \<Rightarrow> heap \<Rightarrow> obj \<Rightarrow> (obj \<times> heap) res option" where
  "scm_p_string2list codec h str =
     check (ENSURE_STRING h str) (\<lambda>_.
       string2list_loop codec h SCM_NULL RefOffHeap (STRING_STR h str) (STRING_LEN h str))"

text \<open>\<^verbatim>\<open>list->string\<close> counts in a first loop and encodes in a second one. It does not look at the null
  pointer that \<^verbatim>\<open>INT2STR\<close> gives for a character outside the encoding: undefined, here \<open>None\<close>.\<close>

text \<open>\<^verbatim>\<open>list->string\<close> measures the characters first: the buffer has one byte for the terminating NUL and
  the bytes that \<^verbatim>\<open>char_len\<close> gives for each. An encoded character is written with a NUL after it, so it has
  to leave a byte; a write beyond the buffer, or through the null pointer that \<^verbatim>\<open>int2str\<close> returns for a
  character that it cannot encode, has no result.\<close>

partial_function (option) list2string_count ::
    "codec_vtbl \<Rightarrow> heap \<Rightarrow> obj \<Rightarrow> nat \<Rightarrow> int \<Rightarrow> (nat \<times> int \<times> obj) res option" where
  "list2string_count codec h rest str_size len =
     (if CONSP rest then
        (case ENSURE_CHAR (CAR h rest) of
           Inl e \<Rightarrow> Some (Inl e)
         | Inr _ \<Rightarrow> list2string_count codec h (CDR h rest)
             (str_size + char_len codec (CHAR_VALUE (CAR h rest))) (len + 1))
      else Some (Inr (str_size, len, rest)))"

partial_function (option) list2string_fill ::
    "codec_vtbl \<Rightarrow> heap \<Rightarrow> nat \<Rightarrow> obj \<Rightarrow> byte list \<Rightarrow> byte list res option" where
  "list2string_fill codec h str_size lst dst =
     (if CONSP lst then
        (if CHAR_VALUE (CAR h lst) = 0 then Some (Inl null_in_string)
         else Option.bind (int2str codec (CHAR_VALUE (CAR h lst))) (\<lambda>bs.
           if length (dst @ bs) < str_size then list2string_fill codec h str_size (CDR h lst) (dst @ bs) else None))
      else Some (Inr dst))"

definition scm_p_list2string :: "codec_vtbl \<Rightarrow> heap \<Rightarrow> obj \<Rightarrow> (obj \<times> heap) res option" where
  "scm_p_list2string codec h lst =
     check (ENSURE_STATELESS_CODEC codec) (\<lambda>_. Option.bind (scm_length h lst) (\<lambda>len.
     if \<not> SCM_LISTLEN_PROPERP len then Some (Inl (ErrObj ''proper list required but got'' lst))
     else if NULLP lst then map_option Inr (scm_make_string_copying codec h [] 0)
     else Option.bind (list2string_count codec h lst 1 0) (\<lambda>r. case r of
         Inl e \<Rightarrow> Some (Inl e)
       | Inr (str_size, len, rest) \<Rightarrow>
         if \<not> NULLP rest then Some (Inl (ErrObj ''proper list required but got'' lst))
         else Option.bind (list2string_fill codec h str_size lst []) (\<lambda>r. case r of
             Inl e \<Rightarrow> Some (Inl e)
           | Inr str \<Rightarrow> map_option Inr (scm_make_string codec h str len)))))"

definition scm_p_string :: "codec_vtbl \<Rightarrow> heap \<Rightarrow> obj \<Rightarrow> (obj \<times> heap) res option" where
  "scm_p_string codec h args = scm_p_list2string codec h args"

definition scm_p_string_fillx :: "codec_vtbl \<Rightarrow> heap \<Rightarrow> obj \<Rightarrow> obj \<Rightarrow> (obj \<times> heap) res option" where
  "scm_p_string_fillx codec h str ch =
     check (ENSURE_STATELESS_CODEC codec) (\<lambda>_. check (ENSURE_STRING h str) (\<lambda>_.
     check (ENSURE_MUTABLE_STRING h str) (\<lambda>_. check (ENSURE_CHAR ch) (\<lambda>_.
     if CHAR_VALUE ch = 0 then Some (Inl null_in_string)
     else let str_len = STRING_LEN h str in
       if str_len = 0 then map_option Inr (scm_make_string_copying codec h [] 0)
       else (case int2str codec (CHAR_VALUE ch) of
           None \<Rightarrow> Some (Inl (invalid_char codec))
         | Some ch_buf \<Rightarrow>
             Some (Inr (SCM_UNDEF, STRING_SET_STR h str (concat (replicate (nat str_len) ch_buf)))))))))"

definition scm_p_string_mutablep :: "heap \<Rightarrow> obj \<Rightarrow> obj res" where
  "scm_p_string_mutablep h str = and_then (ENSURE_STRING h str) (\<lambda>_. Inr (MAKE_BOOL (STRING_MUTABLEP h str)))"

definition scm_p_string_reconstructx :: "codec_vtbl \<Rightarrow> heap \<Rightarrow> obj \<Rightarrow> (obj \<times> heap) res option" where
  "scm_p_string_reconstructx codec h str =
     check (ENSURE_STRING h str) (\<lambda>_. check (ENSURE_MUTABLE_STRING h str) (\<lambda>_.
       map_option (\<lambda>len. Inr (str, STRING_SET_LEN h str (int len)))
         (scm_mb_bare_c_strlen codec (STRING_STR h str))))"

section \<open>Codecs for C strings\<close>

locale string_codec = char_codec +
  assumes clean: "valid c \<Longrightarrow> c \<noteq> 0 \<Longrightarrow> int2str codec c = Some bs \<Longrightarrow> 0 \<notin> set bs"
    and stateless: "\<not> statefulp codec"
    and nonneg: "valid c \<Longrightarrow> 0 \<le>s c"
    and measured: "valid c \<Longrightarrow> c \<noteq> 0 \<Longrightarrow> int2str codec c = Some bs \<Longrightarrow> char_len codec c = length bs"

text \<open>The bytes of a character other than the null character are not null, and as many as the codec says, codec
  by codec.\<close>

lemma nonzero_region:
  "IN_GR94 b \<Longrightarrow> b \<noteq> 0" "IN_GR96 b \<Longrightarrow> b \<noteq> 0" "IS_LEAD b \<Longrightarrow> b \<noteq> 0" "IS_TRAIL b \<Longrightarrow> b \<noteq> 0"
  "SS2 \<noteq> 0" "SS3 \<noteq> 0"
  by (auto simp: codec_defs word_le_nat_alt SS2_def SS3_def)

lemma len_code_nonzero: "uchar (LEN_CODE 1 OR v) \<noteq> 0" "uchar (LEN_CODE 2 OR v) \<noteq> 0"
  "uchar (LEN_CODE 3 OR v) \<noteq> 0" "uchar (LEN_CODE 4 OR v) \<noteq> 0"
proof -
  have b: "bit (LEN_CODE 1) 7" "bit (LEN_CODE 2) 7" "bit (LEN_CODE 3) 7" "bit (LEN_CODE 4) 7"
    by (simp_all add: LEN_CODE_def bit_numeral_rec)
  have "bit w 7 \<Longrightarrow> uchar (w OR v) \<noteq> 0" for w
  proof
    assume "bit w 7" "uchar (w OR v) = 0"
    then have "\<not> bit (uchar (w OR v)) 7" by simp
    then show False using \<open>bit w 7\<close> by (simp add: bit_simps)
  qed
  then show "uchar (LEN_CODE 1 OR v) \<noteq> 0" "uchar (LEN_CODE 2 OR v) \<noteq> 0"
    "uchar (LEN_CODE 3 OR v) \<noteq> 0" "uchar (LEN_CODE 4 OR v) \<noteq> 0" using b by blast+
qed

lemma one_byte_nonzero:
  fixes c :: ichar
  assumes "0 \<le>s c" "IS_1BYTE c" "c \<noteq> 0"
  shows "uchar c \<noteq> 0"
proof
  assume "uchar c = 0"
  moreover have "unat c \<le> 0x7F" using assms(1,2) by (simp add: IS_1BYTE_def sless_eq_unat nonneg_consts)
  ultimately show False using ascii_byte(2) [of c] assms(3) by simp
qed

interpretation utf8_string: string_codec utf8_codec_vtbl utf8_valid
proof unfold_locales
  show "0 \<notin> set bs" if "utf8_valid c" "c \<noteq> 0" "int2str utf8_codec_vtbl c = Some bs" for c bs
    using that one_byte_nonzero [of c] len_code_nonzero
    by (auto simp: utf8_codec_vtbl_def utf8_int2str_def utf8_valid_def split: if_splits)
qed (simp_all add: utf8_codec_vtbl_def utf8_valid_def utf8_char_len_def encoded_len_def)

interpretation eucjp_string: string_codec eucjp_codec_vtbl eucjp_valid
proof unfold_locales
  show "0 \<notin> set bs" if "eucjp_valid c" "c \<noteq> 0" "int2str eucjp_codec_vtbl c = Some bs" for c bs
    using that one_byte_nonzero [of c] nonzero_region
    by (auto simp: eucjp_codec_vtbl_def eucjp_int2str_def eucjp_valid_def Let_def split: if_splits)
qed (simp_all add: eucjp_codec_vtbl_def eucjp_valid_def eucjp_char_len_def encoded_len_def)

lemma euc_nonneg: "euc_valid c \<Longrightarrow> 0 \<le>s c"
  by (simp add: euc_valid_def)

lemma euc_clean: "euc_valid c \<Longrightarrow> c \<noteq> 0 \<Longrightarrow> euc_int2str c = Some bs \<Longrightarrow> 0 \<notin> set bs"
  using one_byte_nonzero [of c] nonzero_region
  by (auto simp: euc_int2str_def euc_valid_def Let_def split: if_splits)

interpretation euccn_string: string_codec euccn_codec_vtbl euc_valid
  by unfold_locales (auto simp: euccn_codec_vtbl_def euc_char_len_def encoded_len_def dest: euc_clean euc_nonneg)

interpretation euckr_string: string_codec euckr_codec_vtbl euc_valid
  by unfold_locales (auto simp: euckr_codec_vtbl_def euc_char_len_def encoded_len_def dest: euc_clean euc_nonneg)

lemma small_nonzero: "unat c < 2 ^ 8 \<Longrightarrow> c \<noteq> 0 \<Longrightarrow> uchar c \<noteq> 0" for c :: ichar
  using byte_join(1) [of c] by auto

interpretation sjis_string: string_codec sjis_codec_vtbl sjis_valid
proof unfold_locales
  show "0 \<notin> set bs" if v: "sjis_valid c" and nz: "c \<noteq> 0" and e: "int2str sjis_codec_vtbl c = Some bs" for c bs
  proof -
    have nl: "\<not> IS_LEAD 0" by (simp add: codec_defs)
    consider (one) "unat c < 2 ^ 8" "\<not> IS_LEAD (uchar c)"
      | (two) "IS_LEAD (uchar (drop_bit 8 c))" "IS_TRAIL (uchar (c AND 0xFF))"
      using v by (auto simp: sjis_valid_def)
    then show ?thesis
    proof cases
      case one
      then show ?thesis
        using e nl small_nonzero [OF one(1) nz] byte_join [OF one(1)]
        by (auto simp: sjis_codec_vtbl_def sjis_int2str_def Let_def split: if_splits)
    next
      case two
      then show ?thesis
        using e nonzero_region by (auto simp: sjis_codec_vtbl_def sjis_int2str_def Let_def split: if_splits)
    qed
  qed
qed (auto simp: sjis_codec_vtbl_def sjis_valid_def sjis_char_len_def encoded_len_def intro: nonneg_of_small)

interpretation unibyte_string: string_codec unibyte_codec_vtbl unibyte_valid
proof unfold_locales
  show "0 \<notin> set bs" if "unibyte_valid c" "c \<noteq> 0" "int2str unibyte_codec_vtbl c = Some bs" for c bs
  proof -
    have "unat c < 2 ^ 8"
      using that(1) sless_eq_unat [of c "0xFF"] nonneg_consts by (simp add: unibyte_valid_def)
    from small_nonzero [OF this that(2)] show ?thesis
      using that(3) by (auto simp: unibyte_codec_vtbl_def unibyte_int2str_def split: if_splits)
  qed
  show "char_len unibyte_codec_vtbl c = length bs"
    if "unibyte_valid c" "c \<noteq> 0" "int2str unibyte_codec_vtbl c = Some bs" for c bs
    using that
    by (auto simp: unibyte_codec_vtbl_def unibyte_valid_def unibyte_char_len_def unibyte_int2str_def
        signed.le_less split: if_splits)
qed (simp_all add: unibyte_codec_vtbl_def unibyte_valid_def)

lemma codec_domains_string:
  assumes "(codec, valid) \<in> set codec_domains"
  shows "string_codec codec valid"
  using assms utf8_string.string_codec_axioms eucjp_string.string_codec_axioms
    euccn_string.string_codec_axioms euckr_string.string_codec_axioms sjis_string.string_codec_axioms
    unibyte_string.string_codec_axioms
  unfolding codec_domains_def by auto

section \<open>Strings as lists of characters\<close>

definition string_is ::
    "codec_vtbl \<Rightarrow> (ichar \<Rightarrow> bool) \<Rightarrow> heap \<Rightarrow> obj \<Rightarrow> ichar list \<Rightarrow> bool \<Rightarrow> bool" where
  "string_is codec valid h x cs mut \<longleftrightarrow>
     misc_cell h x = Some (StringCell (encode_str codec cs) (int (length cs)) mut) \<and>
     (\<forall>c \<in> set cs. valid c \<and> c \<noteq> 0)"

lemma string_isD:
  assumes "string_is codec valid h x cs mut"
  shows "STRINGP h x" "STRING_STR h x = encode_str codec cs" "STRING_LEN h x = int (length cs)"
    "STRING_MUTABLEP h x = mut" "\<forall>c \<in> set cs. valid c" "0 \<notin> set cs"
  using assms by (auto simp: string_is_def STRING_STR_def STRING_LEN_def STRING_MUTABLEP_def)

lemma string_is_misc:
  assumes "string_is codec valid h x cs mut"
  obtains a where "x = Ptr PTAG_MISC a" "mem h a = Some (StringCell (encode_str codec cs) (int (length cs)) mut)"
  using assms by (cases x rule: CONSP.cases) (auto simp: string_is_def elim: misc_cell.elims)

lemma misc_cell_le: "misc_cell h x = Some c \<Longrightarrow> heap_le h h' \<Longrightarrow> misc_cell h' x = Some c"
  by (induction h x rule: misc_cell.induct) (auto dest: heap_leD)

lemma string_is_le: "string_is codec valid h x cs mut \<Longrightarrow> heap_le h h' \<Longrightarrow> string_is codec valid h' x cs mut"
  unfolding string_is_def by (blast intro: misc_cell_le)

lemma put_cell_other: "y \<noteq> x \<Longrightarrow> misc_cell (put_cell h x c) y = misc_cell h y"
  by (cases "(h, x, c)" rule: put_cell.cases; cases "(h, y)" rule: misc_cell.cases) auto

lemma put_cell_brk [simp]: "brk (put_cell h x c) = brk h"
  by (cases "(h, x, c)" rule: put_cell.cases) auto

lemma put_cell_same: "misc_cell h x = Some d \<Longrightarrow> misc_cell (put_cell h x c) x = Some c"
  by (cases "(h, x, c)" rule: put_cell.cases) auto

lemma c_str_clean: "0 \<notin> set bs \<Longrightarrow> c_str bs = bs"
  unfolding c_str_def by (rule takeWhile_eq_all_conv [THEN iffD2]) auto

text \<open>The lexicographic order of \<^verbatim>\<open>string_cmp\<close>: by code point, a proper prefix first.\<close>

fun char_cmp :: "ichar list \<Rightarrow> ichar list \<Rightarrow> int" where
  "char_cmp [] [] = 0"
| "char_cmp [] (d # ds) = -1"
| "char_cmp (c # cs) [] = 1"
| "char_cmp (c # cs) (d # ds) = (if c = d then char_cmp cs ds else if c <s d then -1 else 1)"

lemma char_cmp_eq: "char_cmp cs ds = 0 \<longleftrightarrow> cs = ds"
  by (induction cs ds rule: char_cmp.induct) auto

lemma char_cmp_less: "char_cmp cs ds < 0 \<longleftrightarrow> (cs, ds) \<in> lexord {(c, d). c <s d}"
  by (induction cs ds rule: char_cmp.induct) auto

lemma char_cmp_sym: "char_cmp ds cs = - char_cmp cs ds"
proof (induction cs ds rule: char_cmp.induct)
  case (4 c cs d ds)
  consider "c <s d" "c \<noteq> d" "\<not> d <s c" | "c = d" | "d <s c" "c \<noteq> d" "\<not> c <s d"
    by (metis signed.less_linear signed.less_not_sym signed.less_irrefl)
  then show ?case using 4 by cases auto
qed simp_all

lemma char_cmp_greater: "char_cmp cs ds > 0 \<longleftrightarrow> (ds, cs) \<in> lexord {(c, d). c <s d}"
  using char_cmp_less [of ds cs] by (simp add: char_cmp_sym [of cs ds])

context string_codec begin

lemma encoded_clean: "\<forall>c \<in> set cs. valid c \<and> c \<noteq> 0 \<Longrightarrow> 0 \<notin> set (encode_str codec cs)"
proof (induction cs)
  case (Cons c cs)
  then show ?case using clean [of c] by (cases "int2str codec c") (auto simp: encode_str_Cons)
qed simp

lemma c_str_encoded [simp]: "\<forall>c \<in> set cs. valid c \<and> c \<noteq> 0 \<Longrightarrow> c_str (encode_str codec cs) = encode_str codec cs"
  by (intro c_str_clean encoded_clean)

lemma make_string:
  assumes "\<forall>c \<in> set cs. valid c \<and> c \<noteq> 0" "brk_ok h" "n = int (length cs) \<or> n = STRLEN_UNKNOWN"
  obtains p h' where "scm_make_string_internal codec h (encode_str codec cs) n imm = Some (p, h')"
    "string_is codec valid h' p cs (\<not> imm)" "heap_le h h'" "brk_ok h'" "p = Ptr PTAG_MISC (brk h)"
proof -
  have n: "(if n = STRLEN_UNKNOWN then map_option int (scm_mb_bare_c_strlen codec (encode_str codec cs)) else Some n) =
      Some (int (length cs))"
    using assms(1,3) strlen_encoded [of cs] by (auto simp: scm_mb_bare_c_strlen_def)
  let ?c = "StringCell (encode_str codec cs) (int (length cs)) (\<not> imm)"
  let ?h = "snd (alloc h ?c)"
  have "alloc h ?c = (brk h, ?h)" by (simp add: alloc_def)
  note ext = alloc_extends [OF assms(2) this] and fr = alloc_fresh [OF assms(2) this]
  show thesis
  proof (rule that)
    show "scm_make_string_internal codec h (encode_str codec cs) n imm = Some (Ptr PTAG_MISC (brk h), ?h)"
      unfolding scm_make_string_internal_def c_str_encoded [OF assms(1)] n by (simp add: alloc_ptr_def alloc_def)
    show "string_is codec valid ?h (Ptr PTAG_MISC (brk h)) cs (\<not> imm)"
      using fr assms(1) by (simp add: string_is_def)
  qed (use ext in auto)
qed

lemma make_mutable:
  assumes "\<forall>c \<in> set cs. valid c \<and> c \<noteq> 0" "brk_ok h" "n = int (length cs)"
  shows "\<exists>p h'. scm_make_string_internal codec h (encode_str codec cs) n False = Some (p, h') \<and>
    string_is codec valid h' p cs True \<and> heap_le h h' \<and> brk_ok h'"
  by (rule make_string [OF assms(1,2), of n False]) (use assms(3) in auto)

lemma encode_single: "encode_str codec [c] = (case int2str codec c of Some bs \<Rightarrow> bs | None \<Rightarrow> [])"
  by (simp add: encode_str_Cons)

lemma encode_replicate: "encode_str codec (replicate n c) = concat (replicate n (encode_str codec [c]))"
  by (induction n) (auto simp: encode_str_Cons)

lemma strref:
  assumes "\<forall>c \<in> set cs. valid c" "i < length cs"
  shows "scm_mb_strref codec (encode_str codec cs) i =
    (encode_str codec (drop i cs), length (encode_str codec [cs ! i]))"
proof -
  have ds: "\<forall>c \<in> set (drop i cs). valid c" using assms(1) in_set_dropD by fastforce
  have "take 1 (drop i cs) = [cs ! i]" using assms(2) by (simp add: take_Suc_conv_app_nth hd_drop_conv_nth take_Suc)
  then show ?thesis
    unfolding scm_mb_strref_def Let_def drop_encoded [OF assms(1)] skip_chars_encoded [OF ds] by simp
qed

lemma str2int_at:
  assumes "\<forall>c \<in> set cs. valid c" "i < length cs"
  shows "str2int codec (encode_str codec (drop i cs)) (length (encode_str codec [cs ! i])) = cs ! i"
proof -
  have "valid (cs ! i)" using assms by simp
  then show ?thesis
    by (elim encodableE)
      (simp add: Cons_nth_drop_Suc [OF assms(2), symmetric] encode_str_Cons)
qed

lemma string_ref_at:
  assumes "string_is codec valid h x cs mut"
  shows "scm_p_string_ref codec h x (IntObj i) =
    (if 0 \<le> i \<and> i < int (length cs) then Inr (MAKE_CHAR (cs ! nat i)) else Inl (ErrObj ''index out of range'' (IntObj i)))"
proof -
  note d = string_isD [OF assms]
  show ?thesis
  proof (cases "0 \<le> i \<and> i < int (length cs)")
    case True
    then have "nat i < length cs" by auto
    moreover from this have "cs ! nat i \<noteq> SCM_ICHAR_EOF" using d(5) valid_not_eof by simp
    ultimately show ?thesis
      using True d strref [OF d(5)] str2int_at [OF d(5)]
      by (simp add: scm_p_string_ref_def and_then_def ENSURE_STRING_def ENSURE_INT_def Let_def)
  next
    case False
    then show ?thesis using d
      by (auto simp: scm_p_string_ref_def and_then_def ENSURE_STRING_def ENSURE_INT_def Let_def)
  qed
qed

lemma encoded_parts:
  assumes "i < length cs"
  shows "encode_str codec cs = encode_str codec (take i cs) @ encode_str codec [cs ! i] @ encode_str codec (drop (Suc i) cs)"
proof -
  have "cs = take i cs @ [cs ! i] @ drop (Suc i) cs" using id_take_nth_drop [OF assms] by simp
  then have "encode_str codec cs = encode_str codec (take i cs @ [cs ! i] @ drop (Suc i) cs)" by simp
  then show ?thesis by (simp only: encode_str_append)
qed

lemma encode_update:
  assumes "i < length cs" "int2str codec c = Some bs"
  shows "encode_str codec (cs[i := c]) = encode_str codec (take i cs) @ bs @ encode_str codec (drop (Suc i) cs)"
  using assms by (simp add: upd_conv_take_nth_drop encode_str_append encode_str_Cons)

lemma update_chars:
  assumes "\<forall>c \<in> set cs. valid c \<and> c \<noteq> 0" "valid c" "c \<noteq> 0"
  shows "\<forall>d \<in> set (cs[i := c]). valid d \<and> d \<noteq> 0"
  using assms set_update_subset_insert [of cs i c] by blast

lemma string_set:
  assumes x: "string_is codec valid h x cs True" and c: "valid c" "c \<noteq> 0" and i: "0 \<le> i" "i < int (length cs)"
  obtains h' where "scm_p_string_setx codec h x (IntObj i) (CharObj (sint c)) = Inr (SCM_UNDEF, h')"
    "string_is codec valid h' x (cs[nat i := c]) True" "\<forall>y. y \<noteq> x \<longrightarrow> misc_cell h' y = misc_cell h y"
    "brk h' = brk h"
proof -
  note d = string_isD [OF x]
  let ?i = "nat i"
  have il: "?i < length cs" using i by auto
  obtain bs where bs: "int2str codec c = Some bs" using encodable [OF c(1)] by blast
  have cs: "\<forall>d \<in> set (cs[?i := c]). valid d \<and> d \<noteq> 0"
    using x c by (intro update_chars) (auto simp: string_is_def)
  define h' where "h' = STRING_SET_STR h x (encode_str codec (cs[?i := c]))"
  have parts: "encode_str codec cs = encode_str codec (take ?i cs) @ encode_str codec (drop ?i cs)"
    by (simp flip: encode_str_append)
  have dr: "encode_str codec (drop ?i cs) = encode_str codec [cs ! ?i] @ encode_str codec (drop (Suc ?i) cs)"
    using encode_str_append [of codec "[cs ! ?i]" "drop (Suc ?i) cs"] Cons_nth_drop_Suc [OF il] by simp
  have plen: "length (encode_str codec cs) - length (encode_str codec (drop ?i cs)) = length (encode_str codec (take ?i cs))"
    using parts by simp
  have new: "take (length (encode_str codec (take ?i cs))) (encode_str codec cs) @ bs @
      drop (length (encode_str codec (take ?i cs)) + length (encode_str codec [cs ! ?i])) (encode_str codec cs) =
      encode_str codec (cs[?i := c])"
    unfolding encode_update [OF il bs] by (subst (1 2) encoded_parts [OF il]) simp
  have "scm_p_string_setx codec h x (IntObj i) (CharObj (sint c)) = Inr (SCM_UNDEF, h')"
    using d(1-4) c i stateless bs new plen strref [OF d(5) il]
    by (simp add: scm_p_string_setx_def and_then_def ENSURE_STATELESS_CODEC_def ENSURE_STRING_def
        ENSURE_MUTABLE_STRING_def ENSURE_INT_def ENSURE_CHAR_def Let_def h'_def)
  moreover obtain a where a: "x = Ptr PTAG_MISC a" using x by (rule string_is_misc)
  have "string_is codec valid h' x (cs[?i := c]) True"
    using cs d(3,4) unfolding string_is_def h'_def STRING_SET_STR_def c_str_encoded [OF cs] by (simp add: a)
  moreover have "\<forall>y. y \<noteq> x \<longrightarrow> misc_cell h' y = misc_cell h y" "brk h' = brk h"
    by (simp_all add: h'_def STRING_SET_STR_def put_cell_other)
  ultimately show thesis by (rule that)
qed

lemma make_filled:
  assumes "brk_ok h" "0 \<le> n" "valid c" "c \<noteq> 0" "args = Ptr PTAG_CONS a" "mem h a = Some (PairCell (CharObj (sint c)) SCM_NULL)"
  obtains p h' where "scm_p_make_string codec h (IntObj n) args = Some (Inr (p, h'))"
    "string_is codec valid h' p (replicate (nat n) c) True" "heap_le h h'" "brk_ok h'"
proof -
  let ?cs = "replicate (nat n) c"
  obtain bs where bs: "int2str codec c = Some bs" using encodable [OF assms(3)] by blast
  have chars: "\<forall>d \<in> set ?cs. valid d \<and> d \<noteq> 0" using assms(3,4) by auto
  have enc: "encode_str codec ?cs = concat (replicate (nat n) bs)"
    unfolding encode_replicate by (simp add: encode_single bs)
  obtain p h' where mk: "scm_make_string_internal codec h (encode_str codec ?cs) n False = Some (p, h')"
      "string_is codec valid h' p ?cs True" "heap_le h h'" "brk_ok h'"
    using make_mutable [OF chars assms(1), of n] assms(2) by auto
  have nn: "\<not> n < 0" "nat n = 0 \<longleftrightarrow> n = 0" using assms(2) by auto
  have "scm_p_make_string codec h (IntObj n) args = Some (Inr (p, h'))"
  proof (cases "n = 0")
    case True
    then show ?thesis using mk(1)
      by (simp add: scm_p_make_string_def check_def ENSURE_STATELESS_CODEC_def stateless ENSURE_INT_def
          scm_make_string_copying_def)
  next
    case False
    then show ?thesis using mk(1) nn(1) bs enc assms(4-6)
      by (simp add: scm_p_make_string_def check_def ENSURE_STATELESS_CODEC_def stateless ENSURE_INT_def
          scm_make_string_def ENSURE_NO_MORE_ARG_def NO_MORE_ARG_def ENSURE_CHAR_def and_then_def)
  qed
  then show thesis using mk that by simp
qed

lemma substring_slice:
  assumes "string_is codec valid h x cs mut" "brk_ok h" "0 \<le> i" "i \<le> j" "j \<le> int (length cs)"
  obtains p h' where "scm_p_substring codec h x (IntObj i) (IntObj j) = Some (Inr (p, h'))"
    "string_is codec valid h' p (take (nat (j - i)) (drop (nat i) cs)) True" "heap_le h h'" "brk_ok h'"
proof -
  note d = string_isD [OF assms(1)]
  let ?ds = "take (nat (j - i)) (drop (nat i) cs)"
  have chars: "\<forall>c \<in> set ?ds. valid c \<and> c \<noteq> 0"
    using d(5,6) by (auto dest!: in_set_takeD in_set_dropD)
  have len: "j - i = int (length ?ds)" using assms(3-5) by simp
  obtain p h' where mk: "scm_make_string_internal codec h (encode_str codec ?ds) (j - i) False = Some (p, h')"
      "string_is codec valid h' p ?ds True" "heap_le h h'" "brk_ok h'"
    using make_mutable [OF chars assms(2) len] by blast
  have "scm_p_substring codec h x (IntObj i) (IntObj j) = Some (Inr (p, h'))"
    using mk(1) assms(3-5) d(1-3) substring_encoded [OF d(5)]
    by (simp add: scm_p_substring_def check_def ENSURE_STRING_def ENSURE_INT_def Let_def scm_make_string_def)
  then show thesis using mk that by simp
qed

lemma append_count_chain:
  assumes "list_all2 (\<lambda>x cs. \<exists>m. string_is codec valid h x cs m) xs css" "chain h args xs SCM_NULL"
  shows "append_count h args n = Some (Inr (n + int (length (concat css))))"
  using assms
proof (induction xs css arbitrary: args n rule: list_all2_induct)
  case Nil
  then show ?case by (subst append_count.simps) simp
next
  case (Cons x xs cs css)
  then obtain m where "string_is codec valid h x cs m" by blast
  note d = string_isD [OF this]
  have "CONSP args" "CAR h args = x" using Cons.prems has_pair_CONSP by auto
  then have "append_count h args n = append_count h (CDR h args) (n + int (length cs))"
    using d(1,3) by (subst append_count.simps) (simp add: ENSURE_STRING_def)
  then show ?case using Cons by (simp add: algebra_simps)
qed

lemma append_copy_chain:
  assumes "list_all2 (\<lambda>x cs. \<exists>m. string_is codec valid h x cs m) xs css" "chain h args xs SCM_NULL"
  shows "append_copy h args dst = Some (dst @ encode_str codec (concat css))"
  using assms
proof (induction xs css arbitrary: args dst rule: list_all2_induct)
  case Nil
  then show ?case by (subst append_copy.simps) simp
next
  case (Cons x xs cs css)
  then obtain m where "string_is codec valid h x cs m" by blast
  note d = string_isD [OF this]
  have "CONSP args" "CAR h args = x" using Cons.prems has_pair_CONSP by auto
  then have "append_copy h args dst = append_copy h (CDR h args) (dst @ encode_str codec cs)"
    using d(2) by (subst append_copy.simps) simp
  then show ?case using Cons by (simp add: encode_str_append)
qed

lemma string_append:
  assumes "list_all2 (\<lambda>x cs. \<exists>m. string_is codec valid h x cs m) xs css" "chain h args xs SCM_NULL" "brk_ok h"
  obtains p h' where "scm_p_string_append codec h args = Some (Inr (p, h'))"
    "string_is codec valid h' p (concat css) True" "heap_le h h'" "brk_ok h'"
proof -
  have chars: "\<forall>c \<in> set (concat css). valid c \<and> c \<noteq> 0"
    using assms(1) by (induction xs css rule: list_all2_induct) (auto simp: string_is_def)
  obtain p h' where mk:
      "scm_make_string_internal codec h (encode_str codec (concat css)) (int (length (concat css))) False = Some (p, h')"
      "string_is codec valid h' p (concat css) True" "heap_le h h'" "brk_ok h'"
    using make_mutable [OF chars assms(3) refl] by blast
  have "scm_p_string_append codec h args = Some (Inr (p, h'))"
  proof (cases xs)
    case Nil
    then have "css = []" "args = SCM_NULL" using assms(1,2) by auto
    then show ?thesis using mk(1) by (simp add: scm_p_string_append_def scm_make_string_copying_def)
  next
    case (Cons x ys)
    then have "args \<noteq> SCM_NULL" using assms(2) by (auto simp: has_pair_def)
    then show ?thesis
      using mk(1) append_count_chain [OF assms(1,2), of 0] append_copy_chain [OF assms(1,2), of "[]"]
      by (simp add: scm_p_string_append_def scm_make_string_def)
  qed
  then show thesis using mk that by simp
qed

lemma string_copy:
  assumes "string_is codec valid h x cs mut" "brk_ok h"
  obtains p h' where "scm_p_string_copy codec h x = Some (Inr (p, h'))"
    "string_is codec valid h' p cs True" "heap_le h h'" "brk_ok h'"
proof -
  note d = string_isD [OF assms(1)]
  have chars: "\<forall>c \<in> set cs. valid c \<and> c \<noteq> 0" using d(5,6) by auto
  obtain p h' where mk: "scm_make_string_internal codec h (encode_str codec cs) (int (length cs)) False = Some (p, h')"
      "string_is codec valid h' p cs True" "heap_le h h'" "brk_ok h'"
    using make_mutable [OF chars assms(2) refl] by blast
  then have "scm_p_string_copy codec h x = Some (Inr (p, h'))"
    using d(1-3) by (simp add: scm_p_string_copy_def check_def ENSURE_STRING_def scm_make_string_copying_def)
  then show thesis using mk that by simp
qed

lemma string_fill:
  assumes x: "string_is codec valid h x cs True" and c: "valid c" "c \<noteq> 0" and ne: "cs \<noteq> []"
  obtains h' where "scm_p_string_fillx codec h x (CharObj (sint c)) = Some (Inr (SCM_UNDEF, h'))"
    "string_is codec valid h' x (replicate (length cs) c) True" "\<forall>y. y \<noteq> x \<longrightarrow> misc_cell h' y = misc_cell h y"
proof -
  note d = string_isD [OF x]
  let ?ds = "replicate (length cs) c"
  obtain bs where bs: "int2str codec c = Some bs" using encodable [OF c(1)] by blast
  have chars: "\<forall>d \<in> set ?ds. valid d \<and> d \<noteq> 0" using c by auto
  have enc: "concat (replicate (length cs) bs) = encode_str codec ?ds"
    unfolding encode_replicate by (simp add: encode_single bs)
  define h' where "h' = STRING_SET_STR h x (encode_str codec ?ds)"
  have "scm_p_string_fillx codec h x (CharObj (sint c)) = Some (Inr (SCM_UNDEF, h'))"
    using d(1-4) c ne stateless bs enc
    by (simp add: scm_p_string_fillx_def check_def ENSURE_STATELESS_CODEC_def ENSURE_STRING_def
        ENSURE_MUTABLE_STRING_def ENSURE_CHAR_def Let_def h'_def)
  moreover have "string_is codec valid h' x ?ds True"
    using chars d(3,4) put_cell_same x unfolding string_is_def h'_def STRING_SET_STR_def c_str_encoded [OF chars]
    by fastforce
  moreover have "\<forall>y. y \<noteq> x \<longrightarrow> misc_cell h' y = misc_cell h y"
    by (simp add: h'_def STRING_SET_STR_def put_cell_other)
  ultimately show thesis by (rule that)
qed

lemma read_encoded:
  assumes "valid c"
  shows "scm_charcodec_read_char codec (encode_str codec (c # cs)) = Inr (c, encode_str codec cs)"
  using read_char_encoded [OF assms, of cs "[]"] by simp

lemma encode_nonempty: "valid c \<Longrightarrow> encode_str codec (c # cs) \<noteq> []"
  using encodable [of c] by (auto simp: encode_str_Cons)

lemma string2list_loop_queue:
  assumes "queue_inv h0 h out ps" "\<forall>c \<in> set cs. valid c"
  shows "\<exists>h' out' ps'. string2list_loop codec h out (slot ps) (encode_str codec cs) (int (length cs)) = Some (Inr (out', h')) \<and>
    queue_inv h0 h' out' ps' \<and> map snd ps' = map snd ps @ map MAKE_CHAR cs"
  using assms
proof (induction cs arbitrary: h out ps)
  case Nil
  then show ?case by (subst string2list_loop.simps) auto
next
  case (Cons c cs)
  obtain h2 out2 q2 where add: "queue_add h out (slot ps) (MAKE_CHAR c) = (h2, out2, q2)" by (metis prod_cases3)
  note q = queue_add_inv [OF Cons.prems(1) add]
  have v: "valid c" using Cons.prems by simp
  have "string2list_loop codec h out (slot ps) (encode_str codec (c # cs)) (int (length (c # cs))) =
      string2list_loop codec h2 out2 q2 (encode_str codec cs) (int (length cs))"
    using read_encoded [OF v] encode_nonempty [OF v] add by (subst string2list_loop.simps) simp
  then show ?case using Cons.IH [of h2 out2 "ps @ [(brk h, MAKE_CHAR c)]"] q Cons.prems by auto
qed

lemma string_to_list:
  assumes "string_is codec valid h x cs mut" "brk_ok h"
  obtains p h' where "scm_p_string2list codec h x = Some (Inr (p, h'))"
    "chain h' p (map MAKE_CHAR cs) SCM_NULL" "heap_le h h'" "brk_ok h'"
proof -
  note d = string_isD [OF assms(1)]
  have inv: "queue_inv h h SCM_NULL []" using assms(2) by (simp add: queue_inv_def)
  obtain h' out' ps' where r: "string2list_loop codec h SCM_NULL (slot []) (encode_str codec cs) (int (length cs)) = Some (Inr (out', h'))"
      "queue_inv h h' out' ps'" "map snd ps' = map MAKE_CHAR cs"
    using string2list_loop_queue [OF inv d(5)] by auto
  have "scm_p_string2list codec h x = Some (Inr (out', h'))"
    using r(1) d(1-3) by (simp add: scm_p_string2list_def check_def ENSURE_STRING_def slot_def)
  moreover have "chain h' out' (map MAKE_CHAR cs) SCM_NULL"
    using r(2,3) lseg_chain [of h' out' ps' SCM_NULL] by (simp add: queue_inv_def)
  ultimately show thesis using r(2) that by (simp add: queue_inv_def)
qed

lemma list2string_count_chain:
  assumes "chain h lst (map MAKE_CHAR cs) SCM_NULL" "\<forall>c \<in> set cs. valid c \<and> c \<noteq> 0"
  shows "list2string_count codec h lst str_size n =
    Some (Inr (str_size + length (encode_str codec cs), n + int (length cs), SCM_NULL))"
  using assms
proof (induction cs arbitrary: lst str_size n)
  case Nil
  then show ?case by (subst list2string_count.simps) simp
next
  case (Cons c cs)
  obtain bs where bs: "int2str codec c = Some bs" using encodable Cons.prems by fastforce
  then have "char_len codec c = length bs" using Cons.prems(2) measured by simp
  moreover have "CONSP lst" "CAR h lst = MAKE_CHAR c" "CHAR_VALUE (MAKE_CHAR c) = c"
    using Cons.prems has_pair_CONSP by (auto simp: MAKE_CHAR_def)
  ultimately have "list2string_count codec h lst str_size n = list2string_count codec h (CDR h lst) (str_size + length bs) (n + 1)"
    by (subst list2string_count.simps) (simp add: ENSURE_CHAR_def MAKE_CHAR_def)
  then show ?case using Cons by (simp add: encode_str_Cons bs)
qed

lemma list2string_fill_chain:
  assumes "chain h lst (map MAKE_CHAR cs) SCM_NULL" "\<forall>c \<in> set cs. valid c \<and> c \<noteq> 0"
    "length dst + length (encode_str codec cs) < str_size"
  shows "list2string_fill codec h str_size lst dst = Some (Inr (dst @ encode_str codec cs))"
  using assms
proof (induction cs arbitrary: lst dst)
  case Nil
  then show ?case by (subst list2string_fill.simps) simp
next
  case (Cons c cs)
  obtain bs where bs: "int2str codec c = Some bs" using encodable Cons.prems by fastforce
  have "CONSP lst" "CHAR_VALUE (CAR h lst) = c" using Cons.prems has_pair_CONSP by (auto simp: MAKE_CHAR_def)
  then have "list2string_fill codec h str_size lst dst = list2string_fill codec h str_size (CDR h lst) (dst @ bs)"
    using Cons.prems bs by (subst list2string_fill.simps) (simp add: encode_str_Cons)
  then show ?case using Cons by (simp add: encode_str_Cons bs)
qed

lemma list_to_string:
  assumes "chain h lst (map MAKE_CHAR cs) SCM_NULL" "\<forall>c \<in> set cs. valid c \<and> c \<noteq> 0" "brk_ok h"
  obtains p h' where "scm_p_list2string codec h lst = Some (Inr (p, h'))"
    "string_is codec valid h' p cs True" "heap_le h h'" "brk_ok h'"
proof -
  obtain p h' where mk: "scm_make_string_internal codec h (encode_str codec cs) (int (length cs)) False = Some (p, h')"
      "string_is codec valid h' p cs True" "heap_le h h'" "brk_ok h'"
    using make_mutable [OF assms(2,3) refl] by blast
  have len: "scm_length h lst = Some (int (length cs))"
    using scm_length_chain [OF assms(1)] by simp
  note cnt = list2string_count_chain [OF assms(1,2), of 1 0]
  note fill = list2string_fill_chain [OF assms(1,2), of "[]" "1 + length (encode_str codec cs)"]
  have null: "lst = SCM_NULL \<longleftrightarrow> cs = []" using assms(1) by (cases cs) (auto simp: has_pair_def)
  note defs = scm_p_list2string_def check_def ENSURE_STATELESS_CODEC_def stateless SCM_LISTLEN_PROPERP_def
    scm_make_string_copying_def scm_make_string_def
  have "scm_p_list2string codec h lst = Some (Inr (p, h'))"
  proof (cases "cs = []")
    case True
    then show ?thesis using mk(1) len null by (simp add: defs)
  next
    case False
    then show ?thesis using mk(1) len cnt fill null by (simp add: defs)
  qed
  then show thesis using mk that by simp
qed

lemma next_char_encoded:
  assumes "\<forall>c \<in> set cs. valid c"
  shows "NEXT_CHAR codec (encode_str codec cs) =
    Inr (if cs = [] then (SCM_ICHAR_EOF, []) else (hd cs, encode_str codec (tl cs)))"
proof (cases cs)
  case Nil
  then show ?thesis by (simp add: NEXT_CHAR_def)
next
  case (Cons c ds)
  then show ?thesis using assms encode_nonempty [of c ds] read_encoded [of c ds] by (simp add: NEXT_CHAR_def)
qed

lemma eof_less: "valid c \<Longrightarrow> SCM_ICHAR_EOF <s c" "valid c \<Longrightarrow> \<not> c <s SCM_ICHAR_EOF"
  using nonneg [of c] by (auto simp: word_sle_eq word_sless_alt SCM_ICHAR_EOF_def)

lemma string_cmp_encoded:
  assumes "\<forall>c \<in> set cs. valid c" "\<forall>d \<in> set ds. valid d"
  shows "string_cmp_loop codec (encode_str codec cs) (encode_str codec ds) = Some (Inr (char_cmp cs ds))"
  using assms
proof (induction cs ds rule: char_cmp.induct)
  case (4 c cs d ds)
  have "c \<noteq> SCM_ICHAR_EOF" "d \<noteq> SCM_ICHAR_EOF" using "4.prems" valid_not_eof by auto
  with 4 show ?case
    by (subst string_cmp_loop.simps) (simp add: next_char_encoded)
next
  case (2 d ds)
  have "d \<noteq> SCM_ICHAR_EOF" using 2 valid_not_eof by auto
  with 2 show ?case
    using next_char_encoded [OF "2"(1)] eof_less [of d]
    by (subst string_cmp_loop.simps) (auto simp: next_char_encoded)
next
  case (3 c cs)
  have "c \<noteq> SCM_ICHAR_EOF" using 3 valid_not_eof by auto
  with 3 show ?case
    using eof_less [of c] next_char_encoded [OF "3"(2)] next_char_encoded [OF "3"(1)]
    by (subst string_cmp_loop.simps) auto
qed (subst string_cmp_loop.simps, simp add: NEXT_CHAR_def)

lemma string_compare:
  assumes "string_is codec valid h x cs m" "string_is codec valid h y ds n"
  shows "string_cmp codec h x y = Some (Inr (char_cmp cs ds))"
proof -
  note d = string_isD [OF assms(1)] and e = string_isD [OF assms(2)]
  show ?thesis
    unfolding string_cmp_def check_def ENSURE_STRING_def d(2) e(2) using d(1) e(1)
    by (simp only: if_True sum.case string_cmp_encoded [OF d(5) e(5)])
qed

lemma encode_inj:
  assumes "\<forall>c \<in> set cs. valid c" "\<forall>d \<in> set ds. valid d" "encode_str codec cs = encode_str codec ds"
  shows "cs = ds"
  using string_cmp_encoded [OF assms(1,2)] string_cmp_encoded [OF assms(2,2)] assms(3) char_cmp_eq
  by (metis option.inject sum.inject(2))

lemma string_equal:
  assumes "string_is codec valid h x cs m" "string_is codec valid h y ds n"
  shows "scm_p_stringequalp h x y = Inr (MAKE_BOOL (cs = ds))"
proof -
  note d = string_isD [OF assms(1)] and e = string_isD [OF assms(2)]
  have "cs = ds" if "encode_str codec cs = encode_str codec ds" using encode_inj [OF d(5) e(5) that] .
  moreover have "encode_str codec cs = encode_str codec ds" if "x = y" using d(2) e(2) that by simp
  ultimately have "STRING_EQUALP h x y \<longleftrightarrow> cs = ds"
    unfolding STRING_EQUALP_def d(2,3) e(2,3) by blast
  then show ?thesis using d(1) e(1) by (simp add: scm_p_stringequalp_def and_then_def ENSURE_STRING_def)
qed

end

section \<open>Properties\<close>

lemma substring_range_errors:
  assumes "STRINGP h x" "STRING_LEN h x = n"
  shows "i < 0 \<or> n < i \<Longrightarrow>
      scm_p_substring codec h x (IntObj i) (IntObj j) = Some (Inl (ErrObj ''start index out of range'' (IntObj i)))"
    and "0 \<le> i \<Longrightarrow> i \<le> n \<Longrightarrow> j < 0 \<or> n < j \<Longrightarrow>
      scm_p_substring codec h x (IntObj i) (IntObj j) = Some (Inl (ErrObj ''end index out of range'' (IntObj j)))"
    and "0 \<le> j \<Longrightarrow> j < i \<Longrightarrow> i \<le> n \<Longrightarrow>
      scm_p_substring codec h x (IntObj i) (IntObj j) = Some (Inl (ErrObjs ''start index exceeded end index'' [IntObj i, IntObj j]))"
  using assms
  by (auto simp: scm_p_substring_def check_def ENSURE_STRING_def ENSURE_INT_def Let_def)

text \<open>C29: In every codec the readers of strings compute on the list of characters: \<^verbatim>\<open>string-length\<close> is its
  length, \<^verbatim>\<open>string-ref\<close> the indexed character or the range error, \<^verbatim>\<open>substring\<close> a fresh mutable string of the
  slice, or the error for the first index out of range, \<^verbatim>\<open>string-copy\<close> a fresh mutable string of the same
  characters.\<close>

theorem string_access_correct:
  assumes "(codec, valid) \<in> set codec_domains" "string_is codec valid h x cs mut" "brk_ok h"
  shows "(scm_p_string_length h x = Inr (IntObj (int (length cs)))) \<and>
    (scm_p_string_ref codec h x (IntObj i) =
       (if 0 \<le> i \<and> i < int (length cs) then Inr (MAKE_CHAR (cs ! nat i))
        else Inl (ErrObj ''index out of range'' (IntObj i)))) \<and>
    (case scm_p_substring codec h x (IntObj i) (IntObj j) of
       None \<Rightarrow> False
     | Some (Inl e) \<Rightarrow> \<not> (0 \<le> i \<and> i \<le> j \<and> j \<le> int (length cs)) \<and>
         e = (if i < 0 \<or> int (length cs) < i then ErrObj ''start index out of range'' (IntObj i)
              else if j < 0 \<or> int (length cs) < j then ErrObj ''end index out of range'' (IntObj j)
              else ErrObjs ''start index exceeded end index'' [IntObj i, IntObj j])
     | Some (Inr (p, h')) \<Rightarrow> 0 \<le> i \<and> i \<le> j \<and> j \<le> int (length cs) \<and>
         string_is codec valid h' p (take (nat (j - i)) (drop (nat i) cs)) True \<and> heap_le h h' \<and> brk_ok h') \<and>
    (\<exists>p h'. scm_p_string_copy codec h x = Some (Inr (p, h')) \<and> string_is codec valid h' p cs True \<and>
       heap_le h h' \<and> brk_ok h')"
proof (intro conjI)
  note sc = codec_domains_string [OF assms(1)]
  note d = string_isD [OF assms(2)]
  show "scm_p_string_length h x = Inr (IntObj (int (length cs)))"
    using d(1,3) by (simp add: scm_p_string_length_def and_then_def ENSURE_STRING_def)
  show "scm_p_string_ref codec h x (IntObj i) =
       (if 0 \<le> i \<and> i < int (length cs) then Inr (MAKE_CHAR (cs ! nat i))
        else Inl (ErrObj ''index out of range'' (IntObj i)))"
    by (rule string_codec.string_ref_at [OF sc assms(2)])
  show "\<exists>p h'. scm_p_string_copy codec h x = Some (Inr (p, h')) \<and> string_is codec valid h' p cs True \<and>
       heap_le h h' \<and> brk_ok h'"
    by (rule string_codec.string_copy [OF sc assms(2,3)]) blast
  consider (ok) "0 \<le> i \<and> i \<le> j \<and> j \<le> int (length cs)" | (start) "i < 0 \<or> int (length cs) < i"
    | (stop) "0 \<le> i" "i \<le> int (length cs)" "j < 0 \<or> int (length cs) < j"
    | (order) "0 \<le> j" "j < i" "i \<le> int (length cs)" by linarith
  then show "case scm_p_substring codec h x (IntObj i) (IntObj j) of
       None \<Rightarrow> False
     | Some (Inl e) \<Rightarrow> \<not> (0 \<le> i \<and> i \<le> j \<and> j \<le> int (length cs)) \<and>
         e = (if i < 0 \<or> int (length cs) < i then ErrObj ''start index out of range'' (IntObj i)
              else if j < 0 \<or> int (length cs) < j then ErrObj ''end index out of range'' (IntObj j)
              else ErrObjs ''start index exceeded end index'' [IntObj i, IntObj j])
     | Some (Inr (p, h')) \<Rightarrow> 0 \<le> i \<and> i \<le> j \<and> j \<le> int (length cs) \<and>
         string_is codec valid h' p (take (nat (j - i)) (drop (nat i) cs)) True \<and> heap_le h h' \<and> brk_ok h'"
  proof cases
    case ok
    then have r: "0 \<le> i" "i \<le> j" "j \<le> int (length cs)" by auto
    show ?thesis
      by (rule string_codec.substring_slice [OF sc assms(2,3) r]) (use r in auto)
  qed (use substring_range_errors [OF d(1,3)] in \<open>auto\<close>)
qed

definition string_heap :: "byte list \<Rightarrow> int \<Rightarrow> heap" where
  "string_heap bs n = \<lparr>mem = [0 \<mapsto> StringCell bs n True], brk = 1\<rparr>"

lemma string_heap_ok: "brk_ok (string_heap bs n)"
  by (simp add: string_heap_def brk_ok_def)

lemma utf8_string_heap:
  "string_is utf8_codec_vtbl utf8_valid (string_heap [0x41, 0xE3, 0x81, 0x82, 0x42] 3) (Ptr PTAG_MISC 0) [0x41, 0x3042, 0x42] True"
  by (simp add: string_is_def string_heap_def utf8_valid_def word_sle_eq encode_str_def utf8_codec_vtbl_def
      utf8_int2str_def IS_1BYTE_def IN_OCT_BMP_def IN_BMP_def LEN_CODE_def MASK_def LEADING_VAL_def TRAILING_VAL_def)

lemma utf8_in_domains: "(utf8_codec_vtbl, utf8_valid) \<in> set codec_domains"
  by (simp add: codec_domains_def)

lemma string_access_correct_witness:
  "scm_p_string_ref utf8_codec_vtbl (string_heap [0x41, 0xE3, 0x81, 0x82, 0x42] 3) (Ptr PTAG_MISC 0) (IntObj 1) =
     Inr (CharObj 0x3042)"
  using string_access_correct [OF utf8_in_domains utf8_string_heap string_heap_ok, of 1] by (simp add: MAKE_CHAR_def)

text \<open>C30: \<^verbatim>\<open>string-set!\<close> replaces the indexed character and \<^verbatim>\<open>string-fill!\<close> every character, whatever the sizes
  of the codes, keep the length and leave every other object as it was; an immutable string and an index out
  of range are errors.\<close>

theorem string_mutation_correct:
  assumes "(codec, valid) \<in> set codec_domains" "string_is codec valid h x cs mut" "valid c" "c \<noteq> 0"
  shows "(case scm_p_string_setx codec h x (IntObj i) (MAKE_CHAR c) of
       Inl e \<Rightarrow> if \<not> mut then e = ErrObj ''attempted to modify immutable string'' x
                else \<not> (0 \<le> i \<and> i < int (length cs)) \<and> e = ErrObj ''index out of range'' (IntObj i)
     | Inr (r, h') \<Rightarrow> mut \<and> 0 \<le> i \<and> i < int (length cs) \<and> string_is codec valid h' x (cs[nat i := c]) True \<and>
         (\<forall>y. y \<noteq> x \<longrightarrow> misc_cell h' y = misc_cell h y)) \<and>
    (mut \<and> cs \<noteq> [] \<longrightarrow> (\<exists>h'. scm_p_string_fillx codec h x (MAKE_CHAR c) = Some (Inr (SCM_UNDEF, h')) \<and>
       string_is codec valid h' x (replicate (length cs) c) True \<and> (\<forall>y. y \<noteq> x \<longrightarrow> misc_cell h' y = misc_cell h y)))"
proof (intro conjI)
  note sc = codec_domains_string [OF assms(1)]
  note d = string_isD [OF assms(2)]
  show "case scm_p_string_setx codec h x (IntObj i) (MAKE_CHAR c) of
       Inl e \<Rightarrow> if \<not> mut then e = ErrObj ''attempted to modify immutable string'' x
                else \<not> (0 \<le> i \<and> i < int (length cs)) \<and> e = ErrObj ''index out of range'' (IntObj i)
     | Inr (r, h') \<Rightarrow> mut \<and> 0 \<le> i \<and> i < int (length cs) \<and> string_is codec valid h' x (cs[nat i := c]) True \<and>
         (\<forall>y. y \<noteq> x \<longrightarrow> misc_cell h' y = misc_cell h y)"
  proof (cases "mut \<and> 0 \<le> i \<and> i < int (length cs)")
    case True
    then have m: "string_is codec valid h x cs True" and i: "0 \<le> i" "i < int (length cs)" using assms(2) by auto
    show ?thesis unfolding MAKE_CHAR_def
      by (rule string_codec.string_set [OF sc m assms(3,4) i]) (use True in auto)
  next
    case False
    then show ?thesis
      using d(1-4) assms(4) string_codec.stateless [OF sc]
      by (auto simp: scm_p_string_setx_def and_then_def ENSURE_STATELESS_CODEC_def ENSURE_STRING_def
          ENSURE_MUTABLE_STRING_def ENSURE_INT_def ENSURE_CHAR_def MAKE_CHAR_def)
  qed
  show "mut \<and> cs \<noteq> [] \<longrightarrow> (\<exists>h'. scm_p_string_fillx codec h x (MAKE_CHAR c) = Some (Inr (SCM_UNDEF, h')) \<and>
       string_is codec valid h' x (replicate (length cs) c) True \<and> (\<forall>y. y \<noteq> x \<longrightarrow> misc_cell h' y = misc_cell h y))"
  proof
    assume that: "mut \<and> cs \<noteq> []"
    have m: "string_is codec valid h x cs True" using assms(2) that by simp
    show "\<exists>h'. scm_p_string_fillx codec h x (MAKE_CHAR c) = Some (Inr (SCM_UNDEF, h')) \<and>
       string_is codec valid h' x (replicate (length cs) c) True \<and> (\<forall>y. y \<noteq> x \<longrightarrow> misc_cell h' y = misc_cell h y)"
      unfolding MAKE_CHAR_def
      by (rule string_codec.string_fill [OF sc m assms(3,4) that [THEN conjunct2]]) blast
  qed
qed

lemma string_mutation_correct_witness:
  "\<exists>h'. scm_p_string_fillx utf8_codec_vtbl (string_heap [0x41, 0xE3, 0x81, 0x82, 0x42] 3) (Ptr PTAG_MISC 0) (MAKE_CHAR 0x3042) =
     Some (Inr (SCM_UNDEF, h')) \<and> string_is utf8_codec_vtbl utf8_valid h' (Ptr PTAG_MISC 0) [0x3042, 0x3042, 0x3042] True"
proof -
  have "utf8_valid 0x3042" by (simp add: utf8_valid_def word_sle_eq)
  moreover have "(0x3042 :: ichar) \<noteq> 0" by simp
  ultimately show ?thesis
    using string_mutation_correct [OF utf8_in_domains utf8_string_heap, of "0x3042" 0, THEN conjunct2]
    by (simp add: numeral_3_eq_3) blast
qed

text \<open>C31: \<^verbatim>\<open>string->list\<close> gives a fresh proper list of the characters, and \<^verbatim>\<open>list->string\<close> of that list a fresh
  mutable string that \<^verbatim>\<open>string=?\<close> holds equal to the first; both leave every existing cell as it was.\<close>

theorem string_list_roundtrip:
  assumes "(codec, valid) \<in> set codec_domains" "string_is codec valid h x cs mut" "brk_ok h"
  shows "\<exists>l h' y h''. scm_p_string2list codec h x = Some (Inr (l, h')) \<and> chain h' l (map MAKE_CHAR cs) SCM_NULL \<and>
    heap_le h h' \<and> scm_p_list2string codec h' l = Some (Inr (y, h'')) \<and> string_is codec valid h'' y cs True \<and>
    heap_le h' h'' \<and> scm_p_stringequalp h'' x y = Inr SCM_TRUE"
proof -
  note sc = codec_domains_string [OF assms(1)]
  have cs: "\<forall>c \<in> set cs. valid c \<and> c \<noteq> 0" using assms(2) by (simp add: string_is_def)
  obtain l h' where l: "scm_p_string2list codec h x = Some (Inr (l, h'))" "chain h' l (map MAKE_CHAR cs) SCM_NULL"
      "heap_le h h'" "brk_ok h'"
    by (rule string_codec.string_to_list [OF sc assms(2,3)])
  obtain y h'' where y: "scm_p_list2string codec h' l = Some (Inr (y, h''))" "string_is codec valid h'' y cs True"
      "heap_le h' h''" "brk_ok h''"
    by (rule string_codec.list_to_string [OF sc l(2) cs l(4)])
  have "string_is codec valid h'' x cs mut"
    using string_is_le [OF string_is_le [OF assms(2) l(3)] y(3)] .
  from string_codec.string_equal [OF sc this y(2)] show ?thesis
    using l y by (auto simp: MAKE_BOOL_def)
qed

lemma string_list_roundtrip_witness:
  "\<exists>l h' y h''. scm_p_string2list utf8_codec_vtbl (string_heap [0x41, 0xE3, 0x81, 0x82, 0x42] 3) (Ptr PTAG_MISC 0) =
     Some (Inr (l, h')) \<and> scm_p_list2string utf8_codec_vtbl h' l = Some (Inr (y, h''))"
  using string_list_roundtrip [OF utf8_in_domains utf8_string_heap string_heap_ok] by blast

text \<open>C32: The comparisons of strings decide the lexicographic order of the characters by code point, whatever
  the codec; exactly one of less, equal and greater holds.\<close>

theorem string_comparisons_correct:
  assumes "(codec, valid) \<in> set codec_domains" "string_is codec valid h x cs m" "string_is codec valid h y ds n"
  shows "(scm_p_string_lessp codec h x y = Some (Inr (MAKE_BOOL ((cs, ds) \<in> lexord {(c, d). c <s d})))) \<and>
    (scm_p_string_greaterp codec h x y = Some (Inr (MAKE_BOOL ((ds, cs) \<in> lexord {(c, d). c <s d})))) \<and>
    (scm_p_string_less_equalp codec h x y = Some (Inr (MAKE_BOOL ((cs, ds) \<in> lexord {(c, d). c <s d} \<or> cs = ds)))) \<and>
    (scm_p_string_greater_equalp codec h x y = Some (Inr (MAKE_BOOL ((ds, cs) \<in> lexord {(c, d). c <s d} \<or> cs = ds)))) \<and>
    (scm_p_stringequalp h x y = Inr (MAKE_BOOL (cs = ds)))"
proof (intro conjI)
  note sc = codec_domains_string [OF assms(1)]
  note cmp = string_codec.string_compare [OF sc assms(2,3)]
  have le: "char_cmp cs ds \<le> 0 \<longleftrightarrow> char_cmp cs ds < 0 \<or> char_cmp cs ds = 0"
    and ge: "char_cmp cs ds \<ge> 0 \<longleftrightarrow> char_cmp cs ds > 0 \<or> char_cmp cs ds = 0" by linarith+
  show "scm_p_string_lessp codec h x y = Some (Inr (MAKE_BOOL ((cs, ds) \<in> lexord {(c, d). c <s d})))"
    by (simp add: scm_p_string_lessp_def cmp char_cmp_less)
  show "scm_p_string_greaterp codec h x y = Some (Inr (MAKE_BOOL ((ds, cs) \<in> lexord {(c, d). c <s d})))"
    by (simp add: scm_p_string_greaterp_def cmp char_cmp_greater)
  show "scm_p_string_less_equalp codec h x y = Some (Inr (MAKE_BOOL ((cs, ds) \<in> lexord {(c, d). c <s d} \<or> cs = ds)))"
    by (simp add: scm_p_string_less_equalp_def cmp le char_cmp_less char_cmp_eq)
  show "scm_p_string_greater_equalp codec h x y = Some (Inr (MAKE_BOOL ((ds, cs) \<in> lexord {(c, d). c <s d} \<or> cs = ds)))"
    by (simp add: scm_p_string_greater_equalp_def cmp ge char_cmp_greater char_cmp_eq)
  show "scm_p_stringequalp h x y = Inr (MAKE_BOOL (cs = ds))"
    by (rule string_codec.string_equal [OF sc assms(2,3)])
qed

lemma string_comparisons_correct_witness:
  "scm_p_string_lessp utf8_codec_vtbl (string_heap [0x41, 0xE3, 0x81, 0x82, 0x42] 3) (Ptr PTAG_MISC 0) (Ptr PTAG_MISC 0) =
     Some (Inr SCM_FALSE)"
  using string_comparisons_correct [OF utf8_in_domains utf8_string_heap utf8_string_heap]
  by (simp add: MAKE_BOOL_def word_sless_alt)

text \<open>\<^verbatim>\<open>string-append\<close> of any number of strings is a fresh mutable string of the concatenated characters.\<close>

theorem string_append_correct:
  assumes "(codec, valid) \<in> set codec_domains" "list_all2 (\<lambda>x cs. \<exists>m. string_is codec valid h x cs m) xs css"
    "chain h args xs SCM_NULL" "brk_ok h"
  shows "\<exists>p h'. scm_p_string_append codec h args = Some (Inr (p, h')) \<and>
    string_is codec valid h' p (concat css) True \<and> heap_le h h' \<and> brk_ok h'"
  by (rule string_codec.string_append [OF codec_domains_string [OF assms(1)] assms(2-4)]) blast

definition string_args_heap :: heap where
  "string_args_heap = \<lparr>mem = [0 \<mapsto> StringCell [0x41, 0x42] 2 True, 1 \<mapsto> PairCell (Ptr PTAG_MISC 0) (Ptr PTAG_CONS 2),
     2 \<mapsto> PairCell (Ptr PTAG_MISC 0) SCM_NULL], brk = 3\<rparr>"

lemma string_append_correct_witness:
  "\<exists>p h'. scm_p_string_append utf8_codec_vtbl string_args_heap (Ptr PTAG_CONS 1) = Some (Inr (p, h')) \<and>
     string_is utf8_codec_vtbl utf8_valid h' p [0x41, 0x42, 0x41, 0x42] True"
proof -
  have s: "string_is utf8_codec_vtbl utf8_valid string_args_heap (Ptr PTAG_MISC 0) [0x41, 0x42] True"
    by (simp add: string_is_def string_args_heap_def utf8_valid_def word_sle_eq encode_str_def utf8_codec_vtbl_def
        utf8_int2str_def IS_1BYTE_def)
  have l: "list_all2 (\<lambda>x cs. \<exists>m. string_is utf8_codec_vtbl utf8_valid string_args_heap x cs m)
      [Ptr PTAG_MISC 0, Ptr PTAG_MISC 0] [[0x41, 0x42], [0x41, 0x42]]"
    using s by auto
  have c: "chain string_args_heap (Ptr PTAG_CONS 1) [Ptr PTAG_MISC 0, Ptr PTAG_MISC 0] SCM_NULL"
    by (simp add: string_args_heap_def has_pair_def)
  have b: "brk_ok string_args_heap" by (simp add: string_args_heap_def brk_ok_def)
  have e: "concat [[0x41, 0x42], [0x41, 0x42]] = [0x41, 0x42, 0x41, 0x42 :: ichar]" by simp
  show ?thesis using string_append_correct [OF utf8_in_domains l c b] unfolding e by blast
qed

end
