(* ===== verification/NumberIO.thy ===== *)
theory NumberIO
  imports Strings
begin

text \<open>
  Printing and parsing of exact integers: \<^verbatim>\<open>src/number-io.c\<close> in the configuration without reals.

  \<^verbatim>\<open>scm_int2string\<close> writes backwards into a buffer of fixed size. \<open>int2string_digits\<close> counts the bytes
  that are left before the write position and gives \<open>None\<close> for a write before the buffer. The digits
  are those of a 64 bit word (\<^verbatim>\<open>uintmax_t\<close>), the negation of a negative number wraps.

  \<open>strtol\<close> is the function of the C library as ISO C11 describes it, in the C locale, on the bytes before
  the terminating null. It returns the number, the rest of the string and whether \<^verbatim>\<open>ERANGE\<close> was set.
\<close>

section \<open>Printing\<close>

definition VALID_RADIXP :: "int \<Rightarrow> bool" where
  "VALID_RADIXP r \<longleftrightarrow> r = 2 \<or> r = 8 \<or> r = 10 \<or> r = 16"

definition ENSURE_PROPER_ARG_LIST :: "heap \<Rightarrow> obj \<Rightarrow> unit res option" where
  "ENSURE_PROPER_ARG_LIST h args = map_option (\<lambda>len.
     if SCM_LISTLEN_PROPERP len then Inr () else Inl (ErrObj ''bad argument list'' args)) (scm_length h args)"

text \<open>The radix goes through a C \<^verbatim>\<open>int\<close> before it is checked.\<close>

definition c_int :: "int \<Rightarrow> int" where "c_int i = signed_take_bit 31 i"

definition prepare_radix :: "heap \<Rightarrow> obj \<Rightarrow> int res option" where
  "prepare_radix h args =
     Option.bind (ENSURE_PROPER_ARG_LIST h args) (\<lambda>ok. check ok (\<lambda>_.
       if NULLP args then Some (Inr 10)
       else let radix = CAR h args in
         Some (and_then (ENSURE_NO_MORE_ARG (CDR h args)) (\<lambda>_. and_then (ENSURE_INT radix) (\<lambda>_.
           let r = c_int (SCM_INT_VALUE radix) in
           if VALID_RADIXP r then Inr r else Inl (ErrObj ''invalid radix'' radix))))))"

record value_format =
  width :: int
  frac_width :: int
  pad :: byte
  signedp :: bool

definition SCM_VALUE_FORMAT_INIT :: value_format where
  "SCM_VALUE_FORMAT_INIT = \<lparr>width = -1, frac_width = -1, pad = 0x20, signedp = True\<rparr>"

definition digit_char :: "64 word \<Rightarrow> byte" where
  "digit_char d = (if d \<le> 9 then 0x30 + ucast d else 0x61 + ucast d - 10)"

fun int2string_digits :: "nat \<Rightarrow> 64 word \<Rightarrow> 64 word \<Rightarrow> byte list \<Rightarrow> (nat \<times> byte list) option" where
  "int2string_digits 0 radix un p = None"
| "int2string_digits (Suc room) radix un p =
     (let p = digit_char (un mod radix) # p; un = un div radix
      in if un = 0 then Some (room, p) else int2string_digits room radix un p)"

text \<open>\<^verbatim>\<open>sizeof("-") + sizeof(uintmax_t) * CHAR_BIT\<close> bytes, the last one for the null.\<close>

definition int2string_room :: nat where "int2string_room = 2 + 8 * 8 - 1"

definition scm_int2string :: "value_format \<Rightarrow> 64 word \<Rightarrow> int \<Rightarrow> byte list option" where
  "scm_int2string vfmt n radix =
     (let neg = signedp vfmt \<and> n <s 0;
          un = (if neg then - n else n)
      in Option.bind (int2string_digits int2string_room (word_of_int radix) un []) (\<lambda>(room, p).
         Option.bind (if neg \<and> pad vfmt \<noteq> 0x30 then (if room = 0 then None else Some (0x2D # p)) else Some p) (\<lambda>p.
         let sign_len = (if neg \<and> pad vfmt = 0x30 then 1 else 0);
             len = int (length p);
             pad_len = (if sign_len + len < width vfmt then width vfmt - sign_len - len else 0)
         in Some ((if sign_len \<noteq> 0 then [0x2D] else []) @ replicate (nat pad_len) (pad vfmt) @ p))))"

definition scm_p_number2string :: "codec_vtbl \<Rightarrow> heap \<Rightarrow> obj \<Rightarrow> obj \<Rightarrow> (obj \<times> heap) res option" where
  "scm_p_number2string codec h num args =
     Option.bind (prepare_radix h args) (\<lambda>r. case r of
         Inl e \<Rightarrow> Some (Inl e)
       | Inr r \<Rightarrow> check (ENSURE_INT num) (\<lambda>_.
           Option.bind (scm_int2string SCM_VALUE_FORMAT_INIT (word_of_int (SCM_INT_VALUE num)) r) (\<lambda>str.
             map_option Inr (scm_make_string codec h str STRLEN_UNKNOWN))))"

section \<open>Parsing\<close>

definition LONG_MAX :: int where "LONG_MAX = 2 ^ 63 - 1"
definition LONG_MIN :: int where "LONG_MIN = - (2 ^ 63)"

definition isspace :: "byte \<Rightarrow> bool" where
  "isspace b \<longleftrightarrow> b = 0x20 \<or> 0x09 \<le> b \<and> b \<le> 0x0D"

definition digit_value :: "byte \<Rightarrow> int" where
  "digit_value b =
     (if 0x30 \<le> b \<and> b \<le> 0x39 then uint b - 0x30
      else if 0x61 \<le> b \<and> b \<le> 0x7A then uint b - 0x61 + 10
      else if 0x41 \<le> b \<and> b \<le> 0x5A then uint b - 0x41 + 10
      else 36)"

definition digitp :: "int \<Rightarrow> byte \<Rightarrow> bool" where
  "digitp base b \<longleftrightarrow> digit_value b < base"

definition digits_value :: "int \<Rightarrow> byte list \<Rightarrow> int" where
  "digits_value base bs = foldl (\<lambda>n b. n * base + digit_value b) 0 bs"

fun strtol_sign :: "byte list \<Rightarrow> bool \<times> byte list" where
  "strtol_sign (c # s) = (if c = 0x2D then (True, s) else if c = 0x2B then (False, s) else (False, c # s))"
| "strtol_sign [] = (False, [])"

fun strtol_prefix :: "int \<Rightarrow> byte list \<Rightarrow> byte list" where
  "strtol_prefix base (z # x # d # s) =
     (if base = 16 \<and> z = 0x30 \<and> (x = 0x78 \<or> x = 0x58) \<and> digitp 16 d then d # s else z # x # d # s)"
| "strtol_prefix base s = s"

definition strtol :: "byte list \<Rightarrow> int \<Rightarrow> int \<times> byte list \<times> bool" where
  "strtol str base =
     (case strtol_sign (dropWhile isspace str) of (neg, s) \<Rightarrow>
      let s = strtol_prefix base s; digits = takeWhile (digitp base) s in
      if digits = [] then (0, str, False)
      else let v = (if neg then - digits_value base digits else digits_value base digits);
               rest = dropWhile (digitp base) s
           in if v > LONG_MAX then (LONG_MAX, rest, True)
              else if v < LONG_MIN then (LONG_MIN, rest, True)
              else (v, rest, False))"

definition number_bytes :: "byte list" where
  "number_bytes = [0x30, 0x31, 0x32, 0x33, 0x34, 0x35, 0x36, 0x37, 0x38, 0x39,
     0x61, 0x62, 0x63, 0x64, 0x65, 0x66, 0x41, 0x42, 0x43, 0x44, 0x45, 0x46, 0x2D, 0x2B]"

text \<open>The number and the error flag.\<close>

definition scm_string2number :: "byte list \<Rightarrow> int \<Rightarrow> int \<times> bool" where
  "scm_string2number str radix =
     (if dropWhile (\<lambda>b. b \<in> set number_bytes) str \<noteq> [] then (0, True)
      else case strtol str radix of (n, end', erange) \<Rightarrow>
        let empty_strp = (end' = str); err = (empty_strp \<or> end' \<noteq> [])
        in if erange \<and> \<not> empty_strp \<or> \<not> (SCM_INT_MIN \<le> n \<and> n \<le> SCM_INT_MAX) then (0, True)
           else (n, err))"

definition ICHAR_DOWNCASE_byte :: "byte \<Rightarrow> byte" where
  "ICHAR_DOWNCASE_byte c = (if 0x41 \<le> c \<and> c \<le> 0x5A then c + 0x20 else c)"

definition parse_number_end :: "byte list \<Rightarrow> int \<Rightarrow> byte \<Rightarrow> obj" where
  "parse_number_end str radix exactness =
     (case scm_string2number str radix of (n, err) \<Rightarrow>
        if \<not> err then (if exactness = 0x69 then SCM_FALSE else IntObj n) else SCM_FALSE)"

fun parse_number_loop :: "byte list \<Rightarrow> int \<Rightarrow> bool \<Rightarrow> byte \<Rightarrow> obj" where
  "parse_number_loop (c # d # str) radix radix_prefixed exactness =
     (if c \<noteq> 0x23 then parse_number_end (c # d # str) radix exactness
      else if d = 0x62 \<or> d = 0x42 then
        (if radix_prefixed then SCM_FALSE else parse_number_loop str 2 True exactness)
      else if d = 0x6F \<or> d = 0x4F then
        (if radix_prefixed then SCM_FALSE else parse_number_loop str 8 True exactness)
      else if d = 0x64 \<or> d = 0x44 then
        (if radix_prefixed then SCM_FALSE else parse_number_loop str 10 True exactness)
      else if d = 0x78 \<or> d = 0x58 then
        (if radix_prefixed then SCM_FALSE else parse_number_loop str 16 True exactness)
      else if d = 0x65 \<or> d = 0x45 \<or> d = 0x69 \<or> d = 0x49 then
        (if exactness \<noteq> 0 then SCM_FALSE
         else parse_number_loop str radix radix_prefixed (ICHAR_DOWNCASE_byte d))
      else SCM_FALSE)"
| "parse_number_loop [c] radix radix_prefixed exactness =
     (if c \<noteq> 0x23 then parse_number_end [c] radix exactness else SCM_FALSE)"
| "parse_number_loop [] radix radix_prefixed exactness = parse_number_end [] radix exactness"

definition scm_parse_number :: "byte list \<Rightarrow> int \<Rightarrow> obj" where
  "scm_parse_number str radix = parse_number_loop str radix False 0"

definition scm_p_string2number :: "heap \<Rightarrow> obj \<Rightarrow> obj \<Rightarrow> obj res option" where
  "scm_p_string2number h str args =
     check (ENSURE_STRING h str) (\<lambda>_.
       map_option (map_sum id (\<lambda>r. scm_parse_number (STRING_STR h str) r)) (prepare_radix h args))"


section \<open>Positional notation\<close>

text \<open>The reference: the digits of a natural number, most significant first, and the integers that a
  string denotes.\<close>

definition digit_of :: "nat \<Rightarrow> byte" where
  "digit_of d = digit_char (of_nat d)"

fun nat_digits :: "nat \<Rightarrow> nat \<Rightarrow> byte list" where
  "nat_digits b n = (if n < b \<or> b \<le> 1 then [digit_of n] else nat_digits b (n div b) @ [digit_of (n mod b)])"

declare nat_digits.simps [simp del]

definition int_text :: "int \<Rightarrow> int \<Rightarrow> byte list" where
  "int_text r i = (if i < 0 then [0x2D] else []) @ nat_digits (nat r) (nat \<bar>i\<bar>)"

definition int_notation :: "int \<Rightarrow> byte list \<Rightarrow> int \<Rightarrow> bool" where
  "int_notation r str v \<longleftrightarrow> (\<exists>sg ds. str = sg @ ds \<and> sg \<in> {[], [0x2B], [0x2D]} \<and> ds \<noteq> [] \<and>
     (\<forall>d \<in> set ds. digitp r d) \<and> v = (if sg = [0x2D] then - digits_value r ds else digits_value r ds))"

lemma nat_digits_nonempty: "nat_digits b n \<noteq> []"
  by (subst nat_digits.simps) simp

lemma valid_radix_cases:
  assumes "VALID_RADIXP r"
  obtains "r = 2" | "r = 8" | "r = 10" | "r = 16"
  using assms by (auto simp: VALID_RADIXP_def)

lemma unat_small: "n < 2 ^ 64 \<Longrightarrow> unat (of_nat n :: 64 word) = n"
  by (simp add: unsigned_of_nat take_bit_nat_eq_self)

lemma word_small_zero: "n < 2 ^ 64 \<Longrightarrow> (of_nat n :: 64 word) = 0 \<longleftrightarrow> n = 0"
  using nat_dvd_not_less [of n "2 ^ 64"] by (auto simp: word_of_nat_eq_0_iff)

lemma word_arith_small:
  assumes "b < 2 ^ 64" "n < 2 ^ 64"
  shows "(of_nat n :: 64 word) div of_nat b = of_nat (n div b)" "(of_nat n :: 64 word) mod of_nat b = of_nat (n mod b)"
proof -
  have small: "n div b < 2 ^ 64" "n mod b < 2 ^ 64"
    using assms(2) by (meson div_le_dividend mod_less_eq_dividend order.strict_trans1)+
  show "(of_nat n :: 64 word) div of_nat b = of_nat (n div b)"
    by (rule word_unat_eq_iff [THEN iffD2]) (simp only: unat_div unat_small assms small)
  show "(of_nat n :: 64 word) mod of_nat b = of_nat (n mod b)"
    by (rule word_unat_eq_iff [THEN iffD2]) (simp only: unat_mod unat_small assms small)
qed

lemma int2string_digits_eq:
  assumes "un < b ^ k" "0 < k" "k \<le> room" "2 \<le> b" "b < 2 ^ 64" "un < 2 ^ 64"
  shows "int2string_digits room (of_nat b) (of_nat un) p =
    Some (room - length (nat_digits b un), nat_digits b un @ p) \<and> length (nat_digits b un) \<le> k"
  using assms
proof (induction k arbitrary: room un p)
  case (Suc k)
  obtain room' where room: "room = Suc room'" using Suc.prems by (cases room) auto
  have small: "un div b < 2 ^ 64" "un mod b < 2 ^ 64"
    using Suc.prems(6) by (meson div_le_dividend mod_less_eq_dividend order.strict_trans1)+
  note arith = word_arith_small [OF Suc.prems(5,6)]
  have quot: "(of_nat un :: 64 word) div of_nat b = of_nat (un div b)"
    and rem: "(of_nat un :: 64 word) mod of_nat b = of_nat (un mod b)" by (rule arith)+
  have zero: "(of_nat (un div b) :: 64 word) = 0 \<longleftrightarrow> un < b"
    using word_small_zero [OF small(1)] Suc.prems(4) by (simp add: div_eq_0_iff)
  show ?case
  proof (cases "un < b")
    case True
    then show ?thesis using zero quot rem
      by (subst (1 2 3) nat_digits.simps) (simp add: room digit_of_def Let_def)
  next
    case False
    have lt: "un div b < b ^ k" using Suc.prems(1) by (simp add: less_mult_imp_div_less mult.commute)
    have k: "0 < k" using False Suc.prems(1) by (cases k) auto
    have d: "un div b < 2 ^ 64" using Suc.prems by (meson div_le_dividend order.strict_trans1)
    have eq: "nat_digits b un = nat_digits b (un div b) @ [digit_of (un mod b)]"
      using False Suc.prems by (subst nat_digits.simps) simp
    have "k \<le> room'" using Suc.prems room by simp
    note ih = Suc.IH [OF lt k this Suc.prems(4,5) d, of "digit_of (un mod b) # p"]
    then show ?thesis using False zero quot rem ih
      by (simp add: room eq digit_of_def Let_def)
  qed
qed simp

lemma radix_word:
  assumes "VALID_RADIXP r"
  shows "word_of_int r = (of_nat (nat r) :: 64 word)" "2 \<le> nat r" "nat r < 2 ^ 64" "2 ^ 64 \<le> nat r ^ 64"
  using assms
proof -
  show "word_of_int r = (of_nat (nat r) :: 64 word)" "2 \<le> nat r" "nat r < 2 ^ 64"
    using assms by (auto simp: VALID_RADIXP_def)
  then show "2 ^ 64 \<le> nat r ^ 64" by (intro power_mono) auto
qed

lemma word_digits:
  fixes un :: "64 word"
  assumes "VALID_RADIXP r"
  shows "int2string_digits int2string_room (word_of_int r) un [] =
      Some (int2string_room - length (nat_digits (nat r) (unat un)), nat_digits (nat r) (unat un))"
    and "length (nat_digits (nat r) (unat un)) < int2string_room"
proof -
  have lt: "unat un < 2 ^ 64" using unsigned_less [of un] by simp
  then have lt': "unat un < nat r ^ 64" using radix_word(4) [OF assms] by linarith
  have "int2string_digits int2string_room (of_nat (nat r)) (of_nat (unat un)) [] =
      Some (int2string_room - length (nat_digits (nat r) (unat un)), nat_digits (nat r) (unat un) @ []) \<and>
      length (nat_digits (nat r) (unat un)) \<le> 64"
    by (rule int2string_digits_eq [OF lt' _ _ radix_word(2,3) [OF assms] lt]) (simp_all add: int2string_room_def)
  then show "int2string_digits int2string_room (word_of_int r) un [] =
      Some (int2string_room - length (nat_digits (nat r) (unat un)), nat_digits (nat r) (unat un))"
    "length (nat_digits (nat r) (unat un)) < int2string_room"
    by (simp_all add: radix_word(1) [OF assms] int2string_room_def)
qed

lemma neg_word_abs:
  fixes n :: "64 word"
  shows "sint n < 0 \<Longrightarrow> unat (- n) = nat \<bar>sint n\<bar>" "0 \<le> sint n \<Longrightarrow> unat n = nat \<bar>sint n\<bar>"
    "unat n = nat \<bar>uint n\<bar>"
proof -
  show u: "unat n = nat \<bar>uint n\<bar>" for n :: "64 word" by simp
  show "unat n = nat \<bar>sint n\<bar>" if "0 \<le> sint n"
    using uint_of_nonneg_sint [OF that] u [of n] by simp
  assume neg: "sint n < 0"
  have r: "- sint n < 2 ^ 64" using sint_ge [of n] by simp
  have "- n = word_of_int (- sint n)" by simp
  then have "uint (- n) = take_bit 64 (- sint n)" by (simp only: uint_word_of_int) (simp add: take_bit_eq_mod)
  also have "\<dots> = - sint n" using r neg by (intro take_bit_int_eq_self) auto
  finally show "unat (- n) = nat \<bar>sint n\<bar>" using neg u [of "- n"] by simp
qed

lemma scm_int2string_eq:
  assumes "VALID_RADIXP r"
  shows "scm_int2string vfmt n r = Some
    (let i = (if signedp vfmt then sint n else uint n);
         sign = (if i < 0 then [0x2D] else []);
         digits = nat_digits (nat r) (nat \<bar>i\<bar>);
         padding = replicate (nat (width vfmt - int (length sign + length digits))) (pad vfmt)
     in if pad vfmt = 0x30 then sign @ padding @ digits else padding @ sign @ digits)"
proof -
  define i where "i = (if signedp vfmt then sint n else uint n)"
  have neg: "signedp vfmt \<and> n <s 0 \<longleftrightarrow> i < 0" by (simp add: i_def word_sless_alt)
  have un: "unat (if signedp vfmt \<and> n <s 0 then - n else n) = nat \<bar>i\<bar>"
  proof (cases "signedp vfmt")
    case True
    then show ?thesis using neg_word_abs(1,2) [of n] unfolding neg i_def by (cases "sint n < 0") simp_all
  next
    case False
    then show ?thesis using neg_word_abs(3) [of n] unfolding neg i_def by simp
  qed
  note wd = word_digits [OF assms, of "if signedp vfmt \<and> n <s 0 then - n else n", unfolded un]
  have room: "int2string_room - length (nat_digits (nat r) (nat \<bar>i\<bar>)) \<noteq> 0" using wd(2) by simp
  have pad: "nat (if a < w then w - a else 0) = nat (w - a)" for a w :: int by simp
  show ?thesis
    unfolding scm_int2string_def Let_def wd(1)
    unfolding neg i_def [symmetric]
    using room by (cases "i < 0") (simp_all add: pad algebra_simps)
qed


section \<open>The number parser against the notation\<close>

lemma number_bytes_ranges: "number_bytes = map word_of_int ([48..57] @ [97..102] @ [65..70] @ [45, 43])"
  by (simp add: number_bytes_def upto.simps)

lemma number_byteI:
  assumes "48 \<le> uint b \<and> uint b \<le> 57 \<or> 97 \<le> uint b \<and> uint b \<le> 102 \<or> 65 \<le> uint b \<and> uint b \<le> 70"
  shows "b \<in> set number_bytes"
proof -
  have "uint b \<in> set ([48..57] @ [97..102] @ [65..70] @ [45, 43])"
    using assms unfolding set_append set_upto by simp
  then have "word_of_int (uint b) \<in> set number_bytes" unfolding number_bytes_ranges set_map by (rule imageI)
  then show ?thesis by simp
qed

lemma digit_range:
  assumes "digit_value b < 16"
  shows "48 \<le> uint b \<and> uint b \<le> 57 \<or> 97 \<le> uint b \<and> uint b \<le> 102 \<or> 65 \<le> uint b \<and> uint b \<le> 70"
  using assms by (auto simp: digit_value_def word_le_def split: if_splits)

lemma digitp_number_byte:
  assumes "digitp r b" "VALID_RADIXP r"
  shows "b \<in> set number_bytes" "b \<noteq> 0x2D" "b \<noteq> 0x2B" "\<not> isspace b"
proof -
  have "digit_value b < 16" using assms by (auto simp: digitp_def VALID_RADIXP_def)
  note range = digit_range [OF this]
  then show "b \<in> set number_bytes" by (rule number_byteI)
  show "b \<noteq> 0x2D" "b \<noteq> 0x2B" using range by auto
  show "\<not> isspace b" using range by (auto simp: isspace_def word_le_def)
qed

lemma number_bytes_plain:
  assumes "b \<in> set number_bytes"
  shows "\<not> isspace b" "b \<noteq> 0x78" "b \<noteq> 0x58" "b \<noteq> 0x23"
  using assms by (auto simp: number_bytes_def isspace_def)

lemma plain_strtol:
  assumes "set str \<subseteq> set number_bytes"
  shows "dropWhile isspace str = str" "strtol_prefix base (snd (strtol_sign str)) = snd (strtol_sign str)"
proof -
  show "dropWhile isspace str = str" using assms number_bytes_plain by (cases str) auto
  have "set (snd (strtol_sign str)) \<subseteq> set number_bytes" using assms by (cases str) auto
  then show "strtol_prefix base (snd (strtol_sign str)) = snd (strtol_sign str)"
    using number_bytes_plain by (cases "(base, snd (strtol_sign str))" rule: strtol_prefix.cases) auto
qed

text \<open>The notation by the sign: the digits are what \<open>strtol_sign\<close> leaves.\<close>

lemma int_notation_cases:
  "int_notation r str v \<longleftrightarrow>
    (str \<noteq> [] \<and> (\<forall>d \<in> set str. digitp r d) \<and> v = digits_value r str) \<or>
    (\<exists>ds. str = 0x2B # ds \<and> ds \<noteq> [] \<and> (\<forall>d \<in> set ds. digitp r d) \<and> v = digits_value r ds) \<or>
    (\<exists>ds. str = 0x2D # ds \<and> ds \<noteq> [] \<and> (\<forall>d \<in> set ds. digitp r d) \<and> v = - digits_value r ds)"
    (is "?l \<longleftrightarrow> ?a \<or> ?b \<or> ?c")
proof
  assume ?l
  then obtain sg ds where *: "str = sg @ ds" "sg = [] \<or> sg = [0x2B] \<or> sg = [0x2D]" "ds \<noteq> []" "\<forall>d \<in> set ds. digitp r d"
      "v = (if sg = [0x2D] then - digits_value r ds else digits_value r ds)"
    unfolding int_notation_def by blast
  from *(2) show "?a \<or> ?b \<or> ?c" using * by (elim disjE) simp_all
next
  assume "?a \<or> ?b \<or> ?c"
  then consider (a) ?a | (b) ?b | (c) ?c by blast
  then show ?l
  proof cases
    case a
    then show ?thesis unfolding int_notation_def by (intro exI [of _ "[]"] exI [of _ str]) simp
  next
    case b
    then obtain ds where "str = 0x2B # ds" "ds \<noteq> []" "\<forall>d \<in> set ds. digitp r d" "v = digits_value r ds" by blast
    then show ?thesis unfolding int_notation_def by (intro exI [of _ "[0x2B]"] exI [of _ ds]) simp
  next
    case c
    then obtain ds where "str = 0x2D # ds" "ds \<noteq> []" "\<forall>d \<in> set ds. digitp r d" "v = - digits_value r ds" by blast
    then show ?thesis unfolding int_notation_def by (intro exI [of _ "[0x2D]"] exI [of _ ds]) simp
  qed
qed

lemma notation_sign:
  assumes "VALID_RADIXP r"
  shows "int_notation r str v \<longleftrightarrow>
    (case strtol_sign str of (neg, ds) \<Rightarrow> ds \<noteq> [] \<and> (\<forall>d \<in> set ds. digitp r d) \<and>
       v = (if neg then - digits_value r ds else digits_value r ds))"
proof -
  have no_sign: "\<not> digitp r 0x2D" "\<not> digitp r 0x2B" using digitp_number_byte [OF _ assms] by blast+
  show ?thesis
  proof (cases str)
    case (Cons c s)
    consider (minus) "c = 0x2D" | (plus) "c = 0x2B" | (digit) "c \<noteq> 0x2D" "c \<noteq> 0x2B" by blast
    then show ?thesis
      unfolding int_notation_cases Cons using no_sign by cases simp_all
  qed (simp add: int_notation_cases)
qed

lemma notation_bytes: "int_notation r str v \<Longrightarrow> VALID_RADIXP r \<Longrightarrow> set str \<subseteq> set number_bytes"
  using digitp_number_byte(1) by (fastforce simp: int_notation_def number_bytes_def)

lemma fits_long: "fits v \<Longrightarrow> LONG_MIN \<le> v \<and> v \<le> LONG_MAX" "SCM_INT_MAX < LONG_MAX" "LONG_MIN < SCM_INT_MIN"
  by (auto simp: fits_def LONG_MIN_def LONG_MAX_def num_defs)

lemma scm_string2number_eq:
  assumes "VALID_RADIXP r"
  shows "if \<exists>v. int_notation r str v \<and> fits v
         then \<exists>v. int_notation r str v \<and> fits v \<and> scm_string2number str r = (v, False)
         else snd (scm_string2number str r)"
proof (cases "set str \<subseteq> set number_bytes")
  case False
  then have "dropWhile (\<lambda>b. b \<in> set number_bytes) str \<noteq> []" by (auto simp: dropWhile_eq_Nil_conv)
  then have "snd (scm_string2number str r)" by (simp add: scm_string2number_def)
  then show ?thesis using notation_bytes [OF _ assms] False by auto
next
  case True
  obtain neg ds where sg: "strtol_sign str = (neg, ds)" by (cases "strtol_sign str")
  have no_drop: "dropWhile (\<lambda>b. b \<in> set number_bytes) str = []" using True by (auto simp: dropWhile_eq_Nil_conv)
  let ?digits = "takeWhile (digitp r) ds" and ?rest = "dropWhile (digitp r) ds"
  let ?v = "if neg then - digits_value r ?digits else digits_value r ?digits"
  have tol: "strtol str r = (if ?digits = [] then (0, str, False)
      else if ?v > LONG_MAX then (LONG_MAX, ?rest, True)
      else if ?v < LONG_MIN then (LONG_MIN, ?rest, True) else (?v, ?rest, False))"
    using plain_strtol(1) [OF True] plain_strtol(2) [OF True, of r] by (simp add: strtol_def sg Let_def)
  have len: "length ds \<le> length str" using sg by (cases str) (auto split: if_splits)
  have short: "?rest \<noteq> str" if "?digits \<noteq> []"
  proof
    assume "?rest = str"
    moreover have "length ds = length ?digits + length ?rest" by (metis length_append takeWhile_dropWhile_id)
    ultimately show False using len that by (metis add_le_same_cancel2 le_zero_eq length_0_conv)
  qed
  have note_iff: "int_notation r str v \<longleftrightarrow> ?digits \<noteq> [] \<and> ?rest = [] \<and> v = ?v" for v
    unfolding notation_sign [OF assms] sg
    by (auto simp: dropWhile_eq_Nil_conv takeWhile_eq_all_conv [THEN iffD2])
  consider (none) "?digits = []" | (over) "?digits \<noteq> []" "?v > LONG_MAX" | (under) "?digits \<noteq> []" "?v < LONG_MIN"
    | (val) "?digits \<noteq> []" "LONG_MIN \<le> ?v" "?v \<le> LONG_MAX" by linarith
  then show ?thesis
  proof cases
    case none
    then show ?thesis using tol note_iff by (simp add: scm_string2number_def no_drop)
  next
    case over
    then have "snd (scm_string2number str r)" using tol short by (simp add: scm_string2number_def no_drop)
    then show ?thesis using note_iff over fits_long(1) [of ?v] by (auto simp del: if_split_asm)
  next
    case under
    then have "snd (scm_string2number str r)"
      using tol short fits_long(2,3) by (auto simp: scm_string2number_def no_drop)
    then show ?thesis using note_iff under fits_long(1) [of ?v] by auto
  next
    case val
    then have "scm_string2number str r = (if fits ?v then (?v, ?rest \<noteq> []) else (0, True))"
      using tol short by (simp add: scm_string2number_def no_drop fits_def)
    then show ?thesis using note_iff val by auto
  qed
qed


lemma scm_string2number_iff:
  assumes "VALID_RADIXP r"
  shows "scm_string2number str r = (v, False) \<longleftrightarrow> int_notation r str v \<and> fits v"
proof -
  have uniq: "v = w" if "int_notation r str v" "int_notation r str w" for v w
    using that notation_sign [OF assms, of str] by (auto split: prod.splits)
  show ?thesis
  proof (cases "\<exists>v. int_notation r str v \<and> fits v")
    case True
    then obtain w where "int_notation r str w" "fits w" "scm_string2number str r = (w, False)"
      using scm_string2number_eq [OF assms, of str] by auto
    then show ?thesis using uniq by auto
  next
    case False
    then have "snd (scm_string2number str r)" using False scm_string2number_eq [OF assms, of str] by simp
    then show ?thesis using False by auto
  qed
qed

section \<open>Printed numbers parse\<close>

lemma digit_of_props:
  assumes "d < 16"
  shows "digit_value (digit_of d) = int d" "digit_of d \<noteq> 0"
proof -
  have "list_all (\<lambda>d. digit_value (digit_of d) = int d \<and> digit_of d \<noteq> 0) [0..<16]" by code_simp
  then show "digit_value (digit_of d) = int d" "digit_of d \<noteq> 0" using assms by (auto simp: list_all_iff)
qed

lemma digits_value_append: "digits_value r (xs @ [d]) = digits_value r xs * r + digit_value d"
  by (simp add: digits_value_def)

lemma nat_digits_props:
  assumes "2 \<le> b" "b \<le> 16"
  shows "digits_value (int b) (nat_digits b n) = int n \<and> (\<forall>d \<in> set (nat_digits b n). digitp (int b) d \<and> d \<noteq> 0)"
proof (induction n rule: less_induct)
  case (less n)
  show ?case
  proof (cases "n < b")
    case True
    then show ?thesis using assms digit_of_props [of n]
      by (subst (1 2) nat_digits.simps) (simp add: digits_value_def digitp_def)
  next
    case False
    then have eq: "nat_digits b n = nat_digits b (n div b) @ [digit_of (n mod b)]"
      using assms by (subst nat_digits.simps) simp
    have "n mod b < b" using assms by simp
    then have d: "digit_value (digit_of (n mod b)) = int (n mod b)" "digit_of (n mod b) \<noteq> 0" "n mod b < b"
      using assms digit_of_props [of "n mod b"] by linarith+
    have "n div b < n" using False assms by (intro div_less_dividend) auto
    note ih = less.IH [OF this]
    have "int (n div b) * int b + int (n mod b) = int n"
      using div_mult_mod_eq [of n b] by (metis of_nat_add of_nat_mult)
    then show ?thesis using ih d unfolding eq digits_value_append by (auto simp: digitp_def)
  qed
qed

lemma int_text_props:
  assumes "VALID_RADIXP r"
  shows "int_notation r (int_text r i) i" "0 \<notin> set (int_text r i)" "hd (int_text r i) \<noteq> 0x23"
proof -
  have r: "2 \<le> nat r" "nat r \<le> 16" "int (nat r) = r" using assms by (auto simp: VALID_RADIXP_def)
  note nd = nat_digits_props [OF r(1,2), of "nat \<bar>i\<bar>", unfolded r(3)]
  note ne = nat_digits_nonempty [of "nat r" "nat \<bar>i\<bar>"]
  show txt_ok: "int_notation r (int_text r i) i"
  proof (cases "i < 0")
    case True
    then show ?thesis using nd ne unfolding int_notation_cases int_text_def by simp
  next
    case False
    then show ?thesis using nd ne unfolding int_notation_cases int_text_def by simp
  qed
  show "0 \<notin> set (int_text r i)" using nd by (auto simp: int_text_def)
  have "hd (int_text r i) \<in> set number_bytes"
    using notation_bytes [OF txt_ok assms] ne by (intro subsetD [OF _ hd_in_set]) (auto simp: int_text_def)
  then show "hd (int_text r i) \<noteq> 0x23" by (rule number_bytes_plain(4))
qed

lemma scm_int2string_text:
  assumes "VALID_RADIXP r" "fits i"
  shows "scm_int2string SCM_VALUE_FORMAT_INIT (word_of_int i) r = Some (int_text r i)"
proof -
  have "sint (word_of_int i :: 64 word) = i"
    using assms(2) by (simp add: signed_of_int signed_take_bit_int_eq_self_iff fits_def num_defs)
  then show ?thesis
    using scm_int2string_eq [OF assms(1)] by (simp add: SCM_VALUE_FORMAT_INIT_def Let_def int_text_def)
qed

lemma prepare_radix_arg:
  assumes "chain h args [IntObj r] SCM_NULL" "VALID_RADIXP r"
  shows "prepare_radix h args = Some (Inr r)"
proof -
  have "args \<noteq> SCM_NULL" "CAR h args = IntObj r" "CDR h args = SCM_NULL" using assms(1) by (auto simp: has_pair_def)
  moreover have "c_int r = r" using assms(2) by (auto simp: c_int_def VALID_RADIXP_def)
  moreover have "scm_length h args = Some 1" using scm_length_chain [OF assms(1)] by simp
  ultimately show ?thesis using assms(2)
    by (simp add: prepare_radix_def ENSURE_PROPER_ARG_LIST_def check_def and_then_def ENSURE_NO_MORE_ARG_def
        NO_MORE_ARG_def ENSURE_INT_def SCM_LISTLEN_PROPERP_def)
qed

lemma prepare_radix_default: "prepare_radix h SCM_NULL = Some (Inr 10)"
  using scm_length_chain [of h SCM_NULL "[]" SCM_NULL]
  by (simp add: prepare_radix_def ENSURE_PROPER_ARG_LIST_def check_def SCM_LISTLEN_PROPERP_def)

text \<open>A prefix of any other value with the same low 32 bits is taken for the radix.\<close>

lemma prepare_radix_truncates:
  "chain h args [IntObj (2 ^ 32 + 10)] SCM_NULL \<Longrightarrow> prepare_radix h args = Some (Inr 10)"
proof -
  assume c: "chain h args [IntObj (2 ^ 32 + 10)] SCM_NULL"
  have "args \<noteq> SCM_NULL" "CAR h args = IntObj (2 ^ 32 + 10)" "CDR h args = SCM_NULL" using c by (auto simp: has_pair_def)
  moreover have "c_int (2 ^ 32 + 10) = 10" by (simp add: c_int_def)
  moreover have "scm_length h args = Some 1" using scm_length_chain [OF c] by simp
  ultimately show ?thesis
    by (simp add: prepare_radix_def ENSURE_PROPER_ARG_LIST_def check_def and_then_def ENSURE_NO_MORE_ARG_def
        NO_MORE_ARG_def ENSURE_INT_def SCM_LISTLEN_PROPERP_def VALID_RADIXP_def)
qed


section \<open>Properties\<close>

text \<open>C34: For every 64 bit word, every radix and every format the printer stays inside its buffer and gives the
  sign and the digits of the number, signed or unsigned, padded to the width: zeros go between sign and
  digits, any other padding before the sign.\<close>

theorem scm_int2string_correct:
  assumes "VALID_RADIXP r"
  shows "scm_int2string vfmt n r = Some
    (let i = (if signedp vfmt then sint n else uint n);
         sign = (if i < 0 then [0x2D] else []);
         digits = nat_digits (nat r) (nat \<bar>i\<bar>);
         padding = replicate (nat (width vfmt - int (length sign + length digits))) (pad vfmt)
     in if pad vfmt = 0x30 then sign @ padding @ digits else padding @ sign @ digits)"
  by (rule scm_int2string_eq [OF assms])

lemma scm_int2string_correct_witness:
  "scm_int2string \<lparr>width = 6, frac_width = -1, pad = 0x30, signedp = True\<rparr> (word_of_int (-255)) 16 =
     Some [0x2D, 0x30, 0x30, 0x30, 0x66, 0x66]"
proof -
  have "VALID_RADIXP 16" by (simp add: VALID_RADIXP_def)
  moreover have "sint (word_of_int (-255) :: 64 word) = -255" by simp
  moreover have "nat_digits 16 255 = [0x66, 0x66]"
    by (simp add: nat_digits.simps digit_of_def digit_char_def)
  ultimately show ?thesis
    using scm_int2string_correct [of 16 "\<lparr>width = 6, frac_width = -1, pad = 0x30, signedp = True\<rparr>" "word_of_int (-255)"]
    by (simp add: Let_def numeral_3_eq_3)
qed

text \<open>C33: \<^verbatim>\<open>string->number\<close> reads back what \<^verbatim>\<open>number->string\<close> wrote, for every fixnum in every radix with every
  codec; the text is the sign and the digits without leading zeros.\<close>

theorem number_string_roundtrip:
  assumes "codec \<in> set available_codecs" "fits i" "brk_ok h" "chain h args [IntObj r] SCM_NULL" "VALID_RADIXP r"
  shows "\<exists>p h'. scm_p_number2string codec h (IntObj i) args = Some (Inr (p, h')) \<and> heap_le h h' \<and>
    STRING_STR h' p = int_text r i \<and> scm_p_string2number h' p args = Some (Inr (IntObj i))"
proof -
  note tx = int_text_props [OF assms(5), of i]
  obtain n where n: "scm_mb_strlen codec (int_text r i) = Some n"
    using char_scanner.strlen_total [OF available_scanner [OF assms(1)]] by blast
  let ?c = "StringCell (int_text r i) (int n) True"
  let ?h = "snd (alloc h ?c)" and ?p = "Ptr PTAG_MISC (brk h)"
  have "alloc h ?c = (brk h, ?h)" by (simp add: alloc_def)
  note ext = alloc_extends [OF assms(3) this] and fr = alloc_fresh [OF assms(3) this]
  have le: "heap_le h ?h" using ext by simp
  have cell: "misc_cell ?h ?p = Some ?c" using fr by simp
  then have str: "STRINGP ?h ?p" "STRING_STR ?h ?p = int_text r i" by (simp_all add: STRING_STR_def)
  have "scm_p_number2string codec h (IntObj i) args = Some (Inr (?p, ?h))"
    using prepare_radix_arg [OF assms(4,5)] scm_int2string_text [OF assms(5,2)] c_str_clean [OF tx(2)] n
    by (simp add: scm_p_number2string_def check_def ENSURE_INT_def scm_make_string_def scm_make_string_internal_def
        scm_mb_bare_c_strlen_def alloc_ptr_def alloc_def)
  moreover have "scm_parse_number (int_text r i) r = IntObj i"
  proof -
    have "scm_string2number (int_text r i) r = (i, False)"
      using tx(1) assms(2) scm_string2number_iff [OF assms(5)] by blast
    then show ?thesis using tx(3)
      by (cases "(int_text r i, r, False, 0 :: byte)" rule: parse_number_loop.cases)
        (simp_all add: scm_parse_number_def parse_number_end_def)
  qed
  moreover have "chain ?h args [IntObj r] SCM_NULL" using chain_le [OF assms(4) le] by simp
  ultimately show ?thesis
    using le str prepare_radix_arg [OF _ assms(5)]
    by (intro exI [of _ ?p] exI [of _ ?h]) (simp add: scm_p_string2number_def check_def ENSURE_STRING_def)
qed

lemma number_string_roundtrip_witness:
  "\<exists>p h'. scm_p_number2string utf8_codec_vtbl (int_list_heap [16]) (IntObj (-255)) (Ptr PTAG_CONS 0) = Some (Inr (p, h')) \<and>
     scm_p_string2number h' p (Ptr PTAG_CONS 0) = Some (Inr (IntObj (-255)))"
proof -
  have "utf8_codec_vtbl \<in> set available_codecs" by (simp add: available_codecs_def)
  moreover have "fits (-255)" by (simp add: fits_bounds)
  moreover have "brk_ok (int_list_heap [16])" by (simp add: int_list_heap_def brk_ok_def)
  moreover have "chain (int_list_heap [16]) (Ptr PTAG_CONS 0) [IntObj 16] SCM_NULL"
    by (simp add: int_list_heap_def has_pair_def)
  moreover have "VALID_RADIXP 16" by (simp add: VALID_RADIXP_def)
  ultimately show ?thesis using number_string_roundtrip by blast
qed

definition radix_mark :: "byte \<Rightarrow> int option" where
  "radix_mark c = map_of [(0x62, 2), (0x42, 2), (0x6F, 8), (0x4F, 8), (0x64, 10), (0x44, 10), (0x78, 16), (0x58, 16)] c"

definition exactness_mark :: "byte \<Rightarrow> bool" where
  "exactness_mark c \<longleftrightarrow> c \<in> {0x65, 0x45, 0x69, 0x49}"

definition inexact_mark :: "byte \<Rightarrow> bool" where
  "inexact_mark c \<longleftrightarrow> c \<in> {0x69, 0x49}"

definition marks_ok :: "byte list \<Rightarrow> bool" where
  "marks_ok ps \<longleftrightarrow> (\<forall>p \<in> set ps. radix_mark p \<noteq> None \<or> exactness_mark p) \<and> (\<forall>p \<in> set ps. \<not> inexact_mark p) \<and>
     length (filter (\<lambda>p. radix_mark p \<noteq> None) ps) \<le> 1 \<and> length (filter exactness_mark ps) \<le> 1"

definition marks_radix :: "byte list \<Rightarrow> int \<Rightarrow> int" where
  "marks_radix ps r = (case List.map_filter radix_mark ps of [] \<Rightarrow> r | q # _ \<Rightarrow> q)"

definition mark_prefix :: "byte list \<Rightarrow> byte list" where
  "mark_prefix ps = concat (map (\<lambda>p. [0x23, p]) ps)"


text \<open>The loop over the prefixes, from any state it can be in.\<close>

lemma radix_mark_cases:
  assumes "radix_mark p = Some q"
  shows "VALID_RADIXP q" "\<not> exactness_mark p" "\<not> inexact_mark p"
    "parse_number_loop (0x23 # p # str) r rp ex = (if rp then SCM_FALSE else parse_number_loop str q True ex)"
  using assms
  by (auto simp: radix_mark_def VALID_RADIXP_def exactness_mark_def inexact_mark_def split: if_splits)

lemma exactness_mark_cases:
  assumes "exactness_mark p"
  shows "radix_mark p = None"
    "parse_number_loop (0x23 # p # str) r rp ex =
       (if ex \<noteq> 0 then SCM_FALSE else parse_number_loop str r rp (if inexact_mark p then 0x69 else 0x65))"
  using assms
  by (auto simp: radix_mark_def exactness_mark_def inexact_mark_def ICHAR_DOWNCASE_byte_def word_le_def split: if_splits)

lemma no_mark_cases:
  assumes "radix_mark p = None" "\<not> exactness_mark p"
  shows "parse_number_loop (0x23 # p # str) r rp ex = SCM_FALSE"
  using assms by (auto simp: radix_mark_def exactness_mark_def split: if_splits)

lemma parse_end_iff:
  assumes "VALID_RADIXP r"
  shows "parse_number_end str r ex = IntObj v \<longleftrightarrow> ex \<noteq> 0x69 \<and> int_notation r str v \<and> fits v"
    "parse_number_end str r ex = SCM_FALSE \<or> (\<exists>v. parse_number_end str r ex = IntObj v)"
  using scm_string2number_iff [OF assms, of str v]
  by (auto simp: parse_number_end_def split: prod.splits)

lemma parse_loop_end:
  assumes "str = [] \<or> hd str \<noteq> 0x23"
  shows "parse_number_loop str r rp ex = parse_number_end str r ex"
  using assms by (cases "(str, r, rp, ex)" rule: parse_number_loop.cases) auto

lemma mark_prefix_simps: "mark_prefix [] = []" "mark_prefix (p # ps) = 0x23 # p # mark_prefix ps"
  by (simp_all add: mark_prefix_def)

definition marks_ok_from :: "bool \<Rightarrow> byte \<Rightarrow> byte list \<Rightarrow> bool" where
  "marks_ok_from rp ex ps \<longleftrightarrow> (\<forall>p \<in> set ps. radix_mark p \<noteq> None \<or> exactness_mark p) \<and>
     (\<forall>p \<in> set ps. \<not> inexact_mark p) \<and> ex \<noteq> 0x69 \<and>
     (if rp then 1 else 0) + length (filter (\<lambda>p. radix_mark p \<noteq> None) ps) \<le> 1 \<and>
     (if ex \<noteq> 0 then 1 else 0) + length (filter exactness_mark ps) \<le> 1"

lemma marks_ok_from_simps:
  "radix_mark p = Some q \<Longrightarrow> marks_ok_from rp ex (p # ps) \<longleftrightarrow> \<not> rp \<and> marks_ok_from True ex ps"
  "exactness_mark p \<Longrightarrow> marks_ok_from rp ex (p # ps) \<longleftrightarrow> ex = 0 \<and> marks_ok_from rp (if inexact_mark p then 0x69 else 0x65) ps"
  "radix_mark p = None \<Longrightarrow> \<not> exactness_mark p \<Longrightarrow> \<not> marks_ok_from rp ex (p # ps)"
  "marks_ok_from rp ex [] \<longleftrightarrow> ex \<noteq> 0x69"
  using radix_mark_cases(2,3) [of p q] exactness_mark_cases(1) [of p]
  by (auto simp: marks_ok_from_def)

lemma marks_radix_simps:
  "radix_mark p = Some q \<Longrightarrow> marks_radix (p # ps) r = q"
  "radix_mark p = None \<Longrightarrow> marks_radix (p # ps) r = marks_radix ps r"
  by (simp_all add: marks_radix_def List.map_filter_simps)

lemma marks_radix_used: "marks_ok_from True ex ps \<Longrightarrow> marks_radix ps q = q"
proof -
  assume "marks_ok_from True ex ps"
  then have "filter (\<lambda>p. radix_mark p \<noteq> None) ps = []" by (simp add: marks_ok_from_def)
  then show ?thesis by (simp add: marks_radix_def List.map_filter_def)
qed

lemma parse_loop_marks:
  assumes "str = [] \<or> hd str \<noteq> 0x23" "VALID_RADIXP r"
  shows "(parse_number_loop (mark_prefix ps @ str) r rp ex = IntObj v \<longleftrightarrow>
      marks_ok_from rp ex ps \<and> int_notation (marks_radix ps r) str v \<and> fits v) \<and>
    (parse_number_loop (mark_prefix ps @ str) r rp ex = SCM_FALSE \<or>
      (\<exists>v. parse_number_loop (mark_prefix ps @ str) r rp ex = IntObj v))"
  using assms(2)
proof (induction ps arbitrary: r rp ex)
  case Nil
  then show ?case
    using parse_end_iff [OF Nil, of str ex] parse_loop_end [OF assms(1), of r rp ex]
    by (simp add: mark_prefix_simps marks_ok_from_simps marks_radix_def List.map_filter_simps)
next
  case (Cons p ps)
  consider (radix) q where "radix_mark p = Some q" | (exact) "exactness_mark p"
    | (none) "radix_mark p = None" "\<not> exactness_mark p" by (cases "radix_mark p") auto
  then show ?case
  proof cases
    case radix
    then show ?thesis
      using Cons.IH [OF radix_mark_cases(1) [OF radix], of True ex] marks_radix_used [of ex ps q]
      by (auto simp: mark_prefix_simps radix_mark_cases(4) [OF radix] marks_ok_from_simps(1) [OF radix] marks_radix_simps(1) [OF radix]
          simp del: parse_number_loop.simps)
  next
    case exact
    then show ?thesis
      using Cons.IH [OF Cons.prems, of rp "if inexact_mark p then 0x69 else 0x65"]
      by (auto simp: mark_prefix_simps exactness_mark_cases(2) [OF exact] marks_ok_from_simps(2) [OF exact]
          marks_radix_simps(2) [OF exactness_mark_cases(1) [OF exact]] simp del: parse_number_loop.simps)
  next
    case none
    then show ?thesis
      by (simp add: mark_prefix_simps no_mark_cases [OF none] marks_ok_from_simps(3) [OF none] del: parse_number_loop.simps)
  qed
qed

text \<open>C35: The number parser accepts exactly the notation: any prefixes of at most one radix and at most one
  exactness mark, none of them inexact, an optional sign, digits of the last radix, and a value in the
  fixnum range, which it returns; everything else is \<^verbatim>\<open>#f\<close>.\<close>

theorem scm_parse_number_correct:
  assumes "VALID_RADIXP r" "str = [] \<or> hd str \<noteq> 0x23"
  shows "(scm_parse_number (mark_prefix ps @ str) r = IntObj v \<longleftrightarrow>
      marks_ok ps \<and> int_notation (marks_radix ps r) str v \<and> fits v) \<and>
    (scm_parse_number (mark_prefix ps @ str) r = SCM_FALSE \<or>
      (\<exists>v. scm_parse_number (mark_prefix ps @ str) r = IntObj v))"
proof -
  have "marks_ok_from False 0 ps = marks_ok ps" by (simp add: marks_ok_from_def marks_ok_def)
  then show ?thesis
    using parse_loop_marks [OF assms(2,1), of ps False 0 v] by (simp only: scm_parse_number_def)
qed

text \<open>\<^verbatim>\<open>#x-ff\<close> with the default radix.\<close>

lemma scm_parse_number_correct_witness:
  "scm_parse_number [0x23, 0x78, 0x2D, 0x66, 0x66] 10 = IntObj (-255)"
proof -
  have "marks_ok [0x78]" by (simp add: marks_ok_def radix_mark_def inexact_mark_def exactness_mark_def)
  moreover have "marks_radix [0x78] 10 = 16" by (simp add: marks_radix_def List.map_filter_simps radix_mark_def)
  moreover have "int_notation 16 [0x2D, 0x66, 0x66] (-255)"
    by (simp add: int_notation_cases digitp_def digit_value_def digits_value_def word_le_def)
  moreover have "fits (-255)" by (simp add: fits_bounds)
  moreover have "VALID_RADIXP 10" by (simp add: VALID_RADIXP_def)
  ultimately show ?thesis
    using scm_parse_number_correct [of 10 "[0x2D, 0x66, 0x66]" "[0x78]" "-255"] by (simp add: mark_prefix_def)
qed

end
