(* ===== verification/Env.thy ===== *)
theory Env
  imports Lists "HOL-Library.AList"
begin

text \<open>
  Environments: \<^verbatim>\<open>src/env.c\<close> in the configuration with hygienic macros and without libraries.

  An environment is a list of frames that ends in the top level, the empty list. A frame is a pair of
  the list of formals and the list of actuals; a dotted end of the formals is bound to the rest of the
  actuals. A lookup gives the place of the value: the car of a cell of the actuals, or for a dotted end
  the cdr of the cell before it. \<^verbatim>\<open>SCM_INVALID_REF\<close> is \<open>None\<close> of the type \<open>ref option\<close>; the outer
  \<open>option\<close> is \<open>None\<close> where a loop of the source does not end or a packed depth is negative.

  \<open>env_rep\<close> relates an environment to the list of its frames' bindings, with the addresses that are
  only read (formals, spine) and those that are written (frames, actuals). The operations are shown to
  be the operations on lists of bindings.
\<close>

section \<open>Frames and lookup\<close>

fun SYMBOL_VCELL :: "heap \<Rightarrow> obj \<Rightarrow> obj" where
  "SYMBOL_VCELL h x = (case misc_cell h x of Some (SymbolCell v _) \<Rightarrow> v | _ \<Rightarrow> SCM_INVALID)"

fun SYMBOL_SET_VCELL :: "heap \<Rightarrow> obj \<Rightarrow> obj \<Rightarrow> heap" where
  "SYMBOL_SET_VCELL h (Ptr PTAG_MISC a) v =
     (case mem h a of Some (SymbolCell _ name) \<Rightarrow> h\<lparr>mem := (mem h)(a \<mapsto> SymbolCell v name)\<rparr> | _ \<Rightarrow> h)"
| "SYMBOL_SET_VCELL h _ v = h"

definition macro_bad_scope :: "obj \<Rightarrow> scm_error" where
  "macro_bad_scope x = ErrObj ''Identifier found in wrong context'' x"

definition ENVP :: "obj \<Rightarrow> bool" where "ENVP env \<longleftrightarrow> NULLP env \<or> CONSP env"

definition scm_toplevel_environmentp :: "obj \<Rightarrow> bool" where
  "scm_toplevel_environmentp env \<longleftrightarrow> NULLP env"

partial_function (option) scm_env_toplevel :: "heap \<Rightarrow> obj \<Rightarrow> obj option" where
  "scm_env_toplevel h env = (if CONSP env then scm_env_toplevel h (CDR h env) else Some env)"

definition identifier_toplevel :: "heap \<Rightarrow> obj \<Rightarrow> obj \<Rightarrow> obj option" where
  "identifier_toplevel h ident env = scm_env_toplevel h env"

partial_function (option) env_depth_loop :: "heap \<Rightarrow> obj \<Rightarrow> int \<Rightarrow> int option" where
  "env_depth_loop h env depth = (if CONSP env then env_depth_loop h (CDR h env) (depth + 1) else Some depth)"

definition env_depth :: "heap \<Rightarrow> obj \<Rightarrow> int option" where
  "env_depth h env = env_depth_loop h env 0"

definition scm_pack_env :: "heap \<Rightarrow> obj \<Rightarrow> int option" where
  "scm_pack_env h env = env_depth h env"

text \<open>\<open>drop_frames n\<close> is \<open>n\<close> steps of the loops that go to the outer frames.\<close>

fun drop_frames :: "nat \<Rightarrow> heap \<Rightarrow> obj \<Rightarrow> obj" where
  "drop_frames 0 h env = env"
| "drop_frames (Suc n) h env = drop_frames n h (CDR h env)"

definition scm_unpack_env :: "heap \<Rightarrow> int \<Rightarrow> obj \<Rightarrow> obj option" where
  "scm_unpack_env h packed context =
     map_option (\<lambda>depth. drop_frames (nat (depth - packed)) h context) (env_depth h context)"

partial_function (option) lookup_frame_loop :: "heap \<Rightarrow> obj \<Rightarrow> obj \<Rightarrow> ref \<Rightarrow> ref option option" where
  "lookup_frame_loop h var formals actuals =
     (if CONSP formals then
        (if var = CAR h formals then Some (Some (REF_CAR (DEREF h SCM_INVALID actuals)))
         else lookup_frame_loop h var (CDR h formals) (REF_CDR (DEREF h SCM_INVALID actuals)))
      else if var = formals then Some (Some actuals) else Some None)"

definition scm_lookup_frame :: "heap \<Rightarrow> obj \<Rightarrow> obj \<Rightarrow> ref option option" where
  "scm_lookup_frame h var frame = lookup_frame_loop h var (CAR h frame) (REF_CDR frame)"

partial_function (option) lookup_frames :: "heap \<Rightarrow> obj \<Rightarrow> obj \<Rightarrow> ref option option" where
  "lookup_frames h var env =
     (if CONSP env then
        (case scm_lookup_frame h var (CAR h env) of
           None \<Rightarrow> None
         | Some (Some r) \<Rightarrow> Some (Some r)
         | Some None \<Rightarrow> lookup_frames h var (CDR h env))
      else Some None)"

fun lookup_n_frames_loop :: "heap \<Rightarrow> obj \<Rightarrow> nat \<Rightarrow> obj \<Rightarrow> ref option option" where
  "lookup_n_frames_loop h ident 0 env = Some None"
| "lookup_n_frames_loop h ident (Suc n) env =
     (case scm_lookup_frame h ident (CAR h env) of
        None \<Rightarrow> None
      | Some (Some r) \<Rightarrow> Some (Some r)
      | Some None \<Rightarrow> lookup_n_frames_loop h ident n (CDR h env))"

text \<open>\<^verbatim>\<open>while (n--)\<close> runs off the environment for a negative number of frames.\<close>

definition lookup_n_frames :: "heap \<Rightarrow> obj \<Rightarrow> int \<Rightarrow> obj \<Rightarrow> ref option option" where
  "lookup_n_frames h ident n env = (if n < 0 then None else lookup_n_frames_loop h ident (nat n) env)"

definition lookup_far_symbol :: "heap \<Rightarrow> obj \<Rightarrow> obj \<Rightarrow> ref option res option" where
  "lookup_far_symbol h var env =
     Option.bind (env_depth h env) (\<lambda>depth.
       let id_depth = SCM_FARSYMBOL_ENV h var in
       if id_depth > depth then Some (Inl (macro_bad_scope var))
       else map_option Inr (lookup_n_frames h (SCM_FARSYMBOL_SYM h var) id_depth
              (drop_frames (nat (depth - id_depth)) h env)))"

definition scm_lookup_environment :: "heap \<Rightarrow> obj \<Rightarrow> obj \<Rightarrow> ref option res option" where
  "scm_lookup_environment h var env =
     Option.bind (lookup_frames h var env) (\<lambda>ref.
       if ref = None \<and> FARSYMBOLP h var then lookup_far_symbol h var env else Some (Inr ref))"

definition scm_symbol_value :: "heap \<Rightarrow> obj \<Rightarrow> obj \<Rightarrow> obj res option" where
  "scm_symbol_value h var env =
     run_then
       (if FARSYMBOLP h var then
          run_then (scm_lookup_environment h var env) (\<lambda>ref.
            Option.bind (if ref = None then identifier_toplevel h var env else Some SCM_INVALID) (\<lambda>_.
              Some (Inr (ref, SCM_FARSYMBOL_SYM h var))))
        else map_option (\<lambda>ref. Inr (ref, var)) (lookup_frames h var env))
       (\<lambda>(ref, var).
          let val = (case ref of Some r \<Rightarrow> DEREF h SCM_INVALID r | None \<Rightarrow> SYMBOL_VCELL h var)
          in if val = SCM_UNBOUND then Some (Inl (ErrObj ''unbound variable'' var)) else Some (Inr val))"

section \<open>Hygiene\<close>

partial_function (option) unwrap_farsymbol :: "heap \<Rightarrow> obj \<Rightarrow> obj option" where
  "unwrap_farsymbol h x =
     (let x = SCM_FARSYMBOL_SYM h x in if FARSYMBOLP h x then unwrap_farsymbol h x else Some x)"

definition scm_unwrap_keyword :: "heap \<Rightarrow> obj \<Rightarrow> obj option" where
  "scm_unwrap_keyword h x = (if FARSYMBOLP h x then unwrap_farsymbol h x else Some x)"

text \<open>The first loop of \<^verbatim>\<open>scm_identifierequalp\<close>: \<open>None\<close> inside when a frame in between binds \<open>y\<close>.\<close>

fun between_frames :: "heap \<Rightarrow> obj \<Rightarrow> nat \<Rightarrow> obj \<Rightarrow> obj option option" where
  "between_frames h y 0 env = Some (Some env)"
| "between_frames h y (Suc n) env =
     (case scm_lookup_frame h y (CAR h env) of
        None \<Rightarrow> None
      | Some (Some _) \<Rightarrow> Some None
      | Some None \<Rightarrow> between_frames h y n (CDR h env))"

definition scm_identifierequalp :: "heap \<Rightarrow> obj \<Rightarrow> int \<Rightarrow> obj \<Rightarrow> int \<Rightarrow> obj \<Rightarrow> bool res option" where
  "scm_identifierequalp h x xpenv y penv env =
     Option.bind (between_frames h y (nat (penv - xpenv)) env) (\<lambda>e. case e of
         None \<Rightarrow> Some (Inr False)
       | Some env \<Rightarrow>
           if x = y then Some (Inr True)
           else run_then (scm_lookup_environment h y env) (\<lambda>yloc.
             if yloc \<noteq> None then
               run_then (scm_lookup_environment h x env) (\<lambda>xloc. Some (Inr (xloc = yloc)))
             else run_then (scm_lookup_environment h x env) (\<lambda>xloc.
               if xloc \<noteq> None then Some (Inr False)
               else Option.bind (scm_unwrap_keyword h x) (\<lambda>kx. Option.bind (scm_unwrap_keyword h y) (\<lambda>ky.
                 Some (Inr (kx = ky)))))))"

definition scm_wrap_identifier :: "heap \<Rightarrow> obj \<Rightarrow> int \<Rightarrow> obj \<Rightarrow> (obj \<times> heap) res option" where
  "scm_wrap_identifier h ident depth env =
     (if FARSYMBOLP h ident then
        let id_depth = SCM_FARSYMBOL_ENV h ident in
        if id_depth < 0 then Some (Inr (ident, h))
        else Option.bind (lookup_n_frames h ident (depth - id_depth) env) (\<lambda>ref.
          if ref = None then Some (scm_make_farsymbol h (SCM_FARSYMBOL_SYM h ident) id_depth)
          else Some (scm_make_farsymbol h ident depth))
      else Some (scm_make_farsymbol h ident depth))"

section \<open>Extension and update\<close>

definition scm_extend_environment :: "heap \<Rightarrow> obj \<Rightarrow> obj \<Rightarrow> obj \<Rightarrow> obj \<times> heap" where
  "scm_extend_environment h formals actuals env =
     (let (frame, h) = scm_make_cons h formals actuals in scm_make_cons h frame env)"

definition scm_replace_environment :: "heap \<Rightarrow> obj \<Rightarrow> obj \<Rightarrow> obj \<Rightarrow> obj \<times> heap" where
  "scm_replace_environment h formals actuals env =
     (let frame = CAR h env; h = SET_CAR h frame formals; h = SET_CDR h frame actuals in (env, h))"

definition scm_update_environment :: "heap \<Rightarrow> obj \<Rightarrow> obj \<Rightarrow> obj \<times> heap" where
  "scm_update_environment h actuals env = (let frame = CAR h env in (env, SET_CDR h frame actuals))"

text \<open>\<open>None\<close> is \<^verbatim>\<open>SCM_NOTREACHED\<close>.\<close>

definition scm_add_environment :: "heap \<Rightarrow> obj \<Rightarrow> obj \<Rightarrow> obj \<Rightarrow> (obj \<times> heap) option" where
  "scm_add_environment h var val env =
     (if scm_toplevel_environmentp env then
        let (vars, h) = scm_make_cons h var SCM_NULL; (vals, h) = scm_make_cons h val SCM_NULL;
            (frame, h) = scm_make_cons h vars vals
        in Some (scm_make_cons h frame env)
      else if CONSP env then
        let frame = CAR h env;
            (formals, h) = scm_make_cons h var (CAR h frame);
            (actuals, h) = scm_make_cons h val (CDR h frame);
            h = SET_CAR h frame formals
        in Some (env, SET_CDR h frame actuals)
      else None)"

section \<open>Validation\<close>

definition TRUSTED_ENVP :: "obj \<Rightarrow> bool" where "TRUSTED_ENVP env \<longleftrightarrow> env = SCM_NULL"

partial_function (option) validate_formals_loop :: "heap \<Rightarrow> obj \<Rightarrow> int \<Rightarrow> int option" where
  "validate_formals_loop h formals len =
     (if CONSP formals then
        (if \<not> IDENTIFIERP h (CAR h formals) then Some (SCM_LISTLEN_ENCODE_ERROR len)
         else validate_formals_loop h (CDR h formals) (len + 1))
      else Some (if NULLP formals then len
                 else if IDENTIFIERP h formals then SCM_LISTLEN_ENCODE_DOTTED len
                 else SCM_LISTLEN_ENCODE_ERROR len))"

definition scm_validate_formals :: "heap \<Rightarrow> obj \<Rightarrow> int option" where
  "scm_validate_formals h formals = validate_formals_loop h formals 0"

definition scm_validate_actuals :: "heap \<Rightarrow> obj \<Rightarrow> int option" where
  "scm_validate_actuals h actuals = map_option (\<lambda>len.
     if SCM_LISTLEN_DOTTEDP len then SCM_LISTLEN_ENCODE_ERROR len else len) (scm_length h actuals)"

definition scm_valid_environment_extension_lengthp :: "int \<Rightarrow> int \<Rightarrow> bool" where
  "scm_valid_environment_extension_lengthp formals_len actuals_len =
     (if SCM_LISTLEN_ERRORP formals_len then False
      else if SCM_LISTLEN_DOTTEDP formals_len then
        let formals_len = SCM_LISTLEN_DOTTED formals_len in
        if SCM_LISTLEN_PROPERP actuals_len then formals_len \<le> actuals_len
        else if SCM_LISTLEN_DOTTEDP actuals_len then formals_len \<le> SCM_LISTLEN_DOTTED actuals_len
        else if SCM_LISTLEN_CIRCULARP actuals_len then True
        else formals_len = actuals_len
      else formals_len = actuals_len)"

definition scm_valid_environment_extensionp :: "heap \<Rightarrow> obj \<Rightarrow> obj \<Rightarrow> bool option" where
  "scm_valid_environment_extensionp h formals actuals =
     Option.bind (scm_validate_formals h formals) (\<lambda>formals_len.
       Option.bind (scm_validate_actuals h actuals) (\<lambda>actuals_len.
         Some (scm_valid_environment_extension_lengthp formals_len actuals_len)))"

definition valid_framep :: "heap \<Rightarrow> obj \<Rightarrow> bool option" where
  "valid_framep h frame =
     (if CONSP frame then scm_valid_environment_extensionp h (CAR h frame) (CDR h frame) else Some False)"

partial_function (option) valid_environment_loop :: "heap \<Rightarrow> obj \<Rightarrow> bool option" where
  "valid_environment_loop h rest =
     (if CONSP rest then
        (case valid_framep h (CAR h rest) of
           None \<Rightarrow> None
         | Some ok \<Rightarrow> if ok then valid_environment_loop h (CDR h rest) else Some False)
      else Some (scm_toplevel_environmentp rest))"

definition scm_valid_environmentp :: "heap \<Rightarrow> obj \<Rightarrow> bool option" where
  "scm_valid_environmentp h env = (if TRUSTED_ENVP env then Some True else valid_environment_loop h env)"

section \<open>The top level\<close>

definition UNWRAP_IDENTIFIER :: "heap \<Rightarrow> obj \<Rightarrow> obj option" where
  "UNWRAP_IDENTIFIER h ident = (if FARSYMBOLP h ident then scm_unwrap_keyword h ident else Some ident)"

definition scm_toplevel_value :: "heap \<Rightarrow> obj \<Rightarrow> obj \<Rightarrow> obj option" where
  "scm_toplevel_value h ident env = map_option (SYMBOL_VCELL h) (UNWRAP_IDENTIFIER h ident)"

definition scm_set_toplevel :: "heap \<Rightarrow> obj \<Rightarrow> obj \<Rightarrow> obj \<Rightarrow> heap option" where
  "scm_set_toplevel h ident val env = map_option (\<lambda>sym. SYMBOL_SET_VCELL h sym val) (UNWRAP_IDENTIFIER h ident)"

definition scm_define_toplevel :: "heap \<Rightarrow> obj \<Rightarrow> obj \<Rightarrow> obj \<Rightarrow> heap" where
  "scm_define_toplevel h var val env = SYMBOL_SET_VCELL h var val"


section \<open>Bindings of a frame and of an environment\<close>

inductive frame_bindings :: "heap \<Rightarrow> obj \<Rightarrow> obj \<Rightarrow> (obj \<times> obj) list \<Rightarrow> nat set \<Rightarrow> nat list \<Rightarrow> bool"
  for h :: heap where
  fb_nil: "frame_bindings h SCM_NULL SCM_NULL [] {} []"
| fb_rest: "IDENTIFIERP h f \<Longrightarrow> frame_bindings h f a [(f, a)] {} []"
| fb_cons: "mem h p = Some (PairCell var f) \<Longrightarrow> mem h q = Some (PairCell val a) \<Longrightarrow> IDENTIFIERP h var \<Longrightarrow>
    frame_bindings h f a bs R W \<Longrightarrow>
    frame_bindings h (Ptr PTAG_CONS p) (Ptr PTAG_CONS q) ((var, val) # bs) (insert p R) (q # W)"

inductive env_rep :: "heap \<Rightarrow> obj \<Rightarrow> (obj \<times> obj) list list \<Rightarrow> nat set \<Rightarrow> nat list \<Rightarrow> bool"
  for h :: heap where
  env_nil: "env_rep h SCM_NULL [] {} []"
| env_cons: "mem h e = Some (PairCell (Ptr PTAG_CONS fr) env) \<Longrightarrow> mem h fr = Some (PairCell f a) \<Longrightarrow>
    frame_bindings h f a bs R1 W1 \<Longrightarrow> env_rep h env bss R2 W2 \<Longrightarrow>
    env_rep h (Ptr PTAG_CONS e) (bs # bss) (insert e (R1 \<union> R2)) (fr # W1 @ W2)"

inductive_cases env_repE: "env_rep h (Ptr PTAG_CONS e) bss R W"
inductive_cases env_rep_consE: "env_rep h env (bs # bss) R W"

definition env_at :: "heap \<Rightarrow> obj \<Rightarrow> (obj \<times> obj) list list \<Rightarrow> nat set \<Rightarrow> nat list \<Rightarrow> bool" where
  "env_at h env bss R W \<longleftrightarrow> env_rep h env bss R W \<and> distinct W \<and> set W \<inter> R = {}"

lemma identifier_not_pair: "IDENTIFIERP h x \<Longrightarrow> \<not> CONSP x \<and> x \<noteq> SCM_NULL"
  by (cases x rule: CONSP.cases) (auto simp: IDENTIFIERP_def)

fun ref_cell :: "ref \<Rightarrow> nat option" where
  "ref_cell RefOffHeap = None"
| "ref_cell (RefCar a) = Some a"
| "ref_cell (RefCdr a) = Some a"

text \<open>The place of the first binding of a variable; \<open>s\<close> is the slot that holds the actuals.\<close>

fun binding_ref :: "ref \<Rightarrow> nat list \<Rightarrow> (obj \<times> obj) list \<Rightarrow> obj \<Rightarrow> ref option" where
  "binding_ref s W [] var = None"
| "binding_ref s [] ((v, x) # bs) var = (if v = var then Some s else None)"
| "binding_ref s (q # W) ((v, x) # bs) var = (if v = var then Some (RefCar q) else binding_ref (RefCdr q) W bs var)"

lemma lookup_frame_loop_eq:
  assumes "frame_bindings h f a bs R W" "IDENTIFIERP h var" "DEREF h SCM_INVALID s = a"
  shows "lookup_frame_loop h var f s = Some (binding_ref s W bs var)"
  using assms
proof (induction arbitrary: s rule: frame_bindings.induct)
  case fb_nil
  then show ?case using identifier_not_pair [of h var] by (subst lookup_frame_loop.simps) auto
next
  case (fb_rest f a)
  then show ?case using identifier_not_pair [of h f] by (subst lookup_frame_loop.simps) auto
next
  case (fb_cons p v f q val a bs R W)
  then show ?case by (subst lookup_frame_loop.simps) auto
qed

lemma binding_ref_value:
  assumes "frame_bindings h f a bs R W" "DEREF h SCM_INVALID s = a"
  shows "map_option (DEREF h SCM_INVALID) (binding_ref s W bs var) = map_of bs var"
  using assms by (induction arbitrary: s rule: frame_bindings.induct) auto

lemma binding_ref_cell:
  assumes "binding_ref s W bs var = Some r"
  shows "r = s \<or> (\<exists>q \<in> set W. ref_cell r = Some q)"
  using assms by (induction s W bs var rule: binding_ref.induct) (auto split: if_splits)

lemma scm_lookup_frame_eq:
  assumes "mem h fr = Some (PairCell f a)" "frame_bindings h f a bs R W" "IDENTIFIERP h var"
  shows "scm_lookup_frame h var (Ptr PTAG_CONS fr) = Some (binding_ref (RefCdr fr) W bs var)"
  using lookup_frame_loop_eq [OF assms(2,3), of "RefCdr fr"] assms(1) by (simp add: scm_lookup_frame_def)

text \<open>The same for an environment, whose writable cells are grouped by frame.\<close>

lemma lookup_frames_eq:
  assumes "env_rep h env bss R W" "IDENTIFIERP h var"
  shows "\<exists>r. lookup_frames h var env = Some r \<and> map_option (DEREF h SCM_INVALID) r = map_of (concat bss) var \<and>
    (\<forall>x. r = Some x \<longrightarrow> (\<exists>q \<in> set W. ref_cell x = Some q))"
  using assms
proof (induction rule: env_rep.induct)
  case env_nil
  then show ?case by (subst lookup_frames.simps) auto
next
  case (env_cons e fr env f a bs R1 W1 bss R2 W2)
  let ?r = "binding_ref (RefCdr fr) W1 bs var"
  have fl: "scm_lookup_frame h var (Ptr PTAG_CONS fr) = Some ?r"
    by (rule scm_lookup_frame_eq [OF env_cons.hyps(2,3) env_cons.prems])
  have val: "map_option (DEREF h SCM_INVALID) ?r = map_of bs var"
    using binding_ref_value [OF env_cons.hyps(3), of "RefCdr fr" var] env_cons.hyps(2) by simp
  have unf: "lookup_frames h var (Ptr PTAG_CONS e) =
      (case ?r of Some r \<Rightarrow> Some (Some r) | None \<Rightarrow> lookup_frames h var env)"
    using env_cons.hyps(1) fl by (subst lookup_frames.simps) (simp split: option.split)
  show ?case
  proof (cases ?r)
    case None
    then have "map_of bs var = None" using val by simp
    then show ?thesis
      using env_cons.IH [OF env_cons.prems] unf None by (auto simp: map_add_def split: option.splits)
  next
    case (Some x)
    then have "map_of bs var = Some (DEREF h SCM_INVALID x)" using val by simp
    then show ?thesis using unf Some binding_ref_cell [OF Some]
      by (auto simp: map_add_def split: option.splits)
  qed
qed

lemma symbol_not_far: "SYMBOLP h x \<Longrightarrow> \<not> FARSYMBOLP h x" "SYMBOLP h x \<Longrightarrow> IDENTIFIERP h x"
  by (auto simp: IDENTIFIERP_def split: option.splits cell.splits)

section \<open>Assignment through the reference\<close>

definition ids_kept :: "heap \<Rightarrow> heap \<Rightarrow> bool" where
  "ids_kept h h' \<longleftrightarrow> (\<forall>x. IDENTIFIERP h x \<longrightarrow> IDENTIFIERP h' x)"

lemma IDENTIFIERP_iff:
  "IDENTIFIERP h x \<longleftrightarrow> (\<exists>b. x = Ptr PTAG_MISC b \<and>
     ((\<exists>v n. mem h b = Some (SymbolCell v n)) \<or> (\<exists>s e. mem h b = Some (FarsymbolCell s e))))"
proof -
  have "(case mem h b of Some (SymbolCell _ _) \<Rightarrow> True | _ \<Rightarrow> False) \<longleftrightarrow> (\<exists>v n. mem h b = Some (SymbolCell v n))"
    "(case mem h b of Some (FarsymbolCell _ _) \<Rightarrow> True | _ \<Rightarrow> False) \<longleftrightarrow> (\<exists>s e. mem h b = Some (FarsymbolCell s e))" for b
    by (auto split: option.split cell.split)
  then show ?thesis
    by (cases "(h, x)" rule: misc_cell.cases) (simp_all add: IDENTIFIERP_def)
qed

lemma ids_keptI:
  assumes "\<And>b d. mem h b = Some d \<Longrightarrow> (\<forall>x y. d \<noteq> PairCell x y) \<Longrightarrow> mem h' b = Some d"
  shows "ids_kept h h'"
  unfolding ids_kept_def IDENTIFIERP_iff using assms by blast

lemma ids_kept_le: "heap_le h h' \<Longrightarrow> ids_kept h h'"
  by (rule ids_keptI) (auto dest: heap_leD)

lemma set_pair_ids: "mem h c = Some (PairCell x y) \<Longrightarrow> ids_kept h (set_pair h c v w)"
  by (rule ids_keptI) (auto simp: set_pair_def)

lemma frame_bindings_agree:
  assumes "frame_bindings h f a bs R W" "\<forall>b \<in> R \<union> set W. mem h' b = mem h b" "ids_kept h h'"
  shows "frame_bindings h' f a bs R W"
  using assms
proof (induction rule: frame_bindings.induct)
  case (fb_cons p v f q val a bs R W)
  then show ?case by (intro frame_bindings.fb_cons) (auto simp: ids_kept_def)
qed (auto intro: frame_bindings.intros simp: ids_kept_def)

lemma env_rep_agree:
  assumes "env_rep h env bss R W" "\<forall>b \<in> R \<union> set W. mem h' b = mem h b" "ids_kept h h'"
  shows "env_rep h' env bss R W"
  using assms
proof (induction rule: env_rep.induct)
  case (env_cons e fr env f a bs R1 W1 bss R2 W2)
  have "frame_bindings h' f a bs R1 W1"
    by (rule frame_bindings_agree [OF env_cons.hyps(3)]) (use env_cons.prems in auto)
  then show ?case using env_cons by (intro env_rep.env_cons) auto
qed (auto intro: env_rep.intros)

lemma frame_set:
  assumes "frame_bindings h f a bs R W" "distinct W" "set W \<inter> R = {}"
    "mem h c = Some (PairCell y a)" "c \<notin> R" "c \<notin> set W"
    "binding_ref (RefCdr c) W bs var = Some r"
  shows "\<exists>a'. let h' = fst (SCM_SET h out r v) in
    mem h' c = Some (PairCell y a') \<and> frame_bindings h' f a' (AList.update var v bs) R W \<and>
    (\<forall>b. b \<notin> insert c (set W) \<longrightarrow> mem h' b = mem h b) \<and> ids_kept h h' \<and> brk h' = brk h"
  using assms
proof (induction arbitrary: c y rule: frame_bindings.induct)
  case (fb_rest f a)
  then have r: "r = RefCdr c" "var = f" by (auto split: if_splits)
  note ids = set_pair_ids [OF fb_rest.prems(3), of y v]
  then show ?case using r fb_rest ids
    by (intro exI [of _ v]) (auto simp: Let_def set_pair_def ids_kept_def intro!: frame_bindings.fb_rest)
next
  case (fb_cons p u f q val a bs R W)
  have d: "q \<notin> set W" "distinct W" "set W \<inter> R = {}" "q \<notin> R" "q \<noteq> p" "p \<notin> set W" "c \<noteq> q" "c \<noteq> p"
    using fb_cons.prems by auto
  show ?case
  proof (cases "u = var")
    case True
    then have r: "r = RefCar q" using fb_cons.prems by simp
    let ?h = "set_pair h q v a"
    note ids = set_pair_ids [OF fb_cons.hyps(2), of v a]
    have keep: "mem ?h b = mem h b" if "b \<noteq> q" for b using that by (simp add: set_pair_def)
    have "frame_bindings ?h f a bs R W"
      by (rule frame_bindings_agree [OF fb_cons.hyps(4) _ ids]) (intro ballI keep, use d in auto)
    moreover have "mem ?h q = Some (PairCell v a)" by (simp add: set_pair_def)
    moreover have "IDENTIFIERP ?h u" using ids fb_cons.hyps(3) by (simp add: ids_kept_def)
    ultimately have "frame_bindings ?h (Ptr PTAG_CONS p) (Ptr PTAG_CONS q) ((u, v) # bs) (insert p R) (q # W)"
      using keep [of p] d fb_cons.hyps(1) by (intro frame_bindings.fb_cons) auto
    then show ?thesis
      using r True ids keep d fb_cons.prems fb_cons.hyps(2)
      by (intro exI [of _ "Ptr PTAG_CONS q"]) (auto simp: Let_def set_pair_def)
  next
    case False
    then have r: "binding_ref (RefCdr q) W bs var = Some r" using fb_cons.prems by simp
    let ?h = "fst (SCM_SET h out r v)"
    obtain a' where ih: "mem ?h q = Some (PairCell val a')" "frame_bindings ?h f a' (AList.update var v bs) R W"
        "\<forall>b. b \<notin> insert q (set W) \<longrightarrow> mem ?h b = mem h b" "ids_kept h ?h" "brk ?h = brk h"
      using fb_cons.IH [OF d(2,3) fb_cons.hyps(2) d(4,1) r] by (auto simp: Let_def)
    have "frame_bindings ?h (Ptr PTAG_CONS p) (Ptr PTAG_CONS q) ((u, val) # AList.update var v bs) (insert p R) (q # W)"
      using ih d fb_cons.hyps(1,3) by (intro frame_bindings.fb_cons) (auto simp: ids_kept_def)
    then show ?thesis
      using ih d fb_cons.prems False by (intro exI [of _ "Ptr PTAG_CONS q"]) (auto simp: Let_def)
  qed
qed simp

text \<open>Assignment changes the first binding of the variable, in the innermost frame that has one.\<close>

fun set_binding :: "obj \<Rightarrow> obj \<Rightarrow> (obj \<times> obj) list list \<Rightarrow> (obj \<times> obj) list list" where
  "set_binding var v [] = []"
| "set_binding var v (bs # bss) =
     (if var \<in> fst ` set bs then AList.update var v bs # bss else bs # set_binding var v bss)"

lemma set_binding_map_of:
  "map_of (concat bss) var \<noteq> None \<Longrightarrow> map_of (concat (set_binding var v bss)) = (map_of (concat bss))(var \<mapsto> v)"
proof (induction bss)
  case (Cons bs bss)
  show ?case
  proof (cases "var \<in> fst ` set bs")
    case True
    then show ?thesis by (simp add: update_conv')
  next
    case False
    then have none: "map_of bs var = None" by (simp add: map_of_eq_None_iff)
    then have "map_of (concat bss) var \<noteq> None" using Cons.prems by (simp add: map_add_def)
    from Cons.IH [OF this] show ?thesis using False none by (auto simp: map_add_def fun_eq_iff split: option.split)
  qed
qed simp

lemma env_set:
  assumes "env_at h env bss R W" "IDENTIFIERP h var" "lookup_frames h var env = Some (Some r)"
  shows "let h' = fst (SCM_SET h out r v) in env_at h' env (set_binding var v bss) R W \<and>
    (\<forall>b. b \<notin> set W \<longrightarrow> mem h' b = mem h b) \<and> brk h' = brk h"
proof -
  let ?h = "fst (SCM_SET h out r v)"
  have "env_rep ?h env (set_binding var v bss) R W \<and> (\<forall>b. b \<notin> set W \<longrightarrow> mem ?h b = mem h b) \<and>
      ids_kept h ?h \<and> brk ?h = brk h"
    if "env_rep h env bss R W" "distinct W" "set W \<inter> R = {}" "lookup_frames h var env = Some (Some r)"
    using that
  proof (induction rule: env_rep.induct)
    case env_nil
    then show ?case by (subst (asm) lookup_frames.simps) simp
  next
    case (env_cons e fr env f a bs R1 W1 bss R2 W2)
    let ?r = "binding_ref (RefCdr fr) W1 bs var"
    have fl: "scm_lookup_frame h var (Ptr PTAG_CONS fr) = Some ?r"
      by (rule scm_lookup_frame_eq [OF env_cons.hyps(2,3) assms(2)])
    have unf: "lookup_frames h var (Ptr PTAG_CONS e) =
        (case ?r of Some r \<Rightarrow> Some (Some r) | None \<Rightarrow> lookup_frames h var env)"
      using env_cons.hyps(1) fl by (subst lookup_frames.simps) (simp split: option.split)
    have val: "map_option (DEREF h SCM_INVALID) ?r = map_of bs var"
      using binding_ref_value [OF env_cons.hyps(3), of "RefCdr fr" var] env_cons.hyps(2) by simp
    have d: "distinct W1" "distinct W2" "set W1 \<inter> set W2 = {}" "fr \<notin> set W1" "fr \<notin> set W2"
      "set W1 \<inter> R1 = {}" "set W2 \<inter> R2 = {}" "set W1 \<inter> R2 = {}" "set W2 \<inter> R1 = {}" "fr \<notin> R1" "fr \<notin> R2"
      "e \<noteq> fr" "e \<notin> set W1" "e \<notin> set W2"
      using env_cons.prems by auto
    show ?case
    proof (cases ?r)
      case None
      then have r: "lookup_frames h var env = Some (Some r)" using unf env_cons.prems by simp
      note ih = env_cons.IH [OF d(2,7) r]
      have "var \<notin> fst ` set bs" using None val by (simp add: map_of_eq_None_iff [symmetric])
      moreover have "frame_bindings ?h f a bs R1 W1"
        by (rule frame_bindings_agree [OF env_cons.hyps(3)]) (use ih d in auto)
      moreover have "mem ?h e = mem h e" "mem ?h fr = mem h fr" using ih d by auto
      ultimately show ?thesis using ih env_cons.hyps(1,2) by (auto intro: env_rep.env_cons)
    next
      case (Some x)
      then have x: "binding_ref (RefCdr fr) W1 bs var = Some r" using unf env_cons.prems by simp
      then have "var \<in> fst ` set bs" using val map_of_eq_None_iff [of bs var] by auto
      moreover obtain a' where s: "mem ?h fr = Some (PairCell f a')" "frame_bindings ?h f a' (AList.update var v bs) R1 W1"
          "\<forall>b. b \<notin> insert fr (set W1) \<longrightarrow> mem ?h b = mem h b" "ids_kept h ?h" "brk ?h = brk h"
        using frame_set [OF env_cons.hyps(3) d(1,6) env_cons.hyps(2) d(10,4) x, of out v] by (auto simp: Let_def)
      moreover have "env_rep ?h env bss R2 W2"
        by (rule env_rep_agree [OF env_cons.hyps(4)]) (use s d in auto)
      moreover have "mem ?h e = mem h e" using s d by auto
      ultimately show ?thesis using env_cons.hyps(1) by (auto intro: env_rep.env_cons)
    qed
  qed
  then show ?thesis using assms by (simp add: env_at_def Let_def)
qed


section \<open>Extension\<close>

lemma frame_bindings_cells:
  assumes "frame_bindings h f a bs R W"
  shows "\<forall>b \<in> R \<union> set W. \<exists>x y. mem h b = Some (PairCell x y)"
  using assms by (induction rule: frame_bindings.induct) auto

lemma env_rep_cells:
  assumes "env_rep h env bss R W"
  shows "\<forall>b \<in> R \<union> set W. \<exists>x y. mem h b = Some (PairCell x y)"
  using assms by (induction rule: env_rep.induct) (auto dest: frame_bindings_cells)

lemma cells_agree_le:
  assumes "\<forall>b \<in> A. \<exists>x y. mem h b = Some (PairCell x y)" "heap_le h h'"
  shows "\<forall>b \<in> A. mem h' b = mem h b"
proof
  fix b assume "b \<in> A"
  then obtain x y where "mem h b = Some (PairCell x y)" using assms(1) by blast
  then show "mem h' b = mem h b" using heap_leD [OF assms(2)] by simp
qed

lemma frame_bindings_le: "frame_bindings h f a bs R W \<Longrightarrow> heap_le h h' \<Longrightarrow> frame_bindings h' f a bs R W"
  using frame_bindings_agree cells_agree_le [OF frame_bindings_cells] ids_kept_le by blast

lemma env_rep_le: "env_rep h env bss R W \<Longrightarrow> heap_le h h' \<Longrightarrow> env_rep h' env bss R W"
  using env_rep_agree cells_agree_le [OF env_rep_cells] ids_kept_le by blast

lemma cells_below: "brk_ok h \<Longrightarrow> \<forall>b \<in> A. \<exists>x y. mem h b = Some (PairCell x y) \<Longrightarrow> brk h \<le> n \<Longrightarrow> n \<notin> A"
  by (auto simp: brk_ok_def)

lemma extend_env:
  assumes "env_at h env bss R W" "frame_bindings h f a bs R1 W1" "brk_ok h"
    "distinct W1" "set W1 \<inter> set W = {}" "set W1 \<inter> (R \<union> R1) = {}" "set W \<inter> R1 = {}"
    "scm_extend_environment h f a env = (env', h')"
  shows "env_at h' env' (bs # bss) (insert (Suc (brk h)) (R1 \<union> R)) (brk h # W1 @ W)" "heap_le h h'" "brk_ok h'"
proof -
  obtain h1 where c1: "scm_make_cons h f a = (Ptr PTAG_CONS (brk h), h1)" by (simp add: make_cons_simps)
  have b1: "brk h1 = Suc (brk h)" using c1 by (auto simp: make_cons_simps)
  have c2: "scm_make_cons h1 (Ptr PTAG_CONS (brk h)) env = (env', h')"
    using assms(8) by (simp add: scm_extend_environment_def c1)
  have env': "env' = Ptr PTAG_CONS (Suc (brk h))" using c2 b1 by (simp add: make_cons_simps)
  note le1 = make_cons_extends [OF assms(3) c1]
  then have le2: "heap_le h1 h' \<and> brk_ok h'" using make_cons_extends c2 by blast
  then show le: "heap_le h h'" "brk_ok h'" using le1 heap_le_trans by blast+
  have new: "mem h' (Suc (brk h)) = Some (PairCell (Ptr PTAG_CONS (brk h)) env)" "mem h' (brk h) = Some (PairCell f a)"
    using c1 c2 b1 by (auto simp: make_cons_simps)
  note eb = assms(1) [unfolded env_at_def]
  note cells = cells_below [OF assms(3) env_rep_cells [OF eb [THEN conjunct1]]] cells_below [OF assms(3) frame_bindings_cells [OF assms(2)]]
  have "env_rep h' env' (bs # bss) (insert (Suc (brk h)) (R1 \<union> R)) (brk h # W1 @ W)"
    unfolding env' by (intro env_rep.env_cons [OF new frame_bindings_le [OF assms(2) le(1)] env_rep_le [OF _ le(1)]])
      (use eb in simp)
  then show "env_at h' env' (bs # bss) (insert (Suc (brk h)) (R1 \<union> R)) (brk h # W1 @ W)"
    using eb assms(4-7) cells [of "brk h"] cells [of "Suc (brk h)"] by (auto simp: env_at_def)
qed

text \<open>Adding a binding to the innermost frame, which is changed in place.\<close>

lemma add_env:
  assumes "env_at h env (bs # bss) R W" "brk_ok h" "IDENTIFIERP h var"
  shows "\<exists>h' R' W'. scm_add_environment h var val env = Some (env, h') \<and>
    env_at h' env (((var, val) # bs) # bss) R' W' \<and> brk_ok h' \<and>
    (\<forall>b. b \<notin> set W \<longrightarrow> mem h b \<noteq> None \<longrightarrow> mem h' b = mem h b)"
proof -
  have rep: "env_rep h env (bs # bss) R W" and dis: "distinct W" "set W \<inter> R = {}"
    using assms(1) by (auto simp: env_at_def)
  from rep obtain e fr env2 f a R1 W1 R2 W2 where
    env: "env = Ptr PTAG_CONS e" "R = insert e (R1 \<union> R2)" "W = fr # W1 @ W2" and
    cells: "mem h e = Some (PairCell (Ptr PTAG_CONS fr) env2)" "mem h fr = Some (PairCell f a)" and
    reps: "frame_bindings h f a bs R1 W1" "env_rep h env2 bss R2 W2"
    by (rule env_rep_consE)
  let ?p = "brk h" and ?q = "Suc (brk h)"
  obtain h1 where c1: "scm_make_cons h var f = (Ptr PTAG_CONS ?p, h1)" by (simp add: make_cons_simps)
  have b1: "brk h1 = ?q" "mem h1 ?p = Some (PairCell var f)" using c1 by (auto simp: make_cons_simps)
  obtain h2 where c2: "scm_make_cons h1 val a = (Ptr PTAG_CONS ?q, h2)" by (simp add: make_cons_simps b1)
  note e1 = make_cons_extends [OF assms(2) c1]
  note e2 = make_cons_extends [OF e1 [THEN conjunct2] c2]
  have le: "heap_le h h2" using e1 e2 heap_le_trans by blast
  let ?h3 = "set_pair h2 fr (Ptr PTAG_CONS ?p) (Ptr PTAG_CONS ?q)"
  have frc: "mem h2 fr = Some (PairCell f a)" using heap_leD [OF le cells(2)] .
  have add: "scm_add_environment h var val env = Some (env, ?h3)"
    using cells frc heap_leD [OF e1 [THEN conjunct1] cells(2)]
    by (simp add: scm_add_environment_def scm_toplevel_environmentp_def env set_pair_def c1 c2)
  have new: "mem h2 ?p = Some (PairCell var f)" "mem h2 ?q = Some (PairCell val a)"
    using c2 b1 by (auto simp: make_cons_simps)
  note old = env_rep_cells [OF rep]
  note below = cells_below [OF assms(2) old]
  have ne: "?p \<noteq> fr" "?q \<noteq> fr" using below [of ?p] below [of ?q] env by auto
  have keep: "mem ?h3 b = mem h b" if "b \<noteq> fr" "mem h b \<noteq> None" for b
    using that heap_leD [OF le] by (cases "mem h b") (auto simp: set_pair_def)
  have ids: "ids_kept h ?h3"
    using ids_kept_le [OF le] set_pair_ids [OF frc] unfolding ids_kept_def by blast
  have agree: "mem ?h3 b = mem h b" if "b \<in> R \<union> set W" "b \<noteq> fr" for b
    using keep [OF that(2)] old that(1) by fastforce
  have d: "fr \<notin> R1" "fr \<notin> set W1" "fr \<notin> R2" "fr \<notin> set W2" "e \<noteq> fr" using dis env by auto
  have "frame_bindings ?h3 f a bs R1 W1"
    by (rule frame_bindings_agree [OF reps(1) _ ids]) (intro ballI agree, use env d in auto)
  then have "frame_bindings ?h3 (Ptr PTAG_CONS ?p) (Ptr PTAG_CONS ?q) ((var, val) # bs) (insert ?p R1) (?q # W1)"
    using new ne ids assms(3) by (intro frame_bindings.fb_cons) (auto simp: set_pair_def ids_kept_def)
  moreover have "env_rep ?h3 env2 bss R2 W2"
    by (rule env_rep_agree [OF reps(2) _ ids]) (intro ballI agree, use env d in auto)
  moreover have "mem ?h3 e = Some (PairCell (Ptr PTAG_CONS fr) env2)" using agree [of e] env d cells(1) by simp
  moreover have "mem ?h3 fr = Some (PairCell (Ptr PTAG_CONS ?p) (Ptr PTAG_CONS ?q))" by (simp add: set_pair_def)
  ultimately have "env_rep ?h3 env (((var, val) # bs) # bss) (insert e (insert ?p R1 \<union> R2)) (fr # (?q # W1) @ W2)"
    unfolding env(1) by (intro env_rep.env_cons)
  moreover have "distinct (fr # (?q # W1) @ W2) \<and> set (fr # (?q # W1) @ W2) \<inter> insert e (insert ?p R1 \<union> R2) = {}"
    using dis env below [of ?p] below [of ?q] ne by auto
  moreover have "brk_ok ?h3" using e2 frc by (auto simp: brk_ok_def set_pair_def)
  moreover have "\<forall>b. b \<notin> set W \<longrightarrow> mem h b \<noteq> None \<longrightarrow> mem ?h3 b = mem h b" using keep env by auto
  ultimately show ?thesis using add unfolding env_at_def by blast
qed


lemma add_env_toplevel:
  assumes "brk_ok h" "IDENTIFIERP h var"
  shows "\<exists>env h' R W. scm_add_environment h var val SCM_NULL = Some (env, h') \<and>
    env_at h' env [[(var, val)]] R W \<and> brk_ok h' \<and> heap_le h h'"
proof -
  let ?p = "brk h"
  obtain h1 where c1: "scm_make_cons h var SCM_NULL = (Ptr PTAG_CONS ?p, h1)" by (simp add: make_cons_simps)
  have b1: "brk h1 = Suc ?p" "mem h1 ?p = Some (PairCell var SCM_NULL)" using c1 by (auto simp: make_cons_simps)
  obtain h2 where c2: "scm_make_cons h1 val SCM_NULL = (Ptr PTAG_CONS (Suc ?p), h2)" by (simp add: make_cons_simps b1)
  have b2: "brk h2 = Suc (Suc ?p)" "mem h2 (Suc ?p) = Some (PairCell val SCM_NULL)" "mem h2 ?p = Some (PairCell var SCM_NULL)"
    using c2 b1 by (auto simp: make_cons_simps)
  note e1 = make_cons_extends [OF assms(1) c1]
  note e2 = make_cons_extends [OF e1 [THEN conjunct2] c2]
  have le: "heap_le h h2" using e1 e2 heap_le_trans by blast
  have "IDENTIFIERP h2 var" using ids_kept_le [OF le] assms(2) by (simp add: ids_kept_def)
  then have fb: "frame_bindings h2 (Ptr PTAG_CONS ?p) (Ptr PTAG_CONS (Suc ?p)) [(var, val)] {?p} [Suc ?p]"
    using frame_bindings.fb_cons [OF b2(3,2) _ frame_bindings.fb_nil] by simp
  obtain env h' where ex: "scm_extend_environment h2 (Ptr PTAG_CONS ?p) (Ptr PTAG_CONS (Suc ?p)) SCM_NULL = (env, h')"
    by (metis prod.exhaust)
  have "env_at h2 SCM_NULL [] {} []" by (simp add: env_at_def env_rep.env_nil)
  note ext = extend_env [OF this fb e2 [THEN conjunct2] _ _ _ _ ex]
  have "scm_add_environment h var val SCM_NULL = Some (env, h')"
    using ex by (simp add: scm_add_environment_def scm_toplevel_environmentp_def c1 c2 scm_extend_environment_def split: prod.splits)
  moreover have "heap_le h h'" using le ext(2) heap_le_trans by simp
  moreover have "env_at h' env [[(var, val)]] (insert (Suc (brk h2)) ({?p} \<union> {})) (brk h2 # [Suc ?p] @ [])"
    using ext(1) by simp
  moreover have "brk_ok h'" using ext(3) by simp
  ultimately show ?thesis by blast
qed

section \<open>Far symbols\<close>

lemma env_depth_eq:
  assumes "env_rep h env bss R W"
  shows "env_depth h env = Some (int (length bss))"
proof -
  have "env_depth_loop h env n = Some (n + int (length bss))" for n
    using assms
  proof (induction arbitrary: n rule: env_rep.induct)
    case env_nil
    then show ?case by (subst env_depth_loop.simps) simp
  next
    case (env_cons e fr env f a bs R1 W1 bss R2 W2)
    then show ?case by (subst env_depth_loop.simps) simp
  qed
  then show ?thesis by (simp add: env_depth_def)
qed

lemma drop_frames_rep:
  "env_rep h env (inner @ outer) R W \<Longrightarrow> \<exists>R' W'. env_rep h (drop_frames (length inner) h env) outer R' W'"
proof (induction inner arbitrary: env R W)
  case (Cons bs inner)
  then have "env_rep h env (bs # inner @ outer) R W" by simp
  then obtain R2 W2 where "env_rep h (CDR h env) (inner @ outer) R2 W2" by (rule env_rep_consE) auto
  then show ?case using Cons.IH by simp
qed auto

lemma lookup_n_frames_all:
  assumes "env_rep h env bss R W"
  shows "lookup_n_frames_loop h var (length bss) env = lookup_frames h var env"
  using assms
proof (induction rule: env_rep.induct)
  case env_nil
  then show ?case by (subst lookup_frames.simps) simp
next
  case (env_cons e fr env f a bs R1 W1 bss R2 W2)
  then show ?case by (subst lookup_frames.simps) (simp split: option.split)
qed

text \<open>A far symbol that no frame binds is looked up as its symbol in the frames that it saw.\<close>

lemma far_symbol_lookup:
  assumes "env_rep h env (inner @ outer) R W" "mem h x = Some (FarsymbolCell s (int (length outer)))" "IDENTIFIERP h s"
  shows "\<exists>r. scm_lookup_environment h (Ptr PTAG_MISC x) env = Some (Inr r) \<and>
    map_option (DEREF h SCM_INVALID) r =
      (case map_of (concat (inner @ outer)) (Ptr PTAG_MISC x) of
         Some v \<Rightarrow> Some v | None \<Rightarrow> map_of (concat outer) s)"
proof -
  let ?f = "Ptr PTAG_MISC x"
  have far: "FARSYMBOLP h ?f" "IDENTIFIERP h ?f" using assms(2) by (auto simp: IDENTIFIERP_def)
  obtain r where r: "lookup_frames h ?f env = Some r"
      "map_option (DEREF h SCM_INVALID) r = map_of (concat (inner @ outer)) ?f"
    using lookup_frames_eq [OF assms(1) far(2)] by blast
  show ?thesis
  proof (cases r)
    case (Some q)
    then have "scm_lookup_environment h ?f env = Some (Inr (Some q))" using r(1) by (simp add: scm_lookup_environment_def)
    moreover have "map_of (concat (inner @ outer)) ?f = Some (DEREF h SCM_INVALID q)" using r(2) Some by simp
    ultimately show ?thesis by (metis option.case(2) option.map(2))
  next
    case None
    then have none: "map_of (concat (inner @ outer)) ?f = None" using r(2) by simp
    let ?env = "drop_frames (length inner) h env"
    obtain R' W' where out: "env_rep h ?env outer R' W'" using drop_frames_rep [OF assms(1)] by blast
    obtain q where q: "lookup_frames h s ?env = Some q" "map_option (DEREF h SCM_INVALID) q = map_of (concat outer) s"
      using lookup_frames_eq [OF out assms(3)] by blast
    have "lookup_n_frames h s (int (length outer)) ?env = Some q"
      using lookup_n_frames_all [OF out, of s] q(1) by (simp add: lookup_n_frames_def)
    then have "lookup_far_symbol h ?f env = Some (Inr q)"
      using env_depth_eq [OF assms(1)] assms(2) by (simp add: lookup_far_symbol_def)
    then have "scm_lookup_environment h ?f env = Some (Inr q)"
      using r(1) None far(1) unfolding scm_lookup_environment_def by simp
    then show ?thesis using q(2) unfolding none by auto
  qed
qed

section \<open>Validation\<close>

lemma validate_formals_loop_chain:
  assumes "chain h f fs t" "\<not> CONSP t"
  shows "validate_formals_loop h f n = Some (if \<forall>v \<in> set fs. IDENTIFIERP h v
      then if t = SCM_NULL then n + int (length fs)
        else if IDENTIFIERP h t then SCM_LISTLEN_ENCODE_DOTTED (n + int (length fs)) else SCM_INT_T_MIN
      else SCM_INT_T_MIN)"
  using assms
proof (induction fs arbitrary: f n)
  case Nil
  then show ?case
    by (subst validate_formals_loop.simps) (simp add: SCM_LISTLEN_ENCODE_ERROR_def SCM_LISTLEN_ENCODE_CIRCULAR_def)
next
  case (Cons v fs)
  have "CONSP f" "CAR h f = v" using Cons.prems has_pair_CONSP by auto
  then show ?case using Cons
    by (subst validate_formals_loop.simps)
      (auto simp: SCM_LISTLEN_ENCODE_ERROR_def SCM_LISTLEN_ENCODE_CIRCULAR_def algebra_simps)
qed

lemma bindings_iff:
  assumes "chain h f fs t" "\<not> CONSP t"
  shows "(\<exists>bs R W. frame_bindings h f a bs R W) \<longleftrightarrow> (\<forall>v \<in> set fs. IDENTIFIERP h v) \<and>
    (t = SCM_NULL \<and> (\<exists>vs. chain h a vs SCM_NULL \<and> length vs = length fs) \<or>
     IDENTIFIERP h t \<and> (\<exists>vs u. chain h a vs u \<and> length vs = length fs))"
  using assms
proof (induction fs arbitrary: f a)
  case Nil
  then have f: "f = t" "\<not> CONSP f" by auto
  have "(\<exists>bs R W. frame_bindings h f a bs R W) \<longleftrightarrow> f = SCM_NULL \<and> a = SCM_NULL \<or> IDENTIFIERP h f"
    using f(2) by (auto elim: frame_bindings.cases intro: frame_bindings.intros)
  then show ?case using f by auto
next
  case (Cons v fs)
  then obtain p y where f: "f = Ptr PTAG_CONS p" "mem h p = Some (PairCell v y)" "chain h y fs t"
    by (auto simp: has_pair_def)
  have "(\<exists>bs R W. frame_bindings h f a bs R W) \<longleftrightarrow>
      IDENTIFIERP h v \<and> (\<exists>q x z. a = Ptr PTAG_CONS q \<and> mem h q = Some (PairCell x z) \<and> (\<exists>bs R W. frame_bindings h y z bs R W))"
    (is "?l \<longleftrightarrow> ?r")
  proof
    assume ?l
    then obtain bs R W where "frame_bindings h f a bs R W" by blast
    then show ?r
      using f(1,2) identifier_not_pair [of h f] by (cases rule: frame_bindings.cases) auto
  next
    assume ?r
    then show ?l using f(1,2) by (auto intro: frame_bindings.fb_cons)
  qed
  also have "\<dots> \<longleftrightarrow> (\<forall>u \<in> set (v # fs). IDENTIFIERP h u) \<and>
      (t = SCM_NULL \<and> (\<exists>vs. chain h a vs SCM_NULL \<and> length vs = length (v # fs)) \<or>
       IDENTIFIERP h t \<and> (\<exists>vs u. chain h a vs u \<and> length vs = length (v # fs)))"
  proof -
    have step: "(\<exists>vs. chain h a vs u \<and> length vs = length (v # fs)) \<longleftrightarrow>
        (\<exists>q x z. a = Ptr PTAG_CONS q \<and> mem h q = Some (PairCell x z) \<and> (\<exists>vs. chain h z vs u \<and> length vs = length fs))" for u
    proof
      assume "\<exists>vs. chain h a vs u \<and> length vs = length (v # fs)"
      then obtain x vs where "chain h a (x # vs) u" "length vs = length fs" by (metis length_Suc_conv length_Cons)
      then show "\<exists>q x z. a = Ptr PTAG_CONS q \<and> mem h q = Some (PairCell x z) \<and> (\<exists>vs. chain h z vs u \<and> length vs = length fs)"
        by (auto simp: has_pair_def)
    next
      assume "\<exists>q x z. a = Ptr PTAG_CONS q \<and> mem h q = Some (PairCell x z) \<and> (\<exists>vs. chain h z vs u \<and> length vs = length fs)"
      then obtain q x z vs where "a = Ptr PTAG_CONS q" "mem h q = Some (PairCell x z)" "chain h z vs u" "length vs = length fs" by blast
      then show "\<exists>vs. chain h a vs u \<and> length vs = length (v # fs)"
        by (intro exI [of _ "x # vs"]) (simp add: has_pair_def)
    qed
    have sw: "(\<exists>vs u. chain h x vs u \<and> length vs = n) \<longleftrightarrow> (\<exists>u vs. chain h x vs u \<and> length vs = n)" for x n by blast
    show ?thesis unfolding Cons.IH [OF f(3) Cons.prems(2)] sw step by auto
  qed
  finally show ?case .
qed


lemma circular_prefix:
  assumes "heap_ok h" "obj_ok h x" "circular h x"
  shows "\<exists>vs u. chain h x vs u \<and> length vs = n"
proof -
  have "has_pair h ((CDR h ^^ i) x)" for i
    using cdr_power_ok [OF assms(1,2), of i] assms(3) by (intro obj_ok_CONSP) (auto simp: circular_def)
  then show ?thesis using chain_of_cdr_power [of n h x] by blast
qed

lemma chain_prefix: "chain h x vs t \<Longrightarrow> n \<le> length vs \<Longrightarrow> \<exists>us u. chain h x us u \<and> length us = n"
  using chain_append [of h x "take n vs" "drop n vs" t] by (intro exI [of _ "take n vs"]) (auto simp: append_take_drop_id)

lemma chain_prefix_le:
  assumes "chain h x vs t" "\<not> CONSP t" "chain h x us u"
  shows "length us \<le> length vs"
proof (rule ccontr)
  assume "\<not> ?thesis"
  then have "CONSP ((CDR h ^^ length vs) x)" using chain_CONSP [OF assms(3)] by simp
  then show False using chain_cdr_power [OF assms(1)] assms(2) by simp
qed

lemma extension_valid_iff:
  assumes "heap_ok h" "obj_ok h a" "brk h < 2 ^ 60" "chain h f fs t" "\<not> CONSP t"
    and proper: "\<And>vs u. chain h a vs u \<Longrightarrow> \<not> CONSP u \<Longrightarrow> u = SCM_NULL"
  shows "scm_valid_environment_extensionp h f a = Some (\<exists>bs R W. frame_bindings h f a bs R W)"
proof -
  note brk = heap_ok_brk [OF assms(1)]
  have "length fs < 2 ^ 60" using chain_length_le [OF assms(4,5) brk] assms(3) by linarith
  then have n: "int (length fs) < 2 ^ 60" by (simp add: of_nat_less_numeral_power_cancel_iff)
  note vf = validate_formals_loop_chain [OF assms(4,5), of 0]
  note bi = bindings_iff [OF assms(4,5), of a]
  have nid: "IDENTIFIERP h t \<Longrightarrow> t \<noteq> SCM_NULL" using identifier_not_pair by blast
  consider (circ) "circular h a" | (plain) vs where "chain h a vs SCM_NULL"
    using chain_or_circular [OF assms(1,2)] proper by blast
  then show ?thesis
  proof cases
    case circ
    have len: "scm_length h a = Some SCM_INT_T_MIN" by (rule scm_length_circular [OF brk circ])
    have ex: "\<exists>vs u. chain h a vs u \<and> length vs = length fs" by (rule circular_prefix [OF assms(1,2) circ])
    have nex: "\<not> chain h a vs SCM_NULL" for vs using circular_not_chain [OF circ, of vs SCM_NULL] by auto
    show ?thesis
      unfolding scm_valid_environment_extensionp_def scm_validate_formals_def scm_validate_actuals_def vf len bi
      using ex nex n nid
      by (auto simp: scm_valid_environment_extension_lengthp_def listlen_defs not_int_def Let_def)
  next
    case plain
    have "length vs < 2 ^ 60" using chain_length_le [OF plain _ brk] assms(3) by simp
    then have m: "int (length vs) < 2 ^ 60" by (simp add: of_nat_less_numeral_power_cancel_iff)
    have len: "scm_length h a = Some (int (length vs))" using scm_length_chain [OF plain] by simp
    have uniq: "(\<exists>us. chain h a us SCM_NULL \<and> length us = length fs) \<longleftrightarrow> length fs = length vs"
    proof
      assume "\<exists>us. chain h a us SCM_NULL \<and> length us = length fs"
      then obtain us where "chain h a us SCM_NULL" "length us = length fs" by blast
      then show "length fs = length vs" using chain_unique [OF plain, of us SCM_NULL] by simp
    next
      assume "length fs = length vs"
      then show "\<exists>us. chain h a us SCM_NULL \<and> length us = length fs" using plain by (intro exI [of _ vs]) simp
    qed
    have pre: "(\<exists>us u. chain h a us u \<and> length us = length fs) \<longleftrightarrow> length fs \<le> length vs"
      using chain_prefix [OF plain, of "length fs"] chain_prefix_le [OF plain] by fastforce
    show ?thesis
      unfolding scm_valid_environment_extensionp_def scm_validate_formals_def scm_validate_actuals_def vf len bi uniq pre
      using n m nid
      by (auto simp: scm_valid_environment_extension_lengthp_def listlen_defs not_int_def Let_def)
  qed
qed

text \<open>A dotted list of actuals has the code of a circular one: with proper formals it is refused, with dotted
  formals accepted whatever the numbers are.\<close>

lemma dotted_extension_valid:
  assumes "heap_ok h" "brk h < 2 ^ 60" "chain h f fs t" "\<not> CONSP t" "chain h a vs u" "\<not> CONSP u" "u \<noteq> SCM_NULL"
  shows "scm_valid_environment_extensionp h f a = Some ((\<forall>v \<in> set fs. IDENTIFIERP h v) \<and> IDENTIFIERP h t)"
proof -
  note brk = heap_ok_brk [OF assms(1)]
  have "length fs < 2 ^ 60" "length vs < 2 ^ 60"
    using chain_length_le [OF assms(3,4) brk] chain_length_le [OF assms(5,6) brk] assms(2) by linarith+
  then have n: "int (length fs) < 2 ^ 60" "int (length vs) < 2 ^ 60"
    by (simp_all add: of_nat_less_numeral_power_cancel_iff)
  have nid: "IDENTIFIERP h t \<Longrightarrow> t \<noteq> SCM_NULL" using identifier_not_pair by blast
  have len: "scm_length h a = Some (SCM_LISTLEN_ENCODE_DOTTED (int (length vs)))"
    using scm_length_chain [OF assms(5,6)] assms(7) by simp
  show ?thesis
    unfolding scm_valid_environment_extensionp_def scm_validate_formals_def scm_validate_actuals_def
      validate_formals_loop_chain [OF assms(3,4), of 0] len
    using n nid
    by (auto simp: scm_valid_environment_extension_lengthp_def listlen_defs not_int_def Let_def)
qed

text \<open>A dotted list of actuals becomes the code of a circular one, so with dotted formals it is accepted
  although it is too short: the lookup of \<^verbatim>\<open>x\<close> in the frame \<^verbatim>\<open>((x . y) . 5)\<close> would read the car of 5.\<close>

definition dotted_frame_heap :: heap where
  "dotted_frame_heap = \<lparr>mem = [0 \<mapsto> SymbolCell SCM_UNBOUND ''x'', 1 \<mapsto> SymbolCell SCM_UNBOUND ''y'',
     2 \<mapsto> PairCell (Ptr PTAG_MISC 0) (Ptr PTAG_MISC 1)], brk = 3\<rparr>"

lemma dotted_actuals_accepted:
  "scm_valid_environment_extensionp dotted_frame_heap (Ptr PTAG_CONS 2) (IntObj 5) = Some True"
  "\<not> (\<exists>bs R W. frame_bindings dotted_frame_heap (Ptr PTAG_CONS 2) (IntObj 5) bs R W)"
proof -
  let ?h = dotted_frame_heap
  have f: "chain ?h (Ptr PTAG_CONS 2) [Ptr PTAG_MISC 0] (Ptr PTAG_MISC 1)"
    by (simp add: dotted_frame_heap_def has_pair_def)
  have ids: "IDENTIFIERP ?h (Ptr PTAG_MISC 0)" "IDENTIFIERP ?h (Ptr PTAG_MISC 1)"
    by (auto simp: IDENTIFIERP_iff dotted_frame_heap_def)
  have len: "scm_length ?h (IntObj 5) = Some (-1)"
    using scm_length_chain [of ?h "IntObj 5" "[]" "IntObj 5"] by (simp add: listlen_defs)
  show "scm_valid_environment_extensionp ?h (Ptr PTAG_CONS 2) (IntObj 5) = Some True"
    unfolding scm_valid_environment_extensionp_def scm_validate_formals_def scm_validate_actuals_def len
    using validate_formals_loop_chain [OF f, of 0] ids
    by (simp add: scm_valid_environment_extension_lengthp_def listlen_defs Let_def)
  show "\<not> (\<exists>bs R W. frame_bindings ?h (Ptr PTAG_CONS 2) (IntObj 5) bs R W)"
    unfolding bindings_iff [OF f, simplified] by (auto simp: length_Suc_conv has_pair_def)
qed


section \<open>Properties\<close>

text \<open>C7: On an environment with the bindings \<open>bss\<close> the lookup of a symbol returns, and gives the place of the
  innermost first binding of it, or none when no frame binds it; \<^verbatim>\<open>scm_symbol_value\<close> gives that value, or else
  the top-level value of the symbol, or the error for an unbound variable.\<close>

theorem env_lookup_correct:
  assumes "env_rep h env bss R W" "SYMBOLP h var"
  shows "(\<exists>r. scm_lookup_environment h var env = Some (Inr r) \<and>
      map_option (DEREF h SCM_INVALID) r = map_of (concat bss) var) \<and>
    scm_symbol_value h var env = Some
      (let v = (case map_of (concat bss) var of Some v \<Rightarrow> v | None \<Rightarrow> SYMBOL_VCELL h var)
       in if v = SCM_UNBOUND then Inl (ErrObj ''unbound variable'' var) else Inr v)"
proof -
  note symb = symbol_not_far [OF assms(2)]
  obtain r where r: "lookup_frames h var env = Some r" "map_option (DEREF h SCM_INVALID) r = map_of (concat bss) var"
    using lookup_frames_eq [OF assms(1) symb(2)] by blast
  have "scm_lookup_environment h var env = Some (Inr r)"
    unfolding scm_lookup_environment_def r(1) using symb(1) by simp
  moreover have "(case r of Some x \<Rightarrow> DEREF h SCM_INVALID x | None \<Rightarrow> SYMBOL_VCELL h var) =
      (case map_of (concat bss) var of Some v \<Rightarrow> v | None \<Rightarrow> SYMBOL_VCELL h var)"
    unfolding r(2) [symmetric] by (cases r) simp_all
  then have "scm_symbol_value h var env = Some
      (let v = (case map_of (concat bss) var of Some v \<Rightarrow> v | None \<Rightarrow> SYMBOL_VCELL h var)
       in if v = SCM_UNBOUND then Inl (ErrObj ''unbound variable'' var) else Inr v)"
    unfolding scm_symbol_value_def if_not_P [OF symb(1)] r(1) by (simp add: Let_def del: SYMBOL_VCELL.simps)
  ultimately show ?thesis using r(2) by blast
qed

text \<open>An environment with the frames \<^verbatim>\<open>((x . 1) (y . 2))\<close>, where \<^verbatim>\<open>y\<close> takes the rest, inside one that binds
  \<^verbatim>\<open>x\<close> to 3.\<close>

definition two_frames_heap :: heap where
  "two_frames_heap = \<lparr>mem = [0 \<mapsto> SymbolCell SCM_UNBOUND ''x'', 1 \<mapsto> SymbolCell SCM_UNBOUND ''y'',
     2 \<mapsto> PairCell (Ptr PTAG_MISC 0) (Ptr PTAG_MISC 1), 3 \<mapsto> PairCell (IntObj 1) (IntObj 2),
     4 \<mapsto> PairCell (Ptr PTAG_CONS 2) (Ptr PTAG_CONS 3), 5 \<mapsto> PairCell (Ptr PTAG_CONS 4) (Ptr PTAG_CONS 9),
     6 \<mapsto> PairCell (Ptr PTAG_MISC 0) SCM_NULL, 7 \<mapsto> PairCell (IntObj 3) SCM_NULL,
     8 \<mapsto> PairCell (Ptr PTAG_CONS 6) (Ptr PTAG_CONS 7), 9 \<mapsto> PairCell (Ptr PTAG_CONS 8) SCM_NULL], brk = 10\<rparr>"

lemma two_frames_ids: "IDENTIFIERP two_frames_heap (Ptr PTAG_MISC 0)" "IDENTIFIERP two_frames_heap (Ptr PTAG_MISC 1)"
  by (auto simp: IDENTIFIERP_iff two_frames_heap_def)

lemma two_frames_outer:
  "frame_bindings two_frames_heap (Ptr PTAG_CONS 6) (Ptr PTAG_CONS 7) [(Ptr PTAG_MISC 0, IntObj 3)] {6} [7]"
  by (rule frame_bindings.fb_cons [OF _ _ two_frames_ids(1) frame_bindings.fb_nil]) (simp_all add: two_frames_heap_def)

lemma two_frames_env:
  "env_at two_frames_heap (Ptr PTAG_CONS 5)
     [[(Ptr PTAG_MISC 0, IntObj 1), (Ptr PTAG_MISC 1, IntObj 2)], [(Ptr PTAG_MISC 0, IntObj 3)]] {5, 2, 9, 6} [4, 3, 8, 7]"
proof -
  let ?h = two_frames_heap
  have inner: "frame_bindings ?h (Ptr PTAG_CONS 2) (Ptr PTAG_CONS 3)
      [(Ptr PTAG_MISC 0, IntObj 1), (Ptr PTAG_MISC 1, IntObj 2)] {2} [3]"
    by (rule frame_bindings.fb_cons [OF _ _ two_frames_ids(1) frame_bindings.fb_rest [OF two_frames_ids(2)]])
      (simp_all add: two_frames_heap_def)
  note outer = two_frames_outer
  have m: "mem ?h 9 = Some (PairCell (Ptr PTAG_CONS 8) SCM_NULL)" "mem ?h 8 = Some (PairCell (Ptr PTAG_CONS 6) (Ptr PTAG_CONS 7))"
    "mem ?h 5 = Some (PairCell (Ptr PTAG_CONS 4) (Ptr PTAG_CONS 9))" "mem ?h 4 = Some (PairCell (Ptr PTAG_CONS 2) (Ptr PTAG_CONS 3))"
    by (simp_all add: two_frames_heap_def)
  have "env_rep ?h (Ptr PTAG_CONS 9) [[(Ptr PTAG_MISC 0, IntObj 3)]] {9, 6} [8, 7]"
    using env_rep.env_cons [OF m(1,2) outer env_rep.env_nil] by simp
  from env_rep.env_cons [OF m(3,4) inner this] show ?thesis by (simp add: env_at_def insert_commute)
qed

lemma env_lookup_correct_witness:
  "scm_symbol_value two_frames_heap (Ptr PTAG_MISC 0) (Ptr PTAG_CONS 5) = Some (Inr (IntObj 1)) \<and>
   scm_symbol_value two_frames_heap (Ptr PTAG_MISC 1) (Ptr PTAG_CONS 5) = Some (Inr (IntObj 2))"
proof -
  have "SYMBOLP two_frames_heap (Ptr PTAG_MISC 0)" "SYMBOLP two_frames_heap (Ptr PTAG_MISC 1)"
    by (simp_all add: two_frames_heap_def)
  then show ?thesis
    using env_lookup_correct [OF two_frames_env [unfolded env_at_def, THEN conjunct1], of "Ptr PTAG_MISC 0"]
      env_lookup_correct [OF two_frames_env [unfolded env_at_def, THEN conjunct1], of "Ptr PTAG_MISC 1"]
    by simp
qed

text \<open>C9: Extending an environment by a valid frame puts its bindings in front and leaves the heap as it was;
  adding a binding puts it in front of the innermost frame, or makes a frame at the top level, and changes
  only cells of that environment.\<close>

theorem env_growth_correct:
  assumes "env_at h env bss R W" "brk_ok h"
  shows "(\<forall>f a bs R1 W1. frame_bindings h f a bs R1 W1 \<longrightarrow> distinct (W1 @ W) \<longrightarrow> (set W1 \<union> set W) \<inter> (R \<union> R1) = {} \<longrightarrow>
      (case scm_extend_environment h f a env of (env', h') \<Rightarrow>
        (\<exists>R' W'. env_at h' env' (bs # bss) R' W') \<and> heap_le h h' \<and> brk_ok h')) \<and>
    (\<forall>var val. IDENTIFIERP h var \<longrightarrow> (\<exists>env' h' R' W'. scm_add_environment h var val env = Some (env', h') \<and>
      env_at h' env' (case bss of [] \<Rightarrow> [[(var, val)]] | bs # rest \<Rightarrow> ((var, val) # bs) # rest) R' W' \<and> brk_ok h' \<and>
      (\<forall>b. b \<notin> set W \<longrightarrow> mem h b \<noteq> None \<longrightarrow> mem h' b = mem h b)))"
proof (intro conjI allI impI)
  fix f a bs R1 W1
  assume fb: "frame_bindings h f a bs R1 W1" and d: "distinct (W1 @ W)" "(set W1 \<union> set W) \<inter> (R \<union> R1) = {}"
  obtain env' h' where ex: "scm_extend_environment h f a env = (env', h')" by (metis prod.exhaust)
  have "env_at h' env' (bs # bss) (insert (Suc (brk h)) (R1 \<union> R)) (brk h # W1 @ W)" "heap_le h h'" "brk_ok h'"
    by (rule extend_env [OF assms(1) fb assms(2) _ _ _ _ ex]; use d in auto)+
  then show "case scm_extend_environment h f a env of (env', h') \<Rightarrow>
      (\<exists>R' W'. env_at h' env' (bs # bss) R' W') \<and> heap_le h h' \<and> brk_ok h'" using ex by auto
next
  fix var val assume v: "IDENTIFIERP h var"
  show "\<exists>env' h' R' W'. scm_add_environment h var val env = Some (env', h') \<and>
      env_at h' env' (case bss of [] \<Rightarrow> [[(var, val)]] | bs # rest \<Rightarrow> ((var, val) # bs) # rest) R' W' \<and> brk_ok h' \<and>
      (\<forall>b. b \<notin> set W \<longrightarrow> mem h b \<noteq> None \<longrightarrow> mem h' b = mem h b)"
  proof (cases bss)
    case Nil
    then have "env = SCM_NULL" using assms(1) by (auto simp: env_at_def elim: env_rep.cases)
    moreover obtain env' h' R' W' where "scm_add_environment h var val SCM_NULL = Some (env', h')"
        "env_at h' env' [[(var, val)]] R' W'" "brk_ok h'" "heap_le h h'"
      using add_env_toplevel [OF assms(2) v, of val] by blast
    moreover have "\<forall>b. mem h b \<noteq> None \<longrightarrow> mem h' b = mem h b" using heap_leD [OF calculation(5)] by fastforce
    ultimately show ?thesis using Nil by auto
  next
    case (Cons bs rest)
    then show ?thesis using add_env [OF assms(1) [unfolded Cons] assms(2) v, of val] by auto
  qed
qed

lemma env_growth_correct_witness:
  "\<exists>env' h' R' W'. scm_add_environment two_frames_heap (Ptr PTAG_MISC 1) (IntObj 7) (Ptr PTAG_CONS 5) = Some (env', h') \<and>
     env_at h' env' [[(Ptr PTAG_MISC 1, IntObj 7), (Ptr PTAG_MISC 0, IntObj 1), (Ptr PTAG_MISC 1, IntObj 2)],
       [(Ptr PTAG_MISC 0, IntObj 3)]] R' W'"
proof -
  have "brk_ok two_frames_heap" by (auto simp: brk_ok_def two_frames_heap_def)
  from env_growth_correct [OF two_frames_env this] two_frames_ids(2) show ?thesis by simp blast
qed

text \<open>C8: Assigning through the reference that a lookup gave changes exactly the innermost first binding of the
  variable: every other variable keeps its value and every cell outside the environment's own cells its
  contents.\<close>

theorem env_assignment_correct:
  assumes "env_at h env bss R W" "SYMBOLP h var" "scm_lookup_environment h var env = Some (Inr (Some r))"
    "SCM_SET h out r v = (h', out')"
  shows "\<exists>bss'. env_at h' env bss' R W \<and> map_of (concat bss') = (map_of (concat bss))(var \<mapsto> v) \<and>
    map (map fst) bss' = map (map fst) bss \<and> (\<forall>b. b \<notin> set W \<longrightarrow> mem h' b = mem h b)"
proof -
  note symb = symbol_not_far [OF assms(2)]
  have rep: "env_rep h env bss R W" using assms(1) by (simp add: env_at_def)
  obtain q where q: "lookup_frames h var env = Some q" "map_option (DEREF h SCM_INVALID) q = map_of (concat bss) var"
    using lookup_frames_eq [OF rep symb(2)] by blast
  then have l: "lookup_frames h var env = Some (Some r)" "map_of (concat bss) var \<noteq> None"
    using assms(3) unfolding scm_lookup_environment_def q(1) using symb(1) q(2) by (simp_all split: if_splits) (metis option.distinct(1) option.map(2))
  have "h' = fst (SCM_SET h out r v)" using assms(4) by simp
  moreover have "map (map fst) (set_binding var v bss) = map (map fst) bss"
    by (induction bss) (auto simp: update_keys)
  ultimately show ?thesis
    using env_set [OF assms(1) symb(2) l(1), of out v] set_binding_map_of [OF l(2), of v]
    by (intro exI [of _ "set_binding var v bss"]) (simp add: Let_def)
qed

lemma env_assignment_correct_witness:
  "\<exists>bss'. env_at (set_pair two_frames_heap 3 (IntObj 9) (IntObj 2)) (Ptr PTAG_CONS 5) bss' {5, 2, 9, 6} [4, 3, 8, 7] \<and>
     map_of (concat bss') (Ptr PTAG_MISC 0) = Some (IntObj 9)"
proof -
  let ?h = two_frames_heap
  have symb: "SYMBOLP ?h (Ptr PTAG_MISC 0)" by (simp add: two_frames_heap_def)
  have "scm_lookup_frame ?h (Ptr PTAG_MISC 0) (Ptr PTAG_CONS 4) = Some (Some (RefCar 3))"
    unfolding scm_lookup_frame_def by (subst lookup_frame_loop.simps) (simp add: two_frames_heap_def)
  then have "lookup_frames ?h (Ptr PTAG_MISC 0) (Ptr PTAG_CONS 5) = Some (Some (RefCar 3))"
    by (subst lookup_frames.simps) (simp add: two_frames_heap_def)
  then have l: "scm_lookup_environment ?h (Ptr PTAG_MISC 0) (Ptr PTAG_CONS 5) = Some (Inr (Some (RefCar 3)))"
    by (simp add: scm_lookup_environment_def)
  have st: "SCM_SET ?h SCM_INVALID (RefCar 3) (IntObj 9) = (set_pair ?h 3 (IntObj 9) (IntObj 2), SCM_INVALID)"
    by (simp add: two_frames_heap_def)
  show ?thesis using env_assignment_correct [OF two_frames_env symb l st] by auto
qed

text \<open>C36: What validation accepts, for all formals that end and all actuals. Where the actuals are a proper or a
  circular list it accepts exactly the pairs that make a frame: every formal an identifier, and as many actuals as
  formals, or at least as many for dotted formals. A dotted list of actuals is taken for a circular one: it is
  accepted exactly with dotted formals that are all identifiers, whatever the numbers are, so also where there is no
  frame (\<open>dotted_actuals_accepted\<close>).\<close>

theorem environment_extension_valid:
  assumes "heap_ok h" "obj_ok h a" "brk h < 2 ^ 60" "chain h f fs t" "\<not> CONSP t"
  shows "scm_valid_environment_extensionp h f a =
    Some (if \<exists>vs u. chain h a vs u \<and> \<not> CONSP u \<and> u \<noteq> SCM_NULL
      then (\<forall>v \<in> set fs. IDENTIFIERP h v) \<and> IDENTIFIERP h t
      else \<exists>bs R W. frame_bindings h f a bs R W)"
proof (cases "\<exists>vs u. chain h a vs u \<and> \<not> CONSP u \<and> u \<noteq> SCM_NULL")
  case True
  then obtain vs u where "chain h a vs u" "\<not> CONSP u" "u \<noteq> SCM_NULL" by blast
  from dotted_extension_valid [OF assms(1,3-5) this] True show ?thesis by simp
next
  case False
  have "scm_valid_environment_extensionp h f a = Some (\<exists>bs R W. frame_bindings h f a bs R W)"
    using False by (intro extension_valid_iff [OF assms]) blast
  with False show ?thesis by (simp only: if_False)
qed

lemma environment_extension_valid_witness:
  "scm_valid_environment_extensionp two_frames_heap (Ptr PTAG_CONS 6) (Ptr PTAG_CONS 7) = Some True"
proof -
  let ?h = two_frames_heap
  have ok: "heap_ok ?h" "obj_ok ?h (Ptr PTAG_CONS 7)" "brk ?h < 2 ^ 60"
    by (auto simp: heap_ok_def brk_ok_def two_frames_heap_def num_defs split: if_splits)
  have f: "chain ?h (Ptr PTAG_CONS 6) [Ptr PTAG_MISC 0] SCM_NULL" and a: "chain ?h (Ptr PTAG_CONS 7) [IntObj 3] SCM_NULL"
    by (simp_all add: has_pair_def two_frames_heap_def)
  have "\<not> (\<exists>vs u. chain ?h (Ptr PTAG_CONS 7) vs u \<and> \<not> CONSP u \<and> u \<noteq> SCM_NULL)"
    using chain_unique [OF a] by auto
  with environment_extension_valid [OF ok f]
  have "scm_valid_environment_extensionp ?h (Ptr PTAG_CONS 6) (Ptr PTAG_CONS 7) =
      Some (\<exists>bs R W. frame_bindings ?h (Ptr PTAG_CONS 6) (Ptr PTAG_CONS 7) bs R W)" by simp
  then show ?thesis using two_frames_outer by auto
qed

text \<open>C10: Hygiene: wrapping a symbol in an environment gives a new identifier that, looked up there or in any
  environment extended from it whose frames do not bind the new identifier itself, has the binding of the
  symbol where it was wrapped, whatever the frames in between bind.\<close>

theorem wrap_identifier_hygienic:
  assumes "env_rep h env outer R W" "SYMBOLP h symb" "brk_ok h"
  shows "\<exists>f h'. scm_wrap_identifier h symb (int (length outer)) env = Some (Inr (f, h')) \<and> heap_le h h' \<and> f \<noteq> symb \<and>
    (\<forall>h2 env2 inner outer2 R2 W2. misc_cell h2 f = misc_cell h' f \<longrightarrow> SYMBOLP h2 symb \<longrightarrow>
      env_rep h2 env2 (inner @ outer2) R2 W2 \<longrightarrow> length outer2 = length outer \<longrightarrow>
      f \<notin> fst ` set (concat (inner @ outer2)) \<longrightarrow>
      (\<exists>r. scm_lookup_environment h2 f env2 = Some (Inr r) \<and>
        map_option (DEREF h2 SCM_INVALID) r = map_of (concat outer2) symb))"
proof -
  let ?c = "FarsymbolCell symb (int (length outer))" and ?f = "Ptr PTAG_MISC (brk h)"
  let ?h = "snd (alloc h ?c)"
  have "alloc h ?c = (brk h, ?h)" by (simp add: alloc_def)
  note ext = alloc_extends [OF assms(3) this] and fr = alloc_fresh [OF assms(3) this]
  note nf = symbol_not_far [OF assms(2)]
  have wrap: "scm_wrap_identifier h symb (int (length outer)) env = Some (Inr (?f, ?h))"
    unfolding scm_wrap_identifier_def scm_make_farsymbol_def using nf(1) by (simp add: alloc_ptr_def alloc_def)
  have "\<exists>r. scm_lookup_environment h2 ?f env2 = Some (Inr r) \<and> map_option (DEREF h2 SCM_INVALID) r = map_of (concat outer2) symb"
    if "misc_cell h2 ?f = misc_cell ?h ?f" "SYMBOLP h2 symb" "env_rep h2 env2 (inner @ outer2) R2 W2"
      "length outer2 = length outer" "?f \<notin> fst ` set (concat (inner @ outer2))" for h2 env2 inner outer2 R2 W2
  proof -
    have c: "mem h2 (brk h) = Some (FarsymbolCell symb (int (length outer2)))" using that(1,4) fr by simp
    have "map_of (concat (inner @ outer2)) ?f = None" using that(5) by (simp only: map_of_eq_None_iff not_False_eq_True)
    then show ?thesis using far_symbol_lookup [OF that(3) c symbol_not_far(2) [OF that(2)]] by (simp only: option.case)
  qed
  moreover have "?f \<noteq> symb" using fr assms(2) by auto
  ultimately show ?thesis using wrap ext by blast
qed

lemma wrap_identifier_hygienic_witness:
  "\<exists>f h'. scm_wrap_identifier two_frames_heap (Ptr PTAG_MISC 0) 1 (Ptr PTAG_CONS 9) = Some (Inr (f, h')) \<and>
     (\<exists>r. scm_lookup_environment h' f (Ptr PTAG_CONS 5) = Some (Inr r) \<and>
       map_option (DEREF h' SCM_INVALID) r = Some (IntObj 3))"
proof -
  let ?h = two_frames_heap
  have symb: "SYMBOLP ?h (Ptr PTAG_MISC 0)" and ok: "brk_ok ?h" by (auto simp: brk_ok_def two_frames_heap_def)
  have whole: "env_rep ?h (Ptr PTAG_CONS 5)
     ([[(Ptr PTAG_MISC 0, IntObj 1), (Ptr PTAG_MISC 1, IntObj 2)]] @ [[(Ptr PTAG_MISC 0, IntObj 3)]]) {5, 2, 9, 6} [4, 3, 8, 7]"
    using two_frames_env by (simp add: env_at_def)
  have "env_rep ?h (Ptr PTAG_CONS 5)
     ([(Ptr PTAG_MISC 0, IntObj 1), (Ptr PTAG_MISC 1, IntObj 2)] # [[(Ptr PTAG_MISC 0, IntObj 3)]]) {5, 2, 9, 6} [4, 3, 8, 7]"
    using whole by simp
  then obtain R W where outer: "env_rep ?h (Ptr PTAG_CONS 9) [[(Ptr PTAG_MISC 0, IntObj 3)]] R W"
    by (rule env_rep_consE) (auto simp: two_frames_heap_def)
  obtain f h' where f: "scm_wrap_identifier ?h (Ptr PTAG_MISC 0) (int (length [[(Ptr PTAG_MISC 0, IntObj 3)]])) (Ptr PTAG_CONS 9) = Some (Inr (f, h'))"
      "heap_le ?h h'" "f \<noteq> Ptr PTAG_MISC 0" and
    hyg: "\<And>h2 env2 inner outer2 R2 W2. misc_cell h2 f = misc_cell h' f \<Longrightarrow> SYMBOLP h2 (Ptr PTAG_MISC 0) \<Longrightarrow>
      env_rep h2 env2 (inner @ outer2) R2 W2 \<Longrightarrow> length outer2 = length [[(Ptr PTAG_MISC 0, IntObj 3)]] \<Longrightarrow>
      f \<notin> fst ` set (concat (inner @ outer2)) \<Longrightarrow>
      (\<exists>r. scm_lookup_environment h2 f env2 = Some (Inr r) \<and>
        map_option (DEREF h2 SCM_INVALID) r = map_of (concat outer2) (Ptr PTAG_MISC 0))"
    using wrap_identifier_hygienic [OF outer symb ok] by blast
  have wr: "f = Ptr PTAG_MISC 10"
    using f(1) by (auto simp: scm_wrap_identifier_def scm_make_farsymbol_def alloc_ptr_def alloc_def two_frames_heap_def split: if_splits)
  have "SYMBOLP h' (Ptr PTAG_MISC 0)"
    using heap_leD [OF f(2), of 0 "SymbolCell SCM_UNBOUND ''x''"] by (simp add: two_frames_heap_def)
  from hyg [OF refl this env_rep_le [OF whole f(2)]] wr show ?thesis using f(1) by simp
qed

end
