(* ===== verification/Vectors.thy ===== *)
theory Vectors
  imports Strings
begin

text \<open>
  Vectors and bytevectors: \<^verbatim>\<open>src/vector.c\<close>, \<^verbatim>\<open>src/bytevector.c\<close> and \<^verbatim>\<open>scm_parse_range\<close> of
  \<^verbatim>\<open>src/sigscheme.c\<close>.

  The elements are part of the cell; a store into the C array is an update of the cell.
\<close>

section \<open>Cells\<close>

definition VECTOR_VEC :: "heap \<Rightarrow> obj \<Rightarrow> obj list" where
  "VECTOR_VEC h x = (case misc_cell h x of Some (VectorCell vec _) \<Rightarrow> vec | _ \<Rightarrow> [])"

definition VECTOR_LEN :: "heap \<Rightarrow> obj \<Rightarrow> int" where
  "VECTOR_LEN h x = int (length (VECTOR_VEC h x))"

definition VECTOR_MUTABLEP :: "heap \<Rightarrow> obj \<Rightarrow> bool" where
  "VECTOR_MUTABLEP h x = (case misc_cell h x of Some (VectorCell _ mut) \<Rightarrow> mut | _ \<Rightarrow> False)"

definition VECTOR_VALID_INDEXP :: "heap \<Rightarrow> obj \<Rightarrow> int \<Rightarrow> bool" where
  "VECTOR_VALID_INDEXP h x i \<longleftrightarrow> 0 \<le> i \<and> i < VECTOR_LEN h x"

definition store_vector :: "heap \<Rightarrow> obj \<Rightarrow> obj list \<Rightarrow> heap" where
  "store_vector h x vec = put_cell h x (VectorCell vec (VECTOR_MUTABLEP h x))"

definition BYTEVECTOR_VEC :: "heap \<Rightarrow> obj \<Rightarrow> byte list" where
  "BYTEVECTOR_VEC h x = (case misc_cell h x of Some (BytevectorCell vec _) \<Rightarrow> vec | _ \<Rightarrow> [])"

definition BYTEVECTOR_LEN :: "heap \<Rightarrow> obj \<Rightarrow> int" where
  "BYTEVECTOR_LEN h x = int (length (BYTEVECTOR_VEC h x))"

definition BYTEVECTOR_MUTABLEP :: "heap \<Rightarrow> obj \<Rightarrow> bool" where
  "BYTEVECTOR_MUTABLEP h x = (case misc_cell h x of Some (BytevectorCell _ mut) \<Rightarrow> mut | _ \<Rightarrow> False)"

definition BYTEVECTOR_VALID_INDEXP :: "heap \<Rightarrow> obj \<Rightarrow> int \<Rightarrow> bool" where
  "BYTEVECTOR_VALID_INDEXP h x i \<longleftrightarrow> 0 \<le> i \<and> i < BYTEVECTOR_LEN h x"

definition store_bytevector :: "heap \<Rightarrow> obj \<Rightarrow> byte list \<Rightarrow> heap" where
  "store_bytevector h x vec = put_cell h x (BytevectorCell vec (BYTEVECTOR_MUTABLEP h x))"

section \<open>Checks\<close>

fun BYTEP :: "obj \<Rightarrow> bool" where
  "BYTEP (IntObj i) \<longleftrightarrow> 0 \<le> i \<and> i \<le> 255"
| "BYTEP _ \<longleftrightarrow> False"

definition ENSURE_VECTOR :: "heap \<Rightarrow> obj \<Rightarrow> unit res" where
  "ENSURE_VECTOR h x = (if VECTORP h x then Inr () else Inl (ErrObj ''vector required but got'' x))"
definition ENSURE_MUTABLE_VECTOR :: "heap \<Rightarrow> obj \<Rightarrow> unit res" where
  "ENSURE_MUTABLE_VECTOR h x =
     (if VECTOR_MUTABLEP h x then Inr () else Inl (ErrObj ''attempted to modify immutable vector'' x))"
definition ENSURE_BYTEVECTOR :: "heap \<Rightarrow> obj \<Rightarrow> unit res" where
  "ENSURE_BYTEVECTOR h x = (if BYTEVECTORP h x then Inr () else Inl (ErrObj ''bytevector required but got'' x))"
definition ENSURE_MUTABLE_BYTEVECTOR :: "heap \<Rightarrow> obj \<Rightarrow> unit res" where
  "ENSURE_MUTABLE_BYTEVECTOR h x =
     (if BYTEVECTOR_MUTABLEP h x then Inr () else Inl (ErrObj ''attempted to modify immutable bytevector'' x))"
definition ENSURE_BYTE :: "obj \<Rightarrow> unit res" where
  "ENSURE_BYTE x = (if BYTEP x then Inr () else Inl (ErrObj ''byte required but got'' x))"

definition index_error :: "obj \<Rightarrow> scm_error" where "index_error k = ErrObj ''index out of range'' k"

text \<open>The optional start and end of a range.\<close>

definition scm_parse_range :: "heap \<Rightarrow> obj \<Rightarrow> int \<Rightarrow> (int \<times> int) res" where
  "scm_parse_range h args len =
     (if NULLP args then Inr (0, len)
      else and_then (ENSURE_INT (CAR h args)) (\<lambda>_.
        let start = SCM_INT_VALUE (CAR h args); args = CDR h args in
        and_then (if CONSP args then and_then (ENSURE_INT (CAR h args)) (\<lambda>_. Inr (SCM_INT_VALUE (CAR h args), CDR h args))
                  else Inr (len, args)) (\<lambda>(end', args).
          if \<not> NULLP args then Inl (ErrObj ''superfluous argument(s)'' args)
          else if \<not> (0 \<le> start \<and> start \<le> end' \<and> end' \<le> len) then Inl (ErrObjs ''invalid range'' [IntObj start, IntObj end'])
          else Inr (start, end'))))"

section \<open>vector.c\<close>

definition scm_p_vectorp :: "heap \<Rightarrow> obj \<Rightarrow> obj" where
  "scm_p_vectorp h x = MAKE_BOOL (VECTORP h x)"

definition scm_p_make_vector :: "heap \<Rightarrow> obj \<Rightarrow> obj \<Rightarrow> (obj \<times> heap) res" where
  "scm_p_make_vector h scm_len args =
     and_then (ENSURE_INT scm_len) (\<lambda>_.
     let len = SCM_INT_VALUE scm_len in
     if len < 0 then Inl (ErrObj ''length must be a non-negative integer'' scm_len)
     else and_then (if NULLP args then Inr SCM_UNDEF
                    else and_then (ENSURE_NO_MORE_ARG (CDR h args)) (\<lambda>_. Inr (CAR h args))) (\<lambda>filler.
       Inr (scm_make_vector h (replicate (nat len) filler))))"

definition scm_p_vector_length :: "heap \<Rightarrow> obj \<Rightarrow> obj res" where
  "scm_p_vector_length h vec = and_then (ENSURE_VECTOR h vec) (\<lambda>_. Inr (IntObj (VECTOR_LEN h vec)))"

definition scm_p_vector_ref :: "heap \<Rightarrow> obj \<Rightarrow> obj \<Rightarrow> obj res" where
  "scm_p_vector_ref h vec k =
     and_then (ENSURE_VECTOR h vec) (\<lambda>_. and_then (ENSURE_INT k) (\<lambda>_.
       if \<not> VECTOR_VALID_INDEXP h vec (SCM_INT_VALUE k) then Inl (index_error k)
       else Inr (VECTOR_VEC h vec ! nat (SCM_INT_VALUE k))))"

definition scm_p_vector_setx :: "heap \<Rightarrow> obj \<Rightarrow> obj \<Rightarrow> obj \<Rightarrow> (obj \<times> heap) res" where
  "scm_p_vector_setx h vec k x =
     and_then (ENSURE_VECTOR h vec) (\<lambda>_. and_then (ENSURE_MUTABLE_VECTOR h vec) (\<lambda>_. and_then (ENSURE_INT k) (\<lambda>_.
       if \<not> VECTOR_VALID_INDEXP h vec (SCM_INT_VALUE k) then Inl (index_error k)
       else Inr (SCM_UNDEF, store_vector h vec ((VECTOR_VEC h vec)[nat (SCM_INT_VALUE k) := x])))))"

fun vector2list_loop :: "heap \<Rightarrow> obj \<Rightarrow> ref \<Rightarrow> obj list \<Rightarrow> obj \<times> heap" where
  "vector2list_loop h ret q [] = (ret, h)"
| "vector2list_loop h ret q (v # vs) = (case queue_add h ret q v of (h, ret, q) \<Rightarrow> vector2list_loop h ret q vs)"

definition scm_p_vector2list :: "heap \<Rightarrow> obj \<Rightarrow> (obj \<times> heap) res" where
  "scm_p_vector2list h vec =
     and_then (ENSURE_VECTOR h vec) (\<lambda>_. Inr (vector2list_loop h SCM_NULL RefOffHeap (VECTOR_VEC h vec)))"

fun pop_elements :: "heap \<Rightarrow> nat \<Rightarrow> obj \<Rightarrow> obj list" where
  "pop_elements h 0 lst = []"
| "pop_elements h (Suc n) lst = CAR h lst # pop_elements h n (CDR h lst)"

definition scm_p_list2vector :: "heap \<Rightarrow> obj \<Rightarrow> (obj \<times> heap) res option" where
  "scm_p_list2vector h lst = map_option (\<lambda>len.
     if \<not> SCM_LISTLEN_PROPERP len then Inl (ErrObj ''proper list required but got'' lst)
     else Inr (scm_make_vector h (pop_elements h (nat len) lst))) (scm_length h lst)"

definition scm_p_vector :: "heap \<Rightarrow> obj \<Rightarrow> (obj \<times> heap) res option" where
  "scm_p_vector h args = scm_p_list2vector h args"

definition scm_p_vector_fillx :: "heap \<Rightarrow> obj \<Rightarrow> obj \<Rightarrow> (obj \<times> heap) res" where
  "scm_p_vector_fillx h vec fill =
     and_then (ENSURE_VECTOR h vec) (\<lambda>_. and_then (ENSURE_MUTABLE_VECTOR h vec) (\<lambda>_.
       Inr (SCM_UNDEF, store_vector h vec (replicate (nat (VECTOR_LEN h vec)) fill))))"

definition scm_p_vector_mutablep :: "heap \<Rightarrow> obj \<Rightarrow> obj res" where
  "scm_p_vector_mutablep h vec = and_then (ENSURE_VECTOR h vec) (\<lambda>_. Inr (MAKE_BOOL (VECTOR_MUTABLEP h vec)))"

section \<open>bytevector.c\<close>

definition make_bytevector_copying :: "heap \<Rightarrow> byte list \<Rightarrow> obj \<times> heap" where
  "make_bytevector_copying h bytes = scm_make_bytevector h bytes"

definition ensure_utf8_codec :: "codec_vtbl \<Rightarrow> unit res" where
  "ensure_utf8_codec codec =
     (if codec_ccs codec = CCS_UNICODE then Inr () else Inl (ErrObj ''UTF-8 character codec required'' SCM_NULL))"

definition scm_p_bytevectorp :: "heap \<Rightarrow> obj \<Rightarrow> obj" where
  "scm_p_bytevectorp h x = MAKE_BOOL (BYTEVECTORP h x)"

definition byte_of :: "obj \<Rightarrow> byte" where "byte_of x = word_of_int (SCM_INT_VALUE x)"

definition scm_p_make_bytevector :: "heap \<Rightarrow> obj \<Rightarrow> obj \<Rightarrow> (obj \<times> heap) res" where
  "scm_p_make_bytevector h scm_len args =
     and_then (ENSURE_INT scm_len) (\<lambda>_.
     let len = SCM_INT_VALUE scm_len in
     if len < 0 then Inl (ErrObj ''length must be a non-negative integer'' scm_len)
     else and_then (if NULLP args then Inr (IntObj 0)
                    else and_then (ENSURE_NO_MORE_ARG (CDR h args)) (\<lambda>_.
                         and_then (ENSURE_BYTE (CAR h args)) (\<lambda>_. Inr (CAR h args)))) (\<lambda>fill.
       Inr (scm_make_bytevector h (replicate (nat len) (byte_of fill)))))"

partial_function (option) bytevector_loop :: "heap \<Rightarrow> obj \<Rightarrow> byte list \<Rightarrow> byte list res option" where
  "bytevector_loop h rest vec =
     (if CONSP rest then
        (case ENSURE_BYTE (CAR h rest) of
           Inl e \<Rightarrow> Some (Inl e)
         | Inr _ \<Rightarrow> bytevector_loop h (CDR h rest) (vec @ [byte_of (CAR h rest)]))
      else Some (Inr vec))"

definition scm_p_bytevector :: "heap \<Rightarrow> obj \<Rightarrow> (obj \<times> heap) res option" where
  "scm_p_bytevector h args =
     Option.bind (scm_length h args) (\<lambda>len.
       if \<not> SCM_LISTLEN_PROPERP len then Some (Inl (ErrObj ''proper list required but got'' args))
       else map_option (map_sum (\<lambda>e. e) (\<lambda>vec. scm_make_bytevector h vec)) (bytevector_loop h args []))"

definition scm_p_bytevector_u8_ref :: "heap \<Rightarrow> obj \<Rightarrow> obj \<Rightarrow> obj res" where
  "scm_p_bytevector_u8_ref h bv k =
     and_then (ENSURE_BYTEVECTOR h bv) (\<lambda>_. and_then (ENSURE_INT k) (\<lambda>_.
       if \<not> BYTEVECTOR_VALID_INDEXP h bv (SCM_INT_VALUE k) then Inl (index_error k)
       else Inr (IntObj (uint (BYTEVECTOR_VEC h bv ! nat (SCM_INT_VALUE k))))))"

definition scm_p_bytevector_u8_setx :: "heap \<Rightarrow> obj \<Rightarrow> obj \<Rightarrow> obj \<Rightarrow> (obj \<times> heap) res" where
  "scm_p_bytevector_u8_setx h bv k byte =
     and_then (ENSURE_BYTEVECTOR h bv) (\<lambda>_. and_then (ENSURE_MUTABLE_BYTEVECTOR h bv) (\<lambda>_.
     and_then (ENSURE_INT k) (\<lambda>_. and_then (ENSURE_BYTE byte) (\<lambda>_.
       if \<not> BYTEVECTOR_VALID_INDEXP h bv (SCM_INT_VALUE k) then Inl (index_error k)
       else Inr (SCM_UNDEF, store_bytevector h bv ((BYTEVECTOR_VEC h bv)[nat (SCM_INT_VALUE k) := byte_of byte]))))))"

definition scm_p_bytevector_length :: "heap \<Rightarrow> obj \<Rightarrow> obj res" where
  "scm_p_bytevector_length h bv = and_then (ENSURE_BYTEVECTOR h bv) (\<lambda>_. Inr (IntObj (BYTEVECTOR_LEN h bv)))"

definition slice :: "int \<Rightarrow> int \<Rightarrow> 'a list \<Rightarrow> 'a list" where
  "slice start end' xs = take (nat (end' - start)) (drop (nat start) xs)"

definition scm_p_bytevector_copy :: "heap \<Rightarrow> obj \<Rightarrow> obj \<Rightarrow> (obj \<times> heap) res" where
  "scm_p_bytevector_copy h bv args =
     and_then (ENSURE_BYTEVECTOR h bv) (\<lambda>_. and_then (scm_parse_range h args (BYTEVECTOR_LEN h bv)) (\<lambda>(start, end').
       Inr (make_bytevector_copying h (slice start end' (BYTEVECTOR_VEC h bv)))))"

text \<open>\<^verbatim>\<open>memmove\<close>: the source is read before the destination is written.\<close>

definition memmove :: "byte list \<Rightarrow> nat \<Rightarrow> byte list \<Rightarrow> byte list" where
  "memmove dst at src = take at dst @ src @ drop (at + length src) dst"

definition scm_p_bytevector_copyx :: "heap \<Rightarrow> obj \<Rightarrow> obj \<Rightarrow> obj \<Rightarrow> obj \<Rightarrow> (obj \<times> heap) res" where
  "scm_p_bytevector_copyx h to at from args =
     and_then (ENSURE_BYTEVECTOR h to) (\<lambda>_. and_then (ENSURE_MUTABLE_BYTEVECTOR h to) (\<lambda>_.
     and_then (ENSURE_INT at) (\<lambda>_. and_then (ENSURE_BYTEVECTOR h from) (\<lambda>_.
     and_then (scm_parse_range h args (BYTEVECTOR_LEN h from)) (\<lambda>(start, end').
       let to_start = SCM_INT_VALUE at in
       if \<not> (0 \<le> to_start \<and> end' - start \<le> BYTEVECTOR_LEN h to - to_start) then Inl (index_error at)
       else Inr (SCM_UNDEF, store_bytevector h to
              (memmove (BYTEVECTOR_VEC h to) (nat to_start) (slice start end' (BYTEVECTOR_VEC h from)))))))))"

partial_function (option) bytevector_append_count :: "heap \<Rightarrow> obj \<Rightarrow> int \<Rightarrow> int res option" where
  "bytevector_append_count h rest len =
     (if CONSP rest then
        (case ENSURE_BYTEVECTOR h (CAR h rest) of
           Inl e \<Rightarrow> Some (Inl e)
         | Inr _ \<Rightarrow> bytevector_append_count h (CDR h rest) (len + BYTEVECTOR_LEN h (CAR h rest)))
      else Some (Inr len))"

partial_function (option) bytevector_append_copy :: "heap \<Rightarrow> obj \<Rightarrow> byte list \<Rightarrow> byte list option" where
  "bytevector_append_copy h args appended =
     (if CONSP args then bytevector_append_copy h (CDR h args) (appended @ BYTEVECTOR_VEC h (CAR h args))
      else Some appended)"

definition scm_p_bytevector_append :: "heap \<Rightarrow> obj \<Rightarrow> (obj \<times> heap) res option" where
  "scm_p_bytevector_append h args =
     Option.bind (bytevector_append_count h args 0) (\<lambda>r. case r of
         Inl e \<Rightarrow> Some (Inl e)
       | Inr len \<Rightarrow> map_option (\<lambda>appended. Inr (scm_make_bytevector h appended)) (bytevector_append_copy h args []))"

text \<open>\<^verbatim>\<open>utf8->string\<close> scans every character before it makes the string.\<close>

partial_function (option) utf82string_scan :: "codec_vtbl \<Rightarrow> obj \<Rightarrow> byte list \<Rightarrow> int \<Rightarrow> int res option" where
  "utf82string_scan codec bv mbs len =
     (if mbs = [] then Some (Inr len)
      else let mbc = scan_char codec mbs in
        if mbc_flag mbc = MBCFLAG_ERROR \<or> mbc_flag mbc = MBCFLAG_INCOMPLETE then Some (Inl (ErrObj ''invalid UTF-8 bytes'' bv))
        else utf82string_scan codec bv (drop (mbc_size mbc) mbs) (len + 1))"

definition scm_p_utf82string :: "codec_vtbl \<Rightarrow> heap \<Rightarrow> obj \<Rightarrow> obj \<Rightarrow> (obj \<times> heap) res option" where
  "scm_p_utf82string codec h bv args =
     check (ENSURE_BYTEVECTOR h bv) (\<lambda>_. case scm_parse_range h args (BYTEVECTOR_LEN h bv) of
       Inl e \<Rightarrow> Some (Inl e)
     | Inr (start, end') \<Rightarrow>
       check (ensure_utf8_codec codec) (\<lambda>_.
         let bytes = slice start end' (BYTEVECTOR_VEC h bv) in
         if 0 \<in> set bytes then Some (Inl null_in_string)
         else Option.bind (utf82string_scan codec bv bytes 0) (\<lambda>r. case r of
             Inl e \<Rightarrow> Some (Inl e)
           | Inr len \<Rightarrow> map_option Inr (scm_make_string codec h bytes len))))"

definition scm_p_string2utf8 :: "codec_vtbl \<Rightarrow> heap \<Rightarrow> obj \<Rightarrow> obj \<Rightarrow> (obj \<times> heap) res" where
  "scm_p_string2utf8 codec h str args =
     and_then (ENSURE_STRING h str) (\<lambda>_. and_then (scm_parse_range h args (STRING_LEN h str)) (\<lambda>(start, end').
     and_then (ensure_utf8_codec codec) (\<lambda>_.
       Inr (make_bytevector_copying h (scm_mb_substring codec (STRING_STR h str) (nat start) (nat (end' - start)))))))"

section \<open>Cells and lists\<close>

lemma vector_cell:
  assumes "misc_cell h v = Some (VectorCell xs mut)"
  shows "VECTORP h v" "VECTOR_VEC h v = xs" "VECTOR_LEN h v = int (length xs)" "VECTOR_MUTABLEP h v = mut"
  using assms by (simp_all add: VECTOR_VEC_def VECTOR_LEN_def VECTOR_MUTABLEP_def)

lemma bytevector_cell:
  assumes "misc_cell h v = Some (BytevectorCell bs mut)"
  shows "BYTEVECTORP h v" "BYTEVECTOR_VEC h v = bs" "BYTEVECTOR_LEN h v = int (length bs)"
    "BYTEVECTOR_MUTABLEP h v = mut"
  using assms by (simp_all add: BYTEVECTOR_VEC_def BYTEVECTOR_LEN_def BYTEVECTOR_MUTABLEP_def)

text \<open>A new cell extends the heap.\<close>

lemma alloc_misc:
  assumes "brk_ok h" "alloc_ptr PTAG_MISC h c = (p, h')"
  shows "misc_cell h' p = Some c \<and> heap_le h h' \<and> brk_ok h'"
proof -
  obtain a where a: "alloc h c = (a, h')" "p = Ptr PTAG_MISC a"
    using assms(2) by (auto simp: alloc_ptr_def split: prod.splits)
  then show ?thesis using alloc_extends [OF assms(1) a(1)] alloc_fresh [OF assms(1) a(1)] by simp
qed

lemma pop_elements_chain: "chain h lst (us @ vs) t \<Longrightarrow> pop_elements h (length us) lst = us"
  by (induction us arbitrary: lst) auto

lemma vector2list_queue:
  "queue_inv h0 h out ps \<Longrightarrow>
     \<exists>h' out' ps'. vector2list_loop h out (slot ps) vs = (out', h') \<and> queue_inv h0 h' out' ps' \<and>
       map snd ps' = map snd ps @ vs"
proof (induction vs arbitrary: h out ps)
  case (Cons v vs)
  obtain h2 out2 q2 where add: "queue_add h out (slot ps) v = (h2, out2, q2)" by (metis prod_cases3)
  note q = queue_add_inv [OF Cons.prems add]
  show ?case using Cons.IH [of h2 out2 "ps @ [(brk h, v)]"] q add by simp
qed auto

lemma vector_to_list:
  assumes "misc_cell h v = Some (VectorCell xs mut)" "brk_ok h"
  obtains l h' where "scm_p_vector2list h v = Inr (l, h')" "chain h' l xs SCM_NULL" "heap_le h h'" "brk_ok h'"
proof -
  have "queue_inv h h SCM_NULL []" using assms(2) by (simp add: queue_inv_def)
  from vector2list_queue [OF this, of xs] obtain h' out' ps'
    where l: "vector2list_loop h SCM_NULL RefOffHeap xs = (out', h')" "queue_inv h h' out' ps'" "map snd ps' = xs"
    by (auto simp: slot_def)
  show thesis
  proof (rule that)
    show "scm_p_vector2list h v = Inr (out', h')"
      using l(1) vector_cell [OF assms(1)] by (simp add: scm_p_vector2list_def ENSURE_VECTOR_def)
    show "chain h' out' xs SCM_NULL" using l lseg_chain [of h' out' ps'] by (simp add: queue_inv_def)
  qed (use l(2) in \<open>simp_all add: queue_inv_def\<close>)
qed

lemma list_to_vector:
  assumes "chain h lst vs SCM_NULL" "brk_ok h"
  obtains v h' where "scm_p_list2vector h lst = Some (Inr (v, h'))"
    "misc_cell h' v = Some (VectorCell vs True)" "heap_le h h'" "brk_ok h'"
proof -
  obtain v h' where mk: "alloc_ptr PTAG_MISC h (VectorCell vs True) = (v, h')" by (metis surj_pair)
  have "scm_length h lst = Some (int (length vs))" using scm_length_chain [OF assms(1)] by simp
  moreover have "pop_elements h (length vs) lst = vs" using pop_elements_chain [of h lst vs "[]"] assms(1) by simp
  ultimately have "scm_p_list2vector h lst = Some (Inr (v, h'))"
    using mk by (simp add: scm_p_list2vector_def scm_make_vector_def SCM_LISTLEN_PROPERP_def)
  then show thesis using that alloc_misc [OF assms(2) mk] by blast
qed

lemma parse_range_two:
  assumes "chain h args [IntObj i, IntObj j] SCM_NULL"
  shows "scm_parse_range h args len = (if 0 \<le> i \<and> i \<le> j \<and> j \<le> len then Inr (i, j) else Inl (ErrObjs ''invalid range'' [IntObj i, IntObj j]))"
  using assms by (auto simp: scm_parse_range_def ENSURE_INT_def dest: has_pair_CONSP)

lemma length_memmove [simp]: "at + length src \<le> length dst \<Longrightarrow> length (memmove dst at src) = length dst"
  by (simp add: memmove_def)

lemma nth_memmove:
  "at + length src \<le> length dst \<Longrightarrow> n < length dst \<Longrightarrow>
     memmove dst at src ! n = (if at \<le> n \<and> n < at + length src then src ! (n - at) else dst ! n)"
  by (auto simp: memmove_def nth_append)

lemma length_slice: "0 \<le> i \<Longrightarrow> i \<le> j \<Longrightarrow> j \<le> int (length xs) \<Longrightarrow> length (slice i j xs) = nat (j - i)"
  by (simp add: slice_def)

lemma nth_slice: "n < nat (j - i) \<Longrightarrow> 0 \<le> i \<Longrightarrow> j \<le> int (length xs) \<Longrightarrow> slice i j xs ! n = xs ! (nat i + n)"
  unfolding slice_def by (subst nth_take) (assumption, subst nth_drop, linarith, simp)

context char_codec begin

lemma utf82string_scan_encoded:
  "\<forall>c \<in> set cs. valid c \<Longrightarrow> utf82string_scan codec bv (encode_str codec cs) n = Some (Inr (n + int (length cs)))"
proof (induction cs arbitrary: n)
  case Nil
  then show ?case by (subst utf82string_scan.simps) simp
next
  case (Cons c cs)
  then have "valid c" by simp
  then show ?case
  proof (elim encodableE)
    fix bs assume bs: "int2str codec c = Some bs" "bs \<noteq> []" "\<And>rest. scan_char codec (bs @ rest) = RETURN (length bs)"
    have "utf82string_scan codec bv (encode_str codec (c # cs)) n = utf82string_scan codec bv (encode_str codec cs) (n + 1)"
      using bs by (subst utf82string_scan.simps) (simp add: encode_str_Cons RETURN_def)
    then show ?thesis using Cons by simp
  qed
qed

end

section \<open>Properties\<close>

text \<open>\<^verbatim>\<open>vector-ref\<close> reads and \<^verbatim>\<open>vector-set!\<close> replaces the indexed element: an index out of range is
  an error for both, writing to an immutable vector an error before that, and no other cell changes.\<close>

theorem vector_access_correct:
  assumes "misc_cell h v = Some (VectorCell xs mut)"
  shows "(scm_p_vector_ref h v (IntObj k) =
      (if 0 \<le> k \<and> k < int (length xs) then Inr (xs ! nat k)
       else Inl (ErrObj ''index out of range'' (IntObj k)))) \<and>
    (case scm_p_vector_setx h v (IntObj k) x of
       Inl e \<Rightarrow> e = (if \<not> mut then ErrObj ''attempted to modify immutable vector'' v
                    else ErrObj ''index out of range'' (IntObj k)) \<and>
         (\<not> mut \<or> k < 0 \<or> int (length xs) \<le> k)
     | Inr (u, h') \<Rightarrow> mut \<and> 0 \<le> k \<and> k < int (length xs) \<and> u = SCM_UNDEF \<and>
         misc_cell h' v = Some (VectorCell (xs[nat k := x]) True) \<and>
         (\<forall>y. y \<noteq> v \<longrightarrow> misc_cell h' y = misc_cell h y))"
  using vector_cell [OF assms] put_cell_same [OF assms] put_cell_other
  by (auto simp: scm_p_vector_ref_def scm_p_vector_setx_def ENSURE_VECTOR_def ENSURE_MUTABLE_VECTOR_def
      ENSURE_INT_def VECTOR_VALID_INDEXP_def index_error_def store_vector_def)

definition vector_heap :: heap where
  "vector_heap = \<lparr>mem = [0 \<mapsto> VectorCell [IntObj 5, IntObj 6] True, 1 \<mapsto> BytevectorCell [1, 2, 3, 4] True,
     2 \<mapsto> PairCell (IntObj 0) (Ptr PTAG_CONS 3), 3 \<mapsto> PairCell (IntObj 3) SCM_NULL,
     4 \<mapsto> StringCell [0x41, 0xE3, 0x81, 0x82, 0x42] 3 True], brk = 5\<rparr>"

lemma vector_heap_ok: "brk_ok vector_heap" "chain vector_heap (Ptr PTAG_CONS 2) [IntObj 0, IntObj 3] SCM_NULL"
  by (simp_all add: vector_heap_def brk_ok_def has_pair_def)

theorem vector_access_correct_witness:
  "scm_p_vector_ref vector_heap (Ptr PTAG_MISC 0) (IntObj 1) = Inr (IntObj 6)"
proof -
  have "misc_cell vector_heap (Ptr PTAG_MISC 0) = Some (VectorCell [IntObj 5, IntObj 6] True)"
    by (simp add: vector_heap_def)
  from vector_access_correct [OF this, of 1] show ?thesis by simp
qed

text \<open>\<^verbatim>\<open>list->vector\<close> of a proper list is a new mutable vector of its elements and \<^verbatim>\<open>vector->list\<close> of that
  a new list of the same elements; every cell that existed before, and so the first list, is unchanged.\<close>

theorem list_vector_roundtrip:
  assumes "chain h lst vs SCM_NULL" "brk_ok h"
  shows "\<exists>v h1 l h2. scm_p_list2vector h lst = Some (Inr (v, h1)) \<and> misc_cell h1 v = Some (VectorCell vs True) \<and>
    scm_p_vector2list h1 v = Inr (l, h2) \<and> chain h2 l vs SCM_NULL \<and> heap_le h h1 \<and> heap_le h1 h2 \<and> brk_ok h2"
proof -
  obtain v h1 where v: "scm_p_list2vector h lst = Some (Inr (v, h1))" "misc_cell h1 v = Some (VectorCell vs True)"
      "heap_le h h1" "brk_ok h1" by (rule list_to_vector [OF assms])
  obtain l h2 where "scm_p_vector2list h1 v = Inr (l, h2)" "chain h2 l vs SCM_NULL" "heap_le h1 h2" "brk_ok h2"
    by (rule vector_to_list [OF v(2,4)])
  with v show ?thesis by blast
qed

theorem list_vector_roundtrip_witness:
  "\<exists>v h1. scm_p_list2vector vector_heap (Ptr PTAG_CONS 2) = Some (Inr (v, h1)) \<and>
     misc_cell h1 v = Some (VectorCell [IntObj 0, IntObj 3] True)"
  using list_vector_roundtrip [OF vector_heap_ok(2,1)] by blast

text \<open>C40: \<^verbatim>\<open>bytevector-copy!\<close> copies a range of the source as it was before the call, also when source and
  destination are the same bytevector: the bytes at the destination's range are the source's, every other
  byte and every other cell is unchanged. A bad source range, and then a range that does not fit into the
  destination, is an error.\<close>

theorem bytevector_copyx_correct:
  assumes "misc_cell h to = Some (BytevectorCell t True)" "misc_cell h from = Some (BytevectorCell f m)"
    and "chain h args [IntObj i, IntObj j] SCM_NULL"
  shows "case scm_p_bytevector_copyx h to (IntObj k) from args of
       Inl e \<Rightarrow> if 0 \<le> i \<and> i \<le> j \<and> j \<le> int (length f)
         then e = ErrObj ''index out of range'' (IntObj k) \<and> (k < 0 \<or> int (length t) < k + (j - i))
         else e = ErrObjs ''invalid range'' [IntObj i, IntObj j]
     | Inr (u, h') \<Rightarrow> 0 \<le> i \<and> i \<le> j \<and> j \<le> int (length f) \<and> 0 \<le> k \<and> k + (j - i) \<le> int (length t) \<and> u = SCM_UNDEF \<and>
         (\<exists>t'. misc_cell h' to = Some (BytevectorCell t' True) \<and> length t' = length t \<and>
            (\<forall>n < length t. t' ! n =
               (if k \<le> int n \<and> int n < k + (j - i) then f ! nat (int n - k + i) else t ! n))) \<and>
         (\<forall>y. y \<noteq> to \<longrightarrow> misc_cell h' y = misc_cell h y)"
proof (cases "0 \<le> i \<and> i \<le> j \<and> j \<le> int (length f) \<and> 0 \<le> k \<and> k + (j - i) \<le> int (length t)")
  case False
  then show ?thesis
    using bytevector_cell [OF assms(1)] bytevector_cell [OF assms(2)] parse_range_two [OF assms(3)]
    by (auto simp: scm_p_bytevector_copyx_def ENSURE_BYTEVECTOR_def ENSURE_MUTABLE_BYTEVECTOR_def
        ENSURE_INT_def index_error_def)
next
  case True
  let ?src = "slice i j f" and ?t = "memmove t (nat k) (slice i j f)"
  let ?h = "put_cell h to (BytevectorCell ?t True)"
  have len: "length ?src = nat (j - i)" using True length_slice [of i j f] by blast
  then have fit: "nat k + length ?src \<le> length t" using True by linarith
  have run: "scm_p_bytevector_copyx h to (IntObj k) from args = Inr (SCM_UNDEF, ?h)"
    using True bytevector_cell [OF assms(1)] bytevector_cell [OF assms(2)] parse_range_two [OF assms(3)]
    by (simp add: scm_p_bytevector_copyx_def ENSURE_BYTEVECTOR_def ENSURE_MUTABLE_BYTEVECTOR_def
        ENSURE_INT_def store_bytevector_def)
  have "?t ! n = (if k \<le> int n \<and> int n < k + (j - i) then f ! nat (int n - k + i) else t ! n)" if "n < length t" for n
  proof (cases "k \<le> int n \<and> int n < k + (j - i)")
    case inside: True
    have "nat k \<le> n \<and> n < nat k + length ?src" using inside len True by linarith
    moreover have "?src ! (n - nat k) = f ! (nat i + (n - nat k))"
      using inside True by (intro nth_slice) linarith+
    moreover have "nat i + (n - nat k) = nat (int n - k + i)" using inside True by linarith
    ultimately show ?thesis using nth_memmove [OF fit that] inside by simp
  next
    case outside: False
    then have "\<not> (nat k \<le> n \<and> n < nat k + length ?src)" using len True by linarith
    with outside show ?thesis by (simp only: nth_memmove [OF fit that] if_False)
  qed
  then show ?thesis
    using True fit put_cell_same [OF assms(1)] put_cell_other unfolding run by auto
qed

theorem bytevector_copyx_correct_witness:
  "\<exists>h'. scm_p_bytevector_copyx vector_heap (Ptr PTAG_MISC 1) (IntObj 1) (Ptr PTAG_MISC 1) (Ptr PTAG_CONS 2) =
     Inr (SCM_UNDEF, h') \<and> BYTEVECTOR_VEC h' (Ptr PTAG_MISC 1) = [1, 1, 2, 3]"
proof -
  have c: "misc_cell vector_heap (Ptr PTAG_MISC 1) = Some (BytevectorCell [1, 2, 3, 4] True)"
    by (simp add: vector_heap_def)
  have "length xs = 4 \<Longrightarrow> (\<forall>n < 4. xs ! n = [1, 1, 2, 3] ! n) \<Longrightarrow> xs = [1, 1, 2, 3]" for xs :: "byte list"
    by (rule nth_equalityI) auto
  moreover have "(\<forall>n < 4. P n) \<longleftrightarrow> P 0 \<and> P 1 \<and> P 2 \<and> P (3::nat)" for P by (simp add: numeral_eq_Suc less_Suc_eq) blast
  ultimately show ?thesis
    using bytevector_copyx_correct [OF c c vector_heap_ok(2), of 1]
    by (auto simp: BYTEVECTOR_VEC_def split: sum.splits)
qed

text \<open>\<^verbatim>\<open>string->utf8\<close> of a range of a string is a new bytevector of the UTF-8 codes of its characters, and
  \<^verbatim>\<open>utf8->string\<close> of that a new mutable string of the same characters: no scan of a valid string fails.\<close>

theorem utf8_roundtrip:
  assumes "string_is utf8_codec_vtbl utf8_valid h x cs mut" "brk_ok h"
    and "chain h args [IntObj i, IntObj j] SCM_NULL" "0 \<le> i" "i \<le> j" "j \<le> int (length cs)"
  shows "\<exists>bv h1 s h2. scm_p_string2utf8 utf8_codec_vtbl h x args = Inr (bv, h1) \<and>
    misc_cell h1 bv = Some (BytevectorCell (encode_str utf8_codec_vtbl (slice i j cs)) True) \<and>
    scm_p_utf82string utf8_codec_vtbl h1 bv SCM_NULL = Some (Inr (s, h2)) \<and>
    string_is utf8_codec_vtbl utf8_valid h2 s (slice i j cs) True \<and> heap_le h h1 \<and> heap_le h1 h2 \<and> brk_ok h2"
proof -
  let ?c = utf8_codec_vtbl and ?ds = "slice i j cs"
  note d = string_isD [OF assms(1)]
  have ccs: "ensure_utf8_codec ?c = Inr ()" by (simp add: ensure_utf8_codec_def utf8_codec_vtbl_def)
  have chars: "\<forall>c \<in> set ?ds. utf8_valid c \<and> c \<noteq> 0"
    using d(5,6) by (auto simp: slice_def dest!: in_set_takeD in_set_dropD)
  obtain bv h1 where mk: "alloc_ptr PTAG_MISC h (BytevectorCell (encode_str ?c ?ds) True) = (bv, h1)"
    by (metis surj_pair)
  note bv = alloc_misc [OF assms(2) mk]
  have "scm_mb_substring ?c (STRING_STR h x) (nat i) (nat (j - i)) = encode_str ?c ?ds"
    unfolding d(2) slice_def by (rule utf8.substring_encoded [OF d(5)])
  then have 1: "scm_p_string2utf8 ?c h x args = Inr (bv, h1)"
    using mk d(1,3) assms(4-6) ccs
    by (simp add: scm_p_string2utf8_def ENSURE_STRING_def parse_range_two [OF assms(3)] make_bytevector_copying_def
        scm_make_bytevector_def)
  note c = bytevector_cell [of h1 bv "encode_str ?c ?ds" True]
  obtain s h2 where s: "scm_make_string_internal ?c h1 (encode_str ?c ?ds) (int (length ?ds)) False = Some (s, h2)"
      "string_is ?c utf8_valid h2 s ?ds True" "heap_le h1 h2" "brk_ok h2"
    using utf8_string.make_mutable [OF chars _ refl, of h1] bv by blast
  have "0 \<notin> set (encode_str ?c ?ds)" by (rule utf8_string.encoded_clean [OF chars])
  then have "scm_p_utf82string ?c h1 bv SCM_NULL = Some (Inr (s, h2))"
    using s(1) c bv ccs utf8.utf82string_scan_encoded [of ?ds bv 0] chars
    by (simp add: scm_p_utf82string_def check_def ENSURE_BYTEVECTOR_def scm_parse_range_def slice_def scm_make_string_def)
  then show ?thesis using 1 bv s by blast
qed

theorem utf8_roundtrip_witness:
  "\<exists>bv h1. scm_p_string2utf8 utf8_codec_vtbl vector_heap (Ptr PTAG_MISC 4) (Ptr PTAG_CONS 2) = Inr (bv, h1) \<and>
     misc_cell h1 bv = Some (BytevectorCell (encode_str utf8_codec_vtbl [0x41, 0x3042, 0x42]) True)"
proof -
  have "string_is utf8_codec_vtbl utf8_valid vector_heap (Ptr PTAG_MISC 4) [0x41, 0x3042, 0x42] True"
    using utf8_string_heap by (simp add: string_is_def string_heap_def vector_heap_def)
  from utf8_roundtrip [OF this vector_heap_ok] show ?thesis by (auto simp: slice_def)
qed

end
