(* ===== verification/Equal.thy ===== *)
theory Equal
  imports Vectors
begin

text \<open>
  Equivalence: \<^verbatim>\<open>eq?\<close>, \<^verbatim>\<open>eqv?\<close> and \<^verbatim>\<open>equal?\<close> of \<^verbatim>\<open>src/procedure.c\<close>, \<^verbatim>\<open>member\<close> and \<^verbatim>\<open>assoc\<close> of
  \<^verbatim>\<open>src/list.c\<close>, the record tests of \<^verbatim>\<open>src/module-srfi9.c\<close>, and the procedures on booleans, in the
  configuration with immediate integers and characters only.

  \<^verbatim>\<open>scm_p_equalp\<close> calls itself from its loops over pairs and vectors; \<open>equal_run\<close> is that recursion on a
  point of it: a call, the state of the loop over pairs, the state of the loop over vectors. It is
  \<open>None\<close> where the source does not return, on circular objects, or finds a pointer to no known type.

  \<open>denotes\<close> relates an object to the finite tree that it stands for. \<^verbatim>\<open>equal?\<close> is shown to decide equality
  of the trees.
\<close>

section \<open>Records\<close>

text \<open>The markers of \<^verbatim>\<open>module-srfi9.c\<close>: pairs that no user object is eq to.\<close>

record srfi9_state =
  l_initialized :: bool
  l_record_marker :: obj
  l_record_type_marker :: obj

definition C_POINTER_VALUE :: "heap \<Rightarrow> obj \<Rightarrow> nat" where
  "C_POINTER_VALUE h x = (case misc_cell h x of Some (CPointerCell p) \<Rightarrow> p | _ \<Rightarrow> 0)"

definition C_FUNCPOINTER_VALUE :: "heap \<Rightarrow> obj \<Rightarrow> nat" where
  "C_FUNCPOINTER_VALUE h x = (case misc_cell h x of Some (CFuncPointerCell p) \<Rightarrow> p | _ \<Rightarrow> 0)"

definition RECORD_FIELD_OFFSET :: int where "RECORD_FIELD_OFFSET = 2"

definition scm_recordp :: "srfi9_state \<Rightarrow> heap \<Rightarrow> obj \<Rightarrow> bool" where
  "scm_recordp s9 h x \<longleftrightarrow> l_initialized s9 \<and> VECTORP h x \<and> VECTOR_LEN h x \<ge> RECORD_FIELD_OFFSET \<and>
     VECTOR_VEC h x ! 0 = l_record_marker s9"

definition scm_record_typep :: "srfi9_state \<Rightarrow> heap \<Rightarrow> obj \<Rightarrow> bool" where
  "scm_record_typep s9 h x \<longleftrightarrow> l_initialized s9 \<and> VECTORP h x \<and> VECTOR_LEN h x = 3 \<and>
     VECTOR_VEC h x ! 0 = l_record_type_marker s9"

section \<open>Equivalence predicates\<close>

definition scm_p_eqp :: "obj \<Rightarrow> obj \<Rightarrow> obj" where "scm_p_eqp x y = MAKE_BOOL (x = y)"

definition scm_p_eqvp :: "obj \<Rightarrow> obj \<Rightarrow> obj" where "scm_p_eqvp x y = MAKE_BOOL (x = y)"

datatype equal_point = EqObj obj obj | EqPairs obj obj | EqVectors "obj list" "obj list"

partial_function (option) equal_run :: "srfi9_state \<Rightarrow> heap \<Rightarrow> equal_point \<Rightarrow> bool option" where
  "equal_run s9 h p =
     (case p of
        EqObj x y \<Rightarrow>
          if x = y then Some True
          else Option.bind (scm_type h x) (\<lambda>type. Option.bind (scm_type h y) (\<lambda>type2.
            if type \<noteq> type2 then Some False
            else if type = ScmString then Some (STRING_EQUALP h x y)
            else if type = ScmCons then equal_run s9 h (EqPairs x y)
            else if type = ScmVector then
              (if scm_recordp s9 h x \<or> scm_recordp s9 h y \<or> scm_record_typep s9 h x \<or> scm_record_typep s9 h y
               then Some False
               else if VECTOR_LEN h x \<noteq> VECTOR_LEN h y then Some False
               else equal_run s9 h (EqVectors (VECTOR_VEC h x) (VECTOR_VEC h y)))
            else if type = ScmBytevector then Some (BYTEVECTOR_VEC h x = BYTEVECTOR_VEC h y)
            else if type = ScmCPointer then Some (C_POINTER_VALUE h x = C_POINTER_VALUE h y)
            else if type = ScmCFuncPointer then Some (C_FUNCPOINTER_VALUE h x = C_FUNCPOINTER_VALUE h y)
            else Some False))
      | EqPairs x y \<Rightarrow>
          if CONSP x \<and> CONSP y then
            Option.bind
              (if CAR h x = CAR h y then Some True
               else Option.bind (scm_type h (CAR h x)) (\<lambda>t1. Option.bind (scm_type h (CAR h y)) (\<lambda>t2.
                 if t1 \<noteq> t2 then Some False else equal_run s9 h (EqObj (CAR h x) (CAR h y)))))
              (\<lambda>same. if same then equal_run s9 h (EqPairs (CDR h x) (CDR h y)) else Some False)
          else if x = y then Some True else equal_run s9 h (EqObj x y)
      | EqVectors vs ws \<Rightarrow>
          (case (vs, ws) of
             (v # vs, w # ws) \<Rightarrow>
               Option.bind
                 (if v = w then Some True
                  else Option.bind (scm_type h v) (\<lambda>t1. Option.bind (scm_type h w) (\<lambda>t2.
                    if t1 \<noteq> t2 then Some False else equal_run s9 h (EqObj v w))))
                 (\<lambda>same. if same then equal_run s9 h (EqVectors vs ws) else Some False)
           | _ \<Rightarrow> Some True))"

definition scm_p_equalp :: "srfi9_state \<Rightarrow> heap \<Rightarrow> obj \<Rightarrow> obj \<Rightarrow> obj option" where
  "scm_p_equalp s9 h x y = map_option MAKE_BOOL (equal_run s9 h (EqObj x y))"

text \<open>\<^verbatim>\<open>member\<close> and \<^verbatim>\<open>assoc\<close>: the loops of theory \<open>Lists\<close> with a comparison that may not return.\<close>

definition EQUALP :: "srfi9_state \<Rightarrow> heap \<Rightarrow> obj \<Rightarrow> obj \<Rightarrow> bool option" where
  "EQUALP s9 h x y = map_option (\<lambda>r. r \<noteq> SCM_FALSE) (scm_p_equalp s9 h x y)"

partial_function (option) member_equal_loop :: "srfi9_state \<Rightarrow> heap \<Rightarrow> obj \<Rightarrow> obj \<Rightarrow> obj \<Rightarrow> obj res option" where
  "member_equal_loop s9 h x lst rest =
     (if CONSP rest then
        Option.bind (EQUALP s9 h x (CAR h rest)) (\<lambda>same.
          if same then Some (Inr rest) else member_equal_loop s9 h x lst (CDR h rest))
      else if NULLP rest then Some (Inr SCM_FALSE)
      else Some (Inl (ErrObj ''proper list required but got'' lst)))"

definition scm_p_member :: "srfi9_state \<Rightarrow> heap \<Rightarrow> obj \<Rightarrow> obj \<Rightarrow> obj res option" where
  "scm_p_member s9 h x lst = member_equal_loop s9 h x lst lst"

partial_function (option) assoc_equal_loop :: "srfi9_state \<Rightarrow> heap \<Rightarrow> obj \<Rightarrow> obj \<Rightarrow> obj \<Rightarrow> obj res option" where
  "assoc_equal_loop s9 h x alist rest =
     (if CONSP rest then
        (let pair = CAR h rest in
         if \<not> CONSP pair then Some (Inl (ErrObj ''pair required but got'' pair))
         else Option.bind (EQUALP s9 h (CAR h pair) x) (\<lambda>same.
           if same then Some (Inr pair) else assoc_equal_loop s9 h x alist (CDR h rest)))
      else if NULLP rest then Some (Inr SCM_FALSE)
      else Some (Inl (ErrObj ''proper list required but got'' alist)))"

definition scm_p_assoc :: "srfi9_state \<Rightarrow> heap \<Rightarrow> obj \<Rightarrow> obj \<Rightarrow> obj res option" where
  "scm_p_assoc s9 h x alist = assoc_equal_loop s9 h x alist alist"

definition scm_p_not :: "obj \<Rightarrow> obj" where "scm_p_not x = MAKE_BOOL (x = SCM_FALSE)"

definition scm_p_booleanp :: "obj \<Rightarrow> obj" where "scm_p_booleanp x = MAKE_BOOL (x = SCM_FALSE \<or> x = SCM_TRUE)"

definition scm_p_symbolp :: "heap \<Rightarrow> obj \<Rightarrow> obj" where "scm_p_symbolp h x = MAKE_BOOL (SYMBOLP h x)"


section \<open>Objects as trees\<close>

text \<open>An atom is compared by identity: constants, numbers, characters, symbols, procedures, ports and
  records.\<close>

datatype tree =
    Atom obj
  | StringTree "byte list" int
  | PairTree tree tree
  | VectorTree "tree list"
  | BytesTree "byte list"
  | CPointerTree nat
  | CFuncPointerTree nat

definition atomicp :: "srfi9_state \<Rightarrow> heap \<Rightarrow> obj \<Rightarrow> bool" where
  "atomicp s9 h x \<longleftrightarrow> (\<exists>t. scm_type h x = Some t \<and> t \<notin> {ScmCons, ScmString, ScmBytevector, ScmCPointer, ScmCFuncPointer} \<and>
     (t = ScmVector \<longrightarrow> scm_recordp s9 h x \<or> scm_record_typep s9 h x))"

inductive denotes :: "srfi9_state \<Rightarrow> heap \<Rightarrow> obj \<Rightarrow> tree \<Rightarrow> bool" for s9 :: srfi9_state and h :: heap where
  atom: "atomicp s9 h x \<Longrightarrow> denotes s9 h x (Atom x)"
| string: "misc_cell h x = Some (StringCell bs n m) \<Longrightarrow> denotes s9 h x (StringTree bs n)"
| bytes: "misc_cell h x = Some (BytevectorCell bs m) \<Longrightarrow> denotes s9 h x (BytesTree bs)"
| cptr: "misc_cell h x = Some (CPointerCell n) \<Longrightarrow> denotes s9 h x (CPointerTree n)"
| cfun: "misc_cell h x = Some (CFuncPointerCell n) \<Longrightarrow> denotes s9 h x (CFuncPointerTree n)"
| pair: "has_pair h x \<Longrightarrow> denotes s9 h (CAR h x) t \<Longrightarrow> denotes s9 h (CDR h x) u \<Longrightarrow> denotes s9 h x (PairTree t u)"
| vector: "misc_cell h x = Some (VectorCell xs m) \<Longrightarrow> \<not> scm_recordp s9 h x \<Longrightarrow> \<not> scm_record_typep s9 h x \<Longrightarrow>
    list_all2 (denotes s9 h) xs ts \<Longrightarrow> denotes s9 h x (VectorTree ts)"

lemma misc_type: "misc_cell h x = Some c \<Longrightarrow> scm_type h x = cell_type c"
  by (induction h x rule: misc_cell.induct) auto

lemma pair_type: "has_pair h x \<Longrightarrow> scm_type h x = Some ScmCons"
  by (auto simp: has_pair_def)

fun tree_type :: "heap \<Rightarrow> tree \<Rightarrow> obj_type option" where
  "tree_type h (Atom x) = scm_type h x"
| "tree_type h (StringTree _ _) = Some ScmString"
| "tree_type h (PairTree _ _) = Some ScmCons"
| "tree_type h (VectorTree _) = Some ScmVector"
| "tree_type h (BytesTree _) = Some ScmBytevector"
| "tree_type h (CPointerTree _) = Some ScmCPointer"
| "tree_type h (CFuncPointerTree _) = Some ScmCFuncPointer"

lemma denotes_type: "denotes s9 h x t \<Longrightarrow> scm_type h x = tree_type h t \<and> scm_type h x \<noteq> None"
  by (induction rule: denotes.induct) (auto simp: misc_type pair_type atomicp_def)

inductive_cases denotes_pairE: "denotes s9 h x (PairTree t u)"

text \<open>What an object denotes is settled by its type.\<close>

lemma denotes_cases:
  assumes "denotes s9 h x t"
  shows "scm_type h x = Some ScmString \<Longrightarrow> t = StringTree (STRING_STR h x) (STRING_LEN h x)"
    "scm_type h x = Some ScmBytevector \<Longrightarrow> t = BytesTree (BYTEVECTOR_VEC h x)"
    "scm_type h x = Some ScmCPointer \<Longrightarrow> t = CPointerTree (C_POINTER_VALUE h x)"
    "scm_type h x = Some ScmCFuncPointer \<Longrightarrow> t = CFuncPointerTree (C_FUNCPOINTER_VALUE h x)"
    "scm_type h x = Some ScmCons \<Longrightarrow> \<exists>t1 t2. t = PairTree t1 t2 \<and> has_pair h x \<and> denotes s9 h (CAR h x) t1 \<and> denotes s9 h (CDR h x) t2"
    "scm_type h x = Some ScmVector \<Longrightarrow> if scm_recordp s9 h x \<or> scm_record_typep s9 h x then t = Atom x
       else \<exists>ts. t = VectorTree ts \<and> list_all2 (denotes s9 h) (VECTOR_VEC h x) ts"
    "scm_type h x = Some c \<Longrightarrow> c \<notin> {ScmString, ScmBytevector, ScmCPointer, ScmCFuncPointer, ScmCons, ScmVector} \<Longrightarrow> t = Atom x"
  using assms
  by (cases rule: denotes.cases;
      auto simp: misc_type pair_type atomicp_def STRING_STR_def STRING_LEN_def BYTEVECTOR_VEC_def C_POINTER_VALUE_def
        C_FUNCPOINTER_VALUE_def VECTOR_VEC_def)+

lemma list_all2_unique:
  assumes "list_all2 (\<lambda>x t. P x t \<and> (\<forall>u. P x u \<longrightarrow> t = u)) xs ts" "list_all2 P xs us"
  shows "ts = us"
  using assms(1,2)
proof (induction xs ts arbitrary: us rule: list_all2_induct)
  case (Cons x xs t ts)
  then show ?case by (cases us) auto
qed simp

lemma denotes_unique: "denotes s9 h x t \<Longrightarrow> denotes s9 h x u \<Longrightarrow> t = u"
proof (induction arbitrary: u rule: denotes.induct)
  case (vector x xs m ts)
  have "scm_type h x = Some ScmVector" using vector.hyps(1) by (simp add: misc_type)
  with denotes_cases(6) [OF vector.prems this] vector.hyps(2,3) obtain us where
    "u = VectorTree us" "list_all2 (denotes s9 h) (VECTOR_VEC h x) us" by auto
  moreover have "VECTOR_VEC h x = xs" using vector.hyps(1) by (simp add: VECTOR_VEC_def)
  ultimately show ?case using list_all2_unique [of "denotes s9 h" xs ts us] vector.IH by simp
next
  case (pair x t1 t2)
  then show ?case using denotes_cases(5) [OF pair.prems pair_type [OF pair.hyps(1)]] by blast
next
  case (atom x)
  then obtain c where c: "scm_type h x = Some c" "c \<notin> {ScmCons, ScmString, ScmBytevector, ScmCPointer, ScmCFuncPointer}"
      "c = ScmVector \<longrightarrow> scm_recordp s9 h x \<or> scm_record_typep s9 h x"
    by (auto simp: atomicp_def)
  show ?case
  proof (cases "c = ScmVector")
    case True
    then show ?thesis using denotes_cases(6) [OF atom.prems] c by simp
  next
    case False
    then show ?thesis using denotes_cases(7) [OF atom.prems c(1)] c(2) by simp
  qed
next
  case (string x bs n m)
  then show ?case using denotes_cases(1) [OF string.prems] by (simp add: misc_type STRING_STR_def STRING_LEN_def)
next
  case (bytes x bs m)
  then show ?case using denotes_cases(2) [OF bytes.prems] by (simp add: misc_type BYTEVECTOR_VEC_def)
next
  case (cptr x n)
  then show ?case using denotes_cases(3) [OF cptr.prems] by (simp add: misc_type C_POINTER_VALUE_def)
next
  case (cfun x n)
  then show ?case using denotes_cases(4) [OF cfun.prems] by (simp add: misc_type C_FUNCPOINTER_VALUE_def)
qed

section \<open>\<^verbatim>\<open>equal?\<close> decides equality of trees\<close>

lemmas equal_run_obj = equal_run.simps [of s9 h "EqObj x y" for s9 h x y, unfolded equal_point.case]
lemmas equal_run_pairs = equal_run.simps [of s9 h "EqPairs x y" for s9 h x y, unfolded equal_point.case]
lemmas equal_run_vectors = equal_run.simps [of s9 h "EqVectors vs ws" for s9 h vs ws, unfolded equal_point.case]

lemma diff_type_trees:
  assumes "denotes s9 h x t" "denotes s9 h y u" "scm_type h x \<noteq> scm_type h y"
  shows "t \<noteq> u"
  using denotes_type [OF assms(1)] denotes_type [OF assms(2)] assms(3) by auto

lemma equal_element:
  assumes "denotes s9 h x t" "denotes s9 h y u" "equal_run s9 h (EqObj x y) = Some (t = u)"
  shows "(if x = y then Some True
     else Option.bind (scm_type h x) (\<lambda>t1. Option.bind (scm_type h y) (\<lambda>t2.
       if t1 \<noteq> t2 then Some False else equal_run s9 h (EqObj x y)))) = Some (t = u)"
proof (cases "x = y")
  case True
  then show ?thesis using denotes_unique assms(1,2) by auto
next
  case False
  have "scm_type h x \<noteq> None" "scm_type h y \<noteq> None"
    using denotes_type [OF assms(1)] denotes_type [OF assms(2)] by blast+
  then obtain c d where "scm_type h x = Some c" "scm_type h y = Some d" by blast
  then show ?thesis using False assms(3) diff_type_trees [OF assms(1,2)] by auto
qed

lemma equal_vectors:
  assumes "list_all2 (\<lambda>x t. denotes s9 h x t \<and> (\<forall>y u. denotes s9 h y u \<longrightarrow> equal_run s9 h (EqObj x y) = Some (t = u))) vs ts"
    "list_all2 (denotes s9 h) ws us" "length vs = length ws"
  shows "equal_run s9 h (EqVectors vs ws) = Some (ts = us)"
  using assms
proof (induction vs ts arbitrary: ws us rule: list_all2_induct)
  case Nil
  then show ?case by (subst equal_run_vectors) simp
next
  case (Cons v vs t ts)
  then obtain w ws' u us' where ws: "ws = w # ws'" "us = u # us'" "denotes s9 h w u" "list_all2 (denotes s9 h) ws' us'"
    by (cases ws; cases us) auto
  have "denotes s9 h v t" "equal_run s9 h (EqObj v w) = Some (t = u)" using Cons.hyps(1) ws(3) by auto
  note e = equal_element [OF this(1) ws(3) this(2)]
  show ?case
    using Cons.IH [OF ws(4)] Cons.prems ws(1,2) by (subst equal_run_vectors) (simp add: e)
qed

lemma equal_run_pair_points:
  assumes "equal_run s9 h (EqObj x y) = Some b" "\<not> (CONSP x \<and> CONSP y)"
  shows "equal_run s9 h (EqPairs x y) = Some b"
proof (cases "x = y")
  case True
  then have "b" using assms(1) equal_run_obj [of s9 h x y] by simp
  then show ?thesis using True assms(2) by (subst equal_run_pairs) simp
next
  case False
  then show ?thesis using assms by (subst equal_run_pairs) auto
qed

lemma type_cons_CONSP: "scm_type h x = Some ScmCons \<Longrightarrow> CONSP x"
proof (induction h x rule: scm_type.induct)
  case (3 h a)
  then show ?case by (auto split: option.splits) (metis cell_type.simps obj_type.distinct cell.exhaust option.inject option.distinct(1))
qed auto


text \<open>Only objects of the same type that are not eq need a look.\<close>

lemma equal_same_type:
  assumes "denotes s9 h x t" "denotes s9 h y u" "scm_type h x = Some c"
    and look: "scm_type h y = Some c \<Longrightarrow> x \<noteq> y \<Longrightarrow> equal_run s9 h (EqObj x y) = Some (t = u)"
  shows "equal_run s9 h (EqObj x y) = Some (t = u)"
proof (cases "x = y")
  case True
  then have "t = u" using denotes_unique assms(1,2) by blast
  then show ?thesis using True by (subst equal_run_obj) simp
next
  case ne: False
  obtain d where ty: "scm_type h y = Some d" using denotes_type [OF assms(2)] by blast
  show ?thesis
  proof (cases "d = c")
    case True
    then show ?thesis using look ty ne by simp
  next
    case False
    then have "t \<noteq> u" using diff_type_trees [OF assms(1,2)] assms(3) ty by auto
    then show ?thesis using ne False assms(3) ty by (subst equal_run_obj) simp
  qed
qed

text \<open>The two points of the recursion at once: a call, and the loop over pairs.\<close>

lemma equal_run_correct:
  assumes "denotes s9 h x t" "denotes s9 h y u"
  shows "equal_run s9 h (EqObj x y) = Some (t = u) \<and> equal_run s9 h (EqPairs x y) = Some (t = u)"
  using assms
proof (induction arbitrary: y u rule: denotes.induct)
  case (pair x t1 t2)
  have tx: "scm_type h x = Some ScmCons" by (rule pair_type [OF pair.hyps(1)])
  note dx = denotes.pair [OF pair.hyps]
  have pairs: "equal_run s9 h (EqPairs x y) = Some (PairTree t1 t2 = u)" if ty: "scm_type h y = Some ScmCons"
  proof -
    obtain u1 u2 where y: "u = PairTree u1 u2" "has_pair h y" "denotes s9 h (CAR h y) u1" "denotes s9 h (CDR h y) u2"
      using denotes_cases(5) [OF pair.prems ty] by blast
    have c: "CONSP x" "CONSP y" using pair.hyps(1) y(2) has_pair_CONSP by blast+
    note e = equal_element [OF pair.hyps(2) y(3) pair.IH(1) [OF y(3), THEN conjunct1]]
    show ?thesis using c pair.IH(2) [OF y(4)] y(1) by (subst equal_run_pairs) (simp add: e)
  qed
  have obj: "equal_run s9 h (EqObj x y) = Some (PairTree t1 t2 = u)"
  proof (rule equal_same_type [OF dx pair.prems tx])
    assume "scm_type h y = Some ScmCons" "x \<noteq> y"
    then show "equal_run s9 h (EqObj x y) = Some (PairTree t1 t2 = u)" using pairs tx by (subst equal_run_obj) simp
  qed
  show ?case
  proof (cases "scm_type h y = Some ScmCons")
    case False
    then have "\<not> CONSP y" by (auto simp: CONSP_iff)
    then show ?thesis using obj equal_run_pair_points by blast
  qed (use pairs obj in blast)
next
  case (vector x xs m ts)
  have tx: "scm_type h x = Some ScmVector" using vector.hyps(1) by (simp add: misc_type)
  have vx: "VECTOR_VEC h x = xs" "\<not> CONSP x" using vector.hyps(1) by (auto simp: VECTOR_VEC_def CONSP_iff)
  have dx: "denotes s9 h x (VectorTree ts)"
    using vector.hyps vector.IH by (intro denotes.vector) (auto elim: list_all2_mono)
  have "equal_run s9 h (EqObj x y) = Some (VectorTree ts = u)"
  proof (rule equal_same_type [OF dx vector.prems tx])
    assume ty: "scm_type h y = Some ScmVector" and ne: "x \<noteq> y"
    note vy = denotes_cases(6) [OF vector.prems ty]
    show "equal_run s9 h (EqObj x y) = Some (VectorTree ts = u)"
    proof (cases "scm_recordp s9 h y \<or> scm_record_typep s9 h y")
      case rec: True
      then have "u = Atom y" using vy by simp
      then show ?thesis using ne tx ty rec by (subst equal_run_obj) auto
    next
      case rec: False
      then obtain us where u: "u = VectorTree us" "list_all2 (denotes s9 h) (VECTOR_VEC h y) us" using vy by auto
      have IH: "list_all2 (\<lambda>x t. denotes s9 h x t \<and> (\<forall>y u. denotes s9 h y u \<longrightarrow> equal_run s9 h (EqObj x y) = Some (t = u))) xs ts"
        using vector.IH by (rule list_all2_mono) blast
      have len: "length xs = length ts" "length (VECTOR_VEC h y) = length us"
        using vector.IH u(2) by (auto dest: list_all2_lengthD)
      show ?thesis
      proof (cases "length xs = length (VECTOR_VEC h y)")
        case same: True
        note v = equal_vectors [OF IH u(2) same]
        show ?thesis using ne tx ty rec vector.hyps(2,3) same v vx u(1)
          by (subst equal_run_obj) (simp add: VECTOR_LEN_def)
      next
        case diff: False
        then have "ts \<noteq> us" using len by auto
        then show ?thesis using ne tx ty rec vector.hyps(2,3) diff vx u(1)
          by (subst equal_run_obj) (simp add: VECTOR_LEN_def)
      qed
    qed
  qed
  then show ?case using equal_run_pair_points vx(2) by blast
next
  case (atom x)
  then obtain c where c: "scm_type h x = Some c" "c \<notin> {ScmCons, ScmString, ScmBytevector, ScmCPointer, ScmCFuncPointer}"
      "c = ScmVector \<longrightarrow> scm_recordp s9 h x \<or> scm_record_typep s9 h x"
    by (auto simp: atomicp_def)
  have "equal_run s9 h (EqObj x y) = Some (Atom x = u)"
  proof (rule equal_same_type [OF denotes.atom [OF atom.hyps] atom.prems c(1)])
    assume ty: "scm_type h y = Some c" and ne: "x \<noteq> y"
    have "Atom x \<noteq> u"
      using ne c denotes_cases(6) [OF atom.prems] denotes_cases(7) [OF atom.prems ty] ty
      by (cases "c = ScmVector") (auto split: if_splits)
    then show "equal_run s9 h (EqObj x y) = Some (Atom x = u)"
      using ne c ty by (subst equal_run_obj) auto
  qed
  moreover have "\<not> CONSP x" using c by (auto simp: CONSP_iff)
  ultimately show ?case using equal_run_pair_points by blast
next
  case (string x bs n m)
  have tx: "scm_type h x = Some ScmString" "\<not> CONSP x" using string.hyps by (auto simp: misc_type CONSP_iff)
  have "equal_run s9 h (EqObj x y) = Some (StringTree bs n = u)"
  proof (rule equal_same_type [OF denotes.string [OF string.hyps] string.prems tx(1)])
    assume ty: "scm_type h y = Some ScmString" and ne: "x \<noteq> y"
    show "equal_run s9 h (EqObj x y) = Some (StringTree bs n = u)"
      using ne tx ty denotes_cases(1) [OF string.prems ty] string.hyps
      by (subst equal_run_obj) (auto simp: STRING_EQUALP_def STRING_STR_def STRING_LEN_def)
  qed
  then show ?case using equal_run_pair_points tx(2) by blast
next
  case (bytes x bs m)
  have tx: "scm_type h x = Some ScmBytevector" "\<not> CONSP x" using bytes.hyps by (auto simp: misc_type CONSP_iff)
  have "equal_run s9 h (EqObj x y) = Some (BytesTree bs = u)"
  proof (rule equal_same_type [OF denotes.bytes [OF bytes.hyps] bytes.prems tx(1)])
    assume ty: "scm_type h y = Some ScmBytevector" and ne: "x \<noteq> y"
    show "equal_run s9 h (EqObj x y) = Some (BytesTree bs = u)"
      using ne tx ty denotes_cases(2) [OF bytes.prems ty] bytes.hyps
      by (subst equal_run_obj) (auto simp: BYTEVECTOR_VEC_def)
  qed
  then show ?case using equal_run_pair_points tx(2) by blast
next
  case (cptr x n)
  have tx: "scm_type h x = Some ScmCPointer" "\<not> CONSP x" using cptr.hyps by (auto simp: misc_type CONSP_iff)
  have "equal_run s9 h (EqObj x y) = Some (CPointerTree n = u)"
  proof (rule equal_same_type [OF denotes.cptr [OF cptr.hyps] cptr.prems tx(1)])
    assume ty: "scm_type h y = Some ScmCPointer" and ne: "x \<noteq> y"
    show "equal_run s9 h (EqObj x y) = Some (CPointerTree n = u)"
      using ne tx ty denotes_cases(3) [OF cptr.prems ty] cptr.hyps
      by (subst equal_run_obj) (auto simp: C_POINTER_VALUE_def)
  qed
  then show ?case using equal_run_pair_points tx(2) by blast
next
  case (cfun x n)
  have tx: "scm_type h x = Some ScmCFuncPointer" "\<not> CONSP x" using cfun.hyps by (auto simp: misc_type CONSP_iff)
  have "equal_run s9 h (EqObj x y) = Some (CFuncPointerTree n = u)"
  proof (rule equal_same_type [OF denotes.cfun [OF cfun.hyps] cfun.prems tx(1)])
    assume ty: "scm_type h y = Some ScmCFuncPointer" and ne: "x \<noteq> y"
    show "equal_run s9 h (EqObj x y) = Some (CFuncPointerTree n = u)"
      using ne tx ty denotes_cases(4) [OF cfun.prems ty] cfun.hyps
      by (subst equal_run_obj) (auto simp: C_FUNCPOINTER_VALUE_def)
  qed
  then show ?case using equal_run_pair_points tx(2) by blast
qed

section \<open>\<^verbatim>\<open>member\<close> and \<^verbatim>\<open>assoc\<close>\<close>

lemma EQUALP_denotes: "denotes s9 h x t \<Longrightarrow> denotes s9 h y u \<Longrightarrow> EQUALP s9 h x y = Some (t = u)"
  using equal_run_correct [of s9 h x t y u] by (simp add: EQUALP_def scm_p_equalp_def MAKE_BOOL_def)

lemma member_equal_loop_chain:
  assumes "denotes s9 h x t" "list_all2 (denotes s9 h) vs ts" "chain h rest vs e" "\<not> CONSP e"
  shows "member_equal_loop s9 h x lst rest = Some (let n = length (takeWhile (\<lambda>u. t \<noteq> u) ts) in
    if n < length ts then Inr ((CDR h ^^ n) rest)
    else if e = SCM_NULL then Inr SCM_FALSE else Inl (ErrObj ''proper list required but got'' lst))"
  using assms(2,3)
proof (induction vs ts arbitrary: rest rule: list_all2_induct)
  case Nil
  then show ?case using assms(4) by (subst member_equal_loop.simps) auto
next
  case (Cons v vs u us)
  have r: "CONSP rest" "CAR h rest = v" "chain h (CDR h rest) vs e" using Cons.prems has_pair_CONSP by auto
  note eq = EQUALP_denotes [OF assms(1) Cons.hyps(1)]
  show ?case
    using Cons.IH [OF r(3)] r(1,2) eq by (subst member_equal_loop.simps) (simp add: Let_def funpow_swap1)
qed

lemma assoc_equal_loop_chain:
  assumes "denotes s9 h x t" "list_all2 (\<lambda>p u. CONSP p \<and> denotes s9 h (CAR h p) u) ps ts" "chain h rest ps e" "\<not> CONSP e"
  shows "assoc_equal_loop s9 h x alist rest = Some (let n = length (takeWhile (\<lambda>u. t \<noteq> u) ts) in
    if n < length ts then Inr (ps ! n)
    else if e = SCM_NULL then Inr SCM_FALSE else Inl (ErrObj ''proper list required but got'' alist))"
  using assms(2,3)
proof (induction ps ts arbitrary: rest rule: list_all2_induct)
  case Nil
  then show ?case using assms(4) by (subst assoc_equal_loop.simps) auto
next
  case (Cons p ps u us)
  have r: "CONSP rest" "CAR h rest = p" "chain h (CDR h rest) ps e" using Cons.prems has_pair_CONSP by auto
  have p: "CONSP p" "denotes s9 h (CAR h p) u" using Cons.hyps(1) by auto
  have eq: "EQUALP s9 h (CAR h p) x = Some (t = u)" using EQUALP_denotes [OF p(2) assms(1)] by (simp add: eq_commute)
  show ?case
    using Cons.IH [OF r(3)] r(1,2) eq p(1) by (subst assoc_equal_loop.simps) (simp add: Let_def)
qed

section \<open>Properties\<close>

text \<open>C37: On objects that stand for finite trees \<^verbatim>\<open>equal?\<close> returns, and is true exactly when the trees are equal:
  strings by characters, bytevectors by bytes, pairs and vectors by their elements, everything else (symbols,
  procedures, records) by identity.\<close>

theorem equal_decides_trees:
  assumes "denotes s9 h x t" "denotes s9 h y u"
  shows "scm_p_equalp s9 h x y = Some (MAKE_BOOL (t = u))"
  using equal_run_correct [OF assms] by (simp add: scm_p_equalp_def)

text \<open>Two copies of the list \<^verbatim>\<open>(1 "A")\<close> with distinct strings.\<close>

definition two_lists_heap :: heap where
  "two_lists_heap = \<lparr>mem = [0 \<mapsto> StringCell [0x41] 1 True, 1 \<mapsto> StringCell [0x41] 1 False,
     2 \<mapsto> PairCell (Ptr PTAG_MISC 0) SCM_NULL, 3 \<mapsto> PairCell (IntObj 1) (Ptr PTAG_CONS 2),
     4 \<mapsto> PairCell (Ptr PTAG_MISC 1) SCM_NULL, 5 \<mapsto> PairCell (IntObj 1) (Ptr PTAG_CONS 4),
     6 \<mapsto> PairCell (Ptr PTAG_CONS 5) SCM_NULL], brk = 7\<rparr>"

definition no_srfi9 :: srfi9_state where
  "no_srfi9 = \<lparr>l_initialized = False, l_record_marker = SCM_NULL, l_record_type_marker = SCM_NULL\<rparr>"

abbreviation one_A_tree :: tree where
  "one_A_tree \<equiv> PairTree (Atom (IntObj 1)) (PairTree (StringTree [0x41] 1) (Atom SCM_NULL))"

lemma two_lists_denote:
  "denotes no_srfi9 two_lists_heap (Ptr PTAG_CONS 3) one_A_tree" "denotes no_srfi9 two_lists_heap (Ptr PTAG_CONS 5) one_A_tree"
proof -
  have a: "denotes no_srfi9 two_lists_heap (IntObj 1) (Atom (IntObj 1))" "denotes no_srfi9 two_lists_heap SCM_NULL (Atom SCM_NULL)"
    by (auto intro!: denotes.atom simp: atomicp_def)
  have s: "denotes no_srfi9 two_lists_heap (Ptr PTAG_MISC 0) (StringTree [0x41] 1)"
    "denotes no_srfi9 two_lists_heap (Ptr PTAG_MISC 1) (StringTree [0x41] 1)"
    by (auto intro!: denotes.string simp: two_lists_heap_def)
  have c: "CAR two_lists_heap (Ptr PTAG_CONS 2) = Ptr PTAG_MISC 0" "CDR two_lists_heap (Ptr PTAG_CONS 2) = SCM_NULL"
    "CAR two_lists_heap (Ptr PTAG_CONS 4) = Ptr PTAG_MISC 1" "CDR two_lists_heap (Ptr PTAG_CONS 4) = SCM_NULL"
    "CAR two_lists_heap (Ptr PTAG_CONS 3) = IntObj 1" "CDR two_lists_heap (Ptr PTAG_CONS 3) = Ptr PTAG_CONS 2"
    "CAR two_lists_heap (Ptr PTAG_CONS 5) = IntObj 1" "CDR two_lists_heap (Ptr PTAG_CONS 5) = Ptr PTAG_CONS 4"
    "has_pair two_lists_heap (Ptr PTAG_CONS 2)" "has_pair two_lists_heap (Ptr PTAG_CONS 3)"
    "has_pair two_lists_heap (Ptr PTAG_CONS 4)" "has_pair two_lists_heap (Ptr PTAG_CONS 5)"
    by (simp_all add: two_lists_heap_def has_pair_def)
  show "denotes no_srfi9 two_lists_heap (Ptr PTAG_CONS 3) one_A_tree" "denotes no_srfi9 two_lists_heap (Ptr PTAG_CONS 5) one_A_tree"
    using a s c by (auto intro!: denotes.pair)
qed

lemma equal_decides_trees_witness:
  "scm_p_equalp no_srfi9 two_lists_heap (Ptr PTAG_CONS 3) (Ptr PTAG_CONS 5) = Some SCM_TRUE"
  using equal_decides_trees [OF two_lists_denote] by (simp add: MAKE_BOOL_def)

text \<open>\<^verbatim>\<open>member\<close> gives the first tail whose element is equal as a tree, \<^verbatim>\<open>assoc\<close> the first pair whose key is;
  without one they give \<^verbatim>\<open>#f\<close>, or the error when the list does not end in the empty list.\<close>

theorem member_assoc_correct:
  assumes "denotes s9 h x t" "\<not> CONSP e"
  shows "(\<forall>lst vs ts. chain h lst vs e \<longrightarrow> list_all2 (denotes s9 h) vs ts \<longrightarrow>
      scm_p_member s9 h x lst = Some (let n = length (takeWhile (\<lambda>u. t \<noteq> u) ts) in
        if n < length ts then Inr ((CDR h ^^ n) lst)
        else if e = SCM_NULL then Inr SCM_FALSE else Inl (ErrObj ''proper list required but got'' lst))) \<and>
    (\<forall>alist ps ts. chain h alist ps e \<longrightarrow> list_all2 (\<lambda>p u. CONSP p \<and> denotes s9 h (CAR h p) u) ps ts \<longrightarrow>
      scm_p_assoc s9 h x alist = Some (let n = length (takeWhile (\<lambda>u. t \<noteq> u) ts) in
        if n < length ts then Inr (ps ! n)
        else if e = SCM_NULL then Inr SCM_FALSE else Inl (ErrObj ''proper list required but got'' alist)))"
  using member_equal_loop_chain [OF assms(1) _ _ assms(2)] assoc_equal_loop_chain [OF assms(1) _ _ assms(2)]
  unfolding scm_p_member_def scm_p_assoc_def by blast

lemma member_assoc_correct_witness:
  "scm_p_member no_srfi9 two_lists_heap (Ptr PTAG_CONS 3) (Ptr PTAG_CONS 6) = Some (Inr (Ptr PTAG_CONS 6))"
proof -
  have "chain two_lists_heap (Ptr PTAG_CONS 6) [Ptr PTAG_CONS 5] SCM_NULL" by (simp add: two_lists_heap_def has_pair_def)
  moreover have "list_all2 (denotes no_srfi9 two_lists_heap) [Ptr PTAG_CONS 5] [one_A_tree]" using two_lists_denote(2) by simp
  moreover have "\<not> CONSP SCM_NULL" by simp
  note member_assoc_correct [OF two_lists_denote(1) this, THEN conjunct1]
  ultimately show ?thesis by fastforce
qed

end
