(* ===== verification/Symbols.thy ===== *)
theory Symbols
  imports Env Strings "HOL-Library.Char_ord"
begin

text \<open>
  The symbol table of \<^verbatim>\<open>src/symbol.c\<close> and the conversions between symbols and strings of
  \<^verbatim>\<open>src/procedure.c\<close>.

  \<open>scm_symbol_hash\<close> holds the buckets, each a list of symbols in the heap. The hash of a name is a
  32 bit word; \<^verbatim>\<open>strcmp\<close> and \<^verbatim>\<open>scm_strdup\<close> stop at the null character. \<open>symtab_ok\<close> is the invariant
  of the table, and \<open>find_symbol\<close> its abstraction: the symbol that a name is interned as.
\<close>

section \<open>Names\<close>

definition c_name :: "string \<Rightarrow> string" where
  "c_name name = takeWhile (\<lambda>c. c \<noteq> CHR 0x00) name"

definition bytes_of_name :: "string \<Rightarrow> byte list" where
  "bytes_of_name = List.map of_char"

definition name_of_bytes :: "byte list \<Rightarrow> string" where
  "name_of_bytes = List.map (\<lambda>b. char_of (unat b))"

fun SYMBOL_NAME :: "heap \<Rightarrow> obj \<Rightarrow> string" where
  "SYMBOL_NAME h x = (case misc_cell h x of Some (SymbolCell _ name) \<Rightarrow> name | _ \<Rightarrow> [])"

definition ENSURE_SYMBOL :: "heap \<Rightarrow> obj \<Rightarrow> unit res" where
  "ENSURE_SYMBOL h x = (if SYMBOLP h x then Inr () else Inl (ErrObj ''symbol required but got'' x))"

section \<open>The table\<close>

record symtab =
  scm_symbol_hash :: "obj list"
  scm_symbol_hash_size :: nat

definition UINT32_MAX :: nat where "UINT32_MAX = 2 ^ 32 - 1"

text \<open>\<open>None\<close> is the assertion on the size.\<close>

definition initialize_symbol_hash :: "nat \<Rightarrow> symtab option" where
  "initialize_symbol_hash sz =
     (if sz \<le> UINT32_MAX div 8
      then Some \<lparr>scm_symbol_hash = replicate sz SCM_NULL, scm_symbol_hash_size = sz\<rparr> else None)"

fun name_hash_loop :: "nat \<Rightarrow> 32 word \<Rightarrow> string \<Rightarrow> 32 word" where
  "name_hash_loop sz hash [] = hash"
| "name_hash_loop sz hash (c # name) =
     (if c = CHR 0x00 then hash
      else name_hash_loop sz (word_of_nat (unat ((hash * 17) XOR of_char c) mod sz)) name)"

definition symbol_name_hash :: "nat \<Rightarrow> string \<Rightarrow> 32 word" where
  "symbol_name_hash sz name = name_hash_loop sz 0 name"

partial_function (option) intern_search :: "heap \<Rightarrow> obj \<Rightarrow> string \<Rightarrow> obj option option" where
  "intern_search h rest name =
     (if CONSP rest then
        (if c_name (SYMBOL_NAME h (CAR h rest)) = c_name name then Some (Some (CAR h rest))
         else intern_search h (CDR h rest) name)
      else Some None)"

definition scm_intern :: "heap \<Rightarrow> symtab \<Rightarrow> string \<Rightarrow> (obj \<times> heap \<times> symtab) option" where
  "scm_intern h tab name =
     (let hash = unat (symbol_name_hash (scm_symbol_hash_size tab) name);
          lst = scm_symbol_hash tab ! hash
      in map_option (\<lambda>r. case r of
             Some symb \<Rightarrow> (symb, h, tab)
           | None \<Rightarrow>
               (case scm_make_symbol h (c_name name) SCM_UNBOUND of (symb, h) \<Rightarrow>
                case scm_make_cons h symb lst of (lst, h) \<Rightarrow>
                  (symb, h, tab\<lparr>scm_symbol_hash := (scm_symbol_hash tab)[hash := lst]\<rparr>)))
           (intern_search h lst name))"

partial_function (option) bound_to_list :: "heap \<Rightarrow> obj \<Rightarrow> obj \<Rightarrow> obj option option" where
  "bound_to_list h x lst =
     (if CONSP lst then
        Option.bind (scm_toplevel_value h (CAR h lst) SCM_NULL) (\<lambda>val.
          if val \<noteq> SCM_UNBOUND \<and> val = x then Some (Some (CAR h lst))
          else bound_to_list h x (CDR h lst))
      else Some None)"

fun bound_to_buckets :: "heap \<Rightarrow> obj \<Rightarrow> obj list \<Rightarrow> obj option" where
  "bound_to_buckets h x [] = Some SCM_FALSE"
| "bound_to_buckets h x (lst # buckets) =
     Option.bind (bound_to_list h x lst) (\<lambda>r. case r of
         Some symb \<Rightarrow> Some symb
       | None \<Rightarrow> bound_to_buckets h x buckets)"

definition scm_symbol_bound_to :: "heap \<Rightarrow> symtab \<Rightarrow> obj \<Rightarrow> obj option" where
  "scm_symbol_bound_to h tab x = bound_to_buckets h x (take (scm_symbol_hash_size tab) (scm_symbol_hash tab))"

section \<open>Symbols and strings\<close>

definition scm_p_symbol2string :: "codec_vtbl \<Rightarrow> heap \<Rightarrow> obj \<Rightarrow> (obj \<times> heap) res option" where
  "scm_p_symbol2string codec h symb =
     check (ENSURE_SYMBOL h symb) (\<lambda>_.
       map_option Inr (scm_make_immutable_string_copying codec h (bytes_of_name (SYMBOL_NAME h symb)) STRLEN_UNKNOWN))"

definition scm_p_string2symbol :: "heap \<Rightarrow> symtab \<Rightarrow> obj \<Rightarrow> (obj \<times> heap \<times> symtab) res option" where
  "scm_p_string2symbol h tab str =
     check (ENSURE_STRING h str) (\<lambda>_. map_option Inr (scm_intern h tab (name_of_bytes (STRING_STR h str))))"

section \<open>The invariant\<close>

definition clean_name :: "string \<Rightarrow> bool" where
  "clean_name name \<longleftrightarrow> CHR 0x00 \<notin> set name"

definition symbol_is :: "heap \<Rightarrow> obj \<Rightarrow> string \<Rightarrow> bool" where
  "symbol_is h x name \<longleftrightarrow> (\<exists>v. misc_cell h x = Some (SymbolCell v name)) \<and> clean_name name"

definition bucket_of :: "symtab \<Rightarrow> string \<Rightarrow> nat" where
  "bucket_of tab name = unat (symbol_name_hash (scm_symbol_hash_size tab) name)"

text \<open>Bucket \<open>i\<close> holds symbols with distinct names that hash to \<open>i\<close>.\<close>

definition bucket_ok :: "heap \<Rightarrow> symtab \<Rightarrow> nat \<Rightarrow> bool" where
  "bucket_ok h tab i \<longleftrightarrow> (\<exists>syms. chain h (scm_symbol_hash tab ! i) syms SCM_NULL \<and>
     (\<forall>s \<in> set syms. symbol_is h s (SYMBOL_NAME h s) \<and> bucket_of tab (SYMBOL_NAME h s) = i) \<and>
     distinct (List.map (SYMBOL_NAME h) syms))"

definition symtab_ok :: "heap \<Rightarrow> symtab \<Rightarrow> bool" where
  "symtab_ok h tab \<longleftrightarrow> 0 < scm_symbol_hash_size tab \<and> scm_symbol_hash_size tab \<le> UINT32_MAX div 8 \<and>
     length (scm_symbol_hash tab) = scm_symbol_hash_size tab \<and> (\<forall>i < scm_symbol_hash_size tab. bucket_ok h tab i)"

definition find_symbol :: "heap \<Rightarrow> symtab \<Rightarrow> string \<Rightarrow> obj option option" where
  "find_symbol h tab name = intern_search h (scm_symbol_hash tab ! bucket_of tab name) name"

lemma c_name_clean [simp]: "clean_name name \<Longrightarrow> c_name name = name"
  by (auto simp: c_name_def clean_name_def takeWhile_eq_all_conv)

lemma name_hash_loop_less:
  "0 < sz \<Longrightarrow> sz \<le> UINT32_MAX div 8 \<Longrightarrow> unat hash < sz \<Longrightarrow> unat (name_hash_loop sz hash name) < sz"
proof (induction name arbitrary: hash)
  case (Cons c name)
  have "unat (word_of_nat n :: 32 word) \<le> n" for n
    by (simp only: unsigned_of_nat of_nat_id take_bit_nat_less_eq_self)
  then have "unat (word_of_nat (unat ((hash * 17) XOR of_char c) mod sz) :: 32 word) < sz"
    using mod_less_divisor [OF Cons.prems(1)] by (rule order_le_less_trans)
  with Cons show ?case by simp
qed simp

lemma bucket_of_less: "symtab_ok h tab \<Longrightarrow> bucket_of tab name < scm_symbol_hash_size tab"
  unfolding bucket_of_def symbol_name_hash_def by (rule name_hash_loop_less) (auto simp: symtab_ok_def)

lemma symbol_is_le: "symbol_is h x name \<Longrightarrow> heap_le h h' \<Longrightarrow> symbol_is h' x name"
  unfolding symbol_is_def by (blast intro: misc_cell_le)

lemma symbol_is_name: "symbol_is h x name \<Longrightarrow> SYMBOL_NAME h x = name"
  by (auto simp: symbol_is_def SYMBOL_NAME.simps)

text \<open>A bucket is searched for the first symbol of the name.\<close>

lemma intern_search_chain:
  assumes "chain h lst syms SCM_NULL" "\<forall>s \<in> set syms. symbol_is h s (SYMBOL_NAME h s)" "clean_name name"
  shows "intern_search h lst name = Some (List.find (\<lambda>s. SYMBOL_NAME h s = name) syms)"
  using assms
proof (induction syms arbitrary: lst)
  case Nil
  then show ?case by (subst intern_search.simps) simp
next
  case (Cons s syms)
  have lst: "CONSP lst" "CAR h lst = s" using Cons.prems(1) has_pair_CONSP by auto
  have "clean_name (SYMBOL_NAME h s)" using Cons.prems(2) unfolding symbol_is_def by simp
  then have n: "c_name (SYMBOL_NAME h s) = SYMBOL_NAME h s" by (rule c_name_clean)
  have "intern_search h lst name =
      (if SYMBOL_NAME h s = name then Some (Some s) else intern_search h (CDR h lst) name)"
    unfolding intern_search.simps [of h lst name] using lst n c_name_clean [OF Cons.prems(3)] by (simp del: SYMBOL_NAME.simps)
  moreover have "intern_search h (CDR h lst) name = Some (List.find (\<lambda>s. SYMBOL_NAME h s = name) syms)"
    using Cons.IH Cons.prems by auto
  ultimately show ?case by (simp del: SYMBOL_NAME.simps)
qed

declare SYMBOL_NAME.simps [simp del]

lemma symbol_name_le: "symbol_is h x name \<Longrightarrow> heap_le h h' \<Longrightarrow> SYMBOL_NAME h' x = SYMBOL_NAME h x"
  using symbol_is_name symbol_is_le by metis

lemma named_symbols_le:
  assumes "\<forall>s \<in> S. symbol_is h s (SYMBOL_NAME h s)" "heap_le h h'"
  shows "\<forall>s \<in> S. symbol_is h' s (SYMBOL_NAME h' s)" "\<forall>s \<in> S. SYMBOL_NAME h' s = SYMBOL_NAME h s"
proof -
  show n: "\<forall>s \<in> S. SYMBOL_NAME h' s = SYMBOL_NAME h s" using assms symbol_name_le by blast
  show "\<forall>s \<in> S. symbol_is h' s (SYMBOL_NAME h' s)"
  proof
    fix s assume s: "s \<in> S"
    have "symbol_is h' s (SYMBOL_NAME h s)" using assms(1) s by (intro symbol_is_le [OF _ assms(2)]) blast
    then show "symbol_is h' s (SYMBOL_NAME h' s)" using n s by metis
  qed
qed

lemma bucket_ok_le:
  assumes "bucket_ok h tab i" "heap_le h h'"
    and "scm_symbol_hash tab' ! i = scm_symbol_hash tab ! i" "scm_symbol_hash_size tab' = scm_symbol_hash_size tab"
  shows "bucket_ok h' tab' i"
proof -
  obtain syms where s: "chain h (scm_symbol_hash tab ! i) syms SCM_NULL"
      "\<forall>s \<in> set syms. symbol_is h s (SYMBOL_NAME h s)" "\<forall>s \<in> set syms. bucket_of tab (SYMBOL_NAME h s) = i"
      "distinct (List.map (SYMBOL_NAME h) syms)"
    using assms(1) unfolding bucket_ok_def by blast
  note n = named_symbols_le [OF s(2) assms(2)]
  have "chain h' (scm_symbol_hash tab' ! i) syms SCM_NULL"
    unfolding assms(3) using chain_le [OF s(1) assms(2)] .
  moreover have "\<forall>s \<in> set syms. symbol_is h' s (SYMBOL_NAME h' s) \<and> bucket_of tab' (SYMBOL_NAME h' s) = i"
    using s(3) n assms(4) by (metis bucket_of_def)
  moreover have "List.map (SYMBOL_NAME h') syms = List.map (SYMBOL_NAME h) syms" using n(2) by simp
  ultimately show ?thesis using s(4) unfolding bucket_ok_def by metis
qed

lemma find_symbol_le:
  assumes "bucket_ok h tab (bucket_of tab n)" "heap_le h h'" "clean_name n"
    and "scm_symbol_hash tab' ! bucket_of tab n = scm_symbol_hash tab ! bucket_of tab n"
    and "scm_symbol_hash_size tab' = scm_symbol_hash_size tab"
  shows "find_symbol h' tab' n = find_symbol h tab n"
proof -
  obtain syms where s: "chain h (scm_symbol_hash tab ! bucket_of tab n) syms SCM_NULL"
      "\<forall>s \<in> set syms. symbol_is h s (SYMBOL_NAME h s)"
    using assms(1) unfolding bucket_ok_def by blast
  note n = named_symbols_le [OF s(2) assms(2)]
  have "find_symbol h' tab' n = Some (List.find (\<lambda>s. SYMBOL_NAME h' s = n) syms)"
    using intern_search_chain [OF chain_le [OF s(1) assms(2)] n(1) assms(3)] assms(4,5)
    by (simp add: find_symbol_def bucket_of_def)
  also have "List.find (\<lambda>s. SYMBOL_NAME h' s = n) syms = List.find (\<lambda>s. SYMBOL_NAME h s = n) syms"
    using n(2) by (intro find_cong) auto
  finally show ?thesis using intern_search_chain [OF s assms(3)] by (simp add: find_symbol_def)
qed

lemma make_symbol:
  assumes "brk_ok h" "scm_make_symbol h name v = (s, h')" "clean_name name"
  shows "heap_le h h' \<and> brk_ok h' \<and> symbol_is h' s name"
proof -
  obtain a where a: "alloc h (SymbolCell v name) = (a, h')" "s = Ptr PTAG_MISC a"
    using assms(2) by (auto simp: scm_make_symbol_def alloc_ptr_def split: prod.splits)
  show ?thesis
    using alloc_extends [OF assms(1) a(1)] alloc_fresh [OF assms(1) a(1)] a(2) assms(3)
    by (simp add: symbol_is_def)
qed

lemma intern_new:
  assumes ok: "symtab_ok h tab" "brk_ok h" "clean_name name"
    and none: "find_symbol h tab name = Some None"
  shows "\<exists>s h' tab'. scm_intern h tab name = Some (s, h', tab') \<and> symtab_ok h' tab' \<and> heap_le h h' \<and> brk_ok h' \<and>
    symbol_is h' s name \<and>
    (\<forall>n. clean_name n \<longrightarrow> find_symbol h' tab' n = (if n = name then Some (Some s) else find_symbol h tab n))"
proof -
  let ?i = "bucket_of tab name"
  let ?lst = "scm_symbol_hash tab ! ?i"
  obtain s h1 where mk: "scm_make_symbol h name SCM_UNBOUND = (s, h1)" by (metis surj_pair)
  obtain p h2 where cons: "scm_make_cons h1 s ?lst = (p, h2)" by (metis surj_pair)
  define tab' where "tab' = tab\<lparr>scm_symbol_hash := (scm_symbol_hash tab)[?i := p]\<rparr>"
  note 1 = make_symbol [OF ok(2) mk ok(3)]
  have 2: "heap_le h1 h2" "brk_ok h2" using make_cons_extends [OF _ cons] 1 by auto
  have le: "heap_le h h2" using heap_le_trans 1 2(1) by blast
  have i: "?i < scm_symbol_hash_size tab" "length (scm_symbol_hash tab) = scm_symbol_hash_size tab"
    "\<And>j. j < scm_symbol_hash_size tab \<Longrightarrow> bucket_ok h tab j"
    using bucket_of_less [OF ok(1)] ok(1) unfolding symtab_ok_def by auto
  have sz: "scm_symbol_hash_size tab' = scm_symbol_hash_size tab" by (simp add: tab'_def)
  have bkt: "bucket_of tab' n = bucket_of tab n" for n by (simp add: bucket_of_def sz)
  have s2: "symbol_is h2 s name" using symbol_is_le 1 2(1) by blast
  obtain syms where syms: "chain h ?lst syms SCM_NULL"
      "\<forall>s \<in> set syms. symbol_is h s (SYMBOL_NAME h s)" "\<forall>s \<in> set syms. bucket_of tab (SYMBOL_NAME h s) = ?i"
      "distinct (List.map (SYMBOL_NAME h) syms)"
    using i(3) [OF i(1)] unfolding bucket_ok_def by blast
  note nm = named_symbols_le [OF syms(2) le]
  have found: "find_symbol h tab n = Some (List.find (\<lambda>s. SYMBOL_NAME h s = n) syms)"
    if "bucket_of tab n = ?i" "clean_name n" for n
    using intern_search_chain [OF syms(1,2) that(2)] that(1) by (simp add: find_symbol_def)
  have new: "name \<notin> SYMBOL_NAME h ` set syms"
    using none found [OF refl ok(3)] by (auto simp: find_None_iff)
  have chain2: "chain h2 (scm_symbol_hash tab' ! ?i) (s # syms) SCM_NULL"
    using cons i(1,2) chain_le [OF syms(1) le] by (auto simp: tab'_def make_cons_simps has_pair_def)
  have all2: "\<forall>t \<in> set (s # syms). symbol_is h2 t (SYMBOL_NAME h2 t) \<and> bucket_of tab' (SYMBOL_NAME h2 t) = ?i"
  proof
    fix t assume "t \<in> set (s # syms)"
    then show "symbol_is h2 t (SYMBOL_NAME h2 t) \<and> bucket_of tab' (SYMBOL_NAME h2 t) = ?i"
      using bspec [OF nm(1), of t] bspec [OF nm(2), of t] bspec [OF syms(3), of t] s2 symbol_is_name [OF s2]
      by (cases "t = s") (simp_all add: bkt)
  qed
  have "bucket_ok h2 tab' ?i"
    unfolding bucket_ok_def
  proof (intro exI conjI)
    show "distinct (List.map (SYMBOL_NAME h2) (s # syms))"
      using syms(4) new nm(2) symbol_is_name [OF s2] by (auto simp: distinct_map inj_on_def)
  qed (rule chain2, rule all2)
  moreover have "bucket_ok h2 tab' j" if "j < scm_symbol_hash_size tab" "j \<noteq> ?i" for j
    using bucket_ok_le [OF i(3) [OF that(1)] le _ sz] that(2) by (simp add: tab'_def)
  ultimately have "symtab_ok h2 tab'"
    using ok(1) unfolding symtab_ok_def sz by (auto simp: tab'_def)
  moreover have "find_symbol h2 tab' n = (if n = name then Some (Some s) else find_symbol h tab n)"
    if n: "clean_name n" for n
  proof (cases "bucket_of tab n = ?i")
    case True
    have f: "find_symbol h2 tab' n = Some (List.find (\<lambda>s. SYMBOL_NAME h2 s = n) (s # syms))"
      using intern_search_chain [OF chain2 _ n] all2 True by (simp add: find_symbol_def bkt)
    have "List.find (\<lambda>s. SYMBOL_NAME h2 s = n) syms = List.find (\<lambda>s. SYMBOL_NAME h s = n) syms"
      using nm(2) by (intro find_cong) auto
    then show ?thesis using f found [OF True n] symbol_is_name [OF s2] by auto
  next
    case False
    then have "find_symbol h2 tab' n = find_symbol h tab n"
      using find_symbol_le [OF i(3) le n _ sz] bucket_of_less [OF ok(1)] by (simp add: tab'_def)
    then show ?thesis using False by auto
  qed
  moreover have "scm_intern h tab name = Some (s, h2, tab')"
    using none mk cons ok(3) unfolding find_symbol_def scm_intern_def
    by (simp add: Let_def bucket_of_def tab'_def)
  ultimately show ?thesis using le 2(2) s2 by blast
qed

lemma intern_found:
  assumes ok: "symtab_ok h tab" "clean_name name" and found: "find_symbol h tab name = Some (Some s)"
  shows "scm_intern h tab name = Some (s, h, tab) \<and> symbol_is h s name"
proof -
  have "bucket_ok h tab (bucket_of tab name)" using bucket_of_less [OF ok(1)] ok(1) unfolding symtab_ok_def by blast
  then obtain syms where syms: "chain h (scm_symbol_hash tab ! bucket_of tab name) syms SCM_NULL"
      "\<forall>s \<in> set syms. symbol_is h s (SYMBOL_NAME h s)"
    unfolding bucket_ok_def by blast
  have "List.find (\<lambda>s. SYMBOL_NAME h s = name) syms = Some s"
    using intern_search_chain [OF syms ok(2)] found by (simp add: find_symbol_def)
  then have "s \<in> set syms \<and> SYMBOL_NAME h s = name" by (auto simp: find_Some_iff)
  then show ?thesis
    using syms(2) found unfolding find_symbol_def scm_intern_def by (auto simp: Let_def bucket_of_def)
qed

lemma find_symbol_defined: "symtab_ok h tab \<Longrightarrow> clean_name name \<Longrightarrow> \<exists>r. find_symbol h tab name = Some r"
proof -
  assume ok: "symtab_ok h tab" "clean_name name"
  have "bucket_ok h tab (bucket_of tab name)" using bucket_of_less [OF ok(1)] ok(1) unfolding symtab_ok_def by blast
  then show ?thesis
    unfolding bucket_ok_def find_symbol_def using intern_search_chain [OF _ _ ok(2)] by blast
qed

section \<open>Properties\<close>

lemma initialize_symbol_hash_ok:
  "0 < n \<Longrightarrow> n \<le> UINT32_MAX div 8 \<Longrightarrow>
     \<exists>tab. initialize_symbol_hash n = Some tab \<and> symtab_ok h tab \<and> (\<forall>name. find_symbol h tab name = Some None)"
proof (intro exI conjI allI)
  assume n: "0 < n" "n \<le> UINT32_MAX div 8"
  let ?tab = "\<lparr>scm_symbol_hash = replicate n SCM_NULL, scm_symbol_hash_size = n\<rparr>"
  show "initialize_symbol_hash n = Some ?tab" using n by (simp add: initialize_symbol_hash_def)
  show ok: "symtab_ok h ?tab" using n by (simp add: symtab_ok_def bucket_ok_def exI [of _ "[]"])
  show "find_symbol h ?tab name = Some None" for name
    using bucket_of_less [OF ok, of name] by (simp add: find_symbol_def) (subst intern_search.simps, simp)
qed

text \<open>C38: Interning keeps the table well-formed and never fails: the result is the symbol of the name, an
  existing one when the name was interned before and a new one otherwise, and afterwards every name
  that was interned is still found as the same symbol.\<close>

theorem scm_intern_correct:
  assumes "symtab_ok h tab" "brk_ok h" "clean_name name"
  shows "\<exists>s h' tab'. scm_intern h tab name = Some (s, h', tab') \<and> symtab_ok h' tab' \<and> heap_le h h' \<and> brk_ok h' \<and>
    symbol_is h' s name \<and> (find_symbol h tab name \<noteq> Some None \<longrightarrow> h' = h \<and> tab' = tab) \<and>
    (\<forall>n. clean_name n \<longrightarrow> find_symbol h' tab' n = (if n = name then Some (Some s) else find_symbol h tab n))"
proof -
  obtain r where r: "find_symbol h tab name = Some r" using find_symbol_defined [OF assms(1,3)] by blast
  show ?thesis
  proof (cases r)
    case None
    then show ?thesis using intern_new [OF assms] r by auto
  next
    case (Some s)
    then show ?thesis
      using intern_found [OF assms(1,3)] r assms(1,2) by (intro exI [of _ s] exI [of _ h] exI [of _ tab]) auto
  qed
qed


text \<open>The conversions between the characters of a name and the bytes of a string.\<close>

lemma name_of_bytes_inj: "name_of_bytes bs = name_of_bytes cs \<longleftrightarrow> bs = cs"
proof
  have "unat (b :: byte) < 256" for b using unsigned_less [of b] by simp
  then have "inj (\<lambda>b :: byte. char_of (unat b))"
    by (intro injI) (metis of_char_of mod_less word_unat_eq_iff of_nat_id)
  then show "name_of_bytes bs = name_of_bytes cs \<Longrightarrow> bs = cs"
    unfolding name_of_bytes_def by (simp add: inj_map_eq_map)
qed simp

lemma bytes_of_name_of_bytes [simp]: "bytes_of_name (name_of_bytes bs) = bs"
proof -
  have "of_char (char_of (unat b)) = b" for b :: byte
  proof -
    have "unat b < 256" using unsigned_less [of b] by simp
    then have "of_nat (of_char (char_of (unat b))) = (of_nat (unat b) :: byte)" by simp
    then show ?thesis by (simp only: of_nat_of_char) simp
  qed
  then show ?thesis by (simp add: bytes_of_name_def name_of_bytes_def o_def)
qed


lemma clean_name_of_bytes: "0 \<notin> set bs \<Longrightarrow> clean_name (name_of_bytes bs)"
proof -
  assume "0 \<notin> set bs"
  have zero: "b = 0" if "char_of (unat b) = CHR 0x00" for b :: byte
  proof -
    have "unat b < 256" using unsigned_less [of b] by simp
    then have "unat b = of_char (CHR 0x00)" using that by (metis mod_less of_char_of)
    then show ?thesis by (simp add: unat_eq_0)
  qed
  show ?thesis
    unfolding clean_name_def name_of_bytes_def set_map
  proof
    assume "CHR 0x00 \<in> (\<lambda>b. char_of (unat b)) ` set bs"
    then obtain b where b: "b \<in> set bs" "char_of (unat b) = CHR 0x00" by (elim imageE) simp
    with zero [OF b(2)] \<open>0 \<notin> set bs\<close> show False by simp
  qed
qed

context string_codec begin

lemma symbol_of_string:
  assumes "string_is codec valid h x cs m" "symtab_ok h tab" "brk_ok h"
  obtains s h' tab' where "scm_p_string2symbol h tab x = Some (Inr (s, h', tab'))" "symtab_ok h' tab'" "heap_le h h'"
    "brk_ok h'" "symbol_is h' s (name_of_bytes (encode_str codec cs))"
    "find_symbol h' tab' (name_of_bytes (encode_str codec cs)) = Some (Some s)"
    "\<And>n t. clean_name n \<Longrightarrow> find_symbol h tab n = Some (Some t) \<Longrightarrow> find_symbol h' tab' n = Some (Some t)"
proof -
  note d = string_isD [OF assms(1)]
  let ?n = "name_of_bytes (encode_str codec cs)"
  have "0 \<notin> set (encode_str codec cs)" using assms(1) by (intro encoded_clean) (auto simp: string_is_def)
  then have n: "clean_name ?n" by (rule clean_name_of_bytes)
  consider s where "find_symbol h tab ?n = Some (Some s)" | "find_symbol h tab ?n = Some None"
    using find_symbol_defined [OF assms(2) n] by (metis not_None_eq)
  then show thesis
  proof cases
    case 1
    then have "scm_p_string2symbol h tab x = Some (Inr (s, h, tab))" "symbol_is h s ?n"
      using intern_found [OF assms(2) n 1] d by (simp_all add: scm_p_string2symbol_def check_def ENSURE_STRING_def)
    then show thesis using that 1 assms by blast
  next
    case 2
    obtain s h' tab' where i: "scm_intern h tab ?n = Some (s, h', tab')" "symtab_ok h' tab'" "heap_le h h'" "brk_ok h'"
        "symbol_is h' s ?n"
        "\<forall>k. clean_name k \<longrightarrow> find_symbol h' tab' k = (if k = ?n then Some (Some s) else find_symbol h tab k)"
      using intern_new [OF assms(2,3) n 2] by blast
    have "scm_p_string2symbol h tab x = Some (Inr (s, h', tab'))"
      using i(1) d by (simp add: scm_p_string2symbol_def check_def ENSURE_STRING_def)
    moreover have "find_symbol h' tab' ?n = Some (Some s)" using i(6) n by simp
    moreover have "find_symbol h' tab' k = Some (Some t)" if "clean_name k" "find_symbol h tab k = Some (Some t)" for k t
      using i(6) that 2 by auto
    ultimately show thesis using that i by blast
  qed
qed

lemma string_of_symbol:
  assumes "symbol_is h s (name_of_bytes (encode_str codec cs))" "\<forall>c \<in> set cs. valid c \<and> c \<noteq> 0" "brk_ok h"
  obtains p h' where "scm_p_symbol2string codec h s = Some (Inr (p, h'))" "string_is codec valid h' p cs False"
    "heap_le h h'"
proof (rule make_string [OF assms(2,3), of STRLEN_UNKNOWN True])
  fix p h'
  assume "scm_make_string_internal codec h (encode_str codec cs) STRLEN_UNKNOWN True = Some (p, h')"
    and s: "string_is codec valid h' p cs (\<not> True)" "heap_le h h'"
  moreover have "SYMBOLP h s" using assms(1) by (auto simp: symbol_is_def)
  ultimately have "scm_p_symbol2string codec h s = Some (Inr (p, h'))"
    using symbol_is_name [OF assms(1)]
    by (simp add: scm_p_symbol2string_def check_def ENSURE_SYMBOL_def scm_make_immutable_string_copying_def)
  then show thesis using that s by simp
qed simp

end

text \<open>C39: \<^verbatim>\<open>string->symbol\<close> of two strings gives the same object exactly when the strings have the same
  characters, and \<^verbatim>\<open>symbol->string\<close> of it is an immutable string with the characters of the first.\<close>

theorem string_symbol_roundtrip:
  assumes "(codec, valid) \<in> set codec_domains" "string_is codec valid h x cs m" "string_is codec valid h y ds n"
    and "symtab_ok h tab" "brk_ok h"
  shows "\<exists>s h1 tab1 t h2 tab2 p h3. scm_p_string2symbol h tab x = Some (Inr (s, h1, tab1)) \<and>
    scm_p_string2symbol h1 tab1 y = Some (Inr (t, h2, tab2)) \<and> (s = t \<longleftrightarrow> cs = ds) \<and> symtab_ok h2 tab2 \<and>
    scm_p_symbol2string codec h2 s = Some (Inr (p, h3)) \<and> string_is codec valid h3 p cs False"
proof -
  note sc = codec_domains_string [OF assms(1)]
  let ?n = "\<lambda>cs. name_of_bytes (encode_str codec cs)"
  obtain s h1 tab1 where s: "scm_p_string2symbol h tab x = Some (Inr (s, h1, tab1))" "symtab_ok h1 tab1" "heap_le h h1"
      "brk_ok h1" "symbol_is h1 s (?n cs)" "find_symbol h1 tab1 (?n cs) = Some (Some s)"
    by (rule string_codec.symbol_of_string [OF sc assms(2,4,5)]) blast
  obtain t h2 tab2 where t: "scm_p_string2symbol h1 tab1 y = Some (Inr (t, h2, tab2))" "symtab_ok h2 tab2"
      "heap_le h1 h2" "brk_ok h2" "symbol_is h2 t (?n ds)" "find_symbol h2 tab2 (?n ds) = Some (Some t)"
      "\<And>k u. clean_name k \<Longrightarrow> find_symbol h1 tab1 k = Some (Some u) \<Longrightarrow> find_symbol h2 tab2 k = Some (Some u)"
    by (rule string_codec.symbol_of_string [OF sc string_is_le [OF assms(3) s(3)] s(2,4)]) blast
  have s2: "symbol_is h2 s (?n cs)" using symbol_is_le [OF s(5) t(3)] .
  have "s = t \<longleftrightarrow> cs = ds"
  proof
    assume "s = t"
    then have "?n cs = ?n ds" using symbol_is_name [OF s2] symbol_is_name [OF t(5)] by simp
    then have "encode_str codec cs = encode_str codec ds" by (simp add: name_of_bytes_inj)
    then show "cs = ds"
      using string_codec.encode_inj [OF sc] string_isD(5) [OF assms(2)] string_isD(5) [OF assms(3)] by blast
  next
    assume "cs = ds"
    have "clean_name (?n cs)" using s(5) by (simp add: symbol_is_def)
    then have "find_symbol h2 tab2 (?n cs) = Some (Some s)" using t(7) s(6) by blast
    then show "s = t" using t(6) \<open>cs = ds\<close> by simp
  qed
  moreover obtain p h3 where "scm_p_symbol2string codec h2 s = Some (Inr (p, h3))" "string_is codec valid h3 p cs False"
    by (rule string_codec.string_of_symbol [OF sc s2 _ t(4)]) (use assms(2) in \<open>auto simp: string_is_def\<close>)
  ultimately show ?thesis using s(1) t(1,2) by blast
qed

definition symbols_tab :: symtab where
  "symbols_tab = \<lparr>scm_symbol_hash = replicate 1024 SCM_NULL, scm_symbol_hash_size = 1024\<rparr>"

lemma symbols_tab_ok: "symtab_ok h symbols_tab"
  by (simp add: symtab_ok_def bucket_ok_def symbols_tab_def UINT32_MAX_def exI [of _ "[]"])

theorem scm_intern_correct_witness:
  "\<exists>s h' tab'. scm_intern empty_heap symbols_tab ''car'' = Some (s, h', tab') \<and> symbol_is h' s ''car''"
proof -
  have "clean_name ''car''" by (simp add: clean_name_def)
  from scm_intern_correct [OF symbols_tab_ok brk_ok_empty this] show ?thesis by blast
qed

theorem string_symbol_roundtrip_witness:
  "\<exists>s h1 tab1. scm_p_string2symbol (string_heap [0x41, 0xE3, 0x81, 0x82, 0x42] 3) symbols_tab (Ptr PTAG_MISC 0) =
     Some (Inr (s, h1, tab1))"
  using string_symbol_roundtrip [OF utf8_in_domains utf8_string_heap utf8_string_heap symbols_tab_ok string_heap_ok]
  by blast

end
