(* ===== verification/Ports.thy ===== *)
theory Ports
  imports NumberIO
begin

text \<open>
  Ports: the byte ports on strings of \<^verbatim>\<open>src/scmport-str.c\<close>, the multibyte character port of
  \<^verbatim>\<open>src/scmport-mbchar.c\<close> with what it inherits from \<^verbatim>\<open>src/scmport-basechar.c\<close>, the port object
  layer and the procedures of \<^verbatim>\<open>src/port.c\<close>, and the string ports of \<^verbatim>\<open>src/module-srfi6.c\<close>.

  A method table is the constructor of the port; a method that a port does not support is the error
  of \<^verbatim>\<open>SCM_PORT_ERROR_INVALID_OPERATION\<close>. The content of an input string port is copied when it is
  made. File ports have no model. \<^verbatim>\<open>realloc\<close> fills new bytes with zeros, which nothing reads.

  \<open>mbc_rbuf\<close> is the read buffer up to the null that the last store appended; the source finds its end
  with \<^verbatim>\<open>strchr\<close>, so a null character in it ends it.
\<close>

section \<open>Byte ports on strings\<close>

record istrport =
  is_str :: "byte list"
  is_cur :: nat

record ostrport =
  os_str :: "byte list"
  os_cur :: nat
  os_buf_size :: nat

datatype byteport = IStr istrport | OStr ostrport

definition istrport_new :: "byte list \<Rightarrow> istrport" where
  "istrport_new str = \<lparr>is_str = str, is_cur = 0\<rparr>"

definition ScmInputStrPort_new_const :: "byte list \<Rightarrow> byteport" where
  "ScmInputStrPort_new_const str = IStr (istrport_new (c_str str))"

definition istrport_get_byte :: "istrport \<Rightarrow> ichar \<times> istrport" where
  "istrport_get_byte port =
     (if is_cur port < length (is_str port)
      then (ucast (is_str port ! is_cur port), port\<lparr>is_cur := Suc (is_cur port)\<rparr>)
      else (SCM_ICHAR_EOF, port))"

definition istrport_peek_byte :: "istrport \<Rightarrow> ichar" where
  "istrport_peek_byte port =
     (if is_cur port < length (is_str port) then ucast (is_str port ! is_cur port) else SCM_ICHAR_EOF)"

definition istrport_byte_readyp :: "istrport \<Rightarrow> bool" where
  "istrport_byte_readyp port = True"

definition ScmOutputStrPort_new :: byteport where
  "ScmOutputStrPort_new = OStr \<lparr>os_str = [], os_cur = 0, os_buf_size = 0\<rparr>"

definition realloc_bytes :: "byte list \<Rightarrow> nat \<Rightarrow> byte list" where
  "realloc_bytes str n = take n str @ replicate (n - length str) 0"

definition store_bytes :: "byte list \<Rightarrow> nat \<Rightarrow> byte list \<Rightarrow> byte list" where
  "store_bytes buf at str = take at buf @ str @ drop (at + length str) buf"

definition ostrport_append :: "ostrport \<Rightarrow> byte list \<Rightarrow> ostrport" where
  "ostrport_append port str =
     (let len = length str;
          port = (if os_buf_size port - os_cur port < len + 1
                  then let sz = os_buf_size port * 2;
                           sz = (if sz < os_cur port + len + 1 then os_cur port + len + 1 else sz)
                       in port\<lparr>os_buf_size := sz, os_str := realloc_bytes (os_str port) sz\<rparr>
                  else port);
          cur = os_cur port + len
      in port\<lparr>os_str := store_bytes (store_bytes (os_str port) (os_cur port) str) cur [0], os_cur := cur\<rparr>)"

definition ostrport_puts :: "ostrport \<Rightarrow> byte list \<Rightarrow> ostrport" where
  "ostrport_puts port str = ostrport_append port (c_str str)"

definition ostrport_write :: "ostrport \<Rightarrow> byte list \<Rightarrow> ostrport" where
  "ostrport_write port buf = ostrport_append port buf"

definition invalid_operation :: "string \<Rightarrow> scm_error" where
  "invalid_operation cls = Err (cls @ '': invalid operation'')"

fun BYTEPORT_GET_BYTE :: "byteport \<Rightarrow> (ichar \<times> byteport) res" where
  "BYTEPORT_GET_BYTE (IStr p) = Inr (map_prod id IStr (istrport_get_byte p))"
| "BYTEPORT_GET_BYTE (OStr p) = Inl (invalid_operation ''ScmOutputStrPort'')"

fun BYTEPORT_BYTE_READYP :: "byteport \<Rightarrow> bool res" where
  "BYTEPORT_BYTE_READYP (IStr p) = Inr (istrport_byte_readyp p)"
| "BYTEPORT_BYTE_READYP (OStr p) = Inl (invalid_operation ''ScmOutputStrPort'')"

fun BYTEPORT_PUTS :: "byteport \<Rightarrow> byte list \<Rightarrow> byteport res" where
  "BYTEPORT_PUTS (IStr p) str = Inl (invalid_operation ''ScmInputStrPort'')"
| "BYTEPORT_PUTS (OStr p) str = Inr (OStr (ostrport_puts p str))"

fun BYTEPORT_WRITE :: "byteport \<Rightarrow> byte list \<Rightarrow> byteport res" where
  "BYTEPORT_WRITE (IStr p) buf = Inl (invalid_operation ''ScmInputStrPort'')"
| "BYTEPORT_WRITE (OStr p) buf = Inr (OStr (ostrport_write p buf))"

fun BYTEPORT_FLUSH :: "byteport \<Rightarrow> byteport res" where
  "BYTEPORT_FLUSH (IStr p) = Inl (invalid_operation ''ScmInputStrPort'')"
| "BYTEPORT_FLUSH (OStr p) = Inr (OStr p)"

text \<open>The string of an output port, up to its null, and its length; a type error on other ports.\<close>

fun ScmOutputStrPort_str :: "byteport \<Rightarrow> byte list res" where
  "ScmOutputStrPort_str (OStr p) = Inr (c_str (os_str p))"
| "ScmOutputStrPort_str (IStr p) = Inl (Err ''ScmOutputStrPort: invalid object is passed to'')"

fun ScmOutputStrPort_c_strlen :: "byteport \<Rightarrow> nat res" where
  "ScmOutputStrPort_c_strlen (OStr p) = Inr (os_cur p)"
| "ScmOutputStrPort_c_strlen (IStr p) = Inl (Err ''ScmOutputStrPort: invalid object is passed to'')"

fun bytes_left :: "byteport \<Rightarrow> nat" where
  "bytes_left (IStr p) = length (is_str p) - is_cur p"
| "bytes_left (OStr p) = 0"

lemma ucast_byte_not_eof: "(ucast (b :: byte) :: ichar) \<noteq> SCM_ICHAR_EOF"
proof
  assume "(ucast b :: ichar) = SCM_ICHAR_EOF"
  then have "uint (ucast b :: ichar) = 2 ^ 32 - 1"
    by (simp only: SCM_ICHAR_EOF_def unsigned_minus_1_eq_mask mask_eq_exp_minus_1) simp
  moreover have "uint b < 2 ^ 8" using uint_lt2p [of b] by simp
  ultimately show False by (simp add: unsigned_ucast_eq take_bit_int_eq_self)
qed

lemma get_byte_left:
  "BYTEPORT_GET_BYTE bport = Inr (b, bport') \<Longrightarrow> b \<noteq> SCM_ICHAR_EOF \<Longrightarrow> bytes_left bport' < bytes_left bport"
  by (cases bport) (auto simp: istrport_get_byte_def split: if_splits)

section \<open>The multibyte character port\<close>

definition SCM_MB_MAX_LEN :: nat where "SCM_MB_MAX_LEN = 4"

record mbcport =
  mbc_bport :: byteport
  mbc_codec :: codec_vtbl
  mbc_rbuf :: "byte list"

definition ScmMultiByteCharPort_new :: "byteport \<Rightarrow> codec_vtbl \<Rightarrow> mbcport" where
  "ScmMultiByteCharPort_new bport codec = \<lparr>mbc_bport = bport, mbc_codec = codec, mbc_rbuf = []\<rparr>"

definition ScmMultiByteCharPort_set_codec :: "mbcport \<Rightarrow> codec_vtbl \<Rightarrow> mbcport" where
  "ScmMultiByteCharPort_set_codec port codec =
     (let port = port\<lparr>mbc_codec := codec\<rparr>
      in if 1 < length (c_str (mbc_rbuf port)) then port\<lparr>mbc_rbuf := []\<rparr> else port)"

text \<open>The loop that reads bytes until a character is complete: at most four of them.\<close>

function fill_loop :: "codec_vtbl \<Rightarrow> byteport \<Rightarrow> byte list \<Rightarrow> bool \<Rightarrow> (mbcinfo \<times> byteport \<times> byte list) res" where
  "fill_loop codec bport buf blockp =
     (let mbc = scan_char codec buf in
      if mbc_flag mbc = MBCFLAG_ERROR then Inl (Err ''ScmMultibyteCharPort: broken character'')
      else if mbc_flag mbc \<noteq> MBCFLAG_INCOMPLETE \<and> mbc_size mbc \<noteq> 0 then Inr (mbc, bport, buf)
      else if length buf = SCM_MB_MAX_LEN then Inl (Err ''ScmMultibyteCharPort: broken scanner'')
      else case BYTEPORT_GET_BYTE bport of
          Inl e \<Rightarrow> Inl e
        | Inr (b, bport) \<Rightarrow>
            if b = SCM_ICHAR_EOF then Inr (RETURN 0, bport, [])
            else let buf = buf @ [ucast b] in
              if blockp then fill_loop codec bport buf blockp
              else case BYTEPORT_BYTE_READYP bport of
                  Inl e \<Rightarrow> Inl e
                | Inr ready \<Rightarrow> if ready then fill_loop codec bport buf blockp else Inr (mbc, bport, buf))"
  by pat_completeness auto

termination
  by (relation "measure (\<lambda>(codec, bport, buf, blockp). bytes_left bport)") (auto dest: get_byte_left)

declare fill_loop.simps [simp del]

definition mbcport_fill_rbuf :: "mbcport \<Rightarrow> bool \<Rightarrow> (mbcinfo \<times> mbcport) res" where
  "mbcport_fill_rbuf port blockp =
     and_then (fill_loop (mbc_codec port) (mbc_bport port) (c_str (mbc_rbuf port)) blockp) (\<lambda>(mbc, bport, buf).
       Inr (mbc, port\<lparr>mbc_bport := bport, mbc_rbuf := buf\<rparr>))"

definition mbcport_peek_char :: "mbcport \<Rightarrow> (ichar \<times> mbcport) res" where
  "mbcport_peek_char port =
     and_then (mbcport_fill_rbuf port True) (\<lambda>(mbc, port).
       let sz = mbc_size mbc
       in Inr (if sz \<noteq> 0 then str2int (mbc_codec port) (mbc_rbuf port) sz else SCM_ICHAR_EOF, port))"

definition mbcport_get_char :: "mbcport \<Rightarrow> (ichar \<times> mbcport) res" where
  "mbcport_get_char port =
     and_then (mbcport_peek_char port) (\<lambda>(ch, port). Inr (ch, port\<lparr>mbc_rbuf := []\<rparr>))"

definition mbcport_char_readyp :: "mbcport \<Rightarrow> (bool \<times> mbcport) res" where
  "mbcport_char_readyp port =
     and_then (mbcport_fill_rbuf port False) (\<lambda>(mbc, port). Inr (mbc_flag mbc \<noteq> MBCFLAG_INCOMPLETE, port))"

definition mbcport_put_char :: "mbcport \<Rightarrow> ichar \<Rightarrow> mbcport res" where
  "mbcport_put_char port ch =
     (case int2str (mbc_codec port) ch of
        None \<Rightarrow> Inl (Err ''ScmMultibyteCharPort: invalid character'')
      | Some wbuf \<Rightarrow> and_then (BYTEPORT_WRITE (mbc_bport port) wbuf) (\<lambda>bport. Inr (port\<lparr>mbc_bport := bport\<rparr>)))"

definition basecport_puts :: "mbcport \<Rightarrow> byte list \<Rightarrow> mbcport res" where
  "basecport_puts port str = and_then (BYTEPORT_PUTS (mbc_bport port) str) (\<lambda>bport. Inr (port\<lparr>mbc_bport := bport\<rparr>))"

definition basecport_flush :: "mbcport \<Rightarrow> mbcport res" where
  "basecport_flush port = and_then (BYTEPORT_FLUSH (mbc_bport port)) (\<lambda>bport. Inr (port\<lparr>mbc_bport := bport\<rparr>))"

section \<open>Port objects\<close>

text \<open>The implementation of a port is an entry of a table; the port object holds its number, 0 for
  the null pointer of a closed port.\<close>

record ports =
  impls :: "nat \<Rightarrow> mbcport option"
  next_impl :: nat
  scm_in :: obj
  scm_out :: obj
  scm_err :: obj

fun PORTP :: "heap \<Rightarrow> obj \<Rightarrow> bool" where
  "PORTP h x = (case misc_cell h x of Some (PortCell _ _) \<Rightarrow> True | _ \<Rightarrow> False)"

fun PORT_FLAG :: "heap \<Rightarrow> obj \<Rightarrow> nat" where
  "PORT_FLAG h x = (case misc_cell h x of Some (PortCell _ flag) \<Rightarrow> flag | _ \<Rightarrow> 0)"

fun PORT_IMPL :: "heap \<Rightarrow> obj \<Rightarrow> nat" where
  "PORT_IMPL h x = (case misc_cell h x of Some (PortCell impl _) \<Rightarrow> impl | _ \<Rightarrow> 0)"

definition PORT_SET_FLAG :: "heap \<Rightarrow> obj \<Rightarrow> nat \<Rightarrow> heap" where
  "PORT_SET_FLAG h x flag = put_cell h x (PortCell (PORT_IMPL h x) flag)"

definition PORT_SET_IMPL :: "heap \<Rightarrow> obj \<Rightarrow> nat \<Rightarrow> heap" where
  "PORT_SET_IMPL h x impl = put_cell h x (PortCell impl (PORT_FLAG h x))"

definition ENSURE_PORT :: "heap \<Rightarrow> obj \<Rightarrow> unit res" where
  "ENSURE_PORT h x = (if PORTP h x then Inr () else Inl (ErrObj ''port required but got'' x))"

definition SCM_ENSURE_LIVE_PORT :: "heap \<Rightarrow> ports \<Rightarrow> obj \<Rightarrow> mbcport res" where
  "SCM_ENSURE_LIVE_PORT h ps port =
     (case (if PORT_IMPL h port = 0 then None else impls ps (PORT_IMPL h port)) of
        None \<Rightarrow> Inl (ErrObj ''operated on closed port'' port)
      | Some p \<Rightarrow> Inr p)"

definition set_impl :: "heap \<Rightarrow> ports \<Rightarrow> obj \<Rightarrow> mbcport \<Rightarrow> ports" where
  "set_impl h ps port p = ps\<lparr>impls := (impls ps)(PORT_IMPL h port \<mapsto> p)\<rparr>"

definition scm_make_char_port :: "codec_vtbl \<Rightarrow> byteport \<Rightarrow> mbcport" where
  "scm_make_char_port codec bport = ScmMultiByteCharPort_new bport codec"

definition MAKE_PORT :: "heap \<Rightarrow> ports \<Rightarrow> mbcport \<Rightarrow> nat \<Rightarrow> obj \<times> heap \<times> ports" where
  "MAKE_PORT h ps p flag =
     (case scm_make_port h (next_impl ps) flag of (port, h) \<Rightarrow>
        (port, h, ps\<lparr>impls := (impls ps)(next_impl ps \<mapsto> p), next_impl := Suc (next_impl ps)\<rparr>))"

definition scm_prepare_port :: "heap \<Rightarrow> obj \<Rightarrow> obj \<Rightarrow> obj res option" where
  "scm_prepare_port h args default_port =
     Option.bind (ENSURE_PROPER_ARG_LIST h args) (\<lambda>ok. check ok (\<lambda>_. Some (
       if NULLP args then Inr default_port
       else let port = CAR h args in
         and_then (ENSURE_NO_MORE_ARG (CDR h args)) (\<lambda>_. and_then (ENSURE_PORT h port) (\<lambda>_. Inr port)))))"

definition scm_port_close :: "heap \<Rightarrow> ports \<Rightarrow> obj \<Rightarrow> heap \<times> ports" where
  "scm_port_close h ps port =
     (PORT_SET_IMPL h port 0, ps\<lparr>impls := (impls ps)(PORT_IMPL h port := None)\<rparr>)"

definition scm_port_codec :: "heap \<Rightarrow> ports \<Rightarrow> obj \<Rightarrow> codec_vtbl res" where
  "scm_port_codec h ps port = and_then (SCM_ENSURE_LIVE_PORT h ps port) (\<lambda>p. Inr (mbc_codec p))"

definition scm_port_get_char :: "heap \<Rightarrow> ports \<Rightarrow> obj \<Rightarrow> (ichar \<times> ports) res" where
  "scm_port_get_char h ps port =
     and_then (SCM_ENSURE_LIVE_PORT h ps port) (\<lambda>p. and_then (mbcport_get_char p) (\<lambda>(ch, p).
       Inr (ch, set_impl h ps port p)))"

definition scm_port_peek_char :: "heap \<Rightarrow> ports \<Rightarrow> obj \<Rightarrow> (ichar \<times> ports) res" where
  "scm_port_peek_char h ps port =
     and_then (SCM_ENSURE_LIVE_PORT h ps port) (\<lambda>p. and_then (mbcport_peek_char p) (\<lambda>(ch, p).
       Inr (ch, set_impl h ps port p)))"

definition scm_port_char_readyp :: "heap \<Rightarrow> ports \<Rightarrow> obj \<Rightarrow> (bool \<times> ports) res" where
  "scm_port_char_readyp h ps port =
     and_then (SCM_ENSURE_LIVE_PORT h ps port) (\<lambda>p. and_then (mbcport_char_readyp p) (\<lambda>(r, p).
       Inr (r, set_impl h ps port p)))"

definition scm_port_puts :: "heap \<Rightarrow> ports \<Rightarrow> obj \<Rightarrow> byte list \<Rightarrow> ports res" where
  "scm_port_puts h ps port str =
     and_then (SCM_ENSURE_LIVE_PORT h ps port) (\<lambda>p. and_then (basecport_puts p str) (\<lambda>p. Inr (set_impl h ps port p)))"

definition scm_port_put_char :: "heap \<Rightarrow> ports \<Rightarrow> obj \<Rightarrow> ichar \<Rightarrow> ports res" where
  "scm_port_put_char h ps port ch =
     and_then (SCM_ENSURE_LIVE_PORT h ps port) (\<lambda>p. and_then (mbcport_put_char p ch) (\<lambda>p. Inr (set_impl h ps port p)))"

definition scm_port_flush :: "heap \<Rightarrow> ports \<Rightarrow> obj \<Rightarrow> ports res" where
  "scm_port_flush h ps port =
     and_then (SCM_ENSURE_LIVE_PORT h ps port) (\<lambda>p. and_then (basecport_flush p) (\<lambda>p. Inr (set_impl h ps port p)))"

definition scm_port_newline :: "heap \<Rightarrow> ports \<Rightarrow> obj \<Rightarrow> ports res" where
  "scm_port_newline h ps port = and_then (scm_port_puts h ps port [0x0A]) (\<lambda>ps. scm_port_flush h ps port)"

section \<open>Procedures of port.c\<close>

definition SCM_PORTFLAG_ALIVENESS_MASK :: nat where
  "SCM_PORTFLAG_ALIVENESS_MASK = SCM_PORTFLAG_LIVE_INPUT OR SCM_PORTFLAG_LIVE_OUTPUT"

definition scm_p_input_portp :: "heap \<Rightarrow> obj \<Rightarrow> obj res" where
  "scm_p_input_portp h port =
     and_then (ENSURE_PORT h port) (\<lambda>_. Inr (MAKE_BOOL (PORT_FLAG h port AND SCM_PORTFLAG_INPUT \<noteq> 0)))"

definition scm_p_output_portp :: "heap \<Rightarrow> obj \<Rightarrow> obj res" where
  "scm_p_output_portp h port =
     and_then (ENSURE_PORT h port) (\<lambda>_. Inr (MAKE_BOOL (PORT_FLAG h port AND SCM_PORTFLAG_OUTPUT \<noteq> 0)))"

definition scm_p_current_input_port :: "ports \<Rightarrow> obj" where "scm_p_current_input_port ps = scm_in ps"
definition scm_p_current_output_port :: "ports \<Rightarrow> obj" where "scm_p_current_output_port ps = scm_out ps"
definition scm_p_current_error_port :: "ports \<Rightarrow> obj" where "scm_p_current_error_port ps = scm_err ps"

definition scm_p_set_current_input_portx :: "heap \<Rightarrow> ports \<Rightarrow> obj \<Rightarrow> (obj \<times> ports) res" where
  "scm_p_set_current_input_portx h ps newport =
     and_then (SCM_ENSURE_LIVE_PORT h ps newport) (\<lambda>_.
       if PORT_FLAG h newport AND SCM_PORTFLAG_INPUT = 0 then Inl (ErrObj ''input port required but got'' newport)
       else Inr (SCM_TRUE, ps\<lparr>scm_in := newport\<rparr>))"

definition scm_p_set_current_output_portx :: "heap \<Rightarrow> ports \<Rightarrow> obj \<Rightarrow> (obj \<times> ports) res" where
  "scm_p_set_current_output_portx h ps newport =
     and_then (SCM_ENSURE_LIVE_PORT h ps newport) (\<lambda>_.
       if PORT_FLAG h newport AND SCM_PORTFLAG_OUTPUT = 0 then Inl (ErrObj ''output port required but got'' newport)
       else Inr (SCM_TRUE, ps\<lparr>scm_out := newport\<rparr>))"

definition scm_p_set_current_error_portx :: "heap \<Rightarrow> ports \<Rightarrow> obj \<Rightarrow> (obj \<times> ports) res" where
  "scm_p_set_current_error_portx h ps newport =
     and_then (SCM_ENSURE_LIVE_PORT h ps newport) (\<lambda>_.
       if PORT_FLAG h newport AND SCM_PORTFLAG_OUTPUT = 0 then Inl (ErrObj ''output port required but got'' newport)
       else Inr (SCM_TRUE, ps\<lparr>scm_err := newport\<rparr>))"

definition drop_flag :: "nat \<Rightarrow> nat \<Rightarrow> nat" where "drop_flag flag m = flag - (flag AND m)"

definition scm_p_close_input_port :: "heap \<Rightarrow> ports \<Rightarrow> obj \<Rightarrow> (obj \<times> heap \<times> ports) res" where
  "scm_p_close_input_port h ps port =
     and_then (ENSURE_PORT h port) (\<lambda>_.
       let flag = drop_flag (PORT_FLAG h port) SCM_PORTFLAG_LIVE_INPUT; h = PORT_SET_FLAG h port flag
       in Inr (SCM_UNDEF, if flag AND SCM_PORTFLAG_ALIVENESS_MASK = 0 \<and> PORT_IMPL h port \<noteq> 0
                          then scm_port_close h ps port else (h, ps)))"

definition scm_p_close_output_port :: "heap \<Rightarrow> ports \<Rightarrow> obj \<Rightarrow> (obj \<times> heap \<times> ports) res" where
  "scm_p_close_output_port h ps port =
     and_then (ENSURE_PORT h port) (\<lambda>_.
       let flag = drop_flag (PORT_FLAG h port) SCM_PORTFLAG_LIVE_OUTPUT; h = PORT_SET_FLAG h port flag
       in Inr (SCM_UNDEF, if flag AND SCM_PORTFLAG_ALIVENESS_MASK = 0 \<and> PORT_IMPL h port \<noteq> 0
                          then scm_port_close h ps port else (h, ps)))"

definition scm_p_read_char :: "heap \<Rightarrow> ports \<Rightarrow> obj \<Rightarrow> (obj \<times> ports) res option" where
  "scm_p_read_char h ps args =
     map_option (\<lambda>r. and_then r (\<lambda>port. and_then (scm_port_get_char h ps port) (\<lambda>(ch, ps).
       Inr (if ch = SCM_ICHAR_EOF then SCM_EOF else MAKE_CHAR ch, ps)))) (scm_prepare_port h args (scm_in ps))"

definition scm_p_peek_char :: "heap \<Rightarrow> ports \<Rightarrow> obj \<Rightarrow> (obj \<times> ports) res option" where
  "scm_p_peek_char h ps args =
     map_option (\<lambda>r. and_then r (\<lambda>port. and_then (scm_port_peek_char h ps port) (\<lambda>(ch, ps).
       Inr (if ch = SCM_ICHAR_EOF then SCM_EOF else MAKE_CHAR ch, ps)))) (scm_prepare_port h args (scm_in ps))"

definition scm_p_eof_objectp :: "obj \<Rightarrow> obj" where "scm_p_eof_objectp x = MAKE_BOOL (x = SCM_EOF)"

definition scm_p_char_readyp :: "heap \<Rightarrow> ports \<Rightarrow> obj \<Rightarrow> (obj \<times> ports) res option" where
  "scm_p_char_readyp h ps args =
     map_option (\<lambda>r. and_then r (\<lambda>port. and_then (scm_port_char_readyp h ps port) (\<lambda>(b, ps).
       Inr (MAKE_BOOL b, ps)))) (scm_prepare_port h args (scm_in ps))"

definition scm_p_newline :: "heap \<Rightarrow> ports \<Rightarrow> obj \<Rightarrow> (obj \<times> ports) res option" where
  "scm_p_newline h ps args =
     map_option (\<lambda>r. and_then r (\<lambda>port. and_then (scm_port_newline h ps port) (\<lambda>ps. Inr (SCM_UNDEF, ps))))
       (scm_prepare_port h args (scm_out ps))"

definition scm_p_write_char :: "heap \<Rightarrow> ports \<Rightarrow> obj \<Rightarrow> obj \<Rightarrow> (obj \<times> ports) res option" where
  "scm_p_write_char h ps ch args =
     check (ENSURE_CHAR ch) (\<lambda>_.
       map_option (\<lambda>r. and_then r (\<lambda>port. and_then (scm_port_put_char h ps port (CHAR_VALUE ch)) (\<lambda>ps.
         Inr (SCM_UNDEF, ps)))) (scm_prepare_port h args (scm_out ps)))"

section \<open>String ports of SRFI 6\<close>

definition scm_p_srfi6_open_input_string :: "codec_vtbl \<Rightarrow> heap \<Rightarrow> ports \<Rightarrow> obj \<Rightarrow> (obj \<times> heap \<times> ports) res" where
  "scm_p_srfi6_open_input_string codec h ps str =
     and_then (ENSURE_STRING h str) (\<lambda>_.
       Inr (MAKE_PORT h ps (scm_make_char_port codec (ScmInputStrPort_new_const (STRING_STR h str))) SCM_PORTFLAG_INPUT))"

definition scm_p_srfi6_open_output_string :: "codec_vtbl \<Rightarrow> heap \<Rightarrow> ports \<Rightarrow> obj \<times> heap \<times> ports" where
  "scm_p_srfi6_open_output_string codec h ps =
     MAKE_PORT h ps (scm_make_char_port codec ScmOutputStrPort_new) SCM_PORTFLAG_OUTPUT"

definition scm_p_srfi6_get_output_string :: "codec_vtbl \<Rightarrow> heap \<Rightarrow> ports \<Rightarrow> obj \<Rightarrow> (obj \<times> heap) res option" where
  "scm_p_srfi6_get_output_string codec h ps port =
     check (ENSURE_PORT h port) (\<lambda>_.
       case SCM_ENSURE_LIVE_PORT h ps port of
         Inl e \<Rightarrow> Some (Inl e)
       | Inr cport \<Rightarrow> (case ScmOutputStrPort_str (mbc_bport cport) of
           Inl e \<Rightarrow> Some (Inl e)
         | Inr str \<Rightarrow> Option.bind (scm_mb_bare_c_strlen (mbc_codec cport) str) (\<lambda>mb_len.
             map_option Inr (scm_make_string codec h str (int mb_len)))))"

section \<open>The port as a list of characters\<close>

text \<open>What a port that reads byte by byte needs of its codec: a cut character is reported incomplete,
  and no character has more than four bytes.\<close>

locale port_codec = string_codec +
  assumes scan_nil: "scan_char codec [] = RETURN 0"
    and cut_incomplete: "valid c \<Longrightarrow> int2str codec c = Some (p @ s) \<Longrightarrow> p \<noteq> [] \<Longrightarrow> s \<noteq> [] \<Longrightarrow>
      mbc_flag (scan_char codec p) = MBCFLAG_INCOMPLETE"
    and short: "valid c \<Longrightarrow> int2str codec c = Some bs \<Longrightarrow> length bs \<le> SCM_MB_MAX_LEN"

text \<open>\<open>holds codec valid p cs\<close>: the characters \<open>cs\<close> are still to be read from \<open>p\<close>; the first one may be in
  the read buffer already.\<close>

definition holds :: "codec_vtbl \<Rightarrow> (ichar \<Rightarrow> bool) \<Rightarrow> mbcport \<Rightarrow> ichar list \<Rightarrow> bool" where
  "holds codec valid p cs \<longleftrightarrow> mbc_codec p = codec \<and> (\<forall>c \<in> set cs. valid c \<and> c \<noteq> 0) \<and>
     (\<exists>ip. mbc_bport p = IStr ip \<and> is_cur ip \<le> length (is_str ip) \<and>
        (mbc_rbuf p = [] \<and> drop (is_cur ip) (is_str ip) = encode_str codec cs \<or>
         (\<exists>c ds. cs = c # ds \<and> int2str codec c = Some (mbc_rbuf p) \<and>
            drop (is_cur ip) (is_str ip) = encode_str codec ds)))"

lemma uchar_ucast: "uchar (ucast b) = (b :: byte)"
  by (rule bit_word_eqI) (simp add: bit_ucast_iff)

lemma RETURN_simps [simp]: "mbc_size (RETURN n) = n" "mbc_flag (RETURN n) = MBCFLAG_NONE"
  by (simp_all add: RETURN_def)

context port_codec begin

lemma fill_loop_complete:
  assumes "valid c" "int2str codec c = Some bs"
  shows "fill_loop codec bport bs True = Inr (RETURN (length bs), bport, bs)"
proof -
  obtain bs' where b: "int2str codec c = Some bs'" "bs' \<noteq> []"
      "\<And>rest. scan_char codec (bs' @ rest) = RETURN (length bs')"
    using encodable [OF assms(1)] by blast
  then have "bs' = bs" "scan_char codec bs = RETURN (length bs)" "bs \<noteq> []" using assms(2) b(3) [of "[]"] by auto
  then show ?thesis by (subst fill_loop.simps) simp
qed

lemma fill_loop_encoded:
  assumes "valid c" "int2str codec c = Some (q @ s)" "is_cur ip \<le> length (is_str ip)"
    "drop (is_cur ip) (is_str ip) = s @ rest"
  shows "\<exists>ip'. fill_loop codec (IStr ip) q True = Inr (RETURN (length (q @ s)), IStr ip', q @ s) \<and>
    is_cur ip' \<le> length (is_str ip') \<and> drop (is_cur ip') (is_str ip') = rest"
  using assms(2-4)
proof (induction s arbitrary: q ip)
  case Nil
  then show ?case using fill_loop_complete [OF assms(1)] by auto
next
  case (Cons b s)
  have lt: "is_cur ip < length (is_str ip)" using Cons.prems(3) by (cases "is_cur ip < length (is_str ip)") auto
  have b: "is_str ip ! is_cur ip = b" and rest: "drop (Suc (is_cur ip)) (is_str ip) = s @ rest"
    using Cons.prems(3) Cons_nth_drop_Suc [OF lt] by auto
  let ?ip = "ip\<lparr>is_cur := Suc (is_cur ip)\<rparr>"
  have scan: "mbc_flag (scan_char codec q) \<noteq> MBCFLAG_ERROR"
    "\<not> (mbc_flag (scan_char codec q) \<noteq> MBCFLAG_INCOMPLETE \<and> mbc_size (scan_char codec q) \<noteq> 0)"
    using cut_incomplete [OF assms(1) Cons.prems(1)] scan_nil by (cases "q = []"; simp)+
  have "length q \<noteq> SCM_MB_MAX_LEN" using short [OF assms(1) Cons.prems(1)] by simp
  then have "fill_loop codec (IStr ip) q True = fill_loop codec (IStr ?ip) (q @ [b]) True"
    using scan lt b ucast_byte_not_eof [of b]
    by (subst fill_loop.simps) (auto simp: istrport_get_byte_def Let_def uchar_ucast)
  then show ?case
    using Cons.IH [of "q @ [b]" ?ip] Cons.prems(1) rest lt by simp
qed

lemma holds_valid: "holds codec valid p (c # cs) \<Longrightarrow> valid c \<and> c \<noteq> 0 \<and> c \<noteq> SCM_ICHAR_EOF"
  using valid_not_eof by (auto simp: holds_def)

lemma fill_rbuf_holds:
  assumes "holds codec valid p (c # cs)"
  obtains bs p' where "mbcport_fill_rbuf p True = Inr (RETURN (length bs), p')" "holds codec valid p' (c # cs)"
    "int2str codec c = Some bs" "mbc_rbuf p' = bs" "bs \<noteq> []"
proof -
  obtain ip where ip: "mbc_codec p = codec" "mbc_bport p = IStr ip" "is_cur ip \<le> length (is_str ip)"
      "mbc_rbuf p = [] \<and> drop (is_cur ip) (is_str ip) = encode_str codec (c # cs) \<or>
       int2str codec c = Some (mbc_rbuf p) \<and> drop (is_cur ip) (is_str ip) = encode_str codec cs"
    and v: "\<forall>d \<in> set (c # cs). valid d \<and> d \<noteq> 0"
    using assms unfolding holds_def by auto
  have vc: "valid c" "c \<noteq> 0" using v by auto
  obtain bs where bs: "int2str codec c = Some bs" "bs \<noteq> []" using encodable [OF vc(1)] by blast
  have clean: "0 \<notin> set bs" using clean [OF vc bs(1)] .
  have "\<exists>ip'. fill_loop codec (IStr ip) (c_str (mbc_rbuf p)) True = Inr (RETURN (length bs), IStr ip', bs) \<and>
      is_cur ip' \<le> length (is_str ip') \<and> drop (is_cur ip') (is_str ip') = encode_str codec cs"
    using ip(4)
  proof
    assume e: "mbc_rbuf p = [] \<and> drop (is_cur ip) (is_str ip) = encode_str codec (c # cs)"
    then have d: "drop (is_cur ip) (is_str ip) = bs @ encode_str codec cs" using bs(1) by (simp add: encode_str_Cons)
    have "int2str codec c = Some ([] @ bs)" using bs(1) by simp
    from fill_loop_encoded [OF vc(1) this ip(3) d] e show ?thesis by (simp add: c_str_def)
  next
    assume f: "int2str codec c = Some (mbc_rbuf p) \<and> drop (is_cur ip) (is_str ip) = encode_str codec cs"
    then have "c_str (mbc_rbuf p) = bs" using bs(1) c_str_clean [OF clean] by simp
    then show ?thesis using fill_loop_complete [OF vc(1) bs(1)] f ip(3) by auto
  qed
  then obtain ip' where i: "fill_loop codec (IStr ip) (c_str (mbc_rbuf p)) True = Inr (RETURN (length bs), IStr ip', bs)"
      "is_cur ip' \<le> length (is_str ip')" "drop (is_cur ip') (is_str ip') = encode_str codec cs" by blast
  let ?p = "p\<lparr>mbc_bport := IStr ip', mbc_rbuf := bs\<rparr>"
  have "mbcport_fill_rbuf p True = Inr (RETURN (length bs), ?p)"
    using ip(1,2) i(1) by (simp add: mbcport_fill_rbuf_def and_then_def)
  moreover have "holds codec valid ?p (c # cs)" using ip(1) i(2,3) bs(1) v by (simp add: holds_def)
  ultimately show thesis using that bs by simp
qed

lemma peek_holds:
  assumes "holds codec valid p (c # cs)"
  obtains p' where "mbcport_peek_char p = Inr (c, p')" "holds codec valid p' (c # cs)" "int2str codec c = Some (mbc_rbuf p')"
proof -
  obtain bs p' where f: "mbcport_fill_rbuf p True = Inr (RETURN (length bs), p')" "holds codec valid p' (c # cs)"
      "int2str codec c = Some bs" "mbc_rbuf p' = bs" "bs \<noteq> []" by (rule fill_rbuf_holds [OF assms])
  have "str2int codec (bs @ []) (length bs) = c"
    using encodable [of c] holds_valid [OF assms] f(3) by (metis option.inject)
  then have "mbcport_peek_char p = Inr (c, p')"
    using f by (simp add: mbcport_peek_char_def and_then_def holds_def)
  then show thesis using that f by blast
qed

lemma get_holds:
  assumes "holds codec valid p (c # cs)"
  obtains p' where "mbcport_get_char p = Inr (c, p')" "holds codec valid p' cs"
proof -
  obtain p' where p: "mbcport_peek_char p = Inr (c, p')" "holds codec valid p' (c # cs)"
      "int2str codec c = Some (mbc_rbuf p')" by (rule peek_holds [OF assms])
  have "mbc_rbuf p' \<noteq> []" using encodable [of c] holds_valid [OF assms] p(3) by auto
  then have "holds codec valid (p'\<lparr>mbc_rbuf := []\<rparr>) cs" using p(2) by (auto simp: holds_def)
  then show thesis using that p(1) by (simp add: mbcport_get_char_def and_then_def)
qed

lemma eof_holds:
  assumes "holds codec valid p []"
  shows "mbcport_peek_char p = Inr (SCM_ICHAR_EOF, p)" "mbcport_get_char p = Inr (SCM_ICHAR_EOF, p)"
proof -
  obtain ip where ip: "mbc_codec p = codec" "mbc_bport p = IStr ip" "is_cur ip = length (is_str ip)" "mbc_rbuf p = []"
    using assms unfolding holds_def by auto
  have "fill_loop codec (IStr ip) [] True = Inr (RETURN 0, IStr ip, [])"
    using ip(3) by (subst fill_loop.simps) (simp add: scan_nil istrport_get_byte_def SCM_MB_MAX_LEN_def)
  then show "mbcport_peek_char p = Inr (SCM_ICHAR_EOF, p)"
    using ip by (simp add: mbcport_peek_char_def mbcport_fill_rbuf_def and_then_def c_str_def)
  then show "mbcport_get_char p = Inr (SCM_ICHAR_EOF, p)"
    using ip(4) by (simp add: mbcport_get_char_def and_then_def)
qed

lemma new_port_holds:
  assumes "\<forall>c \<in> set cs. valid c \<and> c \<noteq> 0"
  shows "holds codec valid (scm_make_char_port codec (ScmInputStrPort_new_const (encode_str codec cs))) cs"
  using assms by (simp add: holds_def scm_make_char_port_def ScmMultiByteCharPort_new_def
      ScmInputStrPort_new_const_def istrport_new_def)

end

section \<open>The codecs read from ports\<close>

interpretation utf8_port: port_codec utf8_codec_vtbl utf8_valid
proof unfold_locales
  fix c p s assume v: "utf8_valid c" and e: "int2str utf8_codec_vtbl c = Some (p @ s)" and ne: "p \<noteq> []" "s \<noteq> []"
  obtain bs where "int2str utf8_codec_vtbl c = Some bs" "scan_char utf8_codec_vtbl (bs @ []) = RETURN (length bs)"
    using utf8.encodable [OF v] by blast
  then have "utf8_scan_char (p @ s) = RETURN (length (p @ s))" using e by (simp add: utf8_codec_vtbl_def)
  from utf8_scan_prefix_incomplete [OF this ne(1)] ne(2)
  show "mbc_flag (scan_char utf8_codec_vtbl p) = MBCFLAG_INCOMPLETE"
    by (simp add: utf8_codec_vtbl_def RETURN_INCOMPLETE_def)
next
  show "length bs \<le> SCM_MB_MAX_LEN" if "int2str utf8_codec_vtbl c = Some bs" for c bs
    using that by (auto simp: utf8_codec_vtbl_def utf8_int2str_def SCM_MB_MAX_LEN_def split: if_splits)
qed (simp add: utf8_codec_vtbl_def)

lemma proper_prefix_cases:
  assumes "p @ s = bs" "p \<noteq> []" "s \<noteq> []"
  shows "\<exists>n. 0 < n \<and> n < length bs \<and> p = take n bs"
  using assms by (intro exI [of _ "length p"]) auto

lemma prefix2: "p @ s = [a, b] \<Longrightarrow> p \<noteq> [] \<Longrightarrow> s \<noteq> [] \<Longrightarrow> p = [a]"
  by (cases p; cases s; auto simp: append_eq_Cons_conv)

lemma prefix3: "p @ s = [a, b, c] \<Longrightarrow> p \<noteq> [] \<Longrightarrow> s \<noteq> [] \<Longrightarrow> p = [a] \<or> p = [a, b]"
  by (auto simp: append_eq_Cons_conv)

lemma eucjp_leads:
  "IN_GR94 a \<Longrightarrow> \<not> IN_CL a \<and> \<not> IN_GL96 a" "\<not> IN_CL SS2 \<and> \<not> IN_GL96 SS2"
  "\<not> IN_CL SS3 \<and> \<not> IN_GL96 SS3 \<and> \<not> IN_GR94 SS3 \<and> SS3 \<noteq> SS2" "IN_GR94 a \<Longrightarrow> \<not> IS_ASCII_byte a"
  "IN_GR94 b \<Longrightarrow> IS_GR_SPC_OR_DEL b \<Longrightarrow> False"
  by (auto simp: codec_defs word_le_nat_alt word_less_nat_alt)

interpretation eucjp_port: port_codec eucjp_codec_vtbl eucjp_valid
proof unfold_locales
  fix c p s assume "int2str eucjp_codec_vtbl c = Some (p @ s)" and ne: "p \<noteq> []" "s \<noteq> []"
  then have e: "eucjp_int2str c = Some (p @ s)" by (simp add: eucjp_codec_vtbl_def)
  consider a where "[a] = p @ s" | a b where "[a, b] = p @ s" "IN_GR94 a \<or> a = SS2"
    | a b d where "[a, b, d] = p @ s" "a = SS3" "IN_GR94 b"
    using e by (auto simp: eucjp_int2str_def Let_def split: if_splits)
  then have "mbc_flag (eucjp_scan_char p) = MBCFLAG_INCOMPLETE"
  proof cases
    case 1
    then show ?thesis using ne by (cases p) auto
  next
    case 2
    then show ?thesis using prefix2 [OF sym [OF 2(1)] ne] eucjp_leads
      by (auto simp: eucjp_scan_char_def eucjp_scan_def RETURN_INCOMPLETE_def)
  next
    case 3
    then show ?thesis using prefix3 [OF sym [OF 3(1)] ne] eucjp_leads
      by (auto simp: eucjp_scan_char_def eucjp_scan_def RETURN_INCOMPLETE_def)
  qed
  then show "mbc_flag (scan_char eucjp_codec_vtbl p) = MBCFLAG_INCOMPLETE" by (simp add: eucjp_codec_vtbl_def)
next
  show "length bs \<le> SCM_MB_MAX_LEN" if "int2str eucjp_codec_vtbl c = Some bs" for c bs
    using that by (auto simp: eucjp_codec_vtbl_def eucjp_int2str_def Let_def SCM_MB_MAX_LEN_def split: if_splits)
qed (simp add: eucjp_codec_vtbl_def)

lemma euc_cut_incomplete:
  assumes "euc_int2str c = Some (p @ s)" "p \<noteq> []" "s \<noteq> []"
  shows "mbc_flag (euccn_scan_char p) = MBCFLAG_INCOMPLETE"
proof -
  consider a where "[a] = p @ s" | a b where "[a, b] = p @ s" "IN_GR94 a"
    using assms(1) by (auto simp: euc_int2str_def Let_def split: if_splits)
  then show ?thesis
  proof cases
    case 1
    then show ?thesis using assms(2,3) by (cases p) auto
  next
    case 2
    then show ?thesis using prefix2 [OF sym [OF 2(1)] assms(2,3)] eucjp_leads
      by (auto simp: euccn_scan_char_def euccn_scan_def RETURN_INCOMPLETE_def)
  qed
qed

lemma euc_short: "euc_int2str c = Some bs \<Longrightarrow> length bs \<le> SCM_MB_MAX_LEN"
  by (auto simp: euc_int2str_def Let_def SCM_MB_MAX_LEN_def split: if_splits)

interpretation euccn_port: port_codec euccn_codec_vtbl euc_valid
  by unfold_locales (simp_all add: euccn_codec_vtbl_def euc_cut_incomplete euc_short)

interpretation euckr_port: port_codec euckr_codec_vtbl euc_valid
  by unfold_locales (simp_all add: euckr_codec_vtbl_def euckr_is_euccn euc_cut_incomplete euc_short)

interpretation sjis_port: port_codec sjis_codec_vtbl sjis_valid
proof unfold_locales
  fix c p s assume v: "sjis_valid c" and "int2str sjis_codec_vtbl c = Some (p @ s)" and ne: "p \<noteq> []" "s \<noteq> []"
  then have e: "sjis_int2str c = Some (p @ s)" by (simp add: sjis_codec_vtbl_def)
  consider a where "[a] = p @ s" | a b where "[a, b] = p @ s" "IS_LEAD a"
    using e by (auto simp: sjis_int2str_def Let_def split: if_splits)
  then have "mbc_flag (sjis_scan_char p) = MBCFLAG_INCOMPLETE"
  proof cases
    case 1
    then show ?thesis using ne by (cases p) auto
  next
    case 2
    then show ?thesis using prefix2 [OF sym [OF 2(1)] ne]
      by (auto simp: sjis_scan_char_def sjis_scan_def RETURN_INCOMPLETE_def)
  qed
  then show "mbc_flag (scan_char sjis_codec_vtbl p) = MBCFLAG_INCOMPLETE" by (simp add: sjis_codec_vtbl_def)
next
  show "length bs \<le> SCM_MB_MAX_LEN" if "int2str sjis_codec_vtbl c = Some bs" for c bs
    using that by (auto simp: sjis_codec_vtbl_def sjis_int2str_def Let_def SCM_MB_MAX_LEN_def split: if_splits)
qed (simp add: sjis_codec_vtbl_def)

interpretation unibyte_port: port_codec unibyte_codec_vtbl unibyte_valid
proof unfold_locales
  show "mbc_flag (scan_char unibyte_codec_vtbl p) = MBCFLAG_INCOMPLETE"
    if "int2str unibyte_codec_vtbl c = Some (p @ s)" "p \<noteq> []" "s \<noteq> []" for c p s
    using that by (cases p) (auto simp: unibyte_codec_vtbl_def unibyte_int2str_def split: if_splits)
  show "length bs \<le> SCM_MB_MAX_LEN" if "int2str unibyte_codec_vtbl c = Some bs" for c bs
    using that by (auto simp: unibyte_codec_vtbl_def unibyte_int2str_def SCM_MB_MAX_LEN_def split: if_splits)
qed (simp add: unibyte_codec_vtbl_def)

lemma codec_domains_port:
  assumes "(codec, valid) \<in> set codec_domains"
  shows "port_codec codec valid"
  using assms utf8_port.port_codec_axioms eucjp_port.port_codec_axioms
    euccn_port.port_codec_axioms euckr_port.port_codec_axioms sjis_port.port_codec_axioms
    unibyte_port.port_codec_axioms
  unfolding codec_domains_def by auto


section \<open>Input string ports refine a list of characters\<close>

datatype port_op = Read_char | Peek_char | Char_ready
datatype port_reply = Got ichar | Ready bool

definition port_step :: "heap \<Rightarrow> ports \<Rightarrow> obj \<Rightarrow> port_op \<Rightarrow> (port_reply \<times> ports) res" where
  "port_step h ps port p = (case p of
     Read_char \<Rightarrow> and_then (scm_port_get_char h ps port) (\<lambda>(c, ps). Inr (Got c, ps))
   | Peek_char \<Rightarrow> and_then (scm_port_peek_char h ps port) (\<lambda>(c, ps). Inr (Got c, ps))
   | Char_ready \<Rightarrow> and_then (scm_port_char_readyp h ps port) (\<lambda>(b, ps). Inr (Ready b, ps)))"

fun port_run :: "heap \<Rightarrow> ports \<Rightarrow> obj \<Rightarrow> port_op list \<Rightarrow> (port_reply list \<times> ports) res" where
  "port_run h ps port [] = Inr ([], ps)"
| "port_run h ps port (p # ops) =
     and_then (port_step h ps port p) (\<lambda>(r, ps). and_then (port_run h ps port ops) (\<lambda>(rs, ps). Inr (r # rs, ps)))"

text \<open>The specification: a port is the list of the characters not yet read.\<close>

fun char_list_step :: "ichar list \<Rightarrow> port_op \<Rightarrow> port_reply \<times> ichar list" where
  "char_list_step cs Read_char = (Got (if cs = [] then SCM_ICHAR_EOF else hd cs), tl cs)"
| "char_list_step cs Peek_char = (Got (if cs = [] then SCM_ICHAR_EOF else hd cs), cs)"
| "char_list_step cs Char_ready = (Ready True, cs)"

fun char_list_run :: "ichar list \<Rightarrow> port_op list \<Rightarrow> port_reply list" where
  "char_list_run cs [] = []"
| "char_list_run cs (p # ops) = (case char_list_step cs p of (r, cs) \<Rightarrow> r # char_list_run cs ops)"

definition port_holds :: "codec_vtbl \<Rightarrow> (ichar \<Rightarrow> bool) \<Rightarrow> heap \<Rightarrow> ports \<Rightarrow> obj \<Rightarrow> ichar list \<Rightarrow> bool" where
  "port_holds codec valid h ps port cs \<longleftrightarrow>
     (\<exists>p. PORT_IMPL h port \<noteq> 0 \<and> impls ps (PORT_IMPL h port) = Some p \<and> holds codec valid p cs)"

lemma fill_loop_nonblocking: "fill_loop codec (IStr ip) buf blockp = fill_loop codec (IStr ip) buf True"
proof (induction "length (is_str ip) - is_cur ip" arbitrary: ip buf rule: less_induct)
  case less
  have "fill_loop codec (IStr (ip\<lparr>is_cur := Suc (is_cur ip)\<rparr>)) (buf @ [b]) blockp =
      fill_loop codec (IStr (ip\<lparr>is_cur := Suc (is_cur ip)\<rparr>)) (buf @ [b]) True" if "is_cur ip < length (is_str ip)" for b
    using that by (intro less.hyps) simp
  note step = this
  show ?case
  proof (cases "is_cur ip < length (is_str ip) \<and> length buf \<noteq> SCM_MB_MAX_LEN")
    case True
    then show ?thesis using step [of "is_str ip ! is_cur ip"] ucast_byte_not_eof [of "is_str ip ! is_cur ip"]
      by (subst (1 2) fill_loop.simps)
        (cases blockp; simp add: istrport_get_byte_def istrport_byte_readyp_def Let_def uchar_ucast)
  next
    case False
    then show ?thesis
      by (subst (1 2) fill_loop.simps) (auto simp: istrport_get_byte_def Let_def)
  qed
qed

lemma fill_rbuf_nonblocking:
  "mbc_bport p = IStr ip \<Longrightarrow> mbcport_fill_rbuf p blockp = mbcport_fill_rbuf p True"
  using fill_loop_nonblocking [of _ ip _ blockp] by (simp add: mbcport_fill_rbuf_def)

context port_codec begin

lemma readyp_holds:
  assumes "holds codec valid p cs"
  obtains p' where "mbcport_char_readyp p = Inr (True, p')" "holds codec valid p' cs"
proof -
  obtain ip where ip: "mbc_bport p = IStr ip" using assms unfolding holds_def by blast
  show thesis
  proof (cases cs)
    case Nil
    obtain ip' where i: "mbc_bport p = IStr ip'" "mbc_codec p = codec" "is_cur ip' = length (is_str ip')" "mbc_rbuf p = []"
      using assms Nil unfolding holds_def by auto
    have "fill_loop codec (IStr ip') [] True = Inr (RETURN 0, IStr ip', [])"
      using i(3) by (subst fill_loop.simps) (simp add: scan_nil istrport_get_byte_def SCM_MB_MAX_LEN_def)
    then have "mbcport_fill_rbuf p True = Inr (RETURN 0, p)"
      using i by (simp add: mbcport_fill_rbuf_def and_then_def c_str_def)
    then have "mbcport_char_readyp p = Inr (True, p)"
      by (simp add: mbcport_char_readyp_def fill_rbuf_nonblocking [OF i(1), of False] and_then_def)
    then show thesis using that assms by blast
  next
    case (Cons c ds)
    obtain bs p' where f: "mbcport_fill_rbuf p True = Inr (RETURN (length bs), p')" "holds codec valid p' (c # ds)"
        "int2str codec c = Some bs" "mbc_rbuf p' = bs" "bs \<noteq> []"
      by (rule fill_rbuf_holds [OF assms [unfolded Cons]])
    then show thesis
      using that Cons by (simp add: mbcport_char_readyp_def fill_rbuf_nonblocking [OF ip, of False] and_then_def)
  qed
qed

lemma port_holds_step:
  assumes "port_holds codec valid h ps port cs" and "char_list_step cs p = (r, cs')"
  obtains ps' where "port_step h ps port p = Inr (r, ps')" "port_holds codec valid h ps' port cs'"
proof -
  obtain m where m: "PORT_IMPL h port \<noteq> 0" "impls ps (PORT_IMPL h port) = Some m" "holds codec valid m cs"
    using assms(1) unfolding port_holds_def by blast
  have live: "SCM_ENSURE_LIVE_PORT h ps port = Inr m"
    using m(1,2) by (simp only: SCM_ENSURE_LIVE_PORT_def if_False option.case)
  have keep: "port_holds codec valid h (set_impl h ps port m') port ds" if "holds codec valid m' ds" for m' ds
    using that m(1) unfolding port_holds_def set_impl_def by (intro exI [of _ m']) (simp del: PORT_IMPL.simps)
  have peek: "\<exists>m'. mbcport_peek_char m = Inr (if cs = [] then SCM_ICHAR_EOF else hd cs, m') \<and> holds codec valid m' cs"
  proof (cases cs)
    case Nil
    then show ?thesis using eof_holds(1) [of m] m(3) by (intro exI [of _ m]) simp
  next
    case (Cons c ds)
    obtain m' where "mbcport_peek_char m = Inr (c, m')" "holds codec valid m' (c # ds)"
      using peek_holds m(3) unfolding Cons by blast
    then show ?thesis using Cons by (intro exI [of _ m']) simp
  qed
  have get: "\<exists>m'. mbcport_get_char m = Inr (if cs = [] then SCM_ICHAR_EOF else hd cs, m') \<and> holds codec valid m' (tl cs)"
  proof (cases cs)
    case Nil
    then show ?thesis using eof_holds(2) [of m] m(3) by (intro exI [of _ m]) simp
  next
    case (Cons c ds)
    obtain m' where "mbcport_get_char m = Inr (c, m')" "holds codec valid m' ds"
      using get_holds m(3) unfolding Cons by blast
    then show ?thesis using Cons by (intro exI [of _ m']) simp
  qed
  show thesis
  proof (cases p)
    case Read_char
    obtain m' where g: "mbcport_get_char m = Inr (if cs = [] then SCM_ICHAR_EOF else hd cs, m')" "holds codec valid m' (tl cs)"
      using get by blast
    then show thesis using Read_char assms(2) keep [OF g(2)] that
      by (simp add: port_step_def scm_port_get_char_def live and_then_def)
  next
    case Peek_char
    obtain m' where g: "mbcport_peek_char m = Inr (if cs = [] then SCM_ICHAR_EOF else hd cs, m')" "holds codec valid m' cs"
      using peek by blast
    moreover have "cs' = cs" "r = Got (if cs = [] then SCM_ICHAR_EOF else hd cs)" using assms(2) Peek_char by auto
    ultimately show thesis using Peek_char keep [OF g(2)] that
      by (simp add: port_step_def scm_port_peek_char_def live and_then_def)
  next
    case Char_ready
    obtain m' where g: "mbcport_char_readyp m = Inr (True, m')" "holds codec valid m' cs"
      by (rule readyp_holds [OF m(3)])
    then show thesis using Char_ready assms(2) keep [OF g(2)] that
      by (simp add: port_step_def scm_port_char_readyp_def live and_then_def)
  qed
qed

lemma port_holds_run:
  "port_holds codec valid h ps port cs \<Longrightarrow> \<exists>ps'. port_run h ps port ops = Inr (char_list_run cs ops, ps')"
proof (induction ops arbitrary: ps cs)
  case Nil
  then show ?case by simp
next
  case (Cons p ops)
  obtain r cs' where l: "char_list_step cs p = (r, cs')" by (cases "char_list_step cs p")
  obtain ps1 where s: "port_step h ps port p = Inr (r, ps1)" "port_holds codec valid h ps1 port cs'"
    by (rule port_holds_step [OF Cons.prems l])
  obtain ps2 where "port_run h ps1 port ops = Inr (char_list_run cs' ops, ps2)" using Cons.IH [OF s(2)] by blast
  then show ?case using s(1) l by (simp add: and_then_def)
qed

lemma open_input_holds:
  assumes "string_is codec valid h str cs mut" "next_impl ps \<noteq> 0"
  obtains port h' ps' where "scm_p_srfi6_open_input_string codec h ps str = Inr (port, h', ps')"
    "port_holds codec valid h' ps' port cs"
proof -
  have s: "STRINGP h str" "STRING_STR h str = encode_str codec cs" and v: "\<forall>c \<in> set cs. valid c \<and> c \<noteq> 0"
    using assms(1) string_isD by (simp_all add: string_is_def)
  let ?p = "scm_make_char_port codec (ScmInputStrPort_new_const (encode_str codec cs))"
  obtain port h' ps' where mk: "MAKE_PORT h ps ?p SCM_PORTFLAG_INPUT = (port, h', ps')"
    by (cases "MAKE_PORT h ps ?p SCM_PORTFLAG_INPUT")
  then have "PORT_IMPL h' port = next_impl ps" "impls ps' (next_impl ps) = Some ?p"
    by (auto simp: MAKE_PORT_def scm_make_port_def alloc_ptr_def alloc_def Let_def)
  then have "port_holds codec valid h' ps' port cs"
    using new_port_holds [OF v] assms(2) unfolding port_holds_def by metis
  then show thesis
    using that mk s by (simp add: scm_p_srfi6_open_input_string_def ENSURE_STRING_def and_then_def)
qed

end

text \<open>C15: A port that \<^verbatim>\<open>open-input-string\<close> makes from a string of any of the codecs behaves as the list
  of the characters of the string: for every sequence of \<open>read-char\<close>, \<open>peek-char\<close> and \<open>char-ready?\<close>,
  a read returns the next character and consumes it, a peek returns it and leaves it, and after the
  last one both return the end-of-file value.\<close>

theorem input_string_port_refines_list:
  assumes "(codec, valid) \<in> set codec_domains" "string_is codec valid h str cs mut" "next_impl ps \<noteq> 0"
  shows "\<exists>port h' ps' ps''. scm_p_srfi6_open_input_string codec h ps str = Inr (port, h', ps') \<and>
    port_run h' ps' port ops = Inr (char_list_run cs ops, ps'')"
proof -
  obtain port h' ps' where o: "scm_p_srfi6_open_input_string codec h ps str = Inr (port, h', ps')"
    "port_holds codec valid h' ps' port cs"
    by (rule port_codec.open_input_holds [OF codec_domains_port [OF assms(1)] assms(2,3)])
  then show ?thesis using port_codec.port_holds_run [OF codec_domains_port [OF assms(1)] o(2), of ops] by blast
qed


lemma input_string_port_refines_list_witness:
  "\<exists>port h' ps' ps''. scm_p_srfi6_open_input_string utf8_codec_vtbl (string_heap [0x41, 0xE3, 0x81, 0x82, 0x42] 3)
       \<lparr>impls = Map.empty, next_impl = 1, scm_in = SCM_FALSE, scm_out = SCM_FALSE, scm_err = SCM_FALSE\<rparr> (Ptr PTAG_MISC 0)
       = Inr (port, h', ps') \<and>
     port_run h' ps' port [Read_char, Peek_char, Char_ready, Read_char, Read_char, Peek_char, Read_char] =
       Inr ([Got 0x41, Got 0x3042, Ready True, Got 0x3042, Got 0x42, Got SCM_ICHAR_EOF, Got SCM_ICHAR_EOF], ps'')"
  using input_string_port_refines_list [OF utf8_in_domains utf8_string_heap,
      of "\<lparr>impls = Map.empty, next_impl = 1, scm_in = SCM_FALSE, scm_out = SCM_FALSE, scm_err = SCM_FALSE\<rparr>"
        "[Read_char, Peek_char, Char_ready, Read_char, Read_char, Peek_char, Read_char]"]
  by simp

section \<open>Output string ports collect what is written\<close>

text \<open>The buffer is null terminated inside its size, or not yet there.\<close>

definition ostr_ok :: "ostrport \<Rightarrow> bool" where
  "ostr_ok p \<longleftrightarrow> length (os_str p) = os_buf_size p \<and>
     (os_str p = [] \<and> os_cur p = 0 \<or> os_cur p < os_buf_size p \<and> os_str p ! os_cur p = 0)"

definition ostr_text :: "ostrport \<Rightarrow> byte list" where
  "ostr_text p = take (os_cur p) (os_str p)"

lemma length_store_bytes: "at + length str \<le> length buf \<Longrightarrow> length (store_bytes buf at str) = length buf"
  by (simp add: store_bytes_def)

lemma length_realloc_bytes: "length str \<le> n \<Longrightarrow> length (realloc_bytes str n) = n"
  by (simp add: realloc_bytes_def)

lemma ostr_append:
  assumes "ostr_ok p"
  shows "ostr_ok (ostrport_append p str)" "ostr_text (ostrport_append p str) = ostr_text p @ str"
proof -
  have len: "length (os_str p) = os_buf_size p" "os_cur p \<le> os_buf_size p" using assms by (auto simp: ostr_ok_def)
  define q where "q = (if os_buf_size p - os_cur p < length str + 1
                  then let sz = os_buf_size p * 2;
                           sz = (if sz < os_cur p + length str + 1 then os_cur p + length str + 1 else sz)
                       in p\<lparr>os_buf_size := sz, os_str := realloc_bytes (os_str p) sz\<rparr>
                  else p)"
  have q: "os_cur q = os_cur p" "length (os_str q) = os_buf_size q" "os_cur q + length str < os_buf_size q"
    "take (os_cur p) (os_str q) = take (os_cur p) (os_str p)"
    using len unfolding q_def by (auto simp: Let_def realloc_bytes_def)
  have a: "ostrport_append p str =
      q\<lparr>os_str := store_bytes (store_bytes (os_str q) (os_cur q) str) (os_cur q + length str) [0],
        os_cur := os_cur q + length str\<rparr>"
    unfolding ostrport_append_def Let_def q_def by simp
  show "ostr_ok (ostrport_append p str)"
    using q(2,3) unfolding a ostr_ok_def by (simp add: store_bytes_def nth_append)
  show "ostr_text (ostrport_append p str) = ostr_text p @ str"
    using q len unfolding a ostr_text_def by (simp add: store_bytes_def)
qed

lemma ostr_c_str:
  assumes "ostr_ok p" "0 \<notin> set (ostr_text p)"
  shows "c_str (os_str p) = ostr_text p"
proof (cases "os_str p = []")
  case True
  then show ?thesis by (simp add: ostr_text_def c_str_def)
next
  case False
  then have c: "os_cur p < length (os_str p)" "os_str p ! os_cur p = 0" using assms(1) by (auto simp: ostr_ok_def)
  have "os_str p = ostr_text p @ 0 # drop (Suc (os_cur p)) (os_str p)"
    using c id_take_nth_drop [OF c(1)] by (simp add: ostr_text_def)
  then show ?thesis using assms(2) unfolding c_str_def
    by (metis (mono_tags, lifting) takeWhile_tail takeWhile_append2 append_Nil2 takeWhile_eq_all_conv)
qed

text \<open>Writing: single characters and whole strings.\<close>

datatype out_op = Write_char ichar | Display_str "ichar list"

fun out_chars :: "out_op \<Rightarrow> ichar list" where
  "out_chars (Write_char c) = [c]"
| "out_chars (Display_str cs) = cs"

fun out_run :: "codec_vtbl \<Rightarrow> heap \<Rightarrow> ports \<Rightarrow> obj \<Rightarrow> out_op list \<Rightarrow> ports res" where
  "out_run codec h ps port [] = Inr ps"
| "out_run codec h ps port (Write_char c # ops) =
     and_then (scm_port_put_char h ps port c) (\<lambda>ps. out_run codec h ps port ops)"
| "out_run codec h ps port (Display_str cs # ops) =
     and_then (scm_port_puts h ps port (encode_str codec cs)) (\<lambda>ps. out_run codec h ps port ops)"

definition port_collected :: "codec_vtbl \<Rightarrow> heap \<Rightarrow> ports \<Rightarrow> obj \<Rightarrow> ichar list \<Rightarrow> bool" where
  "port_collected codec h ps port cs \<longleftrightarrow> next_impl ps \<noteq> 0 \<and>
     (\<exists>p q. PORT_IMPL h port \<noteq> 0 \<and> impls ps (PORT_IMPL h port) = Some p \<and> mbc_codec p = codec \<and>
        mbc_bport p = OStr q \<and> ostr_ok q \<and> ostr_text q = encode_str codec cs)"

context port_codec begin

lemma out_run_collects:
  assumes "port_collected codec h ps port cs" "\<forall>p \<in> set ops. \<forall>c \<in> set (out_chars p). valid c \<and> c \<noteq> 0"
  obtains ps' where "out_run codec h ps port ops = Inr ps'"
    "port_collected codec h ps' port (cs @ concat (List.map out_chars ops))"
  using assms
proof (induction ops arbitrary: ps cs thesis)
  case Nil
  then show ?case by simp
next
  case (Cons p ops)
  obtain m q where m: "PORT_IMPL h port \<noteq> 0" "impls ps (PORT_IMPL h port) = Some m" "mbc_codec m = codec"
      "mbc_bport m = OStr q" "ostr_ok q" "ostr_text q = encode_str codec cs"
    using Cons.prems(2) unfolding port_collected_def by blast
  have ni: "next_impl ps \<noteq> 0" using Cons.prems(2) by (simp add: port_collected_def)
  have live: "SCM_ENSURE_LIVE_PORT h ps port = Inr m"
    using m(1,2) by (simp only: SCM_ENSURE_LIVE_PORT_def if_False option.case)
  let ?q = "ostrport_append q (encode_str codec (out_chars p))"
  let ?ps = "set_impl h ps port (m\<lparr>mbc_bport := OStr ?q\<rparr>)"
  have v: "\<forall>c \<in> set (out_chars p). valid c \<and> c \<noteq> 0" using Cons.prems(3) by simp
  have coll: "port_collected codec h ?ps port (cs @ out_chars p)"
    using m ni ostr_append [OF m(5), of "encode_str codec (out_chars p)"] unfolding port_collected_def set_impl_def
    by (simp add: encode_str_append del: PORT_IMPL.simps)
  have step: "out_run codec h ps port (p # ops) = out_run codec h ?ps port ops"
  proof (cases p)
    case (Write_char c)
    then obtain bs where bs: "int2str codec c = Some bs" using v encodable [of c] by auto
    then show ?thesis using Write_char m
      by (simp add: scm_port_put_char_def live mbcport_put_char_def and_then_def ostrport_write_def encode_str_Cons)
  next
    case (Display_str ds)
    then have "c_str (encode_str codec ds) = encode_str codec ds" using v c_str_encoded by simp
    then show ?thesis using Display_str m
      by (simp add: scm_port_puts_def live basecport_puts_def and_then_def ostrport_puts_def)
  qed
  obtain ps' where "out_run codec h ?ps port ops = Inr ps'"
      "port_collected codec h ps' port ((cs @ out_chars p) @ concat (List.map out_chars ops))"
    using Cons.IH [OF _ coll] Cons.prems(3) by auto
  then show ?case using Cons.prems(1) step by simp
qed

lemma get_output_collected:
  assumes "brk_ok h" "PORTP h port" "port_collected codec h ps port cs" "\<forall>c \<in> set cs. valid c \<and> c \<noteq> 0"
  shows "\<exists>str h'. scm_p_srfi6_get_output_string codec h ps port = Some (Inr (str, h')) \<and>
    string_is codec valid h' str cs True \<and> heap_le h h'"
proof -
  obtain m q where m: "PORT_IMPL h port \<noteq> 0" "impls ps (PORT_IMPL h port) = Some m" "mbc_codec m = codec"
      "mbc_bport m = OStr q" "ostr_ok q" "ostr_text q = encode_str codec cs"
    using assms(3) unfolding port_collected_def by blast
  have live: "SCM_ENSURE_LIVE_PORT h ps port = Inr m"
    using m(1,2) by (simp only: SCM_ENSURE_LIVE_PORT_def if_False option.case)
  have str: "ScmOutputStrPort_str (mbc_bport m) = Inr (encode_str codec cs)"
    using ostr_c_str [OF m(5)] encoded_clean [OF assms(4)] m(4,6) by simp
  have len: "scm_mb_bare_c_strlen codec (encode_str codec cs) = Some (length cs)"
    using assms(4) strlen_encoded [of cs] by (simp add: scm_mb_bare_c_strlen_def)
  show ?thesis using assms(2)
    by (simp add: scm_p_srfi6_get_output_string_def check_def ENSURE_PORT_def live str len m(3) del: PORTP.simps)
       (use make_mutable [OF assms(4,1) refl] in \<open>auto simp: scm_make_string_def\<close>)
qed

end


lemma open_output_collected:
  assumes "brk_ok h" "next_impl ps \<noteq> 0" "scm_p_srfi6_open_output_string codec h ps = (port, h1, ps1)"
  shows "port_collected codec h1 ps1 port []" "PORTP h1 port" "brk_ok h1" "heap_le h h1"
    "PORT_FLAG h1 port AND SCM_PORTFLAG_OUTPUT \<noteq> 0"
proof -
  have o: "PORT_IMPL h1 port = next_impl ps" "PORTP h1 port" "brk_ok h1"
    "impls ps1 (next_impl ps) = Some (scm_make_char_port codec ScmOutputStrPort_new)" "next_impl ps1 \<noteq> 0" "heap_le h h1"
    "PORT_FLAG h1 port = 5"
    using assms(1,3) by (auto simp: scm_p_srfi6_open_output_string_def MAKE_PORT_def scm_make_port_def alloc_ptr_def
        alloc_def brk_ok_def heap_le_def SCM_PORTFLAG_OUTPUT_def SCM_PORTFLAG_INPUT_def SCM_PORTFLAG_LIVE_OUTPUT_def Let_def)
  show "port_collected codec h1 ps1 port []"
    using o assms(2) unfolding port_collected_def
    by (simp add: scm_make_char_port_def ScmMultiByteCharPort_new_def ScmOutputStrPort_new_def ostr_ok_def
        ostr_text_def encode_str_def del: PORT_IMPL.simps)
  show "PORTP h1 port" "brk_ok h1" "heap_le h h1" "PORT_FLAG h1 port AND SCM_PORTFLAG_OUTPUT \<noteq> 0"
    using o by (simp_all add: SCM_PORTFLAG_OUTPUT_def del: PORTP.simps PORT_FLAG.simps)
qed

text \<open>C16: An output string port collects what is written to it, for every codec and every sequence of
  \<open>write-char\<close>s and displayed strings: \<^verbatim>\<open>get-output-string\<close> returns a fresh mutable string of exactly
  the written characters in order, with its length counted in characters. The buffer reallocations of
  \<^verbatim>\<open>ostrport_append\<close> lose nothing and keep room for the null.\<close>

theorem output_string_port_collects:
  assumes "(codec, valid) \<in> set codec_domains" "brk_ok h" "next_impl ps \<noteq> 0"
    "\<forall>p \<in> set ops. \<forall>c \<in> set (out_chars p). valid c \<and> c \<noteq> 0"
    "scm_p_srfi6_open_output_string codec h ps = (port, h1, ps1)"
  shows "\<exists>ps2 str h2. out_run codec h1 ps1 port ops = Inr ps2 \<and>
    scm_p_srfi6_get_output_string codec h1 ps2 port = Some (Inr (str, h2)) \<and>
    string_is codec valid h2 str (concat (List.map out_chars ops)) True \<and> heap_le h1 h2"
proof -
  note pc = codec_domains_port [OF assms(1)] and o = open_output_collected [OF assms(2,3,5)]
  obtain ps2 where r: "out_run codec h1 ps1 port ops = Inr ps2"
      "port_collected codec h1 ps2 port ([] @ concat (List.map out_chars ops))"
    by (rule port_codec.out_run_collects [OF pc o(1) assms(4)])
  have "\<forall>c \<in> set ([] @ concat (List.map out_chars ops)). valid c \<and> c \<noteq> 0" using assms(4) by auto
  from port_codec.get_output_collected [OF pc o(3,2) r(2) this] r(1) show ?thesis by simp
qed

lemma output_string_port_collects_witness:
  "let (port, h1, ps1) = scm_p_srfi6_open_output_string utf8_codec_vtbl empty_heap
       \<lparr>impls = Map.empty, next_impl = 1, scm_in = SCM_FALSE, scm_out = SCM_FALSE, scm_err = SCM_FALSE\<rparr>
   in \<exists>ps2 str h2. out_run utf8_codec_vtbl h1 ps1 port [Write_char 0x3042, Display_str [0x41, 0x42]] = Inr ps2 \<and>
     scm_p_srfi6_get_output_string utf8_codec_vtbl h1 ps2 port = Some (Inr (str, h2)) \<and>
     string_is utf8_codec_vtbl utf8_valid h2 str [0x3042, 0x41, 0x42] True"
proof -
  let ?ps = "\<lparr>impls = Map.empty, next_impl = 1, scm_in = SCM_FALSE, scm_out = SCM_FALSE, scm_err = SCM_FALSE\<rparr>"
  obtain port h1 ps1 where o: "scm_p_srfi6_open_output_string utf8_codec_vtbl empty_heap ?ps = (port, h1, ps1)"
    by (cases "scm_p_srfi6_open_output_string utf8_codec_vtbl empty_heap ?ps")
  have "\<forall>p \<in> set [Write_char 0x3042, Display_str [0x41, 0x42]]. \<forall>c \<in> set (out_chars p). utf8_valid c \<and> c \<noteq> 0"
    by (simp add: utf8_valid_def word_sle_eq)
  from output_string_port_collects [OF utf8_in_domains brk_ok_empty _ this o] show ?thesis
    unfolding o by auto
qed

text \<open>A null character survives a single \<open>read-char\<close>, but not a \<open>peek-char\<close> before it: the peek leaves
  it in the read buffer, whose end is then found by the null. The unibyte codec, on a sized
  string.\<close>

lemma peeked_null_is_lost:
  "let p = ScmMultiByteCharPort_new (IStr (istrport_new [0, 0x41])) unibyte_codec_vtbl
   in (case mbcport_get_char p of Inr (c, _) \<Rightarrow> c = 0 | _ \<Rightarrow> False) \<and>
      (case mbcport_peek_char p of Inr (c, p) \<Rightarrow> c = 0 \<and>
         (case mbcport_get_char p of Inr (d, _) \<Rightarrow> d = 0x41 | _ \<Rightarrow> False) | _ \<Rightarrow> False)"
  by (simp add: Let_def mbcport_get_char_def mbcport_peek_char_def mbcport_fill_rbuf_def and_then_def
      ScmMultiByteCharPort_new_def istrport_new_def istrport_get_byte_def fill_loop.simps c_str_def
      unibyte_codec_vtbl_def unibyte_scan_char_def unibyte_scan_def unibyte_str2int_def SCM_MB_MAX_LEN_def SCM_ICHAR_EOF_def
      RETURN_def RETURN_ERROR_def)

text \<open>Closing drops the liveness of one direction; a port with neither direction is closed for good and
  every later operation reports it.\<close>

lemma port_cell_updates:
  assumes "PORTP h x"
  shows "PORT_IMPL (PORT_SET_IMPL h x i) x = i" "PORT_FLAG (PORT_SET_IMPL h x i) x = PORT_FLAG h x"
    "PORT_IMPL (PORT_SET_FLAG h x f) x = PORT_IMPL h x" "PORT_FLAG (PORT_SET_FLAG h x f) x = f"
    "PORTP (PORT_SET_FLAG h x f) x" "PORTP (PORT_SET_IMPL h x i) x"
proof -
  obtain j g where "misc_cell h x = Some (PortCell j g)" using assms by (auto split: option.splits cell.splits)
  note same = put_cell_same [OF this] and this
  show "PORT_IMPL (PORT_SET_IMPL h x i) x = i" "PORT_FLAG (PORT_SET_IMPL h x i) x = PORT_FLAG h x"
    "PORT_IMPL (PORT_SET_FLAG h x f) x = PORT_IMPL h x" "PORT_FLAG (PORT_SET_FLAG h x f) x = f"
    "PORTP (PORT_SET_FLAG h x f) x" "PORTP (PORT_SET_IMPL h x i) x"
    using same by (simp_all add: PORT_SET_IMPL_def PORT_SET_FLAG_def)
qed

lemma closed_port_is_dead:
  assumes "PORTP h port" "scm_p_close_input_port h ps port = Inr (r, h', ps')"
    "drop_flag (PORT_FLAG h port) SCM_PORTFLAG_LIVE_INPUT AND SCM_PORTFLAG_ALIVENESS_MASK = 0"
  shows "SCM_ENSURE_LIVE_PORT h' ps' port = Inl (ErrObj ''operated on closed port'' port)"
proof -
  define f where "f = drop_flag (PORT_FLAG h port) SCM_PORTFLAG_LIVE_INPUT"
  note up = port_cell_updates [OF assms(1)] port_cell_updates [OF port_cell_updates(5) [OF assms(1), of f]]
  have "(h', ps') = (if PORT_IMPL h port \<noteq> 0 then scm_port_close (PORT_SET_FLAG h port f) ps port
      else (PORT_SET_FLAG h port f, ps))"
    using assms up(3) [of f] unfolding f_def
    by (simp add: scm_p_close_input_port_def ENSURE_PORT_def and_then_def Let_def del: PORTP.simps PORT_IMPL.simps PORT_FLAG.simps)
  then have "PORT_IMPL h' port = 0"
    using up(3) [of f] up(7) [of 0]
    by (cases "PORT_IMPL h port = 0") (simp_all add: scm_port_close_def del: PORTP.simps PORT_IMPL.simps PORT_FLAG.simps)
  then show ?thesis by (simp add: SCM_ENSURE_LIVE_PORT_def del: PORT_IMPL.simps)
qed

end
