(* ===== verification/Reader.thy ===== *)
theory Reader
  imports Symbols Ports Vectors
begin

text \<open>
  The reader, \<^verbatim>\<open>src/read.c\<close>, with the table of special characters of \<^verbatim>\<open>src/port.c\<close> and the
  extendable buffers of \<^verbatim>\<open>src/alloc.c\<close>. The configuration has R6RS characters, vectors and
  bytevectors, and neither reals nor the R7RS extensions.

  The state is the heap, the symbol table and the character port that is read; the port object is
  looked up by \<^verbatim>\<open>scm_read\<close>. The mutually recursive readers of data are one partial function over the
  point of the code it runs; \<open>None\<close> is a run that does not return. A failed assertion is the error
  \<open>aborted\<close>. Token buffers are the bytes written to them; a null ends them as a string.
\<close>

section \<open>Characters of the port\<close>

definition aborted :: scm_error where "aborted = Err ''assertion failed''"

definition peekc :: "mbcport \<Rightarrow> (ichar \<times> mbcport) res option" where "peekc p = Some (mbcport_peek_char p)"
definition getc :: "mbcport \<Rightarrow> (ichar \<times> mbcport) res option" where "getc p = Some (mbcport_get_char p)"

section \<open>Character classes\<close>

definition SCM_CH_INVALID :: nat where "SCM_CH_INVALID = 0"
definition SCM_CH_CONTROL :: nat where "SCM_CH_CONTROL = 1"
definition SCM_CH_WHITESPACE :: nat where "SCM_CH_WHITESPACE = 2"
definition SCM_CH_DIGIT :: nat where "SCM_CH_DIGIT = 4"
definition SCM_CH_HEX_LETTER :: nat where "SCM_CH_HEX_LETTER = 8"
definition SCM_CH_NONHEX_LETTER :: nat where "SCM_CH_NONHEX_LETTER = 16"
definition SCM_CH_SPECIAL_INITIAL :: nat where "SCM_CH_SPECIAL_INITIAL = 32"
definition SCM_CH_SPECIAL_SUBSEQUENT :: nat where "SCM_CH_SPECIAL_SUBSEQUENT = 64"
definition SCM_CH_TOKEN_INITIAL :: nat where "SCM_CH_TOKEN_INITIAL = 128"
definition SCM_CH_LETTER :: nat where "SCM_CH_LETTER = SCM_CH_HEX_LETTER OR SCM_CH_NONHEX_LETTER"
definition SCM_CH_INITIAL :: nat where "SCM_CH_INITIAL = SCM_CH_LETTER OR SCM_CH_SPECIAL_INITIAL"
definition SCM_CH_PECULIAR_IDENTIFIER_CAND :: nat where "SCM_CH_PECULIAR_IDENTIFIER_CAND = SCM_CH_SPECIAL_SUBSEQUENT"
definition SCM_CH_DELIMITER :: nat where
  "SCM_CH_DELIMITER = SCM_CH_CONTROL OR SCM_CH_WHITESPACE OR SCM_CH_TOKEN_INITIAL"
definition SCM_CH_8BIT :: nat where "SCM_CH_8BIT = 256"
definition SCM_CH_MULTIBYTE :: nat where "SCM_CH_MULTIBYTE = 512"
definition SCM_CH_NONASCII :: nat where "SCM_CH_NONASCII = SCM_CH_8BIT OR SCM_CH_MULTIBYTE"

definition scm_char_class_table :: "nat list" where
  "scm_char_class_table =
     replicate 9 SCM_CH_CONTROL @ replicate 5 (SCM_CH_CONTROL OR SCM_CH_WHITESPACE) @ replicate 18 SCM_CH_CONTROL @
     [SCM_CH_WHITESPACE, SCM_CH_SPECIAL_INITIAL, SCM_CH_TOKEN_INITIAL, SCM_CH_TOKEN_INITIAL] @
     replicate 3 SCM_CH_SPECIAL_INITIAL @ replicate 3 SCM_CH_TOKEN_INITIAL @
     [SCM_CH_SPECIAL_INITIAL, SCM_CH_SPECIAL_SUBSEQUENT, SCM_CH_TOKEN_INITIAL, SCM_CH_SPECIAL_SUBSEQUENT,
      SCM_CH_SPECIAL_SUBSEQUENT, SCM_CH_SPECIAL_INITIAL] @
     replicate 10 SCM_CH_DIGIT @ [SCM_CH_SPECIAL_INITIAL, SCM_CH_TOKEN_INITIAL] @ replicate 4 SCM_CH_SPECIAL_INITIAL @
     [SCM_CH_SPECIAL_SUBSEQUENT] @ replicate 6 SCM_CH_HEX_LETTER @ replicate 20 SCM_CH_NONHEX_LETTER @
     [SCM_CH_TOKEN_INITIAL, SCM_CH_CONTROL, SCM_CH_TOKEN_INITIAL, SCM_CH_SPECIAL_INITIAL, SCM_CH_SPECIAL_INITIAL,
      SCM_CH_TOKEN_INITIAL] @
     replicate 6 SCM_CH_HEX_LETTER @ replicate 20 SCM_CH_NONHEX_LETTER @ replicate 3 SCM_CH_TOKEN_INITIAL @
     [SCM_CH_SPECIAL_INITIAL, SCM_CH_CONTROL]"

definition ICHAR_ASCIIP :: "ichar \<Rightarrow> bool" where "ICHAR_ASCIIP c \<longleftrightarrow> 0 \<le>s c \<and> c \<le>s 127"

definition ICHAR_ASCII_CLASS :: "ichar \<Rightarrow> nat" where
  "ICHAR_ASCII_CLASS c = (if ICHAR_ASCIIP c then scm_char_class_table ! unat c else SCM_CH_INVALID)"

definition ICHAR_CLASS :: "ichar \<Rightarrow> nat" where
  "ICHAR_CLASS c =
     (if 127 <s c then SCM_CH_NONASCII else if c <s 0 then SCM_CH_INVALID else scm_char_class_table ! unat c)"

definition ICHAR_WHITESPACEP :: "ichar \<Rightarrow> bool" where
  "ICHAR_WHITESPACEP c \<longleftrightarrow> c = 0x20 \<or> 0x09 \<le>s c \<and> c \<le>s 0x0D"

definition ICHAR_NUMERICP :: "ichar \<Rightarrow> bool" where "ICHAR_NUMERICP c \<longleftrightarrow> 0x30 \<le>s c \<and> c \<le>s 0x39"

definition ICHAR_HEXA_NUMERICP_byte :: "byte \<Rightarrow> bool" where
  "ICHAR_HEXA_NUMERICP_byte c \<longleftrightarrow>
     0x30 \<le> c \<and> c \<le> 0x39 \<or> 0x61 \<le> c \<and> c \<le> 0x66 \<or> 0x41 \<le> c \<and> c \<le> 0x46"

definition ICHAR_DOWNCASE :: "ichar \<Rightarrow> ichar" where
  "ICHAR_DOWNCASE c = (if 0x41 \<le>s c \<and> c \<le>s 0x5A then c + 0x20 else c)"

definition ICHAR_VALID_UNICODEP :: "ichar \<Rightarrow> bool" where
  "ICHAR_VALID_UNICODEP c \<longleftrightarrow> 0 \<le>s c \<and> c \<le>s 0xD7FF \<or> 0xE000 \<le>s c \<and> c \<le>s 0x10FFFF"

text \<open>The special characters: code, escape sequence and name.\<close>

definition bytes_of_string :: "string \<Rightarrow> byte list" where "bytes_of_string = List.map of_char"

definition scm_special_char_table :: "(byte \<times> string \<times> string) list" where
  "scm_special_char_table =
     [(0x22, [CHR 0x5C, CHR 0x22], [CHR 0x22]), (0x5C, [CHR 0x5C, CHR 0x5C], [CHR 0x5C]), (0x20, '' '', ''space''),
      (0x0A, CHR 0x5C # ''n'', ''newline''), (0x00, CHR 0x5C # ''x00'', ''nul''), (0x07, CHR 0x5C # ''a'', ''alarm''),
      (0x08, CHR 0x5C # ''b'', ''backspace''), (0x09, CHR 0x5C # ''t'', ''tab''), (0x0A, CHR 0x5C # ''n'', ''linefeed''),
      (0x0B, CHR 0x5C # ''v'', ''vtab''), (0x0C, CHR 0x5C # ''f'', ''page''), (0x0D, CHR 0x5C # ''r'', ''return''),
      (0x1B, CHR 0x5C # ''x1b'', ''esc''), (0x7F, CHR 0x5C # ''x7f'', ''delete'')]"

section \<open>Extendable local buffers\<close>

definition scm_lbuf_f_linear :: "nat \<Rightarrow> nat \<Rightarrow> nat" where
  "scm_lbuf_f_linear init_size sz = sz + init_size"

definition scm_lbuf_extend :: "nat \<Rightarrow> nat \<Rightarrow> nat \<Rightarrow> nat" where
  "scm_lbuf_extend init_size sz least_size =
     (if sz < least_size then
        let new_size = scm_lbuf_f_linear init_size sz
        in if new_size < least_size then least_size else new_size
      else sz)"

section \<open>Spaces and tokens\<close>

datatype ScmLexerState = LEX_ST_NORMAL | LEX_ST_COMMENT

partial_function (option) skip_loop :: "ScmLexerState \<Rightarrow> mbcport \<Rightarrow> (ichar \<times> mbcport) res option" where
  "skip_loop state p =
     run_then (peekc p) (\<lambda>(c, p).
       if state = LEX_ST_NORMAL then
         (if c = 0x3B then run_then (getc p) (\<lambda>(_, p). skip_loop LEX_ST_COMMENT p)
          else if \<not> ICHAR_WHITESPACEP c \<or> c = SCM_ICHAR_EOF then Some (Inr (c, p))
          else run_then (getc p) (\<lambda>(_, p). skip_loop LEX_ST_NORMAL p))
       else
         (if c = 0x0A \<or> c = 0x0D then run_then (getc p) (\<lambda>(_, p). skip_loop LEX_ST_NORMAL p)
          else if c = SCM_ICHAR_EOF then Some (Inr (c, p))
          else run_then (getc p) (\<lambda>(_, p). skip_loop LEX_ST_COMMENT p)))"

definition skip_comment_and_space :: "mbcport \<Rightarrow> (ichar \<times> mbcport) res option" where
  "skip_comment_and_space p = skip_loop LEX_ST_NORMAL p"

datatype token_err = OK | TOKEN_BUF_EXCEEDED

text \<open>\<open>buf\<close> is what has been written to the token buffer of \<open>buf_size\<close> bytes.\<close>

partial_function (option) read_token ::
    "mbcport \<Rightarrow> nat \<Rightarrow> nat \<Rightarrow> byte list \<Rightarrow> (token_err \<times> byte list \<times> mbcport) res option" where
  "read_token p buf_size delim buf =
     run_then (peekc p) (\<lambda>(c, p).
       let ch_class = ICHAR_CLASS c in
       if buf = [] \<and> c = SCM_ICHAR_EOF then Some (Inl (Err ''unexpected EOF at a token''))
       else if buf \<noteq> [] \<and> (ch_class AND delim \<noteq> 0 \<or> c = SCM_ICHAR_EOF) then Some (Inr (OK, buf, p))
       else if ch_class AND SCM_CH_NONASCII \<noteq> 0 then
         (if buf_size - 1 \<le> length buf + SCM_MB_MAX_LEN then Some (Inr (TOKEN_BUF_EXCEEDED, buf, p))
          else if codec_ccs (mbc_codec p) \<noteq> CCS_UNICODE
            then Some (Inl (Err ''non-ASCII char in token on a non-Unicode port''))
          else case utf8_int2str c of
              None \<Rightarrow> Some (Inl aborted)
            | Some bs \<Rightarrow> run_then (getc p) (\<lambda>(_, p). read_token p buf_size delim (buf @ bs)))
       else if length buf = buf_size - 1 then Some (Inr (TOKEN_BUF_EXCEEDED, buf, p))
       else run_then (getc p) (\<lambda>(_, p). read_token p buf_size delim (buf @ [uchar c])))"

section \<open>Characters\<close>

definition parse_unicode_sequence :: "byte list \<Rightarrow> ichar res" where
  "parse_unicode_sequence seq =
     (if length seq < 2 \<or> seq ! 0 \<noteq> 0x78 \<or> \<not> ICHAR_HEXA_NUMERICP_byte (seq ! 1) then Inr (-1)
      else case scm_string2number (tl seq) 16 of (n, err) \<Rightarrow>
        let c = word_of_int n :: ichar in
        if \<not> 0 \<le>s c then Inl aborted
        else if err then Inr (-1)
        else if \<not> ICHAR_VALID_UNICODEP c then Inl (Err ''invalid Unicode value'')
        else Inr c)"

definition read_unicode_sequence :: "mbcport \<Rightarrow> (ichar \<times> mbcport) res option" where
  "read_unicode_sequence p =
     run_then (read_token p 9 SCM_CH_DELIMITER []) (\<lambda>(err, seq, p).
       if err = TOKEN_BUF_EXCEEDED then Some (Inl (Err ''invalid hex scalar value''))
       else case parse_unicode_sequence (c_str (0x78 # seq)) of
           Inl e \<Rightarrow> Some (Inl e)
         | Inr c \<Rightarrow> if c <s 0 then Some (Inl (Err ''invalid hex scalar value'')) else Some (Inr (c, p)))"

definition CHAR_LITERAL_LEN_MAX :: nat where "CHAR_LITERAL_LEN_MAX = 9"

definition strcasecmp_equal :: "byte list \<Rightarrow> byte list \<Rightarrow> bool" where
  "strcasecmp_equal s t \<longleftrightarrow> List.map ICHAR_DOWNCASE_byte s = List.map ICHAR_DOWNCASE_byte t"

fun find_char_name :: "byte list \<Rightarrow> (byte \<times> string \<times> string) list \<Rightarrow> obj res" where
  "find_char_name buf [] = Inl (Err ''invalid character literal'')"
| "find_char_name buf ((code, esc_seq, lex_rep) # infos) =
     (if strcasecmp_equal buf (bytes_of_string lex_rep) then Inr (MAKE_CHAR (ucast code))
      else find_char_name buf infos)"

text \<open>The first byte of the buffer is the character, cut to a byte.\<close>

definition read_char :: "mbcport \<Rightarrow> (obj \<times> mbcport) res option" where
  "read_char p =
     run_then (getc p) (\<lambda>(c, p). run_then (peekc p) (\<lambda>(next, p).
       if ICHAR_ASCII_CLASS next AND SCM_CH_DELIMITER \<noteq> 0 \<or> next = SCM_ICHAR_EOF then Some (Inr (MAKE_CHAR c, p))
       else run_then (read_token p CHAR_LITERAL_LEN_MAX SCM_CH_DELIMITER []) (\<lambda>(err, tail, p).
         if err = TOKEN_BUF_EXCEEDED then Some (Inl (Err ''invalid character literal''))
         else let buf = c_str (uchar c # tail) in
           case parse_unicode_sequence buf of
             Inl e \<Rightarrow> Some (Inl e)
           | Inr unicode \<Rightarrow>
               if 0 \<le>s unicode then Some (Inr (MAKE_CHAR unicode, p))
               else (case find_char_name buf scm_special_char_table of
                   Inl e \<Rightarrow> Some (Inl e)
                 | Inr x \<Rightarrow> Some (Inr (x, p))))))"

section \<open>Strings\<close>

fun find_escape :: "ichar \<Rightarrow> (byte \<times> string \<times> string) list \<Rightarrow> byte option" where
  "find_escape c [] = None"
| "find_escape c ((code, esc_seq, lex_rep) # infos) =
     (if length esc_seq = 2 \<and> c = ucast (of_char (esc_seq ! 1) :: byte) then Some code else find_escape c infos)"

text \<open>The element of a string after a backslash: its bytes and the last character read.\<close>

definition read_escape :: "codec_vtbl \<Rightarrow> mbcport \<Rightarrow> (byte list \<times> ichar \<times> mbcport) res option" where
  "read_escape codec p =
     run_then (getc p) (\<lambda>(c, p).
       if c = 0x78 then
         run_then (read_unicode_sequence p) (\<lambda>(c, p). case int2str codec c of
             None \<Rightarrow> Some (Inl (Err ''invalid inline hex escape in string''))
           | Some bs \<Rightarrow> run_then (getc p) (\<lambda>(c, p).
               if c \<noteq> 0x3B then Some (Inl (Err ''inline hex escape must be followed by semicolon''))
               else Some (Inr (bs, c, p))))
       else case find_escape c scm_special_char_table of
           None \<Rightarrow> Some (Inl (Err ''invalid escape sequence in string''))
         | Some code \<Rightarrow> Some (Inr ([code], c, p)))"

partial_function (option) read_string_loop ::
    "codec_vtbl \<Rightarrow> mbcport \<Rightarrow> byte list \<Rightarrow> int \<Rightarrow> (byte list \<times> int \<times> mbcport) res option" where
  "read_string_loop codec p buf len =
     run_then (getc p) (\<lambda>(c, p).
       if c = 0x22 then Some (Inr (buf, len, p))
       else if c = SCM_ICHAR_EOF then Some (Inl (Err ''EOF in string''))
       else if c = 0x5C then
         run_then (read_escape codec p) (\<lambda>(bs, c, p).
           if c = 0 then Some (Inl (Err ''null character in a string''))
           else read_string_loop codec p (buf @ bs) (len + 1))
       else case int2str codec c of
           None \<Rightarrow> Some (Inl (Err ''invalid char in string''))
         | Some bs \<Rightarrow>
             if c = 0 then Some (Inl (Err ''null character in a string''))
             else read_string_loop codec p (buf @ bs) (len + 1))"

record rstate =
  rd_heap :: heap
  rd_tab :: symtab
  rd_port :: mbcport

text \<open>\<open>codec\<close> is the codec of the interpreter, the one of the port is taken from the port.\<close>

definition read_string :: "codec_vtbl \<Rightarrow> rstate \<Rightarrow> (obj \<times> rstate) res option" where
  "read_string codec st =
     run_then (read_string_loop (mbc_codec (rd_port st)) (rd_port st) [] 0) (\<lambda>(buf, len, p).
       Option.bind (scm_make_immutable_string_copying codec (rd_heap st) buf len) (\<lambda>(x, h).
         Some (Inr (x, st\<lparr>rd_heap := h, rd_port := p\<rparr>))))"

section \<open>Symbols and numbers\<close>

definition SCM_INITIAL_SYMBOL_BUF_SIZE :: nat where "SCM_INITIAL_SYMBOL_BUF_SIZE = 64"
definition SCM_MB_CHAR_BUF_SIZE :: nat where "SCM_MB_CHAR_BUF_SIZE = SCM_MB_MAX_LEN + 1"

partial_function (option) read_symbol_loop ::
    "mbcport \<Rightarrow> nat \<Rightarrow> byte list \<Rightarrow> (byte list \<times> mbcport) res option" where
  "read_symbol_loop p sz buf =
     run_then (read_token p (sz - length buf) SCM_CH_DELIMITER []) (\<lambda>(err, tail, p).
       if err \<noteq> TOKEN_BUF_EXCEEDED then Some (Inr (buf @ tail, p))
       else read_symbol_loop p (scm_lbuf_extend SCM_INITIAL_SYMBOL_BUF_SIZE sz (sz + SCM_MB_CHAR_BUF_SIZE)) (buf @ tail))"

definition intern_bytes :: "rstate \<Rightarrow> byte list \<Rightarrow> mbcport \<Rightarrow> (obj \<times> rstate) res option" where
  "intern_bytes st buf p =
     Option.bind (scm_intern (rd_heap st) (rd_tab st) (name_of_bytes (c_str buf))) (\<lambda>(s, h, tab).
       Some (Inr (s, st\<lparr>rd_heap := h, rd_tab := tab, rd_port := p\<rparr>)))"

definition read_symbol :: "rstate \<Rightarrow> (obj \<times> rstate) res option" where
  "read_symbol st =
     run_then (read_symbol_loop (rd_port st) SCM_INITIAL_SYMBOL_BUF_SIZE []) (\<lambda>(buf, p). intern_bytes st buf p)"

definition NUMBER_LITERAL_LEN_MAX :: nat where "NUMBER_LITERAL_LEN_MAX = 3 + 60 - 1"

definition parse_number :: "byte list \<Rightarrow> byte \<Rightarrow> obj res" where
  "parse_number buf prefix =
     (let str = take (3 + NUMBER_LITERAL_LEN_MAX - 1) ([0x23, prefix] @ c_str buf); number = scm_parse_number str 10
      in if \<not> INTP number then Inl (Err ''ill-formatted number'') else Inr number)"

definition read_number :: "rstate \<Rightarrow> byte \<Rightarrow> (obj \<times> rstate) res option" where
  "read_number st prefix =
     run_then (read_token (rd_port st) (NUMBER_LITERAL_LEN_MAX + 1) SCM_CH_DELIMITER []) (\<lambda>(err, buf, p).
       if err = TOKEN_BUF_EXCEEDED then Some (Inl (Err ''invalid number literal''))
       else Some (and_then (parse_number buf prefix) (\<lambda>n. Inr (n, st\<lparr>rd_port := p\<rparr>))))"

text \<open>The predefined symbols the reader puts into data.\<close>

record reader_symbols =
  SYM_QUOTE :: obj
  SYM_QUASIQUOTE :: obj
  SYM_UNQUOTE :: obj
  SYM_UNQUOTE_SPLICING :: obj
  SYM_ELLIPSIS :: obj

definition read_number_or_peculiar :: "reader_symbols \<Rightarrow> rstate \<Rightarrow> (obj \<times> rstate) res option" where
  "read_number_or_peculiar syms st =
     run_then (peekc (rd_port st)) (\<lambda>(c, p).
       let st = st\<lparr>rd_port := p\<rparr> in
       if ICHAR_ASCII_CLASS c AND (SCM_CH_DIGIT OR SCM_CH_PECULIAR_IDENTIFIER_CAND) = 0 then Some (Inl aborted)
       else if ICHAR_NUMERICP c then read_number st 0x64
       else if c = 0x2B \<or> c = 0x2D then
         run_then (read_token (rd_port st) (NUMBER_LITERAL_LEN_MAX + 1) SCM_CH_DELIMITER []) (\<lambda>(err, buf, p).
           if err = TOKEN_BUF_EXCEEDED then Some (Inl (Err ''invalid number literal''))
           else if (buf @ [0]) ! 1 = 0 then intern_bytes st buf p
           else Some (and_then (parse_number buf 0x64) (\<lambda>n. Inr (n, st\<lparr>rd_port := p\<rparr>))))
       else if c = 0x2E then
         run_then (read_token (rd_port st) (NUMBER_LITERAL_LEN_MAX + 1) SCM_CH_DELIMITER []) (\<lambda>(err, buf, p).
           if c_str buf = [0x2E, 0x2E, 0x2E] then Some (Inr (SYM_ELLIPSIS syms, st\<lparr>rd_port := p\<rparr>))
           else Some (Inl (Err ''invalid identifier'')))
       else if c = 0x40 then Some (Inl (Err ''invalid identifier starting with @''))
       else read_symbol st)"

section \<open>Data\<close>

definition VECTOR_SET_IMMUTABLE :: "heap \<Rightarrow> obj \<Rightarrow> heap" where
  "VECTOR_SET_IMMUTABLE h x = (case misc_cell h x of Some (VectorCell vec _) \<Rightarrow> put_cell h x (VectorCell vec False) | _ \<Rightarrow> h)"

definition BYTEVECTOR_SET_IMMUTABLE :: "heap \<Rightarrow> obj \<Rightarrow> heap" where
  "BYTEVECTOR_SET_IMMUTABLE h x =
     (case misc_cell h x of Some (BytevectorCell vec _) \<Rightarrow> put_cell h x (BytevectorCell vec False) | _ \<Rightarrow> h)"

definition LIST_2 :: "heap \<Rightarrow> obj \<Rightarrow> obj \<Rightarrow> obj \<times> heap" where
  "LIST_2 h x y = (case scm_make_cons h y SCM_NULL of (l, h) \<Rightarrow> scm_make_cons h x l)"

text \<open>The points of the reader: a datum, the loop of \<^verbatim>\<open>read_list\<close> with its list and queue, the rest of a
  notation after the number sign, and a quoted datum.\<close>

datatype read_point = Sexpression | List_loop ichar obj ref | Hash | Quoted obj

definition with_port :: "rstate \<Rightarrow> (ichar \<times> mbcport) res option \<Rightarrow> (ichar \<times> rstate) res option" where
  "with_port st m = run_then m (\<lambda>(c, p). Some (Inr (c, st\<lparr>rd_port := p\<rparr>)))"

partial_function (option) reader ::
    "codec_vtbl \<Rightarrow> reader_symbols \<Rightarrow> read_point \<Rightarrow> rstate \<Rightarrow> (obj \<times> rstate) res option" where
  "reader codec syms point st =
     (case point of
        Sexpression \<Rightarrow>
          run_then (with_port st (skip_comment_and_space (rd_port st))) (\<lambda>(c, st).
            let ch_class = ICHAR_CLASS c in
            if ch_class AND (SCM_CH_INITIAL OR SCM_CH_NONASCII) \<noteq> 0 then read_symbol st
            else if ch_class AND (SCM_CH_DIGIT OR SCM_CH_PECULIAR_IDENTIFIER_CAND) \<noteq> 0
              then read_number_or_peculiar syms st
            else if \<not> (ch_class = SCM_CH_TOKEN_INITIAL \<or> c = SCM_ICHAR_EOF) \<or> c = 0x3B then Some (Inl aborted)
            else run_then (with_port st (getc (rd_port st))) (\<lambda>(_, st).
              if c = 0x28 then reader codec syms (List_loop 0x29 SCM_NULL RefOffHeap) st
              else if c = 0x22 then read_string codec st
              else if c = 0x27 then reader codec syms (Quoted (SYM_QUOTE syms)) st
              else if c = 0x23 then reader codec syms Hash st
              else if c = 0x60 then reader codec syms (Quoted (SYM_QUASIQUOTE syms)) st
              else if c = 0x2C then
                run_then (with_port st (peekc (rd_port st))) (\<lambda>(c, st).
                  if c = SCM_ICHAR_EOF then Some (Inl (Err ''EOF in unquote''))
                  else if c = 0x40 then
                    run_then (with_port st (getc (rd_port st))) (\<lambda>(_, st).
                      reader codec syms (Quoted (SYM_UNQUOTE_SPLICING syms)) st)
                  else reader codec syms (Quoted (SYM_UNQUOTE syms)) st)
              else if c = 0x29 then Some (Inl (Err ''unexpected closing parenthesis''))
              else if c = SCM_ICHAR_EOF then Some (Inr (SCM_EOF, st))
              else if c \<in> {0x7C, 0x5B, 0x5D, 0x7B, 0x7D} then Some (Inl (Err ''reserved notation''))
              else Some (Inl aborted)))
      | List_loop closing_paren lst q \<Rightarrow>
          run_then (with_port st (skip_comment_and_space (rd_port st))) (\<lambda>(c, st).
            if c = SCM_ICHAR_EOF then Some (Inl (Err ''EOF inside list''))
            else if c = closing_paren then
              run_then (with_port st (getc (rd_port st))) (\<lambda>(_, st). Some (Inr (lst, st)))
            else if c = 0x2E then
              run_then (read_token (rd_port st) 4 SCM_CH_DELIMITER []) (\<lambda>(err, dot_buf, p).
                let st = st\<lparr>rd_port := p\<rparr> in
                if (dot_buf @ [0]) ! 1 = 0 then
                  run_then (with_port st (peekc (rd_port st))) (\<lambda>(c, st).
                    if \<not> ICHAR_WHITESPACEP c then Some (Inl (Err ''implicit dot delimitation is disabled''))
                    else if NULLP lst then Some (Inl (Err ''dot at the start of the list''))
                    else run_then (reader codec syms Sexpression st) (\<lambda>(cdr, st).
                      run_then (with_port st (skip_comment_and_space (rd_port st))) (\<lambda>(c, st).
                        run_then (with_port st (getc (rd_port st))) (\<lambda>(_, st).
                          if c \<noteq> closing_paren then Some (Inl (Err ''bad dot syntax''))
                          else (case SCM_SET (rd_heap st) lst q cdr of
                              (h, lst) \<Rightarrow> Some (Inr (lst, st\<lparr>rd_heap := h\<rparr>)))))))
                else if c_str dot_buf = [0x2E, 0x2E, 0x2E] then
                  (case queue_add (rd_heap st) lst q (SYM_ELLIPSIS syms) of (h, lst, q) \<Rightarrow>
                     reader codec syms (List_loop closing_paren lst q) (st\<lparr>rd_heap := h\<rparr>))
                else Some (Inl (Err ''bad dot syntax'')))
            else run_then (reader codec syms Sexpression st) (\<lambda>(elm, st).
              case queue_add (rd_heap st) lst q elm of (h, lst, q) \<Rightarrow>
                reader codec syms (List_loop closing_paren lst q) (st\<lparr>rd_heap := h\<rparr>)))
      | Hash \<Rightarrow>
          run_then (with_port st (getc (rd_port st))) (\<lambda>(c, st).
            let c = ICHAR_DOWNCASE c in
            if c = 0x74 then Some (Inr (SCM_TRUE, st))
            else if c = 0x66 then Some (Inr (SCM_FALSE, st))
            else if c = 0x28 then
              run_then (reader codec syms (List_loop 0x29 SCM_NULL RefOffHeap) st) (\<lambda>(lst, st).
                run_then (scm_p_list2vector (rd_heap st) lst) (\<lambda>(x, h).
                  Some (Inr (x, st\<lparr>rd_heap := VECTOR_SET_IMMUTABLE h x\<rparr>))))
            else if c = 0x75 then
              run_then (with_port st (getc (rd_port st))) (\<lambda>(c, st).
                if c \<noteq> 0x38 then Some (Inl (Err ''invalid bytevector literal''))
                else run_then (with_port st (getc (rd_port st))) (\<lambda>(c, st).
                  if c \<noteq> 0x28 then Some (Inl (Err ''invalid bytevector literal''))
                  else run_then (reader codec syms (List_loop 0x29 SCM_NULL RefOffHeap) st) (\<lambda>(lst, st).
                    run_then (scm_p_bytevector (rd_heap st) lst) (\<lambda>(x, h).
                      Some (Inr (x, st\<lparr>rd_heap := BYTEVECTOR_SET_IMMUTABLE h x\<rparr>))))))
            else if c = 0x5C then
              run_then (read_char (rd_port st)) (\<lambda>(x, p). Some (Inr (x, st\<lparr>rd_port := p\<rparr>)))
            else if c \<in> {0x62, 0x6F, 0x64, 0x78, 0x65, 0x69} then read_number st (uchar c)
            else if c = SCM_ICHAR_EOF then Some (Inl (Err ''EOF in number sign notation''))
            else Some (Inl (Err ''unsupported number sign notation'')))
      | Quoted quoter \<Rightarrow>
          run_then (reader codec syms Sexpression st) (\<lambda>(x, st).
            if x = SCM_EOF then Some (Inl (ErrObj ''EOF in quoted datum'' quoter))
            else case LIST_2 (rd_heap st) quoter x of (l, h) \<Rightarrow> Some (Inr (l, st\<lparr>rd_heap := h\<rparr>))))"

definition read_sexpression :: "codec_vtbl \<Rightarrow> reader_symbols \<Rightarrow> rstate \<Rightarrow> (obj \<times> rstate) res option" where
  "read_sexpression codec syms st = reader codec syms Sexpression st"

definition read_list :: "codec_vtbl \<Rightarrow> reader_symbols \<Rightarrow> ichar \<Rightarrow> rstate \<Rightarrow> (obj \<times> rstate) res option" where
  "read_list codec syms closing_paren st = reader codec syms (List_loop closing_paren SCM_NULL RefOffHeap) st"

definition read_hash :: "codec_vtbl \<Rightarrow> reader_symbols \<Rightarrow> rstate \<Rightarrow> (obj \<times> rstate) res option" where
  "read_hash codec syms st = reader codec syms Hash st"

definition read_quoted :: "codec_vtbl \<Rightarrow> reader_symbols \<Rightarrow> obj \<Rightarrow> rstate \<Rightarrow> (obj \<times> rstate) res option" where
  "read_quoted codec syms quoter st = reader codec syms (Quoted quoter) st"

definition scm_read ::
    "codec_vtbl \<Rightarrow> reader_symbols \<Rightarrow> heap \<Rightarrow> symtab \<Rightarrow> ports \<Rightarrow> obj \<Rightarrow> (obj \<times> heap \<times> symtab \<times> ports) res option" where
  "scm_read codec syms h tab ps port =
     (case SCM_ENSURE_LIVE_PORT h ps port of
        Inl e \<Rightarrow> Some (Inl e)
      | Inr p \<Rightarrow> run_then (read_sexpression codec syms \<lparr>rd_heap = h, rd_tab = tab, rd_port = p\<rparr>) (\<lambda>(x, st).
          Some (Inr (x, rd_heap st, rd_tab st, set_impl h ps port (rd_port st)))))"

definition scm_p_read ::
    "codec_vtbl \<Rightarrow> reader_symbols \<Rightarrow> heap \<Rightarrow> symtab \<Rightarrow> ports \<Rightarrow> obj \<Rightarrow> (obj \<times> heap \<times> symtab \<times> ports) res option" where
  "scm_p_read codec syms h tab ps args =
     run_then (scm_prepare_port h args (scm_in ps)) (\<lambda>port. scm_read codec syms h tab ps port)"


section \<open>What the reader needs of a codec\<close>

text \<open>ASCII characters are encoded as themselves, a codec whose character set is Unicode is UTF-8, and
  no character is negative.\<close>

locale reader_codec = port_codec +
  assumes ascii_encoded: "0 \<le>s c \<Longrightarrow> c \<le>s 127 \<Longrightarrow> valid c \<and> int2str codec c = Some [uchar c]"
    and unicode_encoded: "codec_ccs codec = CCS_UNICODE \<Longrightarrow> valid c \<Longrightarrow> int2str codec c = utf8_int2str c"
    and valid_nonneg: "valid c \<Longrightarrow> 0 \<le>s c"

lemma ascii_unat: "0 \<le>s c \<and> c \<le>s 127 \<longleftrightarrow> unat (c :: ichar) < 128"
proof
  assume "0 \<le>s c \<and> c \<le>s 127"
  then show "unat c < 128" using sless_eq_unat [of c 127] by (simp add: word_sle_eq)
next
  assume l: "unat c < 128"
  then have "0 \<le>s c" by (intro nonneg_of_small) simp
  then show "0 \<le>s c \<and> c \<le>s 127" using l sless_eq_unat [of c 127] by (simp add: word_sle_eq)
qed

lemma ascii_unatD: "0 \<le>s c \<Longrightarrow> c \<le>s 127 \<Longrightarrow> unat (c :: ichar) < 128"
  using ascii_unat [of c] by blast

lemma uchar_and_FF: "uchar (c AND 0xFF) = uchar c"
proof (rule bit_word_eqI)
  fix n :: nat assume "n < LENGTH(8)"
  then have "n \<in> {0, 1, 2, 3, 4, 5, 6, 7}" by auto
  then show "bit (uchar (c AND 0xFF)) n = bit (uchar c) n" by (auto simp: bit_ucast_iff bit_and_iff)
qed

interpretation utf8_reader: reader_codec utf8_codec_vtbl utf8_valid
proof unfold_locales
  fix c :: ichar assume "0 \<le>s c" "c \<le>s 127"
  then show "utf8_valid c \<and> int2str utf8_codec_vtbl c = Some [uchar c]"
    by (auto simp: utf8_valid_def utf8_codec_vtbl_def utf8_int2str_def IS_1BYTE_def word_sle_eq)
qed (simp_all add: utf8_codec_vtbl_def utf8_valid_def)

interpretation eucjp_reader: reader_codec eucjp_codec_vtbl eucjp_valid
  by unfold_locales (simp_all add: eucjp_codec_vtbl_def eucjp_valid_def eucjp_int2str_def IS_1BYTE_def)

interpretation euccn_reader: reader_codec euccn_codec_vtbl euc_valid
  by unfold_locales (simp_all add: euccn_codec_vtbl_def euc_valid_def euc_int2str_def IS_1BYTE_def)

interpretation euckr_reader: reader_codec euckr_codec_vtbl euc_valid
  by unfold_locales (simp_all add: euckr_codec_vtbl_def euc_valid_def euc_int2str_def IS_1BYTE_def)

lemma sjis_ascii:
  assumes "0 \<le>s c" "c \<le>s 127"
  shows "sjis_valid c \<and> sjis_int2str c = Some [uchar c]"
proof -
  have l: "unat c < 2 ^ 7" using ascii_unatD [OF assms] by simp
  note bits = high_bits_clear [OF l]
  have "uchar (drop_bit 8 c) = 0" by (rule bit_word_eqI) (simp add: bit_ucast_iff bit_drop_bit_eq bits)
  moreover have "signed_drop_bit 16 c = 0" using l by (intro sjis_high_zero) simp
  moreover have "\<not> IS_LEAD 0" by (simp add: IS_LEAD_def)
  moreover have "\<not> IS_LEAD (uchar c)"
  proof -
    have "unat (uchar c) = unat c" using l by (simp add: unsigned_ucast_eq take_bit_nat_eq_self)
    then show ?thesis using l by (simp add: IS_LEAD_def word_le_nat_alt word_less_nat_alt)
  qed
  ultimately show ?thesis using l by (simp add: sjis_int2str_def sjis_valid_def uchar_and_FF Let_def)
qed

interpretation sjis_reader: reader_codec sjis_codec_vtbl sjis_valid
proof unfold_locales
  fix c :: ichar assume "0 \<le>s c" "c \<le>s 127"
  then show "sjis_valid c \<and> int2str sjis_codec_vtbl c = Some [uchar c]"
    using sjis_ascii by (simp add: sjis_codec_vtbl_def)
next
  show "0 \<le>s c" if "sjis_valid c" for c
    using that by (intro nonneg_of_small) (auto simp: sjis_valid_def)
qed (simp add: sjis_codec_vtbl_def)

interpretation unibyte_reader: reader_codec unibyte_codec_vtbl unibyte_valid
proof unfold_locales
  fix c :: ichar assume c: "0 \<le>s c" "c \<le>s 127"
  then have l: "unat c < 2 ^ 7" using ascii_unatD by simp
  have "c AND NOT 0xFF = 0" by (rule word32_eqI) (use high_bits_clear [OF l] in \<open>simp add: all_less_32 bit_and_iff\<close>)
  then show "unibyte_valid c \<and> int2str unibyte_codec_vtbl c = Some [uchar c]"
    using c by (auto simp: unibyte_codec_vtbl_def unibyte_valid_def unibyte_int2str_def word_sle_eq)
qed (simp_all add: unibyte_codec_vtbl_def unibyte_valid_def)

lemma codec_domains_reader:
  assumes "(codec, valid) \<in> set codec_domains"
  shows "reader_codec codec valid"
  using assms utf8_reader.reader_codec_axioms eucjp_reader.reader_codec_axioms
    euccn_reader.reader_codec_axioms euckr_reader.reader_codec_axioms sjis_reader.reader_codec_axioms
    unibyte_reader.reader_codec_axioms
  unfolding codec_domains_def by auto

section \<open>Spaces and tokens\<close>

definition delimiterp :: "ichar \<Rightarrow> bool" where
  "delimiterp c \<longleftrightarrow> ICHAR_CLASS c AND SCM_CH_DELIMITER \<noteq> 0"

text \<open>The characters of a token: no delimiters, and beyond ASCII only on a Unicode port.\<close>

definition token_char :: "codec_vtbl \<Rightarrow> (ichar \<Rightarrow> bool) \<Rightarrow> ichar \<Rightarrow> bool" where
  "token_char codec valid c \<longleftrightarrow>
     valid c \<and> c \<noteq> 0 \<and> \<not> delimiterp c \<and> (127 <s c \<longrightarrow> codec_ccs codec = CCS_UNICODE)"

definition ends_token :: "ichar list \<Rightarrow> bool" where
  "ends_token rest \<longleftrightarrow> rest = [] \<or> delimiterp (hd rest)"

context reader_codec begin

lemma peekc_holds:
  assumes "holds codec valid p cs"
  shows "\<exists>p'. peekc p = Some (Inr (if cs = [] then SCM_ICHAR_EOF else hd cs, p')) \<and> holds codec valid p' cs"
proof (cases cs)
  case Nil
  then show ?thesis using eof_holds(1) [of p] assms by (simp add: peekc_def)
next
  case (Cons c ds)
  obtain p' where "mbcport_peek_char p = Inr (c, p')" "holds codec valid p' (c # ds)"
    using peek_holds assms unfolding Cons by blast
  then show ?thesis using Cons by (simp add: peekc_def)
qed

lemma getc_holds:
  assumes "holds codec valid p (c # cs)"
  shows "\<exists>p'. getc p = Some (Inr (c, p')) \<and> holds codec valid p' cs"
proof -
  obtain p' where "mbcport_get_char p = Inr (c, p')" "holds codec valid p' cs" by (rule get_holds [OF assms])
  then show ?thesis by (simp add: getc_def)
qed

lemma getc_eof: "holds codec valid p [] \<Longrightarrow> getc p = Some (Inr (SCM_ICHAR_EOF, p))"
  using eof_holds(2) by (simp add: getc_def)

lemma eof_not_white: "\<not> ICHAR_WHITESPACEP SCM_ICHAR_EOF"
  by (simp add: ICHAR_WHITESPACEP_def SCM_ICHAR_EOF_def word_sle_eq)

lemma skip_spaces:
  assumes "holds codec valid p (ws @ rest)" "\<forall>c \<in> set ws. ICHAR_WHITESPACEP c"
    "rest = [] \<or> \<not> ICHAR_WHITESPACEP (hd rest) \<and> hd rest \<noteq> 0x3B"
  shows "\<exists>p'. skip_comment_and_space p = Some (Inr (if rest = [] then SCM_ICHAR_EOF else hd rest, p')) \<and>
    holds codec valid p' rest"
  unfolding skip_comment_and_space_def using assms(1,2)
proof (induction ws arbitrary: p)
  case Nil
  then obtain p' where "peekc p = Some (Inr (if rest = [] then SCM_ICHAR_EOF else hd rest, p'))" "holds codec valid p' rest"
    using peekc_holds by fastforce
  then show ?case using assms(3) eof_not_white by (subst skip_loop.simps) (auto simp: SCM_ICHAR_EOF_def)
next
  case (Cons c ws)
  obtain p1 where p1: "peekc p = Some (Inr (c, p1))" "holds codec valid p1 (c # ws @ rest)"
    using peekc_holds [OF Cons.prems(1)] by auto
  obtain p2 where p2: "getc p1 = Some (Inr (c, p2))" "holds codec valid p2 (ws @ rest)"
    using getc_holds [OF p1(2)] by blast
  have w: "ICHAR_WHITESPACEP c" using Cons.prems(2) by simp
  then have "c \<noteq> 0x3B" "c \<noteq> SCM_ICHAR_EOF" using eof_not_white
    by (auto simp: ICHAR_WHITESPACEP_def word_sle_eq)
  then have "skip_loop LEX_ST_NORMAL p = skip_loop LEX_ST_NORMAL p2"
    using p1(1) p2(1) w by (subst skip_loop.simps) simp
  then show ?case using Cons.IH [OF p2(2)] Cons.prems(2) by simp
qed

end

lemmas class_defs = SCM_CH_INVALID_def SCM_CH_CONTROL_def SCM_CH_WHITESPACE_def SCM_CH_DIGIT_def SCM_CH_HEX_LETTER_def
  SCM_CH_NONHEX_LETTER_def SCM_CH_SPECIAL_INITIAL_def SCM_CH_SPECIAL_SUBSEQUENT_def SCM_CH_TOKEN_INITIAL_def
  SCM_CH_LETTER_def SCM_CH_INITIAL_def SCM_CH_PECULIAR_IDENTIFIER_CAND_def SCM_CH_DELIMITER_def SCM_CH_8BIT_def
  SCM_CH_MULTIBYTE_def SCM_CH_NONASCII_def

lemma table_length: "length scm_char_class_table = 128"
  by (simp add: scm_char_class_table_def)

lemma table_ascii: "\<forall>m \<in> set scm_char_class_table. m AND SCM_CH_NONASCII = 0"
  unfolding scm_char_class_table_def by (simp add: class_defs)

lemma class_nonascii: "0 \<le>s c \<Longrightarrow> ICHAR_CLASS c AND SCM_CH_NONASCII \<noteq> 0 \<longleftrightarrow> 127 <s c"
proof (cases "127 <s c")
  case True
  then show ?thesis by (simp add: ICHAR_CLASS_def SCM_CH_NONASCII_def SCM_CH_8BIT_def SCM_CH_MULTIBYTE_def)
next
  case False
  assume "0 \<le>s c"
  then have l: "unat c < 128" using False ascii_unatD by (simp add: signed.not_less)
  have "unat c < length scm_char_class_table" using l by (simp add: table_length)
  then have "scm_char_class_table ! unat c AND SCM_CH_NONASCII = 0"
    using bspec [OF table_ascii nth_mem] by blast
  moreover have "ICHAR_CLASS c = scm_char_class_table ! unat c"
    using False \<open>0 \<le>s c\<close> by (simp add: ICHAR_CLASS_def signed.not_less [symmetric])
  ultimately show ?thesis using False by simp
qed


lemma eof_class: "ICHAR_CLASS SCM_ICHAR_EOF = SCM_CH_INVALID"
  by (simp add: ICHAR_CLASS_def SCM_ICHAR_EOF_def word_sless_alt)

context reader_codec begin

lemma token_step:
  assumes "holds codec valid p (c # rest)" "valid c" "buf \<noteq> [] \<Longrightarrow> \<not> delimiterp c"
    "127 <s c \<Longrightarrow> codec_ccs codec = CCS_UNICODE"
    and room: "if 127 <s c then length buf + SCM_MB_MAX_LEN < buf_size - 1 else length buf \<noteq> buf_size - 1"
  shows "\<exists>p'. read_token p buf_size SCM_CH_DELIMITER buf =
      read_token p' buf_size SCM_CH_DELIMITER (buf @ encode_str codec [c]) \<and> holds codec valid p' rest"
proof -
  obtain p1 where p1: "peekc p = Some (Inr (c, p1))" "holds codec valid p1 (c # rest)"
    using peekc_holds [OF assms(1)] by auto
  obtain p2 where p2: "getc p1 = Some (Inr (c, p2))" "holds codec valid p2 rest"
    using getc_holds [OF p1(2)] by blast
  have ne: "c \<noteq> SCM_ICHAR_EOF" using holds_valid [OF assms(1)] by blast
  have codec: "mbc_codec p1 = codec" using p1(2) by (simp add: holds_def)
  have nn: "0 \<le>s c" using valid_nonneg assms(2) .
  have d: "\<not> (buf \<noteq> [] \<and> (ICHAR_CLASS c AND SCM_CH_DELIMITER \<noteq> 0 \<or> c = SCM_ICHAR_EOF))"
    using assms(3) ne unfolding delimiterp_def by blast
  have "read_token p buf_size SCM_CH_DELIMITER buf =
      read_token p2 buf_size SCM_CH_DELIMITER (buf @ encode_str codec [c])"
  proof (cases "127 <s c")
    case True
    then have u: "codec_ccs codec = CCS_UNICODE" using assms(4) by blast
    obtain bs where bs: "int2str codec c = Some bs" "bs \<noteq> []" using encodable [OF assms(2)] by blast
    then have "utf8_int2str c = Some bs" using unicode_encoded [OF u assms(2)] by simp
    then show ?thesis using True ne d room p1(1) p2(1) bs(1) u codec class_nonascii [OF nn]
      by (cases "buf = []") (subst read_token.simps, simp add: Let_def encode_str_Cons)+
  next
    case False
    then have "int2str codec c = Some [uchar c]"
      using ascii_encoded [OF nn] by (simp add: signed.not_less)
    then show ?thesis using False ne d room p1(1) p2(1) class_nonascii [OF nn]
      by (cases "buf = []") (subst read_token.simps, simp add: Let_def encode_str_Cons)+
  qed
  then show ?thesis using p2(2) by blast
qed

lemma token_stop:
  assumes "holds codec valid p rest" "ends_token rest" "buf \<noteq> []"
  shows "\<exists>p'. read_token p buf_size SCM_CH_DELIMITER buf = Some (Inr (OK, buf, p')) \<and> holds codec valid p' rest"
proof -
  obtain p' where p: "peekc p = Some (Inr (if rest = [] then SCM_ICHAR_EOF else hd rest, p'))" "holds codec valid p' rest"
    using peekc_holds [OF assms(1)] by blast
  have "read_token p buf_size SCM_CH_DELIMITER buf = Some (Inr (OK, buf, p'))"
    using assms(2,3) p(1) unfolding ends_token_def delimiterp_def
    by (cases "rest = []") (subst read_token.simps, simp add: Let_def)+
  then show ?thesis using p(2) by blast
qed

text \<open>A token is read up to its end, or up to where the buffer is full.\<close>

lemma read_token_chunk:
  assumes "holds codec valid p (cs @ rest)" "ends_token rest" "\<forall>c \<in> set cs. token_char codec valid c" "buf \<noteq> [] \<or> cs \<noteq> []"
    "length buf \<le> buf_size - 1"
  shows "\<exists>k p'. holds codec valid p' (drop k cs @ rest) \<and>
    (k = length cs \<and> read_token p buf_size SCM_CH_DELIMITER buf = Some (Inr (OK, buf @ encode_str codec cs, p')) \<or>
     k < length cs \<and> read_token p buf_size SCM_CH_DELIMITER buf =
       Some (Inr (TOKEN_BUF_EXCEEDED, buf @ encode_str codec (take k cs), p')) \<and>
       buf_size - 1 \<le> length (buf @ encode_str codec (take k cs)) + SCM_MB_MAX_LEN \<and>
       length (buf @ encode_str codec (take k cs)) \<le> buf_size - 1)"
  using assms
proof (induction cs arbitrary: p buf)
  case Nil
  then obtain p' where "read_token p buf_size SCM_CH_DELIMITER buf = Some (Inr (OK, buf, p'))" "holds codec valid p' rest"
    using token_stop [of p rest buf buf_size] by auto
  then show ?case by (intro exI [of _ 0] exI [of _ p']) (simp add: encode_str_def)
next
  case (Cons c cs)
  have c: "valid c" "\<not> delimiterp c" "127 <s c \<Longrightarrow> codec_ccs codec = CCS_UNICODE"
    using Cons.prems(3) by (auto simp: token_char_def)
  have h: "holds codec valid p (c # (cs @ rest))" using Cons.prems(1) by simp
  show ?case
  proof (cases "if 127 <s c then length buf + SCM_MB_MAX_LEN < buf_size - 1 else length buf \<noteq> buf_size - 1")
    case True
    obtain p1 where p1: "read_token p buf_size SCM_CH_DELIMITER buf =
        read_token p1 buf_size SCM_CH_DELIMITER (buf @ encode_str codec [c])" "holds codec valid p1 (cs @ rest)"
      using token_step [OF h c(1) _ c(3) True] c(2) by blast
    obtain bs where bs: "int2str codec c = Some bs" "bs \<noteq> []" using encodable [OF c(1)] by blast
    have "length bs \<le> (if 127 <s c then SCM_MB_MAX_LEN else 1)"
      using short [OF c(1) bs(1)] ascii_encoded [OF valid_nonneg [OF c(1)]] bs(1) by (auto simp: signed.not_less)
    then have fit: "length (buf @ encode_str codec [c]) \<le> buf_size - 1"
      using True Cons.prems(5) bs(1) by (auto simp: encode_str_Cons encode_str_def split: if_splits)
    have "buf @ encode_str codec [c] \<noteq> [] \<or> cs \<noteq> []" using bs by (simp add: encode_str_Cons)
    then obtain k p' where k: "holds codec valid p' (drop k cs @ rest)"
      "k = length cs \<and> read_token p1 buf_size SCM_CH_DELIMITER (buf @ encode_str codec [c]) =
         Some (Inr (OK, (buf @ encode_str codec [c]) @ encode_str codec cs, p')) \<or>
       k < length cs \<and> read_token p1 buf_size SCM_CH_DELIMITER (buf @ encode_str codec [c]) =
         Some (Inr (TOKEN_BUF_EXCEEDED, (buf @ encode_str codec [c]) @ encode_str codec (take k cs), p')) \<and>
         buf_size - 1 \<le> length ((buf @ encode_str codec [c]) @ encode_str codec (take k cs)) + SCM_MB_MAX_LEN \<and>
         length ((buf @ encode_str codec [c]) @ encode_str codec (take k cs)) \<le> buf_size - 1"
      using Cons.IH [OF p1(2) Cons.prems(2), of "buf @ encode_str codec [c]"] Cons.prems(3) fit by auto
    have e: "encode_str codec (c # ds) = encode_str codec [c] @ encode_str codec ds" for ds
      by (simp add: encode_str_Cons)
    have "holds codec valid p' (drop (Suc k) (c # cs) @ rest)" using k(1) by simp
    then show ?thesis using k(2) unfolding p1(1) take_Suc_Cons list.size e [of cs] e [of "take k cs"] append_assoc
      by (intro exI [of _ "Suc k"] exI [of _ p']) (simp add: e [of "take k cs"])
  next
    case False
    obtain p1 where p1: "peekc p = Some (Inr (c, p1))" "holds codec valid p1 (c # cs @ rest)"
      using peekc_holds [OF h] by auto
    have ne: "c \<noteq> SCM_ICHAR_EOF" using holds_valid [OF h] by blast
    have "read_token p buf_size SCM_CH_DELIMITER buf = Some (Inr (TOKEN_BUF_EXCEEDED, buf, p1))"
      using False p1(1) ne c(2) class_nonascii [OF valid_nonneg [OF c(1)]]
      by (subst read_token.simps) (auto simp: Let_def delimiterp_def not_less)
    moreover have "buf_size - 1 \<le> length buf + SCM_MB_MAX_LEN" using False by (auto split: if_splits)
    ultimately show ?thesis using p1(2) Cons.prems(5)
      by (intro exI [of _ 0] exI [of _ p1]) (simp add: encode_str_def)
  qed
qed

text \<open>An ASCII token that fits into the buffer; its first character may be a delimiter.\<close>

lemma read_token_fits:
  assumes "holds codec valid p (cs @ rest)" "ends_token rest" "cs \<noteq> []"
    "\<forall>c \<in> set cs. 0 \<le>s c \<and> c \<le>s 127" "\<forall>c \<in> set (if buf = [] then tl cs else cs). \<not> delimiterp c"
    "length buf + length cs < buf_size"
  shows "\<exists>p'. holds codec valid p' rest \<and>
    read_token p buf_size SCM_CH_DELIMITER buf = Some (Inr (OK, buf @ List.map uchar cs, p'))"
  using assms
proof (induction cs arbitrary: p buf)
  case (Cons c cs)
  have a: "valid c" "int2str codec c = Some [uchar c]" "\<not> 127 <s c"
    using ascii_encoded [of c] Cons.prems(4) by (auto simp: signed.not_less)
  have h: "holds codec valid p (c # (cs @ rest))" using Cons.prems(1) by simp
  have room: "if 127 <s c then length buf + SCM_MB_MAX_LEN < buf_size - 1 else length buf \<noteq> buf_size - 1"
    using a(3) Cons.prems(6) by simp
  have nd: "buf \<noteq> [] \<Longrightarrow> \<not> delimiterp c" using Cons.prems(5) by simp
  have un: "127 <s c \<Longrightarrow> codec_ccs codec = CCS_UNICODE" using a(3) by blast
  obtain p1 where p1: "read_token p buf_size SCM_CH_DELIMITER buf =
      read_token p1 buf_size SCM_CH_DELIMITER (buf @ encode_str codec [c])" "holds codec valid p1 (cs @ rest)"
    using token_step [OF h a(1) nd un room] by blast
  have e: "encode_str codec [c] = [uchar c]" using a(2) by (simp add: encode_str_Cons encode_str_def)
  show ?case
  proof (cases "cs = []")
    case True
    then show ?thesis using token_stop [of p1 rest "buf @ [uchar c]" buf_size] p1 Cons.prems(2) e by auto
  next
    case False
    have "\<forall>d \<in> set cs. \<not> delimiterp d" using Cons.prems(5) by (auto split: if_splits)
    then show ?thesis
      using Cons.IH [OF p1(2) Cons.prems(2) False, of "buf @ [uchar c]"] Cons.prems(4,6) p1(1) e by auto
  qed
qed simp


text \<open>Symbols: a token of any length is read whole, in as many buffers as it takes.\<close>

lemma read_symbol_loop_holds:
  assumes "holds codec valid p (cs @ rest)" "ends_token rest" "\<forall>c \<in> set cs. token_char codec valid c" "cs \<noteq> []"
    "length buf + 6 \<le> sz"
  shows "\<exists>p'. read_symbol_loop p sz buf = Some (Inr (buf @ encode_str codec cs, p')) \<and> holds codec valid p' rest"
  using assms
proof (induction "length cs" arbitrary: p cs buf sz rule: less_induct)
  case less
  have z: "length ([] :: byte list) \<le> sz - length buf - 1" by simp
  obtain k p1 where k: "holds codec valid p1 (drop k cs @ rest)"
    "k = length cs \<and> read_token p (sz - length buf) SCM_CH_DELIMITER [] = Some (Inr (OK, [] @ encode_str codec cs, p1)) \<or>
     k < length cs \<and> read_token p (sz - length buf) SCM_CH_DELIMITER [] =
       Some (Inr (TOKEN_BUF_EXCEEDED, [] @ encode_str codec (take k cs), p1)) \<and>
       sz - length buf - 1 \<le> length ([] @ encode_str codec (take k cs)) + SCM_MB_MAX_LEN \<and>
       length ([] @ encode_str codec (take k cs)) \<le> sz - length buf - 1"
    using read_token_chunk [OF less.prems(1-3) _ z] less.prems(4) by blast
  show ?case
  proof (cases "k = length cs")
    case True
    then show ?thesis using k by (subst read_symbol_loop.simps) auto
  next
    case False
    then have t: "read_token p (sz - length buf) SCM_CH_DELIMITER [] =
        Some (Inr (TOKEN_BUF_EXCEEDED, encode_str codec (take k cs), p1))" "k < length cs"
      "sz - length buf - 1 \<le> length (encode_str codec (take k cs)) + 4"
      "length (encode_str codec (take k cs)) \<le> sz - length buf - 1"
      using k(2) by (auto simp: SCM_MB_MAX_LEN_def)
    have "0 < length (encode_str codec (take k cs))" using t(3) less.prems(5) by linarith
    then have k0: "0 < k" by (cases k) (auto simp: encode_str_def)
    let ?sz = "scm_lbuf_extend SCM_INITIAL_SYMBOL_BUF_SIZE sz (sz + SCM_MB_CHAR_BUF_SIZE)"
    have "?sz = sz + 64"
      by (simp add: scm_lbuf_extend_def scm_lbuf_f_linear_def SCM_INITIAL_SYMBOL_BUF_SIZE_def
          SCM_MB_CHAR_BUF_SIZE_def SCM_MB_MAX_LEN_def)
    then have room: "length (buf @ encode_str codec (take k cs)) + 6 \<le> ?sz" using t(4) less.prems(5) by simp
    have "length (drop k cs) < length cs" using k0 t(2) by simp
    from less.hyps [OF this k(1) less.prems(2) _ _ room] t(2) less.prems(3)
    obtain p' where p': "read_symbol_loop p1 ?sz (buf @ encode_str codec (take k cs)) =
        Some (Inr ((buf @ encode_str codec (take k cs)) @ encode_str codec (drop k cs), p'))" "holds codec valid p' rest"
      by (auto dest: in_set_dropD)
    have "encode_str codec cs = encode_str codec (take k cs) @ encode_str codec (drop k cs)"
      by (simp flip: encode_str_append)
    then show ?thesis using t(1) p' by (subst read_symbol_loop.simps) simp
  qed
qed

lemma read_char_holds:
  assumes "holds codec valid p (c # rest)" "ends_token rest" "rest \<noteq> [] \<Longrightarrow> 0 \<le>s hd rest \<and> hd rest \<le>s 127"
  shows "\<exists>p'. read_char p = Some (Inr (MAKE_CHAR c, p')) \<and> holds codec valid p' rest"
proof -
  obtain p1 where p1: "getc p = Some (Inr (c, p1))" "holds codec valid p1 rest" using getc_holds [OF assms(1)] by blast
  obtain p2 where p2: "peekc p1 = Some (Inr (if rest = [] then SCM_ICHAR_EOF else hd rest, p2))" "holds codec valid p2 rest"
    using peekc_holds [OF p1(2)] by blast
  have "ICHAR_ASCII_CLASS (hd rest) AND SCM_CH_DELIMITER \<noteq> 0" if "rest \<noteq> []"
    using assms(2,3) that
    by (simp add: ends_token_def delimiterp_def ICHAR_ASCII_CLASS_def ICHAR_ASCIIP_def ICHAR_CLASS_def signed.not_less [symmetric]
        split: if_splits)
  then have "read_char p = Some (Inr (MAKE_CHAR c, p2))" using p1(1) p2(1) unfolding read_char_def by auto
  then show ?thesis using p2(2) by blast
qed

end

end
