(* ===== verification/Datum.thy ===== *)
theory Datum
  imports Reader
begin

text \<open>
  External representations: the data that the reader reads and the writer writes, their text, and
  what it means that an object of the heap stands for a datum. The text of a datum is read back as an
  object that stands for it.
\<close>

section \<open>Data and their text\<close>

datatype datum =
    DNull | DBool bool | DInt int | DChar ichar | DSym "ichar list" | DStr "ichar list"
  | DBytes "byte list" | DList "datum list" datum | DVec "datum list"

definition chars_of :: "byte list \<Rightarrow> ichar list" where "chars_of = List.map ucast"

text \<open>\<open>DList ds e\<close> is the spine of a list with the elements \<open>ds\<close> and the end \<open>e\<close>.\<close>

fun tail_text :: "ichar list list \<Rightarrow> ichar list option \<Rightarrow> ichar list" where
  "tail_text [] None = [0x29]"
| "tail_text [] (Some e) = [0x20, 0x2E, 0x20] @ e @ [0x29]"
| "tail_text (t # ts) e = 0x20 # t @ tail_text ts e"

fun body_text :: "ichar list list \<Rightarrow> ichar list option \<Rightarrow> ichar list" where
  "body_text [] e = [0x29]"
| "body_text (t # ts) e = t @ tail_text ts e"

fun special_name :: "ichar \<Rightarrow> (byte \<times> string \<times> string) list \<Rightarrow> byte list option" where
  "special_name c [] = None"
| "special_name c ((code, esc_seq, lex_rep) # infos) =
     (if c = ucast code then Some (bytes_of_string lex_rep) else special_name c infos)"

fun special_escape :: "ichar \<Rightarrow> (byte \<times> string \<times> string) list \<Rightarrow> byte list option" where
  "special_escape c [] = None"
| "special_escape c ((code, esc_seq, lex_rep) # infos) =
     (if c = ucast code then Some (bytes_of_string esc_seq) else special_escape c infos)"

definition ICHAR_CONTROLP :: "ichar \<Rightarrow> bool" where
  "ICHAR_CONTROLP c \<longleftrightarrow> 0 \<le>s c \<and> c \<le>s 31 \<or> c = 127"

definition hex2 :: "ichar \<Rightarrow> byte list" where
  "hex2 c = [digit_char (ucast c div 16), digit_char (ucast c mod 16)]"

definition char_text :: "ichar \<Rightarrow> ichar list" where
  "char_text c = [0x23, 0x5C] @
     (case special_name c scm_special_char_table of
        Some name \<Rightarrow> chars_of name
      | None \<Rightarrow> if ICHAR_CONTROLP c then 0x78 # chars_of (hex2 c) else [c])"

definition escape_char :: "ichar \<Rightarrow> ichar list" where
  "escape_char c =
     (if c <s 0x20 \<or> c = 0x22 \<or> c = 0x5C \<or> c = 0x7F then
        (case special_escape c scm_special_char_table of Some esc \<Rightarrow> chars_of esc | None \<Rightarrow> [c])
      else [c])"

fun show_datum :: "datum \<Rightarrow> ichar list" where
  "show_datum DNull = [0x28, 0x29]"
| "show_datum (DBool b) = [0x23, if b then 0x74 else 0x66]"
| "show_datum (DInt i) = chars_of (int_text 10 i)"
| "show_datum (DChar c) = char_text c"
| "show_datum (DSym cs) = cs"
| "show_datum (DStr cs) = 0x22 # concat (List.map escape_char cs) @ [0x22]"
| "show_datum (DBytes bs) = [0x23, 0x75, 0x38, 0x28] @ body_text (List.map (\<lambda>b. chars_of (int_text 10 (uint b))) bs) None"
| "show_datum (DList ds e) =
     0x28 # body_text (List.map show_datum ds) (if e = DNull then None else Some (show_datum e))"
| "show_datum (DVec ds) = [0x23, 0x28] @ body_text (List.map show_datum ds) None"

text \<open>The data whose text can be read back: a string without escape and delete characters, a symbol
  whose name is a token, and a list that is not the end of a list.\<close>

definition symbol_text_ok :: "codec_vtbl \<Rightarrow> (ichar \<Rightarrow> bool) \<Rightarrow> ichar list \<Rightarrow> bool" where
  "symbol_text_ok codec valid cs \<longleftrightarrow> cs = [0x2B] \<or> cs = [0x2D] \<or>
     cs \<noteq> [] \<and> (\<forall>c \<in> set cs. token_char codec valid c) \<and> ICHAR_CLASS (hd cs) AND (SCM_CH_INITIAL OR SCM_CH_NONASCII) \<noteq> 0"

fun is_DList :: "datum \<Rightarrow> bool" where
  "is_DList (DList ds e) = True" | "is_DList _ = False"

fun datum_ok :: "codec_vtbl \<Rightarrow> (ichar \<Rightarrow> bool) \<Rightarrow> datum \<Rightarrow> bool" where
  "datum_ok codec valid (DInt i) = fits i"
| "datum_ok codec valid (DChar c) = valid c"
| "datum_ok codec valid (DSym cs) = symbol_text_ok codec valid cs"
| "datum_ok codec valid (DStr cs) = (\<forall>c \<in> set cs. valid c \<and> c \<noteq> 0 \<and> c \<noteq> 0x1B \<and> c \<noteq> 0x7F)"
| "datum_ok codec valid (DList ds e) = (ds \<noteq> [] \<and> (\<forall>d \<in> set ds. datum_ok codec valid d) \<and>
     datum_ok codec valid e \<and> \<not> is_DList e)"
| "datum_ok codec valid (DVec ds) = (\<forall>d \<in> set ds. datum_ok codec valid d)"
| "datum_ok codec valid _ = True"

section \<open>Objects that stand for data\<close>

inductive stands_for :: "codec_vtbl \<Rightarrow> (ichar \<Rightarrow> bool) \<Rightarrow> heap \<Rightarrow> obj \<Rightarrow> datum \<Rightarrow> bool"
  for codec :: codec_vtbl and valid :: "ichar \<Rightarrow> bool" and h :: heap where
  null: "stands_for codec valid h SCM_NULL DNull"
| bool: "stands_for codec valid h (MAKE_BOOL b) (DBool b)"
| int: "stands_for codec valid h (IntObj i) (DInt i)"
| char: "stands_for codec valid h (MAKE_CHAR c) (DChar c)"
| symbol: "symbol_is h x (name_of_bytes (encode_str codec cs)) \<Longrightarrow> stands_for codec valid h x (DSym cs)"
| string: "string_is codec valid h x cs m \<Longrightarrow> stands_for codec valid h x (DStr cs)"
| bytes: "misc_cell h x = Some (BytevectorCell bs m) \<Longrightarrow> stands_for codec valid h x (DBytes bs)"
| list: "chain h x vs t \<Longrightarrow> \<not> CONSP t \<Longrightarrow> list_all2 (stands_for codec valid h) vs ds \<Longrightarrow> stands_for codec valid h t e \<Longrightarrow>
    stands_for codec valid h x (DList ds e)"
| vec: "misc_cell h x = Some (VectorCell vs m) \<Longrightarrow> list_all2 (stands_for codec valid h) vs ds \<Longrightarrow>
    stands_for codec valid h x (DVec ds)"

lemma stands_for_le: "stands_for codec valid h x d \<Longrightarrow> heap_le h h' \<Longrightarrow> stands_for codec valid h' x d"
proof (induction rule: stands_for.induct)
  case (symbol x cs)
  show ?case by (rule stands_for.symbol [OF symbol_is_le [OF symbol]])
next
  case (string x cs m)
  show ?case by (rule stands_for.string [OF string_is_le [OF string]])
next
  case (bytes x bs m)
  show ?case by (rule stands_for.bytes [OF misc_cell_le [OF bytes]])
next
  case (list x vs t ds e)
  have "list_all2 (stands_for codec valid h') vs ds"
    using list.IH(1) by (rule list_all2_mono) (use list.prems in blast)
  from stands_for.list [OF chain_le [OF list.hyps(1) list.prems] list.hyps(2) this list.IH(2) [OF list.prems]]
  show ?case .
next
  case (vec x vs m ds)
  have "list_all2 (stands_for codec valid h') vs ds"
    using vec.IH(1) by (rule list_all2_mono) (use vec.prems in blast)
  from stands_for.vec [OF misc_cell_le [OF vec.hyps(1) vec.prems] this] show ?case .
qed (rule stands_for.intros)+

section \<open>Cells out of sight\<close>

text \<open>While a list is read its cells change; what was read before must not depend on them. \<open>hide A h\<close>
  is the heap without the cells \<open>A\<close>.\<close>

definition hide :: "nat set \<Rightarrow> heap \<Rightarrow> heap" where
  "hide A h = h\<lparr>mem := mem h |` (- A)\<rparr>"

lemma hide_simps [simp]: "mem (hide A h) a = (if a \<in> A then None else mem h a)" "brk (hide A h) = brk h"
  by (auto simp: hide_def restrict_map_def)

lemma heap_eqI: "(\<And>a. mem g a = mem h a) \<Longrightarrow> brk g = brk h \<Longrightarrow> g = (h :: heap)"
  by (intro heap.equality ext) auto

lemma hide_empty [simp]: "hide {} h = h"
  by (rule heap_eqI) auto

lemma hide_le: "A \<subseteq> B \<Longrightarrow> heap_le (hide B h) (hide A h)"
  by (auto simp: heap_le_def split: if_splits)

lemma hide_le_self: "heap_le (hide A h) h"
  using hide_le [of "{}" A h] by simp

lemma hide_mono: "heap_le h h' \<Longrightarrow> heap_le (hide A h) (hide A h')"
  by (auto simp: heap_le_def)

lemma hide_brk_ok: "brk_ok h \<Longrightarrow> brk_ok (hide A h)"
  by (auto simp: brk_ok_def)

lemma symtab_ok_le:
  assumes "symtab_ok h tab" "heap_le h h'"
  shows "symtab_ok h' tab"
  using assms(1) bucket_ok_le [OF _ assms(2), of tab _ tab] unfolding symtab_ok_def by blast

lemma intern_hidden:
  assumes ok: "symtab_ok (hide A h) tab" "brk_ok h" "A \<subseteq> {..<brk h}" "clean_name name"
  shows "\<exists>s h' tab'. scm_intern h tab name = Some (s, h', tab') \<and> symtab_ok (hide A h') tab' \<and> heap_le h h' \<and>
    brk_ok h' \<and> symbol_is (hide A h') s name"
proof -
  let ?g = "hide A h"
  have brk: "brk_ok ?g" using hide_brk_ok ok(2) .
  have okh: "symtab_ok h tab" using symtab_ok_le [OF ok(1) hide_le_self] .
  obtain r where r: "find_symbol ?g tab name = Some r" using find_symbol_defined [OF ok(1,4)] by blast
  have "bucket_ok ?g tab (bucket_of tab name)"
    using bucket_of_less [OF ok(1)] ok(1) unfolding symtab_ok_def by blast
  then have rh: "find_symbol h tab name = Some r"
    using find_symbol_le [OF _ hide_le_self ok(4)] r by metis
  show ?thesis
  proof (cases r)
    case (Some s)
    have "symbol_is ?g s name" using intern_found [OF ok(1,4)] r Some by blast
    moreover have "scm_intern h tab name = Some (s, h, tab)" using intern_found [OF okh ok(4)] rh Some by blast
    ultimately show ?thesis using ok by auto
  next
    case None
    obtain s g' tab' where g': "scm_intern ?g tab name = Some (s, g', tab')" "symtab_ok g' tab'" "heap_le ?g g'"
        "symbol_is g' s name"
      using intern_new [OF ok(1) brk ok(4)] r None by blast
    let ?i = "unat (symbol_name_hash (scm_symbol_hash_size tab) name)"
    let ?lst = "scm_symbol_hash tab ! ?i"
    let ?h' = "h\<lparr>mem := (mem h)(brk h \<mapsto> SymbolCell SCM_UNBOUND name, Suc (brk h) \<mapsto> PairCell (Ptr PTAG_MISC (brk h)) ?lst),
        brk := Suc (Suc (brk h))\<rparr>"
    have new: "scm_intern f tab name = Some (Ptr PTAG_MISC (brk f), f\<lparr>mem := (mem f)(brk f \<mapsto> SymbolCell SCM_UNBOUND name,
          Suc (brk f) \<mapsto> PairCell (Ptr PTAG_MISC (brk f)) ?lst), brk := Suc (Suc (brk f))\<rparr>,
        tab\<lparr>scm_symbol_hash := (scm_symbol_hash tab)[?i := Ptr PTAG_CONS (Suc (brk f))]\<rparr>)"
      if "find_symbol f tab name = Some None" for f
      using that ok(4)
      by (simp add: scm_intern_def find_symbol_def bucket_of_def Let_def scm_make_symbol_def alloc_ptr_def alloc_def
          make_cons_simps)
    have s: "s = Ptr PTAG_MISC (brk h)" and tab': "tab' = tab\<lparr>scm_symbol_hash := (scm_symbol_hash tab)[?i := Ptr PTAG_CONS (Suc (brk h))]\<rparr>"
      and gdef: "g' = ?g\<lparr>mem := (mem ?g)(brk h \<mapsto> SymbolCell SCM_UNBOUND name, Suc (brk h) \<mapsto> PairCell (Ptr PTAG_MISC (brk h)) ?lst),
        brk := Suc (Suc (brk h))\<rparr>"
      using new [of ?g] r None g'(1) by (simp_all del: fun_upd_apply)
    have h: "scm_intern h tab name = Some (s, ?h', tab')" using new [of h] rh None s tab' by simp
    have fresh: "brk h \<notin> A" "Suc (brk h) \<notin> A" using ok(3) by auto
    have g: "g' = hide A ?h'" by (rule heap_eqI) (auto simp: gdef fresh)
    have "heap_le h ?h'" "brk_ok ?h'"
      using ok(2) by (auto simp: heap_le_def brk_ok_def)
    then show ?thesis using h g g'(2,4) by blast
  qed
qed

section \<open>Texts of the atoms\<close>

lemma white_cases: "ICHAR_WHITESPACEP c \<longleftrightarrow> c \<in> {0x20, 0x09, 0x0A, 0x0B, 0x0C, 0x0D}"
proof
  assume w: "ICHAR_WHITESPACEP c"
  show "c \<in> {0x20, 0x09, 0x0A, 0x0B, 0x0C, 0x0D}"
  proof (cases "c = 0x20")
    case False
    then have l: "0x09 \<le>s c" "c \<le>s 0x0D" using w by (auto simp: ICHAR_WHITESPACEP_def)
    then have s: "9 \<le> sint c" "sint c \<le> 13" by (simp_all add: word_sle_eq)
    then have "sint c \<in> {9, 10, 11, 12, 13}" by auto
    then have "word_of_int (sint c) \<in> (word_of_int :: int \<Rightarrow> ichar) ` {9, 10, 11, 12, 13}" by (rule imageI)
    then show ?thesis by simp
  qed simp
qed (auto simp: ICHAR_WHITESPACEP_def word_sle_eq)

definition digit_chars :: "ichar set" where
  "digit_chars = {0x30, 0x31, 0x32, 0x33, 0x34, 0x35, 0x36, 0x37, 0x38, 0x39}"

lemma table_values:
  "scm_char_class_table =
     [1, 1, 1, 1, 1, 1, 1, 1, 1, 3, 3, 3, 3, 3, 1, 1,
      1, 1, 1, 1, 1, 1, 1, 1, 1, 1, 1, 1, 1, 1, 1, 1,
      2, 32, 128, 128, 32, 32, 32, 128, 128, 128, 32, 64, 128, 64, 64, 32,
      4, 4, 4, 4, 4, 4, 4, 4, 4, 4, 32, 128, 32, 32, 32, 32,
      64, 8, 8, 8, 8, 8, 8, 16, 16, 16, 16, 16, 16, 16, 16, 16,
      16, 16, 16, 16, 16, 16, 16, 16, 16, 16, 16, 128, 1, 128, 32, 32,
      128, 8, 8, 8, 8, 8, 8, 16, 16, 16, 16, 16, 16, 16, 16, 16,
      16, 16, 16, 16, 16, 16, 16, 16, 16, 16, 16, 128, 128, 128, 32, 1]"
proof -
  have o: "(1 :: nat) OR 2 = 3" by simp
  show ?thesis unfolding scm_char_class_table_def class_defs o by (simp add: eval_nat_numeral)
qed

lemmas class_eval = ICHAR_CLASS_def word_sless_alt table_values SCM_CH_DIGIT_def

lemma class_of_digit: "c \<in> digit_chars \<Longrightarrow> ICHAR_CLASS c = SCM_CH_DIGIT"
  by (auto simp: digit_chars_def class_eval)

lemma digit_ascii: "c \<in> digit_chars \<Longrightarrow> 0 \<le>s c \<and> c \<le>s 127 \<and> ICHAR_NUMERICP c"
  by (auto simp: digit_chars_def word_sle_eq ICHAR_NUMERICP_def)

lemma decimal_digit:
  assumes "digitp 10 d"
  shows "(ucast d :: ichar) \<in> digit_chars"
proof -
  have "0x30 \<le> d \<and> d \<le> 0x39"
    using assms by (auto simp: digitp_def digit_value_def word_le_def split: if_splits)
  then have l: "48 \<le> uint d" "uint d \<le> 57" by (simp_all add: word_le_def)
  have eq: "(ucast d :: ichar) = word_of_int (uint d)" by (rule ucast_eq)
  have "uint d = 48 \<or> uint d = 49 \<or> uint d = 50 \<or> uint d = 51 \<or> uint d = 52 \<or> uint d = 53 \<or>
      uint d = 54 \<or> uint d = 55 \<or> uint d = 56 \<or> uint d = 57"
  proof -
    have "uint d \<in> {48..57}" using l by simp
    then show ?thesis unfolding set_upto [symmetric] by (simp add: upto_rec_numeral)
  qed
  then show ?thesis unfolding eq digit_chars_def
    by (elim disjE) (simp_all only: word_of_int_numeral insert_iff simp_thms)
qed

lemma nat_digits_chars: "set (chars_of (nat_digits 10 n)) \<subseteq> digit_chars"
  using nat_digits_props [of 10 n] decimal_digit by (auto simp: chars_of_def)

lemma nat_digits_length: "n < b ^ Suc k \<Longrightarrow> 2 \<le> b \<Longrightarrow> length (nat_digits b n) \<le> Suc k"
proof (induction k arbitrary: n)
  case 0
  then show ?case by (subst nat_digits.simps) simp
next
  case (Suc k)
  show ?case
  proof (cases "n < b")
    case True
    then show ?thesis by (subst nat_digits.simps) simp
  next
    case False
    have "n div b < b ^ Suc k" using Suc.prems by (intro less_mult_imp_div_less) (simp add: mult.commute)
    then have "length (nat_digits b (n div b)) \<le> Suc k" using Suc by blast
    then show ?thesis using False Suc.prems by (subst nat_digits.simps) simp
  qed
qed

lemma int_text_length:
  assumes "fits i"
  shows "length (int_text 10 i) \<le> 20"
proof -
  have "\<bar>i\<bar> \<le> 2 ^ 59" using assms by (auto simp: fits_bounds)
  then have "nat \<bar>i\<bar> \<le> 2 ^ 59" by simp
  also have "(2 :: nat) ^ 59 < 10 ^ Suc 18" by simp
  finally have "length (nat_digits 10 (nat \<bar>i\<bar>)) \<le> Suc 18" by (intro nat_digits_length) auto
  then show ?thesis by (simp add: int_text_def del: zero_less_abs_iff) (cases "i < 0"; simp)
qed

lemma digit_not_delimiter: "c \<in> digit_chars \<Longrightarrow> \<not> delimiterp c"
  by (simp add: delimiterp_def class_of_digit class_defs)

lemma map_uchar_chars: "List.map uchar (chars_of bs) = bs"
  by (simp add: chars_of_def comp_def uchar_ucast)

lemma parse_number_text:
  assumes "fits i"
  shows "parse_number (int_text 10 i) 0x64 = Inr (IntObj i)"
proof -
  have r: "VALID_RADIXP 10" by (simp add: VALID_RADIXP_def)
  note t = int_text_props [OF r, of i]
  have "marks_ok_from False 0 [0x64]"
    by (simp add: marks_ok_from_def radix_mark_def inexact_mark_def exactness_mark_def)
  moreover have "marks_radix [0x64] 10 = 10" by (simp add: marks_radix_def List.map_filter_simps radix_mark_def)
  ultimately have "parse_number_loop (mark_prefix [0x64] @ int_text 10 i) 10 False 0 = IntObj i"
    using parse_loop_marks [of "int_text 10 i" 10 "[0x64]" False 0 i] t assms r by simp
  moreover have "take (3 + NUMBER_LITERAL_LEN_MAX - 1) ([0x23, 0x64] @ c_str (int_text 10 i)) = mark_prefix [0x64] @ int_text 10 i"
    using c_str_clean [OF t(2)] int_text_length [OF assms] by (simp add: mark_prefix_def NUMBER_LITERAL_LEN_MAX_def)
  ultimately show ?thesis unfolding parse_number_def by (simp add: Let_def scm_parse_number_def del: parse_number_loop.simps)
qed

lemma int_text_chars:
  "chars_of (int_text 10 i) = (if i < 0 then [0x2D] else []) @ chars_of (nat_digits 10 (nat \<bar>i\<bar>))"
  by (simp add: int_text_def chars_of_def)

text \<open>Characters of a string and their escapes.\<close>

definition escaped_chars :: "ichar set" where
  "escaped_chars = {0x22, 0x5C, 0x0A, 0x07, 0x08, 0x09, 0x0B, 0x0C, 0x0D}"

lemma table_codes:
  "special_escape c scm_special_char_table = None \<longleftrightarrow> c \<notin> escaped_chars \<union> {0x20, 0x00, 0x1B, 0x7F}"
  by (auto simp: scm_special_char_table_def escaped_chars_def)

lemma escape_raw: "c \<notin> escaped_chars \<union> {0x00, 0x1B, 0x7F} \<Longrightarrow> escape_char c = [c]"
  using table_codes [of c] by (cases "c = 0x20") (auto simp: escape_char_def word_sless_alt)

lemma escape_letter:
  assumes "c \<in> escaped_chars"
  shows "\<exists>e. escape_char c = [0x5C, e] \<and> e \<noteq> 0x78 \<and> find_escape e scm_special_char_table = Some (uchar c) \<and> e \<noteq> 0"
  using assms unfolding escaped_chars_def
  by (elim insertE emptyE) (simp_all add: escape_char_def scm_special_char_table_def bytes_of_string_def chars_of_def word_sless_alt)

lemma escaped_ascii: "c \<in> escaped_chars \<Longrightarrow> 0 \<le>s c \<and> c \<le>s 127"
  by (auto simp: escaped_chars_def word_sle_eq)

context reader_codec begin

lemma read_escape_holds:
  assumes "holds codec valid p (e # rest)" "e \<noteq> 0x78" "find_escape e scm_special_char_table = Some b"
  shows "\<exists>p'. read_escape codec p = Some (Inr ([b], e, p')) \<and> holds codec valid p' rest"
proof -
  obtain p' where "getc p = Some (Inr (e, p'))" "holds codec valid p' rest" using getc_holds [OF assms(1)] by blast
  then show ?thesis using assms(2,3) by (simp add: read_escape_def)
qed

lemma read_string_loop_holds:
  assumes "holds codec valid p (concat (List.map escape_char cs) @ 0x22 # rest)"
    "\<forall>c \<in> set cs. valid c \<and> c \<noteq> 0 \<and> c \<noteq> 0x1B \<and> c \<noteq> 0x7F"
  shows "\<exists>p'. read_string_loop codec p buf len =
      Some (Inr (buf @ encode_str codec cs, len + int (length cs), p')) \<and> holds codec valid p' rest"
  using assms
proof (induction cs arbitrary: p buf len)
  case Nil
  then obtain p' where "getc p = Some (Inr (0x22, p'))" "holds codec valid p' rest"
    using getc_holds [of p "0x22" rest] by auto
  then show ?case by (subst read_string_loop.simps) (simp add: encode_str_def)
next
  case (Cons c cs)
  have c: "valid c" "c \<noteq> 0" "c \<noteq> 0x1B" "c \<noteq> 0x7F" using Cons.prems(2) by auto
  obtain bs where bs: "int2str codec c = Some bs" using encodable [OF c(1)] by blast
  have "\<exists>p1. read_string_loop codec p buf len = read_string_loop codec p1 (buf @ bs) (len + 1) \<and>
      holds codec valid p1 (concat (List.map escape_char cs) @ 0x22 # rest)"
  proof (cases "c \<in> escaped_chars")
    case True
    obtain e where e: "escape_char c = [0x5C, e]" "e \<noteq> 0x78" "find_escape e scm_special_char_table = Some (uchar c)" "e \<noteq> 0"
      using escape_letter [OF True] by blast
    have "bs = [uchar c]" using bs ascii_encoded [of c] escaped_ascii [OF True] by simp
    moreover obtain p1 where p1: "getc p = Some (Inr (0x5C, p1))"
        "holds codec valid p1 (e # concat (List.map escape_char cs) @ 0x22 # rest)"
      using getc_holds [of p "0x5C"] Cons.prems(1) e(1) by auto
    moreover obtain p2 where p2: "read_escape codec p1 = Some (Inr ([uchar c], e, p2))"
        "holds codec valid p2 (concat (List.map escape_char cs) @ 0x22 # rest)"
      using read_escape_holds [OF p1(2) e(2,3)] by blast
    ultimately show ?thesis using e(4) by (subst read_string_loop.simps) (auto simp: SCM_ICHAR_EOF_def)
  next
    case False
    have "escape_char c = [c]" using False c by (intro escape_raw) auto
    then obtain p1 where p1: "getc p = Some (Inr (c, p1))"
        "holds codec valid p1 (concat (List.map escape_char cs) @ 0x22 # rest)"
      using getc_holds [of p c] Cons.prems(1) by auto
    have "c \<noteq> 0x22" "c \<noteq> 0x5C" using False by (auto simp: escaped_chars_def)
    then show ?thesis using p1 bs c(2) valid_not_eof [OF c(1)] by (subst read_string_loop.simps) auto
  qed
  then obtain p1 where p1: "read_string_loop codec p buf len = read_string_loop codec p1 (buf @ bs) (len + 1)"
      "holds codec valid p1 (concat (List.map escape_char cs) @ 0x22 # rest)" by blast
  then show ?case
    using Cons.IH [OF p1(2), of "buf @ bs" "len + 1"] Cons.prems(2) bs by (auto simp: encode_str_Cons algebra_simps)
qed

end

section \<open>Character names\<close>

text \<open>A character is read as its name or its hexadecimal code when more than one character follows.\<close>

context reader_codec begin

lemma read_char_token:
  assumes "holds codec valid p (c # cs @ rest)" "ends_token rest" "cs \<noteq> []" "length cs < 9"
    "\<forall>d \<in> set (c # cs). 0 \<le>s d \<and> d \<le>s 127 \<and> \<not> delimiterp d" "0 \<notin> set (List.map uchar (c # cs))"
    "parse_unicode_sequence (List.map uchar (c # cs)) = Inr u"
    "0 \<le>s u \<and> x = MAKE_CHAR u \<or> \<not> 0 \<le>s u \<and> find_char_name (List.map uchar (c # cs)) scm_special_char_table = Inr x"
  shows "\<exists>p'. read_char p = Some (Inr (x, p')) \<and> holds codec valid p' rest"
proof -
  obtain p1 where p1: "getc p = Some (Inr (c, p1))" "holds codec valid p1 (cs @ rest)"
    using getc_holds [OF assms(1)] by blast
  obtain p2 where p2: "peekc p1 = Some (Inr (hd cs, p2))" "holds codec valid p2 (cs @ rest)"
    using peekc_holds [OF p1(2)] assms(3) by auto
  have h: "0 \<le>s hd cs" "hd cs \<le>s 127" "\<not> delimiterp (hd cs)" using assms(3,5) by auto
  then have nd: "ICHAR_ASCII_CLASS (hd cs) AND SCM_CH_DELIMITER = 0"
    by (simp add: delimiterp_def ICHAR_ASCII_CLASS_def ICHAR_ASCIIP_def ICHAR_CLASS_def signed.not_less [symmetric])
  have ne: "hd cs \<noteq> SCM_ICHAR_EOF" using h(1) by (auto simp: SCM_ICHAR_EOF_def word_sle_eq)
  obtain p3 where p3: "holds codec valid p3 rest"
      "read_token p2 CHAR_LITERAL_LEN_MAX SCM_CH_DELIMITER [] = Some (Inr (OK, List.map uchar cs, p3))"
    using read_token_fits [OF p2(2) assms(2,3), of "[]" CHAR_LITERAL_LEN_MAX] assms(4,5)
    by (auto simp: CHAR_LITERAL_LEN_MAX_def dest: list.set_sel(2) [OF assms(3)])
  have clean: "c_str (uchar c # List.map uchar cs) = uchar c # List.map uchar cs"
    using c_str_clean [OF assms(6)] by simp
  have "read_char p = Some (Inr (x, p3))"
    using p1(1) p2(1) p3(2) nd ne assms(7,8) by (auto simp: read_char_def clean Let_def)
  then show ?thesis using p3(1) by blast
qed

end

definition char_payload :: "ichar \<Rightarrow> ichar list" where
  "char_payload c = drop 2 (char_text c)"

definition payload_reads :: "ichar \<Rightarrow> bool" where
  "payload_reads c \<longleftrightarrow> (case char_payload c of
       [] \<Rightarrow> False
     | d # ds \<Rightarrow> ds \<noteq> [] \<and> length ds < 9 \<and> (\<forall>e \<in> set (d # ds). 0 \<le>s e \<and> e \<le>s 127 \<and> \<not> delimiterp e) \<and>
         0 \<notin> set (List.map uchar (d # ds)) \<and>
         (case parse_unicode_sequence (List.map uchar (d # ds)) of
            Inl e \<Rightarrow> False
          | Inr u \<Rightarrow> 0 \<le>s u \<and> u = c \<or>
              \<not> 0 \<le>s u \<and> find_char_name (List.map uchar (d # ds)) scm_special_char_table = Inr (MAKE_CHAR c)))"

lemmas payload_eval = payload_reads_def char_payload_def char_text_def scm_special_char_table_def chars_of_def
  bytes_of_string_def delimiterp_def class_eval class_defs word_sle_eq parse_unicode_sequence_def
  ICHAR_HEXA_NUMERICP_byte_def strcasecmp_equal_def ICHAR_DOWNCASE_byte_def MAKE_CHAR_def

lemma named_payload: "c \<in> {0x20, 0x0A, 0x00, 0x07, 0x08, 0x09, 0x0B, 0x0C, 0x0D, 0x1B, 0x7F} \<Longrightarrow> payload_reads c"
  by (elim insertE emptyE) (simp_all add: payload_eval)

lemma special_name_None:
  "special_name c scm_special_char_table = None \<longleftrightarrow>
     c \<notin> {0x22, 0x5C, 0x20, 0x0A, 0x00, 0x07, 0x08, 0x09, 0x0B, 0x0C, 0x0D, 0x1B, 0x7F}"
  by (auto simp: scm_special_char_table_def)

definition hex_bytes :: "byte set" where
  "hex_bytes = {0x30, 0x31, 0x32, 0x33, 0x34, 0x35, 0x36, 0x37, 0x38, 0x39, 0x61, 0x62, 0x63, 0x64, 0x65, 0x66}"

lemma hex_byte_value: "d \<in> hex_bytes \<Longrightarrow> digitp 16 d \<and> 0 \<le> digit_value d \<and> digit_value d < 16 \<and> ICHAR_HEXA_NUMERICP_byte d"
  unfolding hex_bytes_def
  by (elim insertE emptyE) (simp_all add: digitp_def digit_value_def ICHAR_HEXA_NUMERICP_byte_def)

lemma hex_byte_char:
  "d \<in> hex_bytes \<Longrightarrow> 0 \<le>s (ucast d :: ichar) \<and> (ucast d :: ichar) \<le>s 127 \<and> \<not> delimiterp (ucast d)"
  unfolding hex_bytes_def by (elim insertE emptyE) (simp_all add: word_sle_eq delimiterp_def class_eval class_defs)

lemma parse_hex2:
  assumes "d1 \<in> {0x30, 0x31}" "d2 \<in> hex_bytes"
  shows "parse_unicode_sequence [0x78, d1, d2] = Inr (word_of_int (digit_value d1 * 16 + digit_value d2))"
proof -
  define v where "v = digit_value d1 * 16 + digit_value d2"
  have d1: "d1 \<in> hex_bytes" "digit_value d1 \<le> 1" using assms(1) by (auto simp: hex_bytes_def digit_value_def)
  note v1 = hex_byte_value [OF d1(1)] and v2 = hex_byte_value [OF assms(2)]
  have b: "0 \<le> v" "v < 32" using v1 v2 d1(2) unfolding v_def by linarith+
  have "int_notation 16 [d1, d2] v"
    unfolding int_notation_def
    by (rule exI [of _ "[]"], rule exI [of _ "[d1, d2]"]) (use v1 v2 in \<open>simp add: digits_value_def v_def\<close>)
  moreover have "fits v" using b by (simp add: fits_bounds)
  ultimately have n: "scm_string2number [d1, d2] 16 = (v, False)"
    using scm_string2number_iff [of 16 "[d1, d2]" v] by (simp add: VALID_RADIXP_def)
  have s: "sint (word_of_int v :: ichar) = v" using b by (simp add: signed_of_int signed_take_bit_int_eq_self)
  then have "0 \<le>s (word_of_int v :: ichar)" "ICHAR_VALID_UNICODEP (word_of_int v)"
    using b by (simp_all add: word_sle_eq ICHAR_VALID_UNICODEP_def)
  then show ?thesis using n v1 unfolding v_def [symmetric] by (simp add: parse_unicode_sequence_def Let_def)
qed

lemma hex_payload:
  assumes "hex2 c = [d1, d2]" "d1 \<in> {0x30, 0x31}" "d2 \<in> hex_bytes" "word_of_int (digit_value d1 * 16 + digit_value d2) = c"
    "special_name c scm_special_char_table = None" "ICHAR_CONTROLP c"
  shows "payload_reads c"
proof -
  have p: "char_payload c = [0x78, ucast d1, ucast d2]"
    using assms(1,5,6) by (simp add: char_payload_def char_text_def chars_of_def)
  have d1: "d1 \<in> hex_bytes" using assms(2) by (auto simp: hex_bytes_def)
  have nz: "d1 \<noteq> 0" "d2 \<noteq> 0" using assms(2,3) by (auto simp: hex_bytes_def)
  have "c \<noteq> 127 \<Longrightarrow> 0 \<le>s c" using assms(6) by (auto simp: ICHAR_CONTROLP_def)
  then have "0 \<le>s c" by (cases "c = 127") (auto simp: word_sle_eq)
  moreover have "\<not> delimiterp 0x78" by (simp add: delimiterp_def class_eval class_defs)
  moreover have "parse_unicode_sequence [0x78, d1, d2] = Inr c" using parse_hex2 [OF assms(2,3)] assms(4) by simp
  ultimately show ?thesis
    using hex_byte_char [OF d1] hex_byte_char [OF assms(3)] nz by (simp add: payload_reads_def p uchar_ucast word_sle_eq)
qed

lemma hex_payload_all:
  "c \<in> {0x01, 0x02, 0x03, 0x04, 0x05, 0x06, 0x0E, 0x0F, 0x10, 0x11, 0x12, 0x13,
     0x14, 0x15, 0x16, 0x17, 0x18, 0x19, 0x1A, 0x1C, 0x1D, 0x1E, 0x1F} \<Longrightarrow> payload_reads c"
  by (elim insertE emptyE; rule hex_payload [OF hex2_def])
    (simp_all add: digit_char_def hex_bytes_def digit_value_def special_name_None ICHAR_CONTROLP_def word_sle_eq)

lemma control_cases:
  "ICHAR_CONTROLP c \<Longrightarrow> c \<in> {0x00, 0x01, 0x02, 0x03, 0x04, 0x05, 0x06, 0x07, 0x08, 0x09, 0x0A, 0x0B, 0x0C, 0x0D, 0x0E, 0x0F,
     0x10, 0x11, 0x12, 0x13, 0x14, 0x15, 0x16, 0x17, 0x18, 0x19, 0x1A, 0x1B, 0x1C, 0x1D, 0x1E, 0x1F, 0x7F}"
proof (cases "c = 127")
  case False
  assume "ICHAR_CONTROLP c"
  then have s: "0 \<le> sint c" "sint c \<le> 31" using False by (auto simp: ICHAR_CONTROLP_def word_sle_eq)
  have l: "[0..31 :: int] = [0, 1, 2, 3, 4, 5, 6, 7, 8, 9, 10, 11, 12, 13, 14, 15, 16, 17, 18, 19, 20, 21, 22, 23, 24, 25,
      26, 27, 28, 29, 30, 31]" by code_simp
  have "sint c \<in> set [0..31]" using s by simp
  then have "word_of_int (sint c) \<in> (word_of_int :: int \<Rightarrow> ichar) ` set [0..31]" by (rule imageI)
  then show ?thesis unfolding l by simp blast
qed simp

lemma payload_raw_or_reads: "char_payload c = [c] \<or> payload_reads c"
proof (cases "special_name c scm_special_char_table")
  case None
  show ?thesis
  proof (cases "ICHAR_CONTROLP c")
    case True
    then have "c \<in> {0x01, 0x02, 0x03, 0x04, 0x05, 0x06, 0x0E, 0x0F, 0x10, 0x11, 0x12, 0x13,
        0x14, 0x15, 0x16, 0x17, 0x18, 0x19, 0x1A, 0x1C, 0x1D, 0x1E, 0x1F}"
      using control_cases [OF True] None [unfolded special_name_None] by auto
    then show ?thesis using hex_payload_all [of c] by blast
  next
    case False
    then show ?thesis using None by (simp add: char_payload_def char_text_def)
  qed
next
  case (Some name)
  then have "c \<in> {0x22, 0x5C, 0x20, 0x0A, 0x00, 0x07, 0x08, 0x09, 0x0B, 0x0C, 0x0D, 0x1B, 0x7F}"
    using special_name_None [of c] by force
  moreover have "char_payload 0x22 = [0x22]" "char_payload 0x5C = [0x5C]"
    by (simp_all add: char_payload_def char_text_def scm_special_char_table_def bytes_of_string_def chars_of_def)
  ultimately show ?thesis using named_payload [of c] by auto
qed

lemma delimiter_ascii: "delimiterp c \<Longrightarrow> 0 \<le>s c \<and> c \<le>s 127"
proof (rule ccontr)
  assume d: "delimiterp c" and n: "\<not> (0 \<le>s c \<and> c \<le>s 127)"
  then have "ICHAR_CLASS c = SCM_CH_NONASCII \<or> ICHAR_CLASS c = SCM_CH_INVALID"
    by (auto simp: ICHAR_CLASS_def signed.not_le)
  then show False using d by (auto simp: delimiterp_def class_defs)
qed

lemma char_text_payload: "char_text c = [0x23, 0x5C] @ char_payload c"
  by (simp add: char_text_def char_payload_def)

context reader_codec begin

lemma read_char_text:
  assumes "holds codec valid p (char_payload c @ rest)" "ends_token rest"
  shows "\<exists>p'. read_char p = Some (Inr (MAKE_CHAR c, p')) \<and> holds codec valid p' rest"
proof (cases "payload_reads c")
  case True
  then obtain d ds where d: "char_payload c = d # ds" by (cases "char_payload c") (auto simp: payload_reads_def)
  note r = True [unfolded payload_reads_def d list.case]
  obtain u where u: "parse_unicode_sequence (List.map uchar (d # ds)) = Inr u"
      "0 \<le>s u \<and> u = c \<or> \<not> 0 \<le>s u \<and> find_char_name (List.map uchar (d # ds)) scm_special_char_table = Inr (MAKE_CHAR c)"
    using r by (cases "parse_unicode_sequence (List.map uchar (d # ds))") auto
  show ?thesis
    by (rule read_char_token [OF _ assms(2) _ _ _ _ u(1)]) (use assms(1) r u(2) d in auto)
next
  case False
  then have "char_payload c = [c]" using payload_raw_or_reads by blast
  then have h: "holds codec valid p (c # rest)" using assms(1) by simp
  have "rest \<noteq> [] \<Longrightarrow> 0 \<le>s hd rest \<and> hd rest \<le>s 127"
    using assms(2) delimiter_ascii by (auto simp: ends_token_def)
  then show ?thesis using read_char_holds [OF h assms(2)] by blast
qed

end

end
