(* ===== verification/Readback.thy ===== *)
theory Readback
  imports Datum
begin

text \<open>
  The reader reads back the text of a datum: from a port that holds the text it returns an object
  that stands for the datum and leaves the rest of the text in the port.
\<close>

section \<open>Steps of the reader\<close>

text \<open>The invariant of a state: the symbol table is well-formed without the cells \<open>A\<close> of the lists that are
  still being read.\<close>

definition rd_ok :: "nat set \<Rightarrow> rstate \<Rightarrow> bool" where
  "rd_ok A st \<longleftrightarrow> brk_ok (rd_heap st) \<and> symtab_ok (hide A (rd_heap st)) (rd_tab st) \<and> A \<subseteq> {..<brk (rd_heap st)}"

lemma rd_ok_subset: "rd_ok B st \<Longrightarrow> A \<subseteq> B \<Longrightarrow> rd_ok A st"
  unfolding rd_ok_def using symtab_ok_le hide_le by blast

lemma rd_ok_port [simp]: "rd_ok A (st\<lparr>rd_port := p\<rparr>) = rd_ok A st"
  by (simp add: rd_ok_def)

lemma rd_ok_heap:
  assumes "rd_ok A st" "heap_le (rd_heap st) h" "brk_ok h"
  shows "rd_ok A (st\<lparr>rd_heap := h\<rparr>)"
proof -
  have "symtab_ok (hide A h) (rd_tab st)"
    using assms(1) symtab_ok_le hide_mono [OF assms(2)] unfolding rd_ok_def by blast
  moreover have "A \<subseteq> {..<brk h}" using assms(1,2) unfolding rd_ok_def heap_le_def by fastforce
  ultimately show ?thesis using assms(3) by (simp add: rd_ok_def)
qed

text \<open>The text of a datum does not start like the end of a list, a dot, a comment or a space.\<close>

definition starts_ok :: "ichar list \<Rightarrow> bool" where
  "starts_ok t \<longleftrightarrow> t \<noteq> [] \<and> \<not> ICHAR_WHITESPACEP (hd t) \<and> hd t \<noteq> 0x3B \<and> hd t \<noteq> 0x29 \<and> hd t \<noteq> 0x2E"

definition spaces :: "ichar list \<Rightarrow> bool" where "spaces ws \<longleftrightarrow> (\<forall>c \<in> set ws. ICHAR_WHITESPACEP c)"

definition reads_as :: "codec_vtbl \<Rightarrow> (ichar \<Rightarrow> bool) \<Rightarrow> reader_symbols \<Rightarrow> datum \<Rightarrow> bool" where
  "reads_as codec valid syms d \<longleftrightarrow> (\<forall>A st ws rest. rd_ok A st \<longrightarrow> spaces ws \<longrightarrow> ends_token rest \<longrightarrow>
     holds codec valid (rd_port st) (ws @ show_datum d @ rest) \<longrightarrow>
     (\<exists>x st'. reader codec syms Sexpression st = Some (Inr (x, st')) \<and> rd_ok A st' \<and>
        heap_le (rd_heap st) (rd_heap st') \<and> holds codec valid (rd_port st') rest \<and>
        stands_for codec valid (hide A (rd_heap st')) x d))"

lemma reads_asD:
  assumes "reads_as codec valid syms d" "rd_ok A st" "spaces ws" "ends_token rest"
    "holds codec valid (rd_port st) (ws @ show_datum d @ rest)"
  obtains x st' where "reader codec syms Sexpression st = Some (Inr (x, st'))" "rd_ok A st'"
    "heap_le (rd_heap st) (rd_heap st')" "holds codec valid (rd_port st') rest"
    "stands_for codec valid (hide A (rd_heap st')) x d"
  using assms unfolding reads_as_def by blast

context reader_codec begin

lemma skip_st:
  assumes "holds codec valid (rd_port st) (ws @ c # cs)" "spaces ws" "\<not> ICHAR_WHITESPACEP c" "c \<noteq> 0x3B"
  obtains p where "with_port st (skip_comment_and_space (rd_port st)) = Some (Inr (c, st\<lparr>rd_port := p\<rparr>))"
    "holds codec valid p (c # cs)"
  using skip_spaces [OF assms(1), unfolded spaces_def [symmetric], OF assms(2)] assms(3,4) by (auto simp: with_port_def)

lemma getc_st:
  assumes "holds codec valid (rd_port st) (c # cs)"
  obtains p where "with_port st (getc (rd_port st)) = Some (Inr (c, st\<lparr>rd_port := p\<rparr>))" "holds codec valid p cs"
  using getc_holds [OF assms] by (auto simp: with_port_def)

lemma peekc_st:
  assumes "holds codec valid (rd_port st) (c # cs)"
  obtains p where "with_port st (peekc (rd_port st)) = Some (Inr (c, st\<lparr>rd_port := p\<rparr>))" "holds codec valid p (c # cs)"
  using peekc_holds [OF assms] by (auto simp: with_port_def)

text \<open>The dispatch of \<^verbatim>\<open>read_sexpression\<close> on the first character.\<close>

lemma sexp_paren:
  assumes "holds codec valid (rd_port st) (ws @ 0x28 # cs)" "spaces ws"
  obtains p where "reader codec syms Sexpression st =
      reader codec syms (List_loop 0x29 SCM_NULL RefOffHeap) (st\<lparr>rd_port := p\<rparr>)" "holds codec valid p cs"
proof -
  obtain p1 where p1: "with_port st (skip_comment_and_space (rd_port st)) = Some (Inr (0x28, st\<lparr>rd_port := p1\<rparr>))"
      "holds codec valid p1 (0x28 # cs)"
    by (rule skip_st [OF assms]) (simp_all add: white_cases)
  obtain p2 where p2: "with_port (st\<lparr>rd_port := p1\<rparr>) (getc p1) = Some (Inr (0x28, st\<lparr>rd_port := p2\<rparr>))" "holds codec valid p2 cs"
    using getc_st [of "st\<lparr>rd_port := p1\<rparr>" "0x28" cs] p1(2) by auto
  have "ICHAR_CLASS 0x28 = SCM_CH_TOKEN_INITIAL" by (simp add: class_eval class_defs)
  then have "reader codec syms Sexpression st =
      reader codec syms (List_loop 0x29 SCM_NULL RefOffHeap) (st\<lparr>rd_port := p2\<rparr>)"
    using p1(1) p2(1) by (subst reader.simps) (simp add: Let_def class_defs)
  then show thesis using that p2(2) by blast
qed

lemma sexp_hash:
  assumes "holds codec valid (rd_port st) (ws @ 0x23 # cs)" "spaces ws"
  obtains p where "reader codec syms Sexpression st = reader codec syms Hash (st\<lparr>rd_port := p\<rparr>)" "holds codec valid p cs"
proof -
  obtain p1 where p1: "with_port st (skip_comment_and_space (rd_port st)) = Some (Inr (0x23, st\<lparr>rd_port := p1\<rparr>))"
      "holds codec valid p1 (0x23 # cs)"
    by (rule skip_st [OF assms]) (simp_all add: white_cases)
  obtain p2 where p2: "with_port (st\<lparr>rd_port := p1\<rparr>) (getc p1) = Some (Inr (0x23, st\<lparr>rd_port := p2\<rparr>))" "holds codec valid p2 cs"
    using getc_st [of "st\<lparr>rd_port := p1\<rparr>" "0x23" cs] p1(2) by auto
  have "ICHAR_CLASS 0x23 = SCM_CH_TOKEN_INITIAL" by (simp add: class_eval class_defs)
  then have "reader codec syms Sexpression st = reader codec syms Hash (st\<lparr>rd_port := p2\<rparr>)"
    using p1(1) p2(1) by (subst reader.simps) (simp add: Let_def class_defs)
  then show thesis using that p2(2) by blast
qed

lemma sexp_string:
  assumes "holds codec valid (rd_port st) (ws @ 0x22 # cs)" "spaces ws"
  obtains p where "reader codec syms Sexpression st = read_string codec (st\<lparr>rd_port := p\<rparr>)" "holds codec valid p cs"
proof -
  obtain p1 where p1: "with_port st (skip_comment_and_space (rd_port st)) = Some (Inr (0x22, st\<lparr>rd_port := p1\<rparr>))"
      "holds codec valid p1 (0x22 # cs)"
    by (rule skip_st [OF assms]) (simp_all add: white_cases)
  obtain p2 where p2: "with_port (st\<lparr>rd_port := p1\<rparr>) (getc p1) = Some (Inr (0x22, st\<lparr>rd_port := p2\<rparr>))" "holds codec valid p2 cs"
    using getc_st [of "st\<lparr>rd_port := p1\<rparr>" "0x22" cs] p1(2) by auto
  have "ICHAR_CLASS 0x22 = SCM_CH_TOKEN_INITIAL" by (simp add: class_eval class_defs)
  then have "reader codec syms Sexpression st = read_string codec (st\<lparr>rd_port := p2\<rparr>)"
    using p1(1) p2(1) by (subst reader.simps) (simp add: Let_def class_defs)
  then show thesis using that p2(2) by blast
qed

lemma sexp_symbol:
  assumes "holds codec valid (rd_port st) (ws @ c # cs)" "spaces ws" "\<not> ICHAR_WHITESPACEP c" "c \<noteq> 0x3B"
    "ICHAR_CLASS c AND (SCM_CH_INITIAL OR SCM_CH_NONASCII) \<noteq> 0"
  obtains p where "reader codec syms Sexpression st = read_symbol (st\<lparr>rd_port := p\<rparr>)" "holds codec valid p (c # cs)"
proof -
  obtain p1 where p1: "with_port st (skip_comment_and_space (rd_port st)) = Some (Inr (c, st\<lparr>rd_port := p1\<rparr>))"
      "holds codec valid p1 (c # cs)"
    by (rule skip_st [OF assms(1-4)])
  have "reader codec syms Sexpression st = read_symbol (st\<lparr>rd_port := p1\<rparr>)"
    using p1(1) assms(5) by (subst reader.simps) (simp add: Let_def)
  then show thesis using that p1(2) by blast
qed

lemma sexp_number:
  assumes "holds codec valid (rd_port st) (ws @ c # cs)" "spaces ws" "\<not> ICHAR_WHITESPACEP c" "c \<noteq> 0x3B"
    "ICHAR_CLASS c = SCM_CH_DIGIT \<or> ICHAR_CLASS c = SCM_CH_SPECIAL_SUBSEQUENT"
  obtains p where "reader codec syms Sexpression st = read_number_or_peculiar syms (st\<lparr>rd_port := p\<rparr>)"
    "holds codec valid p (c # cs)"
proof -
  obtain p1 where p1: "with_port st (skip_comment_and_space (rd_port st)) = Some (Inr (c, st\<lparr>rd_port := p1\<rparr>))"
      "holds codec valid p1 (c # cs)"
    by (rule skip_st [OF assms(1-4)])
  have "ICHAR_CLASS c AND (SCM_CH_INITIAL OR SCM_CH_NONASCII) = 0 \<and>
      ICHAR_CLASS c AND (SCM_CH_DIGIT OR SCM_CH_PECULIAR_IDENTIFIER_CAND) \<noteq> 0"
    using assms(5) by (auto simp: class_defs)
  then have "reader codec syms Sexpression st = read_number_or_peculiar syms (st\<lparr>rd_port := p1\<rparr>)"
    using p1(1) by (subst reader.simps) (simp add: Let_def)
  then show thesis using that p1(2) by blast
qed

end

section \<open>Atoms\<close>

context reader_codec begin

lemma intern_bytes_ok:
  assumes "rd_ok A st" "0 \<notin> set bs"
  obtains s st' where "intern_bytes st bs p = Some (Inr (s, st'))" "rd_ok A st'"
    "heap_le (rd_heap st) (rd_heap st')" "rd_port st' = p" "symbol_is (hide A (rd_heap st')) s (name_of_bytes bs)"
proof -
  have ok: "symtab_ok (hide A (rd_heap st)) (rd_tab st)" "brk_ok (rd_heap st)" "A \<subseteq> {..<brk (rd_heap st)}"
    using assms(1) by (auto simp: rd_ok_def)
  obtain s h tab where i: "scm_intern (rd_heap st) (rd_tab st) (name_of_bytes bs) = Some (s, h, tab)"
      "symtab_ok (hide A h) tab" "heap_le (rd_heap st) h" "brk_ok h" "symbol_is (hide A h) s (name_of_bytes bs)"
    using intern_hidden [OF ok clean_name_of_bytes [OF assms(2)]] by blast
  have "A \<subseteq> {..<brk h}" using ok(3) i(3) by (fastforce simp: heap_le_def)
  then show thesis
    using that [of s "st\<lparr>rd_heap := h, rd_tab := tab, rd_port := p\<rparr>"] i c_str_clean [OF assms(2)]
    by (simp add: intern_bytes_def rd_ok_def)
qed

lemma reads_symbol:
  assumes "symbol_text_ok codec valid cs"
  shows "reads_as codec valid syms (DSym cs)"
  unfolding reads_as_def
proof (intro allI impI)
  fix A st ws rest
  assume st: "rd_ok A st" "spaces ws" "ends_token rest" "holds codec valid (rd_port st) (ws @ show_datum (DSym cs) @ rest)"
  have valid: "\<forall>c \<in> set cs. valid c \<and> c \<noteq> 0" using st(4) by (auto simp: holds_def)
  note clean = encoded_clean [OF valid]
  have "\<exists>p. reader codec syms Sexpression st = intern_bytes (st\<lparr>rd_port := p\<rparr>) (encode_str codec cs) p \<and>
      holds codec valid p rest \<or>
    (\<exists>q. reader codec syms Sexpression st = intern_bytes (st\<lparr>rd_port := q\<rparr>) (encode_str codec cs) p) \<and> holds codec valid p rest"
  proof (cases "cs = [0x2B] \<or> cs = [0x2D]")
    case True
    then obtain c where c: "cs = [c]" "c = 0x2B \<or> c = 0x2D" by blast
    have cl: "ICHAR_CLASS c = SCM_CH_SPECIAL_SUBSEQUENT" using c(2) by (auto simp: class_eval class_defs)
    have w: "\<not> ICHAR_WHITESPACEP c" "c \<noteq> 0x3B" using c(2) by (auto simp: white_cases)
    obtain p1 where p1: "reader codec syms Sexpression st = read_number_or_peculiar syms (st\<lparr>rd_port := p1\<rparr>)"
        "holds codec valid p1 (c # rest)"
      by (rule sexp_number [OF _ st(2) w, of st rest]) (use st(4) c(1) cl in auto)
    obtain p2 where p2: "peekc p1 = Some (Inr (c, p2))" "holds codec valid p2 ([c] @ rest)"
      using peekc_holds [OF p1(2)] by auto
    have a: "0 \<le>s c" "c \<le>s 127" using c(2) by (auto simp: word_sle_eq)
    obtain p3 where p3: "read_token p2 (NUMBER_LITERAL_LEN_MAX + 1) SCM_CH_DELIMITER [] = Some (Inr (OK, [uchar c], p3))"
        "holds codec valid p3 rest"
      using read_token_fits [OF p2(2) st(3), of "[]" "NUMBER_LITERAL_LEN_MAX + 1"] a by (auto simp: NUMBER_LITERAL_LEN_MAX_def)
    have "encode_str codec cs = [uchar c]" using c(1) ascii_encoded [OF a] by (simp add: encode_str_Cons encode_str_def)
    moreover have "ICHAR_ASCII_CLASS c = SCM_CH_SPECIAL_SUBSEQUENT" "\<not> ICHAR_NUMERICP c"
      using c(2) by (auto simp: ICHAR_ASCII_CLASS_def ICHAR_ASCIIP_def class_eval class_defs word_sle_eq ICHAR_NUMERICP_def)
    ultimately have "reader codec syms Sexpression st = intern_bytes (st\<lparr>rd_port := p2\<rparr>) (encode_str codec cs) p3"
      using p1(1) p2(1) p3(1) c(2) by (simp add: read_number_or_peculiar_def Let_def class_defs)
    then show ?thesis using p3(2) by blast
  next
    case False
    then have s: "cs \<noteq> []" "\<forall>c \<in> set cs. token_char codec valid c"
        "ICHAR_CLASS (hd cs) AND (SCM_CH_INITIAL OR SCM_CH_NONASCII) \<noteq> 0"
      using assms by (auto simp: symbol_text_ok_def)
    obtain c ds where c: "cs = c # ds" using s(1) by (cases cs) auto
    have w: "\<not> ICHAR_WHITESPACEP c" "c \<noteq> 0x3B"
      using s(3) c by (auto simp: white_cases class_eval class_defs)
    obtain p1 where p1: "reader codec syms Sexpression st = read_symbol (st\<lparr>rd_port := p1\<rparr>)" "holds codec valid p1 (cs @ rest)"
      by (rule sexp_symbol [OF _ st(2) w, of st "ds @ rest"]) (use st(4) c s(3) in auto)
    obtain p2 where "read_symbol_loop p1 SCM_INITIAL_SYMBOL_BUF_SIZE [] = Some (Inr ([] @ encode_str codec cs, p2))"
        "holds codec valid p2 rest"
      using read_symbol_loop_holds [OF p1(2) st(3) s(2,1), of "[]" SCM_INITIAL_SYMBOL_BUF_SIZE]
      by (auto simp: SCM_INITIAL_SYMBOL_BUF_SIZE_def)
    then have "reader codec syms Sexpression st = intern_bytes (st\<lparr>rd_port := p1\<rparr>) (encode_str codec cs) p2"
      using p1(1) by (simp add: read_symbol_def)
    then show ?thesis using \<open>holds codec valid p2 rest\<close> by blast
  qed
  then obtain p q where r: "reader codec syms Sexpression st = intern_bytes (st\<lparr>rd_port := q\<rparr>) (encode_str codec cs) p"
      "holds codec valid p rest" by blast
  have "rd_ok A (st\<lparr>rd_port := q\<rparr>)" using st(1) by simp
  then obtain x st' where i: "intern_bytes (st\<lparr>rd_port := q\<rparr>) (encode_str codec cs) p = Some (Inr (x, st'))" "rd_ok A st'"
      "heap_le (rd_heap (st\<lparr>rd_port := q\<rparr>)) (rd_heap st')" "rd_port st' = p"
      "symbol_is (hide A (rd_heap st')) x (name_of_bytes (encode_str codec cs))"
    by (rule intern_bytes_ok [OF _ clean])
  show "\<exists>x st'. reader codec syms Sexpression st = Some (Inr (x, st')) \<and> rd_ok A st' \<and>
      heap_le (rd_heap st) (rd_heap st') \<and> holds codec valid (rd_port st') rest \<and>
      stands_for codec valid (hide A (rd_heap st')) x (DSym cs)"
    using r i stands_for.symbol [OF i(5)] by (intro exI [of _ x] exI [of _ st']) simp
qed

end

context reader_codec begin

lemma reads_int:
  assumes "fits i"
  shows "reads_as codec valid syms (DInt i)"
  unfolding reads_as_def
proof (intro allI impI)
  fix A st ws rest
  assume st: "rd_ok A st" "spaces ws" "ends_token rest" "holds codec valid (rd_port st) (ws @ show_datum (DInt i) @ rest)"
  let ?t = "chars_of (int_text 10 i)"
  note nd = nat_digits_chars [of "nat \<bar>i\<bar>"]
  obtain c cs where t: "?t = c # cs" using nat_digits_nonempty [of 10] by (cases ?t) (auto simp: chars_of_def int_text_def)
  have ascii: "\<forall>d \<in> set ?t. 0 \<le>s d \<and> d \<le>s 127" using nd digit_ascii by (auto simp: int_text_chars word_sle_eq)
  have digits: "set cs \<subseteq> digit_chars" using nd t by (auto simp: int_text_chars split: if_splits)
  have nodelim: "\<forall>d \<in> set (tl ?t). \<not> delimiterp d" using digits digit_not_delimiter t by auto
  have len: "length ?t < NUMBER_LITERAL_LEN_MAX + 1"
    using int_text_length [OF assms] by (simp add: chars_of_def NUMBER_LITERAL_LEN_MAX_def)
  have cl: "c \<in> digit_chars \<or> c = 0x2D" and neg: "c = 0x2D \<longleftrightarrow> i < 0"
    using t nd by (auto simp: int_text_chars digit_chars_def split: if_splits)
  have cclass: "ICHAR_CLASS c = SCM_CH_DIGIT \<or> ICHAR_CLASS c = SCM_CH_SPECIAL_SUBSEQUENT"
    using cl
  proof
    assume "c = 0x2D"
    then show ?thesis by (simp add: class_eval class_defs)
  qed (simp add: class_of_digit)
  have w: "\<not> ICHAR_WHITESPACEP c" "c \<noteq> 0x3B" using cl by (auto simp: white_cases digit_chars_def)
  obtain p1 where p1: "reader codec syms Sexpression st = read_number_or_peculiar syms (st\<lparr>rd_port := p1\<rparr>)"
      "holds codec valid p1 (?t @ rest)"
    by (rule sexp_number [OF _ st(2) w cclass, of st "cs @ rest"]) (use st(4) t in auto)
  obtain p2 where p2: "peekc p1 = Some (Inr (c, p2))" "holds codec valid p2 (?t @ rest)"
    using peekc_holds [OF p1(2)] t by auto
  have ne: "?t \<noteq> []" using t by simp
  obtain p3 where r3: "holds codec valid p3 rest"
      "read_token p2 (NUMBER_LITERAL_LEN_MAX + 1) SCM_CH_DELIMITER [] = Some (Inr (OK, [] @ List.map uchar ?t, p3))"
    using read_token_fits [OF p2(2) st(3) ne ascii, of "[]" "NUMBER_LITERAL_LEN_MAX + 1"] nodelim len by (auto simp del: list.map)
  have p3: "read_token p2 (NUMBER_LITERAL_LEN_MAX + 1) SCM_CH_DELIMITER [] = Some (Inr (OK, int_text 10 i, p3))"
      "holds codec valid p3 rest" using r3 unfolding map_uchar_chars by simp_all
  have "ICHAR_ASCII_CLASS c = ICHAR_CLASS c"
    using ascii t by (simp add: ICHAR_ASCII_CLASS_def ICHAR_ASCIIP_def ICHAR_CLASS_def signed.not_less [symmetric])
  then have ac: "ICHAR_ASCII_CLASS c AND (SCM_CH_DIGIT OR SCM_CH_PECULIAR_IDENTIFIER_CAND) \<noteq> 0"
    using cclass by (auto simp: class_defs)
  have "reader codec syms Sexpression st = Some (Inr (IntObj i, st\<lparr>rd_port := p3\<rparr>))"
  proof (cases "i < 0")
    case True
    then have c: "c = 0x2D" using neg by blast
    have "int_text 10 i = 0x2D # nat_digits 10 (nat \<bar>i\<bar>)" using True by (simp add: int_text_def)
    moreover obtain d ds where d: "nat_digits 10 (nat \<bar>i\<bar>) = d # ds"
      using nat_digits_nonempty by (cases "nat_digits 10 (nat \<bar>i\<bar>)") auto
    moreover have "d \<noteq> 0" using nat_digits_props [of 10 "nat \<bar>i\<bar>"] d by auto
    moreover have "\<not> ICHAR_NUMERICP c" using c by (simp add: ICHAR_NUMERICP_def word_sle_eq)
    ultimately show ?thesis
      using p1(1) p2(1) p3(1) ac c parse_number_text [OF assms]
      by (simp add: read_number_or_peculiar_def Let_def and_then_def)
  next
    case False
    then have "ICHAR_NUMERICP c" using cl neg digit_ascii by blast
    then show ?thesis
      using p1(1) p2(1) p3(1) ac parse_number_text [OF assms]
      by (simp add: read_number_or_peculiar_def read_number_def Let_def and_then_def)
  qed
  then show "\<exists>x st'. reader codec syms Sexpression st = Some (Inr (x, st')) \<and> rd_ok A st' \<and>
      heap_le (rd_heap st) (rd_heap st') \<and> holds codec valid (rd_port st') rest \<and>
      stands_for codec valid (hide A (rd_heap st')) x (DInt i)"
    using p3(2) st(1) stands_for.int by (intro exI [of _ "IntObj i"] exI [of _ "st\<lparr>rd_port := p3\<rparr>"]) simp
qed

lemma getc_point:
  assumes "holds codec valid p (c # cs)"
  obtains q where "with_port (st\<lparr>rd_port := p\<rparr>) (getc p) = Some (Inr (c, st\<lparr>rd_port := q\<rparr>))" "holds codec valid q cs"
  using getc_st [of "st\<lparr>rd_port := p\<rparr>" c cs] assms by auto

lemma reads_bool: "reads_as codec valid syms (DBool b)"
  unfolding reads_as_def
proof (intro allI impI)
  fix A st ws rest
  assume st: "rd_ok A st" "spaces ws" "ends_token rest" "holds codec valid (rd_port st) (ws @ show_datum (DBool b) @ rest)"
  let ?c = "if b then 0x74 else 0x66 :: ichar"
  have h: "holds codec valid (rd_port st) (ws @ 0x23 # ?c # rest)" using st(4) by simp
  obtain p1 where p1: "reader codec syms Sexpression st = reader codec syms Hash (st\<lparr>rd_port := p1\<rparr>)"
      "holds codec valid p1 (?c # rest)" by (rule sexp_hash [OF h st(2)])
  obtain p2 where p2: "with_port (st\<lparr>rd_port := p1\<rparr>) (getc p1) = Some (Inr (?c, st\<lparr>rd_port := p2\<rparr>))"
      "holds codec valid p2 rest" by (rule getc_point [OF p1(2)])
  have "reader codec syms Sexpression st = Some (Inr (MAKE_BOOL b, st\<lparr>rd_port := p2\<rparr>))"
    unfolding p1(1) using p2(1)
    by (cases b) (subst reader.simps, simp add: Let_def ICHAR_DOWNCASE_def word_sle_eq MAKE_BOOL_def)+
  then show "\<exists>x st'. reader codec syms Sexpression st = Some (Inr (x, st')) \<and> rd_ok A st' \<and>
      heap_le (rd_heap st) (rd_heap st') \<and> holds codec valid (rd_port st') rest \<and>
      stands_for codec valid (hide A (rd_heap st')) x (DBool b)"
    using p2(2) st(1) stands_for.bool by (intro exI [of _ "MAKE_BOOL b"] exI [of _ "st\<lparr>rd_port := p2\<rparr>"]) simp
qed

lemma reads_char: "reads_as codec valid syms (DChar c)"
  unfolding reads_as_def
proof (intro allI impI)
  fix A st ws rest
  assume st: "rd_ok A st" "spaces ws" "ends_token rest" "holds codec valid (rd_port st) (ws @ show_datum (DChar c) @ rest)"
  have h: "holds codec valid (rd_port st) (ws @ 0x23 # 0x5C # char_payload c @ rest)" using st(4) by (simp add: char_text_payload)
  obtain p1 where p1: "reader codec syms Sexpression st = reader codec syms Hash (st\<lparr>rd_port := p1\<rparr>)"
      "holds codec valid p1 (0x5C # char_payload c @ rest)" by (rule sexp_hash [OF h st(2)])
  obtain p2 where p2: "with_port (st\<lparr>rd_port := p1\<rparr>) (getc p1) = Some (Inr (0x5C, st\<lparr>rd_port := p2\<rparr>))"
      "holds codec valid p2 (char_payload c @ rest)" by (rule getc_point [OF p1(2)])
  obtain p3 where p3: "read_char p2 = Some (Inr (MAKE_CHAR c, p3))" "holds codec valid p3 rest"
    using read_char_text [OF p2(2) st(3)] by blast
  have "reader codec syms Sexpression st = Some (Inr (MAKE_CHAR c, st\<lparr>rd_port := p3\<rparr>))"
    unfolding p1(1) using p2(1) p3(1)
    by (subst reader.simps) (simp add: Let_def ICHAR_DOWNCASE_def word_sle_eq)
  then show "\<exists>x st'. reader codec syms Sexpression st = Some (Inr (x, st')) \<and> rd_ok A st' \<and>
      heap_le (rd_heap st) (rd_heap st') \<and> holds codec valid (rd_port st') rest \<and>
      stands_for codec valid (hide A (rd_heap st')) x (DChar c)"
    using p3(2) st(1) stands_for.char by (intro exI [of _ "MAKE_CHAR c"] exI [of _ "st\<lparr>rd_port := p3\<rparr>"]) simp
qed

lemma reads_string:
  assumes "\<forall>c \<in> set cs. valid c \<and> c \<noteq> 0 \<and> c \<noteq> 0x1B \<and> c \<noteq> 0x7F"
  shows "reads_as codec valid syms (DStr cs)"
  unfolding reads_as_def
proof (intro allI impI)
  fix A st ws rest
  assume st: "rd_ok A st" "spaces ws" "ends_token rest" "holds codec valid (rd_port st) (ws @ show_datum (DStr cs) @ rest)"
  have h: "holds codec valid (rd_port st) (ws @ 0x22 # concat (List.map escape_char cs) @ 0x22 # rest)" using st(4) by simp
  obtain p1 where p1: "reader codec syms Sexpression st = read_string codec (st\<lparr>rd_port := p1\<rparr>)"
      "holds codec valid p1 (concat (List.map escape_char cs) @ 0x22 # rest)" by (rule sexp_string [OF h st(2)])
  have codec: "mbc_codec p1 = codec" using p1(2) by (simp add: holds_def)
  obtain p2 where p2: "read_string_loop codec p1 [] 0 = Some (Inr ([] @ encode_str codec cs, 0 + int (length cs), p2))"
      "holds codec valid p2 rest" using read_string_loop_holds [OF p1(2) assms] by blast
  have v: "\<forall>c \<in> set cs. valid c \<and> c \<noteq> 0" and brk: "brk_ok (rd_heap st)" using assms st(1) by (auto simp: rd_ok_def)
  obtain x h where mk: "scm_make_string_internal codec (rd_heap st) (encode_str codec cs) (int (length cs)) True = Some (x, h)"
      "string_is codec valid h x cs (\<not> True)" "heap_le (rd_heap st) h" "brk_ok h" "x = Ptr PTAG_MISC (brk (rd_heap st))"
    by (rule make_string [OF v brk, of "int (length cs)" True]) auto
  have "brk (rd_heap st) \<notin> A" using st(1) by (auto simp: rd_ok_def)
  then have sx: "string_is codec valid (hide A h) x cs False" using mk(2,5) by (simp add: string_is_def)
  have "reader codec syms Sexpression st = Some (Inr (x, st\<lparr>rd_heap := h, rd_port := p2\<rparr>))"
    unfolding p1(1) using p2(1) mk(1) codec by (simp add: read_string_def scm_make_immutable_string_copying_def)
  moreover have "rd_ok A (st\<lparr>rd_heap := h, rd_port := p2\<rparr>)" using rd_ok_heap [OF st(1) mk(3,4)] by simp
  ultimately show "\<exists>x st'. reader codec syms Sexpression st = Some (Inr (x, st')) \<and> rd_ok A st' \<and>
      heap_le (rd_heap st) (rd_heap st') \<and> holds codec valid (rd_port st') rest \<and>
      stands_for codec valid (hide A (rd_heap st')) x (DStr cs)"
    using p2(2) mk(3) stands_for.string [OF sx] by (intro exI [of _ x] exI [of _ "st\<lparr>rd_heap := h, rd_port := p2\<rparr>"]) simp
qed

end

section \<open>Lists\<close>

text \<open>What the queue of \<^verbatim>\<open>read_list\<close> changes: the cell at its end and the new cell.\<close>

lemma queue_add_frame:
  assumes "queue_inv h0 h out ps" "queue_add h out (slot ps) dat = (h2, out2, q2)" "a \<notin> fst ` set ps" "a \<noteq> brk h"
  shows "mem h2 a = mem h a"
proof -
  define h1 where "h1 = snd (scm_make_cons h dat SCM_NULL)"
  have mk: "scm_make_cons h dat SCM_NULL = (Ptr PTAG_CONS (brk h), h1)" by (simp add: h1_def make_cons_simps)
  have inv: "lseg h out ps SCM_NULL" "distinct (map fst ps)" "brk h \<notin> fst ` set ps" using assms(1) by (auto simp: queue_inv_def)
  have "lseg h1 out ps SCM_NULL = lseg h out ps SCM_NULL"
  proof (rule lseg_cong, rule ballI)
    fix b assume "b \<in> fst ` set ps"
    then have "b \<noteq> brk h" using inv(3) by blast
    then show "mem h1 b = mem h b" by (simp add: h1_def make_cons_simps)
  qed
  then have seg: "lseg h1 out ps SCM_NULL" using inv(1) by simp
  have "\<exists>out'. SCM_SET h1 out (slot ps) (Ptr PTAG_CONS (brk h)) = (h2, out')"
    using assms(2) by (auto simp: queue_add_def mk split: prod.splits)
  then obtain out' where "SCM_SET h1 out (slot ps) (Ptr PTAG_CONS (brk h)) = (h2, out')" by blast
  then have "mem h2 a = mem h1 a" using SCM_SET_slot [OF seg inv(2)] assms(3) by blast
  then show ?thesis using assms(4) by (simp add: h1_def make_cons_simps)
qed

lemma lseg_pair: "lseg h x ps t \<Longrightarrow> a \<in> fst ` set ps \<Longrightarrow> \<exists>v y. mem h a = Some (PairCell v y)"
  by (induction h x ps t rule: lseg.induct) auto

lemma queue_inv_le:
  assumes "queue_inv h0 h out ps" "heap_le h h'" "brk_ok h'"
  shows "queue_inv h0 h' out ps"
proof -
  have "lseg h' out ps SCM_NULL = lseg h out ps SCM_NULL"
  proof (rule lseg_cong, rule ballI)
    fix a assume "a \<in> fst ` set ps"
    then obtain v t where "mem h a = Some (PairCell v t)"
      using assms(1) lseg_pair [of h out ps SCM_NULL a] unfolding queue_inv_def by blast
    then show "mem h' a = mem h a" using heap_leD [OF assms(2)] by simp
  qed
  moreover have "heap_le h0 h'" using assms(1,2) heap_le_trans unfolding queue_inv_def by blast
  moreover have "brk h \<le> brk h'" using assms(2) by (simp add: heap_le_def)
  then have "\<forall>a \<in> fst ` set ps. brk h0 \<le> a \<and> a < brk h'" using assms(1) order_less_le_trans unfolding queue_inv_def by blast
  ultimately show ?thesis using assms(1,3) unfolding queue_inv_def by blast
qed


text \<open>A list that is being read: \<open>ps\<close> are its cells, whose elements stand for \<open>ds\<close> without looking at them.\<close>

definition list_state :: "codec_vtbl \<Rightarrow> (ichar \<Rightarrow> bool) \<Rightarrow> nat set \<Rightarrow> heap \<Rightarrow> rstate \<Rightarrow> obj \<Rightarrow> (nat \<times> obj) list \<Rightarrow> datum list \<Rightarrow> bool" where
  "list_state codec valid A h0 st out ps ds \<longleftrightarrow>
     queue_inv h0 (rd_heap st) out ps \<and> A \<subseteq> {..<brk h0} \<and> rd_ok (A \<union> fst ` set ps) st \<and>
     list_all2 (stands_for codec valid (hide (A \<union> fst ` set ps) (rd_heap st))) (map snd ps) ds"

lemma list_state_port [simp]:
  "list_state codec valid A h0 (st\<lparr>rd_port := p\<rparr>) out ps ds = list_state codec valid A h0 st out ps ds"
  by (simp add: list_state_def)

lemma stands_for_list_le:
  "list_all2 (stands_for codec valid h) vs ds \<Longrightarrow> heap_le h h' \<Longrightarrow> list_all2 (stands_for codec valid h') vs ds"
  by (erule list_all2_mono) (rule stands_for_le)

lemma list_state_add:
  assumes "list_state codec valid A h0 st out ps ds" "rd_ok (A \<union> fst ` set ps) st1"
    "heap_le (rd_heap st) (rd_heap st1)" "stands_for codec valid (hide (A \<union> fst ` set ps) (rd_heap st1)) x d"
    "queue_add (rd_heap st1) out (slot ps) x = (h2, out2, q2)"
  shows "\<exists>ps2. q2 = slot ps2 \<and> ps2 \<noteq> [] \<and> list_state codec valid A h0 (st1\<lparr>rd_heap := h2\<rparr>) out2 ps2 (ds @ [d])"
proof -
  let ?B = "A \<union> fst ` set ps" and ?h = "rd_heap st1"
  let ?ps2 = "ps @ [(brk ?h, x)]"
  have inv: "queue_inv h0 ?h out ps"
  proof (rule queue_inv_le [OF _ assms(3)])
    show "queue_inv h0 (rd_heap st) out ps" using assms(1) unfolding list_state_def by blast
    show "brk_ok ?h" using assms(2) unfolding rd_ok_def by blast
  qed
  note add = queue_add_inv [OF inv assms(5)]
  have brk: "brk_ok ?h" "?B \<subseteq> {..<brk ?h}" "symtab_ok (hide ?B ?h) (rd_tab st1)" using assms(2) by (auto simp: rd_ok_def)
  have b2: "brk h2 = Suc (brk ?h)"
    using assms(5) by (auto simp: queue_add_def make_cons_simps Let_def set_pair_def split: prod.splits elim!: SCM_SET.elims)
  have le: "heap_le (hide ?B ?h) (hide (A \<union> fst ` set ?ps2) h2)"
    unfolding heap_le_def
  proof (intro conjI allI impI)
    fix a c assume m: "mem (hide ?B ?h) a = Some c"
    then have a: "a \<notin> ?B" "mem ?h a = Some c" by (auto split: if_splits)
    then have "a < brk ?h" using brk(1) by (auto simp: brk_ok_def not_le [symmetric])
    then have "mem h2 a = mem ?h a" using queue_add_frame [OF inv assms(5)] a(1) by simp
    then show "mem (hide (A \<union> fst ` set ?ps2) h2) a = Some c" using a \<open>a < brk ?h\<close> by auto
  qed (simp add: b2)
  have "list_all2 (stands_for codec valid (hide ?B (rd_heap st))) (map snd ps) ds"
    using assms(1) unfolding list_state_def by blast
  then have "list_all2 (stands_for codec valid (hide (A \<union> fst ` set ?ps2) h2)) (map snd ps) ds"
    using stands_for_list_le heap_le_trans [OF hide_mono [OF assms(3)] le] by blast
  moreover have "stands_for codec valid (hide (A \<union> fst ` set ?ps2) h2) x d" using stands_for_le [OF assms(4) le] .
  ultimately have "list_all2 (stands_for codec valid (hide (A \<union> fst ` set ?ps2) h2)) (map snd ?ps2) (ds @ [d])"
    by (simp add: list_all2_appendI)
  moreover have "rd_ok (A \<union> fst ` set ?ps2) (st1\<lparr>rd_heap := h2\<rparr>)"
    using symtab_ok_le [OF brk(3) le] add brk(2) b2 unfolding rd_ok_def queue_inv_def by auto
  ultimately have "list_state codec valid A h0 (st1\<lparr>rd_heap := h2\<rparr>) out2 ?ps2 (ds @ [d])"
    using add assms(1) unfolding list_state_def by simp
  then show ?thesis using add by blast
qed

text \<open>The list is closed: its cells come into sight.\<close>

definition list_read :: "codec_vtbl \<Rightarrow> (ichar \<Rightarrow> bool) \<Rightarrow> nat set \<Rightarrow> heap \<Rightarrow> rstate \<Rightarrow> obj \<Rightarrow> datum list \<Rightarrow> datum \<Rightarrow> bool" where
  "list_read codec valid A h0 st x ds e \<longleftrightarrow> rd_ok A st \<and> heap_le h0 (rd_heap st) \<and>
     (\<exists>vs t. chain (hide A (rd_heap st)) x vs t \<and> \<not> CONSP t \<and>
        list_all2 (stands_for codec valid (hide A (rd_heap st))) vs ds \<and> stands_for codec valid (hide A (rd_heap st)) t e)"

lemma list_state_set:
  assumes "list_state codec valid A h0 st out ps ds" "rd_ok (A \<union> fst ` set ps) st1"
    "heap_le (rd_heap st) (rd_heap st1)" "stands_for codec valid (hide (A \<union> fst ` set ps) (rd_heap st1)) t e" "\<not> CONSP t"
    "SCM_SET (rd_heap st1) out (slot ps) t = (h2, out2)"
  shows "list_read codec valid A h0 (st1\<lparr>rd_heap := h2\<rparr>) out2 ds e"
proof -
  let ?B = "A \<union> fst ` set ps" and ?h = "rd_heap st1"
  have inv: "queue_inv h0 ?h out ps"
  proof (rule queue_inv_le [OF _ assms(3)])
    show "queue_inv h0 (rd_heap st) out ps" using assms(1) unfolding list_state_def by blast
    show "brk_ok ?h" using assms(2) unfolding rd_ok_def by blast
  qed
  have A: "A \<subseteq> {..<brk h0}" using assms(1) unfolding list_state_def by blast
  have brk: "brk_ok ?h" "?B \<subseteq> {..<brk ?h}" "symtab_ok (hide ?B ?h) (rd_tab st1)" using assms(2) by (auto simp: rd_ok_def)
  note set = queue_set [OF inv assms(6)]
  have frame: "mem h2 a = mem ?h a" if "a \<notin> fst ` set ps" for a
    using SCM_SET_slot [OF _ _ assms(6), of SCM_NULL] inv that unfolding queue_inv_def by blast
  have le: "heap_le (hide ?B ?h) (hide ?B h2)" unfolding heap_le_def using frame set by auto
  have leA: "heap_le (hide ?B ?h) (hide A h2)" using heap_le_trans [OF le hide_le] by blast
  have "\<forall>a \<in> fst ` set ps. a \<notin> A" using inv A unfolding queue_inv_def by fastforce
  then have "lseg (hide A h2) out2 ps t = lseg h2 out2 ps t" by (intro lseg_cong) auto
  then have ch: "chain (hide A h2) out2 (map snd ps) t" using set lseg_chain by blast
  have "list_all2 (stands_for codec valid (hide ?B (rd_heap st))) (map snd ps) ds"
    using assms(1) unfolding list_state_def by blast
  then have el: "list_all2 (stands_for codec valid (hide A h2)) (map snd ps) ds"
    using stands_for_list_le heap_le_trans [OF hide_mono [OF assms(3)] leA] by blast
  have "rd_ok A (st1\<lparr>rd_heap := h2\<rparr>)"
    using symtab_ok_le [OF brk(3) leA] set brk(2) unfolding rd_ok_def by auto
  then show ?thesis using ch el stands_for_le [OF assms(4) leA] assms(5) set unfolding list_read_def by auto
qed

lemma list_state_close:
  assumes "list_state codec valid A h0 st out ps ds"
  shows "list_read codec valid A h0 st out ds DNull"
proof -
  have inv: "queue_inv h0 (rd_heap st) out ps" and ok: "rd_ok (A \<union> fst ` set ps) st" using assms by (auto simp: list_state_def)
  obtain h2 out2 where set: "SCM_SET (rd_heap st) out (slot ps) SCM_NULL = (h2, out2)"
    by (cases "SCM_SET (rd_heap st) out (slot ps) SCM_NULL")
  have same: "h2 = rd_heap st \<and> out2 = out"
  proof (cases ps rule: rev_cases)
    case Nil
    then show ?thesis using set inv by (auto simp: slot_def queue_inv_def)
  next
    case (snoc qs p)
    obtain a v where p: "p = (a, v)" by (cases p)
    have "mem (rd_heap st) a = Some (PairCell v SCM_NULL)" using inv snoc p by (auto simp: queue_inv_def lseg_append)
    then show ?thesis using set snoc p by (auto simp: slot_def set_pair_def intro!: heap_eqI)
  qed
  have "st\<lparr>rd_heap := rd_heap st\<rparr> = st" by simp
  with list_state_set [OF assms ok heap_le_refl stands_for.null _ set] same show ?thesis by simp
qed

section \<open>The loop of \<^verbatim>\<open>read_list\<close>\<close>

lemma ends_paren [simp]: "ends_token (0x29 # rest)" and ends_space [simp]: "ends_token (0x20 # rest)"
  by (simp_all add: ends_token_def delimiterp_def class_eval class_defs)

lemma spaces_simps [simp]: "spaces []" "spaces [0x20]"
  by (simp_all add: spaces_def white_cases)

definition tail_end :: "datum \<Rightarrow> ichar list option" where
  "tail_end e = (if e = DNull then None else Some (show_datum e))"

definition ends_as :: "codec_vtbl \<Rightarrow> (ichar \<Rightarrow> bool) \<Rightarrow> reader_symbols \<Rightarrow> datum list \<Rightarrow> datum \<Rightarrow> bool" where
  "ends_as codec valid syms ds e \<longleftrightarrow> (e \<noteq> DNull \<longrightarrow> reads_as codec valid syms e) \<and>
    (\<forall>h x. stands_for codec valid h x e \<longrightarrow> \<not> CONSP x) \<and> (ds = [] \<longrightarrow> e = DNull)"

lemma ends_asD:
  assumes "ends_as codec valid syms ds e"
  shows "e \<noteq> DNull \<Longrightarrow> reads_as codec valid syms e" "stands_for codec valid h x e \<Longrightarrow> \<not> CONSP x"
  using assms unfolding ends_as_def by blast+

lemma ends_as_null [simp]: "ends_as codec valid syms ds DNull"
  by (auto simp: ends_as_def elim: stands_for.cases)

context reader_codec begin

lemma loop_close:
  assumes "holds codec valid (rd_port st) (ws @ 0x29 # rest)" "spaces ws"
  obtains p where "reader codec syms (List_loop 0x29 out q) st = Some (Inr (out, st\<lparr>rd_port := p\<rparr>))"
    "holds codec valid p rest"
proof -
  obtain p1 where p1: "with_port st (skip_comment_and_space (rd_port st)) = Some (Inr (0x29, st\<lparr>rd_port := p1\<rparr>))"
      "holds codec valid p1 (0x29 # rest)"
    by (rule skip_st [OF assms]) (simp_all add: white_cases)
  obtain p2 where p2: "with_port (st\<lparr>rd_port := p1\<rparr>) (getc p1) = Some (Inr (0x29, st\<lparr>rd_port := p2\<rparr>))"
      "holds codec valid p2 rest" by (rule getc_point [OF p1(2)])
  have "reader codec syms (List_loop 0x29 out q) st = Some (Inr (out, st\<lparr>rd_port := p2\<rparr>))"
    using p1(1) p2(1) by (subst reader.simps) (simp add: SCM_ICHAR_EOF_def)
  then show thesis using that p2(2) by blast
qed

lemma loop_elem:
  assumes "reads_as codec valid syms d" "starts_ok (show_datum d)" "list_state codec valid A h0 st out ps ds"
    "holds codec valid (rd_port st) (ws @ show_datum d @ rest)" "spaces ws" "ends_token rest"
  obtains st2 out2 ps2 where "reader codec syms (List_loop 0x29 out (slot ps)) st =
      reader codec syms (List_loop 0x29 out2 (slot ps2)) st2"
    "list_state codec valid A h0 st2 out2 ps2 (ds @ [d])" "holds codec valid (rd_port st2) rest" "ps2 \<noteq> []"
proof -
  obtain c cs where c: "show_datum d = c # cs" using assms(2) by (cases "show_datum d") (auto simp: starts_ok_def)
  have cs: "\<not> ICHAR_WHITESPACEP c" "c \<noteq> 0x3B" "c \<noteq> 0x29" "c \<noteq> 0x2E" using assms(2) c by (auto simp: starts_ok_def)
  have h: "holds codec valid (rd_port st) (ws @ c # cs @ rest)" using assms(4) c by simp
  obtain p1 where p1: "with_port st (skip_comment_and_space (rd_port st)) = Some (Inr (c, st\<lparr>rd_port := p1\<rparr>))"
      "holds codec valid p1 (c # cs @ rest)" by (rule skip_st [OF h assms(5) cs(1,2)])
  have ne: "c \<noteq> SCM_ICHAR_EOF" using holds_valid [OF p1(2)] by blast
  let ?st = "st\<lparr>rd_port := p1\<rparr>"
  have ok: "rd_ok (A \<union> fst ` set ps) ?st" using assms(3) by (simp add: list_state_def)
  have h1: "holds codec valid (rd_port ?st) ([] @ show_datum d @ rest)" using p1(2) c by simp
  obtain x st1 where r: "reader codec syms Sexpression ?st = Some (Inr (x, st1))" "rd_ok (A \<union> fst ` set ps) st1"
      "heap_le (rd_heap ?st) (rd_heap st1)" "holds codec valid (rd_port st1) rest"
      "stands_for codec valid (hide (A \<union> fst ` set ps) (rd_heap st1)) x d"
    by (rule reads_asD [OF assms(1) ok spaces_simps(1) assms(6) h1])
  obtain h2 out2 q2 where add: "queue_add (rd_heap st1) out (slot ps) x = (h2, out2, q2)" by (metis prod_cases3)
  have ls: "list_state codec valid A h0 ?st out ps ds" using assms(3) by simp
  obtain ps2 where ps2: "q2 = slot ps2" "ps2 \<noteq> []"
      "list_state codec valid A h0 (st1\<lparr>rd_heap := h2\<rparr>) out2 ps2 (ds @ [d])"
    using list_state_add [OF ls r(2,3,5) add] by blast
  have "reader codec syms (List_loop 0x29 out (slot ps)) st =
      reader codec syms (List_loop 0x29 out2 (slot ps2)) (st1\<lparr>rd_heap := h2\<rparr>)"
    using p1(1) ne cs(3,4) r(1) add ps2(1) by (subst reader.simps) simp
  then show thesis using that ps2(2,3) r(4) by simp
qed

lemma loop_dot:
  assumes "reads_as codec valid syms e" "list_state codec valid A h0 st out ps ds" "ps \<noteq> []"
    "holds codec valid (rd_port st) ([0x20, 0x2E, 0x20] @ show_datum e @ 0x29 # rest)"
    and nc: "\<And>h x. stands_for codec valid h x e \<Longrightarrow> \<not> CONSP x"
  obtains x st' where "reader codec syms (List_loop 0x29 out (slot ps)) st = Some (Inr (x, st'))"
    "list_read codec valid A h0 st' x ds e" "holds codec valid (rd_port st') rest"
proof -
  have h: "holds codec valid (rd_port st) ([0x20] @ 0x2E # 0x20 # show_datum e @ 0x29 # rest)" using assms(4) by simp
  obtain p1 where p1: "with_port st (skip_comment_and_space (rd_port st)) = Some (Inr (0x2E, st\<lparr>rd_port := p1\<rparr>))"
      "holds codec valid p1 (0x2E # 0x20 # show_datum e @ 0x29 # rest)"
    by (rule skip_st [OF h spaces_simps(2)]) (simp_all add: white_cases)
  have h2: "holds codec valid p1 ([0x2E] @ 0x20 # show_datum e @ 0x29 # rest)" using p1(2) by simp
  obtain p2 where p2: "holds codec valid p2 (0x20 # show_datum e @ 0x29 # rest)"
      "read_token p1 4 SCM_CH_DELIMITER [] = Some (Inr (OK, [0x2E], p2))"
    using read_token_fits [OF h2 ends_space, of "[]" 4] by (auto simp: word_sle_eq)
  obtain p3 where p3: "with_port (st\<lparr>rd_port := p2\<rparr>) (peekc p2) = Some (Inr (0x20, st\<lparr>rd_port := p3\<rparr>))"
      "holds codec valid p3 (0x20 # show_datum e @ 0x29 # rest)"
    using peekc_st [of "st\<lparr>rd_port := p2\<rparr>" "0x20"] p2(1) by auto
  let ?st = "st\<lparr>rd_port := p3\<rparr>"
  have ok: "rd_ok (A \<union> fst ` set ps) ?st" using assms(2) by (simp add: list_state_def)
  have h3: "holds codec valid (rd_port ?st) ([0x20] @ show_datum e @ 0x29 # rest)" using p3(2) by simp
  obtain t st1 where r: "reader codec syms Sexpression ?st = Some (Inr (t, st1))" "rd_ok (A \<union> fst ` set ps) st1"
      "heap_le (rd_heap ?st) (rd_heap st1)" "holds codec valid (rd_port st1) (0x29 # rest)"
      "stands_for codec valid (hide (A \<union> fst ` set ps) (rd_heap st1)) t e"
    by (rule reads_asD [OF assms(1) ok spaces_simps(2) ends_paren h3])
  have h4: "holds codec valid (rd_port st1) ([] @ 0x29 # rest)" using r(4) by simp
  obtain p4 where p4: "with_port st1 (skip_comment_and_space (rd_port st1)) = Some (Inr (0x29, st1\<lparr>rd_port := p4\<rparr>))"
      "holds codec valid p4 (0x29 # rest)"
    by (rule skip_st [OF h4 spaces_simps(1)]) (simp_all add: white_cases)
  obtain p5 where p5: "with_port (st1\<lparr>rd_port := p4\<rparr>) (getc p4) = Some (Inr (0x29, st1\<lparr>rd_port := p5\<rparr>))"
      "holds codec valid p5 rest" by (rule getc_point [OF p4(2)])
  obtain h2 out2 where set: "SCM_SET (rd_heap st1) out (slot ps) t = (h2, out2)" by (cases "SCM_SET (rd_heap st1) out (slot ps) t")
  have "list_state codec valid A h0 ?st out ps ds" using assms(2) by simp
  from list_state_set [OF this r(2,3,5) nc [OF r(5)] set]
  have lr: "list_read codec valid A h0 (st1\<lparr>rd_heap := h2\<rparr>) out2 ds e" .
  have "lseg (rd_heap st) out ps SCM_NULL" using assms(2) by (simp add: list_state_def queue_inv_def)
  then have nn: "out \<noteq> SCM_NULL" using assms(3) by (cases ps) auto
  have w: "ICHAR_WHITESPACEP 0x20" by (simp add: white_cases)
  have "reader codec syms (List_loop 0x29 out (slot ps)) st =
      Some (Inr (out2, (st1\<lparr>rd_heap := h2\<rparr>)\<lparr>rd_port := p5\<rparr>))"
    using p1(1) p2(2) p3(1) nn w r(1) p4(1) p5(1) set by (subst reader.simps) (simp add: SCM_ICHAR_EOF_def)
  moreover have "list_read codec valid A h0 ((st1\<lparr>rd_heap := h2\<rparr>)\<lparr>rd_port := p5\<rparr>) out2 ds e"
    using lr by (simp add: list_read_def)
  ultimately show thesis using that p5(2) by simp
qed

lemma loop_tail:
  assumes "\<forall>d \<in> set ds. reads_as codec valid syms d \<and> starts_ok (show_datum d)"
    "e \<noteq> DNull \<Longrightarrow> reads_as codec valid syms e" "\<And>h x. stands_for codec valid h x e \<Longrightarrow> \<not> CONSP x"
    "list_state codec valid A h0 st out ps ds0" "ps \<noteq> []"
    "holds codec valid (rd_port st) (tail_text (List.map show_datum ds) (tail_end e) @ rest)"
  shows "\<exists>x st'. reader codec syms (List_loop 0x29 out (slot ps)) st = Some (Inr (x, st')) \<and>
    list_read codec valid A h0 st' x (ds0 @ ds) e \<and> holds codec valid (rd_port st') rest"
  using assms(1,4-6)
proof (induction ds arbitrary: st out ps ds0)
  case Nil
  show ?case
  proof (cases "e = DNull")
    case True
    then have h: "holds codec valid (rd_port st) ([] @ 0x29 # rest)" using Nil.prems(4) by (simp add: tail_end_def)
    obtain p where p: "reader codec syms (List_loop 0x29 out (slot ps)) st = Some (Inr (out, st\<lparr>rd_port := p\<rparr>))"
        "holds codec valid p rest" by (rule loop_close [OF h spaces_simps(1)])
    have "list_read codec valid A h0 (st\<lparr>rd_port := p\<rparr>) out ds0 DNull"
      using list_state_close [OF Nil.prems(2)] by (simp add: list_read_def)
    then show ?thesis using p True by auto
  next
    case False
    then have h: "holds codec valid (rd_port st) ([0x20, 0x2E, 0x20] @ show_datum e @ 0x29 # rest)"
      using Nil.prems(4) by (simp add: tail_end_def)
    show ?thesis
      by (rule loop_dot [OF assms(2) [OF False] Nil.prems(2,3) h assms(3)]) auto
  qed
next
  case (Cons d ds)
  let ?rest = "tail_text (List.map show_datum ds) (tail_end e) @ rest"
  have h: "holds codec valid (rd_port st) ([0x20] @ show_datum d @ ?rest)" using Cons.prems(4) by simp
  have er: "ends_token ?rest" by (cases ds; cases "tail_end e") simp_all
  have d: "reads_as codec valid syms d" "starts_ok (show_datum d)" using Cons.prems(1) by auto
  obtain st2 out2 ps2 where s: "reader codec syms (List_loop 0x29 out (slot ps)) st =
        reader codec syms (List_loop 0x29 out2 (slot ps2)) st2"
      "list_state codec valid A h0 st2 out2 ps2 (ds0 @ [d])" "holds codec valid (rd_port st2) ?rest" "ps2 \<noteq> []"
    by (rule loop_elem [OF d Cons.prems(2) h spaces_simps(2) er])
  have "\<forall>d \<in> set ds. reads_as codec valid syms d \<and> starts_ok (show_datum d)" using Cons.prems(1) by simp
  from Cons.IH [OF this s(2,4,3)] show ?case unfolding s(1) by simp
qed

lemma loop_body:
  assumes "\<forall>d \<in> set ds. reads_as codec valid syms d \<and> starts_ok (show_datum d)"
    "ends_as codec valid syms ds e" "rd_ok A st"
    "holds codec valid (rd_port st) (body_text (List.map show_datum ds) (tail_end e) @ rest)"
  shows "\<exists>x st'. reader codec syms (List_loop 0x29 SCM_NULL RefOffHeap) st = Some (Inr (x, st')) \<and>
    list_read codec valid A (rd_heap st) st' x ds e \<and> holds codec valid (rd_port st') rest"
proof -
  have brk: "brk_ok (rd_heap st)" "A \<subseteq> {..<brk (rd_heap st)}" using assms(3) by (auto simp: rd_ok_def)
  have s0: "list_state codec valid A (rd_heap st) st SCM_NULL [] []"
    using assms(3) brk by (simp add: list_state_def queue_inv_def)
  have q0: "slot [] = RefOffHeap" by (simp add: slot_def)
  show ?thesis
  proof (cases ds)
    case Nil
    then have h: "holds codec valid (rd_port st) ([] @ 0x29 # rest)" using assms(4) by simp
    obtain p where p: "reader codec syms (List_loop 0x29 SCM_NULL RefOffHeap) st = Some (Inr (SCM_NULL, st\<lparr>rd_port := p\<rparr>))"
        "holds codec valid p rest" by (rule loop_close [OF h spaces_simps(1)])
    have "list_read codec valid A (rd_heap st) (st\<lparr>rd_port := p\<rparr>) SCM_NULL [] DNull"
      using list_state_close [OF s0] by (simp add: list_read_def)
    then show ?thesis using p Nil assms(2) by (auto simp: ends_as_def)
  next
    case (Cons d ds')
    let ?rest = "tail_text (List.map show_datum ds') (tail_end e) @ rest"
    have h: "holds codec valid (rd_port st) ([] @ show_datum d @ ?rest)" using assms(4) Cons by simp
    have er: "ends_token ?rest" by (cases ds'; cases "tail_end e") simp_all
    have d: "reads_as codec valid syms d" "starts_ok (show_datum d)" using assms(1) Cons by auto
    obtain st2 out2 ps2 where s: "reader codec syms (List_loop 0x29 SCM_NULL (slot [])) st =
          reader codec syms (List_loop 0x29 out2 (slot ps2)) st2"
        "list_state codec valid A (rd_heap st) st2 out2 ps2 ([] @ [d])" "holds codec valid (rd_port st2) ?rest" "ps2 \<noteq> []"
      by (rule loop_elem [OF d s0 h spaces_simps(1) er])
    have "\<forall>d \<in> set ds'. reads_as codec valid syms d \<and> starts_ok (show_datum d)" using assms(1) Cons by simp
    from loop_tail [OF this ends_asD(1,2) [OF assms(2)] s(2,4,3)] show ?thesis unfolding Cons s(1) [unfolded q0] by simp
  qed
qed

end

section \<open>Data\<close>

context reader_codec begin

lemma reads_list:
  assumes "\<forall>d \<in> set ds. reads_as codec valid syms d \<and> starts_ok (show_datum d)"
    "ends_as codec valid syms ds e" "rd_ok A st" "spaces ws" "holds codec valid (rd_port st) (ws @ 0x28 # body_text (List.map show_datum ds) (tail_end e) @ rest)"
  shows "\<exists>x st'. reader codec syms Sexpression st = Some (Inr (x, st')) \<and>
    list_read codec valid A (rd_heap st) st' x ds e \<and> holds codec valid (rd_port st') rest"
proof -
  obtain p1 where p1: "reader codec syms Sexpression st =
        reader codec syms (List_loop 0x29 SCM_NULL RefOffHeap) (st\<lparr>rd_port := p1\<rparr>)"
      "holds codec valid p1 (body_text (List.map show_datum ds) (tail_end e) @ rest)"
    by (rule sexp_paren [OF assms(5,4)])
  have ok: "rd_ok A (st\<lparr>rd_port := p1\<rparr>)" using assms(3) by simp
  have "holds codec valid (rd_port (st\<lparr>rd_port := p1\<rparr>)) (body_text (List.map show_datum ds) (tail_end e) @ rest)"
    using p1(2) by simp
  from loop_body [OF assms(1,2) ok this] p1(1) show ?thesis by simp
qed

lemma list_readD:
  assumes "list_read codec valid A h0 st x ds e"
  shows "rd_ok A st" "heap_le h0 (rd_heap st)" "stands_for codec valid (hide A (rd_heap st)) x (DList ds e)"
  using assms stands_for.list unfolding list_read_def by blast+

lemma reads_null: "reads_as codec valid syms DNull"
  unfolding reads_as_def
proof (intro allI impI)
  fix A st ws rest
  assume st: "rd_ok A st" "spaces ws" "ends_token rest" "holds codec valid (rd_port st) (ws @ show_datum DNull @ rest)"
  have h: "holds codec valid (rd_port st) (ws @ 0x28 # 0x29 # rest)" using st(4) by simp
  obtain p1 where p1: "reader codec syms Sexpression st =
        reader codec syms (List_loop 0x29 SCM_NULL RefOffHeap) (st\<lparr>rd_port := p1\<rparr>)" "holds codec valid p1 (0x29 # rest)"
    by (rule sexp_paren [OF h st(2)])
  have h1: "holds codec valid (rd_port (st\<lparr>rd_port := p1\<rparr>)) ([] @ 0x29 # rest)" using p1(2) by simp
  obtain p2 where p2: "reader codec syms (List_loop 0x29 SCM_NULL RefOffHeap) (st\<lparr>rd_port := p1\<rparr>) =
        Some (Inr (SCM_NULL, (st\<lparr>rd_port := p1\<rparr>)\<lparr>rd_port := p2\<rparr>))" "holds codec valid p2 rest"
    by (rule loop_close [OF h1 spaces_simps(1)])
  then show "\<exists>x st'. reader codec syms Sexpression st = Some (Inr (x, st')) \<and> rd_ok A st' \<and>
      heap_le (rd_heap st) (rd_heap st') \<and> holds codec valid (rd_port st') rest \<and>
      stands_for codec valid (hide A (rd_heap st')) x DNull"
    using p1(1) st(1) stands_for.null by simp
qed

text \<open>A vector and a bytevector are made of the list read after their prefix.\<close>

lemma new_cell:
  fixes c :: cell
  assumes "brk_ok h" "A \<subseteq> {..<brk h}"
  defines "h' \<equiv> h\<lparr>mem := (mem h)(brk h \<mapsto> c), brk := Suc (brk h)\<rparr>"
  shows "heap_le h h'" "brk_ok h'" "misc_cell (hide A h') (Ptr PTAG_MISC (brk h)) = Some c"
  using assms by (auto simp: heap_le_def brk_ok_def h'_def)

lemma reads_vec:
  assumes "\<forall>d \<in> set ds. reads_as codec valid syms d \<and> starts_ok (show_datum d)"
  shows "reads_as codec valid syms (DVec ds)"
  unfolding reads_as_def
proof (intro allI impI)
  fix A st ws rest
  assume st: "rd_ok A st" "spaces ws" "ends_token rest" "holds codec valid (rd_port st) (ws @ show_datum (DVec ds) @ rest)"
  have h: "holds codec valid (rd_port st) (ws @ 0x23 # 0x28 # body_text (List.map show_datum ds) None @ rest)" using st(4) by simp
  obtain p1 where p1: "reader codec syms Sexpression st = reader codec syms Hash (st\<lparr>rd_port := p1\<rparr>)"
      "holds codec valid p1 (0x28 # body_text (List.map show_datum ds) None @ rest)" by (rule sexp_hash [OF h st(2)])
  obtain p2 where p2: "with_port (st\<lparr>rd_port := p1\<rparr>) (getc p1) = Some (Inr (0x28, st\<lparr>rd_port := p2\<rparr>))"
      "holds codec valid p2 (body_text (List.map show_datum ds) None @ rest)" by (rule getc_point [OF p1(2)])
  have ok2: "rd_ok A (st\<lparr>rd_port := p2\<rparr>)" using st(1) by simp
  have h2: "holds codec valid (rd_port (st\<lparr>rd_port := p2\<rparr>)) (body_text (List.map show_datum ds) (tail_end DNull) @ rest)"
    using p2(2) by (simp add: tail_end_def)
  from loop_body [OF assms ends_as_null ok2 h2]
  obtain x st' where l: "reader codec syms (List_loop 0x29 SCM_NULL RefOffHeap) (st\<lparr>rd_port := p2\<rparr>) = Some (Inr (x, st'))"
      "list_read codec valid A (rd_heap st) st' x ds DNull" "holds codec valid (rd_port st') rest"
    by auto
  let ?h = "rd_heap st'"
  have ok: "rd_ok A st'" "heap_le (rd_heap st) ?h" using list_readD [OF l(2)] by auto
  then have brk: "brk_ok ?h" "A \<subseteq> {..<brk ?h}" by (auto simp: rd_ok_def)
  obtain vs where vs: "chain (hide A ?h) x vs SCM_NULL" "list_all2 (stands_for codec valid (hide A ?h)) vs ds"
    using l(2) unfolding list_read_def by (auto elim: stands_for.cases)
  have ch: "chain ?h x vs SCM_NULL" using chain_le [OF vs(1) hide_le_self] .
  have "scm_length ?h x = Some (int (length vs))" using scm_length_chain [OF ch] by simp
  moreover have "pop_elements ?h (length vs) x = vs" using pop_elements_chain [of ?h x vs "[]"] ch by simp
  ultimately have "scm_p_list2vector ?h x = Some (Inr (scm_make_vector ?h vs))"
    by (simp add: scm_p_list2vector_def SCM_LISTLEN_PROPERP_def)
  then have v: "scm_p_list2vector ?h x = Some (Inr (Ptr PTAG_MISC (brk ?h),
      ?h\<lparr>mem := (mem ?h)(brk ?h \<mapsto> VectorCell vs True), brk := Suc (brk ?h)\<rparr>))"
    by (simp add: scm_make_vector_def alloc_ptr_def alloc_def)
  let ?h2 = "?h\<lparr>mem := (mem ?h)(brk ?h \<mapsto> VectorCell vs False), brk := Suc (brk ?h)\<rparr>"
  have imm: "VECTOR_SET_IMMUTABLE (?h\<lparr>mem := (mem ?h)(brk ?h \<mapsto> VectorCell vs True), brk := Suc (brk ?h)\<rparr>)
      (Ptr PTAG_MISC (brk ?h)) = ?h2"
    by (simp add: VECTOR_SET_IMMUTABLE_def)
  note nc = new_cell [OF brk, of "VectorCell vs False"]
  have "reader codec syms Sexpression st = Some (Inr (Ptr PTAG_MISC (brk ?h), st'\<lparr>rd_heap := ?h2\<rparr>))"
    unfolding p1(1) using p2(1) l(1) v imm by (subst reader.simps) (simp add: Let_def ICHAR_DOWNCASE_def word_sle_eq)
  moreover have "stands_for codec valid (hide A ?h2) (Ptr PTAG_MISC (brk ?h)) (DVec ds)"
    using stands_for.vec [OF nc(3)] stands_for_list_le [OF vs(2) hide_mono [OF nc(1)]] by blast
  ultimately show "\<exists>x st'. reader codec syms Sexpression st = Some (Inr (x, st')) \<and> rd_ok A st' \<and>
      heap_le (rd_heap st) (rd_heap st') \<and> holds codec valid (rd_port st') rest \<and>
      stands_for codec valid (hide A (rd_heap st')) x (DVec ds)"
    using rd_ok_heap [OF ok(1) nc(1,2)] heap_le_trans [OF ok(2) nc(1)] l(3)
    by (intro exI [of _ "Ptr PTAG_MISC (brk ?h)"] exI [of _ "st'\<lparr>rd_heap := ?h2\<rparr>"]) simp
qed

end

lemma byte_int: "BYTEP (IntObj (uint (b :: byte)))" "byte_of (IntObj (uint b)) = b"
proof -
  have "uint b < 2 ^ 8" using uint_lt2p [of b] by simp
  then show "BYTEP (IntObj (uint b))" using uint_ge_0 [of b] by simp
qed (simp add: byte_of_def)

lemma bytevector_loop_ints:
  "chain h x (List.map (\<lambda>b. IntObj (uint b)) bs) SCM_NULL \<Longrightarrow> bytevector_loop h x vec = Some (Inr (vec @ bs))"
proof (induction bs arbitrary: x vec)
  case Nil
  then show ?case by (subst bytevector_loop.simps) simp
next
  case (Cons b bs)
  then have "CONSP x" "CAR h x = IntObj (uint b)" "chain h (CDR h x) (List.map (\<lambda>b. IntObj (uint b)) bs) SCM_NULL"
    using has_pair_CONSP by auto
  then show ?case using Cons.IH byte_int [of b] by (subst bytevector_loop.simps) (simp add: ENSURE_BYTE_def)
qed

definition byte_datum :: "byte \<Rightarrow> datum" where "byte_datum b = DInt (uint b)"

lemma byte_fits: "fits (uint (b :: byte))"
proof -
  have "uint b < 2 ^ 8" using uint_lt2p [of b] by simp
  moreover have "- (2 ^ 59) \<le> (0 :: int)" "(2 :: int) ^ 8 < 2 ^ 59" by simp_all
  ultimately show ?thesis using uint_ge_0 [of b] unfolding fits_bounds by linarith
qed

lemma int_starts: "starts_ok (show_datum (DInt i))"
proof -
  obtain c cs where t: "chars_of (int_text 10 i) = c # cs"
    using nat_digits_nonempty [of 10] by (cases "chars_of (int_text 10 i)") (auto simp: chars_of_def int_text_def)
  then have "c \<in> digit_chars \<or> c = 0x2D"
    using nat_digits_chars [of "nat \<bar>i\<bar>"] by (auto simp: int_text_chars split: if_splits)
  then show ?thesis using t by (auto simp: starts_ok_def white_cases digit_chars_def)
qed

context reader_codec begin

lemma reads_bytes: "reads_as codec valid syms (DBytes bs)"
  unfolding reads_as_def
proof (intro allI impI)
  fix A st ws rest
  assume st: "rd_ok A st" "spaces ws" "ends_token rest" "holds codec valid (rd_port st) (ws @ show_datum (DBytes bs) @ rest)"
  let ?ds = "List.map byte_datum bs"
  let ?body = "body_text (List.map show_datum ?ds) (tail_end DNull) @ rest"
  have h: "holds codec valid (rd_port st) (ws @ 0x23 # 0x75 # 0x38 # 0x28 # ?body)"
    using st(4) by (simp add: tail_end_def byte_datum_def comp_def)
  obtain p1 where p1: "reader codec syms Sexpression st = reader codec syms Hash (st\<lparr>rd_port := p1\<rparr>)"
      "holds codec valid p1 (0x75 # 0x38 # 0x28 # ?body)" by (rule sexp_hash [OF h st(2)])
  obtain p2 where p2: "with_port (st\<lparr>rd_port := p1\<rparr>) (getc p1) = Some (Inr (0x75, st\<lparr>rd_port := p2\<rparr>))"
      "holds codec valid p2 (0x38 # 0x28 # ?body)" by (rule getc_point [OF p1(2)])
  obtain p3 where p3: "with_port (st\<lparr>rd_port := p2\<rparr>) (getc p2) = Some (Inr (0x38, st\<lparr>rd_port := p3\<rparr>))"
      "holds codec valid p3 (0x28 # ?body)" by (rule getc_point [OF p2(2)])
  obtain p4 where p4: "with_port (st\<lparr>rd_port := p3\<rparr>) (getc p3) = Some (Inr (0x28, st\<lparr>rd_port := p4\<rparr>))"
      "holds codec valid p4 ?body" by (rule getc_point [OF p3(2)])
  have ok4: "rd_ok A (st\<lparr>rd_port := p4\<rparr>)" using st(1) by simp
  have els: "\<forall>d \<in> set ?ds. reads_as codec valid syms d \<and> starts_ok (show_datum d)"
    using reads_int [OF byte_fits] int_starts by (auto simp: byte_datum_def)
  have h4: "holds codec valid (rd_port (st\<lparr>rd_port := p4\<rparr>)) ?body" using p4(2) by simp
  from loop_body [OF els ends_as_null ok4 h4]
  obtain x st' where l: "reader codec syms (List_loop 0x29 SCM_NULL RefOffHeap) (st\<lparr>rd_port := p4\<rparr>) = Some (Inr (x, st'))"
      "list_read codec valid A (rd_heap st) st' x ?ds DNull" "holds codec valid (rd_port st') rest" by auto
  let ?h = "rd_heap st'"
  have ok: "rd_ok A st'" "heap_le (rd_heap st) ?h" using list_readD [OF l(2)] by auto
  then have brk: "brk_ok ?h" "A \<subseteq> {..<brk ?h}" by (auto simp: rd_ok_def)
  obtain vs where vs: "chain (hide A ?h) x vs SCM_NULL" "list_all2 (stands_for codec valid (hide A ?h)) vs ?ds"
    using l(2) unfolding list_read_def by (auto elim: stands_for.cases)
  have "list_all2 (\<lambda>v b. v = IntObj (uint b)) vs bs"
    using vs(2) unfolding list_all2_map2 by (rule list_all2_mono) (auto simp: byte_datum_def elim: stands_for.cases)
  then have "vs = List.map (\<lambda>b. IntObj (uint b)) bs" by (simp add: list_eq_iff_nth_eq list_all2_conv_all_nth)
  then have ch: "chain ?h x (List.map (\<lambda>b. IntObj (uint b)) bs) SCM_NULL" using chain_le [OF vs(1) hide_le_self] by simp
  have "scm_length ?h x = Some (int (length bs))" using scm_length_chain [OF ch] by simp
  then have "scm_p_bytevector ?h x = Some (Inr (scm_make_bytevector ?h bs))"
    using bytevector_loop_ints [OF ch, of "[]"] by (simp add: scm_p_bytevector_def SCM_LISTLEN_PROPERP_def)
  then have v: "scm_p_bytevector ?h x = Some (Inr (Ptr PTAG_MISC (brk ?h),
      ?h\<lparr>mem := (mem ?h)(brk ?h \<mapsto> BytevectorCell bs True), brk := Suc (brk ?h)\<rparr>))"
    by (simp add: scm_make_bytevector_def alloc_ptr_def alloc_def)
  let ?h2 = "?h\<lparr>mem := (mem ?h)(brk ?h \<mapsto> BytevectorCell bs False), brk := Suc (brk ?h)\<rparr>"
  have imm: "BYTEVECTOR_SET_IMMUTABLE (?h\<lparr>mem := (mem ?h)(brk ?h \<mapsto> BytevectorCell bs True), brk := Suc (brk ?h)\<rparr>)
      (Ptr PTAG_MISC (brk ?h)) = ?h2"
    by (simp add: BYTEVECTOR_SET_IMMUTABLE_def)
  note nc2 = new_cell [OF brk, of "BytevectorCell bs False"]
  have "reader codec syms Sexpression st = Some (Inr (Ptr PTAG_MISC (brk ?h), st'\<lparr>rd_heap := ?h2\<rparr>))"
    unfolding p1(1) using p2(1) p3(1) p4(1) l(1) v imm
    by (subst reader.simps) (simp add: Let_def ICHAR_DOWNCASE_def word_sle_eq)
  then show "\<exists>x st'. reader codec syms Sexpression st = Some (Inr (x, st')) \<and> rd_ok A st' \<and>
      heap_le (rd_heap st) (rd_heap st') \<and> holds codec valid (rd_port st') rest \<and>
      stands_for codec valid (hide A (rd_heap st')) x (DBytes bs)"
    using rd_ok_heap [OF ok(1) nc2(1,2)] heap_le_trans [OF ok(2) nc2(1)] l(3) stands_for.bytes [OF nc2(3)]
    by (intro exI [of _ "Ptr PTAG_MISC (brk ?h)"] exI [of _ "st'\<lparr>rd_heap := ?h2\<rparr>"]) simp
qed

lemma symbol_starts: "symbol_text_ok codec valid cs \<Longrightarrow> starts_ok cs"
  unfolding symbol_text_ok_def starts_ok_def
proof (elim disjE)
  assume s: "cs \<noteq> [] \<and> (\<forall>c \<in> set cs. token_char codec valid c) \<and> ICHAR_CLASS (hd cs) AND (SCM_CH_INITIAL OR SCM_CH_NONASCII) \<noteq> 0"
  have "hd cs \<noteq> c" if "ICHAR_CLASS c AND (SCM_CH_INITIAL OR SCM_CH_NONASCII) = 0" for c using s that by auto
  then have "hd cs \<notin> {0x20, 0x09, 0x0A, 0x0B, 0x0C, 0x0D, 0x3B, 0x29, 0x2E}"
    by (simp add: class_eval class_defs)
  then show "cs \<noteq> [] \<and> \<not> ICHAR_WHITESPACEP (hd cs) \<and> hd cs \<noteq> 0x3B \<and> hd cs \<noteq> 0x29 \<and> hd cs \<noteq> 0x2E"
    using s by (simp add: white_cases)
qed (simp_all add: white_cases)

lemma not_pair_end: "\<not> is_DList e \<Longrightarrow> stands_for codec valid h x e \<Longrightarrow> \<not> CONSP x"
  by (erule stands_for.cases)
    (auto simp: MAKE_BOOL_def MAKE_CHAR_def symbol_is_def string_is_def elim!: misc_cell.elims)

lemma reads_datum: "datum_ok codec valid d \<Longrightarrow> reads_as codec valid syms d \<and> starts_ok (show_datum d)"
proof (induction d)
  case (DList ds e)
  have els: "\<forall>d \<in> set ds. reads_as codec valid syms d \<and> starts_ok (show_datum d)" using DList by auto
  have e: "e \<noteq> DNull \<Longrightarrow> reads_as codec valid syms e" "\<not> is_DList e" "ds \<noteq> []" using DList by auto
  have "reads_as codec valid syms (DList ds e)"
    unfolding reads_as_def
  proof (intro allI impI)
    fix A st ws rest
    assume st: "rd_ok A st" "spaces ws" "ends_token rest" "holds codec valid (rd_port st) (ws @ show_datum (DList ds e) @ rest)"
    have h: "holds codec valid (rd_port st) (ws @ 0x28 # body_text (List.map show_datum ds) (tail_end e) @ rest)"
      using st(4) by (simp add: tail_end_def)
    have "ends_as codec valid syms ds e" unfolding ends_as_def using e not_pair_end by blast
    from reads_list [OF els this st(1,2) h]
    obtain x st' where "reader codec syms Sexpression st = Some (Inr (x, st'))"
        "list_read codec valid A (rd_heap st) st' x ds e" "holds codec valid (rd_port st') rest" by blast
    then show "\<exists>x st'. reader codec syms Sexpression st = Some (Inr (x, st')) \<and> rd_ok A st' \<and>
        heap_le (rd_heap st) (rd_heap st') \<and> holds codec valid (rd_port st') rest \<and>
        stands_for codec valid (hide A (rd_heap st')) x (DList ds e)"
      using list_readD by blast
  qed
  moreover have "starts_ok (show_datum (DList ds e))" by (simp add: starts_ok_def white_cases)
  ultimately show ?case by blast
next
  case (DVec ds)
  then show ?case using reads_vec [of ds] by (auto simp: starts_ok_def white_cases)
next
  case (DInt i)
  then show ?case using reads_int int_starts by auto
next
  case (DChar c)
  then show ?case using reads_char by (auto simp: starts_ok_def white_cases char_text_def)
next
  case (DSym cs)
  then show ?case using reads_symbol symbol_starts by auto
qed (simp_all add: reads_null reads_bool reads_char reads_string reads_bytes starts_ok_def white_cases)

end

section \<open>Reading from a port\<close>

lemma port_holds_le: "port_holds codec valid h ps port cs \<Longrightarrow> heap_le h h' \<Longrightarrow> port_holds codec valid h' ps port cs"
proof -
  assume p: "port_holds codec valid h ps port cs" and le: "heap_le h h'"
  obtain m where m: "PORT_IMPL h port \<noteq> 0" "impls ps (PORT_IMPL h port) = Some m" "holds codec valid m cs"
    using p unfolding port_holds_def by blast
  obtain i f where c: "misc_cell h port = Some (PortCell i f)" using m(1) by (auto split: option.splits cell.splits)
  then have "PORT_IMPL h' port = PORT_IMPL h port" using misc_cell_le [OF c le] by simp
  then show ?thesis using m unfolding port_holds_def by metis
qed

context reader_codec begin

lemma scm_read_datum:
  assumes "datum_ok codec valid d" "brk_ok h" "symtab_ok h tab" "spaces ws" "ends_token rest"
    "port_holds codec valid h ps port (ws @ show_datum d @ rest)"
  shows "\<exists>x h' tab' ps'. scm_read codec syms h tab ps port = Some (Inr (x, h', tab', ps')) \<and>
    stands_for codec valid h' x d \<and> port_holds codec valid h' ps' port rest \<and>
    heap_le h h' \<and> brk_ok h' \<and> symtab_ok h' tab'"
proof -
  obtain m where m: "PORT_IMPL h port \<noteq> 0" "impls ps (PORT_IMPL h port) = Some m"
      "holds codec valid m (ws @ show_datum d @ rest)"
    using assms(6) unfolding port_holds_def by blast
  have live: "SCM_ENSURE_LIVE_PORT h ps port = Inr m"
    using m(1,2) by (simp only: SCM_ENSURE_LIVE_PORT_def if_False option.case)
  let ?st = "\<lparr>rd_heap = h, rd_tab = tab, rd_port = m\<rparr>"
  have ok: "rd_ok {} ?st" using assms(2,3) by (simp add: rd_ok_def)
  have h: "holds codec valid (rd_port ?st) (ws @ show_datum d @ rest)" using m(3) by simp
  obtain x st where r: "reader codec syms Sexpression ?st = Some (Inr (x, st))" "rd_ok {} st"
      "heap_le (rd_heap ?st) (rd_heap st)" "holds codec valid (rd_port st) rest"
      "stands_for codec valid (hide {} (rd_heap st)) x d"
    by (rule reads_asD [OF conjunct1 [OF reads_datum [OF assms(1)]] ok assms(4,5) h])
  let ?ps = "set_impl h ps port (rd_port st)"
  have "scm_read codec syms h tab ps port = Some (Inr (x, rd_heap st, rd_tab st, ?ps))"
    using r(1) by (simp add: scm_read_def live read_sexpression_def)
  moreover have "port_holds codec valid h ?ps port rest"
    using m(1) r(4) unfolding port_holds_def set_impl_def
    by (intro exI [of _ "rd_port st"]) (simp del: PORT_IMPL.simps)
  ultimately show ?thesis using r(2,3,5) port_holds_le by (auto simp: rd_ok_def)
qed

end

text \<open>C14: \<^verbatim>\<open>read\<close> reads back the external representation of every datum - booleans, integers, characters,
  symbols of any length, strings, bytevectors, and proper or dotted lists and vectors of them, nested to
  any depth - that is \<open>datum_ok\<close> (characters the codec can encode, symbols that are plain tokens, strings without NUL,
  ESC and DEL), under every codec and after any white space: it returns an object that stands for the datum,
  leaves exactly the text behind it in the port, changes no cell that existed, and keeps the symbol
  table well-formed.\<close>

theorem read_text_correct:
  assumes "(codec, valid) \<in> set codec_domains" "datum_ok codec valid d" "brk_ok h" "symtab_ok h tab"
    "spaces ws" "ends_token rest" "port_holds codec valid h ps port (ws @ show_datum d @ rest)"
  shows "\<exists>x h' tab' ps'. scm_read codec syms h tab ps port = Some (Inr (x, h', tab', ps')) \<and>
    stands_for codec valid h' x d \<and> port_holds codec valid h' ps' port rest \<and>
    heap_le h h' \<and> brk_ok h' \<and> symtab_ok h' tab'"
  by (rule reader_codec.scm_read_datum [OF codec_domains_reader [OF assms(1)] assms(2-7)])

definition reading_heap :: heap where
  "reading_heap = \<lparr>mem = [0 \<mapsto> PortCell 1 0], brk = 1\<rparr>"

definition reading_ports :: "ichar list \<Rightarrow> ports" where
  "reading_ports cs = \<lparr>impls = [1 \<mapsto> scm_make_char_port utf8_codec_vtbl (ScmInputStrPort_new_const (encode_str utf8_codec_vtbl cs))],
     next_impl = 2, scm_in = SCM_FALSE, scm_out = SCM_FALSE, scm_err = SCM_FALSE\<rparr>"

lemma reading_port_holds:
  "\<forall>c \<in> set cs. utf8_valid c \<and> c \<noteq> 0 \<Longrightarrow>
     port_holds utf8_codec_vtbl utf8_valid reading_heap (reading_ports cs) (Ptr PTAG_MISC 0) cs"
  using utf8_port.new_port_holds [of cs]
  by (simp add: port_holds_def reading_heap_def reading_ports_def)

text \<open>The text \<^verbatim>\<open>(a . "b")\<close>.\<close>

lemma read_text_correct_witness:
  "\<forall>syms. \<exists>x h' tab' ps'. scm_read utf8_codec_vtbl syms reading_heap \<lparr>scm_symbol_hash = [SCM_NULL], scm_symbol_hash_size = 1\<rparr>
      (reading_ports [0x20, 0x28, 0x61, 0x20, 0x2E, 0x20, 0x22, 0x62, 0x22, 0x29]) (Ptr PTAG_MISC 0) =
        Some (Inr (x, h', tab', ps')) \<and>
     stands_for utf8_codec_vtbl utf8_valid h' x (DList [DSym [0x61]] (DStr [0x62]))"
proof
  fix syms
  let ?d = "DList [DSym [0x61]] (DStr [0x62])"
  let ?tab = "\<lparr>scm_symbol_hash = [SCM_NULL], scm_symbol_hash_size = 1\<rparr>"
  have d: "datum_ok utf8_codec_vtbl utf8_valid ?d"
    by (simp add: symbol_text_ok_def token_char_def delimiterp_def class_eval class_defs utf8_valid_def word_sle_eq)
  have t: "[0x20] @ show_datum ?d @ [] = [0x20, 0x28, 0x61, 0x20, 0x2E, 0x20, 0x22, 0x62, 0x22, 0x29]"
    by (simp add: escape_char_def word_sless_alt)
  have "brk_ok reading_heap" by (simp add: brk_ok_def reading_heap_def)
  moreover have "symtab_ok reading_heap ?tab"
    by (simp add: symtab_ok_def bucket_ok_def UINT32_MAX_def exI [of _ "[]"])
  moreover have "port_holds utf8_codec_vtbl utf8_valid reading_heap
      (reading_ports ([0x20] @ show_datum ?d @ [])) (Ptr PTAG_MISC 0) ([0x20] @ show_datum ?d @ [])"
    unfolding t by (rule reading_port_holds) (simp add: utf8_valid_def word_sle_eq)
  moreover have "spaces [0x20]" "ends_token []" by (simp_all add: ends_token_def)
  ultimately show "\<exists>x h' tab' ps'. scm_read utf8_codec_vtbl syms reading_heap ?tab
      (reading_ports [0x20, 0x28, 0x61, 0x20, 0x2E, 0x20, 0x22, 0x62, 0x22, 0x29]) (Ptr PTAG_MISC 0) = Some (Inr (x, h', tab', ps')) \<and>
     stands_for utf8_codec_vtbl utf8_valid h' x ?d"
    using read_text_correct [OF utf8_in_domains d, of reading_heap ?tab "[0x20]" "[]"] unfolding t by blast
qed

end
