(* ===== verification/Format.thy ===== *)
theory Format
  imports Reader
begin

text \<open>
  Formatted output: \<^verbatim>\<open>src/format.c\<close> and the \<^verbatim>\<open>format\<close> procedures of SRFI 28 and SRFI 48, in the
  configuration with all format features and without reals.

  The position in a format string is the rest of its bytes, read with the current codec. Arguments are a
  list of C values, the \<^verbatim>\<open>va_list\<close>, or a Scheme list. The printers of \<^verbatim>\<open>src/write.c\<close>, which use the
  raw C directives themselves, and the evaluator behind \<^verbatim>\<open>pretty-print\<close> are a parameter, a record of
  functions. A \<^verbatim>\<open>va_list\<close> that does not have an argument of the type that a directive takes is
  undefined in C; it is the error \<open>aborted\<close> here.
\<close>

section \<open>Format strings and arguments\<close>

definition FORMAT_STR_READ :: "codec_vtbl \<Rightarrow> byte list \<Rightarrow> (ichar \<times> byte list) res" where
  "FORMAT_STR_READ codec fmt = map_sum Err id (scm_charcodec_read_char codec fmt)"

definition FORMAT_STR_SKIP_CHAR :: "codec_vtbl \<Rightarrow> byte list \<Rightarrow> byte list res" where
  "FORMAT_STR_SKIP_CHAR codec fmt = and_then (FORMAT_STR_READ codec fmt) (\<lambda>(_, fmt). Inr fmt)"

definition format_str_peek :: "codec_vtbl \<Rightarrow> byte list \<Rightarrow> ichar res" where
  "format_str_peek codec fmt = (if fmt = [] then Inr 0 else and_then (FORMAT_STR_READ codec fmt) (\<lambda>(c, _). Inr c))"

datatype c_arg = C_int "64 word" | C_char ichar | C_str "byte list" | C_ptr "64 word" | C_obj obj

datatype format_args = ARG_VA_LIST "c_arg list" | ARG_SCM_LIST obj

definition MUST_POP_ARG :: "heap \<Rightarrow> obj \<Rightarrow> (obj \<times> obj) res" where
  "MUST_POP_ARG h lst = (if CONSP lst then Inr (CAR h lst, CDR h lst) else Inl (Err ''missing argument(s)''))"

fun POP_FORMAT_ARG :: "heap \<Rightarrow> format_args \<Rightarrow> (obj \<times> format_args) res" where
  "POP_FORMAT_ARG h (ARG_VA_LIST (C_obj x # va)) = Inr (x, ARG_VA_LIST va)"
| "POP_FORMAT_ARG h (ARG_VA_LIST va) = Inl aborted"
| "POP_FORMAT_ARG h (ARG_SCM_LIST lst) = and_then (MUST_POP_ARG h lst) (\<lambda>(x, lst). Inr (x, ARG_SCM_LIST lst))"

definition SCM_FMT_RAW_C :: nat where "SCM_FMT_RAW_C = 1"
definition SCM_FMT_SRFI28 :: nat where "SCM_FMT_SRFI28 = 2"
definition SCM_FMT_SRFI48_ADDENDUM :: nat where "SCM_FMT_SRFI48_ADDENDUM = 4"
definition SCM_FMT_LEADING_ZEROS :: nat where "SCM_FMT_LEADING_ZEROS = 8"
definition SCM_FMT_PREFIXED_RADIX :: nat where "SCM_FMT_PREFIXED_RADIX = 16"
definition SCM_FMT_SRFI48 :: nat where "SCM_FMT_SRFI48 = SCM_FMT_SRFI28 OR SCM_FMT_SRFI48_ADDENDUM"
definition SCM_FMT_SSCM_ADDENDUM :: nat where
  "SCM_FMT_SSCM_ADDENDUM = SCM_FMT_LEADING_ZEROS OR SCM_FMT_PREFIXED_RADIX"
definition SCM_FMT_SSCM :: nat where "SCM_FMT_SSCM = SCM_FMT_SRFI48 OR SCM_FMT_SSCM_ADDENDUM"

lemmas fmt_caps = SCM_FMT_RAW_C_def SCM_FMT_SRFI28_def SCM_FMT_SRFI48_ADDENDUM_def SCM_FMT_LEADING_ZEROS_def
  SCM_FMT_PREFIXED_RADIX_def SCM_FMT_SRFI48_def SCM_FMT_SSCM_ADDENDUM_def SCM_FMT_SSCM_def

section \<open>Number prefixes\<close>

fun read_width_loop :: "codec_vtbl \<Rightarrow> nat \<Rightarrow> byte list \<Rightarrow> byte list \<Rightarrow> (byte list \<times> byte list) res" where
  "read_width_loop codec room buf fmt =
     and_then (format_str_peek codec fmt) (\<lambda>c.
       if \<not> ICHAR_NUMERICP c then Inr (buf, fmt)
       else case room of
           0 \<Rightarrow> Inr (buf, fmt)
         | Suc room \<Rightarrow> and_then (FORMAT_STR_SKIP_CHAR codec fmt) (\<lambda>fmt. read_width_loop codec room (buf @ [uchar c]) fmt))"

declare read_width_loop.simps [simp del]

text \<open>The buffer has room for four digits.\<close>

definition read_width :: "codec_vtbl \<Rightarrow> byte list \<Rightarrow> (int \<times> byte list) res" where
  "read_width codec fmt =
     and_then (read_width_loop codec 4 [] fmt) (\<lambda>(buf, fmt).
       case scm_string2number buf 10 of (n, err) \<Rightarrow>
         let ret = (if err then -1 else n)
         in if ret > 127 then Inl (Err ''too much column width'') else Inr (ret, fmt))"

definition read_number_prefix :: "codec_vtbl \<Rightarrow> nat \<Rightarrow> byte list \<Rightarrow> (value_format \<times> byte list) res" where
  "read_number_prefix codec fcap fmt =
     and_then (format_str_peek codec fmt) (\<lambda>c.
     and_then (if c = 0x30 \<and> fcap AND SCM_FMT_LEADING_ZEROS \<noteq> 0
               then and_then (FORMAT_STR_SKIP_CHAR codec fmt) (\<lambda>fmt.
                 Inr (SCM_VALUE_FORMAT_INIT\<lparr>pad := 0x30, width := 0\<rparr>, fmt))
               else Inr (SCM_VALUE_FORMAT_INIT, fmt)) (\<lambda>(vfmt, fmt).
     and_then (read_width codec fmt) (\<lambda>(w, fmt).
     let vfmt = vfmt\<lparr>width := w\<rparr> in
     and_then (format_str_peek codec fmt) (\<lambda>c.
       if c = 0x2C then
         (if width vfmt < 0 then Inl (Err ''invalid escape sequence'')
          else and_then (FORMAT_STR_SKIP_CHAR codec fmt) (\<lambda>fmt.
            and_then (read_width codec fmt) (\<lambda>(fw, fmt).
              if fw < 0 then Inl (Err ''invalid escape sequence'') else Inr (vfmt\<lparr>frac_width := fw\<rparr>, fmt))))
       else Inr (vfmt, fmt)))))"

section \<open>Output\<close>

record fstate =
  f_heap :: heap
  f_ports :: ports
  f_str :: "byte list"
  f_args :: format_args

definition fmt_puts :: "obj \<Rightarrow> byte list \<Rightarrow> fstate \<Rightarrow> fstate res option" where
  "fmt_puts port str st =
     Some (and_then (scm_port_puts (f_heap st) (f_ports st) port str) (\<lambda>ps. Inr (st\<lparr>f_ports := ps\<rparr>)))"

definition fmt_put_char :: "obj \<Rightarrow> ichar \<Rightarrow> fstate \<Rightarrow> fstate res option" where
  "fmt_put_char port c st =
     Some (and_then (scm_port_put_char (f_heap st) (f_ports st) port c) (\<lambda>ps. Inr (st\<lparr>f_ports := ps\<rparr>)))"

definition fmt_newline :: "obj \<Rightarrow> fstate \<Rightarrow> fstate res option" where
  "fmt_newline port st =
     Some (and_then (scm_port_newline (f_heap st) (f_ports st) port) (\<lambda>ps. Inr (st\<lparr>f_ports := ps\<rparr>)))"

fun fmt_spaces :: "obj \<Rightarrow> nat \<Rightarrow> fstate \<Rightarrow> fstate res option" where
  "fmt_spaces port 0 st = Some (Inr st)"
| "fmt_spaces port (Suc n) st = run_then (fmt_put_char port 0x20 st) (\<lambda>st. fmt_spaces port n st)"

definition format_int :: "obj \<Rightarrow> value_format \<Rightarrow> 64 word \<Rightarrow> int \<Rightarrow> fstate \<Rightarrow> fstate res option" where
  "format_int port vfmt n radix st = Option.bind (scm_int2string vfmt n radix) (\<lambda>str. fmt_puts port str st)"

section \<open>Raw C directives\<close>

text \<open>The unsigned and the signed reading of an argument.\<close>

definition int_arg :: "64 word \<Rightarrow> 64 word \<times> 64 word" where
  "int_arg w = (ucast (ucast w :: 32 word), scast (ucast w :: 32 word))"

definition size_modifier :: "ichar \<Rightarrow> (64 word \<Rightarrow> 64 word \<times> 64 word) option" where
  "size_modifier c =
     (if c = 0x57 then Some int_arg
      else if c \<in> {0x4D, 0x4C, 0x51, 0x4A, 0x54, 0x5A} then Some (\<lambda>w. (w, w))
      else None)"

definition int_radix :: "ichar \<Rightarrow> (int \<times> bool) option" where
  "int_radix c =
     (if c = 0x55 then Some (10, False) else if c = 0x44 then Some (10, True)
      else if c = 0x58 then Some (16, False) else if c = 0x4F then Some (8, False)
      else if c = 0x42 then Some (2, False) else None)"

fun va_int :: "format_args \<Rightarrow> (64 word \<times> format_args) res" where
  "va_int (ARG_VA_LIST (C_int w # va)) = Inr (w, ARG_VA_LIST va)" | "va_int _ = Inl aborted"
fun va_char :: "format_args \<Rightarrow> (ichar \<times> format_args) res" where
  "va_char (ARG_VA_LIST (C_char c # va)) = Inr (c, ARG_VA_LIST va)" | "va_char _ = Inl aborted"
fun va_ptr :: "format_args \<Rightarrow> (64 word \<times> format_args) res" where
  "va_ptr (ARG_VA_LIST (C_ptr p # va)) = Inr (p, ARG_VA_LIST va)" | "va_ptr _ = Inl aborted"
fun va_str :: "format_args \<Rightarrow> (byte list \<times> format_args) res" where
  "va_str (ARG_VA_LIST (C_str s # va)) = Inr (c_str s, ARG_VA_LIST va)" | "va_str _ = Inl aborted"

definition format_raw_c_int ::
    "codec_vtbl \<Rightarrow> obj \<Rightarrow> value_format \<Rightarrow> ichar \<Rightarrow> byte list \<Rightarrow> fstate \<Rightarrow> (ichar \<times> fstate) res option" where
  "format_raw_c_int codec port vfmt c fmt st =
     run_then (Some (case size_modifier c of
           None \<Rightarrow> Inr (None, c, fmt, f_args st)
         | Some m \<Rightarrow> and_then (va_int (f_args st)) (\<lambda>(w, args).
             and_then (FORMAT_STR_SKIP_CHAR codec fmt) (\<lambda>fmt.
               and_then (format_str_peek codec fmt) (\<lambda>c. Inr (Some (m w), c, fmt, args)))))) (\<lambda>(modified, c, fmt, args).
       case int_radix c of
         None \<Rightarrow> Some (Inr (0, st\<lparr>f_args := args\<rparr>))
       | Some (radix, signed_radix) \<Rightarrow>
           run_then (Some (and_then (FORMAT_STR_SKIP_CHAR codec fmt) (\<lambda>fmt.
               case modified of
                 None \<Rightarrow> and_then (va_int args) (\<lambda>(w, args). Inr (int_arg w, fmt, args))
               | Some un_n \<Rightarrow> Inr (un_n, fmt, args)))) (\<lambda>((un, n), fmt, args).
             let vfmt = (if signed_radix then vfmt else vfmt\<lparr>signedp := False\<rparr>) in
             run_then (format_int port vfmt (if signedp vfmt then n else un) radix (st\<lparr>f_str := fmt, f_args := args\<rparr>))
               (\<lambda>st. Some (Inr (c, st)))))"

text \<open>The value is the last character written, or zero when no raw C directive was found.\<close>

definition format_raw_c_directive :: "codec_vtbl \<Rightarrow> obj \<Rightarrow> fstate \<Rightarrow> (ichar \<times> fstate) res option" where
  "format_raw_c_directive codec port st =
     run_then (Some (format_str_peek codec (f_str st))) (\<lambda>c.
       if c = 0x43 then
         run_then (Some (and_then (FORMAT_STR_SKIP_CHAR codec (f_str st)) (\<lambda>fmt.
             and_then (va_char (f_args st)) (\<lambda>(c, args). Inr (c, fmt, args))))) (\<lambda>(c, fmt, args).
           run_then (fmt_put_char port c (st\<lparr>f_str := fmt, f_args := args\<rparr>)) (\<lambda>st.
             Some (Inr (if c = 0 then 0x20 else c, st))))
       else if c = 0x50 then
         run_then (Some (FORMAT_STR_SKIP_CHAR codec (f_str st))) (\<lambda>fmt.
         run_then (fmt_puts port [0x30, 0x78] st) (\<lambda>st.
         run_then (Some (va_ptr (f_args st))) (\<lambda>(p, args).
         run_then (format_int port \<lparr>width = 16, frac_width = -1, pad = 0x30, signedp = False\<rparr> p 16
             (st\<lparr>f_str := fmt, f_args := args\<rparr>)) (\<lambda>st.
           Some (Inr (c, st))))))
       else run_then (Some (read_number_prefix codec (SCM_FMT_RAW_C OR SCM_FMT_SSCM_ADDENDUM) (f_str st))) (\<lambda>(vfmt, fmt).
         run_then (Some (format_str_peek codec fmt)) (\<lambda>c.
           if c = 0x53 then
             run_then (Some (and_then (FORMAT_STR_SKIP_CHAR codec fmt) (\<lambda>fmt.
                 and_then (va_str (f_args st)) (\<lambda>(str, args). Inr (str, fmt, args))))) (\<lambda>(str, fmt, args).
               Option.bind (scm_mb_bare_c_strlen codec str) (\<lambda>str_len.
               run_then (fmt_spaces port (nat (width vfmt - int str_len)) (st\<lparr>f_str := fmt, f_args := args\<rparr>)) (\<lambda>st.
               run_then (fmt_puts port str st) (\<lambda>st.
                 Some (Inr (if str \<noteq> [] then scast (last str) else c, st))))))
           else format_raw_c_int codec port vfmt c fmt st)))"

section \<open>Directives of SRFI 28 and SRFI 48\<close>

record printers =
  pr_display :: "heap \<Rightarrow> ports \<Rightarrow> obj \<Rightarrow> obj \<Rightarrow> ports res option"
  pr_write :: "heap \<Rightarrow> ports \<Rightarrow> obj \<Rightarrow> obj \<Rightarrow> ports res option"
  pr_write_ss :: "heap \<Rightarrow> ports \<Rightarrow> obj \<Rightarrow> obj \<Rightarrow> ports res option"
  l_sym_pretty_print :: obj
  pr_call :: "heap \<Rightarrow> ports \<Rightarrow> obj \<Rightarrow> obj list \<Rightarrow> (heap \<times> ports) res option"
  pr_help :: "bool \<Rightarrow> byte list"

fun FUNC_TYPECODE :: "heap \<Rightarrow> obj \<Rightarrow> nat option" where
  "FUNC_TYPECODE h x = (case misc_cell h x of Some (FuncCell type _) \<Rightarrow> Some type | _ \<Rightarrow> None)"

definition SCM_FUNCTYPE_SYNTAX :: nat where "SCM_FUNCTYPE_SYNTAX = 16"

definition SYNTAXP :: "heap \<Rightarrow> obj \<Rightarrow> bool" where
  "SYNTAXP h x \<longleftrightarrow> (case FUNC_TYPECODE h x of None \<Rightarrow> False | Some type \<Rightarrow> type AND SCM_FUNCTYPE_SYNTAX \<noteq> 0)"

fun CONTINUATIONP :: "heap \<Rightarrow> obj \<Rightarrow> bool" where
  "CONTINUATIONP h x = (case misc_cell h x of Some (ContinuationCell _ _) \<Rightarrow> True | _ \<Rightarrow> False)"

definition PROCEDUREP :: "heap \<Rightarrow> obj \<Rightarrow> bool" where
  "PROCEDUREP h x \<longleftrightarrow> (case FUNC_TYPECODE h x of None \<Rightarrow> False | Some type \<Rightarrow> type AND SCM_FUNCTYPE_SYNTAX = 0) \<or>
     CLOSUREP x \<or> CONTINUATIONP h x"

definition ENSURE_PROCEDURE :: "heap \<Rightarrow> obj \<Rightarrow> unit res" where
  "ENSURE_PROCEDURE h x = (if PROCEDUREP h x then Inr () else Inl (ErrObj ''procedure required but got'' x))"

definition LISTP :: "obj \<Rightarrow> bool" where "LISTP x \<longleftrightarrow> CONSP x \<or> NULLP x"

definition ENSURE_LIST :: "obj \<Rightarrow> unit res" where
  "ENSURE_LIST x = (if LISTP x then Inr () else Inl (ErrObj ''list required but got'' x))"

definition pop_arg :: "fstate \<Rightarrow> (obj \<times> fstate) res option" where
  "pop_arg st = Some (and_then (POP_FORMAT_ARG (f_heap st) (f_args st)) (\<lambda>(x, args). Inr (x, st\<lparr>f_args := args\<rparr>)))"

definition print_arg ::
    "(heap \<Rightarrow> ports \<Rightarrow> obj \<Rightarrow> obj \<Rightarrow> ports res option) \<Rightarrow> obj \<Rightarrow> fstate \<Rightarrow> fstate res option" where
  "print_arg print port st =
     run_then (pop_arg st) (\<lambda>(x, st). run_then (print (f_heap st) (f_ports st) port x) (\<lambda>ps. Some (Inr (st\<lparr>f_ports := ps\<rparr>))))"

definition print_int_arg :: "obj \<Rightarrow> value_format \<Rightarrow> int \<Rightarrow> fstate \<Rightarrow> fstate res option" where
  "print_int_arg port vfmt radix st =
     run_then (pop_arg st) (\<lambda>(x, st). run_then (Some (ENSURE_INT x)) (\<lambda>_.
       format_int port vfmt (word_of_int (SCM_INT_VALUE x)) radix st))"

text \<open>How a directive ends: at \<open>fin\<close>, with the flag of an end of line, or with a format string and its
  arguments still to run.\<close>

datatype directive_end = Fin bool | Indirect "byte list" obj

definition fin :: "bool \<Rightarrow> fstate res option \<Rightarrow> (directive_end \<times> fstate) res option" where
  "fin eolp m = run_then m (\<lambda>st. Some (Inr (Fin eolp, st)))"

definition fixed_directive :: "printers \<Rightarrow> obj \<Rightarrow> value_format \<Rightarrow> fstate \<Rightarrow> fstate res option" where
  "fixed_directive prn port vfmt st =
     run_then (pop_arg st) (\<lambda>(x, st).
       if STRINGP (f_heap st) x then
         run_then (fmt_spaces port (nat (width vfmt - STRING_LEN (f_heap st) x)) st) (\<lambda>st.
         run_then (pr_display prn (f_heap st) (f_ports st) port x) (\<lambda>ps. Some (Inr (st\<lparr>f_ports := ps\<rparr>))))
       else if INTP x then format_int port vfmt (word_of_int (SCM_INT_VALUE x)) 10 st
       else Some (Inl (ErrObj ''number or string required but got'' x)))"

definition pretty_directive :: "printers \<Rightarrow> obj \<Rightarrow> fstate \<Rightarrow> fstate res option" where
  "pretty_directive prn port st =
     Option.bind (scm_toplevel_value (f_heap st) (l_sym_pretty_print prn) SCM_NULL) (\<lambda>proc.
       if proc = SCM_UNBOUND then print_arg (pr_write prn) port st
       else run_then (Some (ENSURE_PROCEDURE (f_heap st) proc)) (\<lambda>_.
         run_then (pop_arg st) (\<lambda>(x, st).
         run_then (pr_call prn (f_heap st) (f_ports st) proc [x, port]) (\<lambda>(h, ps).
           Some (Inr (st\<lparr>f_heap := h, f_ports := ps\<rparr>))))))"

definition indirect_directive :: "fstate \<Rightarrow> (directive_end \<times> fstate) res option" where
  "indirect_directive st =
     run_then (pop_arg st) (\<lambda>(fmt, st). run_then (Some (ENSURE_STRING (f_heap st) fmt)) (\<lambda>_.
     run_then (pop_arg st) (\<lambda>(args, st). run_then (Some (ENSURE_LIST args)) (\<lambda>_.
       Some (Inr (Indirect (STRING_STR (f_heap st) fmt) args, st))))))"

definition srfi48_radix :: "byte \<Rightarrow> int" where
  "srfi48_radix directive =
     (if directive = 0x64 then 10 else if directive = 0x78 then 16 else if directive = 0x6F then 8
      else if directive = 0x62 then 2 else -1)"

definition char_directive :: "obj \<Rightarrow> fstate \<Rightarrow> fstate res option" where
  "char_directive port st =
     run_then (pop_arg st) (\<lambda>(x, st). run_then (Some (ENSURE_CHAR x)) (\<lambda>_. fmt_put_char port (CHAR_VALUE x) st))"

definition format_srfi28 :: "printers \<Rightarrow> obj \<Rightarrow> byte \<Rightarrow> fstate \<Rightarrow> (directive_end \<times> fstate) res option option" where
  "format_srfi28 prn port directive st =
     (if directive = 0x61 then Some (fin False (print_arg (pr_display prn) port st))
      else if directive = 0x73 then Some (fin False (print_arg (pr_write prn) port st))
      else if directive = 0x25 then Some (fin True (fmt_newline port st))
      else if directive = 0x7E then Some (fin False (fmt_put_char port 0x7E st))
      else None)"

definition format_srfi48 ::
    "printers \<Rightarrow> obj \<Rightarrow> ichar \<Rightarrow> nat \<Rightarrow> byte \<Rightarrow> fstate \<Rightarrow> (directive_end \<times> fstate) res option option" where
  "format_srfi48 prn port last_ch fcap directive st =
     (if directive = 0x77 then Some (fin False (print_arg (pr_write_ss prn) port st))
      else if directive = 0x79 then Some (fin False (pretty_directive prn port st))
      else if directive = 0x6B \<or> directive = 0x3F then Some (indirect_directive st)
      else if directive = 0x63 then Some (fin False (char_directive port st))
      else if directive = 0x74 then Some (fin False (fmt_put_char port 0x09 st))
      else if directive = 0x5F then Some (fin False (fmt_put_char port 0x20 st))
      else if directive = 0x26 then Some (fin True (if last_ch \<noteq> 0x0A then fmt_newline port st else Some (Inr st)))
      else if directive = 0x68 then
        Some (fin False (fmt_puts port (pr_help prn (fcap AND SCM_FMT_SSCM_ADDENDUM \<noteq> 0)) st))
      else None)"

text \<open>\<^verbatim>\<open>directive\<close> is a \<^verbatim>\<open>char\<close>: a character beyond it is cut to its low byte.\<close>

definition format_directive ::
    "codec_vtbl \<Rightarrow> printers \<Rightarrow> obj \<Rightarrow> ichar \<Rightarrow> nat \<Rightarrow> fstate \<Rightarrow> (byte \<times> directive_end \<times> fstate) res option" where
  "format_directive codec prn port last_ch fcap st =
     run_then (Some (read_number_prefix codec fcap (f_str st))) (\<lambda>(vfmt, fmt).
     let prefixedp = (fmt \<noteq> f_str st); st = st\<lparr>f_str := fmt\<rparr> in
     run_then (Some (format_str_peek codec fmt)) (\<lambda>c.
     let directive = uchar (ICHAR_DOWNCASE c);
         radix = srfi48_radix directive;
         ret = (\<lambda>m. run_then m (\<lambda>(e, st). Some (Inr (directive, e, st))))
     in if fcap AND SCM_FMT_SRFI48_ADDENDUM \<noteq> 0 \<and> directive = 0x66 then ret (fin False (fixed_directive prn port vfmt st))
        else if fcap AND SCM_FMT_SRFI48_ADDENDUM \<noteq> 0 \<and> radix > 0 \<and> (\<not> prefixedp \<or> fcap AND SCM_FMT_PREFIXED_RADIX \<noteq> 0)
          then ret (fin False (print_int_arg port vfmt radix st))
        else if prefixedp then Some (Inl (Err ''invalid prefix for directive''))
        else case (if fcap AND SCM_FMT_SRFI28 \<noteq> 0 then format_srfi28 prn port directive st else None) of
            Some m \<Rightarrow> ret m
          | None \<Rightarrow>
              (case (if fcap AND SCM_FMT_SRFI48_ADDENDUM \<noteq> 0 then format_srfi48 prn port last_ch fcap directive st
                     else None) of
                 Some m \<Rightarrow> ret m
               | None \<Rightarrow> Some (Inl (Err ''invalid escape sequence'')))))"

section \<open>Format strings\<close>

definition ensure_args_used :: "format_args \<Rightarrow> unit res" where
  "ensure_args_used args = (case args of ARG_SCM_LIST lst \<Rightarrow> ENSURE_NO_MORE_ARG lst | ARG_VA_LIST _ \<Rightarrow> Inr ())"

text \<open>The loop over the format string of \<^verbatim>\<open>format_internal\<close>.\<close>

partial_function (option) format_loop ::
    "codec_vtbl \<Rightarrow> printers \<Rightarrow> obj \<Rightarrow> nat \<Rightarrow> ichar \<Rightarrow> fstate \<Rightarrow> fstate res option" where
  "format_loop codec prn port fcap last_c st =
     (if f_str st = [] then Some (Inr st)
      else run_then (Some (FORMAT_STR_READ codec (f_str st))) (\<lambda>(c, fmt).
        let st = st\<lparr>f_str := fmt\<rparr> in
        if c = 0x7E then
          run_then (if fcap AND SCM_FMT_RAW_C \<noteq> 0 then format_raw_c_directive codec port st else Some (Inr (0, st)))
            (\<lambda>(handled, st).
            if handled \<noteq> 0 then format_loop codec prn port fcap handled st
            else if fcap AND (SCM_FMT_SRFI28 OR SCM_FMT_SRFI48 OR SCM_FMT_SSCM) \<noteq> 0 then
              run_then (format_directive codec prn port last_c fcap st) (\<lambda>(directive, e, st).
              run_then (case e of
                  Fin eolp \<Rightarrow> Some (Inr st)
                | Indirect indirect_fmt indirect_args \<Rightarrow>
                    run_then (format_loop codec prn port (drop_flag fcap SCM_FMT_RAW_C) 0
                        (st\<lparr>f_str := c_str indirect_fmt, f_args := ARG_SCM_LIST indirect_args\<rparr>)) (\<lambda>st'.
                      run_then (Some (ensure_args_used (f_args st'))) (\<lambda>_.
                        Some (Inr (st\<lparr>f_heap := f_heap st', f_ports := f_ports st'\<rparr>))))) (\<lambda>st.
              run_then (Some (FORMAT_STR_SKIP_CHAR codec (f_str st))) (\<lambda>fmt.
                format_loop codec prn port fcap (if e = Fin True then 0x0A else scast directive) (st\<lparr>f_str := fmt\<rparr>))))
            else Some (Inl aborted))
        else run_then (fmt_put_char port c st) (\<lambda>st. format_loop codec prn port fcap c st)))"

definition format_internal ::
    "codec_vtbl \<Rightarrow> printers \<Rightarrow> heap \<Rightarrow> ports \<Rightarrow> obj \<Rightarrow> nat \<Rightarrow> byte list \<Rightarrow> format_args \<Rightarrow> (obj \<times> heap \<times> ports) res option" where
  "format_internal codec prn h ps port fcap fmt args =
     run_then (Some (if port = SCM_FALSE then
           (case scm_p_srfi6_open_output_string codec h ps of (port, h, ps) \<Rightarrow> Inr (port, True, h, ps))
         else if port = SCM_TRUE then Inr (scm_out ps, False, h, ps)
         else if \<not> PORTP h port then Inl (ErrObj ''port or boolean required but got'' port)
         else Inr (port, False, h, ps))) (\<lambda>(port, implicit_portp, h, ps).
     run_then (format_loop codec prn port fcap 0 \<lparr>f_heap = h, f_ports = ps, f_str = c_str fmt, f_args = args\<rparr>) (\<lambda>st.
     run_then (Some (ensure_args_used (f_args st))) (\<lambda>_.
       if implicit_portp then
         run_then (scm_p_srfi6_get_output_string codec (f_heap st) (f_ports st) port) (\<lambda>(str, h).
           Some (Inr (str, h, f_ports st)))
       else Some (Inr (SCM_UNDEF, f_heap st, f_ports st)))))"

definition scm_lformat ::
    "codec_vtbl \<Rightarrow> printers \<Rightarrow> heap \<Rightarrow> ports \<Rightarrow> obj \<Rightarrow> nat \<Rightarrow> byte list \<Rightarrow> obj \<Rightarrow> (obj \<times> heap \<times> ports) res option" where
  "scm_lformat codec prn h ps port fcap fmt scm_args = format_internal codec prn h ps port fcap fmt (ARG_SCM_LIST scm_args)"

definition scm_format ::
    "codec_vtbl \<Rightarrow> printers \<Rightarrow> heap \<Rightarrow> ports \<Rightarrow> obj \<Rightarrow> nat \<Rightarrow> byte list \<Rightarrow> c_arg list \<Rightarrow> (obj \<times> heap \<times> ports) res option" where
  "scm_format codec prn h ps port fcap fmt args = format_internal codec prn h ps port fcap fmt (ARG_VA_LIST args)"

definition scm_p_srfi28_format ::
    "codec_vtbl \<Rightarrow> printers \<Rightarrow> heap \<Rightarrow> ports \<Rightarrow> obj \<Rightarrow> obj \<Rightarrow> (obj \<times> heap \<times> ports) res option" where
  "scm_p_srfi28_format codec prn h ps fmt objs =
     check (ENSURE_STRING h fmt) (\<lambda>_. scm_lformat codec prn h ps SCM_FALSE SCM_FMT_SRFI28 (STRING_STR h fmt) objs)"

definition srfi48_format_internal ::
    "codec_vtbl \<Rightarrow> printers \<Rightarrow> heap \<Rightarrow> ports \<Rightarrow> nat \<Rightarrow> obj \<Rightarrow> obj \<Rightarrow> (obj \<times> heap \<times> ports) res option" where
  "srfi48_format_internal codec prn h ps fcap fmt_or_port rest =
     run_then (Some (if STRINGP h fmt_or_port then Inr (SCM_FALSE, fmt_or_port, rest)
         else and_then (MUST_POP_ARG h rest) (\<lambda>(fmt, rest).
           and_then (ENSURE_STRING h fmt) (\<lambda>_. Inr (fmt_or_port, fmt, rest))))) (\<lambda>(port, fmt, objs).
       scm_lformat codec prn h ps port fcap (STRING_STR h fmt) objs)"

definition scm_p_srfi48_format ::
    "codec_vtbl \<Rightarrow> printers \<Rightarrow> heap \<Rightarrow> ports \<Rightarrow> obj \<Rightarrow> obj \<Rightarrow> (obj \<times> heap \<times> ports) res option" where
  "scm_p_srfi48_format codec prn h ps fmt_or_port rest =
     srfi48_format_internal codec prn h ps SCM_FMT_SRFI48 fmt_or_port rest"

definition scm_p_formatplus ::
    "codec_vtbl \<Rightarrow> printers \<Rightarrow> heap \<Rightarrow> ports \<Rightarrow> obj \<Rightarrow> obj \<Rightarrow> (obj \<times> heap \<times> ports) res option" where
  "scm_p_formatplus codec prn h ps fmt_or_port rest =
     srfi48_format_internal codec prn h ps SCM_FMT_SSCM fmt_or_port rest"

end
