(* ===== verification/Writer.thy ===== *)
theory Writer
  imports Format Datum Equal Compact
begin

text \<open>
  The writer, \<^verbatim>\<open>src/write.c\<close> with shared structures, and the procedures \<^verbatim>\<open>write\<close>, \<^verbatim>\<open>display\<close> and
  \<^verbatim>\<open>write/ss\<close>.

  What the writer reads is a record: the heap, the current codec, the symbol table, the markers of records
  and error objects and the word of every object, which the hash table and the notation of pointers
  use. What it changes are the ports and the context of the labels. The functions of the writer are one
  partial function over the point of the code it runs, and so are the mutually recursive functions of
  the hash table and those of the scan for shared objects; \<open>None\<close> is a run that does not return.
\<close>

section \<open>State\<close>

datatype ScmOutputType = AS_WRITE | AS_DISPLAY

record scm_hash_entry =
  ent_key :: obj
  ent_datum :: int

record scm_hash_table =
  ht_size :: nat
  ht_used :: nat
  ht_ents :: "scm_hash_entry list"

record scm_write_ss_context =
  ss_seen :: scm_hash_table
  next_index :: int
  cycles_only :: bool
  labeled :: bool

record write_env =
  we_heap :: heap
  scm_current_char_codec :: codec_vtbl
  we_symtab :: symtab
  we_srfi9 :: srfi9_state
  l_err_obj_tag :: obj
  we_word :: "obj \<Rightarrow> 64 word"

record wstate =
  w_ports :: ports
  l_write_ss_ctx :: "scm_write_ss_context option"

section \<open>The hash table\<close>

definition DEFINING_DATUM :: int where "DEFINING_DATUM = -1"
definition NONDEFINING_DATUM :: int where "NONDEFINING_DATUM = 0"
definition SCANNING_DATUM :: int where "SCANNING_DATUM = -2"

definition OCCUPIED :: "scm_hash_entry \<Rightarrow> bool" where "OCCUPIED ent \<longleftrightarrow> ent_key ent \<noteq> SCM_INVALID"

definition hash_value :: "64 word \<Rightarrow> 64 word" where
  "hash_value key = ((key div 16) AND 0xFFFFFFFF) * 2654435761"

text \<open>The slots in the order in which they are probed, and the first one that is free or has the key.\<close>

definition probe_slots :: "nat \<Rightarrow> 64 word \<Rightarrow> nat list" where
  "probe_slots sz hashval = List.map (\<lambda>i. unat ((hashval + word_of_nat i) AND (word_of_nat sz - 1))) [0..<sz]"

definition hash_probe :: "scm_hash_table \<Rightarrow> 64 word \<Rightarrow> obj \<Rightarrow> nat option" where
  "hash_probe tab hashval key =
     List.find (\<lambda>j. \<not> OCCUPIED (ht_ents tab ! j) \<or> ent_key (ht_ents tab ! j) = key) (probe_slots (ht_size tab) hashval)"

definition empty_table :: "nat \<Rightarrow> scm_hash_table" where
  "empty_table sz = \<lparr>ht_size = sz, ht_used = 0, ht_ents = replicate sz \<lparr>ent_key = SCM_INVALID, ent_datum = 0\<rparr>\<rparr>"

definition overpopulated :: "scm_hash_table \<Rightarrow> bool" where
  "overpopulated tab \<longleftrightarrow> ht_used tab * 3 > ht_size tab * 2"

text \<open>A lookup, with the flag \<^verbatim>\<open>HASH_INSERT\<close>, or the entries that \<^verbatim>\<open>hash_grow\<close> has still to insert. The
  value is the index of the entry that a lookup returns.\<close>

datatype hash_point = Lookup obj int bool | Reinsert "scm_hash_entry list"

partial_function (option) hash_run ::
    "(obj \<Rightarrow> 64 word) \<Rightarrow> scm_hash_table \<Rightarrow> hash_point \<Rightarrow> (nat option \<times> scm_hash_table) res option" where
  "hash_run word tab point =
     (case point of
        Lookup key datum ins \<Rightarrow>
          (case hash_probe tab (hash_value (word key)) key of
             None \<Rightarrow> Some (Inl aborted)
           | Some j \<Rightarrow>
               if OCCUPIED (ht_ents tab ! j) then Some (Inr (Some j, tab))
               else if ins then
                 (let tab = tab\<lparr>ht_ents := (ht_ents tab)[j := \<lparr>ent_key = key, ent_datum = datum\<rparr>],
                                ht_used := Suc (ht_used tab)\<rparr>
                  in if overpopulated tab
                     then run_then (hash_run word (empty_table (ht_size tab * 2)) (Reinsert (ht_ents tab))) (\<lambda>(_, tab).
                       Some (Inr (None, tab)))
                     else Some (Inr (None, tab)))
               else Some (Inr (None, tab)))
      | Reinsert old_ents \<Rightarrow>
          (case old_ents of
             [] \<Rightarrow> Some (Inr (None, tab))
           | ent # ents \<Rightarrow>
               run_then (hash_run word tab (Lookup (ent_key ent) (ent_datum ent) True)) (\<lambda>(_, tab).
                 hash_run word tab (Reinsert ents))))"

definition hash_lookup ::
    "(obj \<Rightarrow> 64 word) \<Rightarrow> scm_hash_table \<Rightarrow> obj \<Rightarrow> int \<Rightarrow> bool \<Rightarrow> (nat option \<times> scm_hash_table) res option" where
  "hash_lookup word tab key datum ins = hash_run word tab (Lookup key datum ins)"

definition hash_grow :: "(obj \<Rightarrow> 64 word) \<Rightarrow> scm_hash_table \<Rightarrow> (nat option \<times> scm_hash_table) res option" where
  "hash_grow word tab = hash_run word (empty_table (ht_size tab * 2)) (Reinsert (ht_ents tab))"

definition set_datum :: "scm_hash_table \<Rightarrow> nat \<Rightarrow> int \<Rightarrow> scm_hash_table" where
  "set_datum tab j d = tab\<lparr>ht_ents := (ht_ents tab)[j := (ht_ents tab ! j)\<lparr>ent_datum := d\<rparr>]\<rparr>"

section \<open>The scan for shared objects\<close>

definition ERROBJP :: "write_env \<Rightarrow> obj \<Rightarrow> bool" where
  "ERROBJP env x \<longleftrightarrow> CONSP x \<and> CAR (we_heap env) x = l_err_obj_tag env"

fun VALUEPACKETP :: "heap \<Rightarrow> obj \<Rightarrow> bool" where
  "VALUEPACKETP h x = (case misc_cell h x of Some (ValuePacketCell _) \<Rightarrow> True | _ \<Rightarrow> False)"

fun VALUEPACKET_VALUES :: "heap \<Rightarrow> obj \<Rightarrow> obj" where
  "VALUEPACKET_VALUES h x = (case misc_cell h x of Some (ValuePacketCell v) \<Rightarrow> v | _ \<Rightarrow> SCM_INVALID)"

fun CLOSURE_EXP :: "heap \<Rightarrow> obj \<Rightarrow> obj" where
  "CLOSURE_EXP h (Ptr PTAG_CLOSURE a) = fst (pair_at h a)"
| "CLOSURE_EXP h _ = SCM_INVALID"

definition INTERESTINGP :: "write_env \<Rightarrow> obj \<Rightarrow> bool" where
  "INTERESTINGP env x \<longleftrightarrow> CONSP x \<or> STRINGP (we_heap env) x \<and> STRING_LEN (we_heap env) x \<noteq> 0 \<or> CLOSUREP x \<or>
     VECTORP (we_heap env) x \<or> VALUEPACKETP (we_heap env) x \<or> ERROBJP env x"

text \<open>The parts of an error object: the reason and the objects.\<close>

definition errobj_parts :: "heap \<Rightarrow> obj \<Rightarrow> (obj \<times> obj) res" where
  "errobj_parts h x =
     and_then (MUST_POP_ARG h x) (\<lambda>(_, x).
     and_then (MUST_POP_ARG h x) (\<lambda>(reason, x).
     and_then (MUST_POP_ARG h x) (\<lambda>(objs, x).
     and_then (MUST_POP_ARG h x) (\<lambda>(_, x).
     and_then (MUST_POP_ARG h x) (\<lambda>(_, x).
     and_then (ENSURE_NO_MORE_ARG x) (\<lambda>_. Inr (reason, objs)))))))"

definition write_ss_seenp :: "write_env \<Rightarrow> obj \<Rightarrow> scm_write_ss_context \<Rightarrow> (bool \<times> scm_write_ss_context) res option" where
  "write_ss_seenp env x ctx =
     run_then (hash_lookup (we_word env) (ss_seen ctx) x (if cycles_only ctx then SCANNING_DATUM else NONDEFINING_DATUM) True)
       (\<lambda>(ent, tab).
       case ent of
         None \<Rightarrow> Some (Inr (False, ctx\<lparr>ss_seen := tab\<rparr>))
       | Some j \<Rightarrow>
           if \<not> cycles_only ctx \<or> ent_datum (ht_ents tab ! j) = SCANNING_DATUM
           then Some (Inr (True, ctx\<lparr>ss_seen := set_datum tab j DEFINING_DATUM, labeled := True\<rparr>))
           else Some (Inr (True, ctx\<lparr>ss_seen := tab\<rparr>)))"

definition write_ss_scanned :: "write_env \<Rightarrow> obj \<Rightarrow> scm_write_ss_context \<Rightarrow> scm_write_ss_context res option" where
  "write_ss_scanned env x ctx =
     (if cycles_only ctx then
        run_then (hash_lookup (we_word env) (ss_seen ctx) x 0 False) (\<lambda>(ent, tab).
          case ent of
            None \<Rightarrow> Some (Inl aborted)
          | Some j \<Rightarrow>
              if ent_datum (ht_ents tab ! j) = SCANNING_DATUM
              then Some (Inr (ctx\<lparr>ss_seen := set_datum tab j NONDEFINING_DATUM\<rparr>))
              else Some (Inr (ctx\<lparr>ss_seen := tab\<rparr>)))
      else Some (Inr ctx))"

fun scanned_pairs :: "write_env \<Rightarrow> nat \<Rightarrow> obj \<Rightarrow> scm_write_ss_context \<Rightarrow> scm_write_ss_context res option" where
  "scanned_pairs env 0 rest ctx = Some (Inr ctx)"
| "scanned_pairs env (Suc n) rest ctx =
     run_then (write_ss_scanned env rest ctx) (\<lambda>ctx. scanned_pairs env n (CDR (we_heap env) rest) ctx)"

text \<open>What is scanned below an object that is not a pair.\<close>

definition scan_parts :: "write_env \<Rightarrow> obj \<Rightarrow> obj list" where
  "scan_parts env x =
     (let h = we_heap env in
      if CLOSUREP x then [CLOSURE_EXP h x]
      else if VALUEPACKETP h x then [VALUEPACKET_VALUES h x]
      else if VECTORP h x then
        (if scm_recordp (we_srfi9 env) h x \<or> scm_record_typep (we_srfi9 env) h x then [] else VECTOR_VEC h x)
      else [])"

text \<open>An object, the loop over the pairs of a list with their number, or the parts of an object.\<close>

datatype scan_point = Scan obj | Scan_pairs obj obj nat | Scan_all "obj list"

partial_function (option) scan_run ::
    "write_env \<Rightarrow> scm_write_ss_context \<Rightarrow> scan_point \<Rightarrow> scm_write_ss_context res option" where
  "scan_run env ctx point =
     (case point of
        Scan x \<Rightarrow>
          if ERROBJP env x then
            run_then (Some (errobj_parts (we_heap env) x)) (\<lambda>(reason, objs).
              run_then (scan_run env ctx (Scan reason)) (\<lambda>ctx. scan_run env ctx (Scan objs)))
          else scan_run env ctx (Scan_pairs x x 0)
      | Scan_pairs x rest n_pairs \<Rightarrow>
          if CONSP rest then
            run_then (write_ss_seenp env rest ctx) (\<lambda>(seen, ctx).
              if seen then (if cycles_only ctx then scanned_pairs env n_pairs x ctx else Some (Inr ctx))
              else run_then (scan_run env ctx (Scan (CAR (we_heap env) rest))) (\<lambda>ctx.
                scan_run env ctx (Scan_pairs x (CDR (we_heap env) rest) (Suc n_pairs))))
          else
            run_then (if INTERESTINGP env rest \<and> \<not> (cycles_only ctx \<and> \<not> VECTORP (we_heap env) rest)
                then run_then (write_ss_seenp env rest ctx) (\<lambda>(seen, ctx).
                  if seen then Some (Inr ctx)
                  else run_then (scan_run env ctx (Scan_all (scan_parts env rest))) (\<lambda>ctx. write_ss_scanned env rest ctx))
                else Some (Inr ctx)) (\<lambda>ctx.
              if cycles_only ctx then scanned_pairs env n_pairs x ctx else Some (Inr ctx))
      | Scan_all xs \<Rightarrow>
          (case xs of
             [] \<Rightarrow> Some (Inr ctx)
           | x # xs \<Rightarrow> run_then (scan_run env ctx (Scan x)) (\<lambda>ctx. scan_run env ctx (Scan_all xs))))"

definition write_ss_scan :: "write_env \<Rightarrow> obj \<Rightarrow> scm_write_ss_context \<Rightarrow> scm_write_ss_context res option" where
  "write_ss_scan env x ctx = scan_run env ctx (Scan x)"

text \<open>The index of a defined datum, its negative when it is defined now, or zero.\<close>

definition get_shared_index :: "write_env \<Rightarrow> obj \<Rightarrow> wstate \<Rightarrow> (int \<times> wstate) res option" where
  "get_shared_index env x st =
     (case l_write_ss_ctx st of
        None \<Rightarrow> Some (Inr (0, st))
      | Some ctx \<Rightarrow>
          run_then (hash_lookup (we_word env) (ss_seen ctx) x 0 False) (\<lambda>(ent, tab).
            case ent of
              None \<Rightarrow> Some (Inr (0, st))
            | Some j \<Rightarrow>
                if ent_datum (ht_ents tab ! j) = DEFINING_DATUM
                then Some (Inr (- next_index ctx, st\<lparr>l_write_ss_ctx := Some (ctx\<lparr>
                       ss_seen := set_datum tab j (next_index ctx), next_index := next_index ctx + 1\<rparr>)\<rparr>))
                else Some (Inr (ent_datum (ht_ents tab ! j), st))))"

section \<open>Output\<close>

definition w_puts :: "write_env \<Rightarrow> obj \<Rightarrow> byte list \<Rightarrow> wstate \<Rightarrow> wstate res option" where
  "w_puts env port str st =
     Some (and_then (scm_port_puts (we_heap env) (w_ports st) port str) (\<lambda>ps. Inr (st\<lparr>w_ports := ps\<rparr>)))"

definition w_put_char :: "write_env \<Rightarrow> obj \<Rightarrow> ichar \<Rightarrow> wstate \<Rightarrow> wstate res option" where
  "w_put_char env port c st =
     Some (and_then (scm_port_put_char (we_heap env) (w_ports st) port c) (\<lambda>ps. Inr (st\<lparr>w_ports := ps\<rparr>)))"

fun w_put_chars :: "write_env \<Rightarrow> obj \<Rightarrow> nat \<Rightarrow> ichar \<Rightarrow> wstate \<Rightarrow> wstate res option" where
  "w_put_chars env port 0 c st = Some (Inr st)"
| "w_put_chars env port (Suc n) c st = run_then (w_put_char env port c st) (\<lambda>st. w_put_chars env port n c st)"

text \<open>\<^verbatim>\<open>scm_format\<close> with raw C directives only, which calls no printer.\<close>

definition no_printers :: printers where
  "no_printers = \<lparr>pr_display = (\<lambda>_ _ _ _. None), pr_write = (\<lambda>_ _ _ _. None), pr_write_ss = (\<lambda>_ _ _ _. None),
     l_sym_pretty_print = SCM_INVALID, pr_call = (\<lambda>_ _ _ _. None), pr_help = (\<lambda>_. [])\<rparr>"

definition w_format :: "write_env \<Rightarrow> obj \<Rightarrow> string \<Rightarrow> c_arg list \<Rightarrow> wstate \<Rightarrow> wstate res option" where
  "w_format env port fmt args st =
     run_then (scm_format (scm_current_char_codec env) no_printers (we_heap env) (w_ports st) port SCM_FMT_RAW_C
         (bytes_of_string fmt) args) (\<lambda>(_, _, ps). Some (Inr (st\<lparr>w_ports := ps\<rparr>)))"

definition w_str :: "write_env \<Rightarrow> obj \<Rightarrow> string \<Rightarrow> wstate \<Rightarrow> wstate res option" where
  "w_str env port str st = w_puts env port (bytes_of_string str) st"

section \<open>Atoms\<close>

definition write_int :: "write_env \<Rightarrow> obj \<Rightarrow> int \<Rightarrow> wstate \<Rightarrow> wstate res option" where
  "write_int env port n st = w_puts env port (int_text 10 n) st"

definition write_symbol :: "write_env \<Rightarrow> obj \<Rightarrow> obj \<Rightarrow> wstate \<Rightarrow> wstate res option" where
  "write_symbol env port symb st = w_puts env port (bytes_of_name (SYMBOL_NAME (we_heap env) symb)) st"

definition write_char :: "write_env \<Rightarrow> obj \<Rightarrow> obj \<Rightarrow> ScmOutputType \<Rightarrow> wstate \<Rightarrow> wstate res option" where
  "write_char env port x otype st =
     (let c = CHAR_VALUE x in
      if otype = AS_DISPLAY then w_put_char env port c st
      else run_then (w_puts env port [0x23, 0x5C] st) (\<lambda>st.
        case special_name c scm_special_char_table of
          Some lex_rep \<Rightarrow> w_puts env port lex_rep st
        | None \<Rightarrow>
            if ICHAR_CONTROLP c then w_format env port ''x~02MX'' [C_int (scast c)] st
            else w_put_char env port c st))"

text \<open>The escaped text of a string: the bytes that are left of it, and the buffer.\<close>

partial_function (option) write_string_loop :: "codec_vtbl \<Rightarrow> byte list \<Rightarrow> byte list \<Rightarrow> byte list res option" where
  "write_string_loop codec mbs buf =
     (if mbs = [] then Some (Inr buf)
      else run_then (Some (map_sum Err id (scm_charcodec_read_char codec mbs))) (\<lambda>(c, mbs').
        let ch = take (length mbs - length mbs') mbs
        in write_string_loop codec mbs'
          (buf @ (if c <s 0x20 \<or> c = 0x22 \<or> c = 0x5C \<or> c = 0x7F then
                    (case special_escape c scm_special_char_table of Some esc_seq \<Rightarrow> esc_seq | None \<Rightarrow> ch)
                  else ch))))"

definition write_string :: "write_env \<Rightarrow> obj \<Rightarrow> obj \<Rightarrow> ScmOutputType \<Rightarrow> wstate \<Rightarrow> wstate res option" where
  "write_string env port x otype st =
     (let str = STRING_STR (we_heap env) x in
      if otype = AS_DISPLAY then w_puts env port str st
      else run_then (Some (scm_port_codec (we_heap env) (w_ports st) port)) (\<lambda>codec.
        if encoding (scm_current_char_codec env) \<noteq> encoding codec then
          run_then (w_put_char env port 0x22 st) (\<lambda>st.
          run_then (w_puts env port str st) (\<lambda>st. w_put_char env port 0x22 st))
        else run_then (write_string_loop codec (c_str str) [0x22]) (\<lambda>buf. w_puts env port (buf @ [0x22]) st)))"

fun bytes_loop :: "write_env \<Rightarrow> obj \<Rightarrow> bool \<Rightarrow> byte list \<Rightarrow> wstate \<Rightarrow> wstate res option" where
  "bytes_loop env port first [] st = Some (Inr st)"
| "bytes_loop env port first (b # bs) st =
     run_then (if first then Some (Inr st) else w_put_char env port 0x20 st) (\<lambda>st.
     run_then (write_int env port (uint b) st) (\<lambda>st. bytes_loop env port False bs st))"

definition write_bytevector :: "write_env \<Rightarrow> obj \<Rightarrow> obj \<Rightarrow> wstate \<Rightarrow> wstate res option" where
  "write_bytevector env port bv st =
     run_then (w_str env port ''#u8('' st) (\<lambda>st.
     run_then (bytes_loop env port True (BYTEVECTOR_VEC (we_heap env) bv) st) (\<lambda>st. w_put_char env port 0x29 st))"

text \<open>What a port says of itself: its kind, its encoding and its bytes.\<close>

fun BYTEPORT_INSPECT :: "byteport \<Rightarrow> byte list" where
  "BYTEPORT_INSPECT (IStr p) = bytes_of_string ''string''"
| "BYTEPORT_INSPECT (OStr p) = bytes_of_string ''string''"

definition mbcport_inspect :: "mbcport \<Rightarrow> byte list" where
  "mbcport_inspect p =
     bytes_of_string ''mb'' @ [0x20] @ bytes_of_string (encoding (mbc_codec p)) @ [0x20] @ BYTEPORT_INSPECT (mbc_bport p)"

definition scm_port_inspect :: "heap \<Rightarrow> ports \<Rightarrow> obj \<Rightarrow> byte list res" where
  "scm_port_inspect h ps port = and_then (SCM_ENSURE_LIVE_PORT h ps port) (\<lambda>p. Inr (mbcport_inspect p))"

definition write_port :: "write_env \<Rightarrow> obj \<Rightarrow> obj \<Rightarrow> wstate \<Rightarrow> wstate res option" where
  "write_port env port x st =
     (let flag = PORT_FLAG (we_heap env) x in
      run_then (w_str env port ''#<'' st) (\<lambda>st.
      run_then (if flag AND SCM_PORTFLAG_INPUT \<noteq> 0 then w_put_char env port 0x69 st else Some (Inr st)) (\<lambda>st.
      run_then (if flag AND SCM_PORTFLAG_OUTPUT \<noteq> 0 then w_put_char env port 0x6F st else Some (Inr st)) (\<lambda>st.
      run_then (w_str env port ''port'' st) (\<lambda>st.
      run_then (Some (scm_port_inspect (we_heap env) (w_ports st) x)) (\<lambda>info.
      run_then (if info \<noteq> [] then run_then (w_put_char env port 0x20 st) (\<lambda>st. w_puts env port info st)
                else Some (Inr st)) (\<lambda>st.
        w_put_char env port 0x3E st)))))))"

definition write_constant :: "write_env \<Rightarrow> obj \<Rightarrow> obj \<Rightarrow> wstate \<Rightarrow> wstate res option" where
  "write_constant env port x st =
     (if x = SCM_NULL then w_str env port ''()'' st
      else if x = SCM_TRUE then w_str env port ''#t'' st
      else if x = SCM_FALSE then w_str env port ''#f'' st
      else if x = SCM_EOF then w_str env port ''#<eof>'' st
      else if x = SCM_UNBOUND then w_str env port ''#<unbound>'' st
      else if x = SCM_UNDEF then w_str env port ''#<undef>'' st
      else Some (Inl aborted))"

text \<open>The packed environments of a wrapped symbol, down to the symbol itself.\<close>

partial_function (option) farsymbol_loop :: "write_env \<Rightarrow> obj \<Rightarrow> obj \<Rightarrow> wstate \<Rightarrow> (obj \<times> wstate) res option" where
  "farsymbol_loop env port x st =
     (case misc_cell (we_heap env) x of
        Some (FarsymbolCell symb packed) \<Rightarrow>
          run_then (w_format env port '' ~MD '' [C_int (word_of_int packed)] st) (\<lambda>st. farsymbol_loop env port symb st)
      | _ \<Rightarrow> Some (Inr (x, st)))"

section \<open>Data\<close>

definition scm_record_type_name :: "srfi9_state \<Rightarrow> heap \<Rightarrow> obj \<Rightarrow> obj" where
  "scm_record_type_name s9 h x = VECTOR_VEC h (if scm_recordp s9 h x then VECTOR_VEC h x ! 1 else x) ! 1"

fun HMACRO_RULES :: "heap \<Rightarrow> obj \<Rightarrow> obj" where
  "HMACRO_RULES h x = (case misc_cell h x of Some (HmacroCell rules _) \<Rightarrow> rules | _ \<Rightarrow> SCM_INVALID)"

fun SUBPAT_OBJ :: "heap \<Rightarrow> obj \<Rightarrow> obj" where
  "SUBPAT_OBJ h x = (case misc_cell h x of Some (SubpatCell y _) \<Rightarrow> y | _ \<Rightarrow> SCM_INVALID)"

fun SUBPAT_META :: "heap \<Rightarrow> obj \<Rightarrow> int" where
  "SUBPAT_META h x = (case misc_cell h x of Some (SubpatCell _ meta) \<Rightarrow> meta | _ \<Rightarrow> 0)"

text \<open>The types of objects whose printing does not recur.\<close>

definition write_atom :: "write_env \<Rightarrow> obj \<Rightarrow> obj \<Rightarrow> ScmOutputType \<Rightarrow> wstate \<Rightarrow> wstate res option" where
  "write_atom env port x otype st =
     (let h = we_heap env; type = scm_type h x in
      if type = Some ScmInt then write_int env port (SCM_INT_VALUE x) st
      else if type = Some ScmSymbol then write_symbol env port x st
      else if type = Some ScmChar then write_char env port x otype st
      else if type = Some ScmString then write_string env port x otype st
      else if type = Some ScmBytevector then write_bytevector env port x st
      else if type = Some ScmPort then write_port env port x st
      else if type = Some ScmContinuation then w_format env port ''#<continuation ~P>'' [C_ptr (we_word env x)] st
      else if type = Some ScmConstant then write_constant env port x st
      else if type = Some ScmCPointer then
        w_format env port ''#<c_pointer ~P>'' [C_ptr (word_of_nat (C_POINTER_VALUE h x))] st
      else if type = Some ScmCFuncPointer then
        w_format env port ''#<c_func_pointer ~P>'' [C_ptr (word_of_nat (C_FUNCPOINTER_VALUE h x))] st
      else Some (Inl aborted))"

text \<open>The mutually recursive functions take the writer itself as an argument, a function of the point it
  goes on with: \<^verbatim>\<open>write_internal\<close>, \<^verbatim>\<open>write_obj\<close>, a list after an opening parenthesis with the number of
  parentheses to close, the elements of a vector, or the objects of an error object.\<close>

datatype write_point =
    W_internal ScmOutputType obj
  | W_obj ScmOutputType obj
  | W_elems ScmOutputType obj nat
  | W_vec ScmOutputType bool "obj list"
  | W_objs obj

type_synonym write_rec = "write_point \<Rightarrow> wstate \<Rightarrow> wstate res option"

definition open_list :: "write_env \<Rightarrow> obj \<Rightarrow> write_rec \<Rightarrow> obj \<Rightarrow> ScmOutputType \<Rightarrow> nat \<Rightarrow> wstate \<Rightarrow> wstate res option" where
  "open_list env port wr lst otype parens st =
     (if \<not> CONSP lst then Some (Inl aborted)
      else run_then (w_put_char env port 0x28 st) (\<lambda>st. wr (W_elems otype lst parens) st))"

definition write_list :: "write_env \<Rightarrow> obj \<Rightarrow> write_rec \<Rightarrow> obj \<Rightarrow> ScmOutputType \<Rightarrow> wstate \<Rightarrow> wstate res option" where
  "write_list env port wr lst otype st = open_list env port wr lst otype 1 st"

text \<open>The element at the front of a list, and what follows it.\<close>

definition write_elems :: "write_env \<Rightarrow> obj \<Rightarrow> write_rec \<Rightarrow> obj \<Rightarrow> ScmOutputType \<Rightarrow> nat \<Rightarrow> wstate \<Rightarrow> wstate res option" where
  "write_elems env port wr lst otype parens st =
     run_then (wr (W_obj otype (CAR (we_heap env) lst)) st) (\<lambda>st.
     let lst = CDR (we_heap env) lst in
     if \<not> CONSP lst then
       run_then (if \<not> NULLP lst then run_then (w_str env port '' . '' st) (\<lambda>st. wr (W_obj otype lst) st) else Some (Inr st))
         (\<lambda>st. w_put_chars env port parens 0x29 st)
     else run_then (w_put_char env port 0x20 st) (\<lambda>st.
       run_then (get_shared_index env lst st) (\<lambda>(index, st).
       if index > 0 then
         run_then (w_format env port ''. #~ZU#'' [C_int (word_of_int index)] st) (\<lambda>st. w_put_chars env port parens 0x29 st)
       else if index < 0 then
         run_then (w_format env port ''. #~ZU='' [C_int (word_of_int (- index))] st) (\<lambda>st.
           open_list env port wr lst otype (Suc parens) st)
       else wr (W_elems otype lst parens) st)))"

definition write_elements :: "write_env \<Rightarrow> obj \<Rightarrow> write_rec \<Rightarrow> bool \<Rightarrow> obj list \<Rightarrow> ScmOutputType \<Rightarrow> wstate \<Rightarrow> wstate res option" where
  "write_elements env port wr first v otype st =
     (case v of
        [] \<Rightarrow> Some (Inr st)
      | x # v \<Rightarrow>
          run_then (if first then Some (Inr st) else w_put_char env port 0x20 st) (\<lambda>st.
          run_then (wr (W_obj otype x) st) (\<lambda>st. wr (W_vec otype False v) st)))"

definition write_vector :: "write_env \<Rightarrow> obj \<Rightarrow> write_rec \<Rightarrow> obj \<Rightarrow> ScmOutputType \<Rightarrow> wstate \<Rightarrow> wstate res option" where
  "write_vector env port wr vec otype st =
     (let h = we_heap env; s9 = we_srfi9 env in
      if scm_recordp s9 h vec \<or> scm_record_typep s9 h vec then
        run_then (w_str env port (if scm_recordp s9 h vec then ''#<record '' else ''#<record-type '') st) (\<lambda>st.
        run_then (wr (W_obj otype (scm_record_type_name s9 h vec)) st) (\<lambda>st. w_put_char env port 0x3E st))
      else
        run_then (w_str env port ''#('' st) (\<lambda>st.
        run_then (wr (W_vec otype True (VECTOR_VEC h vec)) st) (\<lambda>st. w_put_char env port 0x29 st)))"

definition write_errobj :: "write_env \<Rightarrow> obj \<Rightarrow> write_rec \<Rightarrow> obj \<Rightarrow> ScmOutputType \<Rightarrow> wstate \<Rightarrow> wstate res option" where
  "write_errobj env port wr x otype st =
     run_then (Some (errobj_parts (we_heap env) x)) (\<lambda>(reason, objs).
     run_then (if otype = AS_WRITE
         then run_then (w_str env port ''#<error '' st) (\<lambda>st. wr (W_internal AS_WRITE reason) st)
         else wr (W_internal AS_DISPLAY reason) st) (\<lambda>st.
     run_then (wr (W_objs objs) st) (\<lambda>st.
       if otype = AS_WRITE then w_put_char env port 0x3E st else Some (Inr st))))"

definition write_objs :: "write_env \<Rightarrow> obj \<Rightarrow> write_rec \<Rightarrow> obj \<Rightarrow> wstate \<Rightarrow> wstate res option" where
  "write_objs env port wr objs st =
     (if CONSP objs then
        run_then (w_put_char env port 0x20 st) (\<lambda>st.
        run_then (wr (W_internal AS_WRITE (CAR (we_heap env) objs)) st) (\<lambda>st. wr (W_objs (CDR (we_heap env) objs)) st))
      else Some (Inr st))"

definition write_farsymbol :: "write_env \<Rightarrow> obj \<Rightarrow> write_rec \<Rightarrow> obj \<Rightarrow> wstate \<Rightarrow> wstate res option" where
  "write_farsymbol env port wr x st =
     run_then (w_str env port ''#<farsym'' st) (\<lambda>st.
     run_then (farsymbol_loop env port x st) (\<lambda>(symb, st).
     run_then (wr (W_internal AS_DISPLAY symb) st) (\<lambda>st. w_str env port ''>'' st)))"

definition write_func :: "write_env \<Rightarrow> obj \<Rightarrow> write_rec \<Rightarrow> obj \<Rightarrow> wstate \<Rightarrow> wstate res option" where
  "write_func env port wr x st =
     run_then (w_str env port (if SYNTAXP (we_heap env) x then ''#<syntax '' else ''#<subr '') st) (\<lambda>st.
     run_then (map_option Inr (scm_symbol_bound_to (we_heap env) (we_symtab env) x)) (\<lambda>symb.
     run_then (if symb \<noteq> SCM_FALSE then wr (W_internal AS_DISPLAY symb) st
               else w_format env port ''~P'' [C_ptr (we_word env x)] st) (\<lambda>st.
       w_put_char env port 0x3E st)))"

text \<open>The objects that are printed as one other object in a frame.\<close>

definition write_framed :: "write_env \<Rightarrow> obj \<Rightarrow> write_rec \<Rightarrow> string \<Rightarrow> obj \<Rightarrow> ScmOutputType \<Rightarrow> wstate \<Rightarrow> wstate res option" where
  "write_framed env port wr front x otype st =
     run_then (w_str env port front st) (\<lambda>st.
     run_then (wr (W_obj otype x) st) (\<lambda>st. w_put_char env port 0x3E st))"

definition write_subpat :: "write_env \<Rightarrow> obj \<Rightarrow> write_rec \<Rightarrow> obj \<Rightarrow> ScmOutputType \<Rightarrow> wstate \<Rightarrow> wstate res option" where
  "write_subpat env port wr x otype st =
     (if SUBPAT_META (we_heap env) x \<ge> 0 then wr (W_obj otype (SUBPAT_OBJ (we_heap env) x)) st
      else run_then (wr (W_obj otype (SUBPAT_OBJ (we_heap env) x)) st) (\<lambda>st. w_str env port '' ...'' st))"

definition write_type :: "write_env \<Rightarrow> obj \<Rightarrow> write_rec \<Rightarrow> obj \<Rightarrow> ScmOutputType \<Rightarrow> wstate \<Rightarrow> wstate res option" where
  "write_type env port wr x otype st =
     (let h = we_heap env; type = scm_type h x in
      if type = Some ScmCons then
        (if ERROBJP env x then write_errobj env port wr x otype st else write_list env port wr x otype st)
      else if type = Some ScmFunc then write_func env port wr x st
      else if type = Some ScmMacro then
        run_then (w_str env port ''#<macro '' st) (\<lambda>st.
        run_then (wr (W_obj otype (HMACRO_RULES h x)) st) (\<lambda>st. w_str env port ''>'' st))
      else if type = Some ScmFarsymbol then write_farsymbol env port wr x st
      else if type = Some ScmSubpat then write_subpat env port wr x otype st
      else if type = Some ScmClosure then write_framed env port wr ''#<closure '' (CLOSURE_EXP h x) otype st
      else if type = Some ScmVector then write_vector env port wr x otype st
      else if type = Some ScmValuePacket then write_framed env port wr ''#<values '' (VALUEPACKET_VALUES h x) otype st
      else write_atom env port x otype st)"

definition write_obj :: "write_env \<Rightarrow> obj \<Rightarrow> write_rec \<Rightarrow> obj \<Rightarrow> ScmOutputType \<Rightarrow> wstate \<Rightarrow> wstate res option" where
  "write_obj env port wr x otype st =
     run_then (if INTERESTINGP env x then get_shared_index env x st else Some (Inr (0, st))) (\<lambda>(index, st).
       if index > 0 then w_format env port ''#~ZU#'' [C_int (word_of_int index)] st
       else run_then (if index < 0 then w_format env port ''#~ZU='' [C_int (word_of_int (- index))] st else Some (Inr st))
         (\<lambda>st. write_type env port wr x otype st))"

definition write_internal :: "write_env \<Rightarrow> obj \<Rightarrow> write_rec \<Rightarrow> obj \<Rightarrow> ScmOutputType \<Rightarrow> wstate \<Rightarrow> wstate res option" where
  "write_internal env port wr x otype st =
     run_then (Some (ENSURE_PORT (we_heap env) port)) (\<lambda>_.
     run_then (Some (SCM_ENSURE_LIVE_PORT (we_heap env) (w_ports st) port)) (\<lambda>_.
     if PORT_FLAG (we_heap env) port AND SCM_PORTFLAG_OUTPUT = 0
     then Some (Inl (ErrObj ''output port required but got'' port))
     else run_then (wr (W_obj otype x) st) (\<lambda>st.
       Some (and_then (scm_port_flush (we_heap env) (w_ports st) port) (\<lambda>ps. Inr (st\<lparr>w_ports := ps\<rparr>))))))"

lemma case_prod_mono: "(\<And>a b. mono_option (\<lambda>f. g a b f)) \<Longrightarrow> mono_option (\<lambda>f. case p of (a, b) \<Rightarrow> g a b f)"
  by (cases p) simp

lemmas writer_mono = run_then_mono if_mono case_prod_mono option.const_mono let_mono

lemma write_mono [partial_function_mono]:
  assumes wr: "\<And>p st. mono_option (\<lambda>f. wr f p st)"
  shows "mono_option (\<lambda>f. open_list env port (wr f) lst otype parens st)"
    "mono_option (\<lambda>f. write_elems env port (wr f) lst otype parens st)"
    "mono_option (\<lambda>f. write_elements env port (wr f) first v otype st)"
    "mono_option (\<lambda>f. write_vector env port (wr f) lst otype st)"
    "mono_option (\<lambda>f. write_errobj env port (wr f) lst otype st)"
    "mono_option (\<lambda>f. write_objs env port (wr f) lst st)"
    "mono_option (\<lambda>f. write_farsymbol env port (wr f) lst st)"
    "mono_option (\<lambda>f. write_func env port (wr f) lst st)"
    "mono_option (\<lambda>f. write_framed env port (wr f) front lst otype st)"
    "mono_option (\<lambda>f. write_subpat env port (wr f) lst otype st)"
    "mono_option (\<lambda>f. write_type env port (wr f) lst otype st)"
    "mono_option (\<lambda>f. write_obj env port (wr f) lst otype st)"
    "mono_option (\<lambda>f. write_internal env port (wr f) lst otype st)"
proof -
  show open_list: "mono_option (\<lambda>f. open_list env port (wr f) lst otype parens st)" for lst otype parens st
    unfolding open_list_def by (intro writer_mono wr)
  show "mono_option (\<lambda>f. write_elems env port (wr f) lst otype parens st)"
    unfolding write_elems_def by (intro writer_mono wr open_list)
  show "mono_option (\<lambda>f. write_elements env port (wr f) first v otype st)"
  proof (cases v)
    case (Cons x xs)
    show ?thesis unfolding write_elements_def Cons list.case by (intro writer_mono wr)
  qed (simp add: write_elements_def option.const_mono)
  show vector: "mono_option (\<lambda>f. write_vector env port (wr f) lst otype st)" for lst otype st
    unfolding write_vector_def by (intro writer_mono wr)
  show errobj: "mono_option (\<lambda>f. write_errobj env port (wr f) lst otype st)" for lst otype st
    unfolding write_errobj_def by (intro writer_mono wr)
  show "mono_option (\<lambda>f. write_objs env port (wr f) lst st)"
    unfolding write_objs_def by (intro writer_mono wr)
  show far: "mono_option (\<lambda>f. write_farsymbol env port (wr f) lst st)" for lst st
    unfolding write_farsymbol_def by (intro writer_mono wr)
  show func: "mono_option (\<lambda>f. write_func env port (wr f) lst st)" for lst st
    unfolding write_func_def by (intro writer_mono wr)
  show framed: "mono_option (\<lambda>f. write_framed env port (wr f) front lst otype st)" for front lst otype st
    unfolding write_framed_def by (intro writer_mono wr)
  show subpat: "mono_option (\<lambda>f. write_subpat env port (wr f) lst otype st)" for lst otype st
    unfolding write_subpat_def by (intro writer_mono wr)
  show type: "mono_option (\<lambda>f. write_type env port (wr f) lst otype st)" for lst otype st
    unfolding write_type_def write_list_def
    by (intro writer_mono wr open_list vector errobj far func framed subpat)
  show "mono_option (\<lambda>f. write_obj env port (wr f) lst otype st)"
    unfolding write_obj_def by (intro writer_mono type)
  show "mono_option (\<lambda>f. write_internal env port (wr f) lst otype st)"
    unfolding write_internal_def by (intro writer_mono wr)
qed

partial_function (option) writer :: "write_env \<Rightarrow> obj \<Rightarrow> write_point \<Rightarrow> wstate \<Rightarrow> wstate res option" where
  "writer env port point st =
     (case point of
        W_internal otype x \<Rightarrow> write_internal env port (\<lambda>point st. writer env port point st) x otype st
      | W_obj otype x \<Rightarrow> write_obj env port (\<lambda>point st. writer env port point st) x otype st
      | W_elems otype lst parens \<Rightarrow> write_elems env port (\<lambda>point st. writer env port point st) lst otype parens st
      | W_vec otype first v \<Rightarrow> write_elements env port (\<lambda>point st. writer env port point st) first v otype st
      | W_objs objs \<Rightarrow> write_objs env port (\<lambda>point st. writer env port point st) objs st)"

definition scm_write :: "write_env \<Rightarrow> obj \<Rightarrow> obj \<Rightarrow> wstate \<Rightarrow> wstate res option" where
  "scm_write env port x st = writer env port (W_internal AS_WRITE x) st"

definition scm_display :: "write_env \<Rightarrow> obj \<Rightarrow> obj \<Rightarrow> wstate \<Rightarrow> wstate res option" where
  "scm_display env port x st = writer env port (W_internal AS_DISPLAY x) st"

definition write_ss_internal :: "write_env \<Rightarrow> obj \<Rightarrow> obj \<Rightarrow> ScmOutputType \<Rightarrow> bool \<Rightarrow> wstate \<Rightarrow> wstate res option" where
  "write_ss_internal env port x otype cycles st =
     run_then (write_ss_scan env x \<lparr>ss_seen = empty_table 32, next_index = 1, cycles_only = cycles, labeled = False\<rparr>) (\<lambda>ctx.
     run_then (writer env port (W_internal otype x) (if labeled ctx then st\<lparr>l_write_ss_ctx := Some ctx\<rparr> else st)) (\<lambda>st.
       Some (Inr (st\<lparr>l_write_ss_ctx := None\<rparr>))))"

definition scm_write_ss :: "write_env \<Rightarrow> obj \<Rightarrow> obj \<Rightarrow> wstate \<Rightarrow> wstate res option" where
  "scm_write_ss env port x st = write_ss_internal env port x AS_WRITE False st"

definition scm_display_errobj_ss :: "write_env \<Rightarrow> obj \<Rightarrow> obj \<Rightarrow> wstate \<Rightarrow> wstate res option" where
  "scm_display_errobj_ss env port x st = write_ss_internal env port x AS_DISPLAY False st"

definition write_procedure ::
    "(write_env \<Rightarrow> obj \<Rightarrow> obj \<Rightarrow> wstate \<Rightarrow> wstate res option) \<Rightarrow> write_env \<Rightarrow> obj \<Rightarrow> obj \<Rightarrow> wstate \<Rightarrow> (obj \<times> wstate) res option" where
  "write_procedure f env x args st =
     run_then (scm_prepare_port (we_heap env) args (scm_out (w_ports st))) (\<lambda>port.
     run_then (f env port x st) (\<lambda>st. Some (Inr (SCM_UNDEF, st))))"

definition scm_p_write :: "write_env \<Rightarrow> obj \<Rightarrow> obj \<Rightarrow> wstate \<Rightarrow> (obj \<times> wstate) res option" where
  "scm_p_write env x args st = write_procedure scm_write env x args st"

definition scm_p_display :: "write_env \<Rightarrow> obj \<Rightarrow> obj \<Rightarrow> wstate \<Rightarrow> (obj \<times> wstate) res option" where
  "scm_p_display env x args st = write_procedure scm_display env x args st"

definition scm_p_srfi38_write_with_shared_structure ::
    "write_env \<Rightarrow> obj \<Rightarrow> obj \<Rightarrow> wstate \<Rightarrow> (obj \<times> wstate) res option" where
  "scm_p_srfi38_write_with_shared_structure env x args st =
     (case (if CONSP args \<and> CONSP (CDR (we_heap env) args) then scm_make_cons (we_heap env) (CAR (we_heap env) args) SCM_NULL
            else (args, we_heap env)) of
        (args, h) \<Rightarrow> write_procedure scm_write_ss (env\<lparr>we_heap := h\<rparr>) x args st)"

end
