(* ===== verification/Printing.thy ===== *)
theory Printing
  imports Writer Readback
begin

text \<open>
  What the writer prints: an object that stands for a datum is printed as the text of the datum. With
  the reader this is the round trip of external representations.
\<close>

section \<open>Characters sent to an output string port\<close>

definition ascii_clean :: "byte list \<Rightarrow> bool" where "ascii_clean bs \<longleftrightarrow> (\<forall>b \<in> set bs. b \<noteq> 0 \<and> b < 0x80)"

lemma ascii_clean_simps [simp]:
  "ascii_clean []" "ascii_clean (b # bs) \<longleftrightarrow> b \<noteq> 0 \<and> b < 0x80 \<and> ascii_clean bs"
  "ascii_clean (bs @ bs') \<longleftrightarrow> ascii_clean bs \<and> ascii_clean bs'"
  by (auto simp: ascii_clean_def)

definition clean_chars :: "(ichar \<Rightarrow> bool) \<Rightarrow> ichar list \<Rightarrow> bool" where
  "clean_chars valid cs \<longleftrightarrow> (\<forall>c \<in> set cs. valid c \<and> c \<noteq> 0)"

lemma clean_chars_simps [simp]:
  "clean_chars valid []" "clean_chars valid (c # cs) \<longleftrightarrow> valid c \<and> c \<noteq> 0 \<and> clean_chars valid cs"
  "clean_chars valid (cs @ ds) \<longleftrightarrow> clean_chars valid cs \<and> clean_chars valid ds"
  by (auto simp: clean_chars_def)

lemma chars_of_simps [simp]: "chars_of [] = []" "chars_of (b # bs) = ucast b # chars_of bs"
  "chars_of (bs @ bs') = chars_of bs @ chars_of bs'"
  by (simp_all add: chars_of_def)

lemma ucast_byte_eq: "(ucast (b :: byte) :: ichar) = ucast c \<longleftrightarrow> b = c"
  by (metis uchar_ucast)

lemma byte_ne:
  "b \<noteq> 0x7E \<Longrightarrow> (ucast (b :: byte) :: ichar) \<noteq> 0x7E" "b \<noteq> 0x43 \<Longrightarrow> (ucast (b :: byte) :: ichar) \<noteq> 0x43"
  "b \<noteq> 0x50 \<Longrightarrow> (ucast (b :: byte) :: ichar) \<noteq> 0x50" "b \<noteq> 0x2C \<Longrightarrow> (ucast (b :: byte) :: ichar) \<noteq> 0x2C"
  using ucast_byte_eq [of b "0x7E"] ucast_byte_eq [of b "0x43"] ucast_byte_eq [of b "0x50"] ucast_byte_eq [of b "0x2C"]
  by simp_all

lemma ascii_char:
  assumes "b < (0x80 :: byte)"
  shows "0 \<le>s (ucast b :: ichar)" "(ucast b :: ichar) \<le>s 127" "b \<noteq> 0 \<Longrightarrow> (ucast b :: ichar) \<noteq> 0"
proof -
  have "unat b < 2 ^ 8" using unsigned_less [of b] by simp
  then have u: "unat (ucast b :: ichar) = unat b" by (simp add: unsigned_ucast_eq take_bit_nat_eq_self)
  have "unat b < 128" using assms by (simp add: word_less_nat_alt)
  then show "0 \<le>s (ucast b :: ichar)" "(ucast b :: ichar) \<le>s 127" using ascii_unat [of "ucast b"] u by auto
  show "(ucast b :: ichar) \<noteq> 0" if "b \<noteq> 0"
    using that u by (metis unat_eq_zero)
qed

context reader_codec begin

lemma encode_ascii: "ascii_clean bs \<Longrightarrow> encode_str codec (chars_of bs) = bs \<and> clean_chars valid (chars_of bs)"
proof (induction bs)
  case (Cons b bs)
  then have b: "b < 0x80" "b \<noteq> 0" by simp_all
  have "valid (ucast b) \<and> int2str codec (ucast b) = Some [b]"
    using ascii_encoded [OF ascii_char(1,2) [OF b(1)]] by (simp add: uchar_ucast)
  then show ?case using Cons ascii_char(3) [OF b] by (simp add: encode_str_Cons)
qed (simp add: encode_str_def)

lemma read_ascii:
  assumes "b < 0x80"
  shows "FORMAT_STR_READ codec (b # bs) = Inr (ucast b, bs)" "FORMAT_STR_SKIP_CHAR codec (b # bs) = Inr bs"
    "format_str_peek codec (b # bs) = Inr (ucast b)"
proof -
  have v: "valid (ucast b)" "int2str codec (ucast b) = Some [b]"
    using ascii_encoded [OF ascii_char(1,2) [OF assms]] by (simp_all add: uchar_ucast)
  show r: "FORMAT_STR_READ codec (b # bs) = Inr (ucast b, bs)"
    using read_char_encoded [OF v(1), of "[]" bs] v(2)
    by (simp add: FORMAT_STR_READ_def encode_str_Cons encode_str_def)
  then show "FORMAT_STR_SKIP_CHAR codec (b # bs) = Inr bs" "format_str_peek codec (b # bs) = Inr (ucast b)"
    by (simp_all add: FORMAT_STR_SKIP_CHAR_def format_str_peek_def and_then_def)
qed

lemma put_char_collects:
  assumes "port_collected codec h ps port cs" "valid c" "c \<noteq> 0"
  obtains ps' where "scm_port_put_char h ps port c = Inr ps'" "port_collected codec h ps' port (cs @ [c])"
proof -
  obtain ps' where "out_run codec h ps port [Write_char c] = Inr ps'" "port_collected codec h ps' port (cs @ [c])"
    using out_run_collects [OF assms(1), of "[Write_char c]"] assms(2,3) by auto
  then show thesis using that by (cases "scm_port_put_char h ps port c") (auto simp: and_then_def)
qed

lemma puts_collects:
  assumes "port_collected codec h ps port cs" "clean_chars valid ds"
  obtains ps' where "scm_port_puts h ps port (encode_str codec ds) = Inr ps'" "port_collected codec h ps' port (cs @ ds)"
proof -
  obtain ps' where "out_run codec h ps port [Display_str ds] = Inr ps'" "port_collected codec h ps' port (cs @ ds)"
    using out_run_collects [OF assms(1), of "[Display_str ds]"] assms(2) by (auto simp: clean_chars_def)
  then show thesis using that by (cases "scm_port_puts h ps port (encode_str codec ds)") (auto simp: and_then_def)
qed

lemma flush_collects:
  assumes "port_collected codec h ps port cs"
  obtains ps' where "scm_port_flush h ps port = Inr ps'" "port_collected codec h ps' port cs"
proof -
  obtain p q where p: "PORT_IMPL h port \<noteq> 0" "impls ps (PORT_IMPL h port) = Some p" "mbc_codec p = codec"
      "mbc_bport p = OStr q" "ostr_ok q" "ostr_text q = encode_str codec cs"
    using assms unfolding port_collected_def by blast
  have ni: "next_impl ps \<noteq> 0" using assms by (simp add: port_collected_def)
  have "SCM_ENSURE_LIVE_PORT h ps port = Inr p"
    using p(1,2) by (simp only: SCM_ENSURE_LIVE_PORT_def if_False option.case)
  then have "scm_port_flush h ps port = Inr (set_impl h ps port (p\<lparr>mbc_bport := OStr q\<rparr>))"
    using p(4) by (simp add: scm_port_flush_def basecport_flush_def and_then_def)
  moreover have "port_collected codec h (set_impl h ps port (p\<lparr>mbc_bport := OStr q\<rparr>)) port cs"
    using p ni unfolding port_collected_def set_impl_def by (simp del: PORT_IMPL.simps)
  ultimately show thesis by (rule that)
qed

end

section \<open>Steps of the writer\<close>

definition out_ok :: "codec_vtbl \<Rightarrow> write_env \<Rightarrow> obj \<Rightarrow> wstate \<Rightarrow> ichar list \<Rightarrow> bool" where
  "out_ok codec env port st cs \<longleftrightarrow>
     l_write_ss_ctx st = None \<and> port_collected codec (we_heap env) (w_ports st) port cs"

context reader_codec begin

lemma w_put_char_out:
  assumes "out_ok codec env port st cs" "valid c" "c \<noteq> 0"
  obtains st' where "w_put_char env port c st = Some (Inr st')" "out_ok codec env port st' (cs @ [c])"
proof -
  obtain ps' where "scm_port_put_char (we_heap env) (w_ports st) port c = Inr ps'"
      "port_collected codec (we_heap env) ps' port (cs @ [c])"
    using put_char_collects assms unfolding out_ok_def by metis
  then show thesis using that [of "st\<lparr>w_ports := ps'\<rparr>"] assms(1)
    by (simp add: w_put_char_def and_then_def out_ok_def)
qed

lemma w_puts_out:
  assumes "out_ok codec env port st cs" "clean_chars valid ds"
  obtains st' where "w_puts env port (encode_str codec ds) st = Some (Inr st')" "out_ok codec env port st' (cs @ ds)"
proof -
  obtain ps' where "scm_port_puts (we_heap env) (w_ports st) port (encode_str codec ds) = Inr ps'"
      "port_collected codec (we_heap env) ps' port (cs @ ds)"
    using puts_collects assms unfolding out_ok_def by metis
  then show thesis using that [of "st\<lparr>w_ports := ps'\<rparr>"] assms(1)
    by (simp add: w_puts_def and_then_def out_ok_def)
qed

lemma w_puts_ascii:
  assumes "out_ok codec env port st cs" "ascii_clean bs"
  obtains st' where "w_puts env port bs st = Some (Inr st')" "out_ok codec env port st' (cs @ chars_of bs)"
  using w_puts_out [OF assms(1), of "chars_of bs"] encode_ascii [OF assms(2)] by metis

lemma w_str_out:
  assumes "out_ok codec env port st cs" "ascii_clean (bytes_of_string s)"
  obtains st' where "w_str env port s st = Some (Inr st')" "out_ok codec env port st' (cs @ chars_of (bytes_of_string s))"
  using w_puts_ascii [OF assms] unfolding w_str_def by metis

lemma w_put_ascii:
  assumes "out_ok codec env port st cs" "0 \<le>s c" "c \<le>s 127" "c \<noteq> 0"
  obtains st' where "w_put_char env port c st = Some (Inr st')" "out_ok codec env port st' (cs @ [c])"
  using w_put_char_out [OF assms(1) _ assms(4)] ascii_encoded [OF assms(2,3)] by metis

end

section \<open>Atoms\<close>

lemma nat_digits_ascii: "2 \<le> b \<Longrightarrow> b \<le> 16 \<Longrightarrow> ascii_clean (nat_digits b n)"
proof -
  assume b: "2 \<le> b" "b \<le> 16"
  have "d < 0x80" if "digitp (int b) d" for d :: byte
    using that b by (auto simp: digitp_def digit_value_def word_le_def word_less_def split: if_splits)
  then show ?thesis using nat_digits_props [OF b, of n] unfolding ascii_clean_def by blast
qed

lemma int_text_ascii: "ascii_clean (int_text 10 i)"
  using nat_digits_ascii [of 10] by (simp add: int_text_def)

lemma hex2_printed:
  assumes "ICHAR_CONTROLP c"
  shows "scm_int2string \<lparr>width = 2, frac_width = -1, pad = 0x30, signedp = False\<rparr> (scast c) 16 = Some (hex2 c)"
proof -
  have r: "VALID_RADIXP 16" by (simp add: VALID_RADIXP_def)
  show ?thesis using control_cases [OF assms]
    by (elim insertE emptyE)
      (simp_all add: scm_int2string_eq [OF r] hex2_def nat_digits.simps digit_of_def Let_def digit_char_def)
qed

lemma hex2_ascii:
  assumes "ICHAR_CONTROLP c"
  shows "ascii_clean (hex2 c)"
  using control_cases [OF assms] by (elim insertE emptyE) (simp_all add: hex2_def digit_char_def)

section \<open>Raw C formats\<close>

text \<open>The state of a format run that has printed \<open>cs\<close> and has the format \<open>fmt\<close> and the arguments left.\<close>

definition fmt_ok :: "codec_vtbl \<Rightarrow> heap \<Rightarrow> obj \<Rightarrow> fstate \<Rightarrow> ichar list \<Rightarrow> byte list \<Rightarrow> c_arg list \<Rightarrow> bool" where
  "fmt_ok codec h port st cs fmt args \<longleftrightarrow>
     f_heap st = h \<and> f_str st = fmt \<and> f_args st = ARG_VA_LIST args \<and> port_collected codec h (f_ports st) port cs"

lemma no_width: "scm_string2number [] 10 = (0, True)"
  by (simp add: scm_string2number_def strtol_def)

lemma width_2: "scm_string2number [0x32] 10 = (2, False)"
proof -
  have "int_notation 10 [0x32] 2"
    unfolding int_notation_def
    by (rule exI [of _ "[]"], rule exI [of _ "[0x32]"]) (simp add: digitp_def digit_value_def digits_value_def)
  moreover have "fits 2" by (simp add: fits_bounds)
  ultimately show ?thesis using scm_string2number_iff [of 10 "[0x32]" 2] by (simp add: VALID_RADIXP_def)
qed

context reader_codec begin

lemma format_literal:
  assumes "fmt_ok codec h port st cs (b # fmt) args" "b < 0x80" "b \<noteq> 0" "b \<noteq> 0x7E"
  obtains st' where "format_loop codec prn port fcap lc st = format_loop codec prn port fcap (ucast b) st'"
    "fmt_ok codec h port st' (cs @ [ucast b]) fmt args"
proof -
  have p: "port_collected codec h (f_ports st) port cs" "f_heap st = h" "f_str st = b # fmt" "f_args st = ARG_VA_LIST args"
    using assms(1) by (simp_all add: fmt_ok_def)
  have v: "valid (ucast b)" using ascii_encoded ascii_char(1,2) [OF assms(2)] by blast
  obtain ps' where ps: "scm_port_put_char h (f_ports st) port (ucast b) = Inr ps'" "port_collected codec h ps' port (cs @ [ucast b])"
    by (rule put_char_collects [OF p(1) v ascii_char(3) [OF assms(2,3)]])
  have n: "(ucast b :: ichar) \<noteq> 0x7E"
    using byte_ne(1) [OF assms(4)] .
  have "format_loop codec prn port fcap lc st =
      format_loop codec prn port fcap (ucast b) (st\<lparr>f_str := fmt, f_ports := ps'\<rparr>)"
    using p ps(1) read_ascii(1) [OF assms(2), of fmt] n
    by (subst format_loop.simps) (simp add: Let_def fmt_put_char_def and_then_def)
  then show thesis using that [of "st\<lparr>f_str := fmt, f_ports := ps'\<rparr>"] p ps(2) by (simp add: fmt_ok_def)
qed

lemma format_done: "fmt_ok codec h port st cs [] args \<Longrightarrow> format_loop codec prn port fcap lc st = Some (Inr st)"
  by (subst format_loop.simps) (simp add: fmt_ok_def)

text \<open>A directive \<^verbatim>\<open>~ZU\<close> or \<^verbatim>\<open>~02MX\<close> and what it prints.\<close>

lemma format_raw_int:
  assumes "fmt_ok codec h port st cs (0x7E # c # pre) (C_int w # args)" "fcap AND SCM_FMT_RAW_C \<noteq> 0"
    "c < 0x80" "c \<noteq> 0x43" "c \<noteq> 0x50"
    "read_number_prefix codec (SCM_FMT_RAW_C OR SCM_FMT_SSCM_ADDENDUM) (c # pre) = Inr (vfmt, m # k # fmt)"
    "m < 0x80" "k < 0x80" "size_modifier (ucast m) = Some (\<lambda>w. (w, w))" "int_radix (ucast k) = Some (radix, False)"
    "scm_int2string (vfmt\<lparr>signedp := False\<rparr>) w radix = Some bs" "ascii_clean bs"
  obtains st' where "format_loop codec prn port fcap lc st = format_loop codec prn port fcap (ucast k) st'"
    "fmt_ok codec h port st' (cs @ chars_of bs) fmt args"
proof -
  have p: "port_collected codec h (f_ports st) port cs" "f_heap st = h" "f_str st = 0x7E # c # pre"
      "f_args st = ARG_VA_LIST (C_int w # args)"
    using assms(1) by (simp_all add: fmt_ok_def)
  have e: "encode_str codec (chars_of bs) = bs" "clean_chars valid (chars_of bs)" using encode_ascii [OF assms(12)] by auto
  obtain ps' where ps: "scm_port_puts h (f_ports st) port bs = Inr ps'" "port_collected codec h ps' port (cs @ chars_of bs)"
    using puts_collects [OF p(1) e(2)] unfolding e(1) by blast
  let ?st = "st\<lparr>f_str := fmt, f_ports := ps', f_args := ARG_VA_LIST args\<rparr>"
  have c: "(ucast c :: ichar) \<noteq> 0x43" "(ucast c :: ichar) \<noteq> 0x50"
    using byte_ne(2) [OF assms(4)] byte_ne(3) [OF assms(5)] .
  have m: "(ucast m :: ichar) \<noteq> 0x53" using assms(9) by (auto simp: size_modifier_def)
  have k: "(ucast k :: ichar) \<noteq> 0" using assms(10) by (auto simp: int_radix_def)
  have "format_raw_c_directive codec port (st\<lparr>f_str := c # pre\<rparr>) = Some (Inr (ucast k, ?st))"
    using p ps(1) c m assms(6,9-11) read_ascii [OF assms(3)] read_ascii [OF assms(7)] read_ascii [OF assms(8)]
    by (simp add: format_raw_c_directive_def format_raw_c_int_def and_then_def Let_def format_int_def fmt_puts_def)
  moreover have "FORMAT_STR_READ codec (0x7E # c # pre) = Inr (0x7E, c # pre)"
    using read_ascii(1) [of "0x7E" "c # pre"] by simp
  ultimately have "format_loop codec prn port fcap lc st = format_loop codec prn port fcap (ucast k) ?st"
    using p(3) assms(2) k by (subst format_loop.simps) (simp add: Let_def)
  then show thesis using that [of ?st] p ps(2) by (simp add: fmt_ok_def)
qed

lemma prefix_none:
  assumes "c < 0x80" "\<not> ICHAR_NUMERICP (ucast c)" "c \<noteq> 0x2C"
  shows "read_number_prefix codec fcap (c # fmt) = Inr (SCM_VALUE_FORMAT_INIT, c # fmt)"
proof -
  have c: "(ucast c :: ichar) \<noteq> 0x2C" using byte_ne(4) [OF assms(3)] .
  have z: "(ucast c :: ichar) \<noteq> 0x30" using assms(2) by (auto simp: ICHAR_NUMERICP_def word_sle_eq)
  show ?thesis using assms(2) c z read_ascii [OF assms(1), of fmt] no_width
    by (simp add: read_number_prefix_def read_width_def and_then_def SCM_VALUE_FORMAT_INIT_def Let_def read_width_loop.simps [of _ 4])
qed

lemma prefix_02M:
  "read_number_prefix codec (SCM_FMT_RAW_C OR SCM_FMT_SSCM_ADDENDUM) (0x30 # 0x32 # 0x4D # fmt) =
     Inr (SCM_VALUE_FORMAT_INIT\<lparr>pad := 0x30, width := 2\<rparr>, 0x4D # fmt)"
proof -
  note r = read_ascii [of "0x30" "0x32 # 0x4D # fmt", simplified] read_ascii [of "0x32" "0x4D # fmt", simplified]
    read_ascii [of "0x4D" fmt, simplified]
  have n: "\<not> ICHAR_NUMERICP 0x4D" "ICHAR_NUMERICP 0x32" by (simp_all add: ICHAR_NUMERICP_def word_sle_eq)
  have "read_width_loop codec 3 [0x32] (0x4D # fmt) = Inr ([0x32], 0x4D # fmt)"
    using r(9) n by (subst read_width_loop.simps) (simp add: and_then_def)
  moreover have "(4 :: nat) = Suc 3" by simp
  ultimately have "read_width_loop codec 4 [] (0x32 # 0x4D # fmt) = Inr ([0x32], 0x4D # fmt)"
    using r(4-6) n by (subst read_width_loop.simps) (simp add: and_then_def)
  then have "read_width codec (0x32 # 0x4D # fmt) = Inr (2, 0x4D # fmt)"
    using width_2 by (simp add: read_width_def and_then_def)
  moreover have "(SCM_FMT_RAW_C OR SCM_FMT_SSCM_ADDENDUM) AND SCM_FMT_LEADING_ZEROS \<noteq> 0" by (simp add: fmt_caps)
  ultimately show ?thesis
    using r(1-3,9) by (simp add: read_number_prefix_def and_then_def Let_def SCM_VALUE_FORMAT_INIT_def)
qed

text \<open>A whole format that prints \<open>ds\<close>.\<close>

lemma w_format_runs:
  assumes "out_ok codec env port st cs" "PORTP (we_heap env) port" "scm_current_char_codec env = codec"
    "ascii_clean (bytes_of_string fmt)"
    "\<And>st0. fmt_ok codec (we_heap env) port st0 cs (bytes_of_string fmt) args \<Longrightarrow>
       \<exists>st1. format_loop codec no_printers port SCM_FMT_RAW_C 0 st0 = Some (Inr st1) \<and>
         fmt_ok codec (we_heap env) port st1 (cs @ ds) [] []"
  obtains st' where "w_format env port fmt args st = Some (Inr st')" "out_ok codec env port st' (cs @ ds)"
proof -
  let ?st0 = "\<lparr>f_heap = we_heap env, f_ports = w_ports st, f_str = bytes_of_string fmt, f_args = ARG_VA_LIST args\<rparr>"
  have clean: "c_str (bytes_of_string fmt) = bytes_of_string fmt"
    using assms(4) by (intro c_str_clean) (auto simp: ascii_clean_def)
  have "fmt_ok codec (we_heap env) port ?st0 cs (bytes_of_string fmt) args"
    using assms(1) by (simp add: fmt_ok_def out_ok_def)
  from assms(5) [OF this] obtain st1 where st1: "format_loop codec no_printers port SCM_FMT_RAW_C 0 ?st0 = Some (Inr st1)"
      "fmt_ok codec (we_heap env) port st1 (cs @ ds) [] []" by blast
  have np: "port \<noteq> SCM_FALSE" "port \<noteq> SCM_TRUE" using assms(2) by auto
  have "w_format env port fmt args st = Some (Inr (st\<lparr>w_ports := f_ports st1\<rparr>))"
    using assms(2,3) np st1 clean
    by (simp add: w_format_def scm_format_def format_internal_def fmt_ok_def ensure_args_used_def del: PORTP.simps)
  then show thesis using that [of "st\<lparr>w_ports := f_ports st1\<rparr>"] st1(2) assms(1) by (simp add: fmt_ok_def out_ok_def)
qed

lemma w_format_hex:
  assumes "out_ok codec env port st cs" "PORTP (we_heap env) port" "scm_current_char_codec env = codec" "ICHAR_CONTROLP c"
  obtains st' where "w_format env port ''x~02MX'' [C_int (scast c)] st = Some (Inr st')"
    "out_ok codec env port st' (cs @ 0x78 # chars_of (hex2 c))"
proof (rule w_format_runs [OF assms(1-3)])
  have f: "bytes_of_string ''x~02MX'' = [0x78, 0x7E, 0x30, 0x32, 0x4D, 0x58]" by (simp add: bytes_of_string_def)
  show "ascii_clean (bytes_of_string ''x~02MX'')" unfolding f by simp
  fix st0 assume "fmt_ok codec (we_heap env) port st0 cs (bytes_of_string ''x~02MX'') [C_int (scast c)]"
  then have f0: "fmt_ok codec (we_heap env) port st0 cs (0x78 # [0x7E, 0x30, 0x32, 0x4D, 0x58]) [C_int (scast c)]"
    unfolding f .
  obtain st1 where st1: "format_loop codec no_printers port SCM_FMT_RAW_C 0 st0 =
        format_loop codec no_printers port SCM_FMT_RAW_C (ucast (0x78 :: byte)) st1"
      "fmt_ok codec (we_heap env) port st1 (cs @ [ucast (0x78 :: byte)]) (0x7E # 0x30 # [0x32, 0x4D, 0x58]) [C_int (scast c)]"
    by (rule format_literal [OF f0]) simp_all
  have print: "scm_int2string ((SCM_VALUE_FORMAT_INIT\<lparr>pad := 0x30, width := 2\<rparr>)\<lparr>signedp := False\<rparr>) (scast c) 16 = Some (hex2 c)"
    using hex2_printed [OF assms(4)] by (simp add: SCM_VALUE_FORMAT_INIT_def)
  have raw: "SCM_FMT_RAW_C AND SCM_FMT_RAW_C \<noteq> 0" by (simp add: fmt_caps)
  obtain st2 where st2: "format_loop codec no_printers port SCM_FMT_RAW_C (ucast (0x78 :: byte)) st1 =
        format_loop codec no_printers port SCM_FMT_RAW_C (ucast (0x58 :: byte)) st2"
      "fmt_ok codec (we_heap env) port st2 ((cs @ [ucast (0x78 :: byte)]) @ chars_of (hex2 c)) [] []"
    by (rule format_raw_int [OF st1(2) raw _ _ _ prefix_02M _ _ _ _ print hex2_ascii [OF assms(4)]])
      (simp_all add: size_modifier_def int_radix_def)
  show "\<exists>st1. format_loop codec no_printers port SCM_FMT_RAW_C 0 st0 = Some (Inr st1) \<and>
      fmt_ok codec (we_heap env) port st1 (cs @ 0x78 # chars_of (hex2 c)) [] []"
    using st1(1) st2 format_done [OF st2(2)] by simp
qed

end

section \<open>Data\<close>

text \<open>An environment in which no datum is an error object or a record.\<close>

definition plain_env :: "codec_vtbl \<Rightarrow> (ichar \<Rightarrow> bool) \<Rightarrow> write_env \<Rightarrow> obj \<Rightarrow> bool" where
  "plain_env codec valid env port \<longleftrightarrow> scm_current_char_codec env = codec \<and> PORTP (we_heap env) port \<and>
     (\<forall>d. \<not> stands_for codec valid (we_heap env) (l_err_obj_tag env) d \<and>
          \<not> stands_for codec valid (we_heap env) (l_record_marker (we_srfi9 env)) d \<and>
          \<not> stands_for codec valid (we_heap env) (l_record_type_marker (we_srfi9 env)) d)"

definition writes_as :: "codec_vtbl \<Rightarrow> (ichar \<Rightarrow> bool) \<Rightarrow> write_env \<Rightarrow> obj \<Rightarrow> datum \<Rightarrow> bool" where
  "writes_as codec valid env port d \<longleftrightarrow> (\<forall>x st cs. stands_for codec valid (we_heap env) x d \<longrightarrow> out_ok codec env port st cs \<longrightarrow>
     (\<exists>st'. writer env port (W_obj AS_WRITE x) st = Some (Inr st') \<and> out_ok codec env port st' (cs @ show_datum d)))"

lemma writes_asD:
  assumes "writes_as codec valid env port d" "stands_for codec valid (we_heap env) x d" "out_ok codec env port st cs"
  obtains st' where "writer env port (W_obj AS_WRITE x) st = Some (Inr st')" "out_ok codec env port st' (cs @ show_datum d)"
  using assms unfolding writes_as_def by blast

lemma no_index: "out_ok codec env port st cs \<Longrightarrow> get_shared_index env x st = Some (Inr (0, st))"
  by (simp add: get_shared_index_def out_ok_def)

lemma writer_obj:
  assumes "out_ok codec env port st cs"
  shows "writer env port (W_obj otype x) st = write_type env port (writer env port) x otype st"
  using no_index [OF assms] by (subst writer.simps) (simp add: write_obj_def)

context reader_codec begin

lemma writes_null: "writes_as codec valid env port DNull"
  unfolding writes_as_def
proof (intro allI impI)
  fix x st cs assume x: "stands_for codec valid (we_heap env) x DNull" and o: "out_ok codec env port st cs"
  have n: "x = SCM_NULL" using x by (cases rule: stands_for.cases)
  have b: "bytes_of_string ''()'' = [0x28, 0x29]" by (simp add: bytes_of_string_def)
  obtain st' where "w_str env port ''()'' st = Some (Inr st')" "out_ok codec env port st' (cs @ chars_of (bytes_of_string ''()''))"
    by (rule w_str_out [OF o, where s = "''()''"]) (simp add: b)
  then show "\<exists>st'. writer env port (W_obj AS_WRITE x) st = Some (Inr st') \<and> out_ok codec env port st' (cs @ show_datum DNull)"
    by (simp add: writer_obj [OF o] write_type_def write_atom_def n write_constant_def b)
qed

lemma writes_bool: "writes_as codec valid env port (DBool b)"
  unfolding writes_as_def
proof (intro allI impI)
  fix x st cs assume x: "stands_for codec valid (we_heap env) x (DBool b)" and o: "out_ok codec env port st cs"
  have n: "x = MAKE_BOOL b" using x by (cases rule: stands_for.cases)
  let ?s = "if b then ''#t'' else ''#f''"
  have b: "bytes_of_string ?s = [0x23, if b then 0x74 else 0x66]" by (simp add: bytes_of_string_def)
  obtain st' where "w_str env port ?s st = Some (Inr st')" "out_ok codec env port st' (cs @ chars_of (bytes_of_string ?s))"
    by (rule w_str_out [OF o, where s = ?s]) (simp add: b)
  then show "\<exists>st'. writer env port (W_obj AS_WRITE x) st = Some (Inr st') \<and> out_ok codec env port st' (cs @ show_datum (DBool b))"
    by (cases b) (simp_all add: writer_obj [OF o] write_type_def write_atom_def n write_constant_def MAKE_BOOL_def bytes_of_string_def)
qed

lemma write_int_out:
  assumes "out_ok codec env port st cs"
  obtains st' where "write_int env port i st = Some (Inr st')" "out_ok codec env port st' (cs @ chars_of (int_text 10 i))"
  using w_puts_ascii [OF assms int_text_ascii] unfolding write_int_def by metis

lemma writes_int: "writes_as codec valid env port (DInt i)"
  unfolding writes_as_def
proof (intro allI impI)
  fix x st cs assume x: "stands_for codec valid (we_heap env) x (DInt i)" and o: "out_ok codec env port st cs"
  have n: "x = IntObj i" using x by (cases rule: stands_for.cases)
  obtain st' where "write_int env port i st = Some (Inr st')" "out_ok codec env port st' (cs @ chars_of (int_text 10 i))"
    by (rule write_int_out [OF o])
  then show "\<exists>st'. writer env port (W_obj AS_WRITE x) st = Some (Inr st') \<and> out_ok codec env port st' (cs @ show_datum (DInt i))"
    by (simp add: writer_obj [OF o] write_type_def write_atom_def n)
qed

lemma name_ascii: "special_name c scm_special_char_table = Some name \<Longrightarrow> ascii_clean name"
  by (auto simp: scm_special_char_table_def bytes_of_string_def split: if_splits)

lemma writes_char:
  assumes "plain_env codec valid env port" "valid c"
  shows "writes_as codec valid env port (DChar c)"
  unfolding writes_as_def
proof (intro allI impI)
  fix x st cs assume x: "stands_for codec valid (we_heap env) x (DChar c)" and o: "out_ok codec env port st cs"
  have n: "x = MAKE_CHAR c" using x by (cases rule: stands_for.cases)
  have v: "CHAR_VALUE (MAKE_CHAR c) = c" by (simp add: MAKE_CHAR_def)
  have env: "PORTP (we_heap env) port" "scm_current_char_codec env = codec" using assms(1) by (auto simp: plain_env_def)
  obtain st1 where st1: "w_puts env port [0x23, 0x5C] st = Some (Inr st1)" "out_ok codec env port st1 (cs @ chars_of [0x23, 0x5C])"
    by (rule w_puts_ascii [OF o, where bs = "[0x23, 0x5C]"]) simp
  have "\<exists>st'. write_char env port x AS_WRITE st = Some (Inr st') \<and> out_ok codec env port st' (cs @ char_text c)"
  proof (cases "special_name c scm_special_char_table")
    case (Some name)
    obtain st' where "w_puts env port name st1 = Some (Inr st')" "out_ok codec env port st' ((cs @ chars_of [0x23, 0x5C]) @ chars_of name)"
      by (rule w_puts_ascii [OF st1(2) name_ascii [OF Some]])
    then show ?thesis using st1(1) Some by (simp add: write_char_def n v char_text_def)
  next
    case None
    show ?thesis
    proof (cases "ICHAR_CONTROLP c")
      case True
      obtain st' where "w_format env port ''x~02MX'' [C_int (scast c)] st1 = Some (Inr st')"
          "out_ok codec env port st' ((cs @ chars_of [0x23, 0x5C]) @ 0x78 # chars_of (hex2 c))"
        by (rule w_format_hex [OF st1(2) env True])
      then show ?thesis using st1(1) None True by (simp add: write_char_def n v char_text_def)
    next
      case False
      then have "c \<noteq> 0" by (auto simp: ICHAR_CONTROLP_def word_sle_eq)
      then obtain st' where "w_put_char env port c st1 = Some (Inr st')"
          "out_ok codec env port st' ((cs @ chars_of [0x23, 0x5C]) @ [c])" using w_put_char_out [OF st1(2) assms(2)] by blast
      then show ?thesis using st1(1) None False by (simp add: write_char_def n v char_text_def)
    qed
  qed
  then show "\<exists>st'. writer env port (W_obj AS_WRITE x) st = Some (Inr st') \<and> out_ok codec env port st' (cs @ show_datum (DChar c))"
    by (simp add: writer_obj [OF o] write_type_def write_atom_def n MAKE_CHAR_def)
qed

lemma writes_symbol:
  assumes "symbol_text_ok codec valid name"
  shows "writes_as codec valid env port (DSym name)"
  unfolding writes_as_def
proof (intro allI impI)
  fix x st cs assume x: "stands_for codec valid (we_heap env) x (DSym name)" and o: "out_ok codec env port st cs"
  have n: "symbol_is (we_heap env) x (name_of_bytes (encode_str codec name))" using x by (cases rule: stands_for.cases)
  have c: "clean_chars valid name"
    using assms ascii_encoded by (auto simp: symbol_text_ok_def token_char_def clean_chars_def word_sle_eq)
  obtain v where v: "misc_cell (we_heap env) x = Some (SymbolCell v (name_of_bytes (encode_str codec name)))"
    using n by (auto simp: symbol_is_def)
  then obtain a where "x = Ptr PTAG_MISC a" "mem (we_heap env) a = Some (SymbolCell v (name_of_bytes (encode_str codec name)))"
    by (auto elim!: misc_cell.elims)
  then have t: "scm_type (we_heap env) x = Some ScmSymbol" by simp
  obtain st' where "w_puts env port (encode_str codec name) st = Some (Inr st')" "out_ok codec env port st' (cs @ name)"
    by (rule w_puts_out [OF o c])
  then show "\<exists>st'. writer env port (W_obj AS_WRITE x) st = Some (Inr st') \<and> out_ok codec env port st' (cs @ show_datum (DSym name))"
    using v by (simp add: writer_obj [OF o] write_type_def write_atom_def t write_symbol_def SYMBOL_NAME.simps bytes_of_name_of_bytes)
qed

lemma escape_bytes: "special_escape c scm_special_char_table = Some esc \<Longrightarrow> ascii_clean esc"
  by (auto simp: scm_special_char_table_def bytes_of_string_def split: if_splits)

lemma write_string_loop_text:
  assumes "clean_chars valid cs"
  shows "write_string_loop codec (encode_str codec cs) buf = Some (Inr (buf @ encode_str codec (concat (List.map escape_char cs))))"
    "clean_chars valid (concat (List.map escape_char cs))"
proof -
  show "write_string_loop codec (encode_str codec cs) buf = Some (Inr (buf @ encode_str codec (concat (List.map escape_char cs))))"
    using assms
  proof (induction cs arbitrary: buf)
    case Nil
    then show ?case by (subst write_string_loop.simps) (simp add: encode_str_def)
  next
    case (Cons c cs)
    have c: "valid c" using Cons.prems by simp
    obtain bs where bs: "int2str codec c = Some bs" "bs \<noteq> []" using encodable [OF c] by blast
    have e: "encode_str codec (c # cs) = bs @ encode_str codec cs" "encode_str codec [c] = bs"
      using bs by (simp_all add: encode_str_Cons)
    let ?esc = "if c <s 0x20 \<or> c = 0x22 \<or> c = 0x5C \<or> c = 0x7F then
        (case special_escape c scm_special_char_table of Some esc_seq \<Rightarrow> esc_seq | None \<Rightarrow> bs) else bs"
    have "?esc = encode_str codec (escape_char c)"
      using encode_ascii [OF escape_bytes] e(2)
      by (cases "special_escape c scm_special_char_table") (simp_all add: escape_char_def)
    moreover have "take (length (bs @ encode_str codec cs) - length (encode_str codec cs)) (bs @ encode_str codec cs) = bs"
      by simp
    then have "write_string_loop codec (encode_str codec (c # cs)) buf = write_string_loop codec (encode_str codec cs) (buf @ ?esc)"
      using read_encoded [OF c, of cs] bs(2) unfolding e(1)
      by (subst write_string_loop.simps) (simp only: Let_def append_is_Nil_conv simp_thms if_False map_sum.simps sum.case prod.case run_then_simps id_apply)
    ultimately show ?case using Cons by (simp add: encode_str_append)
  qed
  have "clean_chars valid (escape_char c)" if "valid c" "c \<noteq> 0" for c
    using that encode_ascii [OF escape_bytes]
    by (cases "special_escape c scm_special_char_table") (auto simp: escape_char_def)
  then show "clean_chars valid (concat (List.map escape_char cs))" using assms by (induction cs) auto
qed

lemma port_codec_collected:
  assumes "out_ok codec env port st cs"
  shows "scm_port_codec (we_heap env) (w_ports st) port = Inr codec"
proof -
  obtain p where "PORT_IMPL (we_heap env) port \<noteq> 0" "impls (w_ports st) (PORT_IMPL (we_heap env) port) = Some p" "mbc_codec p = codec"
    using assms unfolding out_ok_def port_collected_def by blast
  then show ?thesis by (simp add: scm_port_codec_def SCM_ENSURE_LIVE_PORT_def and_then_def del: PORT_IMPL.simps)
qed

lemma writes_string:
  assumes "plain_env codec valid env port"
  shows "writes_as codec valid env port (DStr str)"
  unfolding writes_as_def
proof (intro allI impI)
  fix x st cs assume x: "stands_for codec valid (we_heap env) x (DStr str)" and o: "out_ok codec env port st cs"
  obtain m where n: "string_is codec valid (we_heap env) x str m" using x by (cases rule: stands_for.cases)
  have c: "clean_chars valid str" using n by (simp add: clean_chars_def string_is_def)
  have s: "STRING_STR (we_heap env) x = encode_str codec str" using string_isD [OF n] by simp
  have t: "scm_type (we_heap env) x = Some ScmString"
    using n misc_type by (simp add: string_is_def)
  have clean: "c_str (encode_str codec str) = encode_str codec str" using c by (intro c_str_encoded) (simp add: clean_chars_def)
  have q: "encode_str codec [0x22] = [0x22]" "clean_chars valid [0x22]"
    using encode_ascii [of "[0x22]"] by simp_all
  have printed: "encode_str codec (0x22 # concat (List.map escape_char str) @ [0x22]) =
      0x22 # encode_str codec (concat (List.map escape_char str)) @ [0x22]"
    using q(1) encode_str_append [of codec "[0x22]" "concat (List.map escape_char str) @ [0x22]"] by (simp add: encode_str_append)
  have "clean_chars valid (0x22 # concat (List.map escape_char str) @ [0x22])"
    using write_string_loop_text(2) [OF c] q(2) by simp
  then obtain st' where "w_puts env port (0x22 # encode_str codec (concat (List.map escape_char str)) @ [0x22]) st = Some (Inr st')"
      "out_ok codec env port st' (cs @ 0x22 # concat (List.map escape_char str) @ [0x22])"
    using w_puts_out [OF o] unfolding printed [symmetric] by metis
  moreover have "scm_current_char_codec env = codec" using assms by (simp add: plain_env_def)
  ultimately show "\<exists>st'. writer env port (W_obj AS_WRITE x) st = Some (Inr st') \<and> out_ok codec env port st' (cs @ show_datum (DStr str))"
    using write_string_loop_text(1) [OF c, of "[0x22]"] port_codec_collected [OF o]
    by (simp add: writer_obj [OF o] write_type_def write_atom_def t write_string_def s clean Let_def)
qed

text \<open>What follows the first element of a list, without the parenthesis that closes it.\<close>

lemma tail_text_snoc: "tail_text ts None = concat (List.map (\<lambda>t. 0x20 # t) ts) @ [0x29]"
  by (induction ts) simp_all

lemma bytes_loop_rest:
  assumes "out_ok codec env port st cs"
  shows "\<exists>st'. bytes_loop env port False bs st = Some (Inr st') \<and>
    out_ok codec env port st' (cs @ concat (List.map (\<lambda>b. 0x20 # chars_of (int_text 10 (uint b))) bs))"
  using assms
proof (induction bs arbitrary: st cs)
  case (Cons b bs)
  obtain st1 where st1: "w_put_char env port 0x20 st = Some (Inr st1)" "out_ok codec env port st1 (cs @ [0x20])"
    by (rule w_put_ascii [OF Cons.prems, of "0x20"]) (simp_all add: word_sle_eq)
  obtain st2 where st2: "write_int env port (uint b) st1 = Some (Inr st2)"
      "out_ok codec env port st2 ((cs @ [0x20]) @ chars_of (int_text 10 (uint b)))"
    by (rule write_int_out [OF st1(2)])
  show ?case using Cons.IH [OF st2(2)] st1(1) st2(1) by simp
qed simp

lemma writes_bytes: "writes_as codec valid env port (DBytes bs)"
  unfolding writes_as_def
proof (intro allI impI)
  fix x st cs assume x: "stands_for codec valid (we_heap env) x (DBytes bs)" and o: "out_ok codec env port st cs"
  obtain m where n: "misc_cell (we_heap env) x = Some (BytevectorCell bs m)" using x by (cases rule: stands_for.cases)
  have t: "scm_type (we_heap env) x = Some ScmBytevector" using n misc_type by simp
  have v: "BYTEVECTOR_VEC (we_heap env) x = bs" using n bytevector_cell by simp
  let ?tx = "\<lambda>b. chars_of (int_text 10 (uint b))"
  obtain st1 where st1: "w_str env port ''#u8('' st = Some (Inr st1)" "out_ok codec env port st1 (cs @ [0x23, 0x75, 0x38, 0x28])"
    using w_str_out [OF o, of "''#u8(''"] by (auto simp: bytes_of_string_def)
  have "\<exists>st2. bytes_loop env port True bs st1 = Some (Inr st2) \<and>
      out_ok codec env port st2 ((cs @ [0x23, 0x75, 0x38, 0x28]) @ butlast (body_text (List.map ?tx bs) None))"
  proof (cases bs)
    case (Cons b bs')
    obtain st2 where st2: "write_int env port (uint b) st1 = Some (Inr st2)"
        "out_ok codec env port st2 ((cs @ [0x23, 0x75, 0x38, 0x28]) @ ?tx b)"
      by (rule write_int_out [OF st1(2)])
    show ?thesis using bytes_loop_rest [OF st2(2), of bs'] st2(1)
      by (simp add: Cons tail_text_snoc butlast_append comp_def)
  qed (use st1 in simp)
  then obtain st2 where st2: "bytes_loop env port True bs st1 = Some (Inr st2)"
      "out_ok codec env port st2 ((cs @ [0x23, 0x75, 0x38, 0x28]) @ butlast (body_text (List.map ?tx bs) None))" by blast
  have close: "butlast (body_text ts None) @ [0x29] = body_text ts None" for ts
    by (cases ts) (simp_all add: tail_text_snoc butlast_append)
  obtain st3 where st3: "w_put_char env port 0x29 st2 = Some (Inr st3)"
      "out_ok codec env port st3 (((cs @ [0x23, 0x75, 0x38, 0x28]) @ butlast (body_text (List.map ?tx bs) None)) @ [0x29])"
    by (rule w_put_ascii [OF st2(2), of "0x29"]) (simp_all add: word_sle_eq)
  then show "\<exists>st'. writer env port (W_obj AS_WRITE x) st = Some (Inr st') \<and> out_ok codec env port st' (cs @ show_datum (DBytes bs))"
    using st1(1) st2(1) close by (simp add: writer_obj [OF o] write_type_def write_atom_def t write_bytevector_def v)
qed

lemma null_datum: "stands_for codec valid h SCM_NULL e \<Longrightarrow> \<not> is_DList e \<Longrightarrow> e = DNull"
  by (erule stands_for.cases) (auto simp: MAKE_BOOL_def MAKE_CHAR_def symbol_is_def string_is_def split: if_splits)

lemma one_paren: "w_put_chars env port (Suc 0) c = w_put_char env port c"
proof
  fix st
  have "w_put_chars env port 0 c = (\<lambda>st. Some (Inr st))" by (rule ext) simp
  then show "w_put_chars env port (Suc 0) c st = w_put_char env port c st"
    by (cases "w_put_char env port c st") (auto simp: run_then_def split: sum.split)
qed

text \<open>The elements of a list from the one at its front on.\<close>

lemma writes_elems:
  assumes "chain (we_heap env) x (v # vs) t" "\<not> CONSP t" "list_all2 (stands_for codec valid (we_heap env)) (v # vs) (d # ds)"
    "stands_for codec valid (we_heap env) t e" "\<not> is_DList e" "\<forall>d \<in> set (d # ds). writes_as codec valid env port d"
    "e \<noteq> DNull \<longrightarrow> writes_as codec valid env port e" "out_ok codec env port st cs"
  shows "\<exists>st'. writer env port (W_elems AS_WRITE x 1) st = Some (Inr st') \<and>
    out_ok codec env port st' (cs @ show_datum d @ tail_text (List.map show_datum ds) (tail_end e))"
  using assms(1,3,6,8)
proof (induction ds arbitrary: x v vs d st cs)
  case Nil
  then have vs: "vs = []" by simp
  have x: "CAR (we_heap env) x = v" "CDR (we_heap env) x = t" using Nil.prems(1) has_pair_CONSP unfolding vs by auto
  have sd: "stands_for codec valid (we_heap env) v d" using Nil.prems(2) by simp
  have wd: "writes_as codec valid env port d" using Nil.prems(3) by simp
  obtain st1 where st1: "writer env port (W_obj AS_WRITE v) st = Some (Inr st1)" "out_ok codec env port st1 (cs @ show_datum d)"
    by (rule writes_asD [OF wd sd Nil.prems(4)])
  have "\<exists>st2. (if \<not> NULLP t then run_then (w_str env port '' . '' st1) (\<lambda>st. writer env port (W_obj AS_WRITE t) st) else Some (Inr st1)) =
        Some (Inr st2) \<and> out_ok codec env port st2 ((cs @ show_datum d) @ (if e = DNull then [] else [0x20, 0x2E, 0x20] @ show_datum e))"
  proof (cases "e = DNull")
    case True
    then have "t = SCM_NULL" using assms(4) by (auto elim: stands_for.cases)
    then show ?thesis using st1(2) True by simp
  next
    case False
    then have n: "t \<noteq> SCM_NULL" using assms(4,5) null_datum by metis
    have we: "writes_as codec valid env port e" using assms(7) False by blast
    obtain st2 where st2: "w_str env port '' . '' st1 = Some (Inr st2)" "out_ok codec env port st2 ((cs @ show_datum d) @ [0x20, 0x2E, 0x20])"
      using w_str_out [OF st1(2), of "'' . ''"] by (auto simp: bytes_of_string_def)
    obtain st3 where "writer env port (W_obj AS_WRITE t) st2 = Some (Inr st3)"
        "out_ok codec env port st3 (((cs @ show_datum d) @ [0x20, 0x2E, 0x20]) @ show_datum e)"
      by (rule writes_asD [OF we assms(4) st2(2)])
    then show ?thesis using st2(1) n False by simp
  qed
  then obtain st2 where st2: "(if \<not> NULLP t then run_then (w_str env port '' . '' st1) (\<lambda>st. writer env port (W_obj AS_WRITE t) st) else Some (Inr st1)) =
      Some (Inr st2)" "out_ok codec env port st2 ((cs @ show_datum d) @ (if e = DNull then [] else [0x20, 0x2E, 0x20] @ show_datum e))" by blast
  obtain st3 where st3: "w_put_char env port 0x29 st2 = Some (Inr st3)"
      "out_ok codec env port st3 (((cs @ show_datum d) @ (if e = DNull then [] else [0x20, 0x2E, 0x20] @ show_datum e)) @ [0x29])"
    by (rule w_put_ascii [OF st2(2), of "0x29"]) (simp_all add: word_sle_eq)
  have "writer env port (W_elems AS_WRITE x 1) st = Some (Inr st3)"
    using st1(1) st2(1) st3(1) assms(2) x
    by (cases "t = SCM_NULL") (subst writer.simps; simp add: write_elems_def Let_def one_paren)+
  then show ?case using st3(2) by (auto simp: tail_end_def)
next
  case (Cons d2 ds)
  obtain v2 vs2 where vs: "vs = v2 # vs2" using Cons.prems(2) by (cases vs) auto
  have x: "CAR (we_heap env) x = v" "chain (we_heap env) (CDR (we_heap env) x) (v2 # vs2) t"
    using Cons.prems(1) has_pair_CONSP unfolding vs by auto
  have c: "CONSP (CDR (we_heap env) x)" using x(2) has_pair_CONSP by auto
  have sd: "stands_for codec valid (we_heap env) v d" using Cons.prems(2) by simp
  have wd: "writes_as codec valid env port d" using Cons.prems(3) by simp
  obtain st1 where st1: "writer env port (W_obj AS_WRITE v) st = Some (Inr st1)" "out_ok codec env port st1 (cs @ show_datum d)"
    by (rule writes_asD [OF wd sd Cons.prems(4)])
  obtain st2 where st2: "w_put_char env port 0x20 st1 = Some (Inr st2)" "out_ok codec env port st2 ((cs @ show_datum d) @ [0x20])"
    by (rule w_put_ascii [OF st1(2), of "0x20"]) (simp_all add: word_sle_eq)
  have "writer env port (W_elems AS_WRITE x 1) st = writer env port (W_elems AS_WRITE (CDR (we_heap env) x) 1) st2"
    using st1(1) st2(1) c x(1) no_index [OF st2(2)]
    by (subst writer.simps) (simp add: write_elems_def Let_def)
  moreover have "list_all2 (stands_for codec valid (we_heap env)) (v2 # vs2) (d2 # ds)" using Cons.prems(2) vs by simp
  moreover have "\<forall>d \<in> set (d2 # ds). writes_as codec valid env port d" using Cons.prems(3) by simp
  ultimately show ?case using Cons.IH [OF x(2) _ _ st2(2)] by simp
qed

lemma writes_list:
  assumes env: "plain_env codec valid env port" and els: "\<forall>d \<in> set ds. writes_as codec valid env port d"
    and e: "e \<noteq> DNull \<longrightarrow> writes_as codec valid env port e" "\<not> is_DList e" "ds \<noteq> []"
  shows "writes_as codec valid env port (DList ds e)"
  unfolding writes_as_def
proof (intro allI impI)
  fix x st cs assume x: "stands_for codec valid (we_heap env) x (DList ds e)" and o: "out_ok codec env port st cs"
  obtain vs t where l: "chain (we_heap env) x vs t" "\<not> CONSP t" "list_all2 (stands_for codec valid (we_heap env)) vs ds"
      "stands_for codec valid (we_heap env) t e" using x by (cases rule: stands_for.cases)
  obtain d ds' where ds: "ds = d # ds'" using e(3) by (cases ds) auto
  then obtain v vs' where vs: "vs = v # vs'" using l(3) by (cases vs) auto
  have c: "CONSP x" "CAR (we_heap env) x = v" using l(1) has_pair_CONSP unfolding vs by auto
  then obtain a where t: "x = Ptr PTAG_CONS a" by (cases x rule: CONSP.cases) auto
  have sv: "stands_for codec valid (we_heap env) v d" using l(3) unfolding ds vs by simp
  have ne: "\<not> ERROBJP env x" using env sv c(2) unfolding ERROBJP_def plain_env_def by metis
  obtain st1 where st1: "w_put_char env port 0x28 st = Some (Inr st1)" "out_ok codec env port st1 (cs @ [0x28])"
    by (rule w_put_ascii [OF o, of "0x28"]) (simp_all add: word_sle_eq)
  obtain st2 where "writer env port (W_elems AS_WRITE x 1) st1 = Some (Inr st2)"
      "out_ok codec env port st2 ((cs @ [0x28]) @ show_datum d @ tail_text (List.map show_datum ds') (tail_end e))"
    using writes_elems [OF l(1) [unfolded vs] l(2) l(3) [unfolded ds vs] l(4) e(2) els [unfolded ds] e(1) st1(2)] by blast
  then show "\<exists>st'. writer env port (W_obj AS_WRITE x) st = Some (Inr st') \<and> out_ok codec env port st' (cs @ show_datum (DList ds e))"
    using st1(1) c(1) ne by (simp add: writer_obj [OF o] write_type_def t write_list_def open_list_def ds tail_end_def)
qed

lemma writes_elements_rest:
  assumes "list_all2 (stands_for codec valid (we_heap env)) vs ds" "\<forall>d \<in> set ds. writes_as codec valid env port d"
    "out_ok codec env port st cs"
  shows "\<exists>st'. writer env port (W_vec AS_WRITE False vs) st = Some (Inr st') \<and>
    out_ok codec env port st' (cs @ concat (List.map (\<lambda>d. 0x20 # show_datum d) ds))"
  using assms
proof (induction vs ds arbitrary: st cs rule: list_all2_induct)
  case Nil
  then show ?case by (subst writer.simps) (simp add: write_elements_def)
next
  case (Cons v vs d ds)
  have wd: "writes_as codec valid env port d" using Cons.prems(1) by simp
  obtain st1 where st1: "w_put_char env port 0x20 st = Some (Inr st1)" "out_ok codec env port st1 (cs @ [0x20])"
    by (rule w_put_ascii [OF Cons.prems(2), of "0x20"]) (simp_all add: word_sle_eq)
  obtain st2 where st2: "writer env port (W_obj AS_WRITE v) st1 = Some (Inr st2)" "out_ok codec env port st2 ((cs @ [0x20]) @ show_datum d)"
    by (rule writes_asD [OF wd Cons.hyps(1) st1(2)])
  have "writer env port (W_vec AS_WRITE False (v # vs)) st = writer env port (W_vec AS_WRITE False vs) st2"
    using st1(1) st2(1) by (subst writer.simps) (simp add: write_elements_def)
  then show ?case using Cons.IH [OF _ st2(2)] Cons.prems(1) by simp
qed

lemma body_text_close: "concat (List.map (\<lambda>t. 0x20 # t) ts) @ [0x29] = tail_text ts None"
  by (simp add: tail_text_snoc)

lemma writes_vec:
  assumes env: "plain_env codec valid env port" and els: "\<forall>d \<in> set ds. writes_as codec valid env port d"
  shows "writes_as codec valid env port (DVec ds)"
  unfolding writes_as_def
proof (intro allI impI)
  fix x st cs assume x: "stands_for codec valid (we_heap env) x (DVec ds)" and o: "out_ok codec env port st cs"
  obtain vs m where l: "misc_cell (we_heap env) x = Some (VectorCell vs m)" "list_all2 (stands_for codec valid (we_heap env)) vs ds"
    using x by (cases rule: stands_for.cases)
  have t: "scm_type (we_heap env) x = Some ScmVector" using l(1) misc_type by simp
  have v: "VECTOR_VEC (we_heap env) x = vs" "VECTOR_LEN (we_heap env) x = int (length vs)" using l(1) vector_cell by simp_all
  have first: "vs = [] \<or> vs ! 0 \<noteq> l_record_marker (we_srfi9 env) \<and> vs ! 0 \<noteq> l_record_type_marker (we_srfi9 env)"
    using list_all2_nthD [OF l(2), of 0] env unfolding plain_env_def by (metis length_greater_0_conv)
  have marks: "\<not> scm_recordp (we_srfi9 env) (we_heap env) x" "\<not> scm_record_typep (we_srfi9 env) (we_heap env) x"
    using first by (elim disjE; auto simp: scm_recordp_def scm_record_typep_def RECORD_FIELD_OFFSET_def v)+
  obtain st1 where st1: "w_str env port ''#('' st = Some (Inr st1)" "out_ok codec env port st1 (cs @ [0x23, 0x28])"
    using w_str_out [OF o, of "''#(''"] by (auto simp: bytes_of_string_def)
  have "\<exists>st2. writer env port (W_vec AS_WRITE True vs) st1 = Some (Inr st2) \<and>
      out_ok codec env port st2 ((cs @ [0x23, 0x28]) @ butlast (body_text (List.map show_datum ds) None))"
  proof (cases ds)
    case Nil
    then show ?thesis using st1 l(2) by (subst writer.simps) (simp add: write_elements_def)
  next
    case (Cons d ds')
    then obtain v vs' where vs: "vs = v # vs'" "stands_for codec valid (we_heap env) v d"
        "list_all2 (stands_for codec valid (we_heap env)) vs' ds'" using l(2) by (auto simp: list_all2_Cons2)
    have wd: "writes_as codec valid env port d" "\<forall>d \<in> set ds'. writes_as codec valid env port d" using els Cons by simp_all
    obtain st2 where st2: "writer env port (W_obj AS_WRITE v) st1 = Some (Inr st2)" "out_ok codec env port st2 ((cs @ [0x23, 0x28]) @ show_datum d)"
      by (rule writes_asD [OF wd(1) vs(2) st1(2)])
    have "writer env port (W_vec AS_WRITE True vs) st1 = writer env port (W_vec AS_WRITE False vs') st2"
      using st2(1) vs(1) by (subst writer.simps) (simp add: write_elements_def)
    then show ?thesis using writes_elements_rest [OF vs(3) wd(2) st2(2)]
      by (simp add: Cons tail_text_snoc butlast_append comp_def)
  qed
  then obtain st2 where st2: "writer env port (W_vec AS_WRITE True vs) st1 = Some (Inr st2)"
      "out_ok codec env port st2 ((cs @ [0x23, 0x28]) @ butlast (body_text (List.map show_datum ds) None))" by blast
  have close: "butlast (body_text ts None) @ [0x29] = body_text ts None" for ts
    by (cases ts) (simp_all add: tail_text_snoc butlast_append)
  obtain st3 where st3: "w_put_char env port 0x29 st2 = Some (Inr st3)"
      "out_ok codec env port st3 (((cs @ [0x23, 0x28]) @ butlast (body_text (List.map show_datum ds) None)) @ [0x29])"
    by (rule w_put_ascii [OF st2(2), of "0x29"]) (simp_all add: word_sle_eq)
  then show "\<exists>st'. writer env port (W_obj AS_WRITE x) st = Some (Inr st') \<and> out_ok codec env port st' (cs @ show_datum (DVec ds))"
    using st1(1) st2(1) close marks by (simp add: writer_obj [OF o] write_type_def t write_vector_def v)
qed

text \<open>The data that are printed as their text: also strings with escape and delete characters, whose
  text the reader refuses.\<close>

lemma writes_datum:
  assumes "plain_env codec valid env port"
  shows "datum_ok codec valid d \<Longrightarrow> writes_as codec valid env port d"
proof (induction d)
  case (DList ds e)
  then show ?case using writes_list [OF assms] by auto
next
  case (DVec ds)
  then show ?case using writes_vec [OF assms] by auto
qed (simp_all add: writes_null writes_bool writes_int writes_bytes writes_char [OF assms] writes_symbol writes_string [OF assms])

lemma scm_write_datum:
  assumes "plain_env codec valid env port" "datum_ok codec valid d" "stands_for codec valid (we_heap env) x d"
    "out_ok codec env port st cs" "PORT_FLAG (we_heap env) port AND SCM_PORTFLAG_OUTPUT \<noteq> 0"
  shows "\<exists>st'. scm_write env port x st = Some (Inr st') \<and> out_ok codec env port st' (cs @ show_datum d)"
proof -
  obtain st1 where st1: "writer env port (W_obj AS_WRITE x) st = Some (Inr st1)" "out_ok codec env port st1 (cs @ show_datum d)"
    by (rule writes_asD [OF writes_datum [OF assms(1,2)] assms(3,4)])
  have "port_collected codec (we_heap env) (w_ports st1) port (cs @ show_datum d)" using st1(2) by (simp add: out_ok_def)
  then obtain ps where ps: "scm_port_flush (we_heap env) (w_ports st1) port = Inr ps"
      "port_collected codec (we_heap env) ps port (cs @ show_datum d)" by (rule flush_collects)
  obtain p where "SCM_ENSURE_LIVE_PORT (we_heap env) (w_ports st) port = Inr p"
    using assms(4) unfolding out_ok_def port_collected_def SCM_ENSURE_LIVE_PORT_def by auto
  moreover have "ENSURE_PORT (we_heap env) port = Inr ()" using assms(1) by (simp add: ENSURE_PORT_def plain_env_def del: PORTP.simps)
  ultimately have "scm_write env port x st = Some (Inr (st1\<lparr>w_ports := ps\<rparr>))"
    using st1(1) ps(1) assms(5) unfolding scm_write_def
    by (subst writer.simps) (simp add: write_internal_def and_then_def del: PORT_FLAG.simps)
  then show ?thesis using ps(2) st1(2) by (simp add: out_ok_def)
qed

text \<open>The text of a datum has only characters of the codec.\<close>

lemma tail_text_clean:
  "\<forall>t \<in> set ts. clean_chars valid t \<Longrightarrow> \<forall>t \<in> set_option e. clean_chars valid t \<Longrightarrow> clean_chars valid (tail_text ts e)"
proof (induction ts)
  case Nil
  have "clean_chars valid [0x29]" "clean_chars valid [0x20, 0x2E, 0x20]" using encode_ascii [of "[0x29]"] encode_ascii [of "[0x20, 0x2E, 0x20]"] by simp_all
  then show ?case using Nil by (cases e) simp_all
next
  case (Cons t ts)
  have "clean_chars valid [0x20]" using encode_ascii [of "[0x20]"] by simp
  then show ?case using Cons by simp
qed

lemma body_text_clean:
  "\<forall>t \<in> set ts. clean_chars valid t \<Longrightarrow> \<forall>t \<in> set_option e. clean_chars valid t \<Longrightarrow> clean_chars valid (body_text ts e)"
  using tail_text_clean [of "[]" None] tail_text_clean [of _ e] by (cases ts) simp_all

lemma int_clean: "clean_chars valid (chars_of (int_text 10 i))"
  using encode_ascii [OF int_text_ascii] by blast

lemma char_text_clean: "valid c \<Longrightarrow> clean_chars valid (char_text c)"
proof -
  assume v: "valid c"
  have p: "clean_chars valid (chars_of [0x23, 0x5C])" using encode_ascii [of "[0x23, 0x5C]"] by simp
  have x: "clean_chars valid (chars_of [0x78])" using encode_ascii [of "[0x78]"] by simp
  show ?thesis
  proof (cases "special_name c scm_special_char_table")
    case None
    have "c \<noteq> 0" if "\<not> ICHAR_CONTROLP c" using that by (auto simp: ICHAR_CONTROLP_def word_sle_eq)
    then show ?thesis using p x v encode_ascii [OF hex2_ascii [of c]] None by (auto simp: char_text_def)
  next
    case (Some name)
    then show ?thesis using p encode_ascii [OF name_ascii [OF Some]] by (simp add: char_text_def)
  qed
qed

lemma show_clean: "datum_ok codec valid d \<Longrightarrow> clean_chars valid (show_datum d)"
proof (induction d)
  case (DSym cs)
  then show ?case using ascii_encoded by (auto simp: symbol_text_ok_def token_char_def clean_chars_def word_sle_eq)
next
  case (DStr cs)
  then have "clean_chars valid cs" by (auto simp: clean_chars_def)
  then show ?case using write_string_loop_text(2) encode_ascii [of "[0x22]"] by simp
next
  case (DBytes bs)
  have "clean_chars valid [0x23, 0x75, 0x38, 0x28]" using encode_ascii [of "[0x23, 0x75, 0x38, 0x28]"] by simp
  then show ?case using body_text_clean [of "List.map (\<lambda>b. chars_of (int_text 10 (uint b))) bs" None] int_clean by simp
next
  case (DList ds e)
  have "clean_chars valid [0x28]" using encode_ascii [of "[0x28]"] by simp
  then show ?case using DList body_text_clean [of "List.map show_datum ds"] by auto
next
  case (DVec ds)
  have "clean_chars valid [0x23, 0x28]" using encode_ascii [of "[0x23, 0x28]"] by simp
  then show ?case using DVec body_text_clean [of "List.map show_datum ds" None] by auto
next
  case DNull
  then show ?case using encode_ascii [of "[0x28, 0x29]"] by simp
next
  case (DBool b)
  then show ?case using encode_ascii [of "[0x23, 0x74]"] encode_ascii [of "[0x23, 0x66]"] by simp
qed (simp_all add: int_clean char_text_clean)

text \<open>What is written to a new output string port and read back from its string.\<close>

lemma make_port_ok:
  assumes "brk_ok h" "MAKE_PORT h ps p f = (port, h', ps')"
  shows "heap_le h h'" "brk_ok h'"
  using assms by (auto simp: MAKE_PORT_def scm_make_port_def alloc_ptr_def alloc_def Let_def heap_le_def brk_ok_def)

lemma get_output_brk:
  "scm_p_srfi6_get_output_string codec h ps port = Some (Inr (str, h')) \<Longrightarrow> brk_ok h \<Longrightarrow> brk_ok h'"
  by (auto simp: scm_p_srfi6_get_output_string_def check_def scm_make_string_def scm_make_string_internal_def alloc_ptr_def alloc_def
      Let_def brk_ok_def split: sum.splits Option.bind_splits if_splits)

lemma port_text: "port_holds codec valid h ps port cs \<Longrightarrow> port_holds codec valid h ps port ([] @ cs @ [])"
  by simp

lemma write_read:
  assumes env: "plain_env codec valid env port" and d: "datum_ok codec valid d" "stands_for codec valid (we_heap env) x d"
    and port: "scm_p_srfi6_open_output_string codec h ps = (port, we_heap env, ps1)" "brk_ok h" "next_impl ps \<noteq> 0" and tab: "symtab_ok h tab"
  shows "\<exists>st str h2 inp h3 ps3 y h4 tab' ps4.
    scm_write env port x \<lparr>w_ports = ps1, l_write_ss_ctx = None\<rparr> = Some (Inr st) \<and>
    scm_p_srfi6_get_output_string codec (we_heap env) (w_ports st) port = Some (Inr (str, h2)) \<and>
    string_is codec valid h2 str (show_datum d) True \<and>
    scm_p_srfi6_open_input_string codec h2 (w_ports st) str = Inr (inp, h3, ps3) \<and>
    scm_read codec syms h3 tab ps3 inp = Some (Inr (y, h4, tab', ps4)) \<and>
    stands_for codec valid h4 y d \<and> stands_for codec valid h4 x d \<and> port_holds codec valid h4 ps4 inp []"
proof -
  note o = open_output_collected [OF port(2,3,1)]
  let ?st = "\<lparr>w_ports = ps1, l_write_ss_ctx = None\<rparr>"
  have st: "out_ok codec env port ?st []" using o(1) by (simp add: out_ok_def)
  obtain st where w: "scm_write env port x ?st = Some (Inr st)" "out_ok codec env port st ([] @ show_datum d)"
    using scm_write_datum [OF env d st o(5)] by blast
  have pc: "port_collected codec (we_heap env) (w_ports st) port (show_datum d)" and ni: "next_impl (w_ports st) \<noteq> 0"
    using w(2) by (simp_all add: out_ok_def port_collected_def)
  have "\<forall>c \<in> set (show_datum d). valid c \<and> c \<noteq> 0" using show_clean [OF d(1)] by (simp add: clean_chars_def)
  then obtain str h2 where g: "scm_p_srfi6_get_output_string codec (we_heap env) (w_ports st) port = Some (Inr (str, h2))"
      "string_is codec valid h2 str (show_datum d) True" "heap_le (we_heap env) h2"
    using get_output_collected [OF o(3,2) pc] by blast
  obtain inp h3 ps3 where i: "scm_p_srfi6_open_input_string codec h2 (w_ports st) str = Inr (inp, h3, ps3)"
      "port_holds codec valid h3 ps3 inp (show_datum d)"
    by (rule open_input_holds [OF g(2) ni])
  have h3: "heap_le h2 h3" "brk_ok h3"
    using i(1) make_port_ok [OF get_output_brk [OF g(1) o(3)]]
    by (auto simp: scm_p_srfi6_open_input_string_def ENSURE_STRING_def and_then_def split: if_splits)
  have le: "heap_le h h3" using heap_le_trans [OF heap_le_trans [OF o(4) g(3)] h3(1)] .
  have e: "ends_token []" by (simp add: ends_token_def)
  obtain y h4 tab' ps4 where r: "scm_read codec syms h3 tab ps3 inp = Some (Inr (y, h4, tab', ps4))"
      "stands_for codec valid h4 y d" "port_holds codec valid h4 ps4 inp []" "heap_le h3 h4"
    using scm_read_datum [OF d(1) h3(2) symtab_ok_le [OF tab le] spaces_simps(1) e i(2) [THEN port_text], of syms] by blast
  have "stands_for codec valid h4 x d"
    using stands_for_le [OF d(2) heap_le_trans [OF heap_le_trans [OF g(3) h3(1)] r(4)]] .
  then show ?thesis using w(1) g(1,2) i(1) r(1-3) by blast
qed

end

text \<open>C13: What \<^verbatim>\<open>write\<close> prints, \<^verbatim>\<open>read\<close> reads back. For every codec and every object that stands for a
  datum - booleans, integers, characters, symbols, strings, bytevectors, and proper or dotted lists and
  vectors nested to any depth - that is \<open>datum_ok\<close> - the codec can encode its characters, its symbols are plain tokens,
  and its strings hold no NUL, ESC or DEL: ESC and DEL are printed without the semicolon that the reader of strings demands -
  writing it to a new output string port does not fail, \<^verbatim>\<open>get-output-string\<close> gives
  exactly the text of the datum, and reading an input string port of that string returns an object that stands
  for the same datum and leaves nothing in the port; the written object still stands for it too.\<close>

theorem write_read_roundtrip:
  assumes "(codec, valid) \<in> set codec_domains" "plain_env codec valid env port" "datum_ok codec valid d"
    "stands_for codec valid (we_heap env) x d" "scm_p_srfi6_open_output_string codec h ps = (port, we_heap env, ps1)"
    "brk_ok h" "next_impl ps \<noteq> 0" "symtab_ok h tab"
  shows "\<exists>st str h2 inp h3 ps3 y h4 tab' ps4.
    scm_write env port x \<lparr>w_ports = ps1, l_write_ss_ctx = None\<rparr> = Some (Inr st) \<and>
    scm_p_srfi6_get_output_string codec (we_heap env) (w_ports st) port = Some (Inr (str, h2)) \<and>
    string_is codec valid h2 str (show_datum d) True \<and>
    scm_p_srfi6_open_input_string codec h2 (w_ports st) str = Inr (inp, h3, ps3) \<and>
    scm_read codec syms h3 tab ps3 inp = Some (Inr (y, h4, tab', ps4)) \<and>
    stands_for codec valid h4 y d \<and> stands_for codec valid h4 x d \<and> port_holds codec valid h4 ps4 inp []"
  by (rule reader_codec.write_read [OF codec_domains_reader [OF assms(1)] assms(2-8)])

text \<open>An environment whose markers are invalid, and the list \<^verbatim>\<open>(1 . "a")\<close> with an HIRAGANA letter a.\<close>

definition writing_env :: "heap \<Rightarrow> write_env" where
  "writing_env h = \<lparr>we_heap = h, scm_current_char_codec = utf8_codec_vtbl,
     we_symtab = \<lparr>scm_symbol_hash = [SCM_NULL], scm_symbol_hash_size = 1\<rparr>,
     we_srfi9 = \<lparr>l_initialized = False, l_record_marker = SCM_INVALID, l_record_type_marker = SCM_INVALID\<rparr>,
     l_err_obj_tag = SCM_INVALID, we_word = (\<lambda>_. 0)\<rparr>"

definition writing_heap :: heap where
  "writing_heap = \<lparr>mem = [0 \<mapsto> PairCell (IntObj 1) (Ptr PTAG_MISC 1), 1 \<mapsto> StringCell [0xE3, 0x81, 0x82] 1 True], brk = 2\<rparr>"

definition no_ports :: ports where
  "no_ports = \<lparr>impls = Map.empty, next_impl = 1, scm_in = SCM_FALSE, scm_out = SCM_FALSE, scm_err = SCM_FALSE\<rparr>"

lemma datum_valid: "stands_for codec valid h x d \<Longrightarrow> x \<noteq> SCM_INVALID"
proof (induction rule: stands_for.induct)
  case (list x vs t ds e)
  then show ?case using has_pair_CONSP by (cases vs) force+
qed (auto simp: MAKE_BOOL_def MAKE_CHAR_def symbol_is_def string_is_def)

lemma invalid_stands: "\<not> stands_for codec valid h SCM_INVALID d"
  using datum_valid by blast

lemma writing_list: "stands_for utf8_codec_vtbl utf8_valid writing_heap (Ptr PTAG_CONS 0) (DList [DInt 1] (DStr [0x3042]))"
proof -
  have e: "encode_str utf8_codec_vtbl [0x3042] = [0xE3, 0x81, 0x82]" by code_simp
  have "string_is utf8_codec_vtbl utf8_valid writing_heap (Ptr PTAG_MISC 1) [0x3042] True"
    by (simp add: string_is_def e writing_heap_def utf8_valid_def word_sle_eq)
  from stands_for.string [OF this] show ?thesis
    by (intro stands_for.list [of _ _ "[IntObj 1]" "Ptr PTAG_MISC 1"])
      (auto simp: writing_heap_def has_pair_def stands_for.int)
qed

lemma write_read_roundtrip_witness:
  "\<forall>syms. let (port, h1, ps1) = scm_p_srfi6_open_output_string utf8_codec_vtbl writing_heap no_ports
     in \<exists>st str h2. scm_write (writing_env h1) port (Ptr PTAG_CONS 0) \<lparr>w_ports = ps1, l_write_ss_ctx = None\<rparr> = Some (Inr st) \<and>
       scm_p_srfi6_get_output_string utf8_codec_vtbl h1 (w_ports st) port = Some (Inr (str, h2)) \<and>
       string_is utf8_codec_vtbl utf8_valid h2 str [0x28, 0x31, 0x20, 0x2E, 0x20, 0x22, 0x3042, 0x22, 0x29] True"
proof
  fix syms
  let ?d = "DList [DInt 1] (DStr [0x3042])"
  have d: "datum_ok utf8_codec_vtbl utf8_valid ?d" by (simp add: utf8_valid_def word_sle_eq fits_bounds)
  obtain port h1 ps1 where o: "scm_p_srfi6_open_output_string utf8_codec_vtbl writing_heap no_ports = (port, h1, ps1)"
    by (cases "scm_p_srfi6_open_output_string utf8_codec_vtbl writing_heap no_ports")
  have h: "brk_ok writing_heap" by (simp add: brk_ok_def writing_heap_def)
  have n: "next_impl no_ports \<noteq> 0" by (simp add: no_ports_def)
  have env: "we_heap (writing_env h1) = h1" by (simp add: writing_env_def)
  note oc = open_output_collected [OF h n o]
  have p: "plain_env utf8_codec_vtbl utf8_valid (writing_env h1) port"
    using oc(2) invalid_stands by (simp add: plain_env_def writing_env_def del: PORTP.simps)
  have t: "symtab_ok writing_heap \<lparr>scm_symbol_hash = [SCM_NULL], scm_symbol_hash_size = 1\<rparr>"
    by (simp add: symtab_ok_def bucket_ok_def UINT32_MAX_def exI [of _ "[]"])
  have one: "nat_digits 10 (Suc 0) = [0x31]" by (simp add: nat_digits.simps digit_of_def digit_char_def)
  have printed: "show_datum ?d = [0x28, 0x31, 0x20, 0x2E, 0x20, 0x22, 0x3042, 0x22, 0x29]"
    by (simp add: escape_char_def word_sless_alt int_text_def one)
  have x: "stands_for utf8_codec_vtbl utf8_valid (we_heap (writing_env h1)) (Ptr PTAG_CONS 0) ?d"
    using stands_for_le [OF writing_list oc(4)] by (simp only: env)
  from write_read_roundtrip [OF utf8_in_domains p d x _ h n t, of ps1 syms]
  show "let (port, h1, ps1) = scm_p_srfi6_open_output_string utf8_codec_vtbl writing_heap no_ports
     in \<exists>st str h2. scm_write (writing_env h1) port (Ptr PTAG_CONS 0) \<lparr>w_ports = ps1, l_write_ss_ctx = None\<rparr> = Some (Inr st) \<and>
       scm_p_srfi6_get_output_string utf8_codec_vtbl h1 (w_ports st) port = Some (Inr (str, h2)) \<and>
       string_is utf8_codec_vtbl utf8_valid h2 str [0x28, 0x31, 0x20, 0x2E, 0x20, 0x22, 0x3042, 0x22, 0x29] True"
    unfolding o env printed by auto
qed

end
