(* ===== verification/Machine.thy ===== *)
theory Machine
  imports Writer
begin

text \<open>
  The vocabulary of the evaluator: the state it runs in, the sequencing of its steps and the macros of
  \<^verbatim>\<open>src/sigschemeinternal.h\<close> that check arguments.

  A step takes the state of the machine and gives an outcome and the next state: a value, an error
  that was raised, or a jump out of the C functions to the frame of a \<^verbatim>\<open>setjmp\<close>. \<open>None\<close> is a run
  that does not return. \<open>loop\<close> is a loop of the source whose body may run the evaluator; it is monotone
  in its body, so that the evaluator can be a least fixed point over the bodies of all its loops.
\<close>

section \<open>State\<close>

datatype 'a outcome = Value 'a | Raised scm_error | Jumped nat

text \<open>A frame of \<^verbatim>\<open>call-with-current-continuation\<close> on the C stack, by its address.\<close>

record scm_continuation_frame =
  cf_dyn_ext :: obj
  cf_ret_val :: obj

record mach =
  m_heap :: heap
  l_current_dynamic_extent :: obj
  l_continuation_stack :: obj
  m_frames :: "nat \<Rightarrow> scm_continuation_frame"
  m_next_frame :: nat

type_synonym 'a run = "mach \<Rightarrow> ('a outcome \<times> mach) option"

datatype ScmNestState = SCM_NEST_PROGRAM | SCM_NEST_COMMAND_OR_DEFINITION | SCM_NEST_COMMAND | SCM_NEST_RETTYPE_BEGIN

definition SCM_VALTYPE_AS_IS :: bool where [simp]: "SCM_VALTYPE_AS_IS = False"
definition SCM_VALTYPE_NEED_EVAL :: bool where [simp]: "SCM_VALTYPE_NEED_EVAL = True"

record eval_state =
  es_env :: obj
  ret_type :: bool
  nest :: ScmNestState

definition SCM_INTERACTION_ENV :: obj where "SCM_INTERACTION_ENV = SCM_NULL"
definition SCM_INTERACTION_ENV_INDEFINABLE :: obj where "SCM_INTERACTION_ENV_INDEFINABLE = SCM_EOF"

definition SCM_EVAL_STATE_INIT2 :: "obj \<Rightarrow> bool \<Rightarrow> eval_state" where
  "SCM_EVAL_STATE_INIT2 env rtype =
     \<lparr>es_env = env, ret_type = rtype, nest = (if env = SCM_INTERACTION_ENV then SCM_NEST_PROGRAM else SCM_NEST_COMMAND)\<rparr>"

definition SCM_EVAL_STATE_INIT1 :: "obj \<Rightarrow> eval_state" where
  "SCM_EVAL_STATE_INIT1 env = SCM_EVAL_STATE_INIT2 env SCM_VALTYPE_NEED_EVAL"

definition SCM_DEFINABLE_TOPLEVELP :: "eval_state \<Rightarrow> bool" where
  "SCM_DEFINABLE_TOPLEVELP st \<longleftrightarrow> es_env st \<noteq> SCM_INTERACTION_ENV_INDEFINABLE \<and> scm_toplevel_environmentp (es_env st) \<and>
     (nest st = SCM_NEST_PROGRAM \<or> nest st = SCM_NEST_COMMAND_OR_DEFINITION)"

definition FORBID_TOPLEVEL_DEFINITIONS :: "obj \<Rightarrow> obj" where
  "FORBID_TOPLEVEL_DEFINITIONS env = (if env = SCM_INTERACTION_ENV then SCM_INTERACTION_ENV_INDEFINABLE else env)"

text \<open>The answer of the interpretation of a template: no change, or an object to put in its place or to
  splice.\<close>

datatype tr_msg = TR_MSG_NOP | TR_MSG_REPLACE | TR_MSG_SPLICE

section \<open>Steps\<close>

definition ret :: "'a \<Rightarrow> 'a run" where "ret x m = Some (Value x, m)"

definition raise :: "scm_error \<Rightarrow> 'a run" where "raise e m = Some (Raised e, m)"

definition bindm :: "'a run \<Rightarrow> ('a \<Rightarrow> 'b run) \<Rightarrow> 'b run" where
  "bindm p q m = Option.bind (p m) (\<lambda>r. case fst r of
     Value x \<Rightarrow> q x (snd r)
   | Raised e \<Rightarrow> Some (Raised e, snd r)
   | Jumped f \<Rightarrow> Some (Jumped f, snd r))"

text \<open>Functions of the other theories as steps: a value read from the heap, an allocation, a change of
  the heap, and what may fail or not return.\<close>

definition reads :: "(heap \<Rightarrow> 'a) \<Rightarrow> 'a run" where "reads f m = Some (Value (f (m_heap m)), m)"

definition changes :: "(heap \<Rightarrow> 'a \<times> heap) \<Rightarrow> 'a run" where
  "changes f m = (case f (m_heap m) of (x, h) \<Rightarrow> Some (Value x, m\<lparr>m_heap := h\<rparr>))"

definition tries :: "(heap \<Rightarrow> 'a res option) \<Rightarrow> 'a run" where
  "tries f m = Option.bind (f (m_heap m)) (\<lambda>r. case r of Inl e \<Rightarrow> Some (Raised e, m) | Inr x \<Rightarrow> Some (Value x, m))"

definition does :: "(heap \<Rightarrow> ('a \<times> heap) res option) \<Rightarrow> 'a run" where
  "does f m = Option.bind (f (m_heap m)) (\<lambda>r. case r of
     Inl e \<Rightarrow> Some (Raised e, m)
   | Inr xh \<Rightarrow> Some (Value (fst xh), m\<lparr>m_heap := snd xh\<rparr>))"

partial_function (option) loop :: "('s \<Rightarrow> ('s + 'r) run) \<Rightarrow> 's \<Rightarrow> mach \<Rightarrow> ('r outcome \<times> mach) option" where
  "loop body s m = Option.bind (body s m) (\<lambda>r. case fst r of
     Value t \<Rightarrow> (case t of Inl s' \<Rightarrow> loop body s' (snd r) | Inr x \<Rightarrow> Some (Value x, snd r))
   | Raised e \<Rightarrow> Some (Raised e, snd r)
   | Jumped f \<Rightarrow> Some (Jumped f, snd r))"

abbreviation next_round :: "'s \<Rightarrow> ('s + 'r) run" where "next_round s \<equiv> ret (Inl s)"
abbreviation finish :: "'r \<Rightarrow> ('s + 'r) run" where "finish x \<equiv> ret (Inr x)"

lemma bindm_ret [simp]: "bindm (ret x) q = q x"
  by (rule ext) (simp add: bindm_def ret_def)

lemma bindm_ret_right [simp]: "bindm p ret = p"
proof
  fix m show "bindm p ret m = p m"
  proof (cases "p m")
    case (Some r)
    then show ?thesis by (cases r; cases "fst r") (auto simp: bindm_def ret_def)
  qed (simp add: bindm_def)
qed

lemma bindm_raise [simp]: "bindm (raise e) q = raise e"
  by (rule ext) (simp add: bindm_def raise_def)

lemma bindm_value: "p m = Some (Value x, m') \<Longrightarrow> bindm p q m = q x m'"
  by (simp add: bindm_def)

lemma bindm_raised: "p m = Some (Raised e, m') \<Longrightarrow> bindm p q m = Some (Raised e, m')"
  by (simp add: bindm_def)

lemma bindm_reads: "bindm (reads f) q m = q (f (m_heap m)) m"
  by (simp add: bindm_def reads_def)

lemma bindm_changes: "bindm (changes f) q m = (case f (m_heap m) of (x, h) \<Rightarrow> q x (m\<lparr>m_heap := h\<rparr>))"
  by (simp add: bindm_def changes_def split: prod.split)

lemma bindm_tries:
  "bindm (tries f) q m = Option.bind (f (m_heap m)) (\<lambda>r. case r of Inl e \<Rightarrow> Some (Raised e, m) | Inr x \<Rightarrow> q x m)"
  by (cases "f (m_heap m)") (auto simp: bindm_def tries_def split: sum.split)

lemma bindm_does:
  "bindm (does f) q m = Option.bind (f (m_heap m)) (\<lambda>r. case r of
     Inl e \<Rightarrow> Some (Raised e, m) | Inr xh \<Rightarrow> q (fst xh) (m\<lparr>m_heap := snd xh\<rparr>))"
  by (cases "f (m_heap m)") (auto simp: bindm_def does_def split: sum.split)

lemma bindm_assoc [simp]: "bindm (bindm p q) r = bindm p (\<lambda>x. bindm (q x) r)"
  by (rule ext) (auto simp: bindm_def split: bind_split outcome.split)

lemma loop_unfold: "loop body s = bindm (body s) (\<lambda>t. case t of Inl s' \<Rightarrow> loop body s' | Inr x \<Rightarrow> ret x)"
proof
  fix m show "loop body s m = bindm (body s) (\<lambda>t. case t of Inl s' \<Rightarrow> loop body s' | Inr x \<Rightarrow> ret x) m"
    by (subst loop.simps) (auto simp: bindm_def ret_def split: bind_split outcome.split sum.split)
qed

lemmas run_simps = bindm_reads bindm_changes bindm_tries bindm_does

section \<open>Monotonicity\<close>

text \<open>\<open>run_mono B\<close>: the step \<open>B f\<close> is defined on more states when the function \<open>f\<close> it calls is.\<close>

definition run_mono :: "(('a \<Rightarrow> 'b option) \<Rightarrow> 'c run) \<Rightarrow> bool" where
  "run_mono B \<longleftrightarrow> (\<forall>m. mono_option (\<lambda>f. B f m))"

named_theorems run_mono_intros

lemma run_mono_const [run_mono_intros]: "run_mono (\<lambda>f. p)"
  by (simp add: run_mono_def option.const_mono)

lemma run_mono_bindm [run_mono_intros]:
  assumes "run_mono B" "\<And>y. run_mono (\<lambda>f. C f y)"
  shows "run_mono (\<lambda>f. bindm (B f) (C f))"
  unfolding run_mono_def bindm_def
proof (intro allI bind_mono)
  fix m show "mono_option (\<lambda>f. B f m)" using assms(1) by (simp add: run_mono_def)
  fix r :: "'c outcome \<times> mach"
  show "mono_option (\<lambda>f. case fst r of Value x \<Rightarrow> C f x (snd r) | Raised e \<Rightarrow> Some (Raised e, snd r)
      | Jumped k \<Rightarrow> Some (Jumped k, snd r))"
    using assms(2) by (cases "fst r") (simp_all add: run_mono_def option.const_mono)
qed

lemma run_mono_if [run_mono_intros]:
  "run_mono B \<Longrightarrow> run_mono C \<Longrightarrow> run_mono (\<lambda>f. if b then B f else C f)"
  by (cases b) simp_all

lemma run_mono_case_prod [run_mono_intros]:
  "(\<And>a b. run_mono (\<lambda>f. B f a b)) \<Longrightarrow> run_mono (\<lambda>f. case p of (a, b) \<Rightarrow> B f a b)"
  by (cases p) simp

lemma run_mono_case_option [run_mono_intros]:
  "run_mono B \<Longrightarrow> (\<And>x. run_mono (\<lambda>f. C f x)) \<Longrightarrow> run_mono (\<lambda>f. case p of None \<Rightarrow> B f | Some x \<Rightarrow> C f x)"
  by (cases p) simp_all

lemma run_mono_case_sum [run_mono_intros]:
  "(\<And>x. run_mono (\<lambda>f. B f x)) \<Longrightarrow> (\<And>x. run_mono (\<lambda>f. C f x)) \<Longrightarrow>
     run_mono (\<lambda>f. case p of Inl x \<Rightarrow> B f x | Inr x \<Rightarrow> C f x)"
  by (cases p) simp_all

lemma run_mono_case_list [run_mono_intros]:
  "run_mono B \<Longrightarrow> (\<And>x xs. run_mono (\<lambda>f. C f x xs)) \<Longrightarrow> run_mono (\<lambda>f. case p of [] \<Rightarrow> B f | x # xs \<Rightarrow> C f x xs)"
  by (cases p) simp_all

lemma run_mono_case_msg [run_mono_intros]:
  "run_mono B \<Longrightarrow> run_mono C \<Longrightarrow> run_mono D \<Longrightarrow>
     run_mono (\<lambda>f. case msg of TR_MSG_NOP \<Rightarrow> B f | TR_MSG_REPLACE \<Rightarrow> C f | TR_MSG_SPLICE \<Rightarrow> D f)"
  by (cases msg) simp_all

lemma run_mono_let [run_mono_intros]:
  "(\<And>x. run_mono (\<lambda>f. B f x)) \<Longrightarrow> run_mono (\<lambda>f. let x = p in B f x)"
  by simp

text \<open>A loop is the supremum of its unrollings, so it is monotone in its body.\<close>

lemma loop_more:
  assumes "loop b1 s m = Some r" "\<And>s m. option_ord (b1 s m) (b2 s m)"
  shows "loop b2 s m = Some r"
proof -
  have "b1 = b1 \<longrightarrow> loop b2 s m = Some r"
  proof (rule loop.raw_induct [where P = "\<lambda>b s m r. b = b1 \<longrightarrow> loop b2 s m = Some r", OF _ assms(1)])
    fix l b s m r
    assume IH: "\<And>b s m r. l b s m = Some r \<Longrightarrow> b = b1 \<longrightarrow> loop b2 s m = Some r"
      and res: "Option.bind (b s m) (\<lambda>r. case fst r of
        Value t \<Rightarrow> (case t of Inl s' \<Rightarrow> l b s' (snd r) | Inr x \<Rightarrow> Some (Value x, snd r))
      | Raised e \<Rightarrow> Some (Raised e, snd r) | Jumped f \<Rightarrow> Some (Jumped f, snd r)) = Some r"
    show "b = b1 \<longrightarrow> loop b2 s m = Some r"
    proof
      assume b: "b = b1"
      with res obtain x where x: "b1 s m = Some x" by (cases "b1 s m") auto
      then have "b2 s m = Some x" using assms(2) [of s m] by (simp add: flat_ord_def)
      then show "loop b2 s m = Some r"
        using IH res b x by (subst loop.simps) (auto split: outcome.splits sum.splits)
    qed
  qed
  then show ?thesis by simp
qed

lemma loop_ord:
  assumes "\<And>s m. option_ord (b1 s m) (b2 s m)"
  shows "option_ord (loop b1 s m) (loop b2 s m)"
proof (cases "loop b1 s m")
  case (Some r)
  then show ?thesis using loop_more [OF Some assms] by (simp add: flat_ord_def)
qed (simp add: flat_ord_def)

lemma run_mono_loop [run_mono_intros]:
  assumes "\<And>s. run_mono (\<lambda>f. body f s)"
  shows "run_mono (\<lambda>f. loop (body f) s)"
  using assms unfolding run_mono_def monotone_def by (blast intro: loop_ord)

section \<open>Evaluation points and the table of C functions\<close>

text \<open>What the evaluator may be asked: to evaluate an object in an environment, to call a procedure or
  syntax, and to interpret a template of \<^verbatim>\<open>quasiquote\<close>. A call answers with the next state of the
  evaluation too, a template with a message.\<close>

datatype eval_point =
    P_eval obj obj
  | P_call obj obj eval_state bool
  | P_qquote obj obj int

datatype answer = A_obj obj eval_state | A_msg tr_msg obj

type_synonym eval_rec = "eval_point \<Rightarrow> answer run"

text \<open>The functions that a function object can point to, by the type of their C functions: the syntaxes
  and control procedures of the evaluator, and the others as functions on the heap.\<close>

datatype cfunc =
    F_reduction reduction_operator
  | F_quote | F_lambda | F_if | F_setx | F_cond | F_case | F_and | F_or | F_let | F_letstar | F_letrec | F_begin | F_do
  | F_define | F_delay | F_quasiquote | F_unquote | F_unquote_splicing
  | F_syntax_rules | F_define_syntax | F_let_syntax | F_letrec_syntax | F_expand_macro | F_match
  | F_apply | F_eval | F_map | F_for_each | F_force | F_values | F_call_with_values | F_call_cc | F_dynamic_wind
  | F_primitive "obj list \<Rightarrow> heap \<Rightarrow> (obj \<times> heap) res option"

record interp =
  cfuncs :: "nat \<Rightarrow> cfunc"
  scm_sym_quote :: obj
  scm_sym_quasiquote :: obj
  scm_sym_unquote :: obj
  scm_sym_unquote_splicing :: obj
  scm_sym_ellipsis :: obj
  l_sym_else :: obj
  l_sym_yields :: obj
  l_sym_define :: obj
  l_sym_begin :: obj
  l_syn_lambda :: obj
  scm_values_applier :: obj
  l_promise_tag :: obj
  i_srfi9 :: srfi9_state

definition EVAL :: "eval_rec \<Rightarrow> obj \<Rightarrow> obj \<Rightarrow> obj run" where
  "EVAL rec x env = bindm (rec (P_eval x env)) (\<lambda>a. case a of A_obj v _ \<Rightarrow> ret v | A_msg _ v \<Rightarrow> ret v)"

definition call :: "eval_rec \<Rightarrow> obj \<Rightarrow> obj \<Rightarrow> eval_state \<Rightarrow> bool \<Rightarrow> (obj \<times> eval_state) run" where
  "call rec proc args st need_eval = bindm (rec (P_call proc args st need_eval)) (\<lambda>a. case a of
     A_obj v st \<Rightarrow> ret (v, st) | A_msg _ _ \<Rightarrow> raise aborted)"

definition SCM_FINISH_TAILREC_CALL :: "eval_rec \<Rightarrow> obj \<Rightarrow> eval_state \<Rightarrow> obj run" where
  "SCM_FINISH_TAILREC_CALL rec x st = (if ret_type st then EVAL rec x (es_env st) else ret x)"

definition scm_call :: "eval_rec \<Rightarrow> obj \<Rightarrow> obj \<Rightarrow> obj run" where
  "scm_call rec proc args =
     bindm (call rec proc args (SCM_EVAL_STATE_INIT2 SCM_INTERACTION_ENV SCM_VALTYPE_AS_IS) SCM_VALTYPE_AS_IS)
       (\<lambda>(x, st). SCM_FINISH_TAILREC_CALL rec x st)"

section \<open>Argument checks and queues\<close>

definition checks :: "(heap \<Rightarrow> 'a res) \<Rightarrow> 'a run" where "checks f = tries (\<lambda>h. Some (f h))"

lemma bindm_checks: "bindm (checks f) q m = (case f (m_heap m) of Inl e \<Rightarrow> raise e m | Inr x \<Rightarrow> q x m)"
  by (simp add: checks_def bindm_tries raise_def split: sum.split)

definition ensure :: "(heap \<Rightarrow> bool) \<Rightarrow> string \<Rightarrow> obj \<Rightarrow> unit run" where
  "ensure test msg x = checks (\<lambda>h. if test h then Inr () else Inl (ErrObj msg x))"

lemma bindm_ensure: "bindm (ensure test msg x) q m = (if test (m_heap m) then q () m else raise (ErrObj msg x) m)"
  by (simp add: ensure_def bindm_checks)

fun HMACROP :: "heap \<Rightarrow> obj \<Rightarrow> bool" where
  "HMACROP h x = (case misc_cell h x of Some (HmacroCell _ _) \<Rightarrow> True | _ \<Rightarrow> False)"

definition SYNTACTIC_OBJECTP :: "heap \<Rightarrow> obj \<Rightarrow> bool" where
  "SYNTACTIC_OBJECTP h x \<longleftrightarrow> SYNTAXP h x \<or> HMACROP h x"

definition CHECK_VALID_EVALED_VALUE :: "obj \<Rightarrow> unit run" where
  "CHECK_VALID_EVALED_VALUE x = checks (\<lambda>h.
     if SYNTACTIC_OBJECTP h x then Inl (ErrObj ''syntactic keyword is evaluated as value'' x)
     else if VALUEPACKETP h x then Inl (ErrObj ''multiple values are not allowed here'' x)
     else Inr ())"

definition ASSERT_NO_MORE_ARG :: "obj \<Rightarrow> unit run" where
  "ASSERT_NO_MORE_ARG args = checks (\<lambda>_. ENSURE_NO_MORE_ARG args)"

definition ASSERT_PROPER_ARG_LIST :: "obj \<Rightarrow> unit run" where
  "ASSERT_PROPER_ARG_LIST args = tries (\<lambda>h. map_option (\<lambda>len.
     if SCM_LISTLEN_PROPERP len then Inr () else Inl (ErrObj ''bad argument list'' args)) (scm_length h args))"

definition ENSURE_IDENTIFIER :: "obj \<Rightarrow> unit run" where
  "ENSURE_IDENTIFIER x = ensure (\<lambda>h. IDENTIFIERP h x) ''identifier required but got'' x"

definition LIST_1_P :: "heap \<Rightarrow> obj \<Rightarrow> bool" where
  "LIST_1_P h lst \<longleftrightarrow> CONSP lst \<and> NULLP (CDR h lst)"

definition LIST_2_P :: "heap \<Rightarrow> obj \<Rightarrow> bool" where
  "LIST_2_P h lst \<longleftrightarrow> CONSP lst \<and> LIST_1_P h (CDR h lst)"

definition CADR :: "heap \<Rightarrow> obj \<Rightarrow> obj" where "CADR h x = CAR h (CDR h x)"

definition SAFE_POP :: "heap \<Rightarrow> obj \<Rightarrow> obj" where "SAFE_POP h lst = (if CONSP lst then CDR h lst else lst)"

definition CONS :: "obj \<Rightarrow> obj \<Rightarrow> obj run" where "CONS x y = changes (\<lambda>h. scm_make_cons h x y)"

definition SCM_LIST_1 :: "obj \<Rightarrow> obj run" where "SCM_LIST_1 x = CONS x SCM_NULL"
definition SCM_LIST_2 :: "obj \<Rightarrow> obj \<Rightarrow> obj run" where "SCM_LIST_2 x y = bindm (SCM_LIST_1 y) (CONS x)"
definition SCM_LIST_3 :: "obj \<Rightarrow> obj \<Rightarrow> obj \<Rightarrow> obj run" where "SCM_LIST_3 x y z = bindm (SCM_LIST_2 y z) (CONS x)"

text \<open>A queue with the variable it started from.\<close>

type_synonym queue = "obj \<times> ref"

definition QUEUE_POINT_TO :: "obj \<Rightarrow> queue" where "QUEUE_POINT_TO out = (out, RefOffHeap)"

definition QUEUE_ADD :: "queue \<Rightarrow> obj \<Rightarrow> queue run" where
  "QUEUE_ADD q x = changes (\<lambda>h. case queue_add h (fst q) (snd q) x of (h, out, r) \<Rightarrow> ((out, r), h))"

definition QUEUE_SLOPPY_APPEND :: "queue \<Rightarrow> obj \<Rightarrow> queue run" where
  "QUEUE_SLOPPY_APPEND q lst = changes (\<lambda>h. case SCM_SET h (fst q) (snd q) lst of (h, out) \<Rightarrow> ((out, snd q), h))"

partial_function (option) queue_last :: "heap \<Rightarrow> obj \<Rightarrow> ref \<Rightarrow> ref option" where
  "queue_last h out q =
     (if CONSP (DEREF h out q) then queue_last h out (REF_CDR (DEREF h out q)) else Some q)"

definition QUEUE_APPEND :: "queue \<Rightarrow> obj \<Rightarrow> queue run" where
  "QUEUE_APPEND q lst = bindm (QUEUE_SLOPPY_APPEND q lst) (\<lambda>q.
     tries (\<lambda>h. map_option (\<lambda>r. Inr (fst q, r)) (queue_last h (fst q) (snd q))))"

definition QUEUE_TERMINATOR :: "heap \<Rightarrow> queue \<Rightarrow> obj" where
  "QUEUE_TERMINATOR h q = DEREF h (fst q) (snd q)"

lemma run_mono_answer [run_mono_intros]:
  "(\<And>v st. run_mono (\<lambda>f. B f v st)) \<Longrightarrow> (\<And>msg v. run_mono (\<lambda>f. C f msg v)) \<Longrightarrow>
     run_mono (\<lambda>f. case a of A_obj v st \<Rightarrow> B f v st | A_msg msg v \<Rightarrow> C f msg v)"
  by (cases a) simp_all

lemma eval_mono:
  assumes "\<And>p. run_mono (\<lambda>f. rec f p)"
  shows "run_mono (\<lambda>f. EVAL (rec f) x env)" "run_mono (\<lambda>f. call (rec f) proc args st need_eval)"
    "run_mono (\<lambda>f. SCM_FINISH_TAILREC_CALL (rec f) y st)" "run_mono (\<lambda>f. scm_call (rec f) proc args)"
proof -
  show ev: "run_mono (\<lambda>f. EVAL (rec f) x env)" for x env
    unfolding EVAL_def by (intro run_mono_intros assms)
  show cl: "run_mono (\<lambda>f. call (rec f) proc args st need_eval)" for proc args st need_eval
    unfolding call_def by (intro run_mono_intros assms)
  show fin: "run_mono (\<lambda>f. SCM_FINISH_TAILREC_CALL (rec f) y st)" for y st
    unfolding SCM_FINISH_TAILREC_CALL_def by (intro run_mono_intros ev)
  show "run_mono (\<lambda>f. scm_call (rec f) proc args)"
    unfolding scm_call_def by (intro run_mono_intros cl fin)
qed

end
