(* ===== verification/Macro.thy ===== *)
theory Macro
  imports Machine
begin

text \<open>
  Hygienic macros, \<^verbatim>\<open>src/macro.c\<close> without libraries: the compiler of patterns and templates, the
  matcher, the transcription of templates, the expansion of a macro use and the unwrapping of syntax.

  A compiled pattern is a datum with subpattern objects in it: the mark of a pattern variable, or a
  repeatable subpattern with the number of its variables. A variable of a template has its index in
  the list of what was matched, and its level. The recursive functions are least fixed points over the
  point of the code they run, their loops use \<open>loop\<close>.
\<close>

section \<open>Compiled patterns\<close>

fun HMACRO_ENV :: "heap \<Rightarrow> obj \<Rightarrow> int" where
  "HMACRO_ENV h x = (case misc_cell h x of Some (HmacroCell _ env) \<Rightarrow> env | _ \<Rightarrow> 0)"

fun SUBPATP :: "heap \<Rightarrow> obj \<Rightarrow> bool" where
  "SUBPATP h x = (case misc_cell h x of Some (SubpatCell _ _) \<Rightarrow> True | _ \<Rightarrow> False)"

definition PVAR_INDEX :: "heap \<Rightarrow> obj \<Rightarrow> int" where "PVAR_INDEX h x = SUBPAT_META h x"
definition PVARP :: "heap \<Rightarrow> obj \<Rightarrow> bool" where "PVARP h x \<longleftrightarrow> PVAR_INDEX h x \<ge> 0"
definition REPPAT_PAT :: "heap \<Rightarrow> obj \<Rightarrow> obj" where "REPPAT_PAT h x = SUBPAT_OBJ h x"
definition REPPAT_PVCOUNT :: "heap \<Rightarrow> obj \<Rightarrow> int" where "REPPAT_PVCOUNT h x = NOT (SUBPAT_META h x)"
definition REPPATP :: "heap \<Rightarrow> obj \<Rightarrow> bool" where "REPPATP h x \<longleftrightarrow> PVAR_INDEX h x < 0"
definition TEMPLATE_PVAR_LEVEL :: "heap \<Rightarrow> obj \<Rightarrow> int" where
  "TEMPLATE_PVAR_LEVEL h x = SCM_INT_VALUE (SUBPAT_OBJ h x)"

definition MAKE_PVAR :: "obj \<Rightarrow> int \<Rightarrow> obj run" where
  "MAKE_PVAR x index = changes (\<lambda>h. scm_make_subpat h SCM_NULL index)"
definition MAKE_REPPAT :: "obj \<Rightarrow> int \<Rightarrow> obj run" where
  "MAKE_REPPAT subpat pvcount = changes (\<lambda>h. scm_make_subpat h subpat (NOT pvcount))"
definition MAKE_TEMPLATE_PVAR :: "int \<Rightarrow> int \<Rightarrow> obj run" where
  "MAKE_TEMPLATE_PVAR index level = changes (\<lambda>h. scm_make_subpat h (IntObj level) index)"

definition scm_make_hmacro :: "obj \<Rightarrow> obj \<Rightarrow> obj run" where
  "scm_make_hmacro rules env = does (\<lambda>h. map_option (\<lambda>penv. Inr (alloc_ptr PTAG_MISC h (HmacroCell rules penv)))
     (scm_pack_env h env))"

section \<open>The pattern compiler\<close>

record compilation_context =
  pvmark :: obj
  pv_syms :: obj
  pv_vals :: obj
  pvlen :: int
  literals :: obj
  ellipsis :: obj
  mode_pattern :: bool

definition UNWRAP_KEYWORD :: "obj \<Rightarrow> obj run" where
  "UNWRAP_KEYWORD x = tries (\<lambda>h. map_option Inr (scm_unwrap_keyword h x))"

definition init_compilation_context :: "obj \<Rightarrow> obj \<Rightarrow> compilation_context run" where
  "init_compilation_context ell lits =
     bindm (MAKE_PVAR SCM_NULL 0) (\<lambda>mark.
     bindm (UNWRAP_KEYWORD ell) (\<lambda>ell.
       ret \<lparr>pvmark = mark, pv_syms = SCM_NULL, pv_vals = SCM_NULL, pvlen = 0, literals = lits, ellipsis = ell,
            mode_pattern = True\<rparr>))"

definition ellipsisp :: "compilation_context \<Rightarrow> obj \<Rightarrow> bool run" where
  "ellipsisp ctx x = tries (\<lambda>h. if IDENTIFIERP h x then map_option (\<lambda>k. Inr (k = ellipsis ctx)) (scm_unwrap_keyword h x)
     else Some (Inr False))"

definition misplaced_ellipsis :: "obj \<Rightarrow> 'a run" where
  "misplaced_ellipsis form = raise (ErrObj ''misplaced ellipsis'' form)"

partial_function (option) list_find_index_loop :: "heap \<Rightarrow> obj \<Rightarrow> obj \<Rightarrow> int \<Rightarrow> int option" where
  "list_find_index_loop h x ls index =
     (if CONSP ls then
        (if x = CAR h ls then Some index else list_find_index_loop h x (CDR h ls) (index + 1))
      else Some (-1))"

definition list_find_index :: "heap \<Rightarrow> obj \<Rightarrow> obj \<Rightarrow> int option" where
  "list_find_index h x ls = list_find_index_loop h x ls 0"

text \<open>An identifier in a pattern is a variable unless it is a literal. In a template it is a variable
  when the pattern has it; its marker is made once and kept beside its level.\<close>

definition compile_pattern_identifier :: "compilation_context \<Rightarrow> obj \<Rightarrow> int \<Rightarrow> (obj \<times> compilation_context) run" where
  "compile_pattern_identifier ctx form level =
     bindm (tries (\<lambda>h. scm_p_memq h form (literals ctx))) (\<lambda>lit.
     if lit = SCM_FALSE then
       bindm (tries (\<lambda>h. scm_p_memq h form (pv_syms ctx))) (\<lambda>dup.
       if dup \<noteq> SCM_FALSE then raise (ErrObj ''duplicate pattern variable'' form)
       else bindm (CONS form (pv_syms ctx)) (\<lambda>syms.
         bindm (CONS (IntObj level) (pv_vals ctx)) (\<lambda>vals.
           ret (pvmark ctx, ctx\<lparr>pv_syms := syms, pv_vals := vals, pvlen := pvlen ctx + 1\<rparr>))))
     else ret (form, ctx))"

definition compile_template_identifier :: "compilation_context \<Rightarrow> obj \<Rightarrow> int \<Rightarrow> (obj \<times> compilation_context) run" where
  "compile_template_identifier ctx form level =
     bindm (tries (\<lambda>h. map_option Inr (list_find_index h form (pv_syms ctx)))) (\<lambda>index.
     if index < 0 then ret (form, ctx)
     else
       bindm (tries (\<lambda>h. map_option Inr (scm_list_tail h (pv_vals ctx) index))) (\<lambda>tail.
       bindm (reads (\<lambda>h. (CAR h tail, CAR h (CAR h tail), CDR h (CAR h tail)))) (\<lambda>(val, marker, lev).
       bindm (if CONSP val then ret (marker, SCM_INT_VALUE lev)
              else bindm (MAKE_TEMPLATE_PVAR index (SCM_INT_VALUE val)) (\<lambda>marker.
                bindm (CONS marker val) (\<lambda>entry.
                bindm (changes (\<lambda>h. ((), SET_CAR h tail entry))) (\<lambda>_. ret (marker, SCM_INT_VALUE val)))))
       (\<lambda>(marker, pvlevel).
         let ctx = (if level = pvlevel then ctx\<lparr>pvlen := pvlen ctx + 1\<rparr> else ctx) in
         if level < pvlevel then raise (ErrObj ''pattern variable used at wrong level'' form)
         else ret (marker, ctx)))))"

type_synonym compile_rec_t = "compilation_context \<Rightarrow> obj \<Rightarrow> int \<Rightarrow> (obj \<times> compilation_context) run"

text \<open>The end of a list: its last cdr is compiled unless the list is proper.\<close>

definition compile_tail ::
    "compile_rec_t \<Rightarrow> obj \<Rightarrow> int \<Rightarrow> queue \<Rightarrow> obj \<Rightarrow> compilation_context \<Rightarrow> (obj \<times> compilation_context) run" where
  "compile_tail rec form level q rest ctx =
     (if NULLP rest then ret (fst q, ctx)
      else bindm (ellipsisp ctx rest) (\<lambda>e.
        if e then misplaced_ellipsis form
        else bindm (rec ctx rest level) (\<lambda>(x, ctx).
          bindm (QUEUE_SLOPPY_APPEND q x) (\<lambda>q. ret (fst q, ctx)))))"

text \<open>The loop over a list, from the label \<^verbatim>\<open>restart\<close> when \<open>fresh\<close>.\<close>

type_synonym compile_state = "bool \<times> obj \<times> queue \<times> compilation_context"

definition compile_list_step ::
    "compile_rec_t \<Rightarrow> obj \<Rightarrow> int \<Rightarrow> compile_state \<Rightarrow> (compile_state + obj \<times> compilation_context) run" where
  "compile_list_step rec form level = (\<lambda>(fresh, rest, q, ctx).
     bindm (reads (\<lambda>h. (CAR h rest, CDR h rest))) (\<lambda>(x, rest).
     bindm (if fresh then ellipsisp ctx x else ret False) (\<lambda>e.
     if e then misplaced_ellipsis form
     else if \<not> CONSP rest then
       bindm (rec ctx x level) (\<lambda>(y, ctx). bindm (QUEUE_ADD q y) (\<lambda>q.
       bindm (compile_tail rec form level q rest ctx) finish))
     else bindm (reads (\<lambda>h. (CAR h rest, CDR h rest))) (\<lambda>(next, after).
       bindm (ellipsisp ctx next) (\<lambda>e.
       if \<not> e then bindm (rec ctx x level) (\<lambda>(y, ctx). bindm (QUEUE_ADD q y) (\<lambda>q. next_round (False, rest, q, ctx)))
       else bindm (rec ctx x (level + 1)) (\<lambda>(subpat, ctx').
         bindm (MAKE_REPPAT subpat (pvlen ctx' - pvlen ctx)) (\<lambda>subpat.
         bindm (QUEUE_ADD q subpat) (\<lambda>q.
         if mode_pattern ctx' \<and> \<not> NULLP after then misplaced_ellipsis form
         else if \<not> mode_pattern ctx' \<and> pvlen ctx' = pvlen ctx
         then raise (ErrObj ''constant repeatable subtemplate'' form)
         else if CONSP after then next_round (True, after, q, ctx')
         else bindm (compile_tail rec form level q after ctx') finish))))))))"

definition compile_list :: "compile_rec_t \<Rightarrow> compilation_context \<Rightarrow> obj \<Rightarrow> int \<Rightarrow> (obj \<times> compilation_context) run" where
  "compile_list rec ctx form level = loop (compile_list_step rec form level) (True, form, QUEUE_POINT_TO form, ctx)"

text \<open>Vectors: the count of the ellipses, then the elements, written in place into a new vector. The
  second loop has the index of the next input and output element.\<close>

definition count_ellipses_step ::
    "compilation_context \<Rightarrow> obj \<Rightarrow> obj list \<times> bool \<times> bool \<times> int \<Rightarrow> (obj list \<times> bool \<times> bool \<times> int + bool \<times> int) run" where
  "count_ellipses_step ctx form = (\<lambda>(xs, ellipsis_ok, constantp, ellipses). case xs of
       [] \<Rightarrow> finish (constantp, ellipses)
     | x # xs \<Rightarrow>
         bindm (reads (\<lambda>h. constantp \<and> \<not> (CONSP x \<or> IDENTIFIERP h x \<or> VECTORP h x))) (\<lambda>constantp.
         bindm (ellipsisp ctx x) (\<lambda>e.
         if e then (if ellipsis_ok then next_round (xs, False, constantp, ellipses + 1) else misplaced_ellipsis form)
         else next_round (xs, True, constantp, ellipses))))"

definition store_element :: "obj \<Rightarrow> int \<Rightarrow> obj \<Rightarrow> unit run" where
  "store_element vec j x = changes (\<lambda>h. ((), store_vector h vec ((VECTOR_VEC h vec)[nat j := x])))"

definition compile_vector_step ::
    "compile_rec_t \<Rightarrow> obj \<Rightarrow> int \<Rightarrow> obj list \<Rightarrow> obj \<Rightarrow> int \<times> int \<times> compilation_context \<Rightarrow>
     (int \<times> int \<times> compilation_context + obj \<times> compilation_context) run" where
  "compile_vector_step rec form level invec out = (\<lambda>(i, j, ctx).
     let len = int (length invec) in
     if i < len then
       bindm (ellipsisp ctx (invec ! nat i)) (\<lambda>e.
       if e then
         bindm (rec ctx (invec ! nat (i - 1)) (level + 1)) (\<lambda>(subpat, ctx').
         if \<not> mode_pattern ctx' \<and> pvlen ctx' = pvlen ctx
         then raise (ErrObj ''constant repeatable subtemplate'' form)
         else bindm (MAKE_REPPAT subpat (pvlen ctx' - pvlen ctx)) (\<lambda>reppat.
           bindm (store_element out j reppat) (\<lambda>_.
           if i + 1 = len then finish (out, ctx') else next_round (i + 2, j + 1, ctx'))))
       else bindm (rec ctx (invec ! nat (i - 1)) level) (\<lambda>(x, ctx).
         bindm (store_element out j x) (\<lambda>_. next_round (i + 1, j + 1, ctx))))
     else bindm (rec ctx (invec ! nat (i - 1)) level) (\<lambda>(x, ctx).
       bindm (store_element out j x) (\<lambda>_. finish (out, ctx))))"

definition compile_vector :: "compile_rec_t \<Rightarrow> compilation_context \<Rightarrow> obj \<Rightarrow> int \<Rightarrow> (obj \<times> compilation_context) run" where
  "compile_vector rec ctx form level =
     bindm (reads (\<lambda>h. VECTOR_VEC h form)) (\<lambda>invec.
     if invec = [] then ret (form, ctx)
     else
       bindm (loop (count_ellipses_step ctx form) (invec, False, True, 0)) (\<lambda>(constantp, ellipses).
       if constantp then ret (form, ctx)
       else
         bindm (ellipsisp ctx (invec ! (length invec - 1))) (\<lambda>last_e.
         if mode_pattern ctx \<and> (1 < ellipses \<or> ellipses \<noteq> 0 \<and> \<not> last_e) then misplaced_ellipsis form
         else bindm (changes (\<lambda>h. scm_make_vector h (replicate (length invec - nat ellipses) SCM_NULL))) (\<lambda>out.
           loop (compile_vector_step rec form level invec out) (1, 0, ctx)))))"

definition compile_form :: "compile_rec_t \<Rightarrow> compile_rec_t" where
  "compile_form rec ctx form level =
     bindm (reads (\<lambda>h. (VECTORP h form, IDENTIFIERP h form))) (\<lambda>(vectorp, identifierp).
     if CONSP form then compile_list rec ctx form level
     else if vectorp then compile_vector rec ctx form level
     else if identifierp then
       (if mode_pattern ctx then compile_pattern_identifier ctx form level
        else compile_template_identifier ctx form level)
     else ret (form, ctx))"

lemma compile_mono:
  assumes "\<And>ctx x level. run_mono (\<lambda>f. rec f ctx x level)"
  shows "run_mono (\<lambda>f. compile_form (rec f) ctx form level)"
proof -
  have tail: "run_mono (\<lambda>f. compile_tail (rec f) form level q rest ctx)" for form level q rest ctx
    unfolding compile_tail_def by (intro run_mono_intros assms)
  have lst: "run_mono (\<lambda>f. compile_list_step (rec f) form level s)" for form level s
    unfolding compile_list_step_def by (intro run_mono_intros assms tail)
  have vec: "run_mono (\<lambda>f. compile_vector_step (rec f) form level invec out s)" for form level invec out s
    unfolding compile_vector_step_def by (intro run_mono_intros assms)
  show ?thesis
    unfolding compile_form_def compile_list_def compile_vector_def by (intro run_mono_intros lst vec)
qed

lemma compile_mono' [partial_function_mono]:
  assumes "\<And>ctx x level m. mono_option (\<lambda>f. rec f ctx x level m)"
  shows "mono_option (\<lambda>f. compile_form (rec f) ctx form level m)"
  using compile_mono [of rec] assms by (simp add: run_mono_def)

partial_function (option) compile_rec ::
    "compilation_context \<Rightarrow> obj \<Rightarrow> int \<Rightarrow> mach \<Rightarrow> ((obj \<times> compilation_context) outcome \<times> mach) option" where
  "compile_rec ctx form level m = compile_form (\<lambda>ctx form level m. compile_rec ctx form level m) ctx form level m"

definition compile :: "compilation_context \<Rightarrow> obj \<Rightarrow> (obj \<times> compilation_context) run" where
  "compile ctx form = bindm (ellipsisp ctx form) (\<lambda>e.
     if e then raise (Err ''misplaced ellipsis'') else compile_rec ctx form 0)"

section \<open>The matcher\<close>

record match_context =
  mc_def_penv :: int
  mc_use_penv :: int
  mc_use_env :: obj

datatype match_point = M_rec obj obj obj | M_reppat obj obj obj

type_synonym match_rec_t = "match_point \<Rightarrow> (bool \<times> obj) run"

partial_function (option) count_pairs :: "heap \<Rightarrow> obj \<Rightarrow> int \<Rightarrow> int option" where
  "count_pairs h ls n = (if CONSP ls then count_pairs h (CDR h ls) (n + 1) else Some n)"

partial_function (option) merge_subs :: "heap \<Rightarrow> obj \<Rightarrow> obj \<Rightarrow> obj \<Rightarrow> heap option" where
  "merge_subs h to from end' =
     (if from = end' then Some h
      else let next = CDR h from; h = SET_CDR h from (CAR h to); h = SET_CAR h to from
           in merge_subs h (CDR h to) next end')"

partial_function (option) reversex_loop :: "heap \<Rightarrow> obj \<Rightarrow> obj \<Rightarrow> (heap \<times> obj \<times> obj) option" where
  "reversex_loop h in' out =
     (if CONSP in' then let next = CDR h in'; h = SET_CDR h in' out in reversex_loop h next in'
      else Some (h, in', out))"

text \<open>The error of \<^verbatim>\<open>reverse!\<close> reports what was reversed so far.\<close>

definition scm_p_reversex :: "obj \<Rightarrow> heap \<Rightarrow> (obj \<times> heap) res option" where
  "scm_p_reversex in' h = map_option (\<lambda>(h, in', out).
     if NULLP in' then Inr (out, h) else Inl (ErrObj ''proper list required but got'' out)) (reversex_loop h in' SCM_NULL)"

definition extend_sub :: "obj \<Rightarrow> obj \<Rightarrow> obj run" where
  "extend_sub x sub = (if VALIDP sub then CONS x sub else ret sub)"

text \<open>The elements of a pattern list against a form: the rest of both, a mismatch, or the result of a
  repeatable subpattern.\<close>

datatype match_end = Mismatch obj | Match_done "bool \<times> obj" | Match_rest obj obj obj

definition match_pairs_step ::
    "match_rec_t \<Rightarrow> obj \<times> obj \<times> obj \<Rightarrow> (obj \<times> obj \<times> obj + match_end) run" where
  "match_pairs_step rec = (\<lambda>(pat, form, sub).
     if \<not> CONSP pat then finish (Match_rest pat form sub)
     else bindm (reads (\<lambda>h. (CAR h pat, CDR h pat, SUBPATP h (CAR h pat) \<and> REPPATP h (CAR h pat))))
       (\<lambda>(subpat, rest, reppat).
       if reppat then bindm (rec (M_reppat pat form sub)) (\<lambda>r. finish (Match_done r))
       else if \<not> CONSP form then finish (Mismatch sub)
       else bindm (reads (\<lambda>h. (CAR h form, CDR h form))) (\<lambda>(x, form).
         bindm (rec (M_rec subpat x sub)) (\<lambda>(ok, sub).
         if ok then next_round (rest, form, sub) else finish (Mismatch sub)))))"

definition match_elements_step ::
    "match_rec_t \<Rightarrow> (obj \<times> obj) list \<times> obj \<Rightarrow> ((obj \<times> obj) list \<times> obj + bool \<times> obj) run" where
  "match_elements_step rec = (\<lambda>(ps, sub). case ps of
       [] \<Rightarrow> finish (True, sub)
     | p # ps \<Rightarrow> bindm (rec (M_rec (fst p) (snd p) sub)) (\<lambda>(ok, sub).
         if ok then next_round (ps, sub) else finish (False, sub)))"

definition match_vector :: "match_rec_t \<Rightarrow> obj \<Rightarrow> obj \<Rightarrow> obj \<Rightarrow> (bool \<times> obj) run" where
  "match_vector rec pat form sub =
     bindm (reads (\<lambda>h. (VECTOR_VEC h pat, VECTOR_VEC h form,
        let p = VECTOR_VEC h pat ! (length (VECTOR_VEC h pat) - 1) in SUBPATP h p \<and> REPPATP h p)))
     (\<lambda>(pvec, fvec, reppat).
       let plen = length pvec; flen = length fvec in
       if plen = 0 then ret (flen = 0, sub)
       else if reppat then
         (if flen < plen - 1 then ret (False, sub)
          else bindm (loop (match_elements_step rec) (zip (take (plen - 1) pvec) fvec, sub)) (\<lambda>(ok, sub).
            if ok then rec (M_reppat pat form sub) else ret (False, sub)))
       else if plen \<noteq> flen then ret (False, sub)
       else loop (match_elements_step rec) (zip pvec fvec, sub))"

definition match_atom :: "interp \<Rightarrow> match_context \<Rightarrow> match_rec_t \<Rightarrow> obj \<Rightarrow> obj \<Rightarrow> obj \<Rightarrow> (bool \<times> obj) run" where
  "match_atom g ctx rec pat form sub =
     bindm (reads (\<lambda>h. (SUBPATP h pat, VECTORP h pat, VECTORP h form, IDENTIFIERP h pat, IDENTIFIERP h form)))
     (\<lambda>(subpatp, vectorp, form_vectorp, identifierp, form_identifierp).
       if subpatp then bindm (extend_sub form sub) (\<lambda>sub. ret (True, sub))
       else if NULLP pat then ret (NULLP form, sub)
       else if vectorp then (if form_vectorp then match_vector rec pat form sub else ret (False, sub))
       else if identifierp then
         (if form_identifierp then
            bindm (tries (\<lambda>h. scm_identifierequalp h pat (mc_def_penv ctx) form (mc_use_penv ctx) (mc_use_env ctx)))
              (\<lambda>eq. ret (eq, sub))
          else ret (False, sub))
       else bindm (tries (\<lambda>h. map_option Inr (EQUALP (i_srfi9 g) h pat form))) (\<lambda>eq. ret (eq, sub)))"

definition match_form :: "interp \<Rightarrow> match_context \<Rightarrow> match_rec_t \<Rightarrow> obj \<Rightarrow> obj \<Rightarrow> obj \<Rightarrow> (bool \<times> obj) run" where
  "match_form g ctx rec pat form sub =
     bindm (loop (match_pairs_step rec) (pat, form, sub)) (\<lambda>r. case r of
       Mismatch sub \<Rightarrow> ret (False, sub)
     | Match_done r \<Rightarrow> ret r
     | Match_rest pat form sub \<Rightarrow> match_atom g ctx rec pat form sub)"

text \<open>Repeatable subpatterns. A variable takes the forms as a list; another pattern is matched with
  each form, and what its variables matched is collected in reverse and turned round at the end.\<close>

partial_function (option) last_tail :: "heap \<Rightarrow> obj \<Rightarrow> obj option" where
  "last_tail h rest = (if CONSP rest then last_tail h (CDR h rest) else Some rest)"

definition take_forms_step :: "int \<times> obj \<times> queue \<Rightarrow> (int \<times> obj \<times> queue + obj \<times> obj) run" where
  "take_forms_step = (\<lambda>(n, rest, q).
     if 0 < n then bindm (reads (\<lambda>h. (CAR h rest, CDR h rest))) (\<lambda>(x, rest).
       bindm (QUEUE_ADD q x) (\<lambda>q. next_round (n - 1, rest, q)))
     else finish (fst q, rest))"

definition match_repeated_variable :: "match_rec_t \<Rightarrow> obj \<Rightarrow> int \<Rightarrow> obj \<Rightarrow> obj \<Rightarrow> (bool \<times> obj) run" where
  "match_repeated_variable rec tail n form sub =
     bindm (if NULLP tail then bindm (tries (\<lambda>h. map_option Inr (last_tail h form))) (\<lambda>rest. ret (form, rest))
            else loop take_forms_step (n, form, QUEUE_POINT_TO SCM_NULL)) (\<lambda>(accum, rest).
     bindm (extend_sub accum sub) (\<lambda>sub. rec (M_rec tail rest sub)))"

definition empty_subs_step :: "int \<times> obj \<Rightarrow> (int \<times> obj + obj) run" where
  "empty_subs_step = (\<lambda>(pvcount, accum).
     if pvcount = 0 then finish accum else bindm (CONS SCM_NULL accum) (\<lambda>accum. next_round (pvcount - 1, accum)))"

definition match_one :: "match_rec_t \<Rightarrow> obj \<Rightarrow> obj \<Rightarrow> obj \<Rightarrow> obj \<Rightarrow> (bool \<times> obj) run" where
  "match_one rec pat x accum sub_save =
     bindm (rec (M_rec pat x sub_save)) (\<lambda>(ok, sub).
     if ok then bindm (does (\<lambda>h. map_option (\<lambda>h. Inr ((), h)) (merge_subs h accum sub sub_save))) (\<lambda>_. ret (True, sub))
     else ret (False, sub))"

definition match_forms_step ::
    "match_rec_t \<Rightarrow> obj \<Rightarrow> obj \<Rightarrow> obj \<Rightarrow> int \<times> obj \<Rightarrow> (int \<times> obj + bool \<times> obj) run" where
  "match_forms_step rec pat accum sub_save = (\<lambda>(n, form).
     if CONSP form \<and> n \<noteq> 0 then
       bindm (reads (\<lambda>h. (CAR h form, CDR h form))) (\<lambda>(x, rest).
       bindm (match_one rec pat x accum sub_save) (\<lambda>(ok, sub).
       if ok then next_round (n - 1, rest) else finish (False, sub)))
     else finish (True, form))"

definition match_slots_step ::
    "match_rec_t \<Rightarrow> obj \<Rightarrow> obj \<Rightarrow> obj \<Rightarrow> obj list \<Rightarrow> (obj list + bool \<times> obj) run" where
  "match_slots_step rec pat accum sub_save xs = (case xs of
       [] \<Rightarrow> finish (True, SCM_NULL)
     | x # xs \<Rightarrow> bindm (match_one rec pat x accum sub_save) (\<lambda>(ok, sub).
         if ok then next_round xs else finish (False, sub)))"

definition reverse_subs_step :: "obj \<Rightarrow> obj \<Rightarrow> (obj + unit) run" where
  "reverse_subs_step sub_save accum =
     (if accum = sub_save then finish ()
      else bindm (reads (\<lambda>h. CAR h accum)) (\<lambda>x.
        bindm (does (scm_p_reversex x)) (\<lambda>y.
        bindm (changes (\<lambda>h. (CDR h accum, SET_CAR h accum y))) next_round)))"

definition match_repeated :: "match_rec_t \<Rightarrow> obj \<Rightarrow> int \<Rightarrow> obj \<Rightarrow> obj \<Rightarrow> obj \<Rightarrow> (bool \<times> obj) run" where
  "match_repeated rec arg n reppat form sub =
     bindm (reads (\<lambda>h. (REPPAT_PAT h reppat, REPPAT_PVCOUNT h reppat, CDR h arg,
        drop (length (VECTOR_VEC h arg) - 1) (VECTOR_VEC h form)))) (\<lambda>(pat, pvcount, tail, slots).
     bindm (if VALIDP sub then loop empty_subs_step (pvcount, sub) else ret sub) (\<lambda>accum.
     bindm (if CONSP arg then loop (match_forms_step rec pat accum sub) (n, form)
            else loop (match_slots_step rec pat accum sub) slots) (\<lambda>(ok, rest).
     if \<not> ok then ret (False, rest)
     else bindm (loop (reverse_subs_step sub) accum) (\<lambda>_.
       if CONSP arg then rec (M_rec tail rest accum) else ret (True, accum)))))"

definition match_reppat :: "match_rec_t \<Rightarrow> obj \<Rightarrow> obj \<Rightarrow> obj \<Rightarrow> (bool \<times> obj) run" where
  "match_reppat rec arg form sub =
     (if CONSP arg then
        bindm (reads (\<lambda>h. (CAR h arg, CDR h arg, REPPAT_PAT h (CAR h arg), SUBPATP h (REPPAT_PAT h (CAR h arg)))))
        (\<lambda>(reppat, tail, pat, variablep).
        bindm (if NULLP tail then ret (-1)
               else tries (\<lambda>h. Option.bind (count_pairs h form 0) (\<lambda>m. map_option (\<lambda>k. Inr (m - k)) (count_pairs h tail 0))))
        (\<lambda>n.
        if \<not> NULLP tail \<and> n < 0 then ret (False, sub)
        else if variablep then match_repeated_variable rec tail n form sub
        else match_repeated rec arg n reppat form sub))
      else bindm (reads (\<lambda>h. VECTOR_VEC h arg ! (length (VECTOR_VEC h arg) - 1))) (\<lambda>reppat.
        match_repeated rec arg (-1) reppat form sub))"

lemma run_mono_match_end [run_mono_intros]:
  "(\<And>sub. run_mono (\<lambda>f. B f sub)) \<Longrightarrow> (\<And>r. run_mono (\<lambda>f. C f r)) \<Longrightarrow>
    (\<And>pat form sub. run_mono (\<lambda>f. D f pat form sub)) \<Longrightarrow>
    run_mono (\<lambda>f. case x of Mismatch sub \<Rightarrow> B f sub | Match_done r \<Rightarrow> C f r | Match_rest pat form sub \<Rightarrow> D f pat form sub)"
  by (cases x) simp_all

lemma match_mono [partial_function_mono]:
  assumes "\<And>p m. mono_option (\<lambda>f. rec f p m)"
  shows "mono_option (\<lambda>f. match_form g ctx (rec f) pat form sub m)"
    "mono_option (\<lambda>f. match_reppat (rec f) pat form sub m)"
proof -
  have r: "run_mono (\<lambda>f. rec f p)" for p using assms by (simp add: run_mono_def)
  have pairs: "run_mono (\<lambda>f. match_pairs_step (rec f) s)" for s
    unfolding match_pairs_step_def by (intro run_mono_intros r)
  have elems: "run_mono (\<lambda>f. match_elements_step (rec f) s)" for s
    unfolding match_elements_step_def by (intro run_mono_intros r)
  have "run_mono (\<lambda>f. match_form g ctx (rec f) pat form sub)"
    unfolding match_form_def match_atom_def match_vector_def by (intro run_mono_intros r pairs elems)
  then show "mono_option (\<lambda>f. match_form g ctx (rec f) pat form sub m)" by (simp add: run_mono_def)
  have one: "run_mono (\<lambda>f. match_one (rec f) pat x accum sub_save)" for pat x accum sub_save
    unfolding match_one_def by (intro run_mono_intros r)
  have forms: "run_mono (\<lambda>f. match_forms_step (rec f) pat accum sub_save s)" for pat accum sub_save s
    unfolding match_forms_step_def by (intro run_mono_intros r one)
  have slots: "run_mono (\<lambda>f. match_slots_step (rec f) pat accum sub_save s)" for pat accum sub_save s
    unfolding match_slots_step_def by (intro run_mono_intros r one)
  have rep: "run_mono (\<lambda>f. match_repeated (rec f) arg n reppat form sub)" for arg n reppat form sub
    unfolding match_repeated_def by (intro run_mono_intros r forms slots)
  have "run_mono (\<lambda>f. match_reppat (rec f) pat form sub)"
    unfolding match_reppat_def match_repeated_variable_def by (intro run_mono_intros r rep)
  then show "mono_option (\<lambda>f. match_reppat (rec f) pat form sub m)" by (simp add: run_mono_def)
qed

partial_function (option) matcher ::
    "interp \<Rightarrow> match_context \<Rightarrow> match_point \<Rightarrow> mach \<Rightarrow> ((bool \<times> obj) outcome \<times> mach) option" where
  "matcher g ctx point m =
     (case point of
        M_rec pat form sub \<Rightarrow> match_form g ctx (\<lambda>point m. matcher g ctx point m) pat form sub m
      | M_reppat arg form sub \<Rightarrow> match_reppat (\<lambda>point m. matcher g ctx point m) arg form sub m)"

definition match_rec :: "interp \<Rightarrow> match_context \<Rightarrow> obj \<Rightarrow> obj \<Rightarrow> obj \<Rightarrow> (bool \<times> obj) run" where
  "match_rec g ctx pat form sub = matcher g ctx (M_rec pat form sub)"

text \<open>\<^verbatim>\<open>match\<close>: the first pass only tests, the second collects.\<close>

definition match_pattern :: "interp \<Rightarrow> obj \<Rightarrow> obj \<Rightarrow> int \<Rightarrow> int \<Rightarrow> obj \<Rightarrow> obj run" where
  "match_pattern g pattern form def_penv use_penv use_env =
     (let ctx = \<lparr>mc_def_penv = def_penv, mc_use_penv = use_penv, mc_use_env = use_env\<rparr> in
      bindm (match_rec g ctx pattern form SCM_INVALID) (\<lambda>(ok, sub).
      if ok then bindm (match_rec g ctx pattern form SCM_NULL) (\<lambda>(_, sub). ret sub)
      else ret sub))"

section \<open>Transcription\<close>

text \<open>The buffer of the indices grows with the level; here it is a function. A result is an object, a
  list to splice, or the level whose variable has no more forms.\<close>

record transcription_context =
  fvars :: obj
  indices :: "nat \<Rightarrow> int"

datatype transcribe_ret = T_REPLACE obj | T_SPLICE obj | T_EXHAUSTED int

type_synonym transcribe_rec_t =
  "transcription_context \<Rightarrow> obj \<Rightarrow> int \<Rightarrow> (transcribe_ret \<times> transcription_context) run"

definition add_transcribed :: "queue \<Rightarrow> transcribe_ret \<Rightarrow> (queue + transcribe_ret) run" where
  "add_transcribed q r = (case r of
     T_EXHAUSTED lev \<Rightarrow> ret (Inr r)
   | T_REPLACE x \<Rightarrow> bindm (QUEUE_ADD q x) (\<lambda>q. ret (Inl q))
   | T_SPLICE x \<Rightarrow> bindm (QUEUE_APPEND q x) (\<lambda>q. ret (Inl q)))"

definition transcribe_list_step ::
    "transcribe_rec_t \<Rightarrow> int \<Rightarrow> obj \<times> queue \<times> transcription_context \<Rightarrow>
     (obj \<times> queue \<times> transcription_context + transcribe_ret \<times> transcription_context) run" where
  "transcribe_list_step rec level = (\<lambda>(template, q, ctx).
     if CONSP template then
       bindm (reads (\<lambda>h. (CAR h template, CDR h template))) (\<lambda>(x, rest).
       bindm (rec ctx x level) (\<lambda>(r, ctx).
       bindm (add_transcribed q r) (\<lambda>s. case s of Inl q \<Rightarrow> next_round (rest, q, ctx) | Inr r \<Rightarrow> finish (r, ctx))))
     else if NULLP template then finish (T_REPLACE (fst q), ctx)
     else bindm (rec ctx template level) (\<lambda>(r, ctx). case r of
         T_EXHAUSTED lev \<Rightarrow> finish (r, ctx)
       | T_REPLACE x \<Rightarrow> bindm (QUEUE_SLOPPY_APPEND q x) (\<lambda>q. finish (T_REPLACE (fst q), ctx))
       | T_SPLICE x \<Rightarrow> raise aborted))"

definition transcribe_slots_step ::
    "transcribe_rec_t \<Rightarrow> int \<Rightarrow> obj list \<times> queue \<times> transcription_context \<Rightarrow>
     (obj list \<times> queue \<times> transcription_context + transcribe_ret \<times> transcription_context) run" where
  "transcribe_slots_step rec level = (\<lambda>(xs, q, ctx). case xs of
       [] \<Rightarrow> bindm (does (\<lambda>h. scm_p_list2vector h (fst q))) (\<lambda>v. finish (T_REPLACE v, ctx))
     | x # xs \<Rightarrow>
         bindm (rec ctx x level) (\<lambda>(r, ctx).
         bindm (add_transcribed q r) (\<lambda>s. case s of Inl q \<Rightarrow> next_round (xs, q, ctx) | Inr r \<Rightarrow> finish (r, ctx))))"

text \<open>A variable: its entry of the list of subs, then down by the indices of its levels.\<close>

definition transcribe_pvar_step :: "int \<Rightarrow> transcription_context \<Rightarrow> int \<times> obj \<Rightarrow> (int \<times> obj + transcribe_ret) run" where
  "transcribe_pvar_step lev ctx = (\<lambda>(i, sub).
     if i < lev then
       bindm (tries (\<lambda>h. map_option Inr (scm_list_tail h sub (indices ctx (nat i))))) (\<lambda>sub.
       if \<not> VALIDP sub then raise aborted
       else if NULLP sub then finish (T_EXHAUSTED i)
       else bindm (reads (\<lambda>h. CAR h sub)) (\<lambda>x. next_round (i + 1, x)))
     else finish (T_REPLACE sub))"

definition transcribe_pvar :: "obj \<Rightarrow> transcription_context \<Rightarrow> obj \<Rightarrow> transcribe_ret run" where
  "transcribe_pvar sub ctx template =
     bindm (tries (\<lambda>h. map_option Inr (scm_list_tail h sub (PVAR_INDEX h template)))) (\<lambda>tail.
     if \<not> CONSP tail then raise aborted
     else bindm (reads (\<lambda>h. (CAR h tail, TEMPLATE_PVAR_LEVEL h template))) (\<lambda>(x, lev).
       loop (transcribe_pvar_step lev ctx) (0, x)))"

definition transcribe_identifier :: "int \<Rightarrow> obj \<Rightarrow> transcription_context \<Rightarrow> obj \<Rightarrow> (transcribe_ret \<times> transcription_context) run" where
  "transcribe_identifier def_penv def_env ctx template =
     bindm (tries (\<lambda>h. scm_p_assq h template (fvars ctx))) (\<lambda>entry.
     if entry = SCM_FALSE then
       bindm (does (\<lambda>h. scm_wrap_identifier h template def_penv def_env)) (\<lambda>wrapped.
       bindm (CONS template wrapped) (\<lambda>pair.
       bindm (CONS pair (fvars ctx)) (\<lambda>fv. ret (T_REPLACE wrapped, ctx\<lparr>fvars := fv\<rparr>))))
     else bindm (reads (\<lambda>h. CDR h entry)) (\<lambda>wrapped. ret (T_REPLACE wrapped, ctx)))"

definition transcribe_reppat_step ::
    "transcribe_rec_t \<Rightarrow> obj \<Rightarrow> int \<Rightarrow> queue \<times> transcription_context \<Rightarrow>
     (queue \<times> transcription_context + transcribe_ret \<times> transcription_context) run" where
  "transcribe_reppat_step rec form level = (\<lambda>(q, ctx).
     bindm (rec ctx form (level + 1)) (\<lambda>(r, ctx). case r of
         T_EXHAUSTED lev \<Rightarrow> if lev = level then finish (T_SPLICE (fst q), ctx) else finish (r, ctx)
       | T_REPLACE x \<Rightarrow> bindm (QUEUE_ADD q x) (\<lambda>q.
           next_round (q, ctx\<lparr>indices := (indices ctx)(nat level := indices ctx (nat level) + 1)\<rparr>))
       | T_SPLICE x \<Rightarrow> raise aborted))"

definition transcribe_reppat :: "transcribe_rec_t \<Rightarrow> transcription_context \<Rightarrow> obj \<Rightarrow> int \<Rightarrow> (transcribe_ret \<times> transcription_context) run" where
  "transcribe_reppat rec ctx template level =
     bindm (reads (\<lambda>h. REPPAT_PAT h template)) (\<lambda>form.
       loop (transcribe_reppat_step rec form level)
         (QUEUE_POINT_TO SCM_NULL, ctx\<lparr>indices := (indices ctx)(nat level := 0)\<rparr>))"

definition transcribe_form :: "int \<Rightarrow> obj \<Rightarrow> obj \<Rightarrow> transcribe_rec_t \<Rightarrow> transcribe_rec_t" where
  "transcribe_form def_penv def_env sub rec ctx template level =
     bindm (reads (\<lambda>h. (VECTORP h template, VECTOR_VEC h template, SUBPATP h template, PVARP h template, IDENTIFIERP h template)))
     (\<lambda>(vectorp, vec, subpatp, pvarp, identifierp).
       if CONSP template then loop (transcribe_list_step rec level) (template, QUEUE_POINT_TO SCM_NULL, ctx)
       else if vectorp then loop (transcribe_slots_step rec level) (vec, QUEUE_POINT_TO SCM_NULL, ctx)
       else if subpatp then
         (if pvarp then bindm (transcribe_pvar sub ctx template) (\<lambda>r. ret (r, ctx))
          else transcribe_reppat rec ctx template level)
       else if identifierp then transcribe_identifier def_penv def_env ctx template
       else ret (T_REPLACE template, ctx))"

lemma run_mono_transcribe_ret [run_mono_intros]:
  "(\<And>x. run_mono (\<lambda>f. B f x)) \<Longrightarrow> (\<And>x. run_mono (\<lambda>f. C f x)) \<Longrightarrow> (\<And>lev. run_mono (\<lambda>f. D f lev)) \<Longrightarrow>
    run_mono (\<lambda>f. case r of T_REPLACE x \<Rightarrow> B f x | T_SPLICE x \<Rightarrow> C f x | T_EXHAUSTED lev \<Rightarrow> D f lev)"
  by (cases r) simp_all

lemma transcribe_mono [partial_function_mono]:
  assumes "\<And>ctx x level m. mono_option (\<lambda>f. rec f ctx x level m)"
  shows "mono_option (\<lambda>f. transcribe_form def_penv def_env sub (rec f) ctx template level m)"
proof -
  have r: "run_mono (\<lambda>f. rec f ctx x level)" for ctx x level using assms by (simp add: run_mono_def)
  have lst: "run_mono (\<lambda>f. transcribe_list_step (rec f) level s)" for level s
    unfolding transcribe_list_step_def by (intro run_mono_intros r)
  have slots: "run_mono (\<lambda>f. transcribe_slots_step (rec f) level s)" for level s
    unfolding transcribe_slots_step_def by (intro run_mono_intros r)
  have rep: "run_mono (\<lambda>f. transcribe_reppat_step (rec f) form level s)" for form level s
    unfolding transcribe_reppat_step_def by (intro run_mono_intros r)
  have "run_mono (\<lambda>f. transcribe_form def_penv def_env sub (rec f) ctx template level)"
    unfolding transcribe_form_def transcribe_reppat_def by (intro run_mono_intros lst slots rep)
  then show ?thesis by (simp add: run_mono_def)
qed

partial_function (option) transcribe_rec ::
    "int \<Rightarrow> obj \<Rightarrow> obj \<Rightarrow> transcription_context \<Rightarrow> obj \<Rightarrow> int \<Rightarrow> mach \<Rightarrow>
     ((transcribe_ret \<times> transcription_context) outcome \<times> mach) option" where
  "transcribe_rec def_penv def_env sub ctx template level m =
     transcribe_form def_penv def_env sub (\<lambda>ctx template level m. transcribe_rec def_penv def_env sub ctx template level m)
       ctx template level m"

definition transcribe :: "obj \<Rightarrow> obj \<Rightarrow> int \<Rightarrow> obj \<Rightarrow> obj run" where
  "transcribe template sub def_penv use_env =
     bindm (tries (\<lambda>h. map_option Inr (scm_unpack_env h def_penv use_env))) (\<lambda>def_env.
     bindm (transcribe_rec def_penv def_env sub \<lparr>fvars = SCM_NULL, indices = (\<lambda>_. 0)\<rparr> template 0) (\<lambda>(r, _).
     case r of T_REPLACE x \<Rightarrow> ret x | T_SPLICE x \<Rightarrow> raise aborted | T_EXHAUSTED lev \<Rightarrow> raise aborted))"

section \<open>Expansion\<close>

definition expand_step :: "interp \<Rightarrow> obj \<Rightarrow> obj \<Rightarrow> obj \<Rightarrow> int \<Rightarrow> int \<Rightarrow> obj \<Rightarrow> (obj + obj) run" where
  "expand_step g macro args env def_penv use_penv rules =
     (if CONSP rules then
        bindm (reads (\<lambda>h. (CAR h (CAR h rules), CDR h (CAR h rules), CDR h rules))) (\<lambda>(pattern, template, rest).
        bindm (match_pattern g pattern args def_penv use_penv env) (\<lambda>sub.
        if VALIDP sub then bindm (transcribe template sub def_penv env) finish else next_round rest))
      else raise (ErrObj ''no matching pattern for'' args))"

definition expand_hygienic_macro :: "interp \<Rightarrow> obj \<Rightarrow> obj \<Rightarrow> obj \<Rightarrow> obj run" where
  "expand_hygienic_macro g macro args env =
     bindm (tries (\<lambda>h. map_option (\<lambda>use_penv. Inr (HMACRO_RULES h macro, HMACRO_ENV h macro, use_penv)) (scm_pack_env h env)))
     (\<lambda>(rules, def_penv, use_penv). loop (expand_step g macro args env def_penv use_penv) rules)"

definition scm_expand_macro :: "interp \<Rightarrow> obj \<Rightarrow> obj \<Rightarrow> eval_state \<Rightarrow> (obj \<times> eval_state) run" where
  "scm_expand_macro g macro args st =
     (let st = st\<lparr>ret_type := SCM_VALTYPE_NEED_EVAL\<rparr>;
          st = (if SCM_DEFINABLE_TOPLEVELP st then st\<lparr>nest := SCM_NEST_RETTYPE_BEGIN\<rparr> else st)
      in bindm (ASSERT_PROPER_ARG_LIST args) (\<lambda>_.
         bindm (expand_hygienic_macro g macro args (es_env st)) (\<lambda>x. ret (x, st))))"

text \<open>\<^verbatim>\<open>syntax-rules\<close>. It takes the cdr of its arguments without a test that they are a pair, and where
  no rule is compiled, the variable of the rules has no value in C.\<close>

definition compile_rule :: "compilation_context \<Rightarrow> obj \<Rightarrow> obj run" where
  "compile_rule ctx rule =
     bindm (reads (\<lambda>h. (LIST_2_P h rule, CAR h rule, CAR h (CAR h rule), CDR h (CAR h rule), CADR h rule)))
     (\<lambda>(list2, pattern, keyword, pat, tmpl).
       if \<not> list2 \<or> \<not> CONSP pattern then raise (ErrObj ''malformed syntax rule'' rule)
       else bindm (ensure (\<lambda>h. IDENTIFIERP h keyword) ''pattern must start with an identifier'' rule) (\<lambda>_.
         bindm (compile (ctx\<lparr>pv_syms := SCM_NULL, pv_vals := SCM_NULL, pvlen := 0, mode_pattern := True\<rparr>) pat) (\<lambda>(pat, ctx).
         bindm (compile (ctx\<lparr>mode_pattern := False\<rparr>) tmpl) (\<lambda>(tmpl, ctx).
           CONS pat tmpl))))"

definition compile_rules_step :: "compilation_context \<Rightarrow> obj \<times> queue \<Rightarrow> (obj \<times> queue + obj) run" where
  "compile_rules_step ctx = (\<lambda>(args, q).
     if CONSP args then
       bindm (reads (\<lambda>h. (CAR h args, CDR h args))) (\<lambda>(rule, rest).
       bindm (compile_rule ctx rule) (\<lambda>r. bindm (QUEUE_ADD q r) (\<lambda>q. next_round (rest, q))))
     else finish (fst q))"

definition check_literals_step :: "obj \<Rightarrow> obj \<Rightarrow> (obj + unit) run" where
  "check_literals_step lits pair =
     (if CONSP pair then
        bindm (reads (\<lambda>h. (CAR h pair, CDR h pair))) (\<lambda>(x, rest).
        bindm (ENSURE_IDENTIFIER x) (\<lambda>_. next_round rest))
      else if NULLP pair then finish ()
      else raise (ErrObj ''bad <literals>'' lits))"

definition scm_s_syntax_rules :: "interp \<Rightarrow> obj \<Rightarrow> obj \<Rightarrow> obj run" where
  "scm_s_syntax_rules g args env =
     bindm (reads (\<lambda>h. (NULLP args \<or> NULLP (CDR h args), CAR h args, CDR h args))) (\<lambda>(missing, lits, rules).
     if missing then raise (ErrObj ''missing rules'' args)
     else if \<not> CONSP args then raise aborted
     else
       bindm (loop (check_literals_step lits) lits) (\<lambda>_.
       bindm (init_compilation_context (scm_sym_ellipsis g) lits) (\<lambda>ctx.
       bindm (loop (compile_rules_step ctx) (rules, QUEUE_POINT_TO SCM_INVALID)) (\<lambda>compiled_rules.
       if VALIDP compiled_rules then scm_make_hmacro compiled_rules env else raise aborted))))"

section \<open>Unwrapping of syntax\<close>

text \<open>A path is the list of the objects from the one examined up to the root. \<open>wrapped_run\<close> is
  \<^verbatim>\<open>wrappedp\<close> with the rest of its loops over a vector and over a list.\<close>

definition on_pathp :: "obj \<Rightarrow> obj list \<Rightarrow> bool" where "on_pathp x path \<longleftrightarrow> x \<in> set path"

datatype wrap_point = Wrap_obj obj "obj list" | Wrap_vec "obj list" "obj list" | Wrap_list obj obj bool "obj list"

partial_function (option) wrapped_run :: "heap \<Rightarrow> wrap_point \<Rightarrow> bool option" where
  "wrapped_run h point =
     (case point of
        Wrap_obj x path \<Rightarrow>
          (if FARSYMBOLP h x then Some True
           else if \<not> CONSP x \<and> \<not> VECTORP h x then Some False
           else if on_pathp x path then Some False
           else if VECTORP h x then wrapped_run h (Wrap_vec (VECTOR_VEC h x) (x # path))
           else wrapped_run h (Wrap_list x x False (x # path)))
      | Wrap_vec xs path \<Rightarrow>
          (case xs of
             [] \<Rightarrow> Some False
           | x # xs \<Rightarrow> Option.bind (wrapped_run h (Wrap_obj x path)) (\<lambda>w.
               if w then Some True else wrapped_run h (Wrap_vec xs path)))
      | Wrap_list x slow advance path \<Rightarrow>
          (if CONSP x then
             Option.bind (wrapped_run h (Wrap_obj (CAR h x) path)) (\<lambda>w.
               if w then Some True
               else let slow = (if advance then CDR h slow else slow) in
                 if CDR h x = slow then Some False
                 else wrapped_run h (Wrap_list (CDR h x) slow (\<not> advance) path))
           else wrapped_run h (Wrap_obj x path)))"

definition wrappedp :: "heap \<Rightarrow> obj \<Rightarrow> obj list \<Rightarrow> bool option" where
  "wrappedp h x path = wrapped_run h (Wrap_obj x path)"

type_synonym unwrap_rec_t = "obj \<Rightarrow> obj list \<Rightarrow> obj run"

definition unwrap_slots_step :: "unwrap_rec_t \<Rightarrow> obj list \<Rightarrow> obj list \<times> obj list \<Rightarrow> (obj list \<times> obj list + obj list) run" where
  "unwrap_slots_step rec path = (\<lambda>(xs, vec). case xs of
       [] \<Rightarrow> finish vec
     | x # xs \<Rightarrow> bindm (rec x path) (\<lambda>y. next_round (xs, vec @ [y])))"

definition unwrap_list_step ::
    "unwrap_rec_t \<Rightarrow> obj list \<Rightarrow> obj \<times> obj \<times> bool \<times> queue \<Rightarrow> (obj \<times> obj \<times> bool \<times> queue + obj \<times> queue) run" where
  "unwrap_list_step rec path = (\<lambda>(x, slow, advance, q).
     if CONSP x then
       bindm (reads (\<lambda>h. CAR h x)) (\<lambda>elm.
       bindm (rec elm path) (\<lambda>y.
       bindm (QUEUE_ADD q y) (\<lambda>q.
       bindm (reads (\<lambda>h. (CDR h x, if advance then CDR h slow else slow))) (\<lambda>(rest, slow).
       if rest = slow then finish (rest, q) else next_round (rest, slow, \<not> advance, q)))))
     else finish (x, q))"

definition unwrap_form :: "unwrap_rec_t \<Rightarrow> unwrap_rec_t" where
  "unwrap_form rec x path =
     bindm (reads (\<lambda>h. (FARSYMBOLP h x, VECTORP h x, VECTOR_VEC h x))) (\<lambda>(farp, vectorp, slots).
     if farp then tries (\<lambda>h. map_option Inr (unwrap_farsymbol h x))
     else bindm (tries (\<lambda>h. map_option Inr (wrappedp h x path))) (\<lambda>w.
       if \<not> w then ret x
       else if vectorp then
         bindm (loop (unwrap_slots_step rec (x # path)) (slots, [])) (\<lambda>vec. changes (\<lambda>h. scm_make_vector h vec))
       else
         bindm (loop (unwrap_list_step rec (x # path)) (x, x, False, QUEUE_POINT_TO SCM_NULL)) (\<lambda>(tail, q).
         bindm (if CONSP tail then ret tail else rec tail (x # path)) (\<lambda>t.
         bindm (QUEUE_SLOPPY_APPEND q t) (\<lambda>q. ret (fst q))))))"

lemma unwrap_mono [partial_function_mono]:
  assumes "\<And>x path m. mono_option (\<lambda>f. rec f x path m)"
  shows "mono_option (\<lambda>f. unwrap_form (rec f) x path m)"
proof -
  have r: "run_mono (\<lambda>f. rec f x path)" for x path using assms by (simp add: run_mono_def)
  have slots: "run_mono (\<lambda>f. unwrap_slots_step (rec f) path s)" for path s
    unfolding unwrap_slots_step_def by (intro run_mono_intros r)
  have lst: "run_mono (\<lambda>f. unwrap_list_step (rec f) path s)" for path s
    unfolding unwrap_list_step_def by (intro run_mono_intros r)
  have "run_mono (\<lambda>f. unwrap_form (rec f) x path)"
    unfolding unwrap_form_def by (intro run_mono_intros r slots lst)
  then show ?thesis by (simp add: run_mono_def)
qed

partial_function (option) unwrap_copy :: "obj \<Rightarrow> obj list \<Rightarrow> mach \<Rightarrow> (obj outcome \<times> mach) option" where
  "unwrap_copy x path m = unwrap_form (\<lambda>x path m. unwrap_copy x path m) x path m"

definition scm_unwrap_syntax :: "obj \<Rightarrow> obj run" where
  "scm_unwrap_syntax arg = unwrap_copy arg []"

end
