(* ===== verification/Syntax.thy ===== *)
theory Syntax
  imports Macro
begin

text \<open>
  The syntaxes of \<^verbatim>\<open>src/syntax.c\<close>: \<^verbatim>\<open>quote\<close>, \<^verbatim>\<open>lambda\<close>, \<^verbatim>\<open>if\<close>, \<^verbatim>\<open>set!\<close>, the conditionals, the binding
  constructs with the internal definitions of a body, \<^verbatim>\<open>begin\<close>, \<^verbatim>\<open>do\<close> and \<^verbatim>\<open>define\<close>, and the syntaxes of
  \<^verbatim>\<open>src/macro.c\<close> that evaluate.

  The evaluator is the argument \<open>rec\<close>. A syntax in tail position gives the expression to evaluate next
  with the state to evaluate it in; the field \<open>ret_type\<close> of the state says whether it is a value
  already. The configuration has strict checks of arguments, strict toplevel definitions and internal
  definitions, without libraries and without strict R5RS.
\<close>

section \<open>Primitive expressions\<close>

definition expression_required :: scm_error where "expression_required = Err ''at least 1 expression required''"
definition clause_required :: scm_error where "clause_required = Err ''at least 1 clause required''"
definition invalid_binding :: "obj \<Rightarrow> scm_error" where "invalid_binding x = ErrObj ''invalid binding form'' x"
definition invalid_bindings :: "obj \<Rightarrow> scm_error" where "invalid_bindings x = ErrObj ''invalid bindings form'' x"
definition bad_define_form :: "obj \<Rightarrow> scm_error" where "bad_define_form x = ErrObj ''bad definition form'' x"

definition VALIDATE_FORMALS :: "obj \<Rightarrow> bool run" where
  "VALIDATE_FORMALS formals =
     tries (\<lambda>h. map_option (\<lambda>len. Inr (\<not> SCM_LISTLEN_ERRORP len)) (scm_validate_formals h formals))"

definition scm_s_quote :: "obj \<Rightarrow> obj run" where
  "scm_s_quote datum = scm_unwrap_syntax datum"

definition scm_s_lambda :: "obj \<Rightarrow> obj \<Rightarrow> obj \<Rightarrow> obj run" where
  "scm_s_lambda formals body env =
     bindm (VALIDATE_FORMALS formals) (\<lambda>ok.
     if \<not> ok then raise (ErrObj ''bad formals'' formals)
     else if \<not> CONSP body then raise (ErrObj ''at least 1 expression required'' body)
     else bindm (CONS formals body) (\<lambda>exp. changes (\<lambda>h. scm_make_closure h exp env)))"

definition scm_s_if :: "eval_rec \<Rightarrow> obj \<Rightarrow> obj \<Rightarrow> obj \<Rightarrow> eval_state \<Rightarrow> (obj \<times> eval_state) run" where
  "scm_s_if rec test conseq rest st =
     bindm (EVAL rec test (es_env st)) (\<lambda>test.
     bindm (CHECK_VALID_EVALED_VALUE test) (\<lambda>_.
     bindm (reads (\<lambda>h. (if CONSP rest then CAR h rest else SCM_UNDEF, SAFE_POP h rest))) (\<lambda>(alt, rest).
     bindm (ASSERT_NO_MORE_ARG rest) (\<lambda>_.
       ret (if test \<noteq> SCM_FALSE then conseq else alt, st)))))"

definition SET_REF :: "ref \<Rightarrow> obj \<Rightarrow> unit run" where
  "SET_REF r x = changes (\<lambda>h. ((), fst (SCM_SET h SCM_INVALID r x)))"

definition LOOKUP_ENVIRONMENT :: "obj \<Rightarrow> obj \<Rightarrow> ref option run" where
  "LOOKUP_ENVIRONMENT x env = tries (\<lambda>h. scm_lookup_environment h x env)"

definition scm_s_setx :: "eval_rec \<Rightarrow> obj \<Rightarrow> obj \<Rightarrow> obj \<Rightarrow> obj run" where
  "scm_s_setx rec symb exp env =
     bindm (ENSURE_IDENTIFIER symb) (\<lambda>_.
     bindm (EVAL rec exp env) (\<lambda>evaled.
     bindm (CHECK_VALID_EVALED_VALUE evaled) (\<lambda>_.
     bindm (LOOKUP_ENVIRONMENT symb env) (\<lambda>locally_bound. case locally_bound of
         Some r \<Rightarrow> bindm (SET_REF r evaled) (\<lambda>_. ret evaled)
       | None \<Rightarrow>
           bindm (tries (\<lambda>h. map_option Inr (scm_toplevel_value h symb env))) (\<lambda>val.
           if val = SCM_UNBOUND
           then bindm (UNWRAP_KEYWORD symb) (\<lambda>k. raise (ErrObj ''unbound variable'' k))
           else bindm (does (\<lambda>h. map_option (\<lambda>h. Inr ((), h)) (scm_set_toplevel h symb evaled env))) (\<lambda>_. ret evaled))))))"

section \<open>Sequencing\<close>

definition begin_step :: "eval_rec \<Rightarrow> obj \<Rightarrow> obj \<Rightarrow> (obj + obj) run" where
  "begin_step rec env args =
     bindm (reads (\<lambda>h. (CAR h args, CDR h args))) (\<lambda>(expr, args).
     if CONSP args then
       bindm (EVAL rec expr env) (\<lambda>v. bindm (CHECK_VALID_EVALED_VALUE v) (\<lambda>_. next_round args))
     else bindm (ASSERT_NO_MORE_ARG args) (\<lambda>_. finish expr))"

definition scm_s_begin :: "eval_rec \<Rightarrow> obj \<Rightarrow> eval_state \<Rightarrow> (obj \<times> eval_state) run" where
  "scm_s_begin rec args st =
     (if SCM_DEFINABLE_TOPLEVELP st then
        (if \<not> CONSP args then
           bindm (ASSERT_NO_MORE_ARG args) (\<lambda>_. ret (SCM_UNDEF, st\<lparr>ret_type := SCM_VALTYPE_AS_IS\<rparr>))
         else bindm (loop (begin_step rec (es_env st)) args) (\<lambda>expr. ret (expr, st\<lparr>nest := SCM_NEST_RETTYPE_BEGIN\<rparr>)))
      else if \<not> CONSP args then raise expression_required
      else bindm (loop (begin_step rec (FORBID_TOPLEVEL_DEFINITIONS (es_env st))) args) (\<lambda>expr. ret (expr, st)))"

section \<open>Conditionals\<close>

definition keywordp :: "obj \<Rightarrow> obj \<Rightarrow> obj \<Rightarrow> bool run" where
  "keywordp x keyword env =
     bindm (UNWRAP_KEYWORD x) (\<lambda>k.
     if k \<noteq> keyword then ret False
     else bindm (LOOKUP_ENVIRONMENT x env) (\<lambda>r. ret (r = None)))"

text \<open>A clause whose test holds; \<open>SCM_INVALID\<close> is the result of \<^verbatim>\<open>scm_s_cond_internal\<close> without such a
  clause.\<close>

definition cond_selected ::
    "interp \<Rightarrow> eval_rec \<Rightarrow> obj \<Rightarrow> obj \<Rightarrow> eval_state \<Rightarrow> (obj \<times> eval_state) run" where
  "cond_selected g rec test exps st =
     (if NULLP exps then ret (test, st\<lparr>ret_type := SCM_VALTYPE_AS_IS\<rparr>)
      else bindm (reads (\<lambda>h. (LIST_2_P h exps, CAR h exps, CADR h exps))) (\<lambda>(list2, first, second).
        bindm (if list2 then keywordp first (l_sym_yields g) (es_env st) else ret False) (\<lambda>yields.
        if yields then
          bindm (EVAL rec second (es_env st)) (\<lambda>proc.
          bindm (ensure (\<lambda>h. PROCEDUREP h proc) ''exp after => must be a procedure but got'' proc) (\<lambda>_.
          bindm (SCM_LIST_2 (scm_sym_quote g) test) (\<lambda>quoted.
          bindm (SCM_LIST_2 proc quoted) (\<lambda>app. ret (app, st)))))
        else scm_s_begin rec exps st)))"

definition cond_step :: "interp \<Rightarrow> eval_rec \<Rightarrow> eval_state \<Rightarrow> obj \<Rightarrow> (obj + obj \<times> eval_state) run" where
  "cond_step g rec st clauses =
     (if CONSP clauses then
        bindm (reads (\<lambda>h. (CAR h clauses, CDR h clauses, CAR h (CAR h clauses), CDR h (CAR h clauses))))
        (\<lambda>(clause, clauses, test, exps).
        if \<not> CONSP clause then raise (ErrObj ''bad clause'' clause)
        else bindm (keywordp test (l_sym_else g) (es_env st)) (\<lambda>is_else.
          if is_else then bindm (ASSERT_NO_MORE_ARG clauses) (\<lambda>_. bindm (scm_s_begin rec exps st) finish)
          else bindm (EVAL rec test (es_env st)) (\<lambda>test.
            bindm (CHECK_VALID_EVALED_VALUE test) (\<lambda>_.
            if test \<noteq> SCM_FALSE then bindm (cond_selected g rec test exps st) finish else next_round clauses))))
      else bindm (ASSERT_NO_MORE_ARG clauses) (\<lambda>_. finish (SCM_INVALID, st\<lparr>ret_type := SCM_VALTYPE_AS_IS\<rparr>)))"

definition scm_s_cond_internal :: "interp \<Rightarrow> eval_rec \<Rightarrow> obj \<Rightarrow> eval_state \<Rightarrow> (obj \<times> eval_state) run" where
  "scm_s_cond_internal g rec clauses st =
     bindm (checks (\<lambda>_. NO_MORE_ARG clauses)) (\<lambda>none.
     if none then raise clause_required
     else loop (cond_step g rec (st\<lparr>nest := SCM_NEST_COMMAND\<rparr>)) clauses)"

definition scm_s_cond :: "interp \<Rightarrow> eval_rec \<Rightarrow> obj \<Rightarrow> eval_state \<Rightarrow> (obj \<times> eval_state) run" where
  "scm_s_cond g rec clauses st =
     bindm (scm_s_cond_internal g rec clauses st) (\<lambda>(x, st). ret (if VALIDP x then x else SCM_UNDEF, st))"

definition case_step :: "interp \<Rightarrow> eval_rec \<Rightarrow> obj \<Rightarrow> eval_state \<Rightarrow> obj \<Rightarrow> (obj + obj \<times> eval_state) run" where
  "case_step g rec key st clauses =
     (if CONSP clauses then
        bindm (reads (\<lambda>h. (CAR h clauses, CDR h clauses, CAR h (CAR h clauses), CDR h (CAR h clauses))))
        (\<lambda>(clause, clauses, test, exps).
        if \<not> CONSP clause then raise (ErrObj ''bad clause'' clause)
        else bindm (keywordp test (l_sym_else g) (es_env st)) (\<lambda>is_else.
          bindm (if is_else then bindm (ASSERT_NO_MORE_ARG clauses) (\<lambda>_. ret test)
                 else bindm (scm_unwrap_syntax test) (\<lambda>data. tries (\<lambda>h. scm_p_memv h key data))) (\<lambda>test.
          if test \<noteq> SCM_FALSE then bindm (scm_s_begin rec exps (st\<lparr>nest := SCM_NEST_COMMAND\<rparr>)) finish
          else next_round clauses)))
      else bindm (ASSERT_NO_MORE_ARG clauses) (\<lambda>_. finish (SCM_UNDEF, st)))"

definition scm_s_case :: "interp \<Rightarrow> eval_rec \<Rightarrow> obj \<Rightarrow> obj \<Rightarrow> eval_state \<Rightarrow> (obj \<times> eval_state) run" where
  "scm_s_case g rec key clauses st =
     bindm (checks (\<lambda>_. NO_MORE_ARG clauses)) (\<lambda>none.
     if none then raise clause_required
     else bindm (EVAL rec key (es_env st)) (\<lambda>key.
       bindm (CHECK_VALID_EVALED_VALUE key) (\<lambda>_. loop (case_step g rec key st) clauses)))"

text \<open>\<^verbatim>\<open>and\<close> and \<^verbatim>\<open>or\<close> stop at the first value for which \<open>stop\<close> holds.\<close>

definition and_or_step ::
    "eval_rec \<Rightarrow> (obj \<Rightarrow> bool) \<Rightarrow> obj \<Rightarrow> eval_state \<Rightarrow> obj \<Rightarrow> (obj + obj \<times> eval_state) run" where
  "and_or_step rec stop env st args =
     bindm (reads (\<lambda>h. (CAR h args, CDR h args))) (\<lambda>(expr, args).
     if CONSP args then
       bindm (EVAL rec expr env) (\<lambda>val.
       bindm (CHECK_VALID_EVALED_VALUE val) (\<lambda>_.
       if stop val then
         bindm (ASSERT_PROPER_ARG_LIST args) (\<lambda>_. finish (val, st\<lparr>ret_type := SCM_VALTYPE_AS_IS\<rparr>))
       else next_round args))
     else bindm (ASSERT_NO_MORE_ARG args) (\<lambda>_. finish (expr, st)))"

definition and_or :: "eval_rec \<Rightarrow> (obj \<Rightarrow> bool) \<Rightarrow> obj \<Rightarrow> obj \<Rightarrow> eval_state \<Rightarrow> (obj \<times> eval_state) run" where
  "and_or rec stop unit' args st =
     bindm (checks (\<lambda>_. NO_MORE_ARG args)) (\<lambda>none.
     if none then ret (unit', st\<lparr>ret_type := SCM_VALTYPE_AS_IS\<rparr>)
     else loop (and_or_step rec stop (FORBID_TOPLEVEL_DEFINITIONS (es_env st)) st) args)"

definition scm_s_and :: "eval_rec \<Rightarrow> obj \<Rightarrow> eval_state \<Rightarrow> (obj \<times> eval_state) run" where
  "scm_s_and rec args st = and_or rec (\<lambda>v. v = SCM_FALSE) SCM_TRUE args st"

definition scm_s_or :: "eval_rec \<Rightarrow> obj \<Rightarrow> eval_state \<Rightarrow> (obj \<times> eval_state) run" where
  "scm_s_or rec args st = and_or rec (\<lambda>v. v \<noteq> SCM_FALSE) SCM_FALSE args st"

section \<open>Bodies\<close>

record body_context =
  outer_env :: obj
  body_env :: obj
  def_expq :: queue
  n_defs :: int

definition add_internal_variable :: "body_context \<Rightarrow> obj \<Rightarrow> obj \<Rightarrow> body_context run" where
  "add_internal_variable ctx var val =
     bindm (if body_env ctx = outer_env ctx
            then changes (\<lambda>h. scm_extend_environment h SCM_NULL SCM_NULL (body_env ctx))
            else ret (body_env ctx)) (\<lambda>env.
     bindm (does (\<lambda>h. case scm_add_environment h var val env of None \<Rightarrow> Some (Inl aborted) | Some r \<Rightarrow> Some (Inr r)))
       (\<lambda>env. ret (ctx\<lparr>body_env := env\<rparr>)))"

definition add_variables_step :: "obj \<times> body_context \<Rightarrow> (obj \<times> body_context + obj \<times> body_context) run" where
  "add_variables_step = (\<lambda>(vars, ctx).
     if CONSP vars then
       bindm (reads (\<lambda>h. (CAR h vars, CDR h vars))) (\<lambda>(var, rest).
       bindm (add_internal_variable ctx var SCM_UNBOUND) (\<lambda>ctx. next_round (rest, ctx)))
     else finish (vars, ctx))"

definition add_internal_definition :: "body_context \<Rightarrow> obj \<Rightarrow> obj \<Rightarrow> body_context run" where
  "add_internal_definition ctx formals exp =
     bindm (loop add_variables_step (formals, ctx)) (\<lambda>(vars, ctx).
     bindm (if NULLP vars then ret ctx else add_internal_variable ctx vars SCM_UNBOUND) (\<lambda>ctx.
     bindm (CONS formals exp) (\<lambda>def.
     bindm (QUEUE_ADD (def_expq ctx) def) (\<lambda>q. ret (ctx\<lparr>def_expq := q, n_defs := n_defs ctx + 1\<rparr>)))))"

definition lookup_macro :: "obj \<Rightarrow> obj \<Rightarrow> obj run" where
  "lookup_macro op env =
     bindm (reads (\<lambda>h. IDENTIFIERP h op)) (\<lambda>identifierp.
     if \<not> identifierp then ret SCM_FALSE
     else bindm (LOOKUP_ENVIRONMENT op env) (\<lambda>r.
       bindm (case r of Some r \<Rightarrow> reads (\<lambda>h. DEREF h SCM_INVALID r)
              | None \<Rightarrow> tries (\<lambda>h. map_option Inr (scm_toplevel_value h op env))) (\<lambda>val.
       reads (\<lambda>h. if HMACROP h val then val else SCM_FALSE))))"

text \<open>A definition at the head of a body: \<^verbatim>\<open>exp\<close> are the arguments of \<^verbatim>\<open>define\<close> in the form.\<close>

definition internal_define :: "interp \<Rightarrow> body_context \<Rightarrow> obj \<Rightarrow> obj \<Rightarrow> body_context run" where
  "internal_define g ctx form exp =
     bindm (checks (\<lambda>h. MUST_POP_ARG h exp)) (\<lambda>(var, exp).
     bindm (reads (\<lambda>h. (IDENTIFIERP h var, LIST_1_P h exp, CAR h exp, CAR h var, CDR h var)))
     (\<lambda>(identifierp, list1, value, name, formals).
     bindm (if identifierp then (if list1 then ret (var, value) else raise (bad_define_form form))
            else if CONSP var then
              bindm (ENSURE_IDENTIFIER name) (\<lambda>_.
              bindm (CONS formals exp) (\<lambda>l. bindm (CONS (l_syn_lambda g) l) (\<lambda>l. ret (name, l))))
            else raise (bad_define_form form)) (\<lambda>(var, exp).
     bindm (SCM_LIST_1 var) (\<lambda>vars. add_internal_definition ctx vars exp))))"

type_synonym filter_rec_t = "body_context \<Rightarrow> obj \<Rightarrow> bool \<Rightarrow> (obj \<times> body_context) run"

definition filter_step ::
    "interp \<Rightarrow> filter_rec_t \<Rightarrow> bool \<Rightarrow> obj \<times> body_context \<Rightarrow> (obj \<times> body_context + obj \<times> body_context) run" where
  "filter_step g rec followed = (\<lambda>(body, ctx).
     bindm (reads (\<lambda>h. (CAR h body, CDR h body, CAR h (CAR h body), CDR h (CAR h body)))) (\<lambda>(form, rest, op, exp).
     if \<not> CONSP body \<or> \<not> CONSP form then finish (body, ctx)
     else bindm (UNWRAP_KEYWORD op) (\<lambda>symb.
       if symb = l_sym_begin g then
         bindm (rec ctx exp (followed \<or> CONSP rest)) (\<lambda>(begin_rest, ctx').
         if NULLP begin_rest then next_round (rest, ctx')
         else if n_defs ctx' = n_defs ctx then finish (body, ctx')
         else raise (ErrObj ''definitions and expressions intermixed'' form))
       else if symb = l_sym_define g then
         bindm (internal_define g ctx form exp) (\<lambda>ctx. next_round (rest, ctx))
       else if \<not> followed \<and> \<not> CONSP rest then finish (body, ctx)
       else bindm (lookup_macro op (body_env ctx)) (\<lambda>macro.
         if macro = SCM_FALSE then finish (body, ctx)
         else bindm (scm_expand_macro g macro exp (SCM_EVAL_STATE_INIT1 (body_env ctx))) (\<lambda>(expansion, _).
           bindm (CONS expansion rest) (\<lambda>body. next_round (body, ctx)))))))"

lemma filter_mono [partial_function_mono]:
  assumes "\<And>ctx body followed m. mono_option (\<lambda>f. rec f ctx body followed m)"
  shows "mono_option (\<lambda>f. loop (filter_step g (rec f) followed) s m)"
proof -
  have r: "run_mono (\<lambda>f. rec f ctx body followed)" for ctx body followed using assms by (simp add: run_mono_def)
  have "run_mono (\<lambda>f. loop (filter_step g (rec f) followed) s)"
    unfolding filter_step_def by (intro run_mono_intros r)
  then show ?thesis by (simp add: run_mono_def)
qed

partial_function (option) filter_definitions ::
    "interp \<Rightarrow> body_context \<Rightarrow> obj \<Rightarrow> bool \<Rightarrow> mach \<Rightarrow> ((obj \<times> body_context) outcome \<times> mach) option" where
  "filter_definitions g ctx body followed m =
     loop (filter_step g (\<lambda>ctx body followed m. filter_definitions g ctx body followed m) followed) (body, ctx) m"

definition match_values_step ::
    "obj \<Rightarrow> obj \<times> obj \<times> queue \<Rightarrow> (obj \<times> obj \<times> queue + obj \<times> obj \<times> queue) run" where
  "match_values_step all_vals = (\<lambda>(formals, vals, q).
     if CONSP formals then
       (if \<not> CONSP vals then raise (ErrObj ''unmatched number of values for the formals'' all_vals)
        else bindm (reads (\<lambda>h. (CDR h formals, CAR h vals, CDR h vals))) (\<lambda>(formals, x, vals).
          bindm (QUEUE_ADD q x) (\<lambda>q. next_round (formals, vals, q))))
     else finish (formals, vals, q))"

definition scm_match_values :: "obj \<Rightarrow> obj \<Rightarrow> obj run" where
  "scm_match_values formals val =
     bindm (reads (\<lambda>h. (VALUEPACKETP h val, VALUEPACKET_VALUES h val))) (\<lambda>(packet, vals).
     bindm (if packet then ret vals else bindm (CHECK_VALID_EVALED_VALUE val) (\<lambda>_. SCM_LIST_1 val)) (\<lambda>all_vals.
     bindm (loop (match_values_step all_vals) (formals, all_vals, QUEUE_POINT_TO SCM_NULL)) (\<lambda>(formals, vals, q).
     if NULLP formals then
       (if NULLP vals then ret (fst q) else raise (ErrObj ''unmatched number of values for the formals'' all_vals))
     else bindm (QUEUE_ADD q vals) (\<lambda>q. ret (fst q)))))"

definition SET_IN_FRAME :: "obj \<Rightarrow> obj \<Rightarrow> obj \<Rightarrow> unit run" where
  "SET_IN_FRAME frame var x =
     bindm (tries (\<lambda>h. map_option Inr (scm_lookup_frame h var frame))) (\<lambda>r. case r of
       Some r \<Rightarrow> SET_REF r x | None \<Rightarrow> raise aborted)"

definition set_values_step :: "obj \<Rightarrow> obj \<times> obj \<Rightarrow> (obj \<times> obj + unit) run" where
  "set_values_step frame = (\<lambda>(formals, vals).
     bindm (reads (\<lambda>h. (CAR h formals, CDR h formals, CAR h vals, CDR h vals))) (\<lambda>(var, rest, x, vals).
     if CONSP formals then bindm (SET_IN_FRAME frame var x) (\<lambda>_. next_round (rest, vals))
     else bindm (if NULLP formals then ret () else SET_IN_FRAME frame formals x) finish))"

definition set_internal_values :: "obj \<Rightarrow> obj \<Rightarrow> obj \<Rightarrow> unit run" where
  "set_internal_values frame formals vals = loop (set_values_step frame) (formals, vals)"

text \<open>The definitions of a body are evaluated first and then assigned, as \<^verbatim>\<open>letrec\<close> does.\<close>

definition eval_definitions_step :: "eval_rec \<Rightarrow> obj \<Rightarrow> obj \<Rightarrow> (obj + unit) run" where
  "eval_definitions_step rec env defs =
     (if CONSP defs then
        bindm (reads (\<lambda>h. (CAR h defs, CDR h defs, CAR h (CAR h defs), CDR h (CAR h defs)))) (\<lambda>(def, rest, formals, exp).
        bindm (EVAL rec exp env) (\<lambda>val.
        bindm (scm_match_values formals val) (\<lambda>vals.
        bindm (changes (\<lambda>h. ((), SET_CDR h def vals))) (\<lambda>_. next_round rest))))
      else finish ())"

definition assign_definitions_step :: "obj \<Rightarrow> obj \<Rightarrow> (obj + unit) run" where
  "assign_definitions_step frame defs =
     (if CONSP defs then
        bindm (reads (\<lambda>h. (CDR h defs, CAR h (CAR h defs), CDR h (CAR h defs)))) (\<lambda>(rest, formals, vals).
        bindm (set_internal_values frame formals vals) (\<lambda>_. next_round rest))
      else finish ())"

definition scm_s_body :: "interp \<Rightarrow> eval_rec \<Rightarrow> obj \<Rightarrow> eval_state \<Rightarrow> (obj \<times> eval_state) run" where
  "scm_s_body g rec body st =
     (if \<not> CONSP body then scm_s_begin rec body st
      else
        bindm (filter_definitions g \<lparr>outer_env = es_env st, body_env = es_env st, def_expq = QUEUE_POINT_TO SCM_NULL, n_defs = 0\<rparr>
          body False) (\<lambda>(body, ctx).
        if body_env ctx = outer_env ctx then scm_s_begin rec body st
        else
          bindm (reads (\<lambda>h. CAR h (body_env ctx))) (\<lambda>frame.
          bindm (loop (eval_definitions_step rec (body_env ctx)) (fst (def_expq ctx))) (\<lambda>_.
          bindm (loop (assign_definitions_step frame) (fst (def_expq ctx))) (\<lambda>_.
            scm_s_begin rec body (st\<lparr>es_env := body_env ctx\<rparr>))))))"

section \<open>Binding constructs\<close>

datatype bindee = PermitFirstClass | PermitMacro

definition CHECK_VALID_BINDEE :: "bindee \<Rightarrow> obj \<Rightarrow> unit run" where
  "CHECK_VALID_BINDEE permitted x = (case permitted of
     PermitFirstClass \<Rightarrow> CHECK_VALID_EVALED_VALUE x
   | PermitMacro \<Rightarrow> checks (\<lambda>h. if HMACROP h x then Inr () else Inl aborted))"

text \<open>A binding is a list of an identifier and an expression.\<close>

definition parse_binding :: "obj \<Rightarrow> (obj \<times> obj) run" where
  "parse_binding binding =
     checks (\<lambda>h. if LIST_2_P h binding \<and> IDENTIFIERP h (CAR h binding) then Inr (CAR h binding, CADR h binding)
       else Inl (invalid_binding binding))"

definition check_unique :: "obj \<Rightarrow> obj \<Rightarrow> unit run" where
  "check_unique var formals =
     bindm (tries (\<lambda>h. scm_p_memq h var formals)) (\<lambda>dup.
     if dup \<noteq> SCM_FALSE then raise (ErrObj ''duplicate variable name'' var) else ret ())"

definition let_step ::
    "eval_rec \<Rightarrow> bindee \<Rightarrow> obj \<Rightarrow> obj \<times> queue \<times> queue \<Rightarrow> (obj \<times> queue \<times> queue + obj \<times> obj \<times> obj) run" where
  "let_step rec permitted env = (\<lambda>(bindings, varq, valq).
     if CONSP bindings then
       bindm (reads (\<lambda>h. (CAR h bindings, CDR h bindings))) (\<lambda>(binding, bindings).
       bindm (parse_binding binding) (\<lambda>(var, exp).
       bindm (check_unique var (fst varq)) (\<lambda>_.
       bindm (EVAL rec exp env) (\<lambda>val.
       bindm (CHECK_VALID_BINDEE permitted val) (\<lambda>_.
       bindm (QUEUE_ADD varq var) (\<lambda>varq.
       bindm (QUEUE_ADD valq val) (\<lambda>valq. next_round (bindings, varq, valq))))))))
     else finish (bindings, fst varq, fst valq))"

definition named_let :: "obj \<Rightarrow> obj \<Rightarrow> obj \<Rightarrow> obj \<Rightarrow> obj run" where
  "named_let name formals body env =
     bindm (CONS formals body) (\<lambda>exp.
     bindm (changes (\<lambda>h. scm_make_closure h exp env)) (\<lambda>proc.
     bindm (does (\<lambda>h. case scm_add_environment h name proc env of None \<Rightarrow> Some (Inl aborted) | Some r \<Rightarrow> Some (Inr r))) (\<lambda>env.
     bindm (changes (\<lambda>h. ((), case proc of Ptr PTAG_CLOSURE a \<Rightarrow> set_pair h a exp env | _ \<Rightarrow> h))) (\<lambda>_. ret env))))"

definition scm_s_let_internal ::
    "interp \<Rightarrow> eval_rec \<Rightarrow> bindee \<Rightarrow> obj \<Rightarrow> obj \<Rightarrow> eval_state \<Rightarrow> (obj \<times> eval_state) run" where
  "scm_s_let_internal g rec permitted bindings body st =
     bindm (reads (\<lambda>h. (IDENTIFIERP h bindings, CAR h body, CDR h body))) (\<lambda>(named, first, rest).
     if named \<and> \<not> CONSP body then raise (Err ''invalid named let form'')
     else
       let (named_let_sym, bindings, body) = (if named then (bindings, first, rest) else (SCM_FALSE, bindings, body)) in
       bindm (loop (let_step rec permitted (es_env st)) (bindings, QUEUE_POINT_TO SCM_NULL, QUEUE_POINT_TO SCM_NULL))
       (\<lambda>(bindings, formals, actuals).
       if \<not> NULLP bindings then raise (invalid_bindings bindings)
       else
         bindm (changes (\<lambda>h. scm_extend_environment h formals actuals (es_env st))) (\<lambda>env.
         bindm (if named then named_let named_let_sym formals body env else ret env) (\<lambda>env.
           scm_s_body g rec body (st\<lparr>es_env := env\<rparr>)))))"

definition scm_s_let :: "interp \<Rightarrow> eval_rec \<Rightarrow> obj \<Rightarrow> obj \<Rightarrow> eval_state \<Rightarrow> (obj \<times> eval_state) run" where
  "scm_s_let g rec bindings body st = scm_s_let_internal g rec PermitFirstClass bindings body st"

definition letstar_step :: "eval_rec \<Rightarrow> obj \<times> obj \<Rightarrow> (obj \<times> obj + obj \<times> obj) run" where
  "letstar_step rec = (\<lambda>(bindings, env).
     if CONSP bindings then
       bindm (reads (\<lambda>h. (CAR h bindings, CDR h bindings))) (\<lambda>(binding, bindings).
       bindm (parse_binding binding) (\<lambda>(var, exp).
       bindm (EVAL rec exp env) (\<lambda>val.
       bindm (CHECK_VALID_EVALED_VALUE val) (\<lambda>_.
       bindm (SCM_LIST_1 var) (\<lambda>formals. bindm (SCM_LIST_1 val) (\<lambda>actuals.
       bindm (changes (\<lambda>h. scm_extend_environment h formals actuals env)) (\<lambda>env. next_round (bindings, env))))))))
     else finish (bindings, env))"

definition scm_s_letstar :: "interp \<Rightarrow> eval_rec \<Rightarrow> obj \<Rightarrow> obj \<Rightarrow> eval_state \<Rightarrow> (obj \<times> eval_state) run" where
  "scm_s_letstar g rec bindings body st =
     bindm (loop (letstar_step rec) (bindings, es_env st)) (\<lambda>(bindings, env).
     if \<not> NULLP bindings then raise (invalid_bindings bindings)
     else scm_s_body g rec body (st\<lparr>es_env := env\<rparr>))"

definition letrec_step ::
    "eval_rec \<Rightarrow> bindee \<Rightarrow> obj \<Rightarrow> obj \<times> obj \<times> obj \<Rightarrow> (obj \<times> obj \<times> obj + obj \<times> obj \<times> obj) run" where
  "letrec_step rec permitted env = (\<lambda>(bindings, formals, actuals).
     if CONSP bindings then
       bindm (reads (\<lambda>h. (CAR h bindings, CDR h bindings))) (\<lambda>(binding, bindings).
       bindm (parse_binding binding) (\<lambda>(var, exp).
       bindm (check_unique var formals) (\<lambda>_.
       bindm (EVAL rec exp env) (\<lambda>val.
       bindm (CHECK_VALID_BINDEE permitted val) (\<lambda>_.
       bindm (CONS var formals) (\<lambda>formals.
       bindm (CONS val actuals) (\<lambda>actuals. next_round (bindings, formals, actuals))))))))
     else finish (bindings, formals, actuals))"

definition scm_s_letrec_internal ::
    "interp \<Rightarrow> eval_rec \<Rightarrow> bindee \<Rightarrow> obj \<Rightarrow> obj \<Rightarrow> eval_state \<Rightarrow> (obj \<times> eval_state) run" where
  "scm_s_letrec_internal g rec permitted bindings body st =
     bindm (changes (\<lambda>h. scm_extend_environment h SCM_NULL SCM_NULL (es_env st))) (\<lambda>env.
     bindm (loop (letrec_step rec permitted env) (bindings, SCM_NULL, SCM_NULL)) (\<lambda>(bindings, formals, actuals).
     if \<not> NULLP bindings then raise (invalid_bindings bindings)
     else bindm (changes (\<lambda>h. scm_replace_environment h formals actuals env)) (\<lambda>env.
       scm_s_body g rec body (st\<lparr>es_env := env\<rparr>))))"

definition scm_s_letrec :: "interp \<Rightarrow> eval_rec \<Rightarrow> obj \<Rightarrow> obj \<Rightarrow> eval_state \<Rightarrow> (obj \<times> eval_state) run" where
  "scm_s_letrec g rec bindings body st = scm_s_letrec_internal g rec PermitFirstClass bindings body st"

section \<open>Iteration\<close>

text \<open>The bindings of \<^verbatim>\<open>do\<close> are read into the formals, the initial values and the steps.\<close>

definition do_binding_step ::
    "eval_rec \<Rightarrow> obj \<Rightarrow> obj \<Rightarrow> obj \<times> obj \<times> obj \<times> queue \<Rightarrow> (obj \<times> obj \<times> obj \<times> queue + obj \<times> obj \<times> obj) run" where
  "do_binding_step rec bindings env = (\<lambda>(rest, formals, actuals, stepq).
     if CONSP rest then
       bindm (reads (\<lambda>h. (CAR h rest, CDR h rest))) (\<lambda>(binding, rest).
       if \<not> CONSP binding then raise (invalid_bindings bindings)
       else bindm (reads (\<lambda>h. (CAR h binding, CDR h binding))) (\<lambda>(var, binding).
         bindm (checks (\<lambda>h. ENSURE_SYMBOL h var)) (\<lambda>_.
         bindm (check_unique var formals) (\<lambda>_.
         if \<not> CONSP binding then raise (invalid_bindings bindings)
         else bindm (reads (\<lambda>h. (CAR h binding, CDR h binding))) (\<lambda>(init, binding).
           bindm (if CONSP binding then reads (\<lambda>h. (CAR h binding, CDR h binding)) else ret (var, binding)) (\<lambda>(step, binding).
           if \<not> NULLP binding then raise (invalid_bindings bindings)
           else bindm (EVAL rec init env) (\<lambda>init.
             bindm (CHECK_VALID_EVALED_VALUE init) (\<lambda>_.
             bindm (CONS var formals) (\<lambda>formals.
             bindm (CONS init actuals) (\<lambda>actuals.
             bindm (QUEUE_ADD stepq step) (\<lambda>stepq. next_round (rest, formals, actuals, stepq))))))))))))
     else if \<not> NULLP rest then raise (invalid_bindings bindings)
     else finish (formals, actuals, fst stepq))"

definition do_command_step :: "eval_rec \<Rightarrow> obj \<Rightarrow> obj \<Rightarrow> (obj + obj) run" where
  "do_command_step rec env rest =
     (if CONSP rest then
        bindm (reads (\<lambda>h. (CAR h rest, CDR h rest))) (\<lambda>(command, rest).
        bindm (EVAL rec command env) (\<lambda>_. next_round rest))
      else bindm (ASSERT_NO_MORE_ARG rest) (\<lambda>_. finish rest))"

definition do_update_step :: "eval_rec \<Rightarrow> obj \<Rightarrow> obj \<times> obj \<Rightarrow> (obj \<times> obj + obj) run" where
  "do_update_step rec env = (\<lambda>(rest, actuals).
     if CONSP rest then
       bindm (reads (\<lambda>h. (CAR h rest, CDR h rest))) (\<lambda>(step, rest).
       bindm (EVAL rec step env) (\<lambda>val.
       bindm (CHECK_VALID_EVALED_VALUE val) (\<lambda>_.
       bindm (CONS val actuals) (\<lambda>actuals. next_round (rest, actuals)))))
     else finish actuals)"

definition do_step ::
    "eval_rec \<Rightarrow> obj \<Rightarrow> obj \<Rightarrow> obj \<Rightarrow> obj \<Rightarrow> obj \<Rightarrow> obj \<times> obj \<Rightarrow> (obj \<times> obj + obj \<times> obj) run" where
  "do_step rec test commands formals steps orig_env = (\<lambda>(env, rest_commands).
     bindm (EVAL rec test env) (\<lambda>termp.
     if termp \<noteq> SCM_FALSE then finish (env, rest_commands)
     else
       bindm (loop (do_command_step rec env) commands) (\<lambda>rest_commands.
       bindm (loop (do_update_step rec env) (steps, SCM_NULL)) (\<lambda>actuals.
       bindm (changes (\<lambda>h. scm_extend_environment h formals actuals orig_env)) (\<lambda>env.
         next_round (env, rest_commands))))))"

definition scm_s_do :: "eval_rec \<Rightarrow> obj \<Rightarrow> obj \<Rightarrow> obj \<Rightarrow> eval_state \<Rightarrow> (obj \<times> eval_state) run" where
  "scm_s_do rec bindings test_exps commands st =
     bindm (loop (do_binding_step rec bindings (FORBID_TOPLEVEL_DEFINITIONS (es_env st)))
       (bindings, SCM_NULL, SCM_NULL, QUEUE_POINT_TO SCM_NULL)) (\<lambda>(formals, actuals, steps).
     if \<not> CONSP test_exps then raise (ErrObj ''invalid test form'' test_exps)
     else
       bindm (reads (\<lambda>h. (CAR h test_exps, CDR h test_exps))) (\<lambda>(test, exps).
       bindm (changes (\<lambda>h. scm_extend_environment h formals actuals (es_env st))) (\<lambda>env.
       bindm (loop (do_step rec test commands formals steps (es_env st)) (env, commands)) (\<lambda>(env, rest_commands).
       bindm (if rest_commands = commands then ASSERT_PROPER_ARG_LIST commands else ret ()) (\<lambda>_.
         let st = st\<lparr>es_env := env\<rparr> in
         if NULLP exps then ret (SCM_UNDEF, st\<lparr>ret_type := SCM_VALTYPE_AS_IS\<rparr>)
         else scm_s_begin rec exps (st\<lparr>nest := SCM_NEST_COMMAND\<rparr>))))))"

section \<open>Definitions\<close>

definition scm_s_define_internal :: "eval_rec \<Rightarrow> bindee \<Rightarrow> obj \<Rightarrow> obj \<Rightarrow> obj \<Rightarrow> unit run" where
  "scm_s_define_internal rec permitted var exp env =
     bindm (checks (\<lambda>h. if SYMBOLP h var \<or> SYMBOLP h (SCM_FARSYMBOL_SYM h var) then Inr () else Inl aborted)) (\<lambda>_.
     bindm (UNWRAP_KEYWORD var) (\<lambda>var.
     bindm (EVAL rec exp env) (\<lambda>val.
     bindm (CHECK_VALID_BINDEE permitted val) (\<lambda>_.
       changes (\<lambda>h. ((), scm_define_toplevel h var val env))))))"

definition scm_s_define :: "interp \<Rightarrow> eval_rec \<Rightarrow> obj \<Rightarrow> obj \<Rightarrow> eval_state \<Rightarrow> (obj \<times> eval_state) run" where
  "scm_s_define g rec var rest st =
     (if \<not> SCM_DEFINABLE_TOPLEVELP st then
        raise (ErrObj (if scm_toplevel_environmentp (es_env st) then ''toplevel definition is not allowed here''
          else ''definitions are valid only at toplevel or beginning of a binding construct'') var)
      else
        bindm (reads (\<lambda>h. (IDENTIFIERP h var, LIST_1_P h rest, CAR h rest, CAR h var, CDR h var)))
        (\<lambda>(identifierp, list1, exp, procname, formals).
        if identifierp \<and> list1 then
          bindm (scm_s_define_internal rec PermitFirstClass var exp (es_env st)) (\<lambda>_.
            ret (var, st\<lparr>ret_type := SCM_VALTYPE_AS_IS\<rparr>))
        else if \<not> identifierp \<and> CONSP var then
          bindm (ENSURE_IDENTIFIER procname) (\<lambda>_.
          bindm (scm_s_lambda formals rest (es_env st)) (\<lambda>proc.
          bindm (scm_s_define_internal rec PermitFirstClass procname proc (es_env st)) (\<lambda>_.
            ret (var, st\<lparr>ret_type := SCM_VALTYPE_AS_IS\<rparr>))))
        else bindm (CONS var rest) (\<lambda>l. bindm (CONS (l_sym_define g) l) (\<lambda>form. raise (bad_define_form form)))))"

section \<open>Syntaxes of the macros\<close>

definition scm_s_expand_macro :: "interp \<Rightarrow> eval_rec \<Rightarrow> obj \<Rightarrow> obj \<Rightarrow> eval_state \<Rightarrow> (obj \<times> eval_state) run" where
  "scm_s_expand_macro g rec macro args st =
     bindm (EVAL rec macro (es_env st)) (\<lambda>macro.
     bindm (scm_expand_macro g macro args st) (\<lambda>(x, st). ret (x, st\<lparr>ret_type := SCM_VALTYPE_AS_IS\<rparr>)))"

definition match_clause_step ::
    "interp \<Rightarrow> eval_rec \<Rightarrow> compilation_context \<Rightarrow> obj \<Rightarrow> eval_state \<Rightarrow> obj \<Rightarrow> (obj + obj \<times> eval_state) run" where
  "match_clause_step g rec ctx form st clauses =
     (if CONSP clauses then
        bindm (reads (\<lambda>h. (CAR h clauses, CDR h clauses, CAR h (CAR h clauses), CDR h (CAR h clauses))))
        (\<lambda>(clause, rest, pattern, exps).
        if \<not> CONSP clause then raise (ErrObj ''malformed match clause'' clause)
        else bindm (scm_unwrap_syntax pattern) (\<lambda>pattern.
          bindm (compile (ctx\<lparr>pv_syms := SCM_NULL, pv_vals := SCM_NULL, pvlen := 0\<rparr>) pattern) (\<lambda>(pat, ctx).
          bindm (match_pattern g pat form 0 0 SCM_INVALID) (\<lambda>sub.
          if VALIDP sub then
            bindm (CONS (pv_syms ctx) sub) (\<lambda>frame. bindm (CONS frame (es_env st)) (\<lambda>env.
            bindm (scm_s_begin rec exps (st\<lparr>es_env := env\<rparr>)) finish))
          else next_round rest))))
      else finish (SCM_UNDEF, st))"

definition scm_s_match :: "interp \<Rightarrow> eval_rec \<Rightarrow> obj \<Rightarrow> obj \<Rightarrow> eval_state \<Rightarrow> (obj \<times> eval_state) run" where
  "scm_s_match g rec form clauses st =
     bindm (EVAL rec form (es_env st)) (\<lambda>form.
     bindm (init_compilation_context (scm_sym_ellipsis g) SCM_NULL) (\<lambda>ctx.
       loop (match_clause_step g rec (ctx\<lparr>mode_pattern := True\<rparr>) form st) clauses))"

definition scm_s_let_syntax :: "interp \<Rightarrow> eval_rec \<Rightarrow> obj \<Rightarrow> obj \<Rightarrow> eval_state \<Rightarrow> (obj \<times> eval_state) run" where
  "scm_s_let_syntax g rec bindings body st = scm_s_let_internal g rec PermitMacro bindings body st"

definition scm_s_letrec_syntax :: "interp \<Rightarrow> eval_rec \<Rightarrow> obj \<Rightarrow> obj \<Rightarrow> eval_state \<Rightarrow> (obj \<times> eval_state) run" where
  "scm_s_letrec_syntax g rec bindings body st = scm_s_letrec_internal g rec PermitMacro bindings body st"

definition scm_s_define_syntax :: "eval_rec \<Rightarrow> obj \<Rightarrow> obj \<Rightarrow> obj \<Rightarrow> obj run" where
  "scm_s_define_syntax rec var macro env =
     bindm (ENSURE_IDENTIFIER var) (\<lambda>_.
     if \<not> scm_toplevel_environmentp env
     then raise (ErrObj ''syntax definitions are valid only at toplevel or beginning of a body'' var)
     else bindm (scm_s_define_internal rec PermitMacro var macro env) (\<lambda>_. ret SCM_UNDEF))"

end
