(* ===== verification/Control.thy ===== *)
theory Control
  imports Syntax
begin

text \<open>
  Control: the procedures of \<^verbatim>\<open>src/procedure.c\<close> that call procedures, promises (\<^verbatim>\<open>src/promise.c\<close>),
  continuations and dynamic extents (\<^verbatim>\<open>src/continuation.c\<close>) and quasiquotation (\<^verbatim>\<open>src/qquote.c\<close>).

  Continuations are the escaping ones of \<^verbatim>\<open>SCM_NESTED_CONTINUATION_ONLY\<close>: a frame is the address of the
  C frame of \<^verbatim>\<open>scm_call_with_current_continuation\<close>, zero is \<^verbatim>\<open>INVALID_CONTINUATION_OPAQUE\<close>, and
  \<^verbatim>\<open>longjmp\<close> is the outcome \<open>Jumped\<close>, which only the frame of that address catches.
\<close>

section \<open>Mapping\<close>

definition map_single_step :: "eval_rec \<Rightarrow> obj \<Rightarrow> obj \<times> queue \<Rightarrow> (obj \<times> queue + obj) run" where
  "map_single_step rec proc = (\<lambda>(lst, q).
     if CONSP lst then
       bindm (reads (\<lambda>h. (CAR h lst, CDR h lst))) (\<lambda>(elm, lst).
       bindm (SCM_LIST_1 elm) (\<lambda>args. bindm (scm_call rec proc args) (\<lambda>elm.
       bindm (QUEUE_ADD q elm) (\<lambda>q. next_round (lst, q)))))
     else bindm (checks (\<lambda>_. NO_MORE_ARG lst)) (\<lambda>_. finish (fst q)))"

definition scm_map_single_arg :: "eval_rec \<Rightarrow> obj \<Rightarrow> obj \<Rightarrow> obj run" where
  "scm_map_single_arg rec proc lst = loop (map_single_step rec proc) (lst, QUEUE_POINT_TO SCM_NULL)"

text \<open>A slice of the lists: its elements, or the place where a list has ended.\<close>

definition map_slice_step :: "obj \<times> queue \<Rightarrow> (obj \<times> queue + (obj + obj)) run" where
  "map_slice_step = (\<lambda>(rest_lsts, argq).
     if \<not> CONSP rest_lsts then finish (Inr (fst argq))
     else bindm (reads (\<lambda>h. (CAR h rest_lsts, CAR h (CAR h rest_lsts), CDR h (CAR h rest_lsts)))) (\<lambda>(lst, x, rest).
       if CONSP lst then
         bindm (QUEUE_ADD argq x) (\<lambda>argq.
         bindm (changes (\<lambda>h. (CDR h rest_lsts, SET_CAR h rest_lsts rest))) (\<lambda>rest_lsts. next_round (rest_lsts, argq)))
       else if NULLP lst then finish (Inl rest_lsts)
       else raise (ErrObj ''invalid argument'' lst)))"

definition map_multiple_step :: "eval_rec \<Rightarrow> obj \<Rightarrow> obj \<Rightarrow> queue \<Rightarrow> (queue + queue \<times> obj) run" where
  "map_multiple_step rec proc lsts retq =
     bindm (loop map_slice_step (lsts, QUEUE_POINT_TO SCM_NULL)) (\<lambda>slice. case slice of
         Inl rest_lsts \<Rightarrow> finish (retq, rest_lsts)
       | Inr map_args \<Rightarrow> bindm (scm_call rec proc map_args) (\<lambda>elm. bindm (QUEUE_ADD retq elm) next_round))"

definition uneven_map_args :: scm_error where
  "uneven_map_args = Err ''unequal-length lists are passed as arguments''"

definition map_ended_step :: "obj \<Rightarrow> (obj + unit) run" where
  "map_ended_step lsts =
     (if CONSP lsts then
        bindm (reads (\<lambda>h. (CAR h lsts, CDR h lsts))) (\<lambda>(lst, rest).
        if \<not> NULLP lst then raise uneven_map_args else next_round rest)
      else bindm (checks (\<lambda>_. NO_MORE_ARG lsts)) (\<lambda>_. finish ()))"

definition scm_map_multiple_args :: "eval_rec \<Rightarrow> obj \<Rightarrow> obj \<Rightarrow> bool \<Rightarrow> obj run" where
  "scm_map_multiple_args rec proc lsts allow_uneven_lists =
     bindm (loop (map_multiple_step rec proc lsts) (QUEUE_POINT_TO SCM_NULL)) (\<lambda>(retq, rest_lsts).
     bindm (if allow_uneven_lists then ret ()
            else if lsts \<noteq> rest_lsts then raise uneven_map_args
            else loop map_ended_step lsts) (\<lambda>_. ret (fst retq)))"

definition scm_p_map :: "eval_rec \<Rightarrow> obj \<Rightarrow> obj \<Rightarrow> obj run" where
  "scm_p_map rec proc args =
     (if NULLP args then raise (Err ''wrong number of arguments'')
      else bindm (reads (\<lambda>h. (CAR h args, CDR h args))) (\<lambda>(first, rest).
        if NULLP rest then scm_map_single_arg rec proc first else scm_map_multiple_args rec proc args False))"

definition scm_p_for_each :: "eval_rec \<Rightarrow> obj \<Rightarrow> obj \<Rightarrow> obj run" where
  "scm_p_for_each rec proc args = bindm (scm_p_map rec proc args) (\<lambda>_. ret SCM_UNDEF)"

section \<open>Multiple values\<close>

definition scm_p_values :: "obj \<Rightarrow> obj run" where
  "scm_p_values args =
     bindm (reads (\<lambda>h. (LIST_1_P h args, CAR h args))) (\<lambda>(list1, x).
     if list1 then ret x else changes (\<lambda>h. scm_make_value_packet h args))"

definition scm_p_call_with_values :: "interp \<Rightarrow> eval_rec \<Rightarrow> obj \<Rightarrow> obj \<Rightarrow> eval_state \<Rightarrow> (obj \<times> eval_state) run" where
  "scm_p_call_with_values g rec producer consumer st =
     bindm (scm_call rec producer SCM_NULL) (\<lambda>vals.
     bindm (SCM_LIST_3 (scm_values_applier g) consumer vals) (\<lambda>x. ret (x, st)))"

definition apply_args_step :: "obj \<times> queue \<Rightarrow> (obj \<times> queue + obj \<times> queue) run" where
  "apply_args_step = (\<lambda>(rest, q).
     bindm (reads (\<lambda>h. (CAR h rest, CDR h rest))) (\<lambda>(arg, rest).
     if CONSP rest then bindm (QUEUE_ADD q arg) (\<lambda>q. next_round (rest, q))
     else finish (arg, q)))"

definition scm_p_apply :: "eval_rec \<Rightarrow> obj \<Rightarrow> obj \<Rightarrow> obj \<Rightarrow> eval_state \<Rightarrow> (obj \<times> eval_state) run" where
  "scm_p_apply rec proc arg0 rest st =
     bindm (if NULLP rest then ret (arg0, arg0)
            else if \<not> CONSP rest then raise aborted
            else bindm (SCM_LIST_1 arg0) (\<lambda>args.
              bindm (loop apply_args_step (rest, SCM_INVALID, REF_CDR args)) (\<lambda>(arg, q).
              bindm (QUEUE_SLOPPY_APPEND q arg) (\<lambda>_. ret (args, arg))))) (\<lambda>(args, last').
     bindm (checks (\<lambda>_. ENSURE_LIST last')) (\<lambda>_. call rec proc args st SCM_VALTYPE_AS_IS))"

section \<open>Promises\<close>

definition PROMISE_DONE :: int where "PROMISE_DONE = 0"
definition PROMISE_DELAY :: int where "PROMISE_DELAY = 1"
definition PROMISE_DELAY_FORCE :: int where "PROMISE_DELAY_FORCE = 2"

definition PROMISE_BOX :: "heap \<Rightarrow> obj \<Rightarrow> obj" where "PROMISE_BOX h p = CAR h p"
definition PROMISE_STATE :: "heap \<Rightarrow> obj \<Rightarrow> int" where "PROMISE_STATE h p = SCM_INT_VALUE (CAR h (PROMISE_BOX h p))"
definition PROMISE_VALUE :: "heap \<Rightarrow> obj \<Rightarrow> obj" where "PROMISE_VALUE h p = CDR h (PROMISE_BOX h p)"

definition make_promise :: "interp \<Rightarrow> int \<Rightarrow> obj \<Rightarrow> obj run" where
  "make_promise g state value = bindm (CONS (IntObj state) value) (\<lambda>box. CONS box (l_promise_tag g))"

definition scm_promisep :: "interp \<Rightarrow> heap \<Rightarrow> obj \<Rightarrow> bool" where
  "scm_promisep g h x \<longleftrightarrow> CONSP x \<and> CDR h x = l_promise_tag g"

definition scm_make_forced_promise :: "interp \<Rightarrow> obj \<Rightarrow> obj run" where
  "scm_make_forced_promise g value = make_promise g PROMISE_DONE value"

definition scm_make_delay_force_promise :: "interp \<Rightarrow> obj \<Rightarrow> obj run" where
  "scm_make_delay_force_promise g thunk = make_promise g PROMISE_DELAY_FORCE thunk"

definition scm_s_delay :: "interp \<Rightarrow> obj \<Rightarrow> obj \<Rightarrow> obj run" where
  "scm_s_delay g exp env =
     bindm (SCM_LIST_1 exp) (\<lambda>body. bindm (scm_s_lambda SCM_NULL body env) (\<lambda>thunk. make_promise g PROMISE_DELAY thunk))"

definition fulfil_promise :: "obj \<Rightarrow> obj \<Rightarrow> unit run" where
  "fulfil_promise promise result =
     changes (\<lambda>h. ((), let box = PROMISE_BOX h promise in SET_CDR (SET_CAR h box (IntObj PROMISE_DONE)) box result))"

definition share_promise :: "obj \<Rightarrow> obj \<Rightarrow> unit run" where
  "share_promise promise result =
     changes (\<lambda>h. ((),
       let h = SET_CAR h (PROMISE_BOX h promise) (CAR h (PROMISE_BOX h result));
           h = SET_CDR h (PROMISE_BOX h promise) (CDR h (PROMISE_BOX h result))
       in SET_CAR h result (PROMISE_BOX h promise)))"

definition force_step :: "interp \<Rightarrow> eval_rec \<Rightarrow> obj \<Rightarrow> unit \<Rightarrow> (unit + obj) run" where
  "force_step g rec promise _ =
     bindm (reads (\<lambda>h. (PROMISE_STATE h promise, PROMISE_VALUE h promise))) (\<lambda>(state, thunk).
     if state = PROMISE_DONE then finish thunk
     else
       bindm (scm_call rec thunk SCM_NULL) (\<lambda>result.
       bindm (reads (\<lambda>h. (PROMISE_STATE h promise, PROMISE_VALUE h promise, scm_promisep g h result)))
       (\<lambda>(state', value, promisep).
       if state' = PROMISE_DONE then finish value
       else if state = PROMISE_DELAY then bindm (fulfil_promise promise result) (\<lambda>_. finish result)
       else if \<not> promisep then raise (ErrObj ''delay-force requires a promise but got'' result)
       else bindm (share_promise promise result) next_round)))"

definition scm_p_force :: "interp \<Rightarrow> eval_rec \<Rightarrow> obj \<Rightarrow> obj run" where
  "scm_p_force g rec promise =
     bindm (ensure (\<lambda>h. scm_promisep g h promise) ''promise required but got'' promise) (\<lambda>_.
       loop (force_step g rec promise) ())"

section \<open>Dynamic extents\<close>

definition reads_mach :: "(mach \<Rightarrow> 'a) \<Rightarrow> 'a run" where "reads_mach f m = Some (Value (f m), m)"

definition changes_mach :: "(mach \<Rightarrow> mach) \<Rightarrow> unit run" where "changes_mach f m = Some (Value (), f m)"

definition wind_onto_dynamic_extent :: "obj \<Rightarrow> obj \<Rightarrow> unit run" where
  "wind_onto_dynamic_extent before_thunk after_thunk =
     bindm (CONS before_thunk after_thunk) (\<lambda>frame.
     bindm (reads_mach l_current_dynamic_extent) (\<lambda>ext.
     bindm (CONS frame ext) (\<lambda>ext. changes_mach (\<lambda>m. m\<lparr>l_current_dynamic_extent := ext\<rparr>))))"

definition unwind_dynamic_extent :: "unit run" where
  "unwind_dynamic_extent =
     bindm (reads_mach (\<lambda>m. l_current_dynamic_extent m)) (\<lambda>ext.
     if NULLP ext then raise (Err ''corrupted dynamic extent'')
     else changes_mach (\<lambda>m. m\<lparr>l_current_dynamic_extent := CDR (m_heap m) ext\<rparr>))"

definition return_path_step :: "obj \<times> obj \<Rightarrow> (obj \<times> obj + obj) run" where
  "return_path_step = (\<lambda>(unwound, retpath).
     bindm (reads_mach l_current_dynamic_extent) (\<lambda>ext.
     if NULLP unwound \<or> unwound = ext then finish retpath
     else bindm (reads (\<lambda>h. (CAR h unwound, CDR h unwound))) (\<lambda>(frame, unwound).
       bindm (CONS frame retpath) (\<lambda>retpath. next_round (unwound, retpath)))))"

definition enter_step :: "eval_rec \<Rightarrow> obj \<Rightarrow> (obj + unit) run" where
  "enter_step rec retpath =
     (if CONSP retpath then
        bindm (reads (\<lambda>h. (CAR h (CAR h retpath), CDR h retpath))) (\<lambda>(before_thunk, rest).
        bindm (scm_call rec before_thunk SCM_NULL) (\<lambda>_. next_round rest))
      else finish ())"

definition enter_dynamic_extent :: "eval_rec \<Rightarrow> obj \<Rightarrow> unit run" where
  "enter_dynamic_extent rec dest =
     bindm (loop return_path_step (dest, SCM_NULL)) (\<lambda>retpath. loop (enter_step rec) retpath)"

definition exit_step :: "eval_rec \<Rightarrow> obj \<Rightarrow> unit \<Rightarrow> (unit + unit) run" where
  "exit_step rec dest _ =
     bindm (reads_mach (\<lambda>m. let ext = l_current_dynamic_extent m
        in (ext, CDR (m_heap m) (CAR (m_heap m) ext), CDR (m_heap m) ext))) (\<lambda>(ext, after_thunk, outer).
     if NULLP ext \<or> ext = dest then finish ()
     else bindm (changes_mach (\<lambda>m. m\<lparr>l_current_dynamic_extent := outer\<rparr>)) (\<lambda>_.
       bindm (scm_call rec after_thunk SCM_NULL) (\<lambda>_. next_round ())))"

definition exit_dynamic_extent :: "eval_rec \<Rightarrow> obj \<Rightarrow> unit run" where
  "exit_dynamic_extent rec dest = loop (exit_step rec dest) ()"

definition scm_dynamic_wind :: "eval_rec \<Rightarrow> obj \<Rightarrow> obj \<Rightarrow> obj \<Rightarrow> obj run" where
  "scm_dynamic_wind rec before_thunk thunk after_thunk =
     bindm (scm_call rec before_thunk SCM_NULL) (\<lambda>_.
     bindm (wind_onto_dynamic_extent before_thunk after_thunk) (\<lambda>_.
     bindm (scm_call rec thunk SCM_NULL) (\<lambda>x.
     bindm unwind_dynamic_extent (\<lambda>_.
     bindm (scm_call rec after_thunk SCM_NULL) (\<lambda>_. ret x)))))"

definition scm_p_dynamic_wind :: "eval_rec \<Rightarrow> obj \<Rightarrow> obj \<Rightarrow> obj \<Rightarrow> obj run" where
  "scm_p_dynamic_wind rec before_thunk thunk after_thunk =
     bindm (checks (\<lambda>h. ENSURE_PROCEDURE h before_thunk)) (\<lambda>_.
     bindm (checks (\<lambda>h. ENSURE_PROCEDURE h thunk)) (\<lambda>_.
     bindm (checks (\<lambda>h. ENSURE_PROCEDURE h after_thunk)) (\<lambda>_. scm_dynamic_wind rec before_thunk thunk after_thunk)))"

section \<open>Continuations\<close>

fun CONTINUATION_FRAME :: "heap \<Rightarrow> obj \<Rightarrow> nat" where
  "CONTINUATION_FRAME h x = (case misc_cell h x of Some (ContinuationCell f _) \<Rightarrow> f | _ \<Rightarrow> 0)"

fun CONTINUATION_SET_FRAME :: "heap \<Rightarrow> obj \<Rightarrow> nat \<Rightarrow> heap" where
  "CONTINUATION_SET_FRAME h (Ptr PTAG_MISC a) f =
     (case mem h a of Some (ContinuationCell _ tag) \<Rightarrow> h\<lparr>mem := (mem h)(a \<mapsto> ContinuationCell f tag)\<rparr> | _ \<Rightarrow> h)"
| "CONTINUATION_SET_FRAME h _ f = h"

definition continuation_stack_push :: "obj \<Rightarrow> unit run" where
  "continuation_stack_push cont =
     bindm (reads_mach l_continuation_stack) (\<lambda>stack.
     bindm (CONS cont stack) (\<lambda>stack. changes_mach (\<lambda>m. m\<lparr>l_continuation_stack := stack\<rparr>)))"

definition continuation_stack_pop :: "obj run" where
  "continuation_stack_pop =
     bindm (reads_mach (\<lambda>m. (l_continuation_stack m, CAR (m_heap m) (l_continuation_stack m),
       CDR (m_heap m) (l_continuation_stack m)))) (\<lambda>(stack, cont, rest).
     if NULLP stack then ret SCM_FALSE
     else bindm (changes_mach (\<lambda>m. m\<lparr>l_continuation_stack := rest\<rparr>)) (\<lambda>_. ret cont))"

definition unwind_step :: "obj \<Rightarrow> unit \<Rightarrow> (unit + obj) run" where
  "unwind_step dest_cont _ =
     bindm continuation_stack_pop (\<lambda>cont.
     if cont = SCM_FALSE then finish SCM_FALSE
     else bindm (changes (\<lambda>h. ((), CONTINUATION_SET_FRAME h cont 0))) (\<lambda>_.
       if dest_cont \<noteq> cont then next_round () else finish dest_cont))"

definition continuation_stack_unwind :: "obj \<Rightarrow> obj run" where
  "continuation_stack_unwind dest_cont = loop (unwind_step dest_cont) ()"

text \<open>\<^verbatim>\<open>setjmp\<close>: a jump to the frame \<open>f\<close> goes on with \<open>q\<close>; a jump to another frame passes by.\<close>

definition catch_jump :: "'a run \<Rightarrow> nat \<Rightarrow> 'a run \<Rightarrow> 'a run" where
  "catch_jump p f q m = Option.bind (p m) (\<lambda>r. case fst r of
     Value x \<Rightarrow> Some (Value x, snd r)
   | Raised e \<Rightarrow> Some (Raised e, snd r)
   | Jumped f' \<Rightarrow> if f' = f then q (snd r) else Some (Jumped f', snd r))"

definition LONGJMP :: "nat \<Rightarrow> 'a run" where "LONGJMP f m = Some (Jumped f, m)"

definition enter_frame :: "nat run" where
  "enter_frame m =
     (let f = m_next_frame m in
      Some (Value f, m\<lparr>m_frames := (m_frames m)(f := \<lparr>cf_dyn_ext = l_current_dynamic_extent m, cf_ret_val = SCM_UNDEF\<rparr>),
                       m_next_frame := Suc f\<rparr>))"

definition scm_call_with_current_continuation :: "eval_rec \<Rightarrow> obj \<Rightarrow> eval_state \<Rightarrow> (obj \<times> eval_state) run" where
  "scm_call_with_current_continuation rec proc st =
     bindm enter_frame (\<lambda>f.
     bindm (changes scm_make_continuation) (\<lambda>cont.
     bindm (changes (\<lambda>h. ((), CONTINUATION_SET_FRAME h cont f))) (\<lambda>_.
     bindm (continuation_stack_push cont) (\<lambda>_.
     bindm (catch_jump
        (bindm (SCM_LIST_1 cont) (\<lambda>args. bindm (scm_call rec proc args) (\<lambda>x.
         bindm (continuation_stack_unwind cont) (\<lambda>_. ret x))))
        f
        (bindm (reads_mach (\<lambda>m. cf_dyn_ext (m_frames m f))) (\<lambda>dyn_ext.
         bindm (enter_dynamic_extent rec dyn_ext) (\<lambda>_.
         reads_mach (\<lambda>m. cf_ret_val (m_frames m f)))))) (\<lambda>x.
     ret (x, st\<lparr>ret_type := SCM_VALTYPE_AS_IS\<rparr>))))))"

definition scm_call_continuation :: "eval_rec \<Rightarrow> obj \<Rightarrow> obj \<Rightarrow> 'a run" where
  "scm_call_continuation rec cont x =
     bindm (reads (\<lambda>h. CONTINUATION_FRAME h cont)) (\<lambda>f.
     bindm (if f = 0 then ret False
            else bindm (continuation_stack_unwind cont) (\<lambda>dst. reads (\<lambda>h. CONTINUATIONP h dst))) (\<lambda>live.
     if live then
       bindm (reads_mach (\<lambda>m. cf_dyn_ext (m_frames m f))) (\<lambda>dyn_ext.
       bindm (exit_dynamic_extent rec dyn_ext) (\<lambda>_.
       bindm (changes_mach (\<lambda>m. m\<lparr>m_frames := (m_frames m)(f := (m_frames m f)\<lparr>cf_ret_val := x\<rparr>)\<rparr>)) (\<lambda>_. LONGJMP f)))
     else raise (Err ''expired continuation'')))"

section \<open>Quasiquotation\<close>

text \<open>The translator of a list: the copy so far with its queue, the place in the source up to which it
  is copied and the current place.\<close>

record list_translator =
  tr_queue :: queue
  tr_cur :: obj
  tr_src :: obj

definition TRL_INIT :: "obj \<Rightarrow> list_translator" where
  "TRL_INIT x = \<lparr>tr_queue = QUEUE_POINT_TO x, tr_cur = x, tr_src = x\<rparr>"

definition bad_splice_list :: "obj \<Rightarrow> scm_error" where "bad_splice_list x = ErrObj ''bad splice list'' x"

definition deferred_copy_step :: "obj \<Rightarrow> obj \<times> queue \<Rightarrow> (obj \<times> queue + queue) run" where
  "deferred_copy_step cur = (\<lambda>(src, q).
     if src = cur then finish q
     else bindm (reads (\<lambda>h. (CAR h src, CDR h src))) (\<lambda>(x, rest). bindm (QUEUE_ADD q x) (\<lambda>q. next_round (rest, q))))"

definition TRL_SET_SUBLS :: "list_translator \<Rightarrow> obj \<Rightarrow> list_translator run" where
  "TRL_SET_SUBLS tr x =
     bindm (loop (deferred_copy_step (tr_cur tr)) (tr_src tr, tr_queue tr)) (\<lambda>q.
     bindm (QUEUE_SLOPPY_APPEND q x) (\<lambda>q. ret (tr\<lparr>tr_queue := q, tr_src := tr_cur tr\<rparr>)))"

definition TRL_SPLICE :: "list_translator \<Rightarrow> obj \<Rightarrow> list_translator run" where
  "TRL_SPLICE tr x =
     bindm (loop (deferred_copy_step (tr_cur tr)) (tr_src tr, tr_queue tr)) (\<lambda>q.
     bindm (QUEUE_APPEND q x) (\<lambda>q.
     bindm (reads (\<lambda>h. (QUEUE_TERMINATOR h q, CDR h (tr_cur tr)))) (\<lambda>(term, rest).
     if \<not> NULLP term then raise (bad_splice_list x)
     else bindm (QUEUE_SLOPPY_APPEND q rest) (\<lambda>q. ret (tr\<lparr>tr_queue := q, tr_src := rest\<rparr>)))))"

definition scm_listran :: "list_translator \<Rightarrow> tr_msg \<Rightarrow> obj \<Rightarrow> list_translator run" where
  "scm_listran tr msg x = (case msg of
     TR_MSG_NOP \<Rightarrow> ret tr
   | TR_MSG_REPLACE \<Rightarrow> bindm (SCM_LIST_1 x) (TRL_SPLICE tr)
   | TR_MSG_SPLICE \<Rightarrow> TRL_SPLICE tr x)"

text \<open>The translator of a vector keeps the changes, by the index of the element, which is coded as a
  negative number when its list is spliced.\<close>

record vector_translator =
  trv_queue :: queue
  trv_index :: int
  trv_growth :: int

definition SPLICED_INDEX :: "int \<Rightarrow> int" where "SPLICED_INDEX i = - i - 1"

definition record_change :: "vector_translator \<Rightarrow> int \<Rightarrow> obj \<Rightarrow> vector_translator run" where
  "record_change tr index x =
     bindm (CONS (IntObj index) x) (\<lambda>subst. bindm (QUEUE_ADD (trv_queue tr) subst) (\<lambda>q. ret (tr\<lparr>trv_queue := q\<rparr>)))"

definition scm_vectran :: "vector_translator \<Rightarrow> tr_msg \<Rightarrow> obj \<Rightarrow> vector_translator run" where
  "scm_vectran tr msg x = (case msg of
     TR_MSG_NOP \<Rightarrow> ret tr
   | TR_MSG_REPLACE \<Rightarrow> record_change tr (trv_index tr) x
   | TR_MSG_SPLICE \<Rightarrow>
       bindm (tries (\<lambda>h. map_option (\<lambda>len. if SCM_LISTLEN_PROPERP len then Inr len else Inl (bad_splice_list x))
         (scm_length h x))) (\<lambda>len.
       record_change (tr\<lparr>trv_growth := trv_growth tr + len - 1\<rparr>) (SPLICED_INDEX (trv_index tr)) x))"

definition splice_elements_step :: "obj \<times> obj list \<Rightarrow> (obj \<times> obj list + obj list) run" where
  "splice_elements_step = (\<lambda>(appendix, buf).
     if CONSP appendix then
       bindm (reads (\<lambda>h. (CAR h appendix, CDR h appendix))) (\<lambda>(x, rest). next_round (rest, buf @ [x]))
     else finish buf)"

definition extract_step ::
    "obj list \<Rightarrow> int \<times> obj \<times> obj list \<Rightarrow> (int \<times> obj \<times> obj list + obj list) run" where
  "extract_step src = (\<lambda>(i, diff, buf).
     if i \<ge> int (length src) then finish buf
     else bindm (reads (\<lambda>h. (if NULLP diff then int (length src) else SCM_INT_VALUE (CAR h (CAR h diff)),
         CDR h (CAR h diff), CDR h diff))) (\<lambda>(change_index, x, rest).
       if i = change_index then next_round (i + 1, rest, buf @ [x])
       else if SPLICED_INDEX i = change_index then
         bindm (loop splice_elements_step (x, buf)) (\<lambda>buf. next_round (i + 1, rest, buf))
       else next_round (i + 1, diff, buf @ [src ! nat i])))"

definition TRV_EXTRACT :: "obj \<Rightarrow> vector_translator \<Rightarrow> obj run" where
  "TRV_EXTRACT src tr =
     (if NULLP (fst (trv_queue tr)) then ret src
      else bindm (reads (\<lambda>h. VECTOR_VEC h src)) (\<lambda>vec.
        bindm (loop (extract_step vec) (0, fst (trv_queue tr), [])) (\<lambda>buf. changes (\<lambda>h. scm_make_vector h buf))))"

definition QQ :: "eval_rec \<Rightarrow> obj \<Rightarrow> obj \<Rightarrow> int \<Rightarrow> (tr_msg \<times> obj) run" where
  "QQ rec x env nest' = bindm (rec (P_qquote x env nest')) (\<lambda>a. case a of
     A_obj _ _ \<Rightarrow> raise aborted | A_msg msg x \<Rightarrow> ret (msg, x))"

definition qq_vector_step ::
    "eval_rec \<Rightarrow> obj \<Rightarrow> obj \<Rightarrow> int \<Rightarrow> vector_translator \<Rightarrow> (vector_translator + vector_translator) run" where
  "qq_vector_step rec input env nest' tr =
     bindm (reads (\<lambda>h. VECTOR_VEC h input)) (\<lambda>vec.
     if int (length vec) \<le> trv_index tr then finish tr
     else bindm (QQ rec (vec ! nat (trv_index tr)) env nest') (\<lambda>(msg, y).
       bindm (scm_vectran tr msg y) (\<lambda>tr. next_round (tr\<lparr>trv_index := trv_index tr + 1\<rparr>))))"

text \<open>The arguments of a keyword in a template are a list of one.\<close>

definition qq_args :: "obj \<Rightarrow> string \<Rightarrow> obj run" where
  "qq_args form msg = checks (\<lambda>h. if LIST_1_P h (CDR h form) then Inr (CADR h form) else Inl (ErrObj msg form))"

definition qq_element ::
    "eval_rec \<Rightarrow> obj \<Rightarrow> list_translator \<Rightarrow> obj \<Rightarrow> int \<Rightarrow> (list_translator \<times> int + tr_msg \<times> obj) run" where
  "qq_element rec env tr x nest' =
     bindm (QQ rec x env nest') (\<lambda>(msg, y).
     bindm (scm_listran tr msg y) (\<lambda>tr.
     bindm (reads (\<lambda>h. CDR h (tr_cur tr))) (\<lambda>cur. next_round (tr\<lparr>tr_cur := cur\<rparr>, nest'))))"

text \<open>The result of a template that is all copied so far: no change if it is the same object.\<close>

definition qq_extract :: "obj \<Rightarrow> obj \<Rightarrow> tr_msg \<times> obj" where
  "qq_extract input out = (if out = input then TR_MSG_NOP else TR_MSG_REPLACE, out)"

definition qq_tail :: "eval_rec \<Rightarrow> obj \<Rightarrow> obj \<Rightarrow> list_translator \<Rightarrow> int \<Rightarrow> (tr_msg \<times> obj) run" where
  "qq_tail rec input env tr nest' =
     bindm (if NULLP (tr_cur tr) then ret tr
            else bindm (QQ rec (tr_cur tr) env nest') (\<lambda>(msg, y). case msg of
               TR_MSG_NOP \<Rightarrow> ret tr
             | TR_MSG_REPLACE \<Rightarrow> TRL_SET_SUBLS tr y
             | TR_MSG_SPLICE \<Rightarrow> raise aborted)) (\<lambda>tr.
     ret (qq_extract input (fst (tr_queue tr))))"

definition qq_list_step ::
    "interp \<Rightarrow> eval_rec \<Rightarrow> obj \<Rightarrow> obj \<Rightarrow> list_translator \<times> int \<Rightarrow> (list_translator \<times> int + tr_msg \<times> obj) run" where
  "qq_list_step g rec input env = (\<lambda>(tr, nest').
     let form = tr_cur tr in
     if \<not> CONSP form then bindm (qq_tail rec input env tr nest') finish
     else bindm (reads (\<lambda>h. CAR h form)) (\<lambda>x.
       bindm (UNWRAP_KEYWORD x) (\<lambda>unwrapped.
       if unwrapped = scm_sym_quasiquote g then
         bindm (qq_args form ''invalid quasiquote form'') (\<lambda>_. qq_element rec env tr x (nest' + 1))
       else if unwrapped = scm_sym_unquote g then
         bindm (qq_args form ''invalid unquote form'') (\<lambda>exp.
         if nest' - 1 = 0 then
           bindm (EVAL rec exp env) (\<lambda>y. bindm (TRL_SET_SUBLS tr y) (\<lambda>tr. finish (TR_MSG_REPLACE, fst (tr_queue tr))))
         else qq_element rec env tr x (nest' - 1))
       else if unwrapped = scm_sym_unquote_splicing g then
         (if form \<noteq> input then raise (ErrObj '',@ in invalid context'' input)
          else bindm (qq_args form ''invalid unquote-splicing form'') (\<lambda>exp.
            if nest' - 1 = 0 then
              bindm (EVAL rec exp env) (\<lambda>y.
              if \<not> LISTP y then raise (Err '',@<x> must evaluate to a proper list'')
              else finish (TR_MSG_SPLICE, y))
            else qq_element rec env tr x (nest' - 1)))
       else qq_element rec env tr x nest')))"

definition qquote_internal :: "interp \<Rightarrow> eval_rec \<Rightarrow> obj \<Rightarrow> obj \<Rightarrow> int \<Rightarrow> (tr_msg \<times> obj) run" where
  "qquote_internal g rec input env nest' =
     bindm (reads (\<lambda>h. (VECTORP h input, FARSYMBOLP h input))) (\<lambda>(vectorp, farp).
     if vectorp then
       bindm (loop (qq_vector_step rec input env nest') \<lparr>trv_queue = QUEUE_POINT_TO SCM_NULL, trv_index = 0, trv_growth = 0\<rparr>)
       (\<lambda>tr. bindm (TRV_EXTRACT input tr) (\<lambda>out. ret (qq_extract input out)))
     else if CONSP input then loop (qq_list_step g rec input env) (TRL_INIT input, nest')
     else if farp then bindm (scm_unwrap_syntax input) (\<lambda>x. ret (TR_MSG_REPLACE, x))
     else ret (TR_MSG_NOP, SCM_INVALID))"

definition scm_s_quasiquote :: "eval_rec \<Rightarrow> obj \<Rightarrow> obj \<Rightarrow> obj run" where
  "scm_s_quasiquote rec datum env =
     bindm (QQ rec datum env 1) (\<lambda>(msg, x). case msg of
       TR_MSG_NOP \<Rightarrow> ret datum
     | TR_MSG_SPLICE \<Rightarrow> raise (ErrObj '',@ in invalid context'' datum)
     | TR_MSG_REPLACE \<Rightarrow> ret x)"

definition scm_s_unquote :: "obj \<Rightarrow> obj run" where
  "scm_s_unquote dummy = raise (Err ''unquote outside quasiquote'')"

definition scm_s_unquote_splicing :: "obj \<Rightarrow> obj run" where
  "scm_s_unquote_splicing dummy = raise (Err ''unquote-splicing outside quasiquote'')"

end
