(* ===== verification/Eval.thy ===== *)
theory Eval
  imports Control
begin

text \<open>
  The evaluator, \<^verbatim>\<open>src/eval.c\<close>: \<^verbatim>\<open>scm_eval\<close>, \<^verbatim>\<open>call\<close> and what they use, as one least fixed point over the
  points that the recursion goes through. A tail call of the source is a round of the loop of
  \<^verbatim>\<open>scm_eval\<close>.

  A C function that does not fit the number of arguments of its type code is undefined in C; it is the
  error \<open>aborted\<close> here.
\<close>

section \<open>Arguments\<close>

definition map_eval_step :: "eval_rec \<Rightarrow> obj \<Rightarrow> obj \<times> queue \<times> int \<Rightarrow> (obj \<times> queue \<times> int + obj \<times> queue \<times> int) run" where
  "map_eval_step rec env = (\<lambda>(rest, q, len).
     if CONSP rest then
       bindm (reads (\<lambda>h. CAR h rest)) (\<lambda>x.
       bindm (EVAL rec x env) (\<lambda>elm.
       bindm (CHECK_VALID_EVALED_VALUE elm) (\<lambda>_.
       bindm (QUEUE_ADD q elm) (\<lambda>q.
       bindm (reads (\<lambda>h. CDR h rest)) (\<lambda>rest. next_round (rest, q, len + 1))))))
     else finish (rest, q, len))"

definition map_eval :: "eval_rec \<Rightarrow> obj \<Rightarrow> obj \<Rightarrow> (obj \<times> int) run" where
  "map_eval rec args env =
     (if NULLP args then ret (SCM_NULL, 0)
      else bindm (loop (map_eval_step rec env) (args, QUEUE_POINT_TO SCM_NULL, 0)) (\<lambda>(rest, q, len).
        if \<not> NULLP rest then raise (ErrObj ''proper list required for function call but got'' args)
        else ret (fst q, len)))"

definition eval_arg :: "eval_rec \<Rightarrow> bool \<Rightarrow> obj \<Rightarrow> obj \<Rightarrow> obj run" where
  "eval_arg rec need_eval env x = (if need_eval then EVAL rec x env else ret x)"

text \<open>The operands of a reduction after the first: the operator is applied as they are evaluated.\<close>

definition reduce_step ::
    "eval_rec \<Rightarrow> reduction_operator \<Rightarrow> obj \<Rightarrow> bool \<Rightarrow> obj \<times> obj \<Rightarrow> (obj \<times> obj + obj) run" where
  "reduce_step rec func env need_eval = (\<lambda>(left, args).
     bindm (reads (\<lambda>h. (CAR h args, CDR h args))) (\<lambda>(right, args).
     if CONSP args then
       bindm (eval_arg rec need_eval env right) (\<lambda>right.
       bindm (checks (\<lambda>_. func left right SCM_REDUCE_PARTWAY)) (\<lambda>(left, state).
       if state = SCM_REDUCE_STOP then finish left else next_round (left, args)))
     else
       bindm (ASSERT_NO_MORE_ARG args) (\<lambda>_.
       bindm (eval_arg rec need_eval env right) (\<lambda>right.
       bindm (checks (\<lambda>_. func left right SCM_REDUCE_LAST)) (\<lambda>(left, _). finish left)))))"

definition reduce_args :: "eval_rec \<Rightarrow> reduction_operator \<Rightarrow> obj \<Rightarrow> obj \<Rightarrow> bool \<Rightarrow> obj run" where
  "reduce_args rec func args env need_eval =
     bindm (checks (\<lambda>_. NO_MORE_ARG args)) (\<lambda>none.
     if none then bindm (checks (\<lambda>_. func SCM_INVALID SCM_INVALID SCM_REDUCE_0)) (\<lambda>(x, _). ret x)
     else
       bindm (reads (\<lambda>h. (CAR h args, CDR h args))) (\<lambda>(left, args).
       bindm (eval_arg rec need_eval env left) (\<lambda>left.
       bindm (checks (\<lambda>_. NO_MORE_ARG args)) (\<lambda>one.
       if one then bindm (checks (\<lambda>_. func left left SCM_REDUCE_1)) (\<lambda>(x, _). ret x)
       else loop (reduce_step rec func env need_eval) (left, args)))))"

section \<open>Closures and continuations\<close>

fun CLOSURE_ENV :: "heap \<Rightarrow> obj \<Rightarrow> obj" where
  "CLOSURE_ENV h (Ptr PTAG_CLOSURE a) = snd (pair_at h a)"
| "CLOSURE_ENV h _ = SCM_INVALID"

definition unmatched_args :: "obj \<Rightarrow> scm_error" where
  "unmatched_args args = ErrObj ''unmatched number or improper args'' args"

text \<open>The formals and actuals of the new frame: one variable takes the whole list.\<close>

definition closure_frame :: "obj \<Rightarrow> obj \<Rightarrow> int \<Rightarrow> (obj \<times> obj) run" where
  "closure_frame formals args args_len =
     bindm (reads (\<lambda>h. IDENTIFIERP h formals)) (\<lambda>identifierp.
     if identifierp then bindm (SCM_LIST_1 formals) (\<lambda>formals. bindm (SCM_LIST_1 args) (\<lambda>args. ret (formals, args)))
     else if CONSP formals then
       bindm (tries (\<lambda>h. map_option Inr (scm_finite_length h formals))) (\<lambda>formals_len.
       if scm_valid_environment_extension_lengthp formals_len args_len then ret (formals, args)
       else raise (unmatched_args args))
     else if NULLP formals then (if args_len \<noteq> 0 then raise (unmatched_args args) else ret (SCM_NULL, SCM_NULL))
     else raise aborted)"

definition call_closure :: "interp \<Rightarrow> eval_rec \<Rightarrow> obj \<Rightarrow> obj \<Rightarrow> eval_state \<Rightarrow> bool \<Rightarrow> (obj \<times> eval_state) run" where
  "call_closure g rec proc args st need_eval =
     bindm (reads (\<lambda>h. (CAR h (CLOSURE_EXP h proc), CDR h (CLOSURE_EXP h proc), CLOSURE_ENV h proc)))
     (\<lambda>(formals, body, proc_env).
     bindm (if need_eval then map_eval rec args (es_env st)
            else bindm (tries (\<lambda>h. map_option Inr (scm_validate_actuals h args))) (\<lambda>args_len.
              if SCM_LISTLEN_ERRORP args_len then raise (unmatched_args args) else ret (args, args_len)))
     (\<lambda>(args, args_len).
     bindm (closure_frame formals args args_len) (\<lambda>(formals, args).
     bindm (changes (\<lambda>h. scm_extend_environment h formals args proc_env)) (\<lambda>env.
       scm_s_body g rec body (st\<lparr>es_env := env, ret_type := SCM_VALTYPE_NEED_EVAL\<rparr>)))))"

definition call_continuation :: "eval_rec \<Rightarrow> obj \<Rightarrow> obj \<Rightarrow> eval_state \<Rightarrow> bool \<Rightarrow> 'a run" where
  "call_continuation rec cont args st need_eval =
     bindm (reads (\<lambda>h. (LIST_1_P h args, CAR h args))) (\<lambda>(list1, x).
     bindm (if list1 then eval_arg rec need_eval (es_env st) x
            else bindm (if need_eval then bindm (map_eval rec args (es_env st)) (\<lambda>(vals, _). ret vals) else ret args)
              (\<lambda>vals. changes (\<lambda>h. scm_make_value_packet h vals))) (\<lambda>x.
     scm_call_continuation rec cont x))"

section \<open>C functions\<close>

definition SCM_FUNCTYPE_MAND_MASK :: nat where "SCM_FUNCTYPE_MAND_MASK = 15"
definition SCM_FUNCTYPE_VARIADIC :: nat where "SCM_FUNCTYPE_VARIADIC = 32"
definition SCM_FUNCTYPE_TAILREC :: nat where "SCM_FUNCTYPE_TAILREC = 64"
definition SCM_REDUCTION_OPERATOR :: nat where "SCM_REDUCTION_OPERATOR = 2 ^ 14"

definition as_is :: "eval_state \<Rightarrow> obj run \<Rightarrow> (obj \<times> eval_state) run" where
  "as_is st p = bindm p (\<lambda>x. ret (x, st))"

definition scm_p_eval :: "eval_rec \<Rightarrow> obj \<Rightarrow> obj \<Rightarrow> obj run" where
  "scm_p_eval rec x env =
     bindm (tries (\<lambda>h. map_option (\<lambda>ok. if ok then Inr () else Inl (ErrObj ''valid environment specifier required but got'' env))
       (scm_valid_environmentp h env))) (\<lambda>_. EVAL rec x env)"

text \<open>The call through the function pointer, with the arguments in the buffer.\<close>

definition args1 :: "(obj \<Rightarrow> 'a run) \<Rightarrow> obj list \<Rightarrow> 'a run" where
  "args1 f buf = (if length buf = 1 then f (buf ! 0) else raise aborted)"
definition args2 :: "(obj \<Rightarrow> obj \<Rightarrow> 'a run) \<Rightarrow> obj list \<Rightarrow> 'a run" where
  "args2 f buf = (if length buf = 2 then f (buf ! 0) (buf ! 1) else raise aborted)"
definition args3 :: "(obj \<Rightarrow> obj \<Rightarrow> obj \<Rightarrow> 'a run) \<Rightarrow> obj list \<Rightarrow> 'a run" where
  "args3 f buf = (if length buf = 3 then f (buf ! 0) (buf ! 1) (buf ! 2) else raise aborted)"

definition invoke :: "interp \<Rightarrow> eval_rec \<Rightarrow> cfunc \<Rightarrow> obj list \<Rightarrow> eval_state \<Rightarrow> (obj \<times> eval_state) run" where
  "invoke g rec func buf st = (case func of
     F_reduction _ \<Rightarrow> raise aborted
   | F_quote \<Rightarrow> args2 (\<lambda>datum env. as_is st (scm_s_quote datum)) buf
   | F_lambda \<Rightarrow> args3 (\<lambda>formals body env. as_is st (scm_s_lambda formals body env)) buf
   | F_if \<Rightarrow> args3 (\<lambda>test conseq rest. scm_s_if rec test conseq rest st) buf
   | F_setx \<Rightarrow> args3 (\<lambda>symb exp env. as_is st (scm_s_setx rec symb exp env)) buf
   | F_cond \<Rightarrow> args1 (\<lambda>clauses. scm_s_cond g rec clauses st) buf
   | F_case \<Rightarrow> args2 (\<lambda>key clauses. scm_s_case g rec key clauses st) buf
   | F_and \<Rightarrow> args1 (\<lambda>args. scm_s_and rec args st) buf
   | F_or \<Rightarrow> args1 (\<lambda>args. scm_s_or rec args st) buf
   | F_let \<Rightarrow> args2 (\<lambda>bindings body. scm_s_let g rec bindings body st) buf
   | F_letstar \<Rightarrow> args2 (\<lambda>bindings body. scm_s_letstar g rec bindings body st) buf
   | F_letrec \<Rightarrow> args2 (\<lambda>bindings body. scm_s_letrec g rec bindings body st) buf
   | F_begin \<Rightarrow> args1 (\<lambda>args. scm_s_begin rec args st) buf
   | F_do \<Rightarrow> args3 (\<lambda>bindings test_exps commands. scm_s_do rec bindings test_exps commands st) buf
   | F_define \<Rightarrow> args2 (\<lambda>var rest. scm_s_define g rec var rest st) buf
   | F_delay \<Rightarrow> args2 (\<lambda>exp env. as_is st (scm_s_delay g exp env)) buf
   | F_quasiquote \<Rightarrow> args2 (\<lambda>datum env. as_is st (scm_s_quasiquote rec datum env)) buf
   | F_unquote \<Rightarrow> args2 (\<lambda>dummy env. as_is st (scm_s_unquote dummy)) buf
   | F_unquote_splicing \<Rightarrow> args2 (\<lambda>dummy env. as_is st (scm_s_unquote_splicing dummy)) buf
   | F_syntax_rules \<Rightarrow> args2 (\<lambda>args env. as_is st (scm_s_syntax_rules g args env)) buf
   | F_define_syntax \<Rightarrow> args3 (\<lambda>var macro env. as_is st (scm_s_define_syntax rec var macro env)) buf
   | F_let_syntax \<Rightarrow> args2 (\<lambda>bindings body. scm_s_let_syntax g rec bindings body st) buf
   | F_letrec_syntax \<Rightarrow> args2 (\<lambda>bindings body. scm_s_letrec_syntax g rec bindings body st) buf
   | F_expand_macro \<Rightarrow> args2 (\<lambda>macro args. scm_s_expand_macro g rec macro args st) buf
   | F_match \<Rightarrow> args2 (\<lambda>form clauses. scm_s_match g rec form clauses st) buf
   | F_apply \<Rightarrow> args3 (\<lambda>proc arg0 rest. scm_p_apply rec proc arg0 rest st) buf
   | F_eval \<Rightarrow> args2 (\<lambda>x env. as_is st (scm_p_eval rec x env)) buf
   | F_map \<Rightarrow> args2 (\<lambda>proc args. as_is st (scm_p_map rec proc args)) buf
   | F_for_each \<Rightarrow> args2 (\<lambda>proc args. as_is st (scm_p_for_each rec proc args)) buf
   | F_force \<Rightarrow> args1 (\<lambda>promise. as_is st (scm_p_force g rec promise)) buf
   | F_values \<Rightarrow> args1 (\<lambda>args. as_is st (scm_p_values args)) buf
   | F_call_with_values \<Rightarrow> args2 (\<lambda>producer consumer. scm_p_call_with_values g rec producer consumer st) buf
   | F_call_cc \<Rightarrow> args1 (\<lambda>proc. scm_call_with_current_continuation rec proc st) buf
   | F_dynamic_wind \<Rightarrow> args3 (\<lambda>before_thunk thunk after_thunk. as_is st (scm_p_dynamic_wind rec before_thunk thunk after_thunk)) buf
   | F_primitive f \<Rightarrow> as_is st (does (f buf)))"

definition mandatory_step ::
    "eval_rec \<Rightarrow> bool \<Rightarrow> obj \<Rightarrow> nat \<times> obj \<times> obj list \<Rightarrow> (nat \<times> obj \<times> obj list + obj \<times> obj list) run" where
  "mandatory_step rec need_eval env = (\<lambda>(n, args, buf).
     if n = 0 then finish (args, buf)
     else
       bindm (checks (\<lambda>h. MUST_POP_ARG h args)) (\<lambda>(x, args).
       bindm (eval_arg rec need_eval env x) (\<lambda>x.
       bindm (CHECK_VALID_EVALED_VALUE x) (\<lambda>_. next_round (n - 1, args, buf @ [x])))))"

definition call_cfunc ::
    "interp \<Rightarrow> eval_rec \<Rightarrow> obj \<Rightarrow> nat \<Rightarrow> cfunc \<Rightarrow> obj \<Rightarrow> obj \<Rightarrow> eval_state \<Rightarrow> bool \<Rightarrow> (obj \<times> eval_state) run" where
  "call_cfunc g rec proc type func args env st need_eval =
     (if type = SCM_REDUCTION_OPERATOR then
        (case func of F_reduction func \<Rightarrow> bindm (reduce_args rec func args env need_eval) (\<lambda>x. ret (x, st)) | _ \<Rightarrow> raise aborted)
      else
        let syntaxp = type AND SCM_FUNCTYPE_SYNTAX \<noteq> 0; mand_count = type AND SCM_FUNCTYPE_MAND_MASK;
            variadic = type AND SCM_FUNCTYPE_VARIADIC \<noteq> 0; tailrec = type AND SCM_FUNCTYPE_TAILREC \<noteq> 0;
            eval_args = need_eval \<and> \<not> syntaxp
        in if syntaxp \<and> \<not> need_eval then raise (ErrObj ''can't apply/map a syntax'' proc)
        else if mand_count > 5 then raise aborted
        else
          bindm (loop (mandatory_step rec eval_args env) (mand_count, args, [])) (\<lambda>(args, buf).
          bindm (if variadic then
                   bindm (if eval_args then bindm (map_eval rec args env) (\<lambda>(args, _). ret args) else ret args)
                     (\<lambda>args. ret (buf @ [args]))
                 else bindm (ASSERT_NO_MORE_ARG args) (\<lambda>_. ret buf)) (\<lambda>buf.
          invoke g rec func (if syntaxp \<and> \<not> tailrec then buf @ [env] else buf) (st\<lparr>ret_type := tailrec\<rparr>))))"

section \<open>Calls\<close>

text \<open>The loop of \<^verbatim>\<open>call\<close> until it has a C function.\<close>

definition values_application :: "obj \<Rightarrow> (obj \<times> obj) run" where
  "values_application args =
     bindm (checks (\<lambda>h. MUST_POP_ARG h args)) (\<lambda>(proc, args).
     bindm (checks (\<lambda>h. MUST_POP_ARG h args)) (\<lambda>(vals, args).
     bindm (checks (\<lambda>_. NO_MORE_ARG args)) (\<lambda>_.
     bindm (reads (\<lambda>h. (VALUEPACKETP h vals, VALUEPACKET_VALUES h vals))) (\<lambda>(packet, packed).
     if packet then ret (proc, packed) else bindm (SCM_LIST_1 vals) (\<lambda>args. ret (proc, args))))))"

fun FUNC_CFUNC :: "heap \<Rightarrow> obj \<Rightarrow> nat" where
  "FUNC_CFUNC h x = (case misc_cell h x of Some (FuncCell _ f) \<Rightarrow> f | _ \<Rightarrow> 0)"

definition call_step ::
    "interp \<Rightarrow> eval_rec \<Rightarrow> eval_state \<Rightarrow> obj \<times> obj \<times> bool \<Rightarrow> (obj \<times> obj \<times> bool + obj \<times> eval_state) run" where
  "call_step g rec st = (\<lambda>(proc, args, need_eval).
     bindm (reads (\<lambda>h. (FUNC_TYPECODE h proc, FUNC_CFUNC h proc, HMACROP h proc, CONTINUATIONP h proc)))
     (\<lambda>(type, cfunc, macrop, continuationp).
     case type of
       Some type \<Rightarrow> bindm (call_cfunc g rec proc type (cfuncs g cfunc) args (es_env st) st need_eval) finish
     | None \<Rightarrow>
         if CLOSUREP proc then bindm (call_closure g rec proc args st need_eval) finish
         else if macrop then
           (if \<not> need_eval then raise (ErrObj ''can't apply/map a macro'' proc)
            else bindm (scm_expand_macro g proc args st) finish)
         else if proc = scm_values_applier g then
           (if \<not> need_eval then raise (Err ''invalid multiple values application'')
            else bindm (values_application args) (\<lambda>(proc, args). next_round (proc, args, False)))
         else if continuationp then call_continuation rec proc args st need_eval
         else raise (ErrObj ''procedure or syntax required but got'' proc)))"

definition call_body :: "interp \<Rightarrow> eval_rec \<Rightarrow> obj \<Rightarrow> obj \<Rightarrow> eval_state \<Rightarrow> bool \<Rightarrow> (obj \<times> eval_state) run" where
  "call_body g rec proc args st need_eval =
     bindm (eval_arg rec need_eval (es_env st) proc) (\<lambda>proc. loop (call_step g rec st) (proc, args, need_eval))"

section \<open>Evaluation\<close>

definition eval_step :: "eval_rec \<Rightarrow> obj \<times> eval_state \<Rightarrow> (obj \<times> eval_state + obj) run" where
  "eval_step rec = (\<lambda>(x, st).
     bindm (reads (\<lambda>h. (IDENTIFIERP h x, CAR h x, CDR h x))) (\<lambda>(identifierp, proc, args).
     if identifierp then bindm (tries (\<lambda>h. scm_symbol_value h x (es_env st))) finish
     else if CONSP x then
       bindm (call rec proc args st SCM_VALTYPE_NEED_EVAL) (\<lambda>(x, st).
       if ret_type st then
         next_round (x, st\<lparr>nest := (if nest st = SCM_NEST_RETTYPE_BEGIN then SCM_NEST_COMMAND_OR_DEFINITION
                                    else SCM_NEST_COMMAND)\<rparr>)
       else finish x)
     else finish x))"

definition eval_init :: "obj \<Rightarrow> eval_state" where
  "eval_init env =
     (if CONSP env then SCM_EVAL_STATE_INIT1 env
      else if env = SCM_INTERACTION_ENV_INDEFINABLE
        then (SCM_EVAL_STATE_INIT1 SCM_INTERACTION_ENV)\<lparr>nest := SCM_NEST_COMMAND\<rparr>
      else if env = SCM_INTERACTION_ENV then (SCM_EVAL_STATE_INIT1 env)\<lparr>nest := SCM_NEST_PROGRAM\<rparr>
      else SCM_EVAL_STATE_INIT1 env)"

definition eval_loop :: "eval_rec \<Rightarrow> obj \<Rightarrow> eval_state \<Rightarrow> obj run" where
  "eval_loop rec x st = loop (eval_step rec) (x, st)"

definition eval_at :: "interp \<Rightarrow> eval_rec \<Rightarrow> eval_rec" where
  "eval_at g rec p = (case p of
     P_eval x env \<Rightarrow> bindm (eval_loop rec x (eval_init env)) (\<lambda>v. ret (A_obj v (eval_init env)))
   | P_call proc args st need_eval \<Rightarrow> bindm (call_body g rec proc args st need_eval) (\<lambda>(x, st). ret (A_obj x st))
   | P_qquote input env n \<Rightarrow> bindm (qquote_internal g rec input env n) (\<lambda>(msg, x). ret (A_msg msg x)))"

section \<open>The fixed point\<close>

text \<open>Every function above is monotone in the evaluator it is given.\<close>

definition rec_mono :: "(('a \<Rightarrow> 'b option) \<Rightarrow> eval_rec) \<Rightarrow> bool" where
  "rec_mono rec \<longleftrightarrow> (\<forall>p. run_mono (\<lambda>f. rec f p))"

named_theorems rec_mono_intros

lemma rec_mono_eval [rec_mono_intros]:
  assumes "rec_mono rec"
  shows "run_mono (\<lambda>f. EVAL (rec f) x env)" "run_mono (\<lambda>f. call (rec f) proc args st need_eval)"
    "run_mono (\<lambda>f. scm_call (rec f) proc args)" "run_mono (\<lambda>f. QQ (rec f) x env n)"
    "run_mono (\<lambda>f. eval_arg (rec f) need_eval env x)"
proof -
  have r: "run_mono (\<lambda>f. rec f p)" for p using assms by (simp add: rec_mono_def)
  note ev = eval_mono [of rec, OF r]
  show "run_mono (\<lambda>f. EVAL (rec f) x env)" "run_mono (\<lambda>f. call (rec f) proc args st need_eval)"
    "run_mono (\<lambda>f. scm_call (rec f) proc args)" by (rule ev)+
  show "run_mono (\<lambda>f. QQ (rec f) x env n)" unfolding QQ_def by (intro run_mono_intros r)
  show "run_mono (\<lambda>f. eval_arg (rec f) need_eval env x)" unfolding eval_arg_def by (intro run_mono_intros ev)
qed

lemma rec_mono_begin [rec_mono_intros]:
  "rec_mono rec \<Longrightarrow> run_mono (\<lambda>f. scm_s_begin (rec f) args st)"
  unfolding scm_s_begin_def begin_step_def by (intro run_mono_intros rec_mono_intros)

lemma rec_mono_conditionals [rec_mono_intros]:
  assumes r: "rec_mono rec"
  shows "run_mono (\<lambda>f. scm_s_if (rec f) test conseq rest st)" "run_mono (\<lambda>f. scm_s_setx (rec f) symb exp env)"
    "run_mono (\<lambda>f. scm_s_cond g (rec f) clauses st)" "run_mono (\<lambda>f. scm_s_case g (rec f) key clauses st)"
    "run_mono (\<lambda>f. scm_s_and (rec f) args st)" "run_mono (\<lambda>f. scm_s_or (rec f) args st)"
proof -
  have sel: "run_mono (\<lambda>f. cond_selected g (rec f) test exps st)" for test exps st
    unfolding cond_selected_def by (intro run_mono_intros rec_mono_intros r)
  have cond: "run_mono (\<lambda>f. cond_step g (rec f) st clauses)" for st clauses
    unfolding cond_step_def by (intro run_mono_intros rec_mono_intros r sel)
  have case': "run_mono (\<lambda>f. case_step g (rec f) key st clauses)" for key st clauses
    unfolding case_step_def by (intro run_mono_intros rec_mono_intros r)
  have and_or: "run_mono (\<lambda>f. and_or (rec f) stop u args st)" for stop u args st
    unfolding and_or_def and_or_step_def by (intro run_mono_intros rec_mono_intros r)
  show "run_mono (\<lambda>f. scm_s_if (rec f) test conseq rest st)" unfolding scm_s_if_def by (intro run_mono_intros rec_mono_intros r)
  show "run_mono (\<lambda>f. scm_s_setx (rec f) symb exp env)" unfolding scm_s_setx_def by (intro run_mono_intros rec_mono_intros r)
  show "run_mono (\<lambda>f. scm_s_cond g (rec f) clauses st)"
    unfolding scm_s_cond_def scm_s_cond_internal_def by (intro run_mono_intros rec_mono_intros r cond)
  show "run_mono (\<lambda>f. scm_s_case g (rec f) key clauses st)" unfolding scm_s_case_def by (intro run_mono_intros rec_mono_intros r case')
  show "run_mono (\<lambda>f. scm_s_and (rec f) args st)" unfolding scm_s_and_def by (intro and_or)
  show "run_mono (\<lambda>f. scm_s_or (rec f) args st)" unfolding scm_s_or_def by (intro and_or)
qed

lemma rec_mono_body [rec_mono_intros]:
  assumes r: "rec_mono rec"
  shows "run_mono (\<lambda>f. scm_s_body g (rec f) body st)"
  unfolding scm_s_body_def eval_definitions_step_def by (intro run_mono_intros rec_mono_intros r)

lemma rec_mono_binding [rec_mono_intros]:
  assumes r: "rec_mono rec"
  shows "run_mono (\<lambda>f. scm_s_let_internal g (rec f) permitted bindings body st)"
    "run_mono (\<lambda>f. scm_s_letstar g (rec f) bindings body st)"
    "run_mono (\<lambda>f. scm_s_letrec_internal g (rec f) permitted bindings body st)"
    "run_mono (\<lambda>f. scm_s_do (rec f) bindings test_exps commands st)"
proof -
  show "run_mono (\<lambda>f. scm_s_let_internal g (rec f) permitted bindings body st)"
    unfolding scm_s_let_internal_def let_step_def by (intro run_mono_intros rec_mono_intros r)
  show "run_mono (\<lambda>f. scm_s_letstar g (rec f) bindings body st)"
    unfolding scm_s_letstar_def letstar_step_def by (intro run_mono_intros rec_mono_intros r)
  show "run_mono (\<lambda>f. scm_s_letrec_internal g (rec f) permitted bindings body st)"
    unfolding scm_s_letrec_internal_def letrec_step_def by (intro run_mono_intros rec_mono_intros r)
  have binding: "run_mono (\<lambda>f. do_binding_step (rec f) bindings env s)" for env s
    unfolding do_binding_step_def by (intro run_mono_intros rec_mono_intros r)
  have command: "run_mono (\<lambda>f. do_command_step (rec f) env s)" for env s
    unfolding do_command_step_def by (intro run_mono_intros rec_mono_intros r)
  have update: "run_mono (\<lambda>f. do_update_step (rec f) env s)" for env s
    unfolding do_update_step_def by (intro run_mono_intros rec_mono_intros r)
  have step: "run_mono (\<lambda>f. do_step (rec f) test commands formals steps env s)" for test formals steps env s
    unfolding do_step_def by (intro run_mono_intros rec_mono_intros r command update)
  show "run_mono (\<lambda>f. scm_s_do (rec f) bindings test_exps commands st)"
    unfolding scm_s_do_def by (intro run_mono_intros rec_mono_intros r binding step)
qed

lemma rec_mono_define [rec_mono_intros]:
  assumes r: "rec_mono rec"
  shows "run_mono (\<lambda>f. scm_s_define_internal (rec f) permitted var exp env)"
    "run_mono (\<lambda>f. scm_s_expand_macro g (rec f) macro args st)" "run_mono (\<lambda>f. scm_s_match g (rec f) form clauses st)"
proof -
  show "run_mono (\<lambda>f. scm_s_define_internal (rec f) permitted var exp env)"
    unfolding scm_s_define_internal_def by (intro run_mono_intros rec_mono_intros r)
  show "run_mono (\<lambda>f. scm_s_expand_macro g (rec f) macro args st)"
    unfolding scm_s_expand_macro_def by (intro run_mono_intros rec_mono_intros r)
  show "run_mono (\<lambda>f. scm_s_match g (rec f) form clauses st)"
    unfolding scm_s_match_def match_clause_step_def by (intro run_mono_intros rec_mono_intros r)
qed

lemma rec_mono_define' [rec_mono_intros]:
  assumes r: "rec_mono rec"
  shows "run_mono (\<lambda>f. scm_s_define g (rec f) var rest st)"
    "run_mono (\<lambda>f. scm_s_define_syntax (rec f) var macro env)"
  unfolding scm_s_define_def scm_s_define_syntax_def by (intro run_mono_intros rec_mono_intros r)+

lemma rec_mono_procedures [rec_mono_intros]:
  assumes r: "rec_mono rec"
  shows "run_mono (\<lambda>f. scm_p_map (rec f) proc args)" "run_mono (\<lambda>f. scm_p_call_with_values g (rec f) producer consumer st)"
    "run_mono (\<lambda>f. scm_p_apply (rec f) proc arg0 rest st)" "run_mono (\<lambda>f. scm_p_force g (rec f) promise)"
    "run_mono (\<lambda>f. scm_p_eval (rec f) x env)" "run_mono (\<lambda>f. scm_s_quasiquote (rec f) x env)"
proof -
  have single: "run_mono (\<lambda>f. scm_map_single_arg (rec f) proc lst)" for lst
    unfolding scm_map_single_arg_def map_single_step_def by (intro run_mono_intros rec_mono_intros r)
  have multiple: "run_mono (\<lambda>f. scm_map_multiple_args (rec f) proc lsts uneven)" for lsts uneven
    unfolding scm_map_multiple_args_def map_multiple_step_def by (intro run_mono_intros rec_mono_intros r)
  show "run_mono (\<lambda>f. scm_p_map (rec f) proc args)" unfolding scm_p_map_def by (intro run_mono_intros rec_mono_intros single multiple)
  show "run_mono (\<lambda>f. scm_p_call_with_values g (rec f) producer consumer st)"
    unfolding scm_p_call_with_values_def by (intro run_mono_intros rec_mono_intros r)
  show "run_mono (\<lambda>f. scm_p_apply (rec f) proc arg0 rest st)" unfolding scm_p_apply_def by (intro run_mono_intros rec_mono_intros r)
  show "run_mono (\<lambda>f. scm_p_force g (rec f) promise)"
    unfolding scm_p_force_def force_step_def by (intro run_mono_intros rec_mono_intros r)
  show "run_mono (\<lambda>f. scm_p_eval (rec f) x env)" unfolding scm_p_eval_def by (intro run_mono_intros rec_mono_intros r)
  show "run_mono (\<lambda>f. scm_s_quasiquote (rec f) x env)"
    unfolding scm_s_quasiquote_def by (intro run_mono_intros rec_mono_intros r)
qed

lemma run_mono_catch [run_mono_intros]:
  assumes "run_mono B" "run_mono C"
  shows "run_mono (\<lambda>f. catch_jump (B f) k (C f))"
  unfolding run_mono_def catch_jump_def
proof (intro allI bind_mono)
  fix m show "mono_option (\<lambda>f. B f m)" using assms(1) by (simp add: run_mono_def)
  fix r :: "'c outcome \<times> mach"
  show "mono_option (\<lambda>f. case fst r of Value x \<Rightarrow> Some (Value x, snd r) | Raised e \<Rightarrow> Some (Raised e, snd r)
      | Jumped k' \<Rightarrow> if k' = k then C f (snd r) else Some (Jumped k', snd r))"
  proof (cases "fst r")
    case (Jumped k')
    then show ?thesis using assms(2) by (cases "k' = k") (simp_all add: run_mono_def option.const_mono)
  qed (simp_all add: option.const_mono)
qed

lemma rec_mono_extents [rec_mono_intros]:
  assumes r: "rec_mono rec"
  shows "run_mono (\<lambda>f. enter_dynamic_extent (rec f) dest)" "run_mono (\<lambda>f. exit_dynamic_extent (rec f) dest)"
    "run_mono (\<lambda>f. scm_p_dynamic_wind (rec f) before_thunk thunk after_thunk)"
  unfolding enter_dynamic_extent_def enter_step_def exit_dynamic_extent_def exit_step_def
    scm_p_dynamic_wind_def scm_dynamic_wind_def
  by (intro run_mono_intros rec_mono_intros r)+

lemma rec_mono_continuations [rec_mono_intros]:
  assumes r: "rec_mono rec"
  shows "run_mono (\<lambda>f. scm_call_with_current_continuation (rec f) proc st)"
    "run_mono (\<lambda>f. scm_call_continuation (rec f) cont x)"
  unfolding scm_call_with_current_continuation_def scm_call_continuation_def
  by (intro run_mono_intros rec_mono_intros r)+

lemma rec_mono_args [rec_mono_intros]:
  assumes r: "rec_mono rec"
  shows "run_mono (\<lambda>f. map_eval (rec f) args env)" "run_mono (\<lambda>f. reduce_args (rec f) func args env need_eval)"
  unfolding map_eval_def map_eval_step_def reduce_args_def reduce_step_def
  by (intro run_mono_intros rec_mono_intros r)+

lemma rec_mono_calls [rec_mono_intros]:
  assumes r: "rec_mono rec"
  shows "run_mono (\<lambda>f. call_closure g (rec f) proc args st need_eval)"
    "run_mono (\<lambda>f. call_continuation (rec f) proc args st need_eval)"
  unfolding call_closure_def call_continuation_def by (intro run_mono_intros rec_mono_intros r)+

lemma run_mono_args [run_mono_intros]:
  "(\<And>x. run_mono (\<lambda>f. B f x)) \<Longrightarrow> run_mono (\<lambda>f. args1 (B f) buf)"
  "(\<And>x y. run_mono (\<lambda>f. C f x y)) \<Longrightarrow> run_mono (\<lambda>f. args2 (C f) buf)"
  "(\<And>x y z. run_mono (\<lambda>f. D f x y z)) \<Longrightarrow> run_mono (\<lambda>f. args3 (D f) buf)"
  unfolding args1_def args2_def args3_def by (intro run_mono_intros; assumption)+

lemma rec_mono_invoke [rec_mono_intros]:
  assumes r: "rec_mono rec"
  shows "run_mono (\<lambda>f. invoke g (rec f) func buf st)"
  unfolding invoke_def as_is_def scm_s_let_def scm_s_letrec_def scm_s_let_syntax_def scm_s_letrec_syntax_def
    scm_p_for_each_def
  by (cases func; simp only: cfunc.case; intro run_mono_intros rec_mono_intros r)

lemma rec_mono_call_cfunc [rec_mono_intros]:
  assumes r: "rec_mono rec"
  shows "run_mono (\<lambda>f. call_cfunc g (rec f) proc type func args env st need_eval)"
proof (cases "\<exists>op. func = F_reduction op")
  case True
  then obtain op where "func = F_reduction op" by blast
  then show ?thesis
    unfolding call_cfunc_def mandatory_step_def by (simp only: cfunc.case) (intro run_mono_intros rec_mono_intros r)
next
  case False
  then have "(case func of F_reduction op \<Rightarrow> A op | _ \<Rightarrow> B) = B" for A and B :: "(obj \<times> eval_state) run"
    by (cases func) auto
  then show ?thesis
    unfolding call_cfunc_def mandatory_step_def by (simp only:) (intro run_mono_intros rec_mono_intros r)
qed

lemma rec_mono_eval_at:
  assumes r: "rec_mono rec"
  shows "run_mono (\<lambda>f. eval_at g (rec f) p)"
proof -
  have call: "run_mono (\<lambda>f. call_body g (rec f) proc args st need_eval)" for proc args st need_eval
    unfolding call_body_def call_step_def by (intro run_mono_intros rec_mono_intros r)
  have eval: "run_mono (\<lambda>f. eval_loop (rec f) x st)" for x st
    unfolding eval_loop_def eval_step_def by (intro run_mono_intros rec_mono_intros r)
  have elem: "run_mono (\<lambda>f. qq_element (rec f) env tr x n)" for env tr x n
    unfolding qq_element_def by (intro run_mono_intros rec_mono_intros r)
  have tail: "run_mono (\<lambda>f. qq_tail (rec f) input env tr n)" for input env tr n
    unfolding qq_tail_def by (intro run_mono_intros rec_mono_intros r)
  have lst: "run_mono (\<lambda>f. qq_list_step g (rec f) input env s)" for input env s
    unfolding qq_list_step_def by (intro run_mono_intros rec_mono_intros r elem tail)
  have qq: "run_mono (\<lambda>f. qquote_internal g (rec f) input env n)" for input env n
    unfolding qquote_internal_def qq_vector_step_def by (intro run_mono_intros rec_mono_intros r lst)
  show ?thesis
    unfolding eval_at_def by (cases p; simp only: eval_point.case; intro run_mono_intros call eval qq)
qed

lemma eval_at_mono [partial_function_mono]:
  assumes "\<And>p m. mono_option (\<lambda>f. rec f p m)"
  shows "mono_option (\<lambda>f. eval_at g (rec f) p m)"
  using rec_mono_eval_at [of rec] assms by (simp add: run_mono_def rec_mono_def)

partial_function (option) evaluator :: "interp \<Rightarrow> eval_point \<Rightarrow> mach \<Rightarrow> (answer outcome \<times> mach) option" where
  "evaluator g p m = eval_at g (\<lambda>p m. evaluator g p m) p m"

definition scm_eval :: "interp \<Rightarrow> obj \<Rightarrow> obj \<Rightarrow> obj run" where
  "scm_eval g x env = EVAL (evaluator g) x env"

lemma evaluator_unfold: "evaluator g = eval_at g (evaluator g)"
  by (intro ext) (rule evaluator.simps)

lemma EVAL_evaluator: "EVAL (evaluator g) x env = eval_loop (evaluator g) x (eval_init env)"
  by (subst evaluator_unfold) (simp add: EVAL_def eval_at_def)

lemma call_evaluator: "call (evaluator g) proc args st need_eval = call_body g (evaluator g) proc args st need_eval"
  by (subst evaluator_unfold) (simp add: call_def eval_at_def case_prod_beta)

lemma QQ_evaluator: "QQ (evaluator g) x env n = qquote_internal g (evaluator g) x env n"
  by (subst evaluator_unfold) (simp add: QQ_def eval_at_def case_prod_beta)

end
