(* ===== verification/Semantics.thy ===== *)
theory Semantics
  imports Eval Readback
begin

text \<open>
  The meaning of programs without side effects. \<open>bigstep\<close> is a semantics on expressions and values that knows
  nothing of heaps, frames or queues: constants, variables, conditionals, procedures, \<^verbatim>\<open>let\<close>, calls, the
  reduction operators of the arithmetic and the procedures on pairs, with global variables for
  recursion. The evaluator is shown to implement it: whenever an expression has a value, the
  evaluation of every datum that represents the expression returns, and what it returns represents
  the value.

  \<open>hide A h\<close> is the heap without the cells of the queues that are being filled; what is represented
  must not depend on them.
\<close>

section \<open>Expressions and values\<close>

datatype exp =
    Const obj
  | Var obj
  | If exp exp exp
  | Lambda "obj list" exp
  | Let "(obj \<times> exp) list" exp
  | App exp "exp list"

datatype pair_prim = P_cons | P_car | P_cdr | P_nullp | P_pairp

datatype val =
    VAtom obj
  | VPair val val
  | VClos "obj list" exp "(obj \<times> val) list list"
  | VOp reduction_operator
  | VPrim pair_prim

fun atomic :: "obj \<Rightarrow> bool" where
  "atomic (Ptr _ _) = False"
| "atomic SCM_INVALID = False"
| "atomic SCM_UNBOUND = False"
| "atomic _ = True"

text \<open>What a reduction gives for the values of its operands.\<close>

fun reduce_values_loop :: "reduction_operator \<Rightarrow> obj \<Rightarrow> obj list \<Rightarrow> obj res" where
  "reduce_values_loop func left [] = Inl aborted"
| "reduce_values_loop func left [x] = and_then (func left x SCM_REDUCE_LAST) (\<lambda>(v, _). Inr v)"
| "reduce_values_loop func left (x # y # xs) = and_then (func left x SCM_REDUCE_PARTWAY) (\<lambda>(v, state).
     if state = SCM_REDUCE_STOP then Inr v else reduce_values_loop func v (y # xs))"

fun reduce_values :: "reduction_operator \<Rightarrow> obj list \<Rightarrow> obj res" where
  "reduce_values func [] = and_then (func SCM_INVALID SCM_INVALID SCM_REDUCE_0) (\<lambda>(v, _). Inr v)"
| "reduce_values func [x] = and_then (func x x SCM_REDUCE_1) (\<lambda>(v, _). Inr v)"
| "reduce_values func (x # y # xs) = reduce_values_loop func x (y # xs)"

fun prim_value :: "pair_prim \<Rightarrow> val list \<Rightarrow> val option" where
  "prim_value P_cons [u, v] = Some (VPair u v)"
| "prim_value P_car [VPair u v] = Some u"
| "prim_value P_cdr [VPair u v] = Some v"
| "prim_value P_nullp [u] = Some (VAtom (MAKE_BOOL (u = VAtom SCM_NULL)))"
| "prim_value P_pairp [u] = Some (VAtom (MAKE_BOOL (\<exists>v w. u = VPair v w)))"
| "prim_value _ _ = None"

inductive bigstep :: "(obj \<Rightarrow> val option) \<Rightarrow> (obj \<times> val) list list \<Rightarrow> exp \<Rightarrow> val \<Rightarrow> bool"
  and bigsteps :: "(obj \<Rightarrow> val option) \<Rightarrow> (obj \<times> val) list list \<Rightarrow> exp list \<Rightarrow> val list \<Rightarrow> bool" for G where
  bs_const: "bigstep G \<rho> (Const c) (VAtom c)"
| bs_local: "map_of (concat \<rho>) s = Some v \<Longrightarrow> bigstep G \<rho> (Var s) v"
| bs_global: "map_of (concat \<rho>) s = None \<Longrightarrow> G s = Some v \<Longrightarrow> bigstep G \<rho> (Var s) v"
| bs_if_true: "bigstep G \<rho> c u \<Longrightarrow> u \<noteq> VAtom SCM_FALSE \<Longrightarrow> bigstep G \<rho> t v \<Longrightarrow> bigstep G \<rho> (If c t e) v"
| bs_if_false: "bigstep G \<rho> c (VAtom SCM_FALSE) \<Longrightarrow> bigstep G \<rho> e v \<Longrightarrow> bigstep G \<rho> (If c t e) v"
| bs_lambda: "bigstep G \<rho> (Lambda ps b) (VClos ps b \<rho>)"
| bs_let: "bigsteps G \<rho> (List.map snd bs) vs \<Longrightarrow> bigstep G (zip (List.map fst bs) vs # \<rho>) b v \<Longrightarrow> bigstep G \<rho> (Let bs b) v"
| bs_closure: "bigstep G \<rho> f (VClos ps b \<rho>') \<Longrightarrow> bigsteps G \<rho> es vs \<Longrightarrow> length vs = length ps \<Longrightarrow>
    bigstep G (zip ps vs # \<rho>') b v \<Longrightarrow> bigstep G \<rho> (App f es) v"
| bs_op: "bigstep G \<rho> f (VOp func) \<Longrightarrow> bigsteps G \<rho> es (List.map VAtom xs) \<Longrightarrow> reduce_values func xs = Inr x \<Longrightarrow>
    atomic x \<Longrightarrow> bigstep G \<rho> (App f es) (VAtom x)"
| bs_prim: "bigstep G \<rho> f (VPrim p) \<Longrightarrow> bigsteps G \<rho> es vs \<Longrightarrow> prim_value p vs = Some v \<Longrightarrow> bigstep G \<rho> (App f es) v"
| bs_nil: "bigsteps G \<rho> [] []"
| bs_cons: "bigstep G \<rho> e v \<Longrightarrow> bigsteps G \<rho> es vs \<Longrightarrow> bigsteps G \<rho> (e # es) (v # vs)"

section \<open>Representation\<close>

text \<open>The keywords of the expressions. A keyword is the global variable of a syntax; expressions do not bind or
  use it otherwise, and neither the symbols that a body is searched for.\<close>

record syntax_names =
  kw_if :: obj
  kw_lambda :: obj
  kw_let :: obj

definition reserved :: "interp \<Rightarrow> syntax_names \<Rightarrow> obj set" where
  "reserved g k = {kw_if k, kw_lambda k, kw_let k, l_sym_begin g, l_sym_define g}"

definition variable :: "interp \<Rightarrow> syntax_names \<Rightarrow> heap \<Rightarrow> obj \<Rightarrow> bool" where
  "variable g k h s \<longleftrightarrow> SYMBOLP h s \<and> s \<notin> reserved g k"

definition formals_rep :: "interp \<Rightarrow> syntax_names \<Rightarrow> heap \<Rightarrow> obj \<Rightarrow> obj list \<Rightarrow> bool" where
  "formals_rep g k h f ps \<longleftrightarrow> chain h f ps SCM_NULL \<and> (\<forall>p \<in> set ps. variable g k h p)"

inductive rep_exp :: "interp \<Rightarrow> syntax_names \<Rightarrow> heap \<Rightarrow> obj \<Rightarrow> exp \<Rightarrow> bool"
  and rep_exps :: "interp \<Rightarrow> syntax_names \<Rightarrow> heap \<Rightarrow> obj \<Rightarrow> exp list \<Rightarrow> bool"
  and rep_binds :: "interp \<Rightarrow> syntax_names \<Rightarrow> heap \<Rightarrow> obj \<Rightarrow> (obj \<times> exp) list \<Rightarrow> bool" for g k h where
  rx_const: "atomic c \<Longrightarrow> rep_exp g k h c (Const c)"
| rx_var: "variable g k h s \<Longrightarrow> rep_exp g k h s (Var s)"
| rx_if: "chain h x [kw_if k, xc, xt, xe] SCM_NULL \<Longrightarrow> rep_exp g k h xc c \<Longrightarrow> rep_exp g k h xt t \<Longrightarrow>
    rep_exp g k h xe e \<Longrightarrow> rep_exp g k h x (If c t e)"
| rx_lambda: "chain h x [kw_lambda k, f, xb] SCM_NULL \<Longrightarrow> formals_rep g k h f ps \<Longrightarrow> rep_exp g k h xb b \<Longrightarrow>
    rep_exp g k h x (Lambda ps b)"
| rx_let: "chain h x [kw_let k, bl, xb] SCM_NULL \<Longrightarrow> rep_binds g k h bl bs \<Longrightarrow> distinct (List.map fst bs) \<Longrightarrow>
    rep_exp g k h xb b \<Longrightarrow> rep_exp g k h x (Let bs b)"
| rx_app: "mem h a = Some (PairCell xf xs) \<Longrightarrow> rep_exp g k h xf f \<Longrightarrow> rep_exps g k h xs es \<Longrightarrow>
    rep_exp g k h (Ptr PTAG_CONS a) (App f es)"
| rx_nil: "rep_exps g k h SCM_NULL []"
| rx_cons: "mem h a = Some (PairCell x xs) \<Longrightarrow> rep_exp g k h x e \<Longrightarrow> rep_exps g k h xs es \<Longrightarrow>
    rep_exps g k h (Ptr PTAG_CONS a) (e # es)"
| rx_bnil: "rep_binds g k h SCM_NULL []"
| rx_bcons: "mem h a = Some (PairCell c xs) \<Longrightarrow> chain h c [s, x] SCM_NULL \<Longrightarrow> variable g k h s \<Longrightarrow> rep_exp g k h x e \<Longrightarrow>
    rep_binds g k h xs bs \<Longrightarrow> rep_binds g k h (Ptr PTAG_CONS a) ((s, e) # bs)"

text \<open>The procedures on pairs, as functions that a function object points to.\<close>

fun prim_fun :: "pair_prim \<Rightarrow> obj list \<Rightarrow> heap \<Rightarrow> (obj \<times> heap) res option" where
  "prim_fun P_cons args h = Some (Inr (scm_p_cons h (args ! 0) (args ! 1)))"
| "prim_fun P_car args h = Some (map_sum id (\<lambda>x. (x, h)) (scm_p_car h (args ! 0)))"
| "prim_fun P_cdr args h = Some (map_sum id (\<lambda>x. (x, h)) (scm_p_cdr h (args ! 0)))"
| "prim_fun P_nullp args h = Some (Inr (scm_p_nullp (args ! 0), h))"
| "prim_fun P_pairp args h = Some (Inr (scm_p_pairp (args ! 0), h))"

fun prim_arity :: "pair_prim \<Rightarrow> nat" where
  "prim_arity P_cons = 2"
| "prim_arity _ = 1"

inductive rep_val :: "interp \<Rightarrow> syntax_names \<Rightarrow> heap \<Rightarrow> obj \<Rightarrow> val \<Rightarrow> bool"
  and rep_env :: "interp \<Rightarrow> syntax_names \<Rightarrow> heap \<Rightarrow> obj \<Rightarrow> (obj \<times> val) list list \<Rightarrow> bool"
  and rep_frame :: "interp \<Rightarrow> syntax_names \<Rightarrow> heap \<Rightarrow> obj \<Rightarrow> obj \<Rightarrow> (obj \<times> val) list \<Rightarrow> bool" for g k h where
  rv_atom: "atomic x \<Longrightarrow> rep_val g k h x (VAtom x)"
| rv_pair: "mem h a = Some (PairCell x y) \<Longrightarrow> rep_val g k h x u \<Longrightarrow> rep_val g k h y v \<Longrightarrow>
    rep_val g k h (Ptr PTAG_CONS a) (VPair u v)"
| rv_clos: "mem h a = Some (PairCell (Ptr PTAG_CONS e) env) \<Longrightarrow> mem h e = Some (PairCell f xs) \<Longrightarrow>
    formals_rep g k h f ps \<Longrightarrow> chain h xs [x] SCM_NULL \<Longrightarrow> rep_exp g k h x b \<Longrightarrow> rep_env g k h env \<rho> \<Longrightarrow>
    rep_val g k h (Ptr PTAG_CLOSURE a) (VClos ps b \<rho>)"
| rv_op: "mem h a = Some (FuncCell SCM_REDUCTION_OPERATOR n) \<Longrightarrow> cfuncs g n = F_reduction func \<Longrightarrow>
    rep_val g k h (Ptr PTAG_MISC a) (VOp func)"
| rv_prim: "mem h a = Some (FuncCell (prim_arity p) n) \<Longrightarrow> cfuncs g n = F_primitive (prim_fun p) \<Longrightarrow>
    rep_val g k h (Ptr PTAG_MISC a) (VPrim p)"
| re_nil: "rep_env g k h SCM_NULL []"
| re_cons: "mem h e = Some (PairCell (Ptr PTAG_CONS fr) env) \<Longrightarrow> mem h fr = Some (PairCell f a) \<Longrightarrow>
    rep_frame g k h f a bs \<Longrightarrow> rep_env g k h env \<rho> \<Longrightarrow> rep_env g k h (Ptr PTAG_CONS e) (bs # \<rho>)"
| rf_nil: "rep_frame g k h SCM_NULL SCM_NULL []"
| rf_cons: "mem h p = Some (PairCell s f) \<Longrightarrow> mem h q = Some (PairCell x a) \<Longrightarrow> variable g k h s \<Longrightarrow> rep_val g k h x v \<Longrightarrow>
    rep_frame g k h f a bs \<Longrightarrow> rep_frame g k h (Ptr PTAG_CONS p) (Ptr PTAG_CONS q) ((s, v) # bs)"

definition keyword_at :: "interp \<Rightarrow> heap \<Rightarrow> obj \<Rightarrow> nat \<Rightarrow> cfunc \<Rightarrow> bool" where
  "keyword_at g h s type func \<longleftrightarrow> (\<exists>b a name n. s = Ptr PTAG_MISC b \<and> mem h b = Some (SymbolCell (Ptr PTAG_MISC a) name) \<and>
     mem h a = Some (FuncCell type n) \<and> cfuncs g n = func)"

definition program_ok :: "interp \<Rightarrow> syntax_names \<Rightarrow> (obj \<Rightarrow> val option) \<Rightarrow> heap \<Rightarrow> bool" where
  "program_ok g k G h \<longleftrightarrow>
     distinct [kw_if k, kw_lambda k, kw_let k, l_sym_begin g, l_sym_define g] \<and>
     (\<forall>s \<in> {l_sym_begin g, l_sym_define g}. \<not> CONSP s \<and> \<not> atomic s) \<and>
     keyword_at g h (kw_if k) 114 F_if \<and> keyword_at g h (kw_lambda k) 49 F_lambda \<and> keyword_at g h (kw_let k) 113 F_let \<and>
     (\<forall>s v. G s = Some v \<longrightarrow> SYMBOLP h s \<and> rep_val g k h (SYMBOL_VCELL h s) v)"

inductive_cases rep_pair_cases: "rep_val g k h x (VPair u v)"
inductive_cases rep_op_cases: "rep_val g k h x (VOp func)"
inductive_cases rep_prim_cases: "rep_val g k h x (VPrim p)"
inductive_cases rep_app_cases: "rep_exp g k h x (App f es)"

lemma rep_clos_cases:
  assumes "rep_val g k h x (VClos ps b \<rho>)"
  obtains a e env f body xb where "x = Ptr PTAG_CLOSURE a" "mem h a = Some (PairCell (Ptr PTAG_CONS e) env)"
    "mem h e = Some (PairCell f body)" "formals_rep g k h f ps" "chain h body [xb] SCM_NULL" "rep_exp g k h xb b"
    "rep_env g k h env \<rho>"
  using assms
proof cases
  case (rv_clos a e env f body xb)
  then show ?thesis by (rule that)
qed

lemma rep_let_cases:
  assumes "rep_exp g k h x (Let bs b)"
  obtains bl xb where "chain h x [kw_let k, bl, xb] SCM_NULL" "rep_binds g k h bl bs" "distinct (List.map fst bs)" "rep_exp g k h xb b"
  using assms
proof cases
  case (rx_let bl xb)
  then show ?thesis by (rule that)
qed

lemma rep_bcons_cases:
  assumes "rep_binds g k h xl (b # bs)"
  obtains a c xs s x where "xl = Ptr PTAG_CONS a" "mem h a = Some (PairCell c xs)" "chain h c [s, x] SCM_NULL" "fst b = s"
    "variable g k h s" "rep_exp g k h x (snd b)" "rep_binds g k h xs bs"
  using assms
proof cases
  case (rx_bcons a c xs s x e)
  then show ?thesis using that by (metis fst_conv snd_conv)
qed

section \<open>Representations in a larger heap\<close>

lemma SYMBOLP_iff: "SYMBOLP h x \<longleftrightarrow> (\<exists>b v n. x = Ptr PTAG_MISC b \<and> mem h b = Some (SymbolCell v n))"
  by (cases "(h, x)" rule: misc_cell.cases) (auto split: option.splits cell.splits)

lemma SYMBOLP_le:
  assumes "SYMBOLP h x" "heap_le h h'"
  shows "SYMBOLP h' x" "SYMBOL_VCELL h' x = SYMBOL_VCELL h x"
proof -
  obtain b v n where "x = Ptr PTAG_MISC b" "mem h b = Some (SymbolCell v n)" using assms(1) unfolding SYMBOLP_iff by blast
  then show "SYMBOLP h' x" "SYMBOL_VCELL h' x = SYMBOL_VCELL h x" using heap_leD [OF assms(2)] by simp_all
qed

lemma variable_le: "variable g k h s \<Longrightarrow> heap_le h h' \<Longrightarrow> variable g k h' s"
  unfolding variable_def using SYMBOLP_le(1) by blast

lemma formals_rep_le: "formals_rep g k h f ps \<Longrightarrow> heap_le h h' \<Longrightarrow> formals_rep g k h' f ps"
  unfolding formals_rep_def using chain_le variable_le by blast

lemma rep_exp_le:
  "rep_exp g k h x e \<Longrightarrow> heap_le h h' \<Longrightarrow> rep_exp g k h' x e"
  "rep_exps g k h xs es \<Longrightarrow> heap_le h h' \<Longrightarrow> rep_exps g k h' xs es"
  "rep_binds g k h xl bs \<Longrightarrow> heap_le h h' \<Longrightarrow> rep_binds g k h' xl bs"
proof (induction rule: rep_exp_rep_exps_rep_binds.inducts)
  case (rx_if x xc xt xe c t e)
  then show ?case using rep_exp_rep_exps_rep_binds.rx_if [OF chain_le] by blast
next
  case (rx_lambda x f xb ps b)
  then show ?case using rep_exp_rep_exps_rep_binds.rx_lambda [OF chain_le formals_rep_le] by blast
next
  case (rx_let x bl xb bs b)
  then show ?case using rep_exp_rep_exps_rep_binds.rx_let [OF chain_le] by blast
next
  case (rx_app a xf xs f es)
  then show ?case using rep_exp_rep_exps_rep_binds.rx_app [OF heap_leD] by blast
next
  case (rx_cons a x xs e es)
  then show ?case using rep_exp_rep_exps_rep_binds.rx_cons [OF heap_leD] by blast
next
  case (rx_bcons a c xs s x e bs)
  then show ?case using rep_exp_rep_exps_rep_binds.rx_bcons [OF heap_leD chain_le variable_le] by blast
qed (auto intro: rep_exp_rep_exps_rep_binds.intros variable_le)

lemma rep_val_le:
  "rep_val g k h x v \<Longrightarrow> heap_le h h' \<Longrightarrow> rep_val g k h' x v"
  "rep_env g k h env \<rho> \<Longrightarrow> heap_le h h' \<Longrightarrow> rep_env g k h' env \<rho>"
  "rep_frame g k h f a bs \<Longrightarrow> heap_le h h' \<Longrightarrow> rep_frame g k h' f a bs"
proof (induction rule: rep_val_rep_env_rep_frame.inducts)
  case (rv_pair a x y u v)
  then show ?case using rep_val_rep_env_rep_frame.rv_pair [OF heap_leD] by blast
next
  case (rv_clos a e env f xs ps x b \<rho>)
  then show ?case
    using rep_val_rep_env_rep_frame.rv_clos [OF heap_leD heap_leD formals_rep_le chain_le rep_exp_le(1)] by blast
next
  case (rv_op a n func)
  then show ?case using rep_val_rep_env_rep_frame.rv_op [OF heap_leD] by blast
next
  case (rv_prim a p n)
  then show ?case using rep_val_rep_env_rep_frame.rv_prim [OF heap_leD] by blast
next
  case (re_cons e fr env f a bs \<rho>)
  then show ?case using rep_val_rep_env_rep_frame.re_cons [OF heap_leD heap_leD] by blast
next
  case (rf_cons p s f q x a v bs)
  then show ?case using rep_val_rep_env_rep_frame.rf_cons [OF heap_leD heap_leD variable_le] by blast
qed (auto intro: rep_val_rep_env_rep_frame.intros)

lemma keyword_at_le: "keyword_at g h s type func \<Longrightarrow> heap_le h h' \<Longrightarrow> keyword_at g h' s type func"
  unfolding keyword_at_def using heap_leD by blast

lemma program_ok_le:
  assumes "program_ok g k G h" "heap_le h h'"
  shows "program_ok g k G h'"
proof -
  have "SYMBOLP h' s \<and> rep_val g k h' (SYMBOL_VCELL h' s) v" if "G s = Some v" for s v
  proof -
    have "SYMBOLP h s" "rep_val g k h (SYMBOL_VCELL h s) v" using assms(1) that by (auto simp: program_ok_def)
    then show ?thesis using SYMBOLP_le [OF _ assms(2)] rep_val_le(1) [OF _ assms(2)] by simp
  qed
  then show ?thesis using assms keyword_at_le [OF _ assms(2)] unfolding program_ok_def by blast
qed

end
