(* ===== verification/Meaning.thy ===== *)
theory Meaning
  imports Semantics
begin

section \<open>What is in sight\<close>

definition in_sight :: "interp \<Rightarrow> syntax_names \<Rightarrow> (obj \<Rightarrow> val option) \<Rightarrow> nat set \<Rightarrow> heap \<Rightarrow> bool" where
  "in_sight g k G A h \<longleftrightarrow> A \<subseteq> {..<brk h} \<and> brk_ok h \<and> program_ok g k G (hide A h)"

lemma in_sight_le: "in_sight g k G A h \<Longrightarrow> heap_le h h' \<Longrightarrow> brk_ok h' \<Longrightarrow> in_sight g k G A h'"
  unfolding in_sight_def using program_ok_le [OF _ hide_mono] by (auto simp: heap_le_def)

text \<open>The state of an evaluation that starts in an environment.\<close>

abbreviation start :: "obj \<Rightarrow> ScmNestState \<Rightarrow> eval_state" where
  "start env n \<equiv> \<lparr>es_env = env, ret_type = True, nest = n\<rparr>"

definition returns :: "interp \<Rightarrow> syntax_names \<Rightarrow> nat set \<Rightarrow> obj \<Rightarrow> eval_state \<Rightarrow> mach \<Rightarrow> val \<Rightarrow> bool" where
  "returns g k A x st m v \<longleftrightarrow> (\<exists>v' h'. eval_loop (evaluator g) x st m = Some (Value v', m\<lparr>m_heap := h'\<rparr>) \<and>
     heap_le (m_heap m) h' \<and> brk_ok h' \<and> rep_val g k (hide A h') v' v)"

lemma returnsI:
  assumes "eval_loop (evaluator g) x st m = Some (Value v', m\<lparr>m_heap := h'\<rparr>)" "heap_le (m_heap m) h'" "brk_ok h'"
    "rep_val g k (hide A h') v' v"
  shows "returns g k A x st m v"
  using assms unfolding returns_def by blast

lemma returns_step:
  assumes "eval_loop (evaluator g) x st m = eval_loop (evaluator g) y st' (m\<lparr>m_heap := h1\<rparr>)" "heap_le (m_heap m) h1"
    "returns g k A y st' (m\<lparr>m_heap := h1\<rparr>) v"
  shows "returns g k A x st m v"
  using assms heap_le_trans [OF assms(2)] unfolding returns_def by auto

definition evaluates :: "interp \<Rightarrow> syntax_names \<Rightarrow> (obj \<Rightarrow> val option) \<Rightarrow> (obj \<times> val) list list \<Rightarrow> exp \<Rightarrow> val \<Rightarrow> bool" where
  "evaluates g k G \<rho> e v \<longleftrightarrow> (\<forall>A m x env n. in_sight g k G A (m_heap m) \<longrightarrow> rep_exp g k (hide A (m_heap m)) x e \<longrightarrow>
     rep_env g k (hide A (m_heap m)) env \<rho> \<longrightarrow> returns g k A x (start env n) m v)"

lemma evaluatesI:
  assumes "\<And>A m x env n. in_sight g k G A (m_heap m) \<Longrightarrow> rep_exp g k (hide A (m_heap m)) x e \<Longrightarrow>
     rep_env g k (hide A (m_heap m)) env \<rho> \<Longrightarrow> returns g k A x (start env n) m v"
  shows "evaluates g k G \<rho> e v"
  using assms unfolding evaluates_def by blast

lemma evaluatesD:
  assumes "evaluates g k G \<rho> e v" "in_sight g k G A (m_heap m)" "rep_exp g k (hide A (m_heap m)) x e"
    "rep_env g k (hide A (m_heap m)) env \<rho>"
  shows "returns g k A x (start env n) m v"
  using assms unfolding evaluates_def by blast

text \<open>An environment is a list of frames, so an evaluation starts in it as it is.\<close>

lemma rep_env_cases: "rep_env g k h env \<rho> \<Longrightarrow> env = SCM_NULL \<or> CONSP env"
  by (auto elim: rep_env.cases)

lemma EVAL_start:
  assumes "rep_env g k h env \<rho>"
  obtains n where "EVAL (evaluator g) x env = eval_loop (evaluator g) x (start env n)"
  using rep_env_cases [OF assms] that
  by (auto simp: EVAL_evaluator eval_init_def SCM_EVAL_STATE_INIT1_def SCM_EVAL_STATE_INIT2_def SCM_INTERACTION_ENV_def
      SCM_INTERACTION_ENV_INDEFINABLE_def)

lemma evaluates_EVAL:
  assumes "evaluates g k G \<rho> e v" "in_sight g k G A (m_heap m)" "rep_exp g k (hide A (m_heap m)) x e"
    "rep_env g k (hide A (m_heap m)) env \<rho>"
  obtains v' h' where "EVAL (evaluator g) x env m = Some (Value v', m\<lparr>m_heap := h'\<rparr>)"
    "heap_le (m_heap m) h'" "in_sight g k G A h'" "rep_val g k (hide A h') v' v"
proof -
  obtain n where n: "EVAL (evaluator g) x env = eval_loop (evaluator g) x (start env n)" using EVAL_start [OF assms(4)] by blast
  obtain v' h' where "eval_loop (evaluator g) x (start env n) m = Some (Value v', m\<lparr>m_heap := h'\<rparr>)"
      "heap_le (m_heap m) h'" "brk_ok h'" "rep_val g k (hide A h') v' v"
    using evaluatesD [OF assms] unfolding returns_def by blast
  then show ?thesis using that n in_sight_le [OF assms(2)] by simp
qed

text \<open>Values are first class.\<close>

lemma atomic_not: "atomic x \<Longrightarrow> misc_cell h x = None \<and> \<not> CONSP x \<and> \<not> CLOSUREP x"
  by (cases x) auto

lemma atomic_identifier: "atomic x \<Longrightarrow> \<not> IDENTIFIERP h x"
  using atomic_not [of x h] by (auto simp: IDENTIFIERP_def)

definition first_class :: "heap \<Rightarrow> obj \<Rightarrow> bool" where
  "first_class h x \<longleftrightarrow> \<not> SYNTACTIC_OBJECTP h x \<and> \<not> VALUEPACKETP h x"

lemma valid_value: "first_class (m_heap m) x \<Longrightarrow> bindm (CHECK_VALID_EVALED_VALUE x) q m = q () m"
  by (simp add: first_class_def CHECK_VALID_EVALED_VALUE_def bindm_checks)

lemma first_class_cell:
  assumes "misc_cell h x = None \<or> (\<exists>v n. misc_cell h x = Some (SymbolCell v n)) \<or>
    (\<exists>type n. misc_cell h x = Some (FuncCell type n) \<and> type AND 16 = 0)"
  shows "first_class h x"
  using assms by (auto simp: first_class_def SYNTACTIC_OBJECTP_def SYNTAXP_def SCM_FUNCTYPE_SYNTAX_def)

lemma first_class_pair: "CONSP x \<Longrightarrow> first_class h x"
  by (rule first_class_cell) (auto simp: CONSP_iff)

lemma first_class_atomic: "atomic x \<Longrightarrow> first_class h x"
  by (rule first_class_cell) (simp add: atomic_not)

lemma first_class_val:
  assumes "rep_val g k (hide A h) x v"
  shows "first_class h x"
  using rep_val_le(1) [OF assms hide_le_self]
proof cases
  case (rv_op a n func)
  then show ?thesis by (intro first_class_cell) (simp add: SCM_REDUCTION_OPERATOR_def)
next
  case (rv_prim a p n)
  then show ?thesis by (cases p) (auto intro: first_class_cell)
next
  case (rv_pair a x y u v)
  then show ?thesis by (auto intro: first_class_pair)
qed (auto intro: first_class_cell first_class_atomic)

lemma first_class_exp:
  assumes "rep_exp g k (hide A h) x e"
  shows "first_class h x"
  using rep_exp_le(1) [OF assms hide_le_self]
proof cases
  case rx_var
  then have "SYMBOLP h x" unfolding variable_def by blast
  then obtain b v n where "x = Ptr PTAG_MISC b" "mem h b = Some (SymbolCell v n)" unfolding SYMBOLP_iff by blast
  then show ?thesis by (intro first_class_cell) simp
qed (auto intro: first_class_pair first_class_atomic simp: has_pair_CONSP)

text \<open>Variables.\<close>

lemma variable_identifier: "variable g k h s \<Longrightarrow> SYMBOLP h s \<and> IDENTIFIERP h s \<and> \<not> FARSYMBOLP h s \<and> \<not> CONSP s"
  using symbol_not_far identifier_not_pair unfolding variable_def by blast

lemma rep_frame_bindings:
  "rep_frame g k h f a bs \<Longrightarrow> \<exists>bs' R W. frame_bindings h f a bs' R W \<and> list_all2 (\<lambda>b' b. fst b' = fst b \<and>
     fst b \<notin> reserved g k \<and> rep_val g k h (snd b') (snd b)) bs' bs"
proof (induction bs arbitrary: f a)
  case Nil
  then have "f = SCM_NULL" "a = SCM_NULL" by (auto elim: rep_frame.cases)
  then show ?case using frame_bindings.fb_nil by blast
next
  case (Cons b bs)
  then obtain p s f' q x a' v where c: "f = Ptr PTAG_CONS p" "a = Ptr PTAG_CONS q" "b = (s, v)" "mem h p = Some (PairCell s f')"
      "mem h q = Some (PairCell x a')" "variable g k h s" "rep_val g k h x v" "rep_frame g k h f' a' bs"
    by (auto elim: rep_frame.cases)
  obtain bs' R W where r: "frame_bindings h f' a' bs' R W"
      "list_all2 (\<lambda>b' b. fst b' = fst b \<and> fst b \<notin> reserved g k \<and> rep_val g k h (snd b') (snd b)) bs' bs"
    using Cons.IH [OF c(8)] by blast
  have "IDENTIFIERP h s" "s \<notin> reserved g k" using c(6) variable_identifier variable_def by blast+
  then show ?case
    using frame_bindings.fb_cons [OF c(4,5) _ r(1)] c(1,2,3,7) r(2)
    by (intro exI [of _ "(s, x) # bs'"] exI [of _ "insert p R"] exI [of _ "q # W"]) simp
qed

lemma rep_env_bindings:
  "rep_env g k h env \<rho> \<Longrightarrow> \<exists>bss R W. env_rep h env bss R W \<and> list_all2 (list_all2 (\<lambda>b' b. fst b' = fst b \<and>
     fst b \<notin> reserved g k \<and> rep_val g k h (snd b') (snd b))) bss \<rho>"
proof (induction \<rho> arbitrary: env)
  case Nil
  then have "env = SCM_NULL" by (auto elim: rep_env.cases)
  then show ?case using env_rep.env_nil by blast
next
  case (Cons bs \<rho>)
  then obtain e fr env' f a where e: "env = Ptr PTAG_CONS e" "mem h e = Some (PairCell (Ptr PTAG_CONS fr) env')"
      "mem h fr = Some (PairCell f a)" "rep_frame g k h f a bs" "rep_env g k h env' \<rho>"
    by (auto elim: rep_env.cases)
  show ?case using env_rep.env_cons [OF e(2,3)] rep_frame_bindings [OF e(4)] Cons.IH [OF e(5)] e(1) by blast
qed

lemma map_of_rel:
  assumes "list_all2 (\<lambda>b' b. fst b' = fst b \<and> fst b \<notin> S \<and> P (snd b') (snd b)) bs' bs"
  shows "rel_option P (map_of bs' s) (map_of bs s)" "s \<in> S \<Longrightarrow> map_of bs' s = None"
  using assms by (induction rule: list_all2_induct) auto

lemma lookup_rep:
  assumes "rep_env g k h0 env \<rho>" "heap_le h0 h" "IDENTIFIERP h s"
  obtains r where "lookup_frames h s env = Some r"
    "rel_option (rep_val g k h0) (map_option (DEREF h SCM_INVALID) r) (map_of (concat \<rho>) s)"
    "s \<in> reserved g k \<Longrightarrow> r = None"
proof -
  obtain bss R W where b: "env_rep h0 env bss R W" "list_all2 (list_all2 (\<lambda>b' b. fst b' = fst b \<and>
     fst b \<notin> reserved g k \<and> rep_val g k h0 (snd b') (snd b))) bss \<rho>"
    using rep_env_bindings [OF assms(1)] by blast
  obtain r where r: "lookup_frames h s env = Some r" "map_option (DEREF h SCM_INVALID) r = map_of (concat bss) s"
    using lookup_frames_eq [OF env_rep_le [OF b(1) assms(2)] assms(3)] by blast
  have c: "list_all2 (\<lambda>b' b. fst b' = fst b \<and> fst b \<notin> reserved g k \<and> rep_val g k h0 (snd b') (snd b)) (concat bss) (concat \<rho>)"
    using b(2) by (induction rule: list_all2_induct) (auto intro: list_all2_appendI)
  note m = map_of_rel [OF c, of s]
  show ?thesis by (rule that [OF r(1)]) (use m r(2) in auto)
qed

section \<open>Steps of the evaluator\<close>

lemma eval_unfold:
  "eval_loop rec x st = bindm (eval_step rec (x, st)) (\<lambda>t. case t of Inl (x', st') \<Rightarrow> eval_loop rec x' st' | Inr v \<Rightarrow> ret v)"
  unfolding eval_loop_def by (subst loop_unfold) (rule arg_cong [where f = "bindm _"], auto split: sum.split)

lemma eval_atomic: "atomic x \<Longrightarrow> eval_loop rec x st m = Some (Value x, m)"
  using atomic_not [of x] atomic_identifier [of x]
  by (subst eval_unfold) (simp add: eval_step_def bindm_reads, simp add: ret_def)

lemma eval_identifier:
  "IDENTIFIERP (m_heap m) x \<Longrightarrow> eval_loop rec x st m = tries (\<lambda>h. scm_symbol_value h x (es_env st)) m"
  by (subst eval_unfold) (simp add: eval_step_def bindm_reads)

lemma eval_pair:
  assumes "mem (m_heap m) a = Some (PairCell xf xs)"
  shows "eval_loop rec (Ptr PTAG_CONS a) st m =
    bindm (call rec xf xs st True) (\<lambda>(x, st). if ret_type st
      then eval_loop rec x (st\<lparr>nest := (if nest st = SCM_NEST_RETTYPE_BEGIN then SCM_NEST_COMMAND_OR_DEFINITION else SCM_NEST_COMMAND)\<rparr>)
      else ret x) m"
proof -
  have "\<not> IDENTIFIERP (m_heap m) (Ptr PTAG_CONS a)" by (simp add: IDENTIFIERP_def)
  then show ?thesis
    using assms by (subst eval_unfold) (auto simp: eval_step_def bindm_reads intro!: arg_cong2 [where f = "\<lambda>q. bindm _ q"])
qed

lemma call_evaluated:
  assumes "EVAL (evaluator g) xf (es_env st) m = Some (Value proc, m')"
  shows "call (evaluator g) xf args st True m = loop (call_step g (evaluator g) st) (proc, args, True) m'"
  using assms by (simp add: call_evaluator call_body_def eval_arg_def bindm_value)

lemma call_func:
  assumes "mem (m_heap m) a = Some (FuncCell type n)"
  shows "loop (call_step g rec st) (Ptr PTAG_MISC a, args, ne) m =
    call_cfunc g rec (Ptr PTAG_MISC a) type (cfuncs g n) args (es_env st) st ne m"
  using assms by (subst loop_unfold) (simp add: call_step_def bindm_reads)

lemma call_clos:
  "loop (call_step g rec st) (Ptr PTAG_CLOSURE a, args, ne) m = call_closure g rec (Ptr PTAG_CLOSURE a) args st ne m"
  by (subst loop_unfold) (simp add: call_step_def bindm_reads)

section \<open>Constants and variables\<close>

lemma symbol_value:
  assumes "SYMBOLP h s" "lookup_frames h s env = Some r"
    "x = (case r of Some r \<Rightarrow> DEREF h SCM_INVALID r | None \<Rightarrow> SYMBOL_VCELL h s)" "x \<noteq> SCM_UNBOUND"
  shows "scm_symbol_value h s env = Some (Inr x)"
  using assms symbol_not_far(1) [OF assms(1)] by (cases r) (simp_all add: scm_symbol_value_def Let_def)

lemma rep_val_bound: "rep_val g k h x v \<Longrightarrow> x \<noteq> SCM_UNBOUND"
  by (auto elim: rep_val.cases)

lemma evaluates_const: "evaluates g k G \<rho> (Const c) (VAtom c)"
proof (rule evaluatesI)
  fix A and m :: mach and x env n
  assume s: "in_sight g k G A (m_heap m)" and r: "rep_exp g k (hide A (m_heap m)) x (Const c)"
  have "x = c" "atomic c" using r by (auto elim: rep_exp.cases)
  then show "returns g k A x (start env n) m (VAtom c)"
    using s by (intro returnsI [of g x _ m c "m_heap m"])
      (simp_all add: eval_atomic in_sight_def rep_val_rep_env_rep_frame.rv_atom)
qed

lemma evaluates_var:
  assumes "map_of (concat \<rho>) s = Some v \<or> map_of (concat \<rho>) s = None \<and> G s = Some v"
  shows "evaluates g k G \<rho> (Var s) v"
proof (rule evaluatesI)
  fix A and m :: mach and x env n
  let ?h = "m_heap m" and ?g = "hide A (m_heap m)"
  assume s: "in_sight g k G A ?h" and r: "rep_exp g k ?g x (Var s)" and e: "rep_env g k ?g env \<rho>"
  have x: "x = s" "variable g k ?g s" using r by (auto elim: rep_exp.cases)
  note id = variable_identifier [OF variable_le [OF x(2) hide_le_self]]
  obtain r where l: "lookup_frames ?h s env = Some r"
      "rel_option (rep_val g k ?g) (map_option (DEREF ?h SCM_INVALID) r) (map_of (concat \<rho>) s)"
    using lookup_rep [OF e hide_le_self] id by blast
  let ?v = "case r of Some r \<Rightarrow> DEREF ?h SCM_INVALID r | None \<Rightarrow> SYMBOL_VCELL ?h s"
  have v: "rep_val g k ?g ?v v"
  proof (cases r)
    case None
    then have "map_of (concat \<rho>) s = None" using l(2) by simp
    then have G: "G s = Some v" using assms by simp
    then have "SYMBOLP ?g s" "rep_val g k ?g (SYMBOL_VCELL ?g s) v" using s by (auto simp: in_sight_def program_ok_def)
    then show ?thesis using SYMBOLP_le(2) [OF _ hide_le_self] None by simp
  next
    case (Some q)
    then obtain u where "map_of (concat \<rho>) s = Some u" "rep_val g k ?g (DEREF ?h SCM_INVALID q) u" using l(2)
      by (auto elim: option.rel_cases)
    then show ?thesis using assms Some by simp
  qed
  have "scm_symbol_value ?h s env = Some (Inr ?v)" using symbol_value [OF _ l(1) refl rep_val_bound [OF v]] id by blast
  then have "eval_loop (evaluator g) x (start env n) m = Some (Value ?v, m)"
    using eval_identifier [of m s] id x(1) by (simp add: tries_def)
  then show "returns g k A x (start env n) m v"
    using s v by (intro returnsI [of g x _ m ?v ?h]) (simp_all add: in_sight_def)
qed

lemma eval_keyword:
  assumes "in_sight g k G A (m_heap m)" "rep_env g k (hide A (m_heap m)) env \<rho>"
    "keyword_at g (hide A (m_heap m)) s type func" "s \<in> reserved g k"
  obtains a n where "EVAL (evaluator g) s env m = Some (Value (Ptr PTAG_MISC a), m)"
    "mem (m_heap m) a = Some (FuncCell type n)" "cfuncs g n = func"
proof -
  have e: "rep_env g k (m_heap m) env \<rho>" using rep_val_le(2) [OF assms(2) hide_le_self] .
  have "keyword_at g (m_heap m) s type func" using keyword_at_le [OF assms(3) hide_le_self] .
  then obtain b a name n where k: "s = Ptr PTAG_MISC b" "mem (m_heap m) b = Some (SymbolCell (Ptr PTAG_MISC a) name)"
      "mem (m_heap m) a = Some (FuncCell type n)" "cfuncs g n = func"
    unfolding keyword_at_def by blast
  have s: "SYMBOLP (m_heap m) s" using k by simp
  then have i: "IDENTIFIERP (m_heap m) s" using symbol_not_far(2) by blast
  have "lookup_frames (m_heap m) s env = Some None" using lookup_rep [OF e heap_le_refl i] assms(4) by metis
  then have "scm_symbol_value (m_heap m) s env = Some (Inr (Ptr PTAG_MISC a))" using k by (intro symbol_value [OF s]) auto
  moreover obtain n' where "EVAL (evaluator g) s env = eval_loop (evaluator g) s (start env n')" using EVAL_start [OF e] by blast
  ultimately have "EVAL (evaluator g) s env m = Some (Value (Ptr PTAG_MISC a), m)"
    using i by (simp add: eval_identifier tries_def)
  then show ?thesis using that k by blast
qed

section \<open>Syntaxes\<close>

lemma chain_consE:
  assumes "chain h x (v # vs) t"
  obtains a y where "x = Ptr PTAG_CONS a" "mem h a = Some (PairCell v y)" "chain h y vs t"
  using assms by (auto simp: has_pair_def)

lemma mandatory_raw:
  assumes "chain h args (xs @ ys) t" "heap_le h (m_heap m)" "\<forall>x \<in> set xs. first_class (m_heap m) x"
  shows "\<exists>rest. chain h rest ys t \<and>
    loop (mandatory_step rec False env) (length xs, args, buf) m = Some (Value (rest, buf @ xs), m)"
  using assms
proof (induction xs arbitrary: args buf)
  case Nil
  then show ?case by (subst loop_unfold) (simp add: mandatory_step_def, simp add: ret_def)
next
  case (Cons x xs)
  obtain a y where c: "args = Ptr PTAG_CONS a" "mem h a = Some (PairCell x y)" "chain h y (xs @ ys) t"
    using Cons.prems(1) chain_consE by (metis append_Cons)
  have "mem (m_heap m) a = Some (PairCell x y)" using heap_leD [OF assms(2) c(2)] .
  then have "loop (mandatory_step rec False env) (length (x # xs), args, buf) m =
      loop (mandatory_step rec False env) (length xs, y, buf @ [x]) m"
    using Cons.prems(3) c(1)
    by (subst loop_unfold) (simp add: mandatory_step_def bindm_checks MUST_POP_ARG_def eval_arg_def valid_value)
  moreover obtain rest where "chain h rest ys t"
      "loop (mandatory_step rec False env) (length xs, y, buf @ [x]) m = Some (Value (rest, (buf @ [x]) @ xs), m)"
    using Cons.IH [OF c(3) assms(2), of "buf @ [x]"] Cons.prems(3) by auto
  ultimately show ?case by auto
qed

definition variadic_syntax :: "nat \<Rightarrow> nat \<Rightarrow> bool" where
  "variadic_syntax type n \<longleftrightarrow> type \<noteq> SCM_REDUCTION_OPERATOR \<and> type AND SCM_FUNCTYPE_SYNTAX \<noteq> 0 \<and>
     type AND SCM_FUNCTYPE_VARIADIC \<noteq> 0 \<and> type AND SCM_FUNCTYPE_MAND_MASK = n \<and> n \<le> 5"

lemmas type_codes = variadic_syntax_def SCM_REDUCTION_OPERATOR_def SCM_FUNCTYPE_SYNTAX_def SCM_FUNCTYPE_VARIADIC_def
  SCM_FUNCTYPE_MAND_MASK_def SCM_FUNCTYPE_TAILREC_def

lemma call_syntax:
  assumes "in_sight g k G A (m_heap m)" "rep_env g k (hide A (m_heap m)) (es_env st) \<rho>"
    "keyword_at g (hide A (m_heap m)) s type func" "s \<in> reserved g k" "variadic_syntax type (length xs)"
    "chain (hide A (m_heap m)) args (xs @ ys) SCM_NULL" "\<forall>x \<in> set xs. first_class (m_heap m) x"
  obtains rest where "chain (hide A (m_heap m)) rest ys SCM_NULL"
    "call (evaluator g) s args st True m = invoke g (evaluator g) func
       (if type AND SCM_FUNCTYPE_TAILREC = 0 then xs @ [rest] @ [es_env st] else xs @ [rest])
       (st\<lparr>ret_type := (type AND SCM_FUNCTYPE_TAILREC \<noteq> 0)\<rparr>) m"
proof -
  obtain a n where k: "EVAL (evaluator g) s (es_env st) m = Some (Value (Ptr PTAG_MISC a), m)"
      "mem (m_heap m) a = Some (FuncCell type n)" "cfuncs g n = func"
    by (rule eval_keyword [OF assms(1-4)])
  obtain rest where r: "chain (hide A (m_heap m)) rest ys SCM_NULL"
      "loop (mandatory_step (evaluator g) False (es_env st)) (length xs, args, []) m = Some (Value (rest, [] @ xs), m)"
    using mandatory_raw [OF assms(6) hide_le_self assms(7)] by blast
  have "call (evaluator g) s args st True m =
      call_cfunc g (evaluator g) (Ptr PTAG_MISC a) type func args (es_env st) st True m"
    using call_evaluated [OF k(1)] call_func [OF k(2)] k(3) by simp
  also have "\<dots> = bindm (loop (mandatory_step (evaluator g) False (es_env st)) (length xs, args, [])) (\<lambda>(rest, buf).
      invoke g (evaluator g) func (if type AND SCM_FUNCTYPE_TAILREC = 0 then (buf @ [rest]) @ [es_env st] else buf @ [rest])
       (st\<lparr>ret_type := (type AND SCM_FUNCTYPE_TAILREC \<noteq> 0)\<rparr>)) m"
    using assms(5) by (simp add: call_cfunc_def variadic_syntax_def Let_def)
  finally show ?thesis using that [OF r(1)] r(2) by (simp add: bindm_value)
qed

lemma rep_val_false: "rep_val g k h x v \<Longrightarrow> x = SCM_FALSE \<longleftrightarrow> v = VAtom SCM_FALSE"
  by (auto elim: rep_val.cases intro: rep_val_rep_env_rep_frame.rv_atom)

lemma no_more_null [simp]: "bindm (ASSERT_NO_MORE_ARG SCM_NULL) q = q ()"
  by (rule ext) (simp add: ASSERT_NO_MORE_ARG_def bindm_checks ENSURE_NO_MORE_ARG_def NO_MORE_ARG_def)

lemma if_step:
  assumes "EVAL rec test (es_env st) m = Some (Value u, m')" "first_class (m_heap m') u"
    "chain (m_heap m') rest [alt] SCM_NULL"
  shows "scm_s_if rec test conseq rest st m = Some (Value (if u \<noteq> SCM_FALSE then conseq else alt, st), m')"
  using assms
  by (auto simp: scm_s_if_def bindm_value valid_value bindm_reads SAFE_POP_def has_pair_CONSP ret_def)

lemma if_call:
  assumes "in_sight g k G A (m_heap m)" "rep_exp g k (hide A (m_heap m)) x (If c t e)" "rep_env g k (hide A (m_heap m)) env \<rho>"
  obtains xc xt xe rest where "rep_exp g k (hide A (m_heap m)) xc c" "rep_exp g k (hide A (m_heap m)) xt t"
    "rep_exp g k (hide A (m_heap m)) xe e" "chain (hide A (m_heap m)) rest [xe] SCM_NULL"
    "eval_loop (evaluator g) x (start env n) m = bindm (scm_s_if (evaluator g) xc xt rest (start env n)) (\<lambda>(x, st). if ret_type st
      then eval_loop (evaluator g) x (st\<lparr>nest := (if nest st = SCM_NEST_RETTYPE_BEGIN then SCM_NEST_COMMAND_OR_DEFINITION else SCM_NEST_COMMAND)\<rparr>)
      else ret x) m"
proof -
  let ?g = "hide A (m_heap m)"
  obtain xc xt xe where x: "chain ?g x [kw_if k, xc, xt, xe] SCM_NULL" "rep_exp g k ?g xc c" "rep_exp g k ?g xt t" "rep_exp g k ?g xe e"
    using assms(2) by (auto elim: rep_exp.cases)
  obtain a xs where a: "x = Ptr PTAG_CONS a" "mem ?g a = Some (PairCell (kw_if k) xs)" "chain ?g xs [xc, xt, xe] SCM_NULL"
    by (rule chain_consE [OF x(1)])
  have kw: "keyword_at g ?g (kw_if k) 114 F_if" using assms(1) by (simp add: in_sight_def program_ok_def)
  obtain rest where rest: "chain ?g rest [xe] SCM_NULL"
      "call (evaluator g) (kw_if k) xs (start env n) True m = invoke g (evaluator g) F_if [xc, xt, rest] (start env n) m"
    using call_syntax [OF assms(1), of "start env n" \<rho> "kw_if k" 114 F_if "[xc, xt]" xs "[xe]"] assms(3) kw a(3) first_class_exp x
    by (auto simp: reserved_def type_codes simp del: chain.simps)
  have "call (evaluator g) (kw_if k) xs (start env n) True m = scm_s_if (evaluator g) xc xt rest (start env n) m"
    unfolding rest(2) invoke_def cfunc.case args3_def by simp
  then have "eval_loop (evaluator g) x (start env n) m = bindm (scm_s_if (evaluator g) xc xt rest (start env n)) (\<lambda>(x, st). if ret_type st
      then eval_loop (evaluator g) x (st\<lparr>nest := (if nest st = SCM_NEST_RETTYPE_BEGIN then SCM_NEST_COMMAND_OR_DEFINITION else SCM_NEST_COMMAND)\<rparr>)
      else ret x) m"
    unfolding a(1) eval_pair [OF heap_leD [OF hide_le_self a(2)]] by (simp add: bindm_def)
  then show ?thesis by (rule that [OF x(2-4) rest(1)])
qed

lemma if_branch:
  assumes "evaluates g k G \<rho> c u" "in_sight g k G A (m_heap m)" "rep_exp g k (hide A (m_heap m)) x (If c t e)"
    "rep_env g k (hide A (m_heap m)) env \<rho>"
  obtains y n' h1 where "eval_loop (evaluator g) x (start env n) m = eval_loop (evaluator g) y (start env n') (m\<lparr>m_heap := h1\<rparr>)"
    "heap_le (m_heap m) h1" "in_sight g k G A h1" "rep_exp g k (hide A h1) y (if u \<noteq> VAtom SCM_FALSE then t else e)"
    "rep_env g k (hide A h1) env \<rho>"
proof -
  let ?h = "m_heap m" and ?g = "hide A (m_heap m)"
  obtain xc xt xe rest where x: "rep_exp g k ?g xc c" "rep_exp g k ?g xt t" "rep_exp g k ?g xe e" "chain ?g rest [xe] SCM_NULL"
    "eval_loop (evaluator g) x (start env n) m = bindm (scm_s_if (evaluator g) xc xt rest (start env n)) (\<lambda>(x, st). if ret_type st
      then eval_loop (evaluator g) x (st\<lparr>nest := (if nest st = SCM_NEST_RETTYPE_BEGIN then SCM_NEST_COMMAND_OR_DEFINITION else SCM_NEST_COMMAND)\<rparr>)
      else ret x) m"
    by (rule if_call [OF assms(2-4), of n])
  obtain u' h1 where u: "EVAL (evaluator g) xc env m = Some (Value u', m\<lparr>m_heap := h1\<rparr>)" "heap_le ?h h1" "in_sight g k G A h1"
      "rep_val g k (hide A h1) u' u"
    by (rule evaluates_EVAL [OF assms(1,2) x(1) assms(4)])
  note up = hide_mono [OF u(2), of A]
  let ?m = "m\<lparr>m_heap := h1\<rparr>" and ?y = "if u' \<noteq> SCM_FALSE then xt else xe"
  have "scm_s_if (evaluator g) xc xt rest (start env n) m = Some (Value (?y, start env n), ?m)"
    using if_step [of "evaluator g" xc "start env n" m u' ?m rest xe xt] u(1) first_class_val [OF u(4)]
      chain_le [OF x(4) heap_le_trans [OF hide_le_self u(2)]] by simp
  then obtain n' where step: "eval_loop (evaluator g) x (start env n) m = eval_loop (evaluator g) ?y (start env n') ?m"
    unfolding x(5) by (auto simp: bindm_value)
  have "rep_exp g k (hide A h1) ?y (if u \<noteq> VAtom SCM_FALSE then t else e)"
    using rep_val_false [OF u(4)] rep_exp_le(1) [OF x(2) up] rep_exp_le(1) [OF x(3) up] by simp
  then show ?thesis by (rule that [OF step u(2,3) _ rep_val_le(2) [OF assms(4) up]])
qed

lemma evaluates_if:
  assumes "evaluates g k G \<rho> c u" "evaluates g k G \<rho> (if u \<noteq> VAtom SCM_FALSE then t else e) v"
  shows "evaluates g k G \<rho> (If c t e) v"
proof (rule evaluatesI)
  fix A and m :: mach and x env n
  assume s: "in_sight g k G A (m_heap m)" and r: "rep_exp g k (hide A (m_heap m)) x (If c t e)"
    and env: "rep_env g k (hide A (m_heap m)) env \<rho>"
  obtain y n' h1 where y: "eval_loop (evaluator g) x (start env n) m = eval_loop (evaluator g) y (start env n') (m\<lparr>m_heap := h1\<rparr>)"
    "heap_le (m_heap m) h1" "in_sight g k G A h1" "rep_exp g k (hide A h1) y (if u \<noteq> VAtom SCM_FALSE then t else e)"
    "rep_env g k (hide A h1) env \<rho>"
    by (rule if_branch [OF assms(1) s r env])
  have "returns g k A y (start env n') (m\<lparr>m_heap := h1\<rparr>) v" using y(3-5) by (intro evaluatesD [OF assms(2)]) simp_all
  then show "returns g k A x (start env n) m v" using returns_step [OF y(1,2)] by blast
qed

text \<open>\<^verbatim>\<open>lambda\<close>.\<close>

lemma formals_valid:
  assumes "formals_rep g k h f ps" "heap_le h (m_heap m)"
  shows "bindm (VALIDATE_FORMALS f) q m = q True m"
proof -
  have f: "chain (m_heap m) f ps SCM_NULL" "\<forall>p \<in> set ps. IDENTIFIERP (m_heap m) p"
    using formals_rep_le [OF assms] variable_identifier unfolding formals_rep_def by blast+
  then have "scm_validate_formals (m_heap m) f = Some (int (length ps))"
    using validate_formals_loop_chain [OF f(1), of 0] by (simp add: scm_validate_formals_def)
  then show ?thesis by (simp add: VALIDATE_FORMALS_def bindm_tries SCM_LISTLEN_ERRORP_def SCM_LISTLEN_CIRCULARP_def SCM_INT_T_MIN_def)
qed

lemma rep_formals_obj: "formals_rep g k h f ps \<Longrightarrow> f = SCM_NULL \<or> CONSP f"
  unfolding formals_rep_def by (cases ps) (auto simp: has_pair_CONSP)

lemma first_class_list: "f = SCM_NULL \<or> CONSP f \<Longrightarrow> first_class h f"
  using first_class_pair first_class_atomic by fastforce

lemma lambda_step:
  assumes "formals_rep g k (hide A (m_heap m)) f ps" "chain (hide A (m_heap m)) rest [xb] SCM_NULL"
    "rep_exp g k (hide A (m_heap m)) xb b" "rep_env g k (hide A (m_heap m)) env \<rho>" "in_sight g k G A (m_heap m)"
  obtains v' h' where "scm_s_lambda f rest env m = Some (Value v', m\<lparr>m_heap := h'\<rparr>)" "heap_le (m_heap m) h'" "brk_ok h'"
    "rep_val g k (hide A h') v' (VClos ps b \<rho>)"
proof -
  let ?h = "m_heap m"
  define h1 where "h1 = ?h\<lparr>mem := (mem ?h)(brk ?h \<mapsto> PairCell f rest), brk := Suc (brk ?h)\<rparr>"
  define h2 where "h2 = h1\<lparr>mem := (mem h1)(brk h1 \<mapsto> PairCell (Ptr PTAG_CONS (brk ?h)) env), brk := Suc (brk h1)\<rparr>"
  have ok: "brk_ok ?h" "A \<subseteq> {..<brk ?h}" using assms(5) by (auto simp: in_sight_def)
  have rest: "CONSP rest" using assms(2) by (auto simp: has_pair_CONSP)
  have run: "scm_s_lambda f rest env m = Some (Value (Ptr PTAG_CLOSURE (brk h1)), m\<lparr>m_heap := h2\<rparr>)"
    using rest
    by (simp add: formals_valid [OF assms(1) hide_le_self] scm_s_lambda_def CONS_def bindm_changes make_cons_simps h1_def [symmetric]
        scm_make_closure_def alloc_ptr_def alloc_def changes_def h2_def)
  have le: "heap_le ?h h2" "brk_ok h2" using ok(1) by (auto simp: heap_le_def brk_ok_def h1_def h2_def)
  have cells: "mem (hide A h2) (brk h1) = Some (PairCell (Ptr PTAG_CONS (brk ?h)) env)"
      "mem (hide A h2) (brk ?h) = Some (PairCell f rest)"
    using ok(2) by (auto simp: h1_def h2_def)
  note up = hide_mono [OF le(1), of A]
  have "rep_val g k (hide A h2) (Ptr PTAG_CLOSURE (brk h1)) (VClos ps b \<rho>)"
    by (rule rep_val_rep_env_rep_frame.rv_clos [OF cells formals_rep_le [OF assms(1) up] chain_le [OF assms(2) up]
          rep_exp_le(1) [OF assms(3) up] rep_val_le(2) [OF assms(4) up]])
  then show ?thesis using that [OF run le] by blast
qed

lemma evaluates_lambda: "evaluates g k G \<rho> (Lambda ps b) (VClos ps b \<rho>)"
proof (rule evaluatesI)
  fix A and m :: mach and x env n
  let ?h = "m_heap m" and ?g = "hide A (m_heap m)"
  assume s: "in_sight g k G A ?h" and r: "rep_exp g k ?g x (Lambda ps b)" and env: "rep_env g k ?g env \<rho>"
  obtain f xb where x: "chain ?g x [kw_lambda k, f, xb] SCM_NULL" "formals_rep g k ?g f ps" "rep_exp g k ?g xb b"
    using r by (auto elim: rep_exp.cases)
  obtain a xs where a: "x = Ptr PTAG_CONS a" "mem ?g a = Some (PairCell (kw_lambda k) xs)" "chain ?g xs [f, xb] SCM_NULL"
    by (rule chain_consE [OF x(1)])
  let ?st = "(start env n)\<lparr>ret_type := False\<rparr>"
  have kw: "keyword_at g ?g (kw_lambda k) 49 F_lambda" using s by (simp add: in_sight_def program_ok_def)
  have "first_class ?h f" by (rule first_class_list [OF rep_formals_obj [OF x(2)]])
  then obtain rest where rest: "chain ?g rest [xb] SCM_NULL"
      "call (evaluator g) (kw_lambda k) xs (start env n) True m = invoke g (evaluator g) F_lambda [f, rest, env] ?st m"
    using call_syntax [OF s, of "start env n" \<rho> "kw_lambda k" 49 F_lambda "[f]" xs "[xb]"] env kw a(3)
    by (auto simp: reserved_def type_codes simp del: chain.simps)
  obtain v' h' where l: "scm_s_lambda f rest env m = Some (Value v', m\<lparr>m_heap := h'\<rparr>)" "heap_le ?h h'" "brk_ok h'"
    "rep_val g k (hide A h') v' (VClos ps b \<rho>)"
    by (rule lambda_step [OF x(2) rest(1) x(3) env s])
  have "call (evaluator g) (kw_lambda k) xs (start env n) True m = Some (Value (v', ?st), m\<lparr>m_heap := h'\<rparr>)"
    unfolding rest(2) invoke_def cfunc.case args3_def as_is_def using l(1) by (simp add: bindm_value ret_def)
  then have "eval_loop (evaluator g) x (start env n) m = Some (Value v', m\<lparr>m_heap := h'\<rparr>)"
    unfolding a(1) eval_pair [OF heap_leD [OF hide_le_self a(2)]] by (simp add: bindm_value ret_def)
  then show "returns g k A x (start env n) m (VClos ps b \<rho>)" using returnsI l by blast
qed

section \<open>Bodies\<close>

lemma rep_exp_kind:
  assumes "rep_exp g k h x e"
  shows "atomic x \<or> variable g k h x \<or> CONSP x"
  using assms by cases (auto simp: has_pair_CONSP)

lemma rep_exp_not_far:
  assumes "rep_exp g k h x e" "heap_le h h'"
  shows "\<not> FARSYMBOLP h' x"
  using rep_exp_kind [OF rep_exp_le(1) [OF assms]]
proof (elim disjE)
  assume "CONSP x"
  then show ?thesis by (auto simp: CONSP_iff)
qed (use variable_identifier atomic_identifier in \<open>auto simp: IDENTIFIERP_def simp del: FARSYMBOLP.simps SYMBOLP.simps\<close>)

lemma rep_exp_not_define:
  assumes "rep_exp g k h x e" "program_ok g k G h"
  shows "x \<noteq> l_sym_begin g \<and> x \<noteq> l_sym_define g"
  using rep_exp_kind [OF assms(1)] assms(2) by (auto simp: variable_def reserved_def program_ok_def)

lemma rep_exp_pair:
  assumes "rep_exp g k h (Ptr PTAG_CONS a) e"
  obtains op xs where "mem h a = Some (PairCell op xs)" "op \<in> {kw_if k, kw_lambda k, kw_let k} \<or> (\<exists>e. rep_exp g k h op e)"
  using assms
proof cases
  case rx_var
  then show ?thesis using variable_identifier by fastforce
qed (use that in \<open>auto simp: has_pair_def\<close>)

lemma keyword_symbol: "keyword_at g h s type func \<Longrightarrow> SYMBOLP h s"
  by (auto simp: keyword_at_def)

text \<open>The operator of an expression is not a name that starts a definition.\<close>

lemma operator_kept:
  assumes "rep_exp g k h (Ptr PTAG_CONS a) e" "program_ok g k G h" "heap_le h h'"
  obtains op xs where "mem h a = Some (PairCell op xs)" "\<not> FARSYMBOLP h' op" "op \<noteq> l_sym_begin g" "op \<noteq> l_sym_define g"
proof -
  obtain op xs where m: "mem h a = Some (PairCell op xs)" and
      "op \<in> {kw_if k, kw_lambda k, kw_let k} \<or> (\<exists>e. rep_exp g k h op e)"
    by (rule rep_exp_pair [OF assms(1)])
  then have "\<not> FARSYMBOLP h' op \<and> op \<noteq> l_sym_begin g \<and> op \<noteq> l_sym_define g"
  proof (elim disjE)
    assume k: "op \<in> {kw_if k, kw_lambda k, kw_let k}"
    then have "SYMBOLP h op" using assms(2) keyword_symbol unfolding program_ok_def by blast
    then have "SYMBOLP h' op" using SYMBOLP_le(1) assms(3) by blast
    then show ?thesis using symbol_not_far(1) [of h' op] k assms(2) unfolding program_ok_def by auto
  qed (use rep_exp_not_far [OF _ assms(3)] rep_exp_not_define [OF _ assms(2)] in blast)
  then show ?thesis using that m by blast
qed

lemma body_step:
  assumes "chain (hide A (m_heap m)) body [xb] SCM_NULL" "rep_exp g k (hide A (m_heap m)) xb b" "in_sight g k G A (m_heap m)"
    "CONSP (es_env st)"
  shows "scm_s_body g rec body st m = Some (Value (xb, st), m)"
proof -
  let ?h = "m_heap m"
  have ok: "program_ok g k G (hide A ?h)" using assms(3) by (simp add: in_sight_def)
  obtain a where a: "body = Ptr PTAG_CONS a" "mem ?h a = Some (PairCell xb SCM_NULL)"
    using chain_consE [OF assms(1)] heap_leD [OF hide_le_self] by (metis chain.simps(1))
  let ?ctx = "\<lparr>outer_env = es_env st, body_env = es_env st, def_expq = QUEUE_POINT_TO SCM_NULL, n_defs = 0\<rparr>"
  have filter: "filter_definitions g ?ctx body False m = Some (Value (body, ?ctx), m)"
  proof (cases "CONSP xb")
    case True
    then obtain c where c: "xb = Ptr PTAG_CONS c" by (auto simp: CONSP_iff)
    obtain op xs where op: "mem (hide A ?h) c = Some (PairCell op xs)" and
        kept: "\<not> FARSYMBOLP ?h op" "op \<noteq> l_sym_begin g" "op \<noteq> l_sym_define g"
      by (rule operator_kept [OF assms(2) [unfolded c] ok hide_le_self])
    have "mem ?h c = Some (PairCell op xs)" using heap_leD [OF hide_le_self op] .
    then show ?thesis
      using kept a c
      by (subst filter_definitions.simps, subst loop_unfold)
        (simp add: filter_step_def bindm_reads UNWRAP_KEYWORD_def bindm_tries scm_unwrap_keyword_def del: FARSYMBOLP.simps, simp add: ret_def)
  next
    case False
    then show ?thesis
      by (subst filter_definitions.simps, subst loop_unfold) (simp add: filter_step_def bindm_reads a, simp add: ret_def)
  qed
  have top: "\<not> SCM_DEFINABLE_TOPLEVELP st"
    using assms(4) by (auto simp: SCM_DEFINABLE_TOPLEVELP_def scm_toplevel_environmentp_def)
  have "scm_s_begin rec body st m = Some (Value (xb, st), m)"
    using a top by (simp add: scm_s_begin_def, subst loop_unfold) (simp add: begin_step_def bindm_reads, simp add: ret_def)
  then show ?thesis using filter a(1) by (simp add: scm_s_body_def bindm_value)
qed

section \<open>Operands\<close>

abbreviation cells_of :: "(nat \<times> obj) list \<Rightarrow> nat set" where
  "cells_of ps \<equiv> fst ` set ps"

lemma queue_add_sight:
  assumes "queue_inv h0 h out ps" "in_sight g k G (A \<union> cells_of ps) h" "queue_add h out (slot ps) x = (h2, out2, q2)"
  shows "q2 = slot (ps @ [(brk h, x)])" "queue_inv h0 h2 out2 (ps @ [(brk h, x)])"
    "heap_le (hide (A \<union> cells_of ps) h) (hide (A \<union> cells_of (ps @ [(brk h, x)])) h2)"
    "in_sight g k G (A \<union> cells_of (ps @ [(brk h, x)])) h2"
proof -
  let ?B = "A \<union> cells_of ps" and ?C = "A \<union> cells_of (ps @ [(brk h, x)])"
  note add = queue_add_inv [OF assms(1,3)]
  then show q: "q2 = slot (ps @ [(brk h, x)])" "queue_inv h0 h2 out2 (ps @ [(brk h, x)])" by blast+
  have ok: "brk_ok h" "?B \<subseteq> {..<brk h}" "program_ok g k G (hide ?B h)" using assms(2) by (auto simp: in_sight_def)
  have b: "brk h2 = Suc (brk h)"
    using assms(3) by (auto simp: queue_add_def make_cons_simps Let_def set_pair_def split: prod.splits elim!: SCM_SET.elims)
  show le: "heap_le (hide ?B h) (hide ?C h2)"
    unfolding heap_le_def
  proof (intro conjI allI impI)
    fix a c assume m: "mem (hide ?B h) a = Some c"
    then have a: "a \<notin> ?B" "mem h a = Some c" by (auto split: if_splits)
    then have "a < brk h" using ok(1) by (auto simp: brk_ok_def not_le [symmetric])
    then have "mem h2 a = mem h a" using queue_add_frame [OF assms(1,3)] a(1) by simp
    then show "mem (hide ?C h2) a = Some c" using a \<open>a < brk h\<close> by auto
  qed (simp add: b)
  show "in_sight g k G ?C h2"
    using ok program_ok_le [OF ok(3) le] q(2) b unfolding in_sight_def queue_inv_def by auto
qed

lemma queue_inv_hide:
  assumes "queue_inv h0 h out ps"
  shows "heap_le (hide A h0) (hide (A \<union> cells_of ps) h)"
  unfolding heap_le_def
proof (intro conjI allI impI)
  fix a c assume m: "mem (hide A h0) a = Some c"
  then have a: "a \<notin> A" "mem h0 a = Some c" by (auto split: if_splits)
  then have "a < brk h0" using assms by (auto simp: queue_inv_def brk_ok_def not_le [symmetric])
  then have "a \<notin> cells_of ps" using assms by (auto simp: queue_inv_def)
  then show "mem (hide (A \<union> cells_of ps) h) a = Some c" using a assms by (auto simp: queue_inv_def dest: heap_leD)
qed (use assms in \<open>auto simp: queue_inv_def heap_le_def\<close>)

text \<open>A queue that is not filled any more comes into sight.\<close>

lemma queue_chain:
  assumes "queue_inv h0 h out ps" "A \<subseteq> {..<brk h0}"
  shows "chain (hide A h) out (List.map snd ps) SCM_NULL"
proof -
  have "lseg (hide A h) out ps SCM_NULL = lseg h out ps SCM_NULL"
  proof (rule lseg_cong, rule ballI)
    fix a assume "a \<in> cells_of ps"
    then have "brk h0 \<le> a" using assms(1) unfolding queue_inv_def by blast
    then show "mem (hide A h) a = mem h a" using assms(2) by auto
  qed
  then show ?thesis using assms(1) lseg_chain unfolding queue_inv_def by blast
qed

lemma rep_exps_cases:
  assumes "rep_exps g k h xs (e # es)"
  obtains a x xs' where "xs = Ptr PTAG_CONS a" "mem h a = Some (PairCell x xs')" "rep_exp g k h x e" "rep_exps g k h xs' es"
  using assms by cases auto

lemma list_all2_rep_le: "list_all2 (rep_val g k h) xs vs \<Longrightarrow> heap_le h h' \<Longrightarrow> list_all2 (rep_val g k h') xs vs"
  by (erule list_all2_mono) (rule rep_val_le(1))

lemma map_eval_loop:
  assumes "list_all2 (evaluates g k G \<rho>) es vs" "queue_inv h0 (m_heap m) out ps"
    "in_sight g k G (A \<union> cells_of ps) (m_heap m)" "rep_exps g k (hide (A \<union> cells_of ps) (m_heap m)) xs (es @ es')"
    "rep_env g k (hide (A \<union> cells_of ps) (m_heap m)) env \<rho>"
  shows "\<exists>rest out' ps' h'. loop (map_eval_step (evaluator g) env) (xs, (out, slot ps), n) m =
      loop (map_eval_step (evaluator g) env) (rest, (out', slot (ps @ ps')), n + int (length vs)) (m\<lparr>m_heap := h'\<rparr>) \<and>
    queue_inv h0 h' out' (ps @ ps') \<and> in_sight g k G (A \<union> cells_of (ps @ ps')) h' \<and>
    heap_le (hide (A \<union> cells_of ps) (m_heap m)) (hide (A \<union> cells_of (ps @ ps')) h') \<and>
    list_all2 (rep_val g k (hide (A \<union> cells_of (ps @ ps')) h')) (List.map snd ps') vs \<and>
    rep_exps g k (hide (A \<union> cells_of (ps @ ps')) h') rest es'"
  using assms
proof (induction es vs arbitrary: m out ps xs n rule: list_all2_induct)
  case Nil
  then show ?case by (intro exI [of _ xs] exI [of _ out] exI [of _ "[]"] exI [of _ "m_heap m"]) simp
next
  case (Cons e es v vs)
  let ?B = "A \<union> cells_of ps" and ?h = "m_heap m"
  have "rep_exps g k (hide ?B ?h) xs (e # es @ es')" using Cons.prems(3) by simp
  then obtain a x xs' where x: "xs = Ptr PTAG_CONS a" "mem (hide ?B ?h) a = Some (PairCell x xs')"
      "rep_exp g k (hide ?B ?h) x e" "rep_exps g k (hide ?B ?h) xs' (es @ es')"
    by (rule rep_exps_cases)
  obtain v' h1 where v: "EVAL (evaluator g) x env m = Some (Value v', m\<lparr>m_heap := h1\<rparr>)" "heap_le ?h h1" "in_sight g k G ?B h1"
      "rep_val g k (hide ?B h1) v' v"
    by (rule evaluates_EVAL [OF Cons.hyps(1) Cons.prems(2) x(3) Cons.prems(4)])
  have b1: "brk_ok h1" using v(3) by (simp add: in_sight_def)
  note q1 = queue_inv_le [OF Cons.prems(1) v(2) b1]
  obtain h2 out2 q2 where add: "queue_add h1 out (slot ps) v' = (h2, out2, q2)" by (metis prod_cases3)
  let ?ps = "ps @ [(brk h1, v')]" and ?m2 = "m\<lparr>m_heap := h2\<rparr>"
  let ?C = "A \<union> cells_of ?ps"
  note a = queue_add_sight [OF q1 v(3) add]
  have le: "heap_le (hide ?B ?h) (hide ?C h2)" using heap_le_trans [OF hide_mono [OF v(2)] a(3)] .
  have "mem ?h a = Some (PairCell x xs')" "mem h2 a = Some (PairCell x xs')"
    using heap_leD [OF hide_le_self x(2)] heap_leD [OF hide_le_self heap_leD [OF le x(2)]] by blast+
  then have step: "loop (map_eval_step (evaluator g) env) (xs, (out, slot ps), n) m =
      loop (map_eval_step (evaluator g) env) (xs', (out2, slot ?ps), n + 1) ?m2"
    using x(1) v(1) first_class_val [OF v(4)] add a(1)
    by (subst loop_unfold) (simp add: map_eval_step_def bindm_reads bindm_value valid_value QUEUE_ADD_def bindm_changes)
  have "queue_inv h0 (m_heap ?m2) out2 ?ps" "in_sight g k G ?C (m_heap ?m2)" "rep_exps g k (hide ?C (m_heap ?m2)) xs' (es @ es')"
      "rep_env g k (hide ?C (m_heap ?m2)) env \<rho>"
    using a(2,4) rep_exp_le(2) [OF x(4) le] rep_val_le(2) [OF Cons.prems(4) le] by simp_all
  from Cons.IH [OF this, of "n + 1"] obtain rest out' ps' h' where r:
    "loop (map_eval_step (evaluator g) env) (xs', (out2, slot ?ps), n + 1) ?m2 =
      loop (map_eval_step (evaluator g) env) (rest, (out', slot (?ps @ ps')), n + 1 + int (length vs)) (?m2\<lparr>m_heap := h'\<rparr>)"
    "queue_inv h0 h' out' (?ps @ ps')" "in_sight g k G (A \<union> cells_of (?ps @ ps')) h'"
    "heap_le (hide ?C (m_heap ?m2)) (hide (A \<union> cells_of (?ps @ ps')) h')"
    "list_all2 (rep_val g k (hide (A \<union> cells_of (?ps @ ps')) h')) (List.map snd ps') vs"
    "rep_exps g k (hide (A \<union> cells_of (?ps @ ps')) h') rest es'"
    by blast
  have "rep_val g k (hide ?C h2) v' v" using rep_val_le(1) [OF v(4) a(3)] .
  then have "rep_val g k (hide (A \<union> cells_of (?ps @ ps')) h') v' v" using rep_val_le(1) r(4) by simp
  then show ?case
    using step r heap_le_trans [OF le, of "hide (A \<union> cells_of (?ps @ ps')) h'"]
    by (intro exI [of _ rest] exI [of _ out'] exI [of _ "(brk h1, v') # ps'"] exI [of _ h']) (simp add: add.assoc)
qed

text \<open>The list of the values of the operands.\<close>

lemma map_eval_values:
  assumes "list_all2 (evaluates g k G \<rho>) es vs" "in_sight g k G A (m_heap m)" "rep_exps g k (hide A (m_heap m)) xs es"
    "rep_env g k (hide A (m_heap m)) env \<rho>"
  obtains lst vals h' where "map_eval (evaluator g) xs env m = Some (Value (lst, int (length vs)), m\<lparr>m_heap := h'\<rparr>)"
    "heap_le (m_heap m) h'" "in_sight g k G A h'" "chain (hide A h') lst vals SCM_NULL"
    "list_all2 (rep_val g k (hide A h')) vals vs"
proof (cases es)
  case Nil
  then have "xs = SCM_NULL" "vs = []" using assms(1,3) by (auto elim: rep_exps.cases)
  then show ?thesis using that [of SCM_NULL "m_heap m" "[]"] assms(2) by (simp add: map_eval_def ret_def)
next
  case (Cons e es')
  then have xs: "xs \<noteq> SCM_NULL" using assms(3) by (auto elim: rep_exps.cases)
  have q: "queue_inv (m_heap m) (m_heap m) SCM_NULL []" using assms(2) by (simp add: queue_inv_def in_sight_def)
  obtain rest out' ps' h' where p: "loop (map_eval_step (evaluator g) env) (xs, (SCM_NULL, slot []), 0) m =
      loop (map_eval_step (evaluator g) env) (rest, (out', slot ([] @ ps')), 0 + int (length vs)) (m\<lparr>m_heap := h'\<rparr>)"
    "queue_inv (m_heap m) h' out' ([] @ ps')" "in_sight g k G (A \<union> cells_of ([] @ ps')) h'"
    "list_all2 (rep_val g k (hide (A \<union> cells_of ([] @ ps')) h')) (List.map snd ps') vs"
    "rep_exps g k (hide (A \<union> cells_of ([] @ ps')) h') rest []"
    using map_eval_loop [OF assms(1) q, of A xs "[]" env 0] assms(2-4) by auto
  have "rest = SCM_NULL" using p(5) by (auto elim: rep_exps.cases)
  then have "loop (map_eval_step (evaluator g) env) (rest, (out', slot ([] @ ps')), 0 + int (length vs)) (m\<lparr>m_heap := h'\<rparr>) =
      Some (Value (SCM_NULL, (out', slot ([] @ ps')), 0 + int (length vs)), m\<lparr>m_heap := h'\<rparr>)"
    by (subst loop_unfold) (simp add: map_eval_step_def, simp add: ret_def)
  note r = p(1) [unfolded this] p(2-4)
  have le: "heap_le (m_heap m) h'" "brk_ok h'" using r(2) by (auto simp: queue_inv_def)
  have ch: "chain (hide A h') out' (List.map snd ps') SCM_NULL"
    using queue_chain [OF r(2)] assms(2) by (simp add: in_sight_def)
  have vals: "list_all2 (rep_val g k (hide A h')) (List.map snd ps') vs"
    by (rule list_all2_rep_le [OF r(4)]) (simp add: hide_le)
  have "map_eval (evaluator g) xs env m = Some (Value (out', int (length vs)), m\<lparr>m_heap := h'\<rparr>)"
    using xs r(1) by (simp add: map_eval_def QUEUE_POINT_TO_def slot_def bindm_value ret_def)
  then show ?thesis by (rule that [OF _ le(1) in_sight_le [OF assms(2) le] ch vals])
qed

section \<open>Procedures\<close>

lemma rep_frame_zip:
  assumes "formals_rep g k h f ps" "chain h a vals SCM_NULL" "list_all2 (rep_val g k h) vals vs" "length vs = length ps"
  shows "rep_frame g k h f a (zip ps vs)"
  using assms
proof (induction ps arbitrary: f a vals vs)
  case Nil
  then show ?case by (simp add: formals_rep_def rep_val_rep_env_rep_frame.rf_nil)
next
  case (Cons p ps)
  obtain v vs' where vs: "vs = v # vs'" using Cons.prems(4) by (cases vs) auto
  obtain x vals' where vals: "vals = x # vals'" using Cons.prems(3) vs by (cases vals) auto
  obtain b f' where f: "f = Ptr PTAG_CONS b" "mem h b = Some (PairCell p f')" "chain h f' ps SCM_NULL"
    using Cons.prems(1) chain_consE unfolding formals_rep_def by metis
  obtain c a' where a: "a = Ptr PTAG_CONS c" "mem h c = Some (PairCell x a')" "chain h a' vals' SCM_NULL"
    using Cons.prems(2) chain_consE unfolding vals by metis
  have v: "variable g k h p" "formals_rep g k h f' ps" using Cons.prems(1) f(3) by (auto simp: formals_rep_def)
  have "rep_frame g k h f' a' (zip ps vs')" using Cons.IH [OF v(2) a(3)] Cons.prems(3,4) vs vals by simp
  then show ?case
    unfolding f(1) a(1) vs zip_Cons_Cons using Cons.prems(3) vs vals
    by (intro rep_val_rep_env_rep_frame.rf_cons [OF f(2) a(2) v(1)]) simp_all
qed

lemma extend_rep:
  assumes "in_sight g k G A h" "rep_frame g k (hide A h) f a bs" "rep_env g k (hide A h) env \<rho>"
  obtains env' h' where "scm_extend_environment h f a env = (env', h')" "CONSP env'" "heap_le h h'" "in_sight g k G A h'"
    "rep_env g k (hide A h') env' (bs # \<rho>)"
proof -
  define h1 where "h1 = h\<lparr>mem := (mem h)(brk h \<mapsto> PairCell f a), brk := Suc (brk h)\<rparr>"
  define h2 where "h2 = h1\<lparr>mem := (mem h1)(brk h1 \<mapsto> PairCell (Ptr PTAG_CONS (brk h)) env), brk := Suc (brk h1)\<rparr>"
  have run: "scm_extend_environment h f a env = (Ptr PTAG_CONS (brk h1), h2)"
    by (simp add: scm_extend_environment_def make_cons_simps h1_def [symmetric] h2_def)
  have ok: "brk_ok h" "A \<subseteq> {..<brk h}" using assms(1) by (auto simp: in_sight_def)
  have le: "heap_le h h2" "brk_ok h2" using ok(1) by (auto simp: heap_le_def brk_ok_def h1_def h2_def)
  have cells: "mem (hide A h2) (brk h1) = Some (PairCell (Ptr PTAG_CONS (brk h)) env)"
      "mem (hide A h2) (brk h) = Some (PairCell f a)"
    using ok(2) by (auto simp: h1_def h2_def)
  note up = hide_mono [OF le(1), of A]
  have "rep_env g k (hide A h2) (Ptr PTAG_CONS (brk h1)) (bs # \<rho>)"
    by (rule rep_val_rep_env_rep_frame.re_cons [OF cells rep_val_le(3) [OF assms(2) up] rep_val_le(2) [OF assms(3) up]])
  then show ?thesis using that [OF run _ le(1) in_sight_le [OF assms(1) le]] by simp
qed

lemma chain_kind:
  assumes "chain h f ps SCM_NULL"
  shows "(CONSP f \<longleftrightarrow> ps \<noteq> []) \<and> (f = SCM_NULL \<longleftrightarrow> ps = [])"
proof (cases ps)
  case (Cons p ps')
  then obtain a where "f = Ptr PTAG_CONS a" using assms by (blast elim: chain_consE)
  then show ?thesis using Cons by simp
qed (use assms in simp)

lemma closure_frame_eq:
  assumes "formals_rep g k h f ps" "heap_le h (m_heap m)" "ps = [] \<Longrightarrow> lst = SCM_NULL"
  shows "closure_frame f lst (int (length ps)) m = Some (Value (f, lst), m)"
proof -
  have f: "chain (m_heap m) f ps SCM_NULL" using formals_rep_le [OF assms(1,2)] by (simp add: formals_rep_def)
  have "\<not> IDENTIFIERP (m_heap m) f" using rep_formals_obj [OF assms(1)] identifier_not_pair by blast
  moreover have "scm_finite_length (m_heap m) f = Some (int (length ps))"
    using finite_length_loop_chain [OF f, of 0] by (simp add: scm_finite_length_def)
  moreover have "CONSP f \<longleftrightarrow> ps \<noteq> []" "f = SCM_NULL \<longleftrightarrow> ps = []"
    using chain_kind [OF f] by blast+
  moreover have "scm_valid_environment_extension_lengthp (int (length ps)) (int (length ps))"
    by (simp add: scm_valid_environment_extension_lengthp_def listlen_defs)
  ultimately show ?thesis
    using assms(3) by (cases "ps = []") (simp_all add: closure_frame_def bindm_reads bindm_tries ret_def)
qed

lemma call_closure_step:
  assumes "in_sight g k G A (m_heap m)" "rep_val g k (hide A (m_heap m)) proc (VClos ps b \<rho>')"
    "list_all2 (evaluates g k G \<rho>) es vs" "length vs = length ps" "rep_exps g k (hide A (m_heap m)) xs es"
    "rep_env g k (hide A (m_heap m)) (es_env st) \<rho>"
  obtains x env' h' where "loop (call_step g (evaluator g) st) (proc, xs, True) m =
      Some (Value (x, st\<lparr>es_env := env', ret_type := True\<rparr>), m\<lparr>m_heap := h'\<rparr>)" "heap_le (m_heap m) h'"
    "in_sight g k G A h'" "rep_exp g k (hide A h') x b" "rep_env g k (hide A h') env' (zip ps vs # \<rho>')"
proof -
  let ?h = "m_heap m"
  obtain a e env f body x where c: "proc = Ptr PTAG_CLOSURE a" "mem (hide A ?h) a = Some (PairCell (Ptr PTAG_CONS e) env)"
      "mem (hide A ?h) e = Some (PairCell f body)" "formals_rep g k (hide A ?h) f ps" "chain (hide A ?h) body [x] SCM_NULL"
      "rep_exp g k (hide A ?h) x b" "rep_env g k (hide A ?h) env \<rho>'"
    by (rule rep_clos_cases [OF assms(2)]) (rule that)
  obtain lst vals h1 where l: "map_eval (evaluator g) xs (es_env st) m = Some (Value (lst, int (length vs)), m\<lparr>m_heap := h1\<rparr>)"
    "heap_le ?h h1" "in_sight g k G A h1" "chain (hide A h1) lst vals SCM_NULL" "list_all2 (rep_val g k (hide A h1)) vals vs"
    by (rule map_eval_values [OF assms(3,1,5,6)])
  note up = hide_mono [OF l(2), of A]
  have fr: "rep_frame g k (hide A h1) f lst (zip ps vs)"
    by (rule rep_frame_zip [OF formals_rep_le [OF c(4) up] l(4,5) assms(4)])
  obtain env' h2 where x: "scm_extend_environment h1 f lst env = (env', h2)" "CONSP env'" "heap_le h1 h2" "in_sight g k G A h2"
    "rep_env g k (hide A h2) env' (zip ps vs # \<rho>')"
    by (rule extend_rep [OF l(3) fr rep_val_le(2) [OF c(7) up]])
  have le: "heap_le ?h h2" using heap_le_trans [OF l(2) x(3)] .
  note up2 = hide_mono [OF le, of A]
  have "ps = [] \<Longrightarrow> lst = SCM_NULL" using l(4,5) assms(4) by auto
  then have frame: "closure_frame f lst (int (length vs)) (m\<lparr>m_heap := h1\<rparr>) = Some (Value (f, lst), m\<lparr>m_heap := h1\<rparr>)"
    using closure_frame_eq [OF c(4), of "m\<lparr>m_heap := h1\<rparr>" lst] heap_le_trans [OF hide_le_self l(2)] assms(4) by simp
  have body: "scm_s_body g (evaluator g) body (st\<lparr>es_env := env', ret_type := True\<rparr>) (m\<lparr>m_heap := h2\<rparr>) =
      Some (Value (x, st\<lparr>es_env := env', ret_type := True\<rparr>), m\<lparr>m_heap := h2\<rparr>)"
    using chain_le [OF c(5) up2] rep_exp_le(1) [OF c(6) up2] x(2,4) by (intro body_step [of A _ _ x g k b G]) simp_all
  have "loop (call_step g (evaluator g) st) (proc, xs, True) m =
      Some (Value (x, st\<lparr>es_env := env', ret_type := True\<rparr>), m\<lparr>m_heap := h2\<rparr>)"
    unfolding c(1) call_clos call_closure_def
    using heap_leD [OF hide_le_self c(2)] heap_leD [OF hide_le_self c(3)] l(1) frame x(1) body
    by (simp add: bindm_reads bindm_value bindm_changes)
  then show ?thesis by (rule that [OF _ le x(4) rep_exp_le(1) [OF c(6) up2] x(5)])
qed

lemma closure_entered:
  assumes "evaluates g k G \<rho> f (VClos ps b \<rho>')" "list_all2 (evaluates g k G \<rho>) es vs" "length vs = length ps"
    "in_sight g k G A (m_heap m)" "rep_exp g k (hide A (m_heap m)) x (App f es)" "rep_env g k (hide A (m_heap m)) env \<rho>"
  obtains y env' n' h' where "eval_loop (evaluator g) x (start env n) m = eval_loop (evaluator g) y (start env' n') (m\<lparr>m_heap := h'\<rparr>)"
    "heap_le (m_heap m) h'" "in_sight g k G A h'" "rep_exp g k (hide A h') y b" "rep_env g k (hide A h') env' (zip ps vs # \<rho>')"
proof -
  let ?h = "m_heap m" and ?g = "hide A (m_heap m)"
  obtain a xf xs where x: "x = Ptr PTAG_CONS a" "mem ?g a = Some (PairCell xf xs)" "rep_exp g k ?g xf f" "rep_exps g k ?g xs es"
    by (rule rep_app_cases [OF assms(5)]) (rule that)
  obtain proc h1 where p: "EVAL (evaluator g) xf env m = Some (Value proc, m\<lparr>m_heap := h1\<rparr>)" "heap_le ?h h1" "in_sight g k G A h1"
      "rep_val g k (hide A h1) proc (VClos ps b \<rho>')"
    by (rule evaluates_EVAL [OF assms(1,4) x(3) assms(6)])
  note up = hide_mono [OF p(2), of A]
  obtain y env' h2 where c: "loop (call_step g (evaluator g) (start env n)) (proc, xs, True) (m\<lparr>m_heap := h1\<rparr>) =
      Some (Value (y, start env' n), m\<lparr>m_heap := h2\<rparr>)" "heap_le h1 h2" "in_sight g k G A h2" "rep_exp g k (hide A h2) y b"
      "rep_env g k (hide A h2) env' (zip ps vs # \<rho>')"
    using call_closure_step [of g k G A "m\<lparr>m_heap := h1\<rparr>" proc ps b \<rho>' \<rho> es vs xs "start env n"] p(3,4) assms(2,3)
      rep_exp_le(2) [OF x(4) up] rep_val_le(2) [OF assms(6) up] by auto
  have "call (evaluator g) xf xs (start env n) True m = Some (Value (y, start env' n), m\<lparr>m_heap := h2\<rparr>)"
    using call_evaluated [of g xf "start env n" m proc _ xs] p(1) c(1) by simp
  then obtain n' where step: "eval_loop (evaluator g) x (start env n) m = eval_loop (evaluator g) y (start env' n') (m\<lparr>m_heap := h2\<rparr>)"
    unfolding x(1) eval_pair [OF heap_leD [OF hide_le_self x(2)]] by (auto simp: bindm_value)
  then show ?thesis by (rule that [OF _ heap_le_trans [OF p(2) c(2)] c(3-5)])
qed

lemma evaluates_closure:
  assumes "evaluates g k G \<rho> f (VClos ps b \<rho>')" "list_all2 (evaluates g k G \<rho>) es vs" "length vs = length ps"
    "evaluates g k G (zip ps vs # \<rho>') b v"
  shows "evaluates g k G \<rho> (App f es) v"
proof (rule evaluatesI)
  fix A and m :: mach and x env n
  assume s: "in_sight g k G A (m_heap m)" and r: "rep_exp g k (hide A (m_heap m)) x (App f es)"
    and env: "rep_env g k (hide A (m_heap m)) env \<rho>"
  obtain y env' n' h' where y: "eval_loop (evaluator g) x (start env n) m = eval_loop (evaluator g) y (start env' n') (m\<lparr>m_heap := h'\<rparr>)"
    "heap_le (m_heap m) h'" "in_sight g k G A h'" "rep_exp g k (hide A h') y b" "rep_env g k (hide A h') env' (zip ps vs # \<rho>')"
    by (rule closure_entered [OF assms(1-3) s r env])
  have "returns g k A y (start env' n') (m\<lparr>m_heap := h'\<rparr>) v" using y(3-5) by (intro evaluatesD [OF assms(4)]) simp_all
  then show "returns g k A x (start env n) m v" using returns_step [OF y(1,2)] by blast
qed

section \<open>Operators and procedures on pairs\<close>

lemma rep_exps_null: "rep_exps g k h xs es \<Longrightarrow> (CONSP xs \<longleftrightarrow> es \<noteq> []) \<and> (xs = SCM_NULL \<longleftrightarrow> es = [])"
  by (auto elim: rep_exps.cases)

lemma rep_atom: "rep_val g k h x (VAtom y) \<longleftrightarrow> x = y \<and> atomic y"
  by (auto elim: rep_val.cases intro: rep_val_rep_env_rep_frame.rv_atom)

lemma reduce_loop_values:
  assumes "list_all2 (evaluates g k G \<rho>) es (List.map VAtom ys)" "es \<noteq> []" "reduce_values_loop func left ys = Inr x"
    "in_sight g k G A (m_heap m)" "rep_exps g k (hide A (m_heap m)) xs es" "rep_env g k (hide A (m_heap m)) env \<rho>"
  shows "\<exists>h'. loop (reduce_step (evaluator g) func env True) (left, xs) m = Some (Value x, m\<lparr>m_heap := h'\<rparr>) \<and>
    heap_le (m_heap m) h' \<and> in_sight g k G A h'"
  using assms
proof (induction es arbitrary: m xs left ys)
  case (Cons e es)
  let ?h = "m_heap m"
  obtain y ys' where ys: "ys = y # ys'" using Cons.prems(1) by (cases ys) auto
  have ev: "evaluates g k G \<rho> e (VAtom y)" "list_all2 (evaluates g k G \<rho>) es (List.map VAtom ys')" using Cons.prems(1) ys by auto
  obtain a z xs' where z: "xs = Ptr PTAG_CONS a" "mem (hide A ?h) a = Some (PairCell z xs')"
      "rep_exp g k (hide A ?h) z e" "rep_exps g k (hide A ?h) xs' es"
    by (rule rep_exps_cases [OF Cons.prems(5)])
  obtain v' h1 where v: "EVAL (evaluator g) z env m = Some (Value v', m\<lparr>m_heap := h1\<rparr>)" "heap_le ?h h1" "in_sight g k G A h1"
      "rep_val g k (hide A h1) v' (VAtom y)"
    by (rule evaluates_EVAL [OF ev(1) Cons.prems(4) z(3) Cons.prems(6)])
  have v': "v' = y" using v(4) by (simp add: rep_atom)
  note m = heap_leD [OF hide_le_self z(2)] and ends = rep_exps_null [OF z(4)]
  show ?case
  proof (cases ys')
    case Nil
    then have es: "es = []" using ev(2) by simp
    then have xs': "xs' = SCM_NULL" using ends by blast
    obtain state where f: "func left y SCM_REDUCE_LAST = Inr (x, state)" using Cons.prems(3) ys Nil by (cases "func left y SCM_REDUCE_LAST") auto
    have "loop (reduce_step (evaluator g) func env True) (left, xs) m = Some (Value x, m\<lparr>m_heap := h1\<rparr>)"
      using v(1) v' f z(1) m xs'
      by (subst loop_unfold) (simp add: reduce_step_def bindm_reads eval_arg_def bindm_value bindm_checks, simp add: ret_def)
    then show ?thesis using v(2,3) by blast
  next
    case (Cons y2 ys2)
    then have es: "es \<noteq> []" using ev(2) by auto
    then have xs': "CONSP xs'" using ends by blast
    obtain l state where f: "func left y SCM_REDUCE_PARTWAY = Inr (l, state)"
        and r: "(if state = SCM_REDUCE_STOP then Inr l else reduce_values_loop func l ys') = Inr x"
      using Cons.prems(3) ys Cons by (cases "func left y SCM_REDUCE_PARTWAY") auto
    show ?thesis
    proof (cases "state = SCM_REDUCE_STOP")
      case True
      then have "loop (reduce_step (evaluator g) func env True) (left, xs) m = Some (Value x, m\<lparr>m_heap := h1\<rparr>)"
        using v(1) v' f r z(1) m xs'
        by (subst loop_unfold) (simp add: reduce_step_def bindm_reads eval_arg_def bindm_value bindm_checks, simp add: ret_def)
      then show ?thesis using v(2,3) by blast
    next
      case False
      have step: "loop (reduce_step (evaluator g) func env True) (left, xs) m =
          loop (reduce_step (evaluator g) func env True) (l, xs') (m\<lparr>m_heap := h1\<rparr>)"
        using False v(1) v' f z(1) m xs'
        by (subst loop_unfold) (simp add: reduce_step_def bindm_reads eval_arg_def bindm_value bindm_checks)
      note up = hide_mono [OF v(2), of A]
      have "\<exists>h'. loop (reduce_step (evaluator g) func env True) (l, xs') (m\<lparr>m_heap := h1\<rparr>) =
          Some (Value x, (m\<lparr>m_heap := h1\<rparr>)\<lparr>m_heap := h'\<rparr>) \<and> heap_le (m_heap (m\<lparr>m_heap := h1\<rparr>)) h' \<and> in_sight g k G A h'"
        by (rule Cons.IH [OF ev(2) es]) (use False r v(3) rep_exp_le(2) [OF z(4) up] rep_val_le(2) [OF Cons.prems(6) up] in simp_all)
      then show ?thesis using step heap_le_trans [OF v(2)] by auto
    qed
  qed
qed simp

lemma reduce_args_values:
  assumes "list_all2 (evaluates g k G \<rho>) es (List.map VAtom ys)" "reduce_values func ys = Inr x"
    "in_sight g k G A (m_heap m)" "rep_exps g k (hide A (m_heap m)) xs es" "rep_env g k (hide A (m_heap m)) env \<rho>"
  obtains h' where "reduce_args (evaluator g) func xs env True m = Some (Value x, m\<lparr>m_heap := h'\<rparr>)"
    "heap_le (m_heap m) h'" "in_sight g k G A h'"
proof (cases es)
  case Nil
  then have "xs = SCM_NULL" "ys = []" using rep_exps_null [OF assms(4)] assms(1) by auto
  then obtain state where "func SCM_INVALID SCM_INVALID SCM_REDUCE_0 = Inr (x, state)"
    using assms(2) by (cases "func SCM_INVALID SCM_INVALID SCM_REDUCE_0") auto
  then have "reduce_args (evaluator g) func xs env True m = Some (Value x, m\<lparr>m_heap := m_heap m\<rparr>)"
    using \<open>xs = SCM_NULL\<close> by (simp add: reduce_args_def bindm_checks NO_MORE_ARG_def, simp add: ret_def)
  then show ?thesis using that assms(3) by blast
next
  case (Cons e es')
  let ?h = "m_heap m"
  obtain y ys' where ys: "ys = y # ys'" using assms(1) Cons by (cases ys) auto
  have ev: "evaluates g k G \<rho> e (VAtom y)" "list_all2 (evaluates g k G \<rho>) es' (List.map VAtom ys')" using assms(1) ys Cons by auto
  obtain a z xs' where z: "xs = Ptr PTAG_CONS a" "mem (hide A ?h) a = Some (PairCell z xs')"
      "rep_exp g k (hide A ?h) z e" "rep_exps g k (hide A ?h) xs' es'"
    by (rule rep_exps_cases [OF assms(4) [unfolded Cons]])
  obtain v' h1 where v: "EVAL (evaluator g) z env m = Some (Value v', m\<lparr>m_heap := h1\<rparr>)" "heap_le ?h h1" "in_sight g k G A h1"
      "rep_val g k (hide A h1) v' (VAtom y)"
    by (rule evaluates_EVAL [OF ev(1) assms(3) z(3) assms(5)])
  have v': "v' = y" using v(4) by (simp add: rep_atom)
  note m = heap_leD [OF hide_le_self z(2)] and ends = rep_exps_null [OF z(4)]
  show ?thesis
  proof (cases ys')
    case Nil
    then have "xs' = SCM_NULL" using ev(2) ends by simp
    moreover obtain state where "func y y SCM_REDUCE_1 = Inr (x, state)"
      using assms(2) ys Nil by (cases "func y y SCM_REDUCE_1") auto
    ultimately have "reduce_args (evaluator g) func xs env True m = Some (Value x, m\<lparr>m_heap := h1\<rparr>)"
      using v(1) v' z(1) m
      by (simp add: reduce_args_def bindm_checks NO_MORE_ARG_def bindm_reads eval_arg_def bindm_value, simp add: ret_def)
    then show ?thesis using that v(2,3) by blast
  next
    case (Cons y2 ys2)
    then have es: "es' \<noteq> []" using ev(2) by auto
    then have "CONSP xs'" using ends by blast
    then have step: "reduce_args (evaluator g) func xs env True m =
        loop (reduce_step (evaluator g) func env True) (y, xs') (m\<lparr>m_heap := h1\<rparr>)"
      using v(1) v' z(1) m by (simp add: reduce_args_def bindm_checks NO_MORE_ARG_def bindm_reads eval_arg_def bindm_value)
    have red: "reduce_values_loop func y ys' = Inr x" using assms(2) ys Cons by simp
    note up = hide_mono [OF v(2), of A]
    obtain h' where "loop (reduce_step (evaluator g) func env True) (y, xs') (m\<lparr>m_heap := h1\<rparr>) =
        Some (Value x, m\<lparr>m_heap := h'\<rparr>)" "heap_le h1 h'" "in_sight g k G A h'"
      using reduce_loop_values [OF ev(2) es red, of A "m\<lparr>m_heap := h1\<rparr>" xs' env] v(3)
        rep_exp_le(2) [OF z(4) up] rep_val_le(2) [OF assms(5) up] by auto
    then show ?thesis using that step heap_le_trans [OF v(2)] by simp
  qed
qed

lemma evaluates_op:
  assumes "evaluates g k G \<rho> f (VOp func)" "list_all2 (evaluates g k G \<rho>) es (List.map VAtom ys)"
    "reduce_values func ys = Inr z" "atomic z"
  shows "evaluates g k G \<rho> (App f es) (VAtom z)"
proof (rule evaluatesI)
  fix A and m :: mach and x env n
  let ?h = "m_heap m" and ?g = "hide A (m_heap m)"
  assume s: "in_sight g k G A ?h" and r: "rep_exp g k ?g x (App f es)" and env: "rep_env g k ?g env \<rho>"
  obtain a xf xs where x: "x = Ptr PTAG_CONS a" "mem ?g a = Some (PairCell xf xs)" "rep_exp g k ?g xf f" "rep_exps g k ?g xs es"
    by (rule rep_app_cases [OF r]) (rule that)
  obtain proc h1 where p: "EVAL (evaluator g) xf env m = Some (Value proc, m\<lparr>m_heap := h1\<rparr>)" "heap_le ?h h1" "in_sight g k G A h1"
      "rep_val g k (hide A h1) proc (VOp func)"
    by (rule evaluates_EVAL [OF assms(1) s x(3) env])
  obtain b q where f: "proc = Ptr PTAG_MISC b" "mem (hide A h1) b = Some (FuncCell SCM_REDUCTION_OPERATOR q)" "cfuncs g q = F_reduction func"
    by (rule rep_op_cases [OF p(4)]) (rule that)
  note up = hide_mono [OF p(2), of A]
  obtain h2 where c: "reduce_args (evaluator g) func xs env True (m\<lparr>m_heap := h1\<rparr>) = Some (Value z, m\<lparr>m_heap := h2\<rparr>)"
      "heap_le h1 h2" "in_sight g k G A h2"
    using reduce_args_values [OF assms(2,3), of A "m\<lparr>m_heap := h1\<rparr>" xs env] p(3)
      rep_exp_le(2) [OF x(4) up] rep_val_le(2) [OF env up] by auto
  have "mem h1 b = Some (FuncCell SCM_REDUCTION_OPERATOR q)" using heap_leD [OF hide_le_self f(2)] .
  then have "call (evaluator g) xf xs (start env n) True m = Some (Value (z, start env n), m\<lparr>m_heap := h2\<rparr>)"
    using call_evaluated [of g xf "start env n" m proc _ xs] p(1) c(1) f
      call_func [of "m\<lparr>m_heap := h1\<rparr>" b SCM_REDUCTION_OPERATOR q g "evaluator g" "start env n" xs True]
    by (simp add: call_cfunc_def bindm_value ret_def)
  then have "eval_loop (evaluator g) x (start env n) m = Some (Value z, m\<lparr>m_heap := h2\<rparr>)"
    unfolding x(1) eval_pair [OF heap_leD [OF hide_le_self x(2)]] by (simp add: bindm_value eval_atomic [OF assms(4)])
  then show "returns g k A x (start env n) m (VAtom z)"
    using heap_le_trans [OF p(2) c(2)] c(3) assms(4) by (intro returnsI) (auto simp: rep_atom in_sight_def)
qed

lemma mandatory_values:
  assumes "list_all2 (evaluates g k G \<rho>) es vs" "in_sight g k G A (m_heap m)" "rep_exps g k (hide A (m_heap m)) xs (es @ es')"
    "rep_env g k (hide A (m_heap m)) env \<rho>"
  shows "\<exists>rest vals h'. loop (mandatory_step (evaluator g) True env) (length vs + n, xs, buf) m =
      loop (mandatory_step (evaluator g) True env) (n, rest, buf @ vals) (m\<lparr>m_heap := h'\<rparr>) \<and>
    heap_le (m_heap m) h' \<and> in_sight g k G A h' \<and> list_all2 (rep_val g k (hide A h')) vals vs \<and> rep_exps g k (hide A h') rest es'"
  using assms
proof (induction es vs arbitrary: m xs buf rule: list_all2_induct)
  case Nil
  then show ?case by (intro exI [of _ xs] exI [of _ "[]"] exI [of _ "m_heap m"]) simp
next
  case (Cons e es v vs)
  let ?h = "m_heap m"
  have "rep_exps g k (hide A ?h) xs (e # es @ es')" using Cons.prems(2) by simp
  then obtain a z xs' where z: "xs = Ptr PTAG_CONS a" "mem (hide A ?h) a = Some (PairCell z xs')"
      "rep_exp g k (hide A ?h) z e" "rep_exps g k (hide A ?h) xs' (es @ es')"
    by (rule rep_exps_cases)
  obtain v' h1 where v: "EVAL (evaluator g) z env m = Some (Value v', m\<lparr>m_heap := h1\<rparr>)" "heap_le ?h h1" "in_sight g k G A h1"
      "rep_val g k (hide A h1) v' v"
    by (rule evaluates_EVAL [OF Cons.hyps(1) Cons.prems(1) z(3) Cons.prems(3)])
  note m = heap_leD [OF hide_le_self z(2)] and up = hide_mono [OF v(2), of A]
  have step: "loop (mandatory_step (evaluator g) True env) (length (v # vs) + n, xs, buf) m =
      loop (mandatory_step (evaluator g) True env) (length vs + n, xs', buf @ [v']) (m\<lparr>m_heap := h1\<rparr>)"
    using z(1) m v(1) first_class_val [OF v(4)]
    by (subst loop_unfold) (simp add: mandatory_step_def bindm_checks MUST_POP_ARG_def eval_arg_def bindm_value valid_value)
  obtain rest vals h2 where r: "loop (mandatory_step (evaluator g) True env) (length vs + n, xs', buf @ [v']) (m\<lparr>m_heap := h1\<rparr>) =
      loop (mandatory_step (evaluator g) True env) (n, rest, (buf @ [v']) @ vals) (m\<lparr>m_heap := h2\<rparr>)" "heap_le h1 h2" "in_sight g k G A h2"
      "list_all2 (rep_val g k (hide A h2)) vals vs" "rep_exps g k (hide A h2) rest es'"
    using Cons.IH [of "m\<lparr>m_heap := h1\<rparr>" xs' "buf @ [v']"] v(3) rep_exp_le(2) [OF z(4) up] rep_val_le(2) [OF Cons.prems(3) up]
    by auto
  have "list_all2 (rep_val g k (hide A h2)) (v' # vals) (v # vs)"
    using r(4) rep_val_le(1) [OF v(4) hide_mono [OF r(2)]] by simp
  then show ?case using step r heap_le_trans [OF v(2) r(2)] by (intro exI [of _ rest] exI [of _ "v' # vals"] exI [of _ h2]) simp
qed

lemma mandatory_all:
  assumes "list_all2 (evaluates g k G \<rho>) es vs" "in_sight g k G A (m_heap m)" "rep_exps g k (hide A (m_heap m)) xs es"
    "rep_env g k (hide A (m_heap m)) env \<rho>"
  obtains vals h' where "loop (mandatory_step (evaluator g) True env) (length vs, xs, []) m = Some (Value (SCM_NULL, vals), m\<lparr>m_heap := h'\<rparr>)"
    "heap_le (m_heap m) h'" "in_sight g k G A h'" "list_all2 (rep_val g k (hide A h')) vals vs"
proof -
  have xs: "rep_exps g k (hide A (m_heap m)) xs (es @ [])" using assms(3) by simp
  obtain rest vals h' where p: "loop (mandatory_step (evaluator g) True env) (length vs + 0, xs, []) m =
      loop (mandatory_step (evaluator g) True env) (0, rest, [] @ vals) (m\<lparr>m_heap := h'\<rparr>)" "heap_le (m_heap m) h'"
      "in_sight g k G A h'" "list_all2 (rep_val g k (hide A h')) vals vs" "rep_exps g k (hide A h') rest []"
    using mandatory_values [OF assms(1,2) xs assms(4), of 0 "[]"] by blast
  have "rest = SCM_NULL" using rep_exps_null [OF p(5)] by simp
  then have "loop (mandatory_step (evaluator g) True env) (length vs, xs, []) m = Some (Value (SCM_NULL, vals), m\<lparr>m_heap := h'\<rparr>)"
    using p(1) by (simp, subst loop_unfold) (simp add: mandatory_step_def, simp add: ret_def)
  then show ?thesis by (rule that [OF _ p(2-4)])
qed

lemma prim_length: "prim_value p vs = Some v \<Longrightarrow> length vs = prim_arity p"
  by (induction p vs rule: prim_value.induct) simp_all

lemma rep_pair_val:
  assumes "rep_val g k (hide A h) x (VPair u v)"
  shows "CONSP x" "rep_val g k (hide A h) (CAR h x) u" "rep_val g k (hide A h) (CDR h x) v"
proof -
  obtain a y z where c: "x = Ptr PTAG_CONS a" "mem (hide A h) a = Some (PairCell y z)" "rep_val g k (hide A h) y u" "rep_val g k (hide A h) z v"
    by (rule rep_pair_cases [OF assms]) (rule that)
  have "mem h a = Some (PairCell y z)" using heap_leD [OF hide_le_self c(2)] .
  then show "CONSP x" "rep_val g k (hide A h) (CAR h x) u" "rep_val g k (hide A h) (CDR h x) v" using c by simp_all
qed

lemma rep_val_shape:
  assumes "rep_val g k h x u"
  shows "CONSP x \<longleftrightarrow> (\<exists>v w. u = VPair v w)" "x = SCM_NULL \<longleftrightarrow> u = VAtom SCM_NULL"
  using assms by (cases; auto simp: atomic_not CONSP_iff)+

lemma atomic_bool [simp]: "atomic (MAKE_BOOL b)"
  by (simp add: MAKE_BOOL_def)

lemma prim_value_step:
  assumes "prim_value p vs = Some v" "list_all2 (rep_val g k (hide A h)) vals vs" "in_sight g k G A h"
  obtains v' h' where "prim_fun p vals h = Some (Inr (v', h'))" "heap_le h h'" "brk_ok h'" "rep_val g k (hide A h') v' v"
proof -
  have ok: "brk_ok h" "A \<subseteq> {..<brk h}" using assms(3) by (auto simp: in_sight_def)
  have len: "length vs = prim_arity p" using prim_length [OF assms(1)] .
  show ?thesis
  proof (cases p)
    case P_cons
    then obtain u w where vs: "vs = [u, w]" using len by (auto simp: numeral_2_eq_2 length_Suc_conv)
    then obtain x y where vals: "vals = [x, y]" "rep_val g k (hide A h) x u" "rep_val g k (hide A h) y w"
      using assms(2) by (auto simp: list_all2_Cons2)
    define h1 where "h1 = h\<lparr>mem := (mem h)(brk h \<mapsto> PairCell x y), brk := Suc (brk h)\<rparr>"
    have le: "heap_le h h1" "brk_ok h1" using ok by (auto simp: heap_le_def brk_ok_def h1_def)
    have "mem (hide A h1) (brk h) = Some (PairCell x y)" using ok(2) by (auto simp: h1_def)
    then have "rep_val g k (hide A h1) (Ptr PTAG_CONS (brk h)) (VPair u w)"
      by (rule rep_val_rep_env_rep_frame.rv_pair [OF _ rep_val_le(1) [OF vals(2) hide_mono [OF le(1)]] rep_val_le(1) [OF vals(3) hide_mono [OF le(1)]]])
    then show ?thesis
      using P_cons vals(1) vs assms(1) le that [of "Ptr PTAG_CONS (brk h)" h1] by (simp add: scm_p_cons_def make_cons_simps h1_def)
  next
    case P_car
    then obtain u w where vs: "vs = [VPair u w]" "v = u" using assms(1) by (cases "(p, vs)" rule: prim_value.cases) auto
    then obtain x where vals: "vals = [x]" "rep_val g k (hide A h) x (VPair u w)" using assms(2) by (auto simp: list_all2_Cons2)
    note c = rep_pair_val [OF vals(2)]
    show ?thesis by (rule that [of "CAR h x" h]) (use P_car vals(1) vs(2) c ok in \<open>simp_all add: scm_p_car_def\<close>)
  next
    case P_cdr
    then obtain u w where vs: "vs = [VPair u w]" "v = w" using assms(1) by (cases "(p, vs)" rule: prim_value.cases) auto
    then obtain x where vals: "vals = [x]" "rep_val g k (hide A h) x (VPair u w)" using assms(2) by (auto simp: list_all2_Cons2)
    note c = rep_pair_val [OF vals(2)]
    show ?thesis by (rule that [of "CDR h x" h]) (use P_cdr vals(1) vs(2) c ok in \<open>simp_all add: scm_p_cdr_def\<close>)
  next
    case P_nullp
    then obtain u where vs: "vs = [u]" using len by (auto simp: length_Suc_conv)
    then obtain x where vals: "vals = [x]" "rep_val g k (hide A h) x u" using assms(2) by (auto simp: list_all2_Cons2)
    show ?thesis
      by (rule that [of "scm_p_nullp x" h])
        (use P_nullp vals vs assms(1) rep_val_shape(2) [OF vals(2)] ok in \<open>auto simp: scm_p_nullp_def rep_atom\<close>)
  next
    case P_pairp
    then obtain u where vs: "vs = [u]" using len by (auto simp: length_Suc_conv)
    then obtain x where vals: "vals = [x]" "rep_val g k (hide A h) x u" using assms(2) by (auto simp: list_all2_Cons2)
    show ?thesis
      by (rule that [of "scm_p_pairp x" h])
        (use P_pairp vals vs assms(1) rep_val_shape(1) [OF vals(2)] ok in \<open>auto simp: scm_p_pairp_def rep_atom\<close>)
  qed
qed

lemma evaluates_prim:
  assumes "evaluates g k G \<rho> f (VPrim p)" "list_all2 (evaluates g k G \<rho>) es vs" "prim_value p vs = Some v"
  shows "evaluates g k G \<rho> (App f es) v"
proof (rule evaluatesI)
  fix A and m :: mach and x env n
  let ?h = "m_heap m" and ?g = "hide A (m_heap m)"
  assume s: "in_sight g k G A ?h" and r: "rep_exp g k ?g x (App f es)" and env: "rep_env g k ?g env \<rho>"
  obtain a xf xs where x: "x = Ptr PTAG_CONS a" "mem ?g a = Some (PairCell xf xs)" "rep_exp g k ?g xf f" "rep_exps g k ?g xs es"
    by (rule rep_app_cases [OF r]) (rule that)
  obtain proc h1 where pr: "EVAL (evaluator g) xf env m = Some (Value proc, m\<lparr>m_heap := h1\<rparr>)" "heap_le ?h h1" "in_sight g k G A h1"
      "rep_val g k (hide A h1) proc (VPrim p)"
    by (rule evaluates_EVAL [OF assms(1) s x(3) env])
  obtain b q where f: "proc = Ptr PTAG_MISC b" "mem (hide A h1) b = Some (FuncCell (prim_arity p) q)"
      "cfuncs g q = F_primitive (prim_fun p)"
    by (rule rep_prim_cases [OF pr(4)]) (rule that)
  note up = hide_mono [OF pr(2), of A]
  have len: "length vs = prim_arity p" using prim_length [OF assms(3)] .
  obtain vals h2 where l: "loop (mandatory_step (evaluator g) True env) (prim_arity p, xs, []) (m\<lparr>m_heap := h1\<rparr>) =
      Some (Value (SCM_NULL, vals), m\<lparr>m_heap := h2\<rparr>)" "heap_le h1 h2" "in_sight g k G A h2"
      "list_all2 (rep_val g k (hide A h2)) vals vs"
    using mandatory_all [OF assms(2), of A "m\<lparr>m_heap := h1\<rparr>" xs env] pr(3)
      rep_exp_le(2) [OF x(4) up] rep_val_le(2) [OF env up] len by auto
  obtain v' h3 where v: "prim_fun p vals h2 = Some (Inr (v', h3))" "heap_le h2 h3" "brk_ok h3" "rep_val g k (hide A h3) v' v"
    by (rule prim_value_step [OF assms(3) l(4,3)])
  have "prim_arity p = 1 \<or> prim_arity p = 2" by (cases p) simp_all
  then have "call_cfunc g (evaluator g) proc (prim_arity p) (F_primitive (prim_fun p)) xs env (start env n) True (m\<lparr>m_heap := h1\<rparr>) =
      Some (Value (v', \<lparr>es_env = env, ret_type = False, nest = n\<rparr>), m\<lparr>m_heap := h3\<rparr>)"
    using l(1) v(1)
    by (elim disjE) (simp_all add: call_cfunc_def type_codes Let_def bindm_value invoke_def as_is_def bindm_does ret_def)
  moreover have "mem h1 b = Some (FuncCell (prim_arity p) q)" using heap_leD [OF hide_le_self f(2)] .
  ultimately have "call (evaluator g) xf xs (start env n) True m =
      Some (Value (v', \<lparr>es_env = env, ret_type = False, nest = n\<rparr>), m\<lparr>m_heap := h3\<rparr>)"
    using call_evaluated [of g xf "start env n" m proc _ xs] pr(1) f(1,3)
      call_func [of "m\<lparr>m_heap := h1\<rparr>" b "prim_arity p" q g "evaluator g" "start env n" xs True] by simp
  then have "eval_loop (evaluator g) x (start env n) m = Some (Value v', m\<lparr>m_heap := h3\<rparr>)"
    unfolding x(1) eval_pair [OF heap_leD [OF hide_le_self x(2)]] by (simp add: bindm_value ret_def)
  then show "returns g k A x (start env n) m v"
    using heap_le_trans [OF pr(2) heap_le_trans [OF l(2) v(2)]] v(3,4) by (intro returnsI)
qed

section \<open>Local bindings\<close>

lemma queue_add_other:
  assumes "queue_inv h0 h out ps" "queue_add h out (slot ps) x = (h2, out2, q2)" "queue_inv h0 h o' qs" "cells_of ps \<inter> cells_of qs = {}"
  shows "queue_inv h0 h2 o' qs" "cells_of (ps @ [(brk h, x)]) \<inter> cells_of qs = {}"
proof -
  have q: "lseg h o' qs SCM_NULL" "distinct (map fst qs)" "\<forall>a \<in> cells_of qs. brk h0 \<le> a \<and> a < brk h" using assms(3) by (auto simp: queue_inv_def)
  then have new: "brk h \<notin> cells_of qs" by blast
  then show "cells_of (ps @ [(brk h, x)]) \<inter> cells_of qs = {}" using assms(4) by auto
  have add: "queue_inv h0 h2 out2 (ps @ [(brk h, x)])" using queue_add_inv [OF assms(1,2)] by blast
  have "lseg h2 o' qs SCM_NULL = lseg h o' qs SCM_NULL"
  proof (rule lseg_cong, rule ballI)
    fix a assume "a \<in> cells_of qs"
    then have "a \<notin> cells_of ps" "a \<noteq> brk h" using assms(4) new by blast+
    then show "mem h2 a = mem h a" by (rule queue_add_frame [OF assms(1,2)])
  qed
  moreover have "brk h < brk h2" using add by (auto simp: queue_inv_def)
  ultimately show "queue_inv h0 h2 o' qs" using q add unfolding queue_inv_def by auto
qed

lemma check_unique_ok:
  assumes "lseg (m_heap m) out ps SCM_NULL" "s \<notin> snd ` set ps"
  shows "bindm (check_unique s out) q m = q () m"
proof -
  have "chain (m_heap m) out (List.map snd ps) SCM_NULL" using lseg_chain [OF assms(1)] .
  from member_loop_chain [OF this, of "(=)" s out]
  have mem: "member_loop (=) (m_heap m) s out out = Some (let n = length (takeWhile (\<lambda>v. \<not> s = v) (List.map snd ps)) in
      if n < length (List.map snd ps) then Inr ((CDR (m_heap m) ^^ n) out) else Inr SCM_FALSE)" by simp
  have "takeWhile (\<lambda>v. \<not> s = v) (List.map snd ps) = List.map snd ps"
    using assms(2) by (subst takeWhile_eq_all_conv) auto
  from mem [unfolded this] have "scm_p_memq (m_heap m) s out = Some (Inr SCM_FALSE)" by (simp add: scm_p_memq_def)
  then show ?thesis by (simp add: check_unique_def bindm_tries)
qed

lemma parse_binding_ok:
  assumes "chain h c [s, x] SCM_NULL" "heap_le h (m_heap m)" "variable g k h s"
  shows "bindm (parse_binding c) q m = q (s, x) m"
proof -
  have "IDENTIFIERP (m_heap m) s" using variable_identifier variable_le assms(2,3) by blast
  moreover obtain a y where a: "c = Ptr PTAG_CONS a" "mem h a = Some (PairCell s y)" "chain h y [x] SCM_NULL"
    by (rule chain_consE [OF assms(1)])
  moreover obtain b z where b: "y = Ptr PTAG_CONS b" "mem h b = Some (PairCell x z)" "chain h z [] SCM_NULL"
    by (rule chain_consE [OF a(3)])
  ultimately show ?thesis
    using heap_leD [OF assms(2) a(2)] heap_leD [OF assms(2) b(2)]
    by (simp add: parse_binding_def bindm_checks LIST_2_P_def LIST_1_P_def CADR_def)
qed

text \<open>The two queues of \<^verbatim>\<open>let\<close>: the variables and the values.\<close>

definition binding :: "interp \<Rightarrow> syntax_names \<Rightarrow> (obj \<Rightarrow> val option) \<Rightarrow> nat set \<Rightarrow> heap \<Rightarrow> heap \<Rightarrow> obj \<times> (nat \<times> obj) list \<Rightarrow>
    obj \<times> (nat \<times> obj) list \<Rightarrow> bool" where
  "binding g k G A h0 h vars vals \<longleftrightarrow> queue_inv h0 h (fst vars) (snd vars) \<and> queue_inv h0 h (fst vals) (snd vals) \<and>
     cells_of (snd vars) \<inter> cells_of (snd vals) = {} \<and> in_sight g k G (A \<union> cells_of (snd vars) \<union> cells_of (snd vals)) h"

lemma binding_le: "binding g k G A h0 h vars vals \<Longrightarrow> heap_le h h' \<Longrightarrow> brk_ok h' \<Longrightarrow> binding g k G A h0 h' vars vals"
  unfolding binding_def by (blast intro: queue_inv_le in_sight_le)

lemma binding_add:
  assumes "binding g k G A h0 h (o1, ps) (o2, qs)"
  obtains o1' o2' ps' qs' h' where "bindm (QUEUE_ADD (o1, slot ps) s) (\<lambda>varq. bindm (QUEUE_ADD (o2, slot qs) v) (\<lambda>valq. q varq valq)) (m\<lparr>m_heap := h\<rparr>) =
      q (o1', slot ps') (o2', slot qs') (m\<lparr>m_heap := h'\<rparr>)" "binding g k G A h0 h' (o1', ps') (o2', qs')"
    "heap_le (hide (A \<union> cells_of ps \<union> cells_of qs) h) (hide (A \<union> cells_of ps' \<union> cells_of qs') h')"
    "List.map snd ps' = List.map snd ps @ [s]" "List.map snd qs' = List.map snd qs @ [v]"
proof -
  have b: "queue_inv h0 h o1 ps" "queue_inv h0 h o2 qs" "cells_of ps \<inter> cells_of qs = {}" "in_sight g k G (A \<union> cells_of qs \<union> cells_of ps) h"
    using assms by (simp_all add: binding_def Un_ac)
  obtain h1 o1' q1 where a1: "queue_add h o1 (slot ps) s = (h1, o1', q1)" by (metis prod_cases3)
  let ?ps = "ps @ [(brk h, s)]"
  note s1 = queue_add_sight [OF b(1,4) a1] and t1 = queue_add_other [OF b(1) a1 b(2,3)]
  have e1: "A \<union> cells_of qs \<union> cells_of ?ps = A \<union> cells_of ?ps \<union> cells_of qs" by blast
  obtain h2 o2' q2 where a2: "queue_add h1 o2 (slot qs) v = (h2, o2', q2)" by (metis prod_cases3)
  let ?qs = "qs @ [(brk h1, v)]"
  note s2 = queue_add_sight [OF t1(1) s1(4) [unfolded e1] a2]
  have "cells_of qs \<inter> cells_of ?ps = {}" using t1(2) by blast
  note t2 = queue_add_other [OF t1(1) a2 s1(2) this]
  have run: "bindm (QUEUE_ADD (o1, slot ps) s) (\<lambda>varq. bindm (QUEUE_ADD (o2, slot qs) v) (\<lambda>valq. q varq valq)) (m\<lparr>m_heap := h\<rparr>) =
      q (o1', slot ?ps) (o2', slot ?qs) (m\<lparr>m_heap := h2\<rparr>)"
    using a1 a2 s1(1) s2(1) by (simp add: QUEUE_ADD_def bindm_changes)
  have e0: "A \<union> cells_of ps \<union> cells_of qs = A \<union> cells_of qs \<union> cells_of ps" by blast
  show ?thesis
  proof (rule that [OF run])
    have "cells_of ?ps \<inter> cells_of ?qs = {}" using t2(2) by blast
    then show "binding g k G A h0 h2 (o1', ?ps) (o2', ?qs)" using s2(2,4) t2(1) by (simp add: binding_def)
    show "heap_le (hide (A \<union> cells_of ps \<union> cells_of qs) h) (hide (A \<union> cells_of ?ps \<union> cells_of ?qs) h2)"
      unfolding e0 by (rule heap_le_trans [OF s1(3) [unfolded e1] s2(3)])
  qed simp_all
qed

abbreviation hidden :: "nat set \<Rightarrow> (nat \<times> obj) list \<Rightarrow> (nat \<times> obj) list \<Rightarrow> heap \<Rightarrow> heap" where
  "hidden A ps qs h \<equiv> hide (A \<union> cells_of ps \<union> cells_of qs) h"

lemma let_loop:
  assumes "list_all2 (\<lambda>b v. evaluates g k G \<rho> (snd b) v) bs vs" "binding g k G A h0 (m_heap m) (o1, ps) (o2, qs)"
    "rep_binds g k (hidden A ps qs (m_heap m)) bl (bs @ bs')" "rep_env g k (hidden A ps qs (m_heap m)) env \<rho>"
    "distinct (List.map snd ps @ List.map fst bs)"
  shows "\<exists>rest o1' o2' ps' qs' vals h'. loop (let_step (evaluator g) PermitFirstClass env) (bl, (o1, slot ps), (o2, slot qs)) m =
      loop (let_step (evaluator g) PermitFirstClass env) (rest, (o1', slot ps'), (o2', slot qs')) (m\<lparr>m_heap := h'\<rparr>) \<and> binding g k G A h0 h' (o1', ps') (o2', qs') \<and>
    List.map snd ps' = List.map snd ps @ List.map fst bs \<and> List.map snd qs' = List.map snd qs @ vals \<and>
    list_all2 (rep_val g k (hidden A ps' qs' h')) vals vs \<and> heap_le (hidden A ps qs (m_heap m)) (hidden A ps' qs' h') \<and>
    rep_binds g k (hidden A ps' qs' h') rest bs'"
  using assms
proof (induction bs vs arbitrary: m o1 ps o2 qs bl rule: list_all2_induct)
  case Nil
  then show ?case
    by (intro exI [of _ bl] exI [of _ o1] exI [of _ o2] exI [of _ ps] exI [of _ qs] exI [of _ "[]"] exI [of _ "m_heap m"]) simp
next
  case (Cons b bs v vs)
  let ?h = "m_heap m" and ?B = "A \<union> cells_of ps \<union> cells_of qs"
  have "rep_binds g k (hide ?B ?h) bl (b # bs @ bs')" using Cons.prems(2) by simp
  then obtain a c xs s x where c: "bl = Ptr PTAG_CONS a" "mem (hide ?B ?h) a = Some (PairCell c xs)" "chain (hide ?B ?h) c [s, x] SCM_NULL"
      "fst b = s" "variable g k (hide ?B ?h) s" "rep_exp g k (hide ?B ?h) x (snd b)" "rep_binds g k (hide ?B ?h) xs (bs @ bs')"
    by (rule rep_bcons_cases)
  have sight: "in_sight g k G ?B ?h" and seg: "lseg ?h o1 ps SCM_NULL" using Cons.prems(1) by (auto simp: binding_def queue_inv_def)
  obtain v' h1 where v: "EVAL (evaluator g) x env m = Some (Value v', m\<lparr>m_heap := h1\<rparr>)" "heap_le ?h h1" "in_sight g k G ?B h1"
      "rep_val g k (hide ?B h1) v' v"
    by (rule evaluates_EVAL [OF Cons.hyps(1) sight c(6) Cons.prems(3)])
  let ?next = "\<lambda>varq valq. loop (let_step (evaluator g) PermitFirstClass env) (xs, varq, valq)"
  have "binding g k G A h0 h1 (o1, ps) (o2, qs)"
    using binding_le [OF Cons.prems(1) v(2)] v(3) by (simp add: in_sight_def)
  then obtain o1' o2' ps' qs' h2 where ad:
    "bindm (QUEUE_ADD (o1, slot ps) s) (\<lambda>varq. bindm (QUEUE_ADD (o2, slot qs) v') (\<lambda>valq. ?next varq valq)) (m\<lparr>m_heap := h1\<rparr>) =
      ?next (o1', slot ps') (o2', slot qs') (m\<lparr>m_heap := h2\<rparr>)"
    "binding g k G A h0 h2 (o1', ps') (o2', qs')" "heap_le (hide ?B h1) (hidden A ps' qs' h2)"
    "List.map snd ps' = List.map snd ps @ [s]" "List.map snd qs' = List.map snd qs @ [v']"
    by (rule binding_add [of g k G A h0 h1 o1 ps o2 qs s v' ?next m])
  have new: "s \<notin> snd ` set ps" using Cons.prems(4) c(4) by auto
  note m = heap_leD [OF hide_le_self c(2)]
  have step: "loop (let_step (evaluator g) PermitFirstClass env) (bl, (o1, slot ps), (o2, slot qs)) m =
      ?next (o1', slot ps') (o2', slot qs') (m\<lparr>m_heap := h2\<rparr>)"
    using c(1) m v(1) ad(1) first_class_val [OF v(4)]
    by (subst loop_unfold) (simp add: let_step_def bindm_reads check_unique_ok [OF seg new] parse_binding_ok [OF c(3) hide_le_self c(5)] bindm_value
        CHECK_VALID_BINDEE_def valid_value)
  have le: "heap_le (hide ?B ?h) (hidden A ps' qs' h2)" using heap_le_trans [OF hide_mono [OF v(2)] ad(3)] .
  let ?loop = "loop (let_step (evaluator g) PermitFirstClass env)"
  have "\<exists>rest p1 p2 ps'' qs'' vals h'. ?next (o1', slot ps') (o2', slot qs') (m\<lparr>m_heap := h2\<rparr>) =
      ?loop (rest, (p1, slot ps''), (p2, slot qs'')) (m\<lparr>m_heap := h2\<rparr>\<lparr>m_heap := h'\<rparr>) \<and> binding g k G A h0 h' (p1, ps'') (p2, qs'') \<and>
    List.map snd ps'' = List.map snd ps' @ List.map fst bs \<and> List.map snd qs'' = List.map snd qs' @ vals \<and>
    list_all2 (rep_val g k (hidden A ps'' qs'' h')) vals vs \<and>
    heap_le (hidden A ps' qs' (m_heap (m\<lparr>m_heap := h2\<rparr>))) (hidden A ps'' qs'' h') \<and> rep_binds g k (hidden A ps'' qs'' h') rest bs'"
    by (rule Cons.IH) (use ad(2,4) rep_exp_le(3) [OF c(7) le] rep_val_le(2) [OF Cons.prems(3) le] Cons.prems(4) c(4) in simp_all)
  then obtain rest p1 p2 ps'' qs'' vals h' where r: "?next (o1', slot ps') (o2', slot qs') (m\<lparr>m_heap := h2\<rparr>) =
      ?loop (rest, (p1, slot ps''), (p2, slot qs'')) (m\<lparr>m_heap := h'\<rparr>)" "binding g k G A h0 h' (p1, ps'') (p2, qs'')"
    "List.map snd ps'' = List.map snd ps' @ List.map fst bs" "List.map snd qs'' = List.map snd qs' @ vals"
    "list_all2 (rep_val g k (hidden A ps'' qs'' h')) vals vs" "heap_le (hidden A ps' qs' h2) (hidden A ps'' qs'' h')"
    "rep_binds g k (hidden A ps'' qs'' h') rest bs'"
    by auto
  have "rep_val g k (hidden A ps'' qs'' h') v' v" using rep_val_le(1) [OF v(4) heap_le_trans [OF ad(3) r(6)]] .
  then show ?case
    using step r ad(4,5) c(4) heap_le_trans [OF le r(6)]
    by (intro exI [of _ rest] exI [of _ p1] exI [of _ p2] exI [of _ ps''] exI [of _ qs''] exI [of _ "v' # vals"] exI [of _ h']) simp
qed

lemma rep_binds_obj: "rep_binds g k h bl bs \<Longrightarrow> bl = SCM_NULL \<or> CONSP bl"
  by (auto elim: rep_binds.cases)

lemma rep_binds_variables: "rep_binds g k h bl bs \<Longrightarrow> \<forall>p \<in> fst ` set bs. variable g k h p"
proof (induction bs arbitrary: bl)
  case (Cons b bs)
  show ?case by (rule rep_bcons_cases [OF Cons.prems]) (use Cons.IH in auto)
qed simp

lemma let_step_rep:
  assumes "in_sight g k G A (m_heap m)" "rep_binds g k (hide A (m_heap m)) bl bs" "distinct (List.map fst bs)"
    "list_all2 (evaluates g k G \<rho>) (List.map snd bs) vs" "rep_env g k (hide A (m_heap m)) (es_env st) \<rho>"
    "chain (hide A (m_heap m)) body [xb] SCM_NULL" "rep_exp g k (hide A (m_heap m)) xb b"
  obtains env' h' where "scm_s_let g (evaluator g) bl body st m = Some (Value (xb, st\<lparr>es_env := env'\<rparr>), m\<lparr>m_heap := h'\<rparr>)"
    "heap_le (m_heap m) h'" "in_sight g k G A h'" "rep_env g k (hide A h') env' (zip (List.map fst bs) vs # \<rho>)"
proof -
  let ?h = "m_heap m"
  have q: "queue_inv ?h ?h SCM_NULL []" using assms(1) by (simp add: queue_inv_def in_sight_def)
  have b: "binding g k G A ?h ?h (SCM_NULL, []) (SCM_NULL, [])" using assms(1) q by (simp add: binding_def)
  have ev: "list_all2 (\<lambda>b v. evaluates g k G \<rho> (snd b) v) bs vs" using assms(4) by (simp add: list_all2_map1)
  obtain rest o1 o2 ps qs vals h1 where p: "loop (let_step (evaluator g) PermitFirstClass (es_env st))
        (bl, (SCM_NULL, slot []), (SCM_NULL, slot [])) m =
        loop (let_step (evaluator g) PermitFirstClass (es_env st)) (rest, (o1, slot ps), (o2, slot qs)) (m\<lparr>m_heap := h1\<rparr>)"
      "binding g k G A ?h h1 (o1, ps) (o2, qs)" "List.map snd ps = List.map fst bs" "List.map snd qs = vals"
      "list_all2 (rep_val g k (hidden A ps qs h1)) vals vs" "rep_binds g k (hidden A ps qs h1) rest []"
    using let_loop [OF ev, of A ?h m SCM_NULL "[]" SCM_NULL "[]" bl "[]" "es_env st"] b assms(2,3,5) by auto
  have "rest = SCM_NULL" using p(6) by (auto elim: rep_binds.cases)
  then have "loop (let_step (evaluator g) PermitFirstClass (es_env st)) (rest, (o1, slot ps), (o2, slot qs)) (m\<lparr>m_heap := h1\<rparr>) =
      Some (Value (SCM_NULL, o1, o2), m\<lparr>m_heap := h1\<rparr>)"
    by (subst loop_unfold) (simp add: let_step_def, simp add: ret_def)
  note r = p(1) [unfolded this] p(2-5)
  have q1: "queue_inv ?h h1 o1 ps" "queue_inv ?h h1 o2 qs" using r(2) by (simp_all add: binding_def)
  then have le: "heap_le ?h h1" "brk_ok h1" by (auto simp: queue_inv_def)
  have "A \<subseteq> {..<brk ?h}" using assms(1) by (simp add: in_sight_def)
  then have ch: "chain (hide A h1) o1 (List.map fst bs) SCM_NULL" "chain (hide A h1) o2 vals SCM_NULL"
    using queue_chain [OF q1(1)] queue_chain [OF q1(2)] r(3,4) by simp_all
  note up = hide_mono [OF le(1), of A]
  have "\<forall>p \<in> fst ` set bs. variable g k (hide A h1) p" using rep_binds_variables [OF assms(2)] variable_le [OF _ up] by blast
  then have f: "formals_rep g k (hide A h1) o1 (List.map fst bs)" using ch(1) by (simp add: formals_rep_def)
  have "list_all2 (rep_val g k (hide A h1)) vals vs"
    by (rule list_all2_rep_le [OF r(5)]) (auto intro: hide_le)
  then have fr: "rep_frame g k (hide A h1) o1 o2 (zip (List.map fst bs) vs)"
    using list_all2_lengthD [OF ev] by (intro rep_frame_zip [OF f ch(2)]) simp_all
  obtain env' h2 where x: "scm_extend_environment h1 o1 o2 (es_env st) = (env', h2)" "CONSP env'" "heap_le h1 h2" "in_sight g k G A h2"
    "rep_env g k (hide A h2) env' (zip (List.map fst bs) vs # \<rho>)"
    by (rule extend_rep [OF in_sight_le [OF assms(1) le] fr rep_val_le(2) [OF assms(5) up]])
  have le2: "heap_le ?h h2" using heap_le_trans [OF le(1) x(3)] .
  have "scm_s_body g (evaluator g) body (st\<lparr>es_env := env'\<rparr>) (m\<lparr>m_heap := h2\<rparr>) = Some (Value (xb, st\<lparr>es_env := env'\<rparr>), m\<lparr>m_heap := h2\<rparr>)"
    using chain_le [OF assms(6) hide_mono [OF le2]] rep_exp_le(1) [OF assms(7) hide_mono [OF le2]] x(2,4)
    by (intro body_step [of A _ _ xb g k b G]) simp_all
  moreover have "\<not> IDENTIFIERP ?h bl" using rep_binds_obj [OF assms(2)] identifier_not_pair by blast
  ultimately have "scm_s_let g (evaluator g) bl body st m = Some (Value (xb, st\<lparr>es_env := env'\<rparr>), m\<lparr>m_heap := h2\<rparr>)"
    using r(1) x(1)
    by (simp add: scm_s_let_def scm_s_let_internal_def bindm_reads QUEUE_POINT_TO_def slot_def bindm_value bindm_changes)
  then show ?thesis by (rule that [OF _ le2 x(4,5)])
qed

lemma let_call:
  assumes "in_sight g k G A (m_heap m)" "rep_exp g k (hide A (m_heap m)) x (Let bs b)" "rep_env g k (hide A (m_heap m)) env \<rho>"
  obtains bl xb rest where "rep_binds g k (hide A (m_heap m)) bl bs" "distinct (List.map fst bs)" "rep_exp g k (hide A (m_heap m)) xb b"
    "chain (hide A (m_heap m)) rest [xb] SCM_NULL"
    "eval_loop (evaluator g) x (start env n) m = bindm (scm_s_let g (evaluator g) bl rest (start env n)) (\<lambda>(x, st). if ret_type st
      then eval_loop (evaluator g) x (st\<lparr>nest := (if nest st = SCM_NEST_RETTYPE_BEGIN then SCM_NEST_COMMAND_OR_DEFINITION else SCM_NEST_COMMAND)\<rparr>)
      else ret x) m"
proof -
  let ?h = "m_heap m" and ?g = "hide A (m_heap m)"
  obtain bl xb where x: "chain ?g x [kw_let k, bl, xb] SCM_NULL" "rep_binds g k ?g bl bs" "distinct (List.map fst bs)" "rep_exp g k ?g xb b"
    by (rule rep_let_cases [OF assms(2)])
  obtain a xs where a: "x = Ptr PTAG_CONS a" "mem ?g a = Some (PairCell (kw_let k) xs)" "chain ?g xs [bl, xb] SCM_NULL"
    by (rule chain_consE [OF x(1)])
  have kw: "keyword_at g ?g (kw_let k) 113 F_let" using assms(1) by (simp add: in_sight_def program_ok_def)
  have "first_class ?h bl" by (rule first_class_list [OF rep_binds_obj [OF x(2)]])
  then obtain rest where rest: "chain ?g rest [xb] SCM_NULL"
      "call (evaluator g) (kw_let k) xs (start env n) True m = invoke g (evaluator g) F_let [bl, rest] (start env n) m"
    using call_syntax [OF assms(1), of "start env n" \<rho> "kw_let k" 113 F_let "[bl]" xs "[xb]"] assms(3) kw a(3)
    by (auto simp: reserved_def type_codes simp del: chain.simps)
  have "call (evaluator g) (kw_let k) xs (start env n) True m = scm_s_let g (evaluator g) bl rest (start env n) m"
    unfolding rest(2) invoke_def cfunc.case args2_def by simp
  then have "eval_loop (evaluator g) x (start env n) m = bindm (scm_s_let g (evaluator g) bl rest (start env n)) (\<lambda>(x, st). if ret_type st
      then eval_loop (evaluator g) x (st\<lparr>nest := (if nest st = SCM_NEST_RETTYPE_BEGIN then SCM_NEST_COMMAND_OR_DEFINITION else SCM_NEST_COMMAND)\<rparr>)
      else ret x) m"
    unfolding a(1) eval_pair [OF heap_leD [OF hide_le_self a(2)]] by (simp add: bindm_def)
  then show ?thesis by (rule that [OF x(2-4) rest(1)])
qed

lemma let_entered:
  assumes "list_all2 (evaluates g k G \<rho>) (List.map snd bs) vs" "in_sight g k G A (m_heap m)"
    "rep_exp g k (hide A (m_heap m)) x (Let bs b)" "rep_env g k (hide A (m_heap m)) env \<rho>"
  obtains y env' n' h' where "eval_loop (evaluator g) x (start env n) m = eval_loop (evaluator g) y (start env' n') (m\<lparr>m_heap := h'\<rparr>)"
    "heap_le (m_heap m) h'" "in_sight g k G A h'" "rep_exp g k (hide A h') y b" "rep_env g k (hide A h') env' (zip (List.map fst bs) vs # \<rho>)"
proof -
  let ?g = "hide A (m_heap m)"
  obtain bl xb rest where x: "rep_binds g k ?g bl bs" "distinct (List.map fst bs)" "rep_exp g k ?g xb b" "chain ?g rest [xb] SCM_NULL"
    "eval_loop (evaluator g) x (start env n) m = bindm (scm_s_let g (evaluator g) bl rest (start env n)) (\<lambda>(x, st). if ret_type st
      then eval_loop (evaluator g) x (st\<lparr>nest := (if nest st = SCM_NEST_RETTYPE_BEGIN then SCM_NEST_COMMAND_OR_DEFINITION else SCM_NEST_COMMAND)\<rparr>)
      else ret x) m"
    by (rule let_call [OF assms(2-4), of n])
  have env: "rep_env g k ?g (es_env (start env n)) \<rho>" using assms(4) by simp
  obtain env' h' where l: "scm_s_let g (evaluator g) bl rest (start env n) m = Some (Value (xb, (start env n)\<lparr>es_env := env'\<rparr>), m\<lparr>m_heap := h'\<rparr>)"
    "heap_le (m_heap m) h'" "in_sight g k G A h'" "rep_env g k (hide A h') env' (zip (List.map fst bs) vs # \<rho>)"
    by (rule let_step_rep [OF assms(2) x(1,2) assms(1) env x(4,3)])
  obtain n' where "eval_loop (evaluator g) x (start env n) m = eval_loop (evaluator g) xb (start env' n') (m\<lparr>m_heap := h'\<rparr>)"
    unfolding x(5) using l(1) by (auto simp: bindm_value)
  then show ?thesis by (rule that [OF _ l(2,3) rep_exp_le(1) [OF x(3) hide_mono [OF l(2)]] l(4)])
qed

lemma evaluates_let:
  assumes "list_all2 (evaluates g k G \<rho>) (List.map snd bs) vs" "evaluates g k G (zip (List.map fst bs) vs # \<rho>) b v"
  shows "evaluates g k G \<rho> (Let bs b) v"
proof (rule evaluatesI)
  fix A and m :: mach and x env n
  assume s: "in_sight g k G A (m_heap m)" and r: "rep_exp g k (hide A (m_heap m)) x (Let bs b)"
    and env: "rep_env g k (hide A (m_heap m)) env \<rho>"
  obtain y env' n' h' where y: "eval_loop (evaluator g) x (start env n) m = eval_loop (evaluator g) y (start env' n') (m\<lparr>m_heap := h'\<rparr>)"
    "heap_le (m_heap m) h'" "in_sight g k G A h'" "rep_exp g k (hide A h') y b" "rep_env g k (hide A h') env' (zip (List.map fst bs) vs # \<rho>)"
    by (rule let_entered [OF assms(1) s r env])
  have "returns g k A y (start env' n') (m\<lparr>m_heap := h'\<rparr>) v" using y(3-5) by (intro evaluatesD [OF assms(2)]) simp_all
  then show "returns g k A x (start env n) m v" using returns_step [OF y(1,2)] by blast
qed

section \<open>The evaluator implements the semantics\<close>

lemma bigstep_evaluates:
  "bigstep G \<rho> e v \<Longrightarrow> evaluates g k G \<rho> e v"
  "bigsteps G \<rho> es vs \<Longrightarrow> list_all2 (evaluates g k G \<rho>) es vs"
proof (induction rule: bigstep_bigsteps.inducts)
  case (bs_if_true \<rho> c u t v e)
  then show ?case by (intro evaluates_if [of g k G \<rho> c u]) simp_all
next
  case (bs_if_false \<rho> c e v t)
  then show ?case by (intro evaluates_if [of g k G \<rho> c "VAtom SCM_FALSE"]) simp_all
qed (auto intro: evaluates_const evaluates_var evaluates_lambda evaluates_let evaluates_closure evaluates_op evaluates_prim)

lemma evaluation_correct:
  assumes "bigstep G \<rho> e v" "brk_ok (m_heap m)" "program_ok g k G (m_heap m)" "rep_exp g k (m_heap m) x e"
    "rep_env g k (m_heap m) env \<rho>"
  shows "\<exists>v' h'. scm_eval g x env m = Some (Value v', m\<lparr>m_heap := h'\<rparr>) \<and> heap_le (m_heap m) h' \<and> rep_val g k h' v' v"
proof -
  have s: "in_sight g k G {} (m_heap m)" using assms(2,3) by (simp add: in_sight_def)
  have r: "rep_exp g k (hide {} (m_heap m)) x e" "rep_env g k (hide {} (m_heap m)) env \<rho>" using assms(4,5) by simp_all
  obtain v' h' where "EVAL (evaluator g) x env m = Some (Value v', m\<lparr>m_heap := h'\<rparr>)" "heap_le (m_heap m) h'"
      "rep_val g k (hide {} h') v' v"
    by (rule evaluates_EVAL [OF bigstep_evaluates(1) [OF assms(1)] s r])
  then show ?thesis by (auto simp: scm_eval_def)
qed

end
