(* ===== verification/Failures.thy ===== *)
theory Failures
  imports Meaning
begin

text \<open>
  Runs that fail. \<open>fails\<close> extends the semantics with errors: an unbound variable, a call of what is no
  procedure, a call of a closure or a primitive with a wrong number of operands, an error of a reduction
  or of \<^verbatim>\<open>car\<close> and \<^verbatim>\<open>cdr\<close>, and the failure of whatever is evaluated first. The evaluator raises the
  error of the semantics.
\<close>

section \<open>Failing expressions\<close>

fun error_text :: "scm_error \<Rightarrow> string" where
  "error_text (Err msg) = msg"
| "error_text (ErrObj msg _) = msg"
| "error_text (ErrObjs msg _) = msg"

text \<open>The reduction goes on after the operands so far.\<close>

fun reduce_prefix :: "reduction_operator \<Rightarrow> obj \<Rightarrow> obj list \<Rightarrow> obj option" where
  "reduce_prefix func left [] = Some left"
| "reduce_prefix func left (x # xs) = (case func left x SCM_REDUCE_PARTWAY of
     Inr (v, state) \<Rightarrow> if state = SCM_REDUCE_STOP then None else reduce_prefix func v xs
   | Inl _ \<Rightarrow> None)"

definition reducible :: "reduction_operator \<Rightarrow> obj list \<Rightarrow> bool" where
  "reducible func xs \<longleftrightarrow> xs = [] \<or> reduce_prefix func (hd xs) (tl xs) \<noteq> None"

inductive fails :: "(obj \<Rightarrow> val option) \<Rightarrow> obj set \<Rightarrow> (obj \<times> val) list list \<Rightarrow> exp \<Rightarrow> string \<Rightarrow> bool" for G U where
  fl_unbound: "s \<in> U \<Longrightarrow> map_of (concat \<rho>) s = None \<Longrightarrow> fails G U \<rho> (Var s) ''unbound variable''"
| fl_test: "fails G U \<rho> c msg \<Longrightarrow> fails G U \<rho> (If c t e) msg"
| fl_then: "bigstep G \<rho> c u \<Longrightarrow> u \<noteq> VAtom SCM_FALSE \<Longrightarrow> fails G U \<rho> t msg \<Longrightarrow> fails G U \<rho> (If c t e) msg"
| fl_else: "bigstep G \<rho> c (VAtom SCM_FALSE) \<Longrightarrow> fails G U \<rho> e msg \<Longrightarrow> fails G U \<rho> (If c t e) msg"
| fl_binding: "bs = bs1 @ (s, e) # bs2 \<Longrightarrow> bigsteps G \<rho> (List.map snd bs1) vs \<Longrightarrow> fails G U \<rho> e msg \<Longrightarrow>
    fails G U \<rho> (Let bs b) msg"
| fl_let: "bigsteps G \<rho> (List.map snd bs) vs \<Longrightarrow> fails G U (zip (List.map fst bs) vs # \<rho>) b msg \<Longrightarrow>
    fails G U \<rho> (Let bs b) msg"
| fl_operator: "fails G U \<rho> f msg \<Longrightarrow> fails G U \<rho> (App f es) msg"
| fl_no_procedure: "bigstep G \<rho> f v \<Longrightarrow> (\<exists>c. v = VAtom c) \<or> (\<exists>u w. v = VPair u w) \<Longrightarrow>
    fails G U \<rho> (App f es) ''procedure or syntax required but got''"
| fl_operand: "bigstep G \<rho> f (VClos ps b \<rho>') \<Longrightarrow> bigsteps G \<rho> es1 vs \<Longrightarrow> fails G U \<rho> e msg \<Longrightarrow>
    fails G U \<rho> (App f (es1 @ e # es2)) msg"
| fl_arity: "bigstep G \<rho> f (VClos ps b \<rho>') \<Longrightarrow> bigsteps G \<rho> es vs \<Longrightarrow> length vs \<noteq> length ps \<Longrightarrow>
    fails G U \<rho> (App f es) ''unmatched number or improper args''"
| fl_body: "bigstep G \<rho> f (VClos ps b \<rho>') \<Longrightarrow> bigsteps G \<rho> es vs \<Longrightarrow> length vs = length ps \<Longrightarrow>
    fails G U (zip ps vs # \<rho>') b msg \<Longrightarrow> fails G U \<rho> (App f es) msg"
| fl_op_operand: "bigstep G \<rho> f (VOp func) \<Longrightarrow> bigsteps G \<rho> es1 (List.map VAtom xs) \<Longrightarrow> reducible func xs \<Longrightarrow>
    fails G U \<rho> e msg \<Longrightarrow> fails G U \<rho> (App f (es1 @ e # es2)) msg"
| fl_op: "bigstep G \<rho> f (VOp func) \<Longrightarrow> bigsteps G \<rho> es (List.map VAtom xs) \<Longrightarrow> reduce_values func xs = Inl err \<Longrightarrow>
    fails G U \<rho> (App f es) (error_text err)"
| fl_prim_operand: "bigstep G \<rho> f (VPrim p) \<Longrightarrow> bigsteps G \<rho> es1 vs \<Longrightarrow> length vs < prim_arity p \<Longrightarrow> fails G U \<rho> e msg \<Longrightarrow>
    fails G U \<rho> (App f (es1 @ e # es2)) msg"
| fl_prim_few: "bigstep G \<rho> f (VPrim p) \<Longrightarrow> bigsteps G \<rho> es vs \<Longrightarrow> length vs < prim_arity p \<Longrightarrow>
    fails G U \<rho> (App f es) ''missing argument(s)''"
| fl_prim_many: "bigstep G \<rho> f (VPrim p) \<Longrightarrow> bigsteps G \<rho> es1 vs \<Longrightarrow> length vs = prim_arity p \<Longrightarrow> es2 \<noteq> [] \<Longrightarrow>
    fails G U \<rho> (App f (es1 @ es2)) ''superfluous argument(s)''"
| fl_no_pair: "bigstep G \<rho> f (VPrim p) \<Longrightarrow> p = P_car \<or> p = P_cdr \<Longrightarrow> bigsteps G \<rho> es [v] \<Longrightarrow> \<forall>u w. v \<noteq> VPair u w \<Longrightarrow>
    fails G U \<rho> (App f es) ''pair required but got''"

section \<open>Failing runs\<close>

definition unbound_ok :: "obj set \<Rightarrow> heap \<Rightarrow> bool" where
  "unbound_ok U h \<longleftrightarrow> (\<forall>s \<in> U. SYMBOLP h s \<and> SYMBOL_VCELL h s = SCM_UNBOUND)"

lemma unbound_ok_le: "unbound_ok U h \<Longrightarrow> heap_le h h' \<Longrightarrow> unbound_ok U h'"
  unfolding unbound_ok_def using SYMBOLP_le by metis

definition raises :: "string \<Rightarrow> ('a outcome \<times> mach) option \<Rightarrow> bool" where
  "raises msg r \<longleftrightarrow> (\<exists>err m. r = Some (Raised err, m) \<and> error_text err = msg)"

lemma raises_raise [simp]: "raises msg (raise err m) \<longleftrightarrow> error_text err = msg"
  by (simp add: raises_def raise_def)

lemma raises_bindm:
  assumes "raises msg (p m)"
  shows "raises msg (bindm p q m)"
proof -
  obtain err m' where "p m = Some (Raised err, m')" "error_text err = msg" using assms by (auto simp: raises_def)
  then show ?thesis by (simp add: raises_def bindm_raised)
qed

lemma raises_loop: "raises msg (body s m) \<Longrightarrow> raises msg (loop body s m)"
  by (subst loop_unfold) (rule raises_bindm)

definition fails_here :: "interp \<Rightarrow> syntax_names \<Rightarrow> (obj \<Rightarrow> val option) \<Rightarrow> obj set \<Rightarrow> (obj \<times> val) list list \<Rightarrow> exp \<Rightarrow> string \<Rightarrow> bool" where
  "fails_here g k G U \<rho> e msg \<longleftrightarrow> (\<forall>A m x env n. in_sight g k G A (m_heap m) \<longrightarrow> unbound_ok U (hide A (m_heap m)) \<longrightarrow>
     rep_exp g k (hide A (m_heap m)) x e \<longrightarrow> rep_env g k (hide A (m_heap m)) env \<rho> \<longrightarrow>
     raises msg (eval_loop (evaluator g) x (start env n) m))"

lemma fails_hereI:
  assumes "\<And>A m x env n. in_sight g k G A (m_heap m) \<Longrightarrow> unbound_ok U (hide A (m_heap m)) \<Longrightarrow>
     rep_exp g k (hide A (m_heap m)) x e \<Longrightarrow> rep_env g k (hide A (m_heap m)) env \<rho> \<Longrightarrow>
     raises msg (eval_loop (evaluator g) x (start env n) m)"
  shows "fails_here g k G U \<rho> e msg"
  using assms unfolding fails_here_def by blast

lemma fails_hereD:
  assumes "fails_here g k G U \<rho> e msg" "in_sight g k G A (m_heap m)" "unbound_ok U (hide A (m_heap m))"
    "rep_exp g k (hide A (m_heap m)) x e" "rep_env g k (hide A (m_heap m)) env \<rho>"
  shows "raises msg (eval_loop (evaluator g) x (start env n) m)" "raises msg (EVAL (evaluator g) x env m)"
proof -
  show r: "raises msg (eval_loop (evaluator g) x (start env n) m)" for n using assms unfolding fails_here_def by blast
  obtain n' where "EVAL (evaluator g) x env = eval_loop (evaluator g) x (start env n')" using EVAL_start [OF assms(5)] by blast
  then show "raises msg (EVAL (evaluator g) x env m)" using r by simp
qed

text \<open>A pair fails when its call fails, a call when its operator fails or what is applied does.\<close>

lemma raises_pair:
  assumes "mem (m_heap m) a = Some (PairCell xf xs)" "raises msg (call rec xf xs st True m)"
  shows "raises msg (eval_loop rec (Ptr PTAG_CONS a) st m)"
  unfolding eval_pair [OF assms(1)] by (rule raises_bindm) (rule assms(2))

lemma raises_call:
  assumes "EVAL (evaluator g) xf (es_env st) m = Some (Value proc, m')" "raises msg (loop (call_step g (evaluator g) st) (proc, args, True) m')"
  shows "raises msg (call (evaluator g) xf args st True m)"
  using assms(2) call_evaluated [OF assms(1)] by simp

lemma app_evaluated:
  assumes "evaluates g k G \<rho> f v" "in_sight g k G A (m_heap m)" "rep_exp g k (hide A (m_heap m)) x (App f es)"
    "rep_env g k (hide A (m_heap m)) env \<rho>"
  obtains proc xs h1 where "heap_le (hide A (m_heap m)) (hide A h1)" "in_sight g k G A h1" "rep_val g k (hide A h1) proc v"
    "rep_exps g k (hide A h1) xs es" "rep_env g k (hide A h1) env \<rho>"
    "raises msg (loop (call_step g (evaluator g) (start env n)) (proc, xs, True) (m\<lparr>m_heap := h1\<rparr>)) \<longrightarrow>
     raises msg (eval_loop (evaluator g) x (start env n) m)"
proof -
  let ?g = "hide A (m_heap m)"
  obtain a xf xs where x: "x = Ptr PTAG_CONS a" "mem ?g a = Some (PairCell xf xs)" "rep_exp g k ?g xf f" "rep_exps g k ?g xs es"
    by (rule rep_app_cases [OF assms(3)]) (rule that)
  obtain proc h1 where p: "EVAL (evaluator g) xf env m = Some (Value proc, m\<lparr>m_heap := h1\<rparr>)" "heap_le (m_heap m) h1"
      "in_sight g k G A h1" "rep_val g k (hide A h1) proc v"
    by (rule evaluates_EVAL [OF assms(1,2) x(3) assms(4)])
  note up = hide_mono [OF p(2), of A]
  have ev: "EVAL (evaluator g) xf (es_env (start env n)) m = Some (Value proc, m\<lparr>m_heap := h1\<rparr>)" using p(1) by simp
  show ?thesis
  proof (rule that [OF up p(3,4) rep_exp_le(2) [OF x(4) up] rep_val_le(2) [OF assms(4) up]])
    show "raises msg (loop (call_step g (evaluator g) (start env n)) (proc, xs, True) (m\<lparr>m_heap := h1\<rparr>)) \<longrightarrow>
      raises msg (eval_loop (evaluator g) x (start env n) m)"
      unfolding x(1) by (intro impI raises_pair [OF heap_leD [OF hide_le_self x(2)]] raises_call [OF ev])
  qed
qed

section \<open>The cases\<close>

lemma fails_unbound:
  assumes "s \<in> U" "map_of (concat \<rho>) s = None"
  shows "fails_here g k G U \<rho> (Var s) ''unbound variable''"
proof (rule fails_hereI)
  fix A and m :: mach and x env n
  let ?h = "m_heap m" and ?g = "hide A (m_heap m)"
  assume u: "unbound_ok U ?g" and r: "rep_exp g k ?g x (Var s)" and e: "rep_env g k ?g env \<rho>"
  have x: "x = s" "variable g k ?g s" using r by (auto elim: rep_exp.cases)
  note id = variable_identifier [OF variable_le [OF x(2) hide_le_self]]
  obtain r where l: "lookup_frames ?h s env = Some r"
      "rel_option (rep_val g k ?g) (map_option (DEREF ?h SCM_INVALID) r) (map_of (concat \<rho>) s)"
    using lookup_rep [OF e hide_le_self] id by blast
  have "r = None" using l(2) assms(2) by (cases r) simp_all
  moreover have "SYMBOL_VCELL ?h s = SCM_UNBOUND"
    using unbound_ok_le [OF u hide_le_self] assms(1) by (simp add: unbound_ok_def)
  ultimately have "scm_symbol_value ?h s env = Some (Inl (ErrObj ''unbound variable'' s))"
    using l(1) id by (simp add: scm_symbol_value_def Let_def)
  then show "raises ''unbound variable'' (eval_loop (evaluator g) x (start env n) m)"
    using eval_identifier [of m s] id x(1) by (simp add: tries_def raises_def)
qed

lemma fails_test:
  assumes "fails_here g k G U \<rho> c msg"
  shows "fails_here g k G U \<rho> (If c t e) msg"
proof (rule fails_hereI)
  fix A and m :: mach and x env n
  let ?g = "hide A (m_heap m)"
  assume s: "in_sight g k G A (m_heap m)" and u: "unbound_ok U ?g" and r: "rep_exp g k ?g x (If c t e)" and env: "rep_env g k ?g env \<rho>"
  obtain xc xt xe rest where c: "rep_exp g k ?g xc c"
    "eval_loop (evaluator g) x (start env n) m = bindm (scm_s_if (evaluator g) xc xt rest (start env n)) (\<lambda>(x, st). if ret_type st
      then eval_loop (evaluator g) x (st\<lparr>nest := (if nest st = SCM_NEST_RETTYPE_BEGIN then SCM_NEST_COMMAND_OR_DEFINITION else SCM_NEST_COMMAND)\<rparr>)
      else ret x) m"
    by (rule if_call [OF s r env, of n]) blast
  have "raises msg (EVAL (evaluator g) xc env m)" by (rule fails_hereD(2) [OF assms s u c(1) env])
  then have "raises msg (scm_s_if (evaluator g) xc xt rest (start env n) m)"
    unfolding scm_s_if_def by (intro raises_bindm) simp
  then show "raises msg (eval_loop (evaluator g) x (start env n) m)" unfolding c(2) by (intro raises_bindm)
qed

lemma fails_branch:
  assumes "evaluates g k G \<rho> c u" "fails_here g k G U \<rho> (if u \<noteq> VAtom SCM_FALSE then t else e) msg"
  shows "fails_here g k G U \<rho> (If c t e) msg"
proof (rule fails_hereI)
  fix A and m :: mach and x env n
  assume s: "in_sight g k G A (m_heap m)" and u: "unbound_ok U (hide A (m_heap m))"
    and r: "rep_exp g k (hide A (m_heap m)) x (If c t e)" and env: "rep_env g k (hide A (m_heap m)) env \<rho>"
  obtain y n' h1 where y: "eval_loop (evaluator g) x (start env n) m = eval_loop (evaluator g) y (start env n') (m\<lparr>m_heap := h1\<rparr>)"
    "heap_le (m_heap m) h1" "in_sight g k G A h1" "rep_exp g k (hide A h1) y (if u \<noteq> VAtom SCM_FALSE then t else e)"
    "rep_env g k (hide A h1) env \<rho>"
    by (rule if_branch [OF assms(1) s r env])
  show "raises msg (eval_loop (evaluator g) x (start env n) m)"
    unfolding y(1) using y(3-5) unbound_ok_le [OF u hide_mono [OF y(2)]] by (intro fails_hereD(1) [OF assms(2)]) simp_all
qed

lemma fails_operator:
  assumes "fails_here g k G U \<rho> f msg"
  shows "fails_here g k G U \<rho> (App f es) msg"
proof (rule fails_hereI)
  fix A and m :: mach and x env n
  let ?g = "hide A (m_heap m)"
  assume s: "in_sight g k G A (m_heap m)" and u: "unbound_ok U ?g" and r: "rep_exp g k ?g x (App f es)" and env: "rep_env g k ?g env \<rho>"
  obtain a xf xs where x: "x = Ptr PTAG_CONS a" "mem ?g a = Some (PairCell xf xs)" "rep_exp g k ?g xf f"
    by (rule rep_app_cases [OF r]) (rule that)
  have "raises msg (EVAL (evaluator g) xf env m)" by (rule fails_hereD(2) [OF assms s u x(3) env])
  then have "raises msg (call (evaluator g) xf xs (start env n) True m)"
    unfolding call_evaluator call_body_def eval_arg_def by (intro raises_bindm) simp
  then show "raises msg (eval_loop (evaluator g) x (start env n) m)"
    unfolding x(1) by (rule raises_pair [OF heap_leD [OF hide_le_self x(2)]])
qed

text \<open>Applications, from the value of the operator.\<close>

lemma fails_app:
  assumes "evaluates g k G \<rho> f v"
    "\<And>A m proc xs env n. in_sight g k G A (m_heap m) \<Longrightarrow> unbound_ok U (hide A (m_heap m)) \<Longrightarrow>
       rep_val g k (hide A (m_heap m)) proc v \<Longrightarrow> rep_exps g k (hide A (m_heap m)) xs es \<Longrightarrow>
       rep_env g k (hide A (m_heap m)) env \<rho> \<Longrightarrow>
       raises msg (loop (call_step g (evaluator g) (start env n)) (proc, xs, True) m)"
  shows "fails_here g k G U \<rho> (App f es) msg"
proof (rule fails_hereI)
  fix A and m :: mach and x env n
  assume s: "in_sight g k G A (m_heap m)" and u: "unbound_ok U (hide A (m_heap m))"
    and r: "rep_exp g k (hide A (m_heap m)) x (App f es)" and env: "rep_env g k (hide A (m_heap m)) env \<rho>"
  obtain proc xs h1 where p: "heap_le (hide A (m_heap m)) (hide A h1)" "in_sight g k G A h1" "rep_val g k (hide A h1) proc v"
    "rep_exps g k (hide A h1) xs es" "rep_env g k (hide A h1) env \<rho>"
    "raises msg (loop (call_step g (evaluator g) (start env n)) (proc, xs, True) (m\<lparr>m_heap := h1\<rparr>)) \<longrightarrow>
     raises msg (eval_loop (evaluator g) x (start env n) m)"
    by (rule app_evaluated [OF assms(1) s r env, of msg n])
  show "raises msg (eval_loop (evaluator g) x (start env n) m)"
    by (rule p(6) [rule_format], rule assms(2)) (use p(2-5) unbound_ok_le [OF u p(1)] in simp_all)
qed

lemma fails_no_procedure:
  assumes "evaluates g k G \<rho> f v" "(\<exists>c. v = VAtom c) \<or> (\<exists>u w. v = VPair u w)" "\<exists>a. scm_values_applier g = Ptr PTAG_MISC a"
  shows "fails_here g k G U \<rho> (App f es) ''procedure or syntax required but got''"
proof (rule fails_app [OF assms(1)])
  fix A and m :: mach and proc xs env n
  assume "rep_val g k (hide A (m_heap m)) proc v"
  then have "atomic proc \<or> CONSP proc" using assms(2) by (auto elim: rep_val.cases)
  then have n: "misc_cell (m_heap m) proc = None" "\<not> CLOSUREP proc" "proc \<noteq> scm_values_applier g"
    using assms(3) atomic_not [of proc "m_heap m"] by (auto simp: CONSP_iff)
  show "raises ''procedure or syntax required but got'' (loop (call_step g (evaluator g) (start env n)) (proc, xs, True) m)"
    by (rule raises_loop) (use n in \<open>simp add: call_step_def bindm_reads\<close>)
qed

section \<open>Closures\<close>

lemma map_eval_fails:
  assumes "list_all2 (evaluates g k G \<rho>) es1 vs" "fails_here g k G U \<rho> e msg" "in_sight g k G A (m_heap m)"
    "unbound_ok U (hide A (m_heap m))" "rep_exps g k (hide A (m_heap m)) xs (es1 @ e # es2)" "rep_env g k (hide A (m_heap m)) env \<rho>"
  shows "raises msg (map_eval (evaluator g) xs env m)"
proof -
  have xs: "xs \<noteq> SCM_NULL" using rep_exps_null [OF assms(5)] by simp
  have q: "queue_inv (m_heap m) (m_heap m) SCM_NULL []" using assms(3) by (simp add: queue_inv_def in_sight_def)
  obtain rest out' ps' h' where p: "loop (map_eval_step (evaluator g) env) (xs, (SCM_NULL, slot []), 0) m =
      loop (map_eval_step (evaluator g) env) (rest, (out', slot ([] @ ps')), 0 + int (length vs)) (m\<lparr>m_heap := h'\<rparr>)"
    "in_sight g k G (A \<union> cells_of ([] @ ps')) h'"
    "heap_le (hide (A \<union> cells_of []) (m_heap m)) (hide (A \<union> cells_of ([] @ ps')) h')"
    "rep_exps g k (hide (A \<union> cells_of ([] @ ps')) h') rest (e # es2)"
    using map_eval_loop [OF assms(1) q, of A xs "e # es2" env 0] assms(3,5,6) by auto
  let ?B = "A \<union> cells_of ([] @ ps')" and ?m = "m\<lparr>m_heap := h'\<rparr>"
  have le: "heap_le (hide A (m_heap m)) (hide ?B h')" using p(3) by simp
  obtain a z xs' where z: "rest = Ptr PTAG_CONS a" "mem (hide ?B h') a = Some (PairCell z xs')" "rep_exp g k (hide ?B h') z e"
    by (rule rep_exps_cases [OF p(4)])
  have "raises msg (EVAL (evaluator g) z env ?m)"
    using p(2) z(3) unbound_ok_le [OF assms(4) le] rep_val_le(2) [OF assms(6) le] by (intro fails_hereD(2) [OF assms(2)]) simp_all
  then have "raises msg (map_eval_step (evaluator g) env (rest, (out', slot ([] @ ps')), 0 + int (length vs)) ?m)"
    using heap_leD [OF hide_le_self z(2)] z(1) by (simp add: map_eval_step_def bindm_reads raises_bindm)
  then have "raises msg (loop (map_eval_step (evaluator g) env) (xs, (SCM_NULL, slot []), 0) m)"
    unfolding p(1) by (rule raises_loop)
  then show ?thesis using xs by (simp add: map_eval_def QUEUE_POINT_TO_def slot_def raises_bindm)
qed

lemma fails_operand:
  assumes "evaluates g k G \<rho> f (VClos ps b \<rho>')" "list_all2 (evaluates g k G \<rho>) es1 vs" "fails_here g k G U \<rho> e msg"
  shows "fails_here g k G U \<rho> (App f (es1 @ e # es2)) msg"
proof (rule fails_app [OF assms(1)])
  fix A and m :: mach and proc xs env n
  assume s: "in_sight g k G A (m_heap m)" "unbound_ok U (hide A (m_heap m))" and c: "rep_val g k (hide A (m_heap m)) proc (VClos ps b \<rho>')"
    and r: "rep_exps g k (hide A (m_heap m)) xs (es1 @ e # es2)" "rep_env g k (hide A (m_heap m)) env \<rho>"
  obtain a where a: "proc = Ptr PTAG_CLOSURE a" by (rule rep_clos_cases [OF c])
  have "raises msg (map_eval (evaluator g) xs env m)" by (rule map_eval_fails [OF assms(2,3) s r])
  then show "raises msg (loop (call_step g (evaluator g) (start env n)) (proc, xs, True) m)"
    unfolding a call_clos call_closure_def by (simp add: bindm_reads raises_bindm)
qed

lemma closure_frame_unmatched:
  assumes "formals_rep g k h f ps" "heap_le h (m_heap m)" "n \<noteq> length ps"
  shows "closure_frame f lst (int n) m = Some (Raised (unmatched_args lst), m)"
proof -
  have f: "chain (m_heap m) f ps SCM_NULL" using formals_rep_le [OF assms(1,2)] by (simp add: formals_rep_def)
  have "\<not> IDENTIFIERP (m_heap m) f" using rep_formals_obj [OF assms(1)] identifier_not_pair by blast
  moreover have "scm_finite_length (m_heap m) f = Some (int (length ps))"
    using finite_length_loop_chain [OF f, of 0] by (simp add: scm_finite_length_def)
  moreover have "CONSP f \<longleftrightarrow> ps \<noteq> []" "f = SCM_NULL \<longleftrightarrow> ps = []"
    using chain_kind [OF f] by blast+
  moreover have "\<not> scm_valid_environment_extension_lengthp (int (length ps)) (int n)"
    using assms(3) by (simp add: scm_valid_environment_extension_lengthp_def listlen_defs)
  ultimately show ?thesis
    using assms(3) by (cases "ps = []") (simp_all add: closure_frame_def bindm_reads bindm_tries raise_def)
qed

lemma fails_arity:
  assumes "evaluates g k G \<rho> f (VClos ps b \<rho>')" "list_all2 (evaluates g k G \<rho>) es vs" "length vs \<noteq> length ps"
  shows "fails_here g k G U \<rho> (App f es) ''unmatched number or improper args''"
proof (rule fails_app [OF assms(1)])
  fix A and m :: mach and proc xs env n
  let ?h = "m_heap m"
  assume s: "in_sight g k G A ?h" and c: "rep_val g k (hide A ?h) proc (VClos ps b \<rho>')"
    and r: "rep_exps g k (hide A ?h) xs es" "rep_env g k (hide A ?h) env \<rho>"
  obtain a e env' f body x where c: "proc = Ptr PTAG_CLOSURE a" "mem (hide A ?h) a = Some (PairCell (Ptr PTAG_CONS e) env')"
      "mem (hide A ?h) e = Some (PairCell f body)" "formals_rep g k (hide A ?h) f ps"
    by (rule rep_clos_cases [OF c]) (rule that)
  obtain lst vals h1 where l: "map_eval (evaluator g) xs env m = Some (Value (lst, int (length vs)), m\<lparr>m_heap := h1\<rparr>)" "heap_le ?h h1"
    by (rule map_eval_values [OF assms(2) s r])
  have "closure_frame f lst (int (length vs)) (m\<lparr>m_heap := h1\<rparr>) = Some (Raised (unmatched_args lst), m\<lparr>m_heap := h1\<rparr>)"
    using closure_frame_unmatched [OF c(4), of "m\<lparr>m_heap := h1\<rparr>"] heap_le_trans [OF hide_le_self l(2)] assms(3) by simp
  then show "raises ''unmatched number or improper args'' (loop (call_step g (evaluator g) (start env n)) (proc, xs, True) m)"
    unfolding c(1) call_clos call_closure_def
    using heap_leD [OF hide_le_self c(2)] heap_leD [OF hide_le_self c(3)] l(1)
    by (simp add: bindm_reads bindm_value bindm_raised raises_def unmatched_args_def)
qed

lemma fails_body:
  assumes "evaluates g k G \<rho> f (VClos ps b \<rho>')" "list_all2 (evaluates g k G \<rho>) es vs" "length vs = length ps"
    "fails_here g k G U (zip ps vs # \<rho>') b msg"
  shows "fails_here g k G U \<rho> (App f es) msg"
proof (rule fails_hereI)
  fix A and m :: mach and x env n
  assume s: "in_sight g k G A (m_heap m)" and u: "unbound_ok U (hide A (m_heap m))"
    and r: "rep_exp g k (hide A (m_heap m)) x (App f es)" and env: "rep_env g k (hide A (m_heap m)) env \<rho>"
  obtain y env' n' h' where y: "eval_loop (evaluator g) x (start env n) m = eval_loop (evaluator g) y (start env' n') (m\<lparr>m_heap := h'\<rparr>)"
    "heap_le (m_heap m) h'" "in_sight g k G A h'" "rep_exp g k (hide A h') y b" "rep_env g k (hide A h') env' (zip ps vs # \<rho>')"
    by (rule closure_entered [OF assms(1-3) s r env])
  show "raises msg (eval_loop (evaluator g) x (start env n) m)"
    unfolding y(1) using y(3-5) unbound_ok_le [OF u hide_mono [OF y(2)]] by (intro fails_hereD(1) [OF assms(4)]) simp_all
qed

section \<open>Local bindings\<close>

lemma let_fails:
  assumes "list_all2 (evaluates g k G \<rho>) (List.map snd bs1) vs" "fails_here g k G U \<rho> e msg" "in_sight g k G A (m_heap m)"
    "unbound_ok U (hide A (m_heap m))" "rep_binds g k (hide A (m_heap m)) bl (bs1 @ (s, e) # bs2)"
    "distinct (List.map fst (bs1 @ (s, e) # bs2))" "rep_env g k (hide A (m_heap m)) (es_env st) \<rho>"
  shows "raises msg (scm_s_let g (evaluator g) bl body st m)"
proof -
  let ?h = "m_heap m" and ?loop = "loop (let_step (evaluator g) PermitFirstClass (es_env st))"
  have q: "queue_inv ?h ?h SCM_NULL []" using assms(3) by (simp add: queue_inv_def in_sight_def)
  have b: "binding g k G A ?h ?h (SCM_NULL, []) (SCM_NULL, [])" using assms(3) q by (simp add: binding_def)
  have ev: "list_all2 (\<lambda>b v. evaluates g k G \<rho> (snd b) v) bs1 vs" using assms(1) by (simp add: list_all2_map1)
  obtain rest o1 o2 ps qs h1 where p: "?loop (bl, (SCM_NULL, slot []), (SCM_NULL, slot [])) m =
        ?loop (rest, (o1, slot ps), (o2, slot qs)) (m\<lparr>m_heap := h1\<rparr>)"
      "binding g k G A ?h h1 (o1, ps) (o2, qs)" "List.map snd ps = List.map fst bs1"
      "heap_le (hidden A [] [] ?h) (hidden A ps qs h1)" "rep_binds g k (hidden A ps qs h1) rest ((s, e) # bs2)"
    using let_loop [OF ev, of A ?h m SCM_NULL "[]" SCM_NULL "[]" bl "(s, e) # bs2" "es_env st"] b assms(5-7) by auto
  let ?m = "m\<lparr>m_heap := h1\<rparr>"
  have le: "heap_le (hide A ?h) (hidden A ps qs h1)" using p(4) by simp
  obtain a c xs x where c: "rest = Ptr PTAG_CONS a" "mem (hidden A ps qs h1) a = Some (PairCell c xs)"
      "chain (hidden A ps qs h1) c [s, x] SCM_NULL" "variable g k (hidden A ps qs h1) s" "rep_exp g k (hidden A ps qs h1) x e"
    by (rule rep_bcons_cases [OF p(5)]) auto
  have sight: "in_sight g k G (A \<union> cells_of ps \<union> cells_of qs) (m_heap ?m)" and seg: "lseg (m_heap ?m) o1 ps SCM_NULL"
    using p(2) by (auto simp: binding_def queue_inv_def)
  have "s \<notin> set (List.map fst bs1)" using assms(6) by simp
  moreover have "snd ` set ps = set (List.map fst bs1)" unfolding p(3) [symmetric] by simp
  ultimately have new: "s \<notin> snd ` set ps" by simp
  have "raises msg (EVAL (evaluator g) x (es_env st) ?m)"
    using c(5) unbound_ok_le [OF assms(4) le] rep_val_le(2) [OF assms(7) le] by (intro fails_hereD(2) [OF assms(2) sight]) simp_all
  moreover have ok: "bindm (parse_binding c) q ?m = q (s, x) ?m" for q :: "obj \<times> obj \<Rightarrow> 'b run"
    by (rule parse_binding_ok [OF c(3) _ c(4)]) (simp add: hide_le_self)
  ultimately have "raises msg (let_step (evaluator g) PermitFirstClass (es_env st) (rest, (o1, slot ps), (o2, slot qs)) ?m)"
    using c(1) heap_leD [OF hide_le_self c(2)]
    by (simp add: let_step_def bindm_reads ok check_unique_ok [OF seg new] raises_bindm)
  then have "raises msg (?loop (bl, (SCM_NULL, slot []), (SCM_NULL, slot [])) m)" unfolding p(1) by (rule raises_loop)
  moreover have "\<not> IDENTIFIERP ?h bl" using rep_binds_obj [OF assms(5)] identifier_not_pair by blast
  ultimately show ?thesis
    by (simp add: scm_s_let_def scm_s_let_internal_def bindm_reads QUEUE_POINT_TO_def slot_def raises_bindm)
qed

lemma fails_binding:
  assumes "list_all2 (evaluates g k G \<rho>) (List.map snd bs1) vs" "fails_here g k G U \<rho> e msg"
  shows "fails_here g k G U \<rho> (Let (bs1 @ (s, e) # bs2) b) msg"
proof (rule fails_hereI)
  fix A and m :: mach and x env n
  let ?bs = "bs1 @ (s, e) # bs2" and ?g = "hide A (m_heap m)"
  assume i: "in_sight g k G A (m_heap m)" and u: "unbound_ok U ?g" and r: "rep_exp g k ?g x (Let ?bs b)" and env: "rep_env g k ?g env \<rho>"
  obtain bl rest where x: "rep_binds g k ?g bl ?bs" "distinct (List.map fst ?bs)"
    "eval_loop (evaluator g) x (start env n) m = bindm (scm_s_let g (evaluator g) bl rest (start env n)) (\<lambda>(x, st). if ret_type st
      then eval_loop (evaluator g) x (st\<lparr>nest := (if nest st = SCM_NEST_RETTYPE_BEGIN then SCM_NEST_COMMAND_OR_DEFINITION else SCM_NEST_COMMAND)\<rparr>)
      else ret x) m"
    by (rule let_call [OF i r env, of n]) blast
  have "raises msg (scm_s_let g (evaluator g) bl rest (start env n) m)"
    by (rule let_fails [OF assms i u x(1,2)]) (simp add: env)
  then show "raises msg (eval_loop (evaluator g) x (start env n) m)" unfolding x(3) by (rule raises_bindm)
qed

lemma fails_let:
  assumes "list_all2 (evaluates g k G \<rho>) (List.map snd bs) vs" "fails_here g k G U (zip (List.map fst bs) vs # \<rho>) b msg"
  shows "fails_here g k G U \<rho> (Let bs b) msg"
proof (rule fails_hereI)
  fix A and m :: mach and x env n
  assume s: "in_sight g k G A (m_heap m)" and u: "unbound_ok U (hide A (m_heap m))"
    and r: "rep_exp g k (hide A (m_heap m)) x (Let bs b)" and env: "rep_env g k (hide A (m_heap m)) env \<rho>"
  obtain y env' n' h' where y: "eval_loop (evaluator g) x (start env n) m = eval_loop (evaluator g) y (start env' n') (m\<lparr>m_heap := h'\<rparr>)"
    "heap_le (m_heap m) h'" "in_sight g k G A h'" "rep_exp g k (hide A h') y b" "rep_env g k (hide A h') env' (zip (List.map fst bs) vs # \<rho>)"
    by (rule let_entered [OF assms(1) s r env])
  show "raises msg (eval_loop (evaluator g) x (start env n) m)"
    unfolding y(1) using y(3-5) unbound_ok_le [OF u hide_mono [OF y(2)]] by (intro fails_hereD(1) [OF assms(2)]) simp_all
qed

section \<open>Primitives\<close>

lemma call_prim:
  assumes "rep_val g k (hide A (m_heap m)) proc (VPrim p)"
  shows "loop (call_step g (evaluator g) (start env n)) (proc, xs, True) m =
    bindm (loop (mandatory_step (evaluator g) True env) (prim_arity p, xs, [])) (\<lambda>(args, buf).
    bindm (ASSERT_NO_MORE_ARG args) (\<lambda>_. as_is ((start env n)\<lparr>ret_type := False\<rparr>) (does (prim_fun p buf)))) m"
proof -
  obtain b q where f: "proc = Ptr PTAG_MISC b" "mem (hide A (m_heap m)) b = Some (FuncCell (prim_arity p) q)"
      "cfuncs g q = F_primitive (prim_fun p)"
    by (rule rep_prim_cases [OF assms]) (rule that)
  have "prim_arity p = 1 \<or> prim_arity p = 2" by (cases p) simp_all
  then have "call_cfunc g (evaluator g) proc (prim_arity p) (F_primitive (prim_fun p)) xs env (start env n) True =
    bindm (loop (mandatory_step (evaluator g) True env) (prim_arity p, xs, [])) (\<lambda>(args, buf).
    bindm (ASSERT_NO_MORE_ARG args) (\<lambda>_. as_is ((start env n)\<lparr>ret_type := False\<rparr>) (does (prim_fun p buf))))"
    by (elim disjE) (simp_all add: call_cfunc_def type_codes Let_def invoke_def)
  then show ?thesis using call_func [OF heap_leD [OF hide_le_self f(2)]] f(1,3) by simp
qed

lemma fails_prim_operand:
  assumes "evaluates g k G \<rho> f (VPrim p)" "list_all2 (evaluates g k G \<rho>) es1 vs" "length vs < prim_arity p" "fails_here g k G U \<rho> e msg"
  shows "fails_here g k G U \<rho> (App f (es1 @ e # es2)) msg"
proof (rule fails_app [OF assms(1)])
  fix A and m :: mach and proc xs env n
  assume s: "in_sight g k G A (m_heap m)" "unbound_ok U (hide A (m_heap m))" and c: "rep_val g k (hide A (m_heap m)) proc (VPrim p)"
    and r: "rep_exps g k (hide A (m_heap m)) xs (es1 @ e # es2)" "rep_env g k (hide A (m_heap m)) env \<rho>"
  obtain j where j: "prim_arity p = length vs + Suc j" using assms(3) less_iff_Suc_add by auto
  obtain rest vals h1 where v: "loop (mandatory_step (evaluator g) True env) (length vs + Suc j, xs, []) m =
      loop (mandatory_step (evaluator g) True env) (Suc j, rest, [] @ vals) (m\<lparr>m_heap := h1\<rparr>)" "heap_le (m_heap m) h1"
      "in_sight g k G A h1" "rep_exps g k (hide A h1) rest (e # es2)"
    using mandatory_values [OF assms(2) s(1) r, of "Suc j" "[]"] by blast
  note up = hide_mono [OF v(2), of A]
  obtain a z xs' where z: "rest = Ptr PTAG_CONS a" "mem (hide A h1) a = Some (PairCell z xs')" "rep_exp g k (hide A h1) z e"
    by (rule rep_exps_cases [OF v(4)])
  have "raises msg (EVAL (evaluator g) z env (m\<lparr>m_heap := h1\<rparr>))"
    using v(3) z(3) unbound_ok_le [OF s(2) up] rep_val_le(2) [OF r(2) up] by (intro fails_hereD(2) [OF assms(4)]) simp_all
  then have "raises msg (mandatory_step (evaluator g) True env (Suc j, rest, [] @ vals) (m\<lparr>m_heap := h1\<rparr>))"
    using heap_leD [OF hide_le_self z(2)] z(1)
    by (simp add: mandatory_step_def bindm_checks MUST_POP_ARG_def eval_arg_def raises_bindm)
  then have "raises msg (loop (mandatory_step (evaluator g) True env) (length vs + Suc j, xs, []) m)"
    unfolding v(1) by (rule raises_loop)
  then show "raises msg (loop (call_step g (evaluator g) (start env n)) (proc, xs, True) m)"
    unfolding call_prim [OF c] j by (rule raises_bindm)
qed

lemma fails_prim_few:
  assumes "evaluates g k G \<rho> f (VPrim p)" "list_all2 (evaluates g k G \<rho>) es vs" "length vs < prim_arity p"
  shows "fails_here g k G U \<rho> (App f es) ''missing argument(s)''"
proof (rule fails_app [OF assms(1)])
  fix A and m :: mach and proc xs env n
  assume s: "in_sight g k G A (m_heap m)" and c: "rep_val g k (hide A (m_heap m)) proc (VPrim p)"
    and r: "rep_exps g k (hide A (m_heap m)) xs es" "rep_env g k (hide A (m_heap m)) env \<rho>"
  obtain j where j: "prim_arity p = length vs + Suc j" using assms(3) less_iff_Suc_add by auto
  have xs: "rep_exps g k (hide A (m_heap m)) xs (es @ [])" using r(1) by simp
  obtain rest vals h1 where v: "loop (mandatory_step (evaluator g) True env) (length vs + Suc j, xs, []) m =
      loop (mandatory_step (evaluator g) True env) (Suc j, rest, [] @ vals) (m\<lparr>m_heap := h1\<rparr>)" "rep_exps g k (hide A h1) rest []"
    using mandatory_values [OF assms(2) s xs r(2), of "Suc j" "[]"] by blast
  have "rest = SCM_NULL" using rep_exps_null [OF v(2)] by simp
  then have "raises ''missing argument(s)'' (mandatory_step (evaluator g) True env (Suc j, rest, [] @ vals) (m\<lparr>m_heap := h1\<rparr>))"
    by (simp add: mandatory_step_def bindm_checks MUST_POP_ARG_def)
  then have "raises ''missing argument(s)'' (loop (mandatory_step (evaluator g) True env) (length vs + Suc j, xs, []) m)"
    unfolding v(1) by (rule raises_loop)
  then show "raises ''missing argument(s)'' (loop (call_step g (evaluator g) (start env n)) (proc, xs, True) m)"
    unfolding call_prim [OF c] j by (rule raises_bindm)
qed

lemma fails_prim_many:
  assumes "evaluates g k G \<rho> f (VPrim p)" "list_all2 (evaluates g k G \<rho>) es1 vs" "length vs = prim_arity p" "es2 \<noteq> []"
  shows "fails_here g k G U \<rho> (App f (es1 @ es2)) ''superfluous argument(s)''"
proof (rule fails_app [OF assms(1)])
  fix A and m :: mach and proc xs env n
  assume s: "in_sight g k G A (m_heap m)" and c: "rep_val g k (hide A (m_heap m)) proc (VPrim p)"
    and r: "rep_exps g k (hide A (m_heap m)) xs (es1 @ es2)" "rep_env g k (hide A (m_heap m)) env \<rho>"
  obtain rest vals h1 where v: "loop (mandatory_step (evaluator g) True env) (length vs + 0, xs, []) m =
      loop (mandatory_step (evaluator g) True env) (0, rest, [] @ vals) (m\<lparr>m_heap := h1\<rparr>)" "rep_exps g k (hide A h1) rest es2"
    using mandatory_values [OF assms(2) s r, of 0 "[]"] by blast
  have "loop (mandatory_step (evaluator g) True env) (0, rest, [] @ vals) (m\<lparr>m_heap := h1\<rparr>) = Some (Value (rest, vals), m\<lparr>m_heap := h1\<rparr>)"
    by (subst loop_unfold) (simp add: mandatory_step_def, simp add: ret_def)
  then have l: "loop (mandatory_step (evaluator g) True env) (prim_arity p, xs, []) m = Some (Value (rest, vals), m\<lparr>m_heap := h1\<rparr>)"
    using v(1) assms(3) by simp
  have "CONSP rest" using rep_exps_null [OF v(2)] assms(4) by simp
  then show "raises ''superfluous argument(s)'' (loop (call_step g (evaluator g) (start env n)) (proc, xs, True) m)"
    unfolding call_prim [OF c] using l
    by (simp add: bindm_value ASSERT_NO_MORE_ARG_def bindm_checks ENSURE_NO_MORE_ARG_def NO_MORE_ARG_def)
qed

lemma fails_no_pair:
  assumes "evaluates g k G \<rho> f (VPrim p)" "p = P_car \<or> p = P_cdr" "list_all2 (evaluates g k G \<rho>) es [v]" "\<forall>u w. v \<noteq> VPair u w"
  shows "fails_here g k G U \<rho> (App f es) ''pair required but got''"
proof (rule fails_app [OF assms(1)])
  fix A and m :: mach and proc xs env n
  assume s: "in_sight g k G A (m_heap m)" and c: "rep_val g k (hide A (m_heap m)) proc (VPrim p)"
    and r: "rep_exps g k (hide A (m_heap m)) xs es" "rep_env g k (hide A (m_heap m)) env \<rho>"
  obtain vals h1 where l: "loop (mandatory_step (evaluator g) True env) (length [v], xs, []) m = Some (Value (SCM_NULL, vals), m\<lparr>m_heap := h1\<rparr>)"
      "list_all2 (rep_val g k (hide A h1)) vals [v]"
    by (rule mandatory_all [OF assms(3) s r])
  obtain x where x: "vals = [x]" "rep_val g k (hide A h1) x v" using l(2) by (auto simp: list_all2_Cons2)
  have "\<not> CONSP x" using rep_val_shape(1) [OF x(2)] assms(4) by blast
  then show "raises ''pair required but got'' (loop (call_step g (evaluator g) (start env n)) (proc, xs, True) m)"
    unfolding call_prim [OF c] using assms(2) l(1) x(1)
    by (auto simp: bindm_value as_is_def bindm_does scm_p_car_def scm_p_cdr_def raises_def)
qed

section \<open>Reductions\<close>

lemma call_op:
  assumes "rep_val g k (hide A (m_heap m)) proc (VOp func)"
  shows "loop (call_step g (evaluator g) (start env n)) (proc, xs, True) m =
    bindm (reduce_args (evaluator g) func xs env True) (\<lambda>x. ret (x, start env n)) m"
proof -
  obtain b q where f: "proc = Ptr PTAG_MISC b" "mem (hide A (m_heap m)) b = Some (FuncCell SCM_REDUCTION_OPERATOR q)"
      "cfuncs g q = F_reduction func"
    by (rule rep_op_cases [OF assms]) (rule that)
  then show ?thesis using call_func [OF heap_leD [OF hide_le_self f(2)]] by (simp add: call_cfunc_def)
qed

lemma reduce_loop_prefix:
  assumes "list_all2 (evaluates g k G \<rho>) es (List.map VAtom ys)" "es' \<noteq> []" "reduce_prefix func left ys = Some l"
    "in_sight g k G A (m_heap m)" "rep_exps g k (hide A (m_heap m)) xs (es @ es')" "rep_env g k (hide A (m_heap m)) env \<rho>"
  shows "\<exists>rest h'. loop (reduce_step (evaluator g) func env True) (left, xs) m =
      loop (reduce_step (evaluator g) func env True) (l, rest) (m\<lparr>m_heap := h'\<rparr>) \<and>
    heap_le (m_heap m) h' \<and> in_sight g k G A h' \<and> rep_exps g k (hide A h') rest es'"
  using assms
proof (induction es arbitrary: m xs left ys)
  case Nil
  then show ?case by (intro exI [of _ xs] exI [of _ "m_heap m"]) simp
next
  case (Cons e es)
  let ?h = "m_heap m"
  obtain y ys' where ys: "ys = y # ys'" using Cons.prems(1) by (cases ys) auto
  have ev: "evaluates g k G \<rho> e (VAtom y)" "list_all2 (evaluates g k G \<rho>) es (List.map VAtom ys')" using Cons.prems(1) ys by auto
  have "rep_exps g k (hide A ?h) xs (e # es @ es')" using Cons.prems(5) by simp
  then obtain a z xs' where z: "xs = Ptr PTAG_CONS a" "mem (hide A ?h) a = Some (PairCell z xs')"
      "rep_exp g k (hide A ?h) z e" "rep_exps g k (hide A ?h) xs' (es @ es')"
    by (rule rep_exps_cases)
  obtain v' h1 where v: "EVAL (evaluator g) z env m = Some (Value v', m\<lparr>m_heap := h1\<rparr>)" "heap_le ?h h1" "in_sight g k G A h1"
      "rep_val g k (hide A h1) v' (VAtom y)"
    by (rule evaluates_EVAL [OF ev(1) Cons.prems(4) z(3) Cons.prems(6)])
  have v': "v' = y" using v(4) by (simp add: rep_atom)
  have xs': "CONSP xs'" using rep_exps_null [OF z(4)] Cons.prems(2) by simp
  obtain l' state where f: "func left y SCM_REDUCE_PARTWAY = Inr (l', state)" "state \<noteq> SCM_REDUCE_STOP" "reduce_prefix func l' ys' = Some l"
    using Cons.prems(3) ys by (cases "func left y SCM_REDUCE_PARTWAY") (auto split: if_splits)
  have step: "loop (reduce_step (evaluator g) func env True) (left, xs) m =
      loop (reduce_step (evaluator g) func env True) (l', xs') (m\<lparr>m_heap := h1\<rparr>)"
    using f(1,2) v(1) v' z(1) heap_leD [OF hide_le_self z(2)] xs'
    by (subst loop_unfold) (simp add: reduce_step_def bindm_reads eval_arg_def bindm_value bindm_checks)
  note up = hide_mono [OF v(2), of A]
  have "\<exists>rest h'. loop (reduce_step (evaluator g) func env True) (l', xs') (m\<lparr>m_heap := h1\<rparr>) =
      loop (reduce_step (evaluator g) func env True) (l, rest) ((m\<lparr>m_heap := h1\<rparr>)\<lparr>m_heap := h'\<rparr>) \<and>
      heap_le (m_heap (m\<lparr>m_heap := h1\<rparr>)) h' \<and> in_sight g k G A h' \<and> rep_exps g k (hide A h') rest es'"
    by (rule Cons.IH [OF ev(2) Cons.prems(2) f(3)])
      (use v(3) rep_exp_le(2) [OF z(4) up] rep_val_le(2) [OF Cons.prems(6) up] in simp_all)
  then show ?case using step heap_le_trans [OF v(2)] by auto
qed

lemma reduce_loop_fails:
  assumes "list_all2 (evaluates g k G \<rho>) es1 (List.map VAtom ys)" "reduce_prefix func left ys = Some l" "fails_here g k G U \<rho> e msg"
    "in_sight g k G A (m_heap m)" "unbound_ok U (hide A (m_heap m))" "rep_exps g k (hide A (m_heap m)) xs (es1 @ e # es2)"
    "rep_env g k (hide A (m_heap m)) env \<rho>"
  shows "raises msg (loop (reduce_step (evaluator g) func env True) (left, xs) m)"
proof -
  obtain rest h1 where p: "loop (reduce_step (evaluator g) func env True) (left, xs) m =
      loop (reduce_step (evaluator g) func env True) (l, rest) (m\<lparr>m_heap := h1\<rparr>)" "heap_le (m_heap m) h1" "in_sight g k G A h1"
      "rep_exps g k (hide A h1) rest (e # es2)"
    using reduce_loop_prefix [OF assms(1) _ assms(2,4,6,7)] by auto
  note up = hide_mono [OF p(2), of A]
  obtain a z xs' where z: "rest = Ptr PTAG_CONS a" "mem (hide A h1) a = Some (PairCell z xs')" "rep_exp g k (hide A h1) z e"
      "rep_exps g k (hide A h1) xs' es2"
    by (rule rep_exps_cases [OF p(4)])
  have "raises msg (EVAL (evaluator g) z env (m\<lparr>m_heap := h1\<rparr>))"
    using p(3) z(3) unbound_ok_le [OF assms(5) up] rep_val_le(2) [OF assms(7) up] by (intro fails_hereD(2) [OF assms(3)]) simp_all
  moreover have "CONSP xs' \<or> xs' = SCM_NULL" using rep_exps_null [OF z(4)] by blast
  ultimately have "raises msg (reduce_step (evaluator g) func env True (l, rest) (m\<lparr>m_heap := h1\<rparr>))"
    using heap_leD [OF hide_le_self z(2)] z(1) by (auto simp: reduce_step_def bindm_reads eval_arg_def intro: raises_bindm)
  then show ?thesis unfolding p(1) by (rule raises_loop)
qed

lemma fails_op_operand:
  assumes "evaluates g k G \<rho> f (VOp func)" "list_all2 (evaluates g k G \<rho>) es1 (List.map VAtom ys)" "reducible func ys"
    "fails_here g k G U \<rho> e msg"
  shows "fails_here g k G U \<rho> (App f (es1 @ e # es2)) msg"
proof (rule fails_app [OF assms(1)])
  fix A and m :: mach and proc xs env n
  let ?h = "m_heap m"
  assume s: "in_sight g k G A ?h" and u: "unbound_ok U (hide A ?h)" and c: "rep_val g k (hide A ?h) proc (VOp func)"
    and r: "rep_exps g k (hide A ?h) xs (es1 @ e # es2)" and env: "rep_env g k (hide A ?h) env \<rho>"
  have "raises msg (reduce_args (evaluator g) func xs env True m)"
  proof (cases es1)
    case Nil
    obtain a z xs' where z: "xs = Ptr PTAG_CONS a" "mem (hide A ?h) a = Some (PairCell z xs')" "rep_exp g k (hide A ?h) z e"
      by (rule rep_exps_cases [OF r [unfolded Nil append_Nil]])
    have "raises msg (EVAL (evaluator g) z env m)" by (rule fails_hereD(2) [OF assms(4) s u z(3) env])
    then show ?thesis
      using heap_leD [OF hide_le_self z(2)] z(1)
      by (simp add: reduce_args_def bindm_checks NO_MORE_ARG_def bindm_reads eval_arg_def raises_bindm)
  next
    case (Cons e1 es1')
    obtain y ys' where ys: "ys = y # ys'" using assms(2) Cons by (cases ys) auto
    have ev: "evaluates g k G \<rho> e1 (VAtom y)" "list_all2 (evaluates g k G \<rho>) es1' (List.map VAtom ys')" using assms(2) ys Cons by auto
    have "rep_exps g k (hide A ?h) xs (e1 # es1' @ e # es2)" using r Cons by simp
    then obtain a z xs' where z: "xs = Ptr PTAG_CONS a" "mem (hide A ?h) a = Some (PairCell z xs')"
        "rep_exp g k (hide A ?h) z e1" "rep_exps g k (hide A ?h) xs' (es1' @ e # es2)"
      by (rule rep_exps_cases)
    obtain v' h1 where v: "EVAL (evaluator g) z env m = Some (Value v', m\<lparr>m_heap := h1\<rparr>)" "heap_le ?h h1" "in_sight g k G A h1"
        "rep_val g k (hide A h1) v' (VAtom y)"
      by (rule evaluates_EVAL [OF ev(1) s z(3) env])
    have v': "v' = y" using v(4) by (simp add: rep_atom)
    have "CONSP xs'" using rep_exps_null [OF z(4)] by simp
    then have step: "reduce_args (evaluator g) func xs env True m =
        loop (reduce_step (evaluator g) func env True) (y, xs') (m\<lparr>m_heap := h1\<rparr>)"
      using v(1) v' z(1) heap_leD [OF hide_le_self z(2)]
      by (simp add: reduce_args_def bindm_checks NO_MORE_ARG_def bindm_reads eval_arg_def bindm_value)
    obtain l where l: "reduce_prefix func y ys' = Some l" using assms(3) ys by (auto simp: reducible_def)
    note up = hide_mono [OF v(2), of A]
    show ?thesis
      unfolding step by (rule reduce_loop_fails [OF ev(2) l assms(4)])
        (use v(3) unbound_ok_le [OF u up] rep_exp_le(2) [OF z(4) up] rep_val_le(2) [OF env up] in simp_all)
  qed
  then show "raises msg (loop (call_step g (evaluator g) (start env n)) (proc, xs, True) m)"
    unfolding call_op [OF c] by (rule raises_bindm)
qed

lemma reduce_loop_error:
  assumes "list_all2 (evaluates g k G \<rho>) es (List.map VAtom ys)" "es \<noteq> []" "reduce_values_loop func left ys = Inl err"
    "in_sight g k G A (m_heap m)" "rep_exps g k (hide A (m_heap m)) xs es" "rep_env g k (hide A (m_heap m)) env \<rho>"
  shows "raises (error_text err) (loop (reduce_step (evaluator g) func env True) (left, xs) m)"
  using assms
proof (induction es arbitrary: m xs left ys)
  case (Cons e es)
  let ?h = "m_heap m" and ?loop = "loop (reduce_step (evaluator g) func env True)"
  obtain y ys' where ys: "ys = y # ys'" using Cons.prems(1) by (cases ys) auto
  have ev: "evaluates g k G \<rho> e (VAtom y)" "list_all2 (evaluates g k G \<rho>) es (List.map VAtom ys')" using Cons.prems(1) ys by auto
  obtain a z xs' where z: "xs = Ptr PTAG_CONS a" "mem (hide A ?h) a = Some (PairCell z xs')"
      "rep_exp g k (hide A ?h) z e" "rep_exps g k (hide A ?h) xs' es"
    by (rule rep_exps_cases [OF Cons.prems(5)])
  obtain v' h1 where v: "EVAL (evaluator g) z env m = Some (Value v', m\<lparr>m_heap := h1\<rparr>)" "heap_le ?h h1" "in_sight g k G A h1"
      "rep_val g k (hide A h1) v' (VAtom y)"
    by (rule evaluates_EVAL [OF ev(1) Cons.prems(4) z(3) Cons.prems(6)])
  have v': "v' = y" using v(4) by (simp add: rep_atom)
  note m = heap_leD [OF hide_le_self z(2)] and up = hide_mono [OF v(2), of A]
  show ?case
  proof (cases ys')
    case Nil
    then have "es = []" using ev(2) by simp
    then have "xs' = SCM_NULL" using rep_exps_null [OF z(4)] by blast
    moreover have "func left y SCM_REDUCE_LAST = Inl err"
      using Cons.prems(3) ys Nil by (cases "func left y SCM_REDUCE_LAST") (auto split: prod.splits)
    ultimately show ?thesis
      using v(1) v' z(1) m
      by (intro raises_loop) (simp add: reduce_step_def bindm_reads eval_arg_def bindm_value bindm_checks)
  next
    case (Cons y2 ys2)
    then have es: "es \<noteq> []" using ev(2) by auto
    then have xs': "CONSP xs'" using rep_exps_null [OF z(4)] by blast
    show ?thesis
    proof (cases "func left y SCM_REDUCE_PARTWAY")
      case (Inl err')
      then have "err' = err" using Cons.prems(3) ys Cons by simp
      then show ?thesis
        using Inl v(1) v' z(1) m xs'
        by (intro raises_loop) (simp add: reduce_step_def bindm_reads eval_arg_def bindm_value bindm_checks)
    next
      case (Inr r)
      obtain l state where r: "r = (l, state)" by (cases r)
      then have f: "state \<noteq> SCM_REDUCE_STOP" "reduce_values_loop func l ys' = Inl err"
        using Cons.prems(3) ys Cons Inr by (auto split: if_splits)
      have step: "?loop (left, xs) m = ?loop (l, xs') (m\<lparr>m_heap := h1\<rparr>)"
        using f(1) Inr r v(1) v' z(1) m xs'
        by (subst loop_unfold) (simp add: reduce_step_def bindm_reads eval_arg_def bindm_value bindm_checks)
      show ?thesis
        unfolding step by (rule Cons.IH [OF ev(2) es f(2)])
          (use v(3) rep_exp_le(2) [OF z(4) up] rep_val_le(2) [OF Cons.prems(6) up] in simp_all)
    qed
  qed
qed simp

lemma reduce_args_error:
  assumes "list_all2 (evaluates g k G \<rho>) es (List.map VAtom ys)" "reduce_values func ys = Inl err"
    "in_sight g k G A (m_heap m)" "rep_exps g k (hide A (m_heap m)) xs es" "rep_env g k (hide A (m_heap m)) env \<rho>"
  shows "raises (error_text err) (reduce_args (evaluator g) func xs env True m)"
proof (cases es)
  case Nil
  then have "xs = SCM_NULL" "ys = []" using rep_exps_null [OF assms(4)] assms(1) by auto
  moreover have "func SCM_INVALID SCM_INVALID SCM_REDUCE_0 = Inl err"
    using assms(2) \<open>ys = []\<close> by (cases "func SCM_INVALID SCM_INVALID SCM_REDUCE_0") (auto split: prod.splits)
  ultimately show ?thesis by (simp add: reduce_args_def bindm_checks NO_MORE_ARG_def)
next
  case (Cons e es')
  let ?h = "m_heap m"
  obtain y ys' where ys: "ys = y # ys'" using assms(1) Cons by (cases ys) auto
  have ev: "evaluates g k G \<rho> e (VAtom y)" "list_all2 (evaluates g k G \<rho>) es' (List.map VAtom ys')" using assms(1) ys Cons by auto
  obtain a z xs' where z: "xs = Ptr PTAG_CONS a" "mem (hide A ?h) a = Some (PairCell z xs')"
      "rep_exp g k (hide A ?h) z e" "rep_exps g k (hide A ?h) xs' es'"
    by (rule rep_exps_cases [OF assms(4) [unfolded Cons]])
  obtain v' h1 where v: "EVAL (evaluator g) z env m = Some (Value v', m\<lparr>m_heap := h1\<rparr>)" "heap_le ?h h1" "in_sight g k G A h1"
      "rep_val g k (hide A h1) v' (VAtom y)"
    by (rule evaluates_EVAL [OF ev(1) assms(3) z(3) assms(5)])
  have v': "v' = y" using v(4) by (simp add: rep_atom)
  note m = heap_leD [OF hide_le_self z(2)] and up = hide_mono [OF v(2), of A]
  show ?thesis
  proof (cases ys')
    case Nil
    then have "xs' = SCM_NULL" using ev(2) rep_exps_null [OF z(4)] by simp
    moreover have "func y y SCM_REDUCE_1 = Inl err"
      using assms(2) ys Nil by (cases "func y y SCM_REDUCE_1") (auto split: prod.splits)
    ultimately show ?thesis
      using v(1) v' z(1) m
      by (simp add: reduce_args_def bindm_checks NO_MORE_ARG_def bindm_reads eval_arg_def bindm_value)
  next
    case (Cons y2 ys2)
    then have es: "es' \<noteq> []" using ev(2) by auto
    then have "CONSP xs'" using rep_exps_null [OF z(4)] by blast
    then have step: "reduce_args (evaluator g) func xs env True m =
        loop (reduce_step (evaluator g) func env True) (y, xs') (m\<lparr>m_heap := h1\<rparr>)"
      using v(1) v' z(1) m by (simp add: reduce_args_def bindm_checks NO_MORE_ARG_def bindm_reads eval_arg_def bindm_value)
    have red: "reduce_values_loop func y ys' = Inl err" using assms(2) ys Cons by simp
    show ?thesis
      unfolding step by (rule reduce_loop_error [OF ev(2) es red])
        (use v(3) rep_exp_le(2) [OF z(4) up] rep_val_le(2) [OF assms(5) up] in simp_all)
  qed
qed

lemma fails_op:
  assumes "evaluates g k G \<rho> f (VOp func)" "list_all2 (evaluates g k G \<rho>) es (List.map VAtom ys)" "reduce_values func ys = Inl err"
  shows "fails_here g k G U \<rho> (App f es) (error_text err)"
proof (rule fails_app [OF assms(1)])
  fix A and m :: mach and proc xs env n
  assume s: "in_sight g k G A (m_heap m)" and c: "rep_val g k (hide A (m_heap m)) proc (VOp func)"
    and r: "rep_exps g k (hide A (m_heap m)) xs es" "rep_env g k (hide A (m_heap m)) env \<rho>"
  have "raises (error_text err) (reduce_args (evaluator g) func xs env True m)" by (rule reduce_args_error [OF assms(2,3) s r])
  then show "raises (error_text err) (loop (call_step g (evaluator g) (start env n)) (proc, xs, True) m)"
    unfolding call_op [OF c] by (rule raises_bindm)
qed

section \<open>The evaluator raises the error of the semantics\<close>

lemma fails_evaluates:
  assumes "\<exists>a. scm_values_applier g = Ptr PTAG_MISC a"
  shows "fails G U \<rho> e msg \<Longrightarrow> fails_here g k G U \<rho> e msg"
proof (induction rule: fails.induct)
  case (fl_unbound s \<rho>)
  then show ?case by (rule fails_unbound)
next
  case (fl_test \<rho> c msg t e)
  then show ?case by (intro fails_test)
next
  case (fl_then \<rho> c u t msg e)
  then show ?case by (intro fails_branch [OF bigstep_evaluates(1) [OF fl_then.hyps(1)]]) simp
next
  case (fl_else \<rho> c e msg t)
  then show ?case by (intro fails_branch [OF bigstep_evaluates(1) [OF fl_else.hyps(1)]]) simp
next
  case (fl_binding bs bs1 s e bs2 \<rho> vs msg b)
  then show ?case using fails_binding [OF bigstep_evaluates(2) [OF fl_binding.hyps(2)]] by simp
next
  case (fl_let \<rho> bs vs b msg)
  then show ?case by (intro fails_let [OF bigstep_evaluates(2) [OF fl_let.hyps(1)]])
next
  case (fl_operator \<rho> f msg es)
  then show ?case by (intro fails_operator)
next
  case (fl_no_procedure \<rho> f v es)
  then show ?case by (intro fails_no_procedure [OF bigstep_evaluates(1) [OF fl_no_procedure.hyps(1)]] assms)
next
  case (fl_operand \<rho> f ps b \<rho>' es1 vs e msg es2)
  then show ?case
    by (intro fails_operand [OF bigstep_evaluates(1) [OF fl_operand.hyps(1)] bigstep_evaluates(2) [OF fl_operand.hyps(2)]])
next
  case (fl_arity \<rho> f ps b \<rho>' es vs)
  then show ?case by (intro fails_arity [OF bigstep_evaluates(1) [OF fl_arity.hyps(1)] bigstep_evaluates(2) [OF fl_arity.hyps(2)]])
next
  case (fl_body \<rho> f ps b \<rho>' es vs msg)
  then show ?case by (intro fails_body [OF bigstep_evaluates(1) [OF fl_body.hyps(1)] bigstep_evaluates(2) [OF fl_body.hyps(2)]])
next
  case (fl_op_operand \<rho> f func es1 xs e msg es2)
  then show ?case
    by (intro fails_op_operand [OF bigstep_evaluates(1) [OF fl_op_operand.hyps(1)] bigstep_evaluates(2) [OF fl_op_operand.hyps(2)]])
next
  case (fl_op \<rho> f func es xs err)
  then show ?case by (intro fails_op [OF bigstep_evaluates(1) [OF fl_op.hyps(1)] bigstep_evaluates(2) [OF fl_op.hyps(2)]])
next
  case (fl_prim_operand \<rho> f p es1 vs e msg es2)
  then show ?case
    by (intro fails_prim_operand [OF bigstep_evaluates(1) [OF fl_prim_operand.hyps(1)] bigstep_evaluates(2) [OF fl_prim_operand.hyps(2)]])
next
  case (fl_prim_few \<rho> f p es vs)
  then show ?case by (intro fails_prim_few [OF bigstep_evaluates(1) [OF fl_prim_few.hyps(1)] bigstep_evaluates(2) [OF fl_prim_few.hyps(2)]])
next
  case (fl_prim_many \<rho> f p es1 vs es2)
  then show ?case by (intro fails_prim_many [OF bigstep_evaluates(1) [OF fl_prim_many.hyps(1)] bigstep_evaluates(2) [OF fl_prim_many.hyps(2)]])
next
  case (fl_no_pair \<rho> f p es v)
  then show ?case by (intro fails_no_pair [OF bigstep_evaluates(1) [OF fl_no_pair.hyps(1)] _ bigstep_evaluates(2) [OF fl_no_pair.hyps(3)]])
qed

lemma failure_correct:
  assumes "fails G U \<rho> e msg" "brk_ok (m_heap m)" "program_ok g k G (m_heap m)" "unbound_ok U (m_heap m)"
    "\<exists>a. scm_values_applier g = Ptr PTAG_MISC a" "rep_exp g k (m_heap m) x e" "rep_env g k (m_heap m) env \<rho>"
  shows "\<exists>err m'. scm_eval g x env m = Some (Raised err, m') \<and> error_text err = msg"
proof -
  have s: "in_sight g k G {} (m_heap m)" using assms(2,3) by (simp add: in_sight_def)
  have "raises msg (EVAL (evaluator g) x env m)"
    by (rule fails_hereD(2) [OF fails_evaluates [OF assms(5,1)] s]) (use assms(4,6,7) in simp_all)
  then show ?thesis by (auto simp: scm_eval_def raises_def)
qed

end
