(* ===== verification/Recursion.thy ===== *)
theory Recursion
  imports Failures
begin

section \<open>A recursive procedure\<close>

text \<open>The heap after \<^verbatim>\<open>(define fact (lambda (n) (if (< n 2) 1 (* n (fact (- n 1))))))\<close> with the datum
  \<^verbatim>\<open>(fact i)\<close> at the address 35.\<close>

definition fact_cells :: "int \<Rightarrow> cell list" where
  "fact_cells i = [FuncCell 114 0, SymbolCell (Ptr PTAG_MISC 0) ''if'', FuncCell 49 1, SymbolCell (Ptr PTAG_MISC 2) ''lambda'',
     FuncCell 113 2, SymbolCell (Ptr PTAG_MISC 4) ''let'', SymbolCell SCM_UNBOUND ''begin'', SymbolCell SCM_UNBOUND ''define'',
     FuncCell SCM_REDUCTION_OPERATOR 3, SymbolCell (Ptr PTAG_MISC 8) ''<'', FuncCell SCM_REDUCTION_OPERATOR 4, SymbolCell (Ptr PTAG_MISC 10) ''*'',
     FuncCell SCM_REDUCTION_OPERATOR 5, SymbolCell (Ptr PTAG_MISC 12) ''-'', SymbolCell SCM_UNBOUND ''n'', SymbolCell (Ptr PTAG_CLOSURE 16) ''fact'',
     PairCell (Ptr PTAG_CONS 17) SCM_NULL, PairCell (Ptr PTAG_CONS 18) (Ptr PTAG_CONS 19), PairCell (Ptr PTAG_MISC 14) SCM_NULL,
     PairCell (Ptr PTAG_CONS 20) SCM_NULL,
     PairCell (Ptr PTAG_MISC 1) (Ptr PTAG_CONS 21), PairCell (Ptr PTAG_CONS 24) (Ptr PTAG_CONS 22), PairCell (IntObj 1) (Ptr PTAG_CONS 23),
     PairCell (Ptr PTAG_CONS 27) SCM_NULL,
     PairCell (Ptr PTAG_MISC 9) (Ptr PTAG_CONS 25), PairCell (Ptr PTAG_MISC 14) (Ptr PTAG_CONS 26), PairCell (IntObj 2) SCM_NULL,
     PairCell (Ptr PTAG_MISC 11) (Ptr PTAG_CONS 28), PairCell (Ptr PTAG_MISC 14) (Ptr PTAG_CONS 29), PairCell (Ptr PTAG_CONS 30) SCM_NULL,
     PairCell (Ptr PTAG_MISC 15) (Ptr PTAG_CONS 31), PairCell (Ptr PTAG_CONS 32) SCM_NULL,
     PairCell (Ptr PTAG_MISC 13) (Ptr PTAG_CONS 33), PairCell (Ptr PTAG_MISC 14) (Ptr PTAG_CONS 34), PairCell (IntObj 1) SCM_NULL,
     PairCell (Ptr PTAG_MISC 15) (Ptr PTAG_CONS 36), PairCell (IntObj i) SCM_NULL, ContinuationCell 0 0]"

definition fact_heap :: "int \<Rightarrow> heap" where
  "fact_heap i = \<lparr>mem = (\<lambda>a. if a < 38 then Some (fact_cells i ! a) else None), brk = 38\<rparr>"

definition fact_mach :: "int \<Rightarrow> mach" where
  "fact_mach i = \<lparr>m_heap = fact_heap i, l_current_dynamic_extent = SCM_NULL, l_continuation_stack = SCM_NULL,
     m_frames = (\<lambda>_. \<lparr>cf_dyn_ext = SCM_NULL, cf_ret_val = SCM_NULL\<rparr>), m_next_frame = 0\<rparr>"

definition fact_interp :: interp where
  "fact_interp = \<lparr>cfuncs = (\<lambda>i. [F_if, F_lambda, F_let, F_reduction scm_p_less, F_reduction scm_p_multiply, F_reduction scm_p_subtract] ! i),
     scm_sym_quote = SCM_UNDEF, scm_sym_quasiquote = SCM_UNDEF, scm_sym_unquote = SCM_UNDEF, scm_sym_unquote_splicing = SCM_UNDEF,
     scm_sym_ellipsis = SCM_UNDEF, l_sym_else = SCM_UNDEF, l_sym_yields = SCM_UNDEF, l_sym_define = Ptr PTAG_MISC 7,
     l_sym_begin = Ptr PTAG_MISC 6, l_syn_lambda = Ptr PTAG_MISC 2, scm_values_applier = Ptr PTAG_MISC 37, l_promise_tag = SCM_UNDEF,
     i_srfi9 = no_srfi9\<rparr>"

definition fact_names :: syntax_names where
  "fact_names = \<lparr>kw_if = Ptr PTAG_MISC 1, kw_lambda = Ptr PTAG_MISC 3, kw_let = Ptr PTAG_MISC 5\<rparr>"

text \<open>The procedure and the call as expressions.\<close>

definition fact_body :: exp where
  "fact_body = If (App (Var (Ptr PTAG_MISC 9)) [Var (Ptr PTAG_MISC 14), Const (IntObj 2)]) (Const (IntObj 1))
     (App (Var (Ptr PTAG_MISC 11)) [Var (Ptr PTAG_MISC 14),
        App (Var (Ptr PTAG_MISC 15)) [App (Var (Ptr PTAG_MISC 13)) [Var (Ptr PTAG_MISC 14), Const (IntObj 1)]]])"

definition fact_globals :: "obj \<Rightarrow> val option" where
  "fact_globals = map_of [(Ptr PTAG_MISC 9, VOp scm_p_less), (Ptr PTAG_MISC 11, VOp scm_p_multiply),
     (Ptr PTAG_MISC 13, VOp scm_p_subtract), (Ptr PTAG_MISC 15, VClos [Ptr PTAG_MISC 14] fact_body [])]"

lemma fact_mem: "a < 38 \<Longrightarrow> mem (fact_heap i) a = Some (fact_cells i ! a)"
  by (simp add: fact_heap_def)

lemmas fact_simps = fact_mem fact_cells_def has_pair_def variable_def reserved_def fact_interp_def fact_names_def

lemma fact_call_rep: "rep_exp fact_interp fact_names (fact_heap i) (Ptr PTAG_CONS 35) (App (Var (Ptr PTAG_MISC 15)) [Const (IntObj i)])"
  by (rule rx_app [where xf = "Ptr PTAG_MISC 15" and xs = "Ptr PTAG_CONS 36"], simp add: fact_simps,
    rule rx_var, simp add: fact_simps, rule rx_cons [where x = "IntObj i" and xs = SCM_NULL], simp add: fact_simps,
    rule rx_const, simp, rule rx_nil)

lemma fact_body_rep: "rep_exp fact_interp fact_names (fact_heap i) (Ptr PTAG_CONS 20) fact_body"
proof -
  have vars: "rep_exp fact_interp fact_names (fact_heap i) (Ptr PTAG_MISC a) (Var (Ptr PTAG_MISC a))" if "a \<in> {9, 11, 13, 14, 15}" for a
    using that by (intro rx_var) (auto simp: fact_simps)
  have ints: "rep_exp fact_interp fact_names (fact_heap i) (IntObj j) (Const (IntObj j))" for j
    by (rule rx_const) simp
  have exps: "rep_exps fact_interp fact_names (fact_heap i) (Ptr PTAG_CONS a) (e # es)"
    if "a < 38" "fact_cells i ! a = PairCell x xs" "rep_exp fact_interp fact_names (fact_heap i) x e"
      "rep_exps fact_interp fact_names (fact_heap i) xs es" for a x xs e es
    using rx_cons [OF _ that(3,4)] that(1,2) by (simp add: fact_mem)
  have app: "rep_exp fact_interp fact_names (fact_heap i) (Ptr PTAG_CONS a) (App f es)"
    if "a < 38" "fact_cells i ! a = PairCell x xs" "rep_exp fact_interp fact_names (fact_heap i) x f"
      "rep_exps fact_interp fact_names (fact_heap i) xs es" for a x xs f es
    using rx_app [OF _ that(3,4)] that(1,2) by (simp add: fact_mem)
  note build = exps [OF _ _ vars] exps [OF _ _ ints] app [OF _ _ vars]
  have c34: "rep_exps fact_interp fact_names (fact_heap i) (Ptr PTAG_CONS 34) [Const (IntObj 1)]"
    by (rule build(2) [OF _ _ rx_nil]) (simp_all add: fact_cells_def)
  have c33: "rep_exps fact_interp fact_names (fact_heap i) (Ptr PTAG_CONS 33) [Var (Ptr PTAG_MISC 14), Const (IntObj 1)]"
    by (rule build(1) [OF _ _ _ c34]) (simp_all add: fact_cells_def)
  have c32: "rep_exp fact_interp fact_names (fact_heap i) (Ptr PTAG_CONS 32)
      (App (Var (Ptr PTAG_MISC 13)) [Var (Ptr PTAG_MISC 14), Const (IntObj 1)])"
    by (rule build(3) [OF _ _ _ c33]) (simp_all add: fact_cells_def)
  have c31: "rep_exps fact_interp fact_names (fact_heap i) (Ptr PTAG_CONS 31)
      [App (Var (Ptr PTAG_MISC 13)) [Var (Ptr PTAG_MISC 14), Const (IntObj 1)]]"
    by (rule exps [OF _ _ c32 rx_nil]) (simp_all add: fact_cells_def)
  have c30: "rep_exp fact_interp fact_names (fact_heap i) (Ptr PTAG_CONS 30)
      (App (Var (Ptr PTAG_MISC 15)) [App (Var (Ptr PTAG_MISC 13)) [Var (Ptr PTAG_MISC 14), Const (IntObj 1)]])"
    by (rule build(3) [OF _ _ _ c31]) (simp_all add: fact_cells_def)
  have c29: "rep_exps fact_interp fact_names (fact_heap i) (Ptr PTAG_CONS 29)
      [App (Var (Ptr PTAG_MISC 15)) [App (Var (Ptr PTAG_MISC 13)) [Var (Ptr PTAG_MISC 14), Const (IntObj 1)]]]"
    by (rule exps [OF _ _ c30 rx_nil]) (simp_all add: fact_cells_def)
  have c28: "rep_exps fact_interp fact_names (fact_heap i) (Ptr PTAG_CONS 28) [Var (Ptr PTAG_MISC 14),
      App (Var (Ptr PTAG_MISC 15)) [App (Var (Ptr PTAG_MISC 13)) [Var (Ptr PTAG_MISC 14), Const (IntObj 1)]]]"
    by (rule build(1) [OF _ _ _ c29]) (simp_all add: fact_cells_def)
  have mul: "rep_exp fact_interp fact_names (fact_heap i) (Ptr PTAG_CONS 27) (App (Var (Ptr PTAG_MISC 11)) [Var (Ptr PTAG_MISC 14),
      App (Var (Ptr PTAG_MISC 15)) [App (Var (Ptr PTAG_MISC 13)) [Var (Ptr PTAG_MISC 14), Const (IntObj 1)]]])"
    by (rule build(3) [OF _ _ _ c28]) (simp_all add: fact_cells_def)
  have c26: "rep_exps fact_interp fact_names (fact_heap i) (Ptr PTAG_CONS 26) [Const (IntObj 2)]"
    by (rule build(2) [OF _ _ rx_nil]) (simp_all add: fact_cells_def)
  have c25: "rep_exps fact_interp fact_names (fact_heap i) (Ptr PTAG_CONS 25) [Var (Ptr PTAG_MISC 14), Const (IntObj 2)]"
    by (rule build(1) [OF _ _ _ c26]) (simp_all add: fact_cells_def)
  have less: "rep_exp fact_interp fact_names (fact_heap i) (Ptr PTAG_CONS 24)
      (App (Var (Ptr PTAG_MISC 9)) [Var (Ptr PTAG_MISC 14), Const (IntObj 2)])"
    by (rule build(3) [OF _ _ _ c25]) (simp_all add: fact_cells_def)
  show ?thesis
    unfolding fact_body_def
    by (rule rx_if [OF _ less ints mul]) (simp add: fact_simps)
qed

lemma fact_program: "program_ok fact_interp fact_names fact_globals (fact_heap i)"
proof -
  have op: "rep_val fact_interp fact_names (fact_heap i) (Ptr PTAG_MISC a) (VOp func)"
    if "a < 38" "fact_cells i ! a = FuncCell SCM_REDUCTION_OPERATOR n" "cfuncs fact_interp n = F_reduction func" for a n func
    using rv_op [OF _ that(3)] that(1,2) by (simp add: fact_mem)
  have clos: "rep_val fact_interp fact_names (fact_heap i) (Ptr PTAG_CLOSURE 16) (VClos [Ptr PTAG_MISC 14] fact_body [])"
    by (rule rv_clos [where e = 17 and f = "Ptr PTAG_CONS 18" and xs = "Ptr PTAG_CONS 19", OF _ _ _ _ fact_body_rep re_nil])
      (simp_all add: fact_simps formals_rep_def)
  have "SYMBOLP (fact_heap i) s \<and> rep_val fact_interp fact_names (fact_heap i) (SYMBOL_VCELL (fact_heap i) s) v"
    if "fact_globals s = Some v" for s v
    using that op [of 8 3 scm_p_less] op [of 10 4 scm_p_multiply] op [of 12 5 scm_p_subtract] clos
    by (auto simp: fact_globals_def fact_simps split: if_splits)
  moreover have "keyword_at fact_interp (fact_heap i) (Ptr PTAG_MISC 1) 114 F_if"
      "keyword_at fact_interp (fact_heap i) (Ptr PTAG_MISC 3) 49 F_lambda" "keyword_at fact_interp (fact_heap i) (Ptr PTAG_MISC 5) 113 F_let"
    by (simp_all add: keyword_at_def fact_simps)
  ultimately show ?thesis by (simp add: program_ok_def) (simp add: fact_simps)
qed

lemma fact_brk: "brk_ok (fact_heap i)"
  by (auto simp: brk_ok_def fact_heap_def)

lemma fact_le:
  assumes "n \<le> 19"
  shows "fits (fact n)"
proof -
  have "fact n \<le> (fact 19 :: int)" using assms by (intro fact_mono) simp_all
  moreover have "(fact 19 :: int) \<le> 2 ^ 59 - 1" by (simp add: fact_numeral)
  moreover have "(0 :: int) \<le> fact n" by simp
  ultimately have "- (2 ^ 59) \<le> (fact n :: int)" "fact n < (2 ^ 59 :: int)" by linarith+
  then show ?thesis unfolding fits_bounds by blast
qed

lemma small_fits: "n \<le> 19 \<Longrightarrow> fits (int n)"
  by (simp add: fits_bounds)

lemma less_value: "reduce_values scm_p_less [IntObj a, IntObj b] = Inr (MAKE_BOOL (a < b))"
  by (auto simp: scm_p_less_def COMPARATOR_BODY_def MAKE_BOOL_def)

lemma multiply_value: "fits (a * b) \<Longrightarrow> reduce_values scm_p_multiply [IntObj a, IntObj b] = Inr (IntObj (a * b))"
  by (simp add: scm_p_multiply_def multiply_checked checked_def int_result_def)

lemma subtract_value: "fits a \<Longrightarrow> 1 \<le> a \<Longrightarrow> reduce_values scm_p_subtract [IntObj a, IntObj 1] = Inr (IntObj (a - 1))"
  by (auto simp: scm_p_subtract_def int_result_def Let_def fits_bounds num_defs)

lemma bigstep_op2:
  assumes "bigstep G \<rho> f (VOp func)" "bigstep G \<rho> a (VAtom x)" "bigstep G \<rho> b (VAtom y)"
    "reduce_values func [x, y] = Inr z" "atomic z"
  shows "bigstep G \<rho> (App f [a, b]) (VAtom z)"
proof -
  have "bigsteps G \<rho> [a, b] (List.map VAtom [x, y])" using assms(2,3) by (simp add: bs_cons bs_nil)
  then show ?thesis by (rule bs_op [OF assms(1) _ assms(4,5)])
qed

text \<open>The body of the procedure with its variable bound, given that the recursive call is right.\<close>

lemma fact_body_bigstep:
  assumes "n \<le> 19" "\<rho> = [[(Ptr PTAG_MISC 14, VAtom (IntObj (int n)))]]"
    "2 \<le> n \<Longrightarrow> bigstep fact_globals \<rho> (App (Var (Ptr PTAG_MISC 15)) [App (Var (Ptr PTAG_MISC 13)) [Var (Ptr PTAG_MISC 14), Const (IntObj 1)]])
       (VAtom (IntObj (fact (n - 1))))"
  shows "bigstep fact_globals \<rho> fact_body (VAtom (IntObj (fact n)))"
proof -
  have var: "bigstep fact_globals \<rho> (Var (Ptr PTAG_MISC 14)) (VAtom (IntObj (int n)))"
    by (rule bs_local) (simp add: assms(2))
  have glob: "bigstep fact_globals \<rho> (Var (Ptr PTAG_MISC a)) v" if "a \<noteq> 14" "fact_globals (Ptr PTAG_MISC a) = Some v" for a v
    by (rule bs_global) (use that in \<open>simp_all add: assms(2)\<close>)
  have test: "bigstep fact_globals \<rho> (App (Var (Ptr PTAG_MISC 9)) [Var (Ptr PTAG_MISC 14), Const (IntObj 2)])
      (VAtom (MAKE_BOOL (int n < 2)))"
    by (rule bigstep_op2 [OF glob var bs_const less_value]) (simp_all add: fact_globals_def)
  show ?thesis
  proof (cases "2 \<le> n")
    case True
    have f: "(fact n :: int) = int n * fact (n - 1)" using True by (simp add: fact_reduce)
    have "fits (int n * fact (n - 1))" using fact_le [OF assms(1)] f by simp
    then have "bigstep fact_globals \<rho> (App (Var (Ptr PTAG_MISC 11)) [Var (Ptr PTAG_MISC 14),
        App (Var (Ptr PTAG_MISC 15)) [App (Var (Ptr PTAG_MISC 13)) [Var (Ptr PTAG_MISC 14), Const (IntObj 1)]]])
        (VAtom (IntObj (int n * fact (n - 1))))"
      by (intro bigstep_op2 [OF glob var assms(3) multiply_value]) (simp_all add: fact_globals_def True)
    moreover have "MAKE_BOOL (int n < 2) = SCM_FALSE" using True by (simp add: MAKE_BOOL_def)
    ultimately show ?thesis using test unfolding fact_body_def f by (intro bs_if_false) simp_all
  next
    case False
    then have "n = 0 \<or> n = 1" by auto
    then have f: "fact n = (1 :: int)" by auto
    have "VAtom (MAKE_BOOL (int n < 2)) \<noteq> VAtom SCM_FALSE" using False by (simp add: MAKE_BOOL_def)
    then show ?thesis unfolding fact_body_def f by (rule bs_if_true [OF test _ bs_const])
  qed
qed

lemma fact_bigstep:
  assumes "n \<le> 19" "map_of (concat \<rho>) (Ptr PTAG_MISC 15) = None"
    "bigstep fact_globals \<rho> e (VAtom (IntObj (int n)))"
  shows "bigstep fact_globals \<rho> (App (Var (Ptr PTAG_MISC 15)) [e]) (VAtom (IntObj (fact n)))"
  using assms
proof (induction n arbitrary: \<rho> e rule: less_induct)
  case (less n)
  let ?env = "[[(Ptr PTAG_MISC 14, VAtom (IntObj (int n)))]]"
  have f: "bigstep fact_globals \<rho> (Var (Ptr PTAG_MISC 15)) (VClos [Ptr PTAG_MISC 14] fact_body [])"
    by (rule bs_global [OF less.prems(2)]) (simp add: fact_globals_def)
  have sub: "bigstep fact_globals ?env (App (Var (Ptr PTAG_MISC 13)) [Var (Ptr PTAG_MISC 14), Const (IntObj 1)])
      (VAtom (IntObj (int (n - 1))))" if "2 \<le> n"
  proof -
    have "int n - 1 = int (n - 1)" using that by simp
    then have r: "reduce_values scm_p_subtract [IntObj (int n), IntObj 1] = Inr (IntObj (int (n - 1)))"
      using subtract_value [OF small_fits [OF less.prems(1)]] that by (simp del: reduce_values.simps)
    show ?thesis
      by (rule bigstep_op2 [OF bs_global bs_local bs_const r]) (simp_all add: fact_globals_def)
  qed
  have body: "bigstep fact_globals ?env fact_body (VAtom (IntObj (fact n)))"
    by (rule fact_body_bigstep [OF less.prems(1) refl], rule less.IH) (use less.prems(1) sub in auto)
  show ?case
    by (rule bs_closure [OF f, where vs = "[VAtom (IntObj (int n))]"]) (use less.prems(3) body in \<open>auto intro: bs_cons bs_nil\<close>)
qed

text \<open>Below 2 the body is the constant.\<close>

lemma fact_base:
  assumes "i < 2" "map_of (concat \<rho>) (Ptr PTAG_MISC 15) = None" "bigstep fact_globals \<rho> e (VAtom (IntObj i))"
  shows "bigstep fact_globals \<rho> (App (Var (Ptr PTAG_MISC 15)) [e]) (VAtom (IntObj 1))"
proof -
  let ?env = "[[(Ptr PTAG_MISC 14, VAtom (IntObj i))]]"
  have f: "bigstep fact_globals \<rho> (Var (Ptr PTAG_MISC 15)) (VClos [Ptr PTAG_MISC 14] fact_body [])"
    by (rule bs_global [OF assms(2)]) (simp add: fact_globals_def)
  have "bigstep fact_globals ?env (App (Var (Ptr PTAG_MISC 9)) [Var (Ptr PTAG_MISC 14), Const (IntObj 2)]) (VAtom (MAKE_BOOL (i < 2)))"
    by (rule bigstep_op2 [OF bs_global bs_local bs_const less_value]) (simp_all add: fact_globals_def)
  then have "bigstep fact_globals ?env fact_body (VAtom (IntObj 1))"
    using assms(1) unfolding fact_body_def by (intro bs_if_true [OF _ _ bs_const]) (auto simp: MAKE_BOOL_def)
  then show ?thesis
    by (intro bs_closure [OF f, where vs = "[VAtom (IntObj i)]"]) (use assms(3) in \<open>auto intro: bs_cons bs_nil\<close>)
qed

text \<open>From 20 on the product overflows.\<close>

lemma overflow_value: "\<not> fits (a * b) \<Longrightarrow> reduce_values scm_p_multiply [IntObj a, IntObj b] = Inl fixnum_overflow"
  by (simp add: scm_p_multiply_def multiply_checked checked_def)

lemma fact_20: "\<not> fits (20 * fact 19)"
  by (simp add: fact_numeral fits_bounds)

lemma fact_fails:
  assumes "20 \<le> n" "fits (int n)" "map_of (concat \<rho>) (Ptr PTAG_MISC 15) = None"
    "bigstep fact_globals \<rho> e (VAtom (IntObj (int n)))"
  shows "fails fact_globals U \<rho> (App (Var (Ptr PTAG_MISC 15)) [e]) ''fixnum overflow''"
  using assms
proof (induction n arbitrary: \<rho> e rule: less_induct)
  case (less n)
  let ?env = "[[(Ptr PTAG_MISC 14, VAtom (IntObj (int n)))]]"
  let ?sub = "App (Var (Ptr PTAG_MISC 13)) [Var (Ptr PTAG_MISC 14), Const (IntObj 1)]"
  let ?rec = "App (Var (Ptr PTAG_MISC 15)) [?sub]"
  let ?mul = "App (Var (Ptr PTAG_MISC 11)) [Var (Ptr PTAG_MISC 14), ?rec]"
  have f: "bigstep fact_globals \<rho> (Var (Ptr PTAG_MISC 15)) (VClos [Ptr PTAG_MISC 14] fact_body [])"
    by (rule bs_global [OF less.prems(3)]) (simp add: fact_globals_def)
  have var: "bigstep fact_globals ?env (Var (Ptr PTAG_MISC 14)) (VAtom (IntObj (int n)))" by (rule bs_local) simp
  have glob: "bigstep fact_globals ?env (Var (Ptr PTAG_MISC a)) v" if "a \<noteq> 14" "fact_globals (Ptr PTAG_MISC a) = Some v" for a v
    by (rule bs_global) (use that in simp_all)
  have test: "bigstep fact_globals ?env (App (Var (Ptr PTAG_MISC 9)) [Var (Ptr PTAG_MISC 14), Const (IntObj 2)]) (VAtom SCM_FALSE)"
    using bigstep_op2 [OF glob var bs_const less_value, of 9 2] less.prems(1) by (simp add: fact_globals_def MAKE_BOOL_def)
  have "int n - 1 = int (n - 1)" using less.prems(1) by simp
  then have "reduce_values scm_p_subtract [IntObj (int n), IntObj 1] = Inr (IntObj (int (n - 1)))"
    using subtract_value [OF less.prems(2)] less.prems(1) by (simp del: reduce_values.simps)
  then have sub: "bigstep fact_globals ?env ?sub (VAtom (IntObj (int (n - 1))))"
    by (intro bigstep_op2 [OF glob var bs_const]) (simp_all add: fact_globals_def)
  have times: "bigstep fact_globals ?env (Var (Ptr PTAG_MISC 11)) (VOp scm_p_multiply)" by (rule glob) (simp_all add: fact_globals_def)
  have "fails fact_globals U ?env ?mul ''fixnum overflow''"
  proof (cases "n = 20")
    case True
    then have "bigstep fact_globals ?env ?rec (VAtom (IntObj (fact 19)))" using fact_bigstep [of 19 ?env ?sub] sub by simp
    then have "bigsteps fact_globals ?env [Var (Ptr PTAG_MISC 14), ?rec] (List.map VAtom [IntObj 20, IntObj (fact 19)])"
      using var True by (auto intro: bs_cons bs_nil)
    from fl_op [OF times this overflow_value [OF fact_20]] show ?thesis by (simp add: fixnum_overflow_def)
  next
    case False
    have "fits (int (n - 1))" using less.prems(1,2) by (simp add: fits_bounds)
    then have rec: "fails fact_globals U ?env ?rec ''fixnum overflow''"
      by (intro less.IH [of "n - 1"]) (use False less.prems(1) sub in simp_all)
    have "bigsteps fact_globals ?env [Var (Ptr PTAG_MISC 14)] (List.map VAtom [IntObj (int n)])"
      using var by (auto intro: bs_cons bs_nil)
    then show ?thesis using fl_op_operand [OF times _ _ rec, of "[Var (Ptr PTAG_MISC 14)]" "[IntObj (int n)]" "[]"] by (simp add: reducible_def)
  qed
  then have "fails fact_globals U ?env fact_body ''fixnum overflow''" unfolding fact_body_def by (rule fl_else [OF test])
  then show ?case
    by (intro fl_body [OF f, where vs = "[VAtom (IntObj (int n))]"]) (use less.prems(4) in \<open>auto intro: bs_cons bs_nil\<close>)
qed

text \<open>C1: Evaluation returns, and what it returns is right: when an expression has a value in the semantics, \<open>scm_eval\<close> of
  every datum that represents the expression, in every environment that represents the local bindings, returns an object that
  represents the value. It changes no cell that existed.\<close>

theorem evaluation_meaning:
  assumes "bigstep G \<rho> e v" "brk_ok (m_heap m)" "program_ok g k G (m_heap m)" "rep_exp g k (m_heap m) x e"
    "rep_env g k (m_heap m) env \<rho>"
  shows "\<exists>v' h'. scm_eval g x env m = Some (Value v', m\<lparr>m_heap := h'\<rparr>) \<and> heap_le (m_heap m) h' \<and> rep_val g k h' v' v"
  by (rule evaluation_correct [OF assms])


lemma evaluation_meaning_witness:
  "\<exists>v' h'. scm_eval fact_interp (Ptr PTAG_CONS 35) SCM_NULL (fact_mach 4) = Some (Value v', (fact_mach 4)\<lparr>m_heap := h'\<rparr>) \<and>
     heap_le (fact_heap 4) h' \<and> rep_val fact_interp fact_names h' v' (VAtom (IntObj 24))"
proof -
  have b: "bigstep fact_globals [] (App (Var (Ptr PTAG_MISC 15)) [Const (IntObj 4)]) (VAtom (IntObj 24))"
    using fact_bigstep [of 4 "[]" "Const (IntObj 4)"] bs_const [of fact_globals "[]" "IntObj 4"] by (simp add: fact_numeral)
  have m: "m_heap (fact_mach 4) = fact_heap 4" by (simp add: fact_mach_def)
  show ?thesis
    using evaluation_meaning [OF b, of "fact_mach 4" fact_interp fact_names "Ptr PTAG_CONS 35" SCM_NULL] fact_call_rep [of 4]
      fact_program [of 4] fact_brk [of 4] re_nil unfolding m by blast
qed

text \<open>C2: An expression that fails in the semantics raises the error of the semantics: an unbound variable, a call of what is no
  procedure, a wrong number of operands, an overflow or a wrong type in a reduction, the car or cdr of what is no pair, wherever
  it comes first in the order of evaluation.\<close>

theorem failure_meaning:
  assumes "fails G U \<rho> e msg" "brk_ok (m_heap m)" "program_ok g k G (m_heap m)" "unbound_ok U (m_heap m)"
    "\<exists>a. scm_values_applier g = Ptr PTAG_MISC a" "rep_exp g k (m_heap m) x e" "rep_env g k (m_heap m) env \<rho>"
  shows "\<exists>err m'. scm_eval g x env m = Some (Raised err, m') \<and> error_text err = msg"
  by (rule failure_correct [OF assms])

lemma failure_meaning_witness:
  "\<exists>err m'. scm_eval fact_interp (Ptr PTAG_CONS 35) SCM_NULL (fact_mach 25) = Some (Raised err, m') \<and>
     error_text err = ''fixnum overflow''"
proof -
  have b: "fails fact_globals {} [] (App (Var (Ptr PTAG_MISC 15)) [Const (IntObj 25)]) ''fixnum overflow''"
    using fact_fails [of 25 "[]" "Const (IntObj 25)"] bs_const [of fact_globals "[]" "IntObj 25"] by (simp add: fits_bounds)
  have m: "m_heap (fact_mach 25) = fact_heap 25" by (simp add: fact_mach_def)
  show ?thesis
    using failure_meaning [OF b, of "fact_mach 25" fact_interp fact_names "Ptr PTAG_CONS 35" SCM_NULL] fact_call_rep [of 25]
      fact_program [of 25] fact_brk [of 25] re_nil unfolding m by (simp add: unbound_ok_def fact_interp_def)
qed

text \<open>C3: The evaluator runs the recursive definition \<^verbatim>\<open>(lambda (n) (if (< n 2) 1 (* n (fact (- n 1)))))\<close> to its end for
  every argument that is a fixnum: it returns 1 for a negative one, the factorial for one from 0 to 19, and raises the overflow
  error from 20 on, never a wrapped number.\<close>

theorem factorial_evaluates:
  assumes "SCM_INT_MIN \<le> i" "i \<le> SCM_INT_MAX"
  shows "if i \<le> 19
    then \<exists>h. scm_eval fact_interp (Ptr PTAG_CONS 35) SCM_NULL (fact_mach i) =
      Some (Value (IntObj (if i < 0 then 1 else fact (nat i))), (fact_mach i)\<lparr>m_heap := h\<rparr>)
    else \<exists>err m. scm_eval fact_interp (Ptr PTAG_CONS 35) SCM_NULL (fact_mach i) = Some (Raised err, m) \<and>
      error_text err = ''fixnum overflow''"
proof -
  have m: "m_heap (fact_mach i) = fact_heap i" by (simp add: fact_mach_def)
  show ?thesis
  proof (cases "i \<le> 19")
    case True
    let ?v = "if i < 0 then 1 else fact (nat i) :: int"
    have b: "bigstep fact_globals [] (App (Var (Ptr PTAG_MISC 15)) [Const (IntObj i)]) (VAtom (IntObj ?v))"
    proof (cases "i < 0")
      case True
      then show ?thesis using fact_base [of i "[]" "Const (IntObj i)"] by (simp add: bs_const)
    next
      case False
      then have "int (nat i) = i" by simp
      then show ?thesis
        using fact_bigstep [of "nat i" "[]" "Const (IntObj i)"] False True by (simp add: bs_const nat_le_iff)
    qed
    obtain v' h' where "scm_eval fact_interp (Ptr PTAG_CONS 35) SCM_NULL (fact_mach i) =
        Some (Value v', (fact_mach i)\<lparr>m_heap := h'\<rparr>)" "rep_val fact_interp fact_names h' v' (VAtom (IntObj ?v))"
      using evaluation_correct [OF b, of "fact_mach i" fact_interp fact_names "Ptr PTAG_CONS 35" SCM_NULL] fact_call_rep
        fact_program fact_brk re_nil unfolding m by blast
    then show ?thesis using True by (auto simp: rep_atom)
  next
    case False
    then have n: "int (nat i) = i" "20 \<le> nat i" by linarith+
    have b: "fails fact_globals {} [] (App (Var (Ptr PTAG_MISC 15)) [Const (IntObj i)]) ''fixnum overflow''"
      using fact_fails [of "nat i" "[]" "Const (IntObj i)"] n assms by (simp add: bs_const fits_bounds num_defs)
    show ?thesis
      using failure_correct [OF b, of "fact_mach i" fact_interp fact_names "Ptr PTAG_CONS 35" SCM_NULL] fact_call_rep
        fact_program fact_brk re_nil False unfolding m by (simp add: unbound_ok_def fact_interp_def)
  qed
qed

lemma factorial_evaluates_witness:
  "(\<exists>h. scm_eval fact_interp (Ptr PTAG_CONS 35) SCM_NULL (fact_mach 5) = Some (Value (IntObj 120), (fact_mach 5)\<lparr>m_heap := h\<rparr>)) \<and>
   (\<exists>h. scm_eval fact_interp (Ptr PTAG_CONS 35) SCM_NULL (fact_mach (-3)) = Some (Value (IntObj 1), (fact_mach (-3))\<lparr>m_heap := h\<rparr>))"
  using factorial_evaluates [of 5] factorial_evaluates [of "-3"] by (simp add: fact_numeral num_defs)

end
