(* ===== verification/Spec2Isabelle.thy ===== *)
theory Spec2Isabelle
  imports Prelude Encoding Store Lists GC Compact Numbers Strings NumberIO Env Vectors Equal Symbols Ports Reader Datum Readback Format Writer Printing Machine Macro Syntax Control Eval Semantics Meaning Failures Recursion
begin

text \<open>
  A verification development for SigScheme, a Scheme interpreter in C.

  \<^bold>\<open>The program and the model.\<close> The core of SigScheme is under \<^verbatim>\<open>src/\<close>, its headers under
  \<^verbatim>\<open>include/sigscheme/\<close>. Objects are words with a tag (\<^verbatim>\<open>storage-compact.h\<close>) or pointers to cells
  of two words that a conservative mark and sweep collector manages (\<^verbatim>\<open>storage-gc.c\<close>). Over the storage
  lie the data types of the language, the environments and symbols, ports with multibyte characters, the
  reader and the writer, and the evaluator with its syntaxes. The theories follow this order. A
  definition has the name of the C function or macro that it translates. Functions that only read the
  heap take it as an argument; functions that change it return it updated. An error that the C code
  raises is the left side of the type \<open>'a res\<close>. A loop or a recursion that may not end is a
  \<^verbatim>\<open>partial_function\<close> in the option monad: \<open>None\<close> means that the C code does not return, or that what
  it does there is undefined in C. The evaluator is such a fixed point over the points its recursion
  goes through; the functions it calls take it as an argument and are monotone in it. Its steps give a
  value, an error or a jump (\<^verbatim>\<open>longjmp\<close>) with the next state.

  \<^bold>\<open>Configuration.\<close> LP64, storage-compact, no reals, no R7RS libraries, hygienic macros, strict encoding
  and argument checks, multibyte characters with UTF-8 as the default codec, no null characters in
  strings, strict toplevel definitions, internal definitions, continuations that only escape
  (\<^verbatim>\<open>SCM_NESTED_CONTINUATION_ONLY\<close>), no backtrace, no legacy macros, SRFI 6, 9, 23, 28, 38, 48 and 60.
  Code that is compiled out in it is not modelled.

  \<^bold>\<open>Theories.\<close>
  \<^item> \<open>Prelude\<close> --- machine types, word lemmas, theorem collections.
  \<^item> \<open>Encoding\<close> --- \<^verbatim>\<open>encoding.c\<close>: the six character codecs. Each decodes
    what it encodes and never scans past the end of a string.
  \<^item> \<open>Store\<close> --- objects, cells and the heap: the storage abstraction layer of
    \<^verbatim>\<open>sigscheme.h\<close> and \<^verbatim>\<open>storage.c\<close>.
  \<^item> \<open>Compact\<close> --- \<^verbatim>\<open>storage-compact.h\<close>: the bit patterns of objects and
    cells. They represent the objects of \<open>Store\<close> without ambiguity.
  \<^item> \<open>GC\<close> --- \<^verbatim>\<open>storage-gc.c\<close>: free lists, marking, sweeping, protected
    variables. A collection frees exactly the unreachable cells, and an allocation never returns a reachable one.
  \<^item> \<open>Lists\<close> --- \<^verbatim>\<open>list.c\<close>: list procedures, with the two-pointer cycle
    detection of \<^verbatim>\<open>length\<close> and the queues that build lists in place.
  \<^item> \<open>Numbers\<close> --- \<^verbatim>\<open>number.c\<close>,
    \<^verbatim>\<open>module-srfi60.c\<close>, \<^verbatim>\<open>reduce\<close> of
    \<^verbatim>\<open>eval.c\<close>: checked fixnum arithmetic against the integers.
  \<^item> \<open>Strings\<close> --- \<^verbatim>\<open>string.c\<close>,
    \<^verbatim>\<open>string-procedure.c\<close>: strings against lists of characters, for every codec.
  \<^item> \<open>NumberIO\<close> --- \<^verbatim>\<open>number-io.c\<close>: printing into a bounded buffer and
    parsing with all prefixes.
  \<^item> \<open>Env\<close> --- \<^verbatim>\<open>env.c\<close>: frames, lookup through wrapped identifiers,
    extension and validation, against lists of bindings.
  \<^item> \<open>Vectors\<close> --- \<^verbatim>\<open>vector.c\<close>, \<^verbatim>\<open>bytevector.c\<close>.
  \<^item> \<open>Equal\<close> --- \<^verbatim>\<open>procedure.c\<close>, \<^verbatim>\<open>list.c\<close>,
    \<^verbatim>\<open>module-srfi9.c\<close>: equivalence predicates against equality of trees.
  \<^item> \<open>Symbols\<close> --- \<^verbatim>\<open>symbol.c\<close>: the hash table of interned symbols.
  \<^item> \<open>Ports\<close> --- \<^verbatim>\<open>port.c\<close>, \<^verbatim>\<open>scmport-str.c\<close>,
    \<^verbatim>\<open>scmport-mbchar.c\<close>, \<^verbatim>\<open>scmport-basechar.c\<close>,
    \<^verbatim>\<open>module-srfi6.c\<close>: string ports as lists of characters.
  \<^item> \<open>Reader\<close> --- \<^verbatim>\<open>read.c\<close>: lexer and reader over a port, one function
    over the points of the recursion.
  \<^item> \<open>Datum\<close>, \<open>Readback\<close> --- external representations, and the proof that the reader
    reads them back.
  \<^item> \<open>Format\<close> --- \<^verbatim>\<open>format.c\<close>,
    \<^verbatim>\<open>module-srfi28.c\<close>, \<^verbatim>\<open>module-srfi48.c\<close>: formatted output.
  \<^item> \<open>Writer\<close> --- \<^verbatim>\<open>write.c\<close>, \<^verbatim>\<open>module-srfi38.c\<close>:
    the writer with the labels of shared objects and its hash table.
  \<^item> \<open>Printing\<close> --- the writer prints the text of a datum, so that writing and reading are a
    round trip.
  \<^item> \<open>Machine\<close> --- the state of the evaluator, the sequencing of its steps, loops over steps, the
    table of C functions and the argument checks of \<^verbatim>\<open>sigschemeinternal.h\<close>.
  \<^item> \<open>Macro\<close> --- \<^verbatim>\<open>macro.c\<close>: the compiler of patterns and templates, the
    matcher, transcription, expansion, unwrapping.
  \<^item> \<open>Syntax\<close> --- \<^verbatim>\<open>syntax.c\<close>: every syntax, with internal definitions,
    and the syntaxes of \<^verbatim>\<open>macro.c\<close>.
  \<^item> \<open>Control\<close> --- \<^verbatim>\<open>procedure.c\<close>, \<^verbatim>\<open>promise.c\<close>,
    \<^verbatim>\<open>continuation.c\<close>, \<^verbatim>\<open>qquote.c\<close>: procedures that call procedures,
    promises, dynamic extents, escaping continuations, quasiquotation.
  \<^item> \<open>Eval\<close> --- \<^verbatim>\<open>eval.c\<close>: calls and evaluation, one least fixed point
    over the points of the recursion.
  \<^item> \<open>Semantics\<close> --- a big-step semantics of a core language, and what it means that a datum, an
    object and an environment represent an expression, a value and bindings.
  \<^item> \<open>Meaning\<close> --- the evaluator returns on every expression that has a value and its result
    represents the value.
  \<^item> \<open>Failures\<close> --- which expressions fail and with what error, and that the evaluator raises it.
  \<^item> \<open>Recursion\<close> --- the properties of the evaluator, and a recursive program that it runs to its
    end.

  \<^bold>\<open>Interfaces.\<close> \<open>cell_allocator\<close> (theory \<open>Store\<close>) is what an allocator of cells promises; it is
  interpreted on the heap of \<open>Store\<close> and, as a sublocale, on the collecting allocator of \<open>GC\<close>.
  \<open>char_scanner\<close>, \<open>char_codec\<close>, \<open>string_codec\<close>, \<open>port_codec\<close> and \<open>reader_codec\<close> are what scanners,
  strings, ports and the reader need of a character codec, each extending the one before; all are interpreted on the
  six codec tables. \<open>accumulator\<close> and \<open>comparator\<close> are the contracts of the reduction operators.

  \<^bold>\<open>Bounds and fuel.\<close> No function of the model runs on fuel. Fixnums are the integers of 60 bits, the range that
  storage-compact leaves; that C's intermediate results fit in 64 bits is shown where it is used. Sizes
  of C buffers are in the definitions (the digits of \<^verbatim>\<open>scm_int2string\<close>, the token buffers of the reader, the
  read buffer of a port) and writing past them is \<open>None\<close>. \<^verbatim>\<open>malloc\<close> fails in theory \<open>GC\<close> only.

  \<^bold>\<open>Not modelled.\<close>
  \<^item> file ports (\<^verbatim>\<open>scmport-file.c\<close>), \<^verbatim>\<open>load.c\<close> and
    \<^verbatim>\<open>main.c\<close>: input and output of the operating system;
  \<^item> error objects, handlers and backtraces (\<^verbatim>\<open>error.c\<close>,
    \<^verbatim>\<open>module-srfi34.c\<close>): an error of the model ends the run;
  \<^item> \<^verbatim>\<open>gcroots/\<close>: the scan of registers and of the stack, a parameter of
    \<open>GC\<close>;
  \<^item> \<^verbatim>\<open>r7rs.c\<close>, \<^verbatim>\<open>library.c\<close>,
    \<^verbatim>\<open>number-real.c\<close>, \<^verbatim>\<open>storage-fatty.h\<close>,
    \<^verbatim>\<open>scmport-sbchar.c\<close>, \<^verbatim>\<open>legacy-macro.c\<close>: compiled out in the
    configuration;
  \<^item> \<^verbatim>\<open>unicode-table.c\<close>: generated data;
  \<^item> the tests, the tools and the libraries written in Scheme.
\<close>

end
